(* ===== verification/Sonic_Prelude.thy ===== *)
theory Sonic_Prelude
  imports "HOL-Library.Word" "HOL-Library.Monad_Syntax"
begin

text \<open>
  Shared material of the development: the machine types of the source as words, memory reads and
  writes that fail outside their block, and the generic list and word lemmas the components use.
\<close>

unbundle bit_operations_syntax

type_synonym u8 = "8 word"
type_synonym u16 = "16 word"
type_synonym u32 = "32 word"
type_synonym u64 = "64 word"
type_synonym bytes = "u8 list"

named_theorems byte_simps \<open>evaluation of byte constants and byte tables\<close>
named_theorems mem_simps \<open>reads and writes of byte blocks\<close>

text \<open>
  A read of a byte block. The source reads through a raw pointer; a read outside the block is
  undefined behaviour, here the value \<^term>\<open>None\<close>.
\<close>

definition rd :: "'a list \<Rightarrow> nat \<Rightarrow> 'a option" where
  "rd b i = (if i < length b then Some (b ! i) else None)"

text \<open>A write of consecutive bytes into a block; \<^term>\<open>None\<close> when it leaves the block.\<close>

definition wr :: "'a list \<Rightarrow> nat \<Rightarrow> 'a list \<Rightarrow> 'a list option" where
  "wr b i xs = (if i + length xs \<le> length b
     then Some (take i b @ xs @ drop (i + length xs) b) else None)"

lemma rd_Some [mem_simps]: "i < length b \<Longrightarrow> rd b i = Some (b ! i)"
  by (simp add: rd_def)

lemma rd_None [mem_simps]: "length b \<le> i \<Longrightarrow> rd b i = None"
  by (simp add: rd_def)

lemma rd_eq_Some_iff: "rd b i = Some x \<longleftrightarrow> i < length b \<and> b ! i = x"
  by (auto simp: rd_def)

lemma wr_Some [mem_simps]:
  "i + length xs \<le> length b \<Longrightarrow> wr b i xs = Some (take i b @ xs @ drop (i + length xs) b)"
  by (simp add: wr_def)

lemma wr_ex: "i + length xs \<le> length b \<Longrightarrow> \<exists>b'. wr b i xs = Some b'"
  by (simp add: wr_def)

lemma wr_length: "wr b i xs = Some b' \<Longrightarrow> length b' = length b"
  by (auto simp: wr_def split: if_splits)

lemma wr_take: "wr b i xs = Some b' \<Longrightarrow> take (i + length xs) b' = take i b @ xs"
  by (auto simp: wr_def split: if_splits)

lemma wr_take_before: "wr b i xs = Some b' \<Longrightarrow> j \<le> i \<Longrightarrow> take j b' = take j b"
  by (auto simp: wr_def min_def split: if_splits)

text \<open>The bytes of a string literal of the source.\<close>

definition bytes_of :: "string \<Rightarrow> bytes" where
  "bytes_of s = map of_char s"

lemma bytes_of_simps [simp]:
  "bytes_of [] = []" "bytes_of (c # s) = of_char c # bytes_of s"
  by (simp_all add: bytes_of_def)

lemma length_bytes_of [simp]: "length (bytes_of s) = length s"
  by (simp add: bytes_of_def)

text \<open>Every statement about one byte can be checked on its 256 values.\<close>

lemma u8_cases: "(\<And>n. n < 256 \<Longrightarrow> P (word_of_nat n :: u8)) \<Longrightarrow> P c"
proof -
  assume H: "\<And>n. n < 256 \<Longrightarrow> P (word_of_nat n :: u8)"
  have "unat c < 256" using unsigned_less [of c] by simp
  from H [OF this] show "P c" by simp
qed

lemma u8_all: "list_all (\<lambda>n. P (word_of_nat n :: u8)) [0..<256] \<Longrightarrow> P c"
  by (rule u8_cases) (auto simp: list_all_iff)

text \<open>Words read as naturals: the facts the bit-level components share.\<close>

lemma unat_u8_lt: "unat (c :: u8) < 256"
  using unsigned_less [of c] by simp

lemma unat_u64_lt: "unat (c :: u64) < 18446744073709551616"
  using unsigned_less [of c] by simp

lemma uint_u64_lt: "uint (c :: u64) < 18446744073709551616"
  using unsigned_less [of c, where ?'a = int] by simp

lemma bit_u8_ge [simp]: "8 \<le> n \<Longrightarrow> \<not> bit (c :: u8) n"
  by (auto dest: bit_imp_le_length)

lemma unat_ucast_u8: "unat (ucast (w :: u64) :: u8) = unat w mod 256"
  by (simp add: unsigned_ucast_eq take_bit_eq_mod)

lemma unat_ucast_u64 [simp]: "unat (ucast (c :: u8) :: u64) = unat c"
proof -
  have "unat c < 2 ^ 64" by (rule less_le_trans [OF unat_u8_lt]) simp
  then show ?thesis by (simp only: unsigned_ucast_eq) (simp add: take_bit_nat_eq_self)
qed

lemma unat_shr: "unat (drop_bit k w) = unat w div 2 ^ k"
  by (simp only: unat_drop_bit_eq) (simp only: drop_bit_eq_div)

lemma unat_shl:
  "unat w * 2 ^ k < 2 ^ LENGTH('a) \<Longrightarrow> unat (push_bit k (w :: 'a::len word)) = unat w * 2 ^ k"
  by (simp only: unsigned_push_bit_eq) (simp add: push_bit_eq_mult take_bit_nat_eq_self)

lemma unat_low_mask: "unat (w AND mask k) = unat w mod 2 ^ k"
  by (simp only: take_bit_eq_mask [symmetric] unsigned_take_bit_eq) (simp only: take_bit_eq_mod)

lemma unat_plus_lt:
  "unat a + unat b < 2 ^ LENGTH('a) \<Longrightarrow> unat (a + b) = unat a + unat (b :: 'a::len word)"
  by (simp add: unat_word_ariths)

lemma unat_minus_le: "b \<le> a \<Longrightarrow> unat (a - b) = unat a - unat (b :: 'a::len word)"
  by (rule unat_sub)

lemma bit_top_u64: "bit (w :: u64) 63 \<longleftrightarrow> 2 ^ 63 \<le> unat w"
proof -
  have "bit w 63 \<longleftrightarrow> bit (unat w) 63" by (simp add: bit_unsigned_iff)
  also have "\<dots> \<longleftrightarrow> odd (unat w div 2 ^ 63)" by (simp add: bit_iff_odd)
  also have "\<dots> \<longleftrightarrow> 2 ^ 63 \<le> unat w"
  proof (cases "2 ^ 63 \<le> unat w")
    case True
    then have "unat w div 2 ^ 63 = 1"
      using unat_u64_lt [of w] by (intro div_nat_eqI) simp_all
    with True show ?thesis by simp
  qed simp
  finally show ?thesis .
qed

lemma sint_u64:
  "sint (w :: u64) = (if unat w < 2 ^ 63 then int (unat w) else int (unat w) - 2 ^ 64)"
proof -
  have "sint w = signed_take_bit 63 (uint w)" by (simp add: sint_uint)
  also have "\<dots> = take_bit 64 (uint w) - 2 ^ 64 * of_bool (bit (uint w) 63)"
    by (simp add: signed_take_bit_eq_take_bit_minus)
  also have "take_bit 64 (uint w) = uint w"
  proof (rule take_bit_int_eq_self)
    show "uint w < 2 ^ 64" using unsigned_less [of w, where ?'a = int] by simp
  qed simp
  finally show ?thesis
    using bit_top_u64 [of w] by (simp add: bit_unsigned_iff)
qed

end
