(* ===== verification/Sonic_Error.thy ===== *)
theory Sonic_Error
  imports Sonic_Prelude
begin

text \<open>
  Error codes, the parse result and the option flags: \<open>error.h\<close> and \<open>dom/flags.h\<close>.
  A \<open>SonicError\<close> is the enum; \<open>error_code\<close> its numeric value. \<open>ErrorMsg\<close> takes the raw integer
  an enum object may hold, because the source checks it against the enum's range.
  Flag sets are 32-bit words, combined and tested with the operators of \<open>flags.h\<close>.
\<close>

datatype SonicError =
    kErrorNone | kParseErrorEof | kParseErrorInvalidChar | kParseErrorInfinity
  | kParseErrorUnEscaped | kParseErrorEscapedFormat | kParseErrorEscapedUnicode
  | kParseErrorInvalidUTF8 | kParseErrorUnknownObjKey | kParseErrorArrIndexOutOfRange
  | kParseErrorMismatchType | kSerErrorUnsupportedType | kSerErrorInfinity
  | kSerErrorInvalidObjKey | kErrorNoMem | kParseErrorUnexpect | kSaxTermination
  | kUnsupportedJsonPath | kNotFoundByJsonPath | kUnmatchedTypeInJsonPath | kErrorNoneNoMatch

definition kAllErrors :: "SonicError list" where
  "kAllErrors = [kErrorNone, kParseErrorEof, kParseErrorInvalidChar, kParseErrorInfinity,
     kParseErrorUnEscaped, kParseErrorEscapedFormat, kParseErrorEscapedUnicode,
     kParseErrorInvalidUTF8, kParseErrorUnknownObjKey, kParseErrorArrIndexOutOfRange,
     kParseErrorMismatchType, kSerErrorUnsupportedType, kSerErrorInfinity,
     kSerErrorInvalidObjKey, kErrorNoMem, kParseErrorUnexpect, kSaxTermination,
     kUnsupportedJsonPath, kNotFoundByJsonPath, kUnmatchedTypeInJsonPath, kErrorNoneNoMatch]"

fun error_code :: "SonicError \<Rightarrow> int" where
  "error_code kErrorNone = 0"
| "error_code kParseErrorEof = 1"
| "error_code kParseErrorInvalidChar = 2"
| "error_code kParseErrorInfinity = 3"
| "error_code kParseErrorUnEscaped = 4"
| "error_code kParseErrorEscapedFormat = 5"
| "error_code kParseErrorEscapedUnicode = 6"
| "error_code kParseErrorInvalidUTF8 = 7"
| "error_code kParseErrorUnknownObjKey = 8"
| "error_code kParseErrorArrIndexOutOfRange = 9"
| "error_code kParseErrorMismatchType = 10"
| "error_code kSerErrorUnsupportedType = 11"
| "error_code kSerErrorInfinity = 12"
| "error_code kSerErrorInvalidObjKey = 13"
| "error_code kErrorNoMem = 14"
| "error_code kParseErrorUnexpect = 15"
| "error_code kSaxTermination = 16"
| "error_code kUnsupportedJsonPath = 17"
| "error_code kNotFoundByJsonPath = 18"
| "error_code kUnmatchedTypeInJsonPath = 19"
| "error_code kErrorNoneNoMatch = 20"

definition kErrorNums :: int where "kErrorNums = 21"

lemma error_code_inj: "error_code a = error_code b \<Longrightarrow> a = b"
  by (cases a; cases b; simp)

lemma error_code_range: "0 \<le> error_code e \<and> error_code e < kErrorNums"
  by (cases e) (simp_all add: kErrorNums_def)

text \<open>The enum values order the errors, as the integers behind them do.\<close>

instantiation SonicError :: linorder
begin

definition less_eq_SonicError :: "SonicError \<Rightarrow> SonicError \<Rightarrow> bool" where
  "less_eq_SonicError a b \<longleftrightarrow> error_code a \<le> error_code b"

definition less_SonicError :: "SonicError \<Rightarrow> SonicError \<Rightarrow> bool" where
  "less_SonicError a b \<longleftrightarrow> error_code a < error_code b"

instance
  by standard (auto simp: less_eq_SonicError_def less_SonicError_def dest: error_code_inj)

end

subsection \<open>Messages\<close>

definition kErrorMsg :: "(SonicError \<times> string) list" where
  "kErrorMsg = [
    (kErrorNone, ''No errors''),
    (kParseErrorEof, ''Parse: JSON is empty or truncated.''),
    (kParseErrorInvalidChar, ''Parse: JSON has invalid chars, e.g. 1.2x.''),
    (kParseErrorInfinity, ''Parse: JSON number is infinity.''),
    (kParseErrorUnEscaped,
      ''Parse: JSON string has unescaped control chars ('' @ [CHR 0x5C] @ ''x00 ~ ''
        @ [CHR 0x5C] @ ''x1f).''),
    (kParseErrorEscapedFormat,
      ''Parse: JSON string has wrong escaped format, e.g.'' @ [CHR 0x22, CHR 0x5C] @ ''g''
        @ [CHR 0x22]),
    (kParseErrorEscapedUnicode,
      ''Parse: JSON string has wrong escaped unicode, e.g. '' @ [CHR 0x22, CHR 0x5C] @ ''uD800''
        @ [CHR 0x22]),
    (kParseErrorInvalidUTF8,
      ''Parse: JSON string has wrong escaped unicode, e.g. '' @ [CHR 0x22, CHR 0x5C] @ ''xff''
        @ [CHR 0x5C] @ ''xff'' @ [CHR 0x22]),
    (kParseErrorUnknownObjKey, ''ParseOnDemand: Not found the target keys in object.''),
    (kParseErrorArrIndexOutOfRange, ''ParseOnDemand: the target array index out of range.''),
    (kParseErrorMismatchType, ''ParseOnDemand: the target type is not matched.''),
    (kSerErrorUnsupportedType, ''Serialize: DOM has invalid node type.''),
    (kSerErrorInfinity, ''Serialize: DOM has infinity number node.''),
    (kSerErrorInvalidObjKey, ''Serialize: The type of object's key is not string.''),
    (kErrorNoMem, ''Memory is not enough to allocate.''),
    (kParseErrorUnexpect, ''Unexpected Errors''),
    (kSaxTermination, ''Parse: SAX handler return false to terminate parsing.''),
    (kUnsupportedJsonPath, ''JsonPath: Unsupported json path.''),
    (kNotFoundByJsonPath, ''JsonPath: Not found the target by json path.''),
    (kUnmatchedTypeInJsonPath, ''JsonPath: The type of node is not matched.''),
    (kErrorNoneNoMatch, ''JsonPath: no match.'')]"

definition ErrorMsg :: "int \<Rightarrow> string" where
  "ErrorMsg idx =
     (if idx < 0 \<or> kErrorNums \<le> idx then ''Unknown error''
      else let info = kErrorMsg ! nat idx
           in if error_code (fst info) \<noteq> idx then ''Unknown error'' else snd info)"

lemma kErrorMsg_in_sync: "map fst kErrorMsg = kAllErrors"
  by (simp add: kErrorMsg_def kAllErrors_def)

lemma kAllErrors_nth: "nat (error_code e) < length kAllErrors \<and> kAllErrors ! nat (error_code e) = e"
  by (cases e) (simp_all add: kAllErrors_def)

lemma length_kErrorMsg: "length kErrorMsg = length kAllErrors"
  by (metis kErrorMsg_in_sync length_map)

text \<open>
  The table is complete and in sync with the enum: every enumerator has its own message, which is
  never the fallback.
\<close>

lemma ErrorMsg_of_code: "ErrorMsg (error_code e) = snd (kErrorMsg ! nat (error_code e))"
  and kErrorMsg_nth_fst: "fst (kErrorMsg ! nat (error_code e)) = e"
proof -
  have n: "nat (error_code e) < length kErrorMsg"
    using kAllErrors_nth [of e] by (simp add: length_kErrorMsg)
  then have "fst (kErrorMsg ! nat (error_code e)) = map fst kErrorMsg ! nat (error_code e)"
    by simp
  also have "\<dots> = e" using kAllErrors_nth [of e] by (simp add: kErrorMsg_in_sync)
  finally show f: "fst (kErrorMsg ! nat (error_code e)) = e" .
  then show "ErrorMsg (error_code e) = snd (kErrorMsg ! nat (error_code e))"
    using error_code_range [of e] by (simp add: ErrorMsg_def Let_def)
qed

subsection \<open>Parse results\<close>

record ParseResult =
  pr_err :: SonicError
  pr_off :: nat

definition mk_ParseResult :: "SonicError \<Rightarrow> nat \<Rightarrow> ParseResult" where
  "mk_ParseResult e off = \<lparr>pr_err = e, pr_off = off\<rparr>"

definition ParseResult_of_error :: "SonicError \<Rightarrow> ParseResult" where
  "ParseResult_of_error e = \<lparr>pr_err = e, pr_off = 0\<rparr>"

subsection \<open>Flags\<close>

definition kParseDefault :: u32 where "kParseDefault = 0"
definition kParseAllowUnescapedControlChars :: u32 where
  "kParseAllowUnescapedControlChars = push_bit 1 1"
definition kParseIntegerAsRaw :: u32 where "kParseIntegerAsRaw = push_bit 2 1"
definition kParseOverflowNumAsNumStr :: u32 where "kParseOverflowNumAsNumStr = push_bit 3 1"

definition kSerializeDefault :: u32 where "kSerializeDefault = 0"
definition kSerializeAppendBuffer :: u32 where "kSerializeAppendBuffer = push_bit 1 1"
definition kSerializeEscapeEmoji :: u32 where "kSerializeEscapeEmoji = push_bit 2 1"
definition kSerializeInfNan :: u32 where "kSerializeInfNan = push_bit 3 1"
definition kSerializeUnicodeEscapeUppercase :: u32 where
  "kSerializeUnicodeEscapeUppercase = push_bit 4 1"
definition kSerializeFloatFormatJava :: u32 where "kSerializeFloatFormatJava = push_bit 5 1"

definition flags_or :: "u32 \<Rightarrow> u32 \<Rightarrow> u32" where
  "flags_or lhs rhs = lhs OR rhs"

definition flags_and :: "u32 \<Rightarrow> u32 \<Rightarrow> bool" where
  "flags_and lhs rhs \<longleftrightarrow> lhs AND rhs \<noteq> 0"

definition kSerializeJavaStyleFlag :: u32 where
  "kSerializeJavaStyleFlag = flags_or kSerializeFloatFormatJava kSerializeUnicodeEscapeUppercase"

lemmas parse_flag_defs = kParseDefault_def kParseAllowUnescapedControlChars_def
  kParseIntegerAsRaw_def kParseOverflowNumAsNumStr_def

lemmas serialize_flag_defs = kSerializeDefault_def kSerializeAppendBuffer_def
  kSerializeEscapeEmoji_def kSerializeInfNan_def kSerializeUnicodeEscapeUppercase_def
  kSerializeFloatFormatJava_def kSerializeJavaStyleFlag_def

lemma flags_and_or: "flags_and (flags_or a b) c \<longleftrightarrow> flags_and a c \<or> flags_and b c"
proof -
  have "(a OR b) AND c = (a AND c) OR (b AND c)" by (simp add: bit.conj_disj_distrib2)
  moreover have "x OR y = 0 \<longleftrightarrow> x = 0 \<and> y = 0" for x y :: u32 by (rule or_eq_0_iff)
  ultimately show ?thesis by (simp add: flags_and_def flags_or_def)
qed

end
