(* ===== verification/Sonic_NodeBits.thy ===== *)
theory Sonic_NodeBits
  imports Sonic_Prelude
begin

text \<open>
  The 16-byte node representation of \<open>dom/genericnode.h\<close> with the type codes of \<open>dom/type.h\<close>.
  The anonymous union of the class is a record of its two 64-bit words: the first is
  \<open>sv.len\<close>/\<open>o.len\<close>/\<open>a.len\<close>/\<open>n.t\<close>, whose low byte is \<open>t.t\<close>, the second is the pointer, the
  number or the children. An address is a 64-bit word; \<open>es\<close> is the address of the literal \<open>""\<close>.
\<close>

subsection \<open>Type codes\<close>

definition kNull :: u8 where "kNull = 0"
definition kBool :: u8 where "kBool = 2"
definition kNumber :: u8 where "kNumber = 3"
definition kString :: u8 where "kString = 4"
definition kRaw :: u8 where "kRaw = 5"
definition kObject :: u8 where "kObject = 6"
definition kArray :: u8 where "kArray = 7"
definition kFalse :: u8 where "kFalse = push_bit 3 0 OR kBool"
definition kTrue :: u8 where "kTrue = push_bit 3 1 OR kBool"
definition kUint :: u8 where "kUint = push_bit 3 0 OR kNumber"
definition kSint :: u8 where "kSint = push_bit 3 1 OR kNumber"
definition kReal :: u8 where "kReal = push_bit 3 2 OR kNumber"
definition kNumStr :: u8 where "kNumStr = push_bit 3 3 OR kNumber"
definition kStringCopy :: u8 where "kStringCopy = kString"
definition kStringFree :: u8 where "kStringFree = push_bit 3 1 OR kString"
definition kStringConst :: u8 where "kStringConst = push_bit 3 2 OR kString"

definition kBasicTypeMask :: u8 where "kBasicTypeMask = 0x7"
definition kSubTypeMask :: u8 where "kSubTypeMask = 0x1F"
definition kOwnedStringMask :: u8 where "kOwnedStringMask = push_bit 5 1"
definition kContainerMask :: u8 where "kContainerMask = 0x6"
definition kInfoBits :: nat where "kInfoBits = 8"
definition kTotalTypeBits :: nat where "kTotalTypeBits = 8"

lemmas type_code_defs = kNull_def kBool_def kNumber_def kString_def kRaw_def kObject_def
  kArray_def kFalse_def kTrue_def kUint_def kSint_def kReal_def kNumStr_def kStringCopy_def
  kStringFree_def kStringConst_def kBasicTypeMask_def kSubTypeMask_def kOwnedStringMask_def
  kContainerMask_def kInfoBits_def kTotalTypeBits_def

text \<open>The types a node of the document can have.\<close>

definition node_types :: "u8 list" where
  "node_types = [kNull, kFalse, kTrue, kUint, kSint, kReal, kNumStr, kStringCopy, kStringFree,
     kStringConst, kRaw, kObject, kArray]"

subsection \<open>The node words\<close>

record NodeData =
  nd_len :: u64
  nd_val :: u64

definition zero_data :: NodeData where
  "zero_data = \<lparr>nd_len = 0, nd_val = 0\<rparr>"

definition nd_t :: "NodeData \<Rightarrow> u8" where
  "nd_t d = ucast (nd_len d)"

definition GetType :: "NodeData \<Rightarrow> u8" where
  "GetType d = nd_t d AND kSubTypeMask"

definition getBasicType :: "NodeData \<Rightarrow> u8" where
  "getBasicType d = nd_t d AND kBasicTypeMask"

definition IsContainer :: "NodeData \<Rightarrow> bool" where
  "IsContainer d \<longleftrightarrow> nd_t d AND kContainerMask = kContainerMask"

definition IsNull :: "NodeData \<Rightarrow> bool" where "IsNull d \<longleftrightarrow> getBasicType d = kNull"
definition IsBool :: "NodeData \<Rightarrow> bool" where "IsBool d \<longleftrightarrow> getBasicType d = kBool"
definition IsString :: "NodeData \<Rightarrow> bool" where "IsString d \<longleftrightarrow> getBasicType d = kString"
definition IsRaw :: "NodeData \<Rightarrow> bool" where "IsRaw d \<longleftrightarrow> getBasicType d = kRaw"
definition IsNumber :: "NodeData \<Rightarrow> bool" where "IsNumber d \<longleftrightarrow> getBasicType d = kNumber"
definition IsArray :: "NodeData \<Rightarrow> bool" where "IsArray d \<longleftrightarrow> getBasicType d = kArray"
definition IsObject :: "NodeData \<Rightarrow> bool" where "IsObject d \<longleftrightarrow> getBasicType d = kObject"
definition IsTrue :: "NodeData \<Rightarrow> bool" where "IsTrue d \<longleftrightarrow> GetType d = kTrue"
definition IsFalse :: "NodeData \<Rightarrow> bool" where "IsFalse d \<longleftrightarrow> GetType d = kFalse"
definition IsDouble :: "NodeData \<Rightarrow> bool" where "IsDouble d \<longleftrightarrow> GetType d = kReal"
definition IsStringNumber :: "NodeData \<Rightarrow> bool" where "IsStringNumber d \<longleftrightarrow> GetType d = kNumStr"
definition IsUint64 :: "NodeData \<Rightarrow> bool" where "IsUint64 d \<longleftrightarrow> GetType d = kUint"
definition IsStringConst :: "NodeData \<Rightarrow> bool" where
  "IsStringConst d \<longleftrightarrow> GetType d = kStringConst"

definition IsInt64 :: "NodeData \<Rightarrow> bool" where
  "IsInt64 d \<longleftrightarrow> GetType d = kSint \<or> (GetType d = kUint \<and> nd_val d \<le> 0x7FFFFFFFFFFFFFFF)"

lemmas is_type_defs = IsNull_def IsBool_def IsString_def IsRaw_def IsNumber_def IsArray_def
  IsObject_def IsTrue_def IsFalse_def IsDouble_def IsStringNumber_def IsUint64_def
  IsStringConst_def IsInt64_def IsContainer_def

definition Size :: "NodeData \<Rightarrow> u64" where
  "Size d = drop_bit kInfoBits (nd_len d)"

definition setLength :: "u64 \<Rightarrow> NodeData \<Rightarrow> NodeData" where
  "setLength len d = d\<lparr>nd_len := push_bit kInfoBits len OR ucast (nd_t d)\<rparr>"

definition setLengthType :: "u64 \<Rightarrow> u8 \<Rightarrow> NodeData \<Rightarrow> NodeData" where
  "setLengthType len flag d = d\<lparr>nd_len := push_bit kInfoBits len OR ucast flag\<rparr>"

definition addLength :: "u64 \<Rightarrow> NodeData \<Rightarrow> NodeData" where
  "addLength c d = d\<lparr>nd_len := nd_len d + push_bit kTotalTypeBits c\<rparr>"

definition subLength :: "u64 \<Rightarrow> NodeData \<Rightarrow> NodeData" where
  "subLength c d = d\<lparr>nd_len := nd_len d - push_bit kTotalTypeBits c\<rparr>"

definition setEmptyString :: "u64 \<Rightarrow> NodeData \<Rightarrow> NodeData" where
  "setEmptyString es d = setLengthType 0 kStringConst (d\<lparr>nd_val := es\<rparr>)"

definition setType :: "u64 \<Rightarrow> u8 \<Rightarrow> NodeData \<Rightarrow> NodeData" where
  "setType es flag d =
     (let d' = d\<lparr>nd_len := ucast flag\<rparr> in if IsString d' then setEmptyString es d' else d')"

subsection \<open>Constructors and accessors\<close>

definition node_of_type :: "u64 \<Rightarrow> u8 \<Rightarrow> NodeData" where
  "node_of_type es flag = setType es flag zero_data"

definition node_of_bool :: "u64 \<Rightarrow> bool \<Rightarrow> NodeData" where
  "node_of_bool es b = (if b then setType es kTrue zero_data else setType es kFalse zero_data)"

definition node_of_int :: "u64 \<Rightarrow> 32 word \<Rightarrow> NodeData" where
  "node_of_int es i =
     (let d = (if 0 \<le> sint i then setType es kUint zero_data else setType es kSint zero_data)
      in d\<lparr>nd_val := scast i\<rparr>)"

definition node_of_uint :: "u64 \<Rightarrow> u32 \<Rightarrow> NodeData" where
  "node_of_uint es i = (setType es kUint zero_data)\<lparr>nd_val := ucast i\<rparr>"

definition node_of_int64 :: "u64 \<Rightarrow> 64 word \<Rightarrow> NodeData" where
  "node_of_int64 es i =
     (let d = (if 0 \<le> sint i then setType es kUint zero_data else setType es kSint zero_data)
      in d\<lparr>nd_val := i\<rparr>)"

definition node_of_uint64 :: "u64 \<Rightarrow> u64 \<Rightarrow> NodeData" where
  "node_of_uint64 es i = (setType es kUint zero_data)\<lparr>nd_val := i\<rparr>"

text \<open>A double is its IEEE bit pattern.\<close>

definition node_of_double :: "u64 \<Rightarrow> u64 \<Rightarrow> NodeData" where
  "node_of_double es bits = (setType es kReal zero_data)\<lparr>nd_val := bits\<rparr>"

definition node_of_str :: "u64 \<Rightarrow> u64 \<Rightarrow> NodeData" where
  "node_of_str s len = (setLengthType len kStringConst zero_data)\<lparr>nd_val := s\<rparr>"

definition GetBool :: "NodeData \<Rightarrow> bool" where "GetBool d \<longleftrightarrow> GetType d = kTrue"
definition GetInt64 :: "NodeData \<Rightarrow> int" where "GetInt64 d = sint (nd_val d)"
definition GetUint64 :: "NodeData \<Rightarrow> nat" where "GetUint64 d = unat (nd_val d)"

text \<open>
  \<open>rawAssign\<close> moves the words and leaves the source a null node; \<open>Swap\<close> moves twice through a
  temporary. Both return the pair (this, rhs).
\<close>

definition rawAssign :: "u64 \<Rightarrow> NodeData \<Rightarrow> NodeData \<Rightarrow> NodeData \<times> NodeData" where
  "rawAssign es this rhs = (rhs, setType es kNull rhs)"

definition node_Swap :: "u64 \<Rightarrow> NodeData \<Rightarrow> NodeData \<Rightarrow> NodeData \<times> NodeData" where
  "node_Swap es this rhs =
     (let (tmp, rhs) = rawAssign es zero_data rhs;
          (rhs, this) = rawAssign es rhs this;
          (this, tmp) = rawAssign es this tmp
      in (this, rhs))"

subsection \<open>The word as the pair of its length and its type byte\<close>

lemma pack_unat:
  assumes "unat n < 2 ^ 56"
  shows "unat (push_bit 8 n OR ucast f :: u64) = 256 * unat n + unat (f :: u8)"
proof -
  have 1: "(push_bit 8 n :: u64) AND ucast f = 0"
    by (rule bit_word_eqI) (auto simp: bit_simps)
  then have "push_bit 8 n OR ucast f = push_bit 8 n + (ucast f :: u64)"
    by (rule disjunctive_add_eq_or [symmetric])
  moreover have "unat (push_bit 8 n :: u64) = 256 * unat n"
    using assms by (subst unat_shl) simp_all
  ultimately show ?thesis using assms unat_u8_lt [of f] by (simp add: unat_plus_lt)
qed

lemma unat_nd_t: "unat (nd_t d) = unat (nd_len d) mod 256"
  by (simp add: nd_t_def unat_ucast_u8)

lemma unat_Size: "unat (Size d) = unat (nd_len d) div 256"
  by (simp only: Size_def kInfoBits_def unat_shr) simp

lemma GetType_nd_t: "GetType d = nd_t d AND 0x1F"
  by (simp add: GetType_def kSubTypeMask_def)

lemma setLengthType_unat:
  "unat n < 2 ^ 56 \<Longrightarrow> unat (nd_len (setLengthType n f d)) = 256 * unat n + unat f"
  using pack_unat [of n f] by (simp add: setLengthType_def kInfoBits_def)

lemma nd_t_eqI: "unat (nd_len d) mod 256 = unat f \<Longrightarrow> nd_t d = f"
  by (simp add: word_unat_eq_iff unat_nd_t)

lemma Size_eqI: "unat (nd_len d) div 256 = unat n \<Longrightarrow> Size d = n"
  by (simp add: word_unat_eq_iff unat_Size)

lemma setLengthType_nd_t: "unat n < 2 ^ 56 \<Longrightarrow> nd_t (setLengthType n f d) = f"
  using unat_u8_lt [of f] by (intro nd_t_eqI) (simp add: setLengthType_unat)

lemma setLengthType_Size: "unat n < 2 ^ 56 \<Longrightarrow> Size (setLengthType n f d) = n"
  using unat_u8_lt [of f] by (intro Size_eqI) (simp add: setLengthType_unat)

lemma setLength_eq: "setLength n d = setLengthType n (nd_t d) d"
  by (simp add: setLength_def setLengthType_def)

lemma nd_len_split: "unat (nd_len d) = 256 * unat (Size d) + unat (nd_t d)"
  by (simp add: unat_Size unat_nd_t)

lemma addLength_unat:
  assumes "unat (Size d) + unat c < 2 ^ 56"
  shows "unat (nd_len (addLength c d)) = 256 * (unat (Size d) + unat c) + unat (nd_t d)"
proof -
  have c: "unat (push_bit 8 c :: u64) = 256 * unat c"
    using assms by (subst unat_shl) simp_all
  have t: "unat (nd_t d) < 256" by (rule unat_u8_lt)
  have "unat (nd_len d + push_bit 8 c) = unat (nd_len d) + 256 * unat c"
    using assms t by (subst unat_plus_lt) (simp_all add: c nd_len_split)
  then show ?thesis by (simp add: addLength_def kTotalTypeBits_def nd_len_split)
qed

lemma subLength_unat:
  assumes "unat c \<le> unat (Size d)"
  shows "unat (nd_len (subLength c d)) = 256 * (unat (Size d) - unat c) + unat (nd_t d)"
proof -
  have "unat (Size d) < 2 ^ 56"
    using unat_u64_lt [of "nd_len d"] by (simp add: unat_Size less_mult_imp_div_less)
  with assms have c: "unat (push_bit 8 c :: u64) = 256 * unat c"
    by (subst unat_shl) simp_all
  with assms have "push_bit 8 c \<le> nd_len d"
    by (simp only: word_le_nat_alt c nd_len_split)
  then have "unat (nd_len d - push_bit 8 c) = unat (nd_len d) - 256 * unat c"
    by (simp only: unat_minus_le c)
  with assms show ?thesis
    by (simp add: subLength_def kTotalTypeBits_def nd_len_split diff_mult_distrib2)
qed

subsection \<open>Every type code survives the packing\<close>

lemma node_type_and_masks:
  "f \<in> set node_types \<Longrightarrow> f AND 0x1F = f \<and> (f OR kOwnedStringMask) AND 0x1F = f"
  by (auto simp: node_types_def type_code_defs)

lemma GetType_eqI: "f \<in> set node_types \<Longrightarrow> nd_t d = f \<Longrightarrow> GetType d = f"
  by (simp add: GetType_nd_t node_type_and_masks)

lemma addLength_setLengthType:
  assumes "unat n + unat c < 2 ^ 56"
  shows "addLength c (setLengthType n f d) = setLengthType (n + c) f d"
proof -
  have n: "unat n < 2 ^ 56" and nc: "unat (n + c) = unat n + unat c"
    using assms by (simp_all add: unat_plus_lt)
  let ?e = "setLengthType n f d"
  have "unat (nd_len (addLength c ?e)) = 256 * (unat n + unat c) + unat f"
    using assms n by (simp add: addLength_unat setLengthType_Size setLengthType_nd_t)
  moreover have "unat (nd_len (setLengthType (n + c) f d)) = 256 * (unat n + unat c) + unat f"
    using assms by (simp add: setLengthType_unat nc)
  ultimately have "nd_len (addLength c ?e) = nd_len (setLengthType (n + c) f d)"
    by (simp add: word_unat_eq_iff)
  then show ?thesis by (simp add: addLength_def setLengthType_def)
qed

lemma subLength_setLengthType:
  assumes "unat n < 2 ^ 56" "c \<le> n"
  shows "subLength c (setLengthType n f d) = setLengthType (n - c) f d"
proof -
  have le: "unat c \<le> unat n" using assms by (simp add: word_le_nat_alt)
  let ?e = "setLengthType n f d"
  have "unat (nd_len (subLength c ?e)) = 256 * (unat n - unat c) + unat f"
    using assms le by (simp add: subLength_unat setLengthType_Size setLengthType_nd_t)
  moreover have "unat (nd_len (setLengthType (n - c) f d)) = 256 * (unat n - unat c) + unat f"
    using assms by (simp add: setLengthType_unat unat_minus_le)
  ultimately have "nd_len (subLength c ?e) = nd_len (setLengthType (n - c) f d)"
    by (simp add: word_unat_eq_iff)
  then show ?thesis by (simp add: subLength_def setLengthType_def)
qed

lemma setType_nd_t:
  assumes "f AND kBasicTypeMask \<noteq> kString"
  shows "nd_t (setType es f d) = f"
proof -
  have "nd_t (d\<lparr>nd_len := ucast f\<rparr>) = f"
    by (rule nd_t_eqI) (use unat_u8_lt [of f] in simp)
  with assms show ?thesis
    by (simp add: setType_def Let_def IsString_def getBasicType_def)
qed

lemma nd_t_val_update [simp]: "nd_t (d\<lparr>nd_val := v\<rparr>) = nd_t d"
  by (simp add: nd_t_def)

lemma number_types_not_string:
  "kUint AND kBasicTypeMask \<noteq> kString" "kSint AND kBasicTypeMask \<noteq> kString"
  "kReal AND kBasicTypeMask \<noteq> kString" "kNull AND kBasicTypeMask \<noteq> kString"
  by (simp_all add: type_code_defs)

lemma int64_nonneg_le: "0 \<le> sint (i :: 64 word) \<longleftrightarrow> i \<le> 0x7FFFFFFFFFFFFFFF"
  using uint_u64_lt [of i] by (auto simp: sint_u64 word_le_nat_alt)

lemma number_types_GetType:
  "nd_t d = kUint \<Longrightarrow> GetType d = kUint" "nd_t d = kSint \<Longrightarrow> GetType d = kSint"
  "nd_t d = kReal \<Longrightarrow> GetType d = kReal"
  by (simp_all add: GetType_eqI node_types_def)

lemma node_of_int64_t: "nd_t (node_of_int64 es i) = (if sint i < 0 then kSint else kUint)"
  by (simp add: node_of_int64_def Let_def setType_nd_t number_types_not_string)

lemma node_of_uint64_t: "nd_t (node_of_uint64 es i) = kUint"
  by (simp add: node_of_uint64_def setType_nd_t number_types_not_string)

lemma node_of_val:
  "nd_val (node_of_int64 es i) = i" "nd_val (node_of_uint64 es i) = i"
  by (simp_all add: node_of_int64_def node_of_uint64_def Let_def)



text \<open>
  C17: An integer node gives back the integer it was built from, at its sign and width: a node of
  an \<open>int64_t\<close> is signed exactly when the value is negative, and a node of a \<open>uint64_t\<close> is readable
  as \<open>int64_t\<close> exactly when the value is below 2^63, with the same value.
\<close>

theorem node_integer_roundtrip:
  "GetInt64 (node_of_int64 es i) = sint i \<and> IsInt64 (node_of_int64 es i)
    \<and> (GetType (node_of_int64 es i) = kSint \<longleftrightarrow> sint i < 0)
    \<and> GetUint64 (node_of_uint64 es u) = unat u \<and> IsUint64 (node_of_uint64 es u)
    \<and> (IsInt64 (node_of_uint64 es u) \<longleftrightarrow> unat u < 2 ^ 63)
    \<and> (GetInt64 (node_of_uint64 es u) = int (unat u) \<longleftrightarrow> unat u < 2 ^ 63)"
proof -
  have k: "kUint \<noteq> kSint" by (simp add: type_code_defs)
  have i: "GetType (node_of_int64 es i) = (if sint i < 0 then kSint else kUint)"
    using node_of_int64_t [of es i] by (auto intro: number_types_GetType)
  have u: "GetType (node_of_uint64 es u) = kUint"
    by (rule number_types_GetType) (rule node_of_uint64_t)
  show ?thesis
    using k int64_nonneg_le [of i]
    by (auto simp: i u GetInt64_def GetUint64_def IsInt64_def IsUint64_def node_of_val sint_u64
        word_le_nat_alt)
qed

end
