(* ===== verification/Sonic_Stack.thy ===== *)
theory Sonic_Stack
  imports Sonic_Prelude
begin

text \<open>
  The growable byte buffer \<open>internal/stack.h\<close> and its wrapper \<open>writebuffer.h\<close>.
  A stack owns one heap block, kept as the list of its bytes; \<open>top_\<close> is an offset into it, so the
  pushed bytes are the first \<open>st_top\<close> bytes of the block. \<open>cap_\<close> is the capacity the class
  believes it has; the block itself is \<open>SONIC_ALIGN(cap_)\<close> bytes long. \<open>std::realloc\<close> is the
  parameter \<open>ra\<close>: given the old block and the new size it returns the new block, or \<^term>\<open>None\<close>
  for a null pointer. Sizes are naturals: no buffer of this class comes near 2^64 bytes.
  A write through \<open>top_\<close> that leaves the block is undefined behaviour, the value \<^term>\<open>None\<close>.
\<close>

type_synonym realloc = "bytes \<Rightarrow> nat \<Rightarrow> bytes option"

record Stack =
  st_buf :: bytes
  st_null :: bool
  st_top :: nat
  st_cap :: nat

definition stack_contents :: "Stack \<Rightarrow> bytes" where
  "stack_contents s = take (st_top s) (st_buf s)"

definition SONIC_ALIGN_nat :: "nat \<Rightarrow> nat" where
  "SONIC_ALIGN_nat x = (x + 7) div 8 * 8"

definition stack_zero :: Stack where
  "stack_zero = \<lparr>st_buf = [], st_null = True, st_top = 0, st_cap = 0\<rparr>"

definition Stack_Size :: "Stack \<Rightarrow> nat" where "Stack_Size s = st_top s"
definition Stack_Capacity :: "Stack \<Rightarrow> nat" where "Stack_Capacity s = st_cap s"
definition Stack_Empty :: "Stack \<Rightarrow> bool" where "Stack_Empty s \<longleftrightarrow> Stack_Size s = 0"

definition Stack_Reserve :: "realloc \<Rightarrow> nat \<Rightarrow> Stack \<Rightarrow> Stack" where
  "Stack_Reserve ra new_cap s =
     (if new_cap < st_cap s then s
      else case ra (st_buf s) (SONIC_ALIGN_nat new_cap) of
             None \<Rightarrow> s
           | Some tmp \<Rightarrow> s\<lparr>st_buf := tmp, st_null := False, st_cap := new_cap\<rparr>)"

definition Stack_new :: "realloc \<Rightarrow> nat \<Rightarrow> Stack" where
  "Stack_new ra cap = Stack_Reserve ra cap stack_zero"

definition stack_defaultCapcity :: nat where "stack_defaultCapcity = 256"

definition Stack_Clear :: "Stack \<Rightarrow> Stack" where
  "Stack_Clear s = s\<lparr>st_top := 0\<rparr>"

definition Stack_Grow :: "realloc \<Rightarrow> nat \<Rightarrow> Stack \<Rightarrow> Stack" where
  "Stack_Grow ra cnt s =
     (if st_cap s \<le> st_top s + cnt
      then if 2 * st_cap s < st_top s + cnt
           then let needed = st_top s + cnt in Stack_Reserve ra (needed + needed div 2) s
           else Stack_Reserve ra (st_cap s * 2) s
      else s)"

definition Stack_PushUnsafe :: "bytes \<Rightarrow> Stack \<Rightarrow> Stack option" where
  "Stack_PushUnsafe v s = do {
     b \<leftarrow> wr (st_buf s) (st_top s) v;
     Some (s\<lparr>st_buf := b, st_top := st_top s + length v\<rparr>)
   }"

text \<open>\<open>Push<T>(v)\<close>: the value is given by its \<open>sizeof(T)\<close> bytes.\<close>

definition Stack_Push :: "realloc \<Rightarrow> bytes \<Rightarrow> Stack \<Rightarrow> Stack option" where
  "Stack_Push ra v s = Stack_PushUnsafe v (Stack_Grow ra (length v) s)"

definition Stack_PushStr :: "realloc \<Rightarrow> bytes \<Rightarrow> Stack \<Rightarrow> Stack option" where
  "Stack_PushStr ra v s = Stack_PushUnsafe v (Stack_Grow ra (length v + 1) s)"

text \<open>\<open>PushSize\<close> moves the top over \<open>n\<close> bytes the caller fills through the returned pointer.\<close>

definition Stack_PushSizeUnsafe :: "nat \<Rightarrow> Stack \<Rightarrow> Stack \<times> nat" where
  "Stack_PushSizeUnsafe n s = (s\<lparr>st_top := st_top s + n\<rparr>, st_top s)"

definition Stack_PushSize :: "realloc \<Rightarrow> nat \<Rightarrow> Stack \<Rightarrow> Stack \<times> nat" where
  "Stack_PushSize ra n s = Stack_PushSizeUnsafe n (Stack_Grow ra n s)"

definition Stack_Push5_8 :: "realloc \<Rightarrow> bytes \<Rightarrow> nat \<Rightarrow> Stack \<Rightarrow> Stack option" where
  "Stack_Push5_8 ra bytes8 n s =
     (let s = Stack_Grow ra 8 s in do {
        b \<leftarrow> wr (st_buf s) (st_top s) bytes8;
        Some (s\<lparr>st_buf := b, st_top := st_top s + n\<rparr>)
      })"

definition Stack_Top :: "nat \<Rightarrow> Stack \<Rightarrow> bytes option" where
  "Stack_Top sz s =
     (if sz \<le> st_top s \<and> st_top s \<le> length (st_buf s)
      then Some (take sz (drop (st_top s - sz) (st_buf s))) else None)"

definition Stack_Pop :: "nat \<Rightarrow> Stack \<Rightarrow> Stack option" where
  "Stack_Pop n s = (if n \<le> st_top s then Some (s\<lparr>st_top := st_top s - n\<rparr>) else None)"

text \<open>The move constructor gives the new stack and leaves the source zeroed.\<close>

definition Stack_move :: "Stack \<Rightarrow> Stack \<times> Stack" where
  "Stack_move rhs = (rhs, stack_zero)"

definition Stack_move_assign :: "Stack \<Rightarrow> Stack \<Rightarrow> Stack \<times> Stack" where
  "Stack_move_assign this rhs = (rhs, stack_zero)"

subsection \<open>The write buffer\<close>

type_synonym WriteBuffer = Stack

definition WriteBuffer_new :: "realloc \<Rightarrow> WriteBuffer" where
  "WriteBuffer_new ra = Stack_new ra stack_defaultCapcity"

definition WriteBuffer_PushStr :: "realloc \<Rightarrow> bytes \<Rightarrow> WriteBuffer \<Rightarrow> WriteBuffer option" where
  "WriteBuffer_PushStr ra sv wb = Stack_PushStr ra sv wb"

text \<open>
  \<open>ToString\<close> writes the terminator behind the contents; the result is the buffer and the C string,
  the bytes from \<open>buf_\<close> up to the terminator included.
\<close>

definition WriteBuffer_ToString :: "realloc \<Rightarrow> WriteBuffer \<Rightarrow> (WriteBuffer \<times> bytes) option" where
  "WriteBuffer_ToString ra wb =
     (let wb = (if Stack_Size wb < Stack_Capacity wb then wb else Stack_Grow ra 1 wb) in do {
        b \<leftarrow> wr (st_buf wb) (st_top wb) [0];
        Some (wb\<lparr>st_buf := b\<rparr>, take (st_top wb + 1) b)
      })"

definition WriteBuffer_ToStringView :: "realloc \<Rightarrow> WriteBuffer \<Rightarrow> (WriteBuffer \<times> bytes) option"
where
  "WriteBuffer_ToStringView ra wb = do {
     (wb', p) \<leftarrow> WriteBuffer_ToString ra wb;
     Some (wb', take (Stack_Size wb') p)
   }"

subsection \<open>The invariant\<close>

text \<open>
  What the operations rely on of \<open>std::realloc\<close>: it succeeds, the new block has the size asked for
  and starts with the old contents.
\<close>

definition realloc_ok :: "realloc \<Rightarrow> bool" where
  "realloc_ok ra \<longleftrightarrow> (\<forall>b n. \<exists>b'. ra b n = Some b' \<and> length b' = n
     \<and> take (min (length b) n) b' = take (min (length b) n) b)"

definition realloc_zeroed :: realloc where
  "realloc_zeroed b n = Some (take n b @ replicate (n - length b) 0)"

definition stack_ok :: "Stack \<Rightarrow> bool" where
  "stack_ok s \<longleftrightarrow> st_top s \<le> st_cap s \<and> st_cap s \<le> length (st_buf s)"

lemma realloc_zeroed_ok: "realloc_ok realloc_zeroed"
  by (auto simp: realloc_ok_def realloc_zeroed_def)

lemma SONIC_ALIGN_nat_ge: "n \<le> SONIC_ALIGN_nat n"
  unfolding SONIC_ALIGN_nat_def by presburger

lemma SONIC_ALIGN_nat_lt: "SONIC_ALIGN_nat n < n + 8"
  unfolding SONIC_ALIGN_nat_def by presburger

lemma SONIC_ALIGN_nat_dvd: "8 dvd SONIC_ALIGN_nat n"
  unfolding SONIC_ALIGN_nat_def by simp

lemma stack_zero_ok: "stack_ok stack_zero" "stack_contents stack_zero = []"
  by (simp_all add: stack_zero_def stack_ok_def stack_contents_def)

text \<open>\<open>Reserve\<close> keeps the contents and reaches at least the capacity asked for.\<close>

lemma Stack_Reserve_ok:
  assumes "realloc_ok ra" and "stack_ok s"
  shows "stack_ok (Stack_Reserve ra n s)"
    and "stack_contents (Stack_Reserve ra n s) = stack_contents s"
    and "st_top (Stack_Reserve ra n s) = st_top s"
    and "max n (st_cap s) \<le> st_cap (Stack_Reserve ra n s)"
proof -
  obtain b where b: "ra (st_buf s) (SONIC_ALIGN_nat n) = Some b" "length b = SONIC_ALIGN_nat n"
    "take (min (length (st_buf s)) (SONIC_ALIGN_nat n)) b
     = take (min (length (st_buf s)) (SONIC_ALIGN_nat n)) (st_buf s)"
    using assms(1) unfolding realloc_ok_def by blast
  have le: "st_top s \<le> min (length (st_buf s)) (SONIC_ALIGN_nat n)" if "\<not> n < st_cap s"
    using that assms(2) SONIC_ALIGN_nat_ge [of n] by (simp add: stack_ok_def)
  have pre: "take (st_top s) b = take (st_top s) (st_buf s)" if "\<not> n < st_cap s"
    using arg_cong [OF b(3), of "take (st_top s)"] le [OF that] by (simp add: min_absorb1)
  show "stack_ok (Stack_Reserve ra n s)"
    and "stack_contents (Stack_Reserve ra n s) = stack_contents s"
    and "st_top (Stack_Reserve ra n s) = st_top s"
    and "max n (st_cap s) \<le> st_cap (Stack_Reserve ra n s)"
    using assms(2) SONIC_ALIGN_nat_ge [of n] b(1,2) pre
    by (auto simp: Stack_Reserve_def stack_ok_def stack_contents_def)
qed

text \<open>\<open>Grow\<close> makes room for the bytes asked for and never loses any.\<close>

lemma Stack_Grow_cases:
  "(Stack_Grow ra n s = s \<and> st_top s + n < st_cap s)
   \<or> (\<exists>m. Stack_Grow ra n s = Stack_Reserve ra m s \<and> st_top s + n \<le> m)"
proof (cases "st_cap s \<le> st_top s + n")
  case True
  define m where "m = (if 2 * st_cap s < st_top s + n
    then (st_top s + n) + (st_top s + n) div 2 else st_cap s * 2)"
  have "Stack_Grow ra n s = Stack_Reserve ra m s" and "st_top s + n \<le> m"
    using True by (simp_all add: Stack_Grow_def Let_def m_def)
  then show ?thesis by blast
qed (simp add: Stack_Grow_def)

lemma Stack_Grow_ok:
  assumes "realloc_ok ra" and "stack_ok s"
  shows "stack_ok (Stack_Grow ra n s)"
    and "stack_contents (Stack_Grow ra n s) = stack_contents s"
    and "st_top (Stack_Grow ra n s) = st_top s"
    and "st_top s + n \<le> st_cap (Stack_Grow ra n s)"
    and "st_cap s \<le> st_cap (Stack_Grow ra n s)"
proof -
  consider "Stack_Grow ra n s = s" "st_top s + n < st_cap s"
    | m where "Stack_Grow ra n s = Stack_Reserve ra m s" "st_top s + n \<le> m"
    using Stack_Grow_cases [of ra n s] by blast
  note cases = this
  show "stack_ok (Stack_Grow ra n s)"
    by (rule cases) (simp_all add: assms(2) Stack_Reserve_ok [OF assms])
  show "stack_contents (Stack_Grow ra n s) = stack_contents s"
    by (rule cases) (simp_all add: assms(2) Stack_Reserve_ok [OF assms])
  show "st_top (Stack_Grow ra n s) = st_top s"
    by (rule cases) (simp_all add: assms(2) Stack_Reserve_ok [OF assms])
  have "max (st_top s + n) (st_cap s) \<le> st_cap (Stack_Grow ra n s)"
  proof (rule cases)
    fix m assume m: "Stack_Grow ra n s = Stack_Reserve ra m s" "st_top s + n \<le> m"
    then show ?thesis using Stack_Reserve_ok(4) [OF assms, of m] by simp
  qed simp
  then show "st_top s + n \<le> st_cap (Stack_Grow ra n s)"
    and "st_cap s \<le> st_cap (Stack_Grow ra n s)" by simp_all
qed

lemma Stack_PushUnsafe_ok:
  assumes "stack_ok s" and "st_top s + length v \<le> st_cap s"
  shows "\<exists>s'. Stack_PushUnsafe v s = Some s' \<and> stack_ok s' \<and> st_cap s' = st_cap s
    \<and> stack_contents s' = stack_contents s @ v"
  using assms by (auto simp: Stack_PushUnsafe_def wr_def stack_ok_def stack_contents_def)

lemma Stack_Push_ok:
  assumes "realloc_ok ra" and "stack_ok s"
  shows "\<exists>s'. Stack_Push ra v s = Some s' \<and> stack_ok s' \<and> st_cap s \<le> st_cap s'
    \<and> stack_contents s' = stack_contents s @ v"
  using Stack_PushUnsafe_ok [of "Stack_Grow ra (length v) s" v]
    Stack_Grow_ok [OF assms, of "length v"]
  by (auto simp: Stack_Push_def)

lemma Stack_PushStr_ok:
  assumes "realloc_ok ra" and "stack_ok s"
  shows "\<exists>s'. Stack_PushStr ra v s = Some s' \<and> stack_ok s' \<and> st_cap s \<le> st_cap s'
    \<and> stack_contents s' = stack_contents s @ v \<and> st_top s' < st_cap s'"
proof -
  let ?g = "Stack_Grow ra (length v + 1) s"
  have g: "stack_ok ?g" "st_top ?g = st_top s" "st_top s + (length v + 1) \<le> st_cap ?g"
    "stack_contents ?g = stack_contents s" "st_cap s \<le> st_cap ?g"
    using Stack_Grow_ok [OF assms, of "length v + 1"] by auto
  obtain s' where s': "Stack_PushUnsafe v ?g = Some s'" "stack_ok s'" "st_cap s' = st_cap ?g"
    "stack_contents s' = stack_contents ?g @ v"
    using Stack_PushUnsafe_ok [of ?g v] g by auto
  have "st_top s' = st_top ?g + length v"
    using s'(1) by (auto simp: Stack_PushUnsafe_def bind_eq_Some_conv)
  with s' g show ?thesis by (auto simp: Stack_PushStr_def)
qed

lemma WriteBuffer_ToString_ok:
  assumes "realloc_ok ra" and "stack_ok wb"
  shows "\<exists>wb'. WriteBuffer_ToString ra wb = Some (wb', stack_contents wb @ [0])
    \<and> stack_ok wb' \<and> stack_contents wb' = stack_contents wb \<and> st_cap wb \<le> st_cap wb'"
proof -
  define g where "g = (if Stack_Size wb < Stack_Capacity wb then wb else Stack_Grow ra 1 wb)"
  have g: "stack_ok g" "stack_contents g = stack_contents wb" "st_top g = st_top wb"
    "st_top wb + 1 \<le> st_cap g" "st_cap wb \<le> st_cap g"
    using Stack_Grow_ok [OF assms, of 1] assms(2)
    by (auto simp: g_def Stack_Size_def Stack_Capacity_def)
  obtain b where b: "wr (st_buf g) (st_top g) [0] = Some b"
    using g by (auto simp: wr_def stack_ok_def)
  have "take (st_top g + 1) b = stack_contents wb @ [0]"
    using wr_take [OF b] g(2) by (simp add: stack_contents_def)
  moreover have "take (st_top g) b = stack_contents wb"
    using wr_take_before [OF b, of "st_top g"] g(2) by (simp add: stack_contents_def)
  moreover have "length b = length (st_buf g)" by (rule wr_length [OF b])
  ultimately show ?thesis
    using g b by (auto simp: WriteBuffer_ToString_def Let_def g_def [symmetric] stack_ok_def
        stack_contents_def)
qed

subsection \<open>The interface the writers use\<close>

text \<open>
  A byte buffer: one operation that appends a chunk, the contents so far and an invariant under
  which appending succeeds. The serializer and the encoders only use this contract.
\<close>

primrec push_all :: "(bytes \<Rightarrow> 's \<Rightarrow> 's option) \<Rightarrow> bytes list \<Rightarrow> 's \<Rightarrow> 's option" where
  "push_all push [] s = Some s"
| "push_all push (v # vs) s = Option.bind (push v s) (push_all push vs)"

locale byte_buffer =
  fixes push :: "bytes \<Rightarrow> 's \<Rightarrow> 's option"
    and contents :: "'s \<Rightarrow> bytes"
    and inv :: "'s \<Rightarrow> bool"
  assumes push_ok: "inv s \<Longrightarrow> \<exists>s'. push v s = Some s' \<and> inv s' \<and> contents s' = contents s @ v"
begin

lemma push_all_ok:
  "inv s \<Longrightarrow> \<exists>s'. push_all push vs s = Some s' \<and> inv s' \<and> contents s' = contents s @ concat vs"
proof (induction vs arbitrary: s)
  case (Cons v vs)
  obtain s1 where "push v s = Some s1" "inv s1" "contents s1 = contents s @ v"
    using push_ok [OF Cons.prems] by blast
  with Cons.IH [of s1] show ?case by auto
qed simp

end

text \<open>The stack, together with the allocator it calls, is such a buffer.\<close>

definition buf_push :: "bytes \<Rightarrow> realloc \<times> Stack \<Rightarrow> (realloc \<times> Stack) option" where
  "buf_push v = (\<lambda>(ra, s). map_option (Pair ra) (Stack_PushStr ra v s))"

definition buf_contents :: "realloc \<times> Stack \<Rightarrow> bytes" where
  "buf_contents = (\<lambda>(ra, s). stack_contents s)"

definition buf_ok :: "realloc \<times> Stack \<Rightarrow> bool" where
  "buf_ok = (\<lambda>(ra, s). realloc_ok ra \<and> stack_ok s)"

interpretation wb: byte_buffer buf_push buf_contents buf_ok
proof
  fix s :: "realloc \<times> Stack" and v
  assume "buf_ok s"
  then show "\<exists>s'. buf_push v s = Some s' \<and> buf_ok s' \<and> buf_contents s' = buf_contents s @ v"
    using Stack_PushStr_ok [of "fst s" "snd s" v]
    by (auto simp: buf_ok_def buf_push_def buf_contents_def split: prod.splits)
qed

definition push_chunks :: "bytes list \<Rightarrow> realloc \<times> Stack \<Rightarrow> (realloc \<times> Stack) option" where
  "push_chunks = push_all buf_push"

lemma push_chunks_ok:
  assumes "realloc_ok ra" and "stack_ok s"
  shows "\<exists>s'. push_chunks vs (ra, s) = Some (ra, s') \<and> stack_ok s'
    \<and> stack_contents s' = stack_contents s @ concat vs"
proof -
  have fst: "fst p' = fst p" if "push_all buf_push vs p = Some p'" for p p' vs
    using that by (induction vs arbitrary: p)
      (auto simp: bind_eq_Some_conv buf_push_def split: prod.splits)
  obtain p where "push_chunks vs (ra, s) = Some p" "buf_ok p"
    "buf_contents p = stack_contents s @ concat vs"
    using wb.push_all_ok [of "(ra, s)" vs] assms
    by (auto simp: push_chunks_def buf_ok_def buf_contents_def)
  with fst [of vs "(ra, s)" p] show ?thesis
    by (cases p) (auto simp: push_chunks_def buf_ok_def buf_contents_def)
qed

lemma WriteBuffer_new_ok:
  assumes "realloc_ok ra"
  shows "stack_ok (WriteBuffer_new ra)" and "stack_contents (WriteBuffer_new ra) = []"
  using Stack_Reserve_ok [OF assms stack_zero_ok(1)]
  by (simp_all add: WriteBuffer_new_def Stack_new_def stack_zero_ok(2))



text \<open>
  The class does not report a failed \<open>realloc\<close>: after one, \<open>Push\<close> writes past the block it has
  (here through the null pointer of a buffer whose first allocation failed).
\<close>

lemma Stack_Push_after_failed_realloc:
  assumes "v \<noteq> []"
  shows "Stack_Push (\<lambda>b n. None) v (Stack_new (\<lambda>b n. None) cap) = None"
proof -
  have "Stack_new (\<lambda>b n. None) cap = stack_zero"
    by (simp add: Stack_new_def Stack_Reserve_def)
  moreover have "Stack_Grow (\<lambda>b n. None) k stack_zero = stack_zero" for k
    by (simp add: Stack_Grow_def Stack_Reserve_def stack_zero_def Let_def)
  ultimately show ?thesis
    using assms by (simp add: Stack_Push_def Stack_PushUnsafe_def wr_def stack_zero_def)
qed

end
