(* ===== verification/Sonic_Alloc.thy ===== *)
theory Sonic_Alloc
  imports Sonic_Stack
begin

text \<open>
  The allocators of \<open>allocator.h\<close>. A memory pool is the list of its chunks, head first; a chunk is
  named by a number (the count of base allocations before it) and its \<open>capacity\<close> and \<open>size\<close> keep
  the 64-bit width of \<open>size_t\<close>. A pointer is a chunk number and an offset into its buffer, a null
  pointer \<^term>\<open>None\<close>. The system allocator is the parameter \<open>base\<close>: whether its \<open>n\<close>-th call, for
  so many bytes, returns a block.
\<close>

subsection \<open>Alignment\<close>

definition SONIC_ALIGN :: "u64 \<Rightarrow> u64" where
  "SONIC_ALIGN x = (x + 7) AND NOT 7"

lemma and_not_mask_3: "w AND NOT (7 :: u64) = push_bit 3 (drop_bit 3 w)"
proof -
  have "w AND NOT (mask 3) = push_bit 3 (drop_bit 3 w)"
    by (rule bit_word_eqI) (simp add: bit_simps, fastforce)
  moreover have "(mask 3 :: u64) = 7" by (simp add: mask_eq_exp_minus_1)
  ultimately show ?thesis by (simp only:)
qed

lemma unat_SONIC_ALIGN:
  assumes "unat x + 7 < 2 ^ 64"
  shows "unat (SONIC_ALIGN x) = SONIC_ALIGN_nat (unat x)"
proof -
  have s: "unat (x + 7) = unat x + 7" using assms by (subst unat_plus_lt) simp_all
  have "unat (drop_bit 3 (x + 7)) = (unat x + 7) div 8"
    using unat_shr [of 3 "x + 7"] s by simp
  moreover have "unat (push_bit 3 (drop_bit 3 (x + 7))) = unat (drop_bit 3 (x + 7)) * 2 ^ 3"
    using assms by (intro unat_shl) (simp add: calculation)
  ultimately show ?thesis
    by (simp add: SONIC_ALIGN_def SONIC_ALIGN_nat_def and_not_mask_3 [simplified])
qed

lemma SONIC_ALIGN_wraps: "SONIC_ALIGN (- 1) = 0"
  by (simp add: SONIC_ALIGN_def)

subsection \<open>Chunk policies\<close>

datatype ChunkPolicy = SimpleChunkPolicy u64 | AdaptiveChunkPolicy u64

definition SONIC_ALLOCATOR_DEFAULT_CHUNK_CAPACITY :: u64 where
  "SONIC_ALLOCATOR_DEFAULT_CHUNK_CAPACITY = 64 * 1024"
definition SONIC_ALLOCATOR_MAX_CHUNK_CAPACITY :: u64 where
  "SONIC_ALLOCATOR_MAX_CHUNK_CAPACITY = SONIC_ALLOCATOR_DEFAULT_CHUNK_CAPACITY"
definition SONIC_ALLOCATOR_MIN_CHUNK_CAPACITY :: "bool \<Rightarrow> u64" where
  "SONIC_ALLOCATOR_MIN_CHUNK_CAPACITY adaptive =
     (if adaptive then 1024 else SONIC_ALLOCATOR_MAX_CHUNK_CAPACITY)"

text \<open>\<open>__builtin_clzll\<close>: the number of zero bits above the highest one (the argument is not 0).\<close>

definition clzll :: "u64 \<Rightarrow> nat" where
  "clzll x = length (takeWhile Not (map (\<lambda>i. bit x (63 - i)) [0..<64]))"

text \<open>
  The next power of two; for arguments of 2^63 and more the shift by 64 is undefined in the source
  and gives 0 here.
\<close>

fun ChunkSize :: "ChunkPolicy \<Rightarrow> u64 \<Rightarrow> u64 \<times> ChunkPolicy" where
  "ChunkSize (SimpleChunkPolicy m) need =
     (if need < m then m else need, SimpleChunkPolicy m)"
| "ChunkSize (AdaptiveChunkPolicy m) need =
     (let m' = (if m < need \<and> m < SONIC_ALLOCATOR_MAX_CHUNK_CAPACITY
                then let p = push_bit (64 - clzll need) 1 in
                     if p < SONIC_ALLOCATOR_MAX_CHUNK_CAPACITY then p
                     else SONIC_ALLOCATOR_MAX_CHUNK_CAPACITY
                else m)
      in (if need < m' then m' else need, AdaptiveChunkPolicy m'))"

subsection \<open>The pool\<close>

type_synonym base_alloc = "nat \<Rightarrow> u64 \<Rightarrow> bool"
type_synonym ptr = "nat \<times> nat"

record ChunkHeader =
  ck_id :: nat
  ck_capacity :: u64
  ck_size :: u64

record SharedData =
  sh_chunks :: "ChunkHeader list"
  sh_ownBase :: bool
  sh_refcount :: nat
  sh_ownBuffer :: bool
  sh_hadOom :: bool
  sh_calls :: nat
  sh_mem :: "nat \<Rightarrow> nat \<Rightarrow> u8"
  sh_freed :: "nat list"

text \<open>\<open>sizeof(SharedData)\<close> is 40 and \<open>sizeof(ChunkHeader)\<close> 24 on the 64-bit targets.\<close>

definition SIZEOF_SHARED_DATA :: u64 where "SIZEOF_SHARED_DATA = SONIC_ALIGN 40"
definition SIZEOF_CHUNK_HEADER :: u64 where "SIZEOF_CHUNK_HEADER = SONIC_ALIGN 24"

definition SimpleAllocator_Malloc :: "base_alloc \<Rightarrow> nat \<Rightarrow> u64 \<Rightarrow> bool" where
  "SimpleAllocator_Malloc base n nbytes \<longleftrightarrow> nbytes \<noteq> 0 \<and> base n nbytes"

text \<open>The constructors; a pool whose first allocation fails is a failed assertion.\<close>

definition pool_new :: "base_alloc \<Rightarrow> nat \<Rightarrow> bool \<Rightarrow> SharedData option" where
  "pool_new base n given_base =
     (if SimpleAllocator_Malloc base n (SIZEOF_SHARED_DATA + SIZEOF_CHUNK_HEADER)
      then Some \<lparr>sh_chunks = [\<lparr>ck_id = n, ck_capacity = 0, ck_size = 0\<rparr>],
                 sh_ownBase = (\<not> given_base), sh_refcount = 1, sh_ownBuffer = True,
                 sh_hadOom = False, sh_calls = n + 1, sh_mem = (\<lambda>_ _. 0), sh_freed = []\<rparr>
      else None)"

text \<open>\<open>AlignBuffer\<close>: the aligned address and the size that is left.\<close>

definition AlignBuffer :: "u64 \<Rightarrow> u64 \<Rightarrow> (u64 \<times> u64) option" where
  "AlignBuffer buf nbytes =
     (if buf = 0 then None
      else if buf AND 7 \<noteq> 0
      then let abuf = (buf + 7) AND NOT 7 in
           if abuf - buf \<le> nbytes then Some (abuf, nbytes - (abuf - buf)) else None
      else Some (buf, nbytes))"

definition pool_new_buffer :: "nat \<Rightarrow> u64 \<Rightarrow> u64 \<Rightarrow> bool \<Rightarrow> SharedData option" where
  "pool_new_buffer n buf nbytes given_base = do {
     (_, nbytes) \<leftarrow> AlignBuffer buf nbytes;
     if SIZEOF_SHARED_DATA + SIZEOF_CHUNK_HEADER \<le> nbytes
     then Some \<lparr>sh_chunks = [\<lparr>ck_id = n,
                  ck_capacity = nbytes - SIZEOF_SHARED_DATA - SIZEOF_CHUNK_HEADER, ck_size = 0\<rparr>],
                sh_ownBase = (\<not> given_base), sh_refcount = 1, sh_ownBuffer = False,
                sh_hadOom = False, sh_calls = n + 1, sh_mem = (\<lambda>_ _. 0), sh_freed = []\<rparr>
     else None
   }"

definition pool_Clear :: "SharedData \<Rightarrow> SharedData" where
  "pool_Clear p = p\<lparr>sh_chunks := [(last (sh_chunks p))\<lparr>ck_size := 0\<rparr>],
                    sh_freed := sh_freed p @ map ck_id (butlast (sh_chunks p))\<rparr>"

definition pool_Capacity :: "SharedData \<Rightarrow> u64" where
  "pool_Capacity p = sum_list (map ck_capacity (sh_chunks p))"

definition pool_Size :: "SharedData \<Rightarrow> u64" where
  "pool_Size p = sum_list (map ck_size (sh_chunks p))"

definition pool_Shared :: "SharedData \<Rightarrow> bool" where
  "pool_Shared p \<longleftrightarrow> 1 < sh_refcount p"

definition AddChunk :: "base_alloc \<Rightarrow> u64 \<Rightarrow> SharedData \<Rightarrow> bool \<times> SharedData" where
  "AddChunk base capacity p =
     (let n = sh_calls p; p = p\<lparr>sh_calls := n + 1\<rparr> in
      if SimpleAllocator_Malloc base n (SIZEOF_CHUNK_HEADER + capacity)
      then (True, p\<lparr>sh_chunks := \<lparr>ck_id = n, ck_capacity = capacity, ck_size = 0\<rparr> # sh_chunks p\<rparr>)
      else (False, p))"

definition pool_bump :: "u64 \<Rightarrow> SharedData \<Rightarrow> ptr \<times> SharedData" where
  "pool_bump nbytes p =
     (let h = hd (sh_chunks p) in
      ((ck_id h, unat (ck_size h)),
       p\<lparr>sh_chunks := h\<lparr>ck_size := ck_size h + nbytes\<rparr> # tl (sh_chunks p)\<rparr>))"

definition pool_Malloc ::
  "base_alloc \<Rightarrow> u64 \<Rightarrow> ChunkPolicy \<times> SharedData \<Rightarrow> ptr option \<times> ChunkPolicy \<times> SharedData"
where
  "pool_Malloc base nbytes = (\<lambda>(cp, p).
     if nbytes = 0 then (None, cp, p)
     else let nbytes = SONIC_ALIGN nbytes; h = hd (sh_chunks p) in
       if ck_capacity h < ck_size h + nbytes
       then let (cap, cp) = ChunkSize cp nbytes; (ok, p) = AddChunk base cap p in
            if \<not> ok then (None, cp, p\<lparr>sh_hadOom := True\<rparr>)
            else let (b, p) = pool_bump nbytes p in (Some b, cp, p)
       else let (b, p) = pool_bump nbytes p in (Some b, cp, p))"

definition mem_copy :: "ptr \<Rightarrow> ptr \<Rightarrow> nat \<Rightarrow> (nat \<Rightarrow> nat \<Rightarrow> u8) \<Rightarrow> (nat \<Rightarrow> nat \<Rightarrow> u8)" where
  "mem_copy d s n m = (\<lambda>c i. if c = fst d \<and> snd d \<le> i \<and> i < snd d + n
                             then m (fst s) (snd s + (i - snd d)) else m c i)"

definition pool_Realloc ::
  "base_alloc \<Rightarrow> ptr option \<Rightarrow> u64 \<Rightarrow> u64 \<Rightarrow> ChunkPolicy \<times> SharedData
    \<Rightarrow> ptr option \<times> ChunkPolicy \<times> SharedData"
where
  "pool_Realloc base orig originalSize newSize = (\<lambda>(cp, p).
     case orig of None \<Rightarrow> pool_Malloc base newSize (cp, p)
     | Some optr \<Rightarrow>
       if newSize = 0 then (None, cp, p)
       else let originalSize = SONIC_ALIGN originalSize; newSize = SONIC_ALIGN newSize;
                h = hd (sh_chunks p); increment = newSize - originalSize in
         if newSize \<le> originalSize then (Some optr, cp, p)
         else if fst optr = ck_id h \<and> snd optr + unat originalSize = unat (ck_size h)
              \<and> ck_size h + increment \<le> ck_capacity h
         then (Some optr, cp,
               p\<lparr>sh_chunks := h\<lparr>ck_size := ck_size h + increment\<rparr> # tl (sh_chunks p)\<rparr>)
         else let (b, cp, p) = pool_Malloc base newSize (cp, p) in
           (case b of
              Some nb \<Rightarrow> (Some nb, cp,
                p\<lparr>sh_mem := mem_copy nb optr (unat originalSize) (sh_mem p)\<rparr>)
            | None \<Rightarrow> (None, cp, p\<lparr>sh_hadOom := True\<rparr>)))"

definition pool_HadOom :: "SharedData \<Rightarrow> bool" where "pool_HadOom p = sh_hadOom p"
definition pool_ClearOom :: "SharedData \<Rightarrow> SharedData" where
  "pool_ClearOom p = p\<lparr>sh_hadOom := False\<rparr>"

text \<open>\<open>MapAllocator::allocate\<close> for elements of \<open>sz\<close> bytes: the product is computed in \<open>size_t\<close>.\<close>

definition MapAllocator_allocate ::
  "base_alloc \<Rightarrow> u64 \<Rightarrow> u64 \<Rightarrow> bool \<Rightarrow> ChunkPolicy \<times> SharedData
    \<Rightarrow> ptr option \<times> ChunkPolicy \<times> SharedData"
where
  "MapAllocator_allocate base sz n has_alloc s =
     (if \<not> has_alloc \<or> n = 0 then (None, s) else pool_Malloc base (n * sz) s)"

subsection \<open>The invariant of a pool and of the blocks it has handed out\<close>

text \<open>
  What the pool relies on of the system allocator: no object is larger than \<open>PTRDIFF_MAX\<close> bytes.
\<close>

definition base_ok :: "base_alloc \<Rightarrow> bool" where
  "base_ok base \<longleftrightarrow> (\<forall>n sz. base n sz \<longrightarrow> unat sz < 2 ^ 63)"

definition chunk_ok :: "nat \<Rightarrow> ChunkHeader \<Rightarrow> bool" where
  "chunk_ok calls c \<longleftrightarrow> ck_id c < calls \<and> ck_size c \<le> ck_capacity c
     \<and> unat (ck_capacity c) < 2 ^ 63 \<and> 8 dvd unat (ck_size c)"

definition pool_ok :: "SharedData \<Rightarrow> bool" where
  "pool_ok p \<longleftrightarrow> sh_chunks p \<noteq> [] \<and> distinct (map ck_id (sh_chunks p))
     \<and> (\<forall>c \<in> set (sh_chunks p). chunk_ok (sh_calls p) c)"

type_synonym block = "ptr \<times> nat"

definition block_disjoint :: "block \<Rightarrow> block \<Rightarrow> bool" where
  "block_disjoint a b \<longleftrightarrow> fst (fst a) \<noteq> fst (fst b)
     \<or> snd (fst a) + snd a \<le> snd (fst b) \<or> snd (fst b) + snd b \<le> snd (fst a)"

definition block_in :: "ChunkHeader list \<Rightarrow> block \<Rightarrow> bool" where
  "block_in cs b \<longleftrightarrow> 8 dvd snd (fst b) \<and> 8 dvd snd b \<and> 0 < snd b
     \<and> (\<exists>c \<in> set cs. ck_id c = fst (fst b) \<and> snd (fst b) + snd b \<le> unat (ck_size c))"

definition live_ok :: "SharedData \<Rightarrow> block list \<Rightarrow> bool" where
  "live_ok p live \<longleftrightarrow> (\<forall>b \<in> set live. block_in (sh_chunks p) b) \<and> sorted_wrt block_disjoint live"

definition block_bytes :: "SharedData \<Rightarrow> block \<Rightarrow> bytes" where
  "block_bytes p b = map (\<lambda>i. sh_mem p (fst (fst b)) (snd (fst b) + i)) [0..<snd b]"

lemma block_disjoint_sym: "block_disjoint a b \<longleftrightarrow> block_disjoint b a"
  by (auto simp: block_disjoint_def)

lemma ChunkSize_ge: "need \<le> fst (ChunkSize cp need)"
  by (cases cp) (auto simp: Let_def)

lemma SIZEOF_CHUNK_HEADER_val: "SIZEOF_CHUNK_HEADER = 24" "SIZEOF_SHARED_DATA = 40"
  by (simp_all add: SIZEOF_CHUNK_HEADER_def SIZEOF_SHARED_DATA_def SONIC_ALIGN_def)

lemma pool_new_ok: "pool_new base n g = Some p \<Longrightarrow> pool_ok p \<and> live_ok p []"
  by (auto simp: pool_new_def pool_ok_def live_ok_def chunk_ok_def split: if_splits)

lemma AddChunk_Some:
  assumes "base_ok base" and "AddChunk base cap p = (True, p')" and "unat cap + 24 < 2 ^ 64"
  shows "p' = p\<lparr>sh_calls := sh_calls p + 1,
    sh_chunks := \<lparr>ck_id = sh_calls p, ck_capacity = cap, ck_size = 0\<rparr> # sh_chunks p\<rparr>"
    and "unat cap + 24 < 2 ^ 63"
proof -
  have b: "base (sh_calls p) (SIZEOF_CHUNK_HEADER + cap)"
    using assms(2) by (auto simp: AddChunk_def Let_def SimpleAllocator_Malloc_def split: if_splits)
  then have "unat (SIZEOF_CHUNK_HEADER + cap) < 2 ^ 63" using assms(1) by (simp add: base_ok_def)
  moreover have "unat (SIZEOF_CHUNK_HEADER + cap) = unat cap + 24"
    using assms(3) by (subst unat_plus_lt) (simp_all add: SIZEOF_CHUNK_HEADER_val)
  ultimately show "unat cap + 24 < 2 ^ 63" by simp
  show "p' = p\<lparr>sh_calls := sh_calls p + 1,
    sh_chunks := \<lparr>ck_id = sh_calls p, ck_capacity = cap, ck_size = 0\<rparr> # sh_chunks p\<rparr>"
    using assms(2) by (auto simp: AddChunk_def Let_def split: if_splits)
qed

fun policy_min :: "ChunkPolicy \<Rightarrow> u64" where
  "policy_min (SimpleChunkPolicy m) = m"
| "policy_min (AdaptiveChunkPolicy m) = m"

definition policy_ok :: "ChunkPolicy \<Rightarrow> bool" where
  "policy_ok cp \<longleftrightarrow> unat (policy_min cp) \<le> 2 ^ 62"

lemma unat_chunk_max: "unat SONIC_ALLOCATOR_MAX_CHUNK_CAPACITY = 65536"
  by (simp add: SONIC_ALLOCATOR_MAX_CHUNK_CAPACITY_def SONIC_ALLOCATOR_DEFAULT_CHUNK_CAPACITY_def)

lemma ChunkSize_bounds:
  assumes "policy_ok cp"
  shows "policy_ok (snd (ChunkSize cp need))"
    and "fst (ChunkSize cp need) = need \<or> unat (fst (ChunkSize cp need)) \<le> 2 ^ 62"
proof -
  have cap: "unat x \<le> 2 ^ 62" if "x < SONIC_ALLOCATOR_MAX_CHUNK_CAPACITY" for x
    using that unat_chunk_max by (simp add: word_less_nat_alt)
  have max: "unat SONIC_ALLOCATOR_MAX_CHUNK_CAPACITY \<le> 2 ^ 62"
    by (simp add: unat_chunk_max)
  show "policy_ok (snd (ChunkSize cp need))"
    using assms cap max by (cases cp) (auto simp: Let_def policy_ok_def)
  show "fst (ChunkSize cp need) = need \<or> unat (fst (ChunkSize cp need)) \<le> 2 ^ 62"
    using assms cap max by (cases cp) (auto simp: Let_def policy_ok_def)
qed

text \<open>
  An allocation either fails, and then only marks the failure, or puts the block at the end of the
  head chunk \<open>h\<close>, which is the old head or a fresh chunk.
\<close>

lemma pool_Malloc_outcome:
  assumes "pool_Malloc base n (cp, p) = (r, cp', p')" and "n \<noteq> 0" and "unat n \<le> 2 ^ 62"
    and "base_ok base" and "policy_ok cp" and "pool_ok p"
  shows "policy_ok cp'"
    and "(r = None \<and> p' = p\<lparr>sh_calls := sh_calls p + 1, sh_hadOom := True\<rparr>)
      \<or> (\<exists>h rest k. r = Some (ck_id h, unat (ck_size h))
          \<and> p' = p\<lparr>sh_calls := k, sh_chunks := h\<lparr>ck_size := ck_size h + SONIC_ALIGN n\<rparr> # rest\<rparr>
          \<and> unat (ck_size h) + SONIC_ALIGN_nat (unat n) \<le> unat (ck_capacity h)
          \<and> unat (ck_capacity h) < 2 ^ 63
          \<and> (sh_chunks p = h # rest \<and> k = sh_calls p
             \<or> ck_id h = sh_calls p \<and> ck_size h = 0
               \<and> rest = sh_chunks p \<and> k = sh_calls p + 1))"
    (is "?A \<or> ?B")
proof -
  obtain h rest where cs: "sh_chunks p = h # rest" using assms(6) by (cases "sh_chunks p")
    (auto simp: pool_ok_def)
  have ch: "unat (ck_size h) \<le> unat (ck_capacity h)" "unat (ck_capacity h) < 2 ^ 63"
    using assms(6) cs by (auto simp: pool_ok_def chunk_ok_def word_le_nat_alt)
  have al: "unat (SONIC_ALIGN n) = SONIC_ALIGN_nat (unat n)"
    using assms(3) by (intro unat_SONIC_ALIGN) simp
  have lt: "SONIC_ALIGN_nat (unat n) < 2 ^ 62 + 8"
    using SONIC_ALIGN_nat_lt [of "unat n"] assms(3) by simp
  have sum: "unat (ck_size h + SONIC_ALIGN n) = unat (ck_size h) + SONIC_ALIGN_nat (unat n)"
    using ch lt al by (subst unat_plus_lt) simp_all
  obtain cap cp1 where pol: "ChunkSize cp (SONIC_ALIGN n) = (cap, cp1)" by force
  have cap: "unat cap + 24 < 2 ^ 64" "SONIC_ALIGN n \<le> cap" "policy_ok cp1"
    using ChunkSize_bounds [OF assms(5), of "SONIC_ALIGN n"] ChunkSize_ge [of "SONIC_ALIGN n" cp]
      al lt by (auto simp: pol)
  obtain ok p1 where add: "AddChunk base cap p = (ok, p1)" by force
  show "policy_ok cp'" and "?A \<or> ?B"
  proof (atomize (full), cases "ck_capacity h < ck_size h + SONIC_ALIGN n")
    case full: True
    show "policy_ok cp' \<and> (?A \<or> ?B)"
    proof (cases ok)
      case True
      with assms(1,2) cs full have r: "r = Some (sh_calls p, 0)" and "cp' = cp1"
        and p': "p' = snd (pool_bump (SONIC_ALIGN n) p1)"
        using AddChunk_Some [OF assms(4), of cap p p1] cap add
        by (auto simp: pool_Malloc_def Let_def pol pool_bump_def)
      have p1: "p1 = p\<lparr>sh_calls := sh_calls p + 1,
          sh_chunks := \<lparr>ck_id = sh_calls p, ck_capacity = cap, ck_size = 0\<rparr> # sh_chunks p\<rparr>"
        and "unat cap + 24 < 2 ^ 63"
        using AddChunk_Some [OF assms(4), of cap p p1] cap add True by simp_all
      moreover have "SONIC_ALIGN_nat (unat n) \<le> unat cap"
        using cap(2) by (simp add: word_le_nat_alt al)
      ultimately have ?B
        by (intro exI [of _ "\<lparr>ck_id = sh_calls p, ck_capacity = cap, ck_size = 0\<rparr>"]
            exI [of _ "sh_chunks p"] exI [of _ "sh_calls p + 1"])
          (simp add: r p' pool_bump_def)
      with cap(3) \<open>cp' = cp1\<close> show ?thesis by simp
    next
      case False
      with assms(1,2) cs full add cap(3) show ?thesis
        by (auto simp: pool_Malloc_def Let_def pol AddChunk_def split: if_splits)
    qed
  next
    case False
    with assms(1,2) cs have r: "r = Some (ck_id h, unat (ck_size h))" and "cp' = cp"
      and p': "p' = snd (pool_bump (SONIC_ALIGN n) p)"
      by (auto simp: pool_Malloc_def Let_def pool_bump_def)
    from False sum have "unat (ck_size h) + SONIC_ALIGN_nat (unat n) \<le> unat (ck_capacity h)"
      by (simp add: word_less_nat_alt)
    with ch have ?B
      by (intro exI [of _ h] exI [of _ rest] exI [of _ "sh_calls p"])
        (simp add: r p' pool_bump_def cs)
    with assms(5) \<open>cp' = cp\<close> show "policy_ok cp' \<and> (?A \<or> ?B)" by simp
  qed
qed

text \<open>A block put behind everything in chunk \<open>h\<close> is disjoint from the blocks already there.\<close>

lemma block_in_mono:
  assumes "block_in cs b" and "\<And>c. c \<in> set cs \<Longrightarrow> \<exists>c' \<in> set cs'. ck_id c' = ck_id c
    \<and> ck_size c \<le> ck_size c'"
  shows "block_in cs' b"
proof -
  obtain c where c: "c \<in> set cs" "ck_id c = fst (fst b)" "snd (fst b) + snd b \<le> unat (ck_size c)"
    using assms(1) by (auto simp: block_in_def)
  obtain c' where "c' \<in> set cs'" "ck_id c' = ck_id c" "unat (ck_size c) \<le> unat (ck_size c')"
    using assms(2) [OF c(1)] by (auto simp: word_le_nat_alt)
  with c assms(1) show ?thesis by (force simp: block_in_def)
qed

lemma block_after_head:
  assumes "block_in cs b" and "cs = h # rest" and "distinct (map ck_id cs)"
  shows "block_disjoint ((ck_id h, unat (ck_size h)), k) b"
  using assms by (force simp: block_in_def block_disjoint_def)

lemma SONIC_ALIGN_nat_pos: "0 < n \<Longrightarrow> 0 < SONIC_ALIGN_nat n"
  using SONIC_ALIGN_nat_ge [of n] by simp

lemma pool_extend:
  assumes p: "pool_ok p" and l: "live_ok p live" and n: "0 < n" "n \<le> 2 ^ 62"
    and sz: "unat sz = SONIC_ALIGN_nat n"
    and p': "p' = p\<lparr>sh_calls := k, sh_chunks := h\<lparr>ck_size := ck_size h + sz\<rparr> # rest, sh_mem := m\<rparr>"
    and fit: "unat (ck_size h) + SONIC_ALIGN_nat n \<le> unat (ck_capacity h)"
    and cap: "unat (ck_capacity h) < 2 ^ 63"
    and hd: "sh_chunks p = h # rest \<and> k = sh_calls p
             \<or> ck_id h = sh_calls p \<and> ck_size h = 0
               \<and> rest = sh_chunks p \<and> k = sh_calls p + 1"
  shows "pool_ok p'"
    and "live_ok p' (((ck_id h, unat (ck_size h)), SONIC_ALIGN_nat n) # live)"
proof -
  have sum: "unat (ck_size h + sz) = unat (ck_size h) + SONIC_ALIGN_nat n"
    using fit cap sz by (subst unat_plus_lt) simp_all
  have pin: "chunk_ok (sh_calls p) c" if "c \<in> set (sh_chunks p)" for c
    using that p by (simp add: pool_ok_def)
  have old: "8 dvd unat (ck_size h)"
  proof -
    have "h \<in> set (sh_chunks p) \<or> ck_size h = 0" using hd by auto
    with pin [of h] show ?thesis by (auto simp: chunk_ok_def)
  qed
  have dist: "distinct (map ck_id (h # rest))" and calls: "\<forall>c \<in> set (h # rest). ck_id c < k"
    using hd p by (auto simp: pool_ok_def chunk_ok_def intro: less_SucI)
  have rest: "chunk_ok k c" if "c \<in> set rest" for c
    using that hd p by (auto simp: pool_ok_def chunk_ok_def)
  have head: "chunk_ok k (h\<lparr>ck_size := ck_size h + sz\<rparr>)"
    using calls fit cap old by (simp add: chunk_ok_def word_le_nat_alt sum SONIC_ALIGN_nat_dvd)
  show "pool_ok p'" using dist head rest by (auto simp: pool_ok_def p')
  have le: "ck_size h \<le> ck_size h + sz" by (simp add: word_le_nat_alt sum)
  have mono: "block_in (sh_chunks p') b" if "block_in (sh_chunks p) b" for b
    by (rule block_in_mono [OF that]) (use hd le in \<open>auto simp: p'\<close>)
  have inh: "block_in (h # rest) b" if "block_in (sh_chunks p) b" for b
    by (rule block_in_mono [OF that]) (use hd in \<open>auto\<close>)
  have new: "block_in (sh_chunks p') ((ck_id h, unat (ck_size h)), SONIC_ALIGN_nat n)"
    using old SONIC_ALIGN_nat_pos [OF n(1)]
    by (simp add: block_in_def p' sum SONIC_ALIGN_nat_dvd)
  have "block_disjoint ((ck_id h, unat (ck_size h)), SONIC_ALIGN_nat n) b" if "b \<in> set live" for b
    using block_after_head [OF inh refl dist] l that by (simp add: live_ok_def)
  with new mono l show "live_ok p' (((ck_id h, unat (ck_size h)), SONIC_ALIGN_nat n) # live)"
    by (simp add: live_ok_def)
qed

lemma pool_Malloc_ok:
  assumes "pool_Malloc base n (cp, p) = (r, cp', p')" and "n \<noteq> 0" and "unat n \<le> 2 ^ 62"
    and "base_ok base" and "policy_ok cp" and "pool_ok p" and "live_ok p live"
  shows "pool_ok p'" and "policy_ok cp'" and "sh_mem p' = sh_mem p"
    and "case r of None \<Rightarrow> live_ok p' live \<and> sh_hadOom p'
         | Some q \<Rightarrow> live_ok p' ((q, SONIC_ALIGN_nat (unat n)) # live)"
proof -
  note out = pool_Malloc_outcome [OF assms(1-6)]
  show "policy_ok cp'" by (rule out(1))
  have n0: "0 < unat n" using assms(2) by (simp add: unat_gt_0)
  have al: "unat (SONIC_ALIGN n) = SONIC_ALIGN_nat (unat n)"
    using assms(3) by (intro unat_SONIC_ALIGN) simp
  from out(2) consider
      (oom) "r = None" "p' = p\<lparr>sh_calls := sh_calls p + 1, sh_hadOom := True\<rparr>"
    | (blk) h rest k where "r = Some (ck_id h, unat (ck_size h))"
        "p' = p\<lparr>sh_calls := k, sh_chunks := h\<lparr>ck_size := ck_size h + SONIC_ALIGN n\<rparr> # rest\<rparr>"
        "unat (ck_size h) + SONIC_ALIGN_nat (unat n) \<le> unat (ck_capacity h)"
        "unat (ck_capacity h) < 2 ^ 63"
        "sh_chunks p = h # rest \<and> k = sh_calls p
             \<or> ck_id h = sh_calls p \<and> ck_size h = 0
               \<and> rest = sh_chunks p \<and> k = sh_calls p + 1"
    by blast
  then have "pool_ok p' \<and> sh_mem p' = sh_mem p
    \<and> (case r of None \<Rightarrow> live_ok p' live \<and> sh_hadOom p'
         | Some q \<Rightarrow> live_ok p' ((q, SONIC_ALIGN_nat (unat n)) # live))"
  proof cases
    case oom
    with assms(6,7) show ?thesis
      by (auto simp: pool_ok_def chunk_ok_def live_ok_def intro: less_SucI)
  next
    case blk
    have p'': "p' = p\<lparr>sh_calls := k, sh_chunks := h\<lparr>ck_size := ck_size h + SONIC_ALIGN n\<rparr> # rest,
        sh_mem := sh_mem p\<rparr>" using blk(2) by simp
    show ?thesis
      using pool_extend [OF assms(6,7) n0 assms(3) al p'' blk(3,4,5)] blk(1,2) by simp
  qed
  then show "pool_ok p'" and "sh_mem p' = sh_mem p"
    and "case r of None \<Rightarrow> live_ok p' live \<and> sh_hadOom p'
         | Some q \<Rightarrow> live_ok p' ((q, SONIC_ALIGN_nat (unat n)) # live)" by simp_all
qed

lemma live_ok_split:
  "live_ok p (A @ b # B) \<longleftrightarrow> live_ok p (A @ B) \<and> block_in (sh_chunks p) b
     \<and> (\<forall>c \<in> set A \<union> set B. block_disjoint b c)"
  by (auto simp: live_ok_def sorted_wrt_append block_disjoint_sym)

lemma block_bytes_mem_copy_other:
  assumes "block_disjoint (d, k) b" and "n \<le> k"
  shows "block_bytes (p\<lparr>sh_mem := mem_copy d s n m\<rparr>) b = block_bytes (p\<lparr>sh_mem := m\<rparr>) b"
  using assms by (auto simp: block_bytes_def mem_copy_def block_disjoint_def)

lemma block_bytes_mem_copy_new:
  assumes "n \<le> k"
  shows "take n (block_bytes (p\<lparr>sh_mem := mem_copy d s n m\<rparr>) (d, k))
    = block_bytes (p\<lparr>sh_mem := m\<rparr>) (s, n)"
  using assms by (auto simp: block_bytes_def mem_copy_def take_map intro!: map_cong)

lemma block_bytes_mem: "sh_mem p' = sh_mem p \<Longrightarrow> block_bytes p' b = block_bytes p b"
  by (simp add: block_bytes_def)

lemma block_bytes_take: "take m (block_bytes p (q, m + j)) = block_bytes p (q, m)"
  by (simp add: block_bytes_def take_map)

text \<open>Growing the last block of the head chunk in place.\<close>

lemma pool_grow_last:
  assumes p: "pool_ok p" "sh_chunks p = h # rest" and l: "live_ok p (A @ ((ck_id h, o'), m) # B)"
    and last: "o' + m = unat (ck_size h)"
    and inc: "unat inc = j" "8 dvd j" "unat (ck_size h) + j \<le> unat (ck_capacity h)"
    and p': "p' = p\<lparr>sh_chunks := h\<lparr>ck_size := ck_size h + inc\<rparr> # rest\<rparr>"
  shows "pool_ok p'" and "live_ok p' (A @ ((ck_id h, o'), m + j) # B)"
proof -
  have cap: "unat (ck_capacity h) < 2 ^ 63" "8 dvd unat (ck_size h)" "ck_id h < sh_calls p"
    using p by (auto simp: pool_ok_def chunk_ok_def)
  have sum: "unat (ck_size h + inc) = unat (ck_size h) + j"
    using inc cap by (subst unat_plus_lt) simp_all
  show "pool_ok p'"
    using p cap inc by (auto simp: pool_ok_def chunk_ok_def p' word_le_nat_alt sum)
  have le: "ck_size h \<le> ck_size h + inc" by (simp add: word_le_nat_alt sum)
  have mono: "block_in (sh_chunks p') b" if "block_in (sh_chunks p) b" for b
    by (rule block_in_mono [OF that]) (use le p in \<open>auto simp: p'\<close>)
  note l = l [unfolded live_ok_split]
  have "block_in (sh_chunks p') ((ck_id h, o'), m + j)"
    using l last inc by (auto simp: block_in_def p' sum)
  moreover have "block_disjoint ((ck_id h, o'), m + j) b" if b: "b \<in> set A \<union> set B" for b
  proof -
    have d: "block_disjoint ((ck_id h, o'), m) b" using l b by simp
    have "block_in (sh_chunks p) b" using l b by (auto simp: live_ok_def)
    then obtain c where "c \<in> set (h # rest)" "ck_id c = fst (fst b)" "0 < snd b"
      "snd (fst b) + snd b \<le> unat (ck_size c)" by (auto simp: block_in_def p(2))
    then have "fst (fst b) \<noteq> ck_id h \<or> snd (fst b) + snd b \<le> o' + m \<and> 0 < snd b"
      using p last by (cases "c = h") (auto simp: pool_ok_def image_iff)
    with d show ?thesis by (auto simp: block_disjoint_def)
  qed
  ultimately show "live_ok p' (A @ ((ck_id h, o'), m + j) # B)"
    using l mono unfolding live_ok_split by (auto simp: live_ok_def)
qed

lemma pool_Realloc_ok:
  assumes run: "pool_Realloc base (Some q) osz nsz (cp, p) = (r, cp', p')"
    and nsz: "nsz \<noteq> 0" "unat nsz \<le> 2 ^ 62" and osz: "unat osz < 2 ^ 63"
    and base: "base_ok base" and cp: "policy_ok cp" and p: "pool_ok p"
    and l: "live_ok p (A @ (q, SONIC_ALIGN_nat (unat osz)) # B)"
  shows "pool_ok p' \<and> policy_ok cp' \<and>
    (case r of None \<Rightarrow> live_ok p' (A @ (q, SONIC_ALIGN_nat (unat osz)) # B) \<and> sh_hadOom p'
         \<and> sh_mem p' = sh_mem p
     | Some q' \<Rightarrow> live_ok p' (A @ (q', max (SONIC_ALIGN_nat (unat osz)) (SONIC_ALIGN_nat (unat nsz))) # B)
         \<and> take (SONIC_ALIGN_nat (unat osz)) (block_bytes p' (q',
              max (SONIC_ALIGN_nat (unat osz)) (SONIC_ALIGN_nat (unat nsz))))
            = block_bytes p (q, SONIC_ALIGN_nat (unat osz))
         \<and> (\<forall>b \<in> set A \<union> set B. block_bytes p' b = block_bytes p b))" (is "?goal r cp' p'")
proof -
  define m k where "m = SONIC_ALIGN_nat (unat osz)" and "k = SONIC_ALIGN_nat (unat nsz)"
  obtain h rest where cs: "sh_chunks p = h # rest" using p by (cases "sh_chunks p")
    (auto simp: pool_ok_def)
  have al: "unat (SONIC_ALIGN osz) = m" "unat (SONIC_ALIGN nsz) = k"
    using osz nsz by (simp_all add: unat_SONIC_ALIGN m_def k_def)
  consider (keep) "k \<le> m" "r = Some q" "cp' = cp" "p' = p"
    | (grow) "m < k" "fst q = ck_id h" "snd q + m = unat (ck_size h)"
        "ck_size h + (SONIC_ALIGN nsz - SONIC_ALIGN osz) \<le> ck_capacity h" "r = Some q" "cp' = cp"
        "p' = p\<lparr>sh_chunks := h\<lparr>ck_size := ck_size h + (SONIC_ALIGN nsz - SONIC_ALIGN osz)\<rparr> # rest\<rparr>"
    | (copy) b p1 where "m < k" "pool_Malloc base (SONIC_ALIGN nsz) (cp, p) = (b, cp', p1)" "r = b"
        "p' = (case b of Some nb \<Rightarrow> p1\<lparr>sh_mem := mem_copy nb q m (sh_mem p1)\<rparr>
                       | None \<Rightarrow> p1\<lparr>sh_hadOom := True\<rparr>)"
    using run nsz(1)
    by (auto simp: pool_Realloc_def Let_def al cs word_le_nat_alt word_less_nat_alt
        split: if_splits prod.splits option.splits)
  then show ?thesis
  proof cases
    case keep
    then show ?thesis using assms block_bytes_take [of m p q 0] by (simp add: m_def k_def)
  next
    case grow
    have "8 dvd m" "8 dvd k" by (simp_all add: m_def k_def SONIC_ALIGN_nat_dvd)
    have inc: "unat (SONIC_ALIGN nsz - SONIC_ALIGN osz) = k - m"
      using grow(1) al by (subst unat_minus_le) (simp_all add: word_le_nat_alt)
    have lt: "unat (ck_size h) < 2 ^ 63" "k < 2 ^ 62 + 8"
      using p cs SONIC_ALIGN_nat_lt [of "unat nsz"] nsz
      by (auto simp: pool_ok_def chunk_ok_def word_le_nat_alt k_def)
    have fit: "unat (ck_size h) + (k - m) \<le> unat (ck_capacity h)"
      using grow(4) lt inc by (simp add: word_le_nat_alt unat_plus_lt)
    have l': "live_ok p (A @ ((ck_id h, snd q), m) # B)"
      using l grow(2) by (simp add: m_def prod_eq_iff) (metis prod.collapse)
    have "pool_ok p'" "live_ok p' (A @ ((ck_id h, snd q), m + (k - m)) # B)"
      using pool_grow_last [OF p cs l' grow(3) inc _ fit grow(7)] \<open>8 dvd m\<close> \<open>8 dvd k\<close>
      by (simp_all add: dvd_diff_nat)
    moreover have "(ck_id h, snd q) = q" using grow(2) by (simp add: prod_eq_iff)
    moreover have "block_bytes p' c = block_bytes p c" for c
      by (rule block_bytes_mem) (simp add: grow(7))
    ultimately show ?thesis
      using grow(1,5,6) cp block_bytes_take [of m p' q "k - m"]
      by (simp add: m_def [symmetric] k_def [symmetric] max_def)
  next
    case copy
    have n0: "SONIC_ALIGN nsz \<noteq> 0" using copy(1) al by auto
    have kk: "SONIC_ALIGN_nat k = k" by (simp add: k_def SONIC_ALIGN_nat_def)
    have le: "unat (SONIC_ALIGN nsz) \<le> 2 ^ 62"
      using nsz(2) div_le_mono [of "unat nsz + 7" "2 ^ 62 + 7" 8]
      by (simp add: al k_def SONIC_ALIGN_nat_def)
    note ok = pool_Malloc_ok [OF copy(2) n0 le base cp p l]
    show ?thesis
    proof (cases b)
      case None
      with ok copy show ?thesis by (simp add: m_def pool_ok_def live_ok_def)
    next
      case (Some nb)
      have l2: "live_ok p1 ((nb, k) # (A @ (q, m) # B))"
        using ok(4) Some by (simp add: al kk m_def)
      then have l3: "live_ok p1 (A @ (nb, k) # B)" and
        d: "\<forall>b \<in> set A \<union> set B. block_disjoint (nb, k) b"
        using live_ok_split [of p1 "[]" "(nb, k)" "A @ (q, m) # B"] live_ok_split [of p1 A "(q, m)" B]
          live_ok_split [of p1 A "(nb, k)" B] by auto
      have p': "p' = p1\<lparr>sh_mem := mem_copy nb q m (sh_mem p)\<rparr>" using copy Some ok(3) by simp
      have "live_ok p' (A @ (nb, k) # B)" "pool_ok p'"
        using l3 ok(1) by (simp_all add: p' live_ok_def pool_ok_def)
      moreover have "take m (block_bytes p' (nb, k)) = block_bytes p (q, m)"
        using copy(1) by (simp add: p' block_bytes_mem_copy_new) (simp add: block_bytes_def)
      moreover have "block_bytes p' c = block_bytes p c" if "c \<in> set A \<union> set B" for c
        using d that copy(1) block_bytes_mem_copy_other [where d = nb and k = k and b = c and n = m and p = p1 and s = q and m = "sh_mem p"]
        by (simp add: p') (simp add: block_bytes_def)
      ultimately show ?thesis
        using copy(1,3) Some ok(2) by (simp add: m_def [symmetric] k_def [symmetric] max_def)
    qed
  qed
qed

subsection \<open>Sequences of requests\<close>

text \<open>
  A client of the pool: it keeps the blocks it was given, asks for new ones, resizes one it holds
  (passing the size it has on record) or clears the pool.
\<close>

datatype pool_call = PMalloc u64 | PRealloc nat u64 | PClear

type_synonym pool_client = "(ChunkPolicy \<times> SharedData) \<times> block list"

fun pool_exec :: "base_alloc \<Rightarrow> pool_call \<Rightarrow> pool_client \<Rightarrow> pool_client" where
  "pool_exec base (PMalloc n) (s, live) =
     (case pool_Malloc base n s of
        (None, s') \<Rightarrow> (s', live)
      | (Some q, s') \<Rightarrow> (s', (q, unat (SONIC_ALIGN n)) # live))"
| "pool_exec base (PRealloc i n) (s, live) =
     (if i < length live then
        case pool_Realloc base (Some (fst (live ! i))) (of_nat (snd (live ! i))) n s of
          (None, s') \<Rightarrow> (s', live)
        | (Some q, s') \<Rightarrow> (s', live[i := (q, max (snd (live ! i)) (unat (SONIC_ALIGN n)))])
      else (s, live))"
| "pool_exec base PClear ((cp, p), live) = ((cp, pool_Clear p), [])"

fun call_ok :: "pool_call \<Rightarrow> bool" where
  "call_ok (PMalloc n) \<longleftrightarrow> unat n \<le> 2 ^ 62"
| "call_ok (PRealloc i n) \<longleftrightarrow> unat n \<le> 2 ^ 62"
| "call_ok PClear \<longleftrightarrow> True"

definition client_ok :: "pool_client \<Rightarrow> bool" where
  "client_ok = (\<lambda>((cp, p), live). policy_ok cp \<and> pool_ok p \<and> live_ok p live)"

lemma pool_Clear_ok:
  assumes "pool_ok p"
  shows "pool_ok (pool_Clear p) \<and> live_ok (pool_Clear p) []"
proof -
  have "chunk_ok (sh_calls p) (last (sh_chunks p))" using assms by (simp add: pool_ok_def)
  then show ?thesis by (simp add: pool_Clear_def pool_ok_def live_ok_def chunk_ok_def)
qed

lemma live_block_size:
  assumes "pool_ok p" and "live_ok p live" and "i < length live"
  shows "unat (of_nat (snd (live ! i)) :: u64) = snd (live ! i)"
    and "snd (live ! i) < 2 ^ 63"
    and "SONIC_ALIGN_nat (snd (live ! i)) = snd (live ! i)"
proof -
  have b: "block_in (sh_chunks p) (live ! i)" using assms by (auto simp: live_ok_def)
  then obtain c where "c \<in> set (sh_chunks p)" "snd (live ! i) \<le> unat (ck_size c)"
    by (auto simp: block_in_def)
  then show lt: "snd (live ! i) < 2 ^ 63"
    using assms(1) by (auto simp: pool_ok_def chunk_ok_def word_le_nat_alt)
  then show "unat (of_nat (snd (live ! i)) :: u64) = snd (live ! i)"
    by (simp add: unat_of_nat)
  show "SONIC_ALIGN_nat (snd (live ! i)) = snd (live ! i)"
    using b by (auto simp: block_in_def SONIC_ALIGN_nat_def)
qed

lemma pool_exec_ok:
  assumes "base_ok base" and "call_ok c" and "client_ok s"
  shows "client_ok (pool_exec base c s)"
proof -
  obtain cp p live where s: "s = ((cp, p), live)" by (metis prod.collapse)
  have ok: "policy_ok cp" "pool_ok p" "live_ok p live" using assms(3) by (simp_all add: s client_ok_def)
  show ?thesis
  proof (cases c)
    case (PMalloc n)
    obtain r cp' p' where run: "pool_Malloc base n (cp, p) = (r, cp', p')" by (metis prod.collapse)
    have le: "unat n \<le> 2 ^ 62" using assms(2) PMalloc by simp
    show ?thesis
    proof (cases "n = 0")
      case True
      with run ok PMalloc s show ?thesis by (simp add: pool_Malloc_def client_ok_def)
    next
      case False
      have "unat (SONIC_ALIGN n) = SONIC_ALIGN_nat (unat n)" using le by (simp add: unat_SONIC_ALIGN)
      with pool_Malloc_ok [OF run False le assms(1) ok] show ?thesis
        by (auto simp: s PMalloc run client_ok_def split: option.splits)
    qed
  next
    case (PRealloc i n)
    have le: "unat n \<le> 2 ^ 62" using assms(2) PRealloc by simp
    show ?thesis
    proof (cases "i < length live \<and> n \<noteq> 0")
      case True
      obtain q m where b: "live ! i = (q, m)" by (cases "live ! i")
      note sz = live_block_size [OF ok(2,3), of i, simplified b fst_conv snd_conv]
      obtain r cp' p' where run: "pool_Realloc base (Some q) (of_nat m) n (cp, p) = (r, cp', p')"
        by (metis prod.collapse)
      have split: "live = take i live @ (q, m) # drop (Suc i) live"
        using True b id_take_nth_drop [of i live] by simp
      have "unat (SONIC_ALIGN n) = SONIC_ALIGN_nat (unat n)" using le by (simp add: unat_SONIC_ALIGN)
      moreover have "live_ok p (take i live @ (q, SONIC_ALIGN_nat (unat (of_nat m :: u64))) # drop (Suc i) live)"
        using ok(3) split sz True by simp
      ultimately show ?thesis
        using pool_Realloc_ok [OF run _ le _ assms(1) ok(1,2), of "take i live" "drop (Suc i) live"]
          True sz split [symmetric]
        by (auto simp: s PRealloc run b client_ok_def upd_conv_take_nth_drop split: option.splits)
    next
      case False
      with ok show ?thesis by (auto simp: s PRealloc client_ok_def pool_Realloc_def)
    qed
  next
    case PClear
    with ok pool_Clear_ok [OF ok(2)] show ?thesis by (simp add: s client_ok_def)
  qed
qed

lemma pool_exec_all_ok:
  "base_ok base \<Longrightarrow> list_all call_ok calls \<Longrightarrow> client_ok s \<Longrightarrow> client_ok (fold (pool_exec base) calls s)"
  by (induction calls arbitrary: s) (simp_all add: pool_exec_ok)

text \<open>
  C12: whatever a client asks of a memory pool, in any order and with the system allocator failing
  wherever it likes, every block it holds lies inside one chunk's used part, starts and ends on a
  multiple of 8, and shares no byte with any other block it holds. Requests are at most 2^62 bytes
  and the configured chunk size as well.
\<close>

theorem pool_blocks_disjoint:
  assumes "base_ok base" and "pool_new base n g = Some p" and "policy_ok cp"
    and "list_all call_ok calls"
    and "fold (pool_exec base) calls ((cp, p), []) = ((cp', p'), live)"
  shows "(\<forall>i < length live. \<exists>c \<in> set (sh_chunks p'). ck_id c = fst (fst (live ! i))
      \<and> snd (fst (live ! i)) + snd (live ! i) \<le> unat (ck_size c)
      \<and> unat (ck_size c) \<le> unat (ck_capacity c)
      \<and> 8 dvd snd (fst (live ! i)) \<and> 8 dvd snd (live ! i))
    \<and> (\<forall>i < length live. \<forall>j < length live. i \<noteq> j \<longrightarrow> block_disjoint (live ! i) (live ! j))"
proof -
  have "client_ok ((cp', p'), live)"
    using pool_exec_all_ok [OF assms(1,4), of "((cp, p), [])"] pool_new_ok [OF assms(2)] assms(3,5)
    by (simp add: client_ok_def)
  then have ok: "pool_ok p'" "live_ok p' live" by (simp_all add: client_ok_def)
  have "\<forall>i < length live. \<exists>c \<in> set (sh_chunks p'). ck_id c = fst (fst (live ! i))
      \<and> snd (fst (live ! i)) + snd (live ! i) \<le> unat (ck_size c)
      \<and> unat (ck_size c) \<le> unat (ck_capacity c)
      \<and> 8 dvd snd (fst (live ! i)) \<and> 8 dvd snd (live ! i)"
    using ok by (fastforce simp: live_ok_def block_in_def pool_ok_def chunk_ok_def word_le_nat_alt)
  moreover have "\<forall>i < length live. \<forall>j < length live. i \<noteq> j \<longrightarrow> block_disjoint (live ! i) (live ! j)"
    using ok(2) by (metis live_ok_def sorted_wrt_iff_nth_less block_disjoint_sym linorder_neqE_nat)
  ultimately show ?thesis by blast
qed

text \<open>A system allocator that serves requests below one megabyte, and a pool on it.\<close>

definition small_base :: base_alloc where "small_base n sz \<longleftrightarrow> sz < 1048576"

definition small_pool :: SharedData where "small_pool = the (pool_new small_base 0 False)"

definition small_client :: pool_client where
  "small_client = fold (pool_exec small_base) [PMalloc 10, PMalloc 20, PRealloc 0 100]
     ((SimpleChunkPolicy 64, small_pool), [])"

lemma base_ok_small: "base_ok small_base"
  by (simp add: base_ok_def small_base_def word_less_nat_alt)

lemmas pool_eval = pool_new_def SimpleAllocator_Malloc_def SIZEOF_CHUNK_HEADER_val SONIC_ALIGN_def
  pool_Malloc_def pool_Realloc_def Let_def AddChunk_def pool_bump_def small_base_def small_pool_def
  small_client_def

lemma small_pool_new: "pool_new small_base 0 False = Some small_pool"
  by (simp add: pool_eval)

lemma small_client_live: "snd small_client = [((2, 0), 104), ((1, 0), 16)]"
  by (simp add: pool_eval)

theorem pool_blocks_disjoint_witness:
  "block_disjoint (snd small_client ! 0) (snd small_client ! 1)
   \<and> (\<exists>c \<in> set (sh_chunks (snd (fst small_client))). ck_id c = 2 \<and> 104 \<le> unat (ck_size c))"
proof -
  obtain cp' p' live where run: "fold (pool_exec small_base) [PMalloc 10, PMalloc 20, PRealloc 0 100]
     ((SimpleChunkPolicy 64, small_pool), []) = ((cp', p'), live)" by (metis prod.collapse)
  then have c: "small_client = ((cp', p'), live)" by (simp add: small_client_def)
  have live: "live = [((2, 0), 104), ((1, 0), 16)]"
    using small_client_live unfolding c by simp
  from pool_blocks_disjoint [OF base_ok_small small_pool_new _ _ run]
  show ?thesis by (auto simp: live c policy_ok_def All_less_Suc)
qed

text \<open>
  C13: resizing a block keeps its bytes. When \<open>Realloc\<close> succeeds, the returned block starts with
  the bytes of the old one and no other block the client holds changes; when it fails, nothing
  moved and the failure is on record.
\<close>

theorem pool_realloc_keeps_bytes:
  assumes "base_ok base" and "client_ok ((cp, p), A @ (q, m) # B)"
    and "n \<noteq> 0" and "unat n \<le> 2 ^ 62"
    and "pool_Realloc base (Some q) (of_nat m) n (cp, p) = (r, cp', p')"
  shows "case r of
      None \<Rightarrow> pool_HadOom p' \<and> sh_mem p' = sh_mem p
    | Some q' \<Rightarrow> client_ok ((cp', p'), A @ (q', max m (unat (SONIC_ALIGN n))) # B)
        \<and> take m (block_bytes p' (q', max m (unat (SONIC_ALIGN n)))) = block_bytes p (q, m)
        \<and> (\<forall>b \<in> set A \<union> set B. block_bytes p' b = block_bytes p b)"
proof -
  have ok: "policy_ok cp" "pool_ok p" "live_ok p (A @ (q, m) # B)"
    using assms(2) by (simp_all add: client_ok_def)
  have sz: "unat (of_nat m :: u64) = m" "m < 2 ^ 63" "SONIC_ALIGN_nat m = m"
    using live_block_size [OF ok(2,3), of "length A"] by simp_all
  have al: "unat (SONIC_ALIGN n) = SONIC_ALIGN_nat (unat n)"
    using assms(4) by (intro unat_SONIC_ALIGN) simp
  have "unat (of_nat m :: u64) < 2 ^ 63" by (simp only: sz)
  from pool_Realloc_ok [OF assms(5,3,4) this assms(1) ok(1,2), of A B, unfolded sz(1,3), OF ok(3)]
  show ?thesis by (auto simp: al client_ok_def pool_HadOom_def split: option.splits)
qed

theorem pool_realloc_keeps_bytes_witness:
  "case pool_Realloc small_base (Some (2, 0)) 104 200 (fst small_client) of
     (None, s') \<Rightarrow> pool_HadOom (snd s')
   | (Some q', s') \<Rightarrow> take 104 (block_bytes (snd s') (q', 200))
        = block_bytes (snd (fst small_client)) ((2, 0), 104)"
proof -
  obtain cp p where c: "fst small_client = (cp, p)" by force
  have ok: "client_ok ((cp, p), [] @ ((2, 0), 104) # [((1, 0), 16)])"
  proof -
    have "client_ok ((SimpleChunkPolicy 64, small_pool), [])"
      using pool_new_ok [OF small_pool_new] by (simp add: client_ok_def policy_ok_def)
    then have "client_ok small_client"
      unfolding small_client_def by (intro pool_exec_all_ok [OF base_ok_small]) simp_all
    moreover have "small_client = (fst small_client, snd small_client)" by simp
    ultimately show ?thesis unfolding small_client_live c by simp
  qed
  obtain r cp' p' where run: "pool_Realloc small_base (Some (2, 0)) (of_nat 104) 200 (cp, p) = (r, cp', p')"
    by (metis prod.collapse)
  from pool_realloc_keeps_bytes [OF base_ok_small ok _ _ run]
  show ?thesis using run by (auto simp: c SONIC_ALIGN_def split: option.splits)
qed

subsection \<open>Reference counting\<close>

text \<open>
  Several \<open>MemoryPoolAllocator\<close> objects share one pool. A world is the list of the pools ever
  created, \<^term>\<open>None\<close> once \<open>shared_\<close> is freed, and the list of the allocator objects: the number of
  the pool in \<open>shared_\<close>, or \<^term>\<open>None\<close> for the null pointer of a moved-from object. Using a freed
  pool, or copying from a null object, is undefined and has no step.
\<close>

record world =
  w_pools :: "SharedData option list"
  w_handles :: "nat option list"

definition pool_at :: "world \<Rightarrow> nat \<Rightarrow> SharedData option" where
  "pool_at w k = (if k < length (w_pools w) then w_pools w ! k else None)"

definition handle_shared :: "world \<Rightarrow> nat \<Rightarrow> nat option" where
  "handle_shared w i = (if i < length (w_handles w) then w_handles w ! i else None)"

definition set_pool :: "nat \<Rightarrow> SharedData option \<Rightarrow> world \<Rightarrow> world" where
  "set_pool k v w = w\<lparr>w_pools := (w_pools w)[k := v]\<rparr>"

definition set_handle :: "nat \<Rightarrow> nat option \<Rightarrow> world \<Rightarrow> world" where
  "set_handle i v w = w\<lparr>w_handles := (w_handles w)[i := v]\<rparr>"

definition incref :: "nat \<Rightarrow> world \<Rightarrow> world option" where
  "incref k w = do {
     p \<leftarrow> pool_at w k;
     if 0 < sh_refcount p then Some (set_pool k (Some (p\<lparr>sh_refcount := sh_refcount p + 1\<rparr>)) w) else None
   }"

text \<open>The destructor of object \<open>i\<close>; \<open>shared_\<close> itself is not reset by it.\<close>

definition dtor :: "nat \<Rightarrow> world \<Rightarrow> world option" where
  "dtor i w =
     (case handle_shared w i of
        None \<Rightarrow> Some w
      | Some k \<Rightarrow> do {
          p \<leftarrow> pool_at w k;
          if 1 < sh_refcount p
          then Some (set_pool k (Some (p\<lparr>sh_refcount := sh_refcount p - 1\<rparr>)) w)
          else Some (set_pool k None w)
        })"

definition ctor :: "base_alloc \<Rightarrow> world \<Rightarrow> world option" where
  "ctor base w = do {
     p \<leftarrow> pool_new base 0 False;
     Some (w\<lparr>w_pools := w_pools w @ [Some p], w_handles := w_handles w @ [Some (length (w_pools w))]\<rparr>)
   }"

definition copy_ctor :: "nat \<Rightarrow> world \<Rightarrow> world option" where
  "copy_ctor r w = do {
     k \<leftarrow> handle_shared w r;
     w \<leftarrow> incref k w;
     Some (w\<lparr>w_handles := w_handles w @ [Some k]\<rparr>)
   }"

definition copy_assign :: "nat \<Rightarrow> nat \<Rightarrow> world \<Rightarrow> world option" where
  "copy_assign i r w = do {
     k \<leftarrow> handle_shared w r;
     w \<leftarrow> incref k w;
     w \<leftarrow> dtor i w;
     Some (set_handle i (Some k) w)
   }"

definition move_ctor :: "nat \<Rightarrow> world \<Rightarrow> world option" where
  "move_ctor r w = do {
     k \<leftarrow> handle_shared w r;
     _ \<leftarrow> pool_at w k;
     Some (set_handle r None (w\<lparr>w_handles := w_handles w @ [Some k]\<rparr>))
   }"

definition move_assign :: "nat \<Rightarrow> nat \<Rightarrow> world \<Rightarrow> world option" where
  "move_assign i r w = do {
     k \<leftarrow> handle_shared w r;
     _ \<leftarrow> pool_at w k;
     w \<leftarrow> dtor i w;
     Some (set_handle r None (set_handle i (Some k) w))
   }"

text \<open>The end of an object's life: the destructor runs and the object is gone.\<close>

definition destroy :: "nat \<Rightarrow> world \<Rightarrow> world option" where
  "destroy i w = do { w \<leftarrow> dtor i w; Some (set_handle i None w) }"

datatype handle_op =
  HNew | HCopy nat | HCopyAssign nat nat | HMove nat | HMoveAssign nat nat | HDestroy nat

fun handle_exec :: "base_alloc \<Rightarrow> handle_op \<Rightarrow> world \<Rightarrow> world option" where
  "handle_exec base HNew w = ctor base w"
| "handle_exec base (HCopy r) w = copy_ctor r w"
| "handle_exec base (HCopyAssign i r) w = copy_assign i r w"
| "handle_exec base (HMove r) w = move_ctor r w"
| "handle_exec base (HMoveAssign i r) w = move_assign i r w"
| "handle_exec base (HDestroy i) w = destroy i w"

text \<open>A use of an object that was never created, or of a null object as a source, is excluded.\<close>

fun handle_op_valid :: "base_alloc \<Rightarrow> world \<Rightarrow> handle_op \<Rightarrow> bool" where
  "handle_op_valid base w HNew \<longleftrightarrow> pool_new base 0 False \<noteq> None"
| "handle_op_valid base w (HCopy r) \<longleftrightarrow> handle_shared w r \<noteq> None"
| "handle_op_valid base w (HCopyAssign i r) \<longleftrightarrow> i < length (w_handles w) \<and> handle_shared w r \<noteq> None"
| "handle_op_valid base w (HMove r) \<longleftrightarrow> handle_shared w r \<noteq> None"
| "handle_op_valid base w (HMoveAssign i r) \<longleftrightarrow> i < length (w_handles w) \<and> handle_shared w r \<noteq> None"
| "handle_op_valid base w (HDestroy i) \<longleftrightarrow> i < length (w_handles w)"

inductive world_reachable :: "base_alloc \<Rightarrow> world \<Rightarrow> bool" for base where
  world_init: "world_reachable base \<lparr>w_pools = [], w_handles = []\<rparr>"
| world_step: "\<lbrakk> world_reachable base w; handle_op_valid base w c; handle_exec base c w = Some w' \<rbrakk>
    \<Longrightarrow> world_reachable base w'"

definition refs_to :: "world \<Rightarrow> nat \<Rightarrow> nat" where
  "refs_to w k = count_list (w_handles w) (Some k)"

definition rc_at :: "world \<Rightarrow> nat \<Rightarrow> nat" where
  "rc_at w k = (case pool_at w k of None \<Rightarrow> 0 | Some p \<Rightarrow> sh_refcount p)"

text \<open>
  \<open>d k\<close> references to pool \<open>k\<close> are counted and not held by an object: the ones an operation has in
  hand between two of its steps.
\<close>

definition rc_ok :: "(nat \<Rightarrow> nat) \<Rightarrow> world \<Rightarrow> bool" where
  "rc_ok d w \<longleftrightarrow> (\<forall>k. rc_at w k = refs_to w k + d k)
     \<and> (\<forall>k p. pool_at w k = Some p \<longrightarrow> 0 < sh_refcount p)"

lemma count_list_update:
  "i < length xs \<Longrightarrow> count_list (xs[i := v]) x + of_bool (xs ! i = x) = count_list xs x + of_bool (v = x)"
proof (induction xs arbitrary: i)
  case (Cons a xs)
  then show ?case by (cases i) (auto dest: Cons.IH)
qed simp

lemma pool_at_set_pool [simp]:
  "pool_at (set_pool k v w) j = (if j = k \<and> k < length (w_pools w) then v else pool_at w j)"
  by (auto simp: pool_at_def set_pool_def)

lemma set_handle_simps [simp]:
  "pool_at (set_handle i v w) j = pool_at w j"
  "w_handles (set_pool k pv w) = w_handles w" "handle_shared (set_pool k pv w) j = handle_shared w j"
  "length (w_handles (set_handle i v w)) = length (w_handles w)"
  by (auto simp: pool_at_def set_handle_def set_pool_def handle_shared_def)

lemma pool_at_len: "pool_at w k = Some p \<Longrightarrow> k < length (w_pools w)"
  by (auto simp: pool_at_def split: if_splits)

lemma refs_set_handle:
  "i < length (w_handles w) \<Longrightarrow>
    refs_to (set_handle i v w) k + of_bool (handle_shared w i = Some k) = refs_to w k + of_bool (v = Some k)"
  using count_list_update [of i "w_handles w" v "Some k"]
  by (simp add: refs_to_def set_handle_def handle_shared_def)

lemma handle_has_pool:
  assumes "rc_ok d w" and "handle_shared w i = Some k"
  shows "\<exists>p. pool_at w k = Some p"
proof -
  have "Some k \<in> set (w_handles w)"
    using assms(2) by (auto simp: handle_shared_def in_set_conv_nth split: if_splits)
  then have "0 < refs_to w k" by (metis refs_to_def count_list_0_iff gr0I)
  with assms(1) have "0 < rc_at w k" by (simp add: rc_ok_def)
  then show ?thesis by (auto simp: rc_at_def split: option.splits)
qed

lemma rc_okD:
  assumes "rc_ok d w" and "pool_at w k = Some p"
  shows "sh_refcount p = refs_to w k + d k" and "0 < sh_refcount p"
  using assms(1) assms(2) [symmetric] by (auto simp: rc_ok_def rc_at_def dest: spec [of _ k] split: option.splits)

lemma incref_ok:
  assumes "rc_ok d w" and "handle_shared w i = Some k"
  shows "\<exists>w'. incref k w = Some w' \<and> rc_ok (d(k := d k + 1)) w'
    \<and> w_handles w' = w_handles w \<and> length (w_pools w') = length (w_pools w)"
proof -
  obtain p where p: "pool_at w k = Some p" using handle_has_pool [OF assms] by blast
  moreover have "0 < sh_refcount p" using assms(1) p by (simp add: rc_ok_def)
  ultimately have run: "incref k w = Some (set_pool k (Some (p\<lparr>sh_refcount := sh_refcount p + 1\<rparr>)) w)"
    by (simp add: incref_def)
  have "rc_ok (d(k := d k + 1)) (set_pool k (Some (p\<lparr>sh_refcount := sh_refcount p + 1\<rparr>)) w)"
    using assms(1) rc_okD [OF assms(1) p] pool_at_len [OF p]
    by (simp add: rc_ok_def refs_to_def) (simp add: rc_at_def)
  with run show ?thesis by (simp add: set_pool_def)
qed

text \<open>
  The destructor gives up the reference of object \<open>i\<close>; afterwards the object still names the pool, so
  the invariant is restored once it is overwritten by \<open>v\<close>, for which a reference is in hand.
\<close>

lemma dtor_ok:
  assumes "rc_ok d w" and i: "i < length (w_handles w)"
    and v: "case v of None \<Rightarrow> d' = d | Some j \<Rightarrow> d = d'(j := d' j + 1)"
  shows "\<exists>w'. dtor i w = Some w' \<and> rc_ok d' (set_handle i v w')
    \<and> w_handles w' = w_handles w \<and> length (w_pools w') = length (w_pools w)"
proof (cases "handle_shared w i")
  case None
  have "rc_at (set_handle i v w) k = rc_at w k" for k by (simp add: rc_at_def)
  moreover have "refs_to (set_handle i v w) k + d' k = refs_to w k + d k" for k
    using refs_set_handle [OF i, of v k] v None by (auto split: option.splits if_splits)
  ultimately show ?thesis
    using assms(1) None by (simp add: dtor_def rc_ok_def)
next
  case (Some k)
  obtain p where p: "pool_at w k = Some p" using handle_has_pool [OF assms(1) Some] by blast
  have rc: "sh_refcount p = refs_to w k + d k" "0 < sh_refcount p"
    by (rule rc_okD [OF assms(1) p])+
  define pv where "pv = (if 1 < sh_refcount p then Some (p\<lparr>sh_refcount := sh_refcount p - 1\<rparr>) else None)"
  have run: "dtor i w = Some (set_pool k pv w)" by (simp add: dtor_def Some p pv_def)
  have rcs: "rc_at (set_handle i v (set_pool k pv w)) j
      = (if j = k then sh_refcount p - 1 else rc_at w j)" for j
    using pool_at_len [OF p] by (auto simp: rc_at_def pv_def)
  have refs: "refs_to (set_handle i v (set_pool k pv w)) j + of_bool (j = k)
      = refs_to w j + of_bool (v = Some j)" for j
    using refs_set_handle [of i "set_pool k pv w" v j] i Some by (auto simp: refs_to_def)
  have dd: "d j = d' j + of_bool (v = Some j)" for j
    using v by (auto split: option.splits)
  have "rc_at (set_handle i v (set_pool k pv w)) j = refs_to (set_handle i v (set_pool k pv w)) j + d' j"
    for j
    using assms(1) refs [of j] rcs [of j] dd [of j] rc by (auto simp: rc_ok_def split: if_splits)
  moreover have "0 < sh_refcount q" if "pool_at (set_handle i v (set_pool k pv w)) j = Some q" for j q
    using that assms(1) by (auto simp: rc_ok_def pv_def split: if_splits)
  ultimately show ?thesis using run by (simp add: rc_ok_def set_pool_def)
qed

lemma handle_shared_len: "handle_shared w r = Some k \<Longrightarrow> r < length (w_handles w)"
  by (auto simp: handle_shared_def split: if_splits)

lemma rc_ok_add_handle:
  assumes "rc_ok (d(k := d k + 1)) w"
  shows "rc_ok d (w\<lparr>w_handles := w_handles w @ [Some k]\<rparr>)"
proof -
  let ?w = "w\<lparr>w_handles := w_handles w @ [Some k]\<rparr>"
  have "pool_at ?w j = pool_at w j" for j by (simp add: pool_at_def)
  moreover have "refs_to ?w j = refs_to w j + of_bool (j = k)" for j by (simp add: refs_to_def)
  ultimately show ?thesis using assms by (simp add: rc_ok_def rc_at_def)
qed

lemma handle_exec_ok:
  assumes "rc_ok (\<lambda>_. 0) w" and "handle_op_valid base w c"
  shows "\<exists>w'. handle_exec base c w = Some w' \<and> rc_ok (\<lambda>_. 0) w'"
proof (cases c)
  case HNew
  obtain p where p: "pool_new base 0 False = Some p" using assms(2) HNew by auto
  then have "sh_refcount p = 1" by (auto simp: pool_new_def split: if_splits)
  moreover have "refs_to w (length (w_pools w)) = 0"
    using assms(1) by (force simp: rc_ok_def rc_at_def pool_at_def dest: spec [of _ "length (w_pools w)"])
  moreover have "pool_at (w\<lparr>w_pools := w_pools w @ [Some p], w_handles := w_handles w @ [Some (length (w_pools w))]\<rparr>) j
      = (if j = length (w_pools w) then Some p else pool_at w j)" for j
    by (auto simp: pool_at_def nth_append)
  ultimately have "rc_ok (\<lambda>_. 0)
      (w\<lparr>w_pools := w_pools w @ [Some p], w_handles := w_handles w @ [Some (length (w_pools w))]\<rparr>)"
    using assms(1) by (auto simp: rc_ok_def rc_at_def refs_to_def)
  with p HNew show ?thesis by (simp add: ctor_def)
next
  case (HCopy r)
  then obtain k where k: "handle_shared w r = Some k" using assms(2) by auto
  from incref_ok [OF assms(1) k] obtain w1 where w1: "incref k w = Some w1"
    "rc_ok ((\<lambda>_. 0)(k := 0 + 1)) w1" by blast
  from rc_ok_add_handle [OF w1(2)] show ?thesis using HCopy k w1 by (simp add: copy_ctor_def)
next
  case (HCopyAssign i r)
  then obtain k where k: "handle_shared w r = Some k" and i: "i < length (w_handles w)"
    using assms(2) by auto
  from incref_ok [OF assms(1) k] obtain w1 where w1: "incref k w = Some w1"
    "rc_ok ((\<lambda>_. 0)(k := 0 + 1)) w1" "w_handles w1 = w_handles w" by blast
  have "i < length (w_handles w1)" using i w1 by simp
  from dtor_ok [OF w1(2) this, where v = "Some k" and d' = "\<lambda>_. 0"] show ?thesis
    using HCopyAssign k w1 by (auto simp: copy_assign_def)
next
  case (HMove r)
  then obtain k where k: "handle_shared w r = Some k" using assms(2) by auto
  let ?w1 = "w\<lparr>w_handles := w_handles w @ [Some k]\<rparr>"
  let ?w2 = "set_handle r None ?w1"
  have r: "r < length (w_handles ?w1)" "handle_shared ?w1 r = Some k"
    using handle_shared_len [OF k] k by (simp_all add: handle_shared_def nth_append split: if_splits)
  have "refs_to ?w2 j = refs_to w j" for j
    using refs_set_handle [OF r(1), of None j] r(2) by (auto simp: refs_to_def split: if_splits)
  moreover have "pool_at ?w2 j = pool_at w j" for j by (simp add: pool_at_def set_handle_def)
  ultimately have "rc_ok (\<lambda>_. 0) ?w2" using assms(1) by (simp add: rc_ok_def rc_at_def)
  with handle_has_pool [OF assms(1) k] HMove k show ?thesis by (auto simp: move_ctor_def)
next
  case (HMoveAssign i r)
  then obtain k where k: "handle_shared w r = Some k" and i: "i < length (w_handles w)"
    using assms(2) by auto
  note r = handle_shared_len [OF k]
  let ?d = "(\<lambda>_. 0)(k := Suc 0)"
  \<comment> \<open>the reference moves out of \<open>r\<close>, which is emptied last\<close>
  have out: "rc_ok ?d (set_handle r None w)"
  proof -
    have "refs_to (set_handle r None w) j + ?d j = refs_to w j" for j
      using refs_set_handle [OF r, of None j] k by (auto split: if_splits)
    then show ?thesis using assms(1) by (simp add: rc_ok_def rc_at_def)
  qed
  show ?thesis
  proof (cases "i = r")
    case True
    obtain w1 where w1: "dtor i w = Some w1" "rc_ok (\<lambda>_. 0) (set_handle i None w1)"
      using dtor_ok [OF assms(1) i, where v = None and d' = "\<lambda>_. 0"] by auto
    with True handle_has_pool [OF assms(1) k] HMoveAssign k show ?thesis
      by (auto simp: move_assign_def set_handle_def)
  next
    case False
    have i': "i < length (w_handles (set_handle r None w))" using i by simp
    obtain w1 where w1: "dtor i (set_handle r None w) = Some w1"
      "rc_ok (\<lambda>_. 0) (set_handle i (Some k) w1)" "w_handles w1 = w_handles (set_handle r None w)"
      using dtor_ok [OF out i', where v = "Some k" and d' = "\<lambda>_. 0"] by auto
    have com: "dtor i (set_handle r None w) = map_option (set_handle r None) (dtor i w)"
      using False by (auto simp: dtor_def set_handle_def set_pool_def handle_shared_def pool_at_def
          split: option.splits Option.bind_splits)
    obtain w2 where w2: "dtor i w = Some w2" "w1 = set_handle r None w2"
      using w1(1) by (auto simp: com)
    have "set_handle r None (set_handle i (Some k) w2) = set_handle i (Some k) w1"
      using False by (simp add: w2 set_handle_def list_update_swap)
    with w1 w2 handle_has_pool [OF assms(1) k] HMoveAssign k show ?thesis
      by (auto simp: move_assign_def)
  qed
next
  case (HDestroy i)
  with assms(2) dtor_ok [OF assms(1), where i = i and v = None and d' = "\<lambda>_. 0"] show ?thesis
    by (auto simp: destroy_def)
qed

lemma world_reachable_rc: "world_reachable base w \<Longrightarrow> rc_ok (\<lambda>_. 0) w"
proof (induction rule: world_reachable.induct)
  case world_init
  show ?case by (simp add: rc_ok_def rc_at_def refs_to_def pool_at_def)
next
  case (world_step w c w')
  with handle_exec_ok [of w base c] show ?case by auto
qed

text \<open>
  C14: reference counting of allocator objects is exact. Whatever sequence of construction, copy,
  move (also onto itself) and destruction ran, a pool's count is the number of objects that name
  it, and its memory is freed exactly when the last of them goes: no object names a freed pool and
  no pool without objects stays. Every further operation on existing objects is defined.
\<close>

theorem allocator_refcount_exact:
  assumes "world_reachable base w"
  shows "(\<forall>k. case pool_at w k of
             Some p \<Rightarrow> sh_refcount p = count_list (w_handles w) (Some k) \<and> 0 < sh_refcount p
           | None \<Rightarrow> Some k \<notin> set (w_handles w))
    \<and> (\<forall>c. handle_op_valid base w c \<longrightarrow> handle_exec base c w \<noteq> None)"
proof -
  have ok: "rc_ok (\<lambda>_. 0) w" by (rule world_reachable_rc [OF assms])
  have "case pool_at w k of
             Some p \<Rightarrow> sh_refcount p = count_list (w_handles w) (Some k) \<and> 0 < sh_refcount p
           | None \<Rightarrow> Some k \<notin> set (w_handles w)" for k
  proof (cases "pool_at w k")
    case None
    with ok have "refs_to w k = 0" by (auto simp: rc_ok_def rc_at_def dest: spec [of _ k])
    with None show ?thesis by (simp add: refs_to_def count_list_0_iff)
  next
    case (Some p)
    with rc_okD [OF ok Some] show ?thesis by (simp add: refs_to_def)
  qed
  moreover have "handle_exec base c w \<noteq> None" if "handle_op_valid base w c" for c
    using handle_exec_ok [OF ok that] by auto
  ultimately show ?thesis by blast
qed

theorem allocator_refcount_exact_witness:
  "\<exists>w. world_reachable small_base w \<and> w_handles w = [Some 0, Some 0]
    \<and> (case pool_at w 0 of Some p \<Rightarrow> sh_refcount p = 2 | None \<Rightarrow> False)"
proof -
  define w0 :: world where "w0 = \<lparr>w_pools = [], w_handles = []\<rparr>"
  define w1 where "w1 = w0\<lparr>w_pools := [Some small_pool], w_handles := [Some 0]\<rparr>"
  define w2 where "w2 = w0\<lparr>w_pools := [Some (small_pool\<lparr>sh_refcount := 2\<rparr>)],
    w_handles := [Some 0, Some 0]\<rparr>"
  have rc: "sh_refcount small_pool = 1" by (simp add: pool_eval)
  have "world_reachable small_base w0" unfolding w0_def by (rule world_init)
  then have "world_reachable small_base w1"
    by (rule world_step [where c = HNew])
      (simp_all add: ctor_def w1_def w0_def small_pool_new)
  then have r: "world_reachable small_base w2"
    by (rule world_step [where c = "HCopy 0"])
      (simp_all add: copy_ctor_def incref_def handle_shared_def pool_at_def set_pool_def w1_def w2_def
        w0_def rc)
  have h: "w_handles w2 = [Some 0, Some 0]" by (simp add: w2_def)
  have "case pool_at w2 0 of Some p \<Rightarrow> sh_refcount p = 2 | None \<Rightarrow> False"
    using allocator_refcount_exact [OF r]
    by (auto simp: h dest!: spec [of _ 0] split: option.splits)
  with r h show ?thesis by blast
qed

subsection \<open>The spin lock\<close>

text \<open>
  Threads that share one \<open>SpinLock\<close>: outside, about to exchange, in the inner loop, or holding the
  lock. Each atomic access of the source is one step.
\<close>

datatype spin_pc = SOut | SExchange | SLoad | SHeld

inductive spin_step :: "bool \<times> spin_pc list \<Rightarrow> bool \<times> spin_pc list \<Rightarrow> bool" where
  spin_call: "\<lbrakk> i < length ts; ts ! i = SOut \<rbrakk> \<Longrightarrow> spin_step (lock, ts) (lock, ts[i := SExchange])"
| spin_exchange: "\<lbrakk> i < length ts; ts ! i = SExchange \<rbrakk>
    \<Longrightarrow> spin_step (lock, ts) (True, ts[i := (if lock then SLoad else SHeld)])"
| spin_load: "\<lbrakk> i < length ts; ts ! i = SLoad \<rbrakk>
    \<Longrightarrow> spin_step (lock, ts) (lock, ts[i := (if lock then SLoad else SExchange)])"
| spin_unlock: "\<lbrakk> i < length ts; ts ! i = SHeld \<rbrakk> \<Longrightarrow> spin_step (lock, ts) (False, ts[i := SOut])"

inductive_cases spin_stepE: "spin_step s t"

inductive spin_reachable :: "nat \<Rightarrow> bool \<times> spin_pc list \<Rightarrow> bool" for n where
  spin_init: "spin_reachable n (False, replicate n SOut)"
| spin_next: "spin_reachable n s \<Longrightarrow> spin_step s t \<Longrightarrow> spin_reachable n t"

definition holders :: "spin_pc list \<Rightarrow> nat" where "holders ts = count_list ts SHeld"

lemma holders_update:
  "i < length ts \<Longrightarrow> holders (ts[i := v]) + of_bool (ts ! i = SHeld) = holders ts + of_bool (v = SHeld)"
  unfolding holders_def by (rule count_list_update)

text \<open>
  C15: the spin lock excludes. However the threads' steps interleave, the flag is set exactly when
  a thread holds the lock, and never two hold it.
\<close>

theorem spinlock_mutual_exclusion:
  assumes "spin_reachable n (lock, ts)"
  shows "count_list ts SHeld = (if lock then 1 else 0)"
proof -
  have "holders (snd s) = of_bool (fst s)" if "spin_reachable n s" for s
    using that
  proof (induction rule: spin_reachable.induct)
    case (spin_next s t)
    from spin_next.hyps(2) show ?case
    proof cases
      case (spin_call i ts lock)
      with holders_update [of i ts SExchange] spin_next.IH show ?thesis by simp
    next
      case (spin_exchange i ts lock)
      with holders_update [of i ts "if lock then SLoad else SHeld"] spin_next.IH show ?thesis
        by (auto split: if_splits)
    next
      case (spin_load i ts lock)
      with holders_update [of i ts "if lock then SLoad else SExchange"] spin_next.IH show ?thesis
        by (auto split: if_splits)
    next
      case (spin_unlock i ts lock)
      with holders_update [of i ts SOut] spin_next.IH show ?thesis
        by (cases lock) simp_all
    qed
  qed (simp add: holders_def count_list_0_iff)
  from this [OF assms] show ?thesis by (simp add: holders_def)
qed

theorem spinlock_mutual_exclusion_witness:
  "\<exists>ts. spin_reachable 2 (True, ts) \<and> count_list ts SHeld = 1"
proof -
  have "spin_reachable 2 (False, [SOut, SOut])" using spin_init [of 2] by (simp add: numeral_2_eq_2)
  then have "spin_reachable 2 (False, [SExchange, SOut])"
    by (rule spin_next) (use spin_call [of 0 "[SOut, SOut]" False] in simp)
  then have r: "spin_reachable 2 (True, [SHeld, SOut])"
    by (rule spin_next) (use spin_exchange [of 0 "[SExchange, SOut]" False] in simp)
  from spinlock_mutual_exclusion [OF r] r show ?thesis by auto
qed

end
