(* ===== verification/Sonic_Bits.thy ===== *)
theory Sonic_Bits
  imports Sonic_Prelude
begin

text \<open>
  The bit-level routines of the block scanners: \<open>internal/arch/avx2/base.h\<close> (the SSE versions are the
  same code) and \<open>GetEscaped\<close> of \<open>internal/arch/common/unicode_common.h\<close>. The vector instructions used are
  the comparison masks (\<open>to_bitmask\<close>: bit \<open>i\<close> is the result for byte \<open>i\<close>) and the carry-less product.
  Each routine is related to its meaning for a list of flags.
\<close>

subsection \<open>The routines\<close>

text \<open>The two x86 vector instruction sets the block routines are compiled for, and \<open>VEC_LEN\<close>.\<close>

datatype isa = AVX2 | SSE

fun VEC_LEN :: "isa \<Rightarrow> nat" where
  "VEC_LEN AVX2 = 32"
| "VEC_LEN SSE = 16"

lemma VEC_LEN_bounds [simp]: "0 < VEC_LEN i" "VEC_LEN i \<le> 32"
  by (cases i; simp)+

text \<open>The bitmask of a list of flags: bit \<open>i\<close> is the \<open>i\<close>-th flag.\<close>

definition to_bitmask :: "bool list \<Rightarrow> 'a::len word" where
  "to_bitmask bs = horner_sum of_bool 2 bs"

text \<open>\<open>__builtin_ctzll\<close>; undefined for 0 in the source, the width here.\<close>

definition TrailingZeroes :: "'a::len word \<Rightarrow> nat" where
  "TrailingZeroes w = length (takeWhile (\<lambda>i. \<not> bit w i) [0..<LENGTH('a)])"

definition ClearLowestBit :: "u64 \<Rightarrow> u64" where
  "ClearLowestBit w = w AND (w - 1)"

definition CountOnes :: "u64 \<Rightarrow> nat" where
  "CountOnes w = length (filter (bit w) [0..<64])"

text \<open>\<open>_mm_clmulepi64_si128\<close>, its low 64 bits.\<close>

definition clmul_lo :: "u64 \<Rightarrow> u64 \<Rightarrow> u64" where
  "clmul_lo a b = foldr (\<lambda>i acc. if bit b i then acc XOR push_bit i a else acc) [0..<64] 0"

definition PrefixXor :: "u64 \<Rightarrow> u64" where
  "PrefixXor bitmask = clmul_lo bitmask (- 1)"

definition odd_bits :: u64 where "odd_bits = 0xAAAAAAAAAAAAAAAA"

text \<open>\<open>GetEscaped<SONIC_BLOCK_SIZE>\<close>: the escaped characters and the new \<open>prev_escaped\<close>.\<close>

definition GetEscaped :: "nat \<Rightarrow> u64 \<Rightarrow> u64 \<Rightarrow> u64 \<times> u64" where
  "GetEscaped block_size prev_escaped backslash =
     (let with_prev_backslash = backslash AND NOT prev_escaped;
          escaped = ((push_bit 1 with_prev_backslash OR odd_bits) - with_prev_backslash) XOR odd_bits;
          escaped_with_prev = escaped XOR (backslash OR prev_escaped)
      in (escaped_with_prev, drop_bit (block_size - 1) (escaped AND backslash) AND 1))"

subsection \<open>Masks\<close>

lemma bit_to_bitmask: "bit (to_bitmask bs :: 'a::len word) i \<longleftrightarrow> i < LENGTH('a) \<and> i < length bs \<and> bs ! i"
  by (simp add: to_bitmask_def bit_horner_sum_bit_word_iff)

lemma bit_nonzero: "(w :: 'a::len word) \<noteq> 0 \<longleftrightarrow> (\<exists>i < LENGTH('a). bit w i)"
proof
  assume "w \<noteq> 0"
  then show "\<exists>i < LENGTH('a). bit w i" by (rule contrapos_np) (auto intro!: bit_word_eqI)
qed auto

lemma to_bitmask_eq_0: "length bs \<le> LENGTH('a) \<Longrightarrow> (to_bitmask bs :: 'a::len word) = 0 \<longleftrightarrow> True \<notin> set bs"
proof -
  assume le: "length bs \<le> LENGTH('a)"
  have "(\<exists>i < LENGTH('a). bit (to_bitmask bs :: 'a word) i) \<longleftrightarrow> True \<in> set bs"
  proof
    assume "True \<in> set bs"
    then obtain i where "i < length bs" "bs ! i" by (auto simp: in_set_conv_nth)
    with le show "\<exists>i < LENGTH('a). bit (to_bitmask bs :: 'a word) i"
      by (intro exI [of _ i]) (simp add: bit_to_bitmask)
  next
    assume "\<exists>i < LENGTH('a). bit (to_bitmask bs :: 'a word) i"
    then show "True \<in> set bs" by (auto simp: bit_to_bitmask in_set_conv_nth)
  qed
  with bit_nonzero [of "to_bitmask bs :: 'a word"] show ?thesis by blast
qed

lemma TrailingZeroes_nonzero:
  assumes "(w :: 'a::len word) \<noteq> 0"
  shows "TrailingZeroes w < LENGTH('a)" and "bit w (TrailingZeroes w)"
    and "i < TrailingZeroes w \<Longrightarrow> \<not> bit w i"
proof -
  let ?P = "\<lambda>i. \<not> bit w i"
  obtain j where j: "j < LENGTH('a)" "bit w j" using assms by (auto simp: bit_nonzero)
  have lt: "length (takeWhile ?P [0..<LENGTH('a)]) < length [0..<LENGTH('a)]"
  proof (rule ccontr)
    assume "\<not> ?thesis"
    then have "takeWhile ?P [0..<LENGTH('a)] = [0..<LENGTH('a)]"
      by (metis length_takeWhile_le not_less takeWhile_eq_take take_all)
    then have "\<forall>i \<in> set [0..<LENGTH('a)]. ?P i" by (simp only: takeWhile_eq_all_conv)
    with j show False by simp
  qed
  then show tz: "TrailingZeroes w < LENGTH('a)" by (simp add: TrailingZeroes_def)
  show "bit w (TrailingZeroes w)"
    using nth_length_takeWhile [OF lt] tz by (simp add: TrailingZeroes_def)
  show "\<not> bit w i" if "i < TrailingZeroes w"
  proof -
    have i: "i < length (takeWhile ?P [0..<LENGTH('a)])" using that by (simp add: TrailingZeroes_def)
    from nth_mem [OF i] have "?P (takeWhile ?P [0..<LENGTH('a)] ! i)" by (auto dest: set_takeWhileD)
    moreover have "takeWhile ?P [0..<LENGTH('a)] ! i = i"
      using takeWhile_nth [OF i] i lt by simp
    ultimately show ?thesis by simp
  qed
qed

lemma TrailingZeroes_eqI:
  assumes "k < LENGTH('a)" and "bit (w :: 'a::len word) k" and "\<And>i. i < k \<Longrightarrow> \<not> bit w i"
  shows "TrailingZeroes w = k"
proof -
  have "w \<noteq> 0" using assms(1,2) by auto
  from TrailingZeroes_nonzero [OF this] assms show ?thesis by (metis linorder_neqE_nat)
qed

lemma TrailingZeroes_to_bitmask:
  assumes "length bs \<le> LENGTH('a)" and "True \<in> set bs"
  shows "TrailingZeroes (to_bitmask bs :: 'a::len word) = length (takeWhile Not bs)"
proof -
  have lt: "length (takeWhile Not bs) < length bs"
    using assms(2) by (metis length_takeWhile_le nat_less_le not_less takeWhile_eq_all_conv takeWhile_eq_take take_all)
  show ?thesis
  proof (rule TrailingZeroes_eqI)
    show "bit (to_bitmask bs :: 'a word) (length (takeWhile Not bs))"
      using nth_length_takeWhile [OF lt] lt assms(1) by (simp add: bit_to_bitmask)
    show "\<not> bit (to_bitmask bs :: 'a word) i" if "i < length (takeWhile Not bs)" for i
    proof -
      have "takeWhile Not bs ! i \<in> set (takeWhile Not bs)" using that by (rule nth_mem)
      with takeWhile_nth [OF that] show ?thesis by (auto simp: bit_to_bitmask dest: set_takeWhileD)
    qed
  qed (use lt assms(1) in simp)
qed

text \<open>Subtracting 1 turns the lowest set bit and everything below it over.\<close>

lemma bit_minus_1:
  assumes "(w :: 'a::len word) \<noteq> 0" and "i < LENGTH('a)"
  shows "bit (w - 1) i \<longleftrightarrow> (if i < TrailingZeroes w then True else if i = TrailingZeroes w then False else bit w i)"
proof -
  define k where "k = TrailingZeroes w"
  note tz = TrailingZeroes_nonzero [OF assms(1), folded k_def]
  obtain j where j: "j = Suc k" by blast
  then have jk: "j \<le> n \<longleftrightarrow> k < n" for n by auto
  let ?h = "push_bit j (drop_bit j w)"
  have "w = ?h OR push_bit k 1"
  proof (rule bit_word_eqI)
    fix n assume "n < LENGTH('a)"
    then show "bit w n \<longleftrightarrow> bit (?h OR push_bit k 1) n"
      using tz by (cases n k rule: linorder_cases) (auto simp: bit_simps jk)
  qed
  moreover have "?h AND push_bit k 1 = 0" by (rule bit_word_eqI) (auto simp: bit_simps jk)
  ultimately have w: "w = ?h + push_bit k 1" using disjunctive_add_eq_or [of ?h "push_bit k 1"] by simp
  have "w - 1 = ?h + mask k" by (subst w) (simp add: mask_eq_exp_minus_1 push_bit_eq_mult)
  moreover have "?h AND mask k = 0" by (rule bit_word_eqI) (auto simp: bit_simps jk)
  ultimately have "w - 1 = ?h OR mask k" using disjunctive_add_eq_or [of ?h "mask k"] by simp
  then show ?thesis
    using assms(2) tz by (cases i k rule: linorder_cases) (auto simp: bit_simps jk k_def [symmetric])
qed

lemma bit_zero_minus_1: "bit ((0 :: 'a::len word) - 1) i \<longleftrightarrow> i < LENGTH('a)"
  by simp

text \<open>
  \<open>(x - 1) & y\<close> is non-zero exactly when some bit of \<open>y\<close> comes before every bit of \<open>x\<close>, for masks
  that have no bit in common.
\<close>

definition first_before :: "bool list \<Rightarrow> bool list \<Rightarrow> bool" where
  "first_before ys xs \<longleftrightarrow> (\<exists>i < length ys. ys ! i \<and> (\<forall>j \<le> i. j < length xs \<longrightarrow> \<not> xs ! j))"

lemma minus_1_and:
  assumes x: "(x :: 'a::len word) AND y = 0"
  shows "(x - 1) AND y \<noteq> 0 \<longleftrightarrow> (\<exists>i < LENGTH('a). bit y i \<and> (\<forall>j \<le> i. \<not> bit x j))"
proof (cases "x = 0")
  case True
  then show ?thesis by (simp add: bit_nonzero)
next
  case False
  note tz = TrailingZeroes_nonzero [OF False]
  have no: "\<not> (bit x i \<and> bit y i)" for i using arg_cong [OF x, of "\<lambda>w. bit w i"] by (simp add: bit_simps)
  have "(x - 1) AND y \<noteq> 0 \<longleftrightarrow> (\<exists>i < LENGTH('a). bit (x - 1) i \<and> bit y i)"
    by (simp add: bit_nonzero bit_simps)
  also have "\<dots> \<longleftrightarrow> (\<exists>i < LENGTH('a). bit y i \<and> i < TrailingZeroes x)"
    using no tz(2) by (auto simp: bit_minus_1 [OF False] split: if_splits)
  also have "\<dots> \<longleftrightarrow> (\<exists>i < LENGTH('a). bit y i \<and> (\<forall>j \<le> i. \<not> bit x j))"
    using tz(2,3) by (metis le_trans linorder_not_less order_le_less_trans)
  finally show ?thesis .
qed

lemma minus_1_and_to_bitmask:
  assumes "length xs = LENGTH('a)" and "length ys = LENGTH('a)"
    and "\<And>i. i < LENGTH('a) \<Longrightarrow> \<not> (xs ! i \<and> ys ! i)"
  shows "((to_bitmask xs :: 'a::len word) - 1) AND to_bitmask ys \<noteq> 0 \<longleftrightarrow> first_before ys xs"
proof -
  have "(to_bitmask xs :: 'a word) AND to_bitmask ys = 0"
    by (rule bit_word_eqI) (use assms(3) in \<open>auto simp: bit_simps bit_to_bitmask\<close>)
  from minus_1_and [OF this] assms(1,2) show ?thesis
    by (auto simp: bit_to_bitmask first_before_def)
qed

lemma bit_ClearLowestBit:
  assumes "w \<noteq> 0"
  shows "bit (ClearLowestBit w) i \<longleftrightarrow> bit w i \<and> i \<noteq> TrailingZeroes w"
proof (cases "i < 64")
  case True
  then show ?thesis
    using TrailingZeroes_nonzero [OF assms] bit_minus_1 [OF assms, of i]
    by (auto simp: ClearLowestBit_def bit_simps)
qed (auto dest: bit_imp_le_length)

subsection \<open>Subtraction bit by bit\<close>

primrec borrow :: "(nat \<Rightarrow> bool) \<Rightarrow> (nat \<Rightarrow> bool) \<Rightarrow> nat \<Rightarrow> bool" where
  "borrow a b 0 \<longleftrightarrow> False"
| "borrow a b (Suc n) \<longleftrightarrow> (\<not> a n \<and> b n) \<or> (a n = b n \<and> borrow a b n)"

lemma int_borrow:
  fixes a b :: int
  shows "take_bit n a - take_bit n b = take_bit n (a - b) - 2 ^ n * of_bool (borrow (bit a) (bit b) n)"
proof (induction n)
  case (Suc n)
  let ?T = "take_bit n (a - b)" and ?br = "borrow (bit a) (bit b)"
  have s: "take_bit (Suc n) x = 2 ^ n * of_bool (bit x n) + take_bit n x" for x :: int
    by (simp add: take_bit_Suc_from_most)
  have T: "0 \<le> ?T" "?T < 2 ^ n" "?T < 2 * 2 ^ n"
  proof -
    show "?T < 2 ^ n" by simp
    moreover have "(0 :: int) < 2 ^ n" by simp
    ultimately show "?T < 2 * 2 ^ n" by linarith
  qed simp
  have e: "take_bit (Suc n) a - take_bit (Suc n) b
      = 2 ^ n * (of_bool (bit a n) - of_bool (bit b n) - of_bool (?br n)) + ?T"
    using Suc.IH by (simp add: s algebra_simps)
  have m: "take_bit (Suc n) (a - b) = take_bit (Suc n) (take_bit (Suc n) a - take_bit (Suc n) b)"
    by (simp add: take_bit_diff)
  have two: "2 ^ Suc n = 2 * (2 ^ n :: int)" by simp
  have c: "take_bit (Suc n) (2 ^ n * c + ?T) = (if c = 0 \<or> c = - 2 then ?T else 2 ^ n + ?T)" if "c \<in> {-2, -1, 0, 1}" for c :: int
  proof -
    have "(2 ^ n * c + ?T) mod 2 ^ Suc n = (if c = 0 \<or> c = - 2 then ?T else 2 ^ n + ?T)"
      unfolding two
      by (rule int_mod_pos_eq [where q = "if c < 0 then -1 else 0"]) (use T that in \<open>auto simp: algebra_simps\<close>)
    then show ?thesis by (simp only: take_bit_eq_mod)
  qed
  have "take_bit (Suc n) (a - b) = take_bit (Suc n) (2 ^ n * (of_bool (bit a n) - of_bool (bit b n) - of_bool (?br n)) + ?T)"
    by (simp only: m e)
  also have "\<dots> = (let c = (of_bool (bit a n) - of_bool (bit b n) - of_bool (?br n)) :: int in if c = 0 \<or> c = - 2 then ?T else 2 ^ n + ?T)"
    unfolding Let_def by (rule c) auto
  finally show ?case unfolding e by (auto simp: Let_def algebra_simps)
qed simp

lemma bit_diff_borrow:
  fixes y x :: "'a::len word"
  assumes "n < LENGTH('a)"
  shows "bit (y - x) n \<longleftrightarrow> (bit y n \<noteq> bit x n) \<noteq> borrow (bit y) (bit x) n"
proof -
  let ?a = "uint y" and ?b = "uint x"
  have bits: "borrow (bit ?a) (bit ?b) m = borrow (bit y) (bit x) m" if "m \<le> LENGTH('a)" for m
    using that by (induction m) (auto simp: bit_uint_iff)
  have s: "take_bit (Suc n) z = 2 ^ n * of_bool (bit z n) + take_bit n z" for z :: int
    by (simp add: take_bit_Suc_from_most)
  have "(2 ^ n * of_bool (bit ?a n) - 2 ^ n * of_bool (bit ?b n) :: int)
     = 2 ^ n * of_bool (bit (?a - ?b) n) - 2 ^ Suc n * of_bool (borrow (bit ?a) (bit ?b) (Suc n)) + 2 ^ n * of_bool (borrow (bit ?a) (bit ?b) n)"
    using int_borrow [of n ?a ?b] int_borrow [of "Suc n" ?a ?b] by (simp only: s)
  then have "2 ^ n * (of_bool (bit ?a n) - of_bool (bit ?b n))
     = 2 ^ n * ((of_bool (bit (?a - ?b) n) :: int) - 2 * of_bool (borrow (bit ?a) (bit ?b) (Suc n)) + of_bool (borrow (bit ?a) (bit ?b) n))"
    by (simp add: algebra_simps)
  then have "of_bool (bit ?a n) - of_bool (bit ?b n)
     = (of_bool (bit (?a - ?b) n) :: int) - 2 * of_bool (borrow (bit ?a) (bit ?b) (Suc n)) + of_bool (borrow (bit ?a) (bit ?b) n)"
    by simp
  then have "bit (?a - ?b) n \<longleftrightarrow> (bit ?a n \<noteq> bit ?b n) \<noteq> borrow (bit ?a) (bit ?b) n"
    by (cases "bit (?a - ?b) n"; cases "bit ?a n"; cases "bit ?b n"; cases "borrow (bit ?a) (bit ?b) n"; simp)
  moreover have "bit (y - x) n = bit (?a - ?b) n"
    using assms by (simp only: word_sub_wi bit_word_of_int_iff simp_thms)
  ultimately show ?thesis using assms bits [of n] by (simp add: bit_uint_iff)
qed

subsection \<open>Escaped characters\<close>

text \<open>
  The scalar meaning: a character is escaped when the one before it is a backslash that is not
  escaped itself. \<open>p\<close> says whether the first one is.
\<close>

fun esc_flags :: "bool \<Rightarrow> bool list \<Rightarrow> bool list" where
  "esc_flags p [] = []"
| "esc_flags p (b # bs) = p # esc_flags (\<not> p \<and> b) bs"

fun esc_next :: "bool \<Rightarrow> bool list \<Rightarrow> bool" where
  "esc_next p [] = p"
| "esc_next p (b # bs) = esc_next (\<not> p \<and> b) bs"

primrec esc_at :: "bool \<Rightarrow> (nat \<Rightarrow> bool) \<Rightarrow> nat \<Rightarrow> bool" where
  "esc_at p b 0 = p"
| "esc_at p b (Suc i) = (\<not> esc_at p b i \<and> b i)"

lemma esc_at_shift: "esc_at p b (Suc i) = esc_at (\<not> p \<and> b 0) (\<lambda>j. b (Suc j)) i"
  by (induction i) simp_all

lemma esc_flags_nth: "i < length bs \<Longrightarrow> esc_flags p bs ! i = esc_at p ((!) bs) i"
proof (induction bs arbitrary: p i)
  case (Cons b bs)
  then show ?case by (cases i) (simp_all add: esc_at_shift del: esc_at.simps(2))
qed simp

lemma bit_odd_bits: "bit odd_bits i \<longleftrightarrow> i < 64 \<and> odd i"
proof -
  have "odd_bits = to_bitmask (map odd [0..<64])" by (simp add: odd_bits_def to_bitmask_def upt_rec)
  then have "bit odd_bits i = bit (to_bitmask (map odd [0..<64]) :: u64) i" by (rule arg_cong)
  also have "\<dots> \<longleftrightarrow> i < 64 \<and> odd i" unfolding bit_to_bitmask by auto
  finally show ?thesis .
qed

definition one_bit :: "bool \<Rightarrow> u64" where "one_bit p = (if p then 1 else 0)"

lemma bit_one_bit: "bit (one_bit p) i \<longleftrightarrow> i = 0 \<and> p"
  by (simp add: one_bit_def bit_1_iff)

lemma GetEscaped_bits:
  fixes bs :: u64 and p :: bool
  assumes i: "i < 64"
  defines "x \<equiv> bs AND NOT (one_bit p)"
  defines "e \<equiv> ((push_bit 1 x OR odd_bits) - x) XOR odd_bits"
  shows "bit (e XOR (bs OR one_bit p)) i = esc_at p (bit bs) i" 
   and "bit (e AND bs) i = (bit bs i \<and> \<not> esc_at p (bit bs) i)"
proof -
  let ?y = "push_bit 1 x OR odd_bits"
  let ?br = "borrow (bit ?y) (bit x)"
  have x: "bit x n \<longleftrightarrow> bit bs n \<and> \<not> (n = 0 \<and> p)" if "n < 64" for n
    using that by (auto simp: x_def bit_simps bit_one_bit)
  have y: "bit ?y n \<longleftrightarrow> (0 < n \<and> bit x (n - 1)) \<or> odd n" if "n < 64" for n
    using that unfolding bit_or_iff bit_push_bit_iff bit_odd_bits by auto
  have inv: "if 0 < n \<and> bit x (n - 1) then esc_at p (bit bs) n = (?br n = odd n)
     else \<not> ?br n \<and> (esc_at p (bit bs) n = (n = 0 \<and> p))" if "n < 64" for n
    using that
  proof (induction n)
    case (Suc n)
    then have n: "n < 64" by simp
    from Suc.IH [OF n] x [OF n] y [OF n] show ?case
      unfolding borrow.simps esc_at.simps diff_Suc_1 even_Suc by (auto split: if_splits)
  qed simp
  have e: "bit e i \<longleftrightarrow> (((bit ?y i \<noteq> bit x i) \<noteq> ?br i) \<noteq> odd i)"
    using i bit_diff_borrow [of i ?y x] by (simp add: e_def bit_xor_iff bit_odd_bits)
  have yi: "(bit (push_bit 1 x) i \<or> bit odd_bits i) = bit ?y i" by (simp only: bit_or_iff)
  show "bit (e XOR (bs OR one_bit p)) i = esc_at p (bit bs) i"
    using inv [OF i] x [OF i] y [OF i]
    by (simp only: bit_xor_iff bit_or_iff [of bs] e bit_one_bit) (auto split: if_splits)
  show "bit (e AND bs) i = (bit bs i \<and> \<not> esc_at p (bit bs) i)"
    using inv [OF i] x [OF i] y [OF i]
    by (simp only: bit_and_iff e) (auto split: if_splits)
qed

lemma esc_next_at: "esc_next p bs = esc_at p ((!) bs) (length bs)"
proof (induction bs arbitrary: p)
  case (Cons b bs)
  then show ?case by (simp add: esc_at_shift del: esc_at.simps(2))
qed simp

lemma length_esc_flags [simp]: "length (esc_flags p bs) = length bs"
  by (induction p bs rule: esc_flags.induct) simp_all

lemma esc_flags_append: "esc_flags p (xs @ ys) = esc_flags p xs @ esc_flags (esc_next p xs) ys"
  by (induction p xs rule: esc_flags.induct) simp_all

lemma esc_next_append: "esc_next p (xs @ ys) = esc_next (esc_next p xs) ys"
  by (induction p xs rule: esc_flags.induct) simp_all

lemma esc_at_cong: "(\<And>j. j < i \<Longrightarrow> f j = g j) \<Longrightarrow> esc_at p f i = esc_at p g i"
  by (induction i) simp_all

lemma and_1_bit: "w AND 1 = one_bit (bit (w :: u64) 0)"
  by (rule bit_word_eqI) (auto simp: bit_simps bit_one_bit)

lemma GetEscaped_block:
  assumes "length bs = B" and "0 < B" and "B \<le> 64"
  shows "snd (GetEscaped B (one_bit p) (to_bitmask bs)) = one_bit (esc_next p bs)"
    and "i < B \<Longrightarrow> bit (fst (GetEscaped B (one_bit p) (to_bitmask bs))) i = esc_flags p bs ! i"
proof -
  let ?m = "to_bitmask bs :: u64"
  have at: "esc_at p (bit ?m) i = esc_at p ((!) bs) i" if "i \<le> B" for i
    by (rule esc_at_cong) (use that assms in \<open>simp add: bit_to_bitmask\<close>)
  note bits = GetEscaped_bits [of _ ?m p]
  show "bit (fst (GetEscaped B (one_bit p) ?m)) i = esc_flags p bs ! i" if "i < B"
  proof -
    have "i < 64" "i < length bs" "i \<le> B" using that assms by simp_all
    then show ?thesis
      by (simp only: GetEscaped_def Let_def fst_conv esc_flags_nth bits(1) at)
  qed
  have "B - 1 < 64" "B = Suc (B - 1)" using assms by simp_all
  moreover from this assms have "bit ?m (B - 1) = bs ! (B - 1)" by (simp add: bit_to_bitmask)
  moreover have "B - 1 \<le> B" "B - 1 + 0 = B - 1" by simp_all
  moreover have "esc_at p ((!) bs) B = (\<not> esc_at p ((!) bs) (B - 1) \<and> bs ! (B - 1))"
    by (subst \<open>B = Suc (B - 1)\<close>) (simp only: esc_at.simps)
  ultimately show "snd (GetEscaped B (one_bit p) ?m) = one_bit (esc_next p bs)"
    by (simp only: GetEscaped_def Let_def snd_conv and_1_bit bit_drop_bit_eq o_apply esc_next_at bits(2) at assms(1))
      (simp add: conj_commute)
qed

text \<open>
  C10: the carry-based computation of escaped characters is the scalar one. For every block of 1 to
  64 characters, every position of its backslashes and either carry-in, bit \<open>i\<close> of the result says
  whether character \<open>i\<close> is escaped and the carry-out whether the next block starts escaped.
\<close>

theorem get_escaped_scalar:
  assumes "0 < length bs" and "length bs \<le> 64"
  shows "case GetEscaped (length bs) (one_bit p) (to_bitmask bs) of (escaped, prev_escaped) \<Rightarrow>
    map (bit escaped) [0..<length bs] = esc_flags p bs \<and> prev_escaped = one_bit (esc_next p bs)"
proof -
  let ?r = "GetEscaped (length bs) (one_bit p) (to_bitmask bs)"
  have "map (bit (fst ?r)) [0..<length bs] = esc_flags p bs"
    by (rule nth_equalityI) (use GetEscaped_block(2) [OF refl assms] in simp_all)
  moreover have "snd ?r = one_bit (esc_next p bs)" by (rule GetEscaped_block(1) [OF refl assms])
  ultimately show ?thesis by (simp add: case_prod_beta)
qed

theorem get_escaped_scalar_witness:
  "case GetEscaped 4 (one_bit True) (to_bitmask [True, True, True, False]) of (escaped, prev_escaped) \<Rightarrow>
    map (bit escaped) [0..<4] = [True, False, True, False] \<and> prev_escaped = one_bit False"
  using get_escaped_scalar [of "[True, True, True, False]" True] by (simp add: upt_rec case_prod_beta eval_nat_numeral)

subsection \<open>Prefix parity and population count\<close>

fun parity_flags :: "bool \<Rightarrow> bool list \<Rightarrow> bool list" where
  "parity_flags p [] = []"
| "parity_flags p (b # bs) = (p \<noteq> b) # parity_flags (p \<noteq> b) bs"

primrec parity_at :: "bool \<Rightarrow> (nat \<Rightarrow> bool) \<Rightarrow> nat \<Rightarrow> bool" where
  "parity_at p b 0 = (p \<noteq> b 0)"
| "parity_at p b (Suc i) = (parity_at p b i \<noteq> b (Suc i))"

lemma parity_at_shift: "parity_at p b (Suc i) = parity_at (p \<noteq> b 0) (\<lambda>j. b (Suc j)) i"
  by (induction i) simp_all

lemma length_parity_flags [simp]: "length (parity_flags p bs) = length bs"
  by (induction p bs rule: parity_flags.induct) simp_all

lemma parity_flags_nth: "i < length bs \<Longrightarrow> parity_flags p bs ! i = parity_at p ((!) bs) i"
proof (induction bs arbitrary: p i)
  case (Cons b bs)
  then show ?case by (cases i) (simp_all add: parity_at_shift del: parity_at.simps(2))
qed simp

lemma bit_clmul_fold:
  assumes "n < 64"
  shows "bit (foldr (\<lambda>i acc. if P i then acc XOR push_bit i (a :: u64) else acc) [0..<k] acc0) n
    = (odd (length (filter (\<lambda>i. P i \<and> i \<le> n \<and> bit a (n - i)) [0..<k])) \<noteq> bit acc0 n)"
proof (induction k arbitrary: acc0)
  case (Suc k)
  have b: "bit (acc0 XOR push_bit k a) n = (bit acc0 n \<noteq> (k \<le> n \<and> bit a (n - k)))"
    using assms unfolding bit_xor_iff bit_push_bit_iff by simp
  show ?case by (cases "P k") (auto simp: Suc.IH b)
qed simp

lemma odd_filter_rev:
  "n < 64 \<Longrightarrow> odd (length (filter (\<lambda>i. i \<le> n \<and> bit (a :: u64) (n - i)) [0..<64])) = parity_at False (bit a) n"
proof (induction n)
  case 0
  have "filter (\<lambda>i. i \<le> 0 \<and> bit a (0 - i)) [0..<64] = filter (\<lambda>i. i = 0 \<and> bit a 0) [0..<64]"
    by (rule filter_cong) auto
  then show ?case by (simp add: upt_rec)
next
  case (Suc n)
  have "[0..<64] = 0 # map Suc [0..<63]" by (simp add: map_Suc_upt upt_rec [of 0 64])
  then have "filter (\<lambda>i. i \<le> Suc n \<and> bit a (Suc n - i)) [0..<64]
     = (if bit a (Suc n) then [0] else []) @ map Suc (filter (\<lambda>i. i \<le> n \<and> bit a (n - i)) [0..<63])"
    by (simp add: filter_map o_def)
  moreover have "filter (\<lambda>i. i \<le> n \<and> bit a (n - i)) [0..<64] = filter (\<lambda>i. i \<le> n \<and> bit a (n - i)) [0..<63]"
    using Suc.prems by (simp add: upt_Suc_append [of 0 63, simplified])
  ultimately show ?case using Suc by auto
qed

lemma bit_PrefixXor: "n < 64 \<Longrightarrow> bit (PrefixXor w) n = parity_at False (bit w) n"
proof -
  assume n: "n < 64"
  have "filter (\<lambda>i. bit (- 1 :: u64) i \<and> i \<le> n \<and> bit w (n - i)) [0..<64]
      = filter (\<lambda>i. i \<le> n \<and> bit w (n - i)) [0..<64]"
    by (rule filter_cong) auto
  with bit_clmul_fold [OF n, of "bit (- 1 :: u64)" w 64 0] odd_filter_rev [OF n, of w]
  show ?thesis by (simp only: PrefixXor_def clmul_lo_def) simp
qed

lemma parity_at_xor: "parity_at p b i = (parity_at False b i \<noteq> p)"
  by (induction i) auto

lemma parity_at_cong: "(\<And>j. j \<le> i \<Longrightarrow> f j = g j) \<Longrightarrow> parity_at p f i = parity_at p g i"
  by (induction i) simp_all

lemma PrefixXor_to_bitmask:
  assumes "length bs = 64" and "i < 64"
  shows "bit (PrefixXor (to_bitmask bs)) i = parity_flags False bs ! i"
  using assms by (simp add: bit_PrefixXor parity_flags_nth)
    (rule parity_at_cong, simp add: bit_to_bitmask)

lemma CountOnes_eq: "CountOnes w = card {i. i < 64 \<and> bit w i}"
proof -
  have "CountOnes w = card (set (filter (bit w) [0..<64]))"
    unfolding CountOnes_def by (rule distinct_card [symmetric]) simp
  also have "set (filter (bit w) [0..<64]) = {i. i < 64 \<and> bit w i}" by auto
  finally show ?thesis .
qed
end
