(* ===== verification/Sonic_Quote.thy ===== *)
theory Sonic_Quote
  imports Sonic_Bits Sonic_Error
begin

text \<open>
  String quoting for serialization: \<open>DoEscape\<close> and the scalar \<open>Quote\<close> of
  \<open>internal/arch/common/quote_common.h\<close>, the vector \<open>Quote\<close> of
  \<open>internal/arch/common/x86_common/quote.inc.h\<close> (for 16 or 32 bytes per step), over the tables of
  \<open>quote_tables.h\<close>. The source string is the list of the bytes still to read, so \<open>nb\<close> is its length;
  the destination is a buffer and a position, and a write outside the buffer gives \<^term>\<open>None\<close>.
\<close>

subsection \<open>Tables\<close>

definition kNeedEscaped :: "bool list" where
  "kNeedEscaped = replicate 32 True @ replicate 2 False @ [True] @ replicate 57 False @ [True]
     @ replicate 163 False"

type_synonym QuotedChar = "nat \<times> bytes"

definition q0 :: QuotedChar where "q0 = (0, [])"
definition q2 :: "u8 \<Rightarrow> QuotedChar" where "q2 c = (2, [0x5C, c, 0, 0, 0, 0, 0, 0])"
definition q6 :: "string \<Rightarrow> QuotedChar" where "q6 s = (6, 0x5C # 0x75 # bytes_of s @ [0, 0])"

definition kQuoteTabLowerCase :: "QuotedChar list" where
  "kQuoteTabLowerCase =
     [q6 ''0000'', q6 ''0001'', q6 ''0002'', q6 ''0003'',
      q6 ''0004'', q6 ''0005'', q6 ''0006'', q6 ''0007'',
      q2 0x62, q2 0x74, q2 0x6E, q6 ''000b'',
      q2 0x66, q2 0x72, q6 ''000e'', q6 ''000f'',
      q6 ''0010'', q6 ''0011'', q6 ''0012'', q6 ''0013'',
      q6 ''0014'', q6 ''0015'', q6 ''0016'', q6 ''0017'',
      q6 ''0018'', q6 ''0019'', q6 ''001a'', q6 ''001b'',
      q6 ''001c'', q6 ''001d'', q6 ''001e'', q6 ''001f'']
     @ replicate 2 q0 @ [q2 0x22] @ replicate 57 q0 @ [q2 0x5C] @ replicate 163 q0"

definition kQuoteTabUpperCase :: "QuotedChar list" where
  "kQuoteTabUpperCase =
     [q6 ''0000'', q6 ''0001'', q6 ''0002'', q6 ''0003'',
      q6 ''0004'', q6 ''0005'', q6 ''0006'', q6 ''0007'',
      q2 0x62, q2 0x74, q2 0x6E, q6 ''000B'',
      q2 0x66, q2 0x72, q6 ''000E'', q6 ''000F'',
      q6 ''0010'', q6 ''0011'', q6 ''0012'', q6 ''0013'',
      q6 ''0014'', q6 ''0015'', q6 ''0016'', q6 ''0017'',
      q6 ''0018'', q6 ''0019'', q6 ''001A'', q6 ''001B'',
      q6 ''001C'', q6 ''001D'', q6 ''001E'', q6 ''001F'']
     @ replicate 2 q0 @ [q2 0x22] @ replicate 57 q0 @ [q2 0x5C] @ replicate 163 q0"

definition kHexCharsUpper :: bytes where "kHexCharsUpper = bytes_of ''0123456789ABCDEF''"
definition kHexCharsLower :: bytes where "kHexCharsLower = bytes_of ''0123456789abcdef''"

definition GetEscapeMask4 :: "bytes \<Rightarrow> u8" where
  "GetEscapeMask4 src =
     (if kNeedEscaped ! unat (src ! 0) then 1 else 0) OR
     (if kNeedEscaped ! unat (src ! 1) then push_bit 1 1 else 0) OR
     (if kNeedEscaped ! unat (src ! 2) then push_bit 2 1 else 0) OR
     (if kNeedEscaped ! unat (src ! 3) then push_bit 3 1 else 0)"

subsection \<open>Escaping\<close>

definition EscapeEmoji :: "u32 \<Rightarrow> bool" where
  "EscapeEmoji f = flags_and f kSerializeEscapeEmoji"

definition quote_tab :: "u32 \<Rightarrow> QuotedChar list" where
  "quote_tab f = (if flags_and f kSerializeUnicodeEscapeUppercase then kQuoteTabUpperCase
     else kQuoteTabLowerCase)"

definition hex_char :: "u32 \<Rightarrow> u32 \<Rightarrow> u8" where
  "hex_char f v = (if flags_and f kSerializeUnicodeEscapeUppercase then kHexCharsUpper
     else kHexCharsLower) ! unat (v AND 0xf)"

definition writeHex :: "u32 \<Rightarrow> u32 \<Rightarrow> bytes" where
  "writeHex f v = [0x5C, 0x75, hex_char f (drop_bit 12 v), hex_char f (drop_bit 8 v),
     hex_char f (drop_bit 4 v), hex_char f v]"

text \<open>The two escapes of a four-byte sequence.\<close>

definition emoji_escape :: "u32 \<Rightarrow> bytes \<Rightarrow> bytes" where
  "emoji_escape f cs =
     (let unicode = push_bit 18 (ucast (cs ! 0 AND 0x07)) OR push_bit 12 (ucast (cs ! 1 AND 0x3f))
            OR push_bit 6 (ucast (cs ! 2 AND 0x3f)) OR ucast (cs ! 3 AND 0x3f) :: u32;
          unicode = unicode - 0x10000
      in writeHex f (0xD800 OR (drop_bit 10 unicode AND 0x3FF))
         @ writeHex f (0xDC00 OR (unicode AND 0x3FF)))"

type_synonym quote_state = "bytes \<times> bytes \<times> nat"

text \<open>One turn of the loop of \<open>DoEscape\<close>, up to the test for the next character.\<close>

definition do_escape_one :: "u32 \<Rightarrow> quote_state \<Rightarrow> quote_state option" where
  "do_escape_one f = (\<lambda>(src, dst, pos).
     case src of [] \<Rightarrow> None
     | ch # rest \<Rightarrow>
       let (nc, s) = quote_tab f ! unat ch in
       if nc \<noteq> 0 then do { dst \<leftarrow> wr dst pos (take 6 s); Some (rest, dst, pos + nc) }
       else if EscapeEmoji f then
         (if length src < 4 then do { dst \<leftarrow> wr dst pos [ch]; Some (rest, dst, pos + 1) }
          else do { dst \<leftarrow> wr dst pos (emoji_escape f src); Some (drop 4 src, dst, pos + 12) })
       else Some (src, dst, pos))"

definition emoji_lead :: "u8 \<Rightarrow> bool" where "emoji_lead c \<longleftrightarrow> c AND 0xf0 = 0xf0"

definition need_escape :: "u32 \<Rightarrow> u8 \<Rightarrow> bool" where
  "need_escape f ch \<longleftrightarrow> kNeedEscaped ! unat ch \<or> (EscapeEmoji f \<and> emoji_lead ch)"

lemma tab_nth:
  assumes "n < 256" and "length xs = 32"
  shows "(xs @ replicate 2 q @ [a] @ replicate 57 q @ [b] @ replicate 163 q) ! n
   = (if n < 32 then xs ! n else if n = 34 then a else if n = 92 then b else q)"
  using assms by (auto simp: nth_append nth_Cons' split: if_splits)

lemma unat_eq_quote: "unat (c :: u8) = 34 \<longleftrightarrow> c = 0x22" "unat (c :: u8) = 92 \<longleftrightarrow> c = 0x5C"
  using word_unat_eq_iff [of c "0x22"] word_unat_eq_iff [of c "0x5C"] by simp_all

lemma kNeedEscaped_iff: "kNeedEscaped ! unat (c :: u8) \<longleftrightarrow> c < 0x20 \<or> c = 0x22 \<or> c = 0x5C"
  unfolding kNeedEscaped_def
  by (subst tab_nth [OF unat_u8_lt]) (auto simp: unat_eq_quote word_less_nat_alt)

lemma quote_tab_nth:
  fixes c :: u8
  shows
  "kQuoteTabLowerCase ! unat c = (if c < 0x20 then take 32 kQuoteTabLowerCase ! unat c
     else if c = 0x22 then q2 0x22 else if c = 0x5C then q2 0x5C else q0)"
  "kQuoteTabUpperCase ! unat c = (if c < 0x20 then take 32 kQuoteTabUpperCase ! unat c
     else if c = 0x22 then q2 0x22 else if c = 0x5C then q2 0x5C else q0)"
proof -
  have t: "tab ! unat c = (if c < 0x20 then take 32 tab ! unat c
     else if c = 0x22 then q2 0x22 else if c = 0x5C then q2 0x5C else q0)"
    if "tab = xs @ replicate 2 q0 @ [q2 0x22] @ replicate 57 q0 @ [q2 0x5C] @ replicate 163 q0" "length xs = 32"
    for tab xs
  proof -
    have "take 32 tab = xs" using that by simp
    then show ?thesis
      by (simp only: that(1)) (subst tab_nth [OF unat_u8_lt that(2)], auto simp: unat_eq_quote word_less_nat_alt)
  qed
  show "kQuoteTabLowerCase ! unat c = (if c < 0x20 then take 32 kQuoteTabLowerCase ! unat c
     else if c = 0x22 then q2 0x22 else if c = 0x5C then q2 0x5C else q0)"
    by (rule t [OF kQuoteTabLowerCase_def]) simp
  show "kQuoteTabUpperCase ! unat c = (if c < 0x20 then take 32 kQuoteTabUpperCase ! unat c
     else if c = 0x22 then q2 0x22 else if c = 0x5C then q2 0x5C else q0)"
    by (rule t [OF kQuoteTabUpperCase_def]) simp
qed

lemma quote_tab_small:
  "list_all (\<lambda>e. fst e \<in> {2, 6} \<and> 6 \<le> length (snd e)) (take 32 (quote_tab f))"
  by (simp add: quote_tab_def kQuoteTabLowerCase_def kQuoteTabUpperCase_def q2_def q6_def)

lemma quote_tab_entry:
  fixes c :: u8
  assumes "kNeedEscaped ! unat c"
  shows "fst (quote_tab f ! unat c) \<in> {2, 6} \<and> 6 \<le> length (snd (quote_tab f ! unat c))"
proof (cases "c < 0x20")
  case True
  then have "unat c < 32" by (simp add: word_less_nat_alt)
  with quote_tab_small [of f] have "fst (take 32 (quote_tab f) ! unat c) \<in> {2, 6}
    \<and> 6 \<le> length (snd (take 32 (quote_tab f) ! unat c))"
    by (simp add: list_all_length quote_tab_def kQuoteTabLowerCase_def kQuoteTabUpperCase_def del: insert_iff)
  with True show ?thesis
    by (cases "flags_and f kSerializeUnicodeEscapeUppercase") (simp_all add: quote_tab_def quote_tab_nth)
next
  case False
  with assms show ?thesis by (auto simp: quote_tab_def quote_tab_nth kNeedEscaped_iff q2_def)
qed

lemma quote_tab_other: "\<not> kNeedEscaped ! unat (c :: u8) \<Longrightarrow> quote_tab f ! unat c = (0, [])"
  by (simp add: quote_tab_def quote_tab_nth kNeedEscaped_iff q0_def)

definition quote_continues :: "u32 \<Rightarrow> bytes \<Rightarrow> bool" where
  "quote_continues f src = (case src of [] \<Rightarrow> False | c # _ \<Rightarrow>
     (EscapeEmoji f \<and> emoji_lead c) \<or> kNeedEscaped ! unat c)"

lemma do_escape_one_shorter:
  assumes "do_escape_one f (src, dst, pos) = Some (src', dst', pos')"
  shows "length src' < length src \<or> (src' = src \<and> (\<forall>c rest. src = c # rest \<longrightarrow>
     \<not> EscapeEmoji f \<and> \<not> kNeedEscaped ! unat c))"
proof (cases src)
  case (Cons c rest)
  show ?thesis
  proof (cases "kNeedEscaped ! unat c")
    case True
    with quote_tab_entry [OF True, of f] assms Cons show ?thesis
      by (auto simp: do_escape_one_def bind_eq_Some_conv split: prod.splits)
  next
    case False
    with assms Cons show ?thesis
      by (auto simp: do_escape_one_def quote_tab_other [OF False] bind_eq_Some_conv split: if_splits)
  qed
qed (use assms in \<open>simp add: do_escape_one_def\<close>)

function DoEscape :: "u32 \<Rightarrow> quote_state \<Rightarrow> quote_state option" where
  "DoEscape f st = (case do_escape_one f st of
      None \<Rightarrow> None
    | Some st' \<Rightarrow> if quote_continues f (fst st') then DoEscape f st' else Some st')"
  by auto
termination
proof (relation "measure (\<lambda>(f, st). length (fst st))", simp)
  fix f st st'
  assume step: "do_escape_one f st = Some st'" and go: "quote_continues f (fst st')"
  obtain src dst pos src' dst' pos' where st: "st = (src, dst, pos)" "st' = (src', dst', pos')"
    by (metis prod.collapse)
  from do_escape_one_shorter [OF step [unfolded st]] go
  show "((f, st'), (f, st)) \<in> measure (\<lambda>(f, st). length (fst st))"
    by (cases src') (auto simp: st quote_continues_def)
qed

declare DoEscape.simps [simp del]

subsection \<open>What quoting produces\<close>

text \<open>The reference: the escaped text of a string, character by character.\<close>

function quoted :: "u32 \<Rightarrow> bytes \<Rightarrow> bytes" where
  "quoted f [] = []"
| "quoted f (c # cs) =
     (if kNeedEscaped ! unat c then take (fst (quote_tab f ! unat c)) (snd (quote_tab f ! unat c)) @ quoted f cs
      else if EscapeEmoji f \<and> emoji_lead c \<and> 4 \<le> length (c # cs)
      then emoji_escape f (c # cs) @ quoted f (drop 3 cs)
      else c # quoted f cs)"
  by pat_completeness auto
termination by (relation "measure (\<lambda>(f, cs). length cs)") auto

definition json_quoted :: "u32 \<Rightarrow> bytes \<Rightarrow> bytes" where
  "json_quoted f cs = 0x22 # quoted f cs @ [0x22]"

text \<open>A step of the writer: it consumes source bytes and appends their escaped text.\<close>

definition emits :: "u32 \<Rightarrow> quote_state \<Rightarrow> quote_state \<Rightarrow> bool" where
  "emits f = (\<lambda>(src, dst, pos) (src', dst', pos'). \<exists>out. quoted f src = out @ quoted f src'
     \<and> length dst' = length dst \<and> pos' = pos + length out \<and> take pos' dst' = take pos dst @ out
     \<and> length src' \<le> length src \<and> length out \<le> 6 * (length src - length src'))"

lemma emits_refl: "emits f (src, dst, pos) (src, dst, pos)"
  by (simp add: emits_def)

lemma emits_trans:
  assumes "emits f (s1, d1, p1) (s2, d2, p2)" and "emits f (s2, d2, p2) (s3, d3, p3)"
  shows "emits f (s1, d1, p1) (s3, d3, p3)"
proof -
  obtain o1 o2 where o1: "quoted f s1 = o1 @ quoted f s2" "length d2 = length d1" "p2 = p1 + length o1"
    "take p2 d2 = take p1 d1 @ o1" "length s2 \<le> length s1" "length o1 \<le> 6 * (length s1 - length s2)"
    and o2: "quoted f s2 = o2 @ quoted f s3" "length d3 = length d2" "p3 = p2 + length o2"
    "take p3 d3 = take p2 d2 @ o2" "length s3 \<le> length s2" "length o2 \<le> 6 * (length s2 - length s3)"
    using assms by (auto simp: emits_def)
  have "length (o1 @ o2) \<le> 6 * (length s1 - length s3)" using o1(5,6) o2(5,6) by simp
  with o1 o2 show ?thesis unfolding emits_def prod.case by (intro exI [of _ "o1 @ o2"]) simp
qed

lemma emits_room:
  assumes "emits f (s1, d1, p1) (s2, d2, p2)" and "p1 + 6 * length s1 + k \<le> length d1"
  shows "p2 + 6 * length s2 + k \<le> length d2"
  using assms by (auto simp: emits_def)

lemma length_emoji_escape [simp]: "length (emoji_escape f cs) = 12"
  by (simp add: emoji_escape_def writeHex_def Let_def)

lemma do_escape_one_emits:
  assumes "src = c # cs" and "need_escape f c" and "pos + 6 * length src \<le> length dst"
  shows "\<exists>st'. do_escape_one f (src, dst, pos) = Some st' \<and> emits f (src, dst, pos) st'
    \<and> length (fst st') < length src"
proof (cases "kNeedEscaped ! unat c")
  case True
  obtain n s where e: "quote_tab f ! unat c = (n, s)" by force
  note ent = quote_tab_entry [OF True, of f, unfolded e, simplified]
  obtain b where b: "wr dst pos (take 6 s) = Some b"
    using wr_ex [of pos "take 6 s" dst] assms(1,3) ent by auto
  have l: "length (take 6 s) = 6" "n \<le> 6" "pos \<le> length dst" using ent assms(1,3) by auto
  have "take (pos + n) b = take (pos + n) (take (pos + 6) b)" using l(2) by (simp add: min_absorb1)
  also have "\<dots> = take (pos + n) (take pos dst @ take 6 s)" using wr_take [OF b] l(1) by (simp only:)
  also have "\<dots> = take pos dst @ take n s" using l by (simp add: min_absorb1)
  finally have "take (pos + n) b = take pos dst @ take n s" .
  moreover have "length b = length dst" by (rule wr_length [OF b])
  ultimately show ?thesis
    using True ent assms(1) b e
    by (auto simp: do_escape_one_def emits_def intro!: exI [of _ "take n s"])
next
  case False
  with assms(2) have em: "EscapeEmoji f" "emoji_lead c" by (simp_all add: need_escape_def)
  show ?thesis
  proof (cases "length src < 4")
    case True
    obtain b where b: "wr dst pos [c] = Some b" using wr_ex [of pos "[c]" dst] assms(1,3) by auto
    from wr_take [OF b] wr_length [OF b] em True False assms(1) b show ?thesis
      by (auto simp: do_escape_one_def quote_tab_other [OF False] emits_def intro!: exI [of _ "[c]"])
  next
    case long: False
    obtain b where b: "wr dst pos (emoji_escape f src) = Some b"
      using wr_ex [of pos "emoji_escape f src" dst] assms(1,3) long by auto
    from wr_take [OF b] wr_length [OF b] em long False assms(1) b show ?thesis
      by (auto simp: do_escape_one_def quote_tab_other [OF False] emits_def
          intro!: exI [of _ "emoji_escape f src"])
  qed
qed

lemma DoEscape_emits:
  assumes "src = c # cs" and "need_escape f c" and "pos + 6 * length src \<le> length dst"
  shows "\<exists>st'. DoEscape f (src, dst, pos) = Some st' \<and> emits f (src, dst, pos) st'
    \<and> length (fst st') < length src"
  using assms
proof (induction "length src" arbitrary: src c cs dst pos rule: less_induct)
  case less
  obtain src1 dst1 pos1 where one: "do_escape_one f (src, dst, pos) = Some (src1, dst1, pos1)"
    "emits f (src, dst, pos) (src1, dst1, pos1)" "length src1 < length src"
    using do_escape_one_emits [OF less.prems] by auto
  show ?case
  proof (cases "quote_continues f src1")
    case False
    with one show ?thesis by (simp add: DoEscape.simps [of f "(src, dst, pos)"])
  next
    case True
    then obtain c1 cs1 where s1: "src1 = c1 # cs1" "need_escape f c1"
      by (auto simp: quote_continues_def need_escape_def split: list.splits)
    have room: "pos1 + 6 * length src1 \<le> length dst1"
      using emits_room [OF one(2), of 0] less.prems(3) by simp
    obtain st' where st': "DoEscape f (src1, dst1, pos1) = Some st'" "emits f (src1, dst1, pos1) st'"
      "length (fst st') < length src1"
      using less.hyps [OF one(3) s1 room] by blast
    moreover have "emits f (src, dst, pos) st'"
      using emits_trans [OF one(2)] st'(2) by (cases st') simp
    ultimately show ?thesis
      using True one by (simp add: DoEscape.simps [of f "(src, dst, pos)"])
  qed
qed

lemma need_escape_head:
  assumes "DoEscape f (src, dst, pos) = Some (src', dst', pos')" and "src = c # cs" and "need_escape f c"
  shows "length src' < length src"
  using assms
proof (induction "length src" arbitrary: src c cs dst pos rule: less_induct)
  case less
  obtain src1 dst1 pos1 where one: "do_escape_one f (src, dst, pos) = Some (src1, dst1, pos1)"
    using less.prems(1) by (auto simp: DoEscape.simps [of f "(src, dst, pos)"] split: option.splits)
  have lt: "length src1 < length src"
    using do_escape_one_shorter [OF one] less.prems(2,3) by (auto simp: need_escape_def)
  show ?case
  proof (cases "quote_continues f src1")
    case False
    with one less.prems(1) lt show ?thesis by (simp add: DoEscape.simps [of f "(src, dst, pos)"])
  next
    case True
    then obtain c1 cs1 where s1: "src1 = c1 # cs1" "need_escape f c1"
      by (auto simp: quote_continues_def need_escape_def split: list.splits)
    have "DoEscape f (src1, dst1, pos1) = Some (src', dst', pos')"
      using True one less.prems(1) by (simp add: DoEscape.simps [of f "(src, dst, pos)"])
    from less.hyps [OF lt this s1] lt show ?thesis by simp
  qed
qed

subsection \<open>The scalar writer\<close>

function Quote_scalar_loop :: "u32 \<Rightarrow> quote_state \<Rightarrow> (bytes \<times> nat) option" where
  "Quote_scalar_loop f (src, dst, pos) =
     (case src of [] \<Rightarrow> Some (dst, pos)
      | ch # rest \<Rightarrow>
        if \<not> need_escape f ch
        then (case wr dst pos [ch] of None \<Rightarrow> None | Some dst \<Rightarrow> Quote_scalar_loop f (rest, dst, pos + 1))
        else (case DoEscape f (src, dst, pos) of None \<Rightarrow> None | Some st \<Rightarrow> Quote_scalar_loop f st))"
  by pat_completeness auto
termination
  by (relation "measure (\<lambda>(f, st). length (fst st))") (auto dest: need_escape_head)

declare Quote_scalar_loop.simps [simp del]

definition Quote_scalar :: "u32 \<Rightarrow> bytes \<Rightarrow> bytes \<Rightarrow> nat \<Rightarrow> (bytes \<times> nat) option" where
  "Quote_scalar f src dst pos = do {
     dst \<leftarrow> wr dst pos [0x22];
     (dst, pos) \<leftarrow> Quote_scalar_loop f (src, dst, pos + 1);
     dst \<leftarrow> wr dst pos [0x22];
     Some (dst, pos + 1)
   }"

subsection \<open>The vector writer\<close>

text \<open>
  \<open>CopyAndGetEscapMask\<close> loads \<open>vl\<close> bytes, stores them at the destination and returns the mask of the
  bytes that need an escape. A load past the readable bytes gives \<^term>\<open>None\<close>.
\<close>

definition vec_needs :: "u32 \<Rightarrow> u8 \<Rightarrow> bool" where
  "vec_needs f c \<longleftrightarrow> c < 0x20 \<or> c = 0x5C \<or> c = 0x22 \<or> (EscapeEmoji f \<and> 0xF0 \<le> c)"

definition CopyAndGetEscapMask :: "isa \<Rightarrow> u32 \<Rightarrow> bytes \<Rightarrow> bytes \<Rightarrow> nat \<Rightarrow> (u32 \<times> bytes) option" where
  "CopyAndGetEscapMask i f src dst pos =
     (if length src < VEC_LEN i then None
      else do {
        dst \<leftarrow> wr dst pos (take (VEC_LEN i) src);
        Some (to_bitmask (map (vec_needs f) (take (VEC_LEN i) src)), dst)
      })"

lemma and_high_mask:
  assumes j: "j + j = 8"
  shows "(c :: u8) AND push_bit j (mask j) = push_bit j (mask j) \<longleftrightarrow> drop_bit j c = mask j"
proof
  assume h: "c AND push_bit j (mask j) = push_bit j (mask j)"
  show "drop_bit j c = mask j"
  proof (rule bit_word_eqI)
    fix n
    show "bit (drop_bit j c) n = bit (mask j :: u8) n"
      using arg_cong [OF h, of "\<lambda>w. bit w (j + n)"] j by (cases "n < j") (auto simp: bit_simps)
  qed
next
  assume h: "drop_bit j c = mask j"
  show "c AND push_bit j (mask j) = push_bit j (mask j)"
  proof (rule bit_word_eqI)
    fix n
    show "bit (c AND push_bit j (mask j)) n = bit (push_bit j (mask j) :: u8) n"
      using arg_cong [OF h, of "\<lambda>w. bit w (n - j)"] j by (cases "j \<le> n") (auto simp: bit_simps)
  qed
qed

lemma emoji_lead_ge: "emoji_lead c \<longleftrightarrow> 0xF0 \<le> c"
proof -
  have "c AND 0xf0 = 0xf0 \<longleftrightarrow> drop_bit 4 c = mask 4"
    using and_high_mask [of 4 c] by (simp add: mask_eq_exp_minus_1)
  also have "\<dots> \<longleftrightarrow> unat c div 16 = 15"
    using unat_shr [of 4 c] word_unat_eq_iff [of "drop_bit 4 c" "mask 4"] by (simp add: mask_eq_exp_minus_1)
  also have "\<dots> \<longleftrightarrow> 0xF0 \<le> c"
    using unat_u8_lt [of c] by (auto simp: word_le_nat_alt)
  finally show ?thesis by (simp add: emoji_lead_def)
qed

lemma vec_needs_eq: "vec_needs f c = need_escape f c"
  by (auto simp: vec_needs_def need_escape_def kNeedEscaped_iff emoji_lead_ge)

text \<open>The lowest set bit of the mask is at a byte that needs an escape.\<close>

lemma mask_first:
  assumes "length v \<le> 32"
  shows "(to_bitmask (map P v) :: u32) = 0 \<longleftrightarrow> (\<forall>c \<in> set v. \<not> P c)"
    and "(to_bitmask (map P v) :: u32) \<noteq> 0 \<Longrightarrow>
      TrailingZeroes (to_bitmask (map P v) :: u32) = length (takeWhile (\<lambda>c. \<not> P c) v)"
proof -
  show eq: "(to_bitmask (map P v) :: u32) = 0 \<longleftrightarrow> (\<forall>c \<in> set v. \<not> P c)"
    using assms by (subst to_bitmask_eq_0) auto
  assume "(to_bitmask (map P v) :: u32) \<noteq> 0"
  with eq have "True \<in> set (map P v)" by force
  with assms show "TrailingZeroes (to_bitmask (map P v) :: u32) = length (takeWhile (\<lambda>c. \<not> P c) v)"
    by (subst TrailingZeroes_to_bitmask) (simp_all add: takeWhile_map o_def)
qed

lemma takeWhile_next:
  assumes "\<exists>c \<in> set v. P c"
  shows "\<exists>c rest. drop (length (takeWhile (\<lambda>c. \<not> P c) v)) v = c # rest \<and> P c"
proof -
  have "dropWhile (\<lambda>c. \<not> P c) v \<noteq> []" using assms by (simp add: dropWhile_eq_Nil_conv)
  then obtain c rest where "dropWhile (\<lambda>c. \<not> P c) v = c # rest"
    by (cases "dropWhile (\<lambda>c. \<not> P c) v") blast+
  moreover from this have "P c" by (metis hd_dropWhile list.distinct(1) list.sel(1))
  ultimately show ?thesis by (simp add: dropWhile_eq_drop)
qed

lemma CopyMask_cases:
  assumes "CopyAndGetEscapMask i f src dst pos = Some (mm, dst')"
  shows "mm = to_bitmask (map (need_escape f) (take (VEC_LEN i) src))" and "VEC_LEN i \<le> length src"
    and "wr dst pos (take (VEC_LEN i) src) = Some dst'"
    and "mm \<noteq> 0 \<Longrightarrow> \<exists>c rest. drop (TrailingZeroes mm) (take (VEC_LEN i) src) = c # rest \<and> need_escape f c
       \<and> (\<forall>x \<in> set (take (TrailingZeroes mm) (take (VEC_LEN i) src)). \<not> need_escape f x)"
    and "mm = 0 \<Longrightarrow> \<forall>c \<in> set (take (VEC_LEN i) src). \<not> need_escape f c"
proof -
  have vn: "vec_needs f = need_escape f" by (rule ext) (rule vec_needs_eq)
  show m: "mm = to_bitmask (map (need_escape f) (take (VEC_LEN i) src))" and "VEC_LEN i \<le> length src"
    and "wr dst pos (take (VEC_LEN i) src) = Some dst'"
    using assms by (auto simp: CopyAndGetEscapMask_def vn bind_eq_Some_conv split: if_splits)
  have l: "length (take (VEC_LEN i) src) \<le> 32" by (simp add: min.coboundedI2)
  note mf = mask_first [OF l, of "need_escape f", folded m]
  show "\<forall>c \<in> set (take (VEC_LEN i) src). \<not> need_escape f c" if "mm = 0" using that mf(1) by blast
  assume nz: "mm \<noteq> 0"
  then have "\<exists>c \<in> set (take (VEC_LEN i) src). need_escape f c" using mf(1) by blast
  note nx = takeWhile_next [OF this, folded mf(2) [OF nz]]
  have "take (TrailingZeroes mm) (take (VEC_LEN i) src) = takeWhile (\<lambda>c. \<not> need_escape f c) (take (VEC_LEN i) src)"
    unfolding mf(2) [OF nz] by (rule takeWhile_eq_take [symmetric])
  then have "\<forall>x \<in> set (take (TrailingZeroes mm) (take (VEC_LEN i) src)). \<not> need_escape f x"
    by (auto dest: set_takeWhileD)
  with nx show "\<exists>c rest. drop (TrailingZeroes mm) (take (VEC_LEN i) src) = c # rest \<and> need_escape f c
       \<and> (\<forall>x \<in> set (take (TrailingZeroes mm) (take (VEC_LEN i) src)). \<not> need_escape f x)" by blast
qed

text \<open>The loop over whole vectors: it ends with fewer than \<open>VEC_LEN\<close> bytes to go.\<close>

function Quote_vec_loop :: "isa \<Rightarrow> u32 \<Rightarrow> quote_state \<Rightarrow> quote_state option" where
  "Quote_vec_loop i f (src, dst, pos) =
     (if length src < VEC_LEN i then Some (src, dst, pos)
      else case CopyAndGetEscapMask i f src dst pos of None \<Rightarrow> None
      | Some (mm, dst) \<Rightarrow>
        if mm \<noteq> 0
        then (case DoEscape f (drop (TrailingZeroes mm) src, dst, pos + TrailingZeroes mm) of
                None \<Rightarrow> None | Some st \<Rightarrow> Quote_vec_loop i f st)
        else Quote_vec_loop i f (drop (VEC_LEN i) src, dst, pos + VEC_LEN i))"
  by pat_completeness auto

lemma vec_escape_shorter:
  assumes "CopyAndGetEscapMask i f src dst pos = Some (mm, dst1)" and "mm \<noteq> 0"
    and "DoEscape f (drop (TrailingZeroes mm) src, dst2, pos2) = Some (src', dst', pos')"
  shows "length src' < length src"
proof -
  obtain c rest where "drop (TrailingZeroes mm) (take (VEC_LEN i) src) = c # rest" "need_escape f c"
    using CopyMask_cases(4) [OF assms(1,2)] by blast
  then obtain rest' where "drop (TrailingZeroes mm) src = c # rest'" "need_escape f c"
    by (metis append_Cons append_take_drop_id drop_append)
  with need_escape_head [OF assms(3)] have "length src' < length (drop (TrailingZeroes mm) src)" by blast
  then show ?thesis by simp
qed

termination Quote_vec_loop
  by (relation "measure (\<lambda>(i, f, st). length (fst st))")
    (auto dest: vec_escape_shorter intro: diff_less less_le_trans [OF VEC_LEN_bounds(1)])

declare Quote_vec_loop.simps [simp del]

text \<open>
  The tail: fewer than \<open>VEC_LEN\<close> bytes are left and the load reads on into \<open>pad\<close>, the bytes behind them;
  their mask bits are cleared.
\<close>

function Quote_tail_loop :: "isa \<Rightarrow> u32 \<Rightarrow> bytes \<Rightarrow> quote_state \<Rightarrow> (bytes \<times> nat) option" where
  "Quote_tail_loop i f pad (src, dst, pos) =
     (if src = [] then Some (dst, pos)
      else case CopyAndGetEscapMask i f (src @ pad) dst pos of None \<Rightarrow> None
      | Some (m, dst) \<Rightarrow>
        let mm = m AND drop_bit (VEC_LEN i - length src) (mask (VEC_LEN i)) in
        if mm \<noteq> 0
        then (case DoEscape f (drop (TrailingZeroes mm) src, dst, pos + TrailingZeroes mm) of
                None \<Rightarrow> None | Some st \<Rightarrow> Quote_tail_loop i f pad st)
        else Some (dst, pos + length src))"
  by pat_completeness auto

lemma tail_mask:
  assumes "length src \<le> VEC_LEN i" and "VEC_LEN i \<le> length (src @ pad)"
  shows "to_bitmask (map P (take (VEC_LEN i) (src @ pad))) AND drop_bit (VEC_LEN i - length src) (mask (VEC_LEN i))
    = (to_bitmask (map P src) :: u32)"
proof (rule bit_word_eqI)
  fix n assume "n < LENGTH(32)"
  then show "bit (to_bitmask (map P (take (VEC_LEN i) (src @ pad)))
      AND drop_bit (VEC_LEN i - length src) (mask (VEC_LEN i)) :: u32) n = bit (to_bitmask (map P src) :: u32) n"
    using assms VEC_LEN_bounds(2) [of i]
    by (auto simp: bit_simps bit_to_bitmask nth_append simp del: VEC_LEN_bounds)
qed

lemma drop_at: "n < length src \<Longrightarrow> drop n src = src ! n # drop (Suc n) src"
  by (rule Cons_nth_drop_Suc [symmetric])

lemma tail_mask_first:
  assumes "CopyAndGetEscapMask i f (src @ pad) dst pos = Some (m, dst1)"
    and "mm = m AND drop_bit (VEC_LEN i - length src) (mask (VEC_LEN i))" and "mm \<noteq> 0"
  shows "\<exists>c rest. drop (TrailingZeroes mm) src = c # rest \<and> need_escape f c"
proof -
  let ?n = "TrailingZeroes mm"
  have "bit mm ?n" by (rule TrailingZeroes_nonzero(2) [OF assms(3)])
  then have "?n < length src" "need_escape f (src ! ?n)"
    using CopyMask_cases(1,2) [OF assms(1)] unfolding assms(2)
    by (auto simp: bit_simps bit_to_bitmask nth_append split: if_splits)
  then show ?thesis by (auto simp: drop_at)
qed

lemma tail_escape_shorter:
  assumes "CopyAndGetEscapMask i f (src @ pad) dst pos = Some (m, dst1)"
    and "m AND drop_bit (VEC_LEN i - length src) (mask (VEC_LEN i)) \<noteq> 0"
    and "DoEscape f (drop (TrailingZeroes (m AND drop_bit (VEC_LEN i - length src) (mask (VEC_LEN i)))) src,
       dst2, pos2) = Some (src', dst', pos')"
  shows "length src' < length src"
proof -
  have "length src' < length (drop (TrailingZeroes (m AND drop_bit (VEC_LEN i - length src) (mask (VEC_LEN i)))) src)"
    using tail_mask_first [OF assms(1) refl assms(2)] need_escape_head [OF assms(3)] by blast
  then show ?thesis by simp
qed

termination Quote_tail_loop
  by (relation "measure (\<lambda>(i, f, pad, st). length (fst st))") (auto dest: tail_escape_shorter)

declare Quote_tail_loop.simps [simp del]

text \<open>
  \<open>Quote\<close>: the opening quote, the two loops and the closing quote. Within the last page of memory
  (\<open>in_page\<close> false) the tail is read from a zero-filled copy, otherwise in place, with \<open>after\<close>
  the bytes that follow the string.
\<close>

definition Quote_vec :: "isa \<Rightarrow> u32 \<Rightarrow> bool \<Rightarrow> bytes \<Rightarrow> bytes \<Rightarrow> bytes \<Rightarrow> nat \<Rightarrow> (bytes \<times> nat) option"
where
  "Quote_vec i f in_page after src dst pos = do {
     dst \<leftarrow> wr dst pos [0x22];
     (src, dst, pos) \<leftarrow> Quote_vec_loop i f (src, dst, pos + 1);
     let pad = (if in_page then after else replicate (2 * VEC_LEN i - length src) 0);
     (dst, pos) \<leftarrow> (if src \<noteq> [] then Quote_tail_loop i f pad (src, dst, pos) else Some (dst, pos));
     dst \<leftarrow> wr dst pos [0x22];
     Some (dst, pos + 1)
   }"

subsection \<open>All writers produce the reference text\<close>

lemma quoted_plain:
  "\<forall>c \<in> set xs. \<not> need_escape f c \<Longrightarrow> quoted f (xs @ ys) = xs @ quoted f ys"
  by (induction xs) (auto simp: need_escape_def)

lemma emits_plain:
  assumes "\<forall>c \<in> set (take n src). \<not> need_escape f c" and "n \<le> length src"
    and "length dst' = length dst" and "take (pos + n) dst' = take pos dst @ take n src"
  shows "emits f (src, dst, pos) (drop n src, dst', pos + n)"
  using quoted_plain [OF assms(1), of "drop n src"] assms(2-4)
  by (auto simp: emits_def intro!: exI [of _ "take n src"])

lemma Quote_scalar_loop_ok:
  assumes "pos + 6 * length src \<le> length dst"
  shows "\<exists>dst' pos'. Quote_scalar_loop f (src, dst, pos) = Some (dst', pos')
    \<and> emits f (src, dst, pos) ([], dst', pos')"
  using assms
proof (induction "length src" arbitrary: src dst pos rule: less_induct)
  case less
  show ?case
  proof (cases src)
    case Nil
    then show ?thesis by (auto simp: Quote_scalar_loop.simps intro: emits_refl)
  next
    case (Cons c cs)
    obtain src1 dst1 pos1 where step: "emits f (src, dst, pos) (src1, dst1, pos1)"
      "length src1 < length src"
      "Quote_scalar_loop f (src, dst, pos) = Quote_scalar_loop f (src1, dst1, pos1)"
    proof (cases "need_escape f c")
      case True
      obtain s1 d1 p1 where e: "DoEscape f (src, dst, pos) = Some (s1, d1, p1)"
        "emits f (src, dst, pos) (s1, d1, p1)" "length s1 < length src"
        using DoEscape_emits [OF Cons True less.prems] by auto
      show ?thesis
        by (rule that [OF e(2,3)])
          (use e(1) Cons True in \<open>simp add: Quote_scalar_loop.simps [of f "c # cs"]\<close>)
    next
      case False
      obtain b where b: "wr dst pos [c] = Some b" using wr_ex [of pos "[c]" dst] less.prems Cons by auto
      have "emits f (src, dst, pos) (drop 1 src, b, pos + 1)"
        by (rule emits_plain) (use False Cons wr_take [OF b] wr_length [OF b] in simp_all)
      with that [of cs b "pos + 1"] b False Cons show ?thesis
        by (simp add: Quote_scalar_loop.simps [of f "c # cs"])
    qed
    have "pos1 + 6 * length src1 \<le> length dst1" using emits_room [OF step(1), of 0] less.prems by simp
    from less.hyps [OF step(2) this] step(1,3) emits_trans show ?thesis by metis
  qed
qed

lemma emits_copied:
  assumes "CopyAndGetEscapMask i f (src @ pad) dst pos = Some (mm, dst')" and "n \<le> length src" and "n \<le> VEC_LEN i"
    and "\<forall>c \<in> set (take n src). \<not> need_escape f c"
  shows "emits f (src, dst, pos) (drop n src, dst', pos + n)"
proof (rule emits_plain [OF assms(4,2)])
  note w = CopyMask_cases(3) [OF assms(1)] CopyMask_cases(2) [OF assms(1)]
  show "length dst' = length dst" by (rule wr_length [OF w(1)])
  have pos: "pos \<le> length dst" using w by (auto simp: wr_def split: if_splits)
  have "take (pos + n) dst' = take (pos + n) (take (pos + VEC_LEN i) dst')"
    using assms(3) by (simp add: min_absorb1)
  also have "\<dots> = take (pos + n) (take pos dst @ take (VEC_LEN i) (src @ pad))"
    using wr_take [OF w(1)] w(2) by (simp only: length_take min_absorb2)
  also have "\<dots> = take pos dst @ take n src"
    using assms(2,3) pos by (simp add: min_absorb1)
  finally show "take (pos + n) dst' = take pos dst @ take n src" .
qed

lemma CopyMask_ex:
  assumes "VEC_LEN i \<le> length src" and "pos + VEC_LEN i \<le> length dst"
  shows "\<exists>mm dst'. CopyAndGetEscapMask i f src dst pos = Some (mm, dst')"
  using wr_ex [of pos "take (VEC_LEN i) src" dst] assms by (auto simp: CopyAndGetEscapMask_def min_absorb2)

lemma Quote_vec_loop_ok:
  assumes "pos + 6 * length src + VEC_LEN i \<le> length dst"
  shows "\<exists>st'. Quote_vec_loop i f (src, dst, pos) = Some st' \<and> emits f (src, dst, pos) st'
    \<and> length (fst st') < VEC_LEN i"
  using assms
proof (induction "length src" arbitrary: src dst pos rule: less_induct)
  case less
  show ?case
  proof (cases "length src < VEC_LEN i")
    case True
    then show ?thesis by (auto simp: Quote_vec_loop.simps [of i f src] intro: emits_refl)
  next
    case long: False
    obtain mm b where cm: "CopyAndGetEscapMask i f src dst pos = Some (mm, b)"
      using CopyMask_ex [of i src pos dst f] long less.prems by auto
    note copied = emits_copied [of i f src "[]" dst pos mm b, unfolded append_Nil2, OF cm]
    obtain st where step: "emits f (src, dst, pos) st" "length (fst st) < length src"
      "Quote_vec_loop i f (src, dst, pos) = Quote_vec_loop i f st"
    proof (cases "mm = 0")
      case True
      have "\<forall>c \<in> set (take (VEC_LEN i) src). \<not> need_escape f c" by (rule CopyMask_cases(5) [OF cm True])
      then have e: "emits f (src, dst, pos) (drop (VEC_LEN i) src, b, pos + VEC_LEN i)"
        using copied long by simp
      have "0 < length src" using long VEC_LEN_bounds(1) [of i] by linarith
      then show ?thesis
        by (intro that [OF e]) (use cm True long in \<open>simp_all add: Quote_vec_loop.simps [of i f src] diff_less\<close>)
    next
      case False
      let ?n = "TrailingZeroes mm"
      obtain c rest where c: "drop ?n (take (VEC_LEN i) src) = c # rest" "need_escape f c"
        "\<forall>x \<in> set (take ?n (take (VEC_LEN i) src)). \<not> need_escape f x"
        using CopyMask_cases(4) [OF cm False] by blast
      have n: "?n < VEC_LEN i" using c(1) long by (cases "?n < VEC_LEN i") auto
      have e1: "emits f (src, dst, pos) (drop ?n src, b, pos + ?n)"
        using copied [of ?n] c(3) n long by (simp add: min_absorb1)
      obtain rest' where d: "drop ?n src = c # rest'"
        using c(1) by (metis append_Cons append_take_drop_id drop_append)
      have room: "pos + ?n + 6 * length (drop ?n src) \<le> length b"
        using emits_room [OF e1, of 0] less.prems by simp
      obtain st where st: "DoEscape f (drop ?n src, b, pos + ?n) = Some st"
        "emits f (drop ?n src, b, pos + ?n) st" "length (fst st) < length (drop ?n src)"
        using DoEscape_emits [OF d c(2) room] by blast
      have "emits f (src, dst, pos) st" using emits_trans [OF e1] st(2) by (cases st) simp
      then show ?thesis
        by (rule that) (use st cm False long in \<open>simp_all add: Quote_vec_loop.simps [of i f src]\<close>)
    qed
    obtain s1 d1 p1 where st: "st = (s1, d1, p1)" by (cases st)
    have "p1 + 6 * length s1 + VEC_LEN i \<le> length d1"
      using emits_room [OF step(1) [unfolded st], of "VEC_LEN i"] less.prems by simp
    from less.hyps [OF _ this] step st obtain st2 where "Quote_vec_loop i f (s1, d1, p1) = Some st2"
      "emits f (s1, d1, p1) st2" "length (fst st2) < VEC_LEN i" by auto
    with step st emits_trans [of f src dst pos s1 d1 p1] show ?thesis by (cases st2) auto
  qed
qed

lemma Quote_tail_loop_ok:
  assumes "pos + 6 * length src + VEC_LEN i \<le> length dst" and "length src \<le> VEC_LEN i"
    and "VEC_LEN i \<le> length pad"
  shows "\<exists>dst' pos'. Quote_tail_loop i f pad (src, dst, pos) = Some (dst', pos')
    \<and> (\<exists>dst2. emits f (src, dst, pos) ([], dst2, pos') \<and> dst' = dst2)"
  using assms
proof (induction "length src" arbitrary: src dst pos rule: less_induct)
  case less
  show ?case
  proof (cases "src = []")
    case True
    then show ?thesis by (auto simp: Quote_tail_loop.simps [of i f pad] intro: emits_refl)
  next
    case ne: False
    obtain m b where cm: "CopyAndGetEscapMask i f (src @ pad) dst pos = Some (m, b)"
      using CopyMask_ex [of i "src @ pad" pos dst f] less.prems by auto
    define mm where "mm = m AND drop_bit (VEC_LEN i - length src) (mask (VEC_LEN i))"
    have mm: "mm = to_bitmask (map (need_escape f) src)"
      using tail_mask [of src i pad "need_escape f"] less.prems(2,3) CopyMask_cases(1) [OF cm]
      by (simp add: mm_def)
    have l32: "length src \<le> 32" using less.prems(2) VEC_LEN_bounds(2) [of i] by linarith
    note mf = mask_first [OF l32, of "need_escape f", folded mm]
    show ?thesis
    proof (cases "mm = 0")
      case True
      with mf(1) have plain: "\<forall>c \<in> set (take (length src) src). \<not> need_escape f c" by simp
      have "emits f (src, dst, pos) ([], b, pos + length src)"
        using emits_copied [OF cm _ less.prems(2) plain] by simp
      with True cm ne show ?thesis
        by (simp add: Quote_tail_loop.simps [of i f pad src] mm_def [symmetric])
    next
      case False
      let ?n = "TrailingZeroes mm"
      have ex: "\<exists>c \<in> set src. need_escape f c" using False mf(1) by blast
      obtain c rest where d: "drop ?n src = c # rest" "need_escape f c"
        using takeWhile_next [OF ex, folded mf(2) [OF False]] by blast
      have n: "?n < length src" using d(1) by (cases "?n < length src") auto
      have "take ?n src = takeWhile (\<lambda>c. \<not> need_escape f c) src"
        unfolding mf(2) [OF False] by (rule takeWhile_eq_take [symmetric])
      then have plain: "\<forall>c \<in> set (take ?n src). \<not> need_escape f c" by (auto dest: set_takeWhileD)
      have e1: "emits f (src, dst, pos) (drop ?n src, b, pos + ?n)"
        using emits_copied [OF cm _ _ plain] n less.prems(2) by simp
      have room: "pos + ?n + 6 * length (drop ?n src) \<le> length b"
        using emits_room [OF e1, of 0] less.prems by simp
      obtain s1 d1 p1 where st: "DoEscape f (drop ?n src, b, pos + ?n) = Some (s1, d1, p1)"
        "emits f (drop ?n src, b, pos + ?n) (s1, d1, p1)" "length s1 < length (drop ?n src)"
        using DoEscape_emits [OF d room] by auto
      have e: "emits f (src, dst, pos) (s1, d1, p1)" by (rule emits_trans [OF e1 st(2)])
      have lt: "length s1 < length src" using st(3) by simp
      have "p1 + 6 * length s1 + VEC_LEN i \<le> length d1"
        using emits_room [OF e, of "VEC_LEN i"] less.prems by simp
      moreover have "length s1 \<le> VEC_LEN i" using lt less.prems(2) by simp
      ultimately obtain d2 p2 where r: "Quote_tail_loop i f pad (s1, d1, p1) = Some (d2, p2)"
        "emits f (s1, d1, p1) ([], d2, p2)"
        using less.hyps [OF lt _ _ less.prems(3)] by blast
      have "Quote_tail_loop i f pad (src, dst, pos) = Some (d2, p2)"
        using cm ne False st(1) r(1)
        by (simp add: Quote_tail_loop.simps [of i f pad src] mm_def [symmetric])
      with emits_trans [OF e r(2)] show ?thesis by blast
    qed
  qed
qed

lemma close_quote:
  assumes "emits f (src, dst1, pos + 1) ([], dst2, pos2)" and "wr dst pos [0x22] = Some dst1"
    and "pos2 < length dst2"
  shows "\<exists>dst3. wr dst2 pos2 [0x22] = Some dst3 \<and> length dst3 = length dst
    \<and> pos2 + 1 = pos + length (json_quoted f src)
    \<and> take (pos2 + 1) dst3 = take pos dst @ json_quoted f src"
proof -
  obtain d3 where d3: "wr dst2 pos2 [0x22] = Some d3" using wr_ex [of pos2 "[0x22]" dst2] assms(3) by auto
  from assms(1) have o1: "pos2 = pos + 1 + length (quoted f src)" "length dst2 = length dst1"
    "take pos2 dst2 = take (pos + 1) dst1 @ quoted f src" by (auto simp: emits_def)
  have "take (pos2 + 1) d3 = take pos2 dst2 @ [0x22]" using wr_take [OF d3] by simp
  moreover have "take (pos + 1) dst1 = take pos dst @ [0x22]" using wr_take [OF assms(2)] by simp
  moreover have "length d3 = length dst"
    using wr_length [OF d3] wr_length [OF assms(2)] o1(2) by simp
  ultimately show ?thesis using d3 o1 by (simp add: json_quoted_def)
qed

lemma Quote_scalar_ok:
  assumes "pos + 6 * length src + 2 \<le> length dst"
  shows "\<exists>dst'. Quote_scalar f src dst pos = Some (dst', pos + length (json_quoted f src))
    \<and> length dst' = length dst \<and> take (pos + length (json_quoted f src)) dst' = take pos dst @ json_quoted f src"
proof -
  obtain d1 where d1: "wr dst pos [0x22] = Some d1" using wr_ex [of pos "[0x22]" dst] assms by auto
  have room: "pos + 1 + 6 * length src \<le> length d1" using assms wr_length [OF d1] by simp
  obtain d2 p2 where r: "Quote_scalar_loop f (src, d1, pos + 1) = Some (d2, p2)"
    "emits f (src, d1, pos + 1) ([], d2, p2)"
    using Quote_scalar_loop_ok [OF room] by blast
  have "p2 < length d2" using emits_room [OF r(2), of 1] assms wr_length [OF d1] by simp
  from close_quote [OF r(2) d1 this] r d1 show ?thesis by (auto simp: Quote_scalar_def)
qed

lemma Quote_vec_ok:
  assumes "pos + 6 * length src + 2 + VEC_LEN i \<le> length dst"
    and "in_page \<Longrightarrow> VEC_LEN i \<le> length after"
  shows "\<exists>dst'. Quote_vec i f in_page after src dst pos = Some (dst', pos + length (json_quoted f src))
    \<and> length dst' = length dst \<and> take (pos + length (json_quoted f src)) dst' = take pos dst @ json_quoted f src"
proof -
  obtain d1 where d1: "wr dst pos [0x22] = Some d1" using wr_ex [of pos "[0x22]" dst] assms by auto
  have room: "pos + 1 + 6 * length src + VEC_LEN i \<le> length d1" using assms wr_length [OF d1] by simp
  obtain s2 d2 p2 where r: "Quote_vec_loop i f (src, d1, pos + 1) = Some (s2, d2, p2)"
    "emits f (src, d1, pos + 1) (s2, d2, p2)" "length s2 < VEC_LEN i"
    using Quote_vec_loop_ok [OF room, of f] by auto
  let ?pad = "if in_page then after else replicate (2 * VEC_LEN i - length s2) 0"
  have room2: "p2 + 6 * length s2 + VEC_LEN i + 1 \<le> length d2"
    using emits_room [OF r(2), of "VEC_LEN i + 1"] assms wr_length [OF d1] by simp
  obtain d3 p3 where t: "(if s2 \<noteq> [] then Quote_tail_loop i f ?pad (s2, d2, p2) else Some (d2, p2)) = Some (d3, p3)"
    "emits f (s2, d2, p2) ([], d3, p3)"
  proof (cases "s2 = []")
    case True
    with that [of d2 p2] emits_refl show ?thesis by simp
  next
    case False
    have "VEC_LEN i \<le> length ?pad" using assms(2) r(3) by auto
    from Quote_tail_loop_ok [OF _ _ this, of p2 s2 d2 f] room2 r(3) that False show ?thesis by auto
  qed
  have e: "emits f (src, d1, pos + 1) ([], d3, p3)" by (rule emits_trans [OF r(2) t(2)])
  have "p3 < length d3" using emits_room [OF t(2), of 1] room2 by simp
  from close_quote [OF e d1 this] r t d1 show ?thesis by (auto simp: Quote_vec_def Let_def)
qed

text \<open>
  C8: the vector writer and the scalar writer produce the same text. For every string, every flag
  combination, both vector widths and both ways the tail is read, in a buffer with six bytes per
  source byte, two for the quotes and one vector to spare, \<open>Quote\<close> never writes outside the buffer,
  keeps what stood before it and appends exactly the escaped text of the string between quotes,
  whatever bytes follow the string in memory.
\<close>

theorem quote_writers_agree:
  assumes "pos + 6 * length src + 2 + VEC_LEN i \<le> length dst"
    and "in_page \<longrightarrow> VEC_LEN i \<le> length after"
  shows "\<exists>d1 d2. Quote_vec i f in_page after src dst pos = Some (d1, pos + length (json_quoted f src))
    \<and> Quote_scalar f src dst pos = Some (d2, pos + length (json_quoted f src))
    \<and> take (pos + length (json_quoted f src)) d1 = take pos dst @ json_quoted f src
    \<and> take (pos + length (json_quoted f src)) d2 = take pos dst @ json_quoted f src"
  using Quote_vec_ok [OF assms(1), of in_page after f] Quote_scalar_ok [of pos src dst f] assms by auto

theorem quote_writers_agree_witness:
  "\<exists>d1 d2. Quote_vec AVX2 kSerializeDefault False [] [0x61, 0x0A] (replicate 60 0) 3 = Some (d1, 8)
    \<and> Quote_scalar kSerializeDefault [0x61, 0x0A] (replicate 60 0) 3 = Some (d2, 8)
    \<and> take 8 d1 = [0, 0, 0, 0x22, 0x61, 0x5C, 0x6E, 0x22]"
proof -
  have "kNeedEscaped ! 10" "\<not> kNeedEscaped ! 97"
    by (simp_all add: kNeedEscaped_def nth_append)
  then have "quoted kSerializeDefault [0x61, 0x0A] = [0x61, 0x5C, 0x6E]"
    by (simp add: quote_tab_def kQuoteTabLowerCase_def q2_def q6_def flags_and_def
        kSerializeDefault_def EscapeEmoji_def)
  then have "json_quoted kSerializeDefault [0x61, 0x0A] = [0x22, 0x61, 0x5C, 0x6E, 0x22]"
    by (simp add: json_quoted_def)
  with quote_writers_agree [of 3 "[0x61, 0x0A]" AVX2 "replicate 60 0" False "[]" kSerializeDefault]
  show ?thesis by (auto simp: eval_nat_numeral)
qed

end
