(* ===== verification/Sonic_Unicode.thy ===== *)
theory Sonic_Unicode
  imports Sonic_Prelude
begin

text \<open>
  Unicode escapes: \<open>internal/arch/common/unicode_common.h\<close> and the unescape table of
  \<open>quote_tables.h\<close>. Code points are the \<open>uint32_t\<close> of the source; the source buffer is a byte list
  and a read outside it gives \<^term>\<open>None\<close>. The specification side reads hexadecimal digits and
  UTF-8 (RFC 3629) with natural numbers.
\<close>

subsection \<open>Tables\<close>

text \<open>
  \<open>digit_to_val32\<close>: four copies of the hexadecimal digit table, each shifted 4 bits further,
  overlapping at a distance of 210 entries. Runs of equal entries are written with \<^const>\<open>replicate\<close>.
\<close>

definition digit_to_val32 :: "u32 list" where
  "digit_to_val32 =
     replicate 48 0xFFFFFFFF @ [0x0, 0x1, 0x2, 0x3, 0x4, 0x5, 0x6, 0x7, 0x8, 0x9]
     @ replicate 7 0xFFFFFFFF @ [0xa, 0xb, 0xc, 0xd, 0xe, 0xf]
     @ replicate 26 0xFFFFFFFF @ [0xa, 0xb, 0xc, 0xd, 0xe, 0xf]
     @ replicate 155 0xFFFFFFFF @ [0x0, 0x10, 0x20, 0x30, 0x40, 0x50, 0x60, 0x70, 0x80, 0x90]
     @ replicate 7 0xFFFFFFFF @ [0xa0, 0xb0, 0xc0, 0xd0, 0xe0, 0xf0]
     @ replicate 26 0xFFFFFFFF @ [0xa0, 0xb0, 0xc0, 0xd0, 0xe0, 0xf0]
     @ replicate 155 0xFFFFFFFF
     @ [0x0, 0x100, 0x200, 0x300, 0x400, 0x500, 0x600, 0x700, 0x800, 0x900]
     @ replicate 7 0xFFFFFFFF @ [0xa00, 0xb00, 0xc00, 0xd00, 0xe00, 0xf00]
     @ replicate 26 0xFFFFFFFF @ [0xa00, 0xb00, 0xc00, 0xd00, 0xe00, 0xf00]
     @ replicate 155 0xFFFFFFFF
     @ [0x0, 0x1000, 0x2000, 0x3000, 0x4000, 0x5000, 0x6000, 0x7000, 0x8000, 0x9000]
     @ replicate 7 0xFFFFFFFF @ [0xa000, 0xb000, 0xc000, 0xd000, 0xe000, 0xf000]
     @ replicate 26 0xFFFFFFFF @ [0xa000, 0xb000, 0xc000, 0xd000, 0xe000, 0xf000]
     @ replicate 153 0xFFFFFFFF"

text \<open>\<open>kEscapedMap\<close>: the character an escape stands for, 0 for none.\<close>

definition kEscapedMap :: "u8 list" where
  "kEscapedMap =
     replicate 34 0 @ [0x22] @ replicate 12 0 @ [0x2F] @ replicate 44 0 @ [0x5C]
     @ replicate 5 0 @ [0x08] @ replicate 3 0 @ [0x0C] @ replicate 7 0 @ [0x0A]
     @ replicate 3 0 @ [0x0D] @ replicate 1 0 @ [0x09] @ replicate 139 0"

subsection \<open>The operations\<close>

definition hex_to_u32_nocheck :: "bytes \<Rightarrow> nat \<Rightarrow> u32 option" where
  "hex_to_u32_nocheck buf src = do {
     c0 \<leftarrow> rd buf src; c1 \<leftarrow> rd buf (src + 1); c2 \<leftarrow> rd buf (src + 2); c3 \<leftarrow> rd buf (src + 3);
     v1 \<leftarrow> rd digit_to_val32 (630 + unat c0);
     v2 \<leftarrow> rd digit_to_val32 (420 + unat c1);
     v3 \<leftarrow> rd digit_to_val32 (210 + unat c2);
     v4 \<leftarrow> rd digit_to_val32 (0 + unat c3);
     Some (v1 OR v2 OR v3 OR v4)
   }"

text \<open>The bytes written to \<open>c\<close>; their number is the result of the source function.\<close>

definition codepoint_to_utf8 :: "u32 \<Rightarrow> bytes" where
  "codepoint_to_utf8 cp =
     (if cp \<le> 0x7F then [ucast cp]
      else if cp \<le> 0x7FF then [ucast (drop_bit 6 cp + 192), ucast ((cp AND 63) + 128)]
      else if cp \<le> 0xFFFF then
        [ucast (drop_bit 12 cp + 224), ucast ((drop_bit 6 cp AND 63) + 128),
         ucast ((cp AND 63) + 128)]
      else if cp \<le> 0x10FFFF then
        [ucast (drop_bit 18 cp + 240), ucast ((drop_bit 12 cp AND 63) + 128),
         ucast ((drop_bit 6 cp AND 63) + 128), ucast ((cp AND 63) + 128)]
      else [])"

text \<open>
  \<open>handle_unicode_codepoint\<close>: \<open>Some None\<close> when the source returns false, otherwise the new source
  position and the bytes written at the destination (the destination pointer advances over them).
\<close>

definition handle_unicode_codepoint :: "bytes \<Rightarrow> nat \<Rightarrow> (nat \<times> bytes) option option" where
  "handle_unicode_codepoint buf src = do {
     code_point \<leftarrow> hex_to_u32_nocheck buf (src + 2);
     let src = src + 6;
     if 0xdc00 \<le> code_point \<and> code_point \<le> 0xdfff then Some None
     else if 0xd800 \<le> code_point \<and> code_point < 0xdc00 then do {
       a \<leftarrow> rd buf src;
       if a \<noteq> 0x5C then Some None
       else do {
         b \<leftarrow> rd buf (src + 1);
         if b \<noteq> 0x75 then Some None
         else do {
           code_point_2 \<leftarrow> hex_to_u32_nocheck buf (src + 2);
           if drop_bit 16 (code_point OR code_point_2) \<noteq> 0 then Some None
           else if code_point_2 < 0xdc00 \<or> 0xdfff < code_point_2 then Some None
           else let cp = (push_bit 10 (code_point - 0xd800) OR (code_point_2 - 0xdc00)) + 0x10000;
                    out = codepoint_to_utf8 cp
                in Some (if out \<noteq> [] then Some (src + 6, out) else None)
         }
       }
     }
     else let out = codepoint_to_utf8 code_point
          in Some (if out \<noteq> [] then Some (src, out) else None)
   }"

text \<open>\<open>unescape_with_padding\<close>: \<open>Some None\<close> when the source returns 0.\<close>

definition unescape_with_padding :: "bytes \<Rightarrow> nat \<Rightarrow> (nat \<times> bytes) option option" where
  "unescape_with_padding buf src = do {
     escape_char \<leftarrow> rd buf (src + 1);
     if escape_char = 0x75 then handle_unicode_codepoint buf src
     else do {
       c \<leftarrow> rd kEscapedMap (unat escape_char);
       Some (if c = 0 then None else Some (src + 2, [c]))
     }
   }"

subsection \<open>Specification\<close>

definition hexval :: "u8 \<Rightarrow> nat option" where
  "hexval c = (if 48 \<le> c \<and> c \<le> 57 then Some (unat c - 48)
     else if 65 \<le> c \<and> c \<le> 70 then Some (unat c - 55)
     else if 97 \<le> c \<and> c \<le> 102 then Some (unat c - 87) else None)"

definition hex4 :: "bytes \<Rightarrow> nat option" where
  "hex4 cs = (case map hexval cs of
      [Some a, Some b, Some c, Some d] \<Rightarrow> Some (((a * 16 + b) * 16 + c) * 16 + d)
    | _ \<Rightarrow> None)"

text \<open>UTF-8 of a scalar value, and reading one back.\<close>

definition utf8_encode :: "nat \<Rightarrow> bytes" where
  "utf8_encode n = map word_of_nat
     (if n < 0x80 then [n]
      else if n < 0x800 then [192 + n div 64, 128 + n mod 64]
      else if n < 0x10000 then [224 + n div 4096, 128 + n div 64 mod 64, 128 + n mod 64]
      else [240 + n div 262144, 128 + n div 4096 mod 64, 128 + n div 64 mod 64, 128 + n mod 64])"

definition cont_byte :: "u8 \<Rightarrow> bool" where "cont_byte c \<longleftrightarrow> 128 \<le> c \<and> c < 192"

definition scalar_value :: "nat \<Rightarrow> bool" where
  "scalar_value n \<longleftrightarrow> n \<le> 0x10FFFF \<and> \<not> (0xD800 \<le> n \<and> n \<le> 0xDFFF)"

definition utf8_decode :: "bytes \<Rightarrow> nat option" where
  "utf8_decode bs = (case bs of
      [a] \<Rightarrow> if a < 128 then Some (unat a) else None
    | [a, b] \<Rightarrow>
        (let n = (unat a - 192) * 64 + (unat b - 128) in
         if 192 \<le> a \<and> a < 224 \<and> cont_byte b \<and> 0x80 \<le> n then Some n else None)
    | [a, b, c] \<Rightarrow>
        (let n = ((unat a - 224) * 64 + (unat b - 128)) * 64 + (unat c - 128) in
         if 224 \<le> a \<and> a < 240 \<and> cont_byte b \<and> cont_byte c \<and> 0x800 \<le> n \<and> scalar_value n
         then Some n else None)
    | [a, b, c, d] \<Rightarrow>
        (let n = (((unat a - 240) * 64 + (unat b - 128)) * 64 + (unat c - 128)) * 64 + (unat d - 128) in
         if 240 \<le> a \<and> a < 248 \<and> cont_byte b \<and> cont_byte c \<and> cont_byte d \<and> 0x10000 \<le> n \<and> scalar_value n
         then Some n else None)
    | _ \<Rightarrow> None)"

subsection \<open>The digit table\<close>

definition hexrow :: "nat \<Rightarrow> u32 list \<Rightarrow> u32 list" where
  "hexrow s rest = replicate 48 0xFFFFFFFF @ map (\<lambda>k. word_of_nat (k * 2 ^ s)) [0..<10]
     @ replicate 7 0xFFFFFFFF @ map (\<lambda>k. word_of_nat (k * 2 ^ s)) [10..<16]
     @ replicate 26 0xFFFFFFFF @ map (\<lambda>k. word_of_nat (k * 2 ^ s)) [10..<16] @ rest"

lemma digit_table_rows:
  "digit_to_val32 = hexrow 0 (replicate 107 0xFFFFFFFF @ hexrow 4 (replicate 107 0xFFFFFFFF
     @ hexrow 8 (replicate 107 0xFFFFFFFF @ hexrow 12 (replicate 153 0xFFFFFFFF))))"
proof -
  have r: "replicate 155 (0xFFFFFFFF :: u32) = replicate 107 0xFFFFFFFF @ replicate 48 0xFFFFFFFF"
    by (simp flip: replicate_add)
  have m: "map (\<lambda>k. word_of_nat (k * 2 ^ 0) :: u32) [0..<10] = [0x0, 0x1, 0x2, 0x3, 0x4, 0x5, 0x6, 0x7, 0x8, 0x9]"
    "map (\<lambda>k. word_of_nat (k * 2 ^ 4) :: u32) [0..<10] = [0x0, 0x10, 0x20, 0x30, 0x40, 0x50, 0x60, 0x70, 0x80, 0x90]"
    "map (\<lambda>k. word_of_nat (k * 2 ^ 8) :: u32) [0..<10] = [0x0, 0x100, 0x200, 0x300, 0x400, 0x500, 0x600, 0x700, 0x800, 0x900]"
    "map (\<lambda>k. word_of_nat (k * 2 ^ 12) :: u32) [0..<10] = [0x0, 0x1000, 0x2000, 0x3000, 0x4000, 0x5000, 0x6000, 0x7000, 0x8000, 0x9000]"
    "map (\<lambda>k. word_of_nat (k * 2 ^ 0) :: u32) [10..<16] = [0xa, 0xb, 0xc, 0xd, 0xe, 0xf]"
    "map (\<lambda>k. word_of_nat (k * 2 ^ 4) :: u32) [10..<16] = [0xa0, 0xb0, 0xc0, 0xd0, 0xe0, 0xf0]"
    "map (\<lambda>k. word_of_nat (k * 2 ^ 8) :: u32) [10..<16] = [0xa00, 0xb00, 0xc00, 0xd00, 0xe00, 0xf00]"
    "map (\<lambda>k. word_of_nat (k * 2 ^ 12) :: u32) [10..<16] = [0xa000, 0xb000, 0xc000, 0xd000, 0xe000, 0xf000]"
    by (simp_all add: upt_rec)
  show ?thesis unfolding digit_to_val32_def hexrow_def m r by (simp only: append_assoc)
qed

lemma hexrow_nth:
  assumes "take 153 rest = replicate 153 0xFFFFFFFF"
  shows "hexrow s rest ! unat c = (case hexval c of Some v \<Rightarrow> word_of_nat (v * 2 ^ s) | None \<Rightarrow> 0xFFFFFFFF)"
proof -
  define n where "n = unat c"
  have lt: "n < 256" unfolding n_def by (rule unat_u8_lt)
  have rest: "rest ! (n - 103) = 0xFFFFFFFF" if "103 \<le> n"
  proof -
    have "take 153 rest ! (n - 103) = replicate 153 (0xFFFFFFFF :: u32) ! (n - 103)" by (simp only: assms)
    moreover have "n - 103 < 153" using that lt by simp
    ultimately show ?thesis by (simp only: nth_take nth_replicate)
  qed
  have hv: "hexval c = (if 48 \<le> n \<and> n \<le> 57 then Some (n - 48) else if 65 \<le> n \<and> n \<le> 70 then Some (n - 55)
     else if 97 \<le> n \<and> n \<le> 102 then Some (n - 87) else None)"
    by (simp add: hexval_def word_le_nat_alt n_def)
  have "n < 48 \<or> 48 \<le> n \<and> n < 58 \<or> 58 \<le> n \<and> n < 65 \<or> 65 \<le> n \<and> n < 71 \<or> 71 \<le> n \<and> n < 97
    \<or> 97 \<le> n \<and> n < 103 \<or> 103 \<le> n" by linarith
  then show ?thesis
    unfolding hv n_def [symmetric] hexrow_def
    by (elim disjE conjE;
        simp add: nth_append nth_upt rest add.commute [of _ 10] del: upt_rec_numeral of_nat_mult of_nat_add;
        (intro conjI impI; linarith)?)
qed

lemma length_digit_to_val32: "length digit_to_val32 = 886"
  by (simp add: digit_to_val32_def)

lemma digit_row:
  assumes "drop k digit_to_val32 = hexrow s rest" and "take 153 rest = replicate 153 0xFFFFFFFF" and "k \<le> 630"
  shows "rd digit_to_val32 (k + unat c)
    = Some (case hexval c of Some v \<Rightarrow> word_of_nat (v * 2 ^ s) | None \<Rightarrow> 0xFFFFFFFF)"
proof -
  have "digit_to_val32 ! (k + unat c) = drop k digit_to_val32 ! unat c"
    using assms(3) unat_u8_lt [of c] by (simp add: length_digit_to_val32)
  also have "\<dots> = (case hexval c of Some v \<Rightarrow> word_of_nat (v * 2 ^ s) | None \<Rightarrow> 0xFFFFFFFF)"
    unfolding assms(1) by (rule hexrow_nth [OF assms(2)])
  finally show ?thesis using assms(3) unat_u8_lt [of c] by (simp add: rd_def length_digit_to_val32)
qed

lemma length_hexrow: "length (hexrow s rest) = 103 + length rest"
  by (simp add: hexrow_def)

lemma take_hexrow: "take 153 (replicate 107 0xFFFFFFFF @ hexrow s rest) = replicate 153 0xFFFFFFFF"
proof -
  have "take 46 (hexrow s rest) = replicate 46 0xFFFFFFFF" by (simp add: hexrow_def)
  then show ?thesis by (simp flip: replicate_add)
qed

lemma drop_hexrow: "drop 210 (hexrow s (replicate 107 0xFFFFFFFF @ r)) = r"
proof -
  have "length (hexrow s (replicate 107 0xFFFFFFFF)) = 210" by (simp add: length_hexrow)
  moreover have "hexrow s (replicate 107 0xFFFFFFFF @ r) = hexrow s (replicate 107 0xFFFFFFFF) @ r"
    by (simp only: hexrow_def append_assoc)
  ultimately show ?thesis by simp
qed

lemma drop_rows:
  "drop 210 digit_to_val32 = hexrow 4 (replicate 107 0xFFFFFFFF
     @ hexrow 8 (replicate 107 0xFFFFFFFF @ hexrow 12 (replicate 153 0xFFFFFFFF)))"
  "drop 420 digit_to_val32 = hexrow 8 (replicate 107 0xFFFFFFFF @ hexrow 12 (replicate 153 0xFFFFFFFF))"
  "drop 630 digit_to_val32 = hexrow 12 (replicate 153 0xFFFFFFFF)"
proof -
  show a: "drop 210 digit_to_val32 = hexrow 4 (replicate 107 0xFFFFFFFF
     @ hexrow 8 (replicate 107 0xFFFFFFFF @ hexrow 12 (replicate 153 0xFFFFFFFF)))"
    unfolding digit_table_rows by (rule drop_hexrow)
  have "drop 420 digit_to_val32 = drop 210 (drop 210 digit_to_val32)" by simp
  then show b: "drop 420 digit_to_val32 = hexrow 8 (replicate 107 0xFFFFFFFF @ hexrow 12 (replicate 153 0xFFFFFFFF))"
    by (simp only: a drop_hexrow)
  have "drop 630 digit_to_val32 = drop 210 (drop 420 digit_to_val32)" by simp
  then show "drop 630 digit_to_val32 = hexrow 12 (replicate 153 0xFFFFFFFF)"
    by (simp only: b drop_hexrow)
qed

lemma digit_lookup:
  "rd digit_to_val32 (0 + unat c) = Some (case hexval c of Some v \<Rightarrow> word_of_nat (v * 2 ^ 0) | None \<Rightarrow> 0xFFFFFFFF)"
  "rd digit_to_val32 (210 + unat c) = Some (case hexval c of Some v \<Rightarrow> word_of_nat (v * 2 ^ 4) | None \<Rightarrow> 0xFFFFFFFF)"
  "rd digit_to_val32 (420 + unat c) = Some (case hexval c of Some v \<Rightarrow> word_of_nat (v * 2 ^ 8) | None \<Rightarrow> 0xFFFFFFFF)"
  "rd digit_to_val32 (630 + unat c) = Some (case hexval c of Some v \<Rightarrow> word_of_nat (v * 2 ^ 12) | None \<Rightarrow> 0xFFFFFFFF)"
  by (rule digit_row [OF _ take_hexrow], simp add: digit_table_rows, simp)
    (rule digit_row [OF drop_rows(1) take_hexrow], simp,
     rule digit_row [OF drop_rows(2) take_hexrow], simp,
     rule digit_row [OF drop_rows(3)], simp_all)
subsection \<open>Hexadecimal digits\<close>

lemma or_shift_nat:
  assumes "y < 2 ^ s"
  shows "x * 2 ^ s + y = x * 2 ^ s OR (y :: nat)"
proof -
  have "push_bit s x AND take_bit s y = 0" by (rule bit_eqI) (auto simp: bit_simps)
  then have "push_bit s x + take_bit s y = push_bit s x OR take_bit s y"
    by (rule disjunctive_add_eq_or)
  moreover have "take_bit s y = y" by (rule take_bit_nat_eq_self [OF assms])
  ultimately show ?thesis by (simp add: push_bit_eq_mult)
qed

lemma or_shift_word:
  assumes "y < 2 ^ s"
  shows "word_of_nat (x * 2 ^ s) OR word_of_nat y = (word_of_nat (x * 2 ^ s + y) :: 'a::len word)"
  by (simp only: or_shift_nat [OF assms] of_nat_or_eq)

lemma hexval_lt: "hexval c = Some v \<Longrightarrow> v < 16"
  by (auto simp: hexval_def word_le_nat_alt split: if_splits)

lemma take4_drop: "src + 4 \<le> length buf \<Longrightarrow>
    take 4 (drop src buf) = [buf ! src, buf ! (src + 1), buf ! (src + 2), buf ! (src + 3)]"
  by (rule nth_equalityI) (auto simp: nth_Cons' numeral_eq_Suc less_Suc_eq)

lemma or_all_ones: "x OR 0xFFFFFFFF = (0xFFFFFFFF :: u32)" "0xFFFFFFFF OR x = (0xFFFFFFFF :: u32)"
proof -
  have e: "(0xFFFFFFFF :: u32) = - 1" by simp
  show "x OR 0xFFFFFFFF = (0xFFFFFFFF :: u32)" "0xFFFFFFFF OR x = (0xFFFFFFFF :: u32)"
    unfolding e by simp_all
qed

lemma hex_to_u32_nocheck_val:
  assumes "src + 4 \<le> length buf"
  shows "hex_to_u32_nocheck buf src
    = Some (case hex4 (take 4 (drop src buf)) of Some n \<Rightarrow> word_of_nat n | None \<Rightarrow> 0xFFFFFFFF)"
proof -
  obtain c0 c1 c2 c3 where c: "buf ! src = c0" "buf ! (src + 1) = c1" "buf ! (src + 2) = c2"
    "buf ! (src + 3) = c3" by blast
  have rds: "rd buf src = Some c0" "rd buf (src + 1) = Some c1" "rd buf (src + 2) = Some c2"
    "rd buf (src + 3) = Some c3"
    using assms c by (simp_all add: rd_def)
  have run: "hex_to_u32_nocheck buf src = Some
     ((case hexval c0 of Some v \<Rightarrow> word_of_nat (v * 2 ^ 12) | None \<Rightarrow> 0xFFFFFFFF) OR
      ((case hexval c1 of Some v \<Rightarrow> word_of_nat (v * 2 ^ 8) | None \<Rightarrow> 0xFFFFFFFF) OR
       ((case hexval c2 of Some v \<Rightarrow> word_of_nat (v * 2 ^ 4) | None \<Rightarrow> 0xFFFFFFFF) OR
        (case hexval c3 of Some v \<Rightarrow> word_of_nat (v * 2 ^ 0) | None \<Rightarrow> 0xFFFFFFFF))))"
    by (simp only: hex_to_u32_nocheck_def rds digit_lookup Option.bind.bind_lunit or.assoc)
  have h: "hex4 (take 4 (drop src buf)) = hex4 [c0, c1, c2, c3]"
    by (simp only: take4_drop [OF assms] c)
  show ?thesis
  proof (cases "hexval c0 = None \<or> hexval c1 = None \<or> hexval c2 = None \<or> hexval c3 = None")
    case True
    then have "hex4 [c0, c1, c2, c3] = None" by (auto simp: hex4_def split: option.splits)
    moreover from True have "hex_to_u32_nocheck buf src = Some 0xFFFFFFFF"
      unfolding run by (auto simp: or_all_ones)
    ultimately show ?thesis by (simp add: h)
  next
    case False
    then obtain v0 v1 v2 v3 where v: "hexval c0 = Some v0" "hexval c1 = Some v1" "hexval c2 = Some v2"
      "hexval c3 = Some v3" by auto
    note lt = v [THEN hexval_lt]
    have s: "((v0 * 16 + v1) * 16 + v2) * 16 + v3 = v0 * 2 ^ 12 + (v1 * 2 ^ 8 + (v2 * 2 ^ 4 + v3 * 2 ^ 0))"
      by simp
    have "word_of_nat (v0 * 2 ^ 12) OR (word_of_nat (v1 * 2 ^ 8) OR (word_of_nat (v2 * 2 ^ 4)
        OR word_of_nat (v3 * 2 ^ 0))) = (word_of_nat (((v0 * 16 + v1) * 16 + v2) * 16 + v3) :: u32)"
    proof -
      have "word_of_nat (v2 * 2 ^ 4) OR word_of_nat (v3 * 2 ^ 0)
          = (word_of_nat (v2 * 2 ^ 4 + v3 * 2 ^ 0) :: u32)"
        by (rule or_shift_word) (use lt in simp)
      moreover have "word_of_nat (v1 * 2 ^ 8) OR word_of_nat (v2 * 2 ^ 4 + v3 * 2 ^ 0)
          = (word_of_nat (v1 * 2 ^ 8 + (v2 * 2 ^ 4 + v3 * 2 ^ 0)) :: u32)"
        by (rule or_shift_word) (use lt in simp)
      moreover have "word_of_nat (v0 * 2 ^ 12) OR word_of_nat (v1 * 2 ^ 8 + (v2 * 2 ^ 4 + v3 * 2 ^ 0))
          = (word_of_nat (v0 * 2 ^ 12 + (v1 * 2 ^ 8 + (v2 * 2 ^ 4 + v3 * 2 ^ 0))) :: u32)"
        by (rule or_shift_word) (use lt in simp)
      ultimately show ?thesis by (simp only: s)
    qed
    with v show ?thesis unfolding run h by (simp add: hex4_def)
  qed
qed

subsection \<open>UTF-8\<close>

lemma unat_of_nat_u8: "n < 256 \<Longrightarrow> unat (word_of_nat n :: u8) = n"
  by (simp add: unat_of_nat)

lemma unat_of_nat_u32: "n < 4294967296 \<Longrightarrow> unat (word_of_nat n :: u32) = n"
  by (simp add: unat_of_nat)

lemma u8_of_u32: "(ucast (w :: u32) :: u8) = word_of_nat (unat w)"
  by simp

lemma unat_cp_part:
  "m \<le> 0x10FFFF \<Longrightarrow> k < 256 \<Longrightarrow> unat (cp :: u32) = m \<Longrightarrow> unat (drop_bit s cp + word_of_nat k) = m div 2 ^ s + k"
  "m \<le> 0x10FFFF \<Longrightarrow> k < 256 \<Longrightarrow> unat (cp :: u32) = m
    \<Longrightarrow> unat ((drop_bit s cp AND 63) + word_of_nat k) = m div 2 ^ s mod 64 + k"
proof -
  assume m: "m \<le> 0x10FFFF" and k: "k < 256" and cp: "unat cp = m"
  have kk: "unat (word_of_nat k :: u32) = k" using k by (simp add: unat_of_nat)
  have d: "unat (drop_bit s cp) = m div 2 ^ s" by (simp only: unat_shr cp)
  have le: "m div 2 ^ s \<le> m" by simp
  show "unat (drop_bit s cp + word_of_nat k) = m div 2 ^ s + k"
    using m k le by (subst unat_plus_lt) (simp_all add: kk d del: div_le_dividend)
  have e: "unat (drop_bit s cp AND 63) = m div 2 ^ s mod 64"
  proof -
    have "(63 :: u32) = mask 6" by (simp add: mask_eq_exp_minus_1)
    then show ?thesis by (simp only: unat_low_mask d) simp
  qed
  show "unat ((drop_bit s cp AND 63) + word_of_nat k) = m div 2 ^ s mod 64 + k"
    using m k by (subst unat_plus_lt) (simp_all add: kk e)
qed

lemma codepoint_to_utf8_encode:
  "codepoint_to_utf8 cp = (if unat cp \<le> 0x10FFFF then utf8_encode (unat cp) else [])"
proof -
  define m where "m = unat cp"
  have cp: "unat cp = m" by (simp add: m_def)
  note p = unat_cp_part(1) [OF _ _ cp, of _ 6] unat_cp_part(1) [OF _ _ cp, of _ 12] unat_cp_part(1) [OF _ _ cp, of _ 18]
    unat_cp_part(2) [OF _ _ cp, of _ 0] unat_cp_part(2) [OF _ _ cp, of _ 6] unat_cp_part(2) [OF _ _ cp, of _ 12]
  have le: "cp \<le> 0x7F \<longleftrightarrow> m < 0x80" "cp \<le> 0x7FF \<longleftrightarrow> m < 0x800" "cp \<le> 0xFFFF \<longleftrightarrow> m < 0x10000"
    "cp \<le> 0x10FFFF \<longleftrightarrow> m \<le> 0x10FFFF"
    by (auto simp add: word_le_nat_alt cp)
  have b: "(ucast (cp + 0) :: u8) = word_of_nat m" by (simp add: cp [symmetric])
  have u: "(ucast w :: u8) = word_of_nat k" if "unat w = k" for w :: u32 and k
    using that by auto
  show ?thesis
  proof (cases "m \<le> 0x10FFFF")
    case True
    note q = p(1) [OF True, of 192, THEN u] p(2) [OF True, of 224, THEN u] p(3) [OF True, of 240, THEN u]
      p(4) [OF True, of 128, THEN u] p(5) [OF True, of 128, THEN u] p(6) [OF True, of 128, THEN u]
    show ?thesis unfolding codepoint_to_utf8_def le utf8_encode_def cp
      using True q b by (auto simp: add.commute)
  next
    case False
    then show ?thesis unfolding codepoint_to_utf8_def le cp by simp
  qed
qed

lemma utf8_digits:
  fixes n :: nat
  obtains a b c where "n = (a * 64 + b) * 64 + c" "b < 64" "c < 64" "n div 64 mod 64 = b" "n mod 64 = c"
    "n div 4096 = a" "n div 64 = a * 64 + b"
proof
  show "n = (n div 4096 * 64 + n div 64 mod 64) * 64 + n mod 64"
    using div_mult_mod_eq [of n 64] div_mult_mod_eq [of "n div 64" 64] by (simp add: div_mult2_eq [symmetric])
  show "n div 64 = n div 4096 * 64 + n div 64 mod 64"
    using div_mult_mod_eq [of "n div 64" 64] by (simp add: div_mult2_eq [symmetric])
qed simp_all

lemma unat_byte_plus: "k + m < 256 \<Longrightarrow> unat (word_of_nat k + word_of_nat m :: u8) = k + m"
  by (simp only: of_nat_add [symmetric] unat_of_nat_u8)

lemmas byte_nat = word_le_nat_alt word_less_nat_alt unat_of_nat_u8

lemma utf8_decode_encode:
  assumes "scalar_value n"
  shows "utf8_decode (utf8_encode n) = Some n"
proof -
  obtain a b c where d: "n = (a * 64 + b) * 64 + c" "b < 64" "c < 64" "n div 64 mod 64 = b" "n mod 64 = c"
    "n div 4096 = a" "n div 64 = a * 64 + b" by (rule utf8_digits)
  obtain e f g where h: "a = (e * 64 + f) * 64 + g" "f < 64" "g < 64" "a div 64 mod 64 = f" "a mod 64 = g"
    "a div 4096 = e" "a div 64 = e * 64 + f" by (rule utf8_digits)
  have le: "n \<le> 0x10FFFF" using assms by (simp add: scalar_value_def)
  have top: "n div 262144 = a div 64" using d(6) by (simp add: div_mult2_eq [symmetric])
  consider "n < 0x80" | "0x80 \<le> n" "n < 0x800" | "0x800 \<le> n" "n < 0x10000" | "0x10000 \<le> n" by linarith
  then show ?thesis
  proof cases
    case 1
    then show ?thesis by (simp add: utf8_encode_def utf8_decode_def byte_nat)
  next
    case 2
    then have "n div 64 < 32" by (simp add: less_mult_imp_div_less)
    with 2 show ?thesis
      by (simp add: utf8_encode_def utf8_decode_def byte_nat cont_byte_def Let_def del: of_nat_add)
  next
    case 3
    then have a: "a < 16" using d by simp
    have e: "utf8_encode n = map word_of_nat [224 + a, 128 + b, 128 + c]"
      using 3 d by (simp add: utf8_encode_def)
    have n: "4096 * a + b * 64 + c = n" using d(1) by simp
    show ?thesis using 3 a d(2,3) assms
      by (simp add: e utf8_decode_def byte_nat cont_byte_def Let_def n del: of_nat_add)
  next
    case 4
    have t: "a div 64 < 8" using d(1) le by (simp add: less_mult_imp_div_less)
    have e: "utf8_encode n = map word_of_nat [240 + a div 64, 128 + g, 128 + b, 128 + c]"
      using 4 d(4-6) h(5) by (simp add: utf8_encode_def top)
    have n: "262144 * (a div 64) + 4096 * g + b * 64 + c = n" using d(1) h(5) div_mult_mod_eq [of a 64] by simp
    show ?thesis using 4 t d(2,3) h(3) assms
      by (simp add: e utf8_decode_def byte_nat cont_byte_def Let_def n del: of_nat_add)
  qed
qed

subsection \<open>Escapes\<close>

text \<open>
  What a \<open>\u\<close> escape denotes: the number of bytes it takes and the scalar value, a pair of
  surrogates being one value.
\<close>

definition unicode_escape :: "bytes \<Rightarrow> (nat \<times> nat) option" where
  "unicode_escape bs = (case hex4 (take 4 (drop 2 bs)) of
      None \<Rightarrow> None
    | Some n \<Rightarrow>
        if 0xDC00 \<le> n \<and> n \<le> 0xDFFF then None
        else if 0xD800 \<le> n \<and> n < 0xDC00 then
          (if bs ! 6 = 0x5C \<and> bs ! 7 = 0x75 then
             case hex4 (take 4 (drop 8 bs)) of
               Some m \<Rightarrow> if 0xDC00 \<le> m \<and> m \<le> 0xDFFF
                         then Some (12, 0x10000 + (n - 0xD800) * 1024 + (m - 0xDC00)) else None
             | None \<Rightarrow> None
           else None)
        else Some (6, n))"

lemma hex4_lt: "hex4 cs = Some n \<Longrightarrow> n < 65536"
proof -
  assume h: "hex4 cs = Some n"
  then obtain a b c d where n: "n = ((a * 16 + b) * 16 + c) * 16 + d"
    and m: "map hexval cs = [Some a, Some b, Some c, Some d]"
    by (auto simp: hex4_def split: list.splits option.splits)
  from m have "\<exists>x. hexval x = Some a" "\<exists>x. hexval x = Some b" "\<exists>x. hexval x = Some c" "\<exists>x. hexval x = Some d"
    by (auto simp: map_eq_Cons_conv)
  then have "a < 16" "b < 16" "c < 16" "d < 16" by (auto dest: hexval_lt)
  then show ?thesis by (simp add: n)
qed

lemma unicode_escape_scalar: "unicode_escape bs = Some (k, n) \<Longrightarrow> scalar_value n \<and> (k = 6 \<or> k = 12)"
  by (auto simp: unicode_escape_def scalar_value_def dest: hex4_lt split: option.splits if_splits)

lemma utf8_encode_nonempty: "utf8_encode n \<noteq> []"
  by (simp add: utf8_encode_def)

lemma u32_of_nat_le:
  "n < 4294967296 \<Longrightarrow> (numeral k \<le> (word_of_nat n :: u32)) = (unat (numeral k :: u32) \<le> n)"
  "n < 4294967296 \<Longrightarrow> ((word_of_nat n :: u32) \<le> numeral k) = (n \<le> unat (numeral k :: u32))"
  "n < 4294967296 \<Longrightarrow> ((word_of_nat n :: u32) < numeral k) = (n < unat (numeral k :: u32))"
  "n < 4294967296 \<Longrightarrow> (numeral k < (word_of_nat n :: u32)) = (unat (numeral k :: u32) < n)"
  by (simp_all only: word_le_nat_alt word_less_nat_alt unat_of_nat_u32)

lemma surrogate_pair:
  assumes "0xD800 \<le> n" "n < 0xDC00" "0xDC00 \<le> m" "m \<le> 0xDFFF"
  shows "(push_bit 10 (word_of_nat n - 0xd800) OR (word_of_nat m - 0xdc00)) + 0x10000
    = (word_of_nat (0x10000 + (n - 0xD800) * 1024 + (m - 0xDC00)) :: u32)"
proof -
  have a: "(word_of_nat n - 0xd800 :: u32) = word_of_nat (n - 0xD800)"
    using assms by (simp add: of_nat_diff)
  have b: "(word_of_nat m - 0xdc00 :: u32) = word_of_nat (m - 0xDC00)"
    using assms by (simp add: of_nat_diff)
  have "push_bit 10 (word_of_nat (n - 0xD800)) = (word_of_nat ((n - 0xD800) * 2 ^ 10) :: u32)"
    by (simp add: push_bit_eq_mult)
  moreover have "word_of_nat ((n - 0xD800) * 2 ^ 10) OR word_of_nat (m - 0xDC00)
      = (word_of_nat ((n - 0xD800) * 2 ^ 10 + (m - 0xDC00)) :: u32)"
    by (rule or_shift_word) (use assms in simp)
  ultimately have "(push_bit 10 (word_of_nat n - 0xd800) OR (word_of_nat m - 0xdc00))
      = (word_of_nat ((n - 0xD800) * 2 ^ 10 + (m - 0xDC00)) :: u32)"
    by (simp only: a b)
  then show ?thesis by (simp add: algebra_simps)
qed

lemma high_bits_zero:
  assumes "n < 65536" "m < 65536"
  shows "drop_bit 16 (word_of_nat n OR word_of_nat m :: u32) = 0"
proof -
  have "drop_bit 16 (word_of_nat k :: u32) = 0" if "k < 65536" for k
  proof -
    have "unat (drop_bit 16 (word_of_nat k :: u32)) = k div 2 ^ 16"
      using that by (simp only: unat_shr unat_of_nat_u32)
    then show ?thesis using that by (simp add: unat_eq_zero [symmetric])
  qed
  with assms show ?thesis by simp
qed

lemma codepoint_to_utf8_all_ones: "codepoint_to_utf8 0xFFFFFFFF = []"
  by (simp add: codepoint_to_utf8_encode)

lemma or_all_ones_high: "drop_bit 16 (x OR 0xFFFFFFFF :: u32) \<noteq> 0"
  by (simp add: or_all_ones)

lemma codepoint_to_utf8_of_nat: "n \<le> 0x10FFFF \<Longrightarrow> codepoint_to_utf8 (word_of_nat n) = utf8_encode n"
  by (simp add: codepoint_to_utf8_encode unat_of_nat_u32)

lemma handle_unicode_codepoint_spec:
  assumes "src + 12 \<le> length buf"
  shows "handle_unicode_codepoint buf src
    = Some (map_option (\<lambda>(k, n). (src + k, utf8_encode n)) (unicode_escape (drop src buf)))"
proof -
  have rds: "rd buf (src + 6) = Some (buf ! (src + 6))" "rd buf (src + 6 + 1) = Some (buf ! (src + 7))"
    using assms by (simp_all add: rd_def add.commute [of src])
  have nth: "drop src buf ! 6 = buf ! (src + 6)" "drop src buf ! 7 = buf ! (src + 7)"
    using assms by simp_all
  have h1: "hex_to_u32_nocheck buf (src + 2)
      = Some (case hex4 (take 4 (drop 2 (drop src buf))) of Some n \<Rightarrow> word_of_nat n | None \<Rightarrow> 0xFFFFFFFF)"
    using hex_to_u32_nocheck_val [of "src + 2" buf] assms by (simp add: add.commute)
  have h2: "hex_to_u32_nocheck buf (src + 6 + 2)
      = Some (case hex4 (take 4 (drop 8 (drop src buf))) of Some n \<Rightarrow> word_of_nat n | None \<Rightarrow> 0xFFFFFFFF)"
    using hex_to_u32_nocheck_val [of "src + 8" buf] assms by (simp add: add.commute)
  note run = handle_unicode_codepoint_def h1 h2 Option.bind.bind_lunit Let_def rds unicode_escape_def nth
  show ?thesis
  proof (cases "hex4 (take 4 (drop 2 (drop src buf)))")
    case None
    then show ?thesis by (simp only: run option.case) (simp add: codepoint_to_utf8_all_ones)
  next
    case (Some n)
    note n = hex4_lt [OF Some]
    have le: "n < 4294967296" using n by simp
    note cmp = u32_of_nat_le [OF le]
    show ?thesis
    proof (cases "0xD800 \<le> n \<and> n < 0xDC00 \<and> buf ! (src + 6) = 0x5C \<and> buf ! (src + 7) = 0x75")
      case False
      then show ?thesis
        using n by (simp only: run Some option.case) (auto simp: cmp codepoint_to_utf8_of_nat utf8_encode_nonempty)
    next
      case sur: True
      show ?thesis
      proof (cases "hex4 (take 4 (drop 8 (drop src buf)))")
        case None
        with sur show ?thesis
          by (simp only: run \<open>hex4 (take 4 (drop 2 (drop src buf))) = Some n\<close> option.case) (simp add: cmp or_all_ones_high)
      next
        case (Some m)
        note m = hex4_lt [OF Some]
        have le2: "m < 4294967296" using m by simp
        have "0x10000 + (n - 0xD800) * 1024 + (m - 0xDC00) \<le> 0x10FFFF"
          if "0xDC00 \<le> m" "m \<le> 0xDFFF"
        proof -
          have "n - 0xD800 \<le> 1023" using sur by linarith
          then have "(n - 0xD800) * 1024 \<le> 1047552" by simp
          moreover have "m - 0xDC00 \<le> 1023" using that by linarith
          ultimately show ?thesis by linarith
        qed
        then have cp: "codepoint_to_utf8 ((push_bit 10 (word_of_nat n - 0xd800) OR (word_of_nat m - 0xdc00))
            + 0x10000) = utf8_encode (0x10000 + (n - 0xD800) * 1024 + (m - 0xDC00))"
          if "0xDC00 \<le> m" "m \<le> 0xDFFF"
          using that sur by (simp only: surrogate_pair codepoint_to_utf8_of_nat)
        note hn = \<open>hex4 (take 4 (drop 2 (drop src buf))) = Some n\<close>
        note cmp2 = cmp u32_of_nat_le [OF le2]
        show ?thesis
        proof (cases "0xDC00 \<le> m \<and> m \<le> 0xDFFF")
          case True
          with sur show ?thesis
            by (simp only: run hn Some option.case cp high_bits_zero [OF n m])
              (simp add: cmp2 utf8_encode_nonempty not_le)
        next
          case False
          with sur show ?thesis
            by (simp only: run hn Some option.case high_bits_zero [OF n m]) (auto simp add: cmp2 not_le)
        qed
      qed
    qed
  qed
qed

text \<open>
  C9: a \<open>\u\<close> escape is decoded to the UTF-8 of the scalar value it denotes. For every twelve bytes
  of input: four hexadecimal digits (either case) below or above the surrogates give that value,
  a high surrogate followed by an escaped low one gives the value of the pair, and everything else
  (a digit missing, a lone or reversed surrogate) is rejected. The bytes written read back as that
  value under UTF-8, so they are never an overlong form or a surrogate.
\<close>

theorem unicode_escape_correct:
  assumes "src + 12 \<le> length buf"
  shows "case handle_unicode_codepoint buf src of
      None \<Rightarrow> False
    | Some None \<Rightarrow> unicode_escape (drop src buf) = None
    | Some (Some (src', out)) \<Rightarrow> (\<exists>k n. unicode_escape (drop src buf) = Some (k, n) \<and> src' = src + k
        \<and> utf8_decode out = Some n)"
proof (cases "unicode_escape (drop src buf)")
  case None
  with handle_unicode_codepoint_spec [OF assms] show ?thesis by simp
next
  case (Some p)
  then obtain k n where p: "unicode_escape (drop src buf) = Some (k, n)" by (cases p) simp
  with handle_unicode_codepoint_spec [OF assms] unicode_escape_scalar [OF p] utf8_decode_encode [of n]
  show ?thesis by simp
qed

theorem unicode_escape_correct_witness:
  "(case handle_unicode_codepoint (bytes_of ''.ud83d.uDE00'') 0 of
      None \<Rightarrow> False | Some None \<Rightarrow> True | Some (Some _) \<Rightarrow> False)
   \<and> (case handle_unicode_codepoint ([0x5C] @ bytes_of ''ud83d'' @ [0x5C] @ bytes_of ''uDE00'') 0 of
      Some (Some (src', out)) \<Rightarrow> src' = 12 \<and> utf8_decode out = Some 0x1F600 | _ \<Rightarrow> False)"
  using unicode_escape_correct [of 0 "bytes_of ''.ud83d.uDE00''"]
    unicode_escape_correct [of 0 "[0x5C] @ bytes_of ''ud83d'' @ [0x5C] @ bytes_of ''uDE00''"]
  by (auto simp: unicode_escape_def hex4_def hexval_def split: option.splits)

end
