(* ===== verification/Sonic_ParseString.thy ===== *)
theory Sonic_ParseString
  imports Sonic_Unicode Sonic_Bits Sonic_Error
begin

text \<open>
  Parsing a JSON string in place: the scalar \<open>parseStringInplace\<close> of
  \<open>internal/arch/common/quote_common.h\<close> and the vector one of
  \<open>internal/arch/common/x86_common/quote.inc.h\<close> with \<open>StringBlock\<close> of \<open>internal/arch/avx2/unicode.h\<close>.
  Both read the text behind the opening quote at \<open>src\<close> and write the decoded bytes into the same
  buffer from \<open>sdst\<close>, the first \<open>src\<close>, on. A read or write outside the buffer gives \<^term>\<open>None\<close>.
  The reference \<open>str_scan\<close> reads the unmodified buffer and returns the decoded bytes.
\<close>

subsection \<open>The reference\<close>

datatype str_item = SEnd | SErr SonicError | SEmit bytes nat

definition str_next :: "bool \<Rightarrow> bytes \<Rightarrow> nat \<Rightarrow> str_item option" where
  "str_next allow buf src = do {
     c \<leftarrow> rd buf src;
     if c = 0x22 then Some SEnd
     else if \<not> allow \<and> c \<le> 0x1f then Some (SErr kParseErrorUnEscaped)
     else if c \<noteq> 0x5C then Some (SEmit [c] (src + 1))
     else do {
       e \<leftarrow> rd buf (src + 1);
       r \<leftarrow> unescape_with_padding buf src;
       Some (case r of
           None \<Rightarrow> SErr (if e = 0x75 then kParseErrorEscapedUnicode else kParseErrorEscapedFormat)
         | Some (src', out) \<Rightarrow> SEmit out src')
     }
   }"

lemma rd_drop: "src \<le> i \<Longrightarrow> rd buf i = rd (drop src buf) (i - src)"
  by (auto simp: rd_def)

lemma rd_cong_drop: "drop src b = drop src b' \<Longrightarrow> src \<le> i \<Longrightarrow> rd b i = rd b' i"
  using rd_drop [of src i b] rd_drop [of src i b'] by simp

lemma hex_to_u32_cong: "drop src b = drop src b' \<Longrightarrow> src \<le> i \<Longrightarrow> hex_to_u32_nocheck b i = hex_to_u32_nocheck b' i"
  by (simp add: hex_to_u32_nocheck_def rd_cong_drop [of src b b'] cong: if_cong)

lemma handle_unicode_cong: "drop src b = drop src b' \<Longrightarrow> handle_unicode_codepoint b src = handle_unicode_codepoint b' src"
  by (simp add: handle_unicode_codepoint_def hex_to_u32_cong [of src b b'] rd_cong_drop [of src b b'] cong: if_cong)

lemma unescape_cong: "drop src b = drop src b' \<Longrightarrow> unescape_with_padding b src = unescape_with_padding b' src"
  by (simp add: unescape_with_padding_def handle_unicode_cong [of src b b'] rd_cong_drop [of src b b'] cong: if_cong)

lemma str_next_cong: "drop src b = drop src b' \<Longrightarrow> str_next allow b src = str_next allow b' src"
  by (simp add: str_next_def unescape_cong [of src b b'] rd_cong_drop [of src b b'] cong: if_cong)

lemma length_utf8_encode: "length (utf8_encode n) \<le> 4"
  by (simp add: utf8_encode_def)

lemma length_codepoint: "length (codepoint_to_utf8 cp) \<le> 4"
  by (simp add: codepoint_to_utf8_def)

lemma handle_unicode_advance:
  "handle_unicode_codepoint buf src = Some (Some (src', out)) \<Longrightarrow>
    (src' = src + 6 \<or> src' = src + 12) \<and> length out \<le> 4 \<and> src + 5 < length buf"
  using length_codepoint
  by (auto simp: handle_unicode_codepoint_def hex_to_u32_nocheck_def bind_eq_Some_conv Let_def rd_eq_Some_iff
      split: if_splits)

lemma unescape_advance:
  "unescape_with_padding buf src = Some (Some (src', out)) \<Longrightarrow> src + 2 \<le> src' \<and> length out + 1 \<le> src' - src"
  using handle_unicode_advance [of buf src src' out]
  by (auto simp: unescape_with_padding_def bind_eq_Some_conv split: if_splits)

lemma str_next_advance:
  "str_next allow buf src = Some (SEmit out src') \<Longrightarrow> src < src' \<and> length out \<le> src' - src \<and> src < length buf"
  using unescape_advance [of buf src src' out]
  by (auto simp: str_next_def bind_eq_Some_conv rd_eq_Some_iff split: if_splits option.splits)

type_synonym str_result = "SonicError + bytes \<times> nat"

definition prep :: "bytes \<Rightarrow> str_result option \<Rightarrow> str_result option" where
  "prep out r = map_option (map_sum id (\<lambda>(s, p). (out @ s, p))) r"

function str_scan :: "bool \<Rightarrow> bytes \<Rightarrow> nat \<Rightarrow> str_result option" where
  "str_scan allow buf src = (case str_next allow buf src of
      None \<Rightarrow> None
    | Some SEnd \<Rightarrow> Some (Inr ([], src + 1))
    | Some (SErr e) \<Rightarrow> Some (Inl e)
    | Some (SEmit out src') \<Rightarrow> prep out (str_scan allow buf src'))"
  by auto
termination
  by (relation "measure (\<lambda>(allow, buf, src). length buf - src)") (auto dest: str_next_advance)

declare str_scan.simps [simp del]

lemma prep_simps [simp]:
  "prep out None = None" "prep out (Some (Inl e)) = Some (Inl e)"
  "prep out (Some (Inr (s, p))) = Some (Inr (out @ s, p))"
  by (simp_all add: prep_def)

lemma prep_prep [simp]: "prep a (prep b r) = prep (a @ b) r"
  by (cases r rule: option.exhaust; simp; rename_tac x; case_tac x; auto)

lemma prep_Nil [simp]: "prep [] r = r"
  by (cases r rule: option.exhaust; simp; rename_tac x; case_tac x; auto)

subsection \<open>The scalar parser\<close>

record str_state =
  ss_buf :: bytes
  ss_src :: nat
  ss_dst :: nat

text \<open>The outcome: the buffer, the final source position, and the error or the final \<open>dst\<close>.\<close>

type_synonym str_outcome = "bytes \<times> nat \<times> (SonicError + nat)"

definition scalar_step :: "bool \<Rightarrow> str_state \<Rightarrow> (str_outcome + str_state) option" where
  "scalar_step allow s = (let buf = ss_buf s; src = ss_src s; dst = ss_dst s in do {
     c \<leftarrow> rd buf src;
     if c = 0x22 then do {
       buf \<leftarrow> wr buf dst [0];
       Some (Inl (buf, src + 1, Inr dst))
     }
     else if \<not> allow \<and> c \<le> 0x1f then Some (Inl (buf, src, Inl kParseErrorUnEscaped))
     else if c \<noteq> 0x5C then do {
       buf \<leftarrow> wr buf dst [c];
       Some (Inr \<lparr>ss_buf = buf, ss_src = src + 1, ss_dst = dst + 1\<rparr>)
     }
     else do {
       escape_char \<leftarrow> rd buf (src + 1);
       if escape_char = 0x75 then do {
         r \<leftarrow> handle_unicode_codepoint buf src;
         case r of
           None \<Rightarrow> Some (Inl (buf, src, Inl kParseErrorEscapedUnicode))
         | Some (src', out) \<Rightarrow> do {
             buf \<leftarrow> wr buf dst out;
             Some (Inr \<lparr>ss_buf = buf, ss_src = src', ss_dst = dst + length out\<rparr>)
           }
       }
       else do {
         m \<leftarrow> rd kEscapedMap (unat escape_char);
         buf \<leftarrow> wr buf dst [m];
         if m = 0 then Some (Inl (buf, src, Inl kParseErrorEscapedFormat))
         else Some (Inr \<lparr>ss_buf = buf, ss_src = src + 2, ss_dst = dst + 1\<rparr>)
       }
     }
   })"

lemma scalar_step_advance:
  "scalar_step allow s = Some (Inr s') \<Longrightarrow> length (ss_buf s') = length (ss_buf s)
     \<and> ss_src s < ss_src s' \<and> ss_src s < length (ss_buf s)"
  by (auto simp: scalar_step_def Let_def bind_eq_Some_conv rd_eq_Some_iff
      dest!: wr_length handle_unicode_advance split: if_splits option.splits)

function scalar_run :: "bool \<Rightarrow> str_state \<Rightarrow> str_outcome option" where
  "scalar_run allow s = (case scalar_step allow s of
      None \<Rightarrow> None | Some (Inl r) \<Rightarrow> Some r | Some (Inr s') \<Rightarrow> scalar_run allow s')"
  by auto
termination
  by (relation "measure (\<lambda>(allow, s). length (ss_buf s) - ss_src s)") (auto dest!: scalar_step_advance)

declare scalar_run.simps [simp del]

text \<open>
  \<open>parseStringInplace\<close>: the buffer and source position afterwards, and the error or the length of
  the string, which starts at the first \<open>src\<close>.
\<close>

definition parseStringInplace_scalar :: "bool \<Rightarrow> bytes \<Rightarrow> nat \<Rightarrow> str_outcome option" where
  "parseStringInplace_scalar allow buf src =
     map_option (\<lambda>(b, p, r). (b, p, map_sum id (\<lambda>dst. dst - src) r))
       (scalar_run allow \<lparr>ss_buf = buf, ss_src = src, ss_dst = src\<rparr>)"

subsection \<open>The parsers against the reference\<close>

lemma wr_drop: "wr b i xs = Some b' \<Longrightarrow> i + length xs \<le> j \<Longrightarrow> drop j b' = drop j b"
  by (auto simp: wr_def split: if_splits)

lemma unescape_room:
  "unescape_with_padding buf src = Some (Some (src', out)) \<Longrightarrow> src + length out \<le> length buf"
  using handle_unicode_advance [of buf src src' out]
  by (auto simp: unescape_with_padding_def bind_eq_Some_conv rd_eq_Some_iff split: if_splits)

text \<open>
  After some steps from \<open>sdst\<close> in buffer \<open>buf0\<close>: the bytes \<open>out\<close> stand at \<open>sdst\<close>, the text still to
  be read is untouched.
\<close>

definition str_rel :: "bytes \<Rightarrow> nat \<Rightarrow> str_state \<Rightarrow> bytes \<Rightarrow> bool" where
  "str_rel buf0 sdst s out \<longleftrightarrow> length (ss_buf s) = length buf0 \<and> sdst + length out = ss_dst s
     \<and> ss_dst s \<le> ss_src s \<and> take (ss_dst s) (ss_buf s) = take sdst buf0 @ out
     \<and> drop (ss_src s) (ss_buf s) = drop (ss_src s) buf0"

lemma str_rel_emit:
  assumes "str_rel buf0 sdst s out" and "wr (ss_buf s) (ss_dst s) o' = Some b"
    and "ss_src s \<le> src'" and "length o' \<le> src' - ss_src s"
  shows "str_rel buf0 sdst \<lparr>ss_buf = b, ss_src = src', ss_dst = ss_dst s + length o'\<rparr> (out @ o')"
proof -
  have "drop src' b = drop src' (ss_buf s)"
    by (rule wr_drop [OF assms(2)]) (use assms in \<open>auto simp: str_rel_def\<close>)
  also have "\<dots> = drop src' buf0"
  proof -
    have "drop src' x = drop (src' - ss_src s) (drop (ss_src s) x)" for x :: bytes
      using assms(3) by simp
    with assms(1) show ?thesis by (metis str_rel_def)
  qed
  finally show ?thesis
    using assms wr_take [OF assms(2)] wr_length [OF assms(2)] by (auto simp: str_rel_def)
qed

lemma scalar_step_next:
  assumes rel: "str_rel buf0 sdst s out"
  shows "case str_next allow buf0 (ss_src s) of
      None \<Rightarrow> scalar_step allow s = None
    | Some SEnd \<Rightarrow> \<exists>b. scalar_step allow s = Some (Inl (b, ss_src s + 1, Inr (ss_dst s)))
        \<and> wr (ss_buf s) (ss_dst s) [0] = Some b
    | Some (SErr e) \<Rightarrow> \<exists>b. scalar_step allow s = Some (Inl (b, ss_src s, Inl e)) \<and> length b = length buf0
    | Some (SEmit o' src') \<Rightarrow> \<exists>b. wr (ss_buf s) (ss_dst s) o' = Some b
        \<and> scalar_step allow s = Some (Inr \<lparr>ss_buf = b, ss_src = src', ss_dst = ss_dst s + length o'\<rparr>)"
proof -
  have dr: "drop (ss_src s) buf0 = drop (ss_src s) (ss_buf s)" and len: "length (ss_buf s) = length buf0"
    and le: "ss_dst s \<le> ss_src s"
    using rel by (simp_all add: str_rel_def)
  have n: "str_next allow buf0 (ss_src s) = str_next allow (ss_buf s) (ss_src s)"
    by (rule str_next_cong [OF dr])
  have room: "\<exists>b. wr (ss_buf s) (ss_dst s) xs = Some b" if "ss_src s + length xs \<le> length (ss_buf s)" for xs
    using that le by (intro wr_ex) simp
  have "case str_next allow (ss_buf s) (ss_src s) of
      None \<Rightarrow> scalar_step allow s = None
    | Some SEnd \<Rightarrow> \<exists>b. scalar_step allow s = Some (Inl (b, ss_src s + 1, Inr (ss_dst s)))
        \<and> wr (ss_buf s) (ss_dst s) [0] = Some b
    | Some (SErr e) \<Rightarrow> \<exists>b. scalar_step allow s = Some (Inl (b, ss_src s, Inl e)) \<and> length b = length buf0
    | Some (SEmit o' src') \<Rightarrow> \<exists>b. wr (ss_buf s) (ss_dst s) o' = Some b
        \<and> scalar_step allow s = Some (Inr \<lparr>ss_buf = b, ss_src = src', ss_dst = ss_dst s + length o'\<rparr>)"
  proof (cases "rd (ss_buf s) (ss_src s)")
    case None
    then show ?thesis by (simp add: str_next_def scalar_step_def Let_def)
  next
    case (Some c)
    then have lt: "ss_src s < length (ss_buf s)" by (simp add: rd_eq_Some_iff)
    have b1: "\<exists>b. wr (ss_buf s) (ss_dst s) [x] = Some b" for x
      by (rule room) (use lt in simp)
    show ?thesis
    proof (cases "c = 0x22 \<or> (\<not> allow \<and> c \<le> 0x1f) \<or> c \<noteq> 0x5C")
      case True
      with Some b1 [of c] b1 [of 0] len show ?thesis by (auto simp: str_next_def scalar_step_def Let_def)
    next
      case False
      then have c: "c = 0x5C" "\<not> (\<not> allow \<and> c \<le> 0x1f)" by auto
      show ?thesis
      proof (cases "rd (ss_buf s) (ss_src s + 1)")
        case None
        with Some c show ?thesis by (simp add: str_next_def scalar_step_def Let_def)
      next
        case e: (Some e)
        show ?thesis
        proof (cases "unescape_with_padding (ss_buf s) (ss_src s)")
          case None
          with Some c e show ?thesis
            by (auto simp: str_next_def scalar_step_def Let_def unescape_with_padding_def bind_eq_None_conv
                split: if_splits)
        next
          case r: (Some r)
          show ?thesis
          proof (cases r)
            case None
            with Some c e r b1 [of 0] len show ?thesis
              by (auto simp: str_next_def scalar_step_def Let_def unescape_with_padding_def bind_eq_Some_conv
                  wr_length split: if_splits)
          next
            case (Some p)
            obtain src' o' where p: "p = (src', o')" by (cases p)
            obtain b where b: "wr (ss_buf s) (ss_dst s) o' = Some b"
              using room [of o'] unescape_room [of "ss_buf s" "ss_src s" src' o'] r Some p by auto
            show ?thesis
              using \<open>rd (ss_buf s) (ss_src s) = Some c\<close> c e r Some p b
              by (auto simp: str_next_def scalar_step_def Let_def unescape_with_padding_def bind_eq_Some_conv
                  split: if_splits)
          qed
        qed
      qed
    qed
  qed
  then show ?thesis by (simp only: n)
qed

text \<open>
  What a parser that has decoded \<open>out\<close> into \<open>buf0\<close> from \<open>sdst\<close> must return: the string, terminated,
  with the bytes before it and from the new source position on unchanged.
\<close>

definition str_written :: "bytes \<Rightarrow> nat \<Rightarrow> bytes \<Rightarrow> nat \<Rightarrow> bytes \<Rightarrow> bool" where
  "str_written buf0 sdst t p b \<longleftrightarrow> length b = length buf0 \<and> sdst + length t < p
     \<and> take (sdst + length t + 1) b = take sdst buf0 @ t @ [0] \<and> drop p b = drop p buf0"

lemma str_rel_end:
  assumes "str_rel buf0 sdst s out" and "wr (ss_buf s) (ss_dst s) [0] = Some b"
  shows "str_written buf0 sdst out (ss_src s + 1) b"
proof -
  have "str_rel buf0 sdst \<lparr>ss_buf = b, ss_src = ss_src s + 1, ss_dst = ss_dst s + length [0 :: u8]\<rparr> (out @ [0])"
    by (rule str_rel_emit [OF assms]) simp_all
  then show ?thesis using assms(1) by (auto simp: str_rel_def str_written_def)
qed

lemma scalar_run_spec:
  assumes "str_rel buf0 sdst s out"
  shows "case str_scan allow buf0 (ss_src s) of
      None \<Rightarrow> scalar_run allow s = None
    | Some (Inl e) \<Rightarrow> \<exists>b q. scalar_run allow s = Some (b, q, Inl e) \<and> length b = length buf0
    | Some (Inr (t, p)) \<Rightarrow> \<exists>b. scalar_run allow s = Some (b, p, Inr (ss_dst s + length t))
        \<and> str_written buf0 sdst (out @ t) p b"
  using assms
proof (induction "length buf0 - ss_src s" arbitrary: s out rule: less_induct)
  case less
  note nx = scalar_step_next [OF less.prems, of allow]
  show ?case
  proof (cases "str_next allow buf0 (ss_src s)")
    case None
    with nx show ?thesis by (simp add: str_scan.simps [of allow buf0] scalar_run.simps [of allow s])
  next
    case (Some it)
    show ?thesis
    proof (cases it)
      case SEnd
      with Some nx str_rel_end [OF less.prems] show ?thesis
        by (auto simp: str_scan.simps [of allow buf0] scalar_run.simps [of allow s])
    next
      case (SErr e)
      with Some nx show ?thesis
        by (auto simp: str_scan.simps [of allow buf0] scalar_run.simps [of allow s])
    next
      case (SEmit o' src')
      with Some nx obtain b where b: "wr (ss_buf s) (ss_dst s) o' = Some b"
        "scalar_step allow s = Some (Inr \<lparr>ss_buf = b, ss_src = src', ss_dst = ss_dst s + length o'\<rparr>)"
        by auto
      let ?s' = "\<lparr>ss_buf = b, ss_src = src', ss_dst = ss_dst s + length o'\<rparr>"
      have adv: "ss_src s < src'" "length o' \<le> src' - ss_src s" "ss_src s < length buf0"
        using str_next_advance [of allow buf0 "ss_src s" o' src'] Some SEmit by auto
      have rel: "str_rel buf0 sdst ?s' (out @ o')"
        by (rule str_rel_emit [OF less.prems b(1)]) (use adv in simp_all)
      have "length buf0 - ss_src ?s' < length buf0 - ss_src s" using adv by simp
      from less.hyps [OF this rel] show ?thesis
        using Some SEmit b(2)
        by (cases "str_scan allow buf0 src'" rule: option.exhaust)
          (auto simp: str_scan.simps [of allow buf0 "ss_src s"] scalar_run.simps [of allow s] add.assoc
            split: sum.splits)
    qed
  qed
qed

lemma str_rel_start: "src \<le> length buf \<Longrightarrow> str_rel buf src \<lparr>ss_buf = buf, ss_src = src, ss_dst = src\<rparr> []"
  by (simp add: str_rel_def)

lemma parseStringInplace_scalar_spec:
  assumes "src \<le> length buf"
  shows "case str_scan allow buf src of
      None \<Rightarrow> parseStringInplace_scalar allow buf src = None
    | Some (Inl e) \<Rightarrow> \<exists>b q. parseStringInplace_scalar allow buf src = Some (b, q, Inl e)
    | Some (Inr (t, p)) \<Rightarrow> \<exists>b. parseStringInplace_scalar allow buf src = Some (b, p, Inr (length t))
        \<and> str_written buf src t p b"
  using scalar_run_spec [OF str_rel_start [OF assms], of allow]
  by (auto simp: parseStringInplace_scalar_def split: option.splits sum.splits)

subsection \<open>The vector parser\<close>

text \<open>
  \<open>StringBlock\<close>: the masks of one vector of bytes. For the 16-byte instruction set the masks have
  16 bits, in the same 32-bit variables.
\<close>

record StringBlock =
  bs_bits :: u32
  quote_bits :: u32
  unescaped_bits :: u32

definition StringBlock_of :: "bytes \<Rightarrow> StringBlock" where
  "StringBlock_of v = \<lparr>bs_bits = to_bitmask (map (\<lambda>c. c = 0x5C) v),
     quote_bits = to_bitmask (map (\<lambda>c. c = 0x22) v),
     unescaped_bits = to_bitmask (map (\<lambda>c. c \<le> 0x1f) v)\<rparr>"

definition StringBlock_Find :: "isa \<Rightarrow> bytes \<Rightarrow> nat \<Rightarrow> StringBlock option" where
  "StringBlock_Find i buf src =
     (if src + VEC_LEN i \<le> length buf then Some (StringBlock_of (take (VEC_LEN i) (drop src buf))) else None)"

definition HasUnescaped :: "StringBlock \<Rightarrow> bool" where
  "HasUnescaped b \<longleftrightarrow> (quote_bits b - 1) AND unescaped_bits b \<noteq> 0"

definition HasQuoteFirst :: "bool \<Rightarrow> StringBlock \<Rightarrow> bool" where
  "HasQuoteFirst allow b \<longleftrightarrow> (if allow then (bs_bits b - 1) AND quote_bits b \<noteq> 0
     else (bs_bits b - 1) AND quote_bits b \<noteq> 0 \<and> \<not> HasUnescaped b)"

definition HasBackslash :: "StringBlock \<Rightarrow> bool" where
  "HasBackslash b \<longleftrightarrow> (quote_bits b - 1) AND bs_bits b \<noteq> 0"

definition QuoteIndex :: "StringBlock \<Rightarrow> nat" where "QuoteIndex b = TrailingZeroes (quote_bits b)"
definition BsIndex :: "StringBlock \<Rightarrow> nat" where "BsIndex b = TrailingZeroes (bs_bits b)"

text \<open>The byte loop that moves text up to a given character.\<close>

function copy_until :: "u8 \<Rightarrow> bytes \<Rightarrow> nat \<Rightarrow> nat \<Rightarrow> (bytes \<times> nat \<times> nat) option" where
  "copy_until stop buf src dst =
     (case rd buf src of
        None \<Rightarrow> None
      | Some c \<Rightarrow> if c = stop then Some (buf, src, dst)
          else (case wr buf dst [c] of None \<Rightarrow> None | Some buf' \<Rightarrow> copy_until stop buf' (src + 1) (dst + 1)))"
  by auto
termination
  by (relation "measure (\<lambda>(stop, buf, src, dst). length buf - src)") (auto simp: rd_eq_Some_iff dest!: wr_length)

declare copy_until.simps [simp del]

text \<open>The labels of the source: the block search, \<open>cont\<close> and \<open>find_and_move\<close>.\<close>

datatype vec_pc = VFind | VCont | VMove

type_synonym vec_state = "vec_pc \<times> str_state"

definition vec_find :: "isa \<Rightarrow> bool \<Rightarrow> str_state \<Rightarrow> (str_outcome + vec_state) option" where
  "vec_find i allow s = (let buf = ss_buf s; src = ss_src s in do {
     block \<leftarrow> StringBlock_Find i buf src;
     if HasQuoteFirst allow block then do {
       let src = src + QuoteIndex block;
       buf \<leftarrow> wr buf src [0];
       Some (Inl (buf, src + 1, Inr src))
     }
     else if \<not> allow \<and> HasUnescaped block then Some (Inl (buf, src, Inl kParseErrorUnEscaped))
     else if \<not> HasBackslash block then Some (Inr (VFind, s\<lparr>ss_src := src + VEC_LEN i\<rparr>))
     else let src = src + BsIndex block in Some (Inr (VCont, s\<lparr>ss_src := src, ss_dst := src\<rparr>))
   })"

definition vec_cont :: "str_state \<Rightarrow> (str_outcome + vec_state) option" where
  "vec_cont s = (let buf = ss_buf s; src = ss_src s; dst = ss_dst s in do {
     escape_char \<leftarrow> rd buf (src + 1);
     step \<leftarrow> (if escape_char = 0x75 then do {
         r \<leftarrow> handle_unicode_codepoint buf src;
         case r of
           None \<Rightarrow> Some (Inl (buf, src + 6, Inl kParseErrorEscapedUnicode))
         | Some (src', out) \<Rightarrow> do {
             buf \<leftarrow> wr buf dst out;
             Some (Inr \<lparr>ss_buf = buf, ss_src = src', ss_dst = dst + length out\<rparr>)
           }
       }
       else do {
         m \<leftarrow> rd kEscapedMap (unat escape_char);
         buf \<leftarrow> wr buf dst [m];
         if m = 0 then Some (Inl (buf, src, Inl kParseErrorEscapedFormat))
         else Some (Inr \<lparr>ss_buf = buf, ss_src = src + 2, ss_dst = dst + 1\<rparr>)
       });
     case step of
       Inl r \<Rightarrow> Some (Inl r)
     | Inr s' \<Rightarrow> do {
         c \<leftarrow> rd (ss_buf s') (ss_src s');
         Some (Inr (if c = 0x5C then VCont else VMove, s'))
       }
   })"

definition vec_move :: "isa \<Rightarrow> bool \<Rightarrow> str_state \<Rightarrow> (str_outcome + vec_state) option" where
  "vec_move i allow s = (let buf = ss_buf s; src = ss_src s; dst = ss_dst s in do {
     block \<leftarrow> StringBlock_Find i buf src;
     if HasQuoteFirst allow block then do {
       (buf, src, dst) \<leftarrow> copy_until 0x22 buf src dst;
       buf \<leftarrow> wr buf dst [0];
       Some (Inl (buf, src + 1, Inr dst))
     }
     else if \<not> allow \<and> HasUnescaped block then Some (Inl (buf, src, Inl kParseErrorUnEscaped))
     else if \<not> HasBackslash block then do {
       buf' \<leftarrow> wr buf dst (take (VEC_LEN i) (drop src buf));
       Some (Inr (VMove, \<lparr>ss_buf = buf', ss_src = src + VEC_LEN i, ss_dst = dst + VEC_LEN i\<rparr>))
     }
     else do {
       (buf, src, dst) \<leftarrow> copy_until 0x5C buf src dst;
       Some (Inr (VCont, \<lparr>ss_buf = buf, ss_src = src, ss_dst = dst\<rparr>))
     }
   })"

definition vec_step :: "isa \<Rightarrow> bool \<Rightarrow> vec_state \<Rightarrow> (str_outcome + vec_state) option" where
  "vec_step i allow = (\<lambda>(pc, s). case pc of
     VFind \<Rightarrow> vec_find i allow s | VCont \<Rightarrow> vec_cont s | VMove \<Rightarrow> vec_move i allow s)"

definition vec_measure :: "vec_state \<Rightarrow> nat" where
  "vec_measure = (\<lambda>(pc, s). 2 * (length (ss_buf s) - ss_src s) + (if pc = VCont then 0 else 1))"

lemma copy_until_len:
  "copy_until stop buf src dst = Some (buf', src', dst') \<Longrightarrow> length buf' = length buf \<and> src \<le> src' \<and> src' < length buf"
proof (induction stop buf src dst rule: copy_until.induct)
  case (1 stop buf src dst)
  obtain c where c: "rd buf src = Some c"
    using 1(2) by (cases "rd buf src") (auto simp: copy_until.simps [of stop buf])
  show ?case
  proof (cases "c = stop")
    case True
    with 1(2) c show ?thesis by (auto simp: copy_until.simps [of stop buf] rd_eq_Some_iff)
  next
    case False
    obtain b where b: "wr buf dst [c] = Some b"
      using 1(2) c False by (cases "wr buf dst [c]") (auto simp: copy_until.simps [of stop buf])
    have "copy_until stop b (src + 1) (dst + 1) = Some (buf', src', dst')"
      using 1(2) c False b by (simp add: copy_until.simps [of stop buf])
    from 1(1) [OF c False b this] wr_length [OF b] show ?thesis by auto
  qed
qed

lemma vec_find_measure: "vec_find i allow s = Some (Inr st) \<Longrightarrow> vec_measure st < vec_measure (VFind, s)"
  using VEC_LEN_bounds(1) [of i]
  by (auto simp: vec_find_def Let_def vec_measure_def StringBlock_Find_def bind_eq_Some_conv
      simp del: VEC_LEN_bounds split: if_splits)

lemma vec_cont_shape:
  "vec_cont s = Some (Inr (pc, s')) \<Longrightarrow> length (ss_buf s') = length (ss_buf s) \<and> ss_src s < ss_src s'
     \<and> ss_src s' < length (ss_buf s)"
  by (auto simp: vec_cont_def Let_def bind_eq_Some_conv rd_eq_Some_iff
      dest!: wr_length handle_unicode_advance split: if_splits option.splits)

lemma vec_cont_measure: "vec_cont s = Some (Inr st) \<Longrightarrow> vec_measure st < vec_measure (VCont, s)"
proof -
  assume h: "vec_cont s = Some (Inr st)"
  obtain pc s' where st: "st = (pc, s')" by force
  from vec_cont_shape [OF h [unfolded st]]
  have "Suc (2 * (length (ss_buf s') - ss_src s')) < 2 * (length (ss_buf s) - ss_src s)" by arith
  then show ?thesis by (auto simp: vec_measure_def st)
qed

lemma vec_move_measure: "vec_move i allow s = Some (Inr st) \<Longrightarrow> vec_measure st < vec_measure (VMove, s)"
  using VEC_LEN_bounds(1) [of i]
  by (auto simp: vec_move_def Let_def vec_measure_def StringBlock_Find_def bind_eq_Some_conv
      simp del: VEC_LEN_bounds dest!: copy_until_len wr_length split: if_splits)

lemma vec_step_measure: "vec_step i allow st = Some (Inr st') \<Longrightarrow> vec_measure st' < vec_measure st"
  using vec_find_measure vec_cont_measure vec_move_measure
  by (cases st; cases "fst st") (auto simp: vec_step_def)

function vec_run :: "isa \<Rightarrow> bool \<Rightarrow> vec_state \<Rightarrow> str_outcome option" where
  "vec_run i allow st = (case vec_step i allow st of
      None \<Rightarrow> None | Some (Inl r) \<Rightarrow> Some r | Some (Inr st') \<Rightarrow> vec_run i allow st')"
  by auto
termination
  by (relation "measure (\<lambda>(i, allow, st). vec_measure st)") (auto dest: vec_step_measure)

declare vec_run.simps [simp del]

definition parseStringInplace_vec :: "isa \<Rightarrow> bool \<Rightarrow> bytes \<Rightarrow> nat \<Rightarrow> str_outcome option" where
  "parseStringInplace_vec i allow buf src =
     map_option (\<lambda>(b, p, r). (b, p, map_sum id (\<lambda>dst. dst - src) r))
       (vec_run i allow (VFind, \<lparr>ss_buf = buf, ss_src = src, ss_dst = src\<rparr>))"

subsection \<open>What the masks say\<close>

definition plain_byte :: "bool \<Rightarrow> u8 \<Rightarrow> bool" where
  "plain_byte allow c \<longleftrightarrow> c \<noteq> 0x22 \<and> c \<noteq> 0x5C \<and> (allow \<or> \<not> c \<le> 0x1f)"

lemma byte_mask:
  assumes "length v \<le> 32"
  shows "bit (to_bitmask (map P v) :: u32) n \<longleftrightarrow> n < length v \<and> P (v ! n)"
  using assms by (auto simp: bit_to_bitmask)

lemma mask_before:
  assumes "length v \<le> 32" and "\<And>c. \<not> (P c \<and> Q c)"
  shows "((to_bitmask (map P v) :: u32) - 1) AND to_bitmask (map Q v) \<noteq> 0
    \<longleftrightarrow> (\<exists>i < length v. Q (v ! i) \<and> (\<forall>j \<le> i. \<not> P (v ! j)))"
proof -
  have "(to_bitmask (map P v) :: u32) AND to_bitmask (map Q v) = 0"
    by (rule bit_word_eqI) (use assms in \<open>auto simp: bit_and_iff byte_mask\<close>)
  from minus_1_and [OF this] show ?thesis
    using assms(1) by (auto simp: byte_mask) (metis le_less_trans)+
qed

lemma mask_first_index:
  assumes "length v \<le> 32" and "i < length v" and "P (v ! i)"
  shows "TrailingZeroes (to_bitmask (map P v) :: u32) \<le> i"
    and "P (v ! TrailingZeroes (to_bitmask (map P v) :: u32))"
    and "j < TrailingZeroes (to_bitmask (map P v) :: u32) \<Longrightarrow> \<not> P (v ! j)"
proof -
  let ?m = "to_bitmask (map P v) :: u32"
  have bi: "bit ?m i" using assms by (simp add: byte_mask)
  then have nz: "?m \<noteq> 0" by auto
  note tz = TrailingZeroes_nonzero [OF nz]
  show le: "TrailingZeroes ?m \<le> i" using tz(3) bi not_less by blast
  show "P (v ! TrailingZeroes ?m)" using tz(2) assms(1) by (simp add: byte_mask)
  show "\<not> P (v ! j)" if "j < TrailingZeroes ?m"
    using tz(3) [OF that] that le assms by (auto simp: byte_mask)
qed

lemma small_not_quote: "(c :: u8) \<le> 0x1f \<Longrightarrow> c \<noteq> 0x22 \<and> c \<noteq> 0x5C"
  by (auto simp: word_le_nat_alt)

lemma block_masks:
  assumes "length v \<le> 32" and "b = StringBlock_of v"
  shows "HasUnescaped b \<longleftrightarrow> (\<exists>i < length v. v ! i \<le> 0x1f \<and> (\<forall>j \<le> i. v ! j \<noteq> 0x22))"
    and "HasBackslash b \<longleftrightarrow> (\<exists>i < length v. v ! i = 0x5C \<and> (\<forall>j \<le> i. v ! j \<noteq> 0x22))"
    and "HasQuoteFirst allow b \<longleftrightarrow> (\<exists>i < length v. v ! i = 0x22 \<and> (\<forall>j \<le> i. v ! j \<noteq> 0x5C))
       \<and> (allow \<or> \<not> HasUnescaped b)"
proof -
  note mb = mask_before [OF assms(1)]
  have q: "quote_bits b = to_bitmask (map (\<lambda>c. c = 0x22) v)" "bs_bits b = to_bitmask (map (\<lambda>c. c = 0x5C) v)"
    "unescaped_bits b = to_bitmask (map (\<lambda>c. c \<le> 0x1f) v)"
    by (simp_all add: assms(2) StringBlock_of_def)
  show "HasUnescaped b \<longleftrightarrow> (\<exists>i < length v. v ! i \<le> 0x1f \<and> (\<forall>j \<le> i. v ! j \<noteq> 0x22))"
    unfolding HasUnescaped_def q by (rule mb) (auto dest: small_not_quote)
  show "HasBackslash b \<longleftrightarrow> (\<exists>i < length v. v ! i = 0x5C \<and> (\<forall>j \<le> i. v ! j \<noteq> 0x22))"
    unfolding HasBackslash_def q by (rule mb) simp
  have "(bs_bits b - 1) AND quote_bits b \<noteq> 0
      \<longleftrightarrow> (\<exists>i < length v. v ! i = 0x22 \<and> (\<forall>j \<le> i. v ! j \<noteq> 0x5C))"
    unfolding q by (rule mb) simp
  then show "HasQuoteFirst allow b \<longleftrightarrow> (\<exists>i < length v. v ! i = 0x22 \<and> (\<forall>j \<le> i. v ! j \<noteq> 0x5C))
       \<and> (allow \<or> \<not> HasUnescaped b)"
    unfolding HasQuoteFirst_def by simp
qed

text \<open>The four outcomes of a block.\<close>

lemma block_cases:
  assumes "length v \<le> 32" and "b = StringBlock_of v"
  shows "HasQuoteFirst allow b \<Longrightarrow> QuoteIndex b < length v \<and> v ! QuoteIndex b = 0x22
      \<and> (\<forall>j < QuoteIndex b. plain_byte allow (v ! j))"
    and "\<not> (\<not> allow \<and> HasUnescaped b) \<Longrightarrow> \<not> HasQuoteFirst allow b \<Longrightarrow> \<not> HasBackslash b
      \<Longrightarrow> \<forall>j < length v. plain_byte allow (v ! j)"
    and "\<not> (\<not> allow \<and> HasUnescaped b) \<Longrightarrow> HasBackslash b
      \<Longrightarrow> BsIndex b < length v \<and> v ! BsIndex b = 0x5C \<and> (\<forall>j < BsIndex b. plain_byte allow (v ! j))"
proof -
  note m = block_masks [OF assms]
  have q: "quote_bits b = to_bitmask (map (\<lambda>c. c = 0x22) v)" "bs_bits b = to_bitmask (map (\<lambda>c. c = 0x5C) v)"
    by (simp_all add: assms(2) StringBlock_of_def)
  note first = mask_first_index [OF assms(1)]
  { assume "HasQuoteFirst allow b"
    with m(3) obtain i where i: "i < length v" "v ! i = 0x22" "\<forall>j \<le> i. v ! j \<noteq> 0x5C"
      "allow \<or> \<not> HasUnescaped b" by blast
    note f = first [of i "\<lambda>c. c = 0x22", folded q QuoteIndex_def, OF i(1,2)]
    have "plain_byte allow (v ! j)" if j: "j < QuoteIndex b" for j
    proof -
      have ji: "j < i" using j f(1) by simp
      have "\<forall>l \<le> j. v ! l \<noteq> 0x22" using f(3) j by auto
      then have "HasUnescaped b" if "v ! j \<le> 0x1f"
        unfolding m(1) using that ji i(1) by (intro exI [of _ j]) simp
      with i(4) have "allow \<or> \<not> v ! j \<le> 0x1f" by blast
      then show ?thesis using f(3) [OF j] i(3) ji by (simp add: plain_byte_def)
    qed
    with f i show "QuoteIndex b < length v \<and> v ! QuoteIndex b = 0x22
      \<and> (\<forall>j < QuoteIndex b. plain_byte allow (v ! j))" by auto }
  { assume u: "\<not> (\<not> allow \<and> HasUnescaped b)" and nq: "\<not> HasQuoteFirst allow b" and nb: "\<not> HasBackslash b"
    have noq: "v ! j \<noteq> 0x22" if "j < length v" for j
    proof
      assume vj: "v ! j = 0x22"
      note f = first [of j "\<lambda>c. c = 0x22", OF that vj]
      let ?k = "TrailingZeroes (to_bitmask (map (\<lambda>c. c = 0x22) v) :: u32)"
      have "?k < length v" using f(1) that by simp
      then obtain l where l: "l \<le> ?k" "v ! l = 0x5C" using nq u f(2) m(3) by blast
      then have "l < ?k" using f(2) by (cases "l = ?k") auto
      with f(3) have "\<forall>i \<le> l. v ! i \<noteq> 0x22" by auto
      then have "HasBackslash b"
        unfolding m(2) using l \<open>?k < length v\<close> by (intro exI [of _ l]) simp
      with nb show False by blast
    qed
    then have "\<forall>i < length v. \<forall>j \<le> i. v ! j \<noteq> 0x22" by auto
    with nb u m(1,2) noq show "\<forall>j < length v. plain_byte allow (v ! j)"
      unfolding plain_byte_def by blast }
  { assume u: "\<not> (\<not> allow \<and> HasUnescaped b)" and hb: "HasBackslash b"
    then obtain i where i: "i < length v" "v ! i = 0x5C" "\<forall>j \<le> i. v ! j \<noteq> 0x22" using m(2) by blast
    note f = first [of i "\<lambda>c. c = 0x5C", folded q BsIndex_def, OF i(1,2)]
    have "plain_byte allow (v ! j)" if j: "j < BsIndex b" for j
    proof -
      have ji: "j < i" using j f(1) by simp
      then have "\<forall>l \<le> j. v ! l \<noteq> 0x22" using i(3) by auto
      then have "HasUnescaped b" if "v ! j \<le> 0x1f"
        unfolding m(1) using that ji i(1) by (intro exI [of _ j]) simp
      with u have "allow \<or> \<not> v ! j \<le> 0x1f" by blast
      with f(3) [OF j] i(3) ji show ?thesis by (simp add: plain_byte_def)
    qed
    with f i show "BsIndex b < length v \<and> v ! BsIndex b = 0x5C \<and> (\<forall>j < BsIndex b. plain_byte allow (v ! j))"
      by auto }
qed

lemma str_scan_plain:
  assumes "\<And>j. j < n \<Longrightarrow> src + j < length buf \<and> plain_byte allow (buf ! (src + j))"
  shows "str_scan allow buf src = prep (take n (drop src buf)) (str_scan allow buf (src + n))"
  using assms
proof (induction n arbitrary: src)
  case (Suc n)
  have c: "src < length buf" "plain_byte allow (buf ! src)" using Suc.prems [of 0] by simp_all
  then have "str_next allow buf src = Some (SEmit [buf ! src] (src + 1))"
    by (auto simp: str_next_def rd_def plain_byte_def)
  moreover have "str_scan allow buf (src + 1) = prep (take n (drop (src + 1) buf)) (str_scan allow buf (src + 1 + n))"
  proof (rule Suc.IH)
    fix j assume "j < n"
    then show "src + 1 + j < length buf \<and> plain_byte allow (buf ! (src + 1 + j))" using Suc.prems [of "Suc j"] by simp
  qed
  moreover have "take (Suc n) (drop src buf) = buf ! src # take n (drop (src + 1) buf)"
    using c(1) by (subst Cons_nth_drop_Suc [symmetric]) simp_all
  ultimately show ?case by (simp add: str_scan.simps [of allow buf src])
qed simp

subsection \<open>The padding stops every scan\<close>

text \<open>
  The parser puts \<open>x"x\<close> behind the text. \<open>e\<close> is the position of that quote; enough bytes follow it
  for a vector load and for the bytes of an escape.
\<close>

definition str_guard :: "bytes \<Rightarrow> nat \<Rightarrow> bool" where
  "str_guard buf e \<longleftrightarrow> 0 < e \<and> buf ! (e - 1) = 0x78 \<and> buf ! e = 0x22 \<and> e + 34 \<le> length buf"

definition esc_byte :: "u8 \<Rightarrow> bool" where
  "esc_byte c \<longleftrightarrow> hexval c \<noteq> None \<or> c = 0x5C \<or> c = 0x75"

lemma esc_byte_not: "esc_byte c \<Longrightarrow> c \<noteq> 0x22 \<and> c \<noteq> 0x78 \<and> \<not> c \<le> 0x1f"
  by (auto simp: esc_byte_def hexval_def word_le_nat_alt split: if_splits)

lemma hex4_digits:
  assumes "hex4 (take 4 (drop k bs)) = Some n" and "k + 4 \<le> length bs" and "k \<le> j" and "j < k + 4"
  shows "hexval (bs ! j) \<noteq> None"
proof -
  have "j = k \<or> j = k + 1 \<or> j = k + 2 \<or> j = k + 3" using assms(3,4) by linarith
  with assms(1) show ?thesis
    unfolding take4_drop [OF assms(2)] by (auto simp: hex4_def split: option.splits)
qed

lemma unicode_escape_bytes:
  assumes "unicode_escape bs = Some (k, n)" and "12 \<le> length bs" and "2 \<le> j" and "j < k"
  shows "esc_byte (bs ! j)"
proof -
  have h1: "\<exists>m. hex4 (take 4 (drop 2 bs)) = Some m" and k: "k = 6 \<or> k = 12"
    and h2: "k = 12 \<Longrightarrow> bs ! 6 = 0x5C \<and> bs ! 7 = 0x75 \<and> (\<exists>m. hex4 (take 4 (drop 8 bs)) = Some m)"
    using assms(1) by (auto simp: unicode_escape_def split: option.splits if_splits)
  consider "j < 6" | "j = 6" | "j = 7" | "8 \<le> j" by linarith
  then show ?thesis
  proof cases
    case 1
    with h1 hex4_digits [of 2 bs _ j] assms(2,3) show ?thesis by (auto simp: esc_byte_def)
  next
    case 4
    with k assms(4) have "k = 12" "j < 12" by auto
    with h2 hex4_digits [of 8 bs _ j] assms(2) 4 show ?thesis by (auto simp: esc_byte_def)
  qed (use h2 k assms(4) in \<open>auto simp: esc_byte_def\<close>)
qed

text \<open>An escape that is accepted consists of bytes that are neither control characters nor quotes.\<close>

lemma kEscapedMap_nth: "kEscapedMap ! unat (c :: u8) \<noteq> 0 \<longleftrightarrow> unat c \<in> {34, 47, 92, 98, 102, 110, 114, 116}"
proof -
  have m: "n < 256 \<Longrightarrow> kEscapedMap ! n \<noteq> 0 \<longleftrightarrow> n \<in> {34, 47, 92, 98, 102, 110, 114, 116}" for n
    by (auto simp: kEscapedMap_def nth_append nth_Cons' split: if_splits)
  show ?thesis by (rule m [OF unat_u8_lt])
qed

lemma length_kEscapedMap [simp]: "length kEscapedMap = 256"
  by (simp add: kEscapedMap_def)

lemma rd_kEscapedMap: "rd kEscapedMap (unat (c :: u8)) = Some (kEscapedMap ! unat c)"
  using unat_u8_lt [of c] by (simp add: rd_def)

lemma unescape_guard:
  assumes g: "str_guard buf e" and lt: "src < e" and bs: "buf ! src = 0x5C"
  shows "\<exists>r. unescape_with_padding buf src = Some r \<and> (case r of None \<Rightarrow> True
     | Some (src', out) \<Rightarrow> src' \<le> e \<and> (\<forall>j. src \<le> j \<longrightarrow> j < src' \<longrightarrow> \<not> buf ! j \<le> 0x1f))"
proof -
  have ne: "src \<noteq> e - 1" and x: "buf ! (e - 1) = 0x78" and len: "e + 34 \<le> length buf"
    using g bs by (auto simp: str_guard_def)
  then have src1: "src + 1 < e" using lt by simp
  let ?c = "buf ! (src + 1)"
  have rc: "rd buf (src + 1) = Some ?c" using src1 len by (simp add: rd_def)
  show ?thesis
  proof (cases "?c = 0x75")
    case True
    then have ne2: "src + 1 \<noteq> e - 1" using x by auto
    have room: "src + 12 \<le> length buf" using src1 len by simp
    have u: "unescape_with_padding buf src
      = Some (map_option (\<lambda>(k, n). (src + k, utf8_encode n)) (unicode_escape (drop src buf)))"
      using rc True handle_unicode_codepoint_spec [OF room] by (simp add: unescape_with_padding_def)
    show ?thesis
    proof (cases "unicode_escape (drop src buf)")
      case None
      with u show ?thesis by simp
    next
      case (Some kn)
      obtain k n where kn: "unicode_escape (drop src buf) = Some (k, n)" using Some by (cases kn) simp
      have k: "k \<le> 12" using unicode_escape_scalar [OF kn] by auto
      have eb: "esc_byte (buf ! j)" if "src + 2 \<le> j" "j < src + k" for j
        using unicode_escape_bytes [OF kn, of "j - src"] that room by (simp add: nth_drop)
      have "src + k \<le> e"
      proof (rule ccontr)
        assume "\<not> src + k \<le> e"
        then have "esc_byte (buf ! (e - 1))" using src1 ne2 by (intro eb) auto
        with x esc_byte_not show False by metis
      qed
      moreover have "\<not> buf ! j \<le> 0x1f" if j: "src \<le> j" "j < src + k" for j
      proof -
        consider "j = src" | "j = src + 1" | "src + 2 \<le> j" using j(1) by linarith
        then show ?thesis
        proof cases
          case 3
          with eb j(2) esc_byte_not show ?thesis by blast
        qed (use bs True in \<open>simp_all add: word_le_nat_alt\<close>)
      qed
      ultimately show ?thesis using u kn by simp
    qed
  next
    case False
    have u: "unescape_with_padding buf src
      = Some (if kEscapedMap ! unat ?c = 0 then None else Some (src + 2, [kEscapedMap ! unat ?c]))"
      using rc False by (simp add: unescape_with_padding_def rd_kEscapedMap)
    show ?thesis
    proof (cases "kEscapedMap ! unat ?c = 0")
      case True
      with u show ?thesis by simp
    next
      case nz: False
      have "\<not> buf ! j \<le> 0x1f" if "src \<le> j" "j < src + 2" for j
      proof -
        have "j = src \<or> j = src + 1" using that by linarith
        with bs nz kEscapedMap_nth [of ?c] show ?thesis by (auto simp: word_le_nat_alt)
      qed
      with u nz src1 show ?thesis by simp
    qed
  qed
qed

text \<open>Before the padding's quote a step always has a result, and never jumps over that quote.\<close>

lemma guard_next:
  assumes g: "str_guard buf e" and le: "src \<le> e"
  shows "\<exists>it. str_next allow buf src = Some it \<and> (\<forall>out src'. it = SEmit out src' \<longrightarrow>
     src' \<le> e \<and> (\<not> allow \<longrightarrow> (\<forall>j. src \<le> j \<longrightarrow> j < src' \<longrightarrow> \<not> buf ! j \<le> 0x1f)))"
proof -
  have rc: "rd buf src = Some (buf ! src)" using g le by (simp add: rd_def str_guard_def)
  show ?thesis
  proof (cases "buf ! src = 0x22 \<or> (\<not> allow \<and> buf ! src \<le> 0x1f) \<or> buf ! src \<noteq> 0x5C")
    case True
    moreover have "buf ! src \<noteq> 0x22 \<Longrightarrow> src < e" using g le by (cases "src = e") (auto simp: str_guard_def)
    ultimately show ?thesis using rc by (auto simp: str_next_def less_Suc_eq)
  next
    case False
    then have bs: "buf ! src = 0x5C" and lt: "src < e"
      using g le by (auto simp: str_guard_def order_le_less)
    have rc1: "rd buf (src + 1) = Some (buf ! (src + 1))" using g lt by (simp add: rd_def str_guard_def)
    obtain r where r: "unescape_with_padding buf src = Some r" "case r of None \<Rightarrow> True
     | Some (src', out) \<Rightarrow> src' \<le> e \<and> (\<forall>j. src \<le> j \<longrightarrow> j < src' \<longrightarrow> \<not> buf ! j \<le> 0x1f)"
      using unescape_guard [OF g lt bs] by blast
    show ?thesis using rc rc1 bs r False by (auto simp: str_next_def split: option.splits)
  qed
qed

text \<open>With the padding in place a scan ends with a result, and a bare control character dooms it.\<close>

lemma str_scan_cong: "drop src b = drop src b' \<Longrightarrow> str_scan allow b src = str_scan allow b' src"
proof (induction "length b - src" arbitrary: src rule: less_induct)
  case less
  note nx = str_next_cong [OF less.prems, of allow]
  have "str_scan allow b src' = str_scan allow b' src'" if "str_next allow b src = Some (SEmit out src')" for out src'
  proof (rule less.hyps)
    have lt: "src < src'" "src < length b" using str_next_advance [OF that] by simp_all
    then show "length b - src' < length b - src" by simp
    have "drop src' b = drop (src' - src) (drop src b)" "drop src' b' = drop (src' - src) (drop src b')"
      using lt by simp_all
    then show "drop src' b = drop src' b'" by (simp only: less.prems)
  qed
  then show ?case
    using nx by (auto simp: str_scan.simps [of allow b src] str_scan.simps [of allow b' src] split: option.splits str_item.splits)
qed

lemma guard_scan:
  assumes g: "str_guard buf e" and le: "src \<le> e"
  shows "str_scan allow buf src \<noteq> None"
  using le
proof (induction "e - src" arbitrary: src rule: less_induct)
  case less
  obtain it where it: "str_next allow buf src = Some it" "\<And>out src'. it = SEmit out src' \<Longrightarrow> src' \<le> e"
    using guard_next [OF g less.prems, of allow] by blast
  show ?case
  proof (cases it)
    case (SEmit out src')
    have "src < src'" using str_next_advance [of allow buf src out src'] it SEmit by simp
    then have "str_scan allow buf src' \<noteq> None"
      using it(2) [OF SEmit] by (intro less.hyps) simp_all
    then show ?thesis using it(1) SEmit by (auto simp: str_scan.simps [of allow buf src] prep_def)
  qed (use it in \<open>simp_all add: str_scan.simps [of allow buf src]\<close>)
qed

lemma map_sum_Inr: "map_sum f g x = Inr y \<longleftrightarrow> (\<exists>z. x = Inr z \<and> y = g z)"
  by (cases x) auto

lemma guard_scan_end:
  assumes g: "str_guard buf e" and le: "src \<le> e" and r: "str_scan allow buf src = Some (Inr (t, p))"
  shows "src < p \<and> p \<le> e + 1"
  using le r
proof (induction "e - src" arbitrary: src t rule: less_induct)
  case less
  obtain it where it: "str_next allow buf src = Some it" "\<And>out src'. it = SEmit out src' \<Longrightarrow> src' \<le> e"
    using guard_next [OF g less.prems(1), of allow] by blast
  show ?case
  proof (cases it)
    case (SEmit out src')
    then have s': "src < src'" "src' \<le> e"
      using it SEmit str_next_advance [of allow buf src out src'] by simp_all
    obtain t' where "str_scan allow buf src' = Some (Inr (t', p))"
      using less.prems(2) it(1) SEmit by (auto simp: str_scan.simps [of allow buf src] prep_def map_sum_Inr)
    moreover have "e - src' < e - src" using s' by linarith
    ultimately have "src' < p \<and> p \<le> e + 1" using s'(2) by (intro less.hyps)
    with s'(1) show ?thesis by simp
  qed (use it less.prems in \<open>auto simp: str_scan.simps [of allow buf src]\<close>)
qed

lemma ctrl_dooms:
  assumes g: "str_guard buf e" and "src \<le> e" and "src \<le> p" and ctl: "buf ! p \<le> 0x1f"
    and nq: "\<And>j. src \<le> j \<Longrightarrow> j \<le> p \<Longrightarrow> buf ! j \<noteq> 0x22"
  shows "\<exists>er. str_scan False buf src = Some (Inl er)"
  using assms(2,3) nq
proof (induction "e - src" arbitrary: src rule: less_induct)
  case less
  obtain it where it: "str_next False buf src = Some it" "\<And>out src'. it = SEmit out src' \<Longrightarrow>
     src' \<le> e \<and> (\<forall>j. src \<le> j \<longrightarrow> j < src' \<longrightarrow> \<not> buf ! j \<le> 0x1f)"
    using guard_next [OF g less.prems(1), of False] by blast
  show ?case
  proof (cases it)
    case SEnd
    then have "buf ! src = 0x22"
      using it(1) by (auto simp: str_next_def bind_eq_Some_conv rd_eq_Some_iff split: if_splits option.splits)
    with less.prems show ?thesis by simp
  next
    case (SErr er)
    then show ?thesis using it(1) by (simp add: str_scan.simps [of False buf src])
  next
    case (SEmit out src')
    have adv: "src < src'" using str_next_advance [of False buf src out src'] it SEmit by simp
    have "src' \<le> p" using it(2) [OF SEmit] ctl less.prems(2) by (meson not_le)
    moreover from this have "\<exists>er. str_scan False buf src' = Some (Inl er)"
      using it(2) [OF SEmit] adv less.prems by (intro less.hyps) auto
    ultimately show ?thesis using it(1) SEmit by (auto simp: str_scan.simps [of False buf src])
  qed
qed

subsection \<open>The vector parser against the reference\<close>

text \<open>
  The invariant at a label: in \<open>find\<close> nothing has been moved yet and \<open>dst\<close> lags behind; at \<open>cont\<close>
  the current byte is a backslash.
\<close>

definition vec_rel :: "bytes \<Rightarrow> nat \<Rightarrow> vec_state \<Rightarrow> bytes \<Rightarrow> bool" where
  "vec_rel buf0 sdst = (\<lambda>(pc, s) out. case pc of
     VFind \<Rightarrow> str_rel buf0 sdst (s\<lparr>ss_dst := ss_src s\<rparr>) out
   | VCont \<Rightarrow> str_rel buf0 sdst s out \<and> rd buf0 (ss_src s) = Some 0x5C
   | VMove \<Rightarrow> str_rel buf0 sdst s out)"

definition vec_dst :: "vec_state \<Rightarrow> nat" where
  "vec_dst = (\<lambda>(pc, s). if pc = VFind then ss_src s else ss_dst s)"

text \<open>What one step at a label must do, given what the rest of the text means.\<close>

definition step_agrees :: "bytes \<Rightarrow> nat \<Rightarrow> bool \<Rightarrow> nat \<Rightarrow> nat \<Rightarrow> nat \<Rightarrow> bytes \<Rightarrow> (str_outcome + vec_state) option \<Rightarrow> bool"
where
  "step_agrees buf0 e allow sdst src dst out r = (case r of
     None \<Rightarrow> False
   | Some (Inl (b, p, Inl _)) \<Rightarrow> \<exists>er. str_scan allow buf0 src = Some (Inl er)
   | Some (Inl (b, p, Inr d)) \<Rightarrow> \<exists>t. str_scan allow buf0 src = Some (Inr (t, p)) \<and> d = dst + length t
       \<and> str_written buf0 sdst (out @ t) p b
   | Some (Inr st') \<Rightarrow> \<exists>o'. vec_rel buf0 sdst st' (out @ o') \<and> vec_dst st' = dst + length o'
       \<and> ss_src (snd st') \<le> e \<and> str_scan allow buf0 src = prep o' (str_scan allow buf0 (ss_src (snd st'))))"

lemma rel_rd: "str_rel buf0 sdst s out \<Longrightarrow> ss_src s \<le> j \<Longrightarrow> rd (ss_buf s) j = rd buf0 j"
  by (rule rd_cong_drop [of "ss_src s"]) (simp_all add: str_rel_def)

lemma rel_block:
  "str_rel buf0 sdst s out \<Longrightarrow> StringBlock_Find i (ss_buf s) (ss_src s) = StringBlock_Find i buf0 (ss_src s)"
  by (simp add: StringBlock_Find_def str_rel_def)

lemma copy_until_rel:
  assumes "str_rel buf0 sdst s out" and "ss_src s + n < length buf0" and "buf0 ! (ss_src s + n) = stop"
    and "\<And>j. j < n \<Longrightarrow> buf0 ! (ss_src s + j) \<noteq> stop"
  shows "\<exists>b. copy_until stop (ss_buf s) (ss_src s) (ss_dst s) = Some (b, ss_src s + n, ss_dst s + n)
     \<and> str_rel buf0 sdst \<lparr>ss_buf = b, ss_src = ss_src s + n, ss_dst = ss_dst s + n\<rparr>
         (out @ take n (drop (ss_src s) buf0))"
  using assms
proof (induction n arbitrary: s out)
  case 0
  have "rd (ss_buf s) (ss_src s) = Some stop"
    using rel_rd [OF 0(1), of "ss_src s"] 0 by (simp add: rd_def)
  then show ?case using 0(1) by (simp add: copy_until.simps [of stop] str_rel_def)
next
  case (Suc n)
  let ?c = "buf0 ! ss_src s"
  have rc: "rd (ss_buf s) (ss_src s) = Some ?c" and ne: "?c \<noteq> stop"
    using rel_rd [OF Suc.prems(1), of "ss_src s"] Suc.prems(2) Suc.prems(4) [of 0] by (simp_all add: rd_def)
  obtain b where b: "wr (ss_buf s) (ss_dst s) [?c] = Some b"
    using wr_ex [of "ss_dst s" "[?c]" "ss_buf s"] Suc.prems(1,2) by (auto simp: str_rel_def)
  let ?s = "\<lparr>ss_buf = b, ss_src = ss_src s + 1, ss_dst = ss_dst s + length [?c]\<rparr>"
  have rel: "str_rel buf0 sdst ?s (out @ [?c])"
    by (rule str_rel_emit [OF Suc.prems(1) b]) simp_all
  have tk: "take (Suc n) (drop (ss_src s) buf0) = ?c # take n (drop (ss_src s + 1) buf0)"
    using Suc.prems(2) by (subst Cons_nth_drop_Suc [symmetric]) simp_all
  have "\<exists>b'. copy_until stop (ss_buf ?s) (ss_src ?s) (ss_dst ?s) = Some (b', ss_src ?s + n, ss_dst ?s + n)
     \<and> str_rel buf0 sdst \<lparr>ss_buf = b', ss_src = ss_src ?s + n, ss_dst = ss_dst ?s + n\<rparr>
         ((out @ [?c]) @ take n (drop (ss_src ?s) buf0))"
  proof (rule Suc.IH [OF rel])
    fix j assume "j < n"
    then show "buf0 ! (ss_src ?s + j) \<noteq> stop" using Suc.prems(4) [of "Suc j"] by simp
  qed (use Suc.prems in simp_all)
  then show ?case using rc ne b tk by (simp add: copy_until.simps [of stop "ss_buf s"])
qed

text \<open>What a block tells about the text, put in terms of positions of the buffer.\<close>

lemma block_at:
  assumes g: "str_guard buf e" and le: "src \<le> e"
  shows "\<exists>blk. StringBlock_Find i buf src = Some blk
     \<and> (HasQuoteFirst allow blk \<longrightarrow> src + QuoteIndex blk \<le> e \<and> buf ! (src + QuoteIndex blk) = 0x22
          \<and> (\<forall>j < QuoteIndex blk. plain_byte allow (buf ! (src + j))))
     \<and> (\<not> allow \<and> HasUnescaped blk \<longrightarrow> (\<exists>er. str_scan allow buf src = Some (Inl er)))
     \<and> (\<not> (\<not> allow \<and> HasUnescaped blk) \<and> \<not> HasQuoteFirst allow blk \<and> \<not> HasBackslash blk \<longrightarrow>
          src + VEC_LEN i \<le> e \<and> (\<forall>j < VEC_LEN i. plain_byte allow (buf ! (src + j))))
     \<and> (\<not> (\<not> allow \<and> HasUnescaped blk) \<and> HasBackslash blk \<longrightarrow> src + BsIndex blk \<le> e \<and> buf ! (src + BsIndex blk) = 0x5C
          \<and> (\<forall>j < BsIndex blk. plain_byte allow (buf ! (src + j))))"
proof -
  have room: "src + VEC_LEN i \<le> length buf" and q: "buf ! e = 0x22"
    using g le VEC_LEN_bounds(2) [of i] by (simp_all add: str_guard_def del: VEC_LEN_bounds)
  let ?v = "take (VEC_LEN i) (drop src buf)"
  let ?b = "StringBlock_of ?v"
  have len: "length ?v = VEC_LEN i" "length ?v \<le> 32" using room by simp_all
  have nth: "j < VEC_LEN i \<Longrightarrow> ?v ! j = buf ! (src + j)" for j using room by simp
  have dn: "drop src buf ! j = buf ! (src + j)" for j using room by simp
  note bc = block_cases [OF len(2) refl, of allow, unfolded len(1)]
  have bound: "src + n \<le> e" if "\<forall>j < n. plain_byte allow (buf ! (src + j))" for n
  proof (rule ccontr)
    assume "\<not> src + n \<le> e"
    then have "plain_byte allow (buf ! (src + (e - src)))" using that [rule_format, of "e - src"] le by simp
    with q le show False by (simp add: plain_byte_def)
  qed
  have b1: "src + QuoteIndex ?b \<le> e \<and> buf ! (src + QuoteIndex ?b) = 0x22
      \<and> (\<forall>j < QuoteIndex ?b. plain_byte allow (buf ! (src + j)))" if "HasQuoteFirst allow ?b"
    using bc(1) [OF that] bound [of "QuoteIndex ?b"] by (auto simp: nth dn)
  have b2: "\<exists>er. str_scan allow buf src = Some (Inl er)" if h: "\<not> allow \<and> HasUnescaped ?b"
  proof -
    obtain k where k: "k < VEC_LEN i" "buf ! (src + k) \<le> 0x1f" "\<forall>j \<le> k. buf ! (src + j) \<noteq> 0x22"
      using h block_masks(1) [OF len(2) refl] by (auto simp: len nth dn)
    have nq: "buf ! j \<noteq> 0x22" if "src \<le> j" "j \<le> src + k" for j
      using k(3) that by (metis add_le_cancel_left le_add_diff_inverse)
    show ?thesis using ctrl_dooms [OF g le _ k(2) nq] h by simp
  qed
  have b3: "src + VEC_LEN i \<le> e \<and> (\<forall>j < VEC_LEN i. plain_byte allow (buf ! (src + j)))"
    if "\<not> (\<not> allow \<and> HasUnescaped ?b)" "\<not> HasQuoteFirst allow ?b" "\<not> HasBackslash ?b"
    using bc(2) [OF that] bound [of "VEC_LEN i"] by (auto simp: nth dn)
  have b4: "src + BsIndex ?b \<le> e \<and> buf ! (src + BsIndex ?b) = 0x5C
      \<and> (\<forall>j < BsIndex ?b. plain_byte allow (buf ! (src + j)))"
    if "\<not> (\<not> allow \<and> HasUnescaped ?b)" "HasBackslash ?b"
    using bc(3) [OF that] bound [of "BsIndex ?b"] by (auto simp: nth dn)
  show ?thesis
    using room b1 b2 b3 b4 by (intro exI [of _ ?b]) (simp add: StringBlock_Find_def)
qed


lemma str_scan_quote: "rd buf src = Some 0x22 \<Longrightarrow> str_scan allow buf src = Some (Inr ([], src + 1))"
  by (simp add: str_scan.simps [of allow buf src] str_next_def)

lemma str_scan_to:
  assumes "src + n < length buf" and "\<And>j. j < n \<Longrightarrow> plain_byte allow (buf ! (src + j))"
  shows "str_scan allow buf src = prep (take n (drop src buf)) (str_scan allow buf (src + n))"
  using assms by (intro str_scan_plain) simp

text \<open>Passing over plain text without moving it.\<close>

lemma rel_skip:
  assumes "str_rel buf0 sdst (s\<lparr>ss_dst := ss_src s\<rparr>) out" and "ss_src s + n \<le> length buf0"
  shows "str_rel buf0 sdst (s\<lparr>ss_src := ss_src s + n, ss_dst := ss_src s + n\<rparr>) (out @ take n (drop (ss_src s) buf0))"
proof -
  have d: "drop (ss_src s) (ss_buf s) = drop (ss_src s) buf0" and l: "length (ss_buf s) = length buf0"
    using assms(1) by (simp_all add: str_rel_def)
  then have "drop (ss_src s + n) (ss_buf s) = drop (ss_src s + n) buf0" by (metis add.commute drop_drop)
  with assms d l show ?thesis by (auto simp: str_rel_def take_add)
qed

lemma vec_find_agrees:
  assumes g: "str_guard buf0 e" and le: "ss_src s \<le> e" and rel: "vec_rel buf0 sdst (VFind, s) out"
  shows "step_agrees buf0 e allow sdst (ss_src s) (vec_dst (VFind, s)) out (vec_find i allow s)"
proof -
  let ?src = "ss_src s"
  have r: "str_rel buf0 sdst (s\<lparr>ss_dst := ?src\<rparr>) out" using rel by (simp add: vec_rel_def)
  have e: "e < length buf0" using g by (simp add: str_guard_def)
  obtain blk where blk: "StringBlock_Find i buf0 ?src = Some blk"
    and q: "HasQuoteFirst allow blk \<Longrightarrow> ?src + QuoteIndex blk \<le> e \<and> buf0 ! (?src + QuoteIndex blk) = 0x22
          \<and> (\<forall>j < QuoteIndex blk. plain_byte allow (buf0 ! (?src + j)))"
    and u: "\<not> allow \<and> HasUnescaped blk \<Longrightarrow> \<exists>er. str_scan allow buf0 ?src = Some (Inl er)"
    and n: "\<not> (\<not> allow \<and> HasUnescaped blk) \<Longrightarrow> \<not> HasQuoteFirst allow blk \<Longrightarrow> \<not> HasBackslash blk \<Longrightarrow>
          ?src + VEC_LEN i \<le> e \<and> (\<forall>j < VEC_LEN i. plain_byte allow (buf0 ! (?src + j)))"
    and b: "\<not> (\<not> allow \<and> HasUnescaped blk) \<Longrightarrow> HasBackslash blk \<Longrightarrow> ?src + BsIndex blk \<le> e
          \<and> buf0 ! (?src + BsIndex blk) = 0x5C \<and> (\<forall>j < BsIndex blk. plain_byte allow (buf0 ! (?src + j)))"
    using block_at [OF g le, of i allow] by blast
  have blk': "StringBlock_Find i (ss_buf s) ?src = Some blk" using rel_block [OF r, of i] blk by simp
  have skip: "str_rel buf0 sdst (s\<lparr>ss_src := ?src + m, ss_dst := ?src + m\<rparr>) (out @ take m (drop ?src buf0))
      \<and> str_scan allow buf0 ?src = prep (take m (drop ?src buf0)) (str_scan allow buf0 (?src + m))"
    if "?src + m \<le> e" "\<forall>j < m. plain_byte allow (buf0 ! (?src + j))" for m
    using rel_skip [OF r, of m] str_scan_to [of ?src m buf0 allow] that e by simp
  have tk: "length (take m (drop ?src buf0)) = m" if "?src + m \<le> e" for m
    using that e by simp
  consider (quote) "HasQuoteFirst allow blk" | (ctl) "\<not> HasQuoteFirst allow blk" "\<not> allow \<and> HasUnescaped blk"
    | (none) "\<not> (\<not> allow \<and> HasUnescaped blk)" "\<not> HasQuoteFirst allow blk" "\<not> HasBackslash blk"
    | (bs) "\<not> (\<not> allow \<and> HasUnescaped blk)" "\<not> HasQuoteFirst allow blk" "HasBackslash blk"
    by blast
  then show ?thesis
  proof cases
    case quote
    let ?m = "QuoteIndex blk"
    note q = q [OF quote]
    note sk = skip [of ?m, OF conjunct1 [OF q] conjunct2 [OF conjunct2 [OF q]]]
    let ?s' = "s\<lparr>ss_src := ?src + ?m, ss_dst := ?src + ?m\<rparr>"
    obtain bb where bb: "wr (ss_buf s) (?src + ?m) [0] = Some bb"
      using wr_ex [of "?src + ?m" "[0]" "ss_buf s"] q e r by (auto simp: str_rel_def)
    have "str_written buf0 sdst (out @ take ?m (drop ?src buf0)) (?src + ?m + 1) bb"
      using str_rel_end [OF conjunct1 [OF sk], of bb] bb by simp
    moreover have "str_scan allow buf0 (?src + ?m) = Some (Inr ([], ?src + ?m + 1))"
      using q e by (intro str_scan_quote) (simp add: rd_def)
    ultimately show ?thesis
      using blk' quote bb sk tk [of ?m] q
      by (simp add: step_agrees_def vec_find_def Let_def vec_dst_def)
  next
    case ctl
    with blk' u show ?thesis by (simp add: step_agrees_def vec_find_def)
  next
    case none
    note nn = n [OF none]
    show ?thesis
      using blk' none skip [of "VEC_LEN i"] nn tk [of "VEC_LEN i"]
      by (auto simp: step_agrees_def vec_find_def Let_def vec_rel_def vec_dst_def
          intro!: exI [of _ "take (VEC_LEN i) (drop ?src buf0)"])
  next
    case bs
    note bb = b [OF bs(1,3)]
    show ?thesis
      using blk' bs skip [of "BsIndex blk"] bb tk [of "BsIndex blk"] e
      by (auto simp: step_agrees_def vec_find_def Let_def vec_rel_def vec_dst_def rd_def
          intro!: exI [of _ "take (BsIndex blk) (drop ?src buf0)"])
  qed
qed

lemma vec_cont_scalar:
  assumes "rd (ss_buf s) (ss_src s) = Some 0x5C"
  shows "case scalar_step allow s of
      None \<Rightarrow> vec_cont s = None
    | Some (Inl (b, p, r)) \<Rightarrow> \<exists>p'. vec_cont s = Some (Inl (b, p', r)) \<and> (\<exists>er. r = Inl er)
    | Some (Inr s') \<Rightarrow> vec_cont s = map_option (\<lambda>c. Inr (if c = 0x5C then VCont else VMove, s'))
        (rd (ss_buf s') (ss_src s'))"
proof -
  have n: "\<not> (0x5C :: u8) \<le> 0x1f" by (simp add: word_le_nat_alt)
  show ?thesis
    using assms n
    by (auto simp: scalar_step_def vec_cont_def Let_def bind_eq_None_conv map_option_bind comp_def
        split: option.splits Option.bind_splits sum.splits if_splits)
qed

lemma vec_cont_agrees:
  assumes g: "str_guard buf0 e" and le: "ss_src s \<le> e" and rel: "vec_rel buf0 sdst (VCont, s) out"
  shows "step_agrees buf0 e allow sdst (ss_src s) (vec_dst (VCont, s)) out (vec_cont s)"
proof -
  have r: "str_rel buf0 sdst s out" and c0: "rd buf0 (ss_src s) = Some 0x5C"
    using rel by (simp_all add: vec_rel_def)
  have c: "rd (ss_buf s) (ss_src s) = Some 0x5C" using rel_rd [OF r, of "ss_src s"] c0 by simp
  note nx = scalar_step_next [OF r, of allow] and vc = vec_cont_scalar [OF c, of allow]
  obtain it where it: "str_next allow buf0 (ss_src s) = Some it" "\<And>o' src'. it = SEmit o' src' \<Longrightarrow> src' \<le> e"
    using guard_next [OF g le, of allow] by blast
  show ?thesis
  proof (cases it)
    case SEnd
    with it(1) c0 show ?thesis
      by (auto simp: str_next_def bind_eq_Some_conv split: if_splits option.splits)
  next
    case (SErr er)
    with nx it(1) vc show ?thesis
      by (auto simp: step_agrees_def str_scan.simps [of allow buf0 "ss_src s"])
  next
    case (SEmit o' src')
    then obtain b where b: "wr (ss_buf s) (ss_dst s) o' = Some b"
      "scalar_step allow s = Some (Inr \<lparr>ss_buf = b, ss_src = src', ss_dst = ss_dst s + length o'\<rparr>)"
      using nx it(1) by auto
    let ?s' = "\<lparr>ss_buf = b, ss_src = src', ss_dst = ss_dst s + length o'\<rparr>"
    have adv: "ss_src s < src'" "length o' \<le> src' - ss_src s"
      using str_next_advance [of allow buf0 "ss_src s" o' src'] it SEmit by auto
    have rel': "str_rel buf0 sdst ?s' (out @ o')"
      by (rule str_rel_emit [OF r b(1)]) (use adv in simp_all)
    have src': "src' \<le> e" using it(2) SEmit by simp
    then have rc: "rd buf0 src' = Some (buf0 ! src')" using g by (simp add: rd_def str_guard_def)
    have "rd b src' = rd buf0 src'" using rel_rd [OF rel', of src'] by simp
    then show ?thesis
      using vc b(2) rc rel' src' it(1) SEmit
      by (auto simp: step_agrees_def vec_rel_def vec_dst_def str_scan.simps [of allow buf0 "ss_src s"]
          intro!: exI [of _ o'])
  qed
qed


lemma first_nonplain: "\<forall>j < m. plain_byte allow (buf ! (src + j)) \<Longrightarrow> stop = 0x22 \<or> stop = 0x5C
    \<Longrightarrow> j < m \<Longrightarrow> buf ! (src + j) \<noteq> stop"
  by (auto simp: plain_byte_def)

lemma vec_move_agrees:
  assumes g: "str_guard buf0 e" and le: "ss_src s \<le> e" and rel: "vec_rel buf0 sdst (VMove, s) out"
  shows "step_agrees buf0 e allow sdst (ss_src s) (vec_dst (VMove, s)) out (vec_move i allow s)"
proof -
  let ?src = "ss_src s"
  have r: "str_rel buf0 sdst s out" using rel by (simp add: vec_rel_def)
  have e: "e < length buf0" using g by (simp add: str_guard_def)
  obtain blk where blk: "StringBlock_Find i buf0 ?src = Some blk"
    and q: "HasQuoteFirst allow blk \<Longrightarrow> ?src + QuoteIndex blk \<le> e \<and> buf0 ! (?src + QuoteIndex blk) = 0x22
          \<and> (\<forall>j < QuoteIndex blk. plain_byte allow (buf0 ! (?src + j)))"
    and u: "\<not> allow \<and> HasUnescaped blk \<Longrightarrow> \<exists>er. str_scan allow buf0 ?src = Some (Inl er)"
    and n: "\<not> (\<not> allow \<and> HasUnescaped blk) \<Longrightarrow> \<not> HasQuoteFirst allow blk \<Longrightarrow> \<not> HasBackslash blk \<Longrightarrow>
          ?src + VEC_LEN i \<le> e \<and> (\<forall>j < VEC_LEN i. plain_byte allow (buf0 ! (?src + j)))"
    and b: "\<not> (\<not> allow \<and> HasUnescaped blk) \<Longrightarrow> HasBackslash blk \<Longrightarrow> ?src + BsIndex blk \<le> e
          \<and> buf0 ! (?src + BsIndex blk) = 0x5C \<and> (\<forall>j < BsIndex blk. plain_byte allow (buf0 ! (?src + j)))"
    using block_at [OF g le, of i allow] by blast
  have blk': "StringBlock_Find i (ss_buf s) ?src = Some blk" using rel_block [OF r, of i] blk by simp
  have sc: "str_scan allow buf0 ?src = prep (take m (drop ?src buf0)) (str_scan allow buf0 (?src + m))"
    if "?src + m \<le> e" "\<forall>j < m. plain_byte allow (buf0 ! (?src + j))" for m
    using str_scan_to [of ?src m buf0 allow] that e by simp
  have tk: "length (take m (drop ?src buf0)) = m" if "?src + m \<le> e" for m
    using that e by simp
  have cp: "\<exists>bb. copy_until stop (ss_buf s) ?src (ss_dst s) = Some (bb, ?src + m, ss_dst s + m)
     \<and> str_rel buf0 sdst \<lparr>ss_buf = bb, ss_src = ?src + m, ss_dst = ss_dst s + m\<rparr> (out @ take m (drop ?src buf0))"
    if "?src + m \<le> e" "buf0 ! (?src + m) = stop" "\<forall>j < m. plain_byte allow (buf0 ! (?src + j))"
      "stop = 0x22 \<or> stop = 0x5C" for m stop
    using that e first_nonplain [OF that(3,4)] by (intro copy_until_rel [OF r]) simp_all
  consider (quote) "HasQuoteFirst allow blk" | (ctl) "\<not> HasQuoteFirst allow blk" "\<not> allow \<and> HasUnescaped blk"
    | (none) "\<not> (\<not> allow \<and> HasUnescaped blk)" "\<not> HasQuoteFirst allow blk" "\<not> HasBackslash blk"
    | (bs) "\<not> (\<not> allow \<and> HasUnescaped blk)" "\<not> HasQuoteFirst allow blk" "HasBackslash blk"
    by blast
  then show ?thesis
  proof cases
    case quote
    let ?m = "QuoteIndex blk"
    note q = q [OF quote]
    obtain bb where bb: "copy_until 0x22 (ss_buf s) ?src (ss_dst s) = Some (bb, ?src + ?m, ss_dst s + ?m)"
      and rb: "str_rel buf0 sdst \<lparr>ss_buf = bb, ss_src = ?src + ?m, ss_dst = ss_dst s + ?m\<rparr>
        (out @ take ?m (drop ?src buf0))" (is "str_rel buf0 sdst ?s' ?o")
      using cp [of ?m "0x22"] q by auto
    obtain b2 where b2: "wr bb (ss_dst s + ?m) [0] = Some b2"
      using wr_ex [of "ss_dst s + ?m" "[0]" bb] q e rb by (auto simp: str_rel_def)
    have "str_written buf0 sdst ?o (?src + ?m + 1) b2"
      using str_rel_end [OF rb, of b2] b2 by simp
    moreover have "str_scan allow buf0 (?src + ?m) = Some (Inr ([], ?src + ?m + 1))"
      using q e by (intro str_scan_quote) (simp add: rd_def)
    ultimately show ?thesis
      using blk' quote bb b2 sc [of ?m] tk [of ?m] q
      by (simp add: step_agrees_def vec_move_def Let_def vec_dst_def)
  next
    case ctl
    with blk' u show ?thesis by (simp add: step_agrees_def vec_move_def)
  next
    case none
    let ?m = "VEC_LEN i"
    note nn = n [OF none]
    let ?v = "take ?m (drop ?src (ss_buf s))"
    have v: "?v = take ?m (drop ?src buf0)" using r by (simp add: str_rel_def)
    have lv: "length ?v = ?m" unfolding v using tk nn by blast
    obtain b2 where b2: "wr (ss_buf s) (ss_dst s) ?v = Some b2"
      using wr_ex [of "ss_dst s" ?v "ss_buf s"] r nn e lv by (auto simp: str_rel_def)
    have "str_rel buf0 sdst \<lparr>ss_buf = b2, ss_src = ?src + ?m, ss_dst = ss_dst s + length ?v\<rparr> (out @ ?v)"
      by (rule str_rel_emit [OF r b2]) (use lv in simp_all)
    then show ?thesis
      using blk' none sc [of ?m] nn lv b2
      by (auto simp: step_agrees_def vec_move_def Let_def vec_rel_def vec_dst_def v [symmetric]
          intro!: exI [of _ ?v])
  next
    case bs
    note bb = b [OF bs(1,3)]
    let ?m = "BsIndex blk"
    obtain b2 where b2: "copy_until 0x5C (ss_buf s) ?src (ss_dst s) = Some (b2, ?src + ?m, ss_dst s + ?m)"
      and rb: "str_rel buf0 sdst \<lparr>ss_buf = b2, ss_src = ?src + ?m, ss_dst = ss_dst s + ?m\<rparr>
        (out @ take ?m (drop ?src buf0))"
      using cp [of ?m "0x5C"] bb by auto
    show ?thesis
      using blk' bs sc [of ?m] bb tk [of ?m] e b2 rb
      by (auto simp: step_agrees_def vec_move_def Let_def vec_rel_def vec_dst_def rd_def
          intro!: exI [of _ "take ?m (drop ?src buf0)"])
  qed
qed

lemma vec_run_spec:
  assumes g: "str_guard buf0 e" and "ss_src (snd st) \<le> e" and "vec_rel buf0 sdst st out"
  shows "case str_scan allow buf0 (ss_src (snd st)) of
      None \<Rightarrow> False
    | Some (Inl er) \<Rightarrow> \<exists>b q er'. vec_run i allow st = Some (b, q, Inl er')
    | Some (Inr (t, p)) \<Rightarrow> \<exists>b. vec_run i allow st = Some (b, p, Inr (vec_dst st + length t))
        \<and> str_written buf0 sdst (out @ t) p b"
  using assms(2,3)
proof (induction "vec_measure st" arbitrary: st out rule: less_induct)
  case less
  obtain pc s where st: "st = (pc, s)" by (cases st)
  have ag: "step_agrees buf0 e allow sdst (ss_src s) (vec_dst st) out (vec_step i allow st)"
    using less.prems vec_find_agrees [OF g] vec_cont_agrees [OF g] vec_move_agrees [OF g]
    by (cases pc) (auto simp: st vec_step_def)
  show ?case
  proof (cases "vec_step i allow st")
    case None
    with ag show ?thesis by (simp add: step_agrees_def)
  next
    case (Some r)
    show ?thesis
    proof (cases r)
      case (Inl x)
      obtain b p rr where x: "x = (b, p, rr)" using prod_cases3 by blast
      show ?thesis
        using ag Some Inl x by (cases rr) (auto simp: step_agrees_def vec_run.simps [of i allow "(pc, s)"] st)
    next
      case (Inr st')
      obtain o' where o': "vec_rel buf0 sdst st' (out @ o')" "vec_dst st' = vec_dst st + length o'"
        "ss_src (snd st') \<le> e" "str_scan allow buf0 (ss_src s) = prep o' (str_scan allow buf0 (ss_src (snd st')))"
        using ag Some Inr by (auto simp: step_agrees_def)
      have "vec_measure st' < vec_measure st" using vec_step_measure Some Inr by blast
      from less.hyps [OF this o'(3,1)] show ?thesis
        using o'(2,4) Some Inr
        by (cases "str_scan allow buf0 (ss_src (snd st'))" rule: option.exhaust)
          (auto simp: vec_run.simps [of i allow "(pc, s)"] st add.assoc split: sum.splits)
    qed
  qed
qed

lemma parseStringInplace_vec_spec:
  assumes "str_guard buf e" and "src \<le> e"
  shows "case str_scan allow buf src of
      None \<Rightarrow> False
    | Some (Inl er) \<Rightarrow> \<exists>b q er'. parseStringInplace_vec i allow buf src = Some (b, q, Inl er')
    | Some (Inr (t, p)) \<Rightarrow> \<exists>b. parseStringInplace_vec i allow buf src = Some (b, p, Inr (length t))
        \<and> str_written buf src t p b"
proof -
  let ?st = "(VFind, \<lparr>ss_buf = buf, ss_src = src, ss_dst = src\<rparr>)"
  have "vec_rel buf src ?st []"
    using assms by (simp add: vec_rel_def str_rel_def str_guard_def)
  from vec_run_spec [OF assms(1) _ this, where allow = allow and i = i] assms(2) show ?thesis
    by (auto simp: parseStringInplace_vec_def vec_dst_def split: option.splits sum.splits)
qed


subsection \<open>The interface the document parsers use\<close>

text \<open>
  What the document parsers need of a string parser: with the padding in place it accepts exactly
  the texts the reference reads, returns the decoded length and the end, and leaves the decoded
  bytes, terminated, at the start. Error codes and positions are the parser's own.
\<close>

text \<open>An error a parser reports is not \<^const>\<open>kErrorNone\<close>.\<close>

lemma map_sum_Inl: "map_sum f g x = Inl y \<longleftrightarrow> (\<exists>z. x = Inl z \<and> y = f z)"
  by (cases x) auto

lemma scalar_step_error: "scalar_step allow s = Some (Inl (b, q, Inl er)) \<Longrightarrow> er \<noteq> kErrorNone"
  by (auto simp: scalar_step_def Let_def bind_eq_Some_conv split: if_splits option.splits)

lemma scalar_run_error: "scalar_run allow s = Some (b, q, Inl er) \<Longrightarrow> er \<noteq> kErrorNone"
proof (induction allow s rule: scalar_run.induct)
  case (1 allow s)
  then show ?case
    by (subst (asm) (2) scalar_run.simps) (auto split: option.splits sum.splits dest: scalar_step_error)
qed

lemma vec_step_error: "vec_step i allow st = Some (Inl (b, q, Inl er)) \<Longrightarrow> er \<noteq> kErrorNone"
  by (cases st; cases "fst st")
    (auto simp: vec_step_def vec_find_def vec_cont_def vec_move_def Let_def bind_eq_Some_conv
      split: if_splits option.splits)

lemma vec_run_error: "vec_run i allow st = Some (b, q, Inl er) \<Longrightarrow> er \<noteq> kErrorNone"
proof (induction i allow st rule: vec_run.induct)
  case (1 i allow st)
  then show ?case
    by (subst (asm) (2) vec_run.simps) (auto split: option.splits sum.splits dest: vec_step_error)
qed

locale string_parser =
  fixes parse :: "bool \<Rightarrow> bytes \<Rightarrow> nat \<Rightarrow> str_outcome option"
  assumes parse_scan: "str_guard buf e \<Longrightarrow> src \<le> e \<Longrightarrow>
     (case str_scan allow buf src of
        None \<Rightarrow> False
      | Some (Inl er) \<Rightarrow> \<exists>b q er'. parse allow buf src = Some (b, q, Inl er')
      | Some (Inr (t, p)) \<Rightarrow> \<exists>b. parse allow buf src = Some (b, p, Inr (length t)) \<and> str_written buf src t p b)"
    and parse_error: "parse allow buf src = Some (b, q, Inl er) \<Longrightarrow> er \<noteq> kErrorNone"
begin

lemma parse_accepts:
  assumes "str_guard buf e" and "src \<le> e" and "str_scan allow buf src = Some (Inr (t, p))"
  shows "\<exists>b. parse allow buf src = Some (b, p, Inr (length t)) \<and> str_written buf src t p b"
  using parse_scan [OF assms(1,2), of allow] assms(3) by simp

lemma parse_cases:
  assumes "str_guard buf e" and "src \<le> e"
  obtains (ok) b t p where "parse allow buf src = Some (b, p, Inr (length t))" "str_written buf src t p b"
      "str_scan allow buf src = Some (Inr (t, p))"
    | (err) b q er er' where "parse allow buf src = Some (b, q, Inl er)" "str_scan allow buf src = Some (Inl er')"
  using parse_scan [OF assms, of allow] by (auto split: option.splits sum.splits)

lemma parse_total: "str_guard buf e \<Longrightarrow> src \<le> e \<Longrightarrow> parse allow buf src \<noteq> None"
  using parse_cases by (metis option.distinct(1))

lemma parse_frame:
  assumes "str_guard buf e" and "src \<le> e" and "parse allow buf src = Some (b, p, Inr n)"
  shows "length b = length buf" and "src + n < p" and "drop p b = drop p buf" and "take src b = take src buf"
proof -
  obtain t where t: "n = length t" "str_written buf src t p b"
    by (rule parse_cases [OF assms(1,2), of allow]) (use assms(3) in auto)
  then show "length b = length buf" "src + n < p" "drop p b = drop p buf" by (simp_all add: str_written_def)
  have "take src b = take src (take (src + length t + 1) b)" by (simp add: min_def)
  also have "\<dots> = take src buf"
    using t(2) assms(1,2) by (simp add: str_written_def str_guard_def del: take_take)
  finally show "take src b = take src buf" .
qed

end

interpretation sparse: string_parser parseStringInplace_scalar
proof
  show "parseStringInplace_scalar allow buf src = Some (b, q, Inl er) \<Longrightarrow> er \<noteq> kErrorNone" for allow buf src b q er
    by (auto simp: parseStringInplace_scalar_def map_sum_Inl dest: scalar_run_error)
  fix buf e src allow assume g: "str_guard buf e" and le: "src \<le> e"
  then have "src \<le> length buf" by (simp add: str_guard_def)
  from parseStringInplace_scalar_spec [OF this, of allow] guard_scan [OF g le, of allow]
  show "case str_scan allow buf src of
        None \<Rightarrow> False
      | Some (Inl er) \<Rightarrow> \<exists>b q er'. parseStringInplace_scalar allow buf src = Some (b, q, Inl er')
      | Some (Inr (t, p)) \<Rightarrow> \<exists>b. parseStringInplace_scalar allow buf src = Some (b, p, Inr (length t)) \<and> str_written buf src t p b"
    by (auto split: option.splits sum.splits)
qed

interpretation vparse: string_parser "parseStringInplace_vec i"
proof
  show "parseStringInplace_vec i allow buf src = Some (b, q, Inl er) \<Longrightarrow> er \<noteq> kErrorNone" for allow buf src b q er
    by (auto simp: parseStringInplace_vec_def map_sum_Inl dest: vec_run_error)
qed (rule parseStringInplace_vec_spec)

text \<open>
  C7: the vector string parser and the scalar one agree. On a buffer with the padding
  \<open>x"x\<close> and a vector behind it, from any position before the padding's quote, either
  instruction set, with or without control characters allowed: neither parser leaves the buffer;
  both accept or both reject; when they accept they return the same length and end position, the
  same decoded bytes with their terminator, and the same buffer before the string and after it.
\<close>

theorem parse_string_vector_scalar:
  assumes "str_guard buf e" and "src \<le> e"
  shows "\<exists>b p r b' p' r'. parseStringInplace_scalar allow buf src = Some (b, p, r)
    \<and> parseStringInplace_vec i allow buf src = Some (b', p', r')
    \<and> (case r of Inl _ \<Rightarrow> \<exists>er. r' = Inl er
       | Inr n \<Rightarrow> r' = Inr n \<and> p' = p \<and> src + n < p \<and> b ! (src + n) = 0
           \<and> take (src + n + 1) b' = take (src + n + 1) b \<and> drop p b' = drop p b
           \<and> take src b = take src buf \<and> drop p b = drop p buf)"
proof -
  have len: "src \<le> length buf" using assms by (simp add: str_guard_def)
  note sc = parseStringInplace_scalar_spec [OF len, of allow] and ve = parseStringInplace_vec_spec [OF assms, where allow = allow and i = i]
  obtain x where x: "str_scan allow buf src = Some x" using guard_scan [OF assms, of allow] by blast
  show ?thesis
  proof (cases x)
    case (Inl er)
    with x sc ve show ?thesis by auto
  next
    case (Inr tp)
    obtain t p where tp: "tp = (t, p)" by (cases tp)
    obtain b where b: "parseStringInplace_scalar allow buf src = Some (b, p, Inr (length t))" "str_written buf src t p b"
      using x sc Inr tp by auto
    obtain b' where b': "parseStringInplace_vec i allow buf src = Some (b', p, Inr (length t))" "str_written buf src t p b'"
      using x ve Inr tp by auto
    have tk: "take (src + length t + 1) b = take src buf @ t @ [0]" and lt: "src + length t < p"
      and "drop p b = drop p buf" using b(2) by (simp_all add: str_written_def)
    have "b ! (src + length t) = take (src + length t + 1) b ! (src + length t)" by simp
    also have "\<dots> = 0" unfolding tk using len by (simp add: nth_append)
    finally have z: "b ! (src + length t) = 0" .
    have "take src b = take src (take (src + length t + 1) b)" by (simp add: min_def)
    also have "\<dots> = take src buf" unfolding tk using len by simp
    finally show ?thesis using b b' z lt by (simp add: str_written_def)
  qed
qed

theorem parse_string_vector_scalar_witness:
  "\<exists>b p r b' p' r'. parseStringInplace_scalar False ([0x61, 0x5C, 0x6E, 0x22, 0x78, 0x22, 0x78] @ replicate 61 0) 0 = Some (b, p, r)
    \<and> parseStringInplace_vec SSE False ([0x61, 0x5C, 0x6E, 0x22, 0x78, 0x22, 0x78] @ replicate 61 0) 0 = Some (b', p', r')
    \<and> ((\<exists>er. r = Inl er) = (\<exists>er. r' = Inl er))"
proof -
  let ?b = "[0x61, 0x5C, 0x6E, 0x22, 0x78, 0x22, 0x78] @ replicate 61 (0 :: u8)"
  have "str_guard ?b 5" by (simp add: str_guard_def)
  from parse_string_vector_scalar [OF this, of 0 False SSE]
  obtain b p r b' p' r' where o: "parseStringInplace_scalar False ?b 0 = Some (b, p, r)"
      "parseStringInplace_vec SSE False ?b 0 = Some (b', p', r')"
    and c: "case r of Inl _ \<Rightarrow> \<exists>er. r' = Inl er
       | Inr n \<Rightarrow> r' = Inr n \<and> p' = p \<and> 0 + n < p \<and> b ! (0 + n) = 0
           \<and> take (0 + n + 1) b' = take (0 + n + 1) b \<and> drop p b' = drop p b
           \<and> take 0 b = take 0 ?b \<and> drop p b = drop p ?b" by blast
  from c have "(\<exists>er. r = Inl er) = (\<exists>er. r' = Inl er)" by (cases r) auto
  with o(1,2) show ?thesis by blast
qed

end
