(* ===== verification/Sonic_QuoteParse.thy ===== *)
theory Sonic_QuoteParse
  imports Sonic_Quote Sonic_ParseString
begin

text \<open>
  Strings written by the serializer and read back by the parser: what \<open>Quote\<close> appends is scanned
  to the original bytes, for both writers and both parsers.
\<close>

subsection \<open>Quoting and parsing back\<close>

definition entry_ok :: "nat \<Rightarrow> QuotedChar \<Rightarrow> bool" where
  "entry_ok n e \<longleftrightarrow> (\<exists>m r. e = (2, 0x5C # m # r) \<and> m \<noteq> 0x75 \<and> kEscapedMap ! unat m = word_of_nat n \<and> n \<noteq> 0)
     \<or> (\<exists>a b c d r. e = (6, 0x5C # 0x75 # a # b # c # d # r) \<and> hex4 [a, b, c, d] = Some n \<and> n < 128)"

lemma kEscapedMap_values: "kEscapedMap ! 34 = 34" "kEscapedMap ! 92 = 92" "kEscapedMap ! 98 = 8"
  "kEscapedMap ! 102 = 12" "kEscapedMap ! 110 = 10" "kEscapedMap ! 114 = 13" "kEscapedMap ! 116 = 9"
  by (simp_all add: kEscapedMap_def nth_append)

lemma entry_ok_small: "list_all (\<lambda>(n, e). entry_ok n e) (enumerate 0 (take 32 (quote_tab f)))"
  by (simp add: quote_tab_def kQuoteTabLowerCase_def kQuoteTabUpperCase_def q2_def q6_def entry_ok_def
      kEscapedMap_values hex4_def hexval_def)

lemma entry_ok_all:
  assumes "kNeedEscaped ! unat (c :: u8)"
  shows "entry_ok (unat c) (quote_tab f ! unat c)"
proof (cases "c < 0x20")
  case True
  then have "unat c < 32" by (simp add: word_less_nat_alt)
  moreover have "length (take 32 (quote_tab f)) = 32"
    by (simp add: quote_tab_def kQuoteTabLowerCase_def kQuoteTabUpperCase_def)
  ultimately have "entry_ok (unat c) (take 32 (quote_tab f) ! unat c)"
    using entry_ok_small [of f] by (simp add: list_all_length nth_enumerate_eq)
  with True show ?thesis
    by (cases "flags_and f kSerializeUnicodeEscapeUppercase") (simp_all add: quote_tab_def quote_tab_nth)
next
  case False
  with assms show ?thesis
    by (auto simp: quote_tab_def quote_tab_nth kNeedEscaped_iff q2_def entry_ok_def kEscapedMap_values)
qed

lemma rd_of_drop: "drop src buf = xs \<Longrightarrow> i < length xs \<Longrightarrow> rd buf (src + i) = Some (xs ! i)"
  by (metis rd_def rd_drop add_diff_cancel_left' le_add1)

lemma utf8_encode_ascii: "n < 128 \<Longrightarrow> utf8_encode n = [word_of_nat n]"
  by (simp add: utf8_encode_def)

lemma str_next_entry:
  assumes need: "kNeedEscaped ! unat (c :: u8)"
    and d: "drop src buf = take (fst (quote_tab f ! unat c)) (snd (quote_tab f ! unat c)) @ rest"
    and room: "12 \<le> length (drop src buf)"
  shows "str_next allow buf src = Some (SEmit [c] (src + fst (quote_tab f ! unat c)))"
  using entry_ok_all [OF need, of f] unfolding entry_ok_def
proof (elim disjE exE conjE)
  fix m r assume e: "quote_tab f ! unat c = (2, 0x5C # m # r)" and m: "m \<noteq> 0x75"
    and k: "kEscapedMap ! unat m = word_of_nat (unat c)" and nz: "unat c \<noteq> 0"
  have d: "drop src buf = 0x5C # m # rest" using d e by simp
  have r: "rd buf src = Some 0x5C" "rd buf (src + 1) = Some m"
    using rd_of_drop [OF d, of 0] rd_of_drop [OF d, of 1] by simp_all
  have "c \<noteq> 0" using nz by auto
  then have "unescape_with_padding buf src = Some (Some (src + 2, [c]))"
    using r m k by (simp add: unescape_with_padding_def rd_kEscapedMap)
  then show ?thesis using r e by (simp add: str_next_def word_le_nat_alt)
next
  fix a b cc dd r assume e: "quote_tab f ! unat c = (6, 0x5C # 0x75 # a # b # cc # dd # r)"
    and h: "hex4 [a, b, cc, dd] = Some (unat c)" and lt: "unat c < 128"
  have d: "drop src buf = 0x5C # 0x75 # a # b # cc # dd # rest" using d e by simp
  have r: "rd buf src = Some 0x5C" "rd buf (src + 1) = Some 0x75"
    using rd_of_drop [OF d, of 0] rd_of_drop [OF d, of 1] by simp_all
  have "unicode_escape (drop src buf) = Some (6, unat c)"
    using h lt unfolding d by (simp add: unicode_escape_def)
  then have "unescape_with_padding buf src = Some (Some (src + 6, [c]))"
    using handle_unicode_codepoint_spec [of src buf] room r lt
    by (simp add: unescape_with_padding_def utf8_encode_ascii)
  then show ?thesis using r e by (simp add: str_next_def word_le_nat_alt)
qed

lemma length_take_entry:
  "kNeedEscaped ! unat (c :: u8) \<Longrightarrow> length (take (fst (quote_tab f ! unat c)) (snd (quote_tab f ! unat c)))
    = fst (quote_tab f ! unat c)"
  using quote_tab_entry [of c f] by auto

lemma str_scan_quoted:
  assumes "\<not> EscapeEmoji f" and "drop src buf = quoted f s @ 0x22 # rest" and "11 \<le> length rest"
  shows "str_scan allow buf src = Some (Inr (s, src + length (quoted f s) + 1))"
  using assms(2)
proof (induction s arbitrary: src)
  case Nil
  then have "rd buf src = Some 0x22" using rd_of_drop [of src buf _ 0] by auto
  then show ?case by (simp add: str_scan_quote)
next
  case (Cons c s)
  show ?case
  proof (cases "kNeedEscaped ! unat c")
    case True
    let ?e = "quote_tab f ! unat c"
    have d: "drop src buf = take (fst ?e) (snd ?e) @ (quoted f s @ 0x22 # rest)"
      using Cons.prems True by simp
    have nx: "str_next allow buf src = Some (SEmit [c] (src + fst ?e))"
    proof (rule str_next_entry [OF True d])
      have "length (drop src buf) = fst ?e + (length (quoted f s) + 1 + length rest)"
        unfolding d length_append length_take_entry [OF True] by simp
      then show "12 \<le> length (drop src buf)" using assms(3) quote_tab_entry [OF True, of f] by auto
    qed
    have "drop (src + fst ?e) buf = drop (fst ?e) (drop src buf)" by (simp add: add.commute)
    also have "\<dots> = quoted f s @ 0x22 # rest"
      unfolding d using length_take_entry [OF True, of f] by (simp add: append_eq_conv_conj)
    finally have "drop (src + fst ?e) buf = quoted f s @ 0x22 # rest" .
    from Cons.IH [OF this] nx length_take_entry [OF True, of f] True show ?thesis
      by (simp add: str_scan.simps [of allow buf src] add.assoc)
  next
    case False
    have d: "drop src buf = c # (quoted f s @ 0x22 # rest)"
      using Cons.prems False assms(1) by simp
    have "rd buf src = Some c" using rd_of_drop [OF d, of 0] by simp
    moreover have "\<not> c \<le> 0x1f" "c \<noteq> 0x22" "c \<noteq> 0x5C"
      using False by (auto simp: kNeedEscaped_iff word_less_nat_alt word_le_nat_alt)
    ultimately have nx: "str_next allow buf src = Some (SEmit [c] (src + 1))"
      by (simp add: str_next_def)
    have "drop (src + 1) buf = quoted f s @ 0x22 # rest"
      using d by (metis drop_Suc_Cons drop_drop drop0 plus_1_eq_Suc One_nat_def)
    from Cons.IH [OF this] nx False assms(1) show ?thesis
      by (simp add: str_scan.simps [of allow buf src])
  qed
qed


text \<open>Inside the parsers' interface: the text of a quoted string is accepted.\<close>

context string_parser
begin

lemma parse_quoted:
  assumes "\<not> EscapeEmoji f" and "str_guard buf e" and "src \<le> e"
    and "drop src buf = quoted f s @ 0x22 # rest" and "11 \<le> length rest"
  shows "\<exists>b. parse allow buf src = Some (b, src + length (quoted f s) + 1, Inr (length s))
    \<and> str_written buf src s (src + length (quoted f s) + 1) b"
  by (rule parse_accepts [OF assms(2,3) str_scan_quoted [OF assms(1,4,5)]])

end

lemma str_written_at: "str_written buf src t p b \<Longrightarrow> src \<le> length buf \<Longrightarrow> take (length t) (drop src b) = t"
proof -
  assume w: "str_written buf src t p b" and le: "src \<le> length buf"
  have "take (length t) (drop src b) = take (length t) (drop src (take (src + length t + 1) b))"
    by (simp add: drop_take)
  also have "\<dots> = t" using w le by (simp add: str_written_def)
  finally show ?thesis .
qed



end
