(* ===== verification/Sonic_Space.thy ===== *)
theory Sonic_Space
  imports Sonic_Bits
begin

text \<open>
  White space between the tokens: \<open>IsSpace\<close> (\<open>internal/utils.h\<close>), the vector test \<open>GetNonSpaceBits\<close>
  (\<open>internal/arch/avx2/unicode.h\<close>) and the two searches of
  \<open>internal/arch/common/x86_common/skip.inc.h\<close>, which remember the mask of the last 64-byte block in
  the scanner. The searches are shown to return the first byte that is not a space, with the
  remembered mask always describing the text it is used for.
\<close>

subsection \<open>The code\<close>

definition IsSpace :: "u8 \<Rightarrow> bool" where
  "IsSpace ch \<longleftrightarrow> ch = 0x20 \<or> ch = 0x0D \<or> ch = 0x0A \<or> ch = 0x09"

text \<open>The table of \<open>GetNonSpaceBits\<close> and the byte shuffle that looks every byte up in it.\<close>

definition whitespace_table :: bytes where
  "whitespace_table = [0x20, 100, 100, 100, 17, 100, 113, 2, 100, 0x09, 0x0A, 112, 100, 0x0D, 100, 100]"

definition shuffle_byte :: "bytes \<Rightarrow> u8 \<Rightarrow> u8" where
  "shuffle_byte tab c = (if bit c 7 then 0 else tab ! unat (c AND 0xF))"

definition GetNonSpaceBits :: "bytes \<Rightarrow> nat \<Rightarrow> u64 option" where
  "GetNonSpaceBits data pos =
     (if pos + 64 \<le> length data
      then Some (NOT (to_bitmask (map (\<lambda>c. c = shuffle_byte whitespace_table c) (take 64 (drop pos data)))))
      else None)"

text \<open>What a scanner remembers.\<close>

record SkipScanner =
  nonspace_bits_end :: nat
  nonspace_bits :: u64

definition scanner_new :: SkipScanner where
  "scanner_new = \<lparr>nonspace_bits_end = 0, nonspace_bits = 0\<rparr>"

text \<open>The block loop at \<open>found_space\<close> of \<open>skip_space\<close>.\<close>

function search_blocks :: "bytes \<Rightarrow> nat \<Rightarrow> (nat \<times> u64) option" where
  "search_blocks data pos = (case GetNonSpaceBits data pos of
      None \<Rightarrow> None
    | Some nonspace \<Rightarrow> if nonspace \<noteq> 0 then Some (pos, nonspace) else search_blocks data (pos + 64))"
  by auto
termination
  by (relation "measure (\<lambda>(data, pos). length data - pos)") (auto simp: GetNonSpaceBits_def split: if_splits)

declare search_blocks.simps [simp del]

definition found_space :: "bytes \<Rightarrow> nat \<Rightarrow> (u8 \<times> nat \<times> SkipScanner) option" where
  "found_space data pos = do {
     (pos, nonspace) \<leftarrow> search_blocks data pos;
     c \<leftarrow> rd data (pos + TrailingZeroes nonspace);
     Some (c, pos + TrailingZeroes nonspace + 1, \<lparr>nonspace_bits_end = pos + 64, nonspace_bits = nonspace\<rparr>)
   }"

text \<open>The part of both searches that uses the remembered block; \<open>found\<close> is the block loop.\<close>

definition in_block :: "bytes \<Rightarrow> SkipScanner \<Rightarrow> nat \<Rightarrow> (nat \<Rightarrow> (u8 \<times> nat \<times> SkipScanner) option)
    \<Rightarrow> (u8 \<times> nat \<times> SkipScanner) option" where
  "in_block data sc pos found =
     (let block_start = nonspace_bits_end sc - 64;
          bit_pos = pos - block_start;
          m = push_bit bit_pos 1 - 1;
          nonspace = nonspace_bits sc AND NOT m
      in if nonspace = 0 then found (nonspace_bits_end sc)
         else do {
           c \<leftarrow> rd data (block_start + TrailingZeroes nonspace);
           Some (c, block_start + TrailingZeroes nonspace + 1, sc)
         })"

definition skip_space :: "bytes \<Rightarrow> SkipScanner \<Rightarrow> nat \<Rightarrow> (u8 \<times> nat \<times> SkipScanner) option" where
  "skip_space data sc pos = do {
     c \<leftarrow> rd data pos;
     if \<not> IsSpace c then Some (c, pos + 1, sc)
     else do {
       c \<leftarrow> rd data (pos + 1);
       if \<not> IsSpace c then Some (c, pos + 2, sc)
       else if nonspace_bits_end sc \<le> pos + 2 then found_space data (pos + 2)
       else in_block data sc (pos + 2) (found_space data)
     }
   }"

text \<open>
  The loop at \<open>tail\<close> of \<open>skip_space_safe\<close>. With nothing read at all \<open>data[pos - 1]\<close> is in front of the
  text when \<open>pos\<close> is 0.
\<close>

function skip_tail :: "bytes \<Rightarrow> nat \<Rightarrow> nat \<Rightarrow> (u8 \<times> nat) option" where
  "skip_tail data len pos =
     (if pos < len then (case rd data pos of
        None \<Rightarrow> None
      | Some c \<Rightarrow> if IsSpace c then skip_tail data len (pos + 1) else Some (c, pos + 1))
      else if pos = 0 then None
      else map_option (\<lambda>c. (c, pos)) (rd data (pos - 1)))"
  by auto
termination by (relation "measure (\<lambda>(data, len, pos). len - pos)") auto

declare skip_tail.simps [simp del]

function search_blocks_safe :: "bytes \<Rightarrow> nat \<Rightarrow> SkipScanner \<Rightarrow> nat \<Rightarrow> (u8 \<times> nat \<times> SkipScanner) option" where
  "search_blocks_safe data len sc pos =
     (if pos + 64 \<le> len then (case GetNonSpaceBits data pos of
        None \<Rightarrow> None
      | Some nonspace \<Rightarrow>
          if nonspace \<noteq> 0 then do {
            c \<leftarrow> rd data (pos + TrailingZeroes nonspace);
            Some (c, pos + TrailingZeroes nonspace + 1,
              \<lparr>nonspace_bits_end = pos + 64, nonspace_bits = nonspace\<rparr>)
          }
          else search_blocks_safe data len sc (pos + 64))
      else do { (c, pos) \<leftarrow> skip_tail data len pos; Some (c, pos, sc) })"
  by auto
termination by (relation "measure (\<lambda>(data, len, sc, pos). len - pos)") auto

declare search_blocks_safe.simps [simp del]

definition skip_space_safe :: "bytes \<Rightarrow> nat \<Rightarrow> SkipScanner \<Rightarrow> nat \<Rightarrow> (u8 \<times> nat \<times> SkipScanner) option" where
  "skip_space_safe data len sc pos =
     (if len < pos + 64 + 2 then do { (c, pos) \<leftarrow> skip_tail data len pos; Some (c, pos, sc) }
      else do {
        c \<leftarrow> rd data pos;
        if \<not> IsSpace c then Some (c, pos + 1, sc)
        else do {
          c \<leftarrow> rd data (pos + 1);
          if \<not> IsSpace c then Some (c, pos + 2, sc)
          else if nonspace_bits_end sc \<le> pos + 2 then search_blocks_safe data len sc (pos + 2)
          else in_block data sc (pos + 2) (search_blocks_safe data len sc)
        }
      })"

subsection \<open>The vector test\<close>

lemma and_15: "unat (c AND 0xF) = unat (c :: u8) mod 16"
  using unat_low_mask [of c 4] by (simp add: mask_eq_decr_exp)

definition space_values :: "nat list" where
  "space_values = [32, 100, 100, 100, 17, 100, 113, 2, 100, 9, 10, 112, 100, 13, 100, 100]"

lemma whitespace_table_nat: "k < 16 \<Longrightarrow> unat (whitespace_table ! k) = space_values ! k"
proof -
  have "map unat whitespace_table = space_values" "length whitespace_table = 16"
    by (simp_all add: whitespace_table_def space_values_def)
  then show "k < 16 \<Longrightarrow> unat (whitespace_table ! k) = space_values ! k" by (metis nth_map)
qed

lemma list_all_enumerate: "list_all P (enumerate 0 xs) \<Longrightarrow> k < length xs \<Longrightarrow> P (k, xs ! k)"
  by (auto simp: list_all_length nth_enumerate_eq)

lemma space_values_own: "k < 16 \<Longrightarrow> space_values ! k mod 16 = k \<Longrightarrow> space_values ! k \<in> {32, 13, 10, 9}"
proof -
  have "list_all (\<lambda>(k, m). m mod 16 = k \<longrightarrow> m \<in> {32, 13, 10, 9}) (enumerate 0 space_values)"
    by (simp add: space_values_def)
  from list_all_enumerate [OF this, of k]
  show "k < 16 \<Longrightarrow> space_values ! k mod 16 = k \<Longrightarrow> space_values ! k \<in> {32, 13, 10, 9}"
    by (simp add: space_values_def [THEN arg_cong [where f = length]])
qed

lemma shuffle_space: "c = shuffle_byte whitespace_table c \<longleftrightarrow> IsSpace c"
proof (cases "bit c 7")
  case True
  then have "c \<noteq> 0" by auto
  moreover have "\<not> IsSpace c" using True by (auto simp: IsSpace_def bit_numeral_rec)
  ultimately show ?thesis using True by (simp add: shuffle_byte_def)
next
  case False
  let ?n = "unat c"
  have "c = shuffle_byte whitespace_table c \<longleftrightarrow> ?n = unat (whitespace_table ! (?n mod 16))"
    using False by (simp add: shuffle_byte_def and_15 word_unat_eq_iff)
  also have "\<dots> \<longleftrightarrow> ?n = space_values ! (?n mod 16)"
    by (subst whitespace_table_nat) simp_all
  also have "\<dots> \<longleftrightarrow> ?n \<in> {32, 13, 10, 9}"
  proof
    assume h: "?n = space_values ! (?n mod 16)"
    then have "space_values ! (?n mod 16) mod 16 = ?n mod 16" by simp
    from space_values_own [OF _ this] h show "?n \<in> {32, 13, 10, 9}" by simp
  qed (auto simp: space_values_def)
  also have "\<dots> \<longleftrightarrow> IsSpace c" by (auto simp: IsSpace_def word_unat_eq_iff)
  finally show ?thesis .
qed

text \<open>The mask of the 64 bytes from \<open>pos\<close>, as \<open>GetNonSpaceBits\<close> must compute it.\<close>

definition mask_at :: "bytes \<Rightarrow> nat \<Rightarrow> u64 \<Rightarrow> bool" where
  "mask_at data pos w \<longleftrightarrow> (\<forall>j < 64. bit w j \<longleftrightarrow> \<not> IsSpace (data ! (pos + j)))"

lemma GetNonSpaceBits_mask:
  assumes "pos + 64 \<le> length data"
  shows "\<exists>w. GetNonSpaceBits data pos = Some w \<and> mask_at data pos w"
  using assms by (auto simp: GetNonSpaceBits_def mask_at_def bit_not_iff bit_to_bitmask shuffle_space)

lemma space_mask_first:
  assumes m: "mask_at data pos w" and nz: "w \<noteq> 0"
  shows "TrailingZeroes w < 64" and "\<not> IsSpace (data ! (pos + TrailingZeroes w))"
    and "j < TrailingZeroes w \<Longrightarrow> IsSpace (data ! (pos + j))"
  using TrailingZeroes_nonzero [OF nz] m by (auto simp: mask_at_def)

lemma mask_zero: "mask_at data pos 0 \<Longrightarrow> j < 64 \<Longrightarrow> IsSpace (data ! (pos + j))"
  by (simp add: mask_at_def)

subsection \<open>The first byte that is not a space\<close>

definition next_nonspace :: "bytes \<Rightarrow> nat \<Rightarrow> nat \<Rightarrow> bool" where
  "next_nonspace data pos q \<longleftrightarrow> pos \<le> q \<and> q < length data \<and> \<not> IsSpace (data ! q)
     \<and> (\<forall>j. pos \<le> j \<longrightarrow> j < q \<longrightarrow> IsSpace (data ! j))"

lemma next_nonspace_unique: "next_nonspace data pos q \<Longrightarrow> next_nonspace data pos r \<Longrightarrow> q = r"
  by (metis next_nonspace_def linorder_neqE_nat)

lemma next_nonspace_from:
  "next_nonspace data pos q \<Longrightarrow> pos \<le> p \<Longrightarrow> (\<And>j. pos \<le> j \<Longrightarrow> j < p \<Longrightarrow> IsSpace (data ! j)) \<Longrightarrow> next_nonspace data p q"
  unfolding next_nonspace_def by (metis le_trans not_le)

lemma next_nonspace_mask:
  assumes n: "next_nonspace data pos q" and m: "mask_at data pos w"
  shows "w \<noteq> 0 \<Longrightarrow> q = pos + TrailingZeroes w"
    and "w = 0 \<Longrightarrow> pos + 64 \<le> q"
proof -
  show "q = pos + TrailingZeroes w" if nz: "w \<noteq> 0"
  proof -
    let ?t = "TrailingZeroes w"
    note f = space_mask_first [OF m nz]
    have "q \<le> pos + ?t" using n f(2) unfolding next_nonspace_def by (meson le_add1 not_le)
    moreover have "\<not> q < pos + ?t"
    proof
      assume "q < pos + ?t"
      moreover have q: "pos \<le> q" "\<not> IsSpace (data ! q)" using n by (simp_all add: next_nonspace_def)
      ultimately have "q - pos < ?t" by linarith
      from f(3) [OF this] q show False by simp
    qed
    ultimately show ?thesis by simp
  qed
  show "pos + 64 \<le> q" if "w = 0"
  proof (rule ccontr)
    assume "\<not> pos + 64 \<le> q"
    moreover have q: "pos \<le> q" "\<not> IsSpace (data ! q)" using n by (simp_all add: next_nonspace_def)
    ultimately have "q - pos < 64" by linarith
    from mask_zero [OF m [unfolded that] this] q show False by simp
  qed
qed

text \<open>
  The invariant of the remembered block: from \<open>pos\<close> on it describes the text. It survives moving on
  and changes of the text before \<open>pos\<close>, which is where strings are decoded in place.
\<close>

definition cache_ok :: "bytes \<Rightarrow> nat \<Rightarrow> SkipScanner \<Rightarrow> bool" where
  "cache_ok data pos sc \<longleftrightarrow> (pos < nonspace_bits_end sc \<longrightarrow>
     64 \<le> nonspace_bits_end sc \<and> nonspace_bits_end sc - 64 \<le> pos \<and> nonspace_bits_end sc \<le> length data
     \<and> (\<forall>j. pos \<le> j \<longrightarrow> j < nonspace_bits_end sc \<longrightarrow>
          (bit (nonspace_bits sc) (j - (nonspace_bits_end sc - 64)) \<longleftrightarrow> \<not> IsSpace (data ! j))))"

lemma cache_ok_new [simp]: "cache_ok data pos scanner_new"
  by (simp add: cache_ok_def scanner_new_def)

lemma cache_ok_later: "cache_ok data pos sc \<Longrightarrow> pos \<le> p \<Longrightarrow> cache_ok data p sc"
  by (auto simp: cache_ok_def)

lemma cache_ok_cong:
  assumes "cache_ok data pos sc" and "length data' = length data" and "drop pos data' = drop pos data"
  shows "cache_ok data' pos sc"
proof -
  have "data' ! j = data ! j" if "pos \<le> j" "j < length data" for j
  proof -
    have "drop pos data' ! (j - pos) = data' ! j" "drop pos data ! (j - pos) = data ! j"
      using that assms(2) by simp_all
    with assms(3) show ?thesis by metis
  qed
  with assms(1,2) show ?thesis by (auto simp: cache_ok_def)
qed

lemma cache_ok_mask: "mask_at data pos w \<Longrightarrow> pos + 64 \<le> length data \<Longrightarrow> pos \<le> p \<Longrightarrow>
    cache_ok data p \<lparr>nonspace_bits_end = pos + 64, nonspace_bits = w\<rparr>"
  by (auto simp: cache_ok_def mask_at_def)

text \<open>The block loop finds the byte, reading at most the 64 bytes from it on.\<close>

lemma search_blocks_spec:
  assumes "next_nonspace data pos q" and "q + 64 \<le> length data"
  shows "\<exists>p w. search_blocks data pos = Some (p, w) \<and> mask_at data p w \<and> w \<noteq> 0 \<and> p + 64 \<le> length data
    \<and> q = p + TrailingZeroes w"
  using assms
proof (induction data pos rule: search_blocks.induct)
  case (1 data pos)
  have room: "pos + 64 \<le> length data" using 1(2,3) by (simp add: next_nonspace_def)
  obtain w where w: "GetNonSpaceBits data pos = Some w" "mask_at data pos w"
    using GetNonSpaceBits_mask [OF room] by blast
  show ?case
  proof (cases "w = 0")
    case False
    with w room next_nonspace_mask(1) [OF 1(2) w(2)] show ?thesis by (simp add: search_blocks.simps [of data pos])
  next
    case True
    have "next_nonspace data (pos + 64) q"
      using 1(2) next_nonspace_mask(2) [OF 1(2) w(2) True] by (simp add: next_nonspace_def)
    from 1(1) [OF w(1) _ this 1(3)] True w(1) show ?thesis by (simp add: search_blocks.simps [of data pos])
  qed
qed

lemma found_space_spec:
  assumes "next_nonspace data pos q" and "q + 64 \<le> length data"
  shows "\<exists>sc'. found_space data pos = Some (data ! q, q + 1, sc') \<and> cache_ok data (q + 1) sc'"
proof -
  obtain p w where s: "search_blocks data pos = Some (p, w)" "mask_at data p w" "p + 64 \<le> length data"
    "q = p + TrailingZeroes w" using search_blocks_spec [OF assms] by blast
  have "q < length data" using assms(1) by (simp add: next_nonspace_def)
  with s cache_ok_mask [OF s(2,3), of "q + 1"] show ?thesis by (simp add: found_space_def rd_def)
qed

lemma bit_below_mask: "k < 64 \<Longrightarrow> bit (w AND NOT (push_bit k 1 - 1) :: u64) j \<longleftrightarrow> k \<le> j \<and> bit w j"
  using bit_imp_le_length [of w j]
  by (auto simp: bit_and_iff bit_not_iff mask_eq_exp_minus_1 [symmetric] push_bit_of_1 bit_mask_iff)

lemma block_bits:
  assumes c: "cache_ok data pos sc" and lt: "pos < nonspace_bits_end sc" and j: "j < 64"
  shows "bit (nonspace_bits sc AND NOT (push_bit (pos - (nonspace_bits_end sc - 64)) 1 - 1)) j
    \<longleftrightarrow> pos \<le> nonspace_bits_end sc - 64 + j \<and> \<not> IsSpace (data ! (nonspace_bits_end sc - 64 + j))"
proof -
  let ?e = "nonspace_bits_end sc"
  have e: "64 \<le> ?e" "?e - 64 \<le> pos"
    and b: "\<And>j. pos \<le> j \<Longrightarrow> j < ?e \<Longrightarrow> bit (nonspace_bits sc) (j - (?e - 64)) \<longleftrightarrow> \<not> IsSpace (data ! j)"
    using c lt unfolding cache_ok_def by blast+
  obtain t where t: "?e = t + 64" using e(1) by (metis le_add_diff_inverse2)
  have k: "pos - t < 64" using e lt t by linarith
  have "bit (nonspace_bits sc AND NOT (push_bit (pos - t) 1 - 1)) j \<longleftrightarrow> pos - t \<le> j \<and> bit (nonspace_bits sc) j"
    by (rule bit_below_mask [OF k])
  also have "\<dots> \<longleftrightarrow> pos \<le> t + j \<and> bit (nonspace_bits sc) j" by (simp add: le_diff_conv add.commute)
  also have "\<dots> \<longleftrightarrow> pos \<le> t + j \<and> \<not> IsSpace (data ! (t + j))"
    using b [of "t + j"] e j t by auto
  finally show ?thesis by (simp only: t add_diff_cancel_right')
qed

lemma in_block_none:
  assumes c: "cache_ok data pos sc" and lt: "pos < nonspace_bits_end sc"
    and sp: "\<And>j. pos \<le> j \<Longrightarrow> j < nonspace_bits_end sc \<Longrightarrow> IsSpace (data ! j)"
  shows "in_block data sc pos found = found (nonspace_bits_end sc)"
proof -
  let ?w = "nonspace_bits sc AND NOT (push_bit (pos - (nonspace_bits_end sc - 64)) 1 - 1)"
  have e: "64 \<le> nonspace_bits_end sc" using c lt unfolding cache_ok_def by blast
  have "\<not> bit ?w j" for j
  proof (cases "j < 64")
    case True
    with block_bits [OF c lt True] sp [of "nonspace_bits_end sc - 64 + j"] e show ?thesis by auto
  next
    case False
    then show ?thesis by (auto dest: bit_imp_le_length)
  qed
  then have "?w = 0" by (auto intro: bit_word_eqI)
  then show ?thesis by (simp add: in_block_def Let_def)
qed

lemma in_block_found:
  assumes c: "cache_ok data pos sc" and lt: "pos < nonspace_bits_end sc" and n: "next_nonspace data pos q"
    and q: "q < nonspace_bits_end sc"
  shows "in_block data sc pos found = Some (data ! q, q + 1, sc)"
proof -
  let ?s = "nonspace_bits_end sc - 64"
  let ?w = "nonspace_bits sc AND NOT (push_bit (pos - ?s) 1 - 1)"
  have e: "64 \<le> nonspace_bits_end sc" "?s \<le> pos" using c lt unfolding cache_ok_def by blast+
  have qq: "pos \<le> q" "q < length data" "\<not> IsSpace (data ! q)" "\<And>j. pos \<le> j \<Longrightarrow> j < q \<Longrightarrow> IsSpace (data ! j)"
    using n by (auto simp: next_nonspace_def)
  have qs: "q - ?s < 64" "?s + (q - ?s) = q" using q e qq(1) by linarith+
  have "bit ?w (q - ?s)" using block_bits [OF c lt qs(1)] qs(2) qq by simp
  moreover have "\<not> bit ?w j" if "j < q - ?s" for j
    using block_bits [OF c lt, of j] qq(4) [of "?s + j"] that qs by auto
  ultimately have "TrailingZeroes ?w = q - ?s" using qs(1) by (intro TrailingZeroes_eqI) simp_all
  moreover have "?w \<noteq> 0" using \<open>bit ?w (q - ?s)\<close> by auto
  ultimately show ?thesis using qs(2) qq(2) by (simp add: in_block_def Let_def rd_def)
qed

lemma skip_space_spec:
  assumes c: "cache_ok data pos sc" and n: "next_nonspace data pos q"
    and room: "q < pos + 2 \<or> q + 64 \<le> length data"
  shows "\<exists>sc'. skip_space data sc pos = Some (data ! q, q + 1, sc') \<and> cache_ok data (q + 1) sc'"
proof -
  have q: "pos \<le> q" "q < length data" "\<not> IsSpace (data ! q)" "\<And>j. pos \<le> j \<Longrightarrow> j < q \<Longrightarrow> IsSpace (data ! j)"
    using n by (auto simp: next_nonspace_def)
  have later: "cache_ok data (q + 1) sc" using cache_ok_later [OF c] q(1) by simp
  consider "q = pos" | "q = pos + 1" | "pos + 2 \<le> q" using q(1) by linarith
  then show ?thesis
  proof cases
    case 1
    with q later show ?thesis by (simp add: skip_space_def rd_def)
  next
    case 2
    with q(2,3) q(4) [of pos] later show ?thesis by (simp add: skip_space_def rd_def)
  next
    case 3
    have r: "rd data pos = Some (data ! pos)" "rd data (pos + 1) = Some (data ! (pos + 1))"
      using 3 q(2) by (simp_all add: rd_def)
    have sp: "IsSpace (data ! pos)" "IsSpace (data ! (pos + 1))" using q(4) 3 by simp_all
    have n2: "next_nonspace data (pos + 2) q" using n 3 by (simp add: next_nonspace_def)
    have rm: "q + 64 \<le> length data" using room 3 by simp
    have c2: "cache_ok data (pos + 2) sc" by (rule cache_ok_later [OF c]) simp
    show ?thesis
    proof (cases "nonspace_bits_end sc \<le> pos + 2")
      case True
      with r sp found_space_spec [OF n2 rm] show ?thesis by (simp add: skip_space_def)
    next
      case False
      then have lt: "pos + 2 < nonspace_bits_end sc" by simp
      have run: "skip_space data sc pos = in_block data sc (pos + 2) (found_space data)"
        using r sp False by (simp add: skip_space_def)
      show ?thesis
      proof (cases "q < nonspace_bits_end sc")
        case True
        with run in_block_found [OF c2 lt n2] later show ?thesis by simp
      next
        case False
        then have sp2: "IsSpace (data ! j)" if "pos + 2 \<le> j" "j < nonspace_bits_end sc" for j
          using that q(4) [of j] by simp
        have "next_nonspace data (nonspace_bits_end sc) q"
          by (rule next_nonspace_from [OF n2]) (use lt sp2 in simp_all)
        with run in_block_none [OF c2 lt sp2, of "found_space data"] found_space_spec [OF _ rm]
        show ?thesis by simp
      qed
    qed
  qed
qed

text \<open>The bounded search, on a text that ends where the buffer ends.\<close>

definition all_space :: "bytes \<Rightarrow> nat \<Rightarrow> bool" where
  "all_space data pos \<longleftrightarrow> (\<forall>j. pos \<le> j \<longrightarrow> j < length data \<longrightarrow> IsSpace (data ! j))"

lemma nonspace_cases:
  obtains (found) q where "next_nonspace data pos q" | (none) "all_space data pos"
proof (cases "all_space data pos")
  case False
  let ?P = "\<lambda>j. pos \<le> j \<and> j < length data \<and> \<not> IsSpace (data ! j)"
  have ex: "\<exists>j. ?P j" using False by (auto simp: all_space_def)
  let ?q = "LEAST j. ?P j"
  have "?P ?q" using ex by (rule LeastI_ex)
  moreover have "IsSpace (data ! j)" if "pos \<le> j" "j < ?q" for j
    using not_less_Least [OF that(2)] that(1) less_trans [OF that(2)] \<open>?P ?q\<close> by blast
  ultimately have "next_nonspace data pos ?q" unfolding next_nonspace_def by blast
  then show thesis by (rule found)
qed (rule none)

lemma skip_tail_spec:
  assumes "pos \<le> length data"
  shows "next_nonspace data pos q \<Longrightarrow> skip_tail data (length data) pos = Some (data ! q, q + 1)"
    and "all_space data pos \<Longrightarrow> 0 < length data \<Longrightarrow>
      skip_tail data (length data) pos = Some (data ! (length data - 1), length data)"
  using assms
proof (induction "length data - pos" arbitrary: pos)
  case (0 pos)
  { case 1 then show ?case using 0 by (simp add: next_nonspace_def) next
    case 2
    then have "0 < pos" "pos = length data" using 0 by linarith+
    then show ?case by (simp add: skip_tail.simps [of data] rd_def) }
next
  case (Suc n pos)
  have pos: "pos < length data" "n = length data - (pos + 1)" "pos + 1 \<le> length data" using Suc.hyps(3) by simp_all
  { case 1
    show ?case
    proof (cases "IsSpace (data ! pos)")
      case True
      have "next_nonspace data (pos + 1) q"
      proof (rule next_nonspace_from [OF 1(1)])
        show "IsSpace (data ! j)" if "pos \<le> j" "j < pos + 1" for j
          using that True by (cases "j = pos") simp_all
      qed simp
      from Suc.hyps(1) [OF pos(2) this pos(3)] pos True show ?thesis
        by (simp add: skip_tail.simps [of data "length data" pos] rd_def)
    next
      case False
      have "q = pos" using 1(1) False by (auto simp: next_nonspace_def)
      with False pos show ?thesis by (simp add: skip_tail.simps [of data "length data" pos] rd_def)
    qed
  next
    case 2
    have "IsSpace (data ! pos)" "all_space data (pos + 1)" using 2(1) pos by (simp_all add: all_space_def)
    with Suc.hyps(2) [OF pos(2) _ 2(2) pos(3)] pos show ?case
      by (simp add: skip_tail.simps [of data "length data" pos] rd_def)
  }
qed

text \<open>What the bounded search returns: the byte and the position behind it, or the last byte.\<close>

definition safe_result :: "bytes \<Rightarrow> nat \<Rightarrow> (u8 \<times> nat \<times> SkipScanner) option \<Rightarrow> bool" where
  "safe_result data pos r \<longleftrightarrow>
     (\<forall>q. next_nonspace data pos q \<longrightarrow> (\<exists>sc'. r = Some (data ! q, q + 1, sc') \<and> cache_ok data (q + 1) sc'))
   \<and> (all_space data pos \<longrightarrow> 0 < length data \<longrightarrow>
        (\<exists>sc'. r = Some (data ! (length data - 1), length data, sc') \<and> cache_ok data (length data) sc'))"

lemma safe_tail:
  assumes "cache_ok data pos sc" and "pos \<le> length data"
  shows "safe_result data pos (do { (c, pos) \<leftarrow> skip_tail data (length data) pos; Some (c, pos, sc) })"
  unfolding safe_result_def
proof (intro conjI allI impI)
  fix q assume n: "next_nonspace data pos q"
  then have "pos \<le> q + 1" by (simp add: next_nonspace_def)
  with skip_tail_spec(1) [OF assms(2) n] cache_ok_later [OF assms(1)] show "\<exists>sc'. do { (c, pos) \<leftarrow> skip_tail data (length data) pos; Some (c, pos, sc) }
      = Some (data ! q, q + 1, sc') \<and> cache_ok data (q + 1) sc'" by simp
next
  assume "all_space data pos" "0 < length data"
  with skip_tail_spec(2) [OF assms(2)] cache_ok_later [OF assms] show "\<exists>sc'. do { (c, pos) \<leftarrow> skip_tail data (length data) pos; Some (c, pos, sc) }
      = Some (data ! (length data - 1), length data, sc') \<and> cache_ok data (length data) sc'" by simp
qed

lemma safe_result_from:
  assumes "safe_result data p r" and "pos \<le> p" and "\<And>j. pos \<le> j \<Longrightarrow> j < p \<Longrightarrow> IsSpace (data ! j)"
  shows "safe_result data pos r"
proof -
  have "next_nonspace data p q" if "next_nonspace data pos q" for q
    using next_nonspace_from [OF that assms(2)] assms(3) by blast
  moreover have "all_space data p" if "all_space data pos" using that assms(2) by (simp add: all_space_def)
  ultimately show ?thesis using assms(1) by (auto simp: safe_result_def)
qed

lemma search_blocks_safe_spec:
  assumes "cache_ok data pos sc" and "pos \<le> length data"
  shows "safe_result data pos (search_blocks_safe data (length data) sc pos)"
  using assms
proof (induction data "length data" sc pos rule: search_blocks_safe.induct)
  case (1 data sc pos)
  show ?case
  proof (cases "pos + 64 \<le> length data")
    case False
    with safe_tail [OF 1(2,3)] show ?thesis by (simp add: search_blocks_safe.simps [of data "length data" sc pos])
  next
    case True
    obtain w where w: "GetNonSpaceBits data pos = Some w" "mask_at data pos w"
      using GetNonSpaceBits_mask [OF True] by blast
    show ?thesis
    proof (cases "w = 0")
      case nz: False
      note f = space_mask_first [OF w(2) nz]
      have "search_blocks_safe data (length data) sc pos = Some (data ! (pos + TrailingZeroes w),
          pos + TrailingZeroes w + 1, \<lparr>nonspace_bits_end = pos + 64, nonspace_bits = w\<rparr>)"
        using True w(1) nz f(1) by (simp add: search_blocks_safe.simps [of data "length data" sc pos] rd_def)
      moreover have "\<not> all_space data pos"
        using f(1,2) True by (auto simp: all_space_def intro!: exI [of _ "pos + TrailingZeroes w"])
      moreover have "cache_ok data p \<lparr>nonspace_bits_end = pos + 64, nonspace_bits = w\<rparr>" if "pos \<le> p" for p
        by (rule cache_ok_mask [OF w(2) True that])
      ultimately show ?thesis
        using next_nonspace_mask(1) [OF _ w(2) nz] by (auto simp: safe_result_def next_nonspace_def)
    next
      case z: True
      have "cache_ok data (pos + 64) sc" by (rule cache_ok_later [OF 1(2)]) simp
      from 1(1) [OF True w(1) _ this True] z
      have "safe_result data (pos + 64) (search_blocks_safe data (length data) sc (pos + 64))" by simp
      then have "safe_result data pos (search_blocks_safe data (length data) sc (pos + 64))"
      proof (rule safe_result_from)
        show "IsSpace (data ! j)" if "pos \<le> j" "j < pos + 64" for j
          using mask_zero [of data pos "j - pos"] w(2) z that by simp
      qed simp
      then show ?thesis using True w(1) z by (simp add: search_blocks_safe.simps [of data "length data" sc pos])
    qed
  qed
qed

lemma skip_space_safe_spec:
  assumes c: "cache_ok data pos sc" and le: "pos \<le> length data"
  shows "safe_result data pos (skip_space_safe data (length data) sc pos)"
proof (cases "length data < pos + 64 + 2")
  case True
  with safe_tail [OF c le] show ?thesis by (simp add: skip_space_safe_def)
next
  case False
  then have r: "rd data pos = Some (data ! pos)" "rd data (pos + 1) = Some (data ! (pos + 1))"
    by (simp_all add: rd_def)
  have at: "safe_result data p (Some (data ! p, p + 1, sc))" if "p < length data" "\<not> IsSpace (data ! p)" "pos \<le> p" for p
    unfolding safe_result_def
  proof (intro conjI allI impI)
    fix q assume "next_nonspace data p q"
    then have "q = p" using that by (auto simp: next_nonspace_def)
    then show "\<exists>sc'. Some (data ! p, p + 1, sc) = Some (data ! q, q + 1, sc') \<and> cache_ok data (q + 1) sc'"
      using cache_ok_later [OF c] that by simp
  qed (use that in \<open>auto simp: all_space_def\<close>)
  consider "\<not> IsSpace (data ! pos)" | "IsSpace (data ! pos)" "\<not> IsSpace (data ! (pos + 1))"
    | (two) "IsSpace (data ! pos)" "IsSpace (data ! (pos + 1))" by blast
  then show ?thesis
  proof cases
    case 1
    with False r at [of pos] show ?thesis by (simp add: skip_space_safe_def)
  next
    case 2
    have "safe_result data (pos + 1) (Some (data ! (pos + 1), pos + 1 + 1, sc))"
      using 2 False by (intro at) simp_all
    then have "safe_result data pos (Some (data ! (pos + 1), pos + 1 + 1, sc))"
      by (rule safe_result_from) (use 2 in \<open>auto simp: less_Suc_eq\<close>)
    with False r 2 show ?thesis by (simp add: skip_space_safe_def)
  next
    case two
    have sp: "IsSpace (data ! j)" if "pos \<le> j" "j < pos + 2" for j
    proof -
      have "j = pos \<or> j = pos + 1" using that by linarith
      with two show ?thesis by auto
    qed
    let ?r = "skip_space_safe data (length data) sc pos"
    have c2: "cache_ok data (pos + 2) sc" by (rule cache_ok_later [OF c]) simp
    have "safe_result data (pos + 2) ?r"
    proof (cases "nonspace_bits_end sc \<le> pos + 2")
      case True
      with False r two search_blocks_safe_spec [OF c2] show ?thesis by (simp add: skip_space_safe_def)
    next
      case inb: False
      then have lt: "pos + 2 < nonspace_bits_end sc" by simp
      have run: "?r = in_block data sc (pos + 2) (search_blocks_safe data (length data) sc)"
        using False r two inb by (simp add: skip_space_safe_def)
      have e: "nonspace_bits_end sc \<le> length data" using c2 lt by (simp add: cache_ok_def)
      show ?thesis
      proof (cases "\<exists>q. next_nonspace data (pos + 2) q \<and> q < nonspace_bits_end sc")
        case True
        then obtain q where n: "next_nonspace data (pos + 2) q" and q: "q < nonspace_bits_end sc" by blast
        have "?r = Some (data ! q, q + 1, sc)" using run in_block_found [OF c2 lt n q] by simp
        moreover have "pos + 2 \<le> q" "q < length data" "\<not> IsSpace (data ! q)" using n by (simp_all add: next_nonspace_def)
        ultimately have "safe_result data q ?r" using at [of q] by simp
        then show ?thesis
          by (rule safe_result_from) (use n in \<open>auto simp: next_nonspace_def\<close>)
      next
        case none: False
        have sp2: "IsSpace (data ! j)" if j: "pos + 2 \<le> j" "j < nonspace_bits_end sc" for j
        proof (cases rule: nonspace_cases [of data "pos + 2"])
          case (found q)
          with none j show ?thesis by (meson next_nonspace_def le_less_trans not_le)
        next
          case none
          with j e show ?thesis by (simp add: all_space_def)
        qed
        have "safe_result data (nonspace_bits_end sc) ?r"
          using run in_block_none [OF c2 lt sp2] search_blocks_safe_spec [OF cache_ok_later [OF c2] e] lt by simp
        then show ?thesis by (rule safe_result_from) (use lt sp2 in simp_all)
      qed
    qed
    then show ?thesis by (rule safe_result_from) (use sp in simp_all)
  qed
qed

text \<open>
  C18: both searches return the first byte that is not a space and the position behind it, from any
  position and with whatever the scanner remembers, as long as that describes the text from there on;
  they leave the scanner in the same condition. The unbounded one stays in a buffer that has 64
  bytes from the byte found on, or finds it within two bytes; the bounded one stays in the text.
\<close>

theorem skip_space_first_nonspace:
  assumes "cache_ok data pos sc" and "next_nonspace data pos q"
  shows "(q < pos + 2 \<or> q + 64 \<le> length data \<longrightarrow>
      (\<exists>sc'. skip_space data sc pos = Some (data ! q, q + 1, sc') \<and> cache_ok data (q + 1) sc'))
    \<and> (\<exists>sc'. skip_space_safe data (length data) sc pos = Some (data ! q, q + 1, sc') \<and> cache_ok data (q + 1) sc')"
proof -
  have "pos \<le> length data" using assms(2) by (simp add: next_nonspace_def)
  with skip_space_safe_spec [OF assms(1)] skip_space_spec [OF assms] assms(2)
  show ?thesis by (simp add: safe_result_def)
qed

theorem skip_space_first_nonspace_witness:
  "(\<exists>sc'. skip_space ([0x20, 0x0A, 0x09, 0x7B] @ replicate 64 0) scanner_new 0 = Some (0x7B, 4, sc'))
   \<and> (\<exists>sc'. skip_space_safe [0x20, 0x0A, 0x09, 0x7B] (length [0x20, 0x0A, 0x09, 0x7B :: u8]) scanner_new 0 = Some (0x7B, 4, sc'))"
proof -
  have n: "next_nonspace ([0x20, 0x0A, 0x09, 0x7B] @ replicate 64 0) 0 3" "next_nonspace [0x20, 0x0A, 0x09, 0x7B] 0 3"
    by (auto simp: next_nonspace_def IsSpace_def less_Suc_eq numeral_3_eq_3)
  show ?thesis
    using skip_space_first_nonspace [OF cache_ok_new n(1)]
      skip_space_first_nonspace [OF cache_ok_new n(2)] by auto
qed

text \<open>
  On an empty text the bounded search reads the byte in front of it: the callers that pass an empty
  text (\<open>GetOnDemand\<close>, \<open>ParseLazy\<close>) reach \<open>data[pos - 1]\<close> with \<open>pos\<close> 0.
\<close>

lemma skip_space_safe_empty: "skip_space_safe [] 0 scanner_new 0 = None"
  by (simp add: skip_space_safe_def skip_tail.simps)

text \<open>
  A scanner that has searched one text must not be used for another: its mask still stands for the
  first text, and the search stops at a space of the second.
\<close>

lemma skip_space_stale_scanner:
  "\<exists>sc. skip_space (replicate 3 0x20 @ replicate 70 0x31) scanner_new 0 = Some (0x31, 4, sc)
     \<and> skip_space (replicate 100 0x20 @ [0x31]) sc 0 = Some (0x20, 4, sc)"
proof -
  let ?d = "replicate 3 0x20 @ replicate 70 (0x31 :: u8)"
  obtain w where w: "GetNonSpaceBits ?d 2 = Some w" "mask_at ?d 2 w"
    using GetNonSpaceBits_mask [of 2 ?d] by auto
  have b: "\<not> bit w 0" "bit w 1"
    using w(2)[unfolded mask_at_def, rule_format, of 0] w(2)[unfolded mask_at_def, rule_format, of 1]
    by (simp_all add: nth_append IsSpace_def)
  then have nz: "w \<noteq> 0" by auto
  have "TrailingZeroes w = 1" by (rule TrailingZeroes_eqI) (use b in simp_all)
  with w nz b have "found_space ?d 2 = Some (0x31, 4, \<lparr>nonspace_bits_end = 66, nonspace_bits = w\<rparr>)"
    by (simp add: found_space_def search_blocks.simps [of _ 2] rd_def nth_append)
  then have "skip_space ?d scanner_new 0 = Some (0x31, 4, \<lparr>nonspace_bits_end = 66, nonspace_bits = w\<rparr>)"
    by (simp add: skip_space_def rd_def nth_append IsSpace_def scanner_new_def numeral_2_eq_2)
  moreover have "w AND NOT (push_bit 0 1 - 1) = w" by simp
  ultimately show ?thesis
    using \<open>TrailingZeroes w = 1\<close> nz
    by (auto simp: skip_space_def rd_def nth_append IsSpace_def in_block_def Let_def)
qed

end
