(* ===== verification/Sonic_Skip.thy ===== *)
theory Sonic_Skip
  imports Sonic_Space
begin

text \<open>
  Skipping over JSON text without building anything, from
  \<open>internal/arch/common/x86_common/skip.inc.h\<close> and \<open>internal/arch/common/skip_common.h\<close>: the search
  for the next structural character, and skipping a string, a container and a literal. Every
  routine works on blocks of a vector (or 64 bytes) and finishes byte by byte; each is shown to
  compute what the byte-by-byte reading of the whole text gives.
\<close>

subsection \<open>The next of a set of characters\<close>

function token_tail :: "bytes \<Rightarrow> nat \<Rightarrow> bytes \<Rightarrow> nat \<Rightarrow> (u8 \<times> nat) option" where
  "token_tail data len tokens pos =
     (if pos < len then (case rd data pos of
        None \<Rightarrow> None
      | Some c \<Rightarrow> if list_ex (\<lambda>t. c = t) tokens then Some (c, pos) else token_tail data len tokens (pos + 1))
      else Some (0, pos))"
  by auto
termination by (relation "measure (\<lambda>(data, len, tokens, pos). len - pos)") auto

declare token_tail.simps [simp del]

lemma vec_less: "pos + VEC_LEN i \<le> len \<Longrightarrow> len - (pos + VEC_LEN i) < len - pos"
  using VEC_LEN_bounds(1) [of i] by linarith

text \<open>A vector load.\<close>

definition vec_at :: "isa \<Rightarrow> bytes \<Rightarrow> nat \<Rightarrow> bytes option" where
  "vec_at i data pos = (if pos + VEC_LEN i \<le> length data then Some (take (VEC_LEN i) (drop pos data)) else None)"

function GetNextToken :: "isa \<Rightarrow> bytes \<Rightarrow> nat \<Rightarrow> bytes \<Rightarrow> nat \<Rightarrow> (u8 \<times> nat) option" where
  "GetNextToken i data len tokens pos =
     (if pos + VEC_LEN i \<le> len then (case vec_at i data pos of
        None \<Rightarrow> None
      | Some v \<Rightarrow>
          let next = to_bitmask (map (\<lambda>c. list_ex (\<lambda>t. c = t) tokens) v) :: u32 in
          if next \<noteq> 0 then do {
            c \<leftarrow> rd data (pos + TrailingZeroes next);
            Some (c, pos + TrailingZeroes next)
          }
          else GetNextToken i data len tokens (pos + VEC_LEN i))
      else token_tail data len tokens pos)"
  by auto
termination by (relation "measure (\<lambda>(i, data, len, tokens, pos). len - pos)") (auto simp: vec_less)

declare GetNextToken.simps [simp del]

text \<open>The first position from \<open>pos\<close> on that holds one of the characters.\<close>

definition first_of :: "(u8 \<Rightarrow> bool) \<Rightarrow> bytes \<Rightarrow> nat \<Rightarrow> nat \<Rightarrow> nat \<Rightarrow> bool" where
  "first_of P data len pos q \<longleftrightarrow> pos \<le> q \<and> q < len \<and> P (data ! q) \<and> (\<forall>j. pos \<le> j \<longrightarrow> j < q \<longrightarrow> \<not> P (data ! j))"

definition none_of :: "(u8 \<Rightarrow> bool) \<Rightarrow> bytes \<Rightarrow> nat \<Rightarrow> nat \<Rightarrow> bool" where
  "none_of P data len pos \<longleftrightarrow> (\<forall>j. pos \<le> j \<longrightarrow> j < len \<longrightarrow> \<not> P (data ! j))"

definition token_result :: "bytes \<Rightarrow> nat \<Rightarrow> bytes \<Rightarrow> nat \<Rightarrow> (u8 \<times> nat) option \<Rightarrow> bool" where
  "token_result data len tokens pos r \<longleftrightarrow>
     (\<forall>q. first_of (\<lambda>c. c \<in> set tokens) data len pos q \<longrightarrow> r = Some (data ! q, q))
   \<and> (none_of (\<lambda>c. c \<in> set tokens) data len pos \<longrightarrow> r = Some (0, max pos len))"

lemma token_result_from:
  assumes "token_result data len tokens p r" and "pos \<le> p" and "p \<le> len"
    and "\<And>j. pos \<le> j \<Longrightarrow> j < p \<Longrightarrow> data ! j \<notin> set tokens"
  shows "token_result data len tokens pos r"
proof -
  have "first_of (\<lambda>c. c \<in> set tokens) data len p q" if "first_of (\<lambda>c. c \<in> set tokens) data len pos q" for q
    using that assms(2,4) by (auto simp: first_of_def) (meson not_le)
  moreover have "none_of (\<lambda>c. c \<in> set tokens) data len p" if "none_of (\<lambda>c. c \<in> set tokens) data len pos"
    using that assms(2) by (auto simp: none_of_def)
  moreover have "max p len = max pos len" using assms(2,3) by simp
  ultimately show ?thesis using assms(1) by (auto simp: token_result_def)
qed

lemma token_result_at:
  assumes "p < len" and "data ! p \<in> set tokens"
  shows "token_result data len tokens p (Some (data ! p, p))"
  using assms unfolding token_result_def first_of_def none_of_def
  by (metis le_refl linorder_neqE_nat order_le_less)

lemma token_tail_spec: "len \<le> length data \<Longrightarrow> token_result data len tokens pos (token_tail data len tokens pos)"
proof (induction data len tokens pos rule: token_tail.induct)
  case (1 data len tokens pos)
  show ?case
  proof (cases "pos < len")
    case False
    then show ?thesis
      by (auto simp: token_result_def token_tail.simps [of data len tokens pos] first_of_def)
  next
    case True
    then have c: "rd data pos = Some (data ! pos)" using 1(2) by (simp add: rd_def)
    show ?thesis
    proof (cases "data ! pos \<in> set tokens")
      case t: True
      with True c token_result_at [OF True t] show ?thesis
        by (simp add: token_tail.simps [of data len tokens pos] list_ex_iff)
    next
      case nt: False
      with True c 1 have "token_result data len tokens (pos + 1) (token_tail data len tokens (pos + 1))"
        by (simp add: list_ex_iff)
      then have "token_result data len tokens pos (token_tail data len tokens (pos + 1))"
        by (rule token_result_from) (use True nt in \<open>auto simp: less_Suc_eq\<close>)
      with True c nt show ?thesis by (simp add: token_tail.simps [of data len tokens pos] list_ex_iff)
    qed
  qed
qed

lemma block_first:
  assumes "length v \<le> LENGTH('a)"
  shows "(to_bitmask (map P v) :: 'a::len word) = 0 \<longleftrightarrow> (\<forall>j < length v. \<not> P (v ! j))"
    and "(to_bitmask (map P v) :: 'a::len word) \<noteq> 0 \<Longrightarrow>
      TrailingZeroes (to_bitmask (map P v) :: 'a word) < length v
      \<and> P (v ! TrailingZeroes (to_bitmask (map P v) :: 'a word))
      \<and> (\<forall>j < TrailingZeroes (to_bitmask (map P v) :: 'a word). \<not> P (v ! j))"
proof -
  have b: "bit (to_bitmask (map P v) :: 'a word) j \<longleftrightarrow> j < length v \<and> P (v ! j)" for j
    using assms by (auto simp: bit_to_bitmask)
  show "(to_bitmask (map P v) :: 'a::len word) = 0 \<longleftrightarrow> (\<forall>j < length v. \<not> P (v ! j))"
    using assms by (auto simp: bit_eq_iff b)
  assume nz: "(to_bitmask (map P v) :: 'a::len word) \<noteq> 0"
  note tz = TrailingZeroes_nonzero [OF nz]
  have "\<not> P (v ! j)" if "j < TrailingZeroes (to_bitmask (map P v) :: 'a word)" for j
    using tz(3) [OF that] tz(2) that by (auto simp: b)
  with tz(2) show "TrailingZeroes (to_bitmask (map P v) :: 'a word) < length v
      \<and> P (v ! TrailingZeroes (to_bitmask (map P v) :: 'a word))
      \<and> (\<forall>j < TrailingZeroes (to_bitmask (map P v) :: 'a word). \<not> P (v ! j))"
    by (auto simp: b)
qed

lemma vec_at_ok: "pos + VEC_LEN i \<le> length data \<Longrightarrow> \<exists>v. vec_at i data pos = Some v \<and> length v = VEC_LEN i
    \<and> v = take (VEC_LEN i) (drop pos data) \<and> (\<forall>j < VEC_LEN i. v ! j = data ! (pos + j))"
  by (simp add: vec_at_def)

lemma GetNextToken_spec:
  "len \<le> length data \<Longrightarrow> token_result data len tokens pos (GetNextToken i data len tokens pos)"
proof (induction i data len tokens pos rule: GetNextToken.induct)
  case (1 i data len tokens pos)
  show ?case
  proof (cases "pos + VEC_LEN i \<le> len")
    case False
    with token_tail_spec [OF 1(2)] show ?thesis by (simp add: GetNextToken.simps [of i data len tokens pos])
  next
    case True
    then have "pos + VEC_LEN i \<le> length data" using 1(2) by simp
    then obtain v where v: "vec_at i data pos = Some v" "length v = VEC_LEN i" "\<forall>j < VEC_LEN i. v ! j = data ! (pos + j)"
      using vec_at_ok by blast
    define next' where "next' = (to_bitmask (map (\<lambda>c. list_ex (\<lambda>t. c = t) tokens) v) :: u32)"
    have lv: "length v \<le> LENGTH(32)" using v(2) VEC_LEN_bounds(2) [of i] by simp
    note bf = block_first [OF lv, where P = "\<lambda>c. list_ex (\<lambda>t. c = t) tokens", folded next'_def]
    have step: "GetNextToken i data len tokens pos = (if next' \<noteq> 0 then do {
            c \<leftarrow> rd data (pos + TrailingZeroes next'); Some (c, pos + TrailingZeroes next') }
          else GetNextToken i data len tokens (pos + VEC_LEN i))"
      using True v(1) by (simp add: GetNextToken.simps [of i data len tokens pos] next'_def Let_def)
    show ?thesis
    proof (cases "next' = 0")
      case False
      let ?q = "pos + TrailingZeroes next'"
      have b: "TrailingZeroes next' < VEC_LEN i" "data ! ?q \<in> set tokens"
        "\<forall>j < TrailingZeroes next'. data ! (pos + j) \<notin> set tokens"
        using bf(2) [OF False] v by (auto simp: list_ex_iff)
      have q: "?q < len" using b(1) True by simp
      have "token_result data len tokens ?q (Some (data ! ?q, ?q))" by (rule token_result_at [OF q b(2)])
      then have "token_result data len tokens pos (Some (data ! ?q, ?q))"
      proof (rule token_result_from)
        show "data ! j \<notin> set tokens" if "pos \<le> j" "j < ?q" for j
          using b(3) [rule_format, of "j - pos"] that by simp
      qed (use q in simp_all)
      then show ?thesis unfolding step using False q 1(2) by (simp add: rd_def)
    next
      case z: True
      have no: "\<forall>j < VEC_LEN i. data ! (pos + j) \<notin> set tokens"
        using bf(1) z v by (auto simp: list_ex_iff)
      have "token_result data len tokens (pos + VEC_LEN i) (GetNextToken i data len tokens (pos + VEC_LEN i))"
        using 1(1) [OF True v(1)] z 1(2) by (simp add: next'_def)
      then have "token_result data len tokens pos (GetNextToken i data len tokens (pos + VEC_LEN i))"
      proof (rule token_result_from)
        show "data ! j \<notin> set tokens" if "pos \<le> j" "j < pos + VEC_LEN i" for j
          using no [rule_format, of "j - pos"] that by simp
      qed (use True in simp_all)
      then show ?thesis unfolding step using z by simp
    qed
  qed
qed

subsection \<open>Skipping a string\<close>

text \<open>
  \<open>SkipString\<close>: the result is 0 for a string that is not closed, 1 for a plain string and 2 for one
  with escapes, with the position behind the closing quote. The state of the block loop is the
  position, \<open>prev_escaped\<close> and \<open>found\<close>.
\<close>

function skip_string_tail :: "bytes \<Rightarrow> nat \<Rightarrow> nat \<Rightarrow> bool \<Rightarrow> (nat \<times> nat) option" where
  "skip_string_tail data len pos found =
     (if pos < len then (case rd data pos of
        None \<Rightarrow> None
      | Some c \<Rightarrow>
          if c = 0x5C then
            (if len \<le> pos + 1 then Some (0, pos) else skip_string_tail data len (pos + 2) True)
          else if c = 0x22 then Some (if found then 2 else 1, pos + 1)
          else skip_string_tail data len (pos + 1) found)
      else Some (0, pos))"
  by auto
termination by (relation "measure (\<lambda>(data, len, pos, found). len - pos)") auto

declare skip_string_tail.simps [simp del]

text \<open>One block: the quotes that count, the new \<open>prev_escaped\<close> and the new \<open>found\<close>.\<close>

definition string_block :: "isa \<Rightarrow> bytes \<Rightarrow> u64 \<Rightarrow> bool \<Rightarrow> u64 \<times> u64 \<times> bool" where
  "string_block i v prev_escaped found =
     (let bs_bits = to_bitmask (map (\<lambda>c. c = 0x5C) v);
          quote_bits = to_bitmask (map (\<lambda>c. c = 0x22) v)
      in if (quote_bits - 1) AND bs_bits \<noteq> 0 \<or> prev_escaped \<noteq> 0 then
           (let (escaped, prev_escaped) = GetEscaped (VEC_LEN i) prev_escaped bs_bits
            in (quote_bits AND NOT escaped, prev_escaped, True))
         else (quote_bits, prev_escaped, found))"

function skip_string_blocks :: "isa \<Rightarrow> bytes \<Rightarrow> nat \<Rightarrow> nat \<Rightarrow> u64 \<Rightarrow> bool \<Rightarrow> (nat \<times> nat) option" where
  "skip_string_blocks i data len pos prev_escaped found =
     (if pos + VEC_LEN i \<le> len then (case vec_at i data pos of
        None \<Rightarrow> None
      | Some v \<Rightarrow>
          let (quote_bits, prev_escaped, found) = string_block i v prev_escaped found
          in if quote_bits \<noteq> 0 then Some (if found then 2 else 1, pos + TrailingZeroes quote_bits + 1)
             else skip_string_blocks i data len (pos + VEC_LEN i) prev_escaped found)
      else skip_string_tail data len (if prev_escaped \<noteq> 0 then pos + 1 else pos) found)"
  by auto
termination
  by (relation "measure (\<lambda>(i, data, len, pos, prev, found). len - pos)") (auto simp: vec_less)

declare skip_string_blocks.simps [simp del]

definition SkipString :: "isa \<Rightarrow> bytes \<Rightarrow> nat \<Rightarrow> nat \<Rightarrow> (nat \<times> nat) option" where
  "SkipString i data len pos = skip_string_blocks i data len pos 0 False"

text \<open>
  The reference: the number of bytes before the closing quote. The flag says whether the next
  character is escaped.
\<close>

fun close_at :: "bool \<Rightarrow> bytes \<Rightarrow> nat option" where
  "close_at e [] = None"
| "close_at e (c # cs) = (if \<not> e \<and> c = 0x22 then Some 0 else map_option Suc (close_at (\<not> e \<and> c = 0x5C) cs))"

definition bs_flags :: "bytes \<Rightarrow> bool list" where "bs_flags = map (\<lambda>c. c = 0x5C)"

lemma bs_flags_simps [simp]: "bs_flags [] = []" "bs_flags (c # cs) = (c = 0x5C) # bs_flags cs"
  "length (bs_flags cs) = length cs"
  by (simp_all add: bs_flags_def)

lemma close_at_append:
  "close_at e (xs @ ys) = (case close_at e xs of Some n \<Rightarrow> Some n
     | None \<Rightarrow> map_option (\<lambda>n. length xs + n) (close_at (esc_next e (bs_flags xs)) ys))"
proof (induction e xs rule: close_at.induct)
  case (1 e)
  show ?case by (cases "close_at e ys") simp_all
next
  case (2 e c cs)
  then show ?case by (auto simp: option.map_comp o_def intro!: option.map_cong split: option.splits)
qed

text \<open>The quotes of a text that are not escaped.\<close>

definition real_quote :: "bool \<Rightarrow> bytes \<Rightarrow> nat \<Rightarrow> bool" where
  "real_quote e v j \<longleftrightarrow> j < length v \<and> v ! j = 0x22 \<and> \<not> esc_flags e (bs_flags v) ! j"

lemma real_quote_Cons:
  "real_quote e (c # cs) j \<longleftrightarrow> (case j of 0 \<Rightarrow> \<not> e \<and> c = 0x22 | Suc k \<Rightarrow> real_quote (\<not> e \<and> c = 0x5C) cs k)"
  by (cases j) (auto simp: real_quote_def)

lemma close_at_quote:
  "case close_at e v of Some n \<Rightarrow> real_quote e v n \<and> (\<forall>j < n. \<not> real_quote e v j)
     | None \<Rightarrow> \<forall>j. \<not> real_quote e v j"
proof (induction e v rule: close_at.induct)
  case (2 e c cs)
  then show ?case
    by (auto simp: real_quote_Cons less_Suc_eq_0_disj split: option.splits nat.splits)
qed (simp add: real_quote_def)

lemma close_at_eqI: "real_quote e v n \<Longrightarrow> (\<And>j. j < n \<Longrightarrow> \<not> real_quote e v j) \<Longrightarrow> close_at e v = Some n"
  using close_at_quote [of e v] by (auto split: option.splits) (metis linorder_neqE_nat)

lemma close_at_noneI: "(\<And>j. \<not> real_quote e v j) \<Longrightarrow> close_at e v = None"
  using close_at_quote [of e v] by (auto split: option.splits)

lemma esc_flags_clear: "j < length bs \<Longrightarrow> (\<And>l. l < j \<Longrightarrow> \<not> bs ! l) \<Longrightarrow> \<not> esc_flags False bs ! j"
proof (induction bs arbitrary: j)
  case (Cons b bs)
  show ?case
  proof (cases j)
    case (Suc k)
    have "\<not> bs ! l" if "l < k" for l using Cons.prems(2) [of "Suc l"] that Suc by simp
    with Cons.IH [of k] Cons.prems(1) Cons.prems(2) [of 0] Suc show ?thesis by auto
  qed simp
qed simp

lemma esc_next_clear: "True \<notin> set bs \<Longrightarrow> \<not> esc_next False bs"
  by (induction bs) auto

lemma string_block_spec:
  assumes len: "length v = VEC_LEN i" and ef: "e \<Longrightarrow> found"
    and r: "string_block i v (one_bit e) found = (q, prev', found')"
  shows "case close_at e v of
      Some n \<Rightarrow> q \<noteq> 0 \<and> TrailingZeroes q = n \<and> (found' \<longleftrightarrow> found \<or> 0x5C \<in> set (take n v))
    | None \<Rightarrow> q = 0 \<and> prev' = one_bit (esc_next e (bs_flags v)) \<and> (found' \<longleftrightarrow> found \<or> 0x5C \<in> set v)"
proof -
  let ?L = "VEC_LEN i"
  have L: "0 < ?L" "?L \<le> 64" using VEC_LEN_bounds [of i] by linarith+
  define bs where "bs = (to_bitmask (bs_flags v) :: u64)"
  define qt where "qt = (to_bitmask (map (\<lambda>c. c = 0x22) v) :: u64)"
  have b: "bit bs j \<longleftrightarrow> j < ?L \<and> v ! j = 0x5C" and q0: "bit qt j \<longleftrightarrow> j < ?L \<and> v ! j = 0x22" for j
    using len L by (auto simp: bs_def qt_def bit_to_bitmask bs_flags_def)
  have "qt AND bs = 0" by (rule bit_word_eqI) (auto simp: bit_and_iff b q0)
  from minus_1_and [OF this]
  have early: "(qt - 1) AND bs \<noteq> 0 \<longleftrightarrow> (\<exists>j < ?L. v ! j = 0x5C \<and> (\<forall>l \<le> j. v ! l \<noteq> 0x22))"
    using L by (auto simp: b q0) (metis le_less_trans)+
  have run: "string_block i v (one_bit e) found
     = (if (qt - 1) AND bs \<noteq> 0 \<or> e then (qt AND NOT (fst (GetEscaped ?L (one_bit e) bs)), snd (GetEscaped ?L (one_bit e) bs), True)
        else (qt, one_bit e, found))"
    by (simp add: string_block_def Let_def bs_def qt_def bs_flags_def one_bit_def case_prod_beta)
  show ?thesis
  proof (cases "(qt - 1) AND bs \<noteq> 0 \<or> e")
    case True
    have lb: "length (bs_flags v) = ?L" using len by simp
    note ge = GetEscaped_block [OF lb L(1) L(2), where p = e, folded bs_def]
    have qp: "q = qt AND NOT (fst (GetEscaped ?L (one_bit e) bs))" "prev' = one_bit (esc_next e (bs_flags v))" "found'"
      using r run True ge(1) by simp_all
    have qb: "bit q j \<longleftrightarrow> real_quote e v j" for j
      using ge(2) [of j] L len by (auto simp: qp(1) bit_and_iff bit_not_iff q0 real_quote_def)
    have fo: "found \<or> (\<exists>j < ?L. v ! j = 0x5C \<and> (\<forall>l \<le> j. v ! l \<noteq> 0x22))" using True ef early by blast
    show ?thesis
    proof (cases "close_at e v")
      case None
      then have "\<not> bit q j" for j using close_at_quote [of e v] by (simp add: qb)
      then have "q = 0" by (auto intro: bit_word_eqI)
      moreover have "found \<or> 0x5C \<in> set v" using fo len by (auto simp: in_set_conv_nth)
      ultimately show ?thesis using None qp by simp
    next
      case (Some n)
      then have n: "real_quote e v n" "\<And>j. j < n \<Longrightarrow> \<not> real_quote e v j" using close_at_quote [of e v] by auto
      have "n < 64" using n(1) len L by (simp add: real_quote_def)
      then have "TrailingZeroes q = n" using n by (intro TrailingZeroes_eqI) (simp_all add: qb)
      moreover have "q \<noteq> 0" using n(1) qb [of n] by auto
      moreover have "found \<or> 0x5C \<in> set (take n v)"
      proof -
        have "j < n" if "\<forall>l \<le> j. v ! l \<noteq> 0x22" for j
          using that n(1) by (meson real_quote_def not_le)
        then show ?thesis using fo len by (auto simp: in_set_conv_nth)
      qed
      ultimately show ?thesis using Some qp by simp
    qed
  next
    case False
    then have e: "\<not> e" and no: "\<And>j. j < ?L \<Longrightarrow> v ! j = 0x5C \<Longrightarrow> \<exists>l \<le> j. v ! l = 0x22"
      using early by blast+
    have qp: "q = qt" "prev' = one_bit e" "found' = found" using r run False by simp_all
    show ?thesis
    proof (cases "qt = 0")
      case True
      then have nq: "\<And>j. j < ?L \<Longrightarrow> v ! j \<noteq> 0x22" using q0 by auto
      have nb: "0x5C \<notin> set v"
      proof
        assume "0x5C \<in> set v"
        then obtain j where "j < ?L" "v ! j = 0x5C" using len by (auto simp: in_set_conv_nth)
        with no nq show False by (meson le_less_trans)
      qed
      then have "True \<notin> set (bs_flags v)" by (auto simp: bs_flags_def)
      then have "esc_next e (bs_flags v) = e" using esc_next_clear e by simp
      moreover have "close_at e v = None" using nq len by (intro close_at_noneI) (auto simp: real_quote_def)
      ultimately show ?thesis using True qp nb by simp
    next
      case nz: False
      define n where "n = TrailingZeroes qt"
      note tz = TrailingZeroes_nonzero [OF nz, folded n_def]
      have n: "n < ?L" "v ! n = 0x22" using tz(2) by (simp_all add: q0)
      have nq: "v ! j \<noteq> 0x22" if "j < n" for j using tz(3) [OF that] that n(1) by (simp add: q0)
      have nb: "v ! j \<noteq> 0x5C" if j: "j < n" for j
      proof
        assume "v ! j = 0x5C"
        then obtain l where "l \<le> j" "v ! l = 0x22" using no [of j] j n(1) by auto
        with nq [of l] j show False by simp
      qed
      have "\<not> esc_flags False (bs_flags v) ! n"
        by (rule esc_flags_clear) (use n(1) len nb in \<open>auto simp: bs_flags_def\<close>)
      then have "close_at e v = Some n"
        using n len nq e by (intro close_at_eqI) (auto simp: real_quote_def)
      moreover have "0x5C \<notin> set (take n v)" using nb by (auto simp: in_set_conv_nth)
      ultimately show ?thesis using qp nz n_def by simp
    qed
  qed
qed

text \<open>The text from \<open>pos\<close> to \<open>len\<close>.\<close>

definition text_at :: "bytes \<Rightarrow> nat \<Rightarrow> nat \<Rightarrow> bytes" where
  "text_at data len pos = take (len - pos) (drop pos data)"

lemma text_at_Cons: "pos < len \<Longrightarrow> len \<le> length data \<Longrightarrow> text_at data len pos = data ! pos # text_at data len (pos + 1)"
proof -
  assume "pos < len" "len \<le> length data"
  then have "drop pos data = data ! pos # drop (pos + 1) data" "len - pos = Suc (len - (pos + 1))"
    by (simp_all add: Cons_nth_drop_Suc)
  then show ?thesis by (simp add: text_at_def)
qed

lemma text_at_end [simp]: "len \<le> pos \<Longrightarrow> text_at data len pos = []"
  by (simp add: text_at_def)

lemma text_at_block:
  assumes "pos + n \<le> len" and "len \<le> length data"
  shows "text_at data len pos = take n (drop pos data) @ text_at data len (pos + n)"
proof -
  have "len - pos = n + (len - (pos + n))" using assms by simp
  then show ?thesis by (simp add: text_at_def take_add add.commute)
qed

text \<open>The result of skipping a string from \<open>pos\<close>, in terms of its text.\<close>

definition string_result :: "bool \<Rightarrow> bool \<Rightarrow> bytes \<Rightarrow> nat \<Rightarrow> (nat \<times> nat) option \<Rightarrow> bool" where
  "string_result e found cs pos r \<longleftrightarrow> (case close_at e cs of
     Some n \<Rightarrow> r = Some (if found \<or> 0x5C \<in> set (take n cs) then 2 else 1, pos + n + 1)
   | None \<Rightarrow> \<exists>p. r = Some (0, p))"

lemma string_result_append:
  assumes "close_at e xs = None"
    and "string_result (esc_next e (bs_flags xs)) (found \<or> 0x5C \<in> set xs) ys (pos + length xs) r"
  shows "string_result e found (xs @ ys) pos r"
  using assms by (auto simp: string_result_def close_at_append add.assoc split: option.splits)

lemma skip_string_tail_spec:
  assumes "len \<le> length data"
  shows "string_result False found (text_at data len pos) pos (skip_string_tail data len pos found)"
  using assms
proof (induction data len pos found rule: skip_string_tail.induct)
  case (1 data len pos found)
  note run = skip_string_tail.simps [of data len pos found]
  show ?case
  proof (cases "pos < len")
    case False
    then show ?thesis by (simp add: run string_result_def)
  next
    case True
    let ?c = "data ! pos"
    have rc: "rd data pos = Some ?c" using True 1(3) by (simp add: rd_def)
    note tx = text_at_Cons [OF True 1(3)]
    consider "?c = 0x5C" "len \<le> pos + 1" | (esc) "?c = 0x5C" "pos + 1 < len" | "?c = 0x22" | (other) "?c \<noteq> 0x5C" "?c \<noteq> 0x22"
      by fastforce
    then show ?thesis
    proof cases
      case 1
      then show ?thesis using True rc by (simp add: run tx string_result_def)
    next
      case esc
      have tx2: "text_at data len (pos + 1) = data ! (pos + 1) # text_at data len (pos + 2)"
        using text_at_Cons [of "pos + 1" len data] esc(2) 1(3) by simp
      have "string_result False True (text_at data len (pos + 2)) (pos + 2) (skip_string_tail data len (pos + 2) True)"
        using 1(1) [OF True rc esc(1)] esc(2) 1(3) by simp
      then have "string_result False found ([?c, data ! (pos + 1)] @ text_at data len (pos + 2)) pos
          (skip_string_tail data len (pos + 2) True)"
        using esc(1) by (intro string_result_append) simp_all
      then show ?thesis using True rc esc tx tx2 by (simp add: run)
    next
      case 3
      then show ?thesis using True rc by (simp add: run tx string_result_def)
    next
      case other
      have "string_result False found (text_at data len (pos + 1)) (pos + 1) (skip_string_tail data len (pos + 1) found)"
        using 1(2) [OF True rc other] 1(3) by simp
      then have "string_result False found ([?c] @ text_at data len (pos + 1)) pos (skip_string_tail data len (pos + 1) found)"
        using other by (intro string_result_append) simp_all
      then show ?thesis using True rc other tx by (simp add: run)
    qed
  qed
qed

lemma skip_string_blocks_spec:
  assumes "len \<le> length data" and "e \<Longrightarrow> found"
  shows "string_result e found (text_at data len pos) pos (skip_string_blocks i data len pos (one_bit e) found)"
  using assms
proof (induction "len - pos" arbitrary: pos e found rule: less_induct)
  case less
  note run = skip_string_blocks.simps [of i data len pos "one_bit e" found]
  show ?case
  proof (cases "pos + VEC_LEN i \<le> len")
    case False
    show ?thesis
    proof (cases e)
      case False
      with \<open>\<not> pos + VEC_LEN i \<le> len\<close> skip_string_tail_spec [OF less.prems(1), of found pos]
      show ?thesis unfolding run by (simp add: one_bit_def)
    next
      case True
      note f = less.prems(2) [OF True]
      have "string_result True found (text_at data len pos) pos (skip_string_tail data len (pos + 1) found)"
      proof (cases "pos < len")
        case lt: True
        have "string_result True found ([data ! pos] @ text_at data len (pos + 1)) pos (skip_string_tail data len (pos + 1) found)"
          using skip_string_tail_spec [OF less.prems(1), of found "pos + 1"] f by (intro string_result_append) simp_all
        then show ?thesis using text_at_Cons [OF lt less.prems(1)] by simp
      next
        case nlt: False
        then show ?thesis by (simp add: string_result_def skip_string_tail.simps [of data len "Suc pos"])
      qed
      then show ?thesis unfolding run using False True by (simp add: one_bit_def)
    qed
  next
    case True
    then obtain v where v: "vec_at i data pos = Some v" "length v = VEC_LEN i" "v = take (VEC_LEN i) (drop pos data)"
      using vec_at_ok [of pos i data] less.prems(1) by auto
    obtain q pe f where sb: "string_block i v (one_bit e) found = (q, pe, f)" by (metis prod_cases3)
    note spec = string_block_spec [OF v(2) less.prems(2) sb]
    have tx: "text_at data len pos = v @ text_at data len (pos + VEC_LEN i)"
      unfolding v(3) by (rule text_at_block [OF True less.prems(1)])
    show ?thesis
    proof (cases "close_at e v")
      case (Some n)
      have "n < length v" using Some close_at_quote [of e v] by (simp add: real_quote_def)
      with Some spec True v sb show ?thesis
        by (simp add: run tx string_result_def close_at_append)
    next
      case None
      have "string_result (esc_next e (bs_flags v)) f (text_at data len (pos + VEC_LEN i)) (pos + VEC_LEN i)
        (skip_string_blocks i data len (pos + VEC_LEN i) (one_bit (esc_next e (bs_flags v))) f)"
      proof (rule less.hyps [OF vec_less [OF True] less.prems(1)])
        assume "esc_next e (bs_flags v)"
        then have "e \<or> 0x5C \<in> set v" using esc_next_clear [of "bs_flags v"] by (cases e) (auto simp: bs_flags_def)
        moreover have "f \<longleftrightarrow> found \<or> 0x5C \<in> set v" using spec None by simp
        ultimately show f using less.prems(2) by blast
      qed
      then have "string_result e found (v @ text_at data len (pos + VEC_LEN i)) pos
        (skip_string_blocks i data len (pos + VEC_LEN i) (one_bit (esc_next e (bs_flags v))) f)"
        using spec None v(2) by (intro string_result_append) simp_all
      then show ?thesis using spec None True v(1) sb tx by (simp add: run)
    qed
  qed
qed

lemma SkipString_spec:
  "len \<le> length data \<Longrightarrow> string_result False False (text_at data len pos) pos (SkipString i data len pos)"
  using skip_string_blocks_spec [of len data False False pos i] by (simp add: SkipString_def one_bit_def)

subsection \<open>Skipping a container\<close>

text \<open>\<open>GetStringBits\<close>: the bytes inside strings, with the carried \<open>prev_instring\<close> (all ones or 0) and
  \<open>prev_escaped\<close>.\<close>

definition GetStringBits :: "bytes \<Rightarrow> u64 \<Rightarrow> u64 \<Rightarrow> u64 \<times> u64 \<times> u64" where
  "GetStringBits v prev_instring prev_escaped =
     (let bs_bits = to_bitmask (map (\<lambda>c. c = 0x5C) v);
          (escaped, prev_escaped) = (if bs_bits \<noteq> 0 then GetEscaped 64 prev_escaped bs_bits else (prev_escaped, 0));
          quote_bits = to_bitmask (map (\<lambda>c. c = 0x22) v) AND NOT escaped;
          in_string = PrefixXor quote_bits XOR prev_instring
      in (in_string, signed_drop_bit 63 in_string, prev_escaped))"

text \<open>The loop over the closing brackets of a block: the position behind the one that closes the
  container, or the new number of closing brackets.\<close>

function close_loop :: "u64 \<Rightarrow> u64 \<Rightarrow> nat \<Rightarrow> nat \<Rightarrow> nat + nat" where
  "close_loop rbrace lbrace last_lbrace_num rbrace_num =
     (if rbrace = 0 then Inr rbrace_num
      else if last_lbrace_num + CountOnes ((rbrace - 1) AND lbrace) < rbrace_num + 1
      then Inl (TrailingZeroes rbrace + 1)
      else close_loop (rbrace AND (rbrace - 1)) lbrace last_lbrace_num (rbrace_num + 1))"
  by auto
termination
proof (relation "measure (\<lambda>(rbrace, lbrace, last, r). CountOnes rbrace)", simp)
  fix rbrace lbrace :: u64 and l r :: nat
  assume nz: "rbrace \<noteq> 0"
  note tz = TrailingZeroes_nonzero [OF nz]
  have "{i. i < 64 \<and> bit (ClearLowestBit rbrace) i} \<subset> {i. i < 64 \<and> bit rbrace i}"
    using tz by (auto simp: bit_ClearLowestBit [OF nz])
  then have "CountOnes (ClearLowestBit rbrace) < CountOnes rbrace"
    unfolding CountOnes_eq by (intro psubset_card_mono) simp_all
  then show "((rbrace AND (rbrace - 1), lbrace, l, r + 1), rbrace, lbrace, l, r)
    \<in> measure (\<lambda>(rbrace, lbrace, last, r). CountOnes rbrace)" by (simp add: ClearLowestBit_def)
qed

declare close_loop.simps [simp del]

record container_state =
  prev_instring :: u64
  prev_escaped :: u64
  lbrace_num :: nat
  rbrace_num :: nat

text \<open>\<open>SKIP_LOOP\<close> on one block.\<close>

definition skip_loop :: "u8 \<Rightarrow> u8 \<Rightarrow> bytes \<Rightarrow> container_state \<Rightarrow> nat + container_state" where
  "skip_loop left right v st =
     (let (instring, pi, pe) = GetStringBits v (prev_instring st) (prev_escaped st);
          rbrace = to_bitmask (map (\<lambda>c. c = right) v) AND NOT instring;
          lbrace = to_bitmask (map (\<lambda>c. c = left) v) AND NOT instring
      in case close_loop rbrace lbrace (lbrace_num st) (rbrace_num st) of
           Inl n \<Rightarrow> Inl n
         | Inr r \<Rightarrow> Inr \<lparr>prev_instring = pi, prev_escaped = pe,
                          lbrace_num = lbrace_num st + CountOnes lbrace, rbrace_num = r\<rparr>)"

definition block_at :: "bytes \<Rightarrow> nat \<Rightarrow> bytes option" where
  "block_at data pos = (if pos + 64 \<le> length data then Some (take 64 (drop pos data)) else None)"

function skip_container_blocks :: "bytes \<Rightarrow> nat \<Rightarrow> u8 \<Rightarrow> u8 \<Rightarrow> nat \<Rightarrow> container_state \<Rightarrow> (bool \<times> nat) option" where
  "skip_container_blocks data len left right pos st =
     (if pos + 64 \<le> len then (case block_at data pos of
        None \<Rightarrow> None
      | Some v \<Rightarrow> (case skip_loop left right v st of
            Inl n \<Rightarrow> Some (True, pos + n)
          | Inr st' \<Rightarrow> skip_container_blocks data len left right (pos + 64) st'))
      else if len < pos \<or> length data < len then None
      else (case skip_loop left right (take (len - pos) (drop pos data) @ replicate (64 - (len - pos)) 0) st of
            Inl n \<Rightarrow> Some (True, pos + n)
          | Inr st' \<Rightarrow> Some (False, pos)))"
  by auto
termination by (relation "measure (\<lambda>(data, len, left, right, pos, st). len - pos)") auto

declare skip_container_blocks.simps [simp del]

definition SkipContainer :: "bytes \<Rightarrow> nat \<Rightarrow> u8 \<Rightarrow> u8 \<Rightarrow> nat \<Rightarrow> (bool \<times> nat) option" where
  "SkipContainer data len left right pos = skip_container_blocks data len left right pos
     \<lparr>prev_instring = 0, prev_escaped = 0, lbrace_num = 0, rbrace_num = 0\<rparr>"

definition SkipArray :: "bytes \<Rightarrow> nat \<Rightarrow> nat \<Rightarrow> (bool \<times> nat) option" where
  "SkipArray data len pos = SkipContainer data len 0x5B 0x5D pos"

definition SkipObject :: "bytes \<Rightarrow> nat \<Rightarrow> nat \<Rightarrow> (bool \<times> nat) option" where
  "SkipObject data len pos = SkipContainer data len 0x7B 0x7D pos"

text \<open>
  The reference reads byte by byte: whether the current character is in a string, whether it is
  escaped, and the number of brackets open. It returns the number of bytes up to the closing
  bracket, or the state at the end.
\<close>

fun container_at :: "u8 \<Rightarrow> u8 \<Rightarrow> bool \<Rightarrow> bool \<Rightarrow> nat \<Rightarrow> bytes \<Rightarrow> nat + bool \<times> bool \<times> nat" where
  "container_at l r ins e d [] = Inr (ins, e, d)"
| "container_at l r ins e d (c # cs) =
     (let ins' = (ins \<noteq> (c = 0x22 \<and> \<not> e));
          e' = (\<not> e \<and> c = 0x5C)
      in if \<not> ins' \<and> c = r then (if d = 0 then Inl 1 else map_sum Suc id (container_at l r ins' e' (d - 1) cs))
         else if \<not> ins' \<and> c = l then map_sum Suc id (container_at l r ins' e' (d + 1) cs)
         else map_sum Suc id (container_at l r ins' e' d cs))"

text \<open>The same reading in two passes: which bytes are in strings, then the brackets outside them.\<close>

fun ins_list :: "bool \<Rightarrow> bool \<Rightarrow> bytes \<Rightarrow> bool list" where
  "ins_list ins e [] = []"
| "ins_list ins e (c # cs) = (ins \<noteq> (c = 0x22 \<and> \<not> e)) # ins_list (ins \<noteq> (c = 0x22 \<and> \<not> e)) (\<not> e \<and> c = 0x5C) cs"

fun bracket_scan :: "nat \<Rightarrow> (bool \<times> bool) list \<Rightarrow> nat + nat" where
  "bracket_scan d [] = Inr d"
| "bracket_scan d ((l, r) # fs) =
     (if r then (if d = 0 then Inl 1 else map_sum Suc id (bracket_scan (d - 1) fs))
      else map_sum Suc id (bracket_scan (if l then d + 1 else d) fs))"

definition bracket_flags :: "u8 \<Rightarrow> u8 \<Rightarrow> bool \<Rightarrow> bool \<Rightarrow> bytes \<Rightarrow> (bool \<times> bool) list" where
  "bracket_flags l r ins e cs = map2 (\<lambda>c s. (c = l \<and> \<not> s, c = r \<and> \<not> s)) cs (ins_list ins e cs)"

fun ins_next :: "bool \<Rightarrow> bool \<Rightarrow> bytes \<Rightarrow> bool" where
  "ins_next ins e [] = ins"
| "ins_next ins e (c # cs) = ins_next (ins \<noteq> (c = 0x22 \<and> \<not> e)) (\<not> e \<and> c = 0x5C) cs"

lemma length_ins_list [simp]: "length (ins_list ins e cs) = length cs"
  by (induction ins e cs rule: ins_list.induct) simp_all

lemma map_sum_Suc_add: "map_sum Suc id (map_sum (\<lambda>n. k + n) id x) = map_sum (\<lambda>n. Suc k + n) id x"
  by (cases x) simp_all

lemma container_at_step:
  assumes "i2 = (ins \<noteq> (c = 0x22 \<and> \<not> e))" and "e2 = (\<not> e \<and> c = 0x5C)"
  shows "container_at l r ins e d (c # cs) =
     (if \<not> i2 \<and> c = r \<and> d = 0 then Inl 1
      else map_sum Suc id (container_at l r i2 e2 (if \<not> i2 \<and> c = r then d - 1 else if \<not> i2 \<and> c = l then d + 1 else d) cs))"
  using assms by (auto simp: Let_def)

lemma container_at_scan:
  "container_at l r ins e d cs = (case bracket_scan d (bracket_flags l r ins e cs) of
     Inl n \<Rightarrow> Inl n | Inr d' \<Rightarrow> Inr (ins_next ins e cs, esc_next e (bs_flags cs), d'))"
proof (induction cs arbitrary: ins e d)
  case (Cons c cs)
  obtain i2 e2 where i2: "i2 = (ins \<noteq> (c = 0x22 \<and> \<not> e))" and e2: "e2 = (\<not> e \<and> c = 0x5C)" by blast
  let ?d = "if \<not> i2 \<and> c = r then d - 1 else if \<not> i2 \<and> c = l then d + 1 else d"
  have ends: "ins_next ins e (c # cs) = ins_next i2 e2 cs" "esc_next e (bs_flags (c # cs)) = esc_next e2 (bs_flags cs)"
    by (simp_all add: i2 e2)
  have "bracket_flags l r ins e (c # cs) = (c = l \<and> \<not> i2, c = r \<and> \<not> i2) # bracket_flags l r i2 e2 cs"
    by (simp add: bracket_flags_def i2 e2)
  then have b: "bracket_scan d (bracket_flags l r ins e (c # cs)) =
    (if \<not> i2 \<and> c = r \<and> d = 0 then Inl 1 else map_sum Suc id (bracket_scan ?d (bracket_flags l r i2 e2 cs)))"
    by auto
  show ?case
    unfolding container_at_step [OF i2 e2] b ends Cons.IH
    by (cases "bracket_scan ?d (bracket_flags l r i2 e2 cs)") simp_all
qed (simp add: bracket_flags_def)

lemma container_at_append:
  "container_at l r ins e d (xs @ ys) = (case container_at l r ins e d xs of
     Inl n \<Rightarrow> Inl n
   | Inr (ins', e', d') \<Rightarrow> map_sum (\<lambda>n. length xs + n) id (container_at l r ins' e' d' ys))"
proof (induction xs arbitrary: ins e d)
  case Nil
  show ?case by (cases "container_at l r ins e d ys") simp_all
next
  case (Cons c cs)
  obtain i2 e2 where i2: "i2 = (ins \<noteq> (c = 0x22 \<and> \<not> e))" and e2: "e2 = (\<not> e \<and> c = 0x5C)" by blast
  let ?d = "if \<not> i2 \<and> c = r then d - 1 else if \<not> i2 \<and> c = l then d + 1 else d"
  have plus: "(+) (Suc (length cs)) = (\<lambda>n. Suc (length cs + n))" by (simp add: fun_eq_iff)
  show ?case
    unfolding append_Cons container_at_step [OF i2 e2] Cons.IH
    by (cases "container_at l r i2 e2 ?d cs") (auto simp: map_sum_Suc_add plus)
qed

lemma ins_list_parity:
  "ins_list ins e cs = parity_flags ins (map2 (\<lambda>c s. c = 0x22 \<and> \<not> s) cs (esc_flags e (bs_flags cs)))"
  by (induction ins e cs rule: ins_list.induct) simp_all

lemma ins_next_last: "cs \<noteq> [] \<Longrightarrow> ins_next ins e cs = ins_list ins e cs ! (length cs - 1)"
proof (induction ins e cs rule: ins_next.induct)
  case (2 ins e c cs)
  then show ?case by (cases cs) simp_all
qed simp

definition all_ones :: "bool \<Rightarrow> u64" where "all_ones p = (if p then - 1 else 0)"

lemma bit_all_ones: "bit (all_ones p) j \<longleftrightarrow> p \<and> j < 64"
  by (simp add: all_ones_def)

lemma signed_drop_63: "signed_drop_bit 63 (w :: u64) = all_ones (bit w 63)"
proof (rule bit_word_eqI)
  fix n assume "n < LENGTH(64)"
  then show "bit (signed_drop_bit 63 w) n \<longleftrightarrow> bit (all_ones (bit w 63)) n"
    by (cases n) (simp_all add: bit_signed_drop_bit_iff bit_all_ones)
qed

lemma GetStringBits_spec:
  assumes len: "length v = 64"
  shows "\<exists>s. GetStringBits v (all_ones ins) (one_bit e)
      = (s, all_ones (ins_next ins e v), one_bit (esc_next e (bs_flags v)))
    \<and> (\<forall>j < 64. bit s j \<longleftrightarrow> ins_list ins e v ! j)"
proof -
  define bs where "bs = (to_bitmask (bs_flags v) :: u64)"
  have lb: "length (bs_flags v) = 64" using len by simp
  note ge = GetEscaped_block [OF lb, where p = e, folded bs_def]
  let ?esc = "if bs \<noteq> 0 then GetEscaped 64 (one_bit e) bs else (one_bit e, 0)"
  have esc: "snd ?esc = one_bit (esc_next e (bs_flags v)) \<and> (\<forall>j < 64. bit (fst ?esc) j \<longleftrightarrow> esc_flags e (bs_flags v) ! j)"
  proof (cases "bs = 0")
    case False
    with ge show ?thesis by simp
  next
    case True
    then have no: "True \<notin> set (bs_flags v)" using to_bitmask_eq_0 [of "bs_flags v", where ?'a = 64] lb by (simp add: bs_def)
    obtain c cs where v: "v = c # cs" using len by (cases v) auto
    have no': "True \<notin> set (bs_flags cs)" "c \<noteq> 0x5C" using no v by (auto simp: bs_flags_def)
    have "\<not> esc_next e (bs_flags v)" using esc_next_clear [OF no'(1)] no'(2) v by simp
    moreover have "bit (one_bit e) j \<longleftrightarrow> esc_flags e (bs_flags v) ! j" if "j < 64" for j
    proof (cases j)
      case (Suc k)
      have k: "k < length (bs_flags cs)" using that Suc len v by simp
      have "\<not> bs_flags cs ! n" if "n < k" for n
      proof -
        have "bs_flags cs ! n \<in> set (bs_flags cs)" using that k by (intro nth_mem) simp
        with no'(1) show ?thesis by metis
      qed
      with k have "\<not> esc_flags False (bs_flags cs) ! k" by (rule esc_flags_clear)
      with Suc no'(2) v show ?thesis by (simp add: bit_one_bit)
    qed (simp add: v bit_one_bit)
    ultimately show ?thesis using True by (simp add: one_bit_def)
  qed
  define qf where "qf = map2 (\<lambda>c s. c = 0x22 \<and> \<not> s) v (esc_flags e (bs_flags v))"
  have lq: "length qf = 64" using len by (simp add: qf_def)
  have qb: "to_bitmask (map (\<lambda>c. c = 0x22) v) AND NOT (fst ?esc) = (to_bitmask qf :: u64)"
    by (rule bit_word_eqI) (use esc len lq in \<open>auto simp: bit_and_iff bit_not_iff bit_to_bitmask qf_def\<close>)
  let ?s = "PrefixXor (to_bitmask qf) XOR all_ones ins"
  have bits: "bit ?s j \<longleftrightarrow> ins_list ins e v ! j" if "j < 64" for j
  proof -
    have "bit ?s j \<longleftrightarrow> (parity_flags False qf ! j \<noteq> ins)"
      using PrefixXor_to_bitmask [OF lq that] that by (auto simp: bit_xor_iff bit_all_ones)
    also have "\<dots> \<longleftrightarrow> parity_flags ins qf ! j"
      using that lq parity_at_xor [of ins "(!) qf" j] by (simp add: parity_flags_nth)
    finally show ?thesis by (simp add: ins_list_parity qf_def)
  qed
  have "bit ?s 63 \<longleftrightarrow> ins_next ins e v" using bits [of 63] len ins_next_last [of v ins e] by (cases v) auto
  moreover have "GetStringBits v (all_ones ins) (one_bit e)
      = (PrefixXor (to_bitmask (map (\<lambda>c. c = 0x22) v) AND NOT (fst ?esc)) XOR all_ones ins,
         signed_drop_bit 63 (PrefixXor (to_bitmask (map (\<lambda>c. c = 0x22) v) AND NOT (fst ?esc)) XOR all_ones ins), snd ?esc)"
    by (simp add: GetStringBits_def Let_def case_prod_beta bs_def bs_flags_def)
  ultimately show ?thesis using bits esc unfolding qb signed_drop_63 by (intro exI [of _ ?s]) simp
qed

lemma close_loop_spec:
  assumes "k \<le> 64" and "\<And>j. j < 64 \<Longrightarrow> bit w j \<longleftrightarrow> k \<le> j \<and> R j" and "\<And>j. j < 64 \<Longrightarrow> bit lb j \<longleftrightarrow> L j"
    and "\<And>j. \<not> (L j \<and> R j)" and "l0 + card {j. j < k \<and> L j} = rn + d"
  shows "case bracket_scan d (map (\<lambda>j. (L j, R j)) [k..<64]) of
      Inl n \<Rightarrow> close_loop w lb l0 rn = Inl (k + n)
    | Inr d' \<Rightarrow> \<exists>r'. close_loop w lb l0 rn = Inr r' \<and> l0 + CountOnes lb = r' + d'"
  using assms(1,2,5)
proof (induction "64 - k" arbitrary: k w rn d)
  case 0
  then have "k = 64" by simp
  then have "w = 0" using 0 by (intro bit_word_eqI) simp
  moreover have "CountOnes lb = card {j. j < 64 \<and> L j}"
    unfolding CountOnes_eq using assms(3) by (intro arg_cong [where f = card]) auto
  ultimately show ?case using 0 \<open>k = 64\<close> by (simp add: close_loop.simps)
next
  case (Suc m)
  have k: "k < 64" "m = 64 - Suc k" "Suc k \<le> 64" using Suc.hyps(2) by simp_all
  have up: "[k..<64] = k # [Suc k..<64]" using k(1) by (rule upt_conv_Cons)
  have fin: "finite {j. j < k \<and> L j}" by simp
  have sucs: "{j. j < Suc k \<and> L j} = (if L k then insert k {j. j < k \<and> L j} else {j. j < k \<and> L j})"
    by (auto simp: less_Suc_eq)
  show ?case
  proof (cases "R k")
    case False
    have w: "bit w j \<longleftrightarrow> Suc k \<le> j \<and> R j" if "j < 64" for j
      using Suc.prems(2) [OF that] False by (metis Suc_leD le_antisym not_less_eq_eq)
    have inv: "l0 + card {j. j < Suc k \<and> L j} = rn + (if L k then d + 1 else d)"
      using Suc.prems(3) sucs by simp
    let ?b = "bracket_scan (if L k then d + 1 else d) (map (\<lambda>j. (L j, R j)) [Suc k..<64])"
    have "bracket_scan d (map (\<lambda>j. (L j, R j)) [k..<64]) = map_sum Suc id ?b"
      using False up by simp
    with Suc.hyps(1) [OF k(2,3) w inv] show ?thesis by (cases ?b) simp_all
  next
    case True
    then have bk: "bit w k" using Suc.prems(2) [OF k(1)] by simp
    then have nz: "w \<noteq> 0" by auto
    have tz: "TrailingZeroes w = k"
      by (rule TrailingZeroes_eqI) (use k(1) bk Suc.prems(2) in auto)
    have nl: "\<not> L k" using assms(4) True by blast
    have b: "bit ((w - 1) AND lb) j \<longleftrightarrow> j < k \<and> L j" if "j < 64" for j
      using bit_minus_1 [OF nz, of j] that tz assms(3) [OF that] assms(4) [of j] Suc.prems(2) [OF that] by (auto simp: bit_and_iff)
    have "CountOnes ((w - 1) AND lb) = card {j. j < k \<and> L j}"
      unfolding CountOnes_eq using b k(1) by (intro arg_cong [where f = card]) auto
    then have run: "close_loop w lb l0 rn = (if d = 0 then Inl (k + 1) else close_loop (w AND (w - 1)) lb l0 (rn + 1))"
      using nz tz Suc.prems(3) by (subst close_loop.simps) auto
    show ?thesis
    proof (cases "d = 0")
      case True
      with run up \<open>R k\<close> show ?thesis by simp
    next
      case False
      have w: "bit (w AND (w - 1)) j \<longleftrightarrow> Suc k \<le> j \<and> R j" if "j < 64" for j
        using bit_ClearLowestBit [OF nz, of j] Suc.prems(2) [OF that] tz by (auto simp: ClearLowestBit_def)
      have inv: "l0 + card {j. j < Suc k \<and> L j} = rn + 1 + (d - 1)"
        using Suc.prems(3) sucs nl False by simp
      let ?b = "bracket_scan (d - 1) (map (\<lambda>j. (L j, R j)) [Suc k..<64])"
      have "bracket_scan d (map (\<lambda>j. (L j, R j)) [k..<64]) = map_sum Suc id ?b"
        using False up \<open>R k\<close> by simp
      with Suc.hyps(1) [OF k(2,3) w inv] run False show ?thesis by (cases ?b) simp_all
    qed
  qed
qed

lemma skip_loop_spec:
  assumes len: "length v = 64" and lr: "left \<noteq> right"
    and st: "prev_instring st = all_ones ins" "prev_escaped st = one_bit e" "lbrace_num st = rbrace_num st + d"
  shows "case container_at left right ins e d v of
      Inl n \<Rightarrow> skip_loop left right v st = Inl n
    | Inr (ins', e', d') \<Rightarrow> \<exists>st'. skip_loop left right v st = Inr st' \<and> prev_instring st' = all_ones ins'
        \<and> prev_escaped st' = one_bit e' \<and> lbrace_num st' = rbrace_num st' + d'"
proof -
  obtain s where s: "GetStringBits v (all_ones ins) (one_bit e) = (s, all_ones (ins_next ins e v), one_bit (esc_next e (bs_flags v)))"
    "\<forall>j < 64. bit s j \<longleftrightarrow> ins_list ins e v ! j" using GetStringBits_spec [OF len] by blast
  define R where "R j \<longleftrightarrow> j < 64 \<and> v ! j = right \<and> \<not> ins_list ins e v ! j" for j
  define L where "L j \<longleftrightarrow> j < 64 \<and> v ! j = left \<and> \<not> ins_list ins e v ! j" for j
  let ?rb = "to_bitmask (map (\<lambda>c. c = right) v) AND NOT s"
  let ?lb = "to_bitmask (map (\<lambda>c. c = left) v) AND NOT s"
  have rb: "bit ?rb j \<longleftrightarrow> 0 \<le> j \<and> R j" and lb: "bit ?lb j \<longleftrightarrow> L j" if "j < 64" for j
    using that s(2) len by (auto simp: bit_and_iff bit_not_iff bit_to_bitmask R_def L_def)
  have fl: "bracket_flags left right ins e v = map (\<lambda>j. (L j, R j)) [0..<64]"
    by (rule nth_equalityI) (use len in \<open>auto simp: bracket_flags_def L_def R_def\<close>)
  have run: "skip_loop left right v st = (case close_loop ?rb ?lb (lbrace_num st) (rbrace_num st) of
           Inl n \<Rightarrow> Inl n
         | Inr r \<Rightarrow> Inr \<lparr>prev_instring = all_ones (ins_next ins e v), prev_escaped = one_bit (esc_next e (bs_flags v)),
                          lbrace_num = lbrace_num st + CountOnes ?lb, rbrace_num = r\<rparr>)"
    by (simp add: skip_loop_def st(1,2) s(1) Let_def)
  have "case bracket_scan d (map (\<lambda>j. (L j, R j)) [0..<64]) of
      Inl n \<Rightarrow> close_loop ?rb ?lb (lbrace_num st) (rbrace_num st) = Inl (0 + n)
    | Inr d' \<Rightarrow> \<exists>r'. close_loop ?rb ?lb (lbrace_num st) (rbrace_num st) = Inr r' \<and> lbrace_num st + CountOnes ?lb = r' + d'"
    by (rule close_loop_spec) (use rb lb lr st(3) in \<open>auto simp: L_def R_def\<close>)
  then show ?thesis
    unfolding container_at_scan fl run by (auto split: sum.splits)
qed

lemma container_at_zeros:
  "l \<noteq> 0 \<Longrightarrow> r \<noteq> 0 \<Longrightarrow> \<exists>st. container_at l r ins e d (replicate n 0) = Inr st"
proof (induction n arbitrary: ins e d)
  case (Suc n)
  obtain st where "container_at l r ins False d (replicate n 0) = Inr st" using Suc by blast
  with Suc.prems show ?case by (cases st) (simp add: Let_def)
qed simp

lemma skip_container_blocks_spec:
  assumes "len \<le> length data" and "pos \<le> len" and "left \<noteq> right" and "left \<noteq> 0" and "right \<noteq> 0"
    and "prev_instring st = all_ones ins" "prev_escaped st = one_bit e" "lbrace_num st = rbrace_num st + d"
  shows "case container_at left right ins e d (text_at data len pos) of
      Inl n \<Rightarrow> skip_container_blocks data len left right pos st = Some (True, pos + n)
    | Inr _ \<Rightarrow> \<exists>p. skip_container_blocks data len left right pos st = Some (False, p)"
  using assms(2,6-)
proof (induction "len - pos" arbitrary: pos st ins e d rule: less_induct)
  case less
  note run = skip_container_blocks.simps [of data len left right pos st]
  show ?case
  proof (cases "pos + 64 \<le> len")
    case True
    let ?v = "take 64 (drop pos data)"
    have lv: "length ?v = 64" "block_at data pos = Some ?v" using True assms(1) by (simp_all add: block_at_def)
    have tx: "text_at data len pos = ?v @ text_at data len (pos + 64)" by (rule text_at_block [OF True assms(1)])
    note sl = skip_loop_spec [OF lv(1) assms(3) less.prems(2-)]
    show ?thesis
    proof (cases "container_at left right ins e d ?v")
      case (Inl n)
      with sl True lv(2) show ?thesis by (simp add: run tx container_at_append)
    next
      case (Inr x)
      obtain ins' e' d' where x: "x = (ins', e', d')" by (cases x)
      obtain st' where st': "skip_loop left right ?v st = Inr st'" "prev_instring st' = all_ones ins'"
        "prev_escaped st' = one_bit e'" "lbrace_num st' = rbrace_num st' + d'"
        using sl Inr x by auto
      have "len - (pos + 64) < len - pos" "pos + 64 \<le> len" using True by simp_all
      from less.hyps [OF this st'(2-)] True lv(2) st'(1) Inr x lv(1) show ?thesis
        by (cases "container_at left right ins' e' d' (text_at data len (pos + 64))")
          (simp_all add: run tx container_at_append add.assoc)
    qed
  next
    case False
    let ?t = "text_at data len pos"
    let ?v = "?t @ replicate (64 - (len - pos)) 0"
    have lt: "length ?t = len - pos" using assms(1) less.prems(1) by (simp add: text_at_def)
    then have lv: "length ?v = 64" using False by simp
    note sl = skip_loop_spec [OF lv assms(3) less.prems(2-)]
    have step: "skip_container_blocks data len left right pos st = (case skip_loop left right ?v st of
            Inl n \<Rightarrow> Some (True, pos + n) | Inr st' \<Rightarrow> Some (False, pos))"
      using False less.prems(1) assms(1) by (simp add: run text_at_def)
    show ?thesis
    proof (cases "container_at left right ins e d ?t")
      case (Inl n)
      with sl show ?thesis by (simp add: step container_at_append)
    next
      case (Inr x)
      obtain ins' e' d' where x: "x = (ins', e', d')" by (cases x)
      obtain y where "container_at left right ins' e' d' (replicate (64 - (len - pos)) 0) = Inr y"
        using container_at_zeros [OF assms(4,5)] by blast
      with Inr x have "container_at left right ins e d ?v = Inr y" by (simp add: container_at_append)
      with sl Inr show ?thesis by (cases y) (auto simp: step)
    qed
  qed
qed

lemma SkipContainer_spec:
  assumes "len \<le> length data" and "pos \<le> len" and "left \<noteq> right" and "left \<noteq> 0" and "right \<noteq> 0"
  shows "case container_at left right False False 0 (text_at data len pos) of
      Inl n \<Rightarrow> SkipContainer data len left right pos = Some (True, pos + n)
    | Inr _ \<Rightarrow> \<exists>p. SkipContainer data len left right pos = Some (False, p)"
  unfolding SkipContainer_def
  by (rule skip_container_blocks_spec [OF assms]) (simp_all add: all_ones_def one_bit_def)

subsection \<open>Literals\<close>

text \<open>A little-endian 32-bit load, and \<open>EqBytes4\<close>.\<close>

definition le32 :: "u8 \<Rightarrow> u8 \<Rightarrow> u8 \<Rightarrow> u8 \<Rightarrow> u32" where
  "le32 a b c d = ucast a OR push_bit 8 (ucast b) OR push_bit 16 (ucast c) OR push_bit 24 (ucast d)"

definition EqBytes4 :: "bytes \<Rightarrow> nat \<Rightarrow> u32 \<Rightarrow> bool option" where
  "EqBytes4 data src target =
     (if src + 4 \<le> length data
      then Some (le32 (data ! src) (data ! (src + 1)) (data ! (src + 2)) (data ! (src + 3)) = target) else None)"

definition IsValidSeparator :: "u8 \<Rightarrow> bool" where
  "IsValidSeparator c =
     (let m = push_bit 0 1 OR push_bit 9 1 OR push_bit 10 1 OR push_bit 13 1 OR push_bit 32 1 OR push_bit 44 (1 :: u64)
      in if c < 64 then drop_bit (unat c) m AND 1 = 1 else c = 93 \<or> c = 125)"

definition kNullBin :: u32 where "kNullBin = 0x6c6c756e"
definition kTrueBin :: u32 where "kTrueBin = 0x65757274"
definition kFalseBin :: u32 where "kFalseBin = 0x65736c61"

text \<open>One case of the switch: the bytes, then the end of the text or a separator behind them.\<close>

definition literal_ends :: "bytes \<Rightarrow> nat \<Rightarrow> nat \<Rightarrow> nat \<Rightarrow> u32 \<Rightarrow> nat \<Rightarrow> bool option" where
  "literal_ends data len start from target n =
     (if len < start + n then Some False
      else do {
        eq \<leftarrow> EqBytes4 data from target;
        if \<not> eq then Some False
        else if start + n = len then Some True
        else do { c \<leftarrow> rd data (start + n); Some (IsValidSeparator c) }
      })"

definition SkipLiteral :: "bytes \<Rightarrow> nat \<Rightarrow> nat \<Rightarrow> u8 \<Rightarrow> (bool \<times> nat) option" where
  "SkipLiteral data len pos token =
     (let start = pos - 1 in
      if token = 0x74 then map_option (\<lambda>ok. (ok, if ok then pos + 3 else pos)) (literal_ends data len start start kTrueBin 4)
      else if token = 0x6E then map_option (\<lambda>ok. (ok, if ok then pos + 3 else pos)) (literal_ends data len start start kNullBin 4)
      else if token = 0x66 then map_option (\<lambda>ok. (ok, if ok then pos + 4 else pos)) (literal_ends data len start (start + 1) kFalseBin 5)
      else Some (False, pos))"

lemma le32_bytes:
  "ucast (le32 a b c d) = a" "ucast (drop_bit 8 (le32 a b c d)) = b"
  "ucast (drop_bit 16 (le32 a b c d)) = c" "ucast (drop_bit 24 (le32 a b c d)) = d"
  by (rule bit_word_eqI; auto simp: le32_def bit_ucast_iff bit_or_iff bit_push_bit_iff bit_drop_bit_eq)+

lemma le32_eq: "le32 a b c d = le32 a' b' c' d' \<longleftrightarrow> a = a' \<and> b = b' \<and> c = c' \<and> d = d'"
  by (metis le32_bytes)

lemma literal_bins:
  "kNullBin = le32 0x6E 0x75 0x6C 0x6C" "kTrueBin = le32 0x74 0x72 0x75 0x65" "kFalseBin = le32 0x61 0x6C 0x73 0x65"
  by (simp_all add: kNullBin_def kTrueBin_def kFalseBin_def le32_def)

definition bytes_at :: "bytes \<Rightarrow> nat \<Rightarrow> bytes \<Rightarrow> bool" where
  "bytes_at data pos xs \<longleftrightarrow> pos + length xs \<le> length data \<and> take (length xs) (drop pos data) = xs"

lemma take4_nth: "src + 4 \<le> length data \<Longrightarrow>
    take 4 (drop src data) = [data ! src, data ! (src + 1), data ! (src + 2), data ! (src + 3)]"
  by (rule nth_equalityI) (auto simp: less_Suc_eq numeral_eq_Suc)

lemma EqBytes4_spec:
  assumes "src + 4 \<le> length data"
  shows "EqBytes4 data src (le32 a b c d) = Some (bytes_at data src [a, b, c, d])"
proof -
  have l: "length [a, b, c, d] = 4" by simp
  show ?thesis using assms unfolding EqBytes4_def le32_eq bytes_at_def l take4_nth [OF assms] by auto
qed

lemma IsValidSeparator_spec:
  "IsValidSeparator c \<longleftrightarrow> c = 0 \<or> IsSpace c \<or> c = 0x2C \<or> c = 0x5D \<or> c = 0x7D"
proof (cases "c < 64")
  case True
  then have lt: "unat c < 64" by (simp add: word_less_nat_alt)
  have a: "drop_bit n w AND 1 = 1 \<longleftrightarrow> bit w n" for n and w :: u64
    unfolding and_1_bit by (simp add: bit_drop_bit_eq one_bit_def)
  have p: "k < 64 \<Longrightarrow> bit (push_bit k (1 :: u64)) n \<longleftrightarrow> n = k" for k n
    by (auto simp: bit_exp_iff)
  have ps: "bit (push_bit 0 (1 :: u64)) n \<longleftrightarrow> n = 0" "bit (push_bit 9 (1 :: u64)) n \<longleftrightarrow> n = 9"
    "bit (push_bit 10 (1 :: u64)) n \<longleftrightarrow> n = 10" "bit (push_bit 13 (1 :: u64)) n \<longleftrightarrow> n = 13"
    "bit (push_bit 32 (1 :: u64)) n \<longleftrightarrow> n = 32" "bit (push_bit 44 (1 :: u64)) n \<longleftrightarrow> n = 44" for n
    by (rule p, simp)+
  have "IsValidSeparator c \<longleftrightarrow> unat c \<in> {0, 9, 10, 13, 32, 44}"
    using True lt unfolding IsValidSeparator_def Let_def a bit_or_iff ps by simp
  also have "\<dots> \<longleftrightarrow> c = 0 \<or> IsSpace c \<or> c = 0x2C" by (auto simp: IsSpace_def word_unat_eq_iff)
  finally show ?thesis using lt by (auto simp: word_less_nat_alt)
next
  case False
  then have "c \<noteq> 0" "\<not> IsSpace c" "c \<noteq> 0x2C" by (auto simp: IsSpace_def word_less_nat_alt)
  with False show ?thesis by (simp add: IsValidSeparator_def Let_def)
qed

subsection \<open>The blockwise routines against the byte-by-byte reading\<close>



text \<open>
  C20: skipping a string by vectors finds the quote that closes it: the first one not preceded by an
  odd run of backslashes, wherever the blocks fall and whatever carries from block to block. The
  result is 0 when there is none, and says exactly whether a backslash occurs before it.
\<close>

theorem skip_string_blockwise:
  assumes "len \<le> length data"
  shows "case close_at False (text_at data len pos) of
      Some n \<Rightarrow> SkipString i data len pos
        = Some (if 0x5C \<in> set (take n (text_at data len pos)) then 2 else 1, pos + n + 1)
    | None \<Rightarrow> \<exists>p. SkipString i data len pos = Some (0, p)"
  using SkipString_spec [OF assms, of pos i] by (simp add: string_result_def split: option.splits)

theorem skip_string_blockwise_witness:
  "SkipString SSE (replicate 15 0x61 @ [0x5C, 0x22, 0x62, 0x22, 0x2C]) 20 0 = Some (2, 19)"
proof -
  let ?d = "replicate 15 0x61 @ [0x5C, 0x22, 0x62, 0x22, 0x2C]"
  have t: "text_at ?d 20 0 = ?d" by (simp add: text_at_def)
  have c: "close_at False (replicate n 0x61 @ ys) = map_option (\<lambda>k. n + k) (close_at False ys)" for n ys
    by (induction n) (simp_all add: option.map_comp o_def option.map_ident)
  have "close_at False ?d = Some 18" by (simp add: c)
  with skip_string_blockwise [of 20 ?d, where pos = 0 and i = SSE] t show ?thesis by simp
qed

text \<open>
  C21: skipping a container by 64-byte blocks finds the bracket that closes it. The position
  returned is the one behind the first closing bracket, outside strings, that has no opening
  bracket of its kind left to match, as read byte by byte with the string and escape state; without
  one the result is false. Brackets in strings and escaped quotes do not count, wherever the blocks
  fall.
\<close>

theorem skip_container_blockwise:
  assumes "len \<le> length data" and "pos \<le> len" and "left \<noteq> right" and "left \<noteq> 0" and "right \<noteq> 0"
  shows "case container_at left right False False 0 (text_at data len pos) of
      Inl n \<Rightarrow> SkipContainer data len left right pos = Some (True, pos + n)
    | Inr _ \<Rightarrow> \<exists>p. SkipContainer data len left right pos = Some (False, p)"
  by (rule SkipContainer_spec [OF assms])

theorem skip_container_blockwise_witness:
  "SkipArray [0x5B, 0x5B, 0x22, 0x5D, 0x5C, 0x22, 0x22, 0x5D, 0x5D, 0x2C] 10 1 = Some (True, 9)"
proof -
  let ?d = "[0x5B, 0x5B, 0x22, 0x5D, 0x5C, 0x22, 0x22, 0x5D, 0x5D, 0x2C] :: bytes"
  have "text_at ?d 10 1 = [0x5B, 0x22, 0x5D, 0x5C, 0x22, 0x22, 0x5D, 0x5D, 0x2C]" by (simp add: text_at_def)
  then have "container_at 0x5B 0x5D False False 0 (text_at ?d 10 1) = Inl 8" by (simp add: Let_def)
  with skip_container_blockwise [of 10 ?d 1 "0x5B" "0x5D"] show ?thesis by (simp add: SkipArray_def)
qed

end
