(* ===== verification/Sonic_OnDemand.thy ===== *)
theory Sonic_OnDemand
  imports Sonic_Skip Sonic_ParseString Sonic_Error
begin

text \<open>
  The scanner class of \<open>internal/arch/simd_skip.h\<close>: skipping one value, stepping over array
  elements, comparing a key in the text with a wanted key, and the lookup of a JSON pointer on
  unparsed text (\<open>GetOnDemand\<close>, also of \<open>dom/parser.h\<close>). A vector key buffer is part of the state, as
  an escaped key is decoded in it. A negative \<open>long\<close> of the source is \<^term>\<open>Inl e\<close> with the error, any
  other \<^term>\<open>Inr n\<close>.
\<close>

definition SkipNumber :: "isa \<Rightarrow> bytes \<Rightarrow> nat \<Rightarrow> nat \<Rightarrow> (u8 \<times> nat) option" where
  "SkipNumber i data len pos = GetNextToken i data len [0x5D, 0x7D, 0x2C] pos"

definition number_start :: "u8 \<Rightarrow> bool" where
  "number_start c \<longleftrightarrow> c = 0x2D \<or> (0x30 \<le> c \<and> c \<le> 0x39)"

type_synonym skip_outcome = "(SonicError + nat) \<times> nat \<times> SkipScanner"

definition SkipOne :: "isa \<Rightarrow> bytes \<Rightarrow> nat \<Rightarrow> SkipScanner \<Rightarrow> nat \<Rightarrow> skip_outcome option" where
  "SkipOne i data len sc pos = do {
     (c, pos, sc) \<leftarrow> skip_space_safe data len sc pos;
     let start = pos - 1;
     let done = (\<lambda>(ok, pos). (if ok then Inr start else Inl kParseErrorInvalidChar, pos, sc));
     if c = 0x22 then map_option (\<lambda>(st, pos). done (st \<noteq> 0, pos)) (SkipString i data len pos)
     else if c = 0x7B then map_option done (SkipObject data len pos)
     else if c = 0x5B then map_option done (SkipArray data len pos)
     else if c = 0x74 \<or> c = 0x6E \<or> c = 0x66 then map_option done (SkipLiteral data len pos c)
     else if number_start c then map_option (\<lambda>(t, pos). done (True, pos)) (SkipNumber i data len pos)
     else Some (done (False, pos))
   }"

text \<open>Stepping over a value that is a container or a string, by its first character; others stay.\<close>

definition skip_compound :: "isa \<Rightarrow> bytes \<Rightarrow> nat \<Rightarrow> u8 \<Rightarrow> nat \<Rightarrow> (bool \<times> nat) option" where
  "skip_compound i data len c pos =
     (if c = 0x7B then SkipObject data len pos
      else if c = 0x5B then SkipArray data len pos
      else if c = 0x22 then map_option (\<lambda>(st, pos). (st \<noteq> 0, pos)) (SkipString i data len pos)
      else Some (True, pos))"

fun array_elems :: "isa \<Rightarrow> bytes \<Rightarrow> nat \<Rightarrow> nat \<Rightarrow> SkipScanner \<Rightarrow> nat \<Rightarrow> (SonicError \<times> nat \<times> SkipScanner) option" where
  "array_elems i data len 0 sc pos = Some (kErrorNone, pos, sc)"
| "array_elems i data len (Suc index) sc pos =
     (if pos < len then do {
        (c, pos, sc) \<leftarrow> skip_space_safe data len sc pos;
        (ok, pos) \<leftarrow> skip_compound i data len c pos;
        if \<not> ok then Some (kParseErrorInvalidChar, pos, sc)
        else do {
          (c, pos) \<leftarrow> GetNextToken i data len [0x2C, 0x5D] pos;
          if c \<noteq> 0x2C then Some (kParseErrorArrIndexOutOfRange, pos, sc)
          else array_elems i data len index sc (pos + 1)
        }
      }
      else Some (kParseErrorInvalidChar, pos, sc))"

definition GetArrayElem :: "isa \<Rightarrow> bytes \<Rightarrow> nat \<Rightarrow> SkipScanner \<Rightarrow> nat \<Rightarrow> int \<Rightarrow> (SonicError \<times> nat \<times> SkipScanner) option" where
  "GetArrayElem i data len sc pos index =
     (if index < 0 then Some (kParseErrorInvalidChar, pos, sc) else array_elems i data len (nat index) sc pos)"

text \<open>
  The text of a key, decoded in the key buffer when it has escapes. \<open>Inl\<close> is the error with the position it leaves;
  \<open>Inr\<close> has the key's bytes.
\<close>

definition resize :: "nat \<Rightarrow> bytes \<Rightarrow> bytes" where
  "resize n kbuf = take n kbuf @ replicate (n - length kbuf) 0"

definition read_key :: "isa \<Rightarrow> bytes \<Rightarrow> nat \<Rightarrow> bytes \<Rightarrow> nat \<Rightarrow> ((SonicError + bytes) \<times> nat \<times> bytes) option" where
  "read_key i data len kbuf pos = do {
     let start = pos;
     (status, pos) \<leftarrow> SkipString i data len pos;
     if status = 0 then Some (Inl kParseErrorInvalidChar, pos, kbuf)
     else do {
       let slen = pos - 1 - start;
       if status = 2 then do {
         kbuf \<leftarrow> wr (resize (slen + 32) kbuf) 0 (take (slen + 1) (drop start data));
         (kbuf, nsrc, r) \<leftarrow> parseStringInplace_vec i False kbuf 0;
         Some (case r of Inl e \<Rightarrow> (Inl e, start + nsrc, kbuf) | Inr n \<Rightarrow> (Inr (take n kbuf), pos, kbuf))
       }
       else Some (Inr (take slen (drop start data)), pos, kbuf)
     }
   }"

definition matchKey ::
  "isa \<Rightarrow> bytes \<Rightarrow> nat \<Rightarrow> bytes \<Rightarrow> bytes \<Rightarrow> nat \<Rightarrow> ((SonicError + bool) \<times> nat \<times> bytes) option" where
  "matchKey i data len key kbuf pos =
     map_option (\<lambda>(r, pos, kbuf). (map_sum id (\<lambda>k. k = key) r, pos, kbuf)) (read_key i data len kbuf pos)"

fun index_of :: "bytes \<Rightarrow> bytes list \<Rightarrow> int" where
  "index_of k [] = - 1"
| "index_of k (x # xs) = (if k = x then 0 else let r = index_of k xs in if r = - 1 then - 1 else r + 1)"

definition matchKeys ::
  "isa \<Rightarrow> bytes \<Rightarrow> nat \<Rightarrow> bytes list \<Rightarrow> bytes \<Rightarrow> nat \<Rightarrow> ((SonicError + int) \<times> nat \<times> bytes) option" where
  "matchKeys i data len keys kbuf pos =
     map_option (\<lambda>(r, pos, kbuf). (map_sum id (\<lambda>k. index_of k keys) r, pos, kbuf)) (read_key i data len kbuf pos)"

subsection \<open>Lookup on unparsed text\<close>

datatype JsonPointerNode = PStr bytes | PNum int

text \<open>The two labels of \<open>GetOnDemand\<close>, with what is left of the path.\<close>

datatype od_pc = Query "JsonPointerNode list" | ObjKey bytes "JsonPointerNode list"

record od_state =
  od_pos :: nat
  od_kbuf :: bytes
  od_scan :: SkipScanner

definition od_query :: "isa \<Rightarrow> bytes \<Rightarrow> nat \<Rightarrow> JsonPointerNode list \<Rightarrow> od_state
    \<Rightarrow> (skip_outcome + od_pc \<times> od_state) option" where
  "od_query i data len path s = (case path of
      [] \<Rightarrow> map_option Inl (SkipOne i data len (od_scan s) (od_pos s))
    | node # path \<Rightarrow> do {
        (c, pos, sc) \<leftarrow> skip_space_safe data len (od_scan s) (od_pos s);
        (case node of
           PStr key \<Rightarrow>
             if c \<noteq> 0x7B then Some (Inl (Inl kParseErrorMismatchType, pos - 1, sc))
             else do {
               (c, pos) \<leftarrow> GetNextToken i data len [0x22, 0x7D] pos;
               if c \<noteq> 0x22 then Some (Inl (Inl kParseErrorUnknownObjKey, pos, sc))
               else Some (Inr (ObjKey key path, s\<lparr>od_pos := pos, od_scan := sc\<rparr>))
             }
         | PNum n \<Rightarrow>
             if c \<noteq> 0x5B then Some (Inl (Inl kParseErrorMismatchType, pos - 1, sc))
             else do {
               (e, pos, sc) \<leftarrow> GetArrayElem i data len sc pos n;
               if e \<noteq> kErrorNone then Some (Inl (Inl e, pos, sc))
               else Some (Inr (Query path, s\<lparr>od_pos := pos, od_scan := sc\<rparr>))
             })
      })"

definition od_obj_key :: "isa \<Rightarrow> bytes \<Rightarrow> nat \<Rightarrow> bytes \<Rightarrow> JsonPointerNode list \<Rightarrow> od_state
    \<Rightarrow> (skip_outcome + od_pc \<times> od_state) option" where
  "od_obj_key i data len key path s = do {
     (m, pos, kbuf) \<leftarrow> matchKey i data len key (od_kbuf s) (od_pos s + 1);
     (case m of
        Inl e \<Rightarrow> Some (Inl (Inl e, pos, od_scan s))
      | Inr matched \<Rightarrow> do {
          (c, pos, sc) \<leftarrow> skip_space_safe data len (od_scan s) pos;
          if c \<noteq> 0x3A then Some (Inl (Inl kParseErrorInvalidChar, pos - 1, sc))
          else if matched then Some (Inr (Query path, s\<lparr>od_pos := pos, od_kbuf := kbuf, od_scan := sc\<rparr>))
          else do {
            (c, pos, sc) \<leftarrow> skip_space_safe data len sc pos;
            (ok, pos) \<leftarrow> skip_compound i data len c pos;
            if \<not> ok then Some (Inl (Inl kParseErrorInvalidChar, pos - 1, sc))
            else do {
              (c, pos) \<leftarrow> GetNextToken i data len [0x22, 0x7D] pos;
              if c \<noteq> 0x22 then Some (Inl (Inl kParseErrorUnknownObjKey, pos, sc))
              else Some (Inr (ObjKey key path, s\<lparr>od_pos := pos, od_kbuf := kbuf, od_scan := sc\<rparr>))
            }
          }
        })
   }"

definition od_step :: "isa \<Rightarrow> bytes \<Rightarrow> nat \<Rightarrow> od_pc \<times> od_state \<Rightarrow> (skip_outcome + od_pc \<times> od_state) option" where
  "od_step i data len = (\<lambda>(pc, s). case pc of
     Query path \<Rightarrow> od_query i data len path s | ObjKey key path \<Rightarrow> od_obj_key i data len key path s)"

partial_function (option) od_run ::
  "isa \<Rightarrow> bytes \<Rightarrow> nat \<Rightarrow> od_pc \<times> od_state \<Rightarrow> skip_outcome option" where
  "od_run i data len st = (case od_step i data len st of
      None \<Rightarrow> None | Some (Inl r) \<Rightarrow> Some r | Some (Inr st') \<Rightarrow> od_run i data len st')"

declare od_run.simps [code]

definition scan_GetOnDemand :: "isa \<Rightarrow> bytes \<Rightarrow> nat \<Rightarrow> JsonPointerNode list \<Rightarrow> skip_outcome option" where
  "scan_GetOnDemand i data pos path =
     od_run i data (length data) (Query path, \<lparr>od_pos = pos, od_kbuf = replicate 32 0, od_scan = scanner_new\<rparr>)"

text \<open>\<open>GetOnDemand\<close> of the parser: the result, and the target as offset and bytes.\<close>

definition GetOnDemand :: "isa \<Rightarrow> bytes \<Rightarrow> JsonPointerNode list \<Rightarrow> (ParseResult \<times> nat \<times> bytes) option" where
  "GetOnDemand i json path = do {
     (r, pos, sc) \<leftarrow> scan_GetOnDemand i json 0 path;
     Some (case r of
         Inl e \<Rightarrow> (mk_ParseResult e pos, 0, [])
       | Inr start \<Rightarrow> (mk_ParseResult kErrorNone pos, start, take (pos - start) (drop start json)))
   }"

end
