(* ===== verification/Sonic_Double.thy ===== *)
theory Sonic_Double
  imports Sonic_Prelude
begin

text \<open>
  IEEE 754 doubles as their 64 bits, as far as the number parser uses them: rounding of a quotient
  of naturals to nearest with ties to even, the conversion of an unsigned integer, product,
  quotient, sign change and comparison of finite doubles. The parser applies the arithmetic to
  finite values only; on the others the operations here return a NaN.
\<close>

subsection \<open>Rounding\<close>

fun nlog2 :: "nat \<Rightarrow> nat" where
  "nlog2 n = (if n < 2 then 0 else Suc (nlog2 (n div 2)))"

declare nlog2.simps [simp del]

text \<open>The exponent of the leading bit of \<open>n / d\<close>.\<close>

definition lead_exp :: "nat \<Rightarrow> nat \<Rightarrow> int" where
  "lead_exp n d =
     (let k = int (nlog2 n) - int (nlog2 d)
      in if d * 2 ^ nat k \<le> n * 2 ^ nat (- k) then k else k - 1)"

definition round_half_even :: "nat \<Rightarrow> nat \<Rightarrow> nat" where
  "round_half_even a b =
     (let q = a div b; r = a mod b in if 2 * r < b \<or> (2 * r = b \<and> even q) then q else q + 1)"

text \<open>
  The bits of the double nearest to the positive \<open>n / d\<close>. With \<open>q\<close> units of \<open>2 ^ e\<close> the bits are
  \<open>(e + 1074) * 2 ^ 52 + q\<close> for normal and subnormal numbers alike, also when rounding carries into
  the next binade; from \<open>2047 * 2 ^ 52\<close> on it is infinity.
\<close>

definition unit_exp :: "nat \<Rightarrow> nat \<Rightarrow> int" where
  "unit_exp n d = max (lead_exp n d - 52) (- 1074)"

definition round_pos :: "nat \<Rightarrow> nat \<Rightarrow> nat" where
  "round_pos n d =
     (let e = unit_exp n d;
          q = round_half_even (n * 2 ^ nat (- e)) (d * 2 ^ nat e)
      in min (nat (e + 1074) * 2 ^ 52 + q) (2047 * 2 ^ 52))"

definition double_bits :: "bool \<Rightarrow> nat \<Rightarrow> u64" where
  "double_bits neg m = word_of_nat ((if neg then 2 ^ 63 else 0) + m)"

definition double_of :: "bool \<Rightarrow> nat \<Rightarrow> nat \<Rightarrow> u64" where
  "double_of neg n d = double_bits neg (if n = 0 then 0 else round_pos n d)"

subsection \<open>Reading\<close>

definition dbl_neg :: "u64 \<Rightarrow> bool" where "dbl_neg w = bit w 63"
definition dbl_exp :: "u64 \<Rightarrow> nat" where "dbl_exp w = unat (drop_bit 52 w AND 0x7FF)"
definition dbl_frac :: "u64 \<Rightarrow> nat" where "dbl_frac w = unat (w AND 0x000FFFFFFFFFFFFF)"
definition dbl_finite :: "u64 \<Rightarrow> bool" where "dbl_finite w \<longleftrightarrow> dbl_exp w < 2047"
definition dbl_nan :: u64 where "dbl_nan = 0x7FF8000000000000"

text \<open>A finite double as \<open>m * 2 ^ k\<close>, and its magnitude as a quotient.\<close>

definition dbl_man :: "u64 \<Rightarrow> nat" where
  "dbl_man w = (if dbl_exp w = 0 then dbl_frac w else 2 ^ 52 + dbl_frac w)"

definition dbl_pow :: "u64 \<Rightarrow> int" where
  "dbl_pow w = (if dbl_exp w = 0 then - 1074 else int (dbl_exp w) - 1075)"

definition dbl_num :: "u64 \<Rightarrow> nat" where "dbl_num w = dbl_man w * 2 ^ nat (dbl_pow w)"
definition dbl_den :: "u64 \<Rightarrow> nat" where "dbl_den w = 2 ^ nat (- dbl_pow w)"

subsection \<open>Operations\<close>

definition dbl_of_u64 :: "u64 \<Rightarrow> u64" where "dbl_of_u64 n = double_of False (unat n) 1"

definition dbl_mul :: "u64 \<Rightarrow> u64 \<Rightarrow> u64" where
  "dbl_mul a b = (if dbl_finite a \<and> dbl_finite b
     then double_of (dbl_neg a \<noteq> dbl_neg b) (dbl_num a * dbl_num b) (dbl_den a * dbl_den b) else dbl_nan)"

definition dbl_div :: "u64 \<Rightarrow> u64 \<Rightarrow> u64" where
  "dbl_div a b = (if dbl_finite a \<and> dbl_finite b \<and> dbl_num b \<noteq> 0
     then double_of (dbl_neg a \<noteq> dbl_neg b) (dbl_num a * dbl_den b) (dbl_den a * dbl_num b) else dbl_nan)"

definition dbl_minus :: "u64 \<Rightarrow> u64" where "dbl_minus w = w XOR push_bit 63 1"

text \<open>\<open>d * sg\<close> for \<open>sg\<close> 1 or -1.\<close>

definition dbl_mul_sgn :: "u64 \<Rightarrow> int \<Rightarrow> u64" where
  "dbl_mul_sgn w sg = (if sg = - 1 then dbl_minus w else w)"

definition dbl_sval :: "u64 \<Rightarrow> int \<times> nat" where
  "dbl_sval w = ((if dbl_neg w then - int (dbl_num w) else int (dbl_num w)), dbl_den w)"

definition dbl_less :: "u64 \<Rightarrow> u64 \<Rightarrow> bool" where
  "dbl_less a b = (let (n, d) = dbl_sval a; (m, e) = dbl_sval b
     in dbl_finite a \<and> dbl_finite b \<and> n * int e < m * int d)"

end
