(* ===== verification/Sonic_Atof.thy ===== *)
theory Sonic_Atof
  imports Sonic_Pow10 Sonic_Double
begin

text \<open>
  The two table-driven conversions from a decimal significand and exponent to a double:
  \<open>ParseFloatingNormalFast\<close> (\<open>internal/parse_number_normal_fast.h\<close>) and \<open>AtofEiselLemire64\<close>
  (\<open>internal/atof_native.h\<close>), on 64-bit words with the wrap-around of the source.
  \<open>LeadingZeroes\<close> of 0 is undefined in the source (\<open>__builtin_clzll\<close>), here \<^term>\<open>None\<close>.
\<close>

definition LeadingZeroes :: "u64 \<Rightarrow> nat option" where
  "LeadingZeroes w = (if w = 0 then None else Some (length (takeWhile (\<lambda>i. \<not> bit w (63 - i)) [0..<64])))"

text \<open>\<open>MulU64\<close>: the 128-bit product, with the 128-bit type and without it.\<close>

definition MulU64 :: "u64 \<Rightarrow> u64 \<Rightarrow> u64 \<times> u64" where
  "MulU64 x y = (let z = unat x * unat y in (word_of_nat (z div 2 ^ 64), word_of_nat z))"

definition MulU64_portable :: "u64 \<Rightarrow> u64 \<Rightarrow> u64 \<times> u64" where
  "MulU64_portable x y =
     (let x0 = x AND 0xFFFFFFFF; x1 = drop_bit 32 x;
          y0 = y AND 0xFFFFFFFF; y1 = drop_bit 32 y;
          w0 = x0 * y0;
          t = x1 * y0 + drop_bit 32 w0;
          w1 = t AND 0xFFFFFFFF;
          w2 = drop_bit 32 t;
          w1 = w1 + x0 * y1
      in (x1 * y1 + w2 + drop_bit 32 w1, x * y))"

definition pow10_row :: "int \<Rightarrow> (u64 \<times> u64) option" where
  "pow10_row exp10 = (if exp10 + 348 < 0 then None else rd kPow10M128Tab (nat (exp10 + 348)))"

text \<open>
  \<open>AtofEiselLemire64\<close>: \<open>Some None\<close> when it returns false. \<open>wider\<close> is the second product, taken when the
  first leaves the 54 leading bits undecided.
\<close>

definition eisel_wider :: "u64 \<Rightarrow> u64 \<Rightarrow> u64 \<Rightarrow> u64 \<Rightarrow> (u64 \<times> u64) option" where
  "eisel_wider mant tab_lo x_hi x_lo =
     (if x_hi AND 0x1FF = 0x1FF \<and> x_lo + mant < mant then
        let (y_hi, y_lo) = MulU64 mant tab_lo;
            merged_lo = x_lo + y_hi;
            merged_hi = (if merged_lo < x_lo then x_hi + 1 else x_hi)
        in if merged_hi AND 0x1FF = 0x1FF \<and> merged_lo + 1 = 0 \<and> y_lo + mant < mant then None
           else Some (merged_hi, merged_lo)
      else Some (x_hi, x_lo))"

definition eisel_assemble :: "u64 \<Rightarrow> u64 \<Rightarrow> u64 \<Rightarrow> int \<Rightarrow> u64 option" where
  "eisel_assemble x_hi x_lo ret_exp2 sg =
     (let msb = unat (drop_bit 63 x_hi);
          ret_man = drop_bit (msb + 9) x_hi;
          ret_exp2 = ret_exp2 - (1 XOR word_of_nat msb)
      in if x_lo = 0 \<and> x_hi AND 0x1FF = 0 \<and> ret_man AND 3 = 1 then None
         else
           let ret_man = drop_bit 1 (ret_man + (ret_man AND 1));
               over = 0 < drop_bit 53 ret_man;
               ret_man = (if over then drop_bit 1 ret_man else ret_man);
               ret_exp2 = (if over then ret_exp2 + 1 else ret_exp2)
           in if 0x7FF - 1 \<le> ret_exp2 - 1 then None
              else
                let bits = push_bit 52 ret_exp2 OR (ret_man AND 0x000FFFFFFFFFFFFF)
                in Some (if sg = - 1 then bits OR push_bit 63 1 else bits))"

definition AtofEiselLemire64 :: "u64 \<Rightarrow> int \<Rightarrow> int \<Rightarrow> u64 option option" where
  "AtofEiselLemire64 mant exp10 sg =
     (if exp10 < - 348 \<or> 347 < exp10 then Some None
      else do {
        clz \<leftarrow> LeadingZeroes mant;
        (tab_lo, tab_hi) \<leftarrow> pow10_row exp10;
        let mant = push_bit clz mant;
        let ret_exp2 = word_of_int ((217706 * exp10) div 65536) + 64 + 1023 - word_of_nat clz;
        let (x_hi, x_lo) = MulU64 mant tab_hi;
        Some (case eisel_wider mant tab_lo x_hi x_lo of
            None \<Rightarrow> None
          | Some (x_hi, x_lo) \<Rightarrow> eisel_assemble x_hi x_lo ret_exp2 sg)
      })"

text \<open>
  \<open>ParseFloatingNormalFast\<close>. \<open>fast_product\<close> is the first half: the high word of the product with the
  power of ten, when its 55 leading bits are certain.
\<close>

definition fast_product :: "u64 \<Rightarrow> u64 \<Rightarrow> u64 \<Rightarrow> u64 option" where
  "fast_product sig1 sig2 sig2_ext =
     (let (hi, lo) = MulU64 sig1 sig2;
          bits = hi AND (push_bit 9 1 - 1)
      in if bits - 1 < push_bit 9 1 - 2 then Some hi
         else
           let (hi2, lo2) = MulU64 sig1 sig2_ext;
               add = lo + hi2
           in if 1 < add + 1 then Some (if add < lo \<or> add < hi2 then hi + 1 else hi)
              else None)"

definition fast_assemble :: "u64 \<Rightarrow> int \<Rightarrow> int \<Rightarrow> u64" where
  "fast_assemble hi exp2 sg =
     (let lz = (if hi < push_bit 63 1 then 1 else 0);
          hi = push_bit lz hi;
          exp2 = exp2 - int lz + 64;
          hi = hi + (if hi AND push_bit 10 1 \<noteq> 0 then push_bit 10 1 else 0);
          over = hi < push_bit 10 1;
          exp2 = (if over then exp2 + 1 else exp2);
          hi = (if over then push_bit 63 1 else hi);
          hi = drop_bit 11 hi;
          exp2 = exp2 + 11 + 52 + 1023;
          d_raw = push_bit 52 (word_of_int exp2) OR (hi AND 0x000FFFFFFFFFFFFF)
      in d_raw OR push_bit 63 (drop_bit 63 (word_of_int sg)))"

definition ParseFloatingNormalFast :: "int \<Rightarrow> u64 \<Rightarrow> int \<Rightarrow> u64 option option" where
  "ParseFloatingNormalFast exp10 man sg = do {
     (sig2_ext, sig2) \<leftarrow> pow10_row exp10;
     lz \<leftarrow> LeadingZeroes man;
     let sig1 = push_bit lz man;
     let exp2 = (217706 * exp10 - 4128768) div 65536 - int lz;
     Some (map_option (\<lambda>hi. fast_assemble hi exp2 sg) (fast_product sig1 sig2 sig2_ext))
   }"

text \<open>The powers of ten that are doubles, and Clinger's fast path \<open>parseFloatingFast\<close> of the parser.\<close>

definition kPow10Tab :: "u64 list" where
  "kPow10Tab = map (\<lambda>k. double_of False (10 ^ k) 1) [0..<23]"

definition parseFloatingFast :: "int \<Rightarrow> u64 \<Rightarrow> u64 option option" where
  "parseFloatingFast exp10 man =
     (let d = dbl_of_u64 man in
      if 0 < exp10 then
        (if 22 < exp10 then do {
           p \<leftarrow> rd kPow10Tab (nat (exp10 - 22));
           let d = dbl_mul d p;
           if dbl_less (double_of False (10 ^ 15) 1) d \<or> dbl_less d (double_of True (10 ^ 15) 1) then Some None
           else do { q \<leftarrow> rd kPow10Tab 22; Some (Some (dbl_mul d q)) }
         }
         else do { p \<leftarrow> rd kPow10Tab (nat exp10); Some (Some (dbl_mul d p)) })
      else do { p \<leftarrow> rd kPow10Tab (nat (- exp10)); Some (Some (dbl_div d p)) })"

end
