(* ===== verification/Sonic_Decimal.thy ===== *)
theory Sonic_Decimal
  imports Sonic_Double
begin

text \<open>
  \<open>AtofNative\<close> of \<open>internal/atof_native.h\<close>: the slow conversion of a decimal text to a double, by
  shifting a decimal of at most 800 digits left and right in binary steps. The digit array, its
  length, the position of the point and the flags are the fields of the struct; the running
  quantities are 64-bit words as in the source. A loop whose end the source does not bound is a
  \<^theory_text>\<open>partial_function (option)\<close>.
\<close>

definition DECIMAL_MAX_DNUM :: nat where "DECIMAL_MAX_DNUM = 800"
definition MAX_SHIFT :: nat where "MAX_SHIFT = 60"

record Decimal =
  dd :: bytes
  nd :: nat
  dp :: int
  dneg :: bool
  trunc :: bool

definition InitDecimal :: Decimal where
  "InitDecimal = \<lparr>dd = replicate DECIMAL_MAX_DNUM 0, nd = 0, dp = 0, dneg = False, trunc = False\<rparr>"

definition LSHIFT_TAB :: "(int \<times> string) list" where
  "LSHIFT_TAB = [
     (0, ''''),
     (1, ''5''),
     (1, ''25''),
     (1, ''125''),
     (2, ''625''),
     (2, ''3125''),
     (2, ''15625''),
     (3, ''78125''),
     (3, ''390625''),
     (3, ''1953125''),
     (4, ''9765625''),
     (4, ''48828125''),
     (4, ''244140625''),
     (4, ''1220703125''),
     (5, ''6103515625''),
     (5, ''30517578125''),
     (5, ''152587890625''),
     (6, ''762939453125''),
     (6, ''3814697265625''),
     (6, ''19073486328125''),
     (7, ''95367431640625''),
     (7, ''476837158203125''),
     (7, ''2384185791015625''),
     (7, ''11920928955078125''),
     (8, ''59604644775390625''),
     (8, ''298023223876953125''),
     (8, ''1490116119384765625''),
     (9, ''7450580596923828125''),
     (9, ''37252902984619140625''),
     (9, ''186264514923095703125''),
     (10, ''931322574615478515625''),
     (10, ''4656612873077392578125''),
     (10, ''23283064365386962890625''),
     (10, ''116415321826934814453125''),
     (11, ''582076609134674072265625''),
     (11, ''2910383045673370361328125''),
     (11, ''14551915228366851806640625''),
     (12, ''72759576141834259033203125''),
     (12, ''363797880709171295166015625''),
     (12, ''1818989403545856475830078125''),
     (13, ''9094947017729282379150390625''),
     (13, ''45474735088646411895751953125''),
     (13, ''227373675443232059478759765625''),
     (13, ''1136868377216160297393798828125''),
     (14, ''5684341886080801486968994140625''),
     (14, ''28421709430404007434844970703125''),
     (14, ''142108547152020037174224853515625''),
     (15, ''710542735760100185871124267578125''),
     (15, ''3552713678800500929355621337890625''),
     (15, ''17763568394002504646778106689453125''),
     (16, ''88817841970012523233890533447265625''),
     (16, ''444089209850062616169452667236328125''),
     (16, ''2220446049250313080847263336181640625''),
     (16, ''11102230246251565404236316680908203125''),
     (17, ''55511151231257827021181583404541015625''),
     (17, ''277555756156289135105907917022705078125''),
     (17, ''1387778780781445675529539585113525390625''),
     (18, ''6938893903907228377647697925567626953125''),
     (18, ''34694469519536141888238489627838134765625''),
     (18, ''173472347597680709441192448139190673828125''),
     (19, ''867361737988403547205962240695953369140625'')]"

definition kPowTab :: "int list" where "kPowTab = [1, 3, 6, 9, 13, 16, 19, 23, 26]"

definition is_digit :: "u8 \<Rightarrow> bool" where "is_digit c \<longleftrightarrow> 0x30 \<le> c \<and> c \<le> 0x39"

subsection \<open>Reading the text\<close>

text \<open>The loop over the mantissa: digits and dots, up to anything else or \<open>len\<close>.\<close>

function set_digits :: "bytes \<Rightarrow> nat \<Rightarrow> nat \<Rightarrow> Decimal \<Rightarrow> bool \<Rightarrow> (nat \<times> Decimal \<times> bool) option" where
  "set_digits s len i d saw_dot =
     (if i < len then (case rd s i of
        None \<Rightarrow> None
      | Some c \<Rightarrow>
          if is_digit c then
            (if c = 0x30 \<and> nd d = 0 then set_digits s len (i + 1) (d\<lparr>dp := dp d - 1\<rparr>) saw_dot
             else if nd d < DECIMAL_MAX_DNUM then (case wr (dd d) (nd d) [c] of
                 None \<Rightarrow> None
               | Some ds \<Rightarrow> set_digits s len (i + 1) (d\<lparr>dd := ds, nd := nd d + 1\<rparr>) saw_dot)
             else set_digits s len (i + 1) (if c \<noteq> 0x30 then d\<lparr>trunc := True\<rparr> else d) saw_dot)
          else if c = 0x2E then set_digits s len (i + 1) (d\<lparr>dp := int (nd d)\<rparr>) True
          else Some (i, d, saw_dot))
      else Some (i, d, saw_dot))"
  by auto
termination by (relation "measure (\<lambda>(s, len, i, d, sd). len - i)") auto

declare set_digits.simps [simp del]

function set_exp :: "bytes \<Rightarrow> nat \<Rightarrow> nat \<Rightarrow> int \<Rightarrow> int option" where
  "set_exp s len i e =
     (if i < len then (case rd s i of
        None \<Rightarrow> None
      | Some c \<Rightarrow> if is_digit c \<and> e < 10000 then set_exp s len (i + 1) (e * 10 + (int (unat c) - 48)) else Some e)
      else Some e)"
  by auto
termination by (relation "measure (\<lambda>(s, len, i, e). len - i)") auto

declare set_exp.simps [simp del]

text \<open>\<open>SetDecimal\<close>; \<open>s\<close> starts at the text of the number.\<close>

definition SetDecimal :: "bytes \<Rightarrow> nat \<Rightarrow> Decimal option" where
  "SetDecimal s len = do {
     c0 \<leftarrow> rd s 0;
     let d = InitDecimal\<lparr>dneg := (c0 = 0x2D)\<rparr>;
     (i, d, saw_dot) \<leftarrow> set_digits s len (if c0 = 0x2D then 1 else 0) d False;
     let d = (if saw_dot then d else d\<lparr>dp := int (nd d)\<rparr>);
     if i < len then do {
       c \<leftarrow> rd s i;
       if c = 0x65 \<or> c = 0x45 then do {
         c \<leftarrow> rd s (i + 1);
         e \<leftarrow> set_exp s len (if c = 0x2B \<or> c = 0x2D then i + 2 else i + 1) 0;
         Some (d\<lparr>dp := dp d + e * (if c = 0x2D then - 1 else 1)\<rparr>)
       }
       else Some d
     }
     else Some d
   }"

subsection \<open>Shifting\<close>

fun trim_nd :: "bytes \<Rightarrow> nat \<Rightarrow> nat option" where
  "trim_nd ds 0 = Some 0"
| "trim_nd ds (Suc n) = (case rd ds n of None \<Rightarrow> None | Some c \<Rightarrow> if c = 0x30 then trim_nd ds n else Some (Suc n))"

definition Trim :: "Decimal \<Rightarrow> Decimal option" where
  "Trim d = map_option (\<lambda>n. d\<lparr>nd := n, dp := (if n = 0 then 0 else dp d)\<rparr>) (trim_nd (dd d) (nd d))"

text \<open>
  \<open>RightShift\<close>. \<open>rs_pick\<close> reads leading digits until the first shift is covered (\<open>Some None\<close>: the number
  is zero), \<open>rs_fill\<close> appends zeros when the digits run out first; \<open>rs_digits\<close> then writes one digit for
  each it reads, and \<open>rs_extra\<close> writes what is left.
\<close>

partial_function (option) rs_fill :: "nat \<Rightarrow> u64 \<Rightarrow> nat \<Rightarrow> (nat \<times> u64) option" where
  "rs_fill k n r = (if drop_bit k n = 0 then rs_fill k (n * 10) (r + 1) else Some (r, n))"

declare rs_fill.simps [code]

function rs_pick :: "Decimal \<Rightarrow> nat \<Rightarrow> nat \<Rightarrow> u64 \<Rightarrow> (nat \<times> u64) option option" where
  "rs_pick d k r n =
     (if drop_bit k n \<noteq> 0 then Some (Some (r, n))
      else if nd d \<le> r then (if n = 0 then Some None else map_option Some (rs_fill k n r))
      else (case rd (dd d) r of None \<Rightarrow> None | Some c \<Rightarrow> rs_pick d k (r + 1) (n * 10 + ucast c - 0x30)))"
  by auto
termination by (relation "measure (\<lambda>(d, k, r, n). nd d - r)") auto

declare rs_pick.simps [simp del]

function rs_digits :: "bytes \<Rightarrow> nat \<Rightarrow> nat \<Rightarrow> nat \<Rightarrow> nat \<Rightarrow> u64 \<Rightarrow> (bytes \<times> nat \<times> u64) option" where
  "rs_digits ds e k r w n =
     (if r < e then (case wr ds w [ucast (drop_bit k n) + 0x30] of
        None \<Rightarrow> None
      | Some ds \<Rightarrow> (case rd ds r of
          None \<Rightarrow> None
        | Some c \<Rightarrow> rs_digits ds e k (r + 1) (w + 1) ((n AND (push_bit k 1 - 1)) * 10 + ucast c - 0x30)))
      else Some (ds, w, n))"
  by auto
termination by (relation "measure (\<lambda>(ds, e, k, r, w, n). e - r)") auto

declare rs_digits.simps [simp del]

partial_function (option) rs_extra :: "bytes \<Rightarrow> nat \<Rightarrow> nat \<Rightarrow> u64 \<Rightarrow> bool \<Rightarrow> (bytes \<times> nat \<times> bool) option" where
  "rs_extra ds k w n tr =
     (if n = 0 then Some (ds, w, tr)
      else
        let dig = drop_bit k n; n = n AND (push_bit k 1 - 1)
        in if w < DECIMAL_MAX_DNUM then
             (case wr ds w [ucast dig + 0x30] of
                None \<Rightarrow> None
              | Some ds \<Rightarrow> rs_extra ds k (w + 1) (n * 10) tr)
           else rs_extra ds k w (n * 10) (tr \<or> 0 < dig))"

declare rs_extra.simps [code]

definition RightShift :: "Decimal \<Rightarrow> nat \<Rightarrow> Decimal option" where
  "RightShift d k = do {
     picked \<leftarrow> rs_pick d k 0 0;
     case picked of
       None \<Rightarrow> Some (d\<lparr>nd := 0\<rparr>)
     | Some (r, n) \<Rightarrow> do {
         let d = d\<lparr>dp := dp d - (int r - 1)\<rparr>;
         (ds, w, n) \<leftarrow> rs_digits (dd d) (nd d) k r 0 n;
         (ds, w, tr) \<leftarrow> rs_extra ds k w n (trunc d);
         Trim (d\<lparr>dd := ds, nd := w, trunc := tr\<rparr>)
       }
   }"

text \<open>\<open>LeftShift\<close>. The cut-off strings of the table are zero-filled arrays.\<close>

definition cutoff_at :: "string \<Rightarrow> nat \<Rightarrow> u8" where
  "cutoff_at s i = (if i < length s then of_char (s ! i) else 0)"

function prefix_less :: "bytes \<Rightarrow> string \<Rightarrow> nat \<Rightarrow> nat \<Rightarrow> bool option" where
  "prefix_less b s bn i =
     (if i < bn then
        (if cutoff_at s i = 0 then Some False
         else (case rd b i of
             None \<Rightarrow> None
           | Some c \<Rightarrow> if c \<noteq> cutoff_at s i then Some (c < cutoff_at s i) else prefix_less b s bn (i + 1)))
      else Some (cutoff_at s i \<noteq> 0))"
  by auto
termination by (relation "measure (\<lambda>(b, s, bn, i). bn - i)") auto

declare prefix_less.simps [simp del]

definition PrefixIsLess :: "bytes \<Rightarrow> string \<Rightarrow> nat \<Rightarrow> bool option" where
  "PrefixIsLess b s bn = prefix_less b s bn 0"

text \<open>One digit put down, at \<open>w\<close> counted from the end.\<close>

definition ls_put :: "bytes \<Rightarrow> int \<Rightarrow> u64 \<Rightarrow> bool \<Rightarrow> (bytes \<times> bool) option" where
  "ls_put ds w rm tr =
     (if w < int DECIMAL_MAX_DNUM
      then (if w < 0 then None else map_option (\<lambda>ds. (ds, tr)) (wr ds (nat w) [ucast rm + 0x30]))
      else Some (ds, tr \<or> rm \<noteq> 0))"

fun ls_digits :: "nat \<Rightarrow> nat \<Rightarrow> bytes \<Rightarrow> int \<Rightarrow> u64 \<Rightarrow> bool \<Rightarrow> (bytes \<times> int \<times> u64 \<times> bool) option" where
  "ls_digits k 0 ds w n tr = Some (ds, w, n, tr)"
| "ls_digits k (Suc r) ds w n tr = do {
     c \<leftarrow> rd ds r;
     let n = n + push_bit k (ucast c - 0x30);
     let quo = n div 10;
     (ds, tr) \<leftarrow> ls_put ds (w - 1) (n - 10 * quo) tr;
     ls_digits k r ds (w - 1) quo tr
   }"

lemma div_ten_less: "n \<noteq> 0 \<Longrightarrow> unat ((n :: u64) div 10) < unat n"
proof -
  assume "n \<noteq> 0"
  then have "0 < unat n" by (simp add: unat_gt_0)
  then show ?thesis by (simp add: unat_div)
qed

function ls_extra :: "bytes \<Rightarrow> int \<Rightarrow> u64 \<Rightarrow> bool \<Rightarrow> (bytes \<times> bool) option" where
  "ls_extra ds w n tr =
     (if n = 0 then Some (ds, tr)
      else (case ls_put ds (w - 1) (n - 10 * (n div 10)) tr of
          None \<Rightarrow> None
        | Some (ds, tr) \<Rightarrow> ls_extra ds (w - 1) (n div 10) tr))"
  by auto
termination
  by (relation "measure (\<lambda>(ds, w, n, tr). unat n)") (simp_all add: div_ten_less)

declare ls_extra.simps [simp del]

definition LeftShift :: "Decimal \<Rightarrow> nat \<Rightarrow> Decimal option" where
  "LeftShift d k = do {
     (delta, cutoff) \<leftarrow> rd LSHIFT_TAB k;
     less \<leftarrow> PrefixIsLess (dd d) cutoff (nd d);
     let delta = (if less then delta - 1 else delta);
     (ds, w, n, tr) \<leftarrow> ls_digits k (nd d) (dd d) (int (nd d) + delta) 0 (trunc d);
     (ds, tr) \<leftarrow> ls_extra ds w n tr;
     let nd' = int (nd d) + delta;
     Trim (d\<lparr>dd := ds, nd := (if int DECIMAL_MAX_DNUM \<le> nd' then DECIMAL_MAX_DNUM else nat nd'),
       dp := dp d + delta, trunc := tr\<rparr>)
   }"

function shift_left :: "Decimal \<Rightarrow> nat \<Rightarrow> Decimal option" where
  "shift_left d k =
     (if MAX_SHIFT < k then (case LeftShift d MAX_SHIFT of None \<Rightarrow> None | Some d \<Rightarrow> shift_left d (k - MAX_SHIFT))
      else if k \<noteq> 0 then LeftShift d k else Some d)"
  by auto
termination by (relation "measure snd") (auto simp: MAX_SHIFT_def)

function shift_right :: "Decimal \<Rightarrow> nat \<Rightarrow> Decimal option" where
  "shift_right d k =
     (if MAX_SHIFT < k then (case RightShift d MAX_SHIFT of None \<Rightarrow> None | Some d \<Rightarrow> shift_right d (k - MAX_SHIFT))
      else if k \<noteq> 0 then RightShift d k else Some d)"
  by auto
termination by (relation "measure snd") (auto simp: MAX_SHIFT_def)

declare shift_left.simps [simp del] shift_right.simps [simp del]

definition DecimalShift :: "Decimal \<Rightarrow> int \<Rightarrow> Decimal option" where
  "DecimalShift d k =
     (if nd d = 0 \<or> k = 0 then Some d
      else if 0 < k then shift_left d (nat k) else shift_right d (nat (- k)))"

subsection \<open>To binary\<close>

definition ShouldRoundup :: "Decimal \<Rightarrow> int \<Rightarrow> bool option" where
  "ShouldRoundup d n =
     (if n < 0 \<or> int (nd d) \<le> n then Some False
      else do {
        c \<leftarrow> rd (dd d) (nat n);
        if c = 0x35 \<and> n + 1 = int (nd d) then
          (if trunc d then Some True
           else if 0 < n then do { p \<leftarrow> rd (dd d) (nat n - 1); Some (odd (unat p - 48)) }
           else Some False)
        else Some (0x35 \<le> c)
      })"

fun round_digits :: "bytes \<Rightarrow> nat \<Rightarrow> nat \<Rightarrow> u64 \<Rightarrow> u64 option" where
  "round_digits ds 0 i n = Some n"
| "round_digits ds (Suc m) i n = (case rd ds i of None \<Rightarrow> None | Some c \<Rightarrow> round_digits ds m (i + 1) (n * 10 + (ucast c - 0x30)))"

fun round_zeros :: "nat \<Rightarrow> u64 \<Rightarrow> u64" where
  "round_zeros 0 n = n"
| "round_zeros (Suc m) n = round_zeros m (n * 10)"

definition RoundedInteger :: "Decimal \<Rightarrow> u64 option" where
  "RoundedInteger d =
     (if 20 < dp d then Some 0xFFFFFFFFFFFFFFFF
      else do {
        let m = min (nat (dp d)) (nd d);
        n \<leftarrow> round_digits (dd d) m 0 0;
        let n = round_zeros (nat (dp d) - m) n;
        up \<leftarrow> ShouldRoundup d (dp d);
        Some (if up then n + 1 else n)
      })"

text \<open>The two scaling loops: the point moves to the front of the first digit, which becomes at least 5.\<close>

partial_function (option) scale_down :: "Decimal \<Rightarrow> int \<Rightarrow> (Decimal \<times> int) option" where
  "scale_down d exp2 =
     (if 0 < dp d then
        Option.bind (if 9 \<le> dp d then Some 27 else rd kPowTab (nat (dp d))) (\<lambda>n.
        Option.bind (DecimalShift d (- n)) (\<lambda>d. scale_down d (exp2 + n)))
      else Some (d, exp2))"

partial_function (option) scale_up :: "Decimal \<Rightarrow> int \<Rightarrow> (Decimal \<times> int) option" where
  "scale_up d exp2 =
     Option.bind (rd (dd d) 0) (\<lambda>c.
     (if dp d < 0 \<or> (dp d = 0 \<and> c < 0x35) then
        Option.bind (if 9 \<le> - dp d then Some 27 else rd kPowTab (nat (- dp d))) (\<lambda>n.
        Option.bind (DecimalShift d n) (\<lambda>d. scale_up d (exp2 - n)))
      else Some (d, exp2)))"

declare scale_down.simps [code] scale_up.simps [code]

text \<open>The bits assembled at \<open>out\<close>.\<close>

definition f64_out :: "bool \<Rightarrow> u64 \<Rightarrow> int \<Rightarrow> u64" where
  "f64_out ng mant exp2 =
     (let bits = (mant AND 0x000FFFFFFFFFFFFF) OR push_bit 52 (word_of_int (exp2 + 1023) AND 0x7FF)
      in if ng then bits OR push_bit 63 1 else bits)"

definition DecimalToF64 :: "Decimal \<Rightarrow> u64 option" where
  "DecimalToF64 d =
     (let overflow = f64_out (dneg d) 0 (0x7FF - 1023)
      in if nd d = 0 then Some (f64_out (dneg d) 0 (- 1023))
         else if 310 < dp d then Some overflow
         else if dp d < - 330 then Some (f64_out (dneg d) 0 (- 1023))
         else do {
           (d, exp2) \<leftarrow> scale_down d 0;
           (d, exp2) \<leftarrow> scale_up d exp2;
           let exp2 = exp2 - 1;
           (d, exp2) \<leftarrow> (if exp2 < - 1022
             then map_option (\<lambda>d. (d, - 1022)) (DecimalShift d (- (- 1022 - exp2))) else Some (d, exp2));
           if 0x7FF \<le> exp2 + 1023 then Some overflow
           else do {
             d \<leftarrow> DecimalShift d 53;
             mant \<leftarrow> RoundedInteger d;
             let carry = (mant = push_bit 52 2);
             let mant = (if carry then drop_bit 1 mant else mant);
             let exp2 = (if carry then exp2 + 1 else exp2);
             if carry \<and> 0x7FF \<le> exp2 + 1023 then Some overflow
             else Some (f64_out (dneg d) mant (if mant AND push_bit 52 1 = 0 then - 1023 else exp2))
           }
         })"

definition AtofNative :: "bytes \<Rightarrow> nat \<Rightarrow> u64 option" where
  "AtofNative buf len = do { d \<leftarrow> SetDecimal buf len; DecimalToF64 d }"

end
