(* ===== verification/Sonic_Number.thy ===== *)
theory Sonic_Number
  imports Sonic_Error Sonic_Bits Sonic_Atof Sonic_Decimal
begin

text \<open>
  Numbers in the text: \<open>simd_str2int\<close> (\<open>internal/arch/sse/str2int.h\<close>, lane by lane), \<open>parseNumber\<close>,
  \<open>parseNumberAsString\<close> and their helpers (\<open>dom/parser.h\<close>). A number parser returns the call it makes
  of the SAX handler, the error it leaves and the position; a handler that refuses the call turns
  the error into \<^const>\<open>kSaxTermination\<close>.
\<close>

subsection \<open>The calls of a SAX handler\<close>

text \<open>
  Strings are views into the text: the offset of the first byte, and the bytes at the time of the
  call. A double is its 64 bits.
\<close>

datatype event =
    ENull | EBool bool | EUint u64 | EInt u64 | EDouble u64
  | EString nat bytes | EKey nat bytes | ENumStr nat bytes | ERaw nat bytes
  | EStartObject | EEndObject u32 | EStartArray | EEndArray u32

type_synonym num_result = "event option \<times> SonicError \<times> nat"

definition StringView :: "bytes \<Rightarrow> nat \<Rightarrow> nat \<Rightarrow> bytes" where
  "StringView buf off n = take n (drop off buf)"

subsection \<open>The vector conversion of up to 16 digits\<close>

text \<open>The products with saturation of \<open>pmaddubsw\<close>, and \<open>pmaddwd\<close>, \<open>packusdw\<close>, on lists of lanes.\<close>

fun maddubs :: "u8 \<Rightarrow> u8 \<Rightarrow> u8 list \<Rightarrow> u16 list" where
  "maddubs p q (a # b # xs) =
     word_of_int (max (- 32768) (min 32767 (uint a * sint p + uint b * sint q))) # maddubs p q xs"
| "maddubs p q xs = []"

fun madd :: "u16 list \<Rightarrow> u16 list \<Rightarrow> u32 list" where
  "madd (p # q # ps) (a # b # xs) = word_of_int (sint a * sint p + sint b * sint q) # madd ps xs"
| "madd ps xs = []"

definition packus :: "u32 list \<Rightarrow> u16 list" where
  "packus xs = map (\<lambda>a. word_of_int (max 0 (min 65535 (sint a)))) xs"

definition slli :: "nat \<Rightarrow> u8 list \<Rightarrow> u8 list" where
  "slli k v = replicate k 0 @ take (16 - k) v"

definition num_end_mask :: "u8 list \<Rightarrow> u32" where
  "num_end_mask v = to_bitmask (map (\<lambda>c. sint c < 0 \<or> 9 < sint c) v)"

definition DATA_MADDUBS :: "u8 list \<Rightarrow> u16 list" where "DATA_MADDUBS v = maddubs 10 1 v"

definition DATA_MADD :: "u16 list \<Rightarrow> u32 list" where
  "DATA_MADD v = madd [100, 1, 100, 1, 100, 1, 100, 1] v"

definition DATA_PACK_AND_MADD :: "u32 list \<Rightarrow> u32 list" where
  "DATA_PACK_AND_MADD v = madd [10000, 1, 10000, 1, 0, 0, 0, 0] (packus v @ packus v)"

definition digits_value :: "nat \<Rightarrow> u8 list \<Rightarrow> u64" where
  "digits_value n v =
     (if n = 1 then ucast (v ! 0)
      else if n = 2 then word_of_int (uint (v ! 0) * 10 + uint (v ! 1))
      else if n = 3 \<or> n = 4 then
        (let w = DATA_MADDUBS (slli (16 - n) v) in word_of_int (uint (w ! 6) * 100 + uint (w ! 7)))
      else if 5 \<le> n \<and> n \<le> 8 then
        (let w = DATA_MADD (DATA_MADDUBS (slli (16 - n) v)) in word_of_int (sint (w ! 2 * 10000 + w ! 3)))
      else if 9 \<le> n \<and> n \<le> 16 then
        (let w = DATA_PACK_AND_MADD (DATA_MADD (DATA_MADDUBS (slli (16 - n) v)))
         in word_of_int (sint (w ! 0)) * 100000000 + word_of_int (sint (w ! 1)))
      else 0)"

definition simd_str2int :: "bytes \<Rightarrow> nat \<Rightarrow> nat \<Rightarrow> (u64 \<times> nat) option" where
  "simd_str2int buf i man_nd =
     (if length buf < i + 16 then None
      else
        let data = map (\<lambda>c. c - 0x30) (take 16 (drop i buf));
            m = num_end_mask data;
            num_end_idx = (if m \<noteq> 0 then TrailingZeroes m else 16);
            man_nd = min man_nd num_end_idx
        in Some (digits_value man_nd data, man_nd))"

subsection \<open>Scanning digits\<close>

function skip_while :: "(u8 \<Rightarrow> bool) \<Rightarrow> bytes \<Rightarrow> nat \<Rightarrow> nat option" where
  "skip_while P s i = (if i < length s then (if P (s ! i) then skip_while P s (i + 1) else Some i) else None)"
  by auto
termination by (relation "measure (\<lambda>(P, s, i). length s - i)") auto

declare skip_while.simps [simp del]

definition carry_one :: "u8 \<Rightarrow> u64 \<Rightarrow> u64 option" where
  "carry_one c acc = (let d = c - 0x30 in if 9 < d then None else Some (acc * 10 + ucast d))"

function str2int_from :: "bytes \<Rightarrow> nat \<Rightarrow> u64 \<Rightarrow> (u64 \<times> nat) option" where
  "str2int_from s i acc =
     (if i < length s then (case carry_one (s ! i) acc of
        None \<Rightarrow> Some (acc, i)
      | Some acc \<Rightarrow> str2int_from s (i + 1) acc)
      else None)"
  by auto
termination by (relation "measure (\<lambda>(s, i, acc). length s - i)") auto

declare str2int_from.simps [simp del]

definition str2int :: "bytes \<Rightarrow> nat \<Rightarrow> (u64 \<times> nat) option" where
  "str2int s i = str2int_from s i 0"

text \<open>The slow path of the integer digits: the first 19 go into the mantissa, the others are counted.\<close>

function slow_digits :: "bytes \<Rightarrow> nat \<Rightarrow> u64 \<Rightarrow> nat \<Rightarrow> int \<Rightarrow> (nat \<times> u64 \<times> nat \<times> int) option" where
  "slow_digits s i man man_nd exp10 =
     (if i < length s then
        (if is_digit (s ! i) then
           (if man_nd < 19 then slow_digits s (i + 1) (man * 10 + ucast (s ! i) - 0x30) (man_nd + 1) exp10
            else slow_digits s (i + 1) man man_nd (exp10 + 1))
         else Some (i, man, man_nd, exp10))
      else None)"
  by auto
termination by (relation "measure (\<lambda>(s, i, m, k, e). length s - i)") auto

declare slow_digits.simps [simp del]

definition FLOATING_LONGEST_DIGITS :: nat where "FLOATING_LONGEST_DIGITS = 17"

function fract_digits :: "bytes \<Rightarrow> nat \<Rightarrow> u64 \<Rightarrow> nat \<Rightarrow> (nat \<times> u64 \<times> nat) option" where
  "fract_digits s i man man_nd =
     (if man_nd < FLOATING_LONGEST_DIGITS then
        (if i < length s then
           (if is_digit (s ! i) then fract_digits s (i + 1) (man * 10 + ucast (s ! i) - 0x30) (man_nd + 1)
            else Some (i, man, man_nd))
         else None)
      else Some (i, man, man_nd))"
  by auto
termination by (relation "measure (\<lambda>(s, i, m, k). length s - i)") auto

declare fract_digits.simps [simp del]

text \<open>\<open>CHECK_DIGIT\<close> and the sign of an exponent.\<close>

definition CHECK_DIGIT :: "bytes \<Rightarrow> nat \<Rightarrow> num_result option \<Rightarrow> num_result option" where
  "CHECK_DIGIT s i k = (case rd s i of
      None \<Rightarrow> None
    | Some c \<Rightarrow> if c < 0x30 \<or> 0x39 < c then Some (None, kParseErrorInvalidChar, i) else k)"

definition is_e :: "u8 \<Rightarrow> bool" where "is_e c \<longleftrightarrow> c = 0x65 \<or> c = 0x45"

definition exp_sign :: "bytes \<Rightarrow> nat \<Rightarrow> (nat \<times> int) option" where
  "exp_sign s i = map_option (\<lambda>c. if c = 0x2D then (i + 1, - 1) else if c = 0x2B then (i + 1, 1) else (i, 1)) (rd s i)"

text \<open>An exponent behind a zero, from behind the e: checked, and 0.0 reported.\<close>

definition zero_exponent :: "bytes \<Rightarrow> nat \<Rightarrow> int \<Rightarrow> num_result option" where
  "zero_exponent s i sg = do {
     (i, esm) \<leftarrow> exp_sign s i;
     CHECK_DIGIT s i (do {
       i \<leftarrow> skip_while is_digit s i;
       Some (Some (EDouble (dbl_mul_sgn 0 sg)), kErrorNone, i)
     })
   }"

function exp_digits :: "bytes \<Rightarrow> nat \<Rightarrow> int \<Rightarrow> (nat \<times> int) option" where
  "exp_digits s i e =
     (if i < length s then
        (if is_digit (s ! i) then exp_digits s (i + 1) (if e < 10000 then e * 10 + (int (unat (s ! i)) - 48) else e)
         else Some (i, e))
      else None)"
  by auto
termination by (relation "measure (\<lambda>(s, i, e). length s - i)") auto

declare exp_digits.simps [simp del]

subsection \<open>Numbers as strings\<close>

definition double_string_fast :: "bytes \<Rightarrow> nat \<Rightarrow> nat \<Rightarrow> num_result" where
  "double_string_fast s start i = (Some (ENumStr start (StringView s start (i - start))), kErrorNone, i)"

definition double_string_exp :: "bytes \<Rightarrow> nat \<Rightarrow> nat \<Rightarrow> num_result option" where
  "double_string_exp s start i = do {
     (i, esm) \<leftarrow> exp_sign s (i + 1);
     CHECK_DIGIT s i (do { i \<leftarrow> skip_while is_digit s i; Some (double_string_fast s start i) })
   }"

definition double_string_fract :: "bytes \<Rightarrow> nat \<Rightarrow> nat \<Rightarrow> num_result option" where
  "double_string_fract s start i = do {
     i \<leftarrow> skip_while is_digit s i;
     c \<leftarrow> rd s i;
     if \<not> is_e c then Some (double_string_fast s start i) else double_string_exp s start i
   }"

definition kUint64Max :: u64 where "kUint64Max = 0xFFFFFFFFFFFFFFFF"

text \<open>The first 19 digits, read again.\<close>

fun digits19 :: "bytes \<Rightarrow> nat \<Rightarrow> nat \<Rightarrow> u64 \<Rightarrow> u64 option" where
  "digits19 s i 0 man = Some man"
| "digits19 s i (Suc k) man = (case rd s i of None \<Rightarrow> None | Some c \<Rightarrow> digits19 s (i + 1) k (man * 10 + (ucast c - 0x30)))"

text \<open>A number starting with 0, from behind the 0, and any other, from its first digit.\<close>

definition string_zero :: "bytes \<Rightarrow> nat \<Rightarrow> nat \<Rightarrow> int \<Rightarrow> num_result option" where
  "string_zero s start i sg = do {
     c \<leftarrow> rd s i;
     if c = 0x2E then CHECK_DIGIT s (i + 1) (do {
       i \<leftarrow> skip_while (\<lambda>c. c = 0x30) s (i + 1);
       c \<leftarrow> rd s i;
       if is_e c then zero_exponent s (i + 1) sg else double_string_fract s start i
     })
     else if is_e c then zero_exponent s (i + 1) sg
     else Some (Some (EUint 0), kErrorNone, i)
   }"

definition string_integer :: "bytes \<Rightarrow> nat \<Rightarrow> nat \<Rightarrow> nat \<Rightarrow> u64 \<Rightarrow> int \<Rightarrow> num_result option" where
  "string_integer s start digit_start i man sg =
     (let man_nd = i - digit_start in
      if man_nd \<le> 19 then
        (if sg = - 1 then
           (if push_bit 63 1 < man then Some (double_string_fast s start i)
            else Some (Some (EInt (- man)), kErrorNone, i))
         else Some (Some (EUint man), kErrorNone, i))
      else if man_nd = 20 then do {
        man \<leftarrow> digits19 s digit_start 19 0;
        d \<leftarrow> rd s (i - 1);
        let num = ucast d - 0x30;
        Some (if man < kUint64Max div 10 \<or> (man = kUint64Max div 10 \<and> num \<le> kUint64Max mod 10) then
          (let man = man * 10 + num
           in if sg = - 1 then double_string_fast s start i else (Some (EUint man), kErrorNone, i))
        else double_string_fast s start i)
      }
      else Some (double_string_fast s start i))"

definition string_digits :: "bytes \<Rightarrow> nat \<Rightarrow> nat \<Rightarrow> int \<Rightarrow> num_result option" where
  "string_digits s start digit_start sg = do {
     (man, i) \<leftarrow> str2int s digit_start;
     if i - digit_start = 0 then Some (None, kParseErrorInvalidChar, i)
     else do {
       c \<leftarrow> rd s i;
       if c = 0x2E then double_string_fract s start (i + 1)
       else if is_e c then double_string_exp s start i
       else string_integer s start digit_start i man sg
     }
   }"

definition parseNumberAsString :: "bytes \<Rightarrow> nat \<Rightarrow> num_result option" where
  "parseNumberAsString s pos = (let start = pos - 1 in do {
     c \<leftarrow> rd s start;
     let sg = (if c = 0x2D then - 1 else 1);
     let i = (if c = 0x2D then start + 1 else start);
     c \<leftarrow> rd s i;
     if c = 0x30 then string_zero s start (i + 1) sg else string_digits s start i sg
   })"

subsection \<open>Floating point numbers\<close>

text \<open>\<open>parseFloatEiselLemire64\<close>; \<open>pos\<close> is behind the first character of the number.\<close>

definition parseFloatEiselLemire64 ::
  "bytes \<Rightarrow> nat \<Rightarrow> nat \<Rightarrow> int \<Rightarrow> u64 \<Rightarrow> int \<Rightarrow> bool \<Rightarrow> (u64 \<times> SonicError) option" where
  "parseFloatEiselLemire64 s pos len exp10 man sg tr = do {
     r \<leftarrow> AtofEiselLemire64 man exp10 sg;
     ok \<leftarrow> (case r of
         None \<Rightarrow> Some None
       | Some d \<Rightarrow>
           if \<not> tr then Some (Some d)
           else do {
             up \<leftarrow> AtofEiselLemire64 (man + 1) exp10 sg;
             Some (if up = Some d then Some d else None)
           });
     (case ok of
         Some d \<Rightarrow> Some (d, kErrorNone)
       | None \<Rightarrow> do {
           d \<leftarrow> AtofNative (drop (pos - 1) s) (len - pos + 1);
           Some (d, if push_bit 1 d = 0xFFE0000000000000 then kParseErrorInfinity else kErrorNone)
         })
   }"

text \<open>From \<open>double_fast\<close> to the end.\<close>

definition double_fast :: "u32 \<Rightarrow> bytes \<Rightarrow> nat \<Rightarrow> nat \<Rightarrow> nat \<Rightarrow> u64 \<Rightarrow> int \<Rightarrow> int \<Rightarrow> bool \<Rightarrow> num_result option" where
  "double_fast fl s pos len i man exp10 sg tr = do {
     fast \<leftarrow> (if drop_bit 52 man = 0 \<and> exp10 \<le> 22 + 15 \<and> - 22 \<le> exp10 then parseFloatingFast exp10 man else Some None);
     (case fast of
        Some d \<Rightarrow> Some (Some (EDouble (dbl_mul_sgn d sg)), kErrorNone, i)
      | None \<Rightarrow> do {
          raw \<leftarrow> (if \<not> tr \<and> - 308 + 1 < exp10 \<and> exp10 < 308 - 20 then ParseFloatingNormalFast exp10 man sg else Some None);
          (case raw of
             Some d \<Rightarrow> Some (Some (EDouble d), kErrorNone, i)
           | None \<Rightarrow> do {
               (d, er) \<leftarrow> parseFloatEiselLemire64 s pos len exp10 man sg tr;
               if flags_and fl kParseOverflowNumAsNumStr \<and> er = kParseErrorInfinity
               then parseNumberAsString s pos
               else Some (Some (EDouble d), er, i)
             })
        })
   }"

definition double_exp :: "u32 \<Rightarrow> bytes \<Rightarrow> nat \<Rightarrow> nat \<Rightarrow> nat \<Rightarrow> u64 \<Rightarrow> int \<Rightarrow> int \<Rightarrow> bool \<Rightarrow> num_result option" where
  "double_exp fl s pos len i man exp10 sg tr = do {
     (i, esm) \<leftarrow> exp_sign s (i + 1);
     CHECK_DIGIT s i (do {
       (i, e) \<leftarrow> exp_digits s i 0;
       double_fast fl s pos len i man (exp10 + e * esm) sg tr
     })
   }"

definition double_fract ::
  "u32 \<Rightarrow> bytes \<Rightarrow> nat \<Rightarrow> nat \<Rightarrow> nat \<Rightarrow> u64 \<Rightarrow> nat \<Rightarrow> int \<Rightarrow> nat \<Rightarrow> int \<Rightarrow> bool \<Rightarrow> num_result option" where
  "double_fract fl s pos len i man man_nd exp10 exp10_s sg tr = do {
     (i, man) \<leftarrow> (if man_nd < FLOATING_LONGEST_DIGITS then do {
         (acc, fract_len) \<leftarrow> simd_str2int s i (FLOATING_LONGEST_DIGITS - man_nd);
         (i, man, man_nd) \<leftarrow> fract_digits s (i + fract_len) (man * 10 ^ fract_len + acc) (man_nd + fract_len);
         Some (i, man)
       } else Some (i, man));
     let exp10 = exp10 - (int i - int exp10_s);
     j \<leftarrow> skip_while is_digit s i;
     let tr = (tr \<or> i < j);
     c \<leftarrow> rd s j;
     if \<not> is_e c then double_fast fl s pos len j man exp10 sg tr
     else double_exp fl s pos len j man exp10 sg tr
   }"

subsection \<open>The number parser\<close>

text \<open>An integer whose digits end at \<open>i\<close>.\<close>

definition parse_integer ::
  "u32 \<Rightarrow> bytes \<Rightarrow> nat \<Rightarrow> nat \<Rightarrow> nat \<Rightarrow> u64 \<Rightarrow> int \<Rightarrow> int \<Rightarrow> num_result option" where
  "parse_integer fl s pos len i man exp10 sg =
     (let start = pos - 1; as_str = flags_and fl kParseOverflowNumAsNumStr in
      if flags_and fl kParseIntegerAsRaw then Some (Some (ERaw start (StringView s start (i - start))), kErrorNone, i)
      else if exp10 = 0 then
        (if sg = - 1 then
           (if push_bit 63 1 < man then
              (if as_str then parseNumberAsString s pos
               else Some (Some (EDouble (dbl_minus (dbl_of_u64 man))), kErrorNone, i))
            else Some (Some (EInt (- man)), kErrorNone, i))
         else Some (Some (EUint man), kErrorNone, i))
      else if exp10 = 1 then do {
        c \<leftarrow> rd s (i - 1);
        let num = (ucast c - 0x30 :: u64);
        if man < kUint64Max div 10 \<or> (man = kUint64Max div 10 \<and> num \<le> 0xFFFFFFFF mod 10) then
          (let man = man * 10 + num
           in if sg = - 1 then
                (if as_str then parseNumberAsString s pos
                 else Some (Some (EDouble (dbl_minus (dbl_of_u64 man))), kErrorNone, i))
              else Some (Some (EUint man), kErrorNone, i))
        else if as_str then parseNumberAsString s pos
        else double_fast fl s pos len i man exp10 sg True
      }
      else if as_str then parseNumberAsString s pos
      else double_fast fl s pos len i man exp10 sg True)"

definition number_zero :: "u32 \<Rightarrow> bytes \<Rightarrow> nat \<Rightarrow> nat \<Rightarrow> nat \<Rightarrow> int \<Rightarrow> num_result option" where
  "number_zero fl s pos len i sg = (let start = pos - 1 in do {
     c \<leftarrow> rd s i;
     if c = 0x2E then CHECK_DIGIT s (i + 1) (do {
       let exp10_s = i + 1;
       i \<leftarrow> skip_while (\<lambda>c. c = 0x30) s (i + 1);
       c \<leftarrow> rd s i;
       if is_e c then zero_exponent s (i + 1) sg
       else double_fract fl s pos len i 0 0 0 exp10_s sg False
     })
     else if is_e c then zero_exponent s (i + 1) sg
     else if flags_and fl kParseIntegerAsRaw
     then Some (Some (ERaw start (StringView s start (i - start))), kErrorNone, i)
     else Some (Some (EUint 0), kErrorNone, i)
   })"

definition number_digits :: "u32 \<Rightarrow> bytes \<Rightarrow> nat \<Rightarrow> nat \<Rightarrow> nat \<Rightarrow> int \<Rightarrow> num_result option" where
  "number_digits fl s pos len digit_start sg = do {
     (man, i) \<leftarrow> str2int s digit_start;
     let man_nd = i - digit_start;
     if man_nd = 0 then Some (None, kParseErrorInvalidChar, i)
     else do {
       (i, man, man_nd, exp10) \<leftarrow> (if 19 < man_nd then slow_digits s digit_start 0 0 0 else Some (i, man, man_nd, 0));
       c \<leftarrow> rd s i;
       if c = 0x2E then CHECK_DIGIT s (i + 1) (double_fract fl s pos len (i + 1) man man_nd exp10 (i + 1) sg False)
       else if is_e c then double_exp fl s pos len i man exp10 sg False
       else parse_integer fl s pos len i man exp10 sg
     }
   }"

definition parseNumber :: "u32 \<Rightarrow> bytes \<Rightarrow> nat \<Rightarrow> nat \<Rightarrow> num_result option" where
  "parseNumber fl s pos len = (let start = pos - 1 in do {
     c \<leftarrow> rd s start;
     let sg = (if c = 0x2D then - 1 else 1);
     let i = (if c = 0x2D then start + 1 else start);
     c \<leftarrow> rd s i;
     if c = 0x30 then number_zero fl s pos len (i + 1) sg else number_digits fl s pos len i sg
   })"

end
