(* ===== verification/Sonic_NumberProps.thy ===== *)
theory Sonic_NumberProps
  imports Sonic_Number
begin

text \<open>
  What the number scanners of \<^theory_text>\<open>Sonic_Number\<close> read: runs of digits, the value of the vector
  conversion, the grammar \<open>parseNumber\<close> accepts with the position it ends at, and that nothing in front
  of the number matters.
\<close>

subsection \<open>Digits\<close>

lemma digit_unat: "is_digit c \<longleftrightarrow> 48 \<le> unat c \<and> unat c \<le> 57"
  by (auto simp: is_digit_def word_less_nat_alt word_le_nat_alt)

lemma digit_range: "9 < c - 0x30 \<longleftrightarrow> \<not> is_digit c"
  using unat_u8_lt [of c] by (auto simp: is_digit_def word_less_nat_alt word_le_nat_alt unat_sub_if_size word_size)

lemma sint_u8: "sint (w :: u8) = (if unat w < 128 then int (unat w) else int (unat w) - 256)"
proof -
  have "sint w = signed_take_bit 7 (uint w)" by (simp add: sint_uint)
  also have "\<dots> = take_bit 8 (uint w) - 2 ^ 8 * of_bool (bit (uint w) 7)"
    by (simp add: signed_take_bit_eq_take_bit_minus)
  also have "take_bit 8 (uint w) = uint w"
    using unsigned_less [of w, where ?'a = int] by (intro take_bit_int_eq_self) simp_all
  also have "bit (uint w) 7 \<longleftrightarrow> 128 \<le> unat w"
  proof -
    have "bit (uint w) 7 \<longleftrightarrow> bit (unat w) 7" by (simp add: bit_unsigned_iff)
    also have "\<dots> \<longleftrightarrow> odd (unat w div 2 ^ 7)" by (simp add: bit_iff_odd)
    also have "\<dots> \<longleftrightarrow> 128 \<le> unat w"
    proof (cases "128 \<le> unat w")
      case True
      then have "unat w div 2 ^ 7 = 1" using unat_u8_lt [of w] by (intro div_nat_eqI) simp_all
      with True show ?thesis by simp
    qed simp
    finally show ?thesis .
  qed
  finally show ?thesis by auto
qed

lemma digit_signed_range: "sint (c - 0x30 :: u8) < 0 \<or> 9 < sint (c - 0x30) \<longleftrightarrow> \<not> is_digit c"
  using unat_u8_lt [of c] by (auto simp: sint_u8 is_digit_def word_less_nat_alt word_le_nat_alt unat_sub_if_size word_size)

subsection \<open>Runs of characters\<close>

definition run_end :: "(u8 \<Rightarrow> bool) \<Rightarrow> bytes \<Rightarrow> nat \<Rightarrow> nat" where
  "run_end P s i = i + length (takeWhile P (drop i s))"

lemma run_end_step: "i < length s \<Longrightarrow> run_end P s i = (if P (s ! i) then run_end P s (i + 1) else i)"
  by (simp add: run_end_def Cons_nth_drop_Suc [symmetric])

lemma run_end_ge: "i \<le> run_end P s i"
  by (simp add: run_end_def)

lemma run_end_all: "i \<le> j \<Longrightarrow> j < run_end P s i \<Longrightarrow> P (s ! j)"
proof -
  assume a: "i \<le> j" "j < run_end P s i"
  let ?w = "takeWhile P (drop i s)"
  have k: "j - i < length ?w" using a by (simp add: run_end_def)
  then have "?w ! (j - i) = drop i s ! (j - i)" by (rule takeWhile_nth)
  moreover have "P (?w ! (j - i))" using k by (metis nth_mem set_takeWhileD)
  moreover have "drop i s ! (j - i) = s ! j" using a k length_takeWhile_le [of P "drop i s"] by simp
  ultimately show ?thesis by simp
qed

lemma run_end_le: "i \<le> e \<Longrightarrow> e < length s \<Longrightarrow> \<not> P (s ! e) \<Longrightarrow> run_end P s i \<le> e"
  using run_end_all [of i e P s] by (meson not_le)

lemma run_end_stop: "i \<le> e \<Longrightarrow> e < length s \<Longrightarrow> \<not> P (s ! e) \<Longrightarrow> \<not> P (s ! run_end P s i)"
proof (induction "e - i" arbitrary: i)
  case 0
  then show ?case using run_end_step [of i s P] by simp
next
  case (Suc n)
  then show ?case using run_end_step [of i s P] by simp
qed

lemma run_end_mid: "i \<le> j \<Longrightarrow> j \<le> run_end P s i \<Longrightarrow> run_end P s j = run_end P s i"
proof (induction "j - i" arbitrary: i)
  case (Suc n)
  then have i: "i < j" "i < run_end P s i" by simp_all
  then have "P (s ! i)" using run_end_all [of i i P s] by simp
  moreover have "i < length s"
  proof (rule ccontr)
    assume "\<not> i < length s"
    then have "run_end P s i = i" by (simp add: run_end_def)
    with i(2) show False by simp
  qed
  ultimately have "run_end P s i = run_end P s (i + 1)" using run_end_step by simp
  with Suc i show ?case by simp
qed simp

lemma skip_while_run: "i \<le> e \<Longrightarrow> e < length s \<Longrightarrow> \<not> P (s ! e) \<Longrightarrow> skip_while P s i = Some (run_end P s i)"
proof (induction P s i rule: skip_while.induct)
  case (1 P s i)
  then show ?case by (subst skip_while.simps) (cases "i = e"; auto simp: run_end_step)
qed

lemma skip_while_ge: "skip_while P s i = Some j \<Longrightarrow> i \<le> j"
proof (induction P s i rule: skip_while.induct)
  case (1 P s i)
  then show ?case by (subst (asm) (2) skip_while.simps) (auto split: if_splits)
qed

lemma before_end: "i \<le> e \<Longrightarrow> P (s ! i) \<Longrightarrow> \<not> P (s ! e) \<Longrightarrow> i + 1 \<le> e"
  by (cases "i = e") auto

lemma is_digit_not: "is_digit c \<Longrightarrow> c \<noteq> 0x2E \<and> c \<noteq> 0x2D \<and> c \<noteq> 0x2B \<and> \<not> is_e c \<and> c \<noteq> 0x78"
  by (auto simp: is_digit_def is_e_def)

lemma carry_one_digit: "carry_one c acc = (if is_digit c then Some (acc * 10 + ucast (c - 0x30)) else None)"
  by (simp add: carry_one_def digit_range)

lemma str2int_from_run:
  "i \<le> e \<Longrightarrow> e < length s \<Longrightarrow> \<not> is_digit (s ! e) \<Longrightarrow> \<exists>v. str2int_from s i acc = Some (v, run_end is_digit s i)"
proof (induction s i acc rule: str2int_from.induct)
  case (1 s i acc)
  then show ?case by (subst str2int_from.simps) (cases "i = e"; auto simp: run_end_step carry_one_digit)
qed

lemma slow_digits_run:
  "i \<le> e \<Longrightarrow> e < length s \<Longrightarrow> \<not> is_digit (s ! e) \<Longrightarrow>
    \<exists>m k x. slow_digits s i man man_nd exp10 = Some (run_end is_digit s i, m, k, x) \<and> exp10 \<le> x"
proof (induction s i man man_nd exp10 rule: slow_digits.induct)
  case (1 s i man man_nd exp10)
  show ?case
  proof (cases "is_digit (s ! i)")
    case False
    with 1(3-) show ?thesis by (subst slow_digits.simps) (auto simp: run_end_step)
  next
    case True
    with 1(3-) have i: "i + 1 \<le> e" "i < length s" using before_end [of i e is_digit s] by simp_all
    note IH = 1(1) [OF i(2) True] 1(2) [OF i(2) True]
    show ?thesis using IH i 1(4-) True by (subst slow_digits.simps) (force simp: run_end_step)
  qed
qed

lemma fract_digits_run:
  "i \<le> e \<Longrightarrow> e < length s \<Longrightarrow> \<not> is_digit (s ! e) \<Longrightarrow>
    \<exists>j m k. fract_digits s i man man_nd = Some (j, m, k) \<and> i \<le> j \<and> j \<le> run_end is_digit s i"
proof (induction s i man man_nd rule: fract_digits.induct)
  case (1 s i man man_nd)
  show ?case
  proof (cases "man_nd < FLOATING_LONGEST_DIGITS \<and> is_digit (s ! i)")
    case False
    with 1(2-) show ?thesis by (subst fract_digits.simps) (auto simp: run_end_ge)
  next
    case True
    with 1(2-) have i: "i + 1 \<le> e" "i < length s" using before_end [of i e is_digit s] by simp_all
    obtain j m k where j: "fract_digits s (i + 1) (man * 10 + ucast (s ! i) - 0x30) (man_nd + 1) = Some (j, m, k)"
      "i + 1 \<le> j" "j \<le> run_end is_digit s (i + 1)"
      using 1(1) True i 1(3-) by blast
    have "fract_digits s i man man_nd = Some (j, m, k)" using True i j(1) by (subst fract_digits.simps) simp
    then show ?thesis using True i j(2,3) by (simp add: run_end_step)
  qed
qed

lemma exp_digits_run:
  "i \<le> e \<Longrightarrow> e < length s \<Longrightarrow> \<not> is_digit (s ! e) \<Longrightarrow> \<exists>x. exp_digits s i v = Some (run_end is_digit s i, x)"
proof (induction s i v rule: exp_digits.induct)
  case (1 s i v)
  show ?case
  proof (cases "is_digit (s ! i)")
    case False
    with 1(2-) show ?thesis by (subst exp_digits.simps) (auto simp: run_end_step)
  next
    case True
    with 1(2-) have i: "i + 1 \<le> e" "i < length s" using before_end [of i e is_digit s] by simp_all
    show ?thesis using 1(1) [OF i(2) True i(1) 1(3,4)] i True by (subst exp_digits.simps) (auto simp: run_end_step)
  qed
qed

subsection \<open>The vector conversion\<close>

definition digits_nat :: "nat list \<Rightarrow> nat" where
  "digits_nat ds = foldl (\<lambda>a d. a * 10 + d) 0 ds"

lemma digits_nat_snoc [simp]: "digits_nat (ds @ [d]) = digits_nat ds * 10 + d"
  by (simp add: digits_nat_def)

lemma digits_nat_Nil [simp]: "digits_nat [] = 0"
  by (simp add: digits_nat_def)

lemma digits_nat_zeros: "digits_nat (replicate k 0 @ ds) = digits_nat ds"
  by (induction ds rule: rev_induct) (simp_all flip: append_assoc, induction k, simp_all add: replicate_append_same [symmetric])

fun pairs :: "nat \<Rightarrow> nat list \<Rightarrow> nat list" where
  "pairs m (a # b # xs) = (a * m + b) # pairs m xs"
| "pairs m xs = []"

lemma sint_of_nat: "n < 2 ^ (LENGTH('a) - 1) \<Longrightarrow> sint (word_of_nat n :: 'a::len word) = int n"
proof -
  assume n: "n < 2 ^ (LENGTH('a) - 1)"
  have "int n < 2 ^ (LENGTH('a) - 1)" using n by (metis of_nat_less_iff of_nat_numeral of_nat_power)
  moreover have "- (2 ^ (LENGTH('a) - 1)) \<le> int n" by (rule order_trans [of _ 0]) simp_all
  ultimately have "signed_take_bit (LENGTH('a) - 1) (int n) = int n" by (intro signed_take_bit_int_eq_self)
  then show ?thesis by (simp add: signed_of_nat)
qed

lemma maddubs_nat: "(\<And>d. d \<in> set ds \<Longrightarrow> d \<le> 9) \<Longrightarrow> maddubs 10 1 (map word_of_nat ds) = map word_of_nat (pairs 10 ds)"
proof (induction "10 :: nat" ds rule: pairs.induct)
  case (1 a b xs)
  have "a \<le> 9" "b \<le> 9" using 1(2) by simp_all
  then have "uint (word_of_nat a :: u8) = int a" "uint (word_of_nat b :: u8) = int b"
    by (simp_all add: unsigned_of_nat take_bit_nat_eq_self_iff)
  then have "maddubs 10 1 (map word_of_nat (a # b # xs))
      = word_of_int (int (a * 10 + b)) # maddubs 10 1 (map word_of_nat xs)"
    using \<open>a \<le> 9\<close> \<open>b \<le> 9\<close> by simp
  with 1 show ?case by simp
qed simp_all

lemma pairs_le: "(\<And>d. d \<in> set ds \<Longrightarrow> d \<le> k) \<Longrightarrow> x \<in> set (pairs m ds) \<Longrightarrow> x \<le> k * m + k"
proof (induction m ds rule: pairs.induct)
  case (1 m a b xs)
  then have "a * m + b \<le> k * m + k" by (intro add_mono mult_right_mono) simp_all
  with 1 show ?case by auto
qed simp_all

lemma madd_nat:
  assumes "\<And>x. x \<in> set xs \<Longrightarrow> x < 32768" and "length ps = length xs" and "\<And>j. j < length ps \<Longrightarrow> ps ! j = (if even j then word_of_nat m else 1)" and "m < 32768"
  shows "madd ps (map word_of_nat xs) = map word_of_nat (pairs m xs)"
  using assms
proof (induction m xs arbitrary: ps rule: pairs.induct)
  case (1 m a b xs)
  obtain p q qs where ps: "ps = p # q # qs" using 1(3) by (cases ps; simp; metis length_Suc_conv)
  have pq: "p = word_of_nat m" "q = 1" using 1(4) [of 0] 1(4) [of 1] by (simp_all add: ps)
  have "qs ! j = (if even j then word_of_nat m else 1)" if "j < length qs" for j
    using 1(4) [of "j + 2"] that by (simp add: ps)
  then have IH: "madd qs (map word_of_nat xs) = map word_of_nat (pairs m xs)" using 1 ps by simp
  have "sint (word_of_nat a :: u16) = int a" "sint (word_of_nat b :: u16) = int b" "sint (word_of_nat m :: u16) = int m"
    using 1(2) [of a] 1(2) [of b] 1(5) by (simp_all add: sint_of_nat)
  moreover have "sint (1 :: u16) = 1" by simp
  ultimately have "madd ps (map word_of_nat (a # b # xs))
      = word_of_int (int (a * m + b)) # madd qs (map word_of_nat xs)" by (simp add: ps pq)
  with IH show ?case by simp
next
  case "2_1"
  then show ?case by simp
next
  case "2_2"
  then show ?case by (cases ps) simp_all
qed

lemma madd_lane:
  assumes "a < 32768" and "b < 32768"
  shows "madd (10000 # 1 # ps) (word_of_nat a # word_of_nat b # xs) = word_of_nat (a * 10000 + b) # madd ps xs"
proof -
  have "sint (word_of_nat a :: u16) = int a" "sint (word_of_nat b :: u16) = int b" "sint (10000 :: u16) = 10000" "sint (1 :: u16) = 1"
    using assms by (simp_all add: sint_of_nat)
  then show ?thesis by simp
qed

lemma packus_nat: "(\<And>x. x \<in> set xs \<Longrightarrow> x < 65536) \<Longrightarrow> packus (map word_of_nat xs) = map word_of_nat xs"
proof -
  assume a: "\<And>x. x \<in> set xs \<Longrightarrow> x < 65536"
  have "word_of_int (max 0 (min 65535 (sint (word_of_nat x :: u32)))) = (word_of_nat x :: u16)" if "x \<in> set xs" for x
    using a [OF that] by (simp add: sint_of_nat)
  then show ?thesis by (simp add: packus_def)
qed

lemma digits_value_16:
  assumes len: "length v = 16" and le: "\<And>j. j < n \<Longrightarrow> unat (v ! j) \<le> 9" and n: "n \<le> 16"
  shows "digits_value n v = word_of_nat (digits_nat (map unat (take n v)))"
proof -
  define ds where "ds = replicate (16 - n) 0 @ map unat (take n v)"
  have d9: "d \<le> 9" if "d \<in> set ds" for d
    using that le len n by (auto simp: ds_def in_set_conv_nth)
  have l16: "length ds = 16" using len n by (simp add: ds_def)
  have sl: "slli (16 - n) v = map word_of_nat ds" using n by (simp add: slli_def ds_def take_map o_def)
  have w1: "DATA_MADDUBS (slli (16 - n) v) = map word_of_nat (pairs 10 ds)"
    unfolding DATA_MADDUBS_def sl by (rule maddubs_nat) (rule d9)
  have b1: "x \<le> 99" if "x \<in> set (pairs 10 ds)" for x using pairs_le [of ds 9 x 10] d9 that by simp
  have b2: "x \<le> 9999" if "x \<in> set (pairs 100 (pairs 10 ds))" for x
    using pairs_le [of "pairs 10 ds" 99 x 100] b1 that by simp
  obtain d0 d1 d2 d3 d4 d5 d6 d7 d8 d9 d10 d11 d12 d13 d14 d15 where
    ds: "ds = [d0, d1, d2, d3, d4, d5, d6, d7, d8, d9, d10, d11, d12, d13, d14, d15]"
    using l16 by (auto simp: numeral_eq_Suc length_Suc_conv)
  have w2: "DATA_MADD (DATA_MADDUBS (slli (16 - n) v)) = map word_of_nat (pairs 100 (pairs 10 ds))"
    unfolding DATA_MADD_def w1
  proof (rule madd_nat)
    show "x < 32768" if "x \<in> set (pairs 10 ds)" for x using b1 [OF that] by simp
    show "[100, 1, 100, 1, 100, 1, 100, 1] ! j = (if even j then word_of_nat 100 else (1 :: u16))"
      if "j < length [100, 1, 100, 1, 100, 1, 100, 1 :: u16]" for j
      using that by (auto simp: less_Suc_eq)
  qed (simp_all add: ds)
  obtain x0 x1 x2 x3 where q: "pairs 100 (pairs 10 ds) = [x0, x1, x2, x3]" by (simp add: ds)
  have xs: "x0 \<le> 9999" "x1 \<le> 9999" "x2 \<le> 9999" "x3 \<le> 9999" using b2 by (simp_all add: q)
  have pk: "packus (DATA_MADD (DATA_MADDUBS (slli (16 - n) v))) = map word_of_nat (pairs 100 (pairs 10 ds))"
    unfolding w2 by (rule packus_nat) (use b2 in fastforce)
  have w3: "\<exists>t. DATA_PACK_AND_MADD (DATA_MADD (DATA_MADDUBS (slli (16 - n) v)))
      = word_of_nat (x0 * 10000 + x1) # word_of_nat (x2 * 10000 + x3) # t"
    unfolding DATA_PACK_AND_MADD_def pk q using xs by (simp add: madd_lane del: madd.simps of_nat_add of_nat_mult)
  have wn: "word_of_int (sint (word_of_nat k :: u32)) = (word_of_nat k :: u64)" if "k < 2 ^ 31" for k
    using that by (simp add: sint_of_nat)
  have dn: "digits_nat (map unat (take n v)) = digits_nat ds" by (simp add: ds_def digits_nat_zeros)
  have val: "digits_nat ds = (x0 * 10000 + x1) * 100000000 + (x2 * 10000 + x3)"
    using q by (auto simp: ds digits_nat_def)
  have zero: "ds ! j = 0" if "j < 16 - n" for j using that by (simp add: ds_def nth_append)
  consider "n = 0" | "n = 1" | "n = 2" | "n = 3 \<or> n = 4" | "5 \<le> n \<and> n \<le> 8" | "9 \<le> n \<and> n \<le> 16"
    using n by linarith
  then show ?thesis
  proof cases
    case 1
    then show ?thesis by (simp add: digits_value_def)
  next
    case 2
    then show ?thesis using len by (cases v) (simp_all add: digits_value_def digits_nat_def)
  next
    case 3
    obtain a b t where "v = a # b # t" using len by (cases v; simp; metis length_Suc_conv numeral_eq_Suc)
    then show ?thesis using 3 by (simp add: digits_value_def digits_nat_def numeral_2_eq_2)
  next
    case 4
    then have z: "ds ! 0 = 0" "ds ! 1 = 0" "ds ! 2 = 0" "ds ! 3 = 0" "ds ! 4 = 0" "ds ! 5 = 0" "ds ! 6 = 0" "ds ! 7 = 0"
      "ds ! 8 = 0" "ds ! 9 = 0" "ds ! 10 = 0" "ds ! 11 = 0" by (auto intro!: zero)
    have dz: "d0 = 0" "d1 = 0" "d2 = 0" "d3 = 0" "d4 = 0" "d5 = 0" "d6 = 0" "d7 = 0" "d8 = 0" "d9 = 0" "d10 = 0" "d11 = 0"
      using z by (simp_all add: ds)
    have p: "pairs 10 ds = [0, 0, 0, 0, 0, 0, d12 * 10 + d13, d14 * 10 + d15]" by (simp add: ds dz)
    have "digits_value n v = word_of_int (uint (DATA_MADDUBS (slli (16 - n) v) ! 6) * 100 + uint (DATA_MADDUBS (slli (16 - n) v) ! 7))"
      using 4 by (auto simp: digits_value_def Let_def)
    also have "\<dots> = word_of_int (int ((d12 * 10 + d13) * 100 + (d14 * 10 + d15)))"
    proof -
      have u: "uint (word_of_nat k :: u16) = int k" if "k \<le> 99" for k
        using that by (simp add: unsigned_of_nat take_bit_nat_eq_self_iff)
      have "d12 * 10 + d13 \<le> 99" "d14 * 10 + d15 \<le> 99" using b1 by (simp_all add: p)
      then show ?thesis unfolding w1 p by (simp add: u del: of_nat_add of_nat_mult) simp
    qed
    also have "(d12 * 10 + d13) * 100 + (d14 * 10 + d15) = digits_nat ds" by (simp add: ds dz digits_nat_def)
    finally show ?thesis by (simp add: dn)
  next
    case 5
    then have z: "ds ! 0 = 0" "ds ! 1 = 0" "ds ! 2 = 0" "ds ! 3 = 0" "ds ! 4 = 0" "ds ! 5 = 0" "ds ! 6 = 0" "ds ! 7 = 0"
      by (auto intro!: zero)
    have x: "x0 = 0" "x1 = 0" using z q by (simp_all add: ds)
    have w: "x2 * 10000 + x3 < 2 ^ 31" using xs by simp
    have "digits_value n v = word_of_int (sint (word_of_nat x2 * 10000 + word_of_nat x3 :: u32))"
      using 5 w2 by (simp add: digits_value_def q)
    also have "\<dots> = word_of_nat (x2 * 10000 + x3)" using wn [OF w] by simp
    finally show ?thesis by (simp add: dn val x)
  next
    case 6
    have w: "x2 * 10000 + x3 < 2 ^ 31" "x0 * 10000 + x1 < 2 ^ 31" using xs by simp_all
    obtain t where t: "DATA_PACK_AND_MADD (DATA_MADD (DATA_MADDUBS (slli (16 - n) v)))
      = word_of_nat (x0 * 10000 + x1) # word_of_nat (x2 * 10000 + x3) # t" using w3 by blast
    have "digits_value n v = word_of_int (sint (word_of_nat (x0 * 10000 + x1) :: u32)) * 100000000
        + word_of_int (sint (word_of_nat (x2 * 10000 + x3) :: u32))"
      using 6 t by (simp add: digits_value_def)
    also have "\<dots> = word_of_nat ((x0 * 10000 + x1) * 100000000 + (x2 * 10000 + x3))"
      unfolding wn [OF w(1)] wn [OF w(2)] by simp
    finally show ?thesis by (simp only: dn val)
  qed
qed

definition digit_of :: "u8 \<Rightarrow> nat" where "digit_of c = unat c - 48"

lemma run_end_min: "run_end P s i - i = length (takeWhile P (drop i s))"
  by (simp add: run_end_def)

lemma first_end:
  assumes len: "length v = 16"
  shows "(if num_end_mask (map (\<lambda>c. c - 0x30) v) \<noteq> 0 then TrailingZeroes (num_end_mask (map (\<lambda>c. c - 0x30) v)) else 16)
    = length (takeWhile is_digit v)"
proof -
  have m: "num_end_mask (map (\<lambda>c. c - 0x30) v) = to_bitmask (map (\<lambda>c. \<not> is_digit c) v)"
    by (simp add: num_end_mask_def o_def digit_signed_range)
  let ?m = "to_bitmask (map (\<lambda>c. \<not> is_digit c) v) :: u32"
  let ?n = "length (takeWhile is_digit v)"
  have le: "?n \<le> 16" using length_takeWhile_le [of is_digit v] len by simp
  have b: "bit ?m j \<longleftrightarrow> j < 16 \<and> \<not> is_digit (v ! j)" for j by (auto simp: bit_to_bitmask len)
  have small: "is_digit (v ! j)" if "j < ?n" for j
    using that by (metis nth_mem set_takeWhileD takeWhile_nth)
  show ?thesis
  proof (cases "?m = 0")
    case True
    have "is_digit c" if "c \<in> set v" for c
      using that b True len by (metis bit_0_eq bot_fun_def bot_bool_def in_set_conv_nth)
    then have "length (takeWhile is_digit v) = length v" by (metis takeWhile_eq_all_conv)
    then show ?thesis using True len by (simp add: m)
  next
    case False
    note tz = TrailingZeroes_nonzero [OF False]
    have t: "TrailingZeroes ?m < 16" "\<not> is_digit (v ! TrailingZeroes ?m)" using tz(2) b by simp_all
    have "\<not> ?n < TrailingZeroes ?m"
    proof
      assume lt: "?n < TrailingZeroes ?m"
      then have "\<not> is_digit (v ! ?n)" using t(1) len nth_length_takeWhile [of is_digit v] by simp
      with tz(3) [OF lt] b lt t(1) show False by simp
    qed
    moreover have "\<not> TrailingZeroes ?m < ?n" using small t(2) by blast
    ultimately show ?thesis using False by (simp add: m)
  qed
qed

lemma take_while_prefix: "length (takeWhile P (take n xs)) = min n (length (takeWhile P xs))"
  by (induction xs arbitrary: n) (auto simp: take_Cons' min_def)

lemma simd_str2int_spec:
  assumes "i + 16 \<le> length s" and "n = min k (min 16 (run_end is_digit s i - i))"
  shows "simd_str2int s i k = Some (word_of_nat (digits_nat (map digit_of (take n (drop i s)))), n)"
proof -
  let ?v = "take 16 (drop i s)"
  have len: "length ?v = 16" using assms(1) by simp
  have n: "n = min k (length (takeWhile is_digit ?v))"
    unfolding assms(2) run_end_min take_while_prefix by simp
  have n16: "n \<le> 16" using assms(2) by simp
  have dg: "is_digit (?v ! j)" if "j < n" for j
    using that n by (metis min_less_iff_conj nth_mem set_takeWhileD takeWhile_nth)
  have u: "unat (?v ! j - 0x30) = digit_of (?v ! j)" "digit_of (?v ! j) \<le> 9" if "j < n" for j
    using dg [OF that] by (auto simp: digit_unat digit_of_def unat_sub_if_size word_size)
  have "digits_value n (map (\<lambda>c. c - 0x30) ?v) = word_of_nat (digits_nat (map unat (take n (map (\<lambda>c. c - 0x30) ?v))))"
    by (rule digits_value_16) (use len u n16 in simp_all)
  also have "map unat (take n (map (\<lambda>c. c - 0x30) ?v)) = map digit_of (take n (drop i s))"
  proof (rule nth_equalityI)
    show "length (map unat (take n (map (\<lambda>c. c - 0x30) ?v))) = length (map digit_of (take n (drop i s)))"
      using n16 assms(1) by simp
    fix j assume "j < length (map unat (take n (map (\<lambda>c. c - 0x30) ?v)))"
    then have "j < n" "j < 16" using n16 by simp_all
    with u(1) [of j] assms(1) show "map unat (take n (map (\<lambda>c. c - 0x30) ?v)) ! j = map digit_of (take n (drop i s)) ! j"
      by simp
  qed
  finally show ?thesis using assms(1) first_end [OF len] n by (simp add: simd_str2int_def Let_def)
qed

subsection \<open>The grammar\<close>

text \<open>
  The end of the number that starts at \<open>i\<close> by the JSON grammar, read as far as it goes:
  an optional minus, \<open>0\<close> or digits not starting with \<open>0\<close>, an optional fraction, an optional
  exponent. \<^term>\<open>None\<close> where a digit is missing.
\<close>

definition exp_start :: "bytes \<Rightarrow> nat \<Rightarrow> nat" where
  "exp_start s i = (if s ! i = 0x2D \<or> s ! i = 0x2B then i + 1 else i)"

definition exp_end :: "bytes \<Rightarrow> nat \<Rightarrow> nat option" where
  "exp_end s i = (if is_digit (s ! exp_start s i) then Some (run_end is_digit s (exp_start s i)) else None)"

definition num_tail :: "bytes \<Rightarrow> nat \<Rightarrow> nat option" where
  "num_tail s i = (if is_e (s ! i) then exp_end s (i + 1) else Some i)"

definition num_frac :: "bytes \<Rightarrow> nat \<Rightarrow> nat option" where
  "num_frac s i = (if s ! i = 0x2E then
     (if is_digit (s ! (i + 1)) then num_tail s (run_end is_digit s (i + 1)) else None) else num_tail s i)"

definition num_start :: "bytes \<Rightarrow> nat \<Rightarrow> nat" where
  "num_start s i = (if s ! i = 0x2D then i + 1 else i)"

definition num_end :: "bytes \<Rightarrow> nat \<Rightarrow> nat option" where
  "num_end s i = (let j = num_start s i in
     if s ! j = 0x30 then num_frac s (j + 1)
     else if is_digit (s ! j) then num_frac s (run_end is_digit s j) else None)"

text \<open>The number stops in front of \<open>e\<close>, and a vector can be loaded from there.\<close>

definition num_guard :: "bytes \<Rightarrow> nat \<Rightarrow> bool" where
  "num_guard s e \<longleftrightarrow> s ! e = 0x78 \<and> e + 16 \<le> length s"

definition num_ok :: "bool \<Rightarrow> nat \<Rightarrow> nat \<Rightarrow> num_result option \<Rightarrow> nat option \<Rightarrow> bool" where
  "num_ok u i e r t \<longleftrightarrow> (case t of
     None \<Rightarrow> \<exists>q. r = Some (None, kParseErrorInvalidChar, q) \<and> i \<le> q \<and> q \<le> e
   | Some q \<Rightarrow> i \<le> q \<and> q \<le> e \<and>
       ((u \<and> r = None) \<or> (\<exists>ev er. r = Some (Some ev, er, q) \<and> (er = kErrorNone \<or> er = kParseErrorInfinity))))"

lemma num_ok_value: "i \<le> q \<Longrightarrow> q \<le> e \<Longrightarrow> num_ok u i e (Some (Some ev, kErrorNone, q)) (Some q)"
  by (simp add: num_ok_def)

lemma num_ok_from: "num_ok u j e r t \<Longrightarrow> i \<le> j \<Longrightarrow> num_ok u i e r t"
  by (auto simp: num_ok_def split: option.splits)

lemma guard_digit: "num_guard s e \<Longrightarrow> \<not> is_digit (s ! e)" "num_guard s e \<Longrightarrow> e < length s"
  "num_guard s e \<Longrightarrow> s ! e \<noteq> 0x30"
  by (auto simp: num_guard_def is_digit_def)

lemma guard_before:
  "num_guard s e \<Longrightarrow> i \<le> e \<Longrightarrow> is_digit (s ! i) \<or> is_e (s ! i) \<or> s ! i \<in> {0x30, 0x2E, 0x2D, 0x2B} \<Longrightarrow> i + 1 \<le> e"
  by (cases "i = e") (auto simp: num_guard_def is_digit_def is_e_def)

lemma guard_run:
  assumes "num_guard s e" and "i \<le> e"
  shows "skip_while is_digit s i = Some (run_end is_digit s i)" and "run_end is_digit s i \<le> e"
    and "\<not> is_digit (s ! run_end is_digit s i)" and "\<exists>v. str2int s i = Some (v, run_end is_digit s i)"
    and "\<exists>x. exp_digits s i v = Some (run_end is_digit s i, x)"
proof -
  note gd = assms(2) guard_digit(2) [OF assms(1)] guard_digit(1) [OF assms(1)]
  show "skip_while is_digit s i = Some (run_end is_digit s i)" by (rule skip_while_run) (use gd in simp_all)
  show "run_end is_digit s i \<le> e" by (rule run_end_le) (use gd in simp_all)
  show "\<not> is_digit (s ! run_end is_digit s i)" by (rule run_end_stop) (use gd in simp_all)
  show "\<exists>v. str2int s i = Some (v, run_end is_digit s i)" unfolding str2int_def by (rule str2int_from_run [OF gd])
  show "\<exists>x. exp_digits s i v = Some (run_end is_digit s i, x)" by (rule exp_digits_run [OF gd])
qed

lemma CHECK_DIGIT_at: "i < length s \<Longrightarrow> CHECK_DIGIT s i k = (if is_digit (s ! i) then k else Some (None, kParseErrorInvalidChar, i))"
  by (auto simp: CHECK_DIGIT_def rd_def is_digit_def)

lemma exp_sign_at: "i < length s \<Longrightarrow> \<exists>g. exp_sign s i = Some (exp_start s i, g)"
  by (auto simp: exp_sign_def rd_def exp_start_def)

lemma exp_start_le: "num_guard s e \<Longrightarrow> i \<le> e \<Longrightarrow> i \<le> exp_start s i \<and> exp_start s i \<le> e"
  using guard_before [of s e i] by (auto simp: exp_start_def)

text \<open>What follows the e of an exponent, whatever is made of it.\<close>

lemma exponent_ok:
  assumes g: "num_guard s e" and le: "i \<le> e" and b: "b \<le> i"
    and r: "r = do { (j, esm) \<leftarrow> exp_sign s i; CHECK_DIGIT s j (f j esm) }"
    and f: "\<And>j esm q. exp_end s i = Some q \<Longrightarrow> b \<le> q \<Longrightarrow> q \<le> e \<Longrightarrow> j \<le> e \<Longrightarrow> q = run_end is_digit s j \<Longrightarrow> num_ok u b e (f j esm) (Some q)"
  shows "num_ok u b e r (exp_end s i)"
proof -
  have il: "i < length s" using le guard_digit [OF g] by simp
  obtain esm where es: "exp_sign s i = Some (exp_start s i, esm)" using exp_sign_at [OF il] by blast
  let ?j = "exp_start s i"
  have j: "i \<le> ?j" "?j \<le> e" "?j < length s" using exp_start_le [OF g le] guard_digit [OF g] by auto
  show ?thesis
  proof (cases "is_digit (s ! ?j)")
    case False
    then show ?thesis using j es b by (auto simp: r CHECK_DIGIT_at num_ok_def exp_end_def)
  next
    case True
    then have q: "exp_end s i = Some (run_end is_digit s ?j)" by (simp add: exp_end_def)
    have "run_end is_digit s ?j \<le> e" "b \<le> run_end is_digit s ?j"
      using guard_run(2) [OF g j(2)] run_end_ge [of ?j is_digit s] j b by auto
    with f [OF q _ _ j(2) refl, of esm] True j es show ?thesis by (simp add: r q CHECK_DIGIT_at)
  qed
qed

lemma zero_exponent_ok:
  assumes g: "num_guard s e" and le: "i \<le> e"
  shows "num_ok u i e (zero_exponent s i sg) (exp_end s i)"
proof (rule exponent_ok [OF g le order_refl])
  show "zero_exponent s i sg = do { (j, esm) \<leftarrow> exp_sign s i;
      CHECK_DIGIT s j (do { i \<leftarrow> skip_while is_digit s j; Some (Some (EDouble (dbl_mul_sgn 0 sg)), kErrorNone, i) }) }"
    by (simp add: zero_exponent_def)
qed (simp add: guard_run(1) [OF g] num_ok_value)

subsection \<open>Numbers as strings\<close>

lemma string_fast_ok: "i \<le> q \<Longrightarrow> q \<le> e \<Longrightarrow> num_ok u i e (Some (double_string_fast s start q)) (Some q)"
  by (simp add: double_string_fast_def num_ok_value)

lemma double_string_exp_ok:
  assumes g: "num_guard s e" and le: "i + 1 \<le> e" and st: "start \<le> i"
  shows "num_ok u i e (double_string_exp s start i) (exp_end s (i + 1))"
proof (rule exponent_ok [OF g le])
  show "double_string_exp s start i = do { (j, esm) \<leftarrow> exp_sign s (i + 1);
      CHECK_DIGIT s j (do { i \<leftarrow> skip_while is_digit s j; Some (double_string_fast s start i) }) }"
    by (simp add: double_string_exp_def)
qed (simp_all add: guard_run(1) [OF g] string_fast_ok)

lemma double_string_fract_ok:
  assumes g: "num_guard s e" and le: "i \<le> e" and st: "start \<le> i"
  shows "num_ok u i e (double_string_fract s start i) (num_tail s (run_end is_digit s i))"
proof -
  let ?j = "run_end is_digit s i"
  have j: "i \<le> ?j" "?j \<le> e" using run_end_ge guard_run(2) [OF g le] by auto
  then have jl: "?j < length s" using guard_digit [OF g] by simp
  show ?thesis
  proof (cases "is_e (s ! ?j)")
    case False
    then show ?thesis using j jl num_ok_value [of i ?j e]
      by (simp add: double_string_fract_def guard_run(1) [OF g le] rd_def num_tail_def double_string_fast_def)
  next
    case True
    then have "?j + 1 \<le> e" using guard_before [OF g j(2)] by simp
    from double_string_exp_ok [OF g this] num_ok_from [OF _ j(1)] True jl j st
    show ?thesis by (simp add: double_string_fract_def guard_run(1) [OF g le] rd_def num_tail_def)
  qed
qed

lemma digits19_ex: "i + k \<le> length s \<Longrightarrow> \<exists>m. digits19 s i k man = Some m"
  by (induction s i k man rule: digits19.induct) (simp_all add: rd_def)

lemma zeros_digits: "run_end (\<lambda>c. c = 0x30) s i \<le> run_end is_digit s i"
proof -
  have "length (takeWhile (\<lambda>c. c = 0x30) xs) \<le> length (takeWhile is_digit xs)" for xs
    by (induction xs) (auto simp: is_digit_def)
  then show ?thesis by (simp add: run_end_def)
qed

lemma zeros_guard:
  assumes g: "num_guard s e" and le: "i \<le> e"
  defines "j \<equiv> run_end (\<lambda>c. c = 0x30) s i"
  shows "skip_while (\<lambda>c. c = 0x30) s i = Some j" and "i \<le> j" and "j \<le> e"
    and "run_end is_digit s j = run_end is_digit s i"
    and "is_e (s ! j) \<Longrightarrow> run_end is_digit s i = j"
proof -
  note gd = guard_digit [OF g]
  show "skip_while (\<lambda>c. c = 0x30) s i = Some j" unfolding j_def by (rule skip_while_run) (use le gd in simp_all)
  show ij: "i \<le> j" unfolding j_def by (rule run_end_ge)
  show je: "j \<le> e" unfolding j_def by (rule run_end_le) (use le gd in simp_all)
  show r: "run_end is_digit s j = run_end is_digit s i"
    by (rule run_end_mid [OF ij]) (simp add: j_def zeros_digits)
  show "run_end is_digit s i = j" if "is_e (s ! j)"
    using that je gd(2) is_digit_not [of "s ! j"] run_end_step [of j s is_digit] r by auto
qed

text \<open>An int part that is not 0.\<close>

lemma int_run:
  assumes g: "num_guard s e" and le: "i \<le> e"
  shows "\<exists>v. str2int s i = Some (v, run_end is_digit s i)"
    and "run_end is_digit s i - i = 0 \<longleftrightarrow> \<not> is_digit (s ! i)"
  using guard_run [OF g le] le guard_digit(2) [OF g] run_end_ge [of "i + 1" is_digit s]
  by (auto simp: run_end_step)

lemma string_zero_ok:
  assumes g: "num_guard s e" and i1: "i \<le> e" and tl: "num_frac s i = Some q" and st: "start \<le> i"
  shows "num_ok u i e (string_zero s start i sg) (Some q)"
proof -
  note gd = guard_digit [OF g]
  have il: "i < length s" using i1 gd by simp
  show ?thesis
  proof (cases "s ! i = 0x2E")
    case dot: True
    then have i2: "i + 1 \<le> e" using guard_before [OF g i1(1)] by simp
    have d: "is_digit (s ! (i + 1))" and tl2: "num_tail s (run_end is_digit s (i + 1)) = Some q"
      using tl dot by (auto simp: num_frac_def split: if_splits)
    let ?j = "run_end (\<lambda>c. c = 0x30) s (i + 1)"
    note z = zeros_guard [OF g i2]
    have jl: "?j < length s" "i \<le> ?j" using z(2,3) gd by simp_all
    have run: "string_zero s start i sg = (if is_e (s ! ?j) then zero_exponent s (?j + 1) sg else double_string_fract s start ?j)"
      using dot d i2 gd(2) z(1) jl il by (simp add: string_zero_def CHECK_DIGIT_at rd_def)
    show ?thesis
    proof (cases "is_e (s ! ?j)")
      case True
      then have "?j + 1 \<le> e" using guard_before [OF g z(3)] by simp
      moreover have "exp_end s (?j + 1) = Some q" using tl2 z(5) True by (simp add: num_tail_def)
      ultimately show ?thesis
        using zero_exponent_ok [OF g, where i = "?j + 1" and sg = sg] num_ok_from [of _ "?j + 1"] run True jl by simp
    next
      case False
      have "start \<le> ?j" using jl st by simp
      with double_string_fract_ok [OF g z(3) this] num_ok_from [of _ ?j] run False tl2 z(4) jl
      show ?thesis by simp
    qed
  next
    case nodot: False
    show ?thesis
    proof (cases "is_e (s ! i)")
      case True
      then have "i + 1 \<le> e" using guard_before [OF g i1(1)] by simp
      with zero_exponent_ok [OF g this, where sg = sg] num_ok_from [of _ "i + 1"] nodot True tl il
      show ?thesis by (simp add: string_zero_def rd_def num_frac_def num_tail_def)
    next
      case False
      then show ?thesis using tl nodot il i1 num_ok_value [of i i e]
        by (simp add: string_zero_def rd_def num_frac_def num_tail_def)
    qed
  qed
qed

lemma string_integer_ok:
  assumes "d \<le> i" and "i \<le> e" and "i < length s"
  shows "num_ok u i e (string_integer s start d i man sg) (Some i)"
proof -
  note ok = num_ok_value [OF order_refl assms(2)] string_fast_ok [OF order_refl assms(2), where s = s and start = start]
  show ?thesis
  proof (cases "i - d = 20")
    case True
    then have "d + 19 \<le> length s" using assms by simp
    then obtain m where "digits19 s d 19 0 = Some m" using digits19_ex by blast
    moreover have "i - 1 < length s" using assms by simp
    ultimately show ?thesis using True ok by (simp add: string_integer_def rd_def Let_def)
  next
    case False
    then show ?thesis using ok by (auto simp: string_integer_def Let_def)
  qed
qed

lemma string_digits_ok:
  assumes g: "num_guard s e" and le: "i \<le> e" and d: "is_digit (s ! i)"
    and tl: "num_frac s (run_end is_digit s i) = Some q" and st: "start \<le> i"
  shows "num_ok u i e (string_digits s start i sg) (Some q)"
proof -
  note gd = guard_digit [OF g]
  let ?r = "run_end is_digit s i"
  obtain v where v: "str2int s i = Some (v, ?r)" using int_run(1) [OF g le] by blast
  have nd: "?r - i \<noteq> 0" using int_run(2) [OF g le] d by simp
  have r: "i \<le> ?r" "?r \<le> e" "?r < length s" "start \<le> ?r" using run_end_ge [of i is_digit s] guard_run(2) [OF g le] gd st by auto
  have run: "string_digits s start i sg = (if s ! ?r = 0x2E then double_string_fract s start (?r + 1)
       else if is_e (s ! ?r) then double_string_exp s start ?r
       else string_integer s start i ?r v sg)"
    using v nd r by (simp add: string_digits_def rd_def)
  consider (dot) "s ! ?r = 0x2E" | (ex) "s ! ?r \<noteq> 0x2E" "is_e (s ! ?r)" | (int) "s ! ?r \<noteq> 0x2E" "\<not> is_e (s ! ?r)" by blast
  then show ?thesis
  proof cases
    case dot
    then have r1: "?r + 1 \<le> e" using guard_before [OF g r(2)] by simp
    have "num_tail s (run_end is_digit s (?r + 1)) = Some q" using tl dot by (auto simp: num_frac_def split: if_splits)
    then show ?thesis using double_string_fract_ok [OF g r1, where start = start] num_ok_from [of _ "?r + 1"] run dot r by simp
  next
    case ex
    then have r1: "?r + 1 \<le> e" using guard_before [OF g r(2)] by simp
    have "exp_end s (?r + 1) = Some q" using tl ex by (simp add: num_frac_def num_tail_def)
    then show ?thesis using double_string_exp_ok [OF g r1 r(4)] num_ok_from [of _ ?r] run ex r by simp
  next
    case int
    then have "q = ?r" using tl by (simp add: num_frac_def num_tail_def)
    then show ?thesis using string_integer_ok [OF r(1,2,3)] num_ok_from [of _ ?r] run int r by simp
  qed
qed

lemma num_start_guard: "num_guard s e \<Longrightarrow> i \<le> e \<Longrightarrow> i \<le> num_start s i \<and> num_start s i \<le> e"
  using guard_before [of s e i] by (auto simp: num_start_def)

lemma parseNumberAsString_ok:
  assumes g: "num_guard s e" and le: "start \<le> e" and q: "num_end s start = Some q"
  shows "num_ok u start e (parseNumberAsString s (Suc start)) (Some q)"
proof -
  let ?i = "num_start s start"
  have i: "start \<le> ?i" "?i \<le> e" using num_start_guard [OF g le] by auto
  note gd = guard_digit [OF g]
  have sl: "start < length s" "?i < length s" using le i gd by auto
  define sg :: int where "sg = (if s ! start = 0x2D then - 1 else 1)"
  have run: "parseNumberAsString s (Suc start) = (if s ! ?i = 0x30 then string_zero s start (?i + 1) sg else string_digits s start ?i sg)"
    using sl by (simp add: parseNumberAsString_def rd_def sg_def num_start_def)
  show ?thesis
  proof (cases "s ! ?i = 0x30")
    case True
    then have i1: "?i + 1 \<le> e" using guard_before [OF g i(2)] by auto
    have "num_frac s (?i + 1) = Some q" using q True by (simp add: num_end_def Let_def)
    from string_zero_ok [OF g i1 this, where start = start and sg = sg] num_ok_from [of _ "?i + 1"] run True i(1) show ?thesis by simp
  next
    case False
    then have "is_digit (s ! ?i)" "num_frac s (run_end is_digit s ?i) = Some q"
      using q by (auto simp: num_end_def Let_def split: if_splits)
    from string_digits_ok [OF g i(2) this i(1)] num_ok_from [of _ ?i] run False i(1) show ?thesis by simp
  qed
qed

subsection \<open>Numbers\<close>

lemma eisel_error:
  "parseFloatEiselLemire64 s pos len exp10 man sg tr = Some (d, er) \<Longrightarrow> er = kErrorNone \<or> er = kParseErrorInfinity"
  by (auto simp: parseFloatEiselLemire64_def bind_eq_Some_conv split: option.splits if_splits)

text \<open>From here on the number starts at \<open>start\<close> and ends at \<open>q\<close>.\<close>

lemma double_fast_ok:
  assumes g: "num_guard s e" and le: "start \<le> q" "q \<le> e" and q: "num_end s start = Some q"
  shows "num_ok True start e (double_fast fl s (Suc start) len q man exp10 sg tr) (Some q)"
proof -
  have str: "num_ok True start e (parseNumberAsString s (Suc start)) (Some q)"
    using parseNumberAsString_ok [OF g _ q] le by simp
  have r: "num_ok True start e (Some (Some (EDouble d), er, q)) (Some q)" if "er = kErrorNone \<or> er = kParseErrorInfinity" for d er
    using that le by (auto simp: num_ok_def)
  have n: "num_ok True start e None (Some q)" using le by (simp add: num_ok_def)
  let ?fast = "if drop_bit 52 man = 0 \<and> exp10 \<le> 22 + 15 \<and> - 22 \<le> exp10 then parseFloatingFast exp10 man else Some None"
  let ?raw = "if \<not> tr \<and> - 308 + 1 < exp10 \<and> exp10 < 308 - 20 then ParseFloatingNormalFast exp10 man sg else Some None"
  consider (und) "?fast = None" | (fast) d where "?fast = Some (Some d)" | (slow) "?fast = Some None"
    by (metis option.exhaust)
  then show ?thesis
  proof cases
    case und
    then show ?thesis unfolding double_fast_def by (simp only: Option.bind.simps n)
  next
    case fast
    then show ?thesis unfolding double_fast_def by (simp only: Option.bind.simps option.simps r simp_thms)
  next
    case slow
    consider (und) "?raw = None" | (fast) d where "?raw = Some (Some d)" | (slow) "?raw = Some None"
      by (metis option.exhaust)
    then show ?thesis
    proof cases
      case und
      with slow show ?thesis unfolding double_fast_def by (simp only: Option.bind.simps option.simps n)
    next
      case fast
      with slow show ?thesis unfolding double_fast_def by (simp only: Option.bind.simps option.simps r simp_thms)
    next
      case sl: slow
      have run: "double_fast fl s (Suc start) len q man exp10 sg tr = do {
          (d, er) \<leftarrow> parseFloatEiselLemire64 s (Suc start) len exp10 man sg tr;
          if flags_and fl kParseOverflowNumAsNumStr \<and> er = kParseErrorInfinity then parseNumberAsString s (Suc start)
          else Some (Some (EDouble d), er, q) }"
        using slow sl unfolding double_fast_def by (simp only: Option.bind.simps option.simps)
      show ?thesis
      proof (cases "parseFloatEiselLemire64 s (Suc start) len exp10 man sg tr")
        case None
        then show ?thesis by (simp add: run n)
      next
        case (Some x)
        obtain d er where x: "x = (d, er)" by (cases x)
        show ?thesis using Some eisel_error [of s "Suc start" len exp10 man sg tr d er] r [of er d] str
          unfolding x run by auto
      qed
    qed
  qed
qed

lemma double_exp_ok:
  assumes g: "num_guard s e" and le: "start \<le> i" "i + 1 \<le> e" and q: "num_end s start = exp_end s (i + 1)"
  shows "num_ok True start e (double_exp fl s (Suc start) len i man exp10 sg tr) (exp_end s (i + 1))"
proof (rule exponent_ok [OF g le(2)])
  show "double_exp fl s (Suc start) len i man exp10 sg tr = do { (j, esm) \<leftarrow> exp_sign s (i + 1);
      CHECK_DIGIT s j (do { (i, v) \<leftarrow> exp_digits s j 0; double_fast fl s (Suc start) len i man (exp10 + v * esm) sg tr }) }"
    by (simp add: double_exp_def)
  fix j esm q' assume h: "exp_end s (i + 1) = Some q'" "start \<le> q'" "q' \<le> e" "j \<le> e" "q' = run_end is_digit s j"
  obtain x where x: "exp_digits s j 0 = Some (q', x)" using guard_run(5) [OF g h(4)] h(5) by blast
  have "num_end s start = Some q'" using q h(1) by simp
  from double_fast_ok [OF g h(2,3) this]
  show "num_ok True start e (do { (i, v) \<leftarrow> exp_digits s j 0; double_fast fl s (Suc start) len i man (exp10 + v * esm) sg tr }) (Some q')"
    by (simp add: x)
qed (use le in simp)

lemma num_tail_double:
  assumes g: "num_guard s e" and le: "start \<le> j" "j \<le> e" and q: "num_end s start = num_tail s j"
  shows "num_ok True start e (if \<not> is_e (s ! j) then double_fast fl s (Suc start) len j man exp10 sg tr
      else double_exp fl s (Suc start) len j man exp10 sg tr) (num_tail s j)"
proof (cases "is_e (s ! j)")
  case True
  then have "j + 1 \<le> e" using guard_before [OF g le(2)] by simp
  with double_exp_ok [OF g le(1) this] q True show ?thesis by (simp add: num_tail_def)
next
  case False
  with double_fast_ok [OF g le] q show ?thesis by (simp add: num_tail_def)
qed

text \<open>What the fraction leaves: the end of its digits, the position the mantissa was read to, the mantissa.\<close>

lemma double_fract_run:
  assumes g: "num_guard s e" and le: "start \<le> i" "i \<le> e"
  obtains j m where "double_fract fl s (Suc start) len i man mn exp10 exp10_s sg tr =
      (if \<not> is_e (s ! run_end is_digit s i)
       then double_fast fl s (Suc start) len (run_end is_digit s i) m (exp10 - (int j - int exp10_s)) sg (tr \<or> j < run_end is_digit s i)
       else double_exp fl s (Suc start) len (run_end is_digit s i) m (exp10 - (int j - int exp10_s)) sg (tr \<or> j < run_end is_digit s i))"
    and "i \<le> j" and "j \<le> run_end is_digit s i" and "\<not> mn < FLOATING_LONGEST_DIGITS \<Longrightarrow> j = i \<and> m = man"
    and "mn < FLOATING_LONGEST_DIGITS \<Longrightarrow> \<exists>n k. n = min (FLOATING_LONGEST_DIGITS - mn) (min 16 (run_end is_digit s i - i)) \<and>
      fract_digits s (i + n) (man * 10 ^ n + word_of_nat (digits_nat (map digit_of (take n (drop i s))))) (mn + n) = Some (j, m, k)"
proof -
  note gd = guard_digit [OF g]
  let ?r = "run_end is_digit s i"
  let ?read = "if mn < FLOATING_LONGEST_DIGITS then do {
         (acc, fract_len) \<leftarrow> simd_str2int s i (FLOATING_LONGEST_DIGITS - mn);
         (i, man, man_nd) \<leftarrow> fract_digits s (i + fract_len) (man * 10 ^ fract_len + acc) (mn + fract_len);
         Some (i, man)
       } else Some (i, man)"
  define n where "n = min (FLOATING_LONGEST_DIGITS - mn) (min 16 (?r - i))"
  define v where "v = (word_of_nat (digits_nat (map digit_of (take n (drop i s)))) :: u64)"
  have r: "i \<le> ?r" "?r \<le> e" "?r < length s" using run_end_ge guard_run(2) [OF g le(2)] gd by auto
  have n: "i + n \<le> ?r" using r by (simp add: n_def)
  have "\<exists>j m. ?read = Some (j, m) \<and> i \<le> j \<and> j \<le> ?r \<and> (\<not> mn < FLOATING_LONGEST_DIGITS \<longrightarrow> j = i \<and> m = man)
      \<and> (mn < FLOATING_LONGEST_DIGITS \<longrightarrow> (\<exists>k. fract_digits s (i + n) (man * 10 ^ n + v) (mn + n) = Some (j, m, k)))"
  proof (cases "mn < FLOATING_LONGEST_DIGITS")
    case True
    have v: "simd_str2int s i (FLOATING_LONGEST_DIGITS - mn) = Some (v, n)"
      using simd_str2int_spec [OF _ n_def] g le by (auto simp: num_guard_def v_def)
    obtain j m k where j: "fract_digits s (i + n) (man * 10 ^ n + v) (mn + n) = Some (j, m, k)"
        "i + n \<le> j" "j \<le> run_end is_digit s (i + n)"
      using fract_digits_run [of "i + n" e s] n r gd by fastforce
    moreover have "run_end is_digit s (i + n) = ?r" using n by (intro run_end_mid) simp_all
    ultimately show ?thesis using True v by auto
  qed (use r in simp)
  then obtain j m where j: "?read = Some (j, m)" "i \<le> j" "j \<le> ?r" "\<not> mn < FLOATING_LONGEST_DIGITS \<longrightarrow> j = i \<and> m = man"
      "mn < FLOATING_LONGEST_DIGITS \<longrightarrow> (\<exists>k. fract_digits s (i + n) (man * 10 ^ n + v) (mn + n) = Some (j, m, k))" by blast
  have "run_end is_digit s j = ?r" using j by (intro run_end_mid)
  then have sk: "skip_while is_digit s j = Some ?r" using guard_run(1) [OF g, of j] j r by simp
  show thesis
  proof (rule that [of m j])
    show "double_fract fl s (Suc start) len i man mn exp10 exp10_s sg tr =
      (if \<not> is_e (s ! ?r) then double_fast fl s (Suc start) len ?r m (exp10 - (int j - int exp10_s)) sg (tr \<or> j < ?r)
       else double_exp fl s (Suc start) len ?r m (exp10 - (int j - int exp10_s)) sg (tr \<or> j < ?r))"
      unfolding double_fract_def j(1) using sk r by (simp add: rd_def)
  qed (use j in \<open>auto simp: n_def v_def\<close>)
qed

lemma double_fract_ok:
  assumes g: "num_guard s e" and le: "start \<le> i" "i \<le> e"
    and q: "num_end s start = num_tail s (run_end is_digit s i)"
  shows "num_ok True start e (double_fract fl s (Suc start) len i man mn exp10 exp10_s sg tr) (num_tail s (run_end is_digit s i))"
proof -
  have r: "i \<le> run_end is_digit s i" "run_end is_digit s i \<le> e" using run_end_ge guard_run(2) [OF g le(2)] by auto
  show ?thesis
  proof (rule double_fract_run [OF g le, of fl len man mn exp10 exp10_s sg tr])
    fix j m assume "double_fract fl s (Suc start) len i man mn exp10 exp10_s sg tr =
      (if \<not> is_e (s ! run_end is_digit s i)
       then double_fast fl s (Suc start) len (run_end is_digit s i) m (exp10 - (int j - int exp10_s)) sg (tr \<or> j < run_end is_digit s i)
       else double_exp fl s (Suc start) len (run_end is_digit s i) m (exp10 - (int j - int exp10_s)) sg (tr \<or> j < run_end is_digit s i))"
    then show ?thesis using num_tail_double [OF g _ r(2) q] le r by simp
  qed
qed

lemma parse_integer_ok:
  assumes g: "num_guard s e" and le: "start \<le> q" "q \<le> e" and q: "num_end s start = Some q"
  shows "num_ok True start e (parse_integer fl s (Suc start) len q man exp10 sg) (Some q)"
proof -
  have str: "num_ok True start e (parseNumberAsString s (Suc start)) (Some q)"
    using parseNumberAsString_ok [OF g _ q] le by simp
  note dbl = double_fast_ok [OF g le q]
  have "q - 1 < length s" using guard_digit(2) [OF g] le by simp
  then show ?thesis
    using str dbl num_ok_value [OF le] by (simp add: parse_integer_def rd_def Let_def)
qed

lemma number_zero_ok:
  assumes g: "num_guard s e" and le: "start \<le> i" "i \<le> e" and q: "num_end s start = num_frac s i"
  shows "num_ok True start e (number_zero fl s (Suc start) len i sg) (num_frac s i)"
proof -
  note gd = guard_digit [OF g]
  have il: "i < length s" using le gd by simp
  consider (dot) "s ! i = 0x2E" | (ex) "s ! i \<noteq> 0x2E" "is_e (s ! i)" | (int) "s ! i \<noteq> 0x2E" "\<not> is_e (s ! i)" by blast
  then show ?thesis
  proof cases
    case dot
    then have i1: "i + 1 \<le> e" "i + 1 < length s" using guard_before [OF g le(2)] gd by auto
    let ?j = "run_end (\<lambda>c. c = 0x30) s (i + 1)"
    note z = zeros_guard [OF g i1(1)]
    have jl: "?j < length s" "start \<le> ?j" using z(2,3) gd le by simp_all
    show ?thesis
    proof (cases "is_digit (s ! (i + 1))")
      case False
      then show ?thesis using dot il i1 le by (auto simp: number_zero_def rd_def CHECK_DIGIT_at num_frac_def num_ok_def)
    next
      case d: True
      then have f: "num_frac s i = num_tail s (run_end is_digit s (i + 1))" using dot by (simp add: num_frac_def)
      have run: "number_zero fl s (Suc start) len i sg = (if is_e (s ! ?j) then zero_exponent s (?j + 1) sg
          else double_fract fl s (Suc start) len ?j 0 0 0 (i + 1) sg False)"
        using dot d il i1 jl z(1) by (simp add: number_zero_def rd_def CHECK_DIGIT_at)
      show ?thesis
      proof (cases "is_e (s ! ?j)")
        case True
        then have "?j + 1 \<le> e" using guard_before [OF g z(3)] by simp
        moreover have "num_frac s i = exp_end s (?j + 1)" using f z(5) True by (simp add: num_tail_def)
        ultimately show ?thesis
          using zero_exponent_ok [OF g, where i = "?j + 1" and sg = sg] num_ok_from [of _ "?j + 1" e _ _ start] run True jl by simp
      next
        case False
        have "num_frac s i = num_tail s (run_end is_digit s ?j)" using f z(4) by simp
        with double_fract_ok [OF g jl(2) z(3)] q run False show ?thesis by simp
      qed
    qed
  next
    case ex
    then have "i + 1 \<le> e" using guard_before [OF g le(2)] by simp
    with zero_exponent_ok [OF g this, where sg = sg] num_ok_from [of _ "i + 1" e _ _ start] ex le il
    show ?thesis by (simp add: number_zero_def rd_def num_frac_def num_tail_def)
  next
    case int
    then show ?thesis using il num_ok_value [OF le]
      by (simp add: number_zero_def rd_def num_frac_def num_tail_def Let_def)
  qed
qed

lemma number_digits_ok:
  assumes g: "num_guard s e" and le: "start \<le> i" "i \<le> e"
    and q: "is_digit (s ! i) \<Longrightarrow> num_end s start = num_frac s (run_end is_digit s i)"
  shows "num_ok True start e (number_digits fl s (Suc start) len i sg)
    (if is_digit (s ! i) then num_frac s (run_end is_digit s i) else None)"
proof -
  note gd = guard_digit [OF g]
  let ?r = "run_end is_digit s i"
  obtain v where v: "str2int s i = Some (v, ?r)" using int_run(1) [OF g le(2)] by blast
  have r: "i \<le> ?r" "?r \<le> e" "?r < length s" "start \<le> ?r" using run_end_ge [of i is_digit s] guard_run(2) [OF g le(2)] gd le by auto
  show ?thesis
  proof (cases "is_digit (s ! i)")
    case False
    then have "?r - i = 0" using int_run(2) [OF g le(2)] by simp
    then show ?thesis using v False r le by (auto simp: number_digits_def num_ok_def)
  next
    case True
    then have nd: "?r - i \<noteq> 0" using int_run(2) [OF g le(2)] by simp
    have "\<exists>m k x. (if 19 < ?r - i then slow_digits s i 0 0 0 else Some (?r, v, ?r - i, 0)) = Some (?r, m, k, x)"
      using slow_digits_run [of i e s 0 0 0] le gd by auto
    then obtain m k x where m: "(if 19 < ?r - i then slow_digits s i 0 0 0 else Some (?r, v, ?r - i, 0)) = Some (?r, m, k, x)"
      by blast
    have run: "number_digits fl s (Suc start) len i sg =
       (if s ! ?r = 0x2E then CHECK_DIGIT s (?r + 1) (double_fract fl s (Suc start) len (?r + 1) m k x (?r + 1) sg False)
        else if is_e (s ! ?r) then double_exp fl s (Suc start) len ?r m x sg False
        else parse_integer fl s (Suc start) len ?r m x sg)"
      using v nd m r by (simp add: number_digits_def rd_def)
    have qf: "num_end s start = num_frac s ?r" using q True by simp
    consider (dot) "s ! ?r = 0x2E" | (ex) "s ! ?r \<noteq> 0x2E" "is_e (s ! ?r)" | (int) "s ! ?r \<noteq> 0x2E" "\<not> is_e (s ! ?r)" by blast
    then show ?thesis
    proof cases
      case dot
      then have r1: "?r + 1 \<le> e" "?r + 1 < length s" "start \<le> ?r + 1" using guard_before [OF g r(2)] gd r by auto
      show ?thesis
      proof (cases "is_digit (s ! (?r + 1))")
        case False
        then show ?thesis using run dot r1 True by (auto simp: CHECK_DIGIT_at num_frac_def num_ok_def)
      next
        case d: True
        then have "num_frac s ?r = num_tail s (run_end is_digit s (?r + 1))" using dot by (simp add: num_frac_def)
        with double_fract_ok [OF g r1(3,1)] qf run dot r1 d True show ?thesis by (simp add: CHECK_DIGIT_at)
      qed
    next
      case ex
      then have r1: "?r + 1 \<le> e" using guard_before [OF g r(2)] by simp
      have "num_frac s ?r = exp_end s (?r + 1)" using ex by (simp add: num_frac_def num_tail_def)
      with double_exp_ok [OF g r(4) r1] qf run ex True show ?thesis by simp
    next
      case int
      then have "num_frac s ?r = Some ?r" by (simp add: num_frac_def num_tail_def)
      with parse_integer_ok [OF g r(4,2)] qf run int True show ?thesis by simp
    qed
  qed
qed

lemma parseNumber_ok:
  assumes g: "num_guard s e" and le: "start \<le> e"
  shows "num_ok True start e (parseNumber fl s (Suc start) len) (num_end s start)"
proof -
  let ?i = "num_start s start"
  have i: "start \<le> ?i" "?i \<le> e" using num_start_guard [OF g le] by auto
  note gd = guard_digit [OF g]
  have sl: "start < length s" "?i < length s" using le i gd by auto
  define sg :: int where "sg = (if s ! start = 0x2D then - 1 else 1)"
  have run: "parseNumber fl s (Suc start) len = (if s ! ?i = 0x30 then number_zero fl s (Suc start) len (?i + 1) sg
      else number_digits fl s (Suc start) len ?i sg)"
    using sl by (simp add: parseNumber_def rd_def sg_def num_start_def)
  show ?thesis
  proof (cases "s ! ?i = 0x30")
    case True
    then have i1: "?i + 1 \<le> e" using guard_before [OF g i(2)] by auto
    have q: "num_end s start = num_frac s (?i + 1)" using True by (simp add: num_end_def Let_def)
    have "start \<le> ?i + 1" using i by simp
    from number_zero_ok [OF g this i1 q] run True q show ?thesis by simp
  next
    case False
    then have q: "num_end s start = (if is_digit (s ! ?i) then num_frac s (run_end is_digit s ?i) else None)"
      by (simp add: num_end_def Let_def)
    from number_digits_ok [OF g i] run False q show ?thesis by simp
  qed
qed

subsection \<open>Only the text from the number on matters\<close>

definition agree :: "nat \<Rightarrow> 'a list \<Rightarrow> 'a list \<Rightarrow> bool" where
  "agree q s t \<longleftrightarrow> length s = length t \<and> drop q s = drop q t"

lemma agree_length: "agree q s t \<Longrightarrow> length s = length t"
  by (simp add: agree_def)

lemma agree_refl [simp]: "agree q s s"
  by (simp add: agree_def)

lemma agree_later: "agree q s t \<Longrightarrow> q \<le> i \<Longrightarrow> agree i s t"
proof -
  assume a: "agree q s t" and i: "q \<le> i"
  have "drop i s = drop (i - q) (drop q s)" "drop i t = drop (i - q) (drop q t)" using i by simp_all
  with a show ?thesis by (simp only: agree_def)
qed

lemma agree_nth: "agree q s t \<Longrightarrow> q \<le> i \<Longrightarrow> i < length s \<Longrightarrow> s ! i = t ! i"
proof -
  assume a: "agree q s t" "q \<le> i" "i < length s"
  have "drop q s ! (i - q) = s ! i" "drop q t ! (i - q) = t ! i"
    using a(2,3) agree_length [OF a(1)] by simp_all
  moreover have "drop q s = drop q t" using a(1) by (simp only: agree_def)
  ultimately show ?thesis by metis
qed

lemma agree_rd: "agree q s t \<Longrightarrow> q \<le> i \<Longrightarrow> rd s i = rd t i"
  using agree_nth [of q s t i] by (simp add: rd_def agree_length)

lemma agree_drop: "agree q s t \<Longrightarrow> q \<le> i \<Longrightarrow> drop i s = drop i t"
  using agree_later by (auto simp: agree_def)

lemma agree_view: "agree q s t \<Longrightarrow> q \<le> i \<Longrightarrow> StringView s i n = StringView t i n"
  by (simp add: StringView_def agree_drop)

lemma skip_while_cong: "agree q s t \<Longrightarrow> q \<le> i \<Longrightarrow> skip_while P s i = skip_while P t i"
proof (induction P s i rule: skip_while.induct)
  case (1 P s i)
  then show ?case
    by (subst (1 2) skip_while.simps) (simp add: agree_length agree_nth [OF 1(2,3)] cong: if_cong)
qed

lemma str2int_from_cong: "agree q s t \<Longrightarrow> q \<le> i \<Longrightarrow> str2int_from s i v = str2int_from t i v"
proof (induction s i v rule: str2int_from.induct)
  case (1 s i v)
  then show ?case
    by (subst (1 2) str2int_from.simps) (auto simp: agree_length agree_nth [OF 1(2,3)] split: option.splits)
qed

lemma str2int_from_ge: "str2int_from s i v = Some (w, j) \<Longrightarrow> i \<le> j"
proof (induction s i v rule: str2int_from.induct)
  case (1 s i v)
  then show ?case by (subst (asm) (2) str2int_from.simps) (auto split: if_splits option.splits)
qed

lemma slow_digits_cong: "agree q s t \<Longrightarrow> q \<le> i \<Longrightarrow> slow_digits s i m k x = slow_digits t i m k x"
proof (induction s i m k x rule: slow_digits.induct)
  case (1 s i m k x)
  then show ?case
    by (subst (1 2) slow_digits.simps) (auto simp: agree_length agree_nth [OF 1(3,4)])
qed

lemma slow_digits_ge: "slow_digits s i m k x = Some (j, r) \<Longrightarrow> i \<le> j"
proof (induction s i m k x rule: slow_digits.induct)
  case (1 s i m k x)
  then show ?case by (subst (asm) (3) slow_digits.simps) (auto split: if_splits)
qed

lemma slow_digits_more:
  assumes "str2int_from s i v = Some (w, j)" and "i < j" and "slow_digits s i m k x = Some (l, r)"
  shows "i < l"
proof -
  have d: "i < length s \<and> is_digit (s ! i)"
    using assms(1,2) by (subst (asm) str2int_from.simps) (auto simp: carry_one_digit split: if_splits)
  then have "\<exists>m k x. slow_digits s (i + 1) m k x = Some (l, r)"
    using assms(3) by (subst (asm) slow_digits.simps) (auto split: if_splits)
  then show ?thesis using slow_digits_ge by fastforce
qed

lemma fract_digits_cong: "agree q s t \<Longrightarrow> q \<le> i \<Longrightarrow> fract_digits s i m k = fract_digits t i m k"
proof (induction s i m k rule: fract_digits.induct)
  case (1 s i m k)
  then show ?case
    by (subst (1 2) fract_digits.simps) (auto simp: agree_length agree_nth [OF 1(2,3)])
qed

lemma fract_digits_ge: "fract_digits s i m k = Some (j, r) \<Longrightarrow> i \<le> j"
proof (induction s i m k rule: fract_digits.induct)
  case (1 s i m k)
  then show ?case by (subst (asm) (2) fract_digits.simps) (auto split: if_splits)
qed

lemma exp_digits_cong: "agree q s t \<Longrightarrow> q \<le> i \<Longrightarrow> exp_digits s i v = exp_digits t i v"
proof (induction s i v rule: exp_digits.induct)
  case (1 s i v)
  then show ?case
    by (subst (1 2) exp_digits.simps) (auto simp: agree_length agree_nth [OF 1(2,3)])
qed

lemma exp_digits_ge: "exp_digits s i v = Some (j, r) \<Longrightarrow> i \<le> j"
proof (induction s i v rule: exp_digits.induct)
  case (1 s i v)
  then show ?case by (subst (asm) (2) exp_digits.simps) (auto split: if_splits)
qed

lemma exp_sign_ge: "exp_sign s i = Some (j, g) \<Longrightarrow> i \<le> j"
  by (auto simp: exp_sign_def split: if_splits)

lemma digits19_cong: "agree q s t \<Longrightarrow> q \<le> i \<Longrightarrow> digits19 s i k m = digits19 t i k m"
proof (induction k arbitrary: i m)
  case (Suc k)
  then show ?case by (simp add: agree_rd [OF Suc(2,3)] split: option.splits)
qed simp

lemma simd_str2int_cong: "agree q s t \<Longrightarrow> q \<le> i \<Longrightarrow> simd_str2int s i k = simd_str2int t i k"
  by (simp add: simd_str2int_def agree_length agree_drop)

lemmas scan_ge = skip_while_ge str2int_from_ge slow_digits_ge fract_digits_ge exp_digits_ge exp_sign_ge

lemma CHECK_DIGIT_cong: "agree q s t \<Longrightarrow> q \<le> i \<Longrightarrow> k = k' \<Longrightarrow> CHECK_DIGIT s i k = CHECK_DIGIT t i k'"
  by (simp add: CHECK_DIGIT_def agree_rd)

lemma exp_sign_cong: "agree q s t \<Longrightarrow> q \<le> i \<Longrightarrow> exp_sign s i = exp_sign t i"
  by (simp add: exp_sign_def agree_rd)

lemma zero_exponent_cong: "agree q s t \<Longrightarrow> q \<le> i \<Longrightarrow> zero_exponent s i sg = zero_exponent t i sg"
  unfolding zero_exponent_def
  by (intro Option.bind_cong exp_sign_cong) (auto intro!: CHECK_DIGIT_cong simp: skip_while_cong dest!: exp_sign_ge)

lemma double_string_exp_cong: "agree q s t \<Longrightarrow> q \<le> start \<Longrightarrow> q \<le> i \<Longrightarrow> double_string_exp s start i = double_string_exp t start i"
  unfolding double_string_exp_def double_string_fast_def
  by (intro Option.bind_cong exp_sign_cong)
    (auto intro!: CHECK_DIGIT_cong simp: skip_while_cong agree_view dest!: exp_sign_ge)

lemma double_string_fract_cong: "agree q s t \<Longrightarrow> q \<le> start \<Longrightarrow> q \<le> i \<Longrightarrow> double_string_fract s start i = double_string_fract t start i"
  unfolding double_string_fract_def double_string_fast_def
  by (intro Option.bind_cong skip_while_cong agree_rd)
    (auto simp: agree_view double_string_exp_cong dest!: skip_while_ge)

lemma string_zero_cong: "agree q s t \<Longrightarrow> q \<le> start \<Longrightarrow> q \<le> i \<Longrightarrow> string_zero s start i sg = string_zero t start i sg"
  unfolding string_zero_def
  by (intro Option.bind_cong agree_rd if_cong CHECK_DIGIT_cong skip_while_cong)
    (auto simp: zero_exponent_cong double_string_fract_cong dest!: skip_while_ge)

lemma string_integer_cong: "agree q s t \<Longrightarrow> q \<le> start \<Longrightarrow> q \<le> d \<Longrightarrow> d \<le> i \<Longrightarrow>
    string_integer s start d i m sg = string_integer t start d i m sg"
  unfolding string_integer_def double_string_fast_def
  by (auto simp: agree_view digits19_cong agree_rd Let_def intro!: Option.bind_cong)

lemma string_digits_cong: "agree q s t \<Longrightarrow> q \<le> start \<Longrightarrow> q \<le> i \<Longrightarrow> string_digits s start i sg = string_digits t start i sg"
  unfolding string_digits_def str2int_def
  by (intro Option.bind_cong str2int_from_cong)
    (auto intro!: Option.bind_cong simp: agree_rd double_string_fract_cong double_string_exp_cong string_integer_cong
      dest!: str2int_from_ge)

lemma parseNumberAsString_cong: "agree q s t \<Longrightarrow> q < pos \<Longrightarrow> parseNumberAsString s pos = parseNumberAsString t pos"
  unfolding parseNumberAsString_def Let_def
  by (intro Option.bind_cong agree_rd if_cong) (auto simp: string_zero_cong string_digits_cong)

lemma eisel_cong: "agree q s t \<Longrightarrow> q < pos \<Longrightarrow>
    parseFloatEiselLemire64 s pos len e m sg tr = parseFloatEiselLemire64 t pos len e m sg tr"
  unfolding parseFloatEiselLemire64_def by (simp add: agree_drop)

lemma double_fast_cong: "agree q s t \<Longrightarrow> q < pos \<Longrightarrow>
    double_fast fl s pos len i m e sg tr = double_fast fl t pos len i m e sg tr"
proof -
  assume a: "agree q s t" "q < pos"
  show ?thesis
    unfolding double_fast_def by (simp only: eisel_cong [OF a] parseNumberAsString_cong [OF a])
qed

lemma double_exp_cong: "agree q s t \<Longrightarrow> q < pos \<Longrightarrow> q \<le> i \<Longrightarrow>
    double_exp fl s pos len i m e sg tr = double_exp fl t pos len i m e sg tr"
  unfolding double_exp_def
  by (intro Option.bind_cong exp_sign_cong)
    (auto intro!: CHECK_DIGIT_cong simp: exp_digits_cong double_fast_cong dest!: exp_sign_ge)

lemma double_fract_cong: "agree q s t \<Longrightarrow> q < pos \<Longrightarrow> q \<le> i \<Longrightarrow>
    double_fract fl s pos len i m k e es sg tr = double_fract fl t pos len i m k e es sg tr"
proof -
  assume a: "agree q s t" "q < pos" "q \<le> i"
  let ?f = "\<lambda>s. if k < FLOATING_LONGEST_DIGITS then do {
         (acc, fract_len) \<leftarrow> simd_str2int s i (FLOATING_LONGEST_DIGITS - k);
         (i, man, man_nd) \<leftarrow> fract_digits s (i + fract_len) (m * 10 ^ fract_len + acc) (k + fract_len);
         Some (i, man)
       } else Some (i, m)"
  have f: "?f s = ?f t"
    using a by (auto simp: simd_str2int_cong [of q s t] intro!: Option.bind_cong fract_digits_cong)
  have ge: "q \<le> j" if "?f t = Some (j, w)" for j w
    using that a by (auto simp: bind_eq_Some_conv split: if_splits dest!: fract_digits_ge)
  show ?thesis
    unfolding double_fract_def f
  proof (rule Option.bind_cong [OF refl])
    fix z assume z: "?f t = Some z"
    obtain j w where jw: "z = (j, w)" by (cases z)
    from ge z jw have "q \<le> j" by blast
    then show "(case z of (i, man) \<Rightarrow> let exp10 = e - (int i - int es) in do {
         j \<leftarrow> skip_while is_digit s i;
         let tr = tr \<or> i < j;
         c \<leftarrow> rd s j;
         if \<not> is_e c then double_fast fl s pos len j man exp10 sg tr else double_exp fl s pos len j man exp10 sg tr })
      = (case z of (i, man) \<Rightarrow> let exp10 = e - (int i - int es) in do {
         j \<leftarrow> skip_while is_digit t i;
         let tr = tr \<or> i < j;
         c \<leftarrow> rd t j;
         if \<not> is_e c then double_fast fl t pos len j man exp10 sg tr else double_exp fl t pos len j man exp10 sg tr })"
      unfolding jw prod.case Let_def using a
      by (intro Option.bind_cong skip_while_cong agree_rd if_cong double_fast_cong double_exp_cong)
        (auto dest!: skip_while_ge)
  qed
qed

lemma parse_integer_cong: "agree q s t \<Longrightarrow> q < pos \<Longrightarrow> q < i \<Longrightarrow>
    parse_integer fl s pos len i m e sg = parse_integer fl t pos len i m e sg"
proof -
  assume a: "agree q s t" "q < pos" "q < i"
  then have v: "q \<le> pos - 1" "q \<le> i - 1" by simp_all
  show ?thesis
    unfolding parse_integer_def Let_def agree_view [OF a(1) v(1)] agree_rd [OF a(1) v(2)]
      parseNumberAsString_cong [OF a(1,2)] double_fast_cong [OF a(1,2)] ..
qed

lemma number_zero_cong: "agree q s t \<Longrightarrow> q < pos \<Longrightarrow> q \<le> i \<Longrightarrow>
    number_zero fl s pos len i sg = number_zero fl t pos len i sg"
  unfolding number_zero_def Let_def
  by (intro Option.bind_cong agree_rd if_cong CHECK_DIGIT_cong skip_while_cong)
    (auto simp: zero_exponent_cong double_fract_cong agree_view dest!: skip_while_ge)

lemma number_digits_cong: "agree q s t \<Longrightarrow> q < pos \<Longrightarrow> q \<le> i \<Longrightarrow>
    number_digits fl s pos len i sg = number_digits fl t pos len i sg"
  unfolding number_digits_def Let_def str2int_def
proof (intro Option.bind_cong str2int_from_cong, assumption, assumption, goal_cases)
  case outer: (1 z)
  obtain man j where z: "z = (man, j)" by (cases z)
  have j: "i \<le> j" using outer(4) by (auto simp: z dest: str2int_from_ge)
  show ?case
  proof (cases "j - i = 0")
    case False
    let ?f = "\<lambda>s. if 19 < j - i then slow_digits s i 0 0 0 else Some (j, man, j - i, 0)"
    have f: "?f s = ?f t" using slow_digits_cong [OF outer(1,3)] by simp
    show ?thesis
      unfolding z prod.case f if_not_P [OF False]
    proof (rule Option.bind_cong [OF refl], goal_cases)
      case (1 y)
      obtain k m l x where y: "y = (k, m, l, x)" by (cases y)
      have sj: "str2int_from t i 0 = Some (man, j)" "agree q s t" "q < pos" "q \<le> i"
        using outer str2int_from_cong by (auto simp: z)
      have k: "i < k"
      proof (cases "19 < j - i")
        case True
        with 1 y slow_digits_more [OF sj(1)] False show ?thesis by auto
      qed (use 1 y False in auto)
      with sj(4) have qk: "q < k" "q \<le> k" "q \<le> k + 1" by simp_all
      show ?case
        unfolding y prod.case double_fract_cong [OF sj(2,3) qk(3)] double_exp_cong [OF sj(2,3) qk(2)]
          parse_integer_cong [OF sj(2,3) qk(1)] agree_rd [OF sj(2) qk(2)]
        by (intro Option.bind_cong if_cong CHECK_DIGIT_cong [OF sj(2) qk(3)] refl)
    qed
  qed (simp add: z)
qed

lemma parseNumber_cong: "agree q s t \<Longrightarrow> q < pos \<Longrightarrow> parseNumber fl s pos len = parseNumber fl t pos len"
  unfolding parseNumber_def Let_def
  by (intro Option.bind_cong agree_rd if_cong) (auto simp: number_zero_cong number_digits_cong)

end
