(* ===== verification/Sonic_DecimalTable.thy ===== *)
theory Sonic_DecimalTable
  imports Sonic_NumberProps
begin

text \<open>
  Digit strings read as numbers, and the table of left shifts of \<^theory_text>\<open>Sonic_Decimal\<close>: row \<open>k\<close> holds the
  digits of \<open>5 ^ k\<close> and the number of digits a left shift by \<open>k\<close> adds.
\<close>

subsection \<open>Digit strings as numbers\<close>

lemma digits_nat_append: "digits_nat (xs @ ys) = digits_nat xs * 10 ^ length ys + digits_nat ys"
  by (induction ys rule: rev_induct) (simp_all add: algebra_simps flip: append_assoc)

lemma digits_nat_Cons: "digits_nat (x # xs) = x * 10 ^ length xs + digits_nat xs"
  using digits_nat_append [of "[x]" xs] by (simp add: digits_nat_def)

lemma digits_nat_less: "(\<And>d. d \<in> set ds \<Longrightarrow> d \<le> 9) \<Longrightarrow> digits_nat ds < 10 ^ length ds"
proof (induction ds)
  case (Cons x xs)
  have "digits_nat (x # xs) < x * 10 ^ length xs + 10 ^ length xs"
    using Cons by (simp add: digits_nat_Cons)
  also have "\<dots> = (x + 1) * 10 ^ length xs" by simp
  also have "\<dots> \<le> 10 * 10 ^ length xs" using Cons(2) [of x] by (intro mult_right_mono) simp_all
  finally show ?case by simp
qed simp

lemma digits_nat_pos: "ds \<noteq> [] \<Longrightarrow> last ds \<noteq> 0 \<Longrightarrow> 0 < digits_nat ds"
  by (cases ds rule: rev_cases) simp_all

text \<open>
  The lexicographic comparison of digit strings read as fractions.
\<close>

fun frac_less :: "nat list \<Rightarrow> nat list \<Rightarrow> bool" where
  "frac_less xs [] = False"
| "frac_less [] (c # cs) = True"
| "frac_less (x # xs) (c # cs) = (if x \<noteq> c then x < c else frac_less xs cs)"

lemma frac_less_nat:
  assumes "\<And>x. x \<in> set xs \<Longrightarrow> x \<le> 9" and "\<And>c. c \<in> set cs \<Longrightarrow> c \<le> 9" and "cs \<noteq> [] \<Longrightarrow> last cs \<noteq> 0"
  shows "frac_less xs cs \<longleftrightarrow> digits_nat xs * 10 ^ length cs < digits_nat cs * 10 ^ length xs"
  using assms
proof (induction xs cs rule: frac_less.induct)
  case (2 c cs)
  have "0 < digits_nat (c # cs)" by (rule digits_nat_pos) (use 2(3) in simp_all)
  then show ?case by simp
next
  case (3 x xs c cs)
  let ?p = "10 ^ length xs :: nat" and ?q = "10 ^ length cs :: nat"
  have lx: "digits_nat xs < ?p" using 3(2) by (intro digits_nat_less) simp
  have lc: "digits_nat cs < ?q" using 3(3) by (intro digits_nat_less) simp
  have e: "digits_nat (x # xs) * 10 ^ length (c # cs) = 10 * (x * (?p * ?q) + digits_nat xs * ?q)"
    "digits_nat (c # cs) * 10 ^ length (x # xs) = 10 * (c * (?p * ?q) + digits_nat cs * ?p)"
    by (simp_all add: digits_nat_Cons algebra_simps)
  have bx: "digits_nat xs * ?q < ?p * ?q" using lx by simp
  have bc: "digits_nat cs * ?p < ?p * ?q" using lc by simp
  have step: "a * (?p * ?q) + u < b * (?p * ?q) + v" if "a < b" "u < ?p * ?q" for a b u v
  proof -
    have "a * (?p * ?q) + u < (a + 1) * (?p * ?q)" using that(2) by simp
    also have "\<dots> \<le> b * (?p * ?q)" using that(1) by (intro mult_right_mono) simp_all
    finally show ?thesis by simp
  qed
  consider (less) "x < c" | (eq) "x = c" | (gr) "c < x" by linarith
  then show ?case
  proof cases
    case less
    then show ?thesis unfolding e using step [OF less bx, of "digits_nat cs * ?p"] by simp
  next
    case eq
    have "cs \<noteq> [] \<Longrightarrow> last cs \<noteq> 0" using 3(4) by auto
    then have "frac_less xs cs \<longleftrightarrow> digits_nat xs * ?q < digits_nat cs * ?p" using 3(1) eq 3(2,3) by simp
    then show ?thesis unfolding e using eq by simp
  next
    case gr
    then show ?thesis unfolding e using step [OF gr bc, of "digits_nat xs * ?q"] by simp
  qed
qed simp

subsection \<open>The table of left shifts\<close>

definition cutoff_digits :: "string \<Rightarrow> nat list" where
  "cutoff_digits s = map (\<lambda>c. digit_of (of_char c)) s"

definition lshift_row_ok :: "nat \<times> int \<times> string \<Rightarrow> bool" where
  "lshift_row_ok = (\<lambda>(k, delta, s). k = 0 \<or>
     (digits_nat (cutoff_digits s) = 5 ^ k \<and> int k + 1 = delta + int (length s) \<and> 1 \<le> delta
      \<and> 10 ^ (length s - 1) \<le> (5 :: nat) ^ k \<and> s \<noteq> [] \<and> last s = CHR ''5''
      \<and> list_all (\<lambda>c. is_digit (of_char c)) s))"


lemma digit_chars:
  "digit_of (of_char CHR ''0'') = 0" "digit_of (of_char CHR ''1'') = 1" "digit_of (of_char CHR ''2'') = 2"
  "digit_of (of_char CHR ''3'') = 3" "digit_of (of_char CHR ''4'') = 4" "digit_of (of_char CHR ''5'') = 5"
  "digit_of (of_char CHR ''6'') = 6" "digit_of (of_char CHR ''7'') = 7" "digit_of (of_char CHR ''8'') = 8"
  "digit_of (of_char CHR ''9'') = 9"
  "is_digit (of_char CHR ''0'')" "is_digit (of_char CHR ''1'')" "is_digit (of_char CHR ''2'')"
  "is_digit (of_char CHR ''3'')" "is_digit (of_char CHR ''4'')" "is_digit (of_char CHR ''5'')"
  "is_digit (of_char CHR ''6'')" "is_digit (of_char CHR ''7'')" "is_digit (of_char CHR ''8'')"
  "is_digit (of_char CHR ''9'')"
  by (simp_all add: digit_of_def is_digit_def)

lemma LSHIFT_TAB_ok: "list_all lshift_row_ok (enumerate 0 LSHIFT_TAB)"
  by (simp add: LSHIFT_TAB_def lshift_row_ok_def cutoff_digits_def digits_nat_def digit_chars del: of_char_Char)


end
