(* ===== verification/Sonic_DecimalProps.thy ===== *)
theory Sonic_DecimalProps
  imports Sonic_DecimalTable Complex_Main
begin

text \<open>
  The decimal conversion of \<^theory_text>\<open>Sonic_Decimal\<close>: a left shift multiplies the digits by \<open>2 ^ k\<close> (the table
  of \<^theory_text>\<open>Sonic_DecimalTable\<close> tells how many digits it adds), a right shift divides them, the digits behind
  the 800th are dropped and remembered; both scaling loops end, so that \<open>AtofNative\<close> never leaves its
  arrays and always returns.
\<close>

lemma length_LSHIFT_TAB: "length LSHIFT_TAB = 61"
  by (simp add: LSHIFT_TAB_def)

lemma LSHIFT_row:
  assumes "0 < k" and "k \<le> 60"
  obtains delta s where "rd LSHIFT_TAB k = Some (delta, s)" and "digits_nat (cutoff_digits s) = 5 ^ k"
    and "int k + 1 = delta + int (length s)" and "1 \<le> delta" and "10 ^ (length s - 1) \<le> (5 :: nat) ^ k"
    and "s \<noteq> []" and "last s = CHR ''5''" and "list_all (\<lambda>c. is_digit (of_char c)) s"
proof -
  have k: "k < length LSHIFT_TAB" using assms by (simp add: length_LSHIFT_TAB)
  obtain delta s where row: "LSHIFT_TAB ! k = (delta, s)" by (cases "LSHIFT_TAB ! k")
  have "lshift_row_ok (enumerate 0 LSHIFT_TAB ! k)"
    using LSHIFT_TAB_ok k by (simp add: list_all_length)
  then have "lshift_row_ok (k, delta, s)" using k row by (simp add: nth_enumerate_eq)
  with assms(1) show thesis
    by (intro that [of delta s]) (simp_all add: rd_def k row lshift_row_ok_def)
qed

lemma digit_of_le: "is_digit c \<Longrightarrow> digit_of c \<le> 9"
  unfolding digit_of_def digit_unat by linarith

lemma digit_of_inj: "is_digit c \<Longrightarrow> is_digit e \<Longrightarrow> digit_of c = digit_of e \<longleftrightarrow> c = e"
  by (auto simp: digit_of_def digit_unat word_unat_eq_iff)

lemma digit_of_less: "is_digit c \<Longrightarrow> is_digit e \<Longrightarrow> digit_of c < digit_of e \<longleftrightarrow> c < e"
  by (auto simp: digit_of_def digit_unat word_less_nat_alt)

lemma prefix_less_frac:
  assumes "bn \<le> length b" and "\<And>j. j < bn \<Longrightarrow> is_digit (b ! j)" and "list_all (\<lambda>c. is_digit (of_char c)) s" and "i \<le> bn"
  shows "prefix_less b s bn i = Some (frac_less (map digit_of (drop i (take bn b))) (cutoff_digits (drop i s)))"
  using assms
proof (induction b s bn i rule: prefix_less.induct)
  case (1 b s bn i)
  have step: "prefix_less b s bn (Suc i) = Some (frac_less (map digit_of (drop (Suc i) (take bn b))) (cutoff_digits (drop (Suc i) s)))"
    if "i < bn" "cutoff_at s i \<noteq> 0" "b ! i = cutoff_at s i"
    using 1(1) [of "b ! i"] that 1(2-4) by (simp add: rd_def)
  have dg: "is_digit (of_char (s ! i))" if "i < length s" using 1(4) that by (simp add: list_all_length)
  have nz: "cutoff_at s i \<noteq> 0" if "i < length s"
    using dg [OF that] that unfolding cutoff_at_def by (auto simp: is_digit_def)
  show ?case
  proof (cases "i < bn")
    case True
    have dr: "drop i (take bn b) = b ! i # drop (Suc i) (take bn b)"
      using True 1(2) by (simp add: Cons_nth_drop_Suc [symmetric])
    show ?thesis
    proof (cases "i < length s")
      case False
      then show ?thesis using True 1(2) by (simp add: prefix_less.simps [of b s bn i] cutoff_at_def cutoff_digits_def)
    next
      case in_s: True
      have ds: "drop i s = s ! i # drop (Suc i) s" using in_s by (simp add: Cons_nth_drop_Suc [symmetric])
      have cu: "cutoff_digits (drop i s) = digit_of (cutoff_at s i) # cutoff_digits (drop (Suc i) s)"
        unfolding ds using in_s by (simp add: cutoff_digits_def cutoff_at_def)
      have "is_digit (cutoff_at s i)" using dg in_s by (simp add: cutoff_at_def)
      moreover have "is_digit (b ! i)" using 1(3) True .
      ultimately show ?thesis
        using True 1(2) nz [OF in_s] step
        by (simp add: prefix_less.simps [of b s bn i] dr cu rd_def digit_of_inj digit_of_less)
    qed
  next
    case False
    then have e: "i = bn" using 1(5) by simp
    have "cutoff_at s bn \<noteq> 0 \<longleftrightarrow> drop bn s \<noteq> []"
      using nz e by (auto simp: cutoff_at_def)
    then show ?thesis unfolding e prefix_less.simps [of b s bn bn]
      by (cases "drop bn s") (simp_all add: cutoff_digits_def)
  qed
qed

subsection \<open>Decimals\<close>

definition dec_digits :: "Decimal \<Rightarrow> nat list" where
  "dec_digits d = map digit_of (take (nd d) (dd d))"

definition dec_ok :: "Decimal \<Rightarrow> bool" where
  "dec_ok d \<longleftrightarrow> length (dd d) = 800 \<and> nd d \<le> 800 \<and> (\<forall>i < nd d. is_digit (dd d ! i)) \<and> (0 < nd d \<longrightarrow> dd d ! 0 \<noteq> 0x30)"

lemma length_dec_digits: "dec_ok d \<Longrightarrow> length (dec_digits d) = nd d"
  by (simp add: dec_digits_def dec_ok_def)

lemma dec_digits_nth: "dec_ok d \<Longrightarrow> i < nd d \<Longrightarrow> dec_digits d ! i = digit_of (dd d ! i)"
  by (simp add: dec_digits_def dec_ok_def)

lemma dec_digits_le: "dec_ok d \<Longrightarrow> x \<in> set (dec_digits d) \<Longrightarrow> x \<le> 9"
  by (auto simp: in_set_conv_nth length_dec_digits dec_digits_nth dec_ok_def intro!: digit_of_le)

text \<open>The number of digits a left shift adds, decided by the table.\<close>

lemma digits_nat_head:
  assumes "ds \<noteq> []" and "hd ds \<noteq> 0"
  shows "10 ^ (length ds - 1) \<le> digits_nat ds"
proof (cases ds)
  case (Cons x xs)
  then have "1 * 10 ^ length xs \<le> x * 10 ^ length xs" using assms by (intro mult_right_mono) simp_all
  then have "10 ^ length xs \<le> x * 10 ^ length xs" by (simp only: mult_1)
  then show ?thesis unfolding Cons digits_nat_Cons by (simp only: list.size add_Suc_right add_0_right diff_Suc_1 trans_le_add1)
qed (use assms in simp)

lemma dec_hd:
  assumes "dec_ok d" and "0 < nd d"
  shows "hd (dec_digits d) \<noteq> 0"
proof -
  have "dec_digits d ! 0 = digit_of (dd d ! 0)" by (rule dec_digits_nth [OF assms])
  moreover have "digit_of (dd d ! 0) \<noteq> 0" using assms digit_of_inj [of "dd d ! 0" "0x30"]
    by (auto simp: dec_ok_def digit_of_def is_digit_def)
  ultimately show ?thesis using assms(2) length_dec_digits [OF assms(1)]
    by (metis hd_conv_nth length_0_conv not_gr0)
qed

lemma lshift_delta:
  assumes d: "dec_ok d" and nz: "0 < nd d" and k: "0 < k" "k \<le> 60"
  obtains delta s less where "rd LSHIFT_TAB k = Some (delta, s)" and "PrefixIsLess (dd d) s (nd d) = Some less"
    and "0 \<le> (if less then delta - 1 else delta)"
    and "digits_nat (dec_digits d) * 2 ^ k < 10 ^ (nd d + nat (if less then delta - 1 else delta))"
    and "10 ^ (nd d + nat (if less then delta - 1 else delta) - 1) \<le> digits_nat (dec_digits d) * 2 ^ k"
proof -
  obtain delta s where row: "rd LSHIFT_TAB k = Some (delta, s)" and five: "digits_nat (cutoff_digits s) = 5 ^ k"
    and len: "int k + 1 = delta + int (length s)" and pos: "1 \<le> delta" and low: "10 ^ (length s - 1) \<le> (5 :: nat) ^ k"
    and s: "s \<noteq> []" "last s = CHR ''5''" "list_all (\<lambda>c. is_digit (of_char c)) s"
    by (rule LSHIFT_row [OF k])
  let ?D = "digits_nat (dec_digits d)" and ?n = "nd d" and ?m = "length s"
  define less where "less = frac_less (dec_digits d) (cutoff_digits s)"
  have ps: "PrefixIsLess (dd d) s ?n = Some less"
    unfolding PrefixIsLess_def less_def dec_digits_def
    using prefix_less_frac [of ?n "dd d" s 0] d s(3) by (simp add: dec_ok_def)
  have cut9: "c \<le> 9" if "c \<in> set (cutoff_digits s)" for c
    using that s(3) by (auto simp: cutoff_digits_def list_all_iff intro: digit_of_le)
  have lc: "length (cutoff_digits s) = ?m" by (simp add: cutoff_digits_def)
  have cutlast: "last (cutoff_digits s) \<noteq> 0"
    using s(1,2) by (simp add: cutoff_digits_def last_map digit_chars del: of_char_Char)
  have less_iff: "less \<longleftrightarrow> ?D * 10 ^ ?m < 5 ^ k * 10 ^ ?n"
    unfolding less_def using frac_less_nat [of "dec_digits d" "cutoff_digits s"] dec_digits_le [OF d] cut9 cutlast
    by (simp add: five lc length_dec_digits [OF d])
  have D: "?D < 10 ^ ?n" using digits_nat_less [of "dec_digits d"] dec_digits_le [OF d] by (simp add: length_dec_digits [OF d])
  have hd: "hd (dec_digits d) \<noteq> 0" by (rule dec_hd [OF d nz])
  have n1: "10 ^ (?n - 1) \<le> ?D"
    using digits_nat_head [OF _ hd] nz by (simp add: length_dec_digits [OF d] flip: length_0_conv)
  have m: "?m \<ge> 1" using s(1) by (cases s) simp_all
  have km: "k + 1 = nat delta + ?m" using len pos by linarith
  have five_m: "(5 :: nat) ^ k < 10 ^ ?m" using digits_nat_less [of "cutoff_digits s"] cut9 by (simp add: five lc)
  have ten: "10 ^ k = (2 :: nat) ^ k * 5 ^ k" by (simp flip: power_mult_distrib)
  have kge: "?m \<le> k" using km pos by linarith
  have div: "x < 10 ^ (a - b)" if "x * 10 ^ b < 10 ^ a" "b \<le> a" for x a b :: nat
  proof -
    have "x * 10 ^ b < 10 ^ (a - b) * 10 ^ b" using that by (simp flip: power_add)
    then show ?thesis by simp
  qed
  have div': "10 ^ (a - b) \<le> x" if "10 ^ a \<le> x * 10 ^ b" "b \<le> a" for x a b :: nat
  proof -
    have "10 ^ (a - b) * 10 ^ b \<le> x * 10 ^ b" using that by (simp flip: power_add)
    then show ?thesis by simp
  qed
  define e where "e = nat (if less then delta - 1 else delta)"
  show thesis
  proof (rule that [OF row ps])
    show "0 \<le> (if less then delta - 1 else delta)" using pos by simp
    have "?D * 2 ^ k < 10 ^ (?n + e) \<and> 10 ^ (?n + e - 1) \<le> ?D * 2 ^ k"
    proof (cases less)
      case True
      have e: "e = k - ?m" using True km by (simp add: e_def nat_diff_distrib) 
      have "?D * 10 ^ ?m * 2 ^ k < 5 ^ k * 10 ^ ?n * 2 ^ k" using True less_iff by simp
      then have "?D * 2 ^ k * 10 ^ ?m < 10 ^ (?n + k)" by (simp add: ten power_add mult_ac)
      then have up: "?D * 2 ^ k < 10 ^ (?n + k - ?m)" using kge by (intro div) simp_all
      have "5 ^ k * 2 ^ k \<le> (2 :: nat) ^ k * 10 ^ ?m" using five_m by (simp add: mult_ac)
      then have "10 ^ k \<le> (2 :: nat) ^ k * 10 ^ ?m" by (simp add: ten mult_ac)
      then have "10 ^ (k - ?m) \<le> (2 :: nat) ^ k" using kge by (rule div')
      then have "10 ^ (?n - 1) * 10 ^ (k - ?m) \<le> ?D * 2 ^ k" by (rule mult_mono [OF n1]) simp_all
      moreover have "?n - 1 + (k - ?m) = ?n + e - 1" using nz e by simp
      ultimately show ?thesis using up kge e by (simp flip: power_add)
    next
      case False
      have e: "e = k + 1 - ?m" using False km by (simp add: e_def)
      have "?D * 2 ^ k * 10 ^ (?m - 1) \<le> ?D * 2 ^ k * 5 ^ k" using low by simp
      also have "\<dots> < 10 ^ ?n * 10 ^ k" using D by (simp add: ten mult_ac)
      finally have "?D * 2 ^ k * 10 ^ (?m - 1) < 10 ^ (?n + k)" by (simp add: power_add)
      then have up: "?D * 2 ^ k < 10 ^ (?n + k - (?m - 1))" using kge by (intro div) simp_all
      have "5 ^ k * 10 ^ ?n * 2 ^ k \<le> ?D * 10 ^ ?m * 2 ^ k" using False less_iff by simp
      then have "10 ^ (?n + k) \<le> ?D * 2 ^ k * 10 ^ ?m" by (simp add: ten power_add mult_ac)
      then have lo: "10 ^ (?n + k - ?m) \<le> ?D * 2 ^ k" using kge by (intro div') simp_all
      have "?n + k - (?m - 1) = ?n + e" "?n + k - ?m = ?n + e - 1" using m e kge by simp_all
      then show ?thesis using up lo by simp
    qed
    then show "?D * 2 ^ k < 10 ^ (?n + nat (if less then delta - 1 else delta))"
      "10 ^ (?n + nat (if less then delta - 1 else delta) - 1) \<le> ?D * 2 ^ k" by (simp_all add: e_def)
  qed
qed

subsection \<open>Writing the digits of a shifted number\<close>

definition dgt :: "nat \<Rightarrow> u8" where "dgt x = word_of_nat x + 0x30"

lemma dgt_unat: "x \<le> 9 \<Longrightarrow> unat (dgt x) = x + 48"
proof -
  assume "x \<le> 9"
  then have "unat (word_of_nat x :: u8) = x" by (simp add: unsigned_of_nat take_bit_nat_eq_self_iff)
  with \<open>x \<le> 9\<close> show ?thesis unfolding dgt_def by (subst unat_plus_lt) simp_all
qed

lemma dgt_digit [simp]: "x \<le> 9 \<Longrightarrow> is_digit (dgt x)" "x \<le> 9 \<Longrightarrow> digit_of (dgt x) = x"
  by (simp_all add: digit_unat digit_of_def dgt_unat)

lemma dgt_zero: "x \<le> 9 \<Longrightarrow> dgt x = 0x30 \<longleftrightarrow> x = 0"
  using dgt_unat [of x] by (auto simp: word_unat_eq_iff)

lemma wr_one: "i < length b \<Longrightarrow> wr b i [c] = Some (b[i := c])"
  by (simp add: wr_def upd_conv_take_nth_drop)

lemma digit_val: "is_digit c \<Longrightarrow> unat (ucast c - 0x30 :: u64) = digit_of c"
  unfolding digit_of_def digit_unat
  by (subst unat_minus_le) (simp_all add: word_le_nat_alt)

text \<open>The digits of \<open>e\<close> that lie at position \<open>w\<close> or later are in the array, as far as it reaches.\<close>

definition written :: "nat list \<Rightarrow> nat \<Rightarrow> bytes \<Rightarrow> bool" where
  "written e w ds \<longleftrightarrow> length ds = 800 \<and> (\<forall>p. w \<le> p \<longrightarrow> p < length e \<longrightarrow> p < 800 \<longrightarrow> ds ! p = dgt (e ! p))"

definition lost :: "nat list \<Rightarrow> nat \<Rightarrow> bool" where
  "lost e w \<longleftrightarrow> (\<exists>p. w \<le> p \<and> p < length e \<and> 800 \<le> p \<and> e ! p \<noteq> 0)"

lemma ls_put_step:
  assumes w: "Suc w \<le> length e" and m: "unat m mod 10 = e ! w"
    and wr: "written e (Suc w) ds" and tr: "tr = (tr0 \<or> lost e (Suc w))"
  obtains ds' tr' where "ls_put ds (int w) (m - 10 * (m div 10)) tr = Some (ds', tr')"
    and "written e w ds'" and "tr' = (tr0 \<or> lost e w)" and "\<And>j. j < w \<Longrightarrow> ds' ! j = ds ! j"
proof -
  have rm: "m - 10 * (m div 10) = word_of_nat (e ! w)"
  proof -
    have "m - 10 * (m div 10) = m mod 10" by (metis minus_mult_div_eq_mod)
    also have "\<dots> = word_of_nat (unat (m mod 10))" by simp
    also have "unat (m mod 10) = unat m mod 10" by (simp add: unat_mod)
    finally show ?thesis by (simp add: m)
  qed
  have e9: "e ! w \<le> 9" unfolding m [symmetric] by simp
  show thesis
  proof (cases "w < 800")
    case True
    have "ucast (word_of_nat (e ! w) :: u64) = (word_of_nat (e ! w) :: u8)"
      by (simp add: unsigned_of_nat word_of_nat_eq_iff)
    then have "ls_put ds (int w) (m - 10 * (m div 10)) tr = Some (ds[w := dgt (e ! w)], tr)"
      using True wr unfolding rm by (simp add: ls_put_def DECIMAL_MAX_DNUM_def wr_one written_def dgt_def)
    moreover have "written e w (ds[w := dgt (e ! w)])"
      using wr True unfolding written_def by (simp add: nth_list_update)
    moreover have "lost e (Suc w) = lost e w"
      using True unfolding lost_def by (metis Suc_le_eq leD le_neq_implies_less nat_less_le Suc_leD)
    ultimately show thesis using tr by (intro that [of "ds[w := dgt (e ! w)]" tr]) simp_all
  next
    case False
    have "unat (word_of_nat (e ! w) :: u64) = e ! w"
      using e9 by (simp add: unsigned_of_nat take_bit_nat_eq_self_iff)
    then have "word_of_nat (e ! w) \<noteq> (0 :: u64) \<longleftrightarrow> e ! w \<noteq> 0"
      by (metis unat_eq_0)
    then have "ls_put ds (int w) (m - 10 * (m div 10)) tr = Some (ds, tr \<or> e ! w \<noteq> 0)"
      using False unfolding rm by (simp add: ls_put_def DECIMAL_MAX_DNUM_def)
    moreover have "written e w ds" using wr False unfolding written_def by auto
    moreover have "lost e w = (lost e (Suc w) \<or> e ! w \<noteq> 0)"
      using False w unfolding lost_def by (metis Suc_le_eq leD le_less_linear le_neq_implies_less nat_less_le not_less Suc_leD)
    ultimately show thesis using tr by (intro that [of ds "tr \<or> e ! w \<noteq> 0"]) auto
  qed
qed

definition number_digits_of :: "nat \<Rightarrow> nat \<Rightarrow> nat list" where
  "number_digits_of w x = map (\<lambda>p. x div 10 ^ (w - 1 - p) mod 10) [0..<w]"

lemma length_number_digits [simp]: "length (number_digits_of w x) = w"
  by (simp add: number_digits_of_def)

lemma number_digits_nth: "p < w \<Longrightarrow> number_digits_of w x ! p = x div 10 ^ (w - 1 - p) mod 10"
  by (simp add: number_digits_of_def)

lemma ls_digits_ok:
  assumes "written (number_digits_of W P) (r + e) ds" and "tr = (tr0 \<or> lost (number_digits_of W P) (r + e))"
    and "r + e \<le> W" and "r \<le> 800" and "\<And>i. i < r \<Longrightarrow> is_digit (ds ! i)" and "unat n < 2 ^ k" and "k \<le> 60"
    and "P div 10 ^ (W - (r + e)) = digits_nat (map digit_of (take r ds)) * 2 ^ k + unat n"
  shows "\<exists>ds' n' tr'. ls_digits k r ds (int (r + e)) n tr = Some (ds', int e, n', tr')
      \<and> written (number_digits_of W P) e ds' \<and> tr' = (tr0 \<or> lost (number_digits_of W P) e)
      \<and> P div 10 ^ (W - e) = unat n'"
  using assms
proof (induction r arbitrary: ds n tr)
  case 0
  then show ?case by simp
next
  case (Suc r)
  let ?E = "number_digits_of W P" and ?d = "digit_of (ds ! r)" and ?X = "digits_nat (map digit_of (take r ds))"
  have len: "length ds = 800" using Suc.prems(1) by (simp add: written_def)
  have dg: "is_digit (ds ! r)" using Suc.prems(5) by simp
  have p60: "(2 :: nat) ^ k \<le> 2 ^ 60" using Suc.prems(7) by (intro power_increasing) simp_all
  have d9: "?d \<le> 9" using dg by (rule digit_of_le)
  have sh: "unat (push_bit k (ucast (ds ! r) - 0x30) :: u64) = ?d * 2 ^ k"
    using p60 d9 mult_mono [OF d9 p60]
    by (subst unat_shl) (simp_all add: digit_val [OF dg])
  define n1 where "n1 = n + push_bit k (ucast (ds ! r) - 0x30)"
  have n1: "unat n1 = unat n + ?d * 2 ^ k"
    unfolding n1_def using p60 mult_mono [OF d9 p60] Suc.prems(6) sh by (subst unat_plus_lt) simp_all
  have take: "take (Suc r) ds = take r ds @ [ds ! r]" using len Suc.prems(4) by (simp add: take_Suc_conv_app_nth)
  have T: "P div 10 ^ (W - Suc (r + e)) = 10 * (?X * 2 ^ k) + unat n1"
    using Suc.prems(8) by (simp add: take n1 algebra_simps)
  have ew: "?E ! (r + e) = unat n1 mod 10"
    using Suc.prems(3) T by (simp add: number_digits_nth)
  obtain ds1 tr1 where put: "ls_put ds (int (r + e)) (n1 - 10 * (n1 div 10)) tr = Some (ds1, tr1)"
    and w1: "written ?E (r + e) ds1" and t1: "tr1 = (tr0 \<or> lost ?E (r + e))" and same: "\<And>j. j < r + e \<Longrightarrow> ds1 ! j = ds ! j"
    by (rule ls_put_step [where w = "r + e" and m = n1 and ds = ds and tr = tr and ?tr0.0 = tr0 and e = ?E])
      (use Suc.prems ew in \<open>simp_all\<close>)
  have q: "unat (n1 div 10) = unat n1 div 10" by (simp add: unat_div)
  have tk: "take r ds1 = take r ds"
    using same len w1 Suc.prems(4) by (intro nth_equalityI) (simp_all add: written_def)
  have "W - (r + e) = Suc (W - Suc (r + e))" using Suc.prems(3) by simp
  then have "P div 10 ^ (W - (r + e)) = P div 10 ^ (W - Suc (r + e)) div 10"
    by (simp only: power_Suc2 div_mult2_eq)
  also have "\<dots> = ?X * 2 ^ k + unat (n1 div 10)" by (simp add: T q)
  finally have T': "P div 10 ^ (W - (r + e)) = digits_nat (map digit_of (take r ds1)) * 2 ^ k + unat (n1 div 10)"
    by (simp add: tk)
  have lt: "unat (n1 div 10) < 2 ^ k"
  proof -
    have "?d * 2 ^ k \<le> 9 * 2 ^ k" by (rule mult_right_mono [OF d9]) simp
    then have "unat n1 < 10 * 2 ^ k" using n1 Suc.prems(6) by linarith
    then show ?thesis by (simp add: q)
  qed
  have "is_digit (ds1 ! i)" if "i < r" for i using Suc.prems(5) [of i] same [of i] that by simp
  from Suc.IH [OF w1 t1 _ _ this lt Suc.prems(7) T'] Suc.prems(3,4)
  have "\<exists>ds' n' tr'. ls_digits k r ds1 (int (r + e)) (n1 div 10) tr1 = Some (ds', int e, n', tr')
      \<and> written ?E e ds' \<and> tr' = (tr0 \<or> lost ?E e) \<and> P div 10 ^ (W - e) = unat n'" by simp
  then show ?case using put len Suc.prems(4)
    by (simp add: rd_def Let_def flip: n1_def)
qed

lemma ls_extra_ok:
  assumes "written (number_digits_of W P) w ds" and "tr = (tr0 \<or> lost (number_digits_of W P) w)"
    and "w \<le> W" and "P div 10 ^ (W - w) = unat n" and "10 ^ (W - 1) \<le> P" and "P < 10 ^ W"
  shows "\<exists>ds' tr'. ls_extra ds (int w) n tr = Some (ds', tr')
      \<and> written (number_digits_of W P) 0 ds' \<and> tr' = (tr0 \<or> lost (number_digits_of W P) 0)"
  using assms
proof (induction w arbitrary: ds n tr)
  case 0
  then have "n = 0" by (simp add: unat_eq_0)
  then show ?case using 0 by (simp add: ls_extra.simps)
next
  case (Suc w)
  let ?E = "number_digits_of W P"
  have "10 ^ (W - Suc w) * 10 ^ w \<le> P" using Suc.prems(3,5) by (simp flip: power_add)
  then have "10 ^ w \<le> P div 10 ^ (W - Suc w)" by (simp add: less_eq_div_iff_mult_less_eq mult.commute)
  then have nz: "n \<noteq> 0" using Suc.prems(4) by (metis unsigned_0 not_less power_not_zero bot_nat_0.extremum_uniqueI zero_neq_numeral)
  have ew: "unat n mod 10 = ?E ! w" using Suc.prems(3,4) by (simp add: number_digits_nth)
  obtain ds1 tr1 where put: "ls_put ds (int w) (n - 10 * (n div 10)) tr = Some (ds1, tr1)"
    and w1: "written ?E w ds1" and t1: "tr1 = (tr0 \<or> lost ?E w)" and "\<And>j. j < w \<Longrightarrow> ds1 ! j = ds ! j"
    by (rule ls_put_step [where w = w and m = n and ds = ds and tr = tr and ?tr0.0 = tr0 and e = ?E])
      (use Suc.prems ew in simp_all)
  have "W - w = Suc (W - Suc w)" using Suc.prems(3) by simp
  then have "P div 10 ^ (W - w) = P div 10 ^ (W - Suc w) div 10" by (simp only: power_Suc2 div_mult2_eq)
  then have "P div 10 ^ (W - w) = unat (n div 10)" using Suc.prems(4) by (simp add: unat_div)
  from Suc.IH [OF w1 t1 _ this] Suc.prems(3,5,6) show ?case
    using put nz by (simp add: ls_extra.simps [of ds "1 + int w" n])
qed

subsection \<open>Trimming\<close>

definition strip0 :: "nat list \<Rightarrow> nat list" where
  "strip0 xs = rev (dropWhile (\<lambda>x. x = 0) (rev xs))"

lemma strip0_snoc [simp]: "strip0 (xs @ [x]) = (if x = 0 then strip0 xs else xs @ [x])"
  by (simp add: strip0_def)

lemma strip0_Nil [simp]: "strip0 [] = []"
  by (simp add: strip0_def)

lemma strip0_prefix: "\<exists>k. xs = strip0 xs @ replicate k 0"
proof (induction xs rule: rev_induct)
  case (snoc x xs)
  then obtain k where k: "xs = strip0 xs @ replicate k 0" by blast
  show ?case
  proof (cases "x = 0")
    case True
    then have "xs @ [x] = strip0 (xs @ [x]) @ replicate (Suc k) 0"
      using k by (simp add: replicate_app_Cons_same) (metis append.assoc replicate_append_same append_Cons replicate_app_Cons_same)
    then show ?thesis by blast
  qed (auto intro: exI [of _ 0])
qed simp

lemma strip0_nat: "digits_nat (strip0 xs) * 10 ^ (length xs - length (strip0 xs)) = digits_nat xs"
proof -
  obtain k where k: "xs = strip0 xs @ replicate k 0" using strip0_prefix by blast
  have "digits_nat (strip0 xs @ replicate k 0) = digits_nat (strip0 xs) * 10 ^ k"
    by (induction k) (simp_all add: replicate_append_same [symmetric] flip: append_assoc)
  then show ?thesis using k by (metis add_diff_cancel_left' length_append length_replicate)
qed

lemma strip0_length: "length (strip0 xs) \<le> length xs"
  using length_dropWhile_le [of _ "rev xs"] by (simp add: strip0_def)

lemma strip0_head: "x \<noteq> 0 \<Longrightarrow> \<exists>ys. strip0 (x # xs) = x # ys"
  using strip0_prefix [of "x # xs"] by (cases "strip0 (x # xs)") (auto simp: Cons_replicate_eq)

lemma trim_nd_spec:
  "n \<le> length ds \<Longrightarrow> (\<And>i. i < n \<Longrightarrow> is_digit (ds ! i))
    \<Longrightarrow> \<exists>m\<le>n. trim_nd ds n = Some m \<and> map digit_of (take m ds) = strip0 (map digit_of (take n ds))"
proof (induction n)
  case (Suc n)
  have "ds ! n = 0x30 \<longleftrightarrow> digit_of (ds ! n) = 0"
    using digit_of_inj [of "ds ! n" "0x30"] Suc.prems(2) [of n] by (simp add: digit_of_def is_digit_def)
  then show ?case
    using Suc by (auto simp: rd_def take_Suc_conv_app_nth intro: le_SucI)
qed simp

text \<open>What a shift leaves: the digits of \<open>e\<close>, at most 800 of them, without trailing zeros.\<close>

definition shifted :: "Decimal \<Rightarrow> nat list \<Rightarrow> int \<Rightarrow> Decimal \<Rightarrow> bool" where
  "shifted d e delta d' \<longleftrightarrow> dec_ok d' \<and> 0 < nd d' \<and> dec_digits d' = strip0 (take 800 e)
     \<and> dp d' = dp d + delta \<and> dneg d' = dneg d \<and> trunc d' = (trunc d \<or> (\<exists>x \<in> set (drop 800 e). x \<noteq> 0))"

lemma lost_drop: "lost e 0 \<longleftrightarrow> (\<exists>x \<in> set (drop 800 e). x \<noteq> 0)"
proof
  assume "lost e 0"
  then obtain p where "800 \<le> p" "p < length e" "e ! p \<noteq> 0" by (auto simp: lost_def)
  then have "drop 800 e ! (p - 800) \<noteq> 0" "p - 800 < length (drop 800 e)" by simp_all
  then show "\<exists>x \<in> set (drop 800 e). x \<noteq> 0" by (metis nth_mem)
next
  assume "\<exists>x \<in> set (drop 800 e). x \<noteq> 0"
  then obtain i where "i < length (drop 800 e)" "drop 800 e ! i \<noteq> 0" by (metis in_set_conv_nth)
  then show "lost e 0" unfolding lost_def by (intro exI [of _ "800 + i"]) simp
qed

lemma Trim_written:
  assumes wr: "written e 0 ds" and e: "e \<noteq> []" "hd e \<noteq> 0" "\<And>x. x \<in> set e \<Longrightarrow> x \<le> 9"
    and f: "dd d1 = ds" "nd d1 = min (length e) 800" "dp d1 = dp d + delta" "dneg d1 = dneg d" "trunc d1 = (trunc d \<or> lost e 0)"
  shows "\<exists>d'. Trim d1 = Some d' \<and> shifted d e delta d'"
proof -
  let ?n = "min (length e) 800"
  have len: "length ds = 800" using wr by (simp add: written_def)
  have nth: "ds ! i = dgt (e ! i)" "e ! i \<le> 9" if "i < ?n" for i
    using that wr e(3) by (simp_all add: written_def)
  have "map digit_of (take ?n ds) = take 800 e"
    using nth len by (intro nth_equalityI) (simp_all)
  then obtain m where m: "m \<le> ?n" "trim_nd ds ?n = Some m" "map digit_of (take m ds) = strip0 (take 800 e)"
    using trim_nd_spec [of ?n ds] len nth by auto
  obtain x xs where ex: "e = x # xs" "x \<noteq> 0" using e by (cases e) auto
  have mpos: "0 < m" using m(3) strip0_head [OF ex(2), of "take 799 xs"] ex(1) by (cases m) auto
  let ?d = "d1\<lparr>nd := m, dp := (if m = 0 then 0 else dp d1)\<rparr>"
  have "Trim d1 = Some ?d" using m(2) f(1,2) by (simp add: Trim_def)
  moreover have "dec_ok ?d"
    using len m(1) nth mpos ex nth(1) [of 0] dgt_zero [of x] nth(2) [of 0]
    by (auto simp: dec_ok_def f)
  ultimately show ?thesis using mpos m(3) f(3-5)
    by (auto simp: shifted_def dec_digits_def f(1) lost_drop)
qed

lemma number_digits_le: "x \<in> set (number_digits_of w y) \<Longrightarrow> x \<le> 9"
  by (auto simp: number_digits_of_def)

lemma number_digits_hd:
  assumes "0 < w" and "10 ^ (w - 1) \<le> x" and "x < 10 ^ w"
  shows "hd (number_digits_of w x) \<noteq> 0"
proof -
  have "10 ^ w = 10 * (10 :: nat) ^ (w - 1)" using assms(1) by (cases w) simp_all
  then have "x div 10 ^ (w - 1) < 10" using assms(3) by (simp add: less_mult_imp_div_less)
  moreover have "1 \<le> x div 10 ^ (w - 1)" using assms(2) by (simp add: less_eq_div_iff_mult_less_eq)
  ultimately have "number_digits_of w x ! 0 \<noteq> 0" using assms(1) by (simp add: number_digits_nth)
  then show ?thesis using assms(1) by (metis hd_conv_nth length_0_conv length_number_digits not_gr0)
qed

text \<open>A left shift multiplies the digits by \<open>2 ^ k\<close>.\<close>

lemma LeftShift_ok:
  assumes d: "dec_ok d" and nz: "0 < nd d" and k: "0 < k" "k \<le> 60"
  obtains d' w where "LeftShift d k = Some d'" and "nd d \<le> w"
    and "shifted d (number_digits_of w (digits_nat (dec_digits d) * 2 ^ k)) (int w - int (nd d)) d'"
    and "10 ^ (w - 1) \<le> digits_nat (dec_digits d) * 2 ^ k" and "digits_nat (dec_digits d) * 2 ^ k < 10 ^ w"
proof -
  obtain delta s less where row: "rd LSHIFT_TAB k = Some (delta, s)" and ps: "PrefixIsLess (dd d) s (nd d) = Some less"
    and pos: "0 \<le> (if less then delta - 1 else delta)"
    and hi: "digits_nat (dec_digits d) * 2 ^ k < 10 ^ (nd d + nat (if less then delta - 1 else delta))"
    and lo: "10 ^ (nd d + nat (if less then delta - 1 else delta) - 1) \<le> digits_nat (dec_digits d) * 2 ^ k"
    by (rule lshift_delta [OF d nz k])
  define e where "e = nat (if less then delta - 1 else delta)"
  define P where "P = digits_nat (dec_digits d) * 2 ^ k"
  define W where "W = nd d + e"
  let ?E = "number_digits_of W P"
  have ie: "(if less then delta - 1 else delta) = int e" using pos by (simp add: e_def)
  have dd: "length (dd d) = 800" "nd d \<le> 800" "\<And>i. i < nd d \<Longrightarrow> is_digit (dd d ! i)"
    using d by (simp_all add: dec_ok_def)
  have PW: "P < 10 ^ W" "10 ^ (W - 1) \<le> P" using hi lo by (simp_all add: P_def W_def e_def)
  have w0: "written ?E W (dd d)" "\<not> lost ?E W" using dd by (simp_all add: written_def lost_def)
  have "\<exists>ds' n' tr'. ls_digits k (nd d) (dd d) (int (nd d + e)) 0 (trunc d) = Some (ds', int e, n', tr')
      \<and> written ?E e ds' \<and> tr' = (trunc d \<or> lost ?E e) \<and> P div 10 ^ (W - e) = unat n'"
    by (rule ls_digits_ok) (use w0 dd k in \<open>simp_all add: W_def P_def dec_digits_def\<close>)
  then obtain ds n tr where a: "ls_digits k (nd d) (dd d) (int (nd d + e)) 0 (trunc d) = Some (ds, int e, n, tr)"
    and b: "written ?E e ds" "tr = (trunc d \<or> lost ?E e)" "P div 10 ^ (W - e) = unat n" by blast
  obtain ds' tr' where c: "ls_extra ds (int e) n tr = Some (ds', tr')" "written ?E 0 ds'" "tr' = (trunc d \<or> lost ?E 0)"
    using ls_extra_ok [OF b(1,2) _ b(3) PW(2,1)] by (auto simp: W_def)
  let ?d1 = "d\<lparr>dd := ds', nd := (if int DECIMAL_MAX_DNUM \<le> int (nd d) + int e then DECIMAL_MAX_DNUM else nat (int (nd d) + int e)),
       dp := dp d + int e, trunc := tr'\<rparr>"
  have W: "0 < W" using nz by (simp add: W_def)
  have "\<exists>d'. Trim ?d1 = Some d' \<and> shifted d ?E (int e) d'"
    by (rule Trim_written [OF c(2)])
      (use W number_digits_hd [OF W PW(2,1)] number_digits_le c(3) in
        \<open>auto simp: W_def DECIMAL_MAX_DNUM_def simp flip: length_0_conv\<close>)
  then obtain d' where d': "Trim ?d1 = Some d'" "shifted d ?E (int e) d'" by blast
  have "LeftShift d k = Some d'"
    using a c(1) d'(1) by (simp add: LeftShift_def row ps ie Let_def split: if_splits)
  then show thesis
    by (rule that [of _ W]) (use d'(2) PW in \<open>simp_all add: P_def W_def\<close>)
qed

subsection \<open>Right shifts\<close>

text \<open>The number of the first \<open>r\<close> digits, with zeros once the digits have run out.\<close>

fun lead_num :: "nat list \<Rightarrow> nat \<Rightarrow> nat" where
  "lead_num ds 0 = 0"
| "lead_num ds (Suc r) = 10 * lead_num ds r + (if r < length ds then ds ! r else 0)"

lemma lead_num_take: "r \<le> length ds \<Longrightarrow> lead_num ds r = digits_nat (take r ds)"
  by (induction r) (simp_all add: take_Suc_conv_app_nth)

lemma lead_num_pad: "lead_num ds (length ds + j) = digits_nat ds * 10 ^ j"
  by (induction j) (simp_all add: lead_num_take)

lemma lead_num_ge: "length ds \<le> r \<Longrightarrow> lead_num ds r = digits_nat ds * 10 ^ (r - length ds)"
  using lead_num_pad [of ds "r - length ds"] by simp

lemma shr_zero: "drop_bit k n = 0 \<longleftrightarrow> unat (n :: u64) < 2 ^ k"
proof -
  have "drop_bit k n = 0 \<longleftrightarrow> unat n div 2 ^ k = 0" by (simp add: unat_eq_0 [symmetric] unat_shr)
  also have "\<dots> \<longleftrightarrow> unat n < 2 ^ k" by (simp add: div_eq_0_iff)
  finally show ?thesis .
qed

lemma unat_times_ten: "unat n * 10 < 2 ^ 64 \<Longrightarrow> unat (n * 10 :: u64) = unat n * 10"
  by (simp add: unat_word_ariths)

lemma unat_next_digit:
  assumes "is_digit c" and "unat n < 2 ^ 60"
  shows "unat (n * 10 + ucast c - 0x30 :: u64) = 10 * unat n + digit_of c"
proof -
  have c: "48 \<le> unat c" "unat c \<le> 57" using assms(1) by (simp_all add: digit_unat)
  have a: "unat (n * 10 + ucast c :: u64) = unat n * 10 + unat c"
    using assms(2) c by (subst unat_plus_lt) (simp_all add: unat_times_ten)
  show ?thesis using c by (subst unat_minus_le) (simp_all add: a word_le_nat_alt digit_of_def)
qed

lemma rs_fill_ok:
  assumes "0 < unat n" and "unat n < 10 * 2 ^ k" and "k \<le> 60"
  shows "\<exists>j n'. rs_fill k n r = Some (r + j, n') \<and> unat n' = unat n * 10 ^ j \<and> 2 ^ k \<le> unat n' \<and> unat n' < 10 * 2 ^ k
     \<and> (2 ^ k \<le> unat n \<longrightarrow> j = 0)"
  using assms
proof (induction "2 ^ k - unat n" arbitrary: n r rule: less_induct)
  case less
  have p60: "(2 :: nat) ^ k \<le> 2 ^ 60" using less.prems(3) by (intro power_increasing) simp_all
  show ?case
  proof (cases "unat n < 2 ^ k")
    case True
    have m: "unat (n * 10) = unat n * 10" using True p60 by (intro unat_times_ten) simp
    have "\<exists>j n'. rs_fill k (n * 10) (r + 1) = Some (r + 1 + j, n') \<and> unat n' = unat (n * 10) * 10 ^ j
       \<and> 2 ^ k \<le> unat n' \<and> unat n' < 10 * 2 ^ k \<and> (2 ^ k \<le> unat (n * 10) \<longrightarrow> j = 0)"
      by (rule less.hyps) (use less.prems True in \<open>simp_all add: m\<close>)
    then obtain j n' where "rs_fill k (n * 10) (r + 1) = Some (r + 1 + j, n')" "unat n' = unat (n * 10) * 10 ^ j"
      "2 ^ k \<le> unat n'" "unat n' < 10 * 2 ^ k" by blast
    then show ?thesis using True
      by (intro exI [of _ "Suc j"] exI [of _ n']) (simp add: rs_fill.simps [of k n] shr_zero m)
  next
    case False
    then show ?thesis using less.prems by (intro exI [of _ 0] exI [of _ n]) (simp add: rs_fill.simps shr_zero)
  qed
qed

lemma rs_pick_ok:
  assumes d: "dec_ok d" and k: "k \<le> 60" and r: "r \<le> nd d" and n: "unat n = lead_num (dec_digits d) r"
    and lt: "unat n < 10 * 2 ^ k" and nz: "0 < nd d" and z: "r = 0 \<Longrightarrow> unat n = 0"
  shows "\<exists>r' n'. rs_pick d k r n = Some (Some (r', n')) \<and> unat n' = lead_num (dec_digits d) r' \<and> r \<le> r' \<and> 0 < r'
     \<and> 2 ^ k \<le> unat n' \<and> unat n' < 10 * 2 ^ k \<and> (r < r' \<longrightarrow> unat n < 2 ^ k)"
  using r n lt z
proof (induction "nd d - r" arbitrary: r n)
  case 0
  then have r: "r = nd d" by simp
  have len: "length (dec_digits d) = nd d" by (rule length_dec_digits [OF d])
  have "0 < unat n"
  proof -
    have "dec_digits d \<noteq> []" using len nz by auto
    moreover have "hd (dec_digits d) \<noteq> 0" by (rule dec_hd [OF d nz])
    ultimately have "10 ^ (nd d - 1) \<le> digits_nat (dec_digits d)" using digits_nat_head [of "dec_digits d"] len by simp
    then show ?thesis using 0 r len by (simp add: lead_num_take) (metis not_gr0 power_eq_0_iff le_zero_eq zero_neq_numeral)
  qed
  then obtain j n' where f: "rs_fill k n r = Some (r + j, n')" "unat n' = unat n * 10 ^ j" "2 ^ k \<le> unat n'" "unat n' < 10 * 2 ^ k"
      "2 ^ k \<le> unat n \<longrightarrow> j = 0"
    using rs_fill_ok [of n k r] 0 k by blast
  have "unat n' = lead_num (dec_digits d) (r + j)"
    using f(2) 0(3) lead_num_pad [of "dec_digits d" j] len by (simp add: r lead_num_take)
  moreover have "rs_pick d k r n = Some (Some (r + j, n'))"
  proof (cases "unat n < 2 ^ k")
    case True
    then show ?thesis using f(1) \<open>0 < unat n\<close> r by (simp add: rs_pick.simps shr_zero) (metis unsigned_0 less_irrefl)
  next
    case False
    then have "j = 0" using f(5) by simp
    then have "n' = n" using f(2) by (simp add: word_unat_eq_iff)
    then show ?thesis using False \<open>j = 0\<close> by (simp add: rs_pick.simps shr_zero)
  qed
  ultimately show ?case using f nz r
    by (intro exI [of _ "r + j"] exI [of _ n']) (auto simp: not_le)
next
  case (Suc x)
  then have rl: "r < nd d" and x: "x = nd d - Suc r" by simp_all
  have p60: "(2 :: nat) ^ k \<le> 2 ^ 60" using k by (intro power_increasing) simp_all
  have dd: "length (dd d) = 800" "nd d \<le> 800" "is_digit (dd d ! r)" using d rl by (simp_all add: dec_ok_def)
  show ?case
  proof (cases "unat n < 2 ^ k")
    case False
    then have "r \<noteq> 0" using Suc.prems(4) by (metis not_gr0 zero_less_numeral zero_less_power)
    then show ?thesis using False Suc.prems by (intro exI [of _ r] exI [of _ n]) (simp add: rs_pick.simps shr_zero)
  next
    case True
    let ?n = "n * 10 + ucast (dd d ! r) - 0x30 :: u64"
    have u: "unat ?n = 10 * unat n + digit_of (dd d ! r)" using True p60 dd(3) by (intro unat_next_digit) simp_all
    have "digit_of (dd d ! r) \<le> 9" by (rule digit_of_le [OF dd(3)])
    then have "unat ?n < 10 * 2 ^ k" using u True by linarith
    moreover have "unat ?n = lead_num (dec_digits d) (Suc r)"
      using u Suc.prems(2) rl by (simp add: length_dec_digits [OF d] dec_digits_nth [OF d])
    ultimately obtain r' n' where "rs_pick d k (Suc r) ?n = Some (Some (r', n'))" "unat n' = lead_num (dec_digits d) r'"
      "Suc r \<le> r'" "2 ^ k \<le> unat n'" "unat n' < 10 * 2 ^ k"
      using Suc.hyps(1) [of "Suc r" ?n] x rl by auto
    then show ?thesis using True rl dd
      by (intro exI [of _ r'] exI [of _ n']) (simp add: rs_pick.simps [of d k r] shr_zero rd_def)
  qed
qed

lemma low_bits: "n AND (push_bit k 1 - 1) = n AND mask k" for n :: u64
  by (simp add: mask_eq_decr_exp push_bit_eq_mult)

lemma shift_digit:
  assumes "unat n < 10 * 2 ^ k"
  shows "ucast (drop_bit k n :: u64) + 0x30 = dgt (unat n div 2 ^ k)" and "unat n div 2 ^ k \<le> 9"
proof -
  show "unat n div 2 ^ k \<le> 9" using assms by (simp add: div_less_iff_less_mult less_Suc_eq_le [symmetric])
  have "ucast (drop_bit k n) = (word_of_nat (unat (drop_bit k n)) :: u8)"
    by (metis of_nat_unat)
  then show "ucast (drop_bit k n :: u64) + 0x30 = dgt (unat n div 2 ^ k)"
    by (simp add: dgt_def unat_shr)
qed

text \<open>A quotient digit put down and the next digit taken in.\<close>

lemma quotient_step:
  "lead_num ds r = 10 * digits_nat e * 2 ^ k + n \<Longrightarrow>
    lead_num ds (Suc r) = 10 * digits_nat (e @ [n div 2 ^ k]) * 2 ^ k + (10 * (n mod 2 ^ k) + (if r < length ds then ds ! r else 0))"
proof -
  assume *: "lead_num ds r = 10 * digits_nat e * 2 ^ k + n"
  have "n = n div 2 ^ k * 2 ^ k + n mod 2 ^ k" by (rule div_mult_mod_eq [symmetric])
  then have "10 * n = 10 * (n div 2 ^ k) * 2 ^ k + 10 * (n mod 2 ^ k)" by linarith
  then show ?thesis by (simp add: * algebra_simps)
qed

lemma rs_digits_ok:
  assumes "length b = 800" and "e \<le> 800" and "length ds = e"
    and "\<And>i. r \<le> i \<Longrightarrow> i < e \<Longrightarrow> is_digit (b ! i) \<and> digit_of (b ! i) = ds ! i"
    and "length q < r" and "\<And>p. p < length q \<Longrightarrow> b ! p = dgt (q ! p)" and "\<And>x. x \<in> set q \<Longrightarrow> x \<le> 9"
    and "lead_num ds r = 10 * digits_nat q * 2 ^ k + unat n" and "unat n < 10 * 2 ^ k" and "k \<le> 60"
  shows "\<exists>b' t n'. rs_digits b e k r (length q) n = Some (b', length (q @ t), n') \<and> length b' = 800 \<and> length t = e - r
     \<and> (\<forall>p < length (q @ t). b' ! p = dgt ((q @ t) ! p)) \<and> (\<forall>x \<in> set t. x \<le> 9)
     \<and> lead_num ds (r + length t) = 10 * digits_nat (q @ t) * 2 ^ k + unat n' \<and> unat n' < 10 * 2 ^ k
     \<and> (t = [] \<longrightarrow> n' = n) \<and> (t \<noteq> [] \<longrightarrow> hd t = unat n div 2 ^ k)"
  using assms
proof (induction "e - r" arbitrary: b r q n)
  case 0
  then show ?case by (intro exI [of _ b] exI [of _ "[]"] exI [of _ n]) (simp add: rs_digits.simps)
next
  case (Suc x)
  then have re: "r < e" and x: "x = e - Suc r" by simp_all
  have p60: "(2 :: nat) ^ k \<le> 2 ^ 60" using Suc.prems(10) by (intro power_increasing) simp_all
  let ?g = "unat n div 2 ^ k" and ?b = "b[length q := dgt (unat n div 2 ^ k)]"
  let ?n = "(n AND (push_bit k 1 - 1)) * 10 + ucast (b ! r) - 0x30 :: u64"
  have dg: "is_digit (b ! r)" "digit_of (b ! r) = ds ! r" using Suc.prems(4) [of r] re by simp_all
  have g: "?g \<le> 9" by (rule shift_digit [OF Suc.prems(9)])
  have lm: "unat (n AND mask k) = unat n mod 2 ^ k" by (rule unat_low_mask)
  have md: "unat n mod 2 ^ k < 2 ^ k" by simp
  have u: "unat ?n = 10 * (unat n mod 2 ^ k) + ds ! r"
    unfolding low_bits using dg lm less_le_trans [OF md p60] by (subst unat_next_digit) simp_all
  have lt: "unat ?n < 10 * 2 ^ k" using u md dg digit_of_le [OF dg(1)] by linarith
  have len: "length (q @ [?g]) = Suc (length q)" by simp
  have "\<exists>b' t n'. rs_digits ?b e k (Suc r) (length (q @ [?g])) ?n = Some (b', length ((q @ [?g]) @ t), n') \<and> length b' = 800
     \<and> length t = e - Suc r
     \<and> (\<forall>p < length ((q @ [?g]) @ t). b' ! p = dgt (((q @ [?g]) @ t) ! p)) \<and> (\<forall>x \<in> set t. x \<le> 9)
     \<and> lead_num ds (Suc r + length t) = 10 * digits_nat ((q @ [?g]) @ t) * 2 ^ k + unat n' \<and> unat n' < 10 * 2 ^ k
     \<and> (t = [] \<longrightarrow> n' = ?n) \<and> (t \<noteq> [] \<longrightarrow> hd t = unat ?n div 2 ^ k)"
  proof (rule Suc.hyps(1) [OF x])
    show "lead_num ds (Suc r) = 10 * digits_nat (q @ [?g]) * 2 ^ k + unat ?n"
      using quotient_step [OF Suc.prems(8)] u re Suc.prems(3) by simp
    show "is_digit (?b ! i) \<and> digit_of (?b ! i) = ds ! i" if "Suc r \<le> i" "i < e" for i
      using Suc.prems(4) [of i] Suc.prems(5) that by simp
    show "?b ! p = dgt ((q @ [?g]) ! p)" if "p < length (q @ [?g])" for p
      using Suc.prems(1,2,5,6) re that by (auto simp: nth_list_update nth_append less_Suc_eq)
    show "x \<le> 9" if "x \<in> set (q @ [?g])" for x using that g Suc.prems(7) by auto
  qed (use Suc.prems lt in simp_all)
  then obtain b' t n' where rec: "rs_digits ?b e k (Suc r) (length (q @ [?g])) ?n = Some (b', length ((q @ [?g]) @ t), n')"
    and rest: "length b' = 800" "length t = e - Suc r"
     "\<forall>p < length ((q @ [?g]) @ t). b' ! p = dgt (((q @ [?g]) @ t) ! p)" "\<forall>x \<in> set t. x \<le> 9"
     "lead_num ds (Suc r + length t) = 10 * digits_nat ((q @ [?g]) @ t) * 2 ^ k + unat n'" "unat n' < 10 * 2 ^ k" by blast
  have w: "wr b (length q) [ucast (drop_bit k n) + 0x30] = Some ?b"
    using Suc.prems(1,2,5) re by (simp add: wr_one shift_digit(1) [OF Suc.prems(9)])
  have "b ! r = ?b ! r" using Suc.prems(5) by simp
  then have "rs_digits b e k r (length q) n = Some (b', length ((q @ [?g]) @ t), n')"
    using rec w re Suc.prems(1,2) by (simp add: rs_digits.simps [of b e k r] rd_def)
  then show ?case using rest re g
    by (intro exI [of _ b'] exI [of _ "?g # t"] exI [of _ n']) (simp add: Suc_diff_Suc)
qed

lemma rs_extra_ok:
  assumes "a \<le> k" and "2 ^ a dvd unat n" and "written q 0 b" and "tr = (tr0 \<or> lost q 0)" and "\<And>x. x \<in> set q \<Longrightarrow> x \<le> 9"
    and "length ds \<le> r" and "lead_num ds r = 10 * digits_nat q * 2 ^ k + unat n" and "unat n < 10 * 2 ^ k" and "k \<le> 60"
  shows "\<exists>b' t. rs_extra b k (min (length q) 800) n tr = Some (b', min (length (q @ t)) 800, (tr0 \<or> lost (q @ t) 0))
     \<and> written (q @ t) 0 b' \<and> (\<forall>x \<in> set t. x \<le> 9)
     \<and> lead_num ds (r + length t) = 10 * digits_nat (q @ t) * 2 ^ k \<and> (t \<noteq> [] \<longrightarrow> hd t = unat n div 2 ^ k) \<and> (t = [] \<longrightarrow> n = 0)"
  using assms
proof (induction "k + 1 - a" arbitrary: a b r q n tr)
  case 0
  then show ?case by simp
next
  case (Suc x)
  show ?case
  proof (cases "n = 0")
    case True
    then show ?thesis using Suc.prems
      by (intro exI [of _ b] exI [of _ "[]"]) (simp add: rs_extra.simps)
  next
    case False
    have p60: "(2 :: nat) ^ k \<le> 2 ^ 60" using Suc.prems(9) by (intro power_increasing) simp_all
    let ?g = "unat n div 2 ^ k" and ?m = "n AND (push_bit k 1 - 1) :: u64"
    have g: "?g \<le> 9" by (rule shift_digit [OF Suc.prems(8)])
    have m: "unat ?m = unat n mod 2 ^ k" by (simp only: low_bits unat_low_mask)
    have md: "unat n mod 2 ^ k < 2 ^ k" by simp
    have u: "unat (?m * 10) = 10 * (unat n mod 2 ^ k)"
      using m less_le_trans [OF md p60] by (subst unat_times_ten) simp_all
    have lt: "unat (?m * 10) < 10 * 2 ^ k" using u md by linarith
    have lead: "lead_num ds (Suc r) = 10 * digits_nat (q @ [?g]) * 2 ^ k + unat (?m * 10)"
      using quotient_step [OF Suc.prems(7)] u Suc.prems(6) by simp
    have q9: "y \<le> 9" if "y \<in> set (q @ [?g])" for y using that g Suc.prems(5) by auto
    let ?b = "if length q < 800 then b[length q := dgt ?g] else b"
    let ?tr = "if length q < 800 then tr else tr \<or> ?g \<noteq> 0"
    have w1: "written (q @ [?g]) 0 ?b"
      using Suc.prems(3) by (auto simp: written_def nth_append nth_list_update less_Suc_eq)
    have l1: "lost (q @ [?g]) 0 \<longleftrightarrow> lost q 0 \<or> (800 \<le> length q \<and> ?g \<noteq> 0)"
      by (auto simp: lost_drop drop_Cons' split: if_splits)
    then have t1: "?tr = (tr0 \<or> lost (q @ [?g]) 0)" using Suc.prems(4) by auto
    have lenb: "length b = 800" using Suc.prems(3) by (simp add: written_def)
    have dgz: "(0 < drop_bit k n) = (?g \<noteq> 0)"
      by (metis unat_gt_0 unat_shr word_gt_0 not_gr0)
    have run: "rs_extra b k (min (length q) 800) n tr = rs_extra ?b k (min (length (q @ [?g])) 800) (?m * 10) ?tr"
      using False lenb
      by (subst rs_extra.simps)
        (simp add: Let_def DECIMAL_MAX_DNUM_def wr_one shift_digit(1) [OF Suc.prems(8)] dgz min_def)
    have fin: "\<exists>b' t. rs_extra ?b k (min (length (q @ [?g])) 800) (?m * 10) ?tr
        = Some (b', min (length ((q @ [?g]) @ t)) 800, (tr0 \<or> lost ((q @ [?g]) @ t) 0))
        \<and> written ((q @ [?g]) @ t) 0 b' \<and> (\<forall>x \<in> set t. x \<le> 9)
        \<and> lead_num ds (Suc r + length t) = 10 * digits_nat ((q @ [?g]) @ t) * 2 ^ k"
    proof (cases "a = k")
      case True
      then have "unat n mod 2 ^ k = 0" using Suc.prems(2) by simp
      then have z: "?m * 10 = 0" using u by (simp add: unat_eq_0)
      show ?thesis unfolding z
        by (rule exI [of _ ?b], rule exI [of _ "[]"]) (use w1 t1 lead z in \<open>simp add: rs_extra.simps\<close>)
    next
      case False
      have "2 ^ a dvd unat n mod 2 ^ k"
        using Suc.prems(1,2) by (simp add: dvd_mod le_imp_power_dvd)
      then have "2 * 2 ^ a dvd 10 * (unat n mod 2 ^ k)" by (intro mult_dvd_mono) simp_all
      then have dv: "2 ^ Suc a dvd unat (?m * 10)" using u by simp
      have "x = k + 1 - Suc a" using Suc.hyps(2) by simp
      moreover have "Suc a \<le> k" "length ds \<le> Suc r" using False Suc.prems(1,6) by simp_all
      ultimately show ?thesis using Suc.hyps(1) [OF _ _ dv w1 t1 q9 _ lead lt Suc.prems(9)] by blast
    qed
    then obtain b' t where "rs_extra ?b k (min (length (q @ [?g])) 800) (?m * 10) ?tr
        = Some (b', min (length ((q @ [?g]) @ t)) 800, (tr0 \<or> lost ((q @ [?g]) @ t) 0))"
      and "written ((q @ [?g]) @ t) 0 b'" "\<forall>x \<in> set t. x \<le> 9"
      "lead_num ds (Suc r + length t) = 10 * digits_nat ((q @ [?g]) @ t) * 2 ^ k" by blast
    then show ?thesis using run g
      by (intro exI [of _ b'] exI [of _ "?g # t"]) simp
  qed
qed

text \<open>
  A right shift divides by \<open>2 ^ k\<close>: with \<open>r\<close> digits picked up first, the digits \<open>q\<close> it produces satisfy
  \<open>q * 10 * 2 ^ k = digits * 10 ^ (r + length q - nd)\<close>.
\<close>

lemma RightShift_ok:
  assumes d: "dec_ok d" and nz: "0 < nd d" and k: "0 < k" "k \<le> 60"
  obtains d' q r where "RightShift d k = Some d'" and "shifted d q (1 - int r) d'" and "0 < r" and "nd d \<le> r + length q"
    and "q \<noteq> []" and "hd q \<noteq> 0" and "\<And>x. x \<in> set q \<Longrightarrow> x \<le> 9"
    and "digits_nat q * 10 * 2 ^ k = digits_nat (dec_digits d) * 10 ^ (r + length q - nd d)"
    and "2 ^ k \<le> lead_num (dec_digits d) r" and "lead_num (dec_digits d) r < 10 * 2 ^ k" and "hd q = lead_num (dec_digits d) r div 2 ^ k"
proof -
  let ?D = "dec_digits d"
  have len: "length ?D = nd d" by (rule length_dec_digits [OF d])
  have dd: "length (dd d) = 800" "nd d \<le> 800" "\<And>i. i < nd d \<Longrightarrow> is_digit (dd d ! i)"
    using d by (simp_all add: dec_ok_def)
  obtain r n where pick: "rs_pick d k 0 0 = Some (Some (r, n))" and n: "unat n = lead_num ?D r" "0 < r" "2 ^ k \<le> unat n" "unat n < 10 * 2 ^ k"
    using rs_pick_ok [OF d k(2), of 0 0] nz by auto
  have "\<exists>b' t n'. rs_digits (dd d) (nd d) k r (length ([] :: nat list)) n = Some (b', length ([] @ t), n') \<and> length b' = 800 \<and> length t = nd d - r
     \<and> (\<forall>p < length ([] @ t). b' ! p = dgt (([] @ t) ! p)) \<and> (\<forall>x \<in> set t. x \<le> 9)
     \<and> lead_num ?D (r + length t) = 10 * digits_nat ([] @ t) * 2 ^ k + unat n' \<and> unat n' < 10 * 2 ^ k
     \<and> (t = [] \<longrightarrow> n' = n) \<and> (t \<noteq> [] \<longrightarrow> hd t = unat n div 2 ^ k)"
    by (rule rs_digits_ok [where q = "[]"]) (use dd len n k dec_digits_nth [OF d] in simp_all)
  then obtain b1 t n1 where a: "rs_digits (dd d) (nd d) k r 0 n = Some (b1, length t, n1)" "length b1 = 800" "length t = nd d - r"
      "\<And>p. p < length t \<Longrightarrow> b1 ! p = dgt (t ! p)" "\<forall>x \<in> set t. x \<le> 9" "lead_num ?D (r + length t) = 10 * digits_nat t * 2 ^ k + unat n1"
      "unat n1 < 10 * 2 ^ k" "t = [] \<longrightarrow> n1 = n" "t \<noteq> [] \<longrightarrow> hd t = unat n div 2 ^ k"
    unfolding append_Nil list.size by blast
  have t800: "length t \<le> 800" using a(3) dd(2) by simp
  have w: "written t 0 b1" "\<not> lost t 0" using a(2,4) t800 by (simp_all add: written_def lost_def)
  have "\<exists>b' s. rs_extra b1 k (min (length t) 800) n1 (trunc d) = Some (b', min (length (t @ s)) 800, (trunc d \<or> lost (t @ s) 0))
     \<and> written (t @ s) 0 b' \<and> (\<forall>x \<in> set s. x \<le> 9)
     \<and> lead_num ?D (r + length t + length s) = 10 * digits_nat (t @ s) * 2 ^ k \<and> (s \<noteq> [] \<longrightarrow> hd s = unat n1 div 2 ^ k) \<and> (s = [] \<longrightarrow> n1 = 0)"
    by (rule rs_extra_ok [where a = 0]) (use w a len k in simp_all)
  then obtain b2 s where e: "rs_extra b1 k (length t) n1 (trunc d) = Some (b2, min (length (t @ s)) 800, (trunc d \<or> lost (t @ s) 0))"
     "written (t @ s) 0 b2" "\<forall>x \<in> set s. x \<le> 9" "lead_num ?D (r + length t + length s) = 10 * digits_nat (t @ s) * 2 ^ k"
     "s \<noteq> [] \<longrightarrow> hd s = unat n1 div 2 ^ k" "s = [] \<longrightarrow> n1 = 0"
    unfolding min_absorb1 [OF t800] by blast
  define q where "q = t @ s"
  have q0: "q \<noteq> []" using a(8) e(6) n(3) by (auto simp: q_def)
  have hq: "hd q = unat n div 2 ^ k" using a(8,9) e(5) q0 by (cases t) (auto simp: q_def)
  have "1 \<le> unat n div 2 ^ k" using n(3) by (simp add: less_eq_div_iff_mult_less_eq)
  then have hnz: "hd q \<noteq> 0" using hq by simp
  have q9: "x \<le> 9" if "x \<in> set q" for x using that a(5) e(3) by (auto simp: q_def)
  let ?d1 = "d\<lparr>dp := dp d - (int r - 1), dd := b2, nd := min (length (t @ s)) 800, trunc := (trunc d \<or> lost (t @ s) 0)\<rparr>"
  have "\<exists>d'. Trim ?d1 = Some d' \<and> shifted d q (1 - int r) d'"
    by (rule Trim_written [OF e(2) [folded q_def]]) (use q0 hnz q9 in \<open>simp_all add: q_def\<close>)
  then obtain d' where d': "Trim ?d1 = Some d'" "shifted d q (1 - int r) d'" by blast
  have "RightShift d k = Some d'"
    using pick a(1) e(1) d'(1) by (simp add: RightShift_def Let_def)
  moreover have nr: "nd d \<le> r + length q" using a(3) by (simp add: q_def)
  moreover have "digits_nat q * 10 * 2 ^ k = digits_nat ?D * 10 ^ (r + length q - nd d)"
    using e(4) nr lead_num_ge [of ?D "r + length q"] by (simp add: q_def len add.assoc)
  ultimately show thesis
    using that [of d' q r] d'(2) n q0 hnz q9 hq by simp
qed

subsection \<open>Shifts by any amount\<close>

lemma shifted_trans_fields: "shifted d e k d' \<Longrightarrow> dec_ok d' \<and> 0 < nd d' \<and> dneg d' = dneg d"
  by (simp add: shifted_def)

lemma shift_left_total:
  "dec_ok d \<Longrightarrow> 0 < nd d \<Longrightarrow> \<exists>d'. shift_left d k = Some d' \<and> dec_ok d' \<and> 0 < nd d' \<and> dneg d' = dneg d \<and> dp d \<le> dp d'"
proof (induction k arbitrary: d rule: less_induct)
  case (less k)
  show ?case
  proof (cases "60 < k")
    case True
    obtain d1 w where l: "LeftShift d 60 = Some d1" "nd d \<le> w"
      "shifted d (number_digits_of w (digits_nat (dec_digits d) * 2 ^ 60)) (int w - int (nd d)) d1"
      by (rule LeftShift_ok [OF less.prems, of 60]) simp_all
    then have "\<exists>d'. shift_left d1 (k - 60) = Some d' \<and> dec_ok d' \<and> 0 < nd d' \<and> dneg d' = dneg d1 \<and> dp d1 \<le> dp d'"
      using True by (intro less.IH) (simp_all add: shifted_def)
    then show ?thesis using True l by (auto simp: shift_left.simps [of d k] MAX_SHIFT_def shifted_def)
  next
    case False
    show ?thesis
    proof (cases "k = 0")
      case True
      then show ?thesis using less.prems by (simp add: shift_left.simps)
    next
      case nz: False
      obtain d1 w where "LeftShift d k = Some d1" "nd d \<le> w"
        "shifted d (number_digits_of w (digits_nat (dec_digits d) * 2 ^ k)) (int w - int (nd d)) d1"
        by (rule LeftShift_ok [OF less.prems, of k]) (use nz False in simp_all)
      then show ?thesis using nz False by (simp add: shift_left.simps [of d k] MAX_SHIFT_def shifted_def)
    qed
  qed
qed

lemma shift_right_total:
  "dec_ok d \<Longrightarrow> 0 < nd d \<Longrightarrow> \<exists>d'. shift_right d k = Some d' \<and> dec_ok d' \<and> 0 < nd d' \<and> dneg d' = dneg d"
proof (induction k arbitrary: d rule: less_induct)
  case (less k)
  show ?case
  proof (cases "60 < k")
    case True
    obtain d1 q r where l: "RightShift d 60 = Some d1" "shifted d q (1 - int r) d1"
      by (rule RightShift_ok [OF less.prems, of 60]) simp_all
    then have "\<exists>d'. shift_right d1 (k - 60) = Some d' \<and> dec_ok d' \<and> 0 < nd d' \<and> dneg d' = dneg d1"
      using True by (intro less.IH) (simp_all add: shifted_def)
    then show ?thesis using True l by (auto simp: shift_right.simps [of d k] MAX_SHIFT_def shifted_def)
  next
    case False
    show ?thesis
    proof (cases "k = 0")
      case True
      then show ?thesis using less.prems by (simp add: shift_right.simps)
    next
      case nz: False
      obtain d1 q r where "RightShift d k = Some d1" "shifted d q (1 - int r) d1"
        by (rule RightShift_ok [OF less.prems, of k]) (use nz False in simp_all)
      then show ?thesis using nz False by (simp add: shift_right.simps [of d k] MAX_SHIFT_def shifted_def)
    qed
  qed
qed

subsection \<open>The scaling loops end\<close>

definition scale_amount :: "int \<Rightarrow> nat \<Rightarrow> bool" where
  "scale_amount i n \<longleftrightarrow> (if 9 \<le> i then Some 27 else rd kPowTab (nat i)) = Some (int n)"

lemma scale_amount_ex:
  assumes "0 \<le> i"
  obtains n where "scale_amount i n" and "0 < n" and "n \<le> 27" and "i = 0 \<Longrightarrow> n = 1" and "0 < i \<Longrightarrow> 3 \<le> n"
    and "0 < i \<Longrightarrow> 2 ^ n \<le> (10 :: nat) ^ nat i" and "n \<le> 5 \<Longrightarrow> n \<le> 3"
proof (cases "9 \<le> i")
  case True
  then have "(10 :: nat) ^ 9 \<le> 10 ^ nat i" by (intro power_increasing) simp_all
  then show ?thesis using True by (intro that [of 27]) (simp_all add: scale_amount_def)
next
  case False
  then consider "i = 0" | "i = 1" | "i = 2" | "i = 3" | "i = 4" | "i = 5" | "i = 6" | "i = 7" | "i = 8"
    using assms by linarith
  then show ?thesis
  proof cases
    case 1 then show ?thesis by (intro that [of 1]) (simp_all add: scale_amount_def rd_def kPowTab_def)
  next
    case 2 then show ?thesis by (intro that [of 3]) (simp_all add: scale_amount_def rd_def kPowTab_def)
  next
    case 3 then show ?thesis by (intro that [of 6]) (simp_all add: scale_amount_def rd_def kPowTab_def)
  next
    case 4 then show ?thesis by (intro that [of 9]) (simp_all add: scale_amount_def rd_def kPowTab_def)
  next
    case 5 then show ?thesis by (intro that [of 13]) (simp_all add: scale_amount_def rd_def kPowTab_def)
  next
    case 6 then show ?thesis by (intro that [of 16]) (simp_all add: scale_amount_def rd_def kPowTab_def)
  next
    case 7 then show ?thesis by (intro that [of 19]) (simp_all add: scale_amount_def rd_def kPowTab_def)
  next
    case 8 then show ?thesis by (intro that [of 23]) (simp_all add: scale_amount_def rd_def kPowTab_def)
  next
    case 9 then show ?thesis by (intro that [of 26]) (simp_all add: scale_amount_def rd_def kPowTab_def)
  qed
qed

lemma hd_strip0: "q \<noteq> [] \<Longrightarrow> hd q \<noteq> 0 \<Longrightarrow> strip0 (take 800 q) \<noteq> [] \<and> hd (strip0 (take 800 q)) = hd q"
  using strip0_head [of "hd q" "take 799 (tl q)"] by (cases q) auto

lemma dec_hd_le: "dec_ok d \<Longrightarrow> 0 < nd d \<Longrightarrow> hd (dec_digits d) \<le> 9"
  using length_dec_digits [of d] by (intro dec_digits_le) (auto intro!: hd_in_set)

lemma measure_less: "a < b \<Longrightarrow> 2 * a + (if p then 1 else 0) < 2 * b + (if q then 1 else (0 :: nat))"
  by auto

lemma scale_down_total:
  assumes "dec_ok d" and "0 < nd d"
  shows "\<exists>d' e'. scale_down d e = Some (d', e') \<and> dec_ok d' \<and> 0 < nd d' \<and> dneg d' = dneg d \<and> dp d' \<le> 0"
  using assms
proof (induction "2 * nat (dp d) + (if 8 \<le> hd (dec_digits d) then 1 else 0)" arbitrary: d e rule: less_induct)
  case less
  show ?case
  proof (cases "0 < dp d")
    case False
    then show ?thesis using less.prems by (simp add: scale_down.simps)
  next
    case True
    obtain n where n: "scale_amount (dp d) n" "0 < n" "n \<le> 27" "3 \<le> n" "n \<le> 5 \<Longrightarrow> n \<le> 3"
      using scale_amount_ex [of "dp d"] True by (metis less_imp_le)
    obtain d1 q r where rs: "RightShift d n = Some d1" and sh: "shifted d q (1 - int r) d1" and r: "0 < r" and q: "q \<noteq> []" "hd q \<noteq> 0"
      and lead: "2 ^ n \<le> lead_num (dec_digits d) r" "hd q = lead_num (dec_digits d) r div 2 ^ n"
      by (rule RightShift_ok [OF less.prems, of n]) (use n in auto)
    have h: "hd (dec_digits d1) = hd q" using sh hd_strip0 [OF q] by (simp add: shifted_def)
    have dp1: "dp d1 = dp d + 1 - int r" using sh by (simp add: shifted_def)
    have m: "2 * nat (dp d1) + (if 8 \<le> hd (dec_digits d1) then 1 else 0) < 2 * nat (dp d) + (if 8 \<le> hd (dec_digits d) then 1 else 0)"
    proof (cases "r = 1")
      case False
      then have "nat (dp d1) < nat (dp d)" using dp1 r True by simp
      then show ?thesis by (rule measure_less)
    next
      case one: True
      have "dec_digits d \<noteq> []" using less.prems length_dec_digits [of d] by auto
      then have l: "lead_num (dec_digits d) r = hd (dec_digits d)" using one by (simp add: hd_conv_nth)
      then have le: "2 ^ n \<le> hd (dec_digits d)" "hd (dec_digits d) \<le> 9" using lead dec_hd_le [OF less.prems] by simp_all
      have "n = 3"
      proof (rule ccontr)
        assume "n \<noteq> 3"
        then have "4 \<le> n" using n(4) by simp
        then have "(2 :: nat) ^ 4 \<le> 2 ^ n" by (intro power_increasing) simp_all
        then show False using le by simp
      qed
      then have "hd q \<le> 1" using lead(2) l le by simp
      then show ?thesis using h dp1 one le \<open>n = 3\<close> by simp
    qed
    have "\<exists>d' e'. scale_down d1 (e + int n) = Some (d', e') \<and> dec_ok d' \<and> 0 < nd d' \<and> dneg d' = dneg d1 \<and> dp d' \<le> 0"
      by (rule less.hyps [OF m]) (use sh in \<open>simp_all add: shifted_def\<close>)
    moreover have "DecimalShift d (- int n) = Some d1"
      using rs n(2,3) less.prems(2) by (simp add: DecimalShift_def shift_right.simps MAX_SHIFT_def)
    ultimately show ?thesis using True n(1) sh
      by (simp add: scale_down.simps [of d] scale_amount_def shifted_def)
  qed
qed

lemma scale_up_total:
  assumes "dec_ok d" and "0 < nd d" and "dp d \<le> 0"
  shows "\<exists>d' e'. scale_up d e = Some (d', e') \<and> dec_ok d' \<and> 0 < nd d' \<and> dneg d' = dneg d \<and> dp d' = 0 \<and> 5 \<le> hd (dec_digits d')"
  using assms
proof (induction "10 * nat (- dp d) + (9 - hd (dec_digits d))" arbitrary: d e rule: less_induct)
  case less
  let ?D = "dec_digits d"
  have len: "length ?D = nd d" by (rule length_dec_digits [OF less.prems(1)])
  have dd: "length (dd d) = 800" "is_digit (dd d ! 0)" using less.prems(1,2) by (simp_all add: dec_ok_def)
  have hd: "hd ?D = digit_of (dd d ! 0)"
    using dec_digits_nth [OF less.prems(1,2)] len less.prems(2) by (metis hd_conv_nth length_0_conv not_gr0)
  have h9: "hd ?D \<le> 9" by (rule dec_hd_le [OF less.prems(1,2)])
  have h0: "hd ?D \<noteq> 0" by (rule dec_hd [OF less.prems(1,2)])
  have five: "dd d ! 0 < 0x35 \<longleftrightarrow> hd ?D < 5"
    using digit_of_less [OF dd(2), of "0x35"] by (simp add: hd is_digit_def digit_of_def)
  show ?case
  proof (cases "dp d < 0 \<or> (dp d = 0 \<and> hd ?D < 5)")
    case False
    then have z: "dp d = 0" "5 \<le> hd ?D" using less.prems(3) by auto
    then have "\<not> dd d ! 0 < 0x35" using five by simp
    then show ?thesis using less.prems dd z by (subst scale_up.simps) (simp add: rd_def)
  next
    case True
    obtain n where n: "scale_amount (- dp d) n" "0 < n" "n \<le> 27" "dp d = 0 \<Longrightarrow> n = 1" "dp d < 0 \<Longrightarrow> 2 ^ n \<le> (10 :: nat) ^ nat (- dp d)"
      using scale_amount_ex [of "- dp d"] less.prems(3) by (metis neg_0_le_iff_le neg_0_less_iff_less neg_equal_0_iff_equal)
    let ?P = "digits_nat ?D * 2 ^ n"
    obtain d1 w where ls: "LeftShift d n = Some d1" and w: "nd d \<le> w"
      and sh: "shifted d (number_digits_of w ?P) (int w - int (nd d)) d1"
      and lo: "10 ^ (w - 1) \<le> ?P" and up: "?P < 10 ^ w"
      by (rule LeftShift_ok [OF less.prems(1,2), where k = n]) (use n(2,3) in simp_all)
    have wpos: "0 < w" using w less.prems(2) by simp
    have h: "hd (dec_digits d1) = hd (number_digits_of w ?P)"
    proof -
      have "number_digits_of w ?P \<noteq> []" using wpos by (simp add: number_digits_of_def)
      from hd_strip0 [OF this number_digits_hd [OF wpos lo up]] show ?thesis using sh by (simp only: shifted_def)
    qed
    have hdP: "hd (number_digits_of w ?P) = ?P div 10 ^ (w - 1)"
    proof -
      have "hd (number_digits_of w ?P) = number_digits_of w ?P ! 0" using wpos
        by (metis hd_conv_nth length_0_conv length_number_digits not_gr0)
      also have "\<dots> = ?P div 10 ^ (w - 1) mod 10" using wpos by (simp add: number_digits_nth)
      finally have e: "hd (number_digits_of w ?P) = ?P div 10 ^ (w - 1) mod 10" .
      have "10 ^ w = (10 :: nat) * 10 ^ (w - 1)" using wpos by (cases w) simp_all
      then have "?P div 10 ^ (w - 1) < 10" using up by (simp add: less_mult_imp_div_less)
      then show ?thesis unfolding e by (rule mod_less)
    qed
    obtain x xs where D: "?D = x # xs" using len less.prems(2) by (cases ?D) auto
    have lx: "nd d - 1 = length xs" using D len by simp
    have "digits_nat xs < 10 ^ length xs" using dec_digits_le [OF less.prems(1)] D by (intro digits_nat_less) simp
    then have Dlow: "hd ?D * 10 ^ (nd d - 1) \<le> digits_nat ?D" and Dup: "digits_nat ?D < (hd ?D + 1) * 10 ^ (nd d - 1)"
      unfolding D lx by (simp_all add: digits_nat_Cons)
    have grow: "w - nd d \<le> nat (- dp d)"
    proof (cases "dp d < 0")
      case True
      have "10 ^ (w - 1) < (hd ?D + 1) * 10 ^ (nd d - 1) * 2 ^ n" using lo Dup by (meson le_less_trans mult_less_mono1 zero_less_numeral zero_less_power)
      also have "\<dots> \<le> 10 * 10 ^ (nd d - 1) * 10 ^ nat (- dp d)" using h9 n(5) [OF True] by (intro mult_mono) simp_all
      also have "\<dots> = 10 ^ (nd d + nat (- dp d))" using less.prems(2) by (cases "nd d") (simp_all add: power_add)
      finally have "w - 1 < nd d + nat (- dp d)" by (rule power_less_imp_less_exp [rotated]) simp
      then show ?thesis by simp
    next
      case False
      then have z: "dp d = 0" "n = 1" "hd ?D < 5" using True n(4) less.prems(3) by auto
      have "?P < (hd ?D + 1) * 10 ^ (nd d - 1) * 2" using Dup z by simp
      also have "\<dots> \<le> 5 * 10 ^ (nd d - 1) * 2" using z(3) by (intro mult_right_mono) simp_all
      also have "\<dots> = 10 ^ nd d" using less.prems(2) by (cases "nd d") simp_all
      finally have "10 ^ (w - 1) < (10 :: nat) ^ nd d" using lo by linarith
      then have "w - 1 < nd d" by (rule power_less_imp_less_exp [rotated]) simp
      then show ?thesis by simp
    qed
    have dp1: "dp d1 = dp d + (int w - int (nd d))" using sh by (simp add: shifted_def)
    have m: "10 * nat (- dp d1) + (9 - hd (dec_digits d1)) < 10 * nat (- dp d) + (9 - hd ?D)"
    proof (cases "w = nd d")
      case True
      have "hd ?D * 2 \<le> hd ?D * 2 ^ n" using n(2) self_le_power [of 2 n] by (intro mult_left_mono) simp_all
      moreover have "hd ?D * 2 ^ n \<le> ?P div 10 ^ (w - 1)"
        using Dlow True by (simp add: less_eq_div_iff_mult_less_eq mult.commute mult.left_commute)
      ultimately have "hd ?D < hd (dec_digits d1)" unfolding h hdP using h0 by linarith
      moreover have "hd (dec_digits d1) \<le> 9" using sh by (intro dec_hd_le) (simp_all add: shifted_def)
      ultimately show ?thesis using dp1 True by simp
    next
      case False
      then show ?thesis using dp1 w grow h9 less.prems(3) by simp
    qed
    have "\<exists>d' e'. scale_up d1 (e - int n) = Some (d', e') \<and> dec_ok d' \<and> 0 < nd d' \<and> dneg d' = dneg d1 \<and> dp d' = 0 \<and> 5 \<le> hd (dec_digits d')"
      by (rule less.hyps [OF m]) (use sh dp1 grow w less.prems(3) in \<open>simp_all add: shifted_def\<close>)
    moreover have "DecimalShift d (int n) = Some d1"
      using ls n(2,3) less.prems(2) by (simp add: DecimalShift_def shift_left.simps MAX_SHIFT_def)
    ultimately show ?thesis using True n(1) sh dd five
      by (simp add: scale_up.simps [of d] scale_amount_def shifted_def rd_def)
  qed
qed

subsection \<open>The conversion never fails\<close>

lemma DecimalShift_total:
  assumes "dec_ok d" and "0 < nd d"
  shows "\<exists>d'. DecimalShift d k = Some d' \<and> dec_ok d' \<and> 0 < nd d' \<and> dneg d' = dneg d"
proof -
  consider "k = 0" | "0 < k" | "k < 0" by linarith
  then show ?thesis
  proof cases
    case 1
    then show ?thesis using assms by (simp add: DecimalShift_def)
  next
    case 2
    then show ?thesis using shift_left_total [OF assms, of "nat k"] assms(2) by (auto simp: DecimalShift_def)
  next
    case 3
    then show ?thesis using shift_right_total [OF assms, of "nat (- k)"] assms(2) by (auto simp: DecimalShift_def)
  qed
qed

lemma round_digits_total: "i + m \<le> length ds \<Longrightarrow> \<exists>x. round_digits ds m i n = Some x"
  by (induction m arbitrary: i n) (simp_all add: rd_def)

lemma ShouldRoundup_total: "dec_ok d \<Longrightarrow> \<exists>x. ShouldRoundup d n = Some x"
  by (auto simp: ShouldRoundup_def dec_ok_def rd_def)

lemma RoundedInteger_total:
  assumes "dec_ok d"
  shows "\<exists>x. RoundedInteger d = Some x"
proof -
  obtain n where "round_digits (dd d) (min (nat (dp d)) (nd d)) 0 0 = Some n"
    using round_digits_total [of 0 "min (nat (dp d)) (nd d)" "dd d" 0] assms
    unfolding dec_ok_def by (metis add_0 min.coboundedI2)
  moreover obtain u where "ShouldRoundup d (dp d) = Some u" using ShouldRoundup_total [OF assms] by blast
  ultimately show ?thesis by (simp add: RoundedInteger_def Let_def)
qed

lemma DecimalToF64_total:
  assumes "dec_ok d"
  shows "\<exists>x. DecimalToF64 d = Some x"
proof (cases "nd d = 0 \<or> 310 < dp d \<or> dp d < - 330")
  case True
  then show ?thesis by (auto simp: DecimalToF64_def Let_def)
next
  case False
  then have nz: "0 < nd d" by simp
  obtain d1 e1 where s1: "scale_down d 0 = Some (d1, e1)" "dec_ok d1" "0 < nd d1" "dp d1 \<le> 0"
    using scale_down_total [OF assms nz] by blast
  obtain d2 e2 where s2: "scale_up d1 e1 = Some (d2, e2)" "dec_ok d2" "0 < nd d2"
    using scale_up_total [OF s1(2-4)] by blast
  obtain d3 where s3: "DecimalShift d2 (- (- 1022 - (e2 - 1))) = Some d3" "dec_ok d3" "0 < nd d3"
    using DecimalShift_total [OF s2(2,3)] by blast
  define d4 e4 where "d4 = (if e2 - 1 < - 1022 then d3 else d2)" and "e4 = (if e2 - 1 < - 1022 then - 1022 else e2 - 1)"
  have d4: "dec_ok d4" "0 < nd d4" using s2 s3 by (simp_all add: d4_def)
  obtain d5 where s5: "DecimalShift d4 53 = Some d5" "dec_ok d5" using DecimalShift_total [OF d4] by blast
  obtain m where m: "RoundedInteger d5 = Some m" using RoundedInteger_total [OF s5(2)] by blast
  have "(if e2 - 1 < - 1022 then map_option (\<lambda>d. (d, - 1022)) (DecimalShift d2 (- (- 1022 - (e2 - 1)))) else Some (d2, e2 - 1))
      = Some (d4, e4)" using s3 by (simp add: d4_def e4_def)
  then show ?thesis using False s1(1) s2(1) s5(1) m
    unfolding DecimalToF64_def by (simp only: Let_def if_False bind_simps prod.case) auto
qed

lemma set_digits_total:
  "dec_ok d \<Longrightarrow> len \<le> length s \<Longrightarrow> \<exists>i' d' sd'. set_digits s len i d sd = Some (i', d', sd') \<and> dec_ok d' \<and> dneg d' = dneg d"
proof (induction s len i d sd rule: set_digits.induct)
  case (1 s len i d sd)
  show ?case
  proof (cases "i < len")
    case False
    then show ?thesis using 1 by (simp add: set_digits.simps)
  next
    case il: True
    then have rd: "rd s i = Some (s ! i)" using 1 by (simp add: rd_def)
    note st = set_digits.simps [of s len i d sd]
    consider (zero) "is_digit (s ! i)" "s ! i = 0x30" "nd d = 0"
      | (put) "is_digit (s ! i)" "\<not> (s ! i = 0x30 \<and> nd d = 0)" "nd d < 800"
      | (drop) "is_digit (s ! i)" "\<not> (s ! i = 0x30 \<and> nd d = 0)" "\<not> nd d < 800"
      | (dot) "\<not> is_digit (s ! i)" "s ! i = 0x2E" | (other) "\<not> is_digit (s ! i)" "s ! i \<noteq> 0x2E" by metis
    then show ?thesis
    proof cases
      case zero
      then show ?thesis using 1(1) [OF il rd] 1(5,6) il rd st by (simp add: dec_ok_def)
    next
      case put
      have len: "length (dd d) = 800" using 1(5) by (simp add: dec_ok_def)
      let ?d = "d\<lparr>dd := (dd d)[nd d := s ! i], nd := nd d + 1\<rparr>"
      have ok: "dec_ok ?d"
        using 1(5) put by (auto simp: dec_ok_def nth_list_update less_Suc_eq)
      have w: "wr (dd d) (nd d) [s ! i] = Some ((dd d)[nd d := s ! i])" using put(3) len by (simp add: wr_one)
      show ?thesis using 1(2) [OF il rd put(1,2) _ w ok 1(6)] put w il rd st by (auto simp: DECIMAL_MAX_DNUM_def)
    next
      case drop
      have "dec_ok (if s ! i \<noteq> 0x30 then d\<lparr>trunc := True\<rparr> else d)" using 1(5) by (simp add: dec_ok_def)
      from 1(3) [OF il rd drop(1,2) _ this 1(6)] show ?thesis using drop il rd st
        by (auto simp: DECIMAL_MAX_DNUM_def split: if_splits)
    next
      case dot
      have "dec_ok (d\<lparr>dp := int (nd d)\<rparr>)" using 1(5) by (simp add: dec_ok_def)
      from 1(4) [OF il rd dot this 1(6)] show ?thesis using dot il rd st by simp
    next
      case other
      then show ?thesis using il rd st 1(5) by simp
    qed
  qed
qed

lemma set_exp_total: "len \<le> length s \<Longrightarrow> \<exists>e'. set_exp s len i e = Some e'"
proof (induction s len i e rule: set_exp.induct)
  case (1 s len i e)
  show ?case
  proof (cases "i < len")
    case True
    then have "rd s i = Some (s ! i)" using 1(2) by (simp add: rd_def)
    then show ?thesis using 1 True by (simp add: set_exp.simps [of s len i e])
  qed (simp add: set_exp.simps)
qed

lemma set_digits_end: "set_digits s len i d sd = Some (i', d', sd') \<Longrightarrow> i \<le> len \<Longrightarrow> i' \<le> len"
proof (induction s len i d sd rule: set_digits.induct)
  case (1 s len i d sd)
  from 1(5) show ?case
    unfolding set_digits.simps [of s len i d sd]
    using 1 by (auto split: if_splits option.splits)
qed

lemma AtofNative_total:
  assumes "len < length s"
  shows "\<exists>x. AtofNative s len = Some x"
proof -
  have c0: "rd s 0 = Some (s ! 0)" using assms by (cases s) (simp_all add: rd_def)
  let ?d0 = "InitDecimal\<lparr>dneg := (s ! 0 = 0x2D)\<rparr>"
  have "dec_ok ?d0" by (simp add: dec_ok_def InitDecimal_def DECIMAL_MAX_DNUM_def)
  then obtain i d sd where sd: "set_digits s len (if s ! 0 = 0x2D then 1 else 0) ?d0 False = Some (i, d, sd)" "dec_ok d"
    using set_digits_total [of ?d0 len s] assms by fastforce
  let ?d = "if sd then d else d\<lparr>dp := int (nd d)\<rparr>"
  have d: "dec_ok (?d\<lparr>dp := x\<rparr>)" "dec_ok ?d" for x using sd(2) by (auto simp: dec_ok_def)
  have "\<exists>d'. SetDecimal s len = Some d' \<and> dec_ok d'"
  proof (cases "i < len \<and> (s ! i = 0x65 \<or> s ! i = 0x45)")
    case False
    then show ?thesis using sd d(2) assms by (auto simp: SetDecimal_def c0 rd_def Let_def)
  next
    case True
    let ?j = "if s ! (i + 1) = 0x2B \<or> s ! (i + 1) = 0x2D then i + 2 else i + 1"
    obtain e where "set_exp s len ?j 0 = Some e" using set_exp_total [of len s ?j 0] assms by auto
    then show ?thesis using True sd d(1) assms
      unfolding SetDecimal_def c0 by (simp add: rd_def Let_def)
  qed
  then show ?thesis using DecimalToF64_total by (auto simp: AtofNative_def)
qed

subsection \<open>The value of a decimal\<close>

definition dec_val :: "Decimal \<Rightarrow> rat" where
  "dec_val d = of_nat (digits_nat (dec_digits d)) * 10 powi (dp d - int (nd d))"

lemma digits_nat_zeros_end: "\<forall>x \<in> set zs. x = 0 \<Longrightarrow> digits_nat (xs @ zs) = digits_nat xs * 10 ^ length zs"
  by (induction zs rule: rev_induct) (simp_all flip: append_assoc)

lemma digits_nat_number_digits: "x < 10 ^ w \<Longrightarrow> digits_nat (number_digits_of w x) = x"
proof (induction w arbitrary: x)
  case 0
  then show ?case by (simp add: number_digits_of_def digits_nat_def)
next
  case (Suc w)
  have "number_digits_of (Suc w) x = number_digits_of w (x div 10) @ [x mod 10]"
  proof -
    have "x div 10 ^ (w - p) mod 10 = x div 10 div 10 ^ (w - Suc p) mod 10" if "p < w" for p
    proof -
      have "w - p = Suc (w - Suc p)" using that by simp
      then show ?thesis by (simp only: power_Suc div_mult2_eq)
    qed
    then show ?thesis by (simp add: number_digits_of_def)
  qed
  moreover have "x div 10 < 10 ^ w" using Suc.prems by (simp add: less_mult_imp_div_less mult.commute)
  ultimately show ?case using Suc.IH by simp
qed

lemma shifted_value:
  assumes "shifted d e delta d'" and "\<not> trunc d'"
  shows "dec_val d' = of_nat (digits_nat e) * 10 powi (dp d + delta - int (length e))"
proof -
  have ok: "dec_ok d'" and dg: "dec_digits d' = strip0 (take 800 e)" and dp: "dp d' = dp d + delta"
    and z: "\<forall>x \<in> set (drop 800 e). x = 0"
    using assms by (auto simp: shifted_def)
  let ?t = "take 800 e"
  have nd: "nd d' = length (strip0 ?t)" using length_dec_digits [OF ok] dg by simp
  have "digits_nat e = digits_nat ?t * 10 ^ (length e - 800)"
    using digits_nat_zeros_end [OF z, of ?t] by simp
  also have "digits_nat ?t = digits_nat (strip0 ?t) * 10 ^ (length ?t - nd d')" using strip0_nat [of ?t] by (simp add: nd)
  finally have "digits_nat e = digits_nat (dec_digits d') * 10 ^ (length ?t - nd d' + (length e - 800))"
    by (simp add: dg power_add)
  moreover have m: "length ?t - nd d' + (length e - 800) = length e - nd d'" and le: "nd d' \<le> length e"
    using strip0_length [of ?t] by (auto simp: nd min_def split: if_splits)
  ultimately have "digits_nat e = digits_nat (dec_digits d') * 10 ^ (length e - nd d')" by (simp only:)
  then have E: "of_nat (digits_nat e) = (of_nat (digits_nat (dec_digits d')) :: rat) * 10 ^ (length e - nd d')"
    by (metis of_nat_mult of_nat_numeral of_nat_power)
  have "(10 :: rat) ^ (length e - nd d') = 10 powi (int (length e) - int (nd d'))"
    using le by (simp add: power_int_def nat_diff_distrib)
  then show ?thesis unfolding dec_val_def E dp by (simp add: mult.assoc flip: power_int_add)
qed

lemma LeftShift_value:
  assumes "dec_ok d" and "0 < nd d" and "0 < k" and "k \<le> 60"
  obtains d' where "LeftShift d k = Some d'" and "dec_ok d'" and "\<not> trunc d' \<Longrightarrow> dec_val d' = dec_val d * 2 ^ k"
proof -
  obtain d' w where l: "LeftShift d k = Some d'" "nd d \<le> w"
    and sh: "shifted d (number_digits_of w (digits_nat (dec_digits d) * 2 ^ k)) (int w - int (nd d)) d'"
    and up: "digits_nat (dec_digits d) * 2 ^ k < 10 ^ w"
    by (rule LeftShift_ok [OF assms])
  have "dec_val d' = dec_val d * 2 ^ k" if "\<not> trunc d'"
    using shifted_value [OF sh that] digits_nat_number_digits [OF up] by (simp add: dec_val_def)
  then show thesis using that l sh by (simp add: shifted_def)
qed

lemma RightShift_value:
  assumes "dec_ok d" and "0 < nd d" and "0 < k" and "k \<le> 60"
  obtains d' where "RightShift d k = Some d'" and "dec_ok d'" and "\<not> trunc d' \<Longrightarrow> dec_val d' * 2 ^ k = dec_val d"
proof -
  obtain d' q r where rs: "RightShift d k = Some d'" and sh: "shifted d q (1 - int r) d'" and n: "nd d \<le> r + length q"
    and q: "digits_nat q * 10 * 2 ^ k = digits_nat (dec_digits d) * 10 ^ (r + length q - nd d)"
    by (rule RightShift_ok [OF assms])
  have "dec_val d' * 2 ^ k = dec_val d" if "\<not> trunc d'"
  proof -
    let ?m = "int (r + length q) - int (nd d)"
    have "of_nat (digits_nat q) * 10 * 2 ^ k = of_nat (digits_nat (dec_digits d)) * (10 :: rat) ^ (r + length q - nd d)"
      using q by (metis of_nat_mult of_nat_numeral of_nat_power)
    also have "(10 :: rat) ^ (r + length q - nd d) = 10 powi ?m"
      using n by (simp add: power_int_def nat_diff_distrib flip: of_nat_add)
    finally have e: "of_nat (digits_nat q) * 10 * 2 ^ k = of_nat (digits_nat (dec_digits d)) * (10 :: rat) powi ?m" .
    have "dec_val d' * 2 ^ k = of_nat (digits_nat q) * 10 powi (dp d + (1 - int r) - int (length q)) * 2 ^ k"
      using shifted_value [OF sh that] by simp
    also have "dp d + (1 - int r) - int (length q) = 1 + (dp d - int (nd d) - ?m)" by simp
    also have "of_nat (digits_nat q) * (10 :: rat) powi (1 + (dp d - int (nd d) - ?m)) * 2 ^ k
        = (of_nat (digits_nat q) * 10 * 2 ^ k) * 10 powi (dp d - int (nd d) - ?m)"
      by (simp add: power_int_add)
    also have "\<dots> = dec_val d" unfolding e dec_val_def by (simp add: mult.assoc flip: power_int_add)
    finally show ?thesis .
  qed
  then show thesis using that rs sh by (simp add: shifted_def)
qed

text \<open>
  C25: binary shifts of a decimal are exact. A left shift by 1 to 60 bits multiplies the value of the
  decimal by the power of two and a right shift divides it, both stay inside the digit array and keep
  the form (first digit not zero), whenever no nonzero digit had to be dropped behind the 800th; the
  digit count the left shift reserves from its table is always the right one.
\<close>

theorem decimal_shift_exact:
  assumes "dec_ok d" and "0 < nd d" and "0 < k" and "k \<le> 60"
  shows "\<exists>l r. LeftShift d k = Some l \<and> RightShift d k = Some r \<and> dec_ok l \<and> dec_ok r
    \<and> (\<not> trunc l \<longrightarrow> dec_val l = dec_val d * 2 ^ k) \<and> (\<not> trunc r \<longrightarrow> dec_val r * 2 ^ k = dec_val d)"
  using LeftShift_value [OF assms] RightShift_value [OF assms] by metis

theorem decimal_shift_exact_witness:
  "\<exists>l r. LeftShift (InitDecimal\<lparr>dd := 0x37 # replicate 799 0, nd := 1, dp := 1\<rparr>) 4 = Some l
    \<and> RightShift (InitDecimal\<lparr>dd := 0x37 # replicate 799 0, nd := 1, dp := 1\<rparr>) 4 = Some r
    \<and> (\<not> trunc l \<longrightarrow> dec_val l = 112) \<and> (\<not> trunc r \<longrightarrow> dec_val r * 16 = 7)"
proof -
  let ?d = "InitDecimal\<lparr>dd := 0x37 # replicate 799 0, nd := 1, dp := 1\<rparr>"
  have ok: "dec_ok ?d" by (simp add: dec_ok_def is_digit_def)
  have "dec_val ?d = 7" by (simp add: dec_val_def dec_digits_def digits_nat_def digit_of_def)
  then show ?thesis using decimal_shift_exact [OF ok, of 4] by auto
qed

text \<open>
  C26: the decimal conversion always returns. For every text with at least one byte behind the part
  that is converted, \<open>AtofNative\<close> reads only the text and its own arrays and both scaling loops end, so
  that some double is returned, however many digits and whatever exponent the text has.
\<close>

theorem atof_native_total:
  assumes "len < length s"
  shows "\<exists>x. AtofNative s len = Some x"
  by (rule AtofNative_total [OF assms])

theorem atof_native_total_witness: "\<exists>x. AtofNative (bytes_of ''-12.5e-300x'') 10 = Some x"
  by (rule atof_native_total) simp

end
