(* ===== verification/Sonic_NumberTotal.thy ===== *)
theory Sonic_NumberTotal
  imports Sonic_DecimalProps
begin

text \<open>
  When the number parser is defined. Its mantissa stays below \<open>10 ^ 19\<close>, no conversion leaves a table or
  an array, every loop ends; the one call of \<open>__builtin_clzll\<close> on zero is reached exactly by a zero with
  a long fraction.
\<close>

subsection \<open>The mantissa\<close>

definition man_ok :: "u64 \<Rightarrow> bool" where
  "man_ok m \<longleftrightarrow> 0 < unat m \<and> unat m < 10 ^ 19"

lemma unat_man_step:
  fixes m :: u64
  assumes "is_digit c" and "unat m < 10 ^ n" and "n < 19"
  shows "unat (m * 10 + ucast (c - 0x30)) = 10 * unat m + digit_of c"
    and "unat (m * 10 + ucast c - 0x30) = 10 * unat m + digit_of c"
    and "10 * unat m + digit_of c < 10 ^ Suc n"
proof -
  have p: "(10 :: nat) ^ n \<le> 10 ^ 18" using assms(3) by (intro power_increasing) simp_all
  then have m: "unat m < 10 ^ 18" using assms(2) by linarith
  have d: "digit_of c \<le> 9" by (rule digit_of_le [OF assms(1)])
  have c: "48 \<le> unat c" "unat c \<le> 57" using assms(1) by (simp_all add: digit_unat)
  have "unat (c - 0x30) = digit_of c" using c by (simp add: digit_of_def unat_minus_le word_le_nat_alt)
  then show "unat (m * 10 + ucast (c - 0x30)) = 10 * unat m + digit_of c"
    using m d by (subst unat_plus_lt) (simp_all add: unat_times_ten)
  show "unat (m * 10 + ucast c - 0x30) = 10 * unat m + digit_of c"
    using unat_next_digit [OF assms(1), of m] m by simp
  show "10 * unat m + digit_of c < 10 ^ Suc n" using assms(2) d by simp
qed

lemma str2int_from_bound:
  "str2int_from s i acc = Some (v, r) \<Longrightarrow> unat acc < 10 ^ k \<Longrightarrow> k + (r - i) \<le> 19 \<Longrightarrow>
    unat v < 10 ^ (k + (r - i)) \<and> i \<le> r \<and> (unat acc \<noteq> 0 \<longrightarrow> unat v \<noteq> 0)"
proof (induction s i acc arbitrary: k rule: str2int_from.induct)
  case (1 s i acc)
  note st = str2int_from.simps [of s i acc]
  have il: "i < length s" using 1(2) st by (auto split: if_splits)
  show ?case
  proof (cases "is_digit (s ! i)")
    case False
    then have "v = acc" "r = i" using 1(2) il by (simp_all add: st carry_one_digit)
    then show ?thesis using 1(3) by simp
  next
    case True
    let ?a = "acc * 10 + ucast (s ! i - 0x30)"
    have co: "carry_one (s ! i) acc = Some ?a" using True by (simp add: carry_one_digit)
    have rec: "str2int_from s (i + 1) ?a = Some (v, r)" using 1(2) il co by (simp add: st)
    have ir: "i + 1 \<le> r" by (rule str2int_from_ge [OF rec])
    then have k: "k < 19" using 1(4) by simp
    note m = unat_man_step [OF True 1(3) k]
    have e: "Suc k + (r - (i + 1)) = k + (r - i)" using ir by simp
    from 1(1) [OF il co rec, of "Suc k"] m 1(4) show ?thesis unfolding e using ir by auto
  qed
qed

lemma slow_digits_bound:
  "slow_digits s i m k x = Some (j, m', k', x') \<Longrightarrow> unat m < 10 ^ k \<Longrightarrow> k \<le> 19 \<Longrightarrow>
    unat m' < 10 ^ k' \<and> k' \<le> 19 \<and> (unat m \<noteq> 0 \<longrightarrow> unat m' \<noteq> 0)"
proof (induction s i m k x rule: slow_digits.induct)
  case (1 s i m k x)
  note st = slow_digits.simps [of s i m k x]
  have il: "i < length s" using 1(3) st by (auto split: if_splits)
  consider (stop) "\<not> is_digit (s ! i)" | (more) "is_digit (s ! i)" "k < 19" | (cnt) "is_digit (s ! i)" "\<not> k < 19" by blast
  then show ?case
  proof cases
    case stop
    then show ?thesis using 1(3-5) il by (simp add: st)
  next
    case more
    note m = unat_man_step [OF more(1) 1(4) more(2)]
    have "slow_digits s (i + 1) (m * 10 + ucast (s ! i) - 0x30) (k + 1) x = Some (j, m', k', x')"
      using 1(3) il more by (simp add: st)
    from 1(1) [OF il more this] m more show ?thesis by auto
  next
    case cnt
    have "slow_digits s (i + 1) m k (x + 1) = Some (j, m', k', x')" using 1(3) il cnt by (simp add: st)
    from 1(2) [OF il cnt this 1(4,5)] show ?thesis .
  qed
qed

lemma fract_digits_bound:
  "fract_digits s i m k = Some (j, m', k') \<Longrightarrow> unat m < 10 ^ k \<Longrightarrow> k \<le> 17 \<Longrightarrow>
    unat m' < 10 ^ 17 \<and> (unat m \<noteq> 0 \<longrightarrow> unat m' \<noteq> 0)"
proof (induction s i m k rule: fract_digits.induct)
  case (1 s i m k)
  note st = fract_digits.simps [of s i m k]
  show ?case
  proof (cases "k < 17 \<and> i < length s \<and> is_digit (s ! i)")
    case False
    moreover have "(10 :: nat) ^ k \<le> 10 ^ 17" using 1(4) by (intro power_increasing) simp_all
    ultimately show ?thesis using 1(2,3) by (auto simp: st FLOATING_LONGEST_DIGITS_def split: if_splits)
  next
    case True
    then have k: "k < FLOATING_LONGEST_DIGITS" "i < length s" "is_digit (s ! i)" "k < 19" "k + 1 \<le> 17"
      by (simp_all add: FLOATING_LONGEST_DIGITS_def)
    note m = unat_man_step [OF k(3) 1(3) k(4)]
    have "fract_digits s (i + 1) (m * 10 + ucast (s ! i) - 0x30) (k + 1) = Some (j, m', k')"
      using 1(2) k by (simp add: st)
    from 1(1) [OF k(1-3) this] m k show ?thesis by auto
  qed
qed

subsection \<open>The conversions\<close>

lemma LeadingZeroes_Some: "w \<noteq> 0 \<Longrightarrow> \<exists>c. LeadingZeroes w = Some c"
  by (simp add: LeadingZeroes_def)

lemma pow10_row_Some: "- 348 \<le> e \<Longrightarrow> e \<le> 347 \<Longrightarrow> \<exists>lo hi. pow10_row e = Some (lo, hi)"
  by (simp add: pow10_row_def rd_def length_kPow10M128Tab)

lemma eisel_total: "m \<noteq> 0 \<or> e < - 348 \<or> 347 < e \<Longrightarrow> \<exists>r. AtofEiselLemire64 m e sg = Some r"
  using LeadingZeroes_Some [of m] pow10_row_Some [of e] by (force simp: AtofEiselLemire64_def Let_def split: prod.splits)

lemma eisel_zero: "- 348 \<le> e \<Longrightarrow> e \<le> 347 \<Longrightarrow> AtofEiselLemire64 0 e sg = None"
  by (simp add: AtofEiselLemire64_def LeadingZeroes_def)

lemma normal_fast_total: "m \<noteq> 0 \<Longrightarrow> - 348 \<le> e \<Longrightarrow> e \<le> 347 \<Longrightarrow> \<exists>r. ParseFloatingNormalFast e m sg = Some r"
  using LeadingZeroes_Some [of m] pow10_row_Some [of e] by (auto simp: ParseFloatingNormalFast_def Let_def)

lemma normal_fast_zero: "- 348 \<le> e \<Longrightarrow> e \<le> 347 \<Longrightarrow> ParseFloatingNormalFast e 0 sg = None"
  using pow10_row_Some [of e] by (auto simp: ParseFloatingNormalFast_def LeadingZeroes_def)

lemma floating_fast_total: "- 22 \<le> e \<Longrightarrow> e \<le> 37 \<Longrightarrow> \<exists>r. parseFloatingFast e m = Some r"
  by (auto simp: parseFloatingFast_def Let_def rd_def kPow10Tab_def)

lemma man_ok_nz: "man_ok m \<Longrightarrow> m \<noteq> 0" "man_ok m \<Longrightarrow> m + 1 \<noteq> 0"
proof -
  assume m: "man_ok m"
  then show "m \<noteq> 0" by (auto simp: man_ok_def)
  have "unat (m + 1) = unat m + 1" using m by (subst unat_plus_lt) (simp_all add: man_ok_def)
  then show "m + 1 \<noteq> 0" by (metis add_is_0 one_neq_zero unsigned_0)
qed

lemma eisel_lemire_total:
  assumes "man_ok m \<or> (\<not> tr \<and> (e < - 348 \<or> 347 < e))" and "start < len" and "len < length s"
  shows "\<exists>r. parseFloatEiselLemire64 s (Suc start) len e m sg tr = Some r"
proof -
  obtain r where r: "AtofEiselLemire64 m e sg = Some r" using assms(1) eisel_total [of m e sg] man_ok_nz by blast
  obtain a where a: "AtofNative (drop start s) (len - start) = Some a"
    using AtofNative_total [of "len - start" "drop start s"] diff_less_mono [OF assms(3)] assms(2) by auto
  have up: "\<exists>u. AtofEiselLemire64 (m + 1) e sg = Some u" if tr
    using assms(1) that eisel_total [of "m + 1" e sg] man_ok_nz by blast
  show ?thesis
    using r a up assms(2) by (cases r; cases tr) (auto simp: parseFloatEiselLemire64_def Suc_diff_Suc le_diff_conv2 split: option.splits)
qed


text \<open>Where \<open>double_fast\<close> is defined: for every mantissa but zero, and for zero outside one range.\<close>

lemma double_fast_defined:
  assumes g: "num_guard s len" and q: "num_end s start = Some q" and st: "start < len"
    and m: "man_ok m \<or> (\<not> tr \<and> m = 0 \<and> (- 22 \<le> e \<and> e \<le> 0 \<or> e < - 348))"
  shows "double_fast fl s (Suc start) len i m e sg tr \<noteq> None"
proof -
  have len: "len < length s" by (rule guard_digit(2) [OF g])
  have str: "parseNumberAsString s (Suc start) \<noteq> None"
    using parseNumberAsString_ok [OF g _ q, where u = False] st by (auto simp: num_ok_def)
  have fast: "\<exists>r. (if drop_bit 52 m = 0 \<and> e \<le> 22 + 15 \<and> - 22 \<le> e then parseFloatingFast e m else Some None) = Some r"
    using floating_fast_total by simp
  have raw: "\<exists>r. (if \<not> tr \<and> - 308 + 1 < e \<and> e < 308 - 20 then ParseFloatingNormalFast e m sg else Some None) = Some r" if "m \<noteq> 0 \<or> e < - 348"
    using that normal_fast_total [of m e sg] by auto
  have el: "\<exists>r. parseFloatEiselLemire64 s (Suc start) len e m sg tr = Some r" if "m \<noteq> 0 \<or> e < - 348"
    by (rule eisel_lemire_total) (use m that st len in auto)
  show ?thesis
  proof (cases "m = 0 \<and> \<not> e < - 348")
    case True
    then have "- 22 \<le> e" "e \<le> 0" using m by (auto simp: man_ok_def)
    moreover have "\<exists>d. parseFloatingFast e m = Some (Some d)"
      using \<open>- 22 \<le> e\<close> \<open>e \<le> 0\<close> by (auto simp: parseFloatingFast_def Let_def rd_def kPow10Tab_def)
    ultimately show ?thesis using True by (auto simp: double_fast_def)
  next
    case False
    then have nz: "m \<noteq> 0 \<or> e < - 348" by blast
    obtain f where f: "(if drop_bit 52 m = 0 \<and> e \<le> 22 + 15 \<and> - 22 \<le> e then parseFloatingFast e m else Some None) = Some f" using fast by blast
    obtain r where r: "(if \<not> tr \<and> - 308 + 1 < e \<and> e < 308 - 20 then ParseFloatingNormalFast e m sg else Some None) = Some r" using raw [OF nz] by blast
    obtain d er where "parseFloatEiselLemire64 s (Suc start) len e m sg tr = Some (d, er)" using el [OF nz] by auto
    then show ?thesis unfolding double_fast_def f r using str by (auto split: option.splits)
  qed
qed

lemma double_fast_undefined: "- 348 \<le> e \<Longrightarrow> e < - 22 \<Longrightarrow> double_fast fl s pos len i 0 e sg False = None"
  using normal_fast_zero [of e sg] eisel_zero [of e sg]
  by (simp add: double_fast_def parseFloatEiselLemire64_def)

lemma digits_bound:
  assumes "str2int s i = Some (v, r)" and "is_digit (s ! i)" and "s ! i \<noteq> 0x30" and "i < length s"
  shows "r - i \<le> 19 \<Longrightarrow> 0 < unat v \<and> unat v < 10 ^ (r - i)"
proof -
  assume le: "r - i \<le> 19"
  let ?a = "0 * 10 + ucast (s ! i - 0x30) :: u64"
  have a: "unat ?a = digit_of (s ! i)" using unat_man_step(1) [OF assms(2), of 0 0] by simp
  have d: "digit_of (s ! i) \<le> 9" "digit_of (s ! i) \<noteq> 0"
    using digit_of_le [OF assms(2)] digit_of_inj [OF assms(2), of "0x30"] assms(3) by (auto simp: is_digit_def digit_of_def)
  have rec: "str2int_from s (i + 1) ?a = Some (v, r)"
    using assms(1,2,4) by (simp add: str2int_def str2int_from.simps [of s i] carry_one_digit)
  have "i + 1 \<le> r" by (rule str2int_from_ge [OF rec])
  then have e: "Suc (r - Suc i) = r - i" by simp
  from str2int_from_bound [OF rec, of 1] le a d e show ?thesis by (simp add: Suc_diff_Suc)
qed

lemma slow_bound:
  assumes "slow_digits s i 0 0 0 = Some (j, m, k, x)" and "is_digit (s ! i)" and "s ! i \<noteq> 0x30"
  shows "0 < unat m \<and> unat m < 10 ^ k \<and> k \<le> 19"
proof -
  have a: "unat (0 * 10 + ucast (s ! i) - 0x30 :: u64) = digit_of (s ! i)" using unat_man_step(2) [OF assms(2), of 0 0] by simp
  have d: "digit_of (s ! i) \<le> 9" "digit_of (s ! i) \<noteq> 0"
    using digit_of_le [OF assms(2)] digit_of_inj [OF assms(2), of "0x30"] assms(3) by (auto simp: is_digit_def digit_of_def)
  have "slow_digits s (i + 1) (0 * 10 + ucast (s ! i) - 0x30) 1 0 = Some (j, m, k, x)"
    using assms(1,2) by (simp add: slow_digits.simps [of s i] split: if_splits)
  from slow_digits_bound [OF this] a d show ?thesis by simp
qed

lemma double_exp_defined:
  assumes g: "num_guard s len" and q: "num_end s start = exp_end s (i + 1)" and st: "start < len" and i: "i + 1 \<le> len" and m: "man_ok m"
  shows "double_exp fl s (Suc start) len i m e sg tr \<noteq> None"
proof -
  note gd = guard_digit [OF g]
  let ?j = "exp_start s (i + 1)"
  have j: "?j \<le> len" "?j < length s" using exp_start_le [OF g i] gd by auto
  obtain esm where es: "exp_sign s (i + 1) = Some (?j, esm)" using exp_sign_at [of "i + 1" s] i gd by auto
  show ?thesis
  proof (cases "is_digit (s ! ?j)")
    case False
    then show ?thesis using es j by (simp add: double_exp_def CHECK_DIGIT_at)
  next
    case True
    then have q': "num_end s start = Some (run_end is_digit s ?j)" using q by (simp add: exp_end_def)
    obtain x where "exp_digits s ?j 0 = Some (run_end is_digit s ?j, x)" using guard_run(5) [OF g j(1)] by blast
    then show ?thesis using es j True double_fast_defined [OF g q' st] m by (simp add: double_exp_def CHECK_DIGIT_at)
  qed
qed

text \<open>A fraction read with a mantissa that is not zero afterwards.\<close>

lemma double_fract_defined:
  assumes g: "num_guard s len" and le: "start \<le> i" "i \<le> len" and st: "start < len"
    and q: "num_end s start = num_tail s (run_end is_digit s i)"
    and man: "unat man < 10 ^ mn" "mn \<le> 19" and nz: "unat man \<noteq> 0 \<or> (mn = 0 \<and> is_digit (s ! i) \<and> s ! i \<noteq> 0x30)"
  shows "double_fract fl s (Suc start) len i man mn exp10 exp10_s sg tr \<noteq> None"
proof -
  let ?r = "run_end is_digit s i"
  have r: "i \<le> ?r" "?r \<le> len" using run_end_ge guard_run(2) [OF g le(2)] by auto
  show ?thesis
  proof (rule double_fract_run [OF g le, of fl len man mn exp10 exp10_s sg tr])
    fix j m
    assume run: "double_fract fl s (Suc start) len i man mn exp10 exp10_s sg tr =
      (if \<not> is_e (s ! ?r) then double_fast fl s (Suc start) len ?r m (exp10 - (int j - int exp10_s)) sg (tr \<or> j < ?r)
       else double_exp fl s (Suc start) len ?r m (exp10 - (int j - int exp10_s)) sg (tr \<or> j < ?r))"
      and big: "\<not> mn < FLOATING_LONGEST_DIGITS \<Longrightarrow> j = i \<and> m = man"
      and small: "mn < FLOATING_LONGEST_DIGITS \<Longrightarrow> \<exists>n k. n = min (FLOATING_LONGEST_DIGITS - mn) (min 16 (?r - i)) \<and>
        fract_digits s (i + n) (man * 10 ^ n + word_of_nat (digits_nat (map digit_of (take n (drop i s))))) (mn + n) = Some (j, m, k)"
    have ok: "man_ok m"
    proof (cases "mn < FLOATING_LONGEST_DIGITS")
      case False
      have "(10 :: nat) ^ mn \<le> 10 ^ 19" using man(2) by (intro power_increasing) simp_all
      then show ?thesis using big [OF False] man(1) nz False by (auto simp: man_ok_def FLOATING_LONGEST_DIGITS_def)
    next
      case True
      then obtain n k where n: "n = min (17 - mn) (min 16 (?r - i))"
        and f: "fract_digits s (i + n) (man * 10 ^ n + word_of_nat (digits_nat (map digit_of (take n (drop i s))))) (mn + n) = Some (j, m, k)"
        using small by (auto simp: FLOATING_LONGEST_DIGITS_def)
      let ?D = "map digit_of (take n (drop i s))"
      have rl: "?r < length s" using r guard_digit(2) [OF g] by simp
      have len: "length ?D = n" using rl n by simp
      have dig: "is_digit (s ! (i + p))" if "p < n" for p
        using run_end_all [of i "i + p" is_digit s] that n by (simp add: less_diff_conv add.commute)
      then have "x \<le> 9" if "x \<in> set ?D" for x using that len by (auto simp: in_set_conv_nth intro!: digit_of_le)
      then have dl: "digits_nat ?D < 10 ^ n" using digits_nat_less [of ?D] len by simp
      have n17: "mn + n \<le> 17" using True n by (simp add: FLOATING_LONGEST_DIGITS_def)
      have p: "(10 :: nat) ^ n \<le> 10 ^ 17" "(10 :: nat) ^ (mn + n) \<le> 10 ^ 17" using n17 by (intro power_increasing; simp)+
      have small_nat: "unat (word_of_nat x :: u64) = x" if "x \<le> 10 ^ 17" for x
        using that by (simp add: unsigned_of_nat take_bit_nat_eq_self)
      have "10 ^ n = (word_of_nat (10 ^ n) :: u64)" by simp
      then have w: "unat (word_of_nat (digits_nat ?D) :: u64) = digits_nat ?D" "unat (10 ^ n :: u64) = 10 ^ n"
        using dl p small_nat [of "digits_nat ?D"] small_nat [of "10 ^ n"] by simp_all
      have mp: "unat man * 10 ^ n + 10 ^ n \<le> 10 ^ (mn + n)"
      proof -
        have "(unat man + 1) * 10 ^ n \<le> 10 ^ mn * 10 ^ n" using man(1) by (intro mult_right_mono) simp_all
        then show ?thesis by (simp add: power_add)
      qed
      have mul: "unat (man * 10 ^ n) = unat man * 10 ^ n"
        using mp p w(2) by (simp add: unat_word_ariths)
      have val: "unat (man * 10 ^ n + word_of_nat (digits_nat ?D)) = unat man * 10 ^ n + digits_nat ?D"
        using mul w mp p dl by (subst unat_plus_lt) simp_all
      have b: "unat (man * 10 ^ n + word_of_nat (digits_nat ?D)) < 10 ^ (mn + n)" using val mp dl by simp
      have "unat (man * 10 ^ n + word_of_nat (digits_nat ?D)) \<noteq> 0"
      proof (cases "unat man = 0")
        case False
        then show ?thesis using val by simp
      next
        case z: True
        then have d: "mn = 0" "is_digit (s ! i)" "s ! i \<noteq> 0x30" using nz by simp_all
        have "i < ?r" using d(2) rl r by (simp add: run_end_step) (metis less_eq_Suc_le run_end_ge Suc_eq_plus1)
        then have n0: "0 < n" using n d(1) by simp
        then have "hd ?D = digit_of (s ! i)" using len rl r by (simp add: hd_map hd_drop_conv_nth)
        then have "hd ?D \<noteq> 0" using digit_of_inj [OF d(2), of "0x30"] d(3) by (auto simp: is_digit_def digit_of_def)
        then have "0 < digits_nat ?D" using digits_nat_head [of ?D] len n0
          by (metis length_0_conv less_le_trans not_gr0 zero_less_numeral zero_less_power)
        then show ?thesis using val by simp
      qed
      from fract_digits_bound [OF f b n17] this show ?thesis by (simp add: man_ok_def)
    qed
    show ?thesis
    proof (cases "is_e (s ! ?r)")
      case True
      then have "num_end s start = exp_end s (?r + 1)" using q by (simp add: num_tail_def)
      moreover have "?r + 1 \<le> len" using guard_before [OF g r(2)] True by simp
      ultimately show ?thesis using run True double_exp_defined [OF g _ st _ ok] by simp
    next
      case False
      then have "num_end s start = Some ?r" using q by (simp add: num_tail_def)
      then show ?thesis using run False double_fast_defined [OF g _ st] ok by simp
    qed
  qed
qed

subsection \<open>The number parser\<close>

lemma parse_integer_defined:
  assumes g: "num_guard s len" and q: "num_end s start = Some i" and st: "start < len" and i: "i \<le> len" and m: "man_ok m"
  shows "parse_integer fl s (Suc start) len i m e sg \<noteq> None"
proof -
  have "parseNumberAsString s (Suc start) \<noteq> None"
    using parseNumberAsString_ok [OF g _ q, where u = False] st by (auto simp: num_ok_def)
  moreover have "rd s (i - 1) \<noteq> None" using i guard_digit(2) [OF g] by (simp add: rd_def)
  ultimately show ?thesis using double_fast_defined [OF g q st, of m] m
    by (auto simp: parse_integer_def Let_def)
qed

lemma number_digits_defined:
  assumes g: "num_guard s len" and le: "start \<le> i" "i \<le> len" and st: "start < len" and nz: "s ! i \<noteq> 0x30"
    and q: "is_digit (s ! i) \<Longrightarrow> num_end s start = num_frac s (run_end is_digit s i)"
  shows "number_digits fl s (Suc start) len i sg \<noteq> None"
proof -
  note gd = guard_digit [OF g]
  let ?r = "run_end is_digit s i"
  obtain v where v: "str2int s i = Some (v, ?r)" using int_run(1) [OF g le(2)] by blast
  have r: "i \<le> ?r" "?r \<le> len" "?r < length s" "start \<le> ?r" "i < length s"
    using run_end_ge [of i is_digit s] guard_run(2) [OF g le(2)] gd le by auto
  show ?thesis
  proof (cases "is_digit (s ! i)")
    case False
    then have "?r - i = 0" using int_run(2) [OF g le(2)] by simp
    then show ?thesis using v by (simp add: number_digits_def)
  next
    case True
    then have nd: "?r - i \<noteq> 0" using int_run(2) [OF g le(2)] by simp
    have "\<exists>m k x. (if 19 < ?r - i then slow_digits s i 0 0 0 else Some (?r, v, ?r - i, 0)) = Some (?r, m, k, x)"
      using slow_digits_run [of i len s 0 0 0] le gd by auto
    then obtain m k x where m: "(if 19 < ?r - i then slow_digits s i 0 0 0 else Some (?r, v, ?r - i, 0)) = Some (?r, m, k, x)"
      by blast
    have mk: "0 < unat m \<and> unat m < 10 ^ k \<and> k \<le> 19"
      using m slow_bound [OF _ True nz] digits_bound [OF v True nz r(5)] by (auto split: if_splits)
    then have "(10 :: nat) ^ k \<le> 10 ^ 19" by (intro power_increasing) simp_all
    then have ok: "man_ok m" using mk by (simp add: man_ok_def)
    have run: "number_digits fl s (Suc start) len i sg =
       (if s ! ?r = 0x2E then CHECK_DIGIT s (?r + 1) (double_fract fl s (Suc start) len (?r + 1) m k x (?r + 1) sg False)
        else if is_e (s ! ?r) then double_exp fl s (Suc start) len ?r m x sg False
        else parse_integer fl s (Suc start) len ?r m x sg)"
      using v nd m r by (simp add: number_digits_def rd_def)
    have qf: "num_end s start = num_frac s ?r" using q True by simp
    consider (dot) "s ! ?r = 0x2E" | (ex) "s ! ?r \<noteq> 0x2E" "is_e (s ! ?r)" | (int) "s ! ?r \<noteq> 0x2E" "\<not> is_e (s ! ?r)" by blast
    then show ?thesis
    proof cases
      case dot
      then have r1: "?r + 1 \<le> len" "?r + 1 < length s" "start \<le> ?r + 1" using guard_before [OF g r(2)] gd r by auto
      have "double_fract fl s (Suc start) len (?r + 1) m k x (?r + 1) sg False \<noteq> None" if "is_digit (s ! (?r + 1))"
        by (rule double_fract_defined [OF g r1(3,1) st]) (use qf dot that mk in \<open>auto simp: num_frac_def\<close>)
      then show ?thesis using run dot r1 by (simp add: CHECK_DIGIT_at)
    next
      case ex
      then have r1: "?r + 1 \<le> len" using guard_before [OF g r(2)] by simp
      have "num_end s start = exp_end s (?r + 1)" using qf ex by (simp add: num_frac_def num_tail_def)
      from double_exp_defined [OF g this st r1 ok] run ex show ?thesis by simp
    next
      case int
      then have "num_end s start = Some ?r" using qf by (simp add: num_frac_def num_tail_def)
      from parse_integer_defined [OF g this st r(2) ok] run int show ?thesis by simp
    qed
  qed
qed

text \<open>A zero, at \<open>i\<close> behind its digit, whose fraction is nothing but 23 to 348 zeros.\<close>

definition zero_gap :: "bytes \<Rightarrow> nat \<Rightarrow> bool" where
  "zero_gap s i \<longleftrightarrow> s ! i = 0x2E \<and>
     (let z = run_end (\<lambda>c. c = 0x30) s (i + 1) in
        \<not> is_digit (s ! z) \<and> \<not> is_e (s ! z) \<and> 23 \<le> z - (i + 1) \<and> z - (i + 1) \<le> 348)"

lemma zero_exponent_defined: "num_guard s len \<Longrightarrow> i \<le> len \<Longrightarrow> zero_exponent s i sg \<noteq> None"
  using zero_exponent_ok [of s len i False sg] by (auto simp: num_ok_def split: option.splits)

lemma number_zero_defined:
  assumes g: "num_guard s len" and le: "start \<le> i" "i \<le> len" and st: "start < len" and q: "num_end s start = num_frac s i"
  shows "number_zero fl s (Suc start) len i sg = None \<longleftrightarrow> zero_gap s i"
proof -
  note gd = guard_digit [OF g]
  have il: "i < length s" using le gd by simp
  show ?thesis
  proof (cases "s ! i = 0x2E")
    case False
    then show ?thesis
      using il zero_exponent_defined [OF g, of "i + 1" sg] guard_before [OF g le(2)]
      by (auto simp: number_zero_def rd_def zero_gap_def Let_def)
  next
    case dot: True
    then have i1: "i + 1 \<le> len" "i + 1 < length s" using guard_before [OF g le(2)] gd by auto
    let ?z = "run_end (\<lambda>c. c = 0x30) s (i + 1)"
    note z = zeros_guard [OF g i1(1)]
    have zl: "?z < length s" "start \<le> ?z" using z(2,3) gd le by simp_all
    show ?thesis
    proof (cases "is_digit (s ! (i + 1))")
      case False
      then have "?z = i + 1" using i1 run_end_step [of "i + 1" s "\<lambda>c. c = 0x30"] by (auto simp: is_digit_def)
      then show ?thesis using False dot il i1 by (simp add: number_zero_def rd_def CHECK_DIGIT_at zero_gap_def Let_def)
    next
      case d: True
      have run: "number_zero fl s (Suc start) len i sg = (if is_e (s ! ?z) then zero_exponent s (?z + 1) sg
          else double_fract fl s (Suc start) len ?z 0 0 0 (i + 1) sg False)"
        using dot d il i1 zl z(1) by (simp add: number_zero_def rd_def CHECK_DIGIT_at)
      have qt: "num_end s start = num_tail s (run_end is_digit s ?z)"
        using q dot d z(4) by (simp add: num_frac_def)
      consider (ex) "is_e (s ! ?z)" | (dig) "\<not> is_e (s ! ?z)" "is_digit (s ! ?z)" | (gap) "\<not> is_e (s ! ?z)" "\<not> is_digit (s ! ?z)" by blast
      then show ?thesis
      proof cases
        case ex
        then show ?thesis using run zero_exponent_defined [OF g, of "?z + 1" sg] guard_before [OF g z(3)]
          by (simp add: zero_gap_def Let_def)
      next
        case dig
        have "s ! ?z \<noteq> 0x30" using run_end_stop [of "i + 1" len s "\<lambda>c. c = 0x30"] i1 gd by simp
        then have "double_fract fl s (Suc start) len ?z 0 0 0 (i + 1) sg False \<noteq> None"
          by (intro double_fract_defined [OF g zl(2) z(3) st qt]) (use dig in simp_all)
        then show ?thesis using run dig by (simp add: zero_gap_def Let_def)
      next
        case gap
        then have rz: "run_end is_digit s ?z = ?z" using zl by (simp add: run_end_step)
        have qz: "num_end s start = Some ?z" using qt gap rz by (simp add: num_tail_def)
        show ?thesis
        proof (rule double_fract_run [OF g zl(2) z(3), of fl len 0 0 0 "i + 1" sg False])
          fix j m assume h: "double_fract fl s (Suc start) len ?z 0 0 0 (i + 1) sg False =
            (if \<not> is_e (s ! run_end is_digit s ?z) then double_fast fl s (Suc start) len (run_end is_digit s ?z) m (0 - (int j - int (i + 1))) sg (False \<or> j < run_end is_digit s ?z)
             else double_exp fl s (Suc start) len (run_end is_digit s ?z) m (0 - (int j - int (i + 1))) sg (False \<or> j < run_end is_digit s ?z))"
            "?z \<le> j" "j \<le> run_end is_digit s ?z"
            "0 < FLOATING_LONGEST_DIGITS \<Longrightarrow> \<exists>n k. n = min (FLOATING_LONGEST_DIGITS - 0) (min 16 (run_end is_digit s ?z - ?z)) \<and>
               fract_digits s (?z + n) (0 * 10 ^ n + word_of_nat (digits_nat (map digit_of (take n (drop ?z s))))) (0 + n) = Some (j, m, k)"
          have j: "j = ?z" using h(2,3) rz by simp
          obtain k where "fract_digits s ?z 0 0 = Some (j, m, k)" using h(4) rz by (auto simp: FLOATING_LONGEST_DIGITS_def digits_nat_def)
          then have m: "m = 0" using gap zl by (simp add: fract_digits.simps FLOATING_LONGEST_DIGITS_def)
          define w where "w = ?z - (i + 1)"
          have w: "0 - (int ?z - int (i + 1)) = - int w" using run_end_ge [of "i + 1" "\<lambda>c. c = 0x30" s] by (simp add: w_def)
          have eq: "number_zero fl s (Suc start) len i sg = double_fast fl s (Suc start) len ?z 0 (- int w) sg False"
            unfolding w [symmetric] using run gap h(1) rz j m by simp
          show ?thesis
          proof (cases "23 \<le> w \<and> w \<le> 348")
            case True
            then have "double_fast fl s (Suc start) len ?z 0 (- int w) sg False = None" by (intro double_fast_undefined) simp_all
            then show ?thesis using eq True gap dot by (simp add: zero_gap_def Let_def w_def)
          next
            case False
            then have "double_fast fl s (Suc start) len ?z 0 (- int w) sg False \<noteq> None"
              by (intro double_fast_defined [OF g qz st]) (auto simp: not_le)
            then show ?thesis using eq False by (auto simp: zero_gap_def Let_def w_def)
          qed
        qed
      qed
    qed
  qed
qed

definition undefined_zero :: "bytes \<Rightarrow> nat \<Rightarrow> bool" where
  "undefined_zero s start \<longleftrightarrow> s ! num_start s start = 0x30 \<and> zero_gap s (num_start s start + 1)"

lemma parseNumber_defined:
  assumes g: "num_guard s len" and st: "start < len"
  shows "parseNumber fl s (Suc start) len = None \<longleftrightarrow> undefined_zero s start"
proof -
  let ?i = "num_start s start"
  have le: "start \<le> ?i" "?i \<le> len" using num_start_guard [OF g, of start] st by auto
  note gd = guard_digit [OF g]
  have sl: "start < length s" "?i < length s" using st le gd by auto
  define sg :: int where "sg = (if s ! start = 0x2D then - 1 else 1)"
  have run: "parseNumber fl s (Suc start) len = (if s ! ?i = 0x30 then number_zero fl s (Suc start) len (?i + 1) sg
      else number_digits fl s (Suc start) len ?i sg)"
    using sl by (simp add: parseNumber_def rd_def sg_def num_start_def)
  show ?thesis
  proof (cases "s ! ?i = 0x30")
    case True
    then have "?i + 1 \<le> len" using guard_before [OF g le(2)] by simp
    moreover have "num_end s start = num_frac s (?i + 1)" using True by (simp add: num_end_def Let_def)
    ultimately show ?thesis using number_zero_defined [OF g _ _ st] le run True by (simp add: undefined_zero_def)
  next
    case False
    then have "num_end s start = num_frac s (run_end is_digit s ?i)" if "is_digit (s ! ?i)"
      using that by (simp add: num_end_def Let_def)
    from number_digits_defined [OF g le st False this] run False show ?thesis by (simp add: undefined_zero_def)
  qed
qed

subsection \<open>Integers\<close>

definition digits_at :: "bytes \<Rightarrow> nat \<Rightarrow> nat \<Rightarrow> nat" where
  "digits_at s i n = digits_nat (map digit_of (take n (drop i s)))"

lemma digits_at_0 [simp]: "digits_at s i 0 = 0"
  by (simp add: digits_at_def digits_nat_def)

lemma digits_at_Suc: "i + n < length s \<Longrightarrow> digits_at s i (Suc n) = digits_at s i n * 10 + digit_of (s ! (i + n))"
  by (simp add: digits_at_def take_Suc_conv_app_nth)

lemma digits_at_first: "i < length s \<Longrightarrow> digits_at s i (Suc n) = digit_of (s ! i) * 10 ^ length (take n (drop (i + 1) s)) + digits_at s (i + 1) n"
  by (simp add: digits_at_def Cons_nth_drop_Suc [symmetric] digits_nat_Cons)

lemma digit_word: "is_digit c \<Longrightarrow> (ucast (c - 0x30) :: u64) = word_of_nat (digit_of c)" "is_digit c \<Longrightarrow> (ucast c - 0x30 :: u64) = word_of_nat (digit_of c)"
proof -
  assume c: "is_digit c"
  then have "unat (c - 0x30) = digit_of c" by (simp add: digit_unat digit_of_def unat_minus_le word_le_nat_alt)
  then show "(ucast (c - 0x30) :: u64) = word_of_nat (digit_of c)"
    by (metis of_nat_unat unat_ucast_u64)
  show "(ucast c - 0x30 :: u64) = word_of_nat (digit_of c)"
  proof -
    have "(ucast c - 0x30 :: u64) = word_of_nat (unat (ucast c - 0x30 :: u64))" by simp
    then show ?thesis by (simp only: digit_val [OF c])
  qed
qed

lemma str2int_from_val:
  "str2int_from s i acc = Some (v, r) \<Longrightarrow> v = acc * 10 ^ (r - i) + word_of_nat (digits_at s i (r - i)) \<and> r < length s"
proof (induction s i acc rule: str2int_from.induct)
  case (1 s i acc)
  note st = str2int_from.simps [of s i acc]
  have il: "i < length s" using 1(2) st by (auto split: if_splits)
  show ?case
  proof (cases "is_digit (s ! i)")
    case False
    then show ?thesis using 1(2) il by (simp add: st carry_one_digit)
  next
    case True
    let ?a = "acc * 10 + ucast (s ! i - 0x30)"
    have co: "carry_one (s ! i) acc = Some ?a" using True by (simp add: carry_one_digit)
    have rec: "str2int_from s (i + 1) ?a = Some (v, r)" using 1(2) il co by (simp add: st)
    have ir: "i + 1 \<le> r" by (rule str2int_from_ge [OF rec])
    then have e: "r - i = Suc (r - (i + 1))" by simp
    have l: "length (take (r - (i + 1)) (drop (i + 1) s)) = r - (i + 1)" if "r < length s" using that by simp
    from 1(1) [OF il co rec] show ?thesis
      unfolding e digits_at_first [OF il] using l by (simp add: digit_word(1) [OF True] algebra_simps)
  qed
qed

lemma slow_digits_val:
  "slow_digits s i m k x = Some (r, m', k', x') \<Longrightarrow> k \<le> 19 \<Longrightarrow> j = min (19 - k) (r - i) \<Longrightarrow>
    m' = m * 10 ^ j + word_of_nat (digits_at s i j) \<and> k' = k + j \<and> x' = x + int (r - i - j) \<and> r < length s"
proof (induction s i m k x arbitrary: j rule: slow_digits.induct)
  case (1 s i m k x)
  note st = slow_digits.simps [of s i m k x]
  have il: "i < length s" using 1(3) st by (auto split: if_splits)
  consider (stop) "\<not> is_digit (s ! i)" | (more) "is_digit (s ! i)" "k < 19" | (cnt) "is_digit (s ! i)" "\<not> k < 19" by blast
  then show ?case
  proof cases
    case stop
    then show ?thesis using 1(3-5) il by (simp add: st)
  next
    case more
    have rec: "slow_digits s (i + 1) (m * 10 + ucast (s ! i) - 0x30) (k + 1) x = Some (r, m', k', x')"
      using 1(3) il more by (simp add: st)
    have ir: "i + 1 \<le> r" by (rule slow_digits_ge [OF rec])
    define j' where "j' = min (19 - (k + 1)) (r - (i + 1))"
    have j: "j = Suc j'" using 1(5) more ir by (simp add: j'_def)
    have dw: "m * 10 + ucast (s ! i) - 0x30 = m * 10 + word_of_nat (digit_of (s ! i))"
      using digit_word(2) [OF more(1)] by (simp add: add_diff_eq [symmetric])
    have IH: "m' = (m * 10 + ucast (s ! i) - 0x30) * 10 ^ j' + word_of_nat (digits_at s (i + 1) j') \<and> k' = k + 1 + j'
        \<and> x' = x + int (r - (i + 1) - j') \<and> r < length s"
      using 1(1) [OF il more rec _ j'_def] more by simp
    have l: "length (take j' (drop (i + 1) s)) = j'"
    proof -
      have "j' \<le> length s - (i + 1)" unfolding j'_def using IH by (intro min.coboundedI2) linarith
      then show ?thesis by simp
    qed
    show ?thesis using IH unfolding j digits_at_first [OF il] l dw
      by (simp add: algebra_simps)
  next
    case cnt
    have rec: "slow_digits s (i + 1) m k (x + 1) = Some (r, m', k', x')" using 1(3) il cnt by (simp add: st)
    have ir: "i + 1 \<le> r" by (rule slow_digits_ge [OF rec])
    from 1(2) [OF il cnt rec 1(4) refl] cnt 1(4,5) ir show ?thesis by simp
  qed
qed

text \<open>The result an integer should have.\<close>

definition int_event :: "bool \<Rightarrow> nat \<Rightarrow> event \<Rightarrow> bool" where
  "int_event neg n ev \<longleftrightarrow>
     (if \<not> neg \<or> n = 0 then (if n < 2 ^ 64 then ev = EUint (word_of_nat n) else (\<exists>d. ev = EDouble d))
      else if n \<le> 2 ^ 63 then ev = EInt (- word_of_nat n) else (\<exists>d. ev = EDouble d))"


lemma digit_run_bound:
  assumes "r \<le> length s" and "\<And>p. i \<le> p \<Longrightarrow> p < r \<Longrightarrow> is_digit (s ! p)" and "j \<le> r - i"
  shows "digits_at s i j < 10 ^ j"
proof -
  have l: "length (map digit_of (take j (drop i s))) = j" using assms(1,3) by simp
  have "x \<le> 9" if x: "x \<in> set (map digit_of (take j (drop i s)))" for x
  proof -
    obtain p where "p < j" "x = digit_of (s ! (i + p))" using x l assms by (auto simp: in_set_conv_nth)
    then show ?thesis using assms(2) [of "i + p"] assms(3) by (auto intro!: digit_of_le)
  qed
  then show ?thesis using digits_nat_less [of "map digit_of (take j (drop i s))"] l unfolding digits_at_def by metis
qed

lemma word_small: "x < 2 ^ 64 \<Longrightarrow> unat (word_of_nat x :: u64) = x"
  by (simp add: unsigned_of_nat take_bit_nat_eq_self)

lemma double_fast_event:
  "double_fast 0 s pos len i m e sg tr = Some x \<Longrightarrow> \<exists>d er. x = (Some (EDouble d), er, i)"
  by (auto simp: double_fast_def flags_and_def Let_def bind_eq_Some_conv split: option.splits prod.splits if_splits)

lemma digits_at_low:
  assumes "i + Suc n \<le> length s" and "is_digit (s ! i)" and "s ! i \<noteq> 0x30"
  shows "10 ^ n \<le> digits_at s i (Suc n)"
proof -
  have "digit_of (s ! i) \<noteq> 0" using digit_of_inj [OF assms(2), of "0x30"] assms(3) by (auto simp: is_digit_def digit_of_def)
  then have "1 * 10 ^ n \<le> digit_of (s ! i) * 10 ^ n" by (intro mult_right_mono) simp_all
  moreover have "length (take n (drop (i + 1) s)) = n" using assms(1) by simp
  then have "digits_at s i (Suc n) = digit_of (s ! i) * 10 ^ n + digits_at s (i + 1) n"
    using digits_at_first [of i s n] assms(1) by simp
  ultimately show ?thesis by (simp only: mult_1 trans_le_add1)
qed

text \<open>An integer that fits is passed on exactly, one that does not becomes a double.\<close>

lemma parse_integer_value:
  assumes g: "num_guard s len" and st: "start < len" and i: "i = num_start s start" and d: "is_digit (s ! i)" "s ! i \<noteq> 0x30"
    and r: "r = run_end is_digit s i" and stop: "s ! r \<noteq> 0x2E" "\<not> is_e (s ! r)"
  shows "\<exists>ev er. parseNumber 0 s (Suc start) len = Some (Some ev, er, r) \<and> int_event (s ! start = 0x2D) (digits_at s i (r - i)) ev
    \<and> (er = kErrorNone \<or> (\<exists>d. ev = EDouble d))"
proof -
  note gd = guard_digit [OF g]
  have le: "start \<le> i" "i \<le> len" using num_start_guard [OF g, of start] st i by auto
  have rl: "i \<le> r" "r \<le> len" "r < length s" using run_end_ge guard_run(2) [OF g le(2)] gd r by auto
  have dig: "is_digit (s ! p)" if "i \<le> p" "p < r" for p using run_end_all [of i p is_digit s] that r by simp
  define neg where "neg = (s ! start = 0x2D)"
  define sg :: int where "sg = (if neg then - 1 else 1)"
  have sl: "start < length s" "i < length s" using st le gd by auto
  obtain v where v: "str2int s i = Some (v, r)" using int_run(1) [OF g le(2)] r by blast
  have nd: "r - i \<noteq> 0" using int_run(2) [OF g le(2)] d(1) r by simp
  let ?n = "digits_at s i (r - i)"
  have run0: "parseNumber 0 s (Suc start) len = number_digits 0 s (Suc start) len i sg"
    using sl d i by (simp add: parseNumber_def rd_def sg_def neg_def num_start_def)
  have q: "num_end s start = Some r" using d stop r i by (simp add: num_end_def Let_def num_frac_def num_tail_def)
  have tot: "parseNumber 0 s (Suc start) len \<noteq> None" using parseNumber_defined [OF g st, of 0] d i by (simp add: undefined_zero_def)
  have npos: "0 < ?n"
  proof -
    obtain t where "r - i = Suc t" using nd by (cases "r - i") auto
    then show ?thesis using digits_at_first [OF sl(2), of t] digit_of_inj [OF d(1), of "0x30"] d(2)
      by (auto simp: is_digit_def digit_of_def)
  qed
  have fl: "flags_and 0 f = False" for f by (simp add: flags_and_def)
  have r1: "rd s (r - 1) = Some (s ! (r - 1))" using rl by (simp add: rd_def)
  show ?thesis
  proof (cases "r - i \<le> 19")
    case True
    have "(10 :: nat) ^ (r - i) \<le> 10 ^ 19" using True by (intro power_increasing) simp_all
    then have n: "?n < 10 ^ 19" using digit_run_bound [of r s i "r - i"] dig rl by simp
    have ve: "v = word_of_nat ?n" using str2int_from_val [of s i 0 v r] v by (simp add: str2int_def)
    have un: "unat v = ?n" using n unfolding ve by (intro word_small) simp
    have "number_digits 0 s (Suc start) len i sg = parse_integer 0 s (Suc start) len r v 0 sg"
      using v nd True rl stop by (simp add: number_digits_def rd_def)
    then have "parseNumber 0 s (Suc start) len = parse_integer 0 s (Suc start) len r v 0 sg" using run0 by simp
    moreover have "push_bit 63 1 < v \<longleftrightarrow> 2 ^ 63 < ?n" by (simp add: word_less_nat_alt un)
    ultimately show ?thesis using n npos
      by (auto simp: parse_integer_def fl Let_def sg_def neg_def int_event_def ve)
  next
    case False
    obtain m k x where m: "slow_digits s i 0 0 0 = Some (r, m, k, x)"
      using slow_digits_run [of i len s 0 0 0] le gd r by auto
    have j: "19 = min (19 - 0) (r - i)" using False by simp
    have mv: "m = word_of_nat (digits_at s i 19)" "k = 19" "x = int (r - i - 19)"
      using slow_digits_val [OF m _ j] by simp_all
    have "number_digits 0 s (Suc start) len i sg = parse_integer 0 s (Suc start) len r m x sg"
      using v nd m False rl stop by (simp add: number_digits_def rd_def)
    then have run: "parseNumber 0 s (Suc start) len = parse_integer 0 s (Suc start) len r m x sg" using run0 by simp
    have m19: "digits_at s i 19 < 10 ^ 19" using digit_run_bound [of r s i 19] dig rl False by simp
    have um: "unat m = digits_at s i 19" using m19 unfolding mv by (intro word_small) simp
    have dbl: "\<exists>ev er. parseNumber 0 s (Suc start) len = Some (Some ev, er, r) \<and> int_event neg ?n ev \<and> (er = kErrorNone \<or> (\<exists>d. ev = EDouble d))"
      if df: "parseNumber 0 s (Suc start) len = double_fast 0 s (Suc start) len r m x sg True"
        and bd: "\<not> neg \<longrightarrow> 2 ^ 64 \<le> ?n" "neg \<longrightarrow> 2 ^ 63 < ?n"
    proof -
      obtain y where y: "double_fast 0 s (Suc start) len r m x sg True = Some y" using tot df by auto
      obtain d er where "y = (Some (EDouble d), er, r)" using double_fast_event [OF y] by blast
      then show ?thesis using bd npos unfolding df y by (auto simp: int_event_def)
    qed
    show ?thesis
    proof (cases "r - i = 20")
      case True
      let ?d = "digit_of (s ! (r - 1))"
      have dr: "is_digit (s ! (r - 1))" using dig [of "r - 1"] True by simp
      have r19: "i + 19 = r - 1" using True by simp
      have n: "?n = digits_at s i 19 * 10 + ?d" using digits_at_Suc [of i 19 s] rl True by (simp add: r19)
      have d9: "?d \<le> 9" by (rule digit_of_le [OF dr])
      have x1: "x = 1" using mv(3) True by simp
      have nw: "ucast (s ! (r - 1)) - 0x30 = (word_of_nat ?d :: u64)" by (rule digit_word(2) [OF dr])
      have ud: "unat (word_of_nat ?d :: u64) = ?d" using d9 by (intro word_small) simp
      have q10: "unat (kUint64Max div 10) = 1844674407370955161" by (simp add: kUint64Max_def unat_div)
      have six: "(0xFFFFFFFF mod 10 :: u64) = 5" by simp
      have big: "10 ^ 19 \<le> ?n" using digits_at_low [of i 19 s] d rl True by simp
      have cond: "(m < kUint64Max div 10 \<or> m = kUint64Max div 10 \<and> word_of_nat ?d \<le> (0xFFFFFFFF mod 10 :: u64)) \<longleftrightarrow> ?n < 2 ^ 64"
        unfolding six word_less_nat_alt word_le_nat_alt word_unat_eq_iff q10 um ud n using d9 by auto
      have val: "m * 10 + word_of_nat ?d = (word_of_nat ?n :: u64)" unfolding mv n by simp
      show ?thesis
      proof (cases "?n < 2 ^ 64")
        case True
        then have "parseNumber 0 s (Suc start) len =
            Some (Some (if neg then EDouble (dbl_minus (dbl_of_u64 (word_of_nat ?n))) else EUint (word_of_nat ?n)), kErrorNone, r)"
          unfolding run parse_integer_def Let_def fl x1 r1 using cond val by (simp add: sg_def nw [simplified])
        then show ?thesis using True big npos by (auto simp: int_event_def neg_def)
      next
        case False
        then have "parseNumber 0 s (Suc start) len = double_fast 0 s (Suc start) len r m x sg True"
          unfolding run parse_integer_def Let_def fl x1 r1 using cond by (auto simp: nw [simplified])
        then show ?thesis using dbl False unfolding neg_def by simp
      qed
    next
      case l20: False
      then have "1 < x" using False mv(3) by simp
      then have dfr: "parseNumber 0 s (Suc start) len = double_fast 0 s (Suc start) len r m x sg True"
        unfolding run parse_integer_def Let_def fl by simp
      have "Suc (r - i - 1) = r - i" using nd by simp
      then have "10 ^ (r - i - 1) \<le> ?n" using digits_at_low [of i "r - i - 1" s] d rl nd by simp
      moreover have "(10 :: nat) ^ 20 \<le> 10 ^ (r - i - 1)" using False l20 by (intro power_increasing) simp_all
      ultimately have "10 ^ 20 \<le> ?n" by linarith
      then show ?thesis using dbl [OF dfr] unfolding neg_def by simp
    qed
  qed
qed

lemma str2int_from_run_end: "str2int_from s i a = Some (v, r) \<Longrightarrow> r = run_end is_digit s i"
proof (induction s i a rule: str2int_from.induct)
  case (1 s i a)
  then show ?case
    by (subst (asm) (2) str2int_from.simps) (auto simp: run_end_step carry_one_digit split: if_splits)
qed

text \<open>
  C27: the vector conversion of digits is the scalar one. Of up to 16 digits at \<open>i\<close>, the multiply-add
  sequence of \<open>simd_str2int\<close> takes those the digit loop takes, at most \<open>k\<close>, and computes their exact
  value; when the whole run of digits is short enough it returns what \<open>str2int\<close> returns.
\<close>

theorem simd_str2int_scalar:
  assumes "i + 16 \<le> length s" and "str2int s i = Some (v, r)"
  shows "simd_str2int s i k = Some (word_of_nat (digits_at s i (min k (min 16 (r - i)))), min k (min 16 (r - i)))
    \<and> (r - i \<le> min k 16 \<longrightarrow> simd_str2int s i k = Some (v, r - i))"
proof -
  have r: "r = run_end is_digit s i" using assms(2) by (auto simp: str2int_def intro: str2int_from_run_end)
  have e: "simd_str2int s i k = Some (word_of_nat (digits_at s i (min k (min 16 (r - i)))), min k (min 16 (r - i)))"
    using simd_str2int_spec [OF assms(1) refl, of k] by (simp add: r digits_at_def)
  have "v = word_of_nat (digits_at s i (r - i))" using str2int_from_val [of s i 0 v r] assms(2) by (simp add: str2int_def)
  then have "r - i \<le> min k 16 \<Longrightarrow> simd_str2int s i k = Some (v, r - i)" using e by simp
  with e show ?thesis by blast
qed

theorem simd_str2int_scalar_witness: "simd_str2int (bytes_of ''x12345,_________________'') 1 16 = Some (12345, 5)"
proof -
  have "str2int (bytes_of ''x12345,_________________'') 1 = Some (12345, 6)" by code_simp
  from simd_str2int_scalar [OF _ this, of 16, THEN conjunct2] show ?thesis by simp
qed

text \<open>
  C24: the number parser is defined on every padded text but one kind. \<open>parseNumber\<close> reads only the
  buffer and its tables and its loops end, under all flags; the one undefined operation, counting the
  leading zeros of a zero mantissa, is reached exactly by a number of the form \<open>0.000\<close> or \<open>-0.000\<close>
  with 23 to 348 zeros and no exponent.
\<close>

theorem number_parser_defined:
  assumes "num_guard s len" and "start < len"
  shows "parseNumber fl s (Suc start) len = None \<longleftrightarrow> undefined_zero s start"
  by (rule parseNumber_defined [OF assms])

theorem number_parser_defined_witness:
  "parseNumber 0 (bytes_of ''-12.50e3'' @ [0x78, 0x22, 0x78] @ replicate 61 0) 1 8 \<noteq> None
   \<and> parseNumber 0 (bytes_of ''0.00000000000000000000000'' @ [0x78, 0x22, 0x78] @ replicate 61 0) 1 25 = None"
proof
  show "parseNumber 0 (bytes_of ''-12.50e3'' @ [0x78, 0x22, 0x78] @ replicate 61 0) 1 8 \<noteq> None"
    using number_parser_defined [of "bytes_of ''-12.50e3'' @ [0x78, 0x22, 0x78] @ replicate 61 0" 8 0 0]
    by (simp add: num_guard_def undefined_zero_def num_start_def)
  show "parseNumber 0 (bytes_of ''0.00000000000000000000000'' @ [0x78, 0x22, 0x78] @ replicate 61 0) 1 25 = None"
    using number_parser_defined [of "bytes_of ''0.00000000000000000000000'' @ [0x78, 0x22, 0x78] @ replicate 61 0" 25 0 0]
    by (simp add: num_guard_def undefined_zero_def zero_gap_def num_start_def run_end_def Let_def is_digit_def is_e_def)
qed

lemma number_parser_total: "num_guard s len \<Longrightarrow> start < len \<Longrightarrow> \<not> undefined_zero s start \<Longrightarrow> parseNumber fl s (Suc start) len \<noteq> None"
  by (simp add: parseNumber_defined)





end
