(* ===== verification/Sonic_Parser.thy ===== *)
theory Sonic_Parser
  imports Sonic_OnDemand Sonic_Number
begin

text \<open>
  The \<open>Parser\<close> class of \<open>dom/parser.h\<close>. \<open>parseImpl\<close> is a machine: its labels with the character held
  in \<open>c\<close> are the constructors of \<open>parse_pc\<close>, the parser's members with the \<open>depth\<close> vector (its last
  element first) and the state of the SAX handler are the state, and one step runs from one label
  to the next. The handler is any function from an event and its state to its answer and new state;
  the text is parsed in place, so the buffer is part of the state as well.
\<close>

type_synonym 's sax = "event \<Rightarrow> 's \<Rightarrow> bool \<times> 's"

record 's parser =
  p_buf :: bytes
  p_len :: nat
  p_pos :: nat
  p_err :: SonicError
  p_scan :: SkipScanner
  p_depth :: "u32 list"
  p_sax :: 's

datatype parse_pc = LObjKey u8 | LObjCont u8 | LScopeEnd | LArrVal u8 | LArrCont u8

type_synonym 's parse_next = "('s parser + parse_pc \<times> 's parser) option"

definition setParseError :: "SonicError \<Rightarrow> 's parser \<Rightarrow> 's parser" where
  "setParseError e st = st\<lparr>p_err := e\<rparr>"

definition call_sax :: "'s sax \<Rightarrow> event \<Rightarrow> 's parser \<Rightarrow> bool \<times> 's parser" where
  "call_sax sax ev st = (let (ok, s) = sax ev (p_sax st) in (ok, st\<lparr>p_sax := s\<rparr>))"

text \<open>\<open>goto err_invalid_char\<close>, and the two checking macros.\<close>

definition err_invalid_char :: "'s parser \<Rightarrow> 's parse_next" where
  "err_invalid_char st = Some (Inl (if p_err st = kErrorNone then st\<lparr>p_err := kParseErrorInvalidChar\<rparr> else st))"

definition sonic_check_err :: "'s parser \<Rightarrow> 's parse_next \<Rightarrow> 's parse_next" where
  "sonic_check_err st k = (if p_err st \<noteq> kErrorNone then err_invalid_char st else k)"

definition sax_termination :: "'s parser \<Rightarrow> 's parser" where
  "sax_termination st = (if p_err st = kErrorNone then st\<lparr>p_err := kSaxTermination\<rparr> else st)"

definition sonic_sax_check :: "bool \<times> 's parser \<Rightarrow> ('s parser \<Rightarrow> 's parse_next) \<Rightarrow> 's parse_next" where
  "sonic_sax_check = (\<lambda>(ok, st) k. if \<not> ok then Some (Inl (sax_termination st)) else k st)"

definition parser_space :: "'s parser \<Rightarrow> (u8 \<times> 's parser) option" where
  "parser_space st = map_option (\<lambda>(c, pos, sc). (c, st\<lparr>p_pos := pos, p_scan := sc\<rparr>))
     (skip_space (p_buf st) (p_scan st) (p_pos st))"

subsection \<open>Values without members\<close>

definition parseNull :: "'s sax \<Rightarrow> 's parser \<Rightarrow> (bool \<times> 's parser) option" where
  "parseNull sax st = do {
     eq \<leftarrow> EqBytes4 (p_buf st) (p_pos st - 1) kNullBin;
     Some (if eq then call_sax sax ENull (st\<lparr>p_pos := p_pos st + 3\<rparr>)
           else (False, setParseError kParseErrorInvalidChar st))
   }"

definition parseFalse :: "'s sax \<Rightarrow> 's parser \<Rightarrow> (bool \<times> 's parser) option" where
  "parseFalse sax st = do {
     eq \<leftarrow> EqBytes4 (p_buf st) (p_pos st) kFalseBin;
     Some (if eq then call_sax sax (EBool False) (st\<lparr>p_pos := p_pos st + 4\<rparr>)
           else (False, setParseError kParseErrorInvalidChar st))
   }"

definition parseTrue :: "'s sax \<Rightarrow> 's parser \<Rightarrow> (bool \<times> 's parser) option" where
  "parseTrue sax st = do {
     eq \<leftarrow> EqBytes4 (p_buf st) (p_pos st - 1) kTrueBin;
     Some (if eq then call_sax sax (EBool True) (st\<lparr>p_pos := p_pos st + 3\<rparr>)
           else (False, setParseError kParseErrorInvalidChar st))
   }"

definition parseStringHelper :: "isa \<Rightarrow> u32 \<Rightarrow> 's parser \<Rightarrow> ((nat \<times> bytes) \<times> 's parser) option" where
  "parseStringHelper i fl st = do {
     let sdst = p_pos st;
     (buf, pos, r) \<leftarrow> parseStringInplace_vec i (flags_and fl kParseAllowUnescapedControlChars) (p_buf st) sdst;
     let st = st\<lparr>p_buf := buf, p_pos := pos\<rparr>;
     Some (case r of
         Inl e \<Rightarrow> ((sdst, []), setParseError e st)
       | Inr n \<Rightarrow> ((sdst, StringView buf sdst n), st))
   }"

definition parseStrInPlace :: "isa \<Rightarrow> u32 \<Rightarrow> 's sax \<Rightarrow> 's parser \<Rightarrow> (bool \<times> 's parser) option" where
  "parseStrInPlace i fl sax st = do {
     ((off, sv), st) \<leftarrow> parseStringHelper i fl st;
     Some (if p_err st \<noteq> kErrorNone then (True, st) else call_sax sax (EString off sv) st)
   }"

definition parseKeyInPlace :: "isa \<Rightarrow> u32 \<Rightarrow> 's sax \<Rightarrow> 's parser \<Rightarrow> (bool \<times> 's parser) option" where
  "parseKeyInPlace i fl sax st = do {
     ((off, sv), st) \<leftarrow> parseStringHelper i fl st;
     Some (if p_err st \<noteq> kErrorNone then (True, st) else call_sax sax (EKey off sv) st)
   }"

text \<open>A number with its call of the handler; the result of \<open>parseNumber\<close> is always true.\<close>

definition parser_number :: "u32 \<Rightarrow> 's sax \<Rightarrow> 's parser \<Rightarrow> 's parser option" where
  "parser_number fl sax st = do {
     (ev, er, pos) \<leftarrow> parseNumber fl (p_buf st) (p_pos st) (p_len st);
     Some (case ev of
         None \<Rightarrow> st\<lparr>p_pos := pos, p_err := er\<rparr>
       | Some ev \<Rightarrow> (let (ok, st) = call_sax sax ev st
           in st\<lparr>p_pos := pos, p_err := (if ok then er else kSaxTermination)\<rparr>))
   }"

text \<open>\<open>parsePrimitives\<close>: a document that is one value without members.\<close>

definition parsePrimitives :: "isa \<Rightarrow> u32 \<Rightarrow> 's sax \<Rightarrow> 's parser \<Rightarrow> 's parser option" where
  "parsePrimitives i fl sax st = do {
     c \<leftarrow> rd (p_buf st) (p_pos st - 1);
     let finish = (\<lambda>(ok, st). if \<not> ok \<and> p_err st = kErrorNone then st\<lparr>p_err := kSaxTermination\<rparr> else st);
     if number_start c then parser_number fl sax st
     else if c = 0x22 then
       map_option (\<lambda>(ok, st). if p_len st < p_pos st then setParseError kParseErrorInvalidChar st else finish (ok, st))
         (parseStrInPlace i fl sax st)
     else if c = 0x66 then map_option finish (parseFalse sax st)
     else if c = 0x74 then map_option finish (parseTrue sax st)
     else if c = 0x6E then map_option finish (parseNull sax st)
     else Some (setParseError kParseErrorInvalidChar st)
   }"

subsection \<open>The machine\<close>

definition kArrMask :: u32 where "kArrMask = push_bit 31 1"
definition kObjMask :: u32 where "kObjMask = 0"

text \<open>Opening a container, the same code at its three places.\<close>

definition open_object :: "'s sax \<Rightarrow> 's parser \<Rightarrow> 's parse_next" where
  "open_object sax st = sonic_sax_check (call_sax sax EStartObject st) (\<lambda>st. do {
     (c, st) \<leftarrow> parser_space (st\<lparr>p_depth := kObjMask # p_depth st\<rparr>);
     if c = 0x7D then sonic_sax_check (call_sax sax (EEndObject 0) st) (\<lambda>st. Some (Inr (LScopeEnd, st)))
     else Some (Inr (LObjKey c, st))
   })"

definition open_array :: "'s sax \<Rightarrow> 's parser \<Rightarrow> 's parse_next" where
  "open_array sax st = sonic_sax_check (call_sax sax EStartArray st) (\<lambda>st. do {
     (c, st) \<leftarrow> parser_space (st\<lparr>p_depth := kArrMask # p_depth st\<rparr>);
     if c = 0x5D then sonic_sax_check (call_sax sax (EEndArray 0) st) (\<lambda>st. Some (Inr (LScopeEnd, st)))
     else Some (Inr (LArrVal c, st))
   })"

text \<open>The switch over a value inside a container, the same at \<open>arr_val\<close> and behind a key.\<close>

definition literal_value :: "(bool \<times> 's parser) option \<Rightarrow> ('s parser \<Rightarrow> 's parse_next) \<Rightarrow> 's parse_next" where
  "literal_value r k = (case r of
      None \<Rightarrow> None
    | Some (ok, st) \<Rightarrow> sonic_check_err st
        (if \<not> ok then Some (Inl (st\<lparr>p_err := kSaxTermination\<rparr>)) else k st))"

definition parse_element :: "isa \<Rightarrow> u32 \<Rightarrow> 's sax \<Rightarrow> (u8 \<Rightarrow> parse_pc) \<Rightarrow> u8 \<Rightarrow> 's parser \<Rightarrow> 's parse_next" where
  "parse_element i fl sax cont c st =
     (let next = (\<lambda>st. do { (c, st) \<leftarrow> parser_space st; Some (Inr (cont c, st)) }) in
      if c = 0x7B then open_object sax st
      else if c = 0x5B then open_array sax st
      else if number_start c then do { st \<leftarrow> parser_number fl sax st; sonic_check_err st (next st) }
      else if c = 0x74 then literal_value (parseTrue sax st) next
      else if c = 0x66 then literal_value (parseFalse sax st) next
      else if c = 0x6E then literal_value (parseNull sax st) next
      else if c = 0x22 then do {
        r \<leftarrow> parseStrInPlace i fl sax st;
        sonic_sax_check r (\<lambda>st. sonic_check_err st (next st))
      }
      else err_invalid_char st)"

text \<open>A member whose key the handler does not want; the handler's check of keys is on.\<close>

definition skip_member :: "isa \<Rightarrow> 's sax \<Rightarrow> 's parser \<Rightarrow> 's parse_next" where
  "skip_member i sax st = do {
     (r, pos, sc) \<leftarrow> SkipOne i (p_buf st) (p_len st) (p_scan st) (p_pos st);
     let st = st\<lparr>p_pos := pos, p_scan := sc\<rparr>;
     if r = Inr 0 then err_invalid_char st
     else do {
       (c, pos) \<leftarrow> GetNextToken i (p_buf st) (p_len st) [0x22, 0x7D] (p_pos st);
       let st = st\<lparr>p_pos := pos\<rparr>;
       if c = 0x22 then Some (Inr (LObjKey c, st\<lparr>p_pos := p_pos st + 1\<rparr>))
       else if c = 0x7D then do {
         d \<leftarrow> rd (p_depth st) 0;
         sonic_sax_check (call_sax sax (EEndObject d) (st\<lparr>p_pos := p_pos st + 1\<rparr>)) (\<lambda>st. Some (Inr (LScopeEnd, st)))
       }
       else err_invalid_char st
     }
   }"

definition step_obj_key :: "isa \<Rightarrow> u32 \<Rightarrow> bool \<Rightarrow> 's sax \<Rightarrow> u8 \<Rightarrow> 's parser \<Rightarrow> 's parse_next" where
  "step_obj_key i fl check_key sax c st =
     (if c \<noteq> 0x22 then err_invalid_char st
      else do {
        (found, st) \<leftarrow> parseKeyInPlace i fl sax st;
        sonic_check_err st (do {
          (c, st) \<leftarrow> parser_space st;
          if c \<noteq> 0x3A then err_invalid_char st
          else if check_key \<and> \<not> found then skip_member i sax st
          else if \<not> found then Some (Inl (sax_termination st))
          else do {
            (c, st) \<leftarrow> parser_space st;
            parse_element i fl sax LObjCont c st
          }
        })
      })"

text \<open>\<open>depth.back()++\<close>.\<close>

definition depth_inc :: "'s parser \<Rightarrow> 's parser option" where
  "depth_inc st = (case p_depth st of [] \<Rightarrow> None | d # ds \<Rightarrow> Some (st\<lparr>p_depth := (d + 1) # ds\<rparr>))"

definition step_obj_cont :: "'s sax \<Rightarrow> u8 \<Rightarrow> 's parser \<Rightarrow> 's parse_next" where
  "step_obj_cont sax c st = do {
     st \<leftarrow> depth_inc st;
     if c = 0x2C then do { (c, st) \<leftarrow> parser_space st; Some (Inr (LObjKey c, st)) }
     else if c \<noteq> 0x7D then err_invalid_char st
     else do {
       d \<leftarrow> rd (p_depth st) 0;
       sonic_sax_check (call_sax sax (EEndObject d) st) (\<lambda>st. Some (Inr (LScopeEnd, st)))
     }
   }"

definition step_scope_end :: "'s parser \<Rightarrow> 's parse_next" where
  "step_scope_end st = sonic_check_err st (case p_depth st of
      [] \<Rightarrow> None
    | d # ds \<Rightarrow>
        let st = st\<lparr>p_depth := ds\<rparr> in
        (case ds of
           [] \<Rightarrow> Some (Inl st)
         | e # es \<Rightarrow> do {
             (c, st) \<leftarrow> parser_space st;
             Some (Inr (if e AND kArrMask \<noteq> 0 then LArrCont c else LObjCont c, st))
           }))"

definition step_arr_cont :: "'s sax \<Rightarrow> u8 \<Rightarrow> 's parser \<Rightarrow> 's parse_next" where
  "step_arr_cont sax c st = do {
     st \<leftarrow> depth_inc st;
     if c = 0x2C then do { (c, st) \<leftarrow> parser_space st; Some (Inr (LArrVal c, st)) }
     else if c = 0x5D then do {
       d \<leftarrow> rd (p_depth st) 0;
       sonic_sax_check (call_sax sax (EEndArray (d AND (kArrMask - 1))) st) (\<lambda>st. Some (Inr (LScopeEnd, st)))
     }
     else err_invalid_char st
   }"

definition parse_step :: "isa \<Rightarrow> u32 \<Rightarrow> bool \<Rightarrow> 's sax \<Rightarrow> parse_pc \<times> 's parser \<Rightarrow> 's parse_next" where
  "parse_step i fl check_key sax = (\<lambda>(pc, st). case pc of
      LObjKey c \<Rightarrow> step_obj_key i fl check_key sax c st
    | LObjCont c \<Rightarrow> step_obj_cont sax c st
    | LScopeEnd \<Rightarrow> step_scope_end st
    | LArrVal c \<Rightarrow> parse_element i fl sax LArrCont c st
    | LArrCont c \<Rightarrow> step_arr_cont sax c st)"

partial_function (option) parse_run ::
  "isa \<Rightarrow> u32 \<Rightarrow> bool \<Rightarrow> 's sax \<Rightarrow> 's parse_next \<Rightarrow> 's parser option" where
  "parse_run i fl check_key sax r = (case r of
      None \<Rightarrow> None
    | Some (Inl st) \<Rightarrow> Some st
    | Some (Inr x) \<Rightarrow> parse_run i fl check_key sax (parse_step i fl check_key sax x))"

declare parse_run.simps [code]

definition parseImpl :: "isa \<Rightarrow> u32 \<Rightarrow> bool \<Rightarrow> 's sax \<Rightarrow> 's parser \<Rightarrow> 's parser option" where
  "parseImpl i fl check_key sax st = do {
     (c, st) \<leftarrow> parser_space (st\<lparr>p_depth := []\<rparr>);
     if c = 0x5B then parse_run i fl check_key sax (open_array sax st)
     else if c = 0x7B then parse_run i fl check_key sax (open_object sax st)
     else parsePrimitives i fl sax st
   }"

subsection \<open>The whole document\<close>

function hasTrailingChars :: "'s parser \<Rightarrow> (bool \<times> 's parser) option" where
  "hasTrailingChars st =
     (if p_pos st < p_len st then (case rd (p_buf st) (p_pos st) of
        None \<Rightarrow> None
      | Some c \<Rightarrow> if \<not> IsSpace c then Some (True, st) else hasTrailingChars (st\<lparr>p_pos := p_pos st + 1\<rparr>))
      else Some (False, st))"
  by auto
termination by (relation "measure (\<lambda>st. p_len st - p_pos st)") auto

declare hasTrailingChars.simps [simp del]

definition parser_reset :: "'s parser \<Rightarrow> 's parser" where
  "parser_reset st = st\<lparr>p_pos := 0, p_err := kErrorNone, p_len := 0\<rparr>"

definition Parser_new :: "bytes \<Rightarrow> 's \<Rightarrow> 's parser" where
  "Parser_new buf s = \<lparr>p_buf = buf, p_len = 0, p_pos = 0, p_err = kErrorNone, p_scan = scanner_new, p_depth = [], p_sax = s\<rparr>"

text \<open>\<open>Parse\<close>: the parser object afterwards, with \<open>p_err\<close> and \<open>p_pos\<close> the parts of the result.\<close>

definition Parse :: "isa \<Rightarrow> u32 \<Rightarrow> bool \<Rightarrow> 's sax \<Rightarrow> bytes \<Rightarrow> nat \<Rightarrow> 's parser \<Rightarrow> (ParseResult \<times> 's parser) option" where
  "Parse i fl check_key sax data len st = do {
     st \<leftarrow> parseImpl i fl check_key sax ((parser_reset st)\<lparr>p_buf := data, p_len := len\<rparr>);
     st \<leftarrow> (if p_err st = kErrorNone then do {
         (trailing, st) \<leftarrow> hasTrailingChars st;
         Some (if trailing then st\<lparr>p_err := kParseErrorInvalidChar\<rparr> else st)
       } else Some st);
     Some (mk_ParseResult (p_err st) (p_pos st), st)
   }"

end
