(* ===== verification/Sonic_ParserRef.thy ===== *)
theory Sonic_ParserRef
  imports Sonic_Parser Sonic_NumberProps
begin

text \<open>
  The reference for \<open>parseImpl\<close>: a recursive-descent parser over the unmodified text. It calls the
  same handler, but keeps no scanner, no depth vector and no buffer of its own, and reads strings
  and spaces byte by byte. The label machine is shown to do the same as this parser.
\<close>

subsection \<open>The recursive parser\<close>

text \<open>
  Its results: undefined, rejected (with the state of the handler), refused by the handler, and
  accepted up to a position.
\<close>

datatype 's ref_result = RUndef | RFail 's | RSax 's | ROk 's nat

definition ref_space :: "bytes \<Rightarrow> nat \<Rightarrow> nat" where
  "ref_space buf p = run_end IsSpace buf p"

definition ref_sax :: "'s sax \<Rightarrow> event \<Rightarrow> 's \<Rightarrow> nat \<Rightarrow> 's ref_result" where
  "ref_sax sax ev s p = (let (ok, s) = sax ev s in if ok then ROk s p else RSax s)"

definition ref_literal :: "'s sax \<Rightarrow> bytes \<Rightarrow> bytes \<Rightarrow> event \<Rightarrow> nat \<Rightarrow> 's \<Rightarrow> 's ref_result" where
  "ref_literal sax buf text ev q s = (if bytes_at buf q text then ref_sax sax ev s (q + length text) else RFail s)"

definition ref_number :: "u32 \<Rightarrow> 's sax \<Rightarrow> bytes \<Rightarrow> nat \<Rightarrow> nat \<Rightarrow> 's \<Rightarrow> 's ref_result" where
  "ref_number fl sax buf len q s = (case parseNumber fl buf (Suc q) len of
      None \<Rightarrow> RUndef
    | Some (None, er, p) \<Rightarrow> RFail s
    | Some (Some ev, er, p) \<Rightarrow> (let (ok, s) = sax ev s in
        if \<not> ok then RSax s else if er = kErrorNone then ROk s p else RFail s))"

definition ref_string :: "u32 \<Rightarrow> 's sax \<Rightarrow> bytes \<Rightarrow> nat \<Rightarrow> 's \<Rightarrow> 's ref_result" where
  "ref_string fl sax buf q s = (case str_scan (flags_and fl kParseAllowUnescapedControlChars) buf (Suc q) of
      None \<Rightarrow> RUndef
    | Some (Inl e) \<Rightarrow> RFail s
    | Some (Inr (t, p)) \<Rightarrow> ref_sax sax (EString (Suc q) t) s p)"

definition ref_scalar :: "u32 \<Rightarrow> 's sax \<Rightarrow> bytes \<Rightarrow> nat \<Rightarrow> nat \<Rightarrow> 's \<Rightarrow> 's ref_result" where
  "ref_scalar fl sax buf len q s = (let c = buf ! q in
     if number_start c then ref_number fl sax buf len q s
     else if c = 0x74 then ref_literal sax buf [0x74, 0x72, 0x75, 0x65] (EBool True) q s
     else if c = 0x66 then ref_literal sax buf [0x66, 0x61, 0x6C, 0x73, 0x65] (EBool False) q s
     else if c = 0x6E then ref_literal sax buf [0x6E, 0x75, 0x6C, 0x6C] ENull q s
     else if c = 0x22 then ref_string fl sax buf q s
     else RFail s)"

text \<open>
  What is left to read: a value, the elements of an array from the first character of one on, the
  members of an object from the first character of a key on, the last two with the number of those
  read already. The number in front bounds the depth of recursion.
\<close>

datatype ref_task = TValue nat | TElems nat nat | TMembers nat nat

primrec ref_run :: "nat \<Rightarrow> u32 \<Rightarrow> 's sax \<Rightarrow> bytes \<Rightarrow> nat \<Rightarrow> ref_task \<Rightarrow> 's \<Rightarrow> 's ref_result" where
  "ref_run 0 fl sax buf len t s = RUndef"
| "ref_run (Suc n) fl sax buf len t s = (case t of
     TValue q \<Rightarrow>
      (if buf ! q = 0x7B then (case sax EStartObject s of (ok, s) \<Rightarrow>
        if \<not> ok then RSax s
        else if buf ! ref_space buf (q + 1) = 0x7D then ref_sax sax (EEndObject 0) s (ref_space buf (q + 1) + 1)
        else ref_run n fl sax buf len (TMembers (ref_space buf (q + 1)) 0) s)
      else if buf ! q = 0x5B then (case sax EStartArray s of (ok, s) \<Rightarrow>
        if \<not> ok then RSax s
        else if buf ! ref_space buf (q + 1) = 0x5D then ref_sax sax (EEndArray 0) s (ref_space buf (q + 1) + 1)
        else ref_run n fl sax buf len (TElems (ref_space buf (q + 1)) 0) s)
      else ref_scalar fl sax buf len q s)
   | TElems q k \<Rightarrow> (case ref_run n fl sax buf len (TValue q) s of
        ROk s p \<Rightarrow>
          if buf ! ref_space buf p = 0x2C
          then ref_run n fl sax buf len (TElems (ref_space buf (ref_space buf p + 1)) (k + 1)) s
          else if buf ! ref_space buf p = 0x5D then ref_sax sax (EEndArray (word_of_nat (k + 1))) s (ref_space buf p + 1)
          else RFail s
      | r \<Rightarrow> r)
   | TMembers q k \<Rightarrow>
      (if buf ! q \<noteq> 0x22 then RFail s
       else (case str_scan (flags_and fl kParseAllowUnescapedControlChars) buf (q + 1) of
          None \<Rightarrow> RUndef
        | Some (Inl e) \<Rightarrow> RFail s
        | Some (Inr (txt, p)) \<Rightarrow> (case sax (EKey (q + 1) txt) s of (ok, s) \<Rightarrow>
            if buf ! ref_space buf p \<noteq> 0x3A then RFail s
            else if \<not> ok then RSax s
            else (case ref_run n fl sax buf len (TValue (ref_space buf (ref_space buf p + 1))) s of
                ROk s p \<Rightarrow>
                  if buf ! ref_space buf p = 0x2C
                  then ref_run n fl sax buf len (TMembers (ref_space buf (ref_space buf p + 1)) (k + 1)) s
                  else if buf ! ref_space buf p = 0x7D
                  then ref_sax sax (EEndObject (word_of_nat (k + 1))) s (ref_space buf p + 1)
                  else RFail s
              | r \<Rightarrow> r)))))"

text \<open>
  The whole document. A top-level string that ends in the padding is rejected after its call of the handler. The
  bound is more than every chain of calls needs.
\<close>

definition ref_top :: "u32 \<Rightarrow> 's sax \<Rightarrow> bytes \<Rightarrow> nat \<Rightarrow> nat \<Rightarrow> 's \<Rightarrow> 's ref_result" where
  "ref_top fl sax buf len q s =
     (if buf ! q = 0x22 then (case str_scan (flags_and fl kParseAllowUnescapedControlChars) buf (Suc q) of
        None \<Rightarrow> RUndef
      | Some (Inl e) \<Rightarrow> RFail s
      | Some (Inr (t, p)) \<Rightarrow> (let (ok, s) = sax (EString (Suc q) t) s in
          if len < p then RFail s else if ok then ROk s p else RSax s))
      else ref_run (2 * len + 16) fl sax buf len (TValue q) s)"

definition ref_parse :: "u32 \<Rightarrow> 's sax \<Rightarrow> bytes \<Rightarrow> nat \<Rightarrow> 's \<Rightarrow> 's ref_result" where
  "ref_parse fl sax buf len s = (case ref_top fl sax buf len (ref_space buf 0) s of
      ROk s p \<Rightarrow> if run_end IsSpace (take len buf) p < len then RFail s else ROk s len
    | r \<Rightarrow> r)"

subsection \<open>Positions and states\<close>

text \<open>A document in its padded buffer.\<close>

definition padded :: "bytes \<Rightarrow> nat \<Rightarrow> bool" where
  "padded buf len \<longleftrightarrow> length buf = len + 64 \<and> buf ! len = 0x78 \<and> buf ! (len + 1) = 0x22 \<and> buf ! (len + 2) = 0x78"

definition pos_rel :: "bytes \<Rightarrow> nat \<Rightarrow> nat \<Rightarrow> 's \<Rightarrow> u32 list \<Rightarrow> 's parser \<Rightarrow> bool" where
  "pos_rel buf len p s d st \<longleftrightarrow> agree p buf (p_buf st) \<and> p_len st = len \<and> p_pos st = p \<and> p_err st = kErrorNone
     \<and> cache_ok (p_buf st) p (p_scan st) \<and> p_depth st = d \<and> p_sax st = s"

text \<open>The same with the character at \<open>q\<close> read.\<close>

definition char_rel :: "bytes \<Rightarrow> nat \<Rightarrow> nat \<Rightarrow> 's \<Rightarrow> u32 list \<Rightarrow> 's parser \<Rightarrow> bool" where
  "char_rel buf len q s d st \<longleftrightarrow> agree q buf (p_buf st) \<and> p_len st = len \<and> p_pos st = q + 1 \<and> p_err st = kErrorNone
     \<and> cache_ok (p_buf st) (q + 1) (p_scan st) \<and> p_depth st = d \<and> p_sax st = s"

lemma char_rel_pos: "char_rel buf len q s d st \<Longrightarrow> pos_rel buf len (q + 1) s d st"
  by (auto simp: char_rel_def pos_rel_def intro: agree_later)

lemma padded_space:
  assumes "padded buf len" and "p \<le> len + 2"
  shows "next_nonspace buf p (ref_space buf p)" and "p \<le> ref_space buf p" and "ref_space buf p \<le> max p len"
    and "ref_space buf p + 62 \<le> length buf"
proof -
  have nsp: "\<not> IsSpace (buf ! max p len)"
  proof (cases "p \<le> len")
    case True
    then show ?thesis using assms(1) by (simp add: padded_def IsSpace_def max_def)
  next
    case False
    then have "p = len + 1 \<or> p = len + 2" using assms(2) by linarith
    then show ?thesis using assms(1) by (auto simp: padded_def IsSpace_def)
  qed
  have ml: "max p len < length buf" using assms by (simp add: padded_def)
  show "p \<le> ref_space buf p" by (simp add: ref_space_def run_end_ge)
  show le: "ref_space buf p \<le> max p len"
    unfolding ref_space_def by (rule run_end_le) (use nsp ml in simp_all)
  have "\<not> IsSpace (buf ! ref_space buf p)"
    unfolding ref_space_def by (rule run_end_stop [of p "max p len"]) (use nsp ml in simp_all)
  with le ml show "next_nonspace buf p (ref_space buf p)"
    using run_end_all [of p _ IsSpace buf] run_end_ge [of p IsSpace buf] by (auto simp: next_nonspace_def ref_space_def)
  show "ref_space buf p + 62 \<le> length buf" using le assms by (simp add: padded_def)
qed

lemma agree_nonspace:
  assumes "agree p s t" and "next_nonspace s p q"
  shows "next_nonspace t p q"
  using assms agree_nth [OF assms(1)] agree_length [OF assms(1)] by (auto simp: next_nonspace_def)

lemma parser_space_rel:
  assumes pd: "padded buf len" and p: "p \<le> len + 2" and r: "pos_rel buf len p s d st"
  shows "\<exists>st'. parser_space st = Some (buf ! ref_space buf p, st') \<and> char_rel buf len (ref_space buf p) s d st'"
proof -
  note sp = padded_space [OF pd p]
  let ?q = "ref_space buf p" and ?b = "p_buf st"
  have ag: "agree p buf ?b" and c: "cache_ok ?b p (p_scan st)" and pos: "p_pos st = p" using r by (simp_all add: pos_rel_def)
  have n: "next_nonspace ?b p ?q" by (rule agree_nonspace [OF ag sp(1)])
  have "?q < p + 2 \<or> ?q + 64 \<le> length ?b"
    using sp(3) pd agree_length [OF ag] by (auto simp: padded_def max_def split: if_splits)
  from skip_space_spec [OF c n this] obtain sc where
    sc: "skip_space ?b (p_scan st) p = Some (?b ! ?q, ?q + 1, sc)" "cache_ok ?b (?q + 1) sc" by blast
  have "?b ! ?q = buf ! ?q" using agree_nth [OF ag sp(2)] sp(4) by simp
  with sc r pos agree_later [OF ag sp(2)] show ?thesis
    by (auto simp: parser_space_def char_rel_def pos_rel_def)
qed

subsection \<open>Runs of the machine\<close>

lemma parse_run_simps [simp]:
  "parse_run i fl ck sax None = None"
  "parse_run i fl ck sax (Some (Inl st)) = Some st"
  by (simp_all add: parse_run.simps)

lemma parse_run_step: "parse_run i fl ck sax (Some (Inr x)) = parse_run i fl ck sax (parse_step i fl ck sax x)"
  by (subst parse_run.simps) simp

text \<open>A run does what the reference result says, and goes on from it as \<open>K\<close> says.\<close>

definition run_is :: "'s parser option \<Rightarrow> 's ref_result \<Rightarrow> ('s \<Rightarrow> nat \<Rightarrow> bool) \<Rightarrow> bool" where
  "run_is r ref K \<longleftrightarrow> (case ref of
      RUndef \<Rightarrow> r = None
    | RFail s \<Rightarrow> \<exists>st. r = Some st \<and> p_err st \<noteq> kErrorNone \<and> p_sax st = s
    | RSax s \<Rightarrow> \<exists>st. r = Some st \<and> p_err st = kSaxTermination \<and> p_sax st = s
    | ROk s p \<Rightarrow> K s p)"

lemma run_is_simps [simp]:
  "run_is r RUndef K \<longleftrightarrow> r = None"
  "run_is r (RFail s) K \<longleftrightarrow> (\<exists>st. r = Some st \<and> p_err st \<noteq> kErrorNone \<and> p_sax st = s)"
  "run_is r (RSax s) K \<longleftrightarrow> (\<exists>st. r = Some st \<and> p_err st = kSaxTermination \<and> p_sax st = s)"
  "run_is r (ROk s p) K \<longleftrightarrow> K s p"
  by (simp_all add: run_is_def)

lemma run_is_mono: "run_is r ref K \<Longrightarrow> (\<And>s p. ref = ROk s p \<Longrightarrow> K s p \<Longrightarrow> K' s p) \<Longrightarrow> run_is r ref K'"
  by (cases ref) simp_all

lemma run_invalid [simp]: "parse_run i fl ck sax (err_invalid_char st)
    = Some (if p_err st = kErrorNone then st\<lparr>p_err := kParseErrorInvalidChar\<rparr> else st)"
  by (simp add: err_invalid_char_def)

subsection \<open>Values without members\<close>

text \<open>The positions a parser can be at: within the text, or behind the quote of the padding.\<close>

definition pos_ok :: "nat \<Rightarrow> nat \<Rightarrow> bool" where
  "pos_ok len p \<longleftrightarrow> p \<le> len \<or> p = len + 2"

lemma pos_ok_space: "padded buf len \<Longrightarrow> pos_ok len p \<Longrightarrow> pos_ok len (ref_space buf p) \<and> p \<le> ref_space buf p"
  using padded_space [of buf len p] by (auto simp: pos_ok_def)

lemma pos_ok_char: "padded buf len \<Longrightarrow> pos_ok len q \<Longrightarrow> buf ! q \<noteq> 0x78 \<Longrightarrow> q < len"
  by (auto simp: pos_ok_def padded_def order_less_le)

lemma num_tail_ge: "num_tail s i = Some q \<Longrightarrow> i \<le> q"
  using run_end_ge [of "i + 1" is_digit s] run_end_ge [of "i + 2" is_digit s]
  by (auto simp: num_tail_def exp_end_def exp_start_def split: if_splits)

lemma num_frac_ge: "num_frac s i = Some q \<Longrightarrow> i \<le> q"
  using num_tail_ge [of s "run_end is_digit s (i + 1)" q] num_tail_ge [of s i q] run_end_ge [of "i + 1" is_digit s]
  by (auto simp: num_frac_def split: if_splits)

lemma num_end_gt:
  assumes "num_end s i = Some q" and "num_start s i < length s"
  shows "i < q"
proof -
  let ?j = "num_start s i"
  have ij: "i \<le> ?j" by (simp add: num_start_def)
  have "?j + 1 \<le> run_end is_digit s ?j" if "is_digit (s ! ?j)"
    using that assms(2) run_end_ge [of "?j + 1" is_digit s] by (simp add: run_end_step)
  then have "?j + 1 \<le> q"
    using assms(1) num_frac_ge [of s "?j + 1" q] num_frac_ge [of s "run_end is_digit s ?j" q]
    by (auto simp: num_end_def Let_def split: if_splits)
  with ij show ?thesis by simp
qed

lemma padded_guard: "padded buf len \<Longrightarrow> num_guard buf len"
  by (simp add: padded_def num_guard_def)

lemma parser_number_rel:
  assumes pd: "padded buf len" and q: "q < len" and r: "char_rel buf len q s d st"
  shows "run_is (parser_number fl sax st) (ref_number fl sax buf len q s)
    (\<lambda>s' p. q < p \<and> p \<le> len \<and> (\<exists>st'. parser_number fl sax st = Some st' \<and> pos_rel buf len p s' d st'))"
proof -
  have ag: "agree q buf (p_buf st)" using r by (simp add: char_rel_def)
  have pn: "parseNumber fl (p_buf st) (p_pos st) (p_len st) = parseNumber fl buf (Suc q) len"
    using parseNumber_cong [OF ag, of "Suc q"] r by (simp add: char_rel_def)
  have g: "num_guard buf len" by (rule padded_guard [OF pd])
  have ok: "num_ok True q len (parseNumber fl buf (Suc q) len) (num_end buf q)"
    using parseNumber_ok [OF g] q by simp
  show ?thesis
  proof (cases "parseNumber fl buf (Suc q) len")
    case None
    then show ?thesis using pn by (simp add: ref_number_def parser_number_def)
  next
    case (Some x)
    obtain ev er p where x: "x = (ev, er, p)" by (cases x)
    show ?thesis
    proof (cases ev)
      case None
      then have "er \<noteq> kErrorNone" using ok Some x by (auto simp: num_ok_def split: option.splits)
      then show ?thesis using pn Some x None r by (simp add: ref_number_def parser_number_def char_rel_def)
    next
      case ev: (Some e)
      then have ne: "num_end buf q = Some p" and p: "q \<le> p" "p \<le> len"
        using ok Some x by (auto simp: num_ok_def split: option.splits)
      have "num_start buf q < length buf" using pd q by (simp add: num_start_def padded_def)
      then have qp: "q < p" by (rule num_end_gt [OF ne])
      have c: "cache_ok (p_buf st) p (p_scan st)" "agree p buf (p_buf st)"
        using r cache_ok_later [of "p_buf st" "q + 1" "p_scan st" p] agree_later [OF ag p(1)] qp by (auto simp: char_rel_def)
      show ?thesis using pn Some x ev r qp p c
        by (auto simp: ref_number_def parser_number_def char_rel_def call_sax_def pos_rel_def Let_def split: prod.splits)
    qed
  qed
qed

lemma agree_bytes_at: "agree q s t \<Longrightarrow> q \<le> i \<Longrightarrow> bytes_at s i xs = bytes_at t i xs"
  by (simp add: bytes_at_def agree_length agree_drop)

lemma bytes_at_nth: "bytes_at s i xs \<Longrightarrow> j < length xs \<Longrightarrow> s ! (i + j) = xs ! j"
proof -
  assume a: "bytes_at s i xs" "j < length xs"
  then have t: "take (length xs) (drop i s) = xs" and l: "i \<le> length s" by (simp_all add: bytes_at_def)
  have "take (length xs) (drop i s) ! j = s ! (i + j)" using a(2) l by simp
  then show ?thesis unfolding t by (rule sym)
qed

lemma padded_literal:
  assumes "padded buf len" and "q \<le> len" and "bytes_at buf q xs" and "0x78 \<notin> set xs"
  shows "q + length xs \<le> len"
proof (rule ccontr)
  assume "\<not> q + length xs \<le> len"
  then have "len - q < length xs" using assms(2) by simp
  from bytes_at_nth [OF assms(3) this] assms(1,2) this have "xs ! (len - q) = 0x78" by (simp add: padded_def)
  with \<open>len - q < length xs\<close> have "0x78 \<in> set xs" by (metis nth_mem)
  with assms(4) show False by simp
qed

lemma bytes_at_Cons: "i < length s \<Longrightarrow> bytes_at s i (x # xs) \<longleftrightarrow> s ! i = x \<and> bytes_at s (i + 1) xs"
  by (auto simp: bytes_at_def Cons_nth_drop_Suc [symmetric])

text \<open>What the three literals do, at their different offsets.\<close>

lemma literal_rel:
  assumes pd: "padded buf len" and q: "q < len" and r: "char_rel buf len q s d st"
    and lit: "0x78 \<notin> set lit" "lit \<noteq> []"
    and md: "m = Some (if bytes_at buf q lit then call_sax sax ev (st\<lparr>p_pos := q + length lit\<rparr>)
        else (False, setParseError kParseErrorInvalidChar st))"
  shows "run_is (parse_run i fl ck sax (literal_value m k)) (ref_literal sax buf lit ev q s)
    (\<lambda>s' p. q < p \<and> p \<le> len \<and> (\<exists>st'. parse_run i fl ck sax (literal_value m k) = parse_run i fl ck sax (k st')
       \<and> m = Some (True, st') \<and> pos_rel buf len p s' d st'))"
proof (cases "bytes_at buf q lit")
  case False
  then show ?thesis using r by (simp add: md literal_value_def ref_literal_def setParseError_def sonic_check_err_def char_rel_def)
next
  case True
  have le: "q + length lit \<le> len" using padded_literal [OF pd _ True lit(1)] q by simp
  have ag: "agree q buf (p_buf st)" using r by (simp add: char_rel_def)
  have "q + 1 \<le> q + length lit" using lit(2) by (cases lit) simp_all
  then have c: "cache_ok (p_buf st) (q + length lit) (p_scan st)" "agree (q + length lit) buf (p_buf st)"
    using r cache_ok_later [of "p_buf st" "q + 1" "p_scan st"] agree_later [OF ag] by (auto simp: char_rel_def)
  obtain ok s' where sx: "sax ev s = (ok, s')" by (cases "sax ev s")
  have s: "p_sax st = s" using r by (simp add: char_rel_def)
  show ?thesis using True r c le lit(2) sx s
    by (cases ok) (auto simp: md literal_value_def ref_literal_def call_sax_def sonic_check_err_def char_rel_def pos_rel_def ref_sax_def)
qed

lemma literal_defs:
  assumes pd: "padded buf len" and q: "q < len" and r: "char_rel buf len q s d st"
  shows "parseTrue sax st = Some (if bytes_at buf q [0x74, 0x72, 0x75, 0x65]
      then call_sax sax (EBool True) (st\<lparr>p_pos := q + length [0x74, 0x72, 0x75, 0x65 :: u8]\<rparr>) else (False, setParseError kParseErrorInvalidChar st))"
    and "parseNull sax st = Some (if bytes_at buf q [0x6E, 0x75, 0x6C, 0x6C]
      then call_sax sax ENull (st\<lparr>p_pos := q + length [0x6E, 0x75, 0x6C, 0x6C :: u8]\<rparr>) else (False, setParseError kParseErrorInvalidChar st))"
    and "buf ! q = 0x66 \<Longrightarrow> parseFalse sax st = Some (if bytes_at buf q [0x66, 0x61, 0x6C, 0x73, 0x65]
      then call_sax sax (EBool False) (st\<lparr>p_pos := q + length [0x66, 0x61, 0x6C, 0x73, 0x65 :: u8]\<rparr>) else (False, setParseError kParseErrorInvalidChar st))"
proof -
  have ag: "agree q buf (p_buf st)" and pos: "p_pos st = q + 1" using r by (simp_all add: char_rel_def)
  have l: "q + 4 \<le> length (p_buf st)" "q + 1 + 4 \<le> length (p_buf st)" "q < length buf"
    using pd q agree_length [OF ag] by (simp_all add: padded_def)
  have e: "EqBytes4 (p_buf st) q kTrueBin = Some (bytes_at (p_buf st) q [0x74, 0x72, 0x75, 0x65])"
    "EqBytes4 (p_buf st) q kNullBin = Some (bytes_at (p_buf st) q [0x6E, 0x75, 0x6C, 0x6C])"
    unfolding literal_bins by (rule EqBytes4_spec [OF l(1)])+
  show "parseTrue sax st = Some (if bytes_at buf q [0x74, 0x72, 0x75, 0x65]
      then call_sax sax (EBool True) (st\<lparr>p_pos := q + length [0x74, 0x72, 0x75, 0x65 :: u8]\<rparr>) else (False, setParseError kParseErrorInvalidChar st))"
    using e(1) pos agree_bytes_at [OF ag order_refl] by (simp add: parseTrue_def numeral_eq_Suc)
  show "parseNull sax st = Some (if bytes_at buf q [0x6E, 0x75, 0x6C, 0x6C]
      then call_sax sax ENull (st\<lparr>p_pos := q + length [0x6E, 0x75, 0x6C, 0x6C :: u8]\<rparr>) else (False, setParseError kParseErrorInvalidChar st))"
    using e(2) pos agree_bytes_at [OF ag order_refl] by (simp add: parseNull_def numeral_eq_Suc)
  show "parseFalse sax st = Some (if bytes_at buf q [0x66, 0x61, 0x6C, 0x73, 0x65]
      then call_sax sax (EBool False) (st\<lparr>p_pos := q + length [0x66, 0x61, 0x6C, 0x73, 0x65 :: u8]\<rparr>) else (False, setParseError kParseErrorInvalidChar st))"
    if "buf ! q = 0x66"
  proof -
    have e: "EqBytes4 (p_buf st) (q + 1) kFalseBin = Some (bytes_at (p_buf st) (q + 1) [0x61, 0x6C, 0x73, 0x65])"
      unfolding literal_bins by (rule EqBytes4_spec [OF l(2)])
    have "bytes_at buf q [0x66, 0x61, 0x6C, 0x73, 0x65] \<longleftrightarrow> bytes_at (p_buf st) (q + 1) [0x61, 0x6C, 0x73, 0x65]"
      using that bytes_at_Cons [OF l(3)] agree_bytes_at [OF ag, of "q + 1"] by simp
    then show ?thesis using pos e by (simp add: parseFalse_def numeral_eq_Suc)
  qed
qed

lemma str_scan_closed: "str_scan allow buf src = Some (Inr (t, p)) \<Longrightarrow> 0 < p \<and> buf ! (p - 1) = 0x22"
proof (induction "length buf - src" arbitrary: src t rule: less_induct)
  case less
  show ?case
  proof (cases "str_next allow buf src")
    case None
    then show ?thesis using less.prems by (simp add: str_scan.simps [of allow buf src])
  next
    case (Some it)
    show ?thesis
    proof (cases it)
      case SEnd
      then have "rd buf src = Some 0x22" using Some
        by (auto simp: str_next_def bind_eq_Some_conv split: if_splits option.splits)
      then show ?thesis using less.prems Some SEnd by (auto simp: str_scan.simps [of allow buf src] rd_eq_Some_iff)
    next
      case (SErr e)
      then show ?thesis using less.prems Some by (simp add: str_scan.simps [of allow buf src])
    next
      case (SEmit out src')
      then have lt: "src < src'" "src < length buf" using str_next_advance [of allow buf src out src'] Some by simp_all
      obtain t' where "str_scan allow buf src' = Some (Inr (t', p))"
        using less.prems Some SEmit by (auto simp: str_scan.simps [of allow buf src] prep_def map_sum_Inr)
      moreover have "length buf - src' < length buf - src" using lt by simp
      ultimately show ?thesis by (intro less.hyps)
    qed
  qed
qed

lemma string_helper_rel:
  assumes pd: "padded buf len" and q: "q < len" and r: "char_rel buf len q s d st"
  shows "case str_scan (flags_and fl kParseAllowUnescapedControlChars) buf (q + 1) of
      None \<Rightarrow> False
    | Some (Inl e) \<Rightarrow> \<exists>v st'. parseStringHelper i fl st = Some (v, st') \<and> p_err st' \<noteq> kErrorNone \<and> p_sax st' = s
    | Some (Inr (t, p)) \<Rightarrow> q < p \<and> pos_ok len p
        \<and> (\<exists>st'. parseStringHelper i fl st = Some ((q + 1, t), st') \<and> pos_rel buf len p s d st')"
proof -
  let ?al = "flags_and fl kParseAllowUnescapedControlChars" and ?b = "p_buf st"
  have ag: "agree q buf ?b" and pos: "p_pos st = q + 1" and c: "cache_ok ?b (q + 1) (p_scan st)"
    using r by (simp_all add: char_rel_def)
  have nth: "?b ! j = buf ! j" if "q \<le> j" "j < length buf" for j using agree_nth [OF ag that] by simp
  have g: "str_guard ?b (len + 1)" "str_guard buf (len + 1)"
    using pd q agree_length [OF ag] nth [of len] nth [of "len + 1"] by (simp_all add: padded_def str_guard_def)
  have le: "q + 1 \<le> len + 1" using q by simp
  have sc: "str_scan ?al ?b (q + 1) = str_scan ?al buf (q + 1)"
    by (rule str_scan_cong) (simp add: agree_drop [OF ag])
  show ?thesis
  proof (rule vparse.parse_cases [OF g(1) le, of i ?al])
    fix b t p assume h: "parseStringInplace_vec i ?al ?b (q + 1) = Some (b, p, Inr (length t))"
      "str_written ?b (q + 1) t p b" "str_scan ?al ?b (q + 1) = Some (Inr (t, p))"
    have s: "str_scan ?al buf (q + 1) = Some (Inr (t, p))" using h(3) sc by simp
    have p: "q + 1 < p" "p \<le> len + 2" using guard_scan_end [OF g(2) le s] by simp_all
    have "p \<noteq> len + 1" using str_scan_closed [OF s] pd by (auto simp: padded_def)
    then have ok: "pos_ok len p" using p by (auto simp: pos_ok_def)
    have w: "length b = length ?b" "drop p b = drop p ?b" "take (q + 1 + length t + 1) b = take (q + 1) ?b @ t @ [0]"
      using h(2) by (simp_all add: str_written_def)
    have "agree p buf b" using w agree_length [OF ag] agree_drop [OF ag, of p] p by (simp add: agree_def)
    moreover have "cache_ok b p (p_scan st)"
      by (rule cache_ok_cong [OF cache_ok_later [OF c] w(1,2)]) (use p in simp)
    moreover have "StringView b (q + 1) (length t) = t"
    proof -
      have l: "q + 1 \<le> length ?b" using pd q agree_length [OF ag] by (simp add: padded_def)
      have "StringView b (q + 1) (length t) = take (length t) (drop (q + 1) (take (q + 1 + length t + 1) b))"
        by (simp add: StringView_def drop_take)
      also have "\<dots> = t" using l unfolding w(3) by simp
      finally show ?thesis .
    qed
    ultimately show ?thesis using s p ok h(1) pos r
      by (auto simp: parseStringHelper_def pos_rel_def char_rel_def)
  next
    fix b p er er' assume h: "parseStringInplace_vec i ?al ?b (q + 1) = Some (b, p, Inl er)" "str_scan ?al ?b (q + 1) = Some (Inl er')"
    have "er \<noteq> kErrorNone" using vparse.parse_error [OF h(1)] .
    moreover have s: "str_scan ?al buf (q + 1) = Some (Inl er')" using h(2) sc by simp
    ultimately show ?thesis using h(1) pos r unfolding s by (auto simp: parseStringHelper_def setParseError_def char_rel_def)
  qed
qed

end
