(* ===== verification/Sonic_ParserProof.thy ===== *)
theory Sonic_ParserProof
  imports Sonic_ParserRef
begin

text \<open>
  The label machine of \<open>parseImpl\<close> against the recursive parser: first a value without members, then
  the depth vector and the two kinds of container, then all tasks of the recursive parser by
  induction on its bound, and the whole document.
\<close>

subsection \<open>A value inside a container\<close>

definition cont_pc :: "u32 \<Rightarrow> u8 \<Rightarrow> parse_pc" where
  "cont_pc d = (if d AND kArrMask \<noteq> 0 then LArrCont else LObjCont)"

text \<open>How the machine goes on behind a value in the container \<open>e\<close>.\<close>

definition goes_on :: "isa \<Rightarrow> u32 \<Rightarrow> bool \<Rightarrow> 's sax \<Rightarrow> bytes \<Rightarrow> nat \<Rightarrow> nat \<Rightarrow> u32 list \<Rightarrow> 's parser option \<Rightarrow> 's \<Rightarrow> nat \<Rightarrow> bool" where
  "goes_on i fl ck sax buf len q d r = (\<lambda>s p. q < p \<and> pos_ok len p \<and>
     (\<exists>st'. r = parse_run i fl ck sax (Some (Inr (cont_pc (hd d) (buf ! ref_space buf p), st')))
       \<and> char_rel buf len (ref_space buf p) s d st'))"

lemma goes_onI:
  assumes pd: "padded buf len" and p: "q < p" "pos_ok len p" and r: "pos_rel buf len p s d st"
    and run: "r = parse_run i fl ck sax (do { (c, st) \<leftarrow> parser_space st; Some (Inr (cont_pc (hd d) c, st)) })"
  shows "goes_on i fl ck sax buf len q d r s p"
proof -
  have "p \<le> len + 2" using p(2) by (auto simp: pos_ok_def)
  from parser_space_rel [OF pd this r] show ?thesis using p run by (auto simp: goes_on_def)
qed

lemma literal_goes_on:
  assumes pd: "padded buf len" and q: "q < len" and r: "char_rel buf len q s d st"
    and lit: "0x78 \<notin> set lit" "lit \<noteq> []"
    and md: "m = Some (if bytes_at buf q lit then call_sax sax ev (st\<lparr>p_pos := q + length lit\<rparr>)
        else (False, setParseError kParseErrorInvalidChar st))"
    and run: "run = parse_run i fl ck sax (literal_value m
        (\<lambda>st. do { (c, st) \<leftarrow> parser_space st; Some (Inr (cont_pc (hd d) c, st)) }))"
  shows "run_is run (ref_literal sax buf lit ev q s) (goes_on i fl ck sax buf len q d run)"
  unfolding run
proof (rule run_is_mono [OF literal_rel [OF pd q r lit md]], elim conjE exE)
  let ?next = "\<lambda>st. do { (c, st) \<leftarrow> parser_space st; Some (Inr (cont_pc (hd d) c, st)) }"
  fix s' p st' assume h: "q < p" "p \<le> len" "pos_rel buf len p s' d st'"
    "parse_run i fl ck sax (literal_value m ?next) = parse_run i fl ck sax (?next st')"
  show "goes_on i fl ck sax buf len q d (parse_run i fl ck sax (literal_value m ?next)) s' p"
    by (rule goes_onI [OF pd h(1) _ h(3,4)]) (use h(2) in \<open>simp add: pos_ok_def\<close>)
qed

lemma scalar_rel:
  assumes pd: "padded buf len" and q: "pos_ok len q" and r: "char_rel buf len q s d st"
    and c: "buf ! q \<noteq> 0x7B" "buf ! q \<noteq> 0x5B"
  shows "run_is (parse_run i fl ck sax (parse_element i fl sax (cont_pc (hd d)) (buf ! q) st)) (ref_scalar fl sax buf len q s)
    (goes_on i fl ck sax buf len q d (parse_run i fl ck sax (parse_element i fl sax (cont_pc (hd d)) (buf ! q) st)))"
proof -
  let ?next = "\<lambda>st. do { (c, st) \<leftarrow> parser_space st; Some (Inr (cont_pc (hd d) c, st)) }"
  let ?run = "parse_run i fl ck sax (parse_element i fl sax (cont_pc (hd d)) (buf ! q) st)"
  have le: "pos_ok len p" if "p \<le> len" for p using that by (simp add: pos_ok_def)
  have ql: "q < len" if "buf ! q \<noteq> 0x78" using pos_ok_char [OF pd q that] .
  have err: "p_err st = kErrorNone" "p_sax st = s" using r by (simp_all add: char_rel_def)
  consider (num) "number_start (buf ! q)" | (t) "\<not> number_start (buf ! q)" "buf ! q = 0x74"
    | (f) "\<not> number_start (buf ! q)" "buf ! q = 0x66" | (n) "\<not> number_start (buf ! q)" "buf ! q = 0x6E"
    | (str) "\<not> number_start (buf ! q)" "buf ! q = 0x22"
    | (bad) "\<not> number_start (buf ! q)" "buf ! q \<noteq> 0x74" "buf ! q \<noteq> 0x66" "buf ! q \<noteq> 0x6E" "buf ! q \<noteq> 0x22" by blast
  then show ?thesis
  proof cases
    case num
    then have "buf ! q \<noteq> 0x78" by (auto simp: number_start_def)
    note nr = parser_number_rel [OF pd ql [OF this] r, of fl sax]
    have run: "?run = (case parser_number fl sax st of None \<Rightarrow> None | Some st \<Rightarrow> parse_run i fl ck sax (sonic_check_err st (?next st)))"
      using num c by (simp add: parse_element_def split: option.splits)
    have sr: "ref_scalar fl sax buf len q s = ref_number fl sax buf len q s" using num by (simp add: ref_scalar_def)
    show ?thesis
    proof (cases "ref_number fl sax buf len q s")
      case (ROk s' p)
      with nr obtain st' where h: "q < p" "p \<le> len" "parser_number fl sax st = Some st'" "pos_rel buf len p s' d st'" by auto
      have "?run = parse_run i fl ck sax (?next st')" using h(3,4) run by (simp add: sonic_check_err_def pos_rel_def)
      with goes_onI [OF pd h(1) le [OF h(2)] h(4)] ROk show ?thesis by (simp add: sr)
    qed (use nr run in \<open>auto simp: sr sonic_check_err_def\<close>)
  next
    case t
    have "buf ! q \<noteq> 0x78" using t by simp
    note ql' = ql [OF this]
    have "?run = parse_run i fl ck sax (literal_value (parseTrue sax st) ?next)" using t by (simp add: parse_element_def)
    from literal_goes_on [OF pd ql' r _ _ literal_defs(1) [OF pd ql' r] this] t c
    show ?thesis by (simp add: ref_scalar_def)
  next
    case f
    have "buf ! q \<noteq> 0x78" using f by simp
    note ql' = ql [OF this]
    have "?run = parse_run i fl ck sax (literal_value (parseFalse sax st) ?next)" using f by (simp add: parse_element_def)
    from literal_goes_on [OF pd ql' r _ _ literal_defs(3) [OF pd ql' r f(2)] this] f c
    show ?thesis by (simp add: ref_scalar_def)
  next
    case n
    have "buf ! q \<noteq> 0x78" using n by simp
    note ql' = ql [OF this]
    have "?run = parse_run i fl ck sax (literal_value (parseNull sax st) ?next)" using n by (simp add: parse_element_def)
    from literal_goes_on [OF pd ql' r _ _ literal_defs(2) [OF pd ql' r] this] n c
    show ?thesis by (simp add: ref_scalar_def)
  next
    case str
    have "buf ! q \<noteq> 0x78" using str by simp
    note sh = string_helper_rel [OF pd ql [OF this] r, where fl = fl and i = i]
    have run: "?run = (case parseStrInPlace i fl sax st of None \<Rightarrow> None
        | Some r \<Rightarrow> parse_run i fl ck sax (sonic_sax_check r (\<lambda>st. sonic_check_err st (?next st))))"
      using str by (simp add: parse_element_def split: option.splits)
    have sr: "ref_scalar fl sax buf len q s = ref_string fl sax buf q s" using str by (simp add: ref_scalar_def)
    show ?thesis
    proof (cases "str_scan (flags_and fl kParseAllowUnescapedControlChars) buf (q + 1)")
      case None
      with sh show ?thesis by simp
    next
      case (Some x)
      show ?thesis
      proof (cases x)
        case (Inl e)
        with Some sh obtain v st' where h: "parseStringHelper i fl st = Some (v, st')" "p_err st' \<noteq> kErrorNone" "p_sax st' = s"
          by auto
        have "parseStrInPlace i fl sax st = Some (True, st')" using h(1,2) by (cases v) (simp add: parseStrInPlace_def)
        then show ?thesis using Some Inl run h(2,3) by (simp add: sr ref_string_def sonic_sax_check_def sonic_check_err_def)
      next
        case (Inr y)
        obtain t p where y: "y = (t, p)" by (cases y)
        obtain st' where h: "q < p" "pos_ok len p" "parseStringHelper i fl st = Some ((q + 1, t), st')" "pos_rel buf len p s d st'"
          using sh Some Inr y by auto
        obtain ok s' where sx: "sax (EString (q + 1) t) s = (ok, s')" by (cases "sax (EString (q + 1) t) s")
        have pi: "parseStrInPlace i fl sax st = Some (ok, st'\<lparr>p_sax := s'\<rparr>)"
          using h(3,4) sx by (simp add: parseStrInPlace_def call_sax_def pos_rel_def)
        have pr: "pos_rel buf len p s' d (st'\<lparr>p_sax := s'\<rparr>)" using h(4) by (simp add: pos_rel_def)
        show ?thesis
        proof (cases ok)
          case False
          then show ?thesis using Some Inr y sx pi run h(4)
            by (simp add: sr ref_string_def ref_sax_def sonic_sax_check_def sax_termination_def pos_rel_def)
        next
          case True
          have "?run = parse_run i fl ck sax (?next (st'\<lparr>p_sax := s'\<rparr>))"
            using run pi True pr by (simp add: sonic_sax_check_def sonic_check_err_def pos_rel_def)
          with goes_onI [OF pd h(1,2) pr] True Some Inr y sx show ?thesis by (simp add: sr ref_string_def ref_sax_def)
        qed
      qed
    qed
  next
    case bad
    then show ?thesis using c err by (simp add: parse_element_def ref_scalar_def)
  qed
qed

subsection \<open>The depth vector\<close>

definition arr_depth :: "nat \<Rightarrow> u32" where "arr_depth k = kArrMask + word_of_nat k"

lemma depth_mask: "w AND kArrMask \<noteq> 0 \<longleftrightarrow> bit (w :: u32) 31"
proof -
  have p: "k < 32 \<Longrightarrow> bit (push_bit k (1 :: u32)) j \<longleftrightarrow> j = k" for k j
    by (auto simp: bit_exp_iff)
  have "bit (w AND kArrMask) j \<longleftrightarrow> j = 31 \<and> bit w 31" for j
    unfolding kArrMask_def bit_and_iff using p [of 31 j] by auto
  then show ?thesis by (metis bit_0_eq bot_apply bot_bool_def bit_eq_iff)
qed

lemma arr_depth_unat: "k < 2 ^ 31 \<Longrightarrow> unat (arr_depth k) = 2 ^ 31 + k"
proof -
  assume k: "k < 2 ^ 31"
  have "unat (word_of_nat k :: u32) = k" using k by (simp add: unsigned_of_nat take_bit_nat_eq_self_iff)
  moreover have "unat kArrMask = 2 ^ 31" by (simp add: kArrMask_def)
  ultimately show ?thesis using k by (simp add: arr_depth_def unat_word_ariths)
qed

lemma bit_31: "bit (w :: u32) 31 \<longleftrightarrow> odd (unat w div 2 ^ 31)"
proof -
  have "bit w 31 \<longleftrightarrow> bit (unat w) 31" by (simp add: bit_unsigned_iff)
  then show ?thesis by (simp add: bit_iff_odd)
qed

lemma cont_arr: "k < 2 ^ 31 \<Longrightarrow> cont_pc (arr_depth k) = LArrCont"
proof -
  assume k: "k < 2 ^ 31"
  then have "(2 ^ 31 + k) div 2 ^ 31 = 1" by (intro div_nat_eqI) simp_all
  then have "odd (unat (arr_depth k) div 2 ^ 31)" unfolding arr_depth_unat [OF k] by simp
  then show ?thesis by (simp add: cont_pc_def depth_mask bit_31)
qed

lemma cont_obj: "k < 2 ^ 31 \<Longrightarrow> cont_pc (word_of_nat k) = LObjCont"
proof -
  assume k: "k < 2 ^ 31"
  then have "unat (word_of_nat k :: u32) = k" by (simp add: unsigned_of_nat take_bit_nat_eq_self_iff)
  then show ?thesis using k by (simp add: cont_pc_def depth_mask bit_31)
qed

lemma arr_depth_count: "k < 2 ^ 31 \<Longrightarrow> arr_depth k AND (kArrMask - 1) = word_of_nat k"
proof -
  assume k: "k < 2 ^ 31"
  have m: "kArrMask - 1 = mask 31" by (simp add: kArrMask_def mask_eq_decr_exp push_bit_eq_mult)
  have "unat (arr_depth k AND (kArrMask - 1)) = (2 ^ 31 + k) mod 2 ^ 31"
    unfolding m unat_low_mask arr_depth_unat [OF k] ..
  also have "\<dots> = k" using k by simp
  also have "\<dots> = unat (word_of_nat k :: u32)" using k by (simp add: unsigned_of_nat take_bit_nat_eq_self)
  finally show ?thesis by (simp only: word_unat_eq_iff)
qed

lemma arr_depth_Suc: "arr_depth k + 1 = arr_depth (k + 1)"
  by (simp add: arr_depth_def)

lemma arr_depth_0: "kArrMask = arr_depth 0"
  by (simp add: arr_depth_def)

subsection \<open>Containers\<close>

text \<open>How the machine goes on behind a container: the closing label, the depth entry still there.\<close>

definition closes :: "isa \<Rightarrow> u32 \<Rightarrow> bool \<Rightarrow> 's sax \<Rightarrow> bytes \<Rightarrow> nat \<Rightarrow> nat \<Rightarrow> u32 list \<Rightarrow> 's parser option \<Rightarrow> 's \<Rightarrow> nat \<Rightarrow> bool" where
  "closes i fl ck sax buf len q d r = (\<lambda>s p. q < p \<and> p \<le> len \<and>
     (\<exists>st' x. r = parse_run i fl ck sax (Some (Inr (LScopeEnd, st'))) \<and> pos_rel buf len p s (x # d) st'))"

lemma end_rel:
  assumes r: "char_rel buf len q s (x # d) st" and q: "q0 \<le> q" "q < len"
  shows "run_is (parse_run i fl ck sax (sonic_sax_check (call_sax sax ev st) (\<lambda>st. Some (Inr (LScopeEnd, st)))))
    (ref_sax sax ev s (q + 1))
    (closes i fl ck sax buf len q0 d (parse_run i fl ck sax (sonic_sax_check (call_sax sax ev st) (\<lambda>st. Some (Inr (LScopeEnd, st))))))"
proof -
  obtain ok s' where sx: "sax ev s = (ok, s')" by (cases "sax ev s")
  have s: "p_sax st = s" "p_err st = kErrorNone" using r by (simp_all add: char_rel_def)
  have pr: "pos_rel buf len (q + 1) s' (x # d) (st\<lparr>p_sax := s'\<rparr>)" using char_rel_pos [OF r] by (simp add: pos_rel_def)
  show ?thesis
  proof (cases ok)
    case False
    then show ?thesis using sx s by (simp add: call_sax_def ref_sax_def sonic_sax_check_def sax_termination_def)
  next
    case True
    then show ?thesis using sx s q pr by (auto simp: call_sax_def ref_sax_def sonic_sax_check_def closes_def)
  qed
qed

lemma scope_end_rel:
  assumes pd: "padded buf len" and p: "p \<le> len" and r: "pos_rel buf len p s (x # d) st"
  shows "d = [] \<Longrightarrow> \<exists>st'. parse_run i fl ck sax (Some (Inr (LScopeEnd, st))) = Some st' \<and> pos_rel buf len p s [] st'"
    and "d \<noteq> [] \<Longrightarrow> \<exists>st'. parse_run i fl ck sax (Some (Inr (LScopeEnd, st)))
       = parse_run i fl ck sax (Some (Inr (cont_pc (hd d) (buf ! ref_space buf p), st')))
       \<and> char_rel buf len (ref_space buf p) s d st'"
proof -
  have r': "pos_rel buf len p s d (st\<lparr>p_depth := d\<rparr>)" using r by (simp add: pos_rel_def)
  have e: "p_err st = kErrorNone" "p_depth st = x # d" using r by (simp_all add: pos_rel_def)
  show "\<exists>st'. parse_run i fl ck sax (Some (Inr (LScopeEnd, st))) = Some st' \<and> pos_rel buf len p s [] st'" if "d = []"
    using that e r' by (simp add: parse_run_step parse_step_def step_scope_end_def sonic_check_err_def)
  show "\<exists>st'. parse_run i fl ck sax (Some (Inr (LScopeEnd, st)))
       = parse_run i fl ck sax (Some (Inr (cont_pc (hd d) (buf ! ref_space buf p), st')))
       \<and> char_rel buf len (ref_space buf p) s d st'" if ne: "d \<noteq> []"
  proof -
    obtain y ys where d: "d = y # ys" using ne by (cases d) auto
    have "p \<le> len + 2" using p by simp
    from parser_space_rel [OF pd this r'] obtain st' where
      st': "parser_space (st\<lparr>p_depth := d\<rparr>) = Some (buf ! ref_space buf p, st')" "char_rel buf len (ref_space buf p) s d st'" by blast
    have "parse_step i fl ck sax (LScopeEnd, st) = Some (Inr (cont_pc (hd d) (buf ! ref_space buf p), st'))"
      using e st'(1) by (simp add: parse_step_def step_scope_end_def sonic_check_err_def d cont_pc_def)
    with st'(2) show ?thesis by (auto simp: parse_run_step)
  qed
qed

lemma closes_goes_on:
  assumes pd: "padded buf len" and c: "closes i fl ck sax buf len q d r s p" and d: "d \<noteq> []"
  shows "goes_on i fl ck sax buf len q d r s p"
proof -
  obtain st' x where h: "q < p" "p \<le> len" "r = parse_run i fl ck sax (Some (Inr (LScopeEnd, st')))"
    "pos_rel buf len p s (x # d) st'" using c by (auto simp: closes_def)
  with scope_end_rel(2) [OF pd h(2,4) d] show ?thesis by (auto simp: goes_on_def pos_ok_def)
qed

text \<open>Opening a container of either kind, given what its members do.\<close>

lemma open_rel:
  assumes pd: "padded buf len" and q: "q < len" and r: "char_rel buf len q s d st"
    and cl: "cl \<noteq> 0x78"
    and op: "op = sonic_sax_check (call_sax sax ev st) (\<lambda>st. do {
        (c, st) \<leftarrow> parser_space (st\<lparr>p_depth := x # p_depth st\<rparr>);
        if c = cl then sonic_sax_check (call_sax sax ev' st) (\<lambda>st. Some (Inr (LScopeEnd, st)))
        else Some (Inr (lab c, st)) })"
    and m: "\<And>s st. char_rel buf len (ref_space buf (q + 1)) s (x # d) st \<Longrightarrow>
      run_is (parse_run i fl ck sax (Some (Inr (lab (buf ! ref_space buf (q + 1)), st))))
        (mem s) (closes i fl ck sax buf len (ref_space buf (q + 1)) d
          (parse_run i fl ck sax (Some (Inr (lab (buf ! ref_space buf (q + 1)), st)))))"
  shows "run_is (parse_run i fl ck sax op)
    (case sax ev s of (ok, s) \<Rightarrow>
        if \<not> ok then RSax s
        else if buf ! ref_space buf (q + 1) = cl then ref_sax sax ev' s (ref_space buf (q + 1) + 1)
        else mem s)
    (closes i fl ck sax buf len q d (parse_run i fl ck sax op))"
proof -
  obtain ok s' where sx: "sax ev s = (ok, s')" by (cases "sax ev s")
  have s: "p_sax st = s" "p_err st = kErrorNone" "p_depth st = d" using r by (simp_all add: char_rel_def)
  let ?q = "ref_space buf (q + 1)" and ?st = "st\<lparr>p_sax := s', p_depth := x # d\<rparr>"
  have q1: "q + 1 \<le> len + 2" using q by simp
  have qq: "q < ?q" "pos_ok len ?q" using pos_ok_space [OF pd, of "q + 1"] q by (auto simp: pos_ok_def)
  show ?thesis
  proof (cases ok)
    case False
    then show ?thesis using sx s by (simp add: op call_sax_def sonic_sax_check_def sax_termination_def)
  next
    case True
    have "pos_rel buf len (q + 1) s' (x # d) ?st" using char_rel_pos [OF r] by (simp add: pos_rel_def)
    from parser_space_rel [OF pd q1 this] obtain st' where
      st': "parser_space ?st = Some (buf ! ?q, st')" "char_rel buf len ?q s' (x # d) st'" by blast
    have run: "op = (if buf ! ?q = cl
        then sonic_sax_check (call_sax sax ev' st') (\<lambda>st. Some (Inr (LScopeEnd, st)))
        else Some (Inr (lab (buf ! ?q), st')))"
      using sx s True st'(1) by (simp add: op call_sax_def sonic_sax_check_def)
    show ?thesis
    proof (cases "buf ! ?q = cl")
      case b: True
      then have ql: "?q < len" using pos_ok_char [OF pd qq(2)] cl by simp
      from end_rel [OF st'(2) less_imp_le [OF qq(1)] ql] b sx True show ?thesis by (simp add: run)
    next
      case False
      have "run_is (parse_run i fl ck sax op) (mem s') (closes i fl ck sax buf len ?q d (parse_run i fl ck sax op))"
        using m [OF st'(2)] False by (simp add: run)
      then have "run_is (parse_run i fl ck sax op) (mem s') (closes i fl ck sax buf len q d (parse_run i fl ck sax op))"
        by (rule run_is_mono) (use qq(1) in \<open>auto simp: closes_def\<close>)
      with False sx True show ?thesis by simp
    qed
  qed
qed

subsection \<open>The machine against the recursive parser\<close>

text \<open>What each task is for the machine, from a state that has read the task's first character.\<close>

definition task_run :: "isa \<Rightarrow> u32 \<Rightarrow> bool \<Rightarrow> 's sax \<Rightarrow> bytes \<Rightarrow> nat \<Rightarrow> ref_task \<Rightarrow> nat \<Rightarrow> bool" where
  "task_run i fl ck sax buf len t n \<longleftrightarrow> (\<forall>s d st. case t of
     TValue q \<Rightarrow> char_rel buf len q s d st \<longrightarrow> pos_ok len q \<longrightarrow>
       (let r = parse_run i fl ck sax (parse_element i fl sax (cont_pc (hd d)) (buf ! q) st) in
        if buf ! q = 0x7B \<or> buf ! q = 0x5B
        then run_is r (ref_run n fl sax buf len t s) (closes i fl ck sax buf len q d r)
        else d \<noteq> [] \<longrightarrow> run_is r (ref_run n fl sax buf len t s) (goes_on i fl ck sax buf len q d r))
   | TElems q k \<Rightarrow> char_rel buf len q s (arr_depth k # d) st \<longrightarrow> pos_ok len q \<longrightarrow> k \<le> q \<longrightarrow>
       (let r = parse_run i fl ck sax (Some (Inr (LArrVal (buf ! q), st)))
        in run_is r (ref_run n fl sax buf len t s) (closes i fl ck sax buf len q d r))
   | TMembers q k \<Rightarrow> char_rel buf len q s (word_of_nat k # d) st \<longrightarrow> pos_ok len q \<longrightarrow> k \<le> q \<longrightarrow>
       (let r = parse_run i fl ck sax (Some (Inr (LObjKey (buf ! q), st)))
        in run_is r (ref_run n fl sax buf len t s) (closes i fl ck sax buf len q d r)))"

text \<open>The recursion still allowed suffices for what is left of the text.\<close>

fun task_fuel :: "nat \<Rightarrow> ref_task \<Rightarrow> nat" where
  "task_fuel len (TValue q) = 2 * (len + 3 - q) + 1"
| "task_fuel len (TElems q k) = 2 * (len + 3 - q) + 2"
| "task_fuel len (TMembers q k) = 2 * (len + 3 - q) + 2"

lemma value_step:
  fixes sax :: "'s sax"
  assumes pd: "padded buf len"
    and IH: "\<And>t. task_fuel len t \<le> n \<Longrightarrow> task_run i fl ck sax buf len t n"
    and f: "task_fuel len (TValue q) \<le> Suc n"
  shows "task_run i fl ck sax buf len (TValue q) (Suc n)"
  unfolding task_run_def
proof (simp only: ref_task.case, intro allI impI)
  fix s :: 's and d and st :: "'s parser"
  assume r: "char_rel buf len q s d st" and q: "pos_ok len q"
  let ?q = "ref_space buf (q + 1)" and ?r = "parse_run i fl ck sax (parse_element i fl sax (cont_pc (hd d)) (buf ! q) st)"
  have ql: "q < len" if "buf ! q = 0x7B \<or> buf ! q = 0x5B" using that pos_ok_char [OF pd q] by auto
  have sub: "pos_ok len ?q" "task_fuel len (TMembers ?q 0) \<le> n" "task_fuel len (TElems ?q 0) \<le> n" if "q < len"
    using that pos_ok_space [OF pd, of "q + 1"] f by (auto simp: pos_ok_def)
  consider (obj) "buf ! q = 0x7B" | (arr) "buf ! q = 0x5B" | (other) "buf ! q \<noteq> 0x7B" "buf ! q \<noteq> 0x5B" by blast
  then show "let r = ?r in
        if buf ! q = 0x7B \<or> buf ! q = 0x5B
        then run_is r (ref_run (Suc n) fl sax buf len (TValue q) s) (closes i fl ck sax buf len q d r)
        else d \<noteq> [] \<longrightarrow> run_is r (ref_run (Suc n) fl sax buf len (TValue q) s) (goes_on i fl ck sax buf len q d r)"
  proof cases
    case obj
    then have l: "q < len" using ql by simp
    have "run_is (parse_run i fl ck sax (open_object sax st))
        (case sax EStartObject s of (ok, s) \<Rightarrow>
          if \<not> ok then RSax s
          else if buf ! ?q = 0x7D then ref_sax sax (EEndObject 0) s (?q + 1)
          else ref_run n fl sax buf len (TMembers ?q 0) s)
        (closes i fl ck sax buf len q d (parse_run i fl ck sax (open_object sax st)))"
    proof (rule open_rel [OF pd l r _ open_object_def, unfolded kObjMask_def])
      show "run_is (parse_run i fl ck sax (Some (Inr (LObjKey (buf ! ?q), st)))) (ref_run n fl sax buf len (TMembers ?q 0) s)
          (closes i fl ck sax buf len ?q d (parse_run i fl ck sax (Some (Inr (LObjKey (buf ! ?q), st)))))"
        if "char_rel buf len ?q s (0 # d) st" for s st
        using IH [OF sub(2) [OF l]] that sub(1) [OF l] by (auto simp: task_run_def Let_def)
    qed simp
    with obj show ?thesis by (simp add: parse_element_def)
  next
    case arr
    then have l: "q < len" using ql by simp
    have "run_is (parse_run i fl ck sax (open_array sax st))
        (case sax EStartArray s of (ok, s) \<Rightarrow>
          if \<not> ok then RSax s
          else if buf ! ?q = 0x5D then ref_sax sax (EEndArray 0) s (?q + 1)
          else ref_run n fl sax buf len (TElems ?q 0) s)
        (closes i fl ck sax buf len q d (parse_run i fl ck sax (open_array sax st)))"
    proof (rule open_rel [OF pd l r _ open_array_def, unfolded arr_depth_0])
      show "run_is (parse_run i fl ck sax (Some (Inr (LArrVal (buf ! ?q), st)))) (ref_run n fl sax buf len (TElems ?q 0) s)
          (closes i fl ck sax buf len ?q d (parse_run i fl ck sax (Some (Inr (LArrVal (buf ! ?q), st)))))"
        if "char_rel buf len ?q s (arr_depth 0 # d) st" for s st
        using IH [OF sub(3) [OF l]] that sub(1) [OF l] by (auto simp: task_run_def Let_def)
    qed simp
    with arr show ?thesis by (simp add: parse_element_def)
  next
    case other
    with scalar_rel [OF pd q r] show ?thesis by simp
  qed
qed

lemma value_goes_on:
  assumes pd: "padded buf len" and t: "task_run i fl ck sax buf len (TValue q) n"
    and r: "char_rel buf len q s d st" and q: "pos_ok len q" and d: "d \<noteq> []"
  shows "run_is (parse_run i fl ck sax (parse_element i fl sax (cont_pc (hd d)) (buf ! q) st))
    (ref_run n fl sax buf len (TValue q) s)
    (goes_on i fl ck sax buf len q d (parse_run i fl ck sax (parse_element i fl sax (cont_pc (hd d)) (buf ! q) st)))"
proof (cases "buf ! q = 0x7B \<or> buf ! q = 0x5B")
  case True
  then have "run_is (parse_run i fl ck sax (parse_element i fl sax (cont_pc (hd d)) (buf ! q) st))
    (ref_run n fl sax buf len (TValue q) s)
    (closes i fl ck sax buf len q d (parse_run i fl ck sax (parse_element i fl sax (cont_pc (hd d)) (buf ! q) st)))"
    using t r q by (auto simp: task_run_def Let_def)
  then show ?thesis by (rule run_is_mono) (rule closes_goes_on [OF pd _ d])
next
  case False
  then show ?thesis using t r q d by (auto simp: task_run_def Let_def)
qed

lemma closes_later: "closes i fl ck sax buf len q d r s p \<Longrightarrow> q0 \<le> q \<Longrightarrow> closes i fl ck sax buf len q0 d r s p"
  by (auto simp: closes_def)

lemma depth_inc_rel: "char_rel buf len q s (x # d) st \<Longrightarrow> \<exists>st'. depth_inc st = Some st' \<and> char_rel buf len q s ((x + 1) # d) st'"
  by (simp add: depth_inc_def char_rel_def)

text \<open>
  Behind a member: a comma and the rest, the closing bracket, or an error; the same for both kinds of container.
\<close>

lemma member_end_rel:
  assumes pd: "padded buf len" and q: "pos_ok len q" "q0 \<le> q" and r: "char_rel buf len q s (x # d) st"
    and cl: "cl \<noteq> 0x78" "cl \<noteq> 0x2C"
    and step: "op = (if buf ! q = 0x2C then do { (c, st) \<leftarrow> parser_space st; Some (Inr (lab c, st)) }
        else if buf ! q = cl then sonic_sax_check (call_sax sax ev st) (\<lambda>st. Some (Inr (LScopeEnd, st)))
        else err_invalid_char st)"
    and rest: "\<And>st. q < len \<Longrightarrow> char_rel buf len (ref_space buf (q + 1)) s (x # d) st \<Longrightarrow> pos_ok len (ref_space buf (q + 1)) \<Longrightarrow>
      q < ref_space buf (q + 1) \<Longrightarrow>
      run_is (parse_run i fl ck sax (Some (Inr (lab (buf ! ref_space buf (q + 1)), st))))
        mem (closes i fl ck sax buf len (ref_space buf (q + 1)) d
          (parse_run i fl ck sax (Some (Inr (lab (buf ! ref_space buf (q + 1)), st)))))"
  shows "run_is (parse_run i fl ck sax op)
    (if buf ! q = 0x2C then mem else if buf ! q = cl then ref_sax sax ev s (q + 1) else RFail s)
    (closes i fl ck sax buf len q0 d (parse_run i fl ck sax op))"
proof -
  have ql: "q < len" if "buf ! q = 0x2C \<or> buf ! q = cl" using that cl pos_ok_char [OF pd q(1)] by auto
  consider (comma) "buf ! q = 0x2C" | (close) "buf ! q \<noteq> 0x2C" "buf ! q = cl" | (bad) "buf ! q \<noteq> 0x2C" "buf ! q \<noteq> cl" by blast
  then show ?thesis
  proof cases
    case comma
    then have l: "q < len" using ql by simp
    then have q1: "q + 1 \<le> len + 2" and qq: "pos_ok len (ref_space buf (q + 1))" "q < ref_space buf (q + 1)"
      using pos_ok_space [OF pd, of "q + 1"] by (auto simp: pos_ok_def)
    obtain st' where st': "parser_space st = Some (buf ! ref_space buf (q + 1), st')"
        "char_rel buf len (ref_space buf (q + 1)) s (x # d) st'"
      using parser_space_rel [OF pd q1 char_rel_pos [OF r]] by blast
    have op: "op = Some (Inr (lab (buf ! ref_space buf (q + 1)), st'))" using comma st'(1) by (simp add: step)
    have "run_is (parse_run i fl ck sax op) mem (closes i fl ck sax buf len q0 d (parse_run i fl ck sax op))"
      unfolding op
    proof (rule run_is_mono [OF rest [OF l st'(2) qq]])
      show "closes i fl ck sax buf len q0 d r s p" if "closes i fl ck sax buf len (ref_space buf (q + 1)) d r s p" for r s p
        by (rule closes_later [OF that]) (use q(2) qq(2) in simp)
    qed
    then show ?thesis using comma by simp
  next
    case close
    then have "op = sonic_sax_check (call_sax sax ev st) (\<lambda>st. Some (Inr (LScopeEnd, st)))" by (simp add: step)
    with end_rel [OF r q(2)] ql close show ?thesis by simp
  next
    case bad
    then show ?thesis using r by (simp add: step char_rel_def)
  qed
qed

lemma elems_step:
  fixes sax :: "'s sax"
  assumes pd: "padded buf len" and big: "len + 2 < 2 ^ 31"
    and IH: "\<And>t. task_fuel len t \<le> n \<Longrightarrow> task_run i fl ck sax buf len t n"
    and f: "task_fuel len (TElems q k) \<le> Suc n"
  shows "task_run i fl ck sax buf len (TElems q k) (Suc n)"
  unfolding task_run_def Let_def
proof (simp only: ref_task.case, intro allI impI)
  fix s :: 's and d and st :: "'s parser"
  assume r: "char_rel buf len q s (arr_depth k # d) st" and q: "pos_ok len q" and k: "k \<le> q"
  let ?r = "parse_run i fl ck sax (Some (Inr (LArrVal (buf ! q), st)))"
  have k31: "k < 2 ^ 31" using q k big by (auto simp: pos_ok_def)
  have fu: "task_fuel len (TValue q) \<le> n" using f by simp
  have run: "?r = parse_run i fl ck sax (parse_element i fl sax (cont_pc (hd (arr_depth k # d))) (buf ! q) st)"
    using cont_arr [OF k31] by (simp add: parse_run_step parse_step_def)
  have v: "run_is ?r (ref_run n fl sax buf len (TValue q) s) (goes_on i fl ck sax buf len q (arr_depth k # d) ?r)"
    unfolding run by (rule value_goes_on [OF pd IH [OF fu] r q]) simp
  show "run_is ?r (ref_run (Suc n) fl sax buf len (TElems q k) s) (closes i fl ck sax buf len q d ?r)"
  proof (cases "ref_run n fl sax buf len (TValue q) s")
    case (ROk s' p)
    let ?p = "ref_space buf p"
    obtain st' where h: "q < p" "pos_ok len p" "?r = parse_run i fl ck sax (Some (Inr (LArrCont (buf ! ?p), st')))"
        "char_rel buf len ?p s' (arr_depth k # d) st'"
      using v ROk cont_arr [OF k31] by (auto simp: goes_on_def)
    obtain st2 where st2: "depth_inc st' = Some st2" "char_rel buf len ?p s' (arr_depth (k + 1) # d) st2"
      using depth_inc_rel [OF h(4)] arr_depth_Suc by auto
    have p: "pos_ok len ?p" "q < ?p" using pos_ok_space [OF pd h(2)] h(1) by auto
    have k31': "k + 1 < 2 ^ 31" using k p big by (auto simp: pos_ok_def)
    have dp: "rd (p_depth st2) 0 = Some (arr_depth (k + 1))" using st2(2) by (simp add: char_rel_def rd_def)
    have op: "?r = parse_run i fl ck sax (step_arr_cont sax (buf ! ?p) st')"
      unfolding h(3) by (simp add: parse_run_step parse_step_def)
    have "run_is ?r (if buf ! ?p = 0x2C then ref_run n fl sax buf len (TElems (ref_space buf (?p + 1)) (k + 1)) s'
          else if buf ! ?p = 0x5D then ref_sax sax (EEndArray (word_of_nat (k + 1))) s' (?p + 1) else RFail s')
        (closes i fl ck sax buf len q d ?r)"
      unfolding op
    proof (rule member_end_rel [OF pd p(1) less_imp_le [OF p(2)] st2(2), where lab = LArrVal])
      show "step_arr_cont sax (buf ! ?p) st' =
        (if buf ! ?p = 0x2C then do { (c, st) \<leftarrow> parser_space st2; Some (Inr (LArrVal c, st)) }
         else if buf ! ?p = 0x5D
         then sonic_sax_check (call_sax sax (EEndArray (word_of_nat (k + 1))) st2) (\<lambda>st. Some (Inr (LScopeEnd, st)))
         else err_invalid_char st2)"
        unfolding step_arr_cont_def st2(1) arr_depth_count [OF k31', symmetric] by (simp add: dp)
      show "run_is (parse_run i fl ck sax (Some (Inr (LArrVal (buf ! ref_space buf (?p + 1)), st))))
          (ref_run n fl sax buf len (TElems (ref_space buf (?p + 1)) (k + 1)) s')
          (closes i fl ck sax buf len (ref_space buf (?p + 1)) d
            (parse_run i fl ck sax (Some (Inr (LArrVal (buf ! ref_space buf (?p + 1)), st)))))"
        if g: "?p < len" "char_rel buf len (ref_space buf (?p + 1)) s' (arr_depth (k + 1) # d) st"
          "pos_ok len (ref_space buf (?p + 1))" "?p < ref_space buf (?p + 1)" for st
      proof -
        have "task_fuel len (TElems (ref_space buf (?p + 1)) (k + 1)) \<le> n" using f g(1,4) p(2) by simp
        from IH [OF this] g k p(2) show ?thesis by (auto simp: task_run_def Let_def)
      qed
    qed simp_all
    with ROk show ?thesis by simp
  qed (use v in auto)
qed

lemma members_step:
  fixes sax :: "'s sax"
  assumes pd: "padded buf len" and big: "len + 2 < 2 ^ 31" and ck: "\<not> ck"
    and IH: "\<And>t. task_fuel len t \<le> n \<Longrightarrow> task_run i fl ck sax buf len t n"
    and f: "task_fuel len (TMembers q k) \<le> Suc n"
  shows "task_run i fl ck sax buf len (TMembers q k) (Suc n)"
  unfolding task_run_def Let_def
proof (simp only: ref_task.case, intro allI impI)
  fix s :: 's and d and st :: "'s parser"
  assume r: "char_rel buf len q s (word_of_nat k # d) st" and q: "pos_ok len q" and k: "k \<le> q"
  let ?r = "parse_run i fl ck sax (Some (Inr (LObjKey (buf ! q), st)))"
  let ?al = "flags_and fl kParseAllowUnescapedControlChars"
  have k31: "k < 2 ^ 31" using q k big by (auto simp: pos_ok_def)
  have run: "?r = parse_run i fl ck sax (step_obj_key i fl ck sax (buf ! q) st)" by (simp add: parse_run_step parse_step_def)
  show "run_is ?r (ref_run (Suc n) fl sax buf len (TMembers q k) s) (closes i fl ck sax buf len q d ?r)"
  proof (cases "buf ! q = 0x22")
    case False
    then show ?thesis using r by (simp add: run step_obj_key_def char_rel_def)
  next
    case qt: True
    then have ql: "q < len" using pos_ok_char [OF pd q] by simp
    note sh = string_helper_rel [OF pd ql r, where fl = fl and i = i]
    show ?thesis
    proof (cases "str_scan ?al buf (q + 1)")
      case None
      with sh show ?thesis by simp
    next
      case sc: (Some x)
      show ?thesis
      proof (cases x)
        case (Inl e)
        with sc sh obtain v st' where h: "parseStringHelper i fl st = Some (v, st')" "p_err st' \<noteq> kErrorNone" "p_sax st' = s"
          by auto
        have "parseKeyInPlace i fl sax st = Some (True, st')" using h(1,2) by (cases v) (simp add: parseKeyInPlace_def)
        then show ?thesis unfolding run using sc Inl qt h(2,3) by (simp add: step_obj_key_def sonic_check_err_def)
      next
        case (Inr y)
        obtain t p where y: "y = (t, p)" by (cases y)
        obtain st' where h: "q < p" "pos_ok len p" "parseStringHelper i fl st = Some ((q + 1, t), st')"
            "pos_rel buf len p s (word_of_nat k # d) st'"
          using sh sc Inr y by auto
        obtain ok s' where sx: "sax (EKey (q + 1) t) s = (ok, s')" by (cases "sax (EKey (q + 1) t) s")
        let ?st = "st'\<lparr>p_sax := s'\<rparr>" and ?p = "ref_space buf p" and ?v = "ref_space buf (ref_space buf p + 1)"
        have ki: "parseKeyInPlace i fl sax st = Some (ok, ?st)"
          using h(3,4) sx by (simp add: parseKeyInPlace_def call_sax_def pos_rel_def)
        have pr: "pos_rel buf len p s' (word_of_nat k # d) ?st" using h(4) by (simp add: pos_rel_def)
        have p2: "p \<le> len + 2" using h(2) by (auto simp: pos_ok_def)
        obtain st1 where st1: "parser_space ?st = Some (buf ! ?p, st1)" "char_rel buf len ?p s' (word_of_nat k # d) st1"
          using parser_space_rel [OF pd p2 pr] by blast
        have p: "pos_ok len ?p" "q < ?p" using pos_ok_space [OF pd h(2)] h(1) by auto
        have e: "p_err ?st = kErrorNone" "p_err st1 = kErrorNone" "p_sax st1 = s'"
          using pr st1(2) by (simp_all add: pos_rel_def char_rel_def)
        have run1: "?r = parse_run i fl ck sax (if buf ! ?p \<noteq> 0x3A then err_invalid_char st1
            else if \<not> ok then Some (Inl (sax_termination st1))
            else do { (c, st) \<leftarrow> parser_space st1; parse_element i fl sax LObjCont c st })"
          unfolding run using qt ki st1(1) e(1) ck by (simp add: step_obj_key_def sonic_check_err_def)
        show ?thesis
        proof (cases "buf ! ?p = 0x3A \<and> ok")
          case False
          then show ?thesis unfolding run1 using qt sc Inr y sx e by (auto simp: sax_termination_def)
        next
          case colon: True
          then have pl: "?p < len" using pos_ok_char [OF pd p(1)] by simp
          have v: "pos_ok len ?v" "?p < ?v" using pos_ok_space [OF pd, of "?p + 1"] pl by (auto simp: pos_ok_def)
          have p3: "?p + 1 \<le> len + 2" using pl by simp
          obtain st3 where st3: "parser_space st1 = Some (buf ! ?v, st3)" "char_rel buf len ?v s' (word_of_nat k # d) st3"
            using parser_space_rel [OF pd p3 char_rel_pos [OF st1(2)]] by blast
          have run2: "?r = parse_run i fl ck sax (parse_element i fl sax (cont_pc (hd (word_of_nat k # d))) (buf ! ?v) st3)"
            using run1 colon st3(1) cont_obj [OF k31] by simp
          have fu: "task_fuel len (TValue ?v) \<le> n" using f v p ql by simp
          have vr: "run_is ?r (ref_run n fl sax buf len (TValue ?v) s') (goes_on i fl ck sax buf len ?v (word_of_nat k # d) ?r)"
            unfolding run2 by (rule value_goes_on [OF pd IH [OF fu] st3(2) v(1)]) simp
          show ?thesis
          proof (cases "ref_run n fl sax buf len (TValue ?v) s'")
            case (ROk s2 w)
            let ?w = "ref_space buf w"
            obtain st4 where h4: "?v < w" "pos_ok len w" "?r = parse_run i fl ck sax (Some (Inr (LObjCont (buf ! ?w), st4)))"
                "char_rel buf len ?w s2 (word_of_nat k # d) st4"
              using vr ROk cont_obj [OF k31] by (auto simp: goes_on_def)
            obtain st5 where st5: "depth_inc st4 = Some st5" "char_rel buf len ?w s2 (word_of_nat (k + 1) # d) st5"
              using depth_inc_rel [OF h4(4)] by (auto simp: add.commute)
            have w: "pos_ok len ?w" "?v < ?w" "q < ?w" using pos_ok_space [OF pd h4(2)] h4(1) v p by auto
            have dp: "rd (p_depth st5) 0 = Some (word_of_nat (k + 1))" using st5(2) by (simp add: char_rel_def rd_def)
            have op: "?r = parse_run i fl ck sax (step_obj_cont sax (buf ! ?w) st4)"
              unfolding h4(3) by (simp add: parse_run_step parse_step_def)
            have "run_is ?r (if buf ! ?w = 0x2C then ref_run n fl sax buf len (TMembers (ref_space buf (?w + 1)) (k + 1)) s2
                  else if buf ! ?w = 0x7D then ref_sax sax (EEndObject (word_of_nat (k + 1))) s2 (?w + 1) else RFail s2)
                (closes i fl ck sax buf len q d ?r)"
              unfolding op
            proof (rule member_end_rel [OF pd w(1) less_imp_le [OF w(3)] st5(2), where lab = LObjKey])
              show "step_obj_cont sax (buf ! ?w) st4 =
                (if buf ! ?w = 0x2C then do { (c, st) \<leftarrow> parser_space st5; Some (Inr (LObjKey c, st)) }
                 else if buf ! ?w = 0x7D
                 then sonic_sax_check (call_sax sax (EEndObject (word_of_nat (k + 1))) st5) (\<lambda>st. Some (Inr (LScopeEnd, st)))
                 else err_invalid_char st5)"
                unfolding step_obj_cont_def st5(1) by (simp add: dp)
              show "run_is (parse_run i fl ck sax (Some (Inr (LObjKey (buf ! ref_space buf (?w + 1)), st))))
                  (ref_run n fl sax buf len (TMembers (ref_space buf (?w + 1)) (k + 1)) s2)
                  (closes i fl ck sax buf len (ref_space buf (?w + 1)) d
                    (parse_run i fl ck sax (Some (Inr (LObjKey (buf ! ref_space buf (?w + 1)), st)))))"
                if g: "?w < len" "char_rel buf len (ref_space buf (?w + 1)) s2 (word_of_nat (k + 1) # d) st"
                  "pos_ok len (ref_space buf (?w + 1))" "?w < ref_space buf (?w + 1)" for st
              proof -
                have "task_fuel len (TMembers (ref_space buf (?w + 1)) (k + 1)) \<le> n" using f g(1,4) w(3) by simp
                from IH [OF this] g k w(3) show ?thesis by (auto simp: task_run_def Let_def)
              qed
            qed simp_all
            with ROk qt sc Inr y sx colon show ?thesis by simp
          qed (use vr qt sc Inr y sx colon in auto)
        qed
      qed
    qed
  qed
qed

lemma task_run_all:
  assumes pd: "padded buf len" and big: "len + 2 < 2 ^ 31" and ck: "\<not> ck"
  shows "task_fuel len t \<le> n \<Longrightarrow> task_run i fl ck sax buf len t n"
proof (induction n arbitrary: t)
  case 0
  then show ?case by (cases t) simp_all
next
  case (Suc n)
  show ?case
  proof (cases t)
    case (TValue q)
    with value_step [OF pd Suc.IH] Suc.prems show ?thesis by simp
  next
    case (TElems q k)
    with elems_step [OF pd big Suc.IH] Suc.prems show ?thesis by simp
  next
    case (TMembers q k)
    with members_step [OF pd big ck Suc.IH] Suc.prems show ?thesis by simp
  qed
qed

subsection \<open>The whole document\<close>

lemma ref_top_scalar:
  assumes "buf ! q \<noteq> 0x22" and "buf ! q \<noteq> 0x7B" and "buf ! q \<noteq> 0x5B"
  shows "ref_top fl sax buf len q s = ref_scalar fl sax buf len q s"
proof -
  have n: "2 * len + 16 = Suc (2 * len + 15)" by simp
  show ?thesis using assms by (simp only: ref_top_def n ref_run.simps ref_task.case if_False)
qed

lemma parsePrimitives_rel:
  fixes sax :: "'s sax"
  assumes pd: "padded buf len" and q: "pos_ok len q" and r: "char_rel buf len q s d st"
    and c: "buf ! q \<noteq> 0x7B" "buf ! q \<noteq> 0x5B"
  shows "run_is (parsePrimitives i fl sax st) (ref_top fl sax buf len q s)
    (\<lambda>s' p. p \<le> len \<and> (\<exists>st'. parsePrimitives i fl sax st = Some st' \<and> pos_rel buf len p s' d st'))"
proof -
  have ag: "agree q buf (p_buf st)" and st: "p_pos st = q + 1" "p_len st = len" "p_err st = kErrorNone" "p_sax st = s"
    using r by (simp_all add: char_rel_def)
  have "q < length buf" using q pd by (auto simp: pos_ok_def padded_def)
  then have rc: "rd (p_buf st) (p_pos st - 1) = Some (buf ! q)"
    using st agree_rd [OF ag order_refl] by (simp add: rd_def)
  have ql: "q < len" if "buf ! q \<noteq> 0x78" using pos_ok_char [OF pd q that] .
  define fin where "fin = (\<lambda>(ok, st :: 's parser). if \<not> ok \<and> p_err st = kErrorNone then st\<lparr>p_err := kSaxTermination\<rparr> else st)"
  have lit: "run_is (map_option fin m) (ref_literal sax buf lit ev q s)
      (\<lambda>s' p. p \<le> len \<and> (\<exists>st'. map_option fin m = Some st' \<and> pos_rel buf len p s' d st'))"
    if m: "m = Some (if bytes_at buf q lit then call_sax sax ev (st\<lparr>p_pos := q + length lit\<rparr>)
        else (False, setParseError kParseErrorInvalidChar st))" and l: "0x78 \<notin> set lit" "lit \<noteq> []" "buf ! q \<noteq> 0x78" for m lit ev
  proof -
    note lr = literal_rel [OF pd ql [OF l(3)] r l(1,2) m, where k = "\<lambda>st. Some (Inl st)"]
    show ?thesis
    proof (cases "bytes_at buf q lit")
      case False
      then show ?thesis using st by (simp add: m ref_literal_def setParseError_def fin_def)
    next
      case True
      obtain ok s' where sx: "sax ev s = (ok, s')" by (cases "sax ev s")
      show ?thesis using True lr sx st by (cases ok) (auto simp: m ref_literal_def ref_sax_def call_sax_def fin_def)
    qed
  qed
  consider (num) "number_start (buf ! q)" "buf ! q \<noteq> 0x22" | (t) "\<not> number_start (buf ! q)" "buf ! q = 0x74"
    | (f) "\<not> number_start (buf ! q)" "buf ! q = 0x66" | (n) "\<not> number_start (buf ! q)" "buf ! q = 0x6E"
    | (str) "\<not> number_start (buf ! q)" "buf ! q = 0x22"
    | (bad) "\<not> number_start (buf ! q)" "buf ! q \<noteq> 0x74" "buf ! q \<noteq> 0x66" "buf ! q \<noteq> 0x6E" "buf ! q \<noteq> 0x22"
    by (auto simp: number_start_def)
  then show ?thesis
  proof cases
    case num
    then have "buf ! q \<noteq> 0x78" by (auto simp: number_start_def)
    have run: "parsePrimitives i fl sax st = parser_number fl sax st" using num rc by (simp add: parsePrimitives_def)
    have top: "ref_top fl sax buf len q s = ref_number fl sax buf len q s" using num c ref_top_scalar [of buf q fl sax len s] by (simp add: ref_scalar_def Let_def)
    show ?thesis unfolding run top by (rule run_is_mono [OF parser_number_rel [OF pd ql r]]) (use \<open>buf ! q \<noteq> 0x78\<close> in simp_all)
  next
    case t
    have "parsePrimitives i fl sax st = map_option fin (parseTrue sax st)" using t rc by (simp add: parsePrimitives_def fin_def)
    moreover have "ref_top fl sax buf len q s = ref_literal sax buf [0x74, 0x72, 0x75, 0x65] (EBool True) q s"
      using t c ref_top_scalar [of buf q fl sax len s] by (simp add: ref_scalar_def Let_def)
    ultimately show ?thesis using lit [OF literal_defs(1) [OF pd ql r]] t by simp
  next
    case f
    have "parsePrimitives i fl sax st = map_option fin (parseFalse sax st)" using f rc by (simp add: parsePrimitives_def fin_def)
    moreover have "ref_top fl sax buf len q s = ref_literal sax buf [0x66, 0x61, 0x6C, 0x73, 0x65] (EBool False) q s"
      using f c ref_top_scalar [of buf q fl sax len s] by (simp add: ref_scalar_def Let_def)
    ultimately show ?thesis using lit [OF literal_defs(3) [OF pd ql r]] f by simp
  next
    case n
    have "parsePrimitives i fl sax st = map_option fin (parseNull sax st)" using n rc by (simp add: parsePrimitives_def fin_def)
    moreover have "ref_top fl sax buf len q s = ref_literal sax buf [0x6E, 0x75, 0x6C, 0x6C] ENull q s"
      using n c ref_top_scalar [of buf q fl sax len s] by (simp add: ref_scalar_def Let_def)
    ultimately show ?thesis using lit [OF literal_defs(2) [OF pd ql r]] n by simp
  next
    case str
    then have l: "q < len" using ql by simp
    note sh = string_helper_rel [OF pd l r, where fl = fl and i = i]
    have run: "parsePrimitives i fl sax st = map_option
        (\<lambda>(ok, st). if p_len st < p_pos st then setParseError kParseErrorInvalidChar st else fin (ok, st)) (parseStrInPlace i fl sax st)"
      using str rc by (simp add: parsePrimitives_def fin_def cong: if_cong)
    show ?thesis
    proof (cases "str_scan (flags_and fl kParseAllowUnescapedControlChars) buf (q + 1)")
      case None
      with sh show ?thesis by simp
    next
      case (Some x)
      show ?thesis
      proof (cases x)
        case (Inl e)
        with Some sh obtain v st' where h: "parseStringHelper i fl st = Some (v, st')" "p_err st' \<noteq> kErrorNone" "p_sax st' = s"
          by auto
        have "parseStrInPlace i fl sax st = Some (True, st')" using h(1,2) by (cases v) (simp add: parseStrInPlace_def)
        then show ?thesis unfolding run using Some Inl str h(2,3) by (simp add: ref_top_def setParseError_def fin_def)
      next
        case (Inr y)
        obtain t p where y: "y = (t, p)" by (cases y)
        obtain st' where h: "q < p" "pos_ok len p" "parseStringHelper i fl st = Some ((q + 1, t), st')" "pos_rel buf len p s d st'"
          using sh Some Inr y by auto
        obtain ok s' where sx: "sax (EString (q + 1) t) s = (ok, s')" by (cases "sax (EString (q + 1) t) s")
        have pi: "parseStrInPlace i fl sax st = Some (ok, st'\<lparr>p_sax := s'\<rparr>)"
          using h(3,4) sx by (simp add: parseStrInPlace_def call_sax_def pos_rel_def)
        have pr: "pos_rel buf len p s' d (st'\<lparr>p_sax := s'\<rparr>)" using h(4) by (simp add: pos_rel_def)
        then have f: "p_len st' = len" "p_pos st' = p" "p_err st' = kErrorNone" by (simp_all add: pos_rel_def)
        show ?thesis unfolding run pi using Some Inr y sx str f pr
          by (auto simp: ref_top_def setParseError_def fin_def pos_rel_def)
      qed
    qed
  next
    case bad
    then show ?thesis using rc c st ref_top_scalar [of buf q fl sax len s] by (simp add: parsePrimitives_def ref_scalar_def setParseError_def Let_def)
  qed
qed

lemma hasTrailingChars_run:
  assumes "p_len st \<le> length (p_buf st)" and "p_pos st \<le> p_len st"
  shows "hasTrailingChars st = (let e = run_end IsSpace (take (p_len st) (p_buf st)) (p_pos st) in
     Some (e < p_len st, st\<lparr>p_pos := e\<rparr>))"
  using assms
proof (induction st rule: hasTrailingChars.induct)
  case (1 st)
  let ?t = "take (p_len st) (p_buf st)"
  show ?case
  proof (cases "p_pos st < p_len st")
    case True
    then have rd: "rd (p_buf st) (p_pos st) = Some (?t ! p_pos st)" using 1(2) by (simp add: rd_def)
    have run: "run_end IsSpace ?t (p_pos st) = (if IsSpace (?t ! p_pos st) then run_end IsSpace ?t (p_pos st + 1) else p_pos st)"
      by (rule run_end_step) (use True 1(2) in simp)
    show ?thesis
    proof (cases "IsSpace (?t ! p_pos st)")
      case sp: True
      with 1(1) [OF True rd] 1(2,3) True rd run show ?thesis by (subst hasTrailingChars.simps) (simp add: Let_def)
    next
      case False
      with True rd run show ?thesis by (subst hasTrailingChars.simps) (simp add: Let_def)
    qed
  next
    case False
    with 1(3) have e: "p_pos st = p_len st" by simp
    then have "run_end IsSpace ?t (p_pos st) = p_len st" by (simp add: run_end_def)
    with e show ?thesis by (subst hasTrailingChars.simps) (simp add: Let_def)
  qed
qed

lemma trailing_rel:
  assumes pd: "padded buf len" and p: "p \<le> len" and r: "pos_rel buf len p s d st"
  shows "hasTrailingChars st = Some (run_end IsSpace (take len buf) p < len, st\<lparr>p_pos := run_end IsSpace (take len buf) p\<rparr>)"
proof -
  have ag: "agree p buf (p_buf st)" and st: "p_len st = len" "p_pos st = p" using r by (simp_all add: pos_rel_def)
  have "drop p (take len buf) = take (len - p) (drop p buf)" by (simp add: drop_take)
  also have "\<dots> = drop p (take len (p_buf st))" using agree_drop [OF ag order_refl] by (simp add: drop_take)
  finally have "run_end IsSpace (take len buf) p = run_end IsSpace (take len (p_buf st)) p" by (simp add: run_end_def)
  moreover have "len \<le> length (p_buf st)" using pd agree_length [OF ag] by (simp add: padded_def)
  ultimately show ?thesis using hasTrailingChars_run [of st] st p by (simp add: Let_def)
qed

lemma parse_rel:
  fixes sax :: "'s sax"
  assumes pd: "padded buf len" and big: "len + 2 < 2 ^ 31"
  shows "case ref_parse fl sax buf len s of
      RUndef \<Rightarrow> Parse i fl False sax buf len (Parser_new b0 s) = None
    | RFail s' \<Rightarrow> \<exists>res st. Parse i fl False sax buf len (Parser_new b0 s) = Some (res, st) \<and> pr_err res \<noteq> kErrorNone \<and> p_sax st = s'
    | RSax s' \<Rightarrow> \<exists>res st. Parse i fl False sax buf len (Parser_new b0 s) = Some (res, st) \<and> pr_err res = kSaxTermination \<and> p_sax st = s'
    | ROk s' p \<Rightarrow> \<exists>st. Parse i fl False sax buf len (Parser_new b0 s) = Some (mk_ParseResult kErrorNone len, st) \<and> p_sax st = s'"
proof -
  define st0 :: "'s parser" where "st0 = (parser_reset (Parser_new b0 s))\<lparr>p_buf := buf, p_len := len\<rparr>"
  have r0: "pos_rel buf len 0 s [] (st0\<lparr>p_depth := []\<rparr>)"
    by (simp add: st0_def pos_rel_def parser_reset_def Parser_new_def)
  let ?q = "ref_space buf 0"
  have q: "pos_ok len ?q" using pos_ok_space [OF pd, of 0] by (simp add: pos_ok_def)
  obtain st1 where st1: "parser_space (st0\<lparr>p_depth := []\<rparr>) = Some (buf ! ?q, st1)" "char_rel buf len ?q s [] st1"
    using parser_space_rel [OF pd _ r0] by auto
  let ?impl = "parseImpl i fl False sax st0"
  have impl: "run_is ?impl (ref_top fl sax buf len ?q s) (\<lambda>s' p. p \<le> len \<and> (\<exists>st'. ?impl = Some st' \<and> pos_rel buf len p s' [] st'))"
  proof (cases "buf ! ?q = 0x7B \<or> buf ! ?q = 0x5B")
    case True
    let ?r = "parse_run i fl False sax (parse_element i fl sax (cont_pc (hd [])) (buf ! ?q) st1)"
    have "task_fuel len (TValue ?q) \<le> 2 * len + 16" by simp
    from task_run_all [OF pd big _ this, of False i fl sax] True st1(2) q
    have "run_is ?r (ref_run (2 * len + 16) fl sax buf len (TValue ?q) s) (closes i fl False sax buf len ?q [] ?r)"
      by (auto simp: task_run_def Let_def)
    then have "run_is ?r (ref_run (2 * len + 16) fl sax buf len (TValue ?q) s) (\<lambda>s' p. p \<le> len \<and> (\<exists>st'. ?r = Some st' \<and> pos_rel buf len p s' [] st'))"
    proof (rule run_is_mono)
      fix s' p assume "closes i fl False sax buf len ?q [] ?r s' p"
      then obtain st' x where h: "p \<le> len" "?r = parse_run i fl False sax (Some (Inr (LScopeEnd, st')))" "pos_rel buf len p s' [x] st'"
        by (auto simp: closes_def)
      with scope_end_rel(1) [OF pd h(1,3)] show "p \<le> len \<and> (\<exists>st'. ?r = Some st' \<and> pos_rel buf len p s' [] st')" by auto
    qed
    moreover have "?impl = ?r" using True st1(1) by (auto simp: parseImpl_def parse_element_def)
    moreover have "ref_top fl sax buf len ?q s = ref_run (2 * len + 16) fl sax buf len (TValue ?q) s"
      using True by (auto simp: ref_top_def)
    ultimately show ?thesis by simp
  next
    case False
    then have "?impl = parsePrimitives i fl sax st1" using st1(1) by (simp add: parseImpl_def)
    with parsePrimitives_rel [OF pd q st1(2)] False show ?thesis by simp
  qed
  have run: "Parse i fl False sax buf len (Parser_new b0 s) = do {
     st \<leftarrow> ?impl;
     st \<leftarrow> (if p_err st = kErrorNone then do {
         (trailing, st) \<leftarrow> hasTrailingChars st;
         Some (if trailing then st\<lparr>p_err := kParseErrorInvalidChar\<rparr> else st)
       } else Some st);
     Some (mk_ParseResult (p_err st) (p_pos st), st) }"
    by (simp add: Parse_def st0_def)
  show ?thesis
  proof (cases "ref_top fl sax buf len ?q s")
    case (ROk s' p)
    with impl obtain st' where h: "p \<le> len" "?impl = Some st'" "pos_rel buf len p s' [] st'" by auto
    let ?e = "run_end IsSpace (take len buf) p"
    have e: "?e \<le> len"
    proof -
      have "length (takeWhile IsSpace (drop p (take len buf))) \<le> length (drop p (take len buf))" by (rule length_takeWhile_le)
      then show ?thesis using h(1) pd by (simp add: run_end_def padded_def)
    qed
    show ?thesis unfolding run h(2) using trailing_rel [OF pd h(1,3)] ROk h(3) e
      by (auto simp: ref_parse_def mk_ParseResult_def pos_rel_def)
  qed (use impl in \<open>auto simp: ref_parse_def run mk_ParseResult_def\<close>)
qed

text \<open>
  The buffer \<open>allocateStringBuffer\<close> (\<open>dom/generic_document.h\<close>) prepares: the text, the ending mask, and
  whatever the other 61 bytes of the block hold.
\<close>

definition allocateStringBuffer :: "bytes \<Rightarrow> bytes \<Rightarrow> bytes" where
  "allocateStringBuffer json pad = json @ [0x78, 0x22, 0x78] @ pad"

lemma padded_buffer: "length pad = 61 \<Longrightarrow> padded (allocateStringBuffer json pad) (length json)"
  by (simp add: padded_def allocateStringBuffer_def nth_append)


text \<open>A handler that records its calls.\<close>

definition record_sax :: "event list sax" where
  "record_sax ev s = (True, s @ [ev])"


end
