(* ===== verification/Sonic_Grammar.thy ===== *)
theory Sonic_Grammar
  imports Sonic_ParserProof
begin

text \<open>
  The grammar of JSON as an inductive relation between a text and a value, and the parser against it: a
  text is accepted exactly when the grammar derives a value from it, and the calls made to the handler
  are the ones of that value. A value keeps the positions at which the parser reports its strings.
\<close>

subsection \<open>Values and their events\<close>

datatype json = JNull | JBool bool | JNumber event | JString nat bytes
  | JArray "json list" | JObject "((nat \<times> bytes) \<times> json) list"

fun number_event :: "event \<Rightarrow> bool" where
  "number_event (EUint u) = True"
| "number_event (EInt i) = True"
| "number_event (EDouble d) = True"
| "number_event (ENumStr off sv) = True"
| "number_event (ERaw off sv) = True"
| "number_event ev = False"

fun json_events :: "json \<Rightarrow> event list" where
  "json_events JNull = [ENull]"
| "json_events (JBool b) = [EBool b]"
| "json_events (JNumber ev) = [ev]"
| "json_events (JString off sv) = [EString off sv]"
| "json_events (JArray vs) = EStartArray # concat (map json_events vs) @ [EEndArray (word_of_nat (length vs))]"
| "json_events (JObject ms) = EStartObject # concat (map (\<lambda>m. EKey (fst (fst m)) (snd (fst m)) # json_events (snd m)) ms)
     @ [EEndObject (word_of_nat (length ms))]"

definition elems_events :: "json list \<Rightarrow> event list" where
  "elems_events vs = concat (map json_events vs)"

definition members_events :: "((nat \<times> bytes) \<times> json) list \<Rightarrow> event list" where
  "members_events ms = concat (map (\<lambda>m. EKey (fst (fst m)) (snd (fst m)) # json_events (snd m)) ms)"

lemma container_events:
  "elems_events [] = []" "elems_events (v # vs) = json_events v @ elems_events vs"
  "members_events [] = []" "members_events (((off, sv), v) # ms) = EKey off sv # json_events v @ members_events ms"
  "json_events (JArray vs) = EStartArray # elems_events vs @ [EEndArray (word_of_nat (length vs))]"
  "json_events (JObject ms) = EStartObject # members_events ms @ [EEndObject (word_of_nat (length ms))]"
  by (simp_all add: elems_events_def members_events_def)

text \<open>A list of calls a handler takes one after the other, as long as it takes all of them.\<close>

primrec run_events :: "'s sax \<Rightarrow> event list \<Rightarrow> 's \<Rightarrow> 's option" where
  "run_events sax [] s = Some s"
| "run_events sax (ev # evs) s = (case sax ev s of (ok, s) \<Rightarrow> if ok then run_events sax evs s else None)"

lemma run_events_append:
  "run_events sax (xs @ ys) s = (case run_events sax xs s of None \<Rightarrow> None | Some s \<Rightarrow> run_events sax ys s)"
  by (induction xs arbitrary: s) (simp_all split: prod.splits)

lemma ref_sax_ok: "ref_sax sax ev s p = ROk s' p' \<longleftrightarrow> p' = p \<and> run_events sax [ev] s = Some s'"
  by (auto simp: ref_sax_def split: prod.splits)

subsection \<open>The grammar\<close>

text \<open>
  A value begins at its first character and ends behind its last. Elements are read from the first
  character of one on, members from the quote of a key on, both up to and with the closing bracket.
\<close>

inductive value_at :: "u32 \<Rightarrow> bytes \<Rightarrow> nat \<Rightarrow> nat \<Rightarrow> json \<Rightarrow> nat \<Rightarrow> bool"
  and elems_at :: "u32 \<Rightarrow> bytes \<Rightarrow> nat \<Rightarrow> nat \<Rightarrow> json list \<Rightarrow> nat \<Rightarrow> bool"
  and members_at :: "u32 \<Rightarrow> bytes \<Rightarrow> nat \<Rightarrow> nat \<Rightarrow> ((nat \<times> bytes) \<times> json) list \<Rightarrow> nat \<Rightarrow> bool"
  for fl :: u32 and buf :: bytes and len :: nat where
  VNull: "bytes_at buf q [0x6E, 0x75, 0x6C, 0x6C] \<Longrightarrow> value_at fl buf len q JNull (q + 4)"
| VTrue: "bytes_at buf q [0x74, 0x72, 0x75, 0x65] \<Longrightarrow> value_at fl buf len q (JBool True) (q + 4)"
| VFalse: "bytes_at buf q [0x66, 0x61, 0x6C, 0x73, 0x65] \<Longrightarrow> value_at fl buf len q (JBool False) (q + 5)"
| VNumber: "number_start (buf ! q) \<Longrightarrow> parseNumber fl buf (Suc q) len = Some (Some ev, kErrorNone, p)
    \<Longrightarrow> value_at fl buf len q (JNumber ev) p"
| VString: "buf ! q = 0x22 \<Longrightarrow> str_scan (flags_and fl kParseAllowUnescapedControlChars) buf (q + 1) = Some (Inr (t, p))
    \<Longrightarrow> value_at fl buf len q (JString (q + 1) t) p"
| VEmptyArray: "buf ! q = 0x5B \<Longrightarrow> buf ! ref_space buf (q + 1) = 0x5D
    \<Longrightarrow> value_at fl buf len q (JArray []) (ref_space buf (q + 1) + 1)"
| VArray: "buf ! q = 0x5B \<Longrightarrow> elems_at fl buf len (ref_space buf (q + 1)) vs p \<Longrightarrow> value_at fl buf len q (JArray vs) p"
| VEmptyObject: "buf ! q = 0x7B \<Longrightarrow> buf ! ref_space buf (q + 1) = 0x7D
    \<Longrightarrow> value_at fl buf len q (JObject []) (ref_space buf (q + 1) + 1)"
| VObject: "buf ! q = 0x7B \<Longrightarrow> members_at fl buf len (ref_space buf (q + 1)) ms p \<Longrightarrow> value_at fl buf len q (JObject ms) p"
| ELast: "value_at fl buf len q v p \<Longrightarrow> buf ! ref_space buf p = 0x5D \<Longrightarrow> elems_at fl buf len q [v] (ref_space buf p + 1)"
| ECons: "value_at fl buf len q v p \<Longrightarrow> buf ! ref_space buf p = 0x2C
    \<Longrightarrow> elems_at fl buf len (ref_space buf (ref_space buf p + 1)) vs p' \<Longrightarrow> elems_at fl buf len q (v # vs) p'"
| MLast: "buf ! q = 0x22 \<Longrightarrow> str_scan (flags_and fl kParseAllowUnescapedControlChars) buf (q + 1) = Some (Inr (t, k))
    \<Longrightarrow> buf ! ref_space buf k = 0x3A \<Longrightarrow> value_at fl buf len (ref_space buf (ref_space buf k + 1)) v p
    \<Longrightarrow> buf ! ref_space buf p = 0x7D \<Longrightarrow> members_at fl buf len q [((q + 1, t), v)] (ref_space buf p + 1)"
| MCons: "buf ! q = 0x22 \<Longrightarrow> str_scan (flags_and fl kParseAllowUnescapedControlChars) buf (q + 1) = Some (Inr (t, k))
    \<Longrightarrow> buf ! ref_space buf k = 0x3A \<Longrightarrow> value_at fl buf len (ref_space buf (ref_space buf k + 1)) v p
    \<Longrightarrow> buf ! ref_space buf p = 0x2C \<Longrightarrow> members_at fl buf len (ref_space buf (ref_space buf p + 1)) ms p'
    \<Longrightarrow> members_at fl buf len q (((q + 1, t), v) # ms) p'"

text \<open>What a task of the recursive parser derives, with the calls it makes.\<close>

definition task_at :: "u32 \<Rightarrow> bytes \<Rightarrow> nat \<Rightarrow> ref_task \<Rightarrow> event list \<Rightarrow> nat \<Rightarrow> bool" where
  "task_at fl buf len t evs p = (case t of
      TValue q \<Rightarrow> \<exists>v. value_at fl buf len q v p \<and> evs = json_events v
    | TElems q k \<Rightarrow> \<exists>vs. elems_at fl buf len q vs p \<and> evs = elems_events vs @ [EEndArray (word_of_nat (k + length vs))]
    | TMembers q k \<Rightarrow> \<exists>ms. members_at fl buf len q ms p
        \<and> evs = members_events ms @ [EEndObject (word_of_nat (k + length ms))])"

subsection \<open>Accepted texts are derived\<close>

lemma ref_scalar_derives:
  assumes r: "ref_scalar fl sax buf len q s = ROk s' p"
  shows "\<exists>v. value_at fl buf len q v p \<and> run_events sax (json_events v) s = Some s'"
proof -
  have lit: "bytes_at buf q xs \<and> p = q + length xs \<and> run_events sax [ev] s = Some s'"
    if "ref_literal sax buf xs ev q s = ROk s' p" for xs ev
    using that by (auto simp: ref_literal_def ref_sax_ok split: if_splits)
  consider (n) "number_start (buf ! q)" | (t) "\<not> number_start (buf ! q)" "buf ! q = 0x74"
    | (f) "\<not> number_start (buf ! q)" "buf ! q = 0x66" | (l) "\<not> number_start (buf ! q)" "buf ! q = 0x6E"
    | (s) "\<not> number_start (buf ! q)" "buf ! q = 0x22"
    using r by (auto simp: ref_scalar_def Let_def split: if_splits)
  then show ?thesis
  proof cases
    case n
    with r show ?thesis
      by (auto simp: ref_scalar_def ref_number_def split: option.splits prod.splits if_splits
          intro!: exI [of _ "JNumber _"] VNumber)
  next
    case t
    with r have l: "ref_literal sax buf [0x74, 0x72, 0x75, 0x65] (EBool True) q s = ROk s' p" by (simp add: ref_scalar_def)
    then have "p = q + 4" using lit [OF l] by simp
    with lit [OF l] show ?thesis by (intro exI [of _ "JBool True"]) (simp add: VTrue)
  next
    case f
    with r have l: "ref_literal sax buf [0x66, 0x61, 0x6C, 0x73, 0x65] (EBool False) q s = ROk s' p" by (simp add: ref_scalar_def)
    then have "p = q + 5" using lit [OF l] by simp
    with lit [OF l] show ?thesis by (intro exI [of _ "JBool False"]) (simp add: VFalse)
  next
    case l
    with r have l: "ref_literal sax buf [0x6E, 0x75, 0x6C, 0x6C] ENull q s = ROk s' p" by (simp add: ref_scalar_def)
    then have "p = q + 4" using lit [OF l] by simp
    with lit [OF l] show ?thesis by (intro exI [of _ JNull]) (simp add: VNull)
  next
    case s
    with r obtain t where t: "str_scan (flags_and fl kParseAllowUnescapedControlChars) buf (q + 1) = Some (Inr (t, p))"
        "run_events sax [EString (q + 1) t] s = Some s'"
      by (auto simp: ref_scalar_def ref_string_def ref_sax_ok split: option.splits sum.splits prod.splits)
    have "value_at fl buf len q (JString (q + 1) t) p" by (rule VString [OF s(2) t(1)])
    moreover have "run_events sax (json_events (JString (q + 1) t)) s = Some s'" using t(2) by simp
    ultimately show ?thesis by blast
  qed
qed

lemma run_events_Cons: "sax ev s = (True, s1) \<Longrightarrow> run_events sax (ev # evs) s = run_events sax evs s1"
  by simp

lemma ref_run_derives:
  "ref_run n fl sax buf len t s = ROk s' p \<Longrightarrow> \<exists>evs. task_at fl buf len t evs p \<and> run_events sax evs s = Some s'"
proof (induction n arbitrary: t s s' p)
  case 0
  then show ?case by simp
next
  case (Suc n)
  show ?case
  proof (cases t)
    case (TValue q)
    let ?q = "ref_space buf (q + 1)"
    consider (obj) "buf ! q = 0x7B" | (arr) "buf ! q = 0x5B" | (other) "buf ! q \<noteq> 0x7B" "buf ! q \<noteq> 0x5B" by blast
    then show ?thesis
    proof cases
      case obj
      with Suc.prems TValue obtain s1 where s1: "sax EStartObject s = (True, s1)"
          "(if buf ! ?q = 0x7D then ref_sax sax (EEndObject 0) s1 (?q + 1) else ref_run n fl sax buf len (TMembers ?q 0) s1) = ROk s' p"
        by (auto split: prod.splits if_splits)
      show ?thesis
      proof (cases "buf ! ?q = 0x7D")
        case True
        with s1 have "p = ?q + 1" "run_events sax [EEndObject 0] s1 = Some s'" by (simp_all add: ref_sax_ok del: run_events.simps)
        have "value_at fl buf len q (JObject []) p" unfolding \<open>p = ?q + 1\<close> by (rule VEmptyObject [OF obj True])
        moreover have "run_events sax (json_events (JObject [])) s = Some s'"
          using s1(1) \<open>run_events sax [EEndObject 0] s1 = Some s'\<close> by simp
        ultimately show ?thesis unfolding TValue task_at_def ref_task.case by blast
      next
        case False
        with s1(2) have "ref_run n fl sax buf len (TMembers ?q 0) s1 = ROk s' p" by simp
        from Suc.IH [OF this] obtain evs where "task_at fl buf len (TMembers ?q 0) evs p" "run_events sax evs s1 = Some s'" by blast
        then obtain ms where ms: "members_at fl buf len ?q ms p" "evs = members_events ms @ [EEndObject (word_of_nat (length ms))]"
          by (auto simp: task_at_def)
        have "value_at fl buf len q (JObject ms) p" by (rule VObject [OF obj ms(1)])
        moreover have "run_events sax (json_events (JObject ms)) s = Some s'"
          using \<open>run_events sax evs s1 = Some s'\<close> s1(1) by (simp add: container_events ms(2) del: json_events.simps)
        ultimately show ?thesis unfolding TValue task_at_def ref_task.case by blast
      qed
    next
      case arr
      with Suc.prems TValue obtain s1 where s1: "sax EStartArray s = (True, s1)"
          "(if buf ! ?q = 0x5D then ref_sax sax (EEndArray 0) s1 (?q + 1) else ref_run n fl sax buf len (TElems ?q 0) s1) = ROk s' p"
        by (auto split: prod.splits if_splits)
      show ?thesis
      proof (cases "buf ! ?q = 0x5D")
        case True
        with s1 have "p = ?q + 1" "run_events sax [EEndArray 0] s1 = Some s'" by (simp_all add: ref_sax_ok del: run_events.simps)
        have "value_at fl buf len q (JArray []) p" unfolding \<open>p = ?q + 1\<close> by (rule VEmptyArray [OF arr True])
        moreover have "run_events sax (json_events (JArray [])) s = Some s'"
          using s1(1) \<open>run_events sax [EEndArray 0] s1 = Some s'\<close> by simp
        ultimately show ?thesis unfolding TValue task_at_def ref_task.case by blast
      next
        case False
        with s1(2) have "ref_run n fl sax buf len (TElems ?q 0) s1 = ROk s' p" by simp
        from Suc.IH [OF this] obtain evs where "task_at fl buf len (TElems ?q 0) evs p" "run_events sax evs s1 = Some s'" by blast
        then obtain vs where vs: "elems_at fl buf len ?q vs p" "evs = elems_events vs @ [EEndArray (word_of_nat (length vs))]"
          by (auto simp: task_at_def)
        have "value_at fl buf len q (JArray vs) p" by (rule VArray [OF arr vs(1)])
        moreover have "run_events sax (json_events (JArray vs)) s = Some s'"
          using \<open>run_events sax evs s1 = Some s'\<close> s1(1) by (simp add: container_events vs(2) del: json_events.simps)
        ultimately show ?thesis unfolding TValue task_at_def ref_task.case by blast
      qed
    next
      case other
      with Suc.prems TValue have "ref_scalar fl sax buf len q s = ROk s' p" by simp
      from ref_scalar_derives [OF this] TValue show ?thesis by (auto simp: task_at_def)
    qed
  next
    case (TElems q k)
    with Suc.prems obtain s1 p1 where v: "ref_run n fl sax buf len (TValue q) s = ROk s1 p1"
      by (auto split: ref_result.splits)
    let ?p = "ref_space buf p1"
    obtain v where h: "value_at fl buf len q v p1" "run_events sax (json_events v) s = Some s1"
      using Suc.IH [OF v] by (auto simp: task_at_def)
    consider (comma) "buf ! ?p = 0x2C" | (close) "buf ! ?p = 0x5D" "buf ! ?p \<noteq> 0x2C"
      using Suc.prems TElems v by (auto split: if_splits)
    then show ?thesis
    proof cases
      case comma
      with Suc.prems TElems v have "ref_run n fl sax buf len (TElems (ref_space buf (?p + 1)) (k + 1)) s1 = ROk s' p" by simp
      from Suc.IH [OF this] obtain vs where vs: "elems_at fl buf len (ref_space buf (?p + 1)) vs p"
          "run_events sax (elems_events vs @ [EEndArray (word_of_nat (k + 1 + length vs))]) s1 = Some s'"
        unfolding task_at_def ref_task.case by blast
      have "elems_at fl buf len q (v # vs) p" by (rule ECons [OF h(1) comma vs(1)])
      moreover have "run_events sax (elems_events (v # vs) @ [EEndArray (word_of_nat (k + length (v # vs)))]) s = Some s'"
        using h(2) vs(2) by (simp add: run_events_append container_events ac_simps)
      ultimately show ?thesis unfolding TElems task_at_def ref_task.case by blast
    next
      case close
      with Suc.prems TElems v have e: "p = ?p + 1" "run_events sax [EEndArray (word_of_nat (k + 1))] s1 = Some s'"
        by (simp_all add: ref_sax_ok del: run_events.simps)
      have "elems_at fl buf len q [v] p" unfolding e(1) by (rule ELast [OF h(1) close(1)])
      moreover have "run_events sax (elems_events [v] @ [EEndArray (word_of_nat (k + length [v]))]) s = Some s'"
        using h(2) e(2) by (simp add: run_events_append container_events)
      ultimately show ?thesis unfolding TElems task_at_def ref_task.case by blast
    qed
  next
    case (TMembers q k)
    obtain t1 p0 where sc: "buf ! q = 0x22" "str_scan (flags_and fl kParseAllowUnescapedControlChars) buf (q + 1) = Some (Inr (t1, p0))"
      using Suc.prems TMembers by (auto split: if_splits option.splits sum.splits)
    let ?c = "ref_space buf p0"
    let ?v = "ref_space buf (?c + 1)"
    obtain s0 s1 p1 where c: "sax (EKey (q + 1) t1) s = (True, s0)" "buf ! ?c = 0x3A"
        "ref_run n fl sax buf len (TValue ?v) s0 = ROk s1 p1"
      using Suc.prems TMembers sc by (auto split: if_splits ref_result.splits prod.splits)
    let ?p = "ref_space buf p1"
    obtain v where h: "value_at fl buf len ?v v p1" "run_events sax (json_events v) s0 = Some s1"
      using Suc.IH [OF c(3)] by (auto simp: task_at_def)
    consider (comma) "buf ! ?p = 0x2C" | (close) "buf ! ?p = 0x7D" "buf ! ?p \<noteq> 0x2C"
      using Suc.prems TMembers sc c by (auto split: if_splits)
    then show ?thesis
    proof cases
      case comma
      with Suc.prems TMembers sc c have "ref_run n fl sax buf len (TMembers (ref_space buf (?p + 1)) (k + 1)) s1 = ROk s' p" by simp
      from Suc.IH [OF this] obtain ms where ms: "members_at fl buf len (ref_space buf (?p + 1)) ms p"
          "run_events sax (members_events ms @ [EEndObject (word_of_nat (k + 1 + length ms))]) s1 = Some s'"
        unfolding task_at_def ref_task.case by blast
      have "members_at fl buf len q (((q + 1, t1), v) # ms) p" by (rule MCons [OF sc c(2) h(1) comma ms(1)])
      moreover have "run_events sax (members_events (((q + 1, t1), v) # ms)
          @ [EEndObject (word_of_nat (k + length (((q + 1, t1), v) # ms)))]) s = Some s'"
        using h(2) ms(2) c(1) by (simp add: run_events_append container_events ac_simps)
      ultimately show ?thesis unfolding TMembers task_at_def ref_task.case by blast
    next
      case close
      with Suc.prems TMembers sc c have e: "p = ?p + 1" "run_events sax [EEndObject (word_of_nat (k + 1))] s1 = Some s'"
        by (simp_all add: ref_sax_ok del: run_events.simps)
      have "members_at fl buf len q [((q + 1, t1), v)] p" unfolding e(1) by (rule MLast [OF sc c(2) h(1) close(1)])
      moreover have "run_events sax (members_events [((q + 1, t1), v)]
          @ [EEndObject (word_of_nat (k + length [((q + 1, t1), v)]))]) s = Some s'"
        using h(2) e(2) c(1) by (simp add: run_events_append container_events)
      ultimately show ?thesis unfolding TMembers task_at_def ref_task.case by blast
    qed
  qed
qed

subsection \<open>Where values end, and how many nodes they have\<close>

fun json_nodes :: "json \<Rightarrow> nat" where
  "json_nodes (JArray vs) = 1 + sum_list (map json_nodes vs)"
| "json_nodes (JObject ms) = 1 + sum_list (map (\<lambda>m. 1 + json_nodes (snd m)) ms)"
| "json_nodes v = 1"

lemma padded_number:
  assumes pd: "padded buf len" and q: "q < len"
    and r: "parseNumber fl buf (Suc q) len = Some (Some ev, er, p)"
  shows "q < p \<and> p \<le> len"
proof -
  have "num_ok True q len (parseNumber fl buf (Suc q) len) (num_end buf q)"
    using parseNumber_ok [OF padded_guard [OF pd]] q by simp
  then have ne: "num_end buf q = Some p" and p: "p \<le> len" using r by (auto simp: num_ok_def split: option.splits)
  have "num_start buf q < length buf" using pd q by (simp add: num_start_def padded_def)
  with num_end_gt [OF ne] p show ?thesis by simp
qed

lemma padded_string:
  assumes pd: "padded buf len" and q: "q < len"
    and r: "str_scan al buf (q + 1) = Some (Inr (t, p))"
  shows "q + 1 < p \<and> pos_ok len p"
proof -
  have g: "str_guard buf (len + 1)" using pd by (simp add: padded_def str_guard_def)
  have p: "q + 1 < p" "p \<le> len + 2" using guard_scan_end [OF g _ r] q by simp_all
  have "p \<noteq> len + 1" using str_scan_closed [OF r] pd by (auto simp: padded_def)
  with p show ?thesis by (auto simp: pos_ok_def)
qed

lemma first_token:
  assumes "padded buf len" and "pos_ok len q" and "buf ! q \<noteq> 0x78"
  shows "q < len" and "pos_ok len (ref_space buf (q + 1))" and "q < ref_space buf (q + 1)"
proof -
  show q: "q < len" by (rule pos_ok_char [OF assms])
  then have "pos_ok len (q + 1)" by (simp add: pos_ok_def)
  from pos_ok_space [OF assms(1) this] show "pos_ok len (ref_space buf (q + 1))" and "q < ref_space buf (q + 1)" by simp_all
qed

lemma next_token:
  assumes "padded buf len" and "pos_ok len p" and "buf ! ref_space buf p \<noteq> 0x78"
  shows "p \<le> ref_space buf p" and "ref_space buf p < len"
    and "pos_ok len (ref_space buf (ref_space buf p + 1))" and "ref_space buf p < ref_space buf (ref_space buf p + 1)"
  using pos_ok_space [OF assms(1,2)] first_token [OF assms(1) _ assms(3)] by simp_all

lemma number_start_x: "\<not> number_start 0x78"
  by (simp add: number_start_def is_digit_def)

lemma at_bounds:
  assumes pd: "padded buf len"
  shows "value_at fl buf len q v p \<Longrightarrow> pos_ok len q \<Longrightarrow> q < p \<and> pos_ok len p \<and> 2 * json_nodes v \<le> p - q + 1"
    and "elems_at fl buf len q vs p \<Longrightarrow> pos_ok len q \<Longrightarrow> q < p \<and> p \<le> len \<and> 2 * sum_list (map json_nodes vs) \<le> p - q"
    and "members_at fl buf len q ms p \<Longrightarrow> pos_ok len q \<Longrightarrow> q < p \<and> p \<le> len
      \<and> 2 * sum_list (map (\<lambda>m. 1 + json_nodes (snd m)) ms) \<le> p - q"
proof (induction rule: value_at_elems_at_members_at.inducts)
  case (VNull q)
  then have "q < len" using pos_ok_char [OF pd] bytes_at_nth [of buf q "[0x6E, 0x75, 0x6C, 0x6C]" 0] by simp
  then show ?case using padded_literal [OF pd _ VNull(1)] by (simp add: pos_ok_def)
next
  case (VTrue q)
  then have "q < len" using pos_ok_char [OF pd] bytes_at_nth [of buf q "[0x74, 0x72, 0x75, 0x65]" 0] by simp
  then show ?case using padded_literal [OF pd _ VTrue(1)] by (simp add: pos_ok_def)
next
  case (VFalse q)
  then have "q < len" using pos_ok_char [OF pd] bytes_at_nth [of buf q "[0x66, 0x61, 0x6C, 0x73, 0x65]" 0] by simp
  then show ?case using padded_literal [OF pd _ VFalse(1)] by (simp add: pos_ok_def)
next
  case (VNumber q ev p)
  then have "q < len" using pos_ok_char [OF pd] number_start_x by metis
  then show ?case using padded_number [OF pd _ VNumber(2)] by (auto simp: pos_ok_def)
next
  case (VString q t p)
  then have "q < len" using pos_ok_char [OF pd, of q] by simp
  then show ?case using padded_string [OF pd _ VString(2)] by auto
next
  case (VEmptyArray q)
  note t = first_token [OF pd VEmptyArray(3)]
  have "ref_space buf (q + 1) < len" using pos_ok_char [OF pd t(2)] VEmptyArray by simp
  with t(3) VEmptyArray show ?case by (simp add: pos_ok_def)
next
  case (VArray q vs p)
  then show ?case using first_token [OF pd VArray.prems] by (auto simp: pos_ok_def)
next
  case (VEmptyObject q)
  note t = first_token [OF pd VEmptyObject(3)]
  have "ref_space buf (q + 1) < len" using pos_ok_char [OF pd t(2)] VEmptyObject by simp
  with t(3) VEmptyObject show ?case by (simp add: pos_ok_def)
next
  case (VObject q ms p)
  then show ?case using first_token [OF pd VObject.prems] by (auto simp: pos_ok_def)
next
  case (ELast q v p)
  then have v: "q < p" "pos_ok len p" "2 * json_nodes v \<le> p - q + 1" by simp_all
  with next_token [OF pd v(2)] ELast show ?case by simp
next
  case (ECons q v p vs p')
  then have v: "q < p" "pos_ok len p" "2 * json_nodes v \<le> p - q + 1" by simp_all
  with next_token [OF pd v(2)] ECons show ?case by simp linarith
next
  case (MLast q t k v p)
  then have k: "q + 1 < k" "pos_ok len k" using padded_string [OF pd _ MLast(2)] pos_ok_char [OF pd, of q] by simp_all
  note c = next_token [OF pd k(2)]
  have v: "ref_space buf (ref_space buf k + 1) < p" "pos_ok len p"
    "2 * json_nodes v \<le> p - ref_space buf (ref_space buf k + 1) + 1" using MLast c(3) by simp_all
  with next_token [OF pd v(2)] k c MLast show ?case by simp linarith
next
  case (MCons q t k v p ms p')
  then have k: "q + 1 < k" "pos_ok len k" using padded_string [OF pd _ MCons(2)] pos_ok_char [OF pd, of q] by simp_all
  note c = next_token [OF pd k(2)]
  have v: "ref_space buf (ref_space buf k + 1) < p" "pos_ok len p"
    "2 * json_nodes v \<le> p - ref_space buf (ref_space buf k + 1) + 1" using MCons c(3) by simp_all
  with next_token [OF pd v(2)] k c MCons show ?case by simp linarith
qed

subsection \<open>Derived texts are accepted\<close>

lemma not_number_start [simp]:
  "\<not> number_start 0x74" "\<not> number_start 0x66" "\<not> number_start 0x6E" "\<not> number_start 0x22"
  "\<not> number_start 0x7B" "\<not> number_start 0x5B"
  by (simp_all add: number_start_def is_digit_def)

lemma ref_run_scalar:
  "buf ! q \<noteq> 0x7B \<Longrightarrow> buf ! q \<noteq> 0x5B \<Longrightarrow> 0 < n \<Longrightarrow> ref_run n fl sax buf len (TValue q) s = ref_scalar fl sax buf len q s"
  by (cases n) simp_all

lemma ref_scalar_literal:
  assumes "bytes_at buf q xs" and "xs = x # ys" and "run_events sax [ev] s = Some s'"
  shows "buf ! q = x" and "ref_literal sax buf xs ev q s = ROk s' (q + length xs)"
  using assms bytes_at_nth [OF assms(1), of 0] by (auto simp: ref_literal_def ref_sax_def split: prod.splits if_splits)

definition accepts_task :: "u32 \<Rightarrow> 's sax \<Rightarrow> bytes \<Rightarrow> nat \<Rightarrow> ref_task \<Rightarrow> event list \<Rightarrow> nat \<Rightarrow> bool" where
  "accepts_task fl sax buf len t evs p \<longleftrightarrow> (\<forall>n s s'. task_fuel len t \<le> n \<longrightarrow> run_events sax evs s = Some s'
     \<longrightarrow> ref_run n fl sax buf len t s = ROk s' p)"

lemma accepts_taskI:
  "(\<And>n s s'. task_fuel len t \<le> Suc n \<Longrightarrow> run_events sax evs s = Some s' \<Longrightarrow> ref_run (Suc n) fl sax buf len t s = ROk s' p)
   \<Longrightarrow> accepts_task fl sax buf len t evs p"
  unfolding accepts_task_def
proof (intro allI impI)
  fix n s s' assume a: "\<And>n s s'. task_fuel len t \<le> Suc n \<Longrightarrow> run_events sax evs s = Some s' \<Longrightarrow> ref_run (Suc n) fl sax buf len t s = ROk s' p"
    "task_fuel len t \<le> n" "run_events sax evs s = Some s'"
  have "0 < task_fuel len t" by (cases t) simp_all
  with a(2) obtain m where "n = Suc m" by (cases n) simp_all
  with a show "ref_run n fl sax buf len t s = ROk s' p" by simp
qed

lemma accepts_taskD:
  "accepts_task fl sax buf len t evs p \<Longrightarrow> task_fuel len t \<le> n \<Longrightarrow> run_events sax evs s = Some s' \<Longrightarrow> ref_run n fl sax buf len t s = ROk s' p"
  by (simp add: accepts_task_def)

lemma run_events_ConsE:
  "run_events sax (ev # evs) s = Some s' \<Longrightarrow> \<exists>s1. sax ev s = (True, s1) \<and> run_events sax evs s1 = Some s'"
  by (auto split: prod.splits if_splits)

lemma run_events_appendE:
  "run_events sax (xs @ ys) s = Some s' \<Longrightarrow> \<exists>s1. run_events sax xs s = Some s1 \<and> run_events sax ys s1 = Some s'"
  by (auto simp: run_events_append split: option.splits)

lemma ref_sax_event: "run_events sax [ev] s = Some s' \<Longrightarrow> ref_sax sax ev s p = ROk s' p"
  by (simp add: ref_sax_ok)

lemma value_first:
  assumes "value_at fl buf len q v p"
  shows "buf ! q \<noteq> 0x5D"
proof
  assume c: "buf ! q = 0x5D"
  have b: "\<not> bytes_at buf q (x # xs)" if "x \<noteq> 0x5D" for x xs
    using bytes_at_nth [of buf q "x # xs" 0] that c by auto
  have "\<not> number_start 0x5D" by (simp add: number_start_def is_digit_def)
  with assms c show False by cases (auto simp: b)
qed

lemma derives_accepts:
  assumes pd: "padded buf len"
  shows "value_at fl buf len q v p \<Longrightarrow> pos_ok len q \<Longrightarrow> accepts_task fl sax buf len (TValue q) (json_events v) p"
    and "elems_at fl buf len q vs p \<Longrightarrow> pos_ok len q
      \<Longrightarrow> \<forall>k. accepts_task fl sax buf len (TElems q k) (elems_events vs @ [EEndArray (word_of_nat (k + length vs))]) p"
    and "members_at fl buf len q ms p \<Longrightarrow> pos_ok len q
      \<Longrightarrow> \<forall>k. accepts_task fl sax buf len (TMembers q k) (members_events ms @ [EEndObject (word_of_nat (k + length ms))]) p"
proof (induction rule: value_at_elems_at_members_at.inducts)
  case (VNull q)
  show ?case
  proof (rule accepts_taskI)
    fix n s s' assume "run_events sax (json_events JNull) s = Some s'"
    then have r: "run_events sax [ENull] s = Some s'" by simp
    note l = ref_scalar_literal [OF VNull(1) refl r]
    then show "ref_run (Suc n) fl sax buf len (TValue q) s = ROk s' (q + 4)" by (simp add: ref_run_scalar ref_scalar_def)
  qed
next
  case (VTrue q)
  show ?case
  proof (rule accepts_taskI)
    fix n s s' assume "run_events sax (json_events (JBool True)) s = Some s'"
    then have r: "run_events sax [EBool True] s = Some s'" by simp
    note l = ref_scalar_literal [OF VTrue(1) refl r]
    then show "ref_run (Suc n) fl sax buf len (TValue q) s = ROk s' (q + 4)" by (simp add: ref_run_scalar ref_scalar_def)
  qed
next
  case (VFalse q)
  show ?case
  proof (rule accepts_taskI)
    fix n s s' assume "run_events sax (json_events (JBool False)) s = Some s'"
    then have r: "run_events sax [EBool False] s = Some s'" by simp
    note l = ref_scalar_literal [OF VFalse(1) refl r]
    then show "ref_run (Suc n) fl sax buf len (TValue q) s = ROk s' (q + 5)" by (simp add: ref_run_scalar ref_scalar_def)
  qed
next
  case (VNumber q ev p)
  have c: "buf ! q \<noteq> 0x7B" "buf ! q \<noteq> 0x5B" using VNumber(1) not_number_start by metis+
  show ?case
  proof (rule accepts_taskI)
    fix n s s' assume "run_events sax (json_events (JNumber ev)) s = Some s'"
    then have "sax ev s = (True, s')" by (auto split: prod.splits if_splits)
    then show "ref_run (Suc n) fl sax buf len (TValue q) s = ROk s' p"
      using VNumber by (simp add: ref_run_scalar c ref_scalar_def ref_number_def)
  qed
next
  case (VString q t p)
  show ?case
  proof (rule accepts_taskI)
    fix n s s' assume "run_events sax (json_events (JString (q + 1) t)) s = Some s'"
    then have "sax (EString (q + 1) t) s = (True, s')" by (auto split: prod.splits if_splits)
    then show "ref_run (Suc n) fl sax buf len (TValue q) s = ROk s' p"
      using VString by (simp add: ref_run_scalar ref_scalar_def ref_string_def ref_sax_def)
  qed
next
  case (VEmptyArray q)
  show ?case
  proof (rule accepts_taskI)
    fix n s s' assume "run_events sax (json_events (JArray [])) s = Some s'"
    then have "run_events sax (EStartArray # [EEndArray 0]) s = Some s'" by simp
    from run_events_ConsE [OF this] obtain s1 where "sax EStartArray s = (True, s1)" "run_events sax [EEndArray 0] s1 = Some s'" by blast
    with ref_sax_event [OF this(2)] show "ref_run (Suc n) fl sax buf len (TValue q) s = ROk s' (ref_space buf (q + 1) + 1)"
      using VEmptyArray by simp
  qed
next
  case (VEmptyObject q)
  show ?case
  proof (rule accepts_taskI)
    fix n s s' assume "run_events sax (json_events (JObject [])) s = Some s'"
    then have "run_events sax (EStartObject # [EEndObject 0]) s = Some s'" by simp
    from run_events_ConsE [OF this] obtain s1 where "sax EStartObject s = (True, s1)" "run_events sax [EEndObject 0] s1 = Some s'" by blast
    with ref_sax_event [OF this(2)] show "ref_run (Suc n) fl sax buf len (TValue q) s = ROk s' (ref_space buf (q + 1) + 1)"
      using VEmptyObject by simp
  qed
next
  case (VArray q vs p)
  let ?q = "ref_space buf (q + 1)"
  have q: "q < len" "pos_ok len ?q" "q < ?q" using first_token [OF pd VArray.prems] VArray(1) by simp_all
  have nc: "buf ! ?q \<noteq> 0x5D" using VArray(2) by (auto elim: elems_at.cases dest: value_first)
  show ?case
  proof (rule accepts_taskI)
    fix n s s' assume f: "task_fuel len (TValue q) \<le> Suc n" and "run_events sax (json_events (JArray vs)) s = Some s'"
    then have "run_events sax (EStartArray # elems_events vs @ [EEndArray (word_of_nat (length vs))]) s = Some s'"
      by (simp only: container_events)
    from run_events_ConsE [OF this] obtain s1 where s1: "sax EStartArray s = (True, s1)"
      "run_events sax (elems_events vs @ [EEndArray (word_of_nat (0 + length vs))]) s1 = Some s'" by auto
    have "ref_run n fl sax buf len (TElems ?q 0) s1 = ROk s' p"
      by (rule accepts_taskD [OF spec [OF VArray(3) [OF q(2)]] _ s1(2)]) (use f q in simp)
    with s1(1) VArray(1) nc show "ref_run (Suc n) fl sax buf len (TValue q) s = ROk s' p" by simp
  qed
next
  case (VObject q ms p)
  let ?q = "ref_space buf (q + 1)"
  have q: "q < len" "pos_ok len ?q" "q < ?q" using first_token [OF pd VObject.prems] VObject(1) by simp_all
  have nc: "buf ! ?q \<noteq> 0x7D" using VObject(2) by (auto elim: members_at.cases)
  show ?case
  proof (rule accepts_taskI)
    fix n s s' assume f: "task_fuel len (TValue q) \<le> Suc n" and "run_events sax (json_events (JObject ms)) s = Some s'"
    then have "run_events sax (EStartObject # members_events ms @ [EEndObject (word_of_nat (length ms))]) s = Some s'"
      by (simp only: container_events)
    from run_events_ConsE [OF this] obtain s1 where s1: "sax EStartObject s = (True, s1)"
      "run_events sax (members_events ms @ [EEndObject (word_of_nat (0 + length ms))]) s1 = Some s'" by auto
    have "ref_run n fl sax buf len (TMembers ?q 0) s1 = ROk s' p"
      by (rule accepts_taskD [OF spec [OF VObject(3) [OF q(2)]] _ s1(2)]) (use f q in simp)
    with s1(1) VObject(1) nc show "ref_run (Suc n) fl sax buf len (TValue q) s = ROk s' p" by simp
  qed
next
  case (ELast q v p)
  show ?case
  proof (intro allI accepts_taskI)
    fix k n s s' assume f: "task_fuel len (TElems q k) \<le> Suc n"
      and "run_events sax (elems_events [v] @ [EEndArray (word_of_nat (k + length [v]))]) s = Some s'"
    then have "run_events sax (json_events v @ [EEndArray (word_of_nat (k + 1))]) s = Some s'" by (simp add: container_events)
    from run_events_appendE [OF this] obtain s1 where s1: "run_events sax (json_events v) s = Some s1"
      "run_events sax [EEndArray (word_of_nat (k + 1))] s1 = Some s'" by blast
    have "ref_run n fl sax buf len (TValue q) s = ROk s1 p"
      by (rule accepts_taskD [OF ELast(2) [OF ELast.prems] _ s1(1)]) (use f in simp)
    with ref_sax_event [OF s1(2)] ELast show "ref_run (Suc n) fl sax buf len (TElems q k) s = ROk s' (ref_space buf p + 1)" by simp
  qed
next
  case (ECons q v p vs p')
  let ?q = "ref_space buf (ref_space buf p + 1)"
  have v: "q < p" "pos_ok len p" using at_bounds(1) [OF pd ECons(1,6)] by simp_all
  have t: "p \<le> ref_space buf p" "pos_ok len ?q" "ref_space buf p < ?q" "ref_space buf p < len" using next_token [OF pd v(2)] ECons by simp_all
  show ?case
  proof (intro allI accepts_taskI)
    fix k n s s' assume f: "task_fuel len (TElems q k) \<le> Suc n"
      and "run_events sax (elems_events (v # vs) @ [EEndArray (word_of_nat (k + length (v # vs)))]) s = Some s'"
    then have "run_events sax (json_events v @ elems_events vs @ [EEndArray (word_of_nat ((k + 1) + length vs))]) s = Some s'"
      by (simp add: container_events)
    from run_events_appendE [OF this] obtain s1 where s1: "run_events sax (json_events v) s = Some s1"
      "run_events sax (elems_events vs @ [EEndArray (word_of_nat ((k + 1) + length vs))]) s1 = Some s'" by blast
    have "ref_run n fl sax buf len (TValue q) s = ROk s1 p"
      by (rule accepts_taskD [OF ECons(2) [OF ECons.prems] _ s1(1)]) (use f in simp)
    moreover have "ref_run n fl sax buf len (TElems ?q (k + 1)) s1 = ROk s' p'"
      by (rule accepts_taskD [OF spec [OF ECons(5) [OF t(2)]] _ s1(2)]) (use f v t in simp)
    ultimately show "ref_run (Suc n) fl sax buf len (TElems q k) s = ROk s' p'" using ECons by simp
  qed
next
  case (MLast q t k v p)
  then have k: "q + 1 < k" "pos_ok len k" using padded_string [OF pd _ MLast(2)] pos_ok_char [OF pd, of q] by simp_all
  let ?v = "ref_space buf (ref_space buf k + 1)"
  have c: "k \<le> ref_space buf k" "pos_ok len ?v" "ref_space buf k < ?v" "ref_space buf k < len" using next_token [OF pd k(2)] MLast(3) by simp_all
  show ?case
  proof (intro allI accepts_taskI)
    fix m n s s' assume f: "task_fuel len (TMembers q m) \<le> Suc n"
      and "run_events sax (members_events [((q + 1, t), v)] @ [EEndObject (word_of_nat (m + length [((q + 1, t), v)]))]) s = Some s'"
    then have "run_events sax (EKey (q + 1) t # json_events v @ [EEndObject (word_of_nat (m + 1))]) s = Some s'"
      by (simp add: container_events)
    from run_events_ConsE [OF this] obtain s0 where s0: "sax (EKey (q + 1) t) s = (True, s0)"
      "run_events sax (json_events v @ [EEndObject (word_of_nat (m + 1))]) s0 = Some s'" by blast
    from run_events_appendE [OF s0(2)] obtain s1 where s1: "run_events sax (json_events v) s0 = Some s1"
      "run_events sax [EEndObject (word_of_nat (m + 1))] s1 = Some s'" by blast
    have "ref_run n fl sax buf len (TValue ?v) s0 = ROk s1 p"
      by (rule accepts_taskD [OF MLast(5) [OF c(2)] _ s1(1)]) (use f k c in simp)
    with ref_sax_event [OF s1(2)] s0(1) MLast show "ref_run (Suc n) fl sax buf len (TMembers q m) s = ROk s' (ref_space buf p + 1)" by simp
  qed
next
  case (MCons q t k v p ms p')
  then have k: "q + 1 < k" "pos_ok len k" using padded_string [OF pd _ MCons(2)] pos_ok_char [OF pd, of q] by simp_all
  let ?v = "ref_space buf (ref_space buf k + 1)" and ?q = "ref_space buf (ref_space buf p + 1)"
  have c: "k \<le> ref_space buf k" "pos_ok len ?v" "ref_space buf k < ?v" "ref_space buf k < len" using next_token [OF pd k(2)] MCons(3) by simp_all
  have v: "?v < p" "pos_ok len p" using at_bounds(1) [OF pd MCons(4) c(2)] by simp_all
  have t: "p \<le> ref_space buf p" "pos_ok len ?q" "ref_space buf p < ?q" "ref_space buf p < len" using next_token [OF pd v(2)] MCons by simp_all
  show ?case
  proof (intro allI accepts_taskI)
    fix m n s s' assume f: "task_fuel len (TMembers q m) \<le> Suc n"
      and "run_events sax (members_events (((q + 1, t), v) # ms) @ [EEndObject (word_of_nat (m + length (((q + 1, t), v) # ms)))]) s = Some s'"
    then have "run_events sax (EKey (q + 1) t # json_events v @ members_events ms @ [EEndObject (word_of_nat ((m + 1) + length ms))]) s = Some s'"
      by (simp add: container_events)
    from run_events_ConsE [OF this] obtain s0 where s0: "sax (EKey (q + 1) t) s = (True, s0)"
      "run_events sax (json_events v @ members_events ms @ [EEndObject (word_of_nat ((m + 1) + length ms))]) s0 = Some s'" by blast
    from run_events_appendE [OF s0(2)] obtain s1 where s1: "run_events sax (json_events v) s0 = Some s1"
      "run_events sax (members_events ms @ [EEndObject (word_of_nat ((m + 1) + length ms))]) s1 = Some s'" by blast
    have "ref_run n fl sax buf len (TValue ?v) s0 = ROk s1 p"
      by (rule accepts_taskD [OF MCons(5) [OF c(2)] _ s1(1)]) (use f k c in simp)
    moreover have "ref_run n fl sax buf len (TMembers ?q (m + 1)) s1 = ROk s' p'"
      by (rule accepts_taskD [OF spec [OF MCons(8) [OF t(2)]] _ s1(2)]) (use f k c v t in simp)
    ultimately show "ref_run (Suc n) fl sax buf len (TMembers q m) s = ROk s' p'" using s0(1) MCons by simp
  qed
qed

end
