(* ===== verification/Sonic_ParserTotal.thy ===== *)
theory Sonic_ParserTotal
  imports Sonic_Grammar Sonic_NumberTotal
begin

text \<open>
  What follows for the whole parser: the texts it accepts are the JSON texts, and it returns.
\<close>

subsection \<open>JSON texts\<close>

text \<open>
  The text is a value between spaces. \<open>buf\<close> is the padded buffer of the text, \<open>len\<close> the length of
  the text; the value ends inside the text.
\<close>

definition json_text :: "u32 \<Rightarrow> bytes \<Rightarrow> nat \<Rightarrow> json \<Rightarrow> bool" where
  "json_text fl buf len v \<longleftrightarrow> (\<exists>p. value_at fl buf len (ref_space buf 0) v p \<and> p \<le> len
     \<and> len \<le> run_end IsSpace (take len buf) p)"

lemma run_end_take: "run_end P (take len buf) p \<le> max p len"
proof -
  have "length (takeWhile P (drop p (take len buf))) \<le> length (drop p (take len buf))" by (rule length_takeWhile_le)
  then show ?thesis by (simp add: run_end_def)
qed

lemma ref_top_value:
  assumes pd: "padded buf len" and q: "q = ref_space buf 0"
  shows "ref_top fl sax buf len q s = ROk s' p \<and> p \<le> len
    \<longleftrightarrow> (\<exists>v. value_at fl buf len q v p \<and> p \<le> len \<and> run_events sax (json_events v) s = Some s')"
proof (cases "buf ! q = 0x22")
  case True
  have "\<not> bytes_at buf q (x # xs)" if "x \<noteq> 0x22" for x xs using bytes_at_nth [of buf q "x # xs" 0] that True by auto
  then have "value_at fl buf len q v p \<longleftrightarrow> (\<exists>t. str_scan (flags_and fl kParseAllowUnescapedControlChars) buf (q + 1) = Some (Inr (t, p))
      \<and> v = JString (q + 1) t)" for v
    using True by (subst value_at.simps) auto
  then show ?thesis using True
    by (auto simp: ref_top_def split: option.splits sum.splits prod.splits if_splits)
next
  case False
  have ok: "pos_ok len q" using padded_space [OF pd, of 0] q by (simp add: pos_ok_def)
  have top: "ref_top fl sax buf len q s = ref_run (2 * len + 16) fl sax buf len (TValue q) s" using False by (simp add: ref_top_def)
  show ?thesis
  proof
    assume "ref_top fl sax buf len q s = ROk s' p \<and> p \<le> len"
    with ref_run_derives [of "2 * len + 16" fl sax buf len "TValue q" s s' p] top
    show "\<exists>v. value_at fl buf len q v p \<and> p \<le> len \<and> run_events sax (json_events v) s = Some s'"
      by (auto simp: task_at_def)
  next
    assume "\<exists>v. value_at fl buf len q v p \<and> p \<le> len \<and> run_events sax (json_events v) s = Some s'"
    then obtain v where v: "value_at fl buf len q v p" "p \<le> len" "run_events sax (json_events v) s = Some s'" by blast
    have "ref_run (2 * len + 16) fl sax buf len (TValue q) s = ROk s' p"
      by (rule accepts_taskD [OF derives_accepts(1) [OF pd v(1) ok] _ v(3)]) simp
    with top v show "ref_top fl sax buf len q s = ROk s' p \<and> p \<le> len" by simp
  qed
qed

lemma value_end:
  assumes pd: "padded buf len" and v: "value_at fl buf len q v p" and ok: "pos_ok len q" and c: "buf ! q \<noteq> 0x22"
  shows "p \<le> len"
proof -
  have b: "pos_ok len p" using at_bounds(1) [OF pd v ok] by simp
  have lit: "q + length xs \<le> len" if "bytes_at buf q xs" "xs = x # ys" "0x78 \<notin> set xs" for xs x ys
  proof -
    have "buf ! q = x" "x \<noteq> 0x78" using bytes_at_nth [OF that(1), of 0] that by auto
    then have "q < len" using pos_ok_char [OF pd ok] by simp
    then show ?thesis using padded_literal [OF pd _ that(1,3)] by simp
  qed
  from v c show ?thesis
  proof cases
    case VNumber
    then have "buf ! q \<noteq> 0x78" using number_start_x by metis
    then show ?thesis using VNumber(3) padded_number [OF pd] pos_ok_char [OF pd ok] by blast
  next
    case VArray
    then show ?thesis using at_bounds(2) [OF pd VArray(3)] first_token [OF pd ok] by simp
  next
    case VObject
    then show ?thesis using at_bounds(3) [OF pd VObject(3)] first_token [OF pd ok] by simp
  next
    case VEmptyArray
    then show ?thesis using pos_ok_char [OF pd first_token(2) [OF pd ok]] by simp
  next
    case VEmptyObject
    then show ?thesis using pos_ok_char [OF pd first_token(2) [OF pd ok]] by simp
  qed (use lit [of "[0x6E, 0x75, 0x6C, 0x6C]"] lit [of "[0x74, 0x72, 0x75, 0x65]"] lit [of "[0x66, 0x61, 0x6C, 0x73, 0x65]"] in auto)
qed

lemma ref_top_end:
  assumes pd: "padded buf len" and r: "ref_top fl sax buf len (ref_space buf 0) s = ROk s' p"
  shows "p \<le> len"
proof (cases "buf ! ref_space buf 0 = 0x22")
  case True
  with r show ?thesis by (auto simp: ref_top_def split: option.splits sum.splits prod.splits if_splits)
next
  case False
  have ok: "pos_ok len (ref_space buf 0)" using padded_space [OF pd, of 0] by (simp add: pos_ok_def)
  from r False ref_run_derives [of "2 * len + 16" fl sax buf len "TValue (ref_space buf 0)" s s' p] obtain v
    where "value_at fl buf len (ref_space buf 0) v p" by (auto simp: ref_top_def task_at_def)
  from value_end [OF pd this ok False] show ?thesis .
qed

lemma ref_parse_value:
  assumes pd: "padded buf len"
  shows "(\<exists>p. ref_parse fl sax buf len s = ROk s' p)
    \<longleftrightarrow> (\<exists>v. json_text fl buf len v \<and> run_events sax (json_events v) s = Some s')"
proof -
  let ?q = "ref_space buf 0"
  have "(\<exists>p. ref_parse fl sax buf len s = ROk s' p)
      \<longleftrightarrow> (\<exists>p. (ref_top fl sax buf len ?q s = ROk s' p \<and> p \<le> len) \<and> len \<le> run_end IsSpace (take len buf) p)"
    using ref_top_end [OF pd] by (auto simp: ref_parse_def not_less split: ref_result.splits)
  also have "\<dots> \<longleftrightarrow> (\<exists>v. json_text fl buf len v \<and> run_events sax (json_events v) s = Some s')"
    unfolding ref_top_value [OF pd refl] json_text_def by blast
  finally show ?thesis .
qed


subsection \<open>The parser returns\<close>

lemma ref_run_returns:
  assumes pd: "padded buf len" and z: "\<forall>q < len. \<not> undefined_zero buf q"
  shows "pos_ok len (case t of TValue q \<Rightarrow> q | TElems q k \<Rightarrow> q | TMembers q k \<Rightarrow> q) \<Longrightarrow> task_fuel len t \<le> n
    \<Longrightarrow> ref_run n fl sax buf len t s \<noteq> RUndef"
proof (induction n arbitrary: t s)
  case 0
  then show ?case by (cases t) simp_all
next
  case (Suc n)
  have scan: "str_scan al buf (q + 1) \<noteq> None" if "q < len" for al q
    using guard_scan [of buf "len + 1" "q + 1" al] pd that by (simp add: padded_def str_guard_def)
  have step: "q < p \<and> pos_ok len p" if "ref_run n fl sax buf len (TValue q) s = ROk s' p" "pos_ok len q" for q s s' p
    using ref_run_derives [OF that(1)] at_bounds(1) [OF pd _ that(2)] by (auto simp: task_at_def)
  show ?case
  proof (cases t)
    case (TValue q)
    then have ok: "pos_ok len q" and f: "task_fuel len (TValue q) \<le> Suc n" using Suc.prems by simp_all
    have scalar: "ref_scalar fl sax buf len q s \<noteq> RUndef" if "buf ! q \<noteq> 0x78"
    proof -
      have ql: "q < len" by (rule pos_ok_char [OF pd ok that])
      have "parseNumber fl buf (Suc q) len \<noteq> None" using z ql parseNumber_defined [OF padded_guard [OF pd] ql, of fl] by simp
      then have "ref_number fl sax buf len q s \<noteq> RUndef"
        by (auto simp: ref_number_def Let_def split: option.splits prod.splits)
      moreover have "ref_string fl sax buf q s \<noteq> RUndef"
        using scan [OF ql] by (auto simp: ref_string_def ref_sax_def split: option.splits sum.splits prod.splits)
      moreover have "ref_literal sax buf xs ev q s \<noteq> RUndef" for xs ev
        by (simp add: ref_literal_def ref_sax_def split: prod.splits)
      ultimately show ?thesis by (simp add: ref_scalar_def Let_def)
    qed
    have x: "ref_scalar fl sax buf len q s \<noteq> RUndef" if "buf ! q = 0x78"
      using that number_start_x by (simp add: ref_scalar_def)
    have sub: "ref_run n fl sax buf len (TMembers (ref_space buf (q + 1)) 0) s' \<noteq> RUndef"
      "ref_run n fl sax buf len (TElems (ref_space buf (q + 1)) 0) s' \<noteq> RUndef" if "buf ! q \<noteq> 0x78" for s'
      using Suc.IH [of "TMembers (ref_space buf (q + 1)) 0"] Suc.IH [of "TElems (ref_space buf (q + 1)) 0"]
        first_token [OF pd ok that] f by simp_all
    show ?thesis using scalar x sub TValue by (auto simp: ref_sax_def split: prod.splits)
  next
    case (TElems q k)
    then have ok: "pos_ok len q" and f: "task_fuel len (TElems q k) \<le> Suc n" using Suc.prems by simp_all
    have v: "ref_run n fl sax buf len (TValue q) s \<noteq> RUndef" using Suc.IH [of "TValue q"] ok f by simp
    show ?thesis
    proof (cases "ref_run n fl sax buf len (TValue q) s")
      case (ROk s1 p)
      note p = step [OF ROk ok]
      let ?q = "ref_space buf (ref_space buf p + 1)"
      have "ref_run n fl sax buf len (TElems ?q (k + 1)) s1 \<noteq> RUndef" if "buf ! ref_space buf p = 0x2C"
      proof (rule Suc.IH)
        show "task_fuel len (TElems ?q (k + 1)) \<le> n" using next_token(2,4) [OF pd, of p] next_token(1) [OF pd, of p] p that f by simp arith
      qed (use next_token(3) [OF pd, of p] p that in simp)
      then show ?thesis using TElems ROk by (auto simp: ref_sax_def split: prod.splits)
    qed (use v TElems in simp_all)
  next
    case (TMembers q k)
    then have ok: "pos_ok len q" and f: "task_fuel len (TMembers q k) \<le> Suc n" using Suc.prems by simp_all
    show ?thesis
    proof (cases "buf ! q = 0x22")
      case qt: True
      then have ql: "q < len" using pos_ok_char [OF pd ok] by simp
      from scan [OF ql] obtain r where r: "str_scan (flags_and fl kParseAllowUnescapedControlChars) buf (q + 1) = Some r" by blast
      show ?thesis
      proof (cases r)
        case (Inl e)
        then show ?thesis using TMembers qt r by simp
      next
        case (Inr y)
        obtain tx p0 where y: "y = (tx, p0)" by (cases y)
        have p0: "q + 1 < p0" "pos_ok len p0" using padded_string [OF pd ql] r Inr y by auto
        obtain ok' s1 where sx: "sax (EKey (q + 1) tx) s = (ok', s1)" by (cases "sax (EKey (q + 1) tx) s")
        let ?v = "ref_space buf (ref_space buf p0 + 1)"
        show ?thesis
        proof (cases "buf ! ref_space buf p0 = 0x3A \<and> ok'")
          case True
          then have c: "p0 \<le> ref_space buf p0" "pos_ok len ?v" "ref_space buf p0 < ?v" "ref_space buf p0 < len"
            using next_token [OF pd p0(2)] by simp_all
          have v: "ref_run n fl sax buf len (TValue ?v) s1 \<noteq> RUndef" using Suc.IH [of "TValue ?v"] c p0 f by simp
          show ?thesis
          proof (cases "ref_run n fl sax buf len (TValue ?v) s1")
            case (ROk s2 p)
            note p = step [OF ROk c(2)]
            let ?q = "ref_space buf (ref_space buf p + 1)"
            have "ref_run n fl sax buf len (TMembers ?q (k + 1)) s2 \<noteq> RUndef" if "buf ! ref_space buf p = 0x2C"
            proof (rule Suc.IH)
              show "task_fuel len (TMembers ?q (k + 1)) \<le> n"
                using next_token(2,4) [OF pd, of p] next_token(1) [OF pd, of p] p that f c p0 by simp arith
            qed (use next_token(3) [OF pd, of p] p that in simp)
            then show ?thesis using TMembers qt r Inr y sx True ROk by (auto simp: ref_sax_def split: prod.splits)
          qed (use v TMembers qt r Inr y sx True in simp_all)
        qed (use TMembers qt r Inr y sx in auto)
      qed
    qed (use TMembers in simp)
  qed
qed

lemma ref_parse_returns:
  assumes pd: "padded buf len" and z: "\<forall>q < len. \<not> undefined_zero buf q"
  shows "ref_parse fl sax buf len s \<noteq> RUndef"
proof -
  let ?q = "ref_space buf 0"
  have ok: "pos_ok len ?q" using padded_space [OF pd, of 0] by (simp add: pos_ok_def)
  have "ref_top fl sax buf len ?q s \<noteq> RUndef"
  proof (cases "buf ! ?q = 0x22")
    case True
    then have "?q < len" using pos_ok_char [OF pd ok] by simp
    then have "str_scan al buf (?q + 1) \<noteq> None" for al
      using guard_scan [of buf "len + 1" "?q + 1" al] pd by (simp add: padded_def str_guard_def)
    then show ?thesis using True by (auto simp: ref_top_def split: option.splits sum.splits prod.splits)
  next
    case False
    have "ref_run (2 * len + 16) fl sax buf len (TValue ?q) s \<noteq> RUndef"
      by (rule ref_run_returns [OF pd z]) (use ok in simp_all)
    with False show ?thesis by (simp add: ref_top_def)
  qed
  then show ?thesis by (auto simp: ref_parse_def split: ref_result.splits)
qed



lemma json_text_seven: "json_text 0 (allocateStringBuffer (bytes_of ''[7]'') (replicate 61 0)) 3 (JArray [JNumber (EUint 7)])"
proof -
  let ?b = "allocateStringBuffer (bytes_of ''[7]'') (replicate 61 0)"
  have "value_at 0 ?b 3 0 (JArray [JNumber (EUint 7)]) (ref_space ?b 2 + 1)"
  proof (rule VArray)
    show "?b ! 0 = 0x5B" by (simp add: allocateStringBuffer_def)
    have s: "ref_space ?b (0 + 1) = 1" "ref_space ?b 2 = 2" by code_simp+
    have "value_at 0 ?b 3 1 (JNumber (EUint 7)) 2"
    proof (rule VNumber)
      show "number_start (?b ! 1)" by code_simp
      show "parseNumber 0 ?b (Suc 1) 3 = Some (Some (EUint 7), kErrorNone, 2)" by code_simp
    qed
    moreover have "?b ! ref_space ?b 2 = 0x5D" unfolding s(2) by code_simp
    ultimately show "elems_at 0 ?b 3 (ref_space ?b (0 + 1)) [JNumber (EUint 7)] (ref_space ?b 2 + 1)" unfolding s(1) by (rule ELast)
  qed
  moreover have "ref_space ?b 0 = 0" "ref_space ?b 2 = 2" "run_end IsSpace (take 3 ?b) 3 = 3" by code_simp+
  ultimately show ?thesis by (auto simp: json_text_def)
qed


subsection \<open>Numbers make number events\<close>

definition number_result :: "num_result option \<Rightarrow> bool" where
  "number_result r \<longleftrightarrow> (\<forall>ev er p. r = Some (Some ev, er, p) \<longrightarrow> number_event ev)"

named_theorems number_results \<open>the parts of the number parser report number events\<close>

lemma number_result_simps [number_results]:
  "number_result None" "number_result (Some (None, er, p))"
  "number_event ev \<Longrightarrow> number_result (Some (Some ev, er, p))"
  by (simp_all add: number_result_def)

lemma number_result_bind [number_results]:
  "(\<And>x. m = Some x \<Longrightarrow> number_result (f x)) \<Longrightarrow> number_result (Option.bind m f)"
  by (cases m) (simp_all add: number_result_def)

lemma number_result_if [number_results]:
  "(P \<Longrightarrow> number_result a) \<Longrightarrow> (\<not> P \<Longrightarrow> number_result b) \<Longrightarrow> number_result (if P then a else b)"
  by simp

lemma number_result_prod [number_results]:
  "(\<And>a b. x = (a, b) \<Longrightarrow> number_result (f a b)) \<Longrightarrow> number_result (case x of (a, b) \<Rightarrow> f a b)"
  by (cases x) simp

lemma number_result_option [number_results]:
  "number_result n \<Longrightarrow> (\<And>a. x = Some a \<Longrightarrow> number_result (f a)) \<Longrightarrow> number_result (case x of None \<Rightarrow> n | Some a \<Rightarrow> f a)"
  by (cases x) simp_all

lemma number_result_check [number_results]: "number_result r \<Longrightarrow> number_result (CHECK_DIGIT s i r)"
  by (auto simp: CHECK_DIGIT_def number_result_def split: option.splits if_splits)

lemma number_result_string_fast [number_results]: "number_result (Some (double_string_fast s a i))"
  by (simp add: double_string_fast_def number_result_def)

lemma number_result_parts [number_results]:
  "number_result (zero_exponent s i sg)" "number_result (double_string_exp s a i)"
  "number_result (double_string_fract s a i)"
  by (auto simp: zero_exponent_def double_string_exp_def double_string_fract_def intro!: number_results)

lemma number_result_string_integer [number_results]: "number_result (string_integer s a d i man sg)"
  unfolding string_integer_def Let_def if_distrib [of Some, symmetric]
  by (auto simp: intro!: number_results)

lemma number_result_as_string [number_results]: "number_result (parseNumberAsString s pos)"
  unfolding parseNumberAsString_def string_zero_def string_digits_def Let_def
  by (auto intro!: number_results)

lemma number_result_double_fast [number_results]: "number_result (double_fast fl s pos len i man e sg tr)"
  unfolding double_fast_def by (auto intro!: number_results)

lemma number_result_double_exp [number_results]: "number_result (double_exp fl s pos len i man e sg tr)"
  unfolding double_exp_def by (auto intro!: number_results)

lemma number_result_double_fract [number_results]: "number_result (double_fract fl s pos len i man k e es sg tr)"
  unfolding double_fract_def Let_def by (auto intro!: number_results)

lemma number_result_integer [number_results]: "number_result (parse_integer fl s pos len i man e sg)"
  unfolding parse_integer_def Let_def by (auto intro!: number_results)

lemma parseNumber_event: "parseNumber fl s pos len = Some (Some ev, er, p) \<Longrightarrow> number_event ev"
proof -
  have "number_result (parseNumber fl s pos len)"
    unfolding parseNumber_def number_zero_def number_digits_def Let_def by (auto intro!: number_results)
  then show "parseNumber fl s pos len = Some (Some ev, er, p) \<Longrightarrow> number_event ev" by (simp add: number_result_def)
qed

end
