(* ===== verification/Sonic_Node.thy ===== *)
theory Sonic_Node
  imports Sonic_NodeBits
begin

text \<open>
  Document nodes (\<open>dom/genericnode.h\<close>, \<open>dom/dynamicnode.h\<close>) as trees. A node is its tagged union: one
  constructor per kind of type code, with the payload of its union member. A container node holds the
  block \<open>children()\<close> points to: \<^term>\<open>None\<close> for the null pointer, or the meta node in front of the
  children, which are the elements or members themselves. No two nodes share a block (nodes
  can be moved but not copied), so that a block is modelled by what it holds.
\<close>

subsection \<open>Nodes\<close>

datatype str_kind = SCopy | SFree | SConst

record MetaNode =
  mt_cap :: nat
  mt_map :: "(bytes \<times> nat) list option"

definition new_MetaNode :: "nat \<Rightarrow> MetaNode" where
  "new_MetaNode n = \<lparr>mt_cap = n, mt_map = None\<rparr>"

datatype dnode = DNull | DBool bool | DUint u64 | DSint u64 | DReal u64
  | DNumStr bool bytes | DStr str_kind bytes | DRaw bool bytes
  | DObject "MetaNode option" "(dnode \<times> dnode) list"
  | DArray "MetaNode option" "dnode list"

text \<open>\<open>GetType\<close> and \<open>Size\<close>; the flag of \<open>DNumStr\<close> and \<open>DRaw\<close> is the ownership bit.\<close>

fun dn_GetType :: "dnode \<Rightarrow> u8" where
  "dn_GetType DNull = kNull"
| "dn_GetType (DBool b) = (if b then kTrue else kFalse)"
| "dn_GetType (DUint u) = kUint"
| "dn_GetType (DSint u) = kSint"
| "dn_GetType (DReal u) = kReal"
| "dn_GetType (DNumStr own s) = kNumStr"
| "dn_GetType (DStr k s) = (case k of SCopy \<Rightarrow> kStringCopy | SFree \<Rightarrow> kStringFree | SConst \<Rightarrow> kStringConst)"
| "dn_GetType (DRaw own s) = kRaw"
| "dn_GetType (DObject m ms) = kObject"
| "dn_GetType (DArray m es) = kArray"

definition dn_getBasicType :: "dnode \<Rightarrow> u8" where
  "dn_getBasicType d = dn_GetType d AND kBasicTypeMask"

definition dn_IsObject :: "dnode \<Rightarrow> bool" where "dn_IsObject d \<longleftrightarrow> dn_getBasicType d = kObject"
definition dn_IsArray :: "dnode \<Rightarrow> bool" where "dn_IsArray d \<longleftrightarrow> dn_getBasicType d = kArray"
definition dn_IsContainer :: "dnode \<Rightarrow> bool" where
  "dn_IsContainer d \<longleftrightarrow> dn_GetType d AND kContainerMask = kContainerMask"

fun dn_Size :: "dnode \<Rightarrow> nat" where
  "dn_Size (DNumStr own s) = length s"
| "dn_Size (DStr k s) = length s"
| "dn_Size (DRaw own s) = length s"
| "dn_Size (DObject m ms) = length ms"
| "dn_Size (DArray m es) = length es"
| "dn_Size d = 0"

fun GetStringView :: "dnode \<Rightarrow> bytes option" where
  "GetStringView (DNumStr own s) = Some s"
| "GetStringView (DStr k s) = Some s"
| "GetStringView (DRaw own s) = Some s"
| "GetStringView d = None"

definition dnode_int64 :: "u64 \<Rightarrow> dnode" where
  "dnode_int64 i = (if 0 \<le> sint i then DUint i else DSint i)"

lemma dn_kind:
  "dn_IsObject d \<longleftrightarrow> (\<exists>m ms. d = DObject m ms)" "dn_IsArray d \<longleftrightarrow> (\<exists>m es. d = DArray m es)"
  "dn_IsContainer d \<longleftrightarrow> dn_IsObject d \<or> dn_IsArray d"
proof -
  have a: "dn_GetType d AND kBasicTypeMask = kObject \<longleftrightarrow> (\<exists>m ms. d = DObject m ms)"
    "dn_GetType d AND kBasicTypeMask = kArray \<longleftrightarrow> (\<exists>m es. d = DArray m es)"
    "dn_GetType d AND kContainerMask = kContainerMask \<longleftrightarrow> (\<exists>m ms. d = DObject m ms) \<or> (\<exists>m es. d = DArray m es)"
    by (cases d; simp add: type_code_defs split: str_kind.splits)+
  then show "dn_IsObject d \<longleftrightarrow> (\<exists>m ms. d = DObject m ms)" "dn_IsArray d \<longleftrightarrow> (\<exists>m es. d = DArray m es)"
    "dn_IsContainer d \<longleftrightarrow> dn_IsObject d \<or> dn_IsArray d"
    by (simp_all add: dn_IsObject_def dn_IsArray_def dn_IsContainer_def dn_getBasicType_def)
qed

subsection \<open>Allocation\<close>

text \<open>
  An allocator in some state says of a request whether it can be met. \<open>containerMalloc\<close> asks for the
  children and a meta node; the sizes are the ones of the 64-bit target.
\<close>

type_synonym 'a malloc = "u64 \<Rightarrow> 'a \<Rightarrow> bool \<times> 'a"

definition sizeof_DNode :: u64 where "sizeof_DNode = 16"
definition sizeof_MemberNode :: u64 where "sizeof_MemberNode = 32"
definition sizeof_MetaNode :: u64 where "sizeof_MetaNode = 16"

definition containerMalloc :: "'a malloc \<Rightarrow> u64 \<Rightarrow> nat \<Rightarrow> 'a \<Rightarrow> MetaNode option \<times> 'a" where
  "containerMalloc ma sz cap al =
     (case ma (word_of_nat cap * sz + sizeof_MetaNode) al of
        (True, al) \<Rightarrow> (Some (new_MetaNode cap), al)
      | (False, al) \<Rightarrow> (None, al))"

subsection \<open>Well-formed nodes\<close>

text \<open>
  The type invariant: a container without a block is empty, a block has room for its children,
  the map of an object indexes its members by their names, and a name is a string.
\<close>

definition meta_ok :: "nat \<Rightarrow> MetaNode option \<Rightarrow> bool" where
  "meta_ok n m \<longleftrightarrow> (case m of None \<Rightarrow> n = 0 | Some m \<Rightarrow> n \<le> mt_cap m)"

definition map_ok :: "bytes list \<Rightarrow> (bytes \<times> nat) list \<Rightarrow> bool" where
  "map_ok names mp \<longleftrightarrow> distinct (map snd mp) \<and> set mp = {(names ! i, i) |i. i < length names}"

fun is_DStr :: "dnode \<Rightarrow> bool" where
  "is_DStr (DStr k s) = True"
| "is_DStr d = False"

definition member_name :: "dnode \<times> dnode \<Rightarrow> bytes" where
  "member_name m = (case GetStringView (fst m) of None \<Rightarrow> [] | Some s \<Rightarrow> s)"

fun node_ok :: "dnode \<Rightarrow> bool" where
  "node_ok (DObject m ms) \<longleftrightarrow> meta_ok (length ms) m
     \<and> (\<forall>x \<in> set ms. is_DStr (fst x)) \<and> (\<forall>x \<in> set ms. node_ok (snd x))
     \<and> (case m of Some mt \<Rightarrow> (case mt_map mt of None \<Rightarrow> True | Some mp \<Rightarrow> map_ok (map member_name ms) mp) | None \<Rightarrow> True)"
| "node_ok (DArray m es) \<longleftrightarrow> meta_ok (length es) m \<and> (\<forall>x \<in> set es. node_ok x)"
| "node_ok d \<longleftrightarrow> True"

end
