(* ===== verification/Sonic_Handler.thy ===== *)
theory Sonic_Handler
  imports Sonic_ParserTotal Sonic_Node
begin

text \<open>
  \<open>SAXHandler\<close> of \<open>dom/handler.h\<close>, which builds the document: a stack of nodes \<open>st_\<close> of which \<open>np_\<close>
  are in use, the index \<open>parent_\<close> of the container being read, and the indices of the outer ones in
  the nodes of the open containers (\<open>o.next.ofs\<close>). A closed container takes the nodes above it as
  its children. The used part of the stack is a list; a slot is a node or an open container.
\<close>

datatype slot = SNode dnode | SOpen nat

record 'a sax_handler =
  sx_st :: "slot list"
  sx_live :: bool
  sx_cap :: nat
  sx_parent :: nat
  sx_oom :: bool
  sx_alloc :: 'a

definition sax_new :: "'a \<Rightarrow> 'a sax_handler" where
  "sax_new al = \<lparr>sx_st = [], sx_live = False, sx_cap = 0, sx_parent = 0, sx_oom = False, sx_alloc = al\<rparr>"

text \<open>\<open>SetUp\<close> for a text of a length; \<open>ra\<close> stands for \<open>std::realloc\<close>.\<close>

definition sax_SetUp :: "'a malloc \<Rightarrow> nat \<Rightarrow> 'a sax_handler \<Rightarrow> bool \<times> 'a sax_handler" where
  "sax_SetUp ra len h = (let cap = len div 2 + 2; cap = (if cap < 16 then 16 else cap) in
     if \<not> sx_live h \<or> sx_cap h < cap then
       (case ra (sizeof_DNode * word_of_nat cap) (sx_alloc h) of
          (False, al) \<Rightarrow> (False, h\<lparr>sx_alloc := al\<rparr>)
        | (True, al) \<Rightarrow> (True, h\<lparr>sx_live := True, sx_cap := cap, sx_alloc := al\<rparr>))
     else (True, h))"

definition sax_TearDown :: "'a sax_handler \<Rightarrow> 'a sax_handler" where
  "sax_TearDown h = (if sx_live h then h\<lparr>sx_live := False\<rparr> else h)"

text \<open>\<open>node\<close> with the construction of the new node in the slot it makes.\<close>

definition sax_node :: "'a malloc \<Rightarrow> slot \<Rightarrow> 'a sax_handler \<Rightarrow> bool \<times> 'a sax_handler" where
  "sax_node ra x h =
     (if length (sx_st h) < sx_cap h then (True, h\<lparr>sx_st := sx_st h @ [x]\<rparr>)
      else (let new_cap = sx_cap h * 2 in
        (case ra (sizeof_DNode * word_of_nat new_cap) (sx_alloc h) of
           (False, al) \<Rightarrow> (False, h\<lparr>sx_oom := True, sx_alloc := al\<rparr>)
         | (True, al) \<Rightarrow> (True, h\<lparr>sx_cap := new_cap, sx_alloc := al, sx_st := sx_st h @ [x]\<rparr>))))"

definition sax_Null where "sax_Null ra = sax_node ra (SNode DNull)"
definition sax_Bool where "sax_Bool ra b = sax_node ra (SNode (DBool b))"
definition sax_Uint where "sax_Uint ra u = sax_node ra (SNode (DUint u))"
definition sax_Int where "sax_Int ra i = sax_node ra (SNode (dnode_int64 i))"
definition sax_Double where "sax_Double ra d = sax_node ra (SNode (DReal d))"
definition sax_stringImpl where "sax_stringImpl ra s = sax_node ra (SNode (DStr SCopy s))"
definition sax_Key where "sax_Key = sax_stringImpl"
definition sax_String where "sax_String = sax_stringImpl"
definition sax_NumStr where "sax_NumStr ra s = sax_node ra (SNode (DNumStr False s))"
definition sax_Raw where "sax_Raw ra s = sax_node ra (SNode (DRaw False s))"

text \<open>\<open>StartObject\<close> and \<open>StartArray\<close> are the same code.\<close>

definition sax_Start :: "'a malloc \<Rightarrow> 'a sax_handler \<Rightarrow> bool \<times> 'a sax_handler" where
  "sax_Start ra h = (case sax_node ra (SOpen (sx_parent h)) h of
      (False, h) \<Rightarrow> (False, h)
    | (True, h) \<Rightarrow> (True, h\<lparr>sx_parent := length (sx_st h) - 1\<rparr>))"

text \<open>The nodes copied from the stack into the new block; every one of them must be finished.\<close>

fun slot_nodes :: "slot list \<Rightarrow> dnode list option" where
  "slot_nodes [] = Some []"
| "slot_nodes (SNode d # xs) = map_option ((#) d) (slot_nodes xs)"
| "slot_nodes (SOpen p # xs) = None"

fun pair_up :: "dnode list \<Rightarrow> (dnode \<times> dnode) list" where
  "pair_up (k # v # xs) = (k, v) # pair_up xs"
| "pair_up xs = []"

definition stack_nodes :: "nat \<Rightarrow> nat \<Rightarrow> 'a sax_handler \<Rightarrow> dnode list option" where
  "stack_nodes parent n h = (if parent + n < length (sx_st h)
     then slot_nodes (take n (drop (parent + 1) (sx_st h))) else None)"

definition close_container :: "dnode \<Rightarrow> nat \<Rightarrow> 'a sax_handler \<Rightarrow> 'a sax_handler" where
  "close_container d old h = h\<lparr>sx_st := take (sx_parent h) (sx_st h) @ [SNode d], sx_parent := old\<rparr>"

definition sax_EndObject :: "'a malloc \<Rightarrow> u32 \<Rightarrow> 'a sax_handler \<Rightarrow> (bool \<times> 'a sax_handler) option" where
  "sax_EndObject ma npairs h = (case rd (sx_st h) (sx_parent h) of
      Some (SOpen old) \<Rightarrow>
        (if npairs \<noteq> 0 then do {
           ns \<leftarrow> stack_nodes (sx_parent h) (2 * unat npairs) h;
           Some (case containerMalloc ma sizeof_MemberNode (unat npairs) (sx_alloc h) of
             (None, al) \<Rightarrow> (True, close_container (DObject None []) old (h\<lparr>sx_oom := True, sx_alloc := al\<rparr>))
           | (Some mt, al) \<Rightarrow> (True, close_container (DObject (Some mt) (pair_up ns)) old (h\<lparr>sx_alloc := al\<rparr>)))
         }
         else Some (True, close_container (DObject None []) old h))
    | _ \<Rightarrow> None)"

definition sax_EndArray :: "'a malloc \<Rightarrow> u32 \<Rightarrow> 'a sax_handler \<Rightarrow> (bool \<times> 'a sax_handler) option" where
  "sax_EndArray ma count h = (case rd (sx_st h) (sx_parent h) of
      Some (SOpen old) \<Rightarrow>
        (if count \<noteq> 0 then do {
           ns \<leftarrow> stack_nodes (sx_parent h) (unat count) h;
           Some (case containerMalloc ma sizeof_DNode (unat count) (sx_alloc h) of
             (None, al) \<Rightarrow> (True, close_container (DArray None []) old (h\<lparr>sx_oom := True, sx_alloc := al\<rparr>))
           | (Some mt, al) \<Rightarrow> (True, close_container (DArray (Some mt) ns) old (h\<lparr>sx_alloc := al\<rparr>)))
         }
         else Some (True, close_container (DArray None []) old h))
    | _ \<Rightarrow> None)"

text \<open>The handler as the parser calls it; the state \<^term>\<open>None\<close> is the one after an undefined access.\<close>

definition dom_event :: "'a malloc \<Rightarrow> 'a malloc \<Rightarrow> event \<Rightarrow> 'a sax_handler \<Rightarrow> (bool \<times> 'a sax_handler) option" where
  "dom_event ra ma ev h = (case ev of
      ENull \<Rightarrow> Some (sax_Null ra h)
    | EBool b \<Rightarrow> Some (sax_Bool ra b h)
    | EUint u \<Rightarrow> Some (sax_Uint ra u h)
    | EInt i \<Rightarrow> Some (sax_Int ra i h)
    | EDouble d \<Rightarrow> Some (sax_Double ra d h)
    | EString off s \<Rightarrow> Some (sax_String ra s h)
    | EKey off s \<Rightarrow> Some (sax_Key ra s h)
    | ENumStr off s \<Rightarrow> Some (sax_NumStr ra s h)
    | ERaw off s \<Rightarrow> Some (sax_Raw ra s h)
    | EStartObject \<Rightarrow> Some (sax_Start ra h)
    | EStartArray \<Rightarrow> Some (sax_Start ra h)
    | EEndObject n \<Rightarrow> sax_EndObject ma n h
    | EEndArray n \<Rightarrow> sax_EndArray ma n h)"

definition dom_sax :: "'a malloc \<Rightarrow> 'a malloc \<Rightarrow> 'a sax_handler option sax" where
  "dom_sax ra ma ev s = (case s of
      None \<Rightarrow> (False, None)
    | Some h \<Rightarrow> (case dom_event ra ma ev h of None \<Rightarrow> (False, None) | Some (ok, h) \<Rightarrow> (ok, Some h)))"

subsection \<open>The node of a value\<close>

fun number_node :: "event \<Rightarrow> dnode" where
  "number_node (EUint u) = DUint u"
| "number_node (EInt i) = dnode_int64 i"
| "number_node (EDouble d) = DReal d"
| "number_node (ENumStr off s) = DNumStr False s"
| "number_node (ERaw off s) = DRaw False s"
| "number_node ev = DNull"

definition new_meta :: "nat \<Rightarrow> MetaNode option" where
  "new_meta n = (if n = 0 then None else Some (new_MetaNode n))"

fun json_node :: "json \<Rightarrow> dnode" where
  "json_node JNull = DNull"
| "json_node (JBool b) = DBool b"
| "json_node (JNumber ev) = number_node ev"
| "json_node (JString off s) = DStr SCopy s"
| "json_node (JArray vs) = DArray (new_meta (length vs)) (map json_node vs)"
| "json_node (JObject ms) = DObject (new_meta (length ms)) (map (\<lambda>m. (DStr SCopy (snd (fst m)), json_node (snd m))) ms)"

text \<open>Values whose numbers are numbers.\<close>

fun json_ok :: "json \<Rightarrow> bool" where
  "json_ok (JNumber ev) \<longleftrightarrow> number_event ev"
| "json_ok (JArray vs) \<longleftrightarrow> (\<forall>v \<in> set vs. json_ok v)"
| "json_ok (JObject ms) \<longleftrightarrow> (\<forall>m \<in> set ms. json_ok (snd m))"
| "json_ok v \<longleftrightarrow> True"

lemma value_at_ok:
  "value_at fl buf len q v p \<Longrightarrow> json_ok v"
  "elems_at fl buf len q vs p \<Longrightarrow> \<forall>v \<in> set vs. json_ok v"
  "members_at fl buf len q ms p \<Longrightarrow> \<forall>m \<in> set ms. json_ok (snd m)"
  by (induction rule: value_at_elems_at_members_at.inducts) (auto dest: parseNumber_event)

subsection \<open>The calls of a value push its node\<close>

text \<open>
  Between two states the nodes \<open>ds\<close> were pushed; they are the wanted ones unless an allocation failed.
\<close>

definition pushed :: "dnode list \<Rightarrow> 'a sax_handler \<Rightarrow> 'a sax_handler \<Rightarrow> bool" where
  "pushed ds h h' \<longleftrightarrow> (\<exists>es. sx_st h' = sx_st h @ map SNode es \<and> length es = length ds \<and> (sx_oom h' \<or> (\<not> sx_oom h \<and> es = ds)))
     \<and> sx_parent h' = sx_parent h \<and> sx_cap h' = sx_cap h"

definition pushes :: "'a malloc \<Rightarrow> 'a malloc \<Rightarrow> event list \<Rightarrow> dnode list \<Rightarrow> nat \<Rightarrow> bool" where
  "pushes ra ma evs ds n \<longleftrightarrow> (\<forall>h. length (sx_st h) + n \<le> sx_cap h
     \<longrightarrow> (\<exists>h'. run_events (dom_sax ra ma) evs (Some h) = Some (Some h') \<and> pushed ds h h'))"

lemma pushesD:
  "pushes ra ma evs ds n \<Longrightarrow> length (sx_st h) + n \<le> sx_cap h
   \<Longrightarrow> \<exists>h'. run_events (dom_sax ra ma) evs (Some h) = Some (Some h') \<and> pushed ds h h'"
  by (simp add: pushes_def)

lemma pushes_one:
  assumes "\<And>h. dom_event ra ma ev h = Some (sax_node ra (SNode d) h)"
  shows "pushes ra ma [ev] [d] 1"
  using assms by (auto simp: pushes_def pushed_def dom_sax_def sax_node_def intro!: exI [of _ "[d]"])

lemma pushes_nil: "pushes ra ma [] [] n"
  by (simp add: pushes_def pushed_def)

lemma pushes_append:
  assumes "pushes ra ma evs ds n" and "pushes ra ma evs' ds' n'" and "length ds \<le> n"
  shows "pushes ra ma (evs @ evs') (ds @ ds') (n + n')"
  unfolding pushes_def
proof (intro allI impI)
  fix h :: "'a sax_handler"
  assume l: "length (sx_st h) + (n + n') \<le> sx_cap h"
  then obtain h1 where h1: "run_events (dom_sax ra ma) evs (Some h) = Some (Some h1)" "pushed ds h h1"
    using pushesD [OF assms(1), of h] by auto
  then have "length (sx_st h1) + n' \<le> sx_cap h1" using l assms(3) by (auto simp: pushed_def)
  then obtain h2 where h2: "run_events (dom_sax ra ma) evs' (Some h1) = Some (Some h2)" "pushed ds' h1 h2"
    using pushesD [OF assms(2), of h1] by auto
  have "pushed (ds @ ds') h h2"
  proof -
    from h1(2) obtain es where es: "sx_st h1 = sx_st h @ map SNode es" "length es = length ds" "sx_oom h1 \<or> (\<not> sx_oom h \<and> es = ds)"
      by (auto simp: pushed_def)
    from h2(2) obtain es' where es': "sx_st h2 = sx_st h1 @ map SNode es'" "length es' = length ds'" "sx_oom h2 \<or> (\<not> sx_oom h1 \<and> es' = ds')"
      by (auto simp: pushed_def)
    show ?thesis using h1(2) h2(2) es es' by (auto simp: pushed_def intro!: exI [of _ "es @ es'"])
  qed
  with h1(1) h2(1) show "\<exists>h'. run_events (dom_sax ra ma) (evs @ evs') (Some h) = Some (Some h') \<and> pushed (ds @ ds') h h'"
    by (auto simp: run_events_append)
qed

lemma slot_nodes_map: "slot_nodes (map SNode ds) = Some ds"
  by (induction ds) simp_all

text \<open>The call that closes a container over the nodes above it.\<close>

definition closes_over :: "'a malloc \<Rightarrow> 'a malloc \<Rightarrow> event \<Rightarrow> nat \<Rightarrow> (dnode list \<Rightarrow> dnode) \<Rightarrow> bool" where
  "closes_over ra ma en n mk \<longleftrightarrow> (\<forall>h old pre es. sx_st h = pre @ SOpen old # map SNode es \<longrightarrow> sx_parent h = length pre
     \<longrightarrow> length es = n \<longrightarrow> (\<exists>h' e. dom_event ra ma en h = Some (True, h') \<and> sx_st h' = pre @ [SNode e]
        \<and> sx_parent h' = old \<and> sx_cap h' = sx_cap h \<and> (sx_oom h' \<or> (\<not> sx_oom h \<and> e = mk es))))"

lemma pushes_container:
  assumes body: "pushes ra ma evs ds n"
    and start: "\<And>h. dom_event ra ma st h = Some (sax_Start ra h)"
    and fin: "closes_over ra ma en (length ds) mk"
  shows "pushes ra ma (st # evs @ [en]) [mk ds] (Suc n)"
  unfolding pushes_def
proof (intro allI impI)
  fix h :: "'a sax_handler"
  assume l: "length (sx_st h) + Suc n \<le> sx_cap h"
  let ?h1 = "h\<lparr>sx_st := sx_st h @ [SOpen (sx_parent h)], sx_parent := length (sx_st h)\<rparr>"
  have s: "dom_sax ra ma st (Some h) = (True, Some ?h1)"
    using l by (simp add: dom_sax_def start sax_Start_def sax_node_def)
  from pushesD [OF body, of ?h1] l obtain h2 where h2: "run_events (dom_sax ra ma) evs (Some ?h1) = Some (Some h2)" "pushed ds ?h1 h2"
    by auto
  then obtain es where es: "sx_st h2 = sx_st h @ SOpen (sx_parent h) # map SNode es" "length es = length ds"
      "sx_oom h2 \<or> (\<not> sx_oom h \<and> es = ds)" "sx_parent h2 = length (sx_st h)" "sx_cap h2 = sx_cap h"
    by (auto simp: pushed_def)
  from fin es obtain h3 e where h3: "dom_event ra ma en h2 = Some (True, h3)" "sx_st h3 = sx_st h @ [SNode e]"
      "sx_parent h3 = sx_parent h" "sx_cap h3 = sx_cap h2" "sx_oom h3 \<or> (\<not> sx_oom h2 \<and> e = mk es)"
    unfolding closes_over_def by blast
  have "run_events (dom_sax ra ma) (st # evs @ [en]) (Some h) = Some (Some h3)"
    using s h2(1) h3(1) by (simp add: run_events_append) (simp add: dom_sax_def)
  moreover have "pushed [mk ds] h h3"
    using es h3 by (auto simp: pushed_def intro!: exI [of _ "[e]"])
  ultimately show "\<exists>h'. run_events (dom_sax ra ma) (st # evs @ [en]) (Some h) = Some (Some h') \<and> pushed [mk ds] h h'" by blast
qed

lemma word_nat_u32: "n < 2 ^ 32 \<Longrightarrow> unat (word_of_nat n :: u32) = n"
  by (simp add: unsigned_of_nat take_bit_nat_eq_self)

lemma word_nat_u32_0: "n < 2 ^ 32 \<Longrightarrow> (word_of_nat n :: u32) = 0 \<longleftrightarrow> n = 0"
  using word_nat_u32 [of n] by (auto simp: word_unat_eq_iff)

lemma containerMalloc_cases:
  "(\<exists>al'. containerMalloc ma sz n al = (Some (new_MetaNode n), al')) \<or> (\<exists>al'. containerMalloc ma sz n al = (None, al'))"
  unfolding containerMalloc_def by (cases "ma (word_of_nat n * sz + sizeof_MetaNode) al") (auto split: bool.splits)

lemma closes_array:
  assumes n: "n < 2 ^ 32"
  shows "closes_over ra ma (EEndArray (word_of_nat n)) n (\<lambda>es. DArray (new_meta (length es)) es)"
  unfolding closes_over_def
proof (intro allI impI)
  fix h :: "'a sax_handler" and old pre es
  assume a: "sx_st h = pre @ SOpen old # map SNode es" "sx_parent h = length pre" "length es = n"
  have sn: "stack_nodes (length pre) n h = Some es"
    using a slot_nodes_map [of es] by (simp add: stack_nodes_def)
  show "\<exists>h' e. dom_event ra ma (EEndArray (word_of_nat n)) h = Some (True, h') \<and> sx_st h' = pre @ [SNode e]
        \<and> sx_parent h' = old \<and> sx_cap h' = sx_cap h \<and> (sx_oom h' \<or> (\<not> sx_oom h \<and> e = DArray (new_meta (length es)) es))"
    using a sn containerMalloc_cases [of ma sizeof_DNode n "sx_alloc h"] word_nat_u32 [OF n] word_nat_u32_0 [OF n]
    by (auto simp: dom_event_def sax_EndArray_def rd_def nth_append close_container_def new_meta_def)
qed

lemma closes_object:
  assumes n: "n < 2 ^ 32"
  shows "closes_over ra ma (EEndObject (word_of_nat n)) (2 * n) (\<lambda>es. DObject (new_meta n) (pair_up es))"
  unfolding closes_over_def
proof (intro allI impI)
  fix h :: "'a sax_handler" and old pre es
  assume a: "sx_st h = pre @ SOpen old # map SNode es" "sx_parent h = length pre" "length es = 2 * n"
  have sn: "stack_nodes (length pre) (2 * n) h = Some es"
    using a slot_nodes_map [of es] by (simp add: stack_nodes_def)
  show "\<exists>h' e. dom_event ra ma (EEndObject (word_of_nat n)) h = Some (True, h') \<and> sx_st h' = pre @ [SNode e]
        \<and> sx_parent h' = old \<and> sx_cap h' = sx_cap h \<and> (sx_oom h' \<or> (\<not> sx_oom h \<and> e = DObject (new_meta n) (pair_up es)))"
    using a sn containerMalloc_cases [of ma sizeof_MemberNode n "sx_alloc h"] word_nat_u32 [OF n] word_nat_u32_0 [OF n]
    by (auto simp: dom_event_def sax_EndObject_def rd_def nth_append close_container_def new_meta_def)
qed

lemma pushes_elems:
  assumes "\<And>v. v \<in> set vs \<Longrightarrow> pushes ra ma (json_events v) [json_node v] (json_nodes v)"
  shows "pushes ra ma (elems_events vs) (map json_node vs) (sum_list (map json_nodes vs))"
  using assms
proof (induction vs)
  case Nil
  then show ?case by (simp add: container_events pushes_nil)
next
  case (Cons v vs)
  have "1 \<le> json_nodes v" by (cases v) simp_all
  then show ?case
    using pushes_append [of ra ma "json_events v" "[json_node v]" "json_nodes v"] Cons by (simp add: container_events)
qed

definition member_nodes :: "((nat \<times> bytes) \<times> json) list \<Rightarrow> dnode list" where
  "member_nodes ms = concat (map (\<lambda>m. [DStr SCopy (snd (fst m)), json_node (snd m)]) ms)"

lemma pair_up_members: "pair_up (member_nodes ms) = map (\<lambda>m. (DStr SCopy (snd (fst m)), json_node (snd m))) ms"
  by (induction ms) (simp_all add: member_nodes_def)

lemma length_member_nodes: "length (member_nodes ms) = 2 * length ms"
  by (induction ms) (simp_all add: member_nodes_def)

lemma pushes_members:
  assumes "\<And>m. m \<in> set ms \<Longrightarrow> pushes ra ma (json_events (snd m)) [json_node (snd m)] (json_nodes (snd m))"
  shows "pushes ra ma (members_events ms) (member_nodes ms) (sum_list (map (\<lambda>m. 1 + json_nodes (snd m)) ms))"
  using assms
proof (induction ms)
  case Nil
  then show ?case by (simp add: container_events pushes_nil member_nodes_def)
next
  case (Cons m ms)
  obtain off s v where m: "m = ((off, s), v)" by (metis prod.exhaust)
  have n: "1 \<le> json_nodes v" by (cases v) simp_all
  have k: "pushes ra ma [EKey off s] [DStr SCopy s] 1"
    by (rule pushes_one) (simp add: dom_event_def sax_Key_def sax_stringImpl_def)
  have v: "pushes ra ma (json_events v) [json_node v] (json_nodes v)" using Cons.prems [of m] m by simp
  have r: "pushes ra ma (members_events ms) (member_nodes ms) (sum_list (map (\<lambda>m. 1 + json_nodes (snd m)) ms))"
    using Cons by simp
  have "pushes ra ma ([EKey off s] @ json_events v) ([DStr SCopy s] @ [json_node v]) (1 + json_nodes v)"
    by (rule pushes_append [OF k v]) simp
  from pushes_append [OF this r] n show ?case by (simp add: m container_events member_nodes_def)
qed

lemma json_nodes_length: "length vs \<le> sum_list (map json_nodes vs)" "length ms \<le> sum_list (map (\<lambda>m. 1 + json_nodes (snd m)) ms)"
proof -
  have p: "1 \<le> json_nodes v" for v by (cases v) simp_all
  show "length vs \<le> sum_list (map json_nodes vs)"
  proof (induction vs)
    case (Cons v vs)
    then show ?case using p [of v] by simp
  qed simp
  show "length ms \<le> sum_list (map (\<lambda>m. 1 + json_nodes (snd m)) ms)" by (induction ms) simp_all
qed

lemma json_nodes_elem: "v \<in> set vs \<Longrightarrow> json_nodes v \<le> sum_list (map json_nodes vs)"
  "m \<in> set ms \<Longrightarrow> json_nodes (snd m) \<le> sum_list (map (\<lambda>m. 1 + json_nodes (snd m)) ms)"
  by (induction vs, auto) (induction ms, auto)

lemma pushes_scalars:
  "pushes ra ma [ENull] [DNull] 1" "pushes ra ma [EBool b] [DBool b] 1"
  "pushes ra ma [EString off s] [DStr SCopy s] 1" "number_event ev \<Longrightarrow> pushes ra ma [ev] [number_node ev] 1"
proof -
  show "number_event ev \<Longrightarrow> pushes ra ma [ev] [number_node ev] 1"
    by (cases ev; intro pushes_one)
      (simp_all add: dom_event_def sax_Uint_def sax_Int_def sax_Double_def sax_NumStr_def sax_Raw_def)
qed (rule pushes_one; simp add: dom_event_def sax_Null_def sax_Bool_def sax_String_def sax_stringImpl_def)+

lemma pushes_value:
  "json_ok v \<Longrightarrow> json_nodes v < 2 ^ 31 \<Longrightarrow> pushes ra ma (json_events v) [json_node v] (json_nodes v)"
proof (induction v rule: json_nodes.induct)
  case (1 vs)
  have l: "length vs < 2 ^ 32" using 1(3) json_nodes_length(1) [of vs] by simp
  have b: "pushes ra ma (elems_events vs) (map json_node vs) (sum_list (map json_nodes vs))"
  proof (rule pushes_elems)
    fix v assume v: "v \<in> set vs"
    then show "pushes ra ma (json_events v) [json_node v] (json_nodes v)"
      using 1(1) [OF v] 1(2,3) json_nodes_elem(1) [OF v] by simp
  qed
  have "pushes ra ma (EStartArray # elems_events vs @ [EEndArray (word_of_nat (length vs))])
      [(\<lambda>es. DArray (new_meta (length es)) es) (map json_node vs)] (Suc (sum_list (map json_nodes vs)))"
    by (rule pushes_container [OF b]) (simp_all add: dom_event_def closes_array [OF l])
  then show ?case by (simp add: elems_events_def)
next
  case (2 ms)
  have l: "length ms < 2 ^ 32" using 2(3) json_nodes_length(2) [of ms] by simp
  have b: "pushes ra ma (members_events ms) (member_nodes ms) (sum_list (map (\<lambda>m. 1 + json_nodes (snd m)) ms))"
  proof (rule pushes_members)
    fix m assume m: "m \<in> set ms"
    then show "pushes ra ma (json_events (snd m)) [json_node (snd m)] (json_nodes (snd m))"
      using 2(1) [OF m] 2(2,3) json_nodes_elem(2) [OF m] by simp
  qed
  have "pushes ra ma (EStartObject # members_events ms @ [EEndObject (word_of_nat (length ms))])
      [(\<lambda>es. DObject (new_meta (length ms)) (pair_up es)) (member_nodes ms)] (Suc (sum_list (map (\<lambda>m. 1 + json_nodes (snd m)) ms)))"
    by (rule pushes_container [OF b]) (simp_all add: dom_event_def closes_object [OF l] length_member_nodes)
  then show ?case by (simp add: members_events_def pair_up_members)
qed (simp_all add: pushes_scalars [simplified])

end
