(* ===== verification/Sonic_HandlerSafe.thy ===== *)
theory Sonic_HandlerSafe
  imports Sonic_Handler
begin

text \<open>
  The handler is never used outside its stack, whatever the text: an open container stays in its slot,
  and the nodes above it are the ones its closing call counts.
\<close>

definition shape :: "'a sax_handler \<Rightarrow> slot list \<Rightarrow> nat \<Rightarrow> nat \<Rightarrow> bool" where
  "shape h pre old k \<longleftrightarrow> (\<exists>es. sx_st h = pre @ SOpen old # map SNode es \<and> sx_parent h = length pre \<and> length es = k)"

definition one_more :: "'a sax_handler \<Rightarrow> 'a sax_handler \<Rightarrow> bool" where
  "one_more h h' \<longleftrightarrow> (\<exists>e. sx_st h' = sx_st h @ [SNode e]) \<and> sx_parent h' = sx_parent h"

definition sane :: "'a sax_handler option ref_result \<Rightarrow> ('a sax_handler \<Rightarrow> bool) \<Rightarrow> bool" where
  "sane r K \<longleftrightarrow> (case r of RUndef \<Rightarrow> True | RFail s \<Rightarrow> s \<noteq> None | RSax s \<Rightarrow> s \<noteq> None
     | ROk s p \<Rightarrow> (\<exists>h'. s = Some h' \<and> K h'))"

lemma sane_simps [simp]:
  "sane RUndef K" "sane (RFail s) K \<longleftrightarrow> s \<noteq> None" "sane (RSax s) K \<longleftrightarrow> s \<noteq> None"
  "sane (ROk s p) K \<longleftrightarrow> (\<exists>h'. s = Some h' \<and> K h')"
  by (simp_all add: sane_def)

lemma shape_more:
  assumes "shape h pre old k" and "one_more h h'"
  shows "shape h' pre old (k + 1)"
proof -
  obtain es e where "sx_st h = pre @ SOpen old # map SNode es" "sx_parent h = length pre" "length es = k"
    "sx_st h' = sx_st h @ [SNode e]" "sx_parent h' = sx_parent h" using assms by (auto simp: shape_def one_more_def)
  then show ?thesis unfolding shape_def by (intro exI [of _ "es @ [e]"]) simp
qed

lemma sax_node_pushes:
  "\<exists>ok h'. sax_node ra x h = (ok, h') \<and> (ok \<longrightarrow> sx_st h' = sx_st h @ [x] \<and> sx_parent h' = sx_parent h)"
  by (auto simp: sax_node_def Let_def split: prod.splits bool.splits)

lemma dom_push:
  assumes "ev = ENull \<or> (\<exists>b. ev = EBool b) \<or> number_event ev \<or> (\<exists>off s. ev = EString off s) \<or> (\<exists>off s. ev = EKey off s)"
  shows "\<exists>ok h'. dom_sax ra ma ev (Some h) = (ok, Some h') \<and> (ok \<longrightarrow> one_more h h')"
proof -
  have "\<exists>d. dom_event ra ma ev h = Some (sax_node ra (SNode d) h)"
    using assms by (cases ev) (simp_all add: dom_event_def sax_Null_def sax_Bool_def sax_Uint_def sax_Int_def
        sax_Double_def sax_String_def sax_Key_def sax_stringImpl_def sax_NumStr_def sax_Raw_def, blast+)
  then obtain d where d: "dom_event ra ma ev h = Some (sax_node ra (SNode d) h)" ..
  obtain ok h' where "sax_node ra (SNode d) h = (ok, h')" "ok \<longrightarrow> sx_st h' = sx_st h @ [SNode d] \<and> sx_parent h' = sx_parent h"
    using sax_node_pushes [of ra "SNode d" h] by blast
  with d show ?thesis by (auto simp: dom_sax_def one_more_def)
qed

lemma dom_start:
  assumes "ev = EStartObject \<or> ev = EStartArray"
  shows "\<exists>ok h'. dom_sax ra ma ev (Some h) = (ok, Some h') \<and> (ok \<longrightarrow> shape h' (sx_st h) (sx_parent h) 0)"
proof -
  obtain ok h' where "sax_node ra (SOpen (sx_parent h)) h = (ok, h')"
    "ok \<longrightarrow> sx_st h' = sx_st h @ [SOpen (sx_parent h)] \<and> sx_parent h' = sx_parent h"
    using sax_node_pushes [of ra "SOpen (sx_parent h)" h] by blast
  with assms show ?thesis by (cases ok) (auto simp: dom_sax_def dom_event_def sax_Start_def shape_def)
qed

lemma dom_close:
  assumes c: "closes_over ra ma en n mk" and s: "shape h pre old n" and o: "sx_st h0 = pre" "sx_parent h0 = old"
  shows "sane (ref_sax (dom_sax ra ma) en (Some h) p) (one_more h0)"
proof -
  obtain es where es: "sx_st h = pre @ SOpen old # map SNode es" "sx_parent h = length pre" "length es = n" using s by (auto simp: shape_def)
  from c [unfolded closes_over_def, rule_format, OF es] obtain h' e where
    "dom_event ra ma en h = Some (True, h')" "sx_st h' = pre @ [SNode e]" "sx_parent h' = old" by blast
  then show ?thesis using o by (auto simp: ref_sax_def dom_sax_def one_more_def)
qed

lemma sane_scalar: "sane (ref_scalar fl (dom_sax ra ma) buf len q (Some h)) (one_more h)"
proof -
  have push: "sane (ref_sax (dom_sax ra ma) ev (Some h) p) (one_more h)"
    if "ev = ENull \<or> (\<exists>b. ev = EBool b) \<or> number_event ev \<or> (\<exists>off s. ev = EString off s) \<or> (\<exists>off s. ev = EKey off s)" for ev p
    using dom_push [OF that, of ra ma h] by (auto simp: ref_sax_def)
  have num: "sane (ref_number fl (dom_sax ra ma) buf len q (Some h)) (one_more h)"
  proof (cases "parseNumber fl buf (Suc q) len")
    case None
    then show ?thesis by (simp add: ref_number_def)
  next
    case (Some r)
    obtain e er p where r: "r = (e, er, p)" by (cases r)
    show ?thesis
    proof (cases e)
      case None
      then show ?thesis using Some r by (simp add: ref_number_def)
    next
      case ev: (Some ev)
      then have "number_event ev" using Some r parseNumber_event by simp
      with dom_push [of ev ra ma h] show ?thesis using Some r ev by (auto simp: ref_number_def)
    qed
  qed
  have str: "sane (ref_string fl (dom_sax ra ma) buf q (Some h)) (one_more h)"
    using push [of "EString (Suc q) _"] by (auto simp: ref_string_def split: option.splits sum.splits)
  have lit: "sane (ref_literal (dom_sax ra ma) buf xs ev q (Some h)) (one_more h)" if "ev = ENull \<or> (\<exists>b. ev = EBool b)" for xs ev
    using push [of ev "q + length xs"] that by (auto simp: ref_literal_def)
  show ?thesis using num str by (auto simp: ref_scalar_def Let_def intro!: lit)
qed

text \<open>What a task keeps, on a handler in the state it expects.\<close>

definition sane_task :: "u32 \<Rightarrow> 'a malloc \<Rightarrow> 'a malloc \<Rightarrow> bytes \<Rightarrow> nat \<Rightarrow> nat \<Rightarrow> ref_task \<Rightarrow> bool" where
  "sane_task fl ra ma buf len n t \<longleftrightarrow> (case t of
      TValue q \<Rightarrow> pos_ok len q \<longrightarrow> (\<forall>h. sane (ref_run n fl (dom_sax ra ma) buf len t (Some h)) (one_more h))
    | TElems q k \<Rightarrow> pos_ok len q \<longrightarrow> k \<le> q \<longrightarrow> (\<forall>h h0. shape h (sx_st h0) (sx_parent h0) k
        \<longrightarrow> sane (ref_run n fl (dom_sax ra ma) buf len t (Some h)) (one_more h0))
    | TMembers q k \<Rightarrow> pos_ok len q \<longrightarrow> k \<le> q \<longrightarrow> (\<forall>h h0. shape h (sx_st h0) (sx_parent h0) (2 * k)
        \<longrightarrow> sane (ref_run n fl (dom_sax ra ma) buf len t (Some h)) (one_more h0)))"

lemma sane_run:
  assumes pd: "padded buf len" and big: "len + 2 < 2 ^ 31"
  shows "sane_task fl ra ma buf len n t"
proof (induction n arbitrary: t)
  case 0
  show ?case by (cases t) (simp_all add: sane_task_def)
next
  case (Suc n)
  have step: "q < p \<and> pos_ok len p" if "ref_run n fl (dom_sax ra ma) buf len (TValue q) s = ROk s' p" "pos_ok len q" for q s s' p
    using ref_run_derives [OF that(1)] at_bounds(1) [OF pd _ that(2)] by (auto simp: task_at_def)
  note big32 = less_trans [OF _ less_trans [OF big, of "2 ^ 32", simplified], simplified]
  show ?case
  proof (cases t)
    case (TValue q)
    show ?thesis unfolding TValue sane_task_def ref_task.case
    proof (intro impI allI)
      fix h :: "'a sax_handler" assume ok: "pos_ok len q"
      let ?q = "ref_space buf (q + 1)"
      consider (obj) "buf ! q = 0x7B" | (arr) "buf ! q = 0x5B" | (other) "buf ! q \<noteq> 0x7B" "buf ! q \<noteq> 0x5B" by blast
      then show "sane (ref_run (Suc n) fl (dom_sax ra ma) buf len (TValue q) (Some h)) (one_more h)"
      proof cases
        case obj
        then have q: "pos_ok len ?q" using first_token [OF pd ok] by simp
        obtain b h1 where h1: "dom_sax ra ma EStartObject (Some h) = (b, Some h1)" "b \<longrightarrow> shape h1 (sx_st h) (sx_parent h) 0"
          using dom_start [of EStartObject ra ma h] by blast
        have "sane (ref_run n fl (dom_sax ra ma) buf len (TMembers ?q 0) (Some h1)) (one_more h)" if b
          using Suc.IH [of "TMembers ?q 0"] q h1(2) that by (simp add: sane_task_def)
        moreover have "sane (ref_sax (dom_sax ra ma) (EEndObject 0) (Some h1) (?q + 1)) (one_more h)" if b
          by (rule dom_close [OF closes_object [of 0, simplified]]) (use h1(2) that in simp_all)
        ultimately show ?thesis using obj h1(1) by simp
      next
        case arr
        then have q: "pos_ok len ?q" using first_token [OF pd ok] by simp
        obtain b h1 where h1: "dom_sax ra ma EStartArray (Some h) = (b, Some h1)" "b \<longrightarrow> shape h1 (sx_st h) (sx_parent h) 0"
          using dom_start [of EStartArray ra ma h] by blast
        have "sane (ref_run n fl (dom_sax ra ma) buf len (TElems ?q 0) (Some h1)) (one_more h)" if b
          using Suc.IH [of "TElems ?q 0"] q h1(2) that by (simp add: sane_task_def)
        moreover have "sane (ref_sax (dom_sax ra ma) (EEndArray 0) (Some h1) (?q + 1)) (one_more h)" if b
          by (rule dom_close [OF closes_array [of 0, simplified]]) (use h1(2) that in simp_all)
        ultimately show ?thesis using arr h1(1) by simp
      next
        case other
        then show ?thesis using sane_scalar [of fl ra ma buf len q h] by simp
      qed
    qed
  next
    case (TElems q k)
    show ?thesis unfolding TElems sane_task_def ref_task.case
    proof (intro impI allI)
      fix h h0 :: "'a sax_handler"
      assume ok: "pos_ok len q" and k: "k \<le> q" and sh: "shape h (sx_st h0) (sx_parent h0) k"
      have v: "sane (ref_run n fl (dom_sax ra ma) buf len (TValue q) (Some h)) (one_more h)"
        using Suc.IH [of "TValue q"] ok by (simp add: sane_task_def)
      have k1: "k + 1 < 2 ^ 32" using k ok big by (auto simp: pos_ok_def)
      show "sane (ref_run (Suc n) fl (dom_sax ra ma) buf len (TElems q k) (Some h)) (one_more h0)"
      proof (cases "ref_run n fl (dom_sax ra ma) buf len (TValue q) (Some h)")
        case (ROk s p)
        with v obtain h1 where h1: "s = Some h1" "one_more h h1" by auto
        have sh1: "shape h1 (sx_st h0) (sx_parent h0) (k + 1)" by (rule shape_more [OF sh h1(2)])
        note p = step [OF ROk ok]
        let ?q = "ref_space buf (ref_space buf p + 1)"
        have "sane (ref_run n fl (dom_sax ra ma) buf len (TElems ?q (k + 1)) (Some h1)) (one_more h0)" if "buf ! ref_space buf p = 0x2C"
        proof -
          have "pos_ok len ?q" "k + 1 \<le> ?q" using next_token [OF pd, of p] that p k by simp_all
          with Suc.IH [of "TElems ?q (k + 1)"] sh1 show ?thesis by (simp add: sane_task_def)
        qed
        moreover have "sane (ref_sax (dom_sax ra ma) (EEndArray (word_of_nat (k + 1))) (Some h1) (ref_space buf p + 1)) (one_more h0)"
          by (rule dom_close [OF closes_array [OF k1] sh1]) simp_all
        ultimately show ?thesis using ROk h1(1) by simp
      qed (use v in auto)
    qed
  next
    case (TMembers q k)
    show ?thesis unfolding TMembers sane_task_def ref_task.case
    proof (intro impI allI)
      fix h h0 :: "'a sax_handler"
      assume ok: "pos_ok len q" and k: "k \<le> q" and sh: "shape h (sx_st h0) (sx_parent h0) (2 * k)"
      have k1: "k + 1 < 2 ^ 32" using k ok big by (auto simp: pos_ok_def)
      show "sane (ref_run (Suc n) fl (dom_sax ra ma) buf len (TMembers q k) (Some h)) (one_more h0)"
      proof (cases "buf ! q = 0x22")
        case qt: True
        show ?thesis
        proof (cases "str_scan (flags_and fl kParseAllowUnescapedControlChars) buf (q + 1)")
          case None
          then show ?thesis using qt by simp
        next
          case sc: (Some r)
          show ?thesis
          proof (cases r)
            case (Inl e)
            then show ?thesis using qt sc by simp
          next
            case (Inr y)
            obtain tx p0 where y: "y = (tx, p0)" by (cases y)
            have p0: "q + 1 < p0" "pos_ok len p0" using padded_string [OF pd pos_ok_char [OF pd ok]] qt sc Inr y by auto
            obtain b h1 where h1: "dom_sax ra ma (EKey (q + 1) tx) (Some h) = (b, Some h1)" "b \<longrightarrow> one_more h h1"
              using dom_push [of "EKey (q + 1) tx" ra ma h] by auto
            let ?v = "ref_space buf (ref_space buf p0 + 1)"
            show ?thesis
            proof (cases "buf ! ref_space buf p0 = 0x3A \<and> b")
              case True
              then have c: "p0 \<le> ref_space buf p0" "pos_ok len ?v" "ref_space buf p0 < ?v"
                using next_token [OF pd p0(2)] by simp_all
              have v: "sane (ref_run n fl (dom_sax ra ma) buf len (TValue ?v) (Some h1)) (one_more h1)"
                using Suc.IH [of "TValue ?v"] c by (simp add: sane_task_def)
              show ?thesis
              proof (cases "ref_run n fl (dom_sax ra ma) buf len (TValue ?v) (Some h1)")
                case (ROk s p)
                with v obtain h2 where h2: "s = Some h2" "one_more h1 h2" by auto
                have "one_more h h1" using h1(2) True by simp
                from shape_more [OF shape_more [OF sh this] h2(2)] have sh2: "shape h2 (sx_st h0) (sx_parent h0) (2 * (k + 1))"
                  by (simp add: add.commute)
                note p = step [OF ROk c(2)]
                let ?q = "ref_space buf (ref_space buf p + 1)"
                have "sane (ref_run n fl (dom_sax ra ma) buf len (TMembers ?q (k + 1)) (Some h2)) (one_more h0)" if "buf ! ref_space buf p = 0x2C"
                proof -
                  have "pos_ok len ?q" "k + 1 \<le> ?q" using next_token [OF pd, of p] that p k c p0 by simp_all
                  with Suc.IH [of "TMembers ?q (k + 1)"] sh2 show ?thesis by (simp add: sane_task_def)
                qed
                moreover have "sane (ref_sax (dom_sax ra ma) (EEndObject (word_of_nat (k + 1))) (Some h2) (ref_space buf p + 1)) (one_more h0)"
                  by (rule dom_close [OF closes_object [OF k1] sh2]) simp_all
                ultimately show ?thesis using ROk h2(1) qt sc Inr y h1(1) True by simp
              qed (use v qt sc Inr y h1(1) True in auto)
            qed (use qt sc Inr y h1(1) in auto)
          qed
        qed
      qed simp
    qed
  qed
qed

text \<open>A whole parse leaves the handler in a state, not in an undefined one.\<close>

lemma sane_parse:
  assumes pd: "padded buf len" and big: "len + 2 < 2 ^ 31"
  shows "sane (ref_parse fl (dom_sax ra ma) buf len (Some h)) (one_more h)"
proof -
  let ?q = "ref_space buf 0"
  have ok: "pos_ok len ?q" using padded_space [OF pd, of 0] by (simp add: pos_ok_def)
  have "sane (ref_top fl (dom_sax ra ma) buf len ?q (Some h)) (one_more h)"
  proof (cases "buf ! ?q = 0x22")
    case True
    have "\<exists>b h1. dom_sax ra ma (EString (Suc ?q) tx) (Some h) = (b, Some h1) \<and> (b \<longrightarrow> one_more h h1)" for tx
      using dom_push [of "EString (Suc ?q) tx" ra ma h] by auto
    with True show ?thesis
      by (auto simp: ref_top_def split: option.splits sum.splits prod.splits) (metis Pair_inject option.inject)+
  next
    case False
    then show ?thesis using sane_run [OF pd big, of fl ra ma "2 * len + 16" "TValue ?q"] ok
      by (simp add: ref_top_def sane_task_def)
  qed
  then show ?thesis by (auto simp: ref_parse_def split: ref_result.splits)
qed

end
