(* ===== verification/Sonic_Document.thy ===== *)
theory Sonic_Document
  imports Sonic_HandlerSafe
begin

text \<open>
  \<open>GenericDocument\<close> of \<open>dom/generic_document.h\<close>: the root node with the allocator, the padded copy of
  the text the strings of the document point into, and the result of the last parse. The parameters are
  \<open>ra\<close> for \<open>std::realloc\<close>, \<open>ma\<close> for the allocator's \<open>Malloc\<close> and \<open>cl\<close> for its \<open>Clear\<close> (both on
  an abstract allocator state), \<open>nf\<close> for \<open>kNeedFree\<close>, and \<open>pad\<close> for what the unwritten end of the
  copy holds.
\<close>

record 'a document =
  doc_root :: dnode
  doc_own :: bool
  doc_alloc :: "'a option"
  doc_result :: ParseResult
  doc_str :: "bytes option"
  doc_schema_str :: "bytes option"

definition document_new :: "'a option \<Rightarrow> 'a \<Rightarrow> 'a document" where
  "document_new given fresh = \<lparr>doc_root = DNull, doc_own = (given = None),
     doc_alloc = Some (case given of None \<Rightarrow> fresh | Some al \<Rightarrow> al),
     doc_result = mk_ParseResult kErrorNone 0, doc_str = None, doc_schema_str = None\<rparr>"

definition HasParseError :: "'a document \<Rightarrow> bool" where
  "HasParseError d \<longleftrightarrow> pr_err (doc_result d) \<noteq> kErrorNone"

definition GetParseError :: "'a document \<Rightarrow> SonicError" where "GetParseError d = pr_err (doc_result d)"
definition GetErrorOffset :: "'a document \<Rightarrow> nat" where "GetErrorOffset d = pr_off (doc_result d)"

definition document_clear :: "'a document \<Rightarrow> 'a document" where
  "document_clear d = d\<lparr>doc_result := mk_ParseResult kErrorNone 0, doc_own := False, doc_alloc := None,
     doc_str := None, doc_schema_str := None\<rparr>"

text \<open>Moving: the new owner first, the emptied source second; a moved node becomes null.\<close>

definition document_move :: "'a document \<Rightarrow> 'a document \<times> 'a document" where
  "document_move rhs = (rhs, document_clear (rhs\<lparr>doc_root := DNull\<rparr>))"

definition document_move_assign :: "'a document \<Rightarrow> 'a document \<Rightarrow> 'a document \<times> 'a document" where
  "document_move_assign d rhs = document_move rhs"

definition document_Swap :: "'a document \<Rightarrow> 'a document \<Rightarrow> 'a document \<times> 'a document" where
  "document_Swap d rhs = (rhs, d)"

definition destroyDom :: "bool \<Rightarrow> ('a \<Rightarrow> 'a) \<Rightarrow> 'a document \<Rightarrow> 'a document" where
  "destroyDom nf cl d =
     (if \<not> nf then
        (let d = d\<lparr>doc_root := DNull\<rparr> in
         if doc_own d then d\<lparr>doc_alloc := map_option cl (doc_alloc d), doc_str := None, doc_schema_str := None\<rparr> else d)
      else d\<lparr>doc_str := None, doc_schema_str := None, doc_root := DNull\<rparr>)"

definition doc_allocateStringBuffer :: "'a malloc \<Rightarrow> bytes \<Rightarrow> bytes \<Rightarrow> 'a document \<Rightarrow> (SonicError \<times> 'a document) option" where
  "doc_allocateStringBuffer ma pad json d = (case doc_alloc d of
      None \<Rightarrow> None
    | Some al \<Rightarrow> Some (case ma (word_of_nat (length json + 64)) al of
        (False, al) \<Rightarrow> (kErrorNoMem, d\<lparr>doc_alloc := Some al, doc_str := None\<rparr>)
      | (True, al) \<Rightarrow> (kErrorNone, d\<lparr>doc_alloc := Some al, doc_str := Some (allocateStringBuffer json pad)\<rparr>)))"

text \<open>What \<open>parseImpl\<close> does with the outcome of the parser.\<close>

definition doc_take :: "ParseResult \<Rightarrow> bytes \<Rightarrow> 'a sax_handler \<Rightarrow> 'a document \<Rightarrow> 'a document option" where
  "doc_take res buf sax d =
     (let d = d\<lparr>doc_str := Some buf, doc_alloc := Some (sx_alloc sax), doc_result := res\<rparr> in
      if sx_oom sax then Some (d\<lparr>doc_result := ParseResult_of_error kErrorNoMem\<rparr>)
      else if HasParseError d then Some d
      else (case rd (sx_st sax) 0 of Some (SNode x) \<Rightarrow> Some (d\<lparr>doc_root := x\<rparr>) | _ \<Rightarrow> None))"

definition doc_parseImpl ::
  "isa \<Rightarrow> u32 \<Rightarrow> 'a malloc \<Rightarrow> 'a malloc \<Rightarrow> bytes \<Rightarrow> bytes \<Rightarrow> 'a document \<Rightarrow> 'a document option" where
  "doc_parseImpl i fl ra ma pad json d = do {
     al \<leftarrow> doc_alloc d;
     let len = length json;
     let (ok, sax) = sax_SetUp ra len (sax_new al);
     let d = d\<lparr>doc_alloc := Some (sx_alloc sax)\<rparr>;
     if \<not> ok then Some (d\<lparr>doc_result := ParseResult_of_error kErrorNoMem\<rparr>)
     else do {
       (er, d) \<leftarrow> doc_allocateStringBuffer ma pad json d;
       let d = d\<lparr>doc_result := ParseResult_of_error er\<rparr>;
       if HasParseError d then Some d
       else do {
         str \<leftarrow> doc_str d;
         al \<leftarrow> doc_alloc d;
         (res, p) \<leftarrow> Parse i fl False (dom_sax ra ma) str len (Parser_new [] (Some (sax\<lparr>sx_alloc := al\<rparr>)));
         sax \<leftarrow> p_sax p;
         doc_take res (p_buf p) sax d
       }
     }
   }"

definition doc_Parse ::
  "isa \<Rightarrow> u32 \<Rightarrow> bool \<Rightarrow> ('a \<Rightarrow> 'a) \<Rightarrow> 'a malloc \<Rightarrow> 'a malloc \<Rightarrow> bytes \<Rightarrow> bytes \<Rightarrow> 'a document \<Rightarrow> 'a document option" where
  "doc_Parse i fl nf cl ra ma pad json d = doc_parseImpl i fl ra ma pad json (destroyDom nf cl d)"

definition doc_ParseOnDemand ::
  "isa \<Rightarrow> u32 \<Rightarrow> bool \<Rightarrow> ('a \<Rightarrow> 'a) \<Rightarrow> 'a malloc \<Rightarrow> 'a malloc \<Rightarrow> bytes \<Rightarrow> bytes \<Rightarrow> JsonPointerNode list
    \<Rightarrow> 'a document \<Rightarrow> 'a document option" where
  "doc_ParseOnDemand i fl nf cl ra ma pad json path d = do {
     let d = destroyDom nf cl d;
     (res, off, target) \<leftarrow> GetOnDemand i json path;
     let d = d\<lparr>doc_result := res\<rparr>;
     if HasParseError d then Some d else doc_parseImpl i fl ra ma pad target d
   }"

subsection \<open>Parsing builds the tree\<close>

lemma json_text_ok:
  assumes pd: "padded buf len" and v: "json_text fl buf len v"
  shows "json_ok v" and "json_nodes v \<le> len div 2 + 1" and "len < 2 ^ 31 \<Longrightarrow> json_nodes v < 2 ^ 31"
proof -
  obtain p where p: "value_at fl buf len (ref_space buf 0) v p" "p \<le> len" using v by (auto simp: json_text_def)
  show "json_ok v" by (rule value_at_ok(1) [OF p(1)])
  have "pos_ok len (ref_space buf 0)" using padded_space [OF pd, of 0] by (simp add: pos_ok_def)
  from at_bounds(1) [OF pd p(1) this] p(2) have "2 * json_nodes v \<le> len + 1" by linarith
  then show n: "json_nodes v \<le> len div 2 + 1" by linarith
  show "len < 2 ^ 31 \<Longrightarrow> json_nodes v < 2 ^ 31" using n by simp
qed

lemma SetUp_handler:
  assumes "sax_SetUp ra len (sax_new al) = (True, h)"
  shows "sx_st h = []" and "sx_parent h = 0" and "\<not> sx_oom h" and "len div 2 + 1 < sx_cap h"
  using assms by (auto simp: sax_SetUp_def sax_new_def Let_def split: prod.splits bool.splits)

lemma pushed_json:
  assumes "sax_SetUp ra len (sax_new al) = (True, h)" and "padded buf len" and "len < 2 ^ 31"
    and "json_text fl buf len v"
  shows "\<exists>h' e. run_events (dom_sax ra' ma) (json_events v) (Some (h\<lparr>sx_alloc := al'\<rparr>)) = Some (Some h')
    \<and> sx_st h' = [SNode e] \<and> sx_cap h' = sx_cap h \<and> (sx_oom h' \<or> e = json_node v)"
proof -
  note h = SetUp_handler [OF assms(1)] and v = json_text_ok [OF assms(2,4)]
  let ?h = "h\<lparr>sx_alloc := al'\<rparr>"
  have "pushes ra' ma (json_events v) [json_node v] (json_nodes v)" by (rule pushes_value [OF v(1) v(3) [OF assms(3)]])
  from pushesD [OF this, of ?h] obtain h' where
    h': "run_events (dom_sax ra' ma) (json_events v) (Some ?h) = Some (Some h')" "pushed [json_node v] ?h h'"
    using h v(2) by auto
  from h'(2) obtain es where "sx_st h' = sx_st h @ map SNode es" "length es = 1" "sx_oom h' \<or> (\<not> sx_oom h \<and> es = [json_node v])"
      "sx_cap h' = sx_cap h"
    by (auto simp: pushed_def)
  with h(1) h'(1) show ?thesis by (auto simp: length_Suc_conv)
qed

text \<open>
  C36: the node stack allocated in advance is enough. On a handler set up for the length of a text,
  the calls a JSON text makes never ask \<open>std::realloc\<close> for more: they succeed with the same room
  whatever \<open>realloc\<close> does, and leave one node, the one of the value unless the allocator failed.
\<close>

theorem node_stack_suffices:
  assumes "sax_SetUp ra len (sax_new al) = (True, h)" and "padded buf len" and "len < 2 ^ 31"
    and "json_text fl buf len v"
  shows "\<exists>h' e. run_events (dom_sax ra' ma) (json_events v) (Some (h\<lparr>sx_alloc := al'\<rparr>)) = Some (Some h')
    \<and> sx_st h' = [SNode e] \<and> sx_cap h' = sx_cap h \<and> (sx_oom h' \<or> e = json_node v)"
  using assms by (rule pushed_json)

text \<open>One parse after \<open>SetUp\<close> and the copy of the text, seen from the outcome of \<open>Parse\<close>.\<close>

lemma doc_parse_cases:
  fixes ma :: "'a malloc"
  assumes len: "length json + 2 < 2 ^ 31" and pad: "length pad = 61" and h: "sax_SetUp ra (length json) (sax_new al) = (True, h)"
  shows "case ref_parse fl (dom_sax ra ma) (allocateStringBuffer json pad) (length json) (Some (h\<lparr>sx_alloc := al'\<rparr>)) of
      RUndef \<Rightarrow> Parse i fl False (dom_sax ra ma) (allocateStringBuffer json pad) (length json) (Parser_new [] (Some (h\<lparr>sx_alloc := al'\<rparr>))) = None
    | ROk s p \<Rightarrow> \<exists>v st h' e. json_text fl (allocateStringBuffer json pad) (length json) v
        \<and> Parse i fl False (dom_sax ra ma) (allocateStringBuffer json pad) (length json) (Parser_new [] (Some (h\<lparr>sx_alloc := al'\<rparr>)))
          = Some (mk_ParseResult kErrorNone (length json), st) \<and> p_sax st = Some h' \<and> sx_st h' = [SNode e] \<and> (sx_oom h' \<or> e = json_node v)
    | _ \<Rightarrow> (\<exists>res st h'. Parse i fl False (dom_sax ra ma) (allocateStringBuffer json pad) (length json) (Parser_new [] (Some (h\<lparr>sx_alloc := al'\<rparr>)))
          = Some (res, st) \<and> pr_err res \<noteq> kErrorNone \<and> p_sax st = Some h')
        \<and> (\<forall>v. \<not> json_text fl (allocateStringBuffer json pad) (length json) v)"
proof -
  let ?b = "allocateStringBuffer json pad" and ?n = "length json" and ?h = "h\<lparr>sx_alloc := al'\<rparr>" and ?sax = "dom_sax ra ma"
  have pd: "padded ?b ?n" by (rule padded_buffer [OF pad])
  note pr = parse_rel [OF pd len, where fl = fl and sax = ?sax and s = "Some ?h" and i = i and ?b0.0 = "[]"]
  have n: "?n < 2 ^ 31" using len by simp
  have some: "\<exists>s' p. ref_parse fl ?sax ?b ?n (Some ?h) = ROk s' p" if "json_text fl ?b ?n v" for v
    using pushed_json [OF h pd n that, of ra ma al'] ref_parse_value [OF pd, of fl ?sax "Some ?h"] that by blast
  have sn: "sane (ref_parse fl ?sax ?b ?n (Some ?h)) (one_more ?h)" by (rule sane_parse [OF pd len])
  show ?thesis
  proof (cases "ref_parse fl ?sax ?b ?n (Some ?h)")
    case RUndef
    then show ?thesis using pr by simp
  next
    case (RFail s)
    then show ?thesis using pr sn some by auto
  next
    case (RSax s)
    then show ?thesis using pr sn some by auto
  next
    case (ROk s p)
    then have "\<exists>p. ref_parse fl ?sax ?b ?n (Some ?h) = ROk s p" by blast
    then obtain v where v: "json_text fl ?b ?n v" "run_events ?sax (json_events v) (Some ?h) = Some s"
      unfolding ref_parse_value [OF pd] by blast
    with pushed_json [OF h pd n v(1), of ra ma al'] obtain h' e where "s = Some h'" "sx_st h' = [SNode e]" "sx_oom h' \<or> e = json_node v"
      by auto
    with pr ROk v(1) show ?thesis by auto
  qed
qed

lemma document_parse_cases:
  fixes d :: "'a document"
  assumes "length json + 2 < 2 ^ 31" and "length pad = 61"
    and "doc_Parse i fl nf cl ra ma pad json d = Some d'"
  shows "(GetParseError d' = kErrorNone \<longrightarrow> (\<exists>v. json_text fl (allocateStringBuffer json pad) (length json) v \<and> doc_root d' = json_node v))
    \<and> (GetParseError d' \<noteq> kErrorNone \<longrightarrow> doc_root d' = DNull)
    \<and> ((\<exists>v. json_text fl (allocateStringBuffer json pad) (length json) v) \<longrightarrow> GetParseError d' \<in> {kErrorNone, kErrorNoMem})"
proof -
  let ?d = "destroyDom nf cl d" and ?b = "allocateStringBuffer json pad"
  have root: "doc_root ?d = DNull" by (simp add: destroyDom_def Let_def)
  obtain al where al: "doc_alloc ?d = Some al" using assms(3) by (auto simp: doc_Parse_def doc_parseImpl_def bind_eq_Some_conv)
  obtain ok h where h: "sax_SetUp ra (length json) (sax_new al) = (ok, h)" by (cases "sax_SetUp ra (length json) (sax_new al)")
  show ?thesis
  proof (cases ok)
    case False
    then show ?thesis using assms(3) al h root
      by (auto simp: doc_Parse_def doc_parseImpl_def GetParseError_def ParseResult_of_error_def)
  next
    case ok: True
    obtain b al' where m: "ma (word_of_nat (length json + 64)) (sx_alloc h) = (b, al')" by (cases "ma (word_of_nat (length json + 64)) (sx_alloc h)")
    show ?thesis
    proof (cases b)
      case False
      then show ?thesis using assms(3) al h m ok root
        by (auto simp: doc_Parse_def doc_parseImpl_def doc_allocateStringBuffer_def GetParseError_def HasParseError_def ParseResult_of_error_def)
    next
      case True
      have h1: "sax_SetUp ra (length json) (sax_new al) = (True, h)" using h ok by simp
      note pc = doc_parse_cases [OF assms(1,2) h1, where fl = fl and ma = ma and al' = al' and i = i]
      let ?P = "Parse i fl False (dom_sax ra ma) ?b (length json) (Parser_new [] (Some (h\<lparr>sx_alloc := al'\<rparr>)))"
      obtain res p h' e where P: "?P = Some (res, p)" "p_sax p = Some h'" and e: "doc_take res (p_buf p) h' e = Some d'" "doc_root e = DNull"
        using assms(3) al h1 m True root
        by (auto simp: doc_Parse_def doc_parseImpl_def doc_allocateStringBuffer_def HasParseError_def
            ParseResult_of_error_def bind_eq_Some_conv Let_def split: if_splits)
      have d': "if sx_oom h' then GetParseError d' = kErrorNoMem \<and> doc_root d' = DNull
          else if pr_err res \<noteq> kErrorNone then GetParseError d' = pr_err res \<and> doc_root d' = DNull
          else \<exists>x. rd (sx_st h') 0 = Some (SNode x) \<and> GetParseError d' = kErrorNone \<and> doc_root d' = x"
        using e by (auto simp: doc_take_def HasParseError_def GetParseError_def ParseResult_of_error_def Let_def
            split: if_splits option.splits slot.splits)
      show ?thesis
        using pc P d' by (cases "ref_parse fl (dom_sax ra ma) ?b (length json) (Some (h\<lparr>sx_alloc := al'\<rparr>))")
          (auto simp: mk_ParseResult_def rd_def split: if_splits)
    qed
  qed
qed


lemma document_parse_returns_if:
  fixes d :: "'a document"
  assumes "length json + 2 < 2 ^ 31" and "length pad = 61" and "doc_alloc d \<noteq> None"
    and "\<And>al h al'. sax_SetUp ra (length json) (sax_new al) = (True, h)
      \<Longrightarrow> ref_parse fl (dom_sax ra ma) (allocateStringBuffer json pad) (length json) (Some (h\<lparr>sx_alloc := al'\<rparr>)) \<noteq> RUndef"
  shows "\<exists>d'. doc_Parse i fl nf cl ra ma pad json d = Some d'"
proof -
  let ?d = "destroyDom nf cl d" and ?b = "allocateStringBuffer json pad"
  have "doc_alloc ?d \<noteq> None" using assms(3) by (simp add: destroyDom_def Let_def)
  then obtain al where al: "doc_alloc ?d = Some al" by blast
  obtain ok h where h: "sax_SetUp ra (length json) (sax_new al) = (ok, h)" by (cases "sax_SetUp ra (length json) (sax_new al)")
  show ?thesis
  proof (cases ok)
    case False
    then show ?thesis using al h by (simp add: doc_Parse_def doc_parseImpl_def)
  next
    case True
    then have h1: "sax_SetUp ra (length json) (sax_new al) = (True, h)" using h by simp
    obtain b al' where m: "ma (word_of_nat (length json + 64)) (sx_alloc h) = (b, al')" by (cases "ma (word_of_nat (length json + 64)) (sx_alloc h)")
    show ?thesis
    proof (cases b)
      case False
      then show ?thesis using al h1 m
        by (simp add: doc_Parse_def doc_parseImpl_def doc_allocateStringBuffer_def HasParseError_def ParseResult_of_error_def)
    next
      case True
      have nu: "ref_parse fl (dom_sax ra ma) ?b (length json) (Some (h\<lparr>sx_alloc := al'\<rparr>)) \<noteq> RUndef"
        by (rule assms(4) [OF h1])
      note pc = doc_parse_cases [OF assms(1,2) h1, where fl = fl and ma = ma and al' = al' and i = i]
      obtain res p h' where P: "Parse i fl False (dom_sax ra ma) ?b (length json) (Parser_new [] (Some (h\<lparr>sx_alloc := al'\<rparr>))) = Some (res, p)"
        "p_sax p = Some h'" "pr_err res = kErrorNone \<longrightarrow> (\<exists>x. rd (sx_st h') 0 = Some (SNode x))"
        using pc nu by (cases "ref_parse fl (dom_sax ra ma) ?b (length json) (Some (h\<lparr>sx_alloc := al'\<rparr>))")
          (auto simp: mk_ParseResult_def rd_def)
      have "\<exists>d'. doc_take res (p_buf p) h' e = Some d'" for e
        using P(3) by (auto simp: doc_take_def HasParseError_def Let_def)
      then show ?thesis using True P(1,2) al h1 m
        by (simp add: doc_Parse_def doc_parseImpl_def doc_allocateStringBuffer_def HasParseError_def ParseResult_of_error_def Let_def)
    qed
  qed
qed

lemma document_parse_returns:
  fixes d :: "'a document"
  assumes "length json + 2 < 2 ^ 31" and "length pad = 61" and "doc_alloc d \<noteq> None"
    and "\<forall>q < length json. \<not> undefined_zero (allocateStringBuffer json pad) q"
  shows "\<exists>d'. doc_Parse i fl nf cl ra ma pad json d = Some d'"
  by (rule document_parse_returns_if [OF assms(1-3)]) (rule ref_parse_returns [OF padded_buffer [OF assms(2)] assms(4)])

lemma json_document_returns:
  fixes d :: "'a document"
  assumes "length json + 2 < 2 ^ 31" and "length pad = 61" and "doc_alloc d \<noteq> None"
    and "json_text fl (allocateStringBuffer json pad) (length json) v"
  shows "\<exists>d'. doc_Parse i fl nf cl ra ma pad json d = Some d'"
proof (rule document_parse_returns_if [OF assms(1-3)])
  fix al h al'
  assume h: "sax_SetUp ra (length json) (sax_new al) = (True, h)"
  have n: "length json < 2 ^ 31" using assms(1) by simp
  note pd = padded_buffer [OF assms(2), of json]
  show "ref_parse fl (dom_sax ra ma) (allocateStringBuffer json pad) (length json) (Some (h\<lparr>sx_alloc := al'\<rparr>)) \<noteq> RUndef"
  proof -
    obtain s' where "run_events (dom_sax ra ma) (json_events v) (Some (h\<lparr>sx_alloc := al'\<rparr>)) = Some s'"
      using pushed_json [OF h pd n assms(4), of ra ma al'] by blast
    then have "\<exists>p. ref_parse fl (dom_sax ra ma) (allocateStringBuffer json pad) (length json) (Some (h\<lparr>sx_alloc := al'\<rparr>)) = ROk s' p"
      unfolding ref_parse_value [OF pd] using assms(4) by blast
    then show ?thesis by auto
  qed
qed


lemma pair_meta_ok: "meta_ok n (new_meta n)"
  by (simp add: meta_ok_def new_meta_def new_MetaNode_def)

lemma number_node_ok: "node_ok (number_node ev)"
  by (cases ev) (simp_all add: dnode_int64_def)

lemma json_node_ok: "node_ok (json_node v)"
  by (induction v rule: json_nodes.induct)
    (auto simp: meta_ok_def number_node_ok new_meta_def new_MetaNode_def)

text \<open>
  C35: a parsed document is well typed: every container has a block exactly when it needs one, with room
  for its children, every name is a string, no map is left over, all the way down and also after
  errors and failed allocations.
\<close>

theorem document_parse_typed:
  fixes d :: "'a document"
  assumes "length json + 2 < 2 ^ 31" and "length pad = 61"
    and "doc_Parse i fl nf cl ra ma pad json d = Some d'"
  shows "node_ok (doc_root d')"
  using document_parse_cases [OF assms] json_node_ok by fastforce

subsection \<open>Concrete documents\<close>

definition yes :: "unit malloc" where "yes n s = (True, s)"

lemma seven_document:
  "\<exists>d'. doc_Parse AVX2 0 False id yes yes (replicate 61 0) (bytes_of ''[7]'') (document_new None ()) = Some d'"
proof (rule document_parse_returns)
  have z: "list_all (\<lambda>q. \<not> undefined_zero (allocateStringBuffer (bytes_of ''[7]'') (replicate 61 0)) q) [0..<3]" by code_simp
  have l: "length (bytes_of ''[7]'') = 3" by simp
  show "\<forall>q < length (bytes_of ''[7]''). \<not> undefined_zero (allocateStringBuffer (bytes_of ''[7]'') (replicate 61 0)) q"
    unfolding l using z by (auto simp only: list_all_iff set_upt atLeastLessThan_iff)
qed (simp_all add: document_new_def)


theorem node_stack_suffices_witness:
  "\<exists>h' e. run_events (dom_sax (\<lambda>n s. (False, s)) yes) [EStartArray, EUint 7, EEndArray 1]
      (Some (snd (sax_SetUp yes 3 (sax_new ())))) = Some (Some h') \<and> sx_st h' = [SNode e] \<and> sx_cap h' = 16"
proof -
  obtain h where h: "sax_SetUp yes 3 (sax_new ()) = (True, h)" "sx_cap h = 16" "h\<lparr>sx_alloc := ()\<rparr> = h"
    by (auto simp: sax_SetUp_def sax_new_def yes_def)
  have l: "length (bytes_of ''[7]'') = 3" by simp
  have "padded (allocateStringBuffer (bytes_of ''[7]'') (replicate 61 0)) 3"
    by (rule padded_buffer [of "replicate 61 0" "bytes_of ''[7]''", unfolded l]) simp
  from node_stack_suffices [OF h(1) this _ json_text_seven, of "\<lambda>n s. (False, s)" yes "()"] h show ?thesis by auto
qed


theorem document_parse_typed_witness:
  "\<exists>d'. doc_Parse AVX2 0 False id yes yes (replicate 61 0) (bytes_of ''[7]'') (document_new None ()) = Some d' \<and> node_ok (doc_root d')"
proof -
  obtain d' where d': "doc_Parse AVX2 0 False id yes yes (replicate 61 0) (bytes_of ''[7]'') (document_new None ()) = Some d'"
    using seven_document by blast
  have "node_ok (doc_root d')" by (rule document_parse_typed [OF _ _ d']) simp_all
  with d' show ?thesis by blast
qed

end
