(* ===== verification/Sonic_Itoa.thy ===== *)
theory Sonic_Itoa
  imports Sonic_Prelude
begin

text \<open>
  Integers in decimal: \<open>internal/itoa.h\<close> and the vector conversion of eight digits of
  \<open>x86_common/itoa.h\<close>. A function takes the buffer and the output position and returns
  the new ones; a vector register is the list of its eight 16-bit lanes.
\<close>

subsection \<open>The digit table\<close>

definition kDigits :: bytes where
  "kDigits = bytes_of (''00010203040506070809'' @ ''10111213141516171819'' @ ''20212223242526272829''
     @ ''30313233343536373839'' @ ''40414243444546474849'' @ ''50515253545556575859''
     @ ''60616263646566676869'' @ ''70717273747576777879'' @ ''80818283848586878889''
     @ ''90919293949596979899'') @ [0, 0]"

definition Copy2Digs :: "nat \<Rightarrow> bytes \<times> nat \<Rightarrow> (bytes \<times> nat) option" where
  "Copy2Digs src = (\<lambda>(buf, dst). do {
     a \<leftarrow> rd kDigits src;
     b \<leftarrow> rd kDigits (src + 1);
     buf \<leftarrow> wr buf dst [a, b];
     Some (buf, dst)
   })"

text \<open>Copying at \<open>out\<close> with the pointer moved by \<open>n\<close>.\<close>

definition copy_move :: "u32 \<Rightarrow> nat \<Rightarrow> bytes \<times> nat \<Rightarrow> (bytes \<times> nat) option" where
  "copy_move src n out = map_option (\<lambda>(buf, dst). (buf, dst + n)) (Copy2Digs (unat src) out)"

definition Utoa_1_8 :: "u32 \<Rightarrow> bytes \<times> nat \<Rightarrow> (bytes \<times> nat) option" where
  "Utoa_1_8 val out =
     (if val < 100 then
        (let lz = of_bool (val < 10) in copy_move (val * 2 + lz) (2 - unat lz) out)
      else if val < 10000 then
        (let hi = val div 100; lo = val mod 100; lz = of_bool (hi < 10) in do {
           out \<leftarrow> copy_move (hi * 2 + lz) (2 - unat lz) out;
           copy_move (lo * 2) 2 out
         })
      else if val < 1000000 then
        (let hi = val div 10000; lo = val mod 10000; lz = of_bool (hi < 10); a = lo div 100; b = lo mod 100 in do {
           out \<leftarrow> copy_move (hi * 2 + lz) (2 - unat lz) out;
           out \<leftarrow> copy_move (a * 2) 2 out;
           copy_move (b * 2) 2 out
         })
      else
        (let hi = val div 10000; lo = val mod 10000; a = hi div 100; b = hi mod 100; c = lo div 100; d = lo mod 100;
             lz = of_bool (a < 10) in do {
           out \<leftarrow> copy_move (a * 2 + lz) (2 - unat lz) out;
           out \<leftarrow> copy_move (b * 2) 2 out;
           out \<leftarrow> copy_move (c * 2) 2 out;
           copy_move (d * 2) 2 out
         }))"

subsection \<open>Eight digits in a register\<close>

type_synonym m128 = "u16 list"

definition lane32 :: "m128 \<Rightarrow> nat \<Rightarrow> u32" where
  "lane32 v j = push_bit 16 (ucast (v ! (2 * j + 1))) OR ucast (v ! (2 * j))"

definition lane64 :: "m128 \<Rightarrow> nat \<Rightarrow> u64" where
  "lane64 v j = push_bit 48 (ucast (v ! (4 * j + 3))) OR push_bit 32 (ucast (v ! (4 * j + 2)))
     OR push_bit 16 (ucast (v ! (4 * j + 1))) OR ucast (v ! (4 * j))"

definition put32 :: "u32 \<Rightarrow> m128" where "put32 w = [ucast w, ucast (drop_bit 16 w)]"

definition put64 :: "u64 \<Rightarrow> m128" where
  "put64 w = [ucast w, ucast (drop_bit 16 w), ucast (drop_bit 32 w), ucast (drop_bit 48 w)]"

definition mm_cvtsi32_si128 :: "u32 \<Rightarrow> m128" where
  "mm_cvtsi32_si128 n = put32 n @ replicate 6 0"

definition mm_set32 :: "u32 \<Rightarrow> m128" where
  "mm_set32 n = put32 n @ put32 n @ put32 n @ put32 n"

definition mm_mul_epu32 :: "m128 \<Rightarrow> m128 \<Rightarrow> m128" where
  "mm_mul_epu32 a b = put64 (ucast (lane32 a 0) * ucast (lane32 b 0)) @ put64 (ucast (lane32 a 2) * ucast (lane32 b 2))"

definition mm_srli_epi64 :: "m128 \<Rightarrow> nat \<Rightarrow> m128" where
  "mm_srli_epi64 a k = put64 (drop_bit k (lane64 a 0)) @ put64 (drop_bit k (lane64 a 1))"

definition mm_slli_epi64 :: "m128 \<Rightarrow> nat \<Rightarrow> m128" where
  "mm_slli_epi64 a k = put64 (push_bit k (lane64 a 0)) @ put64 (push_bit k (lane64 a 1))"

definition mm_sub_epi32 :: "m128 \<Rightarrow> m128 \<Rightarrow> m128" where
  "mm_sub_epi32 a b = put32 (lane32 a 0 - lane32 b 0) @ put32 (lane32 a 1 - lane32 b 1)
     @ put32 (lane32 a 2 - lane32 b 2) @ put32 (lane32 a 3 - lane32 b 3)"

definition mm_unpacklo_epi16 :: "m128 \<Rightarrow> m128 \<Rightarrow> m128" where
  "mm_unpacklo_epi16 a b = [a ! 0, b ! 0, a ! 1, b ! 1, a ! 2, b ! 2, a ! 3, b ! 3]"

definition mm_unpacklo_epi32 :: "m128 \<Rightarrow> m128 \<Rightarrow> m128" where
  "mm_unpacklo_epi32 a b = [a ! 0, a ! 1, b ! 0, b ! 1, a ! 2, a ! 3, b ! 2, b ! 3]"

definition mm_mulhi_epu16 :: "m128 \<Rightarrow> m128 \<Rightarrow> m128" where
  "mm_mulhi_epu16 a b = map2 (\<lambda>x y. ucast (drop_bit 16 (ucast x * ucast y :: u32))) a b"

definition mm_mullo_epi16 :: "m128 \<Rightarrow> m128 \<Rightarrow> m128" where "mm_mullo_epi16 a b = map2 (*) a b"
definition mm_sub_epi16 :: "m128 \<Rightarrow> m128 \<Rightarrow> m128" where "mm_sub_epi16 a b = map2 (-) a b"

definition mm_packus_epi16 :: "m128 \<Rightarrow> m128 \<Rightarrow> bytes" where
  "mm_packus_epi16 a b = map (\<lambda>x. word_of_int (max 0 (min 255 (sint x)))) (a @ b)"

definition mm_add_epi8 :: "bytes \<Rightarrow> bytes \<Rightarrow> bytes" where "mm_add_epi8 a b = map2 (+) a b"

definition kVec16xAsc0 :: bytes where "kVec16xAsc0 = replicate 16 0x30"
definition kVec8x10 :: m128 where "kVec8x10 = replicate 8 10"
definition kVec4x10k :: m128 where "kVec4x10k = mm_set32 10000"
definition kVec4xDiv10k :: m128 where "kVec4xDiv10k = mm_set32 0xd1b71759"
definition kVecDivPowers :: m128 where
  "kVecDivPowers = [0x20c5, 0x147b, 0x3334, 0x8000, 0x20c5, 0x147b, 0x3334, 0x8000]"
definition kVecShiftPowers :: m128 where
  "kVecShiftPowers = [0x0080, 0x0800, 0x2000, 0x8000, 0x0080, 0x0800, 0x2000, 0x8000]"

definition UtoaSSE :: "u32 \<Rightarrow> m128" where
  "UtoaSSE num = (
     let v00 = mm_cvtsi32_si128 num;
         v01 = mm_mul_epu32 v00 kVec4xDiv10k;
         v02 = mm_srli_epi64 v01 45;
         v03 = mm_mul_epu32 v02 kVec4x10k;
         v04 = mm_sub_epi32 v00 v03;
         v05 = mm_unpacklo_epi16 v02 v04;
         v06 = mm_slli_epi64 v05 2;
         v07 = mm_unpacklo_epi16 v06 v06;
         v08 = mm_unpacklo_epi32 v07 v07;
         v09 = mm_mulhi_epu16 v08 kVecDivPowers;
         v10 = mm_mulhi_epu16 v09 kVecShiftPowers;
         v11 = mm_mullo_epi16 v10 kVec8x10;
         v12 = mm_slli_epi64 v11 16
     in mm_sub_epi16 v10 v12)"

definition Utoa_8 :: "u32 \<Rightarrow> bytes \<times> nat \<Rightarrow> (bytes \<times> nat) option" where
  "Utoa_8 val = (\<lambda>(buf, out).
     (let v0 = UtoaSSE val; v1 = replicate 8 0; v2 = mm_packus_epi16 v0 v1; v3 = mm_add_epi8 v2 kVec16xAsc0 in
      map_option (\<lambda>buf. (buf, out + 8)) (wr buf out v3)))"

definition Utoa_16 :: "u64 \<Rightarrow> bytes \<times> nat \<Rightarrow> (bytes \<times> nat) option" where
  "Utoa_16 val = (\<lambda>(buf, out).
     (let v0 = UtoaSSE (ucast (val div 100000000)); v1 = UtoaSSE (ucast (val mod 100000000));
          v2 = mm_packus_epi16 v0 v1; v3 = mm_add_epi8 v2 kVec16xAsc0 in
      map_option (\<lambda>buf. (buf, out + 16)) (wr buf out v3)))"

subsection \<open>Integers\<close>

definition U64toa_17_20 :: "u64 \<Rightarrow> bytes \<times> nat \<Rightarrow> (bytes \<times> nat) option" where
  "U64toa_17_20 val out =
     (let lo = val mod 10000000000000000; hi = (ucast (val div 10000000000000000) :: u32) in do {
        out \<leftarrow> (if hi < 100 then
            (let lz = of_bool (hi < 10) in copy_move (hi * 2 + lz) (2 - unat lz) out)
          else if hi < 10000 then
            (let aa = hi div 100; bb = hi mod 100; lz = of_bool (aa < 10) in do {
               out \<leftarrow> copy_move (aa * 2 + lz) (2 - unat lz) out;
               copy_move (bb * 2) 2 out
             })
          else Some out);
        Utoa_16 lo out
      })"

definition U64toa :: "u64 \<Rightarrow> bytes \<times> nat \<Rightarrow> (bytes \<times> nat) option" where
  "U64toa val out =
     (if val < 100000000 then Utoa_1_8 (ucast val) out
      else if val < 10000000000000000 then
        (let hi = ucast (val div 100000000); lo = ucast (val mod 100000000) in do {
           out \<leftarrow> Utoa_1_8 hi out;
           Utoa_8 lo out
         })
      else U64toa_17_20 val out)"

definition I64toa :: "u64 \<Rightarrow> bytes \<times> nat \<Rightarrow> (bytes \<times> nat) option" where
  "I64toa val = (\<lambda>(buf, out). do {
     let neg = sint val < 0;
     buf \<leftarrow> wr buf out [0x2D];
     let abs_val = (if neg then 0 - val else val);
     U64toa abs_val (buf, out + of_bool neg)
   })"

subsection \<open>Decimal texts\<close>

definition digit :: "nat \<Rightarrow> u8" where "digit d = word_of_nat (48 + d)"

primrec dec_fix :: "nat \<Rightarrow> nat \<Rightarrow> bytes" where
  "dec_fix 0 n = []"
| "dec_fix (Suc k) n = dec_fix k (n div 10) @ [digit (n mod 10)]"

fun decimal :: "nat \<Rightarrow> bytes" where
  "decimal n = (if n < 10 then [digit n] else decimal (n div 10) @ [digit (n mod 10)])"

declare decimal.simps [simp del]

lemma length_dec_fix [simp]: "length (dec_fix k n) = k"
  by (induction k arbitrary: n) simp_all

lemma dec_fix_add: "dec_fix (j + k) n = dec_fix j (n div 10 ^ k) @ dec_fix k n"
proof (induction k arbitrary: n)
  case (Suc k)
  show ?case by (simp add: Suc [of "n div 10"] div_mult2_eq [symmetric] mult.commute)
qed simp

lemma dec_fix_mod: "dec_fix k (n mod 10 ^ k) = dec_fix k n"
proof (induction k arbitrary: n)
  case (Suc k)
  have "n mod 10 ^ Suc k div 10 = n div 10 mod 10 ^ k" by (simp add: mod_mult2_eq)
  then show ?case using Suc [of "n div 10"] by (simp add: mod_mod_cancel)
qed simp

lemma decimal_split: "0 < n div 10 ^ k \<Longrightarrow> decimal n = decimal (n div 10 ^ k) @ dec_fix k n"
proof (induction k arbitrary: n)
  case (Suc k)
  have d: "n div 10 div 10 ^ k = n div 10 ^ Suc k" by (simp add: div_mult2_eq)
  with Suc.prems have "0 < n div 10 div 10 ^ k" by simp
  from Suc.IH [OF this] d have "decimal (n div 10) = decimal (n div 10 ^ Suc k) @ dec_fix k (n div 10)" by simp
  moreover have "\<not> n < 10"
  proof
    assume "n < 10"
    then have "n div 10 = 0" by simp
    then show False using \<open>0 < n div 10 div 10 ^ k\<close> by simp
  qed
  ultimately show ?case by (subst decimal.simps) simp
qed simp

lemma decimal_fix: "10 ^ k \<le> n \<Longrightarrow> n < 10 ^ Suc k \<Longrightarrow> decimal n = dec_fix (Suc k) n"
proof (induction k arbitrary: n)
  case 0
  then show ?case by (subst decimal.simps) simp
next
  case (Suc k)
  have "10 ^ k \<le> n div 10" "n div 10 < 10 ^ Suc k" using Suc.prems by (simp_all add: less_eq_div_iff_mult_less_eq mult.commute less_mult_imp_div_less)
  moreover have "10 \<le> n"
  proof -
    have "(1::nat) \<le> 10 ^ k" by simp
    moreover have "10 * 10 ^ k \<le> n" using Suc.prems(1) by simp
    ultimately show ?thesis by linarith
  qed
  ultimately show ?case using Suc.IH [of "n div 10"] Suc.prems by (subst decimal.simps) simp
qed

lemma decimal_single: "n < 10 \<Longrightarrow> decimal n = [digit n]" by (simp add: decimal.simps)

lemma kDigits_eq: "kDigits = concat (map (\<lambda>v. [digit (v div 10), digit (v mod 10)]) [0..<100]) @ [0, 0]"
  by code_simp

lemma nth_pairs:
  "v < n \<Longrightarrow> (concat (map (\<lambda>v. [f v, g v]) [0..<n]) @ zs) ! (2 * v) = f v
    \<and> (concat (map (\<lambda>v. [f v, g v]) [0..<n]) @ zs) ! (2 * v + 1) = g v"
proof (induction n arbitrary: zs)
  case (Suc n)
  have l: "length (concat (map (\<lambda>v. [f v, g v]) [0..<n])) = 2 * n" by (induction n) simp_all
  show ?case
  proof (cases "v = n")
    case True
    then show ?thesis using l by (simp add: nth_append)
  next
    case False
    then show ?thesis using Suc.IH [of "[f n, g n] @ zs"] Suc.prems by simp
  qed
qed simp

lemma kDigits_pairs: "v < 100 \<Longrightarrow> kDigits ! (2 * v) = digit (v div 10) \<and> kDigits ! (2 * v + 1) = digit (v mod 10)"
  unfolding kDigits_eq by (rule nth_pairs)

lemma length_kDigits: "length kDigits = 202"
  by (simp add: kDigits_def)

subsection \<open>Writing at the output position\<close>

text \<open>The bytes \<open>ds\<close> stand behind what was there; what follows them is free.\<close>

definition wrote :: "bytes \<times> nat \<Rightarrow> bytes \<Rightarrow> bytes \<times> nat \<Rightarrow> bool" where
  "wrote = (\<lambda>(buf, out) ds (buf', out'). length buf' = length buf \<and> out' = out + length ds
     \<and> take out' buf' = take out buf @ ds)"

lemma wrote_trans: "wrote a xs b \<Longrightarrow> wrote b ys c \<Longrightarrow> wrote a (xs @ ys) c"
  by (auto simp: wrote_def split: prod.splits)

lemma wrote_room: "wrote (buf, out) ds (buf', out') \<Longrightarrow> length buf' = length buf \<and> out' = out + length ds"
  by (simp add: wrote_def)

lemma copy_move_two:
  assumes v: "v < 100" and room: "out + 2 \<le> length buf" and s: "unat src = 2 * v"
  shows "\<exists>r. copy_move src 2 (buf, out) = Some r \<and> wrote (buf, out) (dec_fix 2 v) r"
proof -
  have k: "kDigits ! (2 * v) = digit (v div 10)" "kDigits ! (2 * v + 1) = digit (v mod 10)"
    using kDigits_pairs [OF v] by simp_all
  have "rd kDigits (2 * v) = Some (digit (v div 10))" "rd kDigits (2 * v + 1) = Some (digit (v mod 10))"
    using k v by (simp_all add: rd_def length_kDigits)
  moreover have "dec_fix 2 v = [digit (v div 10), digit (v mod 10)]" using v by (simp add: numeral_2_eq_2)
  moreover obtain b where b: "wr buf out [digit (v div 10), digit (v mod 10)] = Some b" using room by (simp add: wr_def)
  moreover note wr_length [OF b] wr_take [OF b]
  ultimately show ?thesis using s by (auto simp: copy_move_def Copy2Digs_def wrote_def)
qed

lemma copy_move_one:
  assumes v: "v < 10" and room: "out + 2 \<le> length buf" and s: "unat src = 2 * v + 1"
  shows "\<exists>r. copy_move src 1 (buf, out) = Some r \<and> wrote (buf, out) [digit v] r"
proof -
  have k: "kDigits ! (2 * v + 1) = digit v" using kDigits_pairs [of v] v by simp
  obtain x where x: "rd kDigits (2 * v + 1) = Some (digit v)" "rd kDigits (2 * v + 1 + 1) = Some x"
    using k v by (simp add: rd_def length_kDigits)
  obtain b where b: "wr buf out [digit v, x] = Some b" using room by (simp add: wr_def)
  have "take (out + 2) b = take out buf @ [digit v, x]" using wr_take [OF b] by simp
  then have "take (out + 1) (take (out + 2) b) = take (out + 1) (take out buf @ [digit v, x])" by simp
  then have "take (out + 1) b = take out buf @ [digit v]" using room by simp
  then show ?thesis using x b wr_length [OF b] s by (auto simp: copy_move_def Copy2Digs_def wrote_def)
qed

text \<open>The first pair of a number, without its leading zero.\<close>

lemma copy_move_first:
  fixes hi :: u32
  assumes v: "unat hi < 100" and room: "out + 2 \<le> length buf"
  shows "\<exists>r. copy_move (hi * 2 + of_bool (hi < 10)) (2 - unat (of_bool (hi < 10) :: u32)) (buf, out) = Some r
    \<and> wrote (buf, out) (decimal (unat hi)) r"
proof -
  have lt: "hi < 10 \<longleftrightarrow> unat hi < 10" by (simp add: word_less_nat_alt)
  have d: "unat (hi * 2) = 2 * unat hi" using v by (simp add: unat_word_ariths)
  show ?thesis
  proof (cases "hi < 10")
    case True
    then have h: "unat hi < 10" using lt by simp
    have s: "unat (hi * 2 + 1) = 2 * unat hi + 1" using v d by (subst unat_plus_lt) simp_all
    from copy_move_one [OF h room s] True decimal_single [OF h] show ?thesis by simp
  next
    case False
    then have "decimal (unat hi) = dec_fix 2 (unat hi)"
      using decimal_fix [of 1 "unat hi"] lt v by (simp add: numeral_2_eq_2)
    with copy_move_two [OF v room d] False show ?thesis by simp
  qed
qed

lemma copy_move_next:
  fixes w :: u32
  assumes "unat w < 100" and "out + 2 \<le> length buf"
  shows "\<exists>r. copy_move (w * 2) 2 (buf, out) = Some r \<and> wrote (buf, out) (dec_fix 2 (unat w)) r"
  using assms by (intro copy_move_two) (simp_all add: unat_word_ariths)

text \<open>A writer that puts the bytes \<open>ds\<close> whenever there is room for \<open>n\<close>.\<close>

definition puts :: "(bytes \<times> nat \<Rightarrow> (bytes \<times> nat) option) \<Rightarrow> nat \<Rightarrow> bytes \<Rightarrow> bool" where
  "puts f n ds \<longleftrightarrow> (\<forall>buf out. out + n \<le> length buf \<longrightarrow> (\<exists>r. f (buf, out) = Some r \<and> wrote (buf, out) ds r))"

lemma puts_mono: "puts f n ds \<Longrightarrow> n \<le> m \<Longrightarrow> puts f m ds"
  by (simp add: puts_def)

lemma puts_bind:
  assumes "puts f n ds" and "puts g m es" and "n \<le> k" and "length ds + m \<le> k"
  shows "puts (\<lambda>out. Option.bind (f out) g) k (ds @ es)"
  unfolding puts_def
proof (intro allI impI)
  fix buf :: bytes and out assume r: "out + k \<le> length buf"
  then obtain b o1 where f: "f (buf, out) = Some (b, o1)" "wrote (buf, out) ds (b, o1)"
  proof -
    have "out + n \<le> length buf" using r assms(3) by simp
    with assms(1) obtain r where "f (buf, out) = Some r" "wrote (buf, out) ds r" unfolding puts_def by blast
    then show thesis by (cases r) (auto intro: that)
  qed
  then have "o1 + m \<le> length b" using r assms(4) by (auto simp: wrote_def)
  then obtain r2 where "g (b, o1) = Some r2" "wrote (b, o1) es r2" using assms(2) unfolding puts_def by blast
  with f show "\<exists>r. Option.bind (f (buf, out)) g = Some r \<and> wrote (buf, out) (ds @ es) r" by (auto intro: wrote_trans)
qed

lemma puts_first: "unat (hi :: u32) < 100 \<Longrightarrow> puts (copy_move (hi * 2 + of_bool (hi < 10)) (2 - unat (of_bool (hi < 10) :: u32))) 2 (decimal (unat hi))"
  using copy_move_first by (simp add: puts_def)

lemma puts_next: "unat (w :: u32) < 100 \<Longrightarrow> puts (copy_move (w * 2) 2) 2 (dec_fix 2 (unat w))"
  using copy_move_next by (simp add: puts_def)

lemma dec_fix_two: "dec_fix 2 (n mod 100) = dec_fix 2 n"
  using dec_fix_mod [of 2 n] by simp

lemma div_mod_100: "n mod 10000 div 100 = n div 100 mod (100 :: nat)"
  using div_mult2_eq [of n 100 100] mod_mult2_eq [of n 100 100] by simp

lemma decimal_length_le: "n < 10 ^ Suc k \<Longrightarrow> length (decimal n) \<le> Suc k"
proof (induction k arbitrary: n)
  case 0
  then show ?case by (simp add: decimal.simps)
next
  case (Suc k)
  then have "n div 10 < 10 ^ Suc k" by (simp add: less_mult_imp_div_less mult.commute)
  from Suc.IH [OF this] show ?case by (subst decimal.simps) simp
qed

lemma decimal_length_two: "n < 100 \<Longrightarrow> length (decimal n) \<le> 2"
  using decimal_length_le [of n 1] by simp

lemma puts_Utoa_1_8:
  assumes v: "unat val < 10 ^ 8"
  shows "puts (Utoa_1_8 val) 8 (decimal (unat val))"
proof -
  have u: "unat (val div 100) = unat val div 100" "unat (val div 10000) = unat val div 10000"
      "unat (val mod 100) = unat val mod 100" "unat (val mod 10000) = unat val mod 10000"
    by (simp_all add: unat_div unat_mod)
  have lt: "val < 100 \<longleftrightarrow> unat val < 100" "val < 10000 \<longleftrightarrow> unat val < 10000" "val < 1000000 \<longleftrightarrow> unat val < 1000000"
    by (simp_all add: word_less_nat_alt)
  consider (two) "val < 100" | (four) "\<not> val < 100" "val < 10000" | (six) "\<not> val < 100" "\<not> val < 10000" "val < 1000000"
    | (eight) "\<not> val < 100" "\<not> val < 10000" "\<not> val < 1000000" by blast
  then show ?thesis
  proof cases
    case two
    then have e: "Utoa_1_8 val = copy_move (val * 2 + of_bool (val < 10)) (2 - unat (of_bool (val < 10) :: u32))"
      by (intro ext) (simp only: Utoa_1_8_def Let_def if_True)
    show ?thesis unfolding e using two lt by (intro puts_mono [OF puts_first]) simp_all
  next
    case four
    have d: "decimal (unat val) = decimal (unat (val div 100)) @ dec_fix 2 (unat (val mod 100))"
      using four lt decimal_split [of "unat val" 2] by (simp add: u dec_fix_two div_greater_zero_iff)
    have h: "unat (val div 100) < 100" using four lt by (simp add: u)
    note f = puts_first [OF h]
    have "puts (\<lambda>out. Option.bind (copy_move (val div 100 * 2 + of_bool (val div 100 < 10)) (2 - unat (of_bool (val div 100 < 10) :: u32)) out)
        (copy_move (val mod 100 * 2) 2)) 8 (decimal (unat (val div 100)) @ dec_fix 2 (unat (val mod 100)))"
      by (rule puts_bind [OF f puts_next]) (use decimal_length_two [OF h] in \<open>simp_all add: u\<close>)
    then show ?thesis using four unfolding d by (simp add: puts_def Utoa_1_8_def Let_def)
  next
    case six
    let ?hi = "val div 10000" and ?a = "val mod 10000 div 100" and ?b = "val mod 10000 mod 100"
    have ab: "unat ?a = unat val div 100 mod 100" "unat ?b = unat val mod 100"
      by (simp_all add: unat_div unat_mod div_mod_100 mod_mod_cancel)
    have d: "decimal (unat val) = decimal (unat ?hi) @ dec_fix 2 (unat ?a) @ dec_fix 2 (unat ?b)"
      using six lt decimal_split [of "unat val" 4] dec_fix_add [of 2 2 "unat val"]
      by (simp add: u ab dec_fix_two div_greater_zero_iff)
    have h: "unat ?hi < 100" using six lt by (simp add: u)
    have t: "puts (\<lambda>out. Option.bind (copy_move (?a * 2) 2 out) (copy_move (?b * 2) 2)) 4 (dec_fix 2 (unat ?a) @ dec_fix 2 (unat ?b))"
      by (rule puts_bind [OF puts_next puts_next]) (simp_all add: ab)
    have "puts (\<lambda>out. Option.bind (copy_move (?hi * 2 + of_bool (?hi < 10)) (2 - unat (of_bool (?hi < 10) :: u32)) out)
        (\<lambda>out. Option.bind (copy_move (?a * 2) 2 out) (copy_move (?b * 2) 2))) 8 (decimal (unat ?hi) @ dec_fix 2 (unat ?a) @ dec_fix 2 (unat ?b))"
      by (rule puts_bind [OF puts_first [OF h] t]) (use decimal_length_two [OF h] in simp_all)
    then show ?thesis using six unfolding d by (simp add: puts_def Utoa_1_8_def Let_def)
  next
    case eight
    let ?hi = "val div 10000" and ?lo = "val mod 10000"
    let ?a = "?hi div 100" and ?b = "?hi mod 100" and ?c = "?lo div 100" and ?d = "?lo mod 100"
    have ab: "unat ?a = unat val div 1000000" "unat ?b = unat val div 10000 mod 100"
      "unat ?c = unat val div 100 mod 100" "unat ?d = unat val mod 100"
      by (simp_all add: unat_div unat_mod div_mod_100 mod_mod_cancel div_mult2_eq [symmetric])
    have d: "decimal (unat val) = decimal (unat ?a) @ dec_fix 2 (unat ?b) @ dec_fix 2 (unat ?c) @ dec_fix 2 (unat ?d)"
      using eight lt decimal_split [of "unat val" 6] dec_fix_add [of 2 4 "unat val"] dec_fix_add [of 2 2 "unat val"]
      by (simp add: ab dec_fix_two div_greater_zero_iff)
    have h: "unat ?a < 100" using v by (simp add: ab)
    have t2: "puts (\<lambda>out. Option.bind (copy_move (?c * 2) 2 out) (copy_move (?d * 2) 2)) 4 (dec_fix 2 (unat ?c) @ dec_fix 2 (unat ?d))"
      by (rule puts_bind [OF puts_next puts_next]) (simp_all add: ab)
    have t: "puts (\<lambda>out. Option.bind (copy_move (?b * 2) 2 out) (\<lambda>out. Option.bind (copy_move (?c * 2) 2 out) (copy_move (?d * 2) 2))) 6
        (dec_fix 2 (unat ?b) @ dec_fix 2 (unat ?c) @ dec_fix 2 (unat ?d))"
      by (rule puts_bind [OF puts_next t2]) (simp_all add: ab)
    have "puts (\<lambda>out. Option.bind (copy_move (?a * 2 + of_bool (?a < 10)) (2 - unat (of_bool (?a < 10) :: u32)) out)
        (\<lambda>out. Option.bind (copy_move (?b * 2) 2 out) (\<lambda>out. Option.bind (copy_move (?c * 2) 2 out) (copy_move (?d * 2) 2)))) 8
        (decimal (unat ?a) @ dec_fix 2 (unat ?b) @ dec_fix 2 (unat ?c) @ dec_fix 2 (unat ?d))"
      by (rule puts_bind [OF puts_first [OF h] t]) (use decimal_length_two [OF h] in simp_all)
    then show ?thesis using eight unfolding d by (simp add: puts_def Utoa_1_8_def Let_def)
  qed
qed

subsection \<open>The register computes the eight digits\<close>

lemma bit_u16_ge: "16 \<le> n \<Longrightarrow> \<not> bit (c :: u16) n"
  by (auto dest: bit_imp_le_length)

lemma bit_small:
  fixes w :: "'a::len word"
  assumes "unat w < 2 ^ k" and "k \<le> n"
  shows "\<not> bit w n"
proof -
  have "take_bit k w = w" using assms(1) by (simp add: word_unat_eq_iff unsigned_take_bit_eq take_bit_nat_eq_self)
  then show ?thesis using assms(2) by (metis bit_take_bit_iff not_le)
qed

lemma lane_put:
  "lane32 (put32 w @ xs) 0 = w" "lane32 (x0 # x1 # put32 w @ xs) 1 = w"
  "lane64 (put64 x @ xs) 0 = x"
proof -
  show "lane32 (put32 w @ xs) 0 = w" "lane32 (x0 # x1 # put32 w @ xs) 1 = w"
    by (rule bit_word_eqI; auto simp: lane32_def put32_def bit_simps)+
  show "lane64 (put64 x @ xs) 0 = x"
  proof (rule bit_word_eqI)
    fix n assume "n < LENGTH(64)"
    then consider "n < 16" | "16 \<le> n" "n < 32" | "32 \<le> n" "n < 48" | "48 \<le> n" "n < 64" by force
    then show "bit (lane64 (put64 x @ xs) 0) n \<longleftrightarrow> bit x n"
      by cases (auto simp: lane64_def put64_def bit_simps)
  qed
qed

lemma put64_small: "unat x < 65536 \<Longrightarrow> put64 x = [ucast x, 0, 0, 0]"
  using bit_small [of x 16] by (auto simp: put64_def bit_simps intro!: bit_word_eqI)

lemma push_lanes:
  "put64 (push_bit 16 (lane64 (a # b # c # d # xs) 0)) = [0, a, b, c]"
  "put64 (push_bit 16 (lane64 (x0 # x1 # x2 # x3 # a # b # c # d # xs) 1)) = [0, a, b, c]"
  by (auto simp: put64_def lane64_def bit_simps bit_u16_ge intro!: bit_word_eqI)

lemma shl2_lanes:
  assumes "unat a < 16384" and "unat b < 16384"
  shows "put64 (push_bit 2 (lane64 (a # b # 0 # 0 # xs) 0)) = [4 * a, 4 * b, 0, 0]"
proof -
  have 4: "4 * w = push_bit 2 w" for w :: u16 by (simp add: push_bit_eq_mult)
  have ha: "\<not> bit a n" "\<not> bit b n" if "14 \<le> n" for n
    using bit_small [of a 14 n] bit_small [of b 14 n] assms that by simp_all
  show ?thesis unfolding 4
    by (auto simp: put64_def lane64_def bit_simps bit_u16_ge ha intro!: bit_word_eqI)
qed

text \<open>Division by a constant through a multiplication and a shift.\<close>

lemma div_mult_shift:
  fixes n a r q d s :: nat
  assumes n: "n = d * a + r" and lo: "s * a \<le> q * (d * a)" and hi: "q * (d * a + r) < s * a + s" and s: "0 < s"
  shows "q * n div s = a"
proof (rule div_nat_eqI)
  show "s * a \<le> q * n" using lo n by (simp add: trans_le_add1 add_mult_distrib2)
  show "q * n < s * Suc a" using hi n by simp
qed

lemma div_10000: "n < 100000000 \<Longrightarrow> 3518437209 * n div 35184372088832 = n div (10000 :: nat)"
proof (rule div_mult_shift [where d = 10000 and r = "n mod 10000"])
  assume "n < 100000000"
  then have "n div 10000 \<le> 9999" "n mod 10000 \<le> 9999" by simp_all
  moreover have "3518437209 * (10000 * a + r) < 35184372088832 * a + 35184372088832" if "a \<le> 9999" "r \<le> 9999" for a r :: nat using that by simp
  ultimately show "3518437209 * (10000 * (n div 10000) + n mod 10000) < 35184372088832 * (n div 10000) + 35184372088832" by blast
qed simp_all

lemma div_1000: "n < 10000 \<Longrightarrow> 33556 * n div 33554432 = n div (1000 :: nat)"
proof (rule div_mult_shift [where d = 1000 and r = "n mod 1000"])
  assume "n < 10000"
  then have "n div 1000 \<le> 9" "n mod 1000 \<le> 999" by simp_all
  moreover have "33556 * (1000 * a + r) < 33554432 * a + 33554432" if "a \<le> 9" "r \<le> 999" for a r :: nat using that by simp
  ultimately show "33556 * (1000 * (n div 1000) + n mod 1000) < 33554432 * (n div 1000) + 33554432" by blast
qed simp_all

lemma div_100: "n < 10000 \<Longrightarrow> 20972 * n div 2097152 = n div (100 :: nat)"
proof (rule div_mult_shift [where d = 100 and r = "n mod 100"])
  assume "n < 10000"
  then have "n div 100 \<le> 99" "n mod 100 \<le> 99" by simp_all
  moreover have "20972 * (100 * a + r) < 2097152 * a + 2097152" if "a \<le> 99" "r \<le> 99" for a r :: nat using that by simp
  ultimately show "20972 * (100 * (n div 100) + n mod 100) < 2097152 * (n div 100) + 2097152" by blast
qed simp_all

lemma div_10: "n < 10000 \<Longrightarrow> 52432 * n div 524288 = n div (10 :: nat)"
proof (rule div_mult_shift [where d = 10 and r = "n mod 10"])
  assume "n < 10000"
  then have "n div 10 \<le> 999" "n mod 10 \<le> 9" by simp_all
  moreover have "52432 * (10 * a + r) < 524288 * a + 524288" if "a \<le> 999" "r \<le> 9" for a r :: nat using that by simp
  ultimately show "52432 * (10 * (n div 10) + n mod 10) < 524288 * (n div 10) + 524288" by blast
qed simp_all

lemma mulhi_nth: "length b = length a \<Longrightarrow> mm_mulhi_epu16 a b = map2 (\<lambda>x y. word_of_nat (unat x * unat y div 65536)) a b"
proof -
  have "ucast (drop_bit 16 (ucast x * ucast y :: u32)) = (word_of_nat (unat x * unat y div 65536) :: u16)" for x y :: u16
  proof -
    have x: "unat x < 65536" "unat y < 65536" using unsigned_less [of x] unsigned_less [of y] by simp_all
    then have "unat x * unat y \<le> 65535 * 65535" by (intro mult_le_mono) simp_all
    then have b: "unat x * unat y < 2 ^ 32" by simp
    have c: "unat (ucast w :: u32) = unat w" for w :: u16
    proof -
      have "unat w < 2 ^ 16" using unsigned_less [of w, where ?'a = nat] by simp
      then have "unat w < 2 ^ 32" by simp
      then show ?thesis by (simp only: unsigned_ucast_eq) (simp add: take_bit_nat_eq_self)
    qed
    have m: "unat (ucast x * ucast y :: u32) = unat x * unat y"
      using b by (simp only: unat_word_ariths c) simp
    show ?thesis
      by (simp add: word_unat_eq_iff unsigned_ucast_eq unat_shr m unsigned_of_nat)
  qed
  then show ?thesis by (simp add: mm_mulhi_epu16_def)
qed

lemma fold_shift: "0 < k \<Longrightarrow> a div 65536 * k div (k * t) = a div (65536 * t :: nat)"
  by (simp add: div_mult2_eq mult.commute [of _ k])

lemma fold_shifts:
  "a div 65536 * 128 div 65536 = a div (33554432 :: nat)" "a div 65536 * 2048 div 65536 = a div (2097152 :: nat)"
  "a div 65536 * 8192 div 65536 = a div (524288 :: nat)" "a div 65536 * 32768 div 65536 = a div (131072 :: nat)"
  using fold_shift [of 128 a 512] fold_shift [of 2048 a 32] fold_shift [of 8192 a 8] fold_shift [of 32768 a 2] by simp_all

definition digits4 :: "nat \<Rightarrow> m128" where
  "digits4 x = [word_of_nat (x div 1000), word_of_nat (x div 100 mod 10), word_of_nat (x div 10 mod 10), word_of_nat (x mod 10)]"

text \<open>The four lanes of one half, from the fourfold value on.\<close>

lemma half_quotients:
  assumes "x < 10000"
  shows "map2 (\<lambda>(x :: u16) (y :: u16). word_of_nat (unat x * unat y div 65536)) (map2 (\<lambda>(x :: u16) (y :: u16). word_of_nat (unat x * unat y div 65536))
      [word_of_nat (4 * x), word_of_nat (4 * x), word_of_nat (4 * x), word_of_nat (4 * x)] [0x20c5, 0x147b, 0x3334, 0x8000] :: m128)
      [0x0080, 0x0800, 0x2000, 0x8000]
    = ([word_of_nat (x div 1000), word_of_nat (x div 100), word_of_nat (x div 10), word_of_nat x] :: m128)"
proof -
  have u: "unat (word_of_nat n :: u16) = n" if "n < 65536" for n
    using that by (simp add: unsigned_of_nat take_bit_nat_eq_self)
  have l: "unat (word_of_nat (unat (word_of_nat (4 * x) :: u16) * k div 65536) :: u16) = 4 * x * k div 65536" if "k \<le> 65535" for k
  proof -
    have "4 * x * k \<le> 39996 * 65535" using assms that by (intro mult_le_mono) simp_all
    then have "4 * x * k div 65536 < 65536" by simp
    note q = u [OF this]
    have a: "unat (word_of_nat (4 * x) :: u16) = 4 * x" by (rule u) (use assms in simp)
    show ?thesis unfolding a by (rule q)
  qed
  have n: "unat (0x20c5 :: u16) = 8389" "unat (0x147b :: u16) = 5243" "unat (0x3334 :: u16) = 13108" "unat (0x8000 :: u16) = 32768"
    "unat (0x80 :: u16) = 128" "unat (0x800 :: u16) = 2048" "unat (0x2000 :: u16) = 8192" by simp_all
  have "4 * x * 8389 div 65536 * 128 div 65536 = x div 1000" "4 * x * 5243 div 65536 * 2048 div 65536 = x div 100"
    "4 * x * 13108 div 65536 * 8192 div 65536 = x div 10" "4 * x * 32768 div 65536 * 32768 div 65536 = x"
    using div_1000 [OF assms] div_100 [OF assms] div_10 [OF assms] unfolding fold_shifts by simp_all
  moreover have "8389 \<le> (65535::nat)" "5243 \<le> (65535::nat)" "13108 \<le> (65535::nat)" "32768 \<le> (65535::nat)" by simp_all
  ultimately show ?thesis by (simp only: list.map zip_Cons_Cons zip_Nil prod.case n l)
qed

lemma sub_digits:
  assumes "x < 10000"
  shows "map2 (-) [word_of_nat (x div 1000), word_of_nat (x div 100), word_of_nat (x div 10), word_of_nat x]
      [0, word_of_nat (x div 1000) * 10, word_of_nat (x div 100) * 10, word_of_nat (x div 10) * 10] = digits4 x"
proof -
  have s: "word_of_nat a - word_of_nat b * 10 = (word_of_nat c :: u16)" if "a = c + b * 10" for a b c
    unfolding that by simp
  have m: "n = n mod 10 + n div 10 * 10" for n :: nat by simp
  show ?thesis
    using s [OF m [of "x div 100", unfolded div_mult2_eq [symmetric], simplified]]
      s [OF m [of "x div 10", unfolded div_mult2_eq [symmetric], simplified]] s [OF m [of x]]
    by (simp add: digits4_def)
qed

lemma lane32_put64:
  "lane32 (put64 x @ xs) 0 = ucast x" "lane32 (put64 x @ xs) 1 = ucast (drop_bit 32 x)"
proof -
  show "lane32 (put64 x @ xs) 0 = ucast x"
    by (rule bit_word_eqI) (auto simp: lane32_def put64_def bit_simps)
  show "lane32 (put64 x @ xs) 1 = ucast (drop_bit 32 x)"
  proof (rule bit_word_eqI)
    fix n assume "n < LENGTH(32)"
    then consider "n < 16" | "16 \<le> n" "n < 32" by force
    then show "bit (lane32 (put64 x @ xs) 1) n \<longleftrightarrow> bit (ucast (drop_bit 32 x) :: u32) n"
      by cases (auto simp: lane32_def put64_def bit_simps add.commute)
  qed
qed

lemma lane32_list: "lane32 (x # 0 # xs) 0 = ucast x" "lane32 (x # y # z # w # 0 # 0 # xs) 2 = 0"
  by (simp_all add: lane32_def)

lemma ucast_small: "unat (w :: u64) < 4294967296 \<Longrightarrow> unat (ucast w :: u32) = unat w"
  by (simp only: unsigned_ucast_eq) (simp add: take_bit_nat_eq_self)

lemma UtoaSSE_digits:
  assumes n: "unat val < 100000000"
  shows "UtoaSSE val = digits4 (unat val div 10000) @ digits4 (unat val mod 10000)"
proof -
  let ?a = "unat val div 10000" and ?e = "unat val mod 10000"
  have ae: "?a < 10000" "?e < 10000" using n by simp_all
  have u16: "unat (word_of_nat k :: u16) = k" if "k < 65536" for k
    using that by (simp add: unsigned_of_nat take_bit_nat_eq_self)
  have u32: "unat (word_of_nat k :: u32) = k" if "k < 4294967296" for k
    using that by (simp add: unsigned_of_nat take_bit_nat_eq_self)
  have u64: "unat (word_of_nat k :: u64) = k" if "k < 18446744073709551616" for k
    using that by (simp add: unsigned_of_nat take_bit_nat_eq_self)
  have c64: "unat (ucast (w :: u32) :: u64) = unat w" for w
  proof -
    have "unat w < 2 ^ 32" using unsigned_less [of w, where ?'a = nat] by simp
    then have "unat w < 2 ^ 64" by simp
    then show ?thesis by (simp only: unsigned_ucast_eq) (simp add: take_bit_nat_eq_self)
  qed
  have z: "put64 0 = [0, 0, 0, 0]" "put32 0 = [0, 0]" by (simp_all add: put64_def put32_def)
  let ?v00 = "mm_cvtsi32_si128 val"
  have l0: "lane32 ?v00 0 = val" "lane32 ?v00 2 = 0" "lane32 ?v00 1 = 0" "lane32 ?v00 3 = 0"
    using lane_put(1) [of val "replicate 6 0"] by (simp_all add: mm_cvtsi32_si128_def) (simp_all add: lane32_def put32_def numeral_eq_Suc)
  have m: "lane32 (mm_set32 k) 0 = k" for k by (simp add: mm_set32_def lane_put)
  have p: "unat (ucast val * ucast (0xd1b71759 :: u32) :: u64) = 3518437209 * unat val"
  proof -
    have "unat (ucast val :: u64) * unat (ucast (0xd1b71759 :: u32) :: u64) = 3518437209 * unat val" by (simp only: c64) simp
    then show ?thesis using n by (simp only: unat_word_ariths) simp
  qed
  have v02: "mm_srli_epi64 (mm_mul_epu32 ?v00 kVec4xDiv10k) 45 = [word_of_nat ?a, 0, 0, 0, 0, 0, 0, 0]"
  proof -
    define p :: u64 where "p = ucast val * ucast (0xd1b71759 :: u32)"
    have mul: "mm_mul_epu32 ?v00 kVec4xDiv10k = put64 p @ put64 0"
      unfolding mm_mul_epu32_def kVec4xDiv10k_def l0 m p_def by simp
    have l: "lane64 (put64 p @ put64 0) 0 = p" "lane64 (put64 p @ put64 0) 1 = 0"
      by (rule lane_put) (simp add: lane64_def put64_def)
    have d: "unat (drop_bit 45 p) = ?a" using div_10000 [OF n] by (simp only: unat_shr p p_def) simp
    then have "put64 (drop_bit 45 p) = [ucast (drop_bit 45 p), 0, 0, 0]" using ae by (intro put64_small) simp
    moreover have "ucast (drop_bit 45 p) = (word_of_nat ?a :: u16)" by (simp flip: d)
    ultimately show ?thesis unfolding mul mm_srli_epi64_def l by (simp add: z)
  qed
  let ?v02 = "[word_of_nat ?a, 0, 0, 0, 0, 0, 0, 0] :: m128"
  have v03: "mm_mul_epu32 ?v02 kVec4x10k = put64 (word_of_nat (?a * 10000)) @ put64 0"
  proof -
    have "lane32 ?v02 0 = ucast (word_of_nat ?a :: u16)" "lane32 ?v02 2 = 0" by (rule lane32_list)+
    moreover have "ucast (ucast (word_of_nat ?a :: u16) :: u32) = (word_of_nat ?a :: u64)"
      using ae by (simp add: unsigned_of_nat take_bit_nat_eq_self)
    moreover have "ucast (10000 :: u32) = (10000 :: u64)" by simp
    ultimately show ?thesis by (simp add: mm_mul_epu32_def kVec4x10k_def m)
  qed
  have e: "val - ucast (word_of_nat (?a * 10000) :: u64) = word_of_nat ?e"
  proof -
    have "unat (ucast (word_of_nat (?a * 10000) :: u64) :: u32) = ?a * 10000"
    proof -
      have w: "unat (word_of_nat (?a * 10000) :: u64) = ?a * 10000" by (rule u64) (use ae in simp)
      have "unat (word_of_nat (?a * 10000) :: u64) < 4294967296" unfolding w using ae by simp
      from ucast_small [OF this] show ?thesis unfolding w .
    qed
    then have "ucast (word_of_nat (?a * 10000) :: u64) = (word_of_nat (?a * 10000) :: u32)" using u32 [of "?a * 10000"] ae
      by (simp only: word_unat_eq_iff)
    moreover have "val = word_of_nat (?a * 10000) + word_of_nat ?e"
    proof -
      have "val = word_of_nat (?a * 10000 + ?e)" by (subst div_mult_mod_eq) simp
      then show ?thesis by (simp only: of_nat_add)
    qed
    ultimately show ?thesis by (metis add_diff_cancel_left')
  qed
  have v04: "mm_sub_epi32 ?v00 (put64 (word_of_nat (?a * 10000)) @ put64 0) = [word_of_nat ?e, 0, 0, 0, 0, 0, 0, 0]"
  proof -
    let ?w = "word_of_nat (?a * 10000) :: u64"
    have x: "lane32 (put64 ?w @ put64 0) 0 = ucast ?w" "lane32 (put64 ?w @ put64 0) 1 = ucast (drop_bit 32 ?w)" by (rule lane32_put64)+
    have "unat ?w = ?a * 10000" by (rule u64) (use ae in simp)
    then have "unat (drop_bit 32 ?w) = 0" using ae by (simp only: unat_shr) simp
    then have "drop_bit 32 ?w = 0" by (simp only: unat_eq_zero)
    with x have x1: "lane32 (put64 ?w @ put64 0) 1 = 0" by simp
    have x2: "lane32 (put64 ?w @ put64 0) 2 = 0" "lane32 (put64 ?w @ put64 0) 3 = 0" by (simp_all add: lane32_def put64_def)
    have "put32 (word_of_nat ?e) = [word_of_nat ?e, 0]"
    proof -
      have "unat (word_of_nat ?e :: u32) = ?e" using ae by (simp add: u32)
      then have "drop_bit 16 (word_of_nat ?e :: u32) = 0" using ae by (simp add: word_unat_eq_iff unat_shr)
      moreover have "ucast (word_of_nat ?e :: u32) = (word_of_nat ?e :: u16)"
        using ae by (simp add: unsigned_of_nat take_bit_nat_eq_self)
      ultimately show ?thesis by (simp add: put32_def)
    qed
    with e show ?thesis unfolding mm_sub_epi32_def x(1) x1 x2 l0 by (simp add: z)
  qed
  have v05: "mm_unpacklo_epi16 ?v02 [word_of_nat ?e, 0, 0, 0, 0, 0, 0, 0] = [word_of_nat ?a, word_of_nat ?e, 0, 0, 0, 0, 0, 0]"
    by (simp add: mm_unpacklo_epi16_def)
  let ?A = "word_of_nat (4 * ?a) :: u16" and ?E = "word_of_nat (4 * ?e) :: u16"
  have v06: "mm_slli_epi64 [word_of_nat ?a, word_of_nat ?e, 0, 0, 0, 0, 0, 0] 2 = [?A, ?E, 0, 0, 0, 0, 0, 0]"
  proof -
    have "put64 (push_bit 2 (lane64 [word_of_nat ?a, word_of_nat ?e, 0, 0, 0, 0, 0, 0] 0)) = [4 * word_of_nat ?a, 4 * word_of_nat ?e, 0, 0]"
      by (rule shl2_lanes) (use ae in \<open>simp_all add: u16\<close>)
    moreover have "lane64 [word_of_nat ?a, word_of_nat ?e, 0, 0, 0, 0, 0, 0] 1 = 0" by (simp add: lane64_def)
    ultimately show ?thesis by (simp add: mm_slli_epi64_def z)
  qed
  have v08: "mm_unpacklo_epi32 (mm_unpacklo_epi16 [?A, ?E, 0, 0, 0, 0, 0, 0] [?A, ?E, 0, 0, 0, 0, 0, 0])
      (mm_unpacklo_epi16 [?A, ?E, 0, 0, 0, 0, 0, 0] [?A, ?E, 0, 0, 0, 0, 0, 0]) = [?A, ?A, ?A, ?A, ?E, ?E, ?E, ?E]"
    by (simp add: mm_unpacklo_epi16_def mm_unpacklo_epi32_def)
  let ?q = "\<lambda>x. [word_of_nat (x div 1000), word_of_nat (x div 100), word_of_nat (x div 10), word_of_nat x] :: m128"
  have v10: "mm_mulhi_epu16 (mm_mulhi_epu16 [?A, ?A, ?A, ?A, ?E, ?E, ?E, ?E] kVecDivPowers) kVecShiftPowers = ?q ?a @ ?q ?e"
    using half_quotients [OF ae(1)] half_quotients [OF ae(2)]
    by (simp only: mulhi_nth kVecDivPowers_def kVecShiftPowers_def list.size list.map zip_Cons_Cons zip_Nil prod.case append.simps list.inject)
  have v12: "mm_slli_epi64 (mm_mullo_epi16 (?q ?a @ ?q ?e) kVec8x10) 16
      = [0, word_of_nat (?a div 1000) * 10, word_of_nat (?a div 100) * 10, word_of_nat (?a div 10) * 10,
         0, word_of_nat (?e div 1000) * 10, word_of_nat (?e div 100) * 10, word_of_nat (?e div 10) * 10]"
  proof -
    have r: "replicate 8 (10 :: u16) = [10, 10, 10, 10, 10, 10, 10, 10]" by (simp add: numeral_eq_Suc)
    show ?thesis
      by (simp only: mm_slli_epi64_def mm_mullo_epi16_def kVec8x10_def r append.simps list.map zip_Cons_Cons zip_Nil prod.case push_lanes)
  qed
  show ?thesis
    unfolding UtoaSSE_def Let_def v02 v03 v04 v05 v06 v08 v10 v12
    using sub_digits [OF ae(1)] sub_digits [OF ae(2)]
    by (simp only: mm_sub_epi16_def append.simps list.map zip_Cons_Cons zip_Nil prod.case digits4_def list.inject)
qed

subsection \<open>Sixteen digits\<close>

text \<open>A lane that holds a digit becomes the digit's character.\<close>

lemma lane_digit:
  assumes d: "d < 10"
  shows "word_of_int (max 0 (min 255 (sint (word_of_nat d :: u16)))) + 0x30 = digit d"
proof -
  have "signed_take_bit 15 (int d) = int d" using d by (intro signed_take_bit_int_eq_self) simp_all
  then have "sint (word_of_nat d :: u16) = int d" by (simp add: signed_of_nat)
  then have "max 0 (min 255 (sint (word_of_nat d :: u16))) = int d" using d by simp
  then show ?thesis by (simp only: digit_def) simp
qed

lemma dec_fix_four: "dec_fix 4 x = [digit (x div 1000 mod 10), digit (x div 100 mod 10), digit (x div 10 mod 10), digit (x mod 10)]"
proof -
  have "4 = Suc (Suc (Suc (Suc 0)))" by simp
  then show ?thesis by (simp only: dec_fix.simps div_mult2_eq [symmetric] append.simps) simp
qed

lemma length_digits4: "length (digits4 x) = 4" by (simp add: digits4_def)

lemma pack_digits:
  assumes "x < 10000"
  shows "map (\<lambda>l. word_of_int (max 0 (min 255 (sint l))) + 0x30) (digits4 x) = dec_fix 4 x"
proof -
  have "x div 1000 < 10" using assms by simp
  then have t: "x div 1000 mod 10 = x div 1000" by simp
  show ?thesis unfolding digits4_def dec_fix_four list.map t
    by (simp only: lane_digit \<open>x div 1000 < 10\<close> mod_less_divisor zero_less_numeral)
qed

lemma pack_add: "length (a @ b) = 16 \<Longrightarrow> mm_add_epi8 (mm_packus_epi16 a b) kVec16xAsc0
    = map (\<lambda>l. word_of_int (max 0 (min 255 (sint l))) + 0x30) (a @ b)"
proof -
  have "map2 (+) (map f xs) (replicate (length xs) c) = map (\<lambda>l. f l + c) xs" for f :: "u16 \<Rightarrow> u8" and c xs
    by (induction xs) simp_all
  from this [of _ "a @ b" "0x30"] show "length (a @ b) = 16 \<Longrightarrow> ?thesis"
    by (simp add: mm_add_epi8_def mm_packus_epi16_def kVec16xAsc0_def)
qed

lemma pack_half:
  assumes "unat val < 100000000"
  shows "map (\<lambda>l. word_of_int (max 0 (min 255 (sint l))) + 0x30) (UtoaSSE val) = dec_fix 8 (unat val)" "length (UtoaSSE val) = 8"
proof -
  have ae: "unat val div 10000 < 10000" "unat val mod 10000 < 10000" using assms by simp_all
  have "dec_fix 8 (unat val) = dec_fix 4 (unat val div 10000) @ dec_fix 4 (unat val mod 10000)"
    using dec_fix_add [of 4 4 "unat val"] dec_fix_mod [of 4 "unat val"] by simp
  then show "map (\<lambda>l. word_of_int (max 0 (min 255 (sint l))) + 0x30) (UtoaSSE val) = dec_fix 8 (unat val)"
    by (simp only: UtoaSSE_digits [OF assms] map_append pack_digits [OF ae(1)] pack_digits [OF ae(2)])
  show "length (UtoaSSE val) = 8" by (simp add: UtoaSSE_digits [OF assms] length_digits4)
qed

lemma puts_wr: "length zs = 16 \<Longrightarrow> n \<le> 16 \<Longrightarrow> puts (\<lambda>(buf, out). map_option (\<lambda>buf. (buf, out + n)) (wr buf out zs)) 16 (take n zs)"
  unfolding puts_def
proof (intro allI impI)
  fix buf :: bytes and out assume l: "length zs = 16" "n \<le> 16" "out + 16 \<le> length buf"
  then obtain b where b: "wr buf out zs = Some b" by (simp add: wr_def)
  have "take (out + n) (take (out + 16) b) = take (out + n) (take out buf @ zs)" using wr_take [OF b] l by simp
  then have "take (out + n) b = take out buf @ take n zs" using l by (simp add: min_absorb1 min_absorb2)
  then show "\<exists>r. (case (buf, out) of (buf, out) \<Rightarrow> map_option (\<lambda>buf. (buf, out + n)) (wr buf out zs)) = Some r \<and> wrote (buf, out) (take n zs) r"
    using b wr_length [OF b] l by (simp add: wrote_def min_absorb1)
qed

lemma puts_Utoa_8:
  assumes "unat val < 100000000"
  shows "puts (Utoa_8 val) 16 (dec_fix 8 (unat val))"
proof -
  let ?zs = "mm_add_epi8 (mm_packus_epi16 (UtoaSSE val) (replicate 8 0)) kVec16xAsc0"
  have "?zs = dec_fix 8 (unat val) @ map (\<lambda>l. word_of_int (max 0 (min 255 (sint l))) + 0x30) (replicate 8 (0 :: u16))"
    by (subst pack_add) (simp_all only: length_append pack_half [OF assms] length_replicate map_append numeral_plus_numeral add_num_simps)
  then have z: "length ?zs = 16" "take 8 ?zs = dec_fix 8 (unat val)" by simp_all
  from puts_wr [OF z(1), of 8] show ?thesis unfolding z(2) by (simp add: Utoa_8_def Let_def)
qed

lemma puts_Utoa_16:
  assumes v: "unat val < 10000000000000000"
  shows "puts (Utoa_16 val) 16 (dec_fix 16 (unat val))"
proof -
  let ?h = "ucast (val div 100000000) :: u32" and ?l = "ucast (val mod 100000000) :: u32"
  have "unat (val div 100000000) = unat val div 100000000" "unat (val mod 100000000) = unat val mod 100000000"
    by (simp_all add: unat_div unat_mod)
  then have hl: "unat ?h = unat val div 100000000" "unat ?l = unat val mod 100000000"
    using v by (simp_all add: ucast_small)
  have b: "unat ?h < 100000000" "unat ?l < 100000000" using v unfolding hl by simp_all
  let ?zs = "mm_add_epi8 (mm_packus_epi16 (UtoaSSE ?h) (UtoaSSE ?l)) kVec16xAsc0"
  have "?zs = dec_fix 8 (unat ?h) @ dec_fix 8 (unat ?l)"
    by (subst pack_add) (simp_all only: length_append pack_half [OF b(1)] pack_half [OF b(2)] map_append numeral_plus_numeral add_num_simps)
  moreover have "dec_fix 16 (unat val) = dec_fix 8 (unat ?h) @ dec_fix 8 (unat ?l)"
    using dec_fix_add [of 8 8 "unat val"] dec_fix_mod [of 8 "unat val"] by (simp add: hl)
  ultimately have z: "length ?zs = 16" "take 16 ?zs = dec_fix 16 (unat val)" by simp_all
  from puts_wr [OF z(1), of 16] show ?thesis unfolding z(2) by (simp add: Utoa_16_def Let_def)
qed

subsection \<open>Integers of every length\<close>

lemma puts_U64toa_17_20:
  assumes v: "10000000000000000 \<le> unat val"
  shows "puts (U64toa_17_20 val) 20 (decimal (unat val))"
proof -
  let ?lo = "val mod 10000000000000000" and ?hi = "ucast (val div 10000000000000000) :: u32"
  have "unat val < 2 ^ 64" using unsigned_less [of val, where ?'a = nat] by simp
  then have vb: "unat val div 10000000000000000 < 10000" by simp
  have "unat (val div 10000000000000000) = unat val div 10000000000000000" by (simp add: unat_div)
  then have h: "unat ?hi = unat val div 10000000000000000" using vb by (simp add: ucast_small)
  have l: "unat ?lo = unat val mod 10000000000000000" by (simp add: unat_mod)
  have d: "decimal (unat val) = decimal (unat ?hi) @ dec_fix 16 (unat ?lo)"
    using decimal_split [of "unat val" 16] dec_fix_mod [of 16 "unat val"] v by (simp add: h l div_greater_zero_iff)
  have P: "puts (Utoa_16 ?lo) 16 (dec_fix 16 (unat ?lo))" by (rule puts_Utoa_16) (simp add: l)
  have lt: "?hi < 100 \<longleftrightarrow> unat ?hi < 100" "?hi < 10000" using vb by (simp_all add: word_less_nat_alt h)
  show ?thesis
  proof (cases "?hi < 100")
    case True
    then have u: "unat ?hi < 100" using lt by simp
    have "puts (\<lambda>out. Option.bind (copy_move (?hi * 2 + of_bool (?hi < 10)) (2 - unat (of_bool (?hi < 10) :: u32)) out) (Utoa_16 ?lo)) 20
        (decimal (unat ?hi) @ dec_fix 16 (unat ?lo))"
      by (rule puts_bind [OF puts_first [OF u] P]) (use decimal_length_two [OF u] in simp_all)
    then show ?thesis using True unfolding d by (simp add: puts_def U64toa_17_20_def Let_def)
  next
    case False
    let ?a = "?hi div 100" and ?b = "?hi mod 100"
    have ab: "unat ?a = unat ?hi div 100" "unat ?b = unat ?hi mod 100" by (simp_all add: unat_div unat_mod)
    have u: "unat ?a < 100" "unat ?b < 100" unfolding ab using vb h by simp_all
    have dh: "decimal (unat ?hi) = decimal (unat ?a) @ dec_fix 2 (unat ?b)"
      using False lt decimal_split [of "unat ?hi" 2] dec_fix_two [of "unat ?hi"] unfolding ab by (simp add: div_greater_zero_iff)
    have "puts (\<lambda>out. Option.bind (copy_move (?a * 2 + of_bool (?a < 10)) (2 - unat (of_bool (?a < 10) :: u32)) out) (copy_move (?b * 2) 2)) 4
        (decimal (unat ?a) @ dec_fix 2 (unat ?b))"
      by (rule puts_bind [OF puts_first [OF u(1)] puts_next [OF u(2)]]) (use decimal_length_two [OF u(1)] in simp_all)
    then have "puts (\<lambda>out. Option.bind (Option.bind (copy_move (?a * 2 + of_bool (?a < 10)) (2 - unat (of_bool (?a < 10) :: u32)) out)
        (copy_move (?b * 2) 2)) (Utoa_16 ?lo)) 20 ((decimal (unat ?a) @ dec_fix 2 (unat ?b)) @ dec_fix 16 (unat ?lo))"
      by (rule puts_bind [OF _ P]) (use decimal_length_two [OF u(1)] in simp_all)
    then show ?thesis using False lt unfolding d dh by (simp add: puts_def U64toa_17_20_def Let_def)
  qed
qed

lemma puts_U64toa: "puts (U64toa val) 24 (decimal (unat val))"
proof -
  have lt: "val < 100000000 \<longleftrightarrow> unat val < 100000000" "val < 10000000000000000 \<longleftrightarrow> unat val < 10000000000000000"
    by (simp_all add: word_less_nat_alt)
  consider (short) "val < 100000000" | (mid) "\<not> val < 100000000" "val < 10000000000000000" | (long) "\<not> val < 100000000" "\<not> val < 10000000000000000"
    by blast
  then show ?thesis
  proof cases
    case short
    then have u: "unat (ucast val :: u32) = unat val" using lt by (intro ucast_small) simp
    have "puts (Utoa_1_8 (ucast val)) 8 (decimal (unat (ucast val :: u32)))" by (rule puts_Utoa_1_8) (use short lt u in simp)
    from puts_mono [OF this, of 24] show ?thesis using short unfolding u by (simp add: puts_def U64toa_def)
  next
    case mid
    let ?h = "ucast (val div 100000000) :: u32" and ?l = "ucast (val mod 100000000) :: u32"
    have "unat (val div 100000000) = unat val div 100000000" "unat (val mod 100000000) = unat val mod 100000000"
      by (simp_all add: unat_div unat_mod)
    then have hl: "unat ?h = unat val div 100000000" "unat ?l = unat val mod 100000000"
      using mid lt by (simp_all add: ucast_small)
    have b: "unat ?h < 100000000" "unat ?l < 100000000" using mid lt unfolding hl by simp_all
    have d: "decimal (unat val) = decimal (unat ?h) @ dec_fix 8 (unat ?l)"
      using decimal_split [of "unat val" 8] dec_fix_mod [of 8 "unat val"] mid lt by (simp add: hl div_greater_zero_iff)
    have "length (decimal (unat ?h)) \<le> 8" using decimal_length_le [of "unat ?h" 7] b by simp
    moreover have P: "puts (Utoa_1_8 ?h) 8 (decimal (unat ?h))" by (rule puts_Utoa_1_8) (use b in simp)
    ultimately have "puts (\<lambda>out. Option.bind (Utoa_1_8 ?h out) (Utoa_8 ?l)) 24 (decimal (unat ?h) @ dec_fix 8 (unat ?l))"
      by (intro puts_bind [OF P puts_Utoa_8 [OF b(2)]]) simp_all
    then show ?thesis using mid unfolding d by (simp add: puts_def U64toa_def Let_def)
  next
    case long
    then have "puts (U64toa_17_20 val) 20 (decimal (unat val))" using lt by (intro puts_U64toa_17_20) simp
    from puts_mono [OF this, of 24] show ?thesis using long by (simp add: puts_def U64toa_def)
  qed
qed

text \<open>The text of an integer: its sign and its digits.\<close>

definition int_text :: "int \<Rightarrow> bytes" where
  "int_text i = (if i < 0 then [0x2D] else []) @ decimal (nat \<bar>i\<bar>)"

lemma puts_I64toa: "puts (I64toa val) 25 (int_text (sint val))"
proof -
  have a: "unat (0 - val) = nat \<bar>sint val\<bar>" if "sint val < 0"
  proof -
    have "sint val \<noteq> - (2 ^ 63) \<or> sint val = - (2 ^ 63)" by blast
    have "0 - val = word_of_int (- sint val)" by simp
    moreover have "uint (word_of_int (- sint val) :: u64) = - sint val"
    proof -
      have "- (2 ^ 63) \<le> sint val" using sint_greater_eq [of val] by simp
      then show ?thesis using that by (simp only: unsigned_of_int) (simp add: take_bit_int_eq_self)
    qed
    ultimately show ?thesis using that by (simp add: unat_eq_nat_uint)
  qed
  have b: "unat val = nat \<bar>sint val\<bar>" if "\<not> sint val < 0"
  proof -
    have "sint val < 2 ^ 63" using sint_less [of val] by simp
    then have "uint (word_of_int (sint val) :: u64) = sint val"
      using that by (simp only: unsigned_of_int) (simp add: take_bit_int_eq_self)
    then show ?thesis using that by (simp add: unat_eq_nat_uint)
  qed
  show ?thesis unfolding puts_def
  proof (intro allI impI)
    fix buf :: bytes and out assume r: "out + 25 \<le> length buf"
    then obtain m where m: "wr buf out [0x2D] = Some m" by (simp add: wr_def)
    have lm: "length m = length buf" by (rule wr_length [OF m])
    have tm: "take (Suc out) m = take out buf @ [0x2D]" using wr_take [OF m] by simp
    have "take out (take (Suc out) m) = take out (take out buf @ [0x2D])" unfolding tm ..
    then have t0: "take out m = take out buf" using r lm by (simp add: min_absorb1)
    show "\<exists>r. I64toa val (buf, out) = Some r \<and> wrote (buf, out) (int_text (sint val)) r"
    proof (cases "sint val < 0")
      case True
      have "out + 1 + 24 \<le> length m" using r lm by simp
      then obtain q where "U64toa (0 - val) (m, out + 1) = Some q" "wrote (m, out + 1) (decimal (unat (0 - val))) q"
        using puts_U64toa [of "0 - val"] unfolding puts_def by blast
      then show ?thesis using True a lm tm by (cases q) (auto simp: I64toa_def m Let_def wrote_def int_text_def)
    next
      case False
      have "out + 24 \<le> length m" using r lm by simp
      then obtain q where "U64toa val (m, out) = Some q" "wrote (m, out) (decimal (unat val)) q"
        using puts_U64toa [of val] unfolding puts_def by blast
      then show ?thesis using False b lm t0 by (cases q) (auto simp: I64toa_def m Let_def wrote_def int_text_def)
    qed
  qed
qed

text \<open>
  C33: the integer writers put exactly the decimal text of the value at the output position, for every
  64-bit value, signed or not: what stood before it stays, the buffer keeps its size, and all the
  writing - the vector stores that spill past the digits included - is inside 25 bytes for a signed
  and 24 bytes for an unsigned value.
\<close>

theorem integer_text_exact:
  assumes "out + 25 \<le> length buf"
  shows "(\<exists>buf' out'. I64toa val (buf, out) = Some (buf', out') \<and> length buf' = length buf
      \<and> out' = out + length (int_text (sint val)) \<and> take out' buf' = take out buf @ int_text (sint val))
    \<and> (\<exists>buf' out'. U64toa val (buf, out) = Some (buf', out') \<and> length buf' = length buf
      \<and> out' = out + length (decimal (unat val)) \<and> take out' buf' = take out buf @ decimal (unat val))"
  using puts_I64toa [of val] puts_mono [OF puts_U64toa [of val], of 25] assms by (fastforce simp: puts_def wrote_def)

theorem integer_text_exact_witness:
  "\<exists>buf' out'. I64toa (- 7654321) ([0x5B] @ replicate 40 0, 1) = Some (buf', out') \<and> take out' buf' = bytes_of ''[-7654321''"
proof -
  let ?v = "- 7654321 :: u64" and ?b = "[0x5B] @ replicate 40 (0 :: u8)"
  have l: "1 + 25 \<le> length ?b" by simp
  obtain buf' out' where q: "I64toa ?v (?b, 1) = Some (buf', out')" "take out' buf' = take 1 ?b @ int_text (sint ?v)"
    using conjunct1 [OF integer_text_exact [OF l, of ?v]] by blast
  have "sint ?v = - 7654321" by simp
  moreover have "[0x5B] @ int_text (- 7654321) = bytes_of ''[-7654321''"
    by (simp add: int_text_def decimal.simps digit_def bytes_of_def)
  ultimately have "take 1 ?b @ int_text (sint ?v) = bytes_of ''[-7654321''" by simp
  with q show ?thesis by (intro exI conjI) simp_all
qed

end
