(* ===== verification/Sonic_FtoaTable.thy ===== *)
theory Sonic_FtoaTable
  imports Sonic_Ftoa
begin

text \<open>
  The table of powers of \<open>ftoa.h\<close>: a check of every row, and with it bounds on the Schubfach
  conversion. For every finite positive double a row of the table is read, the shifts are between 1 and 4,
  and the decimal has between one and seventeen digits.
\<close>

subsection \<open>The table of powers\<close>

text \<open>
  What a row must satisfy: it is normalized, and the shift of every exponent the row serves is
  between 1 and 4 and keeps the decimal below \<open>10 ^ 17\<close>.
\<close>

definition row_qmin :: "int \<Rightarrow> int" where "row_qmin k = - ((- (k * 4194304)) div 1262611)"
definition row_qmax :: "int \<Rightarrow> int" where "row_qmax k = ((k + 1) * 4194304 - 1) div 1262611"

definition row_qmax' :: "int \<Rightarrow> int" where "row_qmax' k = ((k + 1) * 4194304 + 524030) div 1262611"

definition row_ok :: "int \<Rightarrow> uint64x2 \<Rightarrow> bool" where
  "row_ok k' g \<longleftrightarrow> (let k = - k'; hi = uint (fst g);
      h = row_qmax k + (k' * 1741647) div 524288 + 1 in
    9223372036854775808 \<le> hi \<and> h \<le> 4 \<and> 1 \<le> row_qmin k + (k' * 1741647) div 524288 + 1
    \<and> row_qmax' k + (k' * 1741647) div 524288 + 1 \<le> 4 \<and> 2 ^ nat h * (hi + 1) \<le> 204800000000000000000)"

primrec rows_ok :: "int \<Rightarrow> uint64x2 list \<Rightarrow> bool" where
  "rows_ok k [] \<longleftrightarrow> True"
| "rows_ok k (g # gs) \<longleftrightarrow> row_ok k g \<and> rows_ok (k + 1) gs"

lemma rows_ok_nth: "rows_ok k gs \<Longrightarrow> i < length gs \<Longrightarrow> row_ok (k + int i) (gs ! i)"
proof (induction gs arbitrary: k i)
  case (Cons g gs)
  show ?case
  proof (cases i)
    case (Suc j)
    then show ?thesis using Cons.IH [of "k + 1" j] Cons.prems by (simp add: add.assoc)
  qed (use Cons.prems in simp)
qed simp

lemma rows_ok_append: "rows_ok k (xs @ ys) \<longleftrightarrow> rows_ok k xs \<and> rows_ok (k + int (length xs)) ys"
  by (induction xs arbitrary: k) (simp_all add: add.assoc)

lemma rows0: "rows_ok (- 292) ceil_rows0" by code_simp
lemma rows1: "rows_ok (- 168) ceil_rows1" by code_simp
lemma rows2: "rows_ok (- 44) ceil_rows2" by code_simp
lemma rows3: "rows_ok 80 ceil_rows3" by code_simp
lemma rows4: "rows_ok 204 ceil_rows4" by code_simp

lemma len_rows: "length ceil_rows0 = 124" "length ceil_rows1 = 124" "length ceil_rows2 = 124" "length ceil_rows3 = 124"
    "length ceil_rows4 = 121"
  by (simp_all add: ceil_rows0_def ceil_rows1_def ceil_rows2_def ceil_rows3_def ceil_rows4_def)

lemma rows_table: "rows_ok (- 292) Pow10CeilSig_tab" "length Pow10CeilSig_tab = 617"
  using rows0 rows1 rows2 rows3 rows4 by (simp_all add: Pow10CeilSig_tab_def rows_ok_append len_rows)

text \<open>The row of an exponent.\<close>

lemma dec_row:
  assumes q: "- 1074 \<le> q" "q \<le> 971"
  obtains hi lo where "Pow10CeilSig (- dec_pow10 irr q) = Some (hi, lo)"
    and "2 ^ 63 \<le> unat hi"
    and "1 \<le> dec_shift q (dec_pow10 irr q)" and "dec_shift q (dec_pow10 irr q) \<le> 4"
    and "\<not> irr \<Longrightarrow> 2 ^ nat (dec_shift q (dec_pow10 irr q)) * (unat hi + 1) \<le> 204800000000000000000"
    and "- 324 \<le> dec_pow10 irr q" and "dec_pow10 irr q \<le> 292"
proof -
  define k where "k = dec_pow10 irr q"
  define t where "t = (if irr then 524031 else 0 :: int)"
  have kd: "k = (q * 1262611 - t) div 4194304" by (simp add: k_def t_def dec_pow10_def drop_bit_eq_div)
  have t: "0 \<le> t" "t \<le> 524031" by (simp_all add: t_def)
  have lo: "k * 4194304 + t \<le> q * 1262611" using kd by linarith
  have "x < (x div 4194304 + 1) * 4194304" for x :: int by presburger
  from this [of "q * 1262611 - t"] have up: "q * 1262611 < (k + 1) * 4194304 + t" unfolding kd [symmetric] by linarith
  have "- 1356044214 \<le> q * 1262611" "q * 1262611 \<le> 1225995281" using q by simp_all
  then have "k * 4194304 \<le> 292 * 4194304 + 4194303" "- 324 * 4194304 < (k + 1) * 4194304" using lo up t by linarith+
  then have k: "- 324 \<le> k" "k \<le> 292" by simp_all
  define i where "i = nat (- k + 292)"
  have i: "i < length Pow10CeilSig_tab" "- 292 + int i = - k" using k by (simp_all add: i_def rows_table(2))
  obtain hi lw where g: "Pow10CeilSig_tab ! i = (hi, lw)" by (cases "Pow10CeilSig_tab ! i")
  have r: "row_ok (- k) (hi, lw)" using rows_ok_nth [OF rows_table(1) i(1)] i(2) g by simp
  define s where "s = - k * 1741647 div 524288"
  have h: "dec_shift q k = q + s + 1" by (simp add: dec_shift_def drop_bit_eq_div s_def)
  have qmin: "row_qmin k \<le> q"
  proof -
    have "- q * 1262611 \<le> - (k * 4194304)" using lo t by linarith
    then have "- q \<le> - (k * 4194304) div 1262611" by linarith
    then show ?thesis by (simp only: row_qmin_def)
  qed
  have qmax: "q \<le> row_qmax k" if "\<not> irr"
  proof -
    have "q * 1262611 \<le> (k + 1) * 4194304 - 1" using up that by (simp add: t_def)
    then show ?thesis unfolding row_qmax_def by linarith
  qed
  have qmax': "q \<le> row_qmax' k"
  proof -
    have "q * 1262611 \<le> (k + 1) * 4194304 + 524030" using up t by linarith
    then show ?thesis unfolding row_qmax'_def by linarith
  qed
  have R: "9223372036854775808 \<le> uint hi" "1 \<le> row_qmin k + s + 1" "row_qmax' k + s + 1 \<le> 4"
      "2 ^ nat (row_qmax k + s + 1) * (uint hi + 1) \<le> 204800000000000000000"
    using r by (simp_all add: row_ok_def Let_def s_def)
  have "\<not> - k + 292 < 0" using k by simp
  then have "Pow10CeilSig (- k) = rd Pow10CeilSig_tab i" by (simp only: Pow10CeilSig_def if_False i_def)
  then have "Pow10CeilSig (- k) = Some (hi, lw)" using i(1) g by (simp only: rd_def if_True)
  moreover have "2 ^ 63 \<le> unat hi" 
  proof -
    have "uint hi = int (unat hi)" by simp
    then have "9223372036854775808 \<le> unat hi" using R(1) by linarith
    then show ?thesis by simp
  qed
  moreover have "1 \<le> dec_shift q k" "dec_shift q k \<le> 4" using R(2,3) qmin qmax' unfolding h by linarith+
  moreover have "2 ^ nat (dec_shift q k) * (unat hi + 1) \<le> 204800000000000000000" if "\<not> irr"
  proof -
    have "(2 :: int) ^ nat (dec_shift q k) \<le> 2 ^ nat (row_qmax k + s + 1)"
      unfolding h using qmax [OF that] by (intro power_increasing) simp_all
    then have "2 ^ nat (dec_shift q k) * (uint hi + 1) \<le> 2 ^ nat (row_qmax k + s + 1) * (uint hi + 1)"
      by (rule mult_right_mono) simp
    also note R(4)
    finally have "2 ^ nat (dec_shift q k) * (uint hi + 1) \<le> 204800000000000000000" .
    moreover have "int (2 ^ nat (dec_shift q k) * (unat hi + 1)) = 2 ^ nat (dec_shift q k) * (uint hi + 1)" by (simp add: distrib_left)
    ultimately show ?thesis by linarith
  qed
  ultimately show thesis using k unfolding k_def by (rule that)
qed

subsection \<open>The product\<close>

lemma RoundToOdd_bounds:
  "unat cp * unat hi div 2 ^ 64 \<le> unat (RoundToOdd (hi, lo) cp)"
  "unat (RoundToOdd (hi, lo) cp) \<le> unat cp * (unat hi + 1) div 2 ^ 64 + 1"
proof -
  let ?m = "18446744073709551616 :: nat"
  have c: "unat (ucast (w :: u64) :: 128 word) = unat w" for w
  proof -
    have "unat w < 2 ^ 64" using unsigned_less [of w, where ?'a = nat] by simp
    then have "unat w < 2 ^ 128" by simp
    then show ?thesis by (simp only: unsigned_ucast_eq) (simp add: take_bit_nat_eq_self)
  qed
  have m: "unat (ucast a * ucast b :: 128 word) = unat a * unat b" for a b :: u64
  proof -
    have "unat a * unat b \<le> 18446744073709551615 * 18446744073709551615"
      using unat_u64_lt [of a] unat_u64_lt [of b] by (intro mult_le_mono) simp_all
    then show ?thesis by (simp only: unat_word_ariths c) simp
  qed
  define x where "x = (ucast cp * ucast lo :: 128 word)"
  define xh where "xh = (ucast (drop_bit 64 x) :: u64)"
  have u: "unat (ucast w :: u64) = unat w" if "unat w < ?m" for w :: "128 word"
    using that by (simp only: unsigned_ucast_eq) (simp add: take_bit_nat_eq_self)
  have xb: "unat cp * unat lo div ?m < ?m"
  proof -
    have "unat cp * unat lo \<le> 18446744073709551615 * 18446744073709551615"
      using unat_u64_lt [of cp] unat_u64_lt [of lo] by (intro mult_le_mono) simp_all
    then show ?thesis by (simp add: less_mult_imp_div_less)
  qed
  have xs: "unat (drop_bit 64 x) = unat cp * unat lo div ?m" unfolding x_def by (simp only: unat_shr m) simp
  have xh: "unat xh = unat cp * unat lo div ?m" unfolding xh_def using xs xb by (subst u) simp_all
  define y where "y = (ucast cp * ucast hi + ucast xh :: 128 word)"
  define P where "P = unat cp * unat hi + unat xh"
  have "unat cp * unat lo \<le> unat cp * ?m" using unat_u64_lt [of lo] by (intro mult_le_mono) simp_all
  then have "unat xh \<le> unat cp * ?m div ?m" unfolding xh by (rule div_le_mono)
  then have xc: "unat xh \<le> unat cp" by simp
  have "unat cp * unat hi \<le> 18446744073709551615 * 18446744073709551615"
    using unat_u64_lt [of cp] unat_u64_lt [of hi] by (intro mult_le_mono) simp_all
  then have Pb: "P < ?m * ?m" unfolding P_def using xc unat_u64_lt [of cp] by simp
  have y: "unat y = P"
  proof -
    have "unat (ucast cp * ucast hi :: 128 word) + unat (ucast xh :: 128 word) < 2 ^ LENGTH(128)" using Pb unfolding P_def c m by simp
    then show ?thesis unfolding y_def P_def by (subst unat_plus_lt) (simp_all only: c m)
  qed
  have ys: "unat (drop_bit 64 y) = P div ?m" by (simp only: unat_shr y) simp
  have "P div ?m < ?m" using Pb by (simp add: less_mult_imp_div_less)
  then have y1: "unat (ucast (drop_bit 64 y) :: u64) = P div ?m" using ys by (subst u) simp_all
  have r: "RoundToOdd (hi, lo) cp = ucast (drop_bit 64 y) OR of_bool (1 < (ucast y :: u64))"
    by (simp only: RoundToOdd_def Let_def fst_conv snd_conv y_def xh_def x_def)
  have o: "unat w \<le> unat (w OR of_bool b) \<and> unat (w OR of_bool b) \<le> unat w + 1" for w :: u64 and b
  proof -
    have "unat (w OR of_bool b) = unat w OR of_bool b" by (cases b) (simp_all only: unsigned_or_eq of_bool_eq unsigned_0 unsigned_1)
    then show ?thesis by (cases b) (simp_all only: of_bool_eq or_one_eq, simp_all)
  qed
  have lo: "unat cp * unat hi div ?m \<le> P div ?m" unfolding P_def by (intro div_le_mono) simp
  have "P \<le> unat cp * (unat hi + 1)" unfolding P_def using xc by simp
  then have hi: "P div ?m \<le> unat cp * (unat hi + 1) div ?m" by (rule div_le_mono)
  show "unat cp * unat hi div 2 ^ 64 \<le> unat (RoundToOdd (hi, lo) cp)"
    "unat (RoundToOdd (hi, lo) cp) \<le> unat cp * (unat hi + 1) div 2 ^ 64 + 1"
    using o [of "ucast (drop_bit 64 y)" "1 < (ucast y :: u64)"] lo hi unfolding r y1 by simp_all
qed

subsection \<open>The decimal has at most seventeen digits\<close>

lemma dec_choose_bounds:
  assumes l: "4 * a \<le> unat vb" and u: "unat vb \<le> 399999999999999956" and a: "0 < a"
  shows "1 \<le> unat (fd_sig (dec_choose lower vb upper k)) \<and> unat (fd_sig (dec_choose lower vb upper k)) < 100000000000000000
    \<and> fd_exp (dec_choose lower vb upper k) \<in> {k, k + 1}"
proof -
  define s where "s = vb div 4"
  have s: "unat s = unat vb div 4" by (simp add: s_def unat_div)
  have sb: "1 \<le> unat s" "unat s \<le> 99999999999999989" using l u a unfolding s by linarith+
  have sp: "unat (s div 10) = unat s div 10" by (simp add: unat_div)
  have p: "unat (w + of_bool b) = unat w + of_bool b" if "unat w \<le> 99999999999999989" for w :: u64 and b
    by (cases b) (use that in \<open>simp_all add: unat_plus_lt\<close>)
  have s10: "1 \<le> unat s div 10" if "10 \<le> s" using that by (simp add: word_le_nat_alt)
  have spb: "unat (s div 10) \<le> 99999999999999989" using sb unfolding sp by linarith
  note d = dec_choose_def [of lower vb upper k, folded s_def, unfolded Let_def]
  have "(\<exists>b. fd_sig (dec_choose lower vb upper k) = s div 10 + of_bool b \<and> 10 \<le> s)
      \<or> (\<exists>b. fd_sig (dec_choose lower vb upper k) = s + of_bool b)"
    unfolding d by (auto simp del: of_bool_eq)
  moreover have "fd_exp (dec_choose lower vb upper k) \<in> {k, k + 1}" unfolding d by simp
  ultimately show ?thesis using p [OF sb(2)] p [OF spb] sb s10 spb unfolding sp by auto
qed

lemma F64ToDecimal_ok:
  assumes c: "0 < unat c" "unat c < 2 ^ 53" and q: "- 1074 \<le> q" "q \<le> 971"
    and irr: "rsig = 0 \<and> 1 < rexp \<Longrightarrow> unat c = 2 ^ 52"
  obtains dec where "F64ToDecimal rsig rexp c q = Some dec" and "1 \<le> unat (fd_sig dec)"
    and "unat (fd_sig dec) < 100000000000000000" and "- 324 \<le> fd_exp dec" and "fd_exp dec \<le> 293"
proof -
  let ?i = "rsig = 0 \<and> 1 < rexp"
  define k where "k = dec_pow10 ?i q"
  define h where "h = dec_shift q k"
  obtain hi lo where r: "Pow10CeilSig (- k) = Some (hi, lo)" "2 ^ 63 \<le> unat hi" "1 \<le> h" "h \<le> 4"
    "\<not> ?i \<Longrightarrow> 2 ^ nat h * (unat hi + 1) \<le> 204800000000000000000" "- 324 \<le> k" "k \<le> 292"
    using dec_row [OF q, of ?i] unfolding k_def [symmetric] h_def [symmetric] by blast
  have h: "nat h = 1 \<or> nat h = 2 \<or> nat h = 3 \<or> nat h = 4" using r(3,4) by linarith
  define vb where "vb = RoundToOdd (hi, lo) (push_bit (nat h) (4 * c))"
  have c4: "unat (4 * c) = 4 * unat c" using c by (simp add: unat_word_ariths)
  have p16: "(2::nat) ^ nat h \<le> 16" "(2::nat) \<le> 2 ^ nat h" using h by auto
  have "4 * unat c * 2 ^ nat h \<le> 4 * 9007199254740992 * 16" using c p16 by (intro mult_le_mono) simp_all
  then have cp: "unat (push_bit (nat h) (4 * c)) = 4 * unat c * 2 ^ nat h" using c4 by (subst unat_shl) simp_all
  have lo: "4 * unat c \<le> unat vb"
  proof -
    have "4 * unat c * (2 * 2 ^ 63) \<le> 4 * unat c * (2 ^ nat h * unat hi)" using p16 r(2) by (intro mult_le_mono) simp_all
    then have "4 * unat c * (2 * 2 ^ 63) div 2 ^ 64 \<le> 4 * unat c * (2 ^ nat h * unat hi) div 2 ^ 64" by (rule div_le_mono)
    also have "\<dots> \<le> unat vb" using RoundToOdd_bounds(1) [of "push_bit (nat h) (4 * c)" hi lo] unfolding cp vb_def by (simp add: mult.assoc)
    finally show ?thesis by simp
  qed
  have up: "unat vb \<le> 399999999999999956"
  proof -
    have "4 * unat c * 2 ^ nat h * (unat hi + 1) div 2 ^ 64 \<le> 399999999999999955"
    proof (cases ?i)
      case True
      have "4 * unat c * 2 ^ nat h * (unat hi + 1) \<le> 4 * 2 ^ 52 * 16 * 2 ^ 64"
        using irr [OF True] p16 unat_u64_lt [of hi] by (intro mult_le_mono) simp_all
      then have "4 * unat c * 2 ^ nat h * (unat hi + 1) div 2 ^ 64 \<le> 4 * 2 ^ 52 * 16 * 2 ^ 64 div 2 ^ 64" by (rule div_le_mono)
      then show ?thesis by simp
    next
      case False
      have "4 * unat c * (2 ^ nat h * (unat hi + 1)) \<le> 4 * 9007199254740991 * 204800000000000000000"
        using r(5) [OF False] c by (intro mult_le_mono) simp_all
      then have "4 * unat c * 2 ^ nat h * (unat hi + 1) div 2 ^ 64 \<le> 4 * 9007199254740991 * 204800000000000000000 div 2 ^ 64"
        by (intro div_le_mono) (simp only: mult.assoc)
      then show ?thesis by simp
    qed
    then show ?thesis using RoundToOdd_bounds(2) [of hi lo "push_bit (nat h) (4 * c)"] unfolding cp vb_def by linarith
  qed
  have "\<not> (h < 0 \<or> 63 < h)" using r(3,4) by simp
  then obtain lower upper where d: "F64ToDecimal rsig rexp c q = Some (dec_choose lower vb upper k)"
    using r(1) by (simp add: F64ToDecimal_def Let_def k_def [symmetric] h_def [symmetric] vb_def)
  from dec_choose_bounds [OF lo up c(1), of lower upper k] show thesis
    using r(6,7) by (intro that [OF d]) auto
qed

end
