(* ===== verification/Sonic_FtoaDigits.thy ===== *)
theory Sonic_FtoaDigits
  imports Sonic_FtoaTable
begin

text \<open>
  The digits \<open>ftoa.h\<close> writes from the right: what stands at a position of the buffer, the
  significand without its trailing zeros, and the digits of the exponent.
\<close>

subsection \<open>Digits written from the right\<close>

definition holds :: "bytes \<Rightarrow> nat \<Rightarrow> bytes \<Rightarrow> bool" where
  "holds b a xs \<longleftrightarrow> a + length xs \<le> length b \<and> take (length xs) (drop a b) = xs"

text \<open>The part of the buffer before the position stays.\<close>

definition kept :: "nat \<Rightarrow> bytes \<Rightarrow> bytes \<Rightarrow> bool" where
  "kept a b b' \<longleftrightarrow> length b' = length b \<and> take a b' = take a b"

lemma kept_refl [simp]: "kept a b b" by (simp add: kept_def)
lemma kept_trans: "kept a b c \<Longrightarrow> kept a c d \<Longrightarrow> kept a b d" by (simp add: kept_def)

lemma kept_le: "kept a b c \<Longrightarrow> a' \<le> a \<Longrightarrow> kept a' b c"
  unfolding kept_def by (metis min_absorb1 take_take)

lemma holds_nil [simp]: "holds b a [] \<longleftrightarrow> a \<le> length b" by (simp add: holds_def)

lemma holds_take: "holds b a xs \<Longrightarrow> take (a + length xs) b = take a b @ xs"
  by (simp add: holds_def take_add)

lemma holds_len: "holds b a xs \<Longrightarrow> a + length xs \<le> length b" by (simp add: holds_def)

lemma holds_append: "holds b a (xs @ ys) \<longleftrightarrow> holds b a xs \<and> holds b (a + length xs) ys"
proof -
  have t: "take (length xs + length ys) (drop a b) = take (length xs) (drop a b) @ take (length ys) (drop (a + length xs) b)"
    by (simp add: take_add add.commute)
  show ?thesis
  proof (cases "a + length xs + length ys \<le> length b")
    case True
    then have "length (take (length xs) (drop a b)) = length xs" by simp
    then show ?thesis using True unfolding holds_def length_append t by (subst append_eq_append_conv) simp_all
  qed (simp add: holds_def)
qed

lemma holds_nth: "holds b a xs \<Longrightarrow> i < length xs \<Longrightarrow> rd b (a + i) = Some (xs ! i)"
proof -
  assume h: "holds b a xs" and i: "i < length xs"
  then have "take (length xs) (drop a b) ! i = xs ! i" by (simp add: holds_def)
  then show ?thesis using h i by (simp add: holds_def rd_def)
qed

text \<open>A write of \<open>zs\<close> at \<open>i\<close>.\<close>

lemma wr_holds:
  assumes "wr b i zs = Some b'"
  shows "kept i b b'" "holds b' i zs"
    and "i + length zs \<le> a \<Longrightarrow> holds b a xs \<Longrightarrow> holds b' a xs"
    and "a + length xs \<le> i \<Longrightarrow> holds b a xs \<Longrightarrow> holds b' a xs"
proof -
  have b: "b' = take i b @ zs @ drop (i + length zs) b" "i + length zs \<le> length b" using assms by (auto simp: wr_def split: if_splits)
  have l: "length b' = length b" by (rule wr_length [OF assms])
  show "kept i b b'" using l b by (simp add: kept_def)
  show "holds b' i zs" using b by (simp add: holds_def)
  show "i + length zs \<le> a \<Longrightarrow> holds b a xs \<Longrightarrow> holds b' a xs"
    using b by (simp add: holds_def)
  show "a + length xs \<le> i \<Longrightarrow> holds b a xs \<Longrightarrow> holds b' a xs"
  proof -
    assume a: "a + length xs \<le> i" "holds b a xs"
    have "take (length xs) (drop a b') = drop a (take (a + length xs) b')" by (simp add: drop_take)
    also have "take (a + length xs) b' = take (a + length xs) b" using wr_take_before [OF assms a(1)] .
    also have "drop a (take (a + length xs) b) = take (length xs) (drop a b)" by (simp add: drop_take)
    finally show "holds b' a xs" using a l by (simp add: holds_def)
  qed
qed

lemma Copy2Digs_back_ok:
  assumes v: "v < 100" and s: "unat src = 2 * v" and k: "2 \<le> k" "k \<le> p" and h: "holds buf (p - k + 2) xs"
  shows "\<exists>b. Copy2Digs_back src k buf p = Some b \<and> kept (p - k) buf b \<and> holds b (p - k) (dec_fix 2 v @ xs)"
proof -
  have d: "kDigits ! (2 * v) = digit (v div 10)" "kDigits ! (2 * v + 1) = digit (v mod 10)"
    using kDigits_pairs [OF v] by simp_all
  have r: "rd kDigits (2 * v) = Some (digit (v div 10))" "rd kDigits (2 * v + 1) = Some (digit (v mod 10))"
    using d v by (simp_all add: rd_def length_kDigits)
  have e: "dec_fix 2 v = [digit (v div 10), digit (v mod 10)]" using v by (simp add: numeral_2_eq_2)
  have "p - k + 2 \<le> length buf" using h by (simp add: holds_def)
  then obtain b where b: "wr buf (p - k) [digit (v div 10), digit (v mod 10)] = Some b" by (simp add: wr_def)
  have "holds b (p - k) (dec_fix 2 v @ xs)" unfolding holds_append e
    using wr_holds(2) [OF b] wr_holds(3) [OF b, of "p - k + 2" xs] h by simp
  then show ?thesis using wr_holds(1) [OF b] b r s k by (simp add: Copy2Digs_back_def Copy2Digs_def)
qed

lemma shl1_small: "unat w < 100 \<Longrightarrow> unat (push_bit 1 (w :: u32)) = 2 * unat w"
  by (subst unat_shl) simp_all

lemma Copy2Digs_back_next:
  assumes "unat w < 100" and "2 \<le> k" "k \<le> p" and "holds buf (p - k + 2) xs"
  obtains b where "Copy2Digs_back (push_bit 1 w) k buf p = Some b" "kept (p - k) buf b"
    "holds b (p - k) (dec_fix 2 (unat w) @ xs)"
  using Copy2Digs_back_ok [OF assms(1) shl1_small [OF assms(1)] assms(2-4)] by blast

text \<open>Four digits: the two low ones, then the two before them.\<close>

lemma four_digits:
  assumes c: "unat c < 10000" and k: "2 \<le> k" "k + 2 \<le> p" and h: "holds buf (p - k + 2) xs"
  obtains b1 b2 where "Copy2Digs_back (push_bit 1 (c mod 100)) k buf p = Some b1"
    "Copy2Digs_back (push_bit 1 (c div 100)) (k + 2) b1 p = Some b2"
    "kept (p - (k + 2)) buf b2" "holds b2 (p - (k + 2)) (dec_fix 4 (unat c) @ xs)"
proof -
  have u: "unat (c mod 100) = unat c mod 100" "unat (c div 100) = unat c div 100" by (simp_all add: unat_mod unat_div)
  have lt: "unat (c mod 100) < 100" "unat (c div 100) < 100" unfolding u using c by simp_all
  have "k \<le> p" using k by simp
  obtain b1 where b1: "Copy2Digs_back (push_bit 1 (c mod 100)) k buf p = Some b1" "kept (p - k) buf b1"
    "holds b1 (p - k) (dec_fix 2 (unat (c mod 100)) @ xs)"
    by (rule Copy2Digs_back_next [OF lt(1) k(1) \<open>k \<le> p\<close> h])
  have "p - k = p - (k + 2) + 2" using k by simp
  with b1(3) have h1: "holds b1 (p - (k + 2) + 2) (dec_fix 2 (unat (c mod 100)) @ xs)" by simp
  have k2: "2 \<le> k + 2" "k + 2 \<le> p" using k by simp_all
  obtain b2 where b2: "Copy2Digs_back (push_bit 1 (c div 100)) (k + 2) b1 p = Some b2" "kept (p - (k + 2)) b1 b2"
    "holds b2 (p - (k + 2)) (dec_fix 2 (unat (c div 100)) @ dec_fix 2 (unat (c mod 100)) @ xs)"
    by (rule Copy2Digs_back_next [OF lt(2) k2 h1])
  have "dec_fix 4 (unat c) = dec_fix 2 (unat (c div 100)) @ dec_fix 2 (unat (c mod 100))"
    using dec_fix_add [of 2 2 "unat c"] by (simp add: u dec_fix_two)
  with b2(3) have "holds b2 (p - (k + 2)) (dec_fix 4 (unat c) @ xs)" by simp
  moreover have "kept (p - (k + 2)) buf b2" using kept_trans [OF kept_le [OF b1(2)] b2(2)] by simp
  ultimately show thesis using b1(1) b2(1) by (intro that)
qed

lemma FormatSig_low8_ok:
  assumes r: "unat r < 100000000" and p: "8 \<le> p" and h: "p \<le> length buf"
  shows "\<exists>b. FormatSig_low8 r buf p = Some b \<and> kept (p - 8) buf b \<and> holds b (p - 8) (dec_fix 8 (unat r))"
proof -
  let ?c = "r mod 10000" and ?d = "r div 10000 mod 10000"
  have u: "unat ?c = unat r mod 10000" "unat ?d = unat r div 10000" using r by (simp_all add: unat_mod unat_div)
  have lt: "unat ?c < 10000" "unat ?d < 10000" unfolding u using r by simp_all
  have k1: "(2::nat) \<le> 2" "2 + 2 \<le> p" "holds buf (p - 2 + 2) []" using p h by simp_all
  obtain b1 b2 where b: "Copy2Digs_back (push_bit 1 (?c mod 100)) 2 buf p = Some b1"
    "Copy2Digs_back (push_bit 1 (?c div 100)) (2 + 2) b1 p = Some b2"
    "kept (p - (2 + 2)) buf b2" "holds b2 (p - (2 + 2)) (dec_fix 4 (unat ?c) @ [])"
    by (rule four_digits [OF lt(1) k1])
  have e: "p - (2 + 2) = p - 6 + 2" using p by simp
  have k2: "(2::nat) \<le> 6" "6 + 2 \<le> p" "holds b2 (p - 6 + 2) (dec_fix 4 (unat ?c))" using p b(4) unfolding e by simp_all
  obtain b3 b4 where b': "Copy2Digs_back (push_bit 1 (?d mod 100)) 6 b2 p = Some b3"
    "Copy2Digs_back (push_bit 1 (?d div 100)) (6 + 2) b3 p = Some b4"
    "kept (p - (6 + 2)) b2 b4" "holds b4 (p - (6 + 2)) (dec_fix 4 (unat ?d) @ dec_fix 4 (unat ?c))"
    by (rule four_digits [OF lt(2) k2])
  have "dec_fix 8 (unat r) = dec_fix 4 (unat ?d) @ dec_fix 4 (unat ?c)"
    using dec_fix_add [of 4 4 "unat r"] dec_fix_mod [of 4 "unat r"] by (simp add: u)
  with b'(4) have "holds b4 (p - 8) (dec_fix 8 (unat r))" by simp
  moreover have "kept (p - 8) buf b4" using kept_trans [OF kept_le [OF b(3), of "p - 8"] b'(3)[simplified]] by simp
  moreover have "FormatSig_low8 r buf p = Some b4" using b(1,2) b'(1,2) by (simp add: FormatSig_low8_def Let_def)
  ultimately show ?thesis by blast
qed

subsection \<open>The significand\<close>

lemma decimal_four: "10000 \<le> n \<Longrightarrow> decimal n = decimal (n div 10000) @ dec_fix 4 (n mod 10000)"
  using decimal_split [of n 4] dec_fix_mod [of 4 n] by (simp add: div_greater_zero_iff)

lemma decimal_two: "100 \<le> n \<Longrightarrow> decimal n = decimal (n div 100) @ dec_fix 2 (n mod 100)"
  using decimal_split [of n 2] dec_fix_two [of n] by (simp add: div_greater_zero_iff)

lemma decimal_pair: "10 \<le> n \<Longrightarrow> n < 100 \<Longrightarrow> decimal n = dec_fix 2 n"
  using decimal_fix [of 1 n] by (simp add: numeral_2_eq_2)

lemma dec_fix_zero: "dec_fix k 0 = replicate k 0x30"
  by (induction k) (simp_all add: digit_def replicate_append_same)

lemma FormatSig_loop_ok:
  assumes "p = out + length (decimal (unat s))" and "holds buf p xs"
  shows "\<exists>s' b' p' xs'. FormatSig_loop s buf p = Some (s', b', p') \<and> unat s' < 10000
    \<and> p' = out + length (decimal (unat s')) \<and> p' \<le> p \<and> kept p' buf b' \<and> holds b' p' xs'
    \<and> decimal (unat s') @ xs' = decimal (unat s) @ xs"
  using assms
proof (induction s buf p arbitrary: xs rule: FormatSig_loop.induct)
  case (1 s buf p)
  show ?case
  proof (cases "10000 \<le> s")
    case False
    then have "FormatSig_loop s buf p = Some (s, buf, p)" "unat s < 10000" by (simp_all add: FormatSig_loop.simps word_le_nat_alt)
    then show ?thesis using 1(2,3) by (intro exI conjI) simp_all
  next
    case True
    define c where "c = s - 10000 * (s div 10000)"
    have c: "c = s mod 10000"
      unfolding c_def by (metis add_diff_cancel_left' mult_div_mod_eq)
    have u: "unat c = unat s mod 10000" "unat (s div 10000) = unat s div 10000" unfolding c by (simp_all add: unat_mod unat_div)
    have d: "decimal (unat s) = decimal (unat s div 10000) @ dec_fix 4 (unat c)"
      using True decimal_four [of "unat s"] by (simp add: u word_le_nat_alt)
    have p: "p = out + length (decimal (unat s div 10000)) + 4" using 1(2) unfolding d by simp
    have "p - 2 + 2 = p" using p by simp
    with 1(3) have hx: "holds buf (p - 2 + 2) xs" by (simp only:)
    have h: "unat c < 10000" "(2::nat) \<le> 2" "2 + 2 \<le> p" using p by (simp_all add: u)
    obtain b1 b2 where b: "Copy2Digs_back (push_bit 1 (c mod 100)) 2 buf p = Some b1"
      "Copy2Digs_back (push_bit 1 (c div 100)) (2 + 2) b1 p = Some b2"
      "kept (p - (2 + 2)) buf b2" "holds b2 (p - (2 + 2)) (dec_fix 4 (unat c) @ xs)"
      by (rule four_digits [OF h hx])
    have e: "FormatSig_loop s buf p = FormatSig_loop (s div 10000) b2 (p - 4)"
      using True b(1,2) by (subst FormatSig_loop.simps) (simp add: Let_def c_def)
    have b4: "Copy2Digs_back (push_bit 1 (c div 100)) 4 b1 p = Some b2" using b(2) by simp
    have "p - 4 = out + length (decimal (unat (s div 10000)))" using p by (simp add: u)
    from 1(1) [OF True refl refl refl refl b(1) [unfolded c_def] b4 [unfolded c_def] this, of "dec_fix 4 (unat c) @ xs"] b(4)
    obtain s' b' p' xs' where r: "FormatSig_loop (s div 10000) b2 (p - 4) = Some (s', b', p')" "unat s' < 10000"
      "p' = out + length (decimal (unat s'))" "p' \<le> p - 4" "kept p' b2 b'" "holds b' p' xs'"
      "decimal (unat s') @ xs' = decimal (unat (s div 10000)) @ dec_fix 4 (unat c) @ xs" by auto
    have "p' \<le> p - (2 + 2)" using r(4) by simp
    with b(3) have "kept p' buf b2" by (auto intro: kept_le)
    from kept_trans [OF this r(5)] show ?thesis using r e unfolding d u by (intro exI conjI) simp_all
  qed
qed

lemma ascii_digit: "unat (w :: u32) < 10 \<Longrightarrow> 0x30 + ucast w = digit (unat w)"
proof -
  have "ucast w = (word_of_nat (unat w) :: u8)" by simp
  then show ?thesis by (simp only: digit_def of_nat_add) simp
qed

lemma FormatSig_lead_ok:
  assumes s: "unat s < 10000" and p: "p = out + length (decimal (unat s))" and h: "holds buf p xs"
  shows "\<exists>b. FormatSig_lead s buf p out = Some b \<and> kept out buf b \<and> holds b out (decimal (unat s) @ xs)"
proof -
  have two: "\<exists>b. (if 10 \<le> s then Copy2Digs_back (push_bit 1 s) 2 buf p else wr buf out [0x30 + ucast s]) = Some b
      \<and> kept out buf b \<and> holds b out (decimal (unat s) @ xs)"
    if s: "unat s < 100" and p: "p = out + length (decimal (unat s))" and h: "holds buf p xs" for s :: u32 and buf p xs
  proof (cases "10 \<le> s")
    case True
    then have d: "decimal (unat s) = dec_fix 2 (unat s)" using decimal_pair [of "unat s"] s by (simp add: word_le_nat_alt)
    have k2: "2 \<le> p" using p unfolding d by simp
    then have "p - 2 + 2 = p" by simp
    with k2 h have k: "(2::nat) \<le> 2" "2 \<le> p" "holds buf (p - 2 + 2) xs" by simp_all
    obtain b where "Copy2Digs_back (push_bit 1 s) 2 buf p = Some b" "kept (p - 2) buf b" "holds b (p - 2) (dec_fix 2 (unat s) @ xs)"
      by (rule Copy2Digs_back_next [OF s k])
    moreover have "p - 2 = out" using p unfolding d by simp
    ultimately show ?thesis using True d by simp
  next
    case False
    then have s10: "unat s < 10" by (simp add: word_le_nat_alt)
    then have d: "decimal (unat s) = [digit (unat s)]" by (rule decimal_single)
    have "out + 1 \<le> length buf" using p h holds_len [OF h] unfolding d by simp
    then obtain b where b: "wr buf out [0x30 + ucast s] = Some b" by (simp add: wr_def)
    have "holds b (out + 1) xs" using wr_holds(3) [OF b, of p xs] h p unfolding d by simp
    then have "holds b out (decimal (unat s) @ xs)" using wr_holds(2) [OF b] unfolding d holds_append ascii_digit [OF s10] by simp
    then show ?thesis using False b wr_holds(1) [OF b] by simp
  qed
  show ?thesis
  proof (cases "100 \<le> s")
    case False
    then show ?thesis using two [OF _ p h] by (simp add: FormatSig_lead_def word_le_nat_alt)
  next
    case True
    have u: "unat (s mod 100) = unat s mod 100" "unat (s div 100) = unat s div 100" by (simp_all add: unat_mod unat_div)
    have d: "decimal (unat s) = decimal (unat s div 100) @ dec_fix 2 (unat (s mod 100))"
      using True decimal_two [of "unat s"] by (simp add: u word_le_nat_alt)
    have k2: "2 \<le> p" using p unfolding d by simp
    then have "p - 2 + 2 = p" by simp
    with k2 h have k: "unat (s mod 100) < 100" "(2::nat) \<le> 2" "2 \<le> p" "holds buf (p - 2 + 2) xs" by (simp_all add: u)
    obtain b where b: "Copy2Digs_back (push_bit 1 (s mod 100)) 2 buf p = Some b" "kept (p - 2) buf b"
      "holds b (p - 2) (dec_fix 2 (unat (s mod 100)) @ xs)"
      by (rule Copy2Digs_back_next [OF k])
    have q: "unat (s div 100) < 100" "p - 2 = out + length (decimal (unat (s div 100)))" using s p unfolding d u by simp_all
    from two [OF q b(3)] obtain b' where b': "(if 10 \<le> s div 100 then Copy2Digs_back (push_bit 1 (s div 100)) 2 b (p - 2)
        else wr b out [0x30 + ucast (s div 100)]) = Some b'" "kept out b b'"
      "holds b' out (decimal (unat (s div 100)) @ dec_fix 2 (unat (s mod 100)) @ xs)" by blast
    have "kept out buf b" by (rule kept_le [OF b(2)]) (simp add: q(2))
    from kept_trans [OF this b'(2)] show ?thesis using True b(1) b'(1,3) by (simp add: FormatSig_lead_def Let_def d u)
  qed
qed

lemma FormatSig_high_ok:
  assumes s: "unat sig < 100000000000000000" and p: "p = out + length (decimal (unat sig))" and h: "p \<le> length buf"
  shows "\<exists>q b p' z xs. FormatSig_high sig buf p = Some (q, b, p', z) \<and> unat q < 4294967296 \<and> p' = out + length (decimal (unat q))
    \<and> kept p' buf b \<and> holds b p' xs \<and> decimal (unat q) @ xs @ replicate z 0x30 = decimal (unat sig) \<and> p = p' + length xs + z"
proof -
  have hi: "drop_bit 32 sig \<noteq> 0 \<longleftrightarrow> 4294967296 \<le> unat sig"
  proof -
    have "drop_bit 32 sig = 0 \<longleftrightarrow> unat (drop_bit 32 sig) = 0" by (simp only: unat_eq_zero)
    also have "\<dots> \<longleftrightarrow> unat sig div 4294967296 = 0" by (simp only: unat_shr) simp
    finally show ?thesis by (simp add: div_eq_0_iff not_less)
  qed
  show ?thesis
  proof (cases "drop_bit 32 sig = 0")
    case True
    then have "FormatSig_high sig buf p = Some (sig, buf, p, 0)" "unat sig < 4294967296" using hi by (simp_all add: FormatSig_high_def)
    then show ?thesis using p h by (intro exI [of _ sig] exI [of _ buf] exI [of _ p] exI [of _ 0] exI [of _ "[]"]) simp
  next
    case False
    then have big: "4294967296 \<le> unat sig" using hi by simp
    define q where "q = sig div 100000000"
    define r where "r = (ucast sig :: u32) - 100000000 * ucast q"
    have uq: "unat q = unat sig div 100000000" by (simp add: q_def unat_div)
    have ur: "unat r = unat sig mod 100000000"
    proof -
      have "(ucast sig :: u32) = word_of_nat (unat sig)" "(ucast q :: u32) = word_of_nat (unat sig div 100000000)"
        by (simp_all flip: uq)
      then have "r = word_of_nat (unat sig) - 100000000 * word_of_nat (unat sig div 100000000)" by (simp only: r_def)
      also have "(word_of_nat (unat sig) :: u32) = word_of_nat (100000000 * (unat sig div 100000000) + unat sig mod 100000000)"
        by (simp only: mult_div_mod_eq)
      finally have "r = word_of_nat (unat sig mod 100000000)" by (simp only: of_nat_add of_nat_mult) simp
      then show ?thesis by (simp add: unsigned_of_nat take_bit_nat_eq_self)
    qed
    have d: "decimal (unat sig) = decimal (unat q) @ dec_fix 8 (unat r)"
      using decimal_split [of "unat sig" 8] dec_fix_mod [of 8 "unat sig"] big by (simp add: uq ur div_greater_zero_iff)
    have p8: "p = out + length (decimal (unat q)) + 8" using p unfolding d by simp
    have q32: "unat q < 4294967296" using s unfolding uq by linarith
    show ?thesis
    proof (cases "r = 0")
      case True
      have "FormatSig_high sig buf p = Some (q, buf, p - 8, 8)" using False True p8 by (simp add: FormatSig_high_def Let_def q_def r_def)
      then show ?thesis using p8 h d q32 True dec_fix_zero [of 8]
        by (intro exI [of _ q] exI [of _ buf] exI [of _ "p - 8"] exI [of _ 8] exI [of _ "[]"]) simp
    next
      case r0: False
      have "unat r < 100000000" unfolding ur by simp
      moreover have "8 \<le> p" using p8 by simp
      ultimately obtain b where b: "FormatSig_low8 r buf p = Some b" "kept (p - 8) buf b" "holds b (p - 8) (dec_fix 8 (unat r))"
        using FormatSig_low8_ok h by blast
      then have "FormatSig_high sig buf p = Some (q, b, p - 8, 0)" using False r0 p8 by (simp add: FormatSig_high_def Let_def q_def r_def)
      then show ?thesis using p8 d q32 b
        by (intro exI [of _ q] exI [of _ b] exI [of _ "p - 8"] exI [of _ 0] exI [of _ "dec_fix 8 (unat r)"]) simp
    qed
  qed
qed

lemma FormatSignificand_ok:
  assumes s: "unat sig < 100000000000000000" and c: "cnt = length (decimal (unat sig))" and h: "out + cnt \<le> length buf"
  obtains b D z where "FormatSignificand sig buf out cnt = Some (b, out + length D)" "kept out buf b" "holds b out D"
    "decimal (unat sig) = D @ replicate z 0x30"
proof -
  obtain q b p z xs where H: "FormatSig_high sig buf (out + cnt) = Some (q, b, p, z)" "unat q < 4294967296"
    "p = out + length (decimal (unat q))" "kept p buf b" "holds b p xs" "decimal (unat q) @ xs @ replicate z 0x30 = decimal (unat sig)"
    "out + cnt = p + length xs + z"
    using FormatSig_high_ok [OF s, of "out + cnt" out buf] c h by blast
  have u: "unat (ucast q :: u32) = unat q" by (rule ucast_small [OF H(2)])
  obtain s' b' p' xs' where L: "FormatSig_loop (ucast q) b p = Some (s', b', p')" "unat s' < 10000"
    "p' = out + length (decimal (unat s'))" "kept p' b b'" "holds b' p' xs'" "decimal (unat s') @ xs' = decimal (unat q) @ xs" "p' \<le> p"
    using FormatSig_loop_ok [of p out "ucast q" b xs] H(3,5) unfolding u by blast
  obtain b'' where E: "FormatSig_lead s' b' p' out = Some b''" "kept out b' b''" "holds b'' out (decimal (unat s') @ xs')"
    using FormatSig_lead_ok [OF L(2,3,5)] by blast
  have "length (decimal (unat s') @ xs') = length (decimal (unat q) @ xs)" by (simp only: L(6))
  then have e: "out + cnt - z = out + length (decimal (unat s') @ xs')" using H(3,7) by simp
  have "kept out buf b''" using kept_trans [OF kept_trans [OF kept_le [OF H(4)] kept_le [OF L(4)]] E(2)] H(3) L(3) by simp
  moreover have "FormatSignificand sig buf out cnt = Some (b'', out + length (decimal (unat s') @ xs'))"
    unfolding FormatSignificand_def using H(1) L(1) E(1) e by simp
  moreover have "decimal (unat sig) = (decimal (unat s') @ xs') @ replicate z 0x30" using H(6) L(6) by simp
  ultimately show thesis using E(3) by (intro that)
qed

subsection \<open>Trailing zeros\<close>

definition trimmed :: "bytes \<Rightarrow> bytes" where
  "trimmed xs = rev (dropWhile (\<lambda>c. c = 0x30) (rev xs))"

lemma trimmed_zeros: "trimmed (xs @ replicate z 0x30) = trimmed xs"
proof -
  have "dropWhile (\<lambda>c. c = 0x30) (replicate z 0x30 @ ys) = dropWhile (\<lambda>c. c = 0x30) ys" for ys :: bytes
    by (induction z) simp_all
  then show ?thesis by (simp add: trimmed_def)
qed

lemma trimmed_snoc: "trimmed (xs @ [c]) = (if c = 0x30 then trimmed xs else xs @ [c])"
  by (simp add: trimmed_def)

lemma trimmed_split: "\<exists>z. xs = trimmed xs @ replicate z 0x30"
proof (induction xs rule: rev_induct)
  case (snoc c xs)
  then obtain z where z: "xs = trimmed xs @ replicate z 0x30" by blast
  show ?case
  proof (cases "c = 0x30")
    case True
    have "xs @ [c] = trimmed xs @ replicate (Suc z) 0x30" using z True by (metis append.assoc replicate_append_same replicate_Suc)
    moreover have t: "trimmed (xs @ [c]) = trimmed xs" using True by (simp add: trimmed_snoc)
    ultimately show ?thesis unfolding t by blast
  next
    case False
    then show ?thesis by (intro exI [of _ 0]) (simp add: trimmed_snoc)
  qed
qed (simp add: trimmed_def)

lemma trimmed_length: "length (trimmed xs) \<le> length xs"
  using trimmed_split [of xs] by (metis length_append le_add1)

lemma trimmed_hd: "xs \<noteq> [] \<Longrightarrow> hd xs \<noteq> 0x30 \<Longrightarrow> trimmed xs \<noteq> []"
  using trimmed_split [of xs] by (metis append_Nil hd_replicate replicate_empty)

lemma trim_end_ok:
  "holds b a xs \<Longrightarrow> trimmed xs \<noteq> [] \<Longrightarrow> trim_end b (a + length xs) = Some (a + length (trimmed xs))"
proof (induction xs rule: rev_induct)
  case (snoc c xs)
  have h: "holds b a xs" using snoc.prems(1) by (simp add: holds_append)
  have "rd b (a + length xs) = Some c" using holds_nth [OF snoc.prems(1), of "length xs"] by (simp add: nth_append)
  then show ?case using snoc.IH [OF h] snoc.prems(2) by (auto simp: trimmed_snoc)
qed (simp add: trimmed_def)

lemma holds_trimmed: "holds b a xs \<Longrightarrow> holds b a (trimmed xs)"
  using trimmed_split [of xs] holds_append by metis

lemma digit_zero: "d < 10 \<Longrightarrow> digit d = 0x30 \<longleftrightarrow> d = 0"
proof -
  assume "d < 10"
  then have "unat (digit d) = 48 + d" by (simp only: digit_def unsigned_of_nat) (simp add: take_bit_nat_eq_self)
  moreover have "unat (0x30 :: u8) = 48" by simp
  ultimately show ?thesis by (metis add_cancel_right_right word_unat_eq_iff)
qed

lemma decimal_nonempty [simp]: "decimal n \<noteq> []" by (subst decimal.simps) simp

lemma decimal_hd: "0 < n \<Longrightarrow> hd (decimal n) \<noteq> 0x30"
proof (induction n rule: decimal.induct)
  case (1 n)
  then show ?case using digit_zero [of n] by (subst decimal.simps) auto
qed

lemma trimmed_decimal: "0 < n \<Longrightarrow> trimmed (decimal n) \<noteq> []"
  using decimal_hd by (intro trimmed_hd) simp_all

text \<open>The digits of the significand stand at \<open>out\<close>, without trailing zeros.\<close>

lemma Significand_trimmed:
  assumes s: "0 < unat sig" "unat sig < 100000000000000000" and c: "cnt = length (decimal (unat sig))" and h: "out + cnt \<le> length buf"
  obtains b e where "FormatSignificand sig buf out cnt = Some (b, e)"
    "trim_end b e = Some (out + length (trimmed (decimal (unat sig))))" "kept out buf b" "holds b out (trimmed (decimal (unat sig)))"
proof -
  obtain b D z where F: "FormatSignificand sig buf out cnt = Some (b, out + length D)" "kept out buf b" "holds b out D"
    "decimal (unat sig) = D @ replicate z 0x30"
    by (rule FormatSignificand_ok [OF s(2) c h])
  have t: "trimmed (decimal (unat sig)) = trimmed D" by (simp only: F(4) trimmed_zeros)
  show thesis
    using F(1) trim_end_ok [OF F(3)] trimmed_decimal [OF s(1)] F(2) holds_trimmed [OF F(3)] by (intro that) (simp_all add: t)
qed

text \<open>Appending to what stands at \<open>out\<close>.\<close>

lemma append_at:
  assumes h: "holds b out M" and r: "out + length M + length zs \<le> length b" and e: "e = out + length M"
  obtains b' where "wr b e zs = Some b'" "kept out b b'" "holds b' out (M @ zs)"
proof -
  obtain b' where w: "wr b e zs = Some b'" using r e by (auto simp: wr_def)
  show thesis
    using w kept_le [OF wr_holds(1) [OF w], of out] wr_holds(2) [OF w] wr_holds(4) [OF w, of out M] h e
    by (intro that) (simp_all add: holds_append)
qed

lemma kept_length: "kept a b c \<Longrightarrow> length c = length b" by (simp add: kept_def)

lemma Copy2Digs_wr:
  assumes "v < 100"
  shows "Copy2Digs (2 * v) (b, e) = map_option (\<lambda>b. (b, e)) (wr b e (dec_fix 2 v))"
proof -
  have d: "kDigits ! (2 * v) = digit (v div 10)" "kDigits ! (2 * v + 1) = digit (v mod 10)"
    using kDigits_pairs [OF assms] by simp_all
  have r: "rd kDigits (2 * v) = Some (digit (v div 10))" "rd kDigits (2 * v + 1) = Some (digit (v mod 10))"
    using d assms by (simp_all add: rd_def length_kDigits)
  have e: "dec_fix 2 v = [digit (v div 10), digit (v mod 10)]" using assms by (simp add: numeral_2_eq_2)
  show ?thesis unfolding Copy2Digs_def e using r by (cases "wr b e [digit (v div 10), digit (v mod 10)]") simp_all
qed

lemma ascii_of_int: "0 \<le> i \<Longrightarrow> i < 10 \<Longrightarrow> 0x30 + word_of_int i = digit (nat i)"
proof -
  assume "0 \<le> i"
  then obtain n where "i = int n" by (metis nonneg_int_cases)
  then show ?thesis by (simp add: digit_def)
qed

lemma FormatExp_digits_ok:
  assumes e: "0 \<le> e" "e < 1000" and h: "holds b out M" and r: "out + length M + 3 \<le> length b" and at: "stop = out + length M"
  obtains b' where "FormatExp_digits e b stop = Some (b', out + length (M @ decimal (nat e)))" "kept out b b'"
    "holds b' out (M @ decimal (nat e))"
proof -
  obtain n where n: "e = int n" using e(1) by (metis nonneg_int_cases)
  consider "n < 10" | "10 \<le> n" "n < 100" | "100 \<le> n" by linarith
  then show thesis
  proof cases
    case 1
    then have d: "decimal n = [digit n]" by (rule decimal_single)
    obtain b' where "wr b stop [digit n] = Some b'" "kept out b b'" "holds b' out (M @ [digit n])"
      by (rule append_at [OF h _ at]) (use r in auto)
    then show ?thesis using 1 ascii_of_int [of e] n at d by (intro that) (simp_all add: FormatExp_digits_def)
  next
    case 2
    then have d: "decimal n = dec_fix 2 n" by (rule decimal_pair)
    have m: "nat (2 * e) = 2 * n" using n by simp
    obtain b' where "wr b stop (dec_fix 2 n) = Some b'" "kept out b b'" "holds b' out (M @ dec_fix 2 n)"
      by (rule append_at [OF h _ at]) (use r in auto)
    then show ?thesis using 2 Copy2Digs_wr [OF 2(2)] m n at d by (intro that) (simp_all add: FormatExp_digits_def)
  next
    case 3
    have v: "n div 10 < 100" using e n by simp
    have "10 ^ 2 \<le> n" "n < 10 ^ Suc 2" using 3 e n by simp_all
    from decimal_fix [OF this] have d: "decimal n = dec_fix 2 (n div 10) @ [digit (n mod 10)]" by (simp only: dec_fix.simps)
    have m: "nat (2 * (e div 10)) = 2 * (n div 10)" using n by (simp add: nat_mult_distrib nat_div_distrib)
    obtain b1 where b1: "wr b stop (dec_fix 2 (n div 10)) = Some b1" "kept out b b1" "holds b1 out (M @ dec_fix 2 (n div 10))"
      by (rule append_at [OF h _ at]) (use r in auto)
    obtain b2 where b2: "wr b1 (stop + 2) [digit (n mod 10)] = Some b2" "kept out b1 b2" "holds b2 out ((M @ dec_fix 2 (n div 10)) @ [digit (n mod 10)])"
      by (rule append_at [OF b1(3), of _ "stop + 2"]) (use r at kept_length [OF b1(2)] in auto)
    have a: "0x30 + word_of_int (e mod 10) = digit (n mod 10)" using ascii_of_int [of "e mod 10"] n by (simp add: nat_mod_distrib)
    have "FormatExp_digits e b stop = Some (b2, stop + 3)"
      using 3 n b1(1) b2(1) a unfolding FormatExp_digits_def Let_def m Copy2Digs_wr [OF v] by simp
    then show ?thesis using b2 kept_trans [OF b1(2) b2(2)] at n d by (intro that) simp_all
  qed
qed

end
