(* ===== verification/Sonic_FtoaProps.thy ===== *)
theory Sonic_FtoaProps
  imports Sonic_FtoaDigits
begin

text \<open>
  The output formats of \<open>ftoa.h\<close> as texts, and the proof that the writer puts exactly these texts
  inside the bytes reserved for it, for every finite double.
\<close>

subsection \<open>The texts\<close>

text \<open>
  The notation of a positive number from its digits without trailing zeros: with an exponent, and
  with the point behind the first \<open>point\<close> digits.
\<close>

definition sci_text :: "bool \<Rightarrow> bytes \<Rightarrow> int \<Rightarrow> bytes" where
  "sci_text java S e = hd S # (if 1 < length S then 0x2E # tl S else if java then [0x2E, 0x30] else [])
     @ [if java then 0x45 else 0x65] @ (if e < 0 then [0x2D] else if java then [] else [0x2B]) @ decimal (nat \<bar>e\<bar>)"

definition point_text :: "bytes \<Rightarrow> int \<Rightarrow> bytes" where
  "point_text S point =
     (if point \<le> 0 then [0x30, 0x2E] @ replicate (nat (- point)) 0x30 @ S
      else if nat point < length S then take (nat point) S @ [0x2E] @ drop (nat point) S
      else S @ replicate (nat point - length S) 0x30 @ [0x2E, 0x30])"

definition float_text :: "bool \<Rightarrow> nat \<Rightarrow> int \<Rightarrow> bytes" where
  "float_text java n e = (let S = trimmed (decimal n); point = int (length (decimal n)) + e; sci = point - 1 in
     if (if java then \<not> (- 3 \<le> sci \<and> sci < 7) else sci < - 6 \<or> 20 < sci) then sci_text java S sci
     else point_text S point)"

subsection \<open>The formats\<close>

lemma kept_holds: "kept a b c \<Longrightarrow> holds b x xs \<Longrightarrow> x + length xs \<le> a \<Longrightarrow> holds c x xs"
proof -
  assume k: "kept a b c" and h: "holds b x xs" and l: "x + length xs \<le> a"
  have "take (x + length xs) c = take (x + length xs) (take a c)" using l by (simp add: min_absorb1)
  also have "\<dots> = take (x + length xs) (take a b)" using k by (simp add: kept_def)
  also have "\<dots> = take (x + length xs) b" using l by (simp add: min_absorb1)
  finally have "drop x (take (x + length xs) c) = drop x (take (x + length xs) b)" by simp
  then show ?thesis using h k by (simp add: holds_def kept_def drop_take)
qed

definition mantissa :: "bool \<Rightarrow> bytes \<Rightarrow> bytes" where
  "mantissa java S = hd S # (if 1 < length S then 0x2E # tl S else if java then [0x2E, 0x30] else [])
     @ [if java then 0x45 else 0x65]"

text \<open>The part of \<open>FormatExponent\<close> that places the point and the exponent letter.\<close>

definition point_stage :: "u32 \<Rightarrow> bytes \<Rightarrow> nat \<Rightarrow> nat \<Rightarrow> (bytes \<times> nat) option" where
  "point_stage fl buf p stop = (if Java fl then do {
          buf \<leftarrow> wr buf p [0x2E];
          (buf, stop) \<leftarrow> (if stop - p \<le> 1 then map_option (\<lambda>buf. (buf, p + 2)) (wr buf (p + 1) [0x30])
            else Some (buf, stop));
          buf \<leftarrow> wr buf stop [0x45];
          Some (buf, stop + 1)
        } else do {
          (buf, stop) \<leftarrow> (if 1 < stop - p then map_option (\<lambda>buf. (buf, stop)) (wr buf p [0x2E])
            else Some (buf, stop - 1));
          buf \<leftarrow> wr buf stop [0x65];
          Some (buf, stop + 1)
        })"

lemma point_stage_ok:
  assumes d: "holds b out [hd S]" and h: "holds b (out + 1) S" and ne: "S \<noteq> []" and r: "out + length S + 4 \<le> length b"
  obtains b' where "point_stage fl b (out + 1) (out + 1 + length S) = Some (b', out + length (mantissa (Java fl) S))"
    "kept out b b'" "holds b' out (mantissa (Java fl) S)"
proof -
  obtain x T where S: "S = x # T" using ne by (cases S) auto
  have hT: "holds b (out + 1 + 1) T" using h holds_append [of b "out + 1" "[x]" T] S by simp
  have "out + 1 + length [0x2E :: u8] \<le> length b" using r by simp
  then obtain b1 where b1: "wr b (out + 1) [0x2E] = Some b1" by (auto simp: wr_def)
  have l1: "length b1 = length b" by (rule wr_length [OF b1])
  have k1: "kept out b b1" by (rule kept_le [OF wr_holds(1) [OF b1]]) simp
  have m1: "holds b1 out [x, 0x2E]"
    using wr_holds(2) [OF b1] wr_holds(4) [OF b1, of out "[x]"] d S holds_append [of b1 out "[x]" "[0x2E]"] by simp
  have m1T: "holds b1 out ([x, 0x2E] @ T)"
    using m1 wr_holds(3) [OF b1 _ hT] holds_append [of b1 out "[x, 0x2E]" T] by simp
  show thesis
  proof (cases "T = []")
    case False
    obtain b2 where b2: "wr b1 (out + length ([x, 0x2E] @ T)) [if Java fl then 0x45 else 0x65] = Some b2" "kept out b1 b2"
      "holds b2 out (([x, 0x2E] @ T) @ [if Java fl then 0x45 else 0x65])"
      by (rule append_at [OF m1T _ refl]) (use r l1 S in auto)
    have "point_stage fl b (out + 1) (out + 1 + length S) = Some (b2, out + 1 + length S + 1)"
      using b1 b2(1) False S by (cases "Java fl") (simp_all add: point_stage_def)
    then show ?thesis using b2 kept_trans [OF k1 b2(2)] False S by (intro that [of b2]) (simp_all add: mantissa_def)
  next
    case nil: True
    show ?thesis
    proof (cases "Java fl")
      case True
      obtain b2 where b2: "wr b1 (out + length [x, 0x2E]) [0x30] = Some b2" "kept out b1 b2" "holds b2 out ([x, 0x2E] @ [0x30])"
        by (rule append_at [OF m1 _ refl]) (use r l1 S in auto)
      obtain b3 where b3: "wr b2 (out + length ([x, 0x2E] @ [0x30])) [0x45] = Some b3" "kept out b2 b3" "holds b3 out (([x, 0x2E] @ [0x30]) @ [0x45])"
        by (rule append_at [OF b2(3) _ refl]) (use r l1 S kept_length [OF b2(2)] in auto)
      have "point_stage fl b (out + 1) (out + 1 + length S) = Some (b3, out + 4)"
        using b1 b2(1) b3(1) nil True S by (simp add: point_stage_def eval_nat_numeral)
      then show ?thesis using b3 kept_trans [OF kept_trans [OF k1 b2(2)] b3(2)] nil True S
        by (intro that [of b3]) (simp_all add: mantissa_def)
    next
      case False
      have d': "holds b out [x]" using d S by simp
      obtain b2 where b2: "wr b (out + length [x]) [0x65] = Some b2" "kept out b b2" "holds b2 out ([x] @ [0x65])"
        by (rule append_at [OF d' _ refl]) (use r S in auto)
      have "point_stage fl b (out + 1) (out + 1 + length S) = Some (b2, out + 2)"
        using b2(1) nil False S by (simp add: point_stage_def)
      then show ?thesis using b2 nil False S by (intro that [of b2]) (simp_all add: mantissa_def)
    qed
  qed
qed

lemma FormatExponent_ok:
  assumes s: "0 < unat (fd_sig v)" "unat (fd_sig v) < 100000000000000000" and c: "cnt = length (decimal (unat (fd_sig v)))"
    and e: "e = fd_exp v + int cnt - 1" "\<bar>e\<bar> < 1000" and h: "out + cnt + 10 \<le> length buf"
  obtains b where "FormatExponent fl v buf out cnt = Some (b, out + length (sci_text (Java fl) (trimmed (decimal (unat (fd_sig v)))) e))"
    "kept out buf b" "holds b out (sci_text (Java fl) (trimmed (decimal (unat (fd_sig v)))) e)"
proof -
  define S where "S = trimmed (decimal (unat (fd_sig v)))"
  have ne: "S \<noteq> []" unfolding S_def by (rule trimmed_decimal [OF s(1)])
  have lS: "length S \<le> cnt" unfolding S_def c by (rule trimmed_length)
  have "out + 1 + cnt \<le> length buf" using h by simp
  from Significand_trimmed [OF s c this] obtain b1 e1 where F: "FormatSignificand (fd_sig v) buf (out + 1) cnt = Some (b1, e1)"
    "trim_end b1 e1 = Some (out + 1 + length S)" "kept (out + 1) buf b1" "holds b1 (out + 1) S"
    unfolding S_def [symmetric] by blast
  have l1: "length b1 = length buf" by (rule kept_length [OF F(3)])
  have rd: "rd b1 (out + 1) = Some (hd S)" using holds_nth [OF F(4), of 0] ne by (simp add: hd_conv_nth)
  have "out + length [hd S] \<le> length b1" using h l1 by simp
  then obtain b2 where b2: "wr b1 out [hd S] = Some b2" by (auto simp: wr_def)
  have l2: "length b2 = length buf" using wr_length [OF b2] l1 by simp
  have h2: "holds b2 out [hd S]" "holds b2 (out + 1) S" using wr_holds(2) [OF b2] wr_holds(3) [OF b2 _ F(4)] by simp_all
  obtain b3 where P: "point_stage fl b2 (out + 1) (out + 1 + length S) = Some (b3, out + length (mantissa (Java fl) S))"
    "kept out b2 b3" "holds b3 out (mantissa (Java fl) S)"
    by (rule point_stage_ok [OF h2 ne]) (use h l2 lS in simp_all)
  have lm: "length (mantissa (Java fl) S) \<le> cnt + 3" using ne lS by (cases S) (auto simp: mantissa_def)
  have l3: "length b3 = length buf" using kept_length [OF P(2)] l2 by simp
  define sg :: bytes where "sg = (if e < 0 then [0x2D] else if Java fl then [] else [0x2B])"
  obtain b4 where b4: "wr b3 (out + length (mantissa (Java fl) S)) sg = Some b4" "kept out b3 b4" "holds b4 out (mantissa (Java fl) S @ sg)"
    by (rule append_at [OF P(3) _ refl]) (use h l3 lm in \<open>auto simp: sg_def\<close>)
  have l4: "length b4 = length buf" using kept_length [OF b4(2)] l3 by simp
  have ls: "length sg \<le> 1" by (simp add: sg_def)
  have e0: "0 \<le> \<bar>e\<bar>" by simp
  obtain b5 where b5: "FormatExp_digits \<bar>e\<bar> b4 (out + length (mantissa (Java fl) S @ sg)) = Some (b5, out + length ((mantissa (Java fl) S @ sg) @ decimal (nat \<bar>e\<bar>)))"
    "kept out b4 b5" "holds b5 out ((mantissa (Java fl) S @ sg) @ decimal (nat \<bar>e\<bar>))"
    by (rule FormatExp_digits_ok [OF e0 e(2) b4(3) _ refl]) (use h l4 lm ls in simp_all)
  have w0: "wr b3 (out + length (mantissa (Java fl) S)) [] = Some b3"
    using holds_len [OF P(3)] by (simp add: wr_def)
  have sgs: "(if e < 0 then map_option (\<lambda>buf. (buf, p + 1)) (wr b3 p [0x2D])
        else if \<not> Java fl then map_option (\<lambda>buf. (buf, p + 1)) (wr b3 p [0x2B]) else Some (b3, p)) = Some (b4, p + length sg)"
    if "p = out + length (mantissa (Java fl) S)" for p
    using b4(1) w0 that by (auto simp: sg_def split: if_splits)
  have "FormatExponent fl v buf out cnt = Some (b5, out + length ((mantissa (Java fl) S @ sg) @ decimal (nat \<bar>e\<bar>)))"
    unfolding FormatExponent_def Let_def point_stage_def [symmetric]
    using F(1,2) rd b2 P(1) sgs [OF refl] b5(1) e(1) by (simp add: add.assoc)
  moreover have "sci_text (Java fl) S e = (mantissa (Java fl) S @ sg) @ decimal (nat \<bar>e\<bar>)" by (simp add: sci_text_def mantissa_def sg_def)
  moreover have "kept out buf b5"
    using kept_trans [OF kept_trans [OF kept_trans [OF kept_trans [OF kept_le [OF F(3)] wr_holds(1) [OF b2]] P(2)] b4(2)] b5(2)] by simp
  ultimately show thesis using b5(3) by (intro that [of b5, folded S_def]) simp_all
qed

text \<open>Zeros behind the digits, and the point and a zero.\<close>

lemma zeros_point:
  assumes h: "holds b out M" and r: "out + length M + nz + 2 \<le> length b" and stop: "stop = out + length M"
  obtains b1 b2 where "wr b stop (replicate (nz + 2) 0x30) = Some b1" "wr b1 (stop + nz) [0x2E] = Some b2"
    "kept out b b2" "holds b2 out (M @ replicate nz 0x30 @ [0x2E, 0x30])"
proof -
  have r': "out + length M + length (replicate (nz + 2) (0x30 :: u8)) \<le> length b" using r by (simp only: length_replicate)
  obtain b1 where b1: "wr b stop (replicate (nz + 2) 0x30) = Some b1" "kept out b b1" "holds b1 out (M @ replicate (nz + 2) 0x30)"
    by (rule append_at [OF h r' stop])
  have "replicate (nz + 2) (0x30 :: u8) = replicate nz 0x30 @ [0x30] @ [0x30]"
    by (simp only: replicate_add) (simp add: numeral_2_eq_2)
  with b1(3) have "holds b1 out ((M @ replicate nz 0x30) @ [0x30] @ [0x30])" by (simp only: append.assoc)
  then have s: "holds b1 out (M @ replicate nz 0x30)" "holds b1 (out + length (M @ replicate nz 0x30) + 1) [0x30]"
    unfolding holds_append [of _ _ "M @ replicate nz 0x30" "[0x30] @ [0x30]"] holds_append [of _ _ "[0x30]" "[0x30]"] by simp_all
  have "stop + nz + length [0x2E :: u8] \<le> length b1" using r stop kept_length [OF b1(2)] by simp
  then obtain b2 where b2: "wr b1 (stop + nz) [0x2E] = Some b2" by (auto simp: wr_def)
  have at: "stop + nz = out + length (M @ replicate nz 0x30)" using stop by simp
  have "holds b2 out (M @ replicate nz 0x30)" by (rule wr_holds(4) [OF b2 _ s(1)]) (simp add: at)
  moreover have "holds b2 (out + length (M @ replicate nz 0x30)) [0x2E]" using wr_holds(2) [OF b2] unfolding at .
  moreover have "holds b2 (out + length (M @ replicate nz 0x30) + 1) [0x30]" by (rule wr_holds(3) [OF b2 _ s(2)]) (simp add: at)
  ultimately have "holds b2 out (M @ replicate nz 0x30 @ [0x2E] @ [0x30])"
    using holds_append [of b2 "out + length (M @ replicate nz 0x30)" "[0x2E]" "[0x30]"] by (simp add: holds_append add.assoc)
  moreover have "kept out b b2" by (rule kept_trans [OF b1(2) kept_le [OF wr_holds(1) [OF b2]]]) (simp add: stop)
  ultimately show thesis using b1(1) b2 by (intro that) simp_all
qed

lemma FormatDecimal_ok:
  assumes s: "0 < unat (fd_sig v)" "unat (fd_sig v) < 100000000000000000" and c: "cnt = length (decimal (unat (fd_sig v)))" "cnt \<le> 17"
    and e: "point = int cnt + fd_exp v" "- 6 \<le> point" "point \<le> 21" and h: "out + 25 \<le> length buf"
  obtains b where "FormatDecimal v buf out cnt = Some (b, out + length (point_text (trimmed (decimal (unat (fd_sig v)))) point))"
    "kept out buf b" "holds b out (point_text (trimmed (decimal (unat (fd_sig v)))) point)"
proof -
  define S where "S = trimmed (decimal (unat (fd_sig v)))"
  have lS: "length S \<le> cnt" unfolding S_def c by (rule trimmed_length)
  show thesis
  proof (cases "point \<le> 0")
    case True
    define nz where "nz = nat (- point)"
    have nz: "nz \<le> 6" using e by (simp add: nz_def)
    have h0: "holds buf out []" using h by simp
    have r1: "out + length ([] :: bytes) + length [0x30, 0x2E :: u8] \<le> length buf" using h by simp
    obtain b1 where b1: "wr buf out [0x30, 0x2E] = Some b1" "kept out buf b1" "holds b1 out ([] @ [0x30, 0x2E])"
      by (rule append_at [OF h0 r1]) simp_all
    have r2: "out + length ([] @ [0x30, 0x2E :: u8]) + length (replicate nz (0x30 :: u8)) \<le> length b1"
      using h nz kept_length [OF b1(2)] by simp
    obtain b2 where b2: "wr b1 (out + 2) (replicate nz 0x30) = Some b2" "kept out b1 b2" "holds b2 out (([] @ [0x30, 0x2E]) @ replicate nz 0x30)"
      by (rule append_at [OF b1(3) r2, of "out + 2"]) simp_all
    have l2: "length b2 = length buf" using kept_length [OF b2(2)] kept_length [OF b1(2)] by simp
    have "out + 2 + nz + cnt \<le> length b2" using h l2 nz c(2) by simp
    from Significand_trimmed [OF s c(1) this] obtain b3 e3 where F: "FormatSignificand (fd_sig v) b2 (out + 2 + nz) cnt = Some (b3, e3)"
      "trim_end b3 e3 = Some (out + 2 + nz + length S)" "kept (out + 2 + nz) b2 b3" "holds b3 (out + 2 + nz) S"
      unfolding S_def [symmetric] by blast
    have "holds b3 out ([0x30, 0x2E] @ replicate nz 0x30)" by (rule kept_holds [OF F(3)]) (use b2(3) in simp_all)
    then have "holds b3 out (([0x30, 0x2E] @ replicate nz 0x30) @ S)" using F(4) by (subst holds_append) simp
    moreover have "point_text S point = ([0x30, 0x2E] @ replicate nz 0x30) @ S" using True by (simp add: point_text_def nz_def)
    moreover have "FormatDecimal v buf out cnt = Some (b3, out + 2 + nz + length S)"
      using b1(1) b2(1) F(1,2) True e(1) by (simp add: FormatDecimal_def Let_def nz_def)
    moreover have "kept out buf b3" using kept_trans [OF kept_trans [OF b1(2) b2(2)] kept_le [OF F(3)]] by simp
    ultimately show ?thesis by (intro that [of b3, folded S_def]) simp_all
  next
    case False
    define pt where "pt = nat point"
    have pt: "pt \<le> 21" "0 < pt" "int pt = point" using e False by (simp_all add: pt_def)
    have "out + cnt \<le> length buf" using h c(2) by simp
    from Significand_trimmed [OF s c(1) this] obtain b1 e1 where F: "FormatSignificand (fd_sig v) buf out cnt = Some (b1, e1)"
      "trim_end b1 e1 = Some (out + length S)" "kept out buf b1" "holds b1 out S"
      unfolding S_def [symmetric] by blast
    have l1: "length b1 = length buf" by (rule kept_length [OF F(3)])
    show ?thesis
    proof (cases "pt < length S")
      case True
      have sp: "holds b1 out (take pt S)" "holds b1 (out + pt) (drop pt S)"
        using F(4) holds_append [of b1 out "take pt S" "drop pt S"] True by simp_all
      have rb: "rd_block b1 (out + pt) (length S - pt) = Some (drop pt S)"
        using sp(2) by (simp add: rd_block_def holds_def)
      have "out + pt + 1 + length (drop pt S) \<le> length b1" using h l1 lS c(2) True by simp
      then obtain b2 where b2: "wr b1 (out + pt + 1) (drop pt S) = Some b2" by (auto simp: wr_def)
      have l2: "length b2 = length buf" using wr_length [OF b2] l1 by simp
      have "out + pt + length [0x2E :: u8] \<le> length b2" using h l2 pt(1) by simp
      then obtain b3 where b3: "wr b2 (out + pt) [0x2E] = Some b3" by (auto simp: wr_def)
      have t2: "holds b2 out (take pt S)" by (rule wr_holds(4) [OF b2 _ sp(1)]) simp
      have t3: "holds b3 out (take pt S)" by (rule wr_holds(4) [OF b3 _ t2]) simp
      have d3: "holds b3 (out + pt + 1) (drop pt S)" by (rule wr_holds(3) [OF b3 _ wr_holds(2) [OF b2]]) simp
      have "holds b3 out (take pt S @ [0x2E] @ drop pt S)" using t3 d3 wr_holds(2) [OF b3] True holds_append [of b3 "out + pt" "[0x2E]" "drop pt S"] by (simp add: holds_append)
      moreover have "point_text S point = take pt S @ [0x2E] @ drop pt S" using False True by (simp add: point_text_def pt_def)
      moreover have "FormatDecimal v buf out cnt = Some (b3, out + length S + 1)"
        using False True F(1,2) rb b2 b3 e(1) by (simp add: FormatDecimal_def Let_def pt_def)
      moreover have "kept out buf b3"
        using kept_trans [OF kept_trans [OF F(3) kept_le [OF wr_holds(1) [OF b2]]] kept_le [OF wr_holds(1) [OF b3]]] by simp
      ultimately show ?thesis using True by (intro that [of b3, folded S_def]) simp_all
    next
      case ge: False
      define nz where "nz = pt - length S"
      have r: "out + length S + nz + 2 \<le> length b1" using h l1 ge pt(1) by (simp add: nz_def)
      obtain b2 b3 where z: "wr b1 (out + length S) (replicate (nz + 2) 0x30) = Some b2" "wr b2 (out + length S + nz) [0x2E] = Some b3"
        "kept out b1 b3" "holds b3 out (S @ replicate nz 0x30 @ [0x2E, 0x30])"
        by (rule zeros_point [OF F(4) r refl])
      have "FormatDecimal v buf out cnt = Some (b3, out + length S + nz + 2)"
        using False ge F(1,2) z(1,2) e(1) unfolding FormatDecimal_def Let_def by (simp add: pt_def nz_def)
      moreover have "point_text S point = S @ replicate nz 0x30 @ [0x2E, 0x30]" using False ge by (simp add: point_text_def pt_def nz_def)
      ultimately show ?thesis using z(4) kept_trans [OF F(3) z(3)] by (intro that [of b3, folded S_def]) simp_all
    qed
  qed
qed

lemma Ctz10_ok:
  assumes "0 < unat v" "unat v < 100000000000000000"
  shows "Ctz10 v = length (decimal (unat v))"
proof -
  have L: "length (decimal n) = Suc k" if "10 ^ k \<le> n" "n < 10 ^ Suc k" for n k
    using decimal_fix [OF that] by simp
  have L0: "length (decimal n) = 1" if "n < 10" for n using decimal_single [OF that] by simp
  show ?thesis
    using assms L0 [of "unat v"] L [of 1 "unat v"] L [of 2 "unat v"] L [of 3 "unat v"] L [of 4 "unat v"] L [of 5 "unat v"] L [of 6 "unat v"]
      L [of 7 "unat v"] L [of 8 "unat v"] L [of 9 "unat v"] L [of 10 "unat v"] L [of 11 "unat v"] L [of 12 "unat v"] L [of 13 "unat v"]
      L [of 14 "unat v"] L [of 15 "unat v"] L [of 16 "unat v"]
    by (simp add: Ctz10_def word_less_nat_alt word_le_nat_alt)
qed

lemma U64toa_holds:
  assumes "out + 24 \<le> length buf"
  obtains b where "U64toa v (buf, out) = Some (b, out + length (decimal (unat v)))" "kept out buf b" "holds b out (decimal (unat v))"
proof -
  obtain b o' where r: "U64toa v (buf, out) = Some (b, o')" "wrote (buf, out) (decimal (unat v)) (b, o')"
    using puts_U64toa [of v] assms unfolding puts_def by (metis surj_pair)
  then have o: "o' = out + length (decimal (unat v))" "length b = length buf" "take (out + length (decimal (unat v))) b = take out buf @ decimal (unat v)"
    by (auto simp: wrote_def)
  have ob: "out \<le> length buf" using assms by simp
  have "length (take (out + length (decimal (unat v))) b) = out + length (decimal (unat v))" unfolding o(3) using ob by simp
  then have lb: "out + length (decimal (unat v)) \<le> length b" by simp
  have "take out (take (out + length (decimal (unat v))) b) = take out (take out buf @ decimal (unat v))" by (simp only: o(3))
  then have "kept out buf b" using o(2) ob by (simp add: kept_def min_absorb1)
  moreover have "drop out (take (out + length (decimal (unat v))) b) = drop out (take out buf @ decimal (unat v))" by (simp only: o(3))
  then have "holds b out (decimal (unat v))" using lb ob by (simp add: holds_def drop_take)
  ultimately show thesis using r(1) o(1) by (intro that) simp_all
qed

subsection \<open>Finite doubles\<close>

lemma trimmed_pieces:
  assumes n: "0 < n"
  obtains z where "decimal n = trimmed (decimal n) @ replicate z 0x30" "length (decimal n) = length (trimmed (decimal n)) + z"
proof -
  obtain z where z: "decimal n = trimmed (decimal n) @ replicate z 0x30" using trimmed_split by blast
  have "length (decimal n) = length (trimmed (decimal n)) + z" using arg_cong [OF z, of length] by (simp only: length_append length_replicate)
  with z show thesis by (rule that)
qed

text \<open>A whole decimal with a point and a zero behind it.\<close>

lemma point_text_whole:
  assumes n: "0 < n"
  shows "decimal n @ replicate k 0x30 @ [0x2E, 0x30] = point_text (trimmed (decimal n)) (int (length (decimal n)) + int k)"
proof -
  obtain z where z: "decimal n = trimmed (decimal n) @ replicate z 0x30" "length (decimal n) = length (trimmed (decimal n)) + z"
    by (rule trimmed_pieces [OF n])
  have p: "\<not> int (length (decimal n)) + int k \<le> 0" by (simp add: not_le add_pos_nonneg)
  have m: "nat (int (length (decimal n)) + int k) = length (trimmed (decimal n)) + (z + k)" using z(2) by (simp add: nat_int_add)
  have "decimal n @ replicate k 0x30 @ [0x2E, 0x30] = trimmed (decimal n) @ replicate (z + k) 0x30 @ [0x2E, 0x30]"
    by (subst z(1)) (simp add: replicate_add)
  then show ?thesis using p unfolding point_text_def m by simp
qed

lemma F64toa_positive_ok:
  assumes d: "F64ToDecimal rsig rexp c q = Some dec" "0 < unat (fd_sig dec)" "unat (fd_sig dec) < 100000000000000000"
      "- 324 \<le> fd_exp dec" "fd_exp dec \<le> 293" and h: "p + 30 \<le> length buf"
  obtains b where "F64toa_positive fl rsig rexp c q buf p = Some (b, p + length (float_text (Java fl) (unat (fd_sig dec)) (fd_exp dec)))"
    "kept p buf b" "holds b p (float_text (Java fl) (unat (fd_sig dec)) (fd_exp dec))"
proof -
  define n where "n = unat (fd_sig dec)"
  define cnt where "cnt = length (decimal n)"
  define S where "S = trimmed (decimal n)"
  define sci where "sci = int cnt + fd_exp dec - 1"
  have C: "Ctz10 (fd_sig dec) = cnt" unfolding cnt_def n_def by (rule Ctz10_ok [OF d(2,3)])
  have "n < 10 ^ Suc 16" using d(3) by (simp add: n_def)
  then have c17: "cnt \<le> 17" using decimal_length_le [of n 16] by (simp add: cnt_def)
  have c1: "1 \<le> cnt" by (simp add: cnt_def Suc_leI)
  have cd: "cnt = length (decimal (unat (fd_sig dec)))" by (simp add: cnt_def n_def)
  define ef where "ef \<longleftrightarrow> (if Java fl then \<not> (- 3 \<le> sci \<and> sci < 7) else sci < - 6 \<or> 20 < sci)"
  have T: "float_text (Java fl) n (fd_exp dec) = (if ef then sci_text (Java fl) S sci else point_text S (sci + 1))"
    by (simp add: float_text_def Let_def ef_def sci_def S_def cnt_def)
  have e1: "(if Java fl then \<not> (- 3 \<le> int cnt - 1 + fd_exp dec \<and> int cnt - 1 + fd_exp dec < 7) else int cnt + fd_exp dec - 1 < - 6 \<or> 20 < int cnt + fd_exp dec - 1) = ef"
    by (simp add: ef_def sci_def algebra_simps)
  have F: "F64toa_positive fl rsig rexp c q buf p = (if ef then FormatExponent fl dec buf p cnt
      else if fd_exp dec < 0 then FormatDecimal dec buf p cnt
      else do {
        let dp = p + nat (int cnt + fd_exp dec);
        (buf, p) \<leftarrow> U64toa (fd_sig dec) (buf, p);
        let nzeros = dp - p;
        buf \<leftarrow> wr buf p (replicate (nzeros + 2) 0x30);
        buf \<leftarrow> wr buf dp [0x2E];
        Some (buf, dp + 2)
      })"
    unfolding e1 [symmetric] F64toa_positive_def d(1) Option.bind.simps Let_def C by (simp only: if_distrib [of "\<lambda>x. x < - 6 \<or> _"] if_cancel cong: if_cong) simp
  consider (exp) "ef" | (dec) "\<not> ef" "fd_exp dec < 0" | (whole) "\<not> ef" "0 \<le> fd_exp dec" by linarith
  then show thesis
  proof cases
    case exp
    have es: "sci = fd_exp dec + int cnt - 1" "\<bar>sci\<bar> < 1000" using d(4,5) c17 by (simp_all add: sci_def)
    have "p + cnt + 10 \<le> length buf" using h c17 by simp
    from FormatExponent_ok [OF d(2,3) cd es this] obtain b where
      "FormatExponent fl dec buf p cnt = Some (b, p + length (sci_text (Java fl) S sci))" "kept p buf b" "holds b p (sci_text (Java fl) S sci)"
      unfolding S_def n_def by blast
    then show ?thesis using exp F T unfolding n_def by (intro that) simp_all
  next
    case dec
    have pt: "sci + 1 = int cnt + fd_exp dec" "- 6 \<le> sci + 1" "sci + 1 \<le> 21" using dec(1) by (auto simp: sci_def ef_def split: if_splits)
    have "p + 25 \<le> length buf" using h by simp
    from FormatDecimal_ok [OF d(2,3) cd c17 pt this] obtain b where
      "FormatDecimal dec buf p cnt = Some (b, p + length (point_text S (sci + 1)))" "kept p buf b" "holds b p (point_text S (sci + 1))"
      unfolding S_def n_def by blast
    then show ?thesis using dec F T unfolding n_def by (intro that) simp_all
  next
    case whole
    define k where "k = nat (fd_exp dec)"
    have k: "int k = fd_exp dec" using whole(2) by (simp add: k_def)
    have pt: "sci + 1 = int cnt + int k" "cnt + k \<le> 21" using whole(1) k by (auto simp: sci_def ef_def split: if_splits)
    have "p + 24 \<le> length buf" using h by simp
    then obtain b1 where b1: "U64toa (fd_sig dec) (buf, p) = Some (b1, p + cnt)" "kept p buf b1" "holds b1 p (decimal n)"
      unfolding cd n_def by (rule U64toa_holds)
    have r: "p + length (decimal n) + k + 2 \<le> length b1" using h pt(2) kept_length [OF b1(2)] by (simp add: cnt_def)
    obtain b2 b3 where z: "wr b1 (p + cnt) (replicate (k + 2) 0x30) = Some b2" "wr b2 (p + cnt + k) [0x2E] = Some b3"
      "kept p b1 b3" "holds b3 p (decimal n @ replicate k 0x30 @ [0x2E, 0x30])"
      by (rule zeros_point [OF b1(3) r, of "p + cnt"]) (simp_all add: cnt_def)
    have m: "nat (int cnt + fd_exp dec) = cnt + k" using k by (simp add: nat_int_add flip: k)
    have w: "decimal n @ replicate k 0x30 @ [0x2E, 0x30] = point_text S (sci + 1)"
      unfolding pt(1) S_def cnt_def by (rule point_text_whole) (use d(2) n_def in simp)
    have "F64toa_positive fl rsig rexp c q buf p = Some (b3, p + (cnt + k) + 2)"
      using F whole b1(1) z(1,2) m by (simp add: Let_def add.assoc)
    moreover have "length (point_text S (sci + 1)) = cnt + k + 2" unfolding w [symmetric] by (simp add: cnt_def)
    moreover have "holds b3 p (point_text S (sci + 1))" using z(4) unfolding w .
    ultimately show ?thesis using kept_trans [OF b1(2) z(3)] whole T unfolding n_def by (intro that) simp_all
  qed
qed

text \<open>The fields of a double.\<close>

definition dbl_sig :: "u64 \<Rightarrow> u64" where "dbl_sig raw = raw AND 0x000FFFFFFFFFFFFF"
definition dbl_rexp :: "u64 \<Rightarrow> int" where "dbl_rexp raw = uint (drop_bit 52 (raw AND 0x7FF0000000000000))"
definition dbl_c :: "u64 \<Rightarrow> u64" where "dbl_c raw = (if dbl_rexp raw \<noteq> 0 then dbl_sig raw OR 0x0010000000000000 else dbl_sig raw)"
definition dbl_q :: "u64 \<Rightarrow> int" where "dbl_q raw = (if dbl_rexp raw \<noteq> 0 then dbl_rexp raw - 1023 - 52 else 1 - 1023 - 52)"

lemma dbl_masks: "(0x000FFFFFFFFFFFFF :: u64) = mask 52" "(0x7FF0000000000000 :: u64) = push_bit 52 (mask 11)"
    "(0x0010000000000000 :: u64) = push_bit 52 1"
  by (simp_all add: mask_eq_exp_minus_1)

lemma dbl_sig_less: "unat (dbl_sig raw) < 2 ^ 52"
proof -
  have "unat (dbl_sig raw) = unat raw mod 2 ^ 52" unfolding dbl_sig_def dbl_masks(1) by (rule unat_low_mask)
  then show ?thesis by simp
qed

lemma dbl_rexp_range: "0 \<le> dbl_rexp raw" "dbl_rexp raw \<le> 2047"
proof -
  have "drop_bit 52 (raw AND 0x7FF0000000000000) = drop_bit 52 raw AND mask 11"
    unfolding dbl_masks(2) by (rule bit_word_eqI) (auto simp: bit_simps)
  then have "unat (drop_bit 52 (raw AND 0x7FF0000000000000)) = unat (drop_bit 52 raw) mod 2 ^ 11" by (simp only: unat_low_mask)
  then have "unat (drop_bit 52 (raw AND 0x7FF0000000000000)) < 2048" by simp
  then have "int (unat (drop_bit 52 (raw AND 0x7FF0000000000000))) < 2048" by linarith
  then show "0 \<le> dbl_rexp raw" "dbl_rexp raw \<le> 2047" by (simp_all add: dbl_rexp_def)
qed

lemma dbl_c_value: "dbl_rexp raw \<noteq> 0 \<Longrightarrow> unat (dbl_c raw) = 2 ^ 52 + unat (dbl_sig raw)"
proof -
  assume r: "dbl_rexp raw \<noteq> 0"
  have e: "(0x0010000000000000 :: u64) = 2 ^ 52" by simp
  have "dbl_sig raw AND 0x0010000000000000 = 0" unfolding dbl_sig_def dbl_masks(1) e
    by (rule bit_word_eqI) (simp only: bit_and_iff bit_mask_iff bit_exp_iff bit_0_eq, auto)
  then have "dbl_sig raw OR 0x0010000000000000 = dbl_sig raw + 0x0010000000000000" by (rule disjunctive_add_eq_or [symmetric])
  moreover have "unat (dbl_sig raw + 0x0010000000000000) = unat (dbl_sig raw) + 0x0010000000000000"
    using dbl_sig_less [of raw] by (subst unat_plus_lt) simp_all
  ultimately show ?thesis using r by (simp add: dbl_c_def)
qed

lemma dbl_nonzero:
  assumes "push_bit 1 raw \<noteq> 0" and "dbl_rexp raw = 0"
  shows "dbl_sig raw \<noteq> 0"
proof
  assume s: "dbl_sig raw = 0"
  have r: "drop_bit 52 (raw AND push_bit 52 (mask 11)) = 0" using assms(2) unfolding dbl_rexp_def dbl_masks by (simp only: unsigned_eq_0_iff)
  have "\<not> bit raw n" if "n < 63" for n
  proof (cases "n < 52")
    case True
    then show ?thesis using arg_cong [OF s [unfolded dbl_sig_def dbl_masks], of "\<lambda>w. bit w n"] by (simp add: bit_simps)
  next
    case False
    then have "n - 52 < 11" "n < 64" using that by simp_all
    with False show ?thesis using arg_cong [OF r, of "\<lambda>w. bit w (n - 52)"] by (simp add: bit_simps)
  qed
  then have "push_bit 1 raw = 0" by (intro bit_word_eqI) (simp only: bit_push_bit_iff bit_0_eq, auto)
  then show False using assms(1) by simp
qed

text \<open>
  The decimal of a finite double other than zero: the integer itself on the fast path, and what the
  conversion finds otherwise.
\<close>

definition f64_whole :: "u32 \<Rightarrow> u64 \<Rightarrow> bool" where
  "f64_whole fl raw \<longleftrightarrow> dbl_rexp raw \<noteq> 0 \<and> \<not> Java fl \<and> dbl_q raw \<le> 0 \<and> - 52 \<le> dbl_q raw \<and> IsDivPow2 (dbl_c raw) (nat (- dbl_q raw))"

definition f64_decimal :: "u32 \<Rightarrow> u64 \<Rightarrow> (nat \<times> int) option" where
  "f64_decimal fl raw = (if f64_whole fl raw then Some (unat (dbl_c raw) div 2 ^ nat (- dbl_q raw), 0)
     else map_option (\<lambda>d. (unat (fd_sig d), fd_exp d)) (F64ToDecimal (dbl_sig raw) (dbl_rexp raw) (dbl_c raw) (dbl_q raw)))"

definition f64_sign :: "u64 \<Rightarrow> bytes" where
  "f64_sign raw = (if drop_bit 63 raw \<noteq> 0 then [0x2D] else [])"

definition f64_text :: "u32 \<Rightarrow> u64 \<Rightarrow> bytes" where
  "f64_text fl raw = f64_sign raw @ (if push_bit 1 raw = 0 then [0x30, 0x2E, 0x30]
     else case f64_decimal fl raw of None \<Rightarrow> [] | Some (n, e) \<Rightarrow> float_text (Java fl) n e)"

lemma F64toa_eq:
  "F64toa fl buf out raw =
     (if dbl_rexp raw = 0x7FF then Some (buf, 0)
      else do {
        buf \<leftarrow> wr buf out [0x2D];
        let p = out + of_bool (drop_bit 63 raw \<noteq> 0);
        (if push_bit 1 raw = 0 then do {
           buf \<leftarrow> wr buf p [0x30, 0x2E, 0x30];
           Some (buf, p + 3 - out)
         }
         else if f64_whole fl raw then do {
              (buf, p) \<leftarrow> U64toa (drop_bit (nat (- dbl_q raw)) (dbl_c raw)) (buf, p);
              buf \<leftarrow> wr buf p [0x2E, 0x30];
              Some (buf, p + 2 - out)
            }
         else map_option (\<lambda>(buf, stop). (buf, stop - out)) (F64toa_positive fl (dbl_sig raw) (dbl_rexp raw) (dbl_c raw) (dbl_q raw) buf p))
      })"
  unfolding F64toa_def Let_def dbl_sig_def [symmetric] dbl_rexp_def [symmetric] f64_whole_def dbl_c_def dbl_q_def by simp

lemma dbl_decimal:
  assumes f: "dbl_rexp raw \<noteq> 0x7FF" and nz: "push_bit 1 raw \<noteq> 0"
  obtains dec where "F64ToDecimal (dbl_sig raw) (dbl_rexp raw) (dbl_c raw) (dbl_q raw) = Some dec"
    "1 \<le> unat (fd_sig dec)" "unat (fd_sig dec) < 100000000000000000" "- 324 \<le> fd_exp dec" "fd_exp dec \<le> 293"
proof (rule F64ToDecimal_ok)
  note r = dbl_rexp_range [of raw] and s = dbl_sig_less [of raw] and c = dbl_c_value [of raw]
  have r': "dbl_rexp raw \<le> 2046" using r(2) f by linarith
  show "0 < unat (dbl_c raw)"
  proof (cases "dbl_rexp raw = 0")
    case True
    then show ?thesis using dbl_nonzero [OF nz] by (simp add: dbl_c_def unat_gt_0)
  qed (simp add: c)
  show "unat (dbl_c raw) < 2 ^ 53" using c s by (cases "dbl_rexp raw = 0") (simp_all add: dbl_c_def)
  show "- 1074 \<le> dbl_q raw" "dbl_q raw \<le> 971" using r r' by (simp_all add: dbl_q_def)
  show "unat (dbl_c raw) = 2 ^ 52" if "dbl_sig raw = 0 \<and> 1 < dbl_rexp raw" using that c by simp
qed (rule that)

lemma IsDivPow2_value: "IsDivPow2 v e \<longleftrightarrow> unat v mod 2 ^ e = 0" if "e \<le> 52"
proof -
  have "(push_bit e 1 - 1 :: u64) = mask e" by (simp add: mask_eq_exp_minus_1)
  then have "IsDivPow2 v e \<longleftrightarrow> v AND mask e = 0" by (simp add: IsDivPow2_def Let_def)
  also have "\<dots> \<longleftrightarrow> unat (v AND mask e) = 0" by (simp only: unat_eq_zero)
  finally show ?thesis by (simp only: unat_low_mask)
qed

lemma float_text_whole:
  assumes "0 < n" and "n < 100000000000000000"
  shows "float_text False n 0 = decimal n @ [0x2E, 0x30]"
proof -
  have "n < 10 ^ Suc 16" using assms(2) by simp
  then have "length (decimal n) \<le> 17" using decimal_length_le [of n 16] by simp
  moreover have "1 \<le> length (decimal n)" by (simp add: Suc_leI)
  ultimately have "float_text False n 0 = point_text (trimmed (decimal n)) (int (length (decimal n)) + int 0)"
    by (simp add: float_text_def Let_def)
  also have "\<dots> = decimal n @ replicate 0 0x30 @ [0x2E, 0x30]" by (rule point_text_whole [OF assms(1), symmetric])
  finally show ?thesis by simp
qed

lemma f64_decimal_ok:
  assumes f: "dbl_rexp raw \<noteq> 0x7FF" and nz: "push_bit 1 raw \<noteq> 0"
  obtains n e where "f64_decimal fl raw = Some (n, e)" "0 < n" "n < 100000000000000000"
proof (cases "f64_whole fl raw")
  case True
  then have q: "dbl_rexp raw \<noteq> 0" "dbl_q raw \<le> 0" "- 52 \<le> dbl_q raw" by (simp_all add: f64_whole_def)
  have c: "2 ^ 52 \<le> unat (dbl_c raw)" "unat (dbl_c raw) < 2 ^ 53" using dbl_c_value [OF q(1)] dbl_sig_less [of raw] by simp_all
  have "(2::nat) ^ nat (- dbl_q raw) \<le> 2 ^ 52" using q(3) by (intro power_increasing) simp_all
  then have "0 < unat (dbl_c raw) div 2 ^ nat (- dbl_q raw)" using c(1) by (simp add: div_greater_zero_iff)
  moreover have "unat (dbl_c raw) div 2 ^ nat (- dbl_q raw) < 100000000000000000" 
    using c(2) by (intro le_less_trans [OF div_le_dividend]) simp
  ultimately show ?thesis using True by (intro that) (simp_all add: f64_decimal_def)
next
  case False
  obtain d where "F64ToDecimal (dbl_sig raw) (dbl_rexp raw) (dbl_c raw) (dbl_q raw) = Some d"
    "1 \<le> unat (fd_sig d)" "unat (fd_sig d) < 100000000000000000" "- 324 \<le> fd_exp d" "fd_exp d \<le> 293"
    by (rule dbl_decimal [OF f nz])
  then show ?thesis using False by (intro that [of "unat (fd_sig d)" "fd_exp d"]) (simp_all add: f64_decimal_def)
qed

lemma F64toa_finite:
  assumes f: "dbl_rexp raw \<noteq> 0x7FF" and h: "out + 32 \<le> length buf"
  obtains (res) b where "F64toa fl buf out raw = Some (b, length (f64_text fl raw))" "kept out buf b" "holds b out (f64_text fl raw)"
proof -
  define sg where "sg = f64_sign raw"
  have ls: "length sg = of_bool (drop_bit 63 raw \<noteq> 0)" by (simp add: sg_def f64_sign_def)
  have "out + length [0x2D :: u8] \<le> length buf" using h by simp
  then obtain b1 where b1: "wr buf out [0x2D] = Some b1" by (auto simp: wr_def)
  have k1: "kept out buf b1" by (rule wr_holds(1) [OF b1])
  have l1: "length b1 = length buf" by (rule kept_length [OF k1])
  have s1: "holds b1 out sg" using wr_holds(2) [OF b1] h l1 by (simp add: sg_def f64_sign_def)
  have p: "out + of_bool (drop_bit 63 raw \<noteq> 0) = out + length sg" using ls by simp
  have "length sg \<le> 1" using ls by simp
  have fin: thesis if w: "F64toa fl buf out raw = Some (b, length sg + length T)" "kept (out + length sg) b1 b" "holds b (out + length sg) T"
      "f64_text fl raw = sg @ T" for b T
  proof -
    have "holds b out (sg @ T)" using kept_holds [OF w(2) s1] w(3) by (simp add: holds_append)
    then show thesis using w(1,4) kept_trans [OF k1 kept_le [OF w(2)]] by (intro res [of b]) simp_all
  qed
  show thesis
  proof (cases "push_bit 1 raw = 0")
    case True
    have "out + length sg + length [0x30, 0x2E, 0x30 :: u8] \<le> length b1" using h l1 \<open>length sg \<le> 1\<close> by simp
    then obtain b2 where b2: "wr b1 (out + length sg) [0x30, 0x2E, 0x30] = Some b2" by (auto simp: wr_def)
    have "F64toa fl buf out raw = Some (b2, length sg + length [0x30, 0x2E, 0x30 :: u8])"
      using b1 b2 True f unfolding F64toa_eq Let_def p by simp
    moreover have "f64_text fl raw = sg @ [0x30, 0x2E, 0x30]" using True by (simp add: f64_text_def sg_def)
    ultimately show ?thesis using wr_holds(1,2) [OF b2] by (intro fin)
  next
    case nz: False
    obtain n e where ne: "f64_decimal fl raw = Some (n, e)" "0 < n" "n < 100000000000000000" by (rule f64_decimal_ok [OF f nz])
    have T: "f64_text fl raw = sg @ float_text (Java fl) n e" using nz ne(1) by (simp add: f64_text_def sg_def)
    show ?thesis
    proof (cases "f64_whole fl raw")
      case True
      then have n: "n = unat (dbl_c raw) div 2 ^ nat (- dbl_q raw)" "e = 0" "\<not> Java fl" using ne(1) by (simp_all add: f64_decimal_def f64_whole_def)
      have u: "unat (drop_bit (nat (- dbl_q raw)) (dbl_c raw)) = n" unfolding n by (rule unat_shr)
      have "out + length sg + 24 \<le> length b1" using h l1 \<open>length sg \<le> 1\<close> by simp
      then obtain b2 where b2: "U64toa (drop_bit (nat (- dbl_q raw)) (dbl_c raw)) (b1, out + length sg) = Some (b2, out + length sg + length (decimal n))"
        "kept (out + length sg) b1 b2" "holds b2 (out + length sg) (decimal n)"
        using U64toa_holds [of "out + length sg" b1 "drop_bit (nat (- dbl_q raw)) (dbl_c raw)"] unfolding u by blast
      have "n < 10 ^ Suc 16" using ne(3) by simp
      then have "length (decimal n) \<le> 17" using decimal_length_le [of n 16] by simp
      then have r: "out + length sg + length (decimal n) + length [0x2E, 0x30 :: u8] \<le> length b2"
        using h l1 \<open>length sg \<le> 1\<close> kept_length [OF b2(2)] by simp
      obtain b3 where b3: "wr b2 (out + length sg + length (decimal n)) [0x2E, 0x30] = Some b3" "kept (out + length sg) b2 b3"
        "holds b3 (out + length sg) (decimal n @ [0x2E, 0x30])"
        by (rule append_at [OF b2(3) r refl])
      have ft: "float_text (Java fl) n e = decimal n @ [0x2E, 0x30]" using float_text_whole [OF ne(2,3)] n by simp
      have "F64toa fl buf out raw = Some (b3, length sg + length (decimal n @ [0x2E, 0x30 :: u8]))"
        using b1 b2(1) b3(1) True nz f unfolding F64toa_eq Let_def p by simp
      then show ?thesis using b3(3) kept_trans [OF b2(2) b3(2)] T unfolding ft by (intro fin)
    next
      case False
      obtain d where d: "F64ToDecimal (dbl_sig raw) (dbl_rexp raw) (dbl_c raw) (dbl_q raw) = Some d"
        "1 \<le> unat (fd_sig d)" "unat (fd_sig d) < 100000000000000000" "- 324 \<le> fd_exp d" "fd_exp d \<le> 293"
        by (rule dbl_decimal [OF f nz])
      have n: "n = unat (fd_sig d)" "e = fd_exp d" using ne(1) d(1) False by (simp_all add: f64_decimal_def)
      have "out + length sg + 30 \<le> length b1" using h l1 \<open>length sg \<le> 1\<close> by simp
      from F64toa_positive_ok [OF d(1) _ d(3-5) this, of fl] obtain b2 where
        b2: "F64toa_positive fl (dbl_sig raw) (dbl_rexp raw) (dbl_c raw) (dbl_q raw) b1 (out + length sg) = Some (b2, out + length sg + length (float_text (Java fl) n e))"
        "kept (out + length sg) b1 b2" "holds b2 (out + length sg) (float_text (Java fl) n e)"
        using d(2) unfolding n by auto
      have "F64toa fl buf out raw = Some (b2, length sg + length (float_text (Java fl) n e))"
        using b1 b2(1) False nz f unfolding F64toa_eq Let_def p by simp
      then show ?thesis using b2(2,3) T by (intro fin)
    qed
  qed
qed

subsection \<open>Length\<close>

lemma trimmed_decimal_length: "n < 100000000000000000 \<Longrightarrow> length (decimal n) \<le> 17 \<and> length (trimmed (decimal n)) \<le> length (decimal n)"
  using decimal_length_le [of n 16] trimmed_length [of "decimal n"] by simp

lemma float_text_length:
  assumes n: "0 < n" "n < 100000000000000000" and e: "- 324 \<le> e" "e \<le> 293"
  shows "length (float_text java n e) \<le> 24"
proof -
  define c where "c = length (decimal n)"
  define S where "S = trimmed (decimal n)"
  have c: "c \<le> 17" "1 \<le> c" "length S \<le> c" using trimmed_decimal_length [OF n(2)] by (simp_all add: c_def S_def Suc_leI)
  define sci where "sci = int c + e - 1"
  have x: "nat \<bar>sci\<bar> < 10 ^ Suc 2" using c e by (simp add: sci_def)
  have dl: "length (decimal (nat \<bar>sci\<bar>)) \<le> 3" using decimal_length_le [OF x] by simp
  have sl: "length (sci_text java S sci) \<le> 24" using c dl by (auto simp: sci_text_def)
  have pl: "length (point_text S (sci + 1)) \<le> 24" if "- 6 \<le> sci" "sci \<le> 20"
  proof -
    have "nat (- (sci + 1)) \<le> 5" "nat (sci + 1) \<le> 21" using that by simp_all
    then show ?thesis using c by (auto simp: point_text_def)
  qed
  have "float_text java n e = (if (if java then \<not> (- 3 \<le> sci \<and> sci < 7) else sci < - 6 \<or> 20 < sci) then sci_text java S sci else point_text S (sci + 1))"
    by (simp add: float_text_def Let_def sci_def c_def S_def)
  then show ?thesis using sl pl by (auto split: if_splits)
qed

lemma f64_text_length: "dbl_rexp raw \<noteq> 0x7FF \<Longrightarrow> length (f64_text fl raw) \<le> 25"
proof -
  assume f: "dbl_rexp raw \<noteq> 0x7FF"
  have s: "length (f64_sign raw) \<le> 1" by (simp add: f64_sign_def)
  show ?thesis
  proof (cases "push_bit 1 raw = 0")
    case True
    then show ?thesis using s by (simp add: f64_text_def)
  next
    case nz: False
    obtain n e where ne: "f64_decimal fl raw = Some (n, e)" "0 < n" "n < 100000000000000000" by (rule f64_decimal_ok [OF f nz])
    have "- 324 \<le> e \<and> e \<le> 293"
    proof (cases "f64_whole fl raw")
      case True
      then show ?thesis using ne(1) by (simp add: f64_decimal_def)
    next
      case False
      obtain d where "F64ToDecimal (dbl_sig raw) (dbl_rexp raw) (dbl_c raw) (dbl_q raw) = Some d"
        "1 \<le> unat (fd_sig d)" "unat (fd_sig d) < 100000000000000000" "- 324 \<le> fd_exp d" "fd_exp d \<le> 293"
        by (rule dbl_decimal [OF f nz])
      then show ?thesis using ne(1) False by (simp add: f64_decimal_def)
    qed
    then have "length (float_text (Java fl) n e) \<le> 24" by (intro float_text_length [OF ne(2,3)]) simp_all
    then show ?thesis using nz ne(1) s by (simp add: f64_text_def)
  qed
qed



end
