(* ===== verification/Sonic_Serialize.thy ===== *)
theory Sonic_Serialize
  imports Sonic_Stack Sonic_Quote Sonic_FtoaProps Sonic_Double Sonic_Node
begin

text \<open>
  The serializer: \<open>dom/serialize.h\<close>. The code walks the tree with jumps between the labels \<open>val_begin\<close>
  and \<open>scope_end\<close>, counting the values left in the current container, and keeps the outer containers on
  an explicit stack. A node pointer is the list of the nodes from the one it points to up to the end
  of its block of siblings, so that \<open>next()\<close> is the tail, and reading behind the end of the block is undefined.
  The stack of \<open>ParentCtx\<close> entries is a list. Counters keep their 32 bits.
\<close>

subsection \<open>State\<close>

type_synonym node_ptr = "dnode list"

record ParentCtx =
  pc_len :: u64
  pc_ptr :: node_ptr

record serializer =
  se_wb :: WriteBuffer
  se_stk :: "ParentCtx list"
  se_node :: node_ptr
  se_val_cnt :: u32
  se_member_cnt :: u32
  se_is_obj :: bool

datatype label = ValBegin | ScopeEnd

datatype ser_next = Goto label serializer | Return SonicError WriteBuffer

text \<open>The children of a container as they lie in its block: the names and values of an object alternate.\<close>

fun child_nodes :: "(dnode \<times> dnode) list \<Rightarrow> node_ptr" where
  "child_nodes [] = []"
| "child_nodes ((k, v) # ms) = k # v # child_nodes ms"

fun first_child :: "dnode \<Rightarrow> node_ptr" where
  "first_child (DObject m ms) = child_nodes ms"
| "first_child (DArray m es) = es"
| "first_child d = []"

definition bracket :: "u8 \<Rightarrow> bool \<Rightarrow> bytes" where
  "bracket c is_obj = [c OR push_bit 5 (of_bool is_obj)]"

subsection \<open>Scalars\<close>

text \<open>
  What the writer of strings sees behind a string in memory depends on where the string is; \<open>pg\<close> gives
  for the string written at an output position whether its tail is read within the page, and the bytes there.
\<close>

type_synonym page = "nat \<Rightarrow> bool \<times> bytes"

definition ser_quote :: "realloc \<Rightarrow> isa \<Rightarrow> page \<Rightarrow> u32 \<Rightarrow> bytes \<Rightarrow> WriteBuffer \<Rightarrow> WriteBuffer option" where
  "ser_quote ra i pg fl s wb =
     (let inc_len = length s * 6 + 32 + 3; wb = Stack_Grow ra inc_len wb;
          (in_page, after) = pg (st_top wb) in do {
        (buf, e) \<leftarrow> Quote_vec i fl in_page after s (st_buf wb) (st_top wb);
        let rn = e - st_top wb;
        Some (fst (Stack_PushSizeUnsafe rn (wb\<lparr>st_buf := buf\<rparr>)))
      })"

definition is_inf :: "u64 \<Rightarrow> bool" where "is_inf d \<longleftrightarrow> dbl_exp d = 2047 \<and> dbl_frac d = 0"
definition is_nan :: "u64 \<Rightarrow> bool" where "is_nan d \<longleftrightarrow> dbl_exp d = 2047 \<and> dbl_frac d \<noteq> 0"

text \<open>The names of the values that are no numbers, in quotes.\<close>

definition inf_nan_text :: "u64 \<Rightarrow> bytes option" where
  "inf_nan_text d =
     (if is_inf d then Some (if dbl_neg d then bytes_of ''\"-Infinity\"'' else bytes_of ''\"Infinity\"'')
      else if is_nan d then Some (if dbl_neg d then bytes_of ''\"-NaN\"'' else bytes_of ''\"NaN\"'')
      else None)"

definition kNumberSize :: nat where "kNumberSize = 33"

text \<open>A number up to the \<open>PushSizeUnsafe(rn)\<close>; \<open>Inl\<close> is the jump to \<open>inf_err\<close>.\<close>

definition ser_double :: "u32 \<Rightarrow> u64 \<Rightarrow> WriteBuffer \<Rightarrow> (WriteBuffer + WriteBuffer \<times> nat) option" where
  "ser_double fl d wb = do {
     (buf, rn) \<leftarrow> F64toa fl (st_buf wb) (st_top wb) d;
     let wb = wb\<lparr>st_buf := buf\<rparr>;
     (if rn = 0 then
        (if flags_and fl kSerializeInfNan then
           (case inf_nan_text d of
              Some s \<Rightarrow> map_option (\<lambda>buf. Inr (wb\<lparr>st_buf := buf\<rparr>, length s)) (wr (st_buf wb) (st_top wb) s)
            | None \<Rightarrow> Some (Inl wb))
         else Some (Inl wb))
      else Some (Inr (wb, rn)))
   }"

definition ser_int :: "(bytes \<times> nat \<Rightarrow> (bytes \<times> nat) option) \<Rightarrow> WriteBuffer \<Rightarrow> (WriteBuffer + WriteBuffer \<times> nat) option" where
  "ser_int f wb = map_option (\<lambda>(buf, e). Inr (wb\<lparr>st_buf := buf\<rparr>, e - st_top wb)) (f (st_buf wb, st_top wb))"

fun ser_number :: "realloc \<Rightarrow> u32 \<Rightarrow> dnode \<Rightarrow> WriteBuffer \<Rightarrow> (WriteBuffer + WriteBuffer \<times> nat) option" where
  "ser_number ra fl (DSint i) wb = ser_int (I64toa i) wb"
| "ser_number ra fl (DUint u) wb = ser_int (U64toa u) wb"
| "ser_number ra fl (DReal d) wb = ser_double fl d wb"
| "ser_number ra fl (DNumStr own s) wb =
     map_option (\<lambda>wb. Inr (wb, 0)) (Stack_PushUnsafe s (Stack_Grow ra (length s + 1) wb))"
| "ser_number ra fl d wb = Some (Inr (wb, 0))"

subsection \<open>The machine\<close>

text \<open>\<open>val_cnt--\<close> and the choice between the next sibling and the end of the container.\<close>

definition ser_after :: "serializer \<Rightarrow> ser_next" where
  "ser_after st = (let st = st\<lparr>se_val_cnt := se_val_cnt st - 1\<rparr> in
     if se_val_cnt st \<noteq> 0 then Goto ValBegin (st\<lparr>se_node := tl (se_node st)\<rparr>) else Goto ScopeEnd st)"

definition ser_push :: "bytes \<Rightarrow> serializer \<Rightarrow> serializer option" where
  "ser_push v st = map_option (\<lambda>wb. st\<lparr>se_wb := wb\<rparr>) (Stack_PushUnsafe v (se_wb st))"

definition ser_string :: "realloc \<Rightarrow> isa \<Rightarrow> page \<Rightarrow> u32 \<Rightarrow> bytes \<Rightarrow> serializer \<Rightarrow> ser_next option" where
  "ser_string ra i pg fl s st =
     (let is_key = (se_is_obj st \<and> \<not> odd (unat (se_val_cnt st))) in do {
        wb \<leftarrow> ser_quote ra i pg fl s (se_wb st);
        st \<leftarrow> ser_push (if is_key then [0x3A] else [0x2C]) (st\<lparr>se_wb := wb\<rparr>);
        Some (ser_after (st\<lparr>se_member_cnt := se_member_cnt st - of_bool is_key\<rparr>))
      })"

definition ser_container :: "realloc \<Rightarrow> dnode \<Rightarrow> serializer \<Rightarrow> ser_next option" where
  "ser_container ra d st =
     (let st = st\<lparr>se_wb := Stack_Grow ra 3 (se_wb st)\<rparr>; is_obj_nxt = dn_IsObject d;
          val_cnt_nxt = (word_of_nat (dn_Size d) :: u32) in
      if val_cnt_nxt = 0 then do {
        st \<leftarrow> ser_push (bracket 0x5B is_obj_nxt) st;
        st \<leftarrow> ser_push (bracket 0x5D is_obj_nxt) st;
        st \<leftarrow> ser_push [0x2C] st;
        Some (ser_after st)
      }
      else if se_is_obj st \<and> push_bit 1 (se_member_cnt st) + 1 \<noteq> se_val_cnt st
      then Some (Return kSerErrorInvalidObjKey (se_wb st))
      else do {
        let ctx = \<lparr>pc_len = ucast (push_bit 1 (se_val_cnt st) OR of_bool (se_is_obj st)), pc_ptr = se_node st\<rparr>;
        let st = st\<lparr>se_stk := ctx # se_stk st, se_val_cnt := push_bit (of_bool is_obj_nxt) val_cnt_nxt,
             se_member_cnt := val_cnt_nxt, se_is_obj := is_obj_nxt\<rparr>;
        st \<leftarrow> ser_push (bracket 0x5B is_obj_nxt) st;
        Some (Goto ValBegin (st\<lparr>se_node := first_child d\<rparr>))
      })"

definition ser_val_begin :: "realloc \<Rightarrow> isa \<Rightarrow> page \<Rightarrow> u32 \<Rightarrow> serializer \<Rightarrow> ser_next option" where
  "ser_val_begin ra i pg fl st = (case se_node st of
      [] \<Rightarrow> None
    | d # rest \<Rightarrow> (case d of
        DStr k s \<Rightarrow> ser_string ra i pg fl s st
      | DBool b \<Rightarrow> map_option (\<lambda>wb. ser_after (st\<lparr>se_wb := wb\<rparr>))
          (Stack_Push5_8 ra (if b then bytes_of ''true,   '' else bytes_of ''false,  '') (5 + of_bool (\<not> b)) (se_wb st))
      | DNull \<Rightarrow> map_option (\<lambda>wb. ser_after (st\<lparr>se_wb := wb\<rparr>)) (Stack_Push5_8 ra (bytes_of ''null,   '') 5 (se_wb st))
      | DObject m ms \<Rightarrow> ser_container ra d st
      | DArray m es \<Rightarrow> ser_container ra d st
      | DRaw own s \<Rightarrow> do {
          wb \<leftarrow> Stack_PushUnsafe s (Stack_Grow ra (length s + 1) (se_wb st));
          st \<leftarrow> ser_push [0x2C] (st\<lparr>se_wb := wb\<rparr>);
          Some (ser_after st)
        }
      | _ \<Rightarrow> do {
          r \<leftarrow> ser_number ra fl d (Stack_Grow ra kNumberSize (se_wb st));
          (case r of
             Inl wb \<Rightarrow> Some (Return kSerErrorInfinity wb)
           | Inr (wb, rn) \<Rightarrow> do {
               st \<leftarrow> ser_push [0x2C] (st\<lparr>se_wb := fst (Stack_PushSizeUnsafe rn wb)\<rparr>);
               Some (ser_after st)
             })
        }))"

definition ser_scope_end :: "realloc \<Rightarrow> bool \<Rightarrow> serializer \<Rightarrow> ser_next option" where
  "ser_scope_end ra is_single st = do {
     wb \<leftarrow> Stack_Pop 1 (se_wb st);
     (if se_member_cnt st \<noteq> 0 \<and> se_is_obj st then Some (Return kSerErrorInvalidObjKey wb)
      else do {
        st \<leftarrow> ser_push (bracket 0x5D (se_is_obj st)) (st\<lparr>se_wb := Stack_Grow ra 2 wb\<rparr>);
        st \<leftarrow> ser_push [0x2C] st;
        (case se_stk st of
           [] \<Rightarrow> map_option (Return kErrorNone) (Stack_Pop (1 + of_bool is_single) (se_wb st))
         | parent # stk \<Rightarrow>
             (let val_cnt = (ucast (drop_bit 1 (pc_len parent)) :: u32); is_obj = (pc_len parent AND 1 \<noteq> 0);
                  st = st\<lparr>se_member_cnt := drop_bit 1 (val_cnt - 1), se_val_cnt := val_cnt - 1, se_is_obj := is_obj,
                    se_node := tl (pc_ptr parent), se_stk := stk\<rparr> in
              Some (if 0 < se_val_cnt st then Goto ValBegin st else Goto ScopeEnd st)))
      })
   }"

definition ser_step :: "realloc \<Rightarrow> isa \<Rightarrow> page \<Rightarrow> u32 \<Rightarrow> bool \<Rightarrow> label \<Rightarrow> serializer \<Rightarrow> ser_next option" where
  "ser_step ra i pg fl is_single l st = (case l of
      ValBegin \<Rightarrow> ser_val_begin ra i pg fl st
    | ScopeEnd \<Rightarrow> ser_scope_end ra is_single st)"

partial_function (option) ser_run ::
  "realloc \<Rightarrow> isa \<Rightarrow> page \<Rightarrow> u32 \<Rightarrow> bool \<Rightarrow> ser_next option \<Rightarrow> (SonicError \<times> WriteBuffer) option" where
  "ser_run ra i pg fl is_single r = (case r of
      None \<Rightarrow> None
    | Some (Return e wb) \<Rightarrow> Some (e, wb)
    | Some (Goto l st) \<Rightarrow> ser_run ra i pg fl is_single (ser_step ra i pg fl is_single l st))"

declare ser_run.simps [code]

definition SerializeImpl :: "realloc \<Rightarrow> isa \<Rightarrow> page \<Rightarrow> u32 \<Rightarrow> dnode \<Rightarrow> WriteBuffer \<Rightarrow> (SonicError \<times> WriteBuffer) option" where
  "SerializeImpl ra i pg fl node wb =
     (let node_nums = (if dn_IsContainer node then dn_Size node else 1);
          estimate = node_nums * 18 + 64; is_obj = dn_IsObject node;
          wb = (if flags_and fl kSerializeAppendBuffer then Stack_Reserve ra (estimate + Stack_Size wb) wb
                else Stack_Reserve ra estimate (Stack_Clear wb));
          is_single = (\<not> dn_IsContainer node \<or> dn_Size node = 0);
          st = \<lparr>se_wb = wb, se_stk = [], se_node = [node], se_val_cnt = 1, se_member_cnt = 0, se_is_obj = is_obj\<rparr> in
      if is_single then ser_run ra i pg fl True (Some (Goto ValBegin st))
      else do {
        st \<leftarrow> ser_push (bracket 0x5B is_obj) st;
        ser_run ra i pg fl False (Some (Goto ValBegin (st\<lparr>se_val_cnt := word_of_nat (push_bit (of_bool is_obj) (dn_Size node)),
          se_member_cnt := word_of_nat (dn_Size node), se_node := first_child node\<rparr>)))
      })"

text \<open>\<open>Dump\<close>: the text, or nothing after an error.\<close>

definition Dump :: "realloc \<Rightarrow> isa \<Rightarrow> page \<Rightarrow> u32 \<Rightarrow> dnode \<Rightarrow> bytes option" where
  "Dump ra i pg fl node = do {
     (err, wb) \<leftarrow> SerializeImpl ra i pg fl node (WriteBuffer_new ra);
     (if err \<noteq> kErrorNone then Some [] else map_option snd (WriteBuffer_ToStringView ra wb))
   }"

end
