(* ===== verification/Sonic_SerializeText.thy ===== *)
theory Sonic_SerializeText
  imports Sonic_Serialize
begin

text \<open>
  The text the serializer is to write for a tree, given by a recursive printer; the pieces of the machine of
  \<^theory_text>\<open>Sonic_Serialize\<close> that write scalars, strings and numbers; and the statement of what one value's walk does.
\<close>

subsection \<open>The text of a tree\<close>

text \<open>The reference printer: \<^term>\<open>None\<close> when a double has no text under the flags.\<close>

definition double_text :: "u32 \<Rightarrow> u64 \<Rightarrow> bytes option" where
  "double_text fl d = (if dbl_rexp d \<noteq> 0x7FF then Some (f64_text fl d)
     else if flags_and fl kSerializeInfNan then inf_nan_text d else None)"

fun comma_sep :: "bytes list \<Rightarrow> bytes" where
  "comma_sep [] = []"
| "comma_sep [t] = t"
| "comma_sep (t # ts) = t @ 0x2C # comma_sep ts"

fun node_text :: "u32 \<Rightarrow> dnode \<Rightarrow> bytes option" where
  "node_text fl DNull = Some (bytes_of ''null'')"
| "node_text fl (DBool b) = Some (bytes_of (if b then ''true'' else ''false''))"
| "node_text fl (DUint u) = Some (decimal (unat u))"
| "node_text fl (DSint i) = Some (int_text (sint i))"
| "node_text fl (DReal d) = double_text fl d"
| "node_text fl (DNumStr own s) = Some s"
| "node_text fl (DStr k s) = Some (json_quoted fl s)"
| "node_text fl (DRaw own s) = Some s"
| "node_text fl (DArray m es) = map_option (\<lambda>ts. 0x5B # comma_sep ts @ [0x5D]) (those (map (node_text fl) es))"
| "node_text fl (DObject m ms) = map_option (\<lambda>ts. 0x7B # comma_sep ts @ [0x7D])
     (those (map (\<lambda>p. map_option (\<lambda>t. json_quoted fl (member_name p) @ 0x3A # t) (node_text fl (snd p))) ms))"

text \<open>The sizes the 32-bit counters can hold, and names that are strings.\<close>

fun ser_ok :: "dnode \<Rightarrow> bool" where
  "ser_ok (DArray m es) \<longleftrightarrow> length es < 2 ^ 31 \<and> (\<forall>e \<in> set es. ser_ok e)"
| "ser_ok (DObject m ms) \<longleftrightarrow> length ms < 2 ^ 30 \<and> (\<forall>p \<in> set ms. is_DStr (fst p) \<and> ser_ok (snd p))"
| "ser_ok d \<longleftrightarrow> True"

definition page_ok :: "isa \<Rightarrow> page \<Rightarrow> bool" where
  "page_ok i pg \<longleftrightarrow> (\<forall>n. fst (pg n) \<longrightarrow> VEC_LEN i \<le> length (snd (pg n)))"

definition items :: "bytes list \<Rightarrow> bytes" where
  "items ts = concat (map (\<lambda>t. t @ [0x2C]) ts)"

lemma items_simps [simp]: "items [] = []" "items (t # ts) = t @ 0x2C # items ts"
  by (simp_all add: items_def)

lemma items_comma: "ts \<noteq> [] \<Longrightarrow> items ts = comma_sep ts @ [0x2C]"
  by (induction ts rule: comma_sep.induct) simp_all

subsection \<open>Writing into the buffer\<close>

text \<open>A write at the top: the buffer's contents grow by a text.\<close>

definition wrote_to :: "WriteBuffer \<Rightarrow> bytes \<Rightarrow> WriteBuffer \<Rightarrow> bool" where
  "wrote_to wb t wb' \<longleftrightarrow> stack_ok wb' \<and> stack_contents wb' = stack_contents wb @ t"

lemma wrote_to_trans: "wrote_to a s b \<Longrightarrow> wrote_to b t c \<Longrightarrow> wrote_to a (s @ t) c"
  by (simp add: wrote_to_def)

lemma stack_top_contents: "stack_ok wb \<Longrightarrow> length (stack_contents wb) = st_top wb"
  by (simp add: stack_ok_def stack_contents_def)

text \<open>Bytes written at the top of the block, and the top moved over the first of them.\<close>

lemma wrote_block:
  assumes "stack_ok wb" and "length b = length (st_buf wb)" and "take (st_top wb + n) b = take (st_top wb) (st_buf wb) @ t"
    and "st_top wb + n \<le> st_cap wb" and "n = length t"
  shows "wrote_to wb t (wb\<lparr>st_buf := b, st_top := st_top wb + n\<rparr>)"
  using assms by (simp add: wrote_to_def stack_ok_def stack_contents_def)

lemma grow_room:
  assumes "realloc_ok ra" and "stack_ok wb"
  shows "stack_ok (Stack_Grow ra n wb)" "wrote_to wb [] (Stack_Grow ra n wb)"
    "st_top (Stack_Grow ra n wb) + n \<le> st_cap (Stack_Grow ra n wb)"
    "st_cap (Stack_Grow ra n wb) \<le> length (st_buf (Stack_Grow ra n wb))"
    "st_top (Stack_Grow ra n wb) = st_top wb"
  using Stack_Grow_ok [OF assms, of n] by (simp_all add: wrote_to_def stack_ok_def)

lemma push_room:
  assumes "stack_ok wb" and "st_top wb + length v \<le> st_cap wb"
  obtains wb' where "Stack_PushUnsafe v wb = Some wb'" "wrote_to wb v wb'" "st_cap wb' = st_cap wb" "st_top wb' = st_top wb + length v"
proof -
  obtain wb' where p: "Stack_PushUnsafe v wb = Some wb'" "stack_ok wb'" "st_cap wb' = st_cap wb" "stack_contents wb' = stack_contents wb @ v"
    using Stack_PushUnsafe_ok [OF assms] by blast
  then show thesis using stack_top_contents [OF p(2)] stack_top_contents [OF assms(1)]
    by (intro that) (simp_all add: wrote_to_def)
qed

lemma ser_push_ok:
  assumes "stack_ok (se_wb st)" and "st_top (se_wb st) + length v \<le> st_cap (se_wb st)"
  obtains wb where "ser_push v st = Some (st\<lparr>se_wb := wb\<rparr>)" "wrote_to (se_wb st) v wb" "st_cap wb = st_cap (se_wb st)"
    "st_top wb = st_top (se_wb st) + length v"
  using push_room [OF assms] by (metis option.simps(9) ser_push_def)

lemma ser_quote_ok:
  assumes ra: "realloc_ok ra" and wb: "stack_ok wb" and pg: "page_ok i pg"
  obtains wb' where "ser_quote ra i pg fl s wb = Some wb'" "wrote_to wb (json_quoted fl s) wb'" "st_top wb' + 1 \<le> st_cap wb'"
proof -
  let ?g = "Stack_Grow ra (length s * 6 + 32 + 3) wb"
  note g = grow_room [OF ra wb, of "length s * 6 + 32 + 3"]
  obtain ip af where P: "pg (st_top ?g) = (ip, af)" by force
  have vl: "VEC_LEN i \<le> 32" by (cases i) simp_all
  have r: "st_top ?g + 6 * length s + 2 + VEC_LEN i \<le> length (st_buf ?g)" using g(3,4) vl by linarith
  have pa: "VEC_LEN i \<le> length af" if ip using pg P that by (auto simp: page_ok_def dest: spec [of _ "st_top ?g"])
  let ?t = "json_quoted fl s"
  obtain b where b: "Quote_vec i fl ip af s (st_buf ?g) (st_top ?g) = Some (b, st_top ?g + length ?t)"
    "length b = length (st_buf ?g)" "take (st_top ?g + length ?t) b = take (st_top ?g) (st_buf ?g) @ ?t"
    using Quote_vec_ok [OF r, of ip af fl] pa by blast
  have lt: "length ?t \<le> 6 * length s + 2"
  proof -
    have "length (quoted fl s) \<le> 6 * length s"
    proof (induction fl s rule: quoted.induct)
      case (2 f c cs)
      then show ?case using quote_tab_entry [of c f] by (auto simp: min_def split: if_splits)
    qed simp
    then show ?thesis by (simp add: json_quoted_def)
  qed
  define w where "w = ?g\<lparr>st_buf := b, st_top := st_top ?g + length ?t\<rparr>"
  have r1: "st_top ?g + length ?t + 1 \<le> st_cap ?g" using g(3) lt by linarith
  then have "st_top ?g + length ?t \<le> st_cap ?g" by linarith
  from wrote_to_trans [OF g(2) wrote_block [OF g(1) b(2,3) this refl]] have "wrote_to wb ?t w" by (simp add: w_def)
  moreover have "ser_quote ra i pg fl s wb = Some w"
    using P b(1) by (simp add: ser_quote_def Let_def Stack_PushSizeUnsafe_def w_def)
  moreover have "st_top w + 1 \<le> st_cap w" using r1 by (simp add: w_def)
  ultimately show thesis by (intro that)
qed

subsection \<open>Numbers\<close>

text \<open>The contract of the number writers: the text stands at the top and the top is still to be moved over it.\<close>

definition numbered :: "WriteBuffer \<Rightarrow> bytes \<Rightarrow> WriteBuffer \<Rightarrow> nat \<Rightarrow> bool" where
  "numbered wb t wb' rn \<longleftrightarrow> wrote_to wb t (fst (Stack_PushSizeUnsafe rn wb')) \<and> st_top wb' + rn + 1 \<le> st_cap wb'"

lemma numbered_block:
  assumes wb: "stack_ok wb" "st_top wb + 33 \<le> st_cap wb" and b: "length b = length (st_buf wb)"
    "take (st_top wb + length t) b = take (st_top wb) (st_buf wb) @ t" and t: "length t \<le> 32"
  shows "numbered wb t (wb\<lparr>st_buf := b\<rparr>) (length t)"
proof -
  have "wrote_to wb t (wb\<lparr>st_buf := b, st_top := st_top wb + length t\<rparr>)"
    by (rule wrote_block [OF wb(1) b]) (use wb(2) t in simp_all)
  then show ?thesis using wb(2) t by (simp add: numbered_def Stack_PushSizeUnsafe_def)
qed

lemma ser_int_ok:
  assumes f: "puts f n t" "n \<le> 32" "length t \<le> 32" and wb: "stack_ok wb" "st_top wb + 33 \<le> st_cap wb"
  shows "\<exists>wb' rn. ser_int f wb = Some (Inr (wb', rn)) \<and> numbered wb t wb' rn"
proof -
  have "st_top wb + n \<le> length (st_buf wb)" using wb f(2) by (simp add: stack_ok_def)
  then obtain r where "f (st_buf wb, st_top wb) = Some r" "wrote (st_buf wb, st_top wb) t r" using f(1) unfolding puts_def by blast
  then obtain b where b: "f (st_buf wb, st_top wb) = Some (b, st_top wb + length t)" "length b = length (st_buf wb)"
    "take (st_top wb + length t) b = take (st_top wb) (st_buf wb) @ t" by (cases r) (auto simp: wrote_def)
  from numbered_block [OF wb b(2,3) f(3)] b(1) show ?thesis by (simp add: ser_int_def)
qed

lemma decimal_u64_length: "length (decimal (unat (u :: u64))) \<le> 20"
  using decimal_length_le [of "unat u" 19] unat_u64_lt [of u] by simp

lemma int_text_length: "length (int_text (sint (i :: u64))) \<le> 21"
proof -
  have "- (2 ^ 63) \<le> sint i" "sint i < 2 ^ 63" using sint_greater_eq [of i] sint_less [of i] by simp_all
  then have "nat \<bar>sint i\<bar> \<le> 2 ^ 63" by simp
  then have "nat \<bar>sint i\<bar> < 10 ^ Suc 19" by (rule le_less_trans) simp
  from decimal_length_le [OF this] show ?thesis unfolding int_text_def length_append by (cases "sint i < 0") simp_all
qed

lemma float_text_nonempty: "float_text java n e \<noteq> []"
  by (simp add: float_text_def Let_def sci_text_def point_text_def)

lemma f64_text_nonempty: "dbl_rexp raw \<noteq> 0x7FF \<Longrightarrow> f64_text fl raw \<noteq> []"
proof -
  assume f: "dbl_rexp raw \<noteq> 0x7FF"
  show ?thesis
  proof (cases "push_bit 1 raw = 0")
    case False
    obtain n e where "f64_decimal fl raw = Some (n, e)" "0 < n" "n < 100000000000000000" by (rule f64_decimal_ok [OF f False])
    then show ?thesis using False float_text_nonempty by (simp add: f64_text_def)
  qed (simp add: f64_text_def)
qed

lemma inf_nan_length: "inf_nan_text d = Some s \<Longrightarrow> length s \<le> 11"
  by (auto simp: inf_nan_text_def split: if_splits)

lemma ser_double_ok:
  assumes wb: "stack_ok wb" "st_top wb + 33 \<le> st_cap wb"
  shows "case double_text fl d of
      Some t \<Rightarrow> \<exists>wb' rn. ser_double fl d wb = Some (Inr (wb', rn)) \<and> numbered wb t wb' rn
    | None \<Rightarrow> \<exists>wb'. ser_double fl d wb = Some (Inl wb')"
proof (cases "dbl_rexp d = 0x7FF")
  case False
  have "st_top wb + 32 \<le> length (st_buf wb)" using wb by (simp add: stack_ok_def)
  from F64toa_finite [OF False this, of fl] obtain b where b: "F64toa fl (st_buf wb) (st_top wb) d = Some (b, length (f64_text fl d))"
    "kept (st_top wb) (st_buf wb) b" "holds b (st_top wb) (f64_text fl d)" by blast
  have t: "take (st_top wb + length (f64_text fl d)) b = take (st_top wb) (st_buf wb) @ f64_text fl d"
    using holds_take [OF b(3)] b(2) by (simp add: kept_def)
  have "numbered wb (f64_text fl d) (wb\<lparr>st_buf := b\<rparr>) (length (f64_text fl d))"
    using f64_text_length [OF False, of fl] by (intro numbered_block [OF wb kept_length [OF b(2)] t]) simp
  then show ?thesis using False b(1) f64_text_nonempty [OF False, of fl] by (simp add: double_text_def ser_double_def Let_def)
next
  case True
  then have z: "F64toa fl (st_buf wb) (st_top wb) d = Some (st_buf wb, 0)" by (simp add: F64toa_eq)
  show ?thesis
  proof (cases "flags_and fl kSerializeInfNan")
    case flag: True
    show ?thesis
    proof (cases "inf_nan_text d")
      case None
      then show ?thesis using True flag z by (simp add: double_text_def ser_double_def Let_def)
    next
      case (Some s)
      have ls: "length s \<le> 11" by (rule inf_nan_length [OF Some])
      then have "st_top wb + length s \<le> length (st_buf wb)" using wb by (simp add: stack_ok_def)
      then obtain b where b: "wr (st_buf wb) (st_top wb) s = Some b" by (auto simp: wr_def)
      have "numbered wb s (wb\<lparr>st_buf := b\<rparr>) (length s)"
        by (rule numbered_block [OF wb wr_length [OF b] wr_take [OF b]]) (use ls in simp)
      then show ?thesis using True flag z Some b by (simp add: double_text_def ser_double_def Let_def)
    qed
  next
    case False
    then show ?thesis using True z by (simp add: double_text_def ser_double_def Let_def)
  qed
qed

definition is_number :: "dnode \<Rightarrow> bool" where
  "is_number d \<longleftrightarrow> (case d of DUint u \<Rightarrow> True | DSint i \<Rightarrow> True | DReal r \<Rightarrow> True | DNumStr own s \<Rightarrow> True | _ \<Rightarrow> False)"

lemma ser_number_ok:
  assumes ra: "realloc_ok ra" and d: "is_number d" and wb: "stack_ok wb" "st_top wb + 33 \<le> st_cap wb"
  shows "case node_text fl d of
      Some t \<Rightarrow> \<exists>wb' rn. ser_number ra fl d wb = Some (Inr (wb', rn)) \<and> numbered wb t wb' rn
    | None \<Rightarrow> \<exists>wb'. ser_number ra fl d wb = Some (Inl wb')"
proof (cases d)
  case (DUint u)
  then show ?thesis using ser_int_ok [OF puts_U64toa _ _ wb, of u] decimal_u64_length [of u] by simp
next
  case (DSint i)
  then show ?thesis using ser_int_ok [OF puts_I64toa _ _ wb, of i] int_text_length [of i] by simp
next
  case (DReal r)
  show ?thesis unfolding DReal node_text.simps ser_number.simps by (rule ser_double_ok [OF wb])
next
  case (DNumStr own s)
  note g = grow_room [OF ra wb(1), of "length s + 1"]
  have r: "st_top (Stack_Grow ra (length s + 1) wb) + length s \<le> st_cap (Stack_Grow ra (length s + 1) wb)" using g(3) by linarith
  obtain wb' where p: "Stack_PushUnsafe s (Stack_Grow ra (length s + 1) wb) = Some wb'" "wrote_to (Stack_Grow ra (length s + 1) wb) s wb'"
    "st_cap wb' = st_cap (Stack_Grow ra (length s + 1) wb)" "st_top wb' = st_top (Stack_Grow ra (length s + 1) wb) + length s"
    by (rule push_room [OF g(1) r])
  have "fst (Stack_PushSizeUnsafe 0 wb') = wb'" by (simp add: Stack_PushSizeUnsafe_def)
  then have "numbered wb s wb' 0" using wrote_to_trans [OF g(2) p(2)] p(3,4) g(3) by (simp add: numbered_def)
  then show ?thesis using DNumStr p(1) by simp
qed (use d in \<open>simp_all add: is_number_def\<close>)

subsection \<open>The machine prints the tree\<close>

text \<open>What stays of a state while a value is written; the count of members is meaningless in an array.\<close>

definition ser_frame :: "serializer \<Rightarrow> serializer \<Rightarrow> bool" where
  "ser_frame st st' \<longleftrightarrow> se_stk st' = se_stk st \<and> se_is_obj st' = se_is_obj st \<and> (se_is_obj st \<longrightarrow> se_member_cnt st' = se_member_cnt st)"

definition value_ready :: "serializer \<Rightarrow> bool" where
  "value_ready st \<longleftrightarrow> stack_ok (se_wb st) \<and> se_node st \<noteq> [] \<and> 0 < unat (se_val_cnt st) \<and> unat (se_val_cnt st) < 2 ^ 31
     \<and> (se_is_obj st \<longrightarrow> unat (se_val_cnt st) = 2 * unat (se_member_cnt st) + 1)"

text \<open>The state behind a value, and where the code goes from it.\<close>

definition value_done :: "serializer \<Rightarrow> bytes \<Rightarrow> serializer \<Rightarrow> bool" where
  "value_done st t st' \<longleftrightarrow> ser_frame st st' \<and> wrote_to (se_wb st) (t @ [0x2C]) (se_wb st') \<and> se_val_cnt st' = se_val_cnt st - 1
     \<and> (se_val_cnt st' \<noteq> 0 \<longrightarrow> se_node st' = tl (se_node st))"

definition ser_goto :: "serializer \<Rightarrow> ser_next" where
  "ser_goto st = (if se_val_cnt st \<noteq> 0 then Goto ValBegin st else Goto ScopeEnd st)"

text \<open>The outcome of a piece of the walk: it goes on behind the text, or returns with the error.\<close>

definition ser_walks :: "realloc \<Rightarrow> isa \<Rightarrow> page \<Rightarrow> u32 \<Rightarrow> bool \<Rightarrow> serializer \<Rightarrow> bytes option \<Rightarrow> (bytes \<Rightarrow> serializer \<Rightarrow> bool) \<Rightarrow> bool" where
  "ser_walks ra i pg fl sg st t Q \<longleftrightarrow> (case t of
      Some t \<Rightarrow> \<exists>st'. Q t st' \<and> ser_run ra i pg fl sg (Some (Goto ValBegin st)) = ser_run ra i pg fl sg (Some (ser_goto st'))
    | None \<Rightarrow> \<exists>wb. ser_run ra i pg fl sg (Some (Goto ValBegin st)) = Some (kSerErrorInfinity, wb))"

lemma run_value: "ser_run ra i pg fl sg (Some (Goto ValBegin st)) = ser_run ra i pg fl sg (ser_val_begin ra i pg fl st)"
  by (subst ser_run.simps) (simp add: ser_step_def)

lemma run_scope: "ser_run ra i pg fl sg (Some (Goto ScopeEnd st)) = ser_run ra i pg fl sg (ser_scope_end ra sg st)"
  by (subst ser_run.simps) (simp add: ser_step_def)

lemma run_return: "ser_run ra i pg fl sg (Some (Return e wb)) = Some (e, wb)"
  by (subst ser_run.simps) simp

text \<open>The state behind a value that was written without entering a container.\<close>

definition ser_next_state :: "serializer \<Rightarrow> serializer" where
  "ser_next_state st = (let st = st\<lparr>se_val_cnt := se_val_cnt st - 1\<rparr> in
     if se_val_cnt st \<noteq> 0 then st\<lparr>se_node := tl (se_node st)\<rparr> else st)"

lemma ser_after_goto: "ser_after st = ser_goto (ser_next_state st)"
  by (simp add: ser_after_def ser_goto_def ser_next_state_def Let_def)

lemma scalar_walks:
  assumes s: "ser_val_begin ra i pg fl st = Some (ser_after (st\<lparr>se_wb := wb\<rparr>))" and w: "wrote_to (se_wb st) (t @ [0x2C]) wb"
  shows "ser_walks ra i pg fl sg st (Some t) (value_done st)"
proof -
  have "ser_run ra i pg fl sg (Some (Goto ValBegin st)) = ser_run ra i pg fl sg (Some (ser_goto (ser_next_state (st\<lparr>se_wb := wb\<rparr>))))"
    by (simp only: run_value s ser_after_goto)
  moreover have "value_done st t (ser_next_state (st\<lparr>se_wb := wb\<rparr>))"
    using w by (simp add: value_done_def ser_frame_def ser_next_state_def Let_def)
  ultimately show ?thesis by (auto simp: ser_walks_def)
qed

lemma push58_ok:
  assumes ra: "realloc_ok ra" and wb: "stack_ok wb" and l: "length v = 8" "n \<le> 8"
  obtains wb' where "Stack_Push5_8 ra v n wb = Some wb'" "wrote_to wb (take n v) wb'"
proof -
  let ?g = "Stack_Grow ra 8 wb"
  note g = grow_room [OF ra wb, of 8]
  have "st_top ?g + length v \<le> length (st_buf ?g)" using g(3,4) l by linarith
  then obtain b where b: "wr (st_buf ?g) (st_top ?g) v = Some b" by (auto simp: wr_def)
  have "take (st_top ?g + n) b = take (st_top ?g + n) (take (st_top ?g + length v) b)" using l by (simp add: min_absorb1)
  also have "\<dots> = take (st_top ?g) (st_buf ?g) @ take n v"
    unfolding wr_take [OF b] using l g(1) by (simp add: min_absorb1 stack_ok_def)
  finally have t: "take (st_top ?g + n) b = take (st_top ?g) (st_buf ?g) @ take n v" .
  have "st_top ?g + n \<le> st_cap ?g" using g(3) l by linarith
  from wrote_block [OF g(1) wr_length [OF b] t this] l have "wrote_to ?g (take n v) (?g\<lparr>st_buf := b, st_top := st_top ?g + n\<rparr>)" by simp
  from wrote_to_trans [OF g(2) this] show thesis using b by (intro that) (simp_all add: Stack_Push5_8_def Let_def)
qed

text \<open>One more byte behind what was written.\<close>

lemma comma_ok:
  assumes w: "wrote_to wb t w" and r: "st_top w + 1 \<le> st_cap w"
  obtains w' where "ser_push [c] (st\<lparr>se_wb := w\<rparr>) = Some (st\<lparr>se_wb := w'\<rparr>)" "wrote_to wb (t @ [c]) w'" "st_top w' = st_top w + 1" "st_cap w' = st_cap w"
proof -
  have ok: "stack_ok w" using w by (simp add: wrote_to_def)
  have r': "st_top w + length [c] \<le> st_cap w" using r by simp
  obtain w' where p: "Stack_PushUnsafe [c] w = Some w'" "wrote_to w [c] w'" "st_cap w' = st_cap w" "st_top w' = st_top w + length [c]"
    by (rule push_room [OF ok r'])
  then show thesis using wrote_to_trans [OF w p(2)] by (intro that [of w']) (simp_all add: ser_push_def)
qed

lemma scalar_value:
  assumes ra: "realloc_ok ra" and pg: "page_ok i pg" and n: "se_node st = d # rest" and v: "value_ready st"
    and d: "\<not> dn_IsContainer d"
  shows "ser_walks ra i pg fl sg st (node_text fl d) (value_done st)"
proof -
  have ok: "stack_ok (se_wb st)" using v by (simp add: value_ready_def)
  have num: ?thesis if num: "is_number d"
  proof -
    let ?g = "Stack_Grow ra kNumberSize (se_wb st)"
    note g = grow_room [OF ra ok, of kNumberSize]
    have r: "st_top ?g + 33 \<le> st_cap ?g" using g(3) by (simp add: kNumberSize_def)
    have e: "ser_val_begin ra i pg fl st = do {
          r \<leftarrow> ser_number ra fl d ?g;
          (case r of
             Inl wb \<Rightarrow> Some (Return kSerErrorInfinity wb)
           | Inr (wb, rn) \<Rightarrow> do {
               st \<leftarrow> ser_push [0x2C] (st\<lparr>se_wb := fst (Stack_PushSizeUnsafe rn wb)\<rparr>);
               Some (ser_after st)
             })
        }"
      using num by (cases d) (simp_all add: ser_val_begin_def n is_number_def)
    show ?thesis
    proof (cases "node_text fl d")
      case None
      then obtain wb where "ser_number ra fl d ?g = Some (Inl wb)" using ser_number_ok [OF ra num g(1) r, of fl] by auto
      then show ?thesis using None e by (simp add: ser_walks_def run_value run_return)
    next
      case (Some t)
      then obtain wb rn where w: "ser_number ra fl d ?g = Some (Inr (wb, rn))" "numbered ?g t wb rn"
        using ser_number_ok [OF ra num g(1) r, of fl] by auto
      let ?w = "fst (Stack_PushSizeUnsafe rn wb)"
      have "wrote_to (se_wb st) t ?w" "st_top ?w + 1 \<le> st_cap ?w"
        using w(2) wrote_to_trans [OF g(2)] by (auto simp: numbered_def Stack_PushSizeUnsafe_def)
      then obtain w' where c: "ser_push [0x2C] (st\<lparr>se_wb := ?w\<rparr>) = Some (st\<lparr>se_wb := w'\<rparr>)" "wrote_to (se_wb st) (t @ [0x2C]) w'"
        using comma_ok by blast
      show ?thesis unfolding Some by (rule scalar_walks [OF _ c(2)]) (simp add: e w(1) c(1))
    qed
  qed
  have five: ?thesis if h: "ser_val_begin ra i pg fl st = map_option (\<lambda>wb. ser_after (st\<lparr>se_wb := wb\<rparr>)) (Stack_Push5_8 ra (bytes_of s) k (se_wb st))"
      "length s = 8" "k \<le> 8" "take k (bytes_of s) = t @ [0x2C]" "node_text fl d = Some t" for s k t
  proof -
    have "length (bytes_of s) = 8" using h(2) by simp
    then obtain w where w: "Stack_Push5_8 ra (bytes_of s) k (se_wb st) = Some w" "wrote_to (se_wb st) (take k (bytes_of s)) w"
      using push58_ok [OF ra ok _ h(3)] by blast
    show ?thesis unfolding h(5) by (rule scalar_walks [OF _ w(2) [unfolded h(4)]]) (simp add: h(1) w(1))
  qed
  show ?thesis
  proof (cases d)
    case DNull
    show ?thesis by (rule five [of "''null,   ''" 5]) (simp_all add: DNull ser_val_begin_def n numeral_eq_Suc)
  next
    case (DBool b)
    show ?thesis
    proof (cases b)
      case True
      show ?thesis by (rule five [of "''true,   ''" 5]) (simp_all add: DBool True ser_val_begin_def n numeral_eq_Suc)
    next
      case False
      show ?thesis by (rule five [of "''false,  ''" 6]) (simp_all add: DBool False ser_val_begin_def n numeral_eq_Suc)
    qed
  next
    case (DStr k s)
    obtain w where w: "ser_quote ra i pg fl s (se_wb st) = Some w" "wrote_to (se_wb st) (json_quoted fl s) w" "st_top w + 1 \<le> st_cap w"
      by (rule ser_quote_ok [OF ra ok pg])
    obtain w' where c: "ser_push [0x2C] (st\<lparr>se_wb := w\<rparr>) = Some (st\<lparr>se_wb := w'\<rparr>)" "wrote_to (se_wb st) (json_quoted fl s @ [0x2C]) w'"
      using comma_ok [OF w(2,3)] by blast
    have nk: "\<not> (se_is_obj st \<and> even (unat (se_val_cnt st)))" using v by (auto simp: value_ready_def)
    have "st\<lparr>se_wb := w', se_member_cnt := se_member_cnt st\<rparr> = st\<lparr>se_wb := w'\<rparr>" by simp
    then have "ser_val_begin ra i pg fl st = Some (ser_after (st\<lparr>se_wb := w'\<rparr>))"
      using nk by (cases "se_is_obj st") (simp_all add: ser_val_begin_def n DStr ser_string_def Let_def w(1) c(1))
    from scalar_walks [OF this c(2)] show ?thesis by (simp add: DStr)
  next
    case (DRaw own s)
    let ?g = "Stack_Grow ra (length s + 1) (se_wb st)"
    note g = grow_room [OF ra ok, of "length s + 1"]
    have r: "st_top ?g + length s \<le> st_cap ?g" using g(3) by linarith
    obtain w where p: "Stack_PushUnsafe s ?g = Some w" "wrote_to ?g s w" "st_cap w = st_cap ?g" "st_top w = st_top ?g + length s"
      by (rule push_room [OF g(1) r])
    have ww: "wrote_to (se_wb st) s w" using wrote_to_trans [OF g(2) p(2)] by simp
    have "st_top w + 1 \<le> st_cap w" using p(3,4) g(3) by linarith
    then obtain w' where c: "ser_push [0x2C] (st\<lparr>se_wb := w\<rparr>) = Some (st\<lparr>se_wb := w'\<rparr>)" "wrote_to (se_wb st) (s @ [0x2C]) w'"
      using comma_ok [OF ww] by blast
    have "ser_val_begin ra i pg fl st = Some (ser_after (st\<lparr>se_wb := w'\<rparr>))"
      using p(1) c(1) by (simp add: ser_val_begin_def n DRaw)
    from scalar_walks [OF this c(2)] show ?thesis by (simp add: DRaw)
  qed (use num d in \<open>simp_all add: is_number_def dn_kind\<close>)
qed

end
