(* ===== verification/Sonic_SerializeProof.thy ===== *)
theory Sonic_SerializeProof
  imports Sonic_SerializeText
begin

text \<open>
  The walk of the serializer with jumps and an explicit stack writes the text of the recursive printer: the stack entry
  gives back the counters of the container outside, the counters agree with the children left, and a value of any
  depth is written before the walk goes on behind it.
\<close>

subsection \<open>Containers\<close>

lemma ctx_roundtrip:
  assumes "unat (v :: u32) < 2 ^ 31"
  shows "(ucast (drop_bit 1 (ucast (push_bit 1 v OR of_bool ob) :: u64)) :: u32) = v"
    and "(ucast (push_bit 1 v OR of_bool ob) :: u64) AND 1 \<noteq> 0 \<longleftrightarrow> ob"
proof -
  have top: "\<not> bit v 31"
  proof
    assume "bit v 31"
    then have "bit (unat v) 31" by (simp add: bit_unsigned_iff)
    moreover have "unat v div 2 ^ 31 = 0" using assms by simp
    ultimately show False by (simp add: bit_iff_odd)
  qed
  show "(ucast (drop_bit 1 (ucast (push_bit 1 v OR of_bool ob) :: u64)) :: u32) = v"
  proof (rule bit_word_eqI)
    fix n assume n: "n < LENGTH(32)"
    show "bit (ucast (drop_bit 1 (ucast (push_bit 1 v OR of_bool ob) :: u64)) :: u32) n = bit v n"
      using n top by (cases "n = 31") (auto simp only: bit_ucast_iff bit_drop_bit_eq bit_or_iff bit_push_bit_iff comp_apply bit_of_bool_iff, auto)
  qed
  define x where "x = (ucast (push_bit 1 v OR of_bool ob) :: u64)"
  have "bit x 0 \<longleftrightarrow> ob"
    by (simp only: x_def bit_ucast_iff bit_or_iff bit_push_bit_iff bit_of_bool_iff) simp
  then have "x AND 1 \<noteq> 0 \<longleftrightarrow> ob" by (simp add: and_one_eq mod_2_eq_odd bit_0)
  then show "(ucast (push_bit 1 v OR of_bool ob) :: u64) AND 1 \<noteq> 0 \<longleftrightarrow> ob" by (simp only: x_def)
qed

text \<open>What remains to be shown of a value: from every state in which it stands next.\<close>

definition prints :: "realloc \<Rightarrow> isa \<Rightarrow> page \<Rightarrow> u32 \<Rightarrow> bool \<Rightarrow> dnode \<Rightarrow> bool" where
  "prints ra i pg fl sg d \<longleftrightarrow> (\<forall>st rest. se_node st = d # rest \<longrightarrow> value_ready st \<longrightarrow>
     ser_walks ra i pg fl sg st (node_text fl d) (value_done st))"

definition items_done :: "serializer \<Rightarrow> bytes \<Rightarrow> serializer \<Rightarrow> bool" where
  "items_done st t st' \<longleftrightarrow> se_stk st' = se_stk st \<and> se_is_obj st' = se_is_obj st \<and> (se_is_obj st \<longrightarrow> se_member_cnt st' = 0)
     \<and> wrote_to (se_wb st) t (se_wb st') \<and> se_val_cnt st' = 0"

lemma unat_dec: "0 < unat (v :: u32) \<Longrightarrow> unat (v - 1) = unat v - 1"
  by (simp add: unat_minus_one unat_gt_0)

lemma array_items:
  assumes "\<forall>e \<in> set es. prints ra i pg fl sg e" and "es \<noteq> []" and "se_node st = es" and "\<not> se_is_obj st"
    and "unat (se_val_cnt st) = length es" and "length es < 2 ^ 31" and "stack_ok (se_wb st)"
  shows "ser_walks ra i pg fl sg st (map_option items (those (map (node_text fl) es))) (items_done st)"
  using assms
proof (induction es arbitrary: st)
  case (Cons e es)
  have vr: "value_ready st" using Cons.prems by (simp add: value_ready_def)
  have P: "ser_walks ra i pg fl sg st (node_text fl e) (value_done st)"
    using Cons.prems(1,3) vr by (simp add: prints_def)
  show ?case
  proof (cases "node_text fl e")
    case None
    then show ?thesis using P by (simp add: ser_walks_def)
  next
    case (Some t)
    then obtain st1 where s1: "value_done st t st1"
      "ser_run ra i pg fl sg (Some (Goto ValBegin st)) = ser_run ra i pg fl sg (Some (ser_goto st1))"
      using P by (auto simp: ser_walks_def)
    have v1: "unat (se_val_cnt st1) = length es" using s1(1) Cons.prems(5) by (simp add: value_done_def unat_dec)
    have o1: "\<not> se_is_obj st1" "stack_ok (se_wb st1)" "se_stk st1 = se_stk st" "se_is_obj st1 = se_is_obj st"
      using s1(1) Cons.prems(4) by (simp_all add: value_done_def ser_frame_def wrote_to_def)
    have w1: "wrote_to (se_wb st) (t @ [0x2C]) (se_wb st1)" using s1(1) by (simp add: value_done_def)
    show ?thesis
    proof (cases "es = []")
      case True
      then have "se_val_cnt st1 = 0" using v1 by (simp add: unat_eq_zero)
      then have "items_done st (items [t]) st1" using o1 w1 Cons.prems(4) by (simp add: items_done_def)
      then show ?thesis using True Some s1(2) by (auto simp: ser_walks_def)
    next
      case False
      have v0: "se_val_cnt st1 \<noteq> 0"
      proof
        assume "se_val_cnt st1 = 0"
        then show False using v1 False by simp
      qed
      then have "se_node st1 = es" using s1(1) Cons.prems(3) by (simp add: value_done_def)
      from Cons.IH [OF _ False this o1(1) v1 _ o1(2)] Cons.prems(1,6)
      have I: "ser_walks ra i pg fl sg st1 (map_option items (those (map (node_text fl) es))) (items_done st1)" by simp
      have g: "ser_goto st1 = Goto ValBegin st1" using v0 by (simp add: ser_goto_def)
      show ?thesis
      proof (cases "those (map (node_text fl) es)")
        case None
        then show ?thesis using I s1(2) g Some by (simp add: ser_walks_def)
      next
        case S2: (Some ts)
        then obtain st2 where "items_done st1 (items ts) st2"
          "ser_run ra i pg fl sg (Some (Goto ValBegin st1)) = ser_run ra i pg fl sg (Some (ser_goto st2))"
          using I by (auto simp: ser_walks_def)
        moreover from this(1) have "items_done st (items (t # ts)) st2"
          using wrote_to_trans [OF w1] o1 by (auto simp: items_done_def)
        ultimately show ?thesis using S2 Some s1(2) g by (auto simp: ser_walks_def)
      qed
    qed
  qed
qed simp

text \<open>A name: the state behind it is ready for the value.\<close>

lemma name_step:
  assumes ra: "realloc_ok ra" and pg: "page_ok i pg" and n: "se_node st = DStr k s # rest" and ob: "se_is_obj st"
    and v: "unat (se_val_cnt st) = 2 * unat (se_member_cnt st)" "0 < unat (se_member_cnt st)" and ok: "stack_ok (se_wb st)"
  obtains w where "ser_run ra i pg fl sg (Some (Goto ValBegin st)) = ser_run ra i pg fl sg
      (Some (Goto ValBegin (st\<lparr>se_wb := w, se_member_cnt := se_member_cnt st - 1, se_val_cnt := se_val_cnt st - 1, se_node := rest\<rparr>)))"
    "wrote_to (se_wb st) (json_quoted fl s @ [0x3A]) w"
proof -
  obtain w where w: "ser_quote ra i pg fl s (se_wb st) = Some w" "wrote_to (se_wb st) (json_quoted fl s) w" "st_top w + 1 \<le> st_cap w"
    by (rule ser_quote_ok [OF ra ok pg])
  obtain w' where c: "ser_push [0x3A] (st\<lparr>se_wb := w\<rparr>) = Some (st\<lparr>se_wb := w'\<rparr>)" "wrote_to (se_wb st) (json_quoted fl s @ [0x3A]) w'"
    using comma_ok [OF w(2,3)] by blast
  let ?st = "st\<lparr>se_wb := w', se_member_cnt := se_member_cnt st - 1\<rparr>"
  have ev: "even (unat (se_val_cnt st))" using v by simp
  have e: "ser_val_begin ra i pg fl st = Some (ser_after ?st)"
    using ob ev by (simp add: ser_val_begin_def n ser_string_def Let_def w(1) c(1))
  have nz: "se_val_cnt st - 1 \<noteq> 0"
  proof
    assume "se_val_cnt st - 1 = 0"
    then have "unat (se_val_cnt st - 1) = 0" by simp
    then show False using v by (simp add: unat_dec)
  qed
  have "ser_after ?st = Goto ValBegin (st\<lparr>se_wb := w', se_member_cnt := se_member_cnt st - 1, se_val_cnt := se_val_cnt st - 1, se_node := rest\<rparr>)"
    using nz n by (simp add: ser_after_def Let_def)
  then show thesis using that [of w'] c(2) e by (simp add: run_value)
qed

definition member_text :: "u32 \<Rightarrow> dnode \<times> dnode \<Rightarrow> bytes option" where
  "member_text fl p = map_option (\<lambda>t. json_quoted fl (member_name p) @ 0x3A # t) (node_text fl (snd p))"

lemma object_items:
  assumes "\<forall>p \<in> set ms. is_DStr (fst p) \<and> prints ra i pg fl sg (snd p)" and "ms \<noteq> []" and "se_node st = child_nodes ms" and "se_is_obj st"
    and "unat (se_val_cnt st) = 2 * length ms" and "unat (se_member_cnt st) = length ms" and "length ms < 2 ^ 30" and "stack_ok (se_wb st)"
    and ra: "realloc_ok ra" and pg: "page_ok i pg"
  shows "ser_walks ra i pg fl sg st (map_option items (those (map (member_text fl) ms))) (items_done st)"
  using assms(1-8)
proof (induction ms arbitrary: st)
  case (Cons p ms)
  obtain key v where p: "p = (key, v)" by force
  obtain k s where key: "key = DStr k s" using Cons.prems(1) p by (cases key) simp_all
  have n: "se_node st = DStr k s # v # child_nodes ms" using Cons.prems(3) p key by simp
  obtain w where W: "ser_run ra i pg fl sg (Some (Goto ValBegin st)) = ser_run ra i pg fl sg
      (Some (Goto ValBegin (st\<lparr>se_wb := w, se_member_cnt := se_member_cnt st - 1, se_val_cnt := se_val_cnt st - 1, se_node := v # child_nodes ms\<rparr>)))"
    "wrote_to (se_wb st) (json_quoted fl s @ [0x3A]) w"
    by (rule name_step [OF ra pg n Cons.prems(4) _ _ Cons.prems(8)]) (use Cons.prems(5,6) in simp_all)
  define st0 where "st0 = st\<lparr>se_wb := w, se_member_cnt := se_member_cnt st - 1, se_val_cnt := se_val_cnt st - 1, se_node := v # child_nodes ms\<rparr>"
  have c0: "unat (se_val_cnt st0) = 2 * length ms + 1" "unat (se_member_cnt st0) = length ms"
    using Cons.prems(5,6) by (simp_all add: st0_def unat_dec)
  have vr: "value_ready st0" using c0 W(2) Cons.prems(7) by (simp add: value_ready_def) (simp add: st0_def wrote_to_def)
  have P: "ser_walks ra i pg fl sg st0 (node_text fl v) (value_done st0)"
    using Cons.prems(1) p vr by (simp add: prints_def st0_def)
  have mt: "member_text fl p = map_option (\<lambda>t. json_quoted fl s @ 0x3A # t) (node_text fl v)"
    by (simp add: member_text_def p key member_name_def)
  show ?case
  proof (cases "node_text fl v")
    case None
    then show ?thesis using P W(1) mt by (simp add: ser_walks_def st0_def)
  next
    case (Some t)
    then obtain st1 where s1: "value_done st0 t st1"
      "ser_run ra i pg fl sg (Some (Goto ValBegin st0)) = ser_run ra i pg fl sg (Some (ser_goto st1))"
      using P by (auto simp: ser_walks_def)
    have v1: "unat (se_val_cnt st1) = 2 * length ms" using s1(1) c0(1) by (simp add: value_done_def unat_dec)
    have o1: "se_is_obj st1" "stack_ok (se_wb st1)" "se_stk st1 = se_stk st" "unat (se_member_cnt st1) = length ms"
      using s1(1) Cons.prems(4) c0(2) by (simp_all add: value_done_def ser_frame_def wrote_to_def st0_def)
    have "wrote_to w (t @ [0x2C]) (se_wb st1)" using s1(1) by (simp add: value_done_def st0_def)
    from wrote_to_trans [OF W(2) this] have w1: "wrote_to (se_wb st) ((json_quoted fl s @ 0x3A # t) @ [0x2C]) (se_wb st1)" by simp
    have r1: "ser_run ra i pg fl sg (Some (Goto ValBegin st)) = ser_run ra i pg fl sg (Some (ser_goto st1))"
      using W(1) s1(2) by (simp add: st0_def)
    show ?thesis
    proof (cases "ms = []")
      case True
      then have "se_val_cnt st1 = 0" "se_member_cnt st1 = 0" using v1 o1(4) by (simp_all add: unat_eq_zero)
      then have "items_done st (items [json_quoted fl s @ 0x3A # t]) st1" using o1 w1 Cons.prems(4) by (simp add: items_done_def)
      then show ?thesis using True Some r1 mt by (auto simp: ser_walks_def)
    next
      case False
      have v0: "se_val_cnt st1 \<noteq> 0"
      proof
        assume "se_val_cnt st1 = 0"
        then show False using v1 False by simp
      qed
      then have "se_node st1 = child_nodes ms" using s1(1) by (simp add: value_done_def st0_def)
      from Cons.IH [OF _ False this o1(1) v1 o1(4) _ o1(2)] Cons.prems(1,7)
      have I: "ser_walks ra i pg fl sg st1 (map_option items (those (map (member_text fl) ms))) (items_done st1)" by simp
      have g: "ser_goto st1 = Goto ValBegin st1" using v0 by (simp add: ser_goto_def)
      show ?thesis
      proof (cases "those (map (member_text fl) ms)")
        case None
        then show ?thesis using I r1 g Some mt by (simp add: ser_walks_def)
      next
        case S2: (Some ts)
        then obtain st2 where "items_done st1 (items ts) st2"
          "ser_run ra i pg fl sg (Some (Goto ValBegin st1)) = ser_run ra i pg fl sg (Some (ser_goto st2))"
          using I by (auto simp: ser_walks_def)
        moreover from this(1) have "items_done st (items ((json_quoted fl s @ 0x3A # t) # ts)) st2"
          using wrote_to_trans [OF w1] o1 Cons.prems(4) by (auto simp: items_done_def)
        ultimately show ?thesis using S2 Some r1 g mt by (auto simp: ser_walks_def)
      qed
    qed
  qed
qed simp

text \<open>The end of a container: the last comma gives way to the bracket.\<close>

lemma bracket_byte:
  "bracket 0x5B True = [0x7B]" "bracket 0x5B False = [0x5B]" "bracket 0x5D True = [0x7D]" "bracket 0x5D False = [0x5D]"
  by (simp_all add: bracket_def)

lemma bracket_length [simp]: "length (bracket c b) = 1" by (simp add: bracket_def)

lemma scope_end_pushes:
  assumes ra: "realloc_ok ra" and w: "wrote_to wb (t @ [0x2C]) (se_wb st)" and m: "se_is_obj st \<longrightarrow> se_member_cnt st = 0"
  obtains w' where "wrote_to wb (t @ bracket 0x5D (se_is_obj st) @ [0x2C]) w'"
    "ser_scope_end ra sg st = (case se_stk st of
         [] \<Rightarrow> map_option (Return kErrorNone) (Stack_Pop (1 + of_bool sg) w')
       | parent # stk \<Rightarrow>
           (let val_cnt = (ucast (drop_bit 1 (pc_len parent)) :: u32); is_obj = (pc_len parent AND 1 \<noteq> 0);
                st = st\<lparr>se_wb := w', se_member_cnt := drop_bit 1 (val_cnt - 1), se_val_cnt := val_cnt - 1, se_is_obj := is_obj,
                  se_node := tl (pc_ptr parent), se_stk := stk\<rparr> in
            Some (if 0 < se_val_cnt st then Goto ValBegin st else Goto ScopeEnd st)))"
proof -
  have ok: "stack_ok (se_wb st)" and c: "stack_contents (se_wb st) = stack_contents wb @ t @ [0x2C]"
    using w by (simp_all add: wrote_to_def)
  have l: "length (stack_contents (se_wb st)) = st_top (se_wb st)" by (rule stack_top_contents [OF ok])
  then have top: "1 \<le> st_top (se_wb st)" unfolding c by simp
  define p where "p = (se_wb st)\<lparr>st_top := st_top (se_wb st) - 1\<rparr>"
  have pop: "Stack_Pop 1 (se_wb st) = Some p" using top by (simp add: Stack_Pop_def p_def)
  have "stack_contents p = take (st_top (se_wb st) - 1) (stack_contents (se_wb st))"
    by (simp add: p_def stack_contents_def min_absorb1)
  also have "\<dots> = stack_contents wb @ t" unfolding c using l unfolding c by simp
  finally have wp: "wrote_to wb t p" using ok by (auto simp: wrote_to_def p_def stack_ok_def intro: le_trans [OF diff_le_self])
  have okp: "stack_ok p" using wp by (simp add: wrote_to_def)
  note g = grow_room [OF ra okp, of 2]
  have w1: "wrote_to wb t (Stack_Grow ra 2 p)" using wrote_to_trans [OF wp g(2)] by simp
  obtain c1 where c1: "bracket 0x5D (se_is_obj st) = [c1]" by (simp add: bracket_def)
  have r: "st_top (Stack_Grow ra 2 p) + 1 \<le> st_cap (Stack_Grow ra 2 p)" using g(3) by linarith
  obtain w2 where w2: "ser_push [c1] (st\<lparr>se_wb := Stack_Grow ra 2 p\<rparr>) = Some (st\<lparr>se_wb := w2\<rparr>)" "wrote_to wb (t @ [c1]) w2"
    "st_top w2 = st_top (Stack_Grow ra 2 p) + 1" "st_cap w2 = st_cap (Stack_Grow ra 2 p)"
    by (rule comma_ok [OF w1 r])
  have r2: "st_top w2 + 1 \<le> st_cap w2" using g(3) w2(3,4) by linarith
  obtain w3 where w3: "ser_push [0x2C] (st\<lparr>se_wb := w2\<rparr>) = Some (st\<lparr>se_wb := w3\<rparr>)" "wrote_to wb ((t @ [c1]) @ [0x2C]) w3"
    by (rule comma_ok [OF w2(2) r2])
  have nm: "\<not> (se_member_cnt st \<noteq> 0 \<and> se_is_obj st)" using m by blast
  have "wrote_to wb (t @ bracket 0x5D (se_is_obj st) @ [0x2C]) w3" using w3(2) c1 by simp
  then show thesis
  proof (rule that)
    show "ser_scope_end ra sg st = (case se_stk st of
         [] \<Rightarrow> map_option (Return kErrorNone) (Stack_Pop (1 + of_bool sg) w3)
       | parent # stk \<Rightarrow>
           (let val_cnt = (ucast (drop_bit 1 (pc_len parent)) :: u32); is_obj = (pc_len parent AND 1 \<noteq> 0);
                st = st\<lparr>se_wb := w3, se_member_cnt := drop_bit 1 (val_cnt - 1), se_val_cnt := val_cnt - 1, se_is_obj := is_obj,
                  se_node := tl (pc_ptr parent), se_stk := stk\<rparr> in
            Some (if 0 < se_val_cnt st then Goto ValBegin st else Goto ScopeEnd st)))"
      unfolding ser_scope_end_def pop Option.bind.simps if_not_P [OF nm] c1 w2(1) w3(1) by (simp cong: list.case_cong)
  qed
qed

text \<open>What the elements or members of a container print, for both kinds.\<close>

definition child_items :: "u32 \<Rightarrow> dnode \<Rightarrow> bytes list option" where
  "child_items fl d = (case d of DArray m es \<Rightarrow> those (map (node_text fl) es) | DObject m ms \<Rightarrow> those (map (member_text fl) ms) | _ \<Rightarrow> None)"

lemma node_text_container:
  assumes "dn_IsContainer d"
  shows "node_text fl d = map_option (\<lambda>ts. bracket 0x5B (dn_IsObject d) @ comma_sep ts @ bracket 0x5D (dn_IsObject d)) (child_items fl d)"
proof -
  have "(\<lambda>p. map_option (\<lambda>t. json_quoted fl (member_name p) @ 0x3A # t) (node_text fl (snd p))) = member_text fl"
    by (simp add: member_text_def fun_eq_iff)
  then show ?thesis using assms by (cases d) (simp_all add: dn_kind child_items_def bracket_byte)
qed

lemma length_child_nodes: "length (child_nodes ms) = 2 * length ms"
  by (induction ms rule: child_nodes.induct) simp_all

lemma those_length: "those xs = Some ys \<Longrightarrow> length ys = length xs"
  by (induction xs arbitrary: ys) (auto split: option.splits)

text \<open>The counters the code sets up for the children of a container.\<close>

definition children_ready :: "dnode \<Rightarrow> serializer \<Rightarrow> bool" where
  "children_ready d st \<longleftrightarrow> stack_ok (se_wb st) \<and> se_is_obj st = dn_IsObject d \<and> se_node st = first_child d
     \<and> se_val_cnt st = push_bit (of_bool (dn_IsObject d)) (word_of_nat (dn_Size d)) \<and> se_member_cnt st = word_of_nat (dn_Size d)"

fun child_prints :: "realloc \<Rightarrow> isa \<Rightarrow> page \<Rightarrow> u32 \<Rightarrow> bool \<Rightarrow> dnode \<Rightarrow> bool" where
  "child_prints ra i pg fl sg (DArray m es) \<longleftrightarrow> (\<forall>e \<in> set es. prints ra i pg fl sg e)"
| "child_prints ra i pg fl sg (DObject m ms) \<longleftrightarrow> (\<forall>p \<in> set ms. prints ra i pg fl sg (snd p))"
| "child_prints ra i pg fl sg d \<longleftrightarrow> False"

lemma children_walk:
  assumes ra: "realloc_ok ra" and pg: "page_ok i pg" and ok: "ser_ok d" and c: "dn_IsContainer d" and s: "0 < dn_Size d"
    and P: "child_prints ra i pg fl sg d" and st: "children_ready d st"
  shows "ser_walks ra i pg fl sg st (map_option items (child_items fl d)) (items_done st)"
proof -
  have u: "unat (word_of_nat n :: u32) = n" if "n < 2 ^ 31" for n
    using that by (simp add: unsigned_of_nat take_bit_nat_eq_self)
  from c consider (arr) m es where "d = DArray m es" | (obj) m ms where "d = DObject m ms" by (auto simp: dn_kind)
  then show ?thesis
  proof cases
    case arr
    then have "\<not> dn_IsObject d" by (simp add: dn_kind)
    with arr ok s st P have "se_node st = es" "\<not> se_is_obj st" "unat (se_val_cnt st) = length es" "length es < 2 ^ 31" "es \<noteq> []" "stack_ok (se_wb st)"
      "\<forall>e \<in> set es. prints ra i pg fl sg e"
      by (simp_all add: children_ready_def u)
    then show ?thesis unfolding arr child_items_def dnode.case by (intro array_items)
  next
    case obj
    then have o: "dn_IsObject d" by (simp add: dn_kind)
    have lm: "length ms < 2 ^ 30" using ok obj by simp
    have um: "unat (word_of_nat (length ms) :: u32) = length ms" by (rule u) (use lm in simp)
    have "unat (push_bit 1 (word_of_nat (length ms) :: u32)) = 2 * length ms"
      using lm by (subst unat_shl) (simp_all add: um)
    with obj o ok s st P um lm have "se_node st = child_nodes ms" "se_is_obj st" "unat (se_val_cnt st) = 2 * length ms" "unat (se_member_cnt st) = length ms" "ms \<noteq> []"
      "stack_ok (se_wb st)" "\<forall>p \<in> set ms. is_DStr (fst p) \<and> prints ra i pg fl sg (snd p)"
      by (simp_all add: children_ready_def)
    then show ?thesis unfolding obj child_items_def dnode.case by (intro object_items lm ra pg)
  qed
qed

lemma container_value:
  assumes ra: "realloc_ok ra" and pg: "page_ok i pg" and ok: "ser_ok d" and c: "dn_IsContainer d"
    and P: "child_prints ra i pg fl sg d"
  shows "prints ra i pg fl sg d"
  unfolding prints_def
proof (intro allI impI)
  fix st rest
  assume n: "se_node st = d # rest" and v: "value_ready st"
  have wb: "stack_ok (se_wb st)" using v by (simp add: value_ready_def)
  let ?ob = "dn_IsObject d"
  have sz: "dn_Size d < 2 ^ 31" using ok c by (cases d) (simp_all add: dn_kind)
  then have us: "unat (word_of_nat (dn_Size d) :: u32) = dn_Size d" by (simp add: unsigned_of_nat take_bit_nat_eq_self)
  have vb: "ser_val_begin ra i pg fl st = ser_container ra d st" using n c by (cases d) (simp_all add: ser_val_begin_def dn_kind)
  obtain c1 where c1: "bracket 0x5B ?ob = [c1]" by (simp add: bracket_def)
  obtain c2 where c2: "bracket 0x5D ?ob = [c2]" by (simp add: bracket_def)
  let ?g = "Stack_Grow ra 3 (se_wb st)"
  note g = grow_room [OF ra wb, of 3]
  have r0: "st_top ?g + 1 \<le> st_cap ?g" using g(3) by linarith
  have w0: "wrote_to (se_wb st) [] ?g" by (rule g(2))
  show "ser_walks ra i pg fl sg st (node_text fl d) (value_done st)"
  proof (cases "dn_Size d = 0")
    case True
    obtain w1 where w1: "ser_push [c1] (st\<lparr>se_wb := ?g\<rparr>) = Some (st\<lparr>se_wb := w1\<rparr>)" "wrote_to (se_wb st) ([] @ [c1]) w1"
      "st_top w1 = st_top ?g + 1" "st_cap w1 = st_cap ?g" by (rule comma_ok [OF w0 r0])
    have r1: "st_top w1 + 1 \<le> st_cap w1" using g(3) w1(3,4) by linarith
    obtain w2 where w2: "ser_push [c2] (st\<lparr>se_wb := w1\<rparr>) = Some (st\<lparr>se_wb := w2\<rparr>)" "wrote_to (se_wb st) (([] @ [c1]) @ [c2]) w2"
      "st_top w2 = st_top w1 + 1" "st_cap w2 = st_cap w1" by (rule comma_ok [OF w1(2) r1])
    have r2: "st_top w2 + 1 \<le> st_cap w2" using g(3) w1(3,4) w2(3,4) by linarith
    obtain w3 where w3: "ser_push [0x2C] (st\<lparr>se_wb := w2\<rparr>) = Some (st\<lparr>se_wb := w3\<rparr>)" "wrote_to (se_wb st) ((([] @ [c1]) @ [c2]) @ [0x2C]) w3"
      by (rule comma_ok [OF w2(2) r2])
    have "child_items fl d = Some []" using True c by (cases d) (simp_all add: dn_kind child_items_def)
    then have t: "node_text fl d = Some ([c1] @ [c2])" by (simp add: node_text_container [OF c] c1 c2)
    have "ser_val_begin ra i pg fl st = Some (ser_after (st\<lparr>se_wb := w3\<rparr>))"
      using True by (simp add: vb ser_container_def Let_def c1 c2 w1(1) w2(1) w3(1))
    from scalar_walks [OF this] w3(2) show ?thesis unfolding t by simp
  next
    case False
    have nz: "(word_of_nat (dn_Size d) :: u32) \<noteq> 0"
    proof
      assume "(word_of_nat (dn_Size d) :: u32) = 0"
      then show False using us False by simp
    qed
    obtain w1 where w1: "\<And>st. se_wb st = ?g \<Longrightarrow> ser_push [c1] st = Some (st\<lparr>se_wb := w1\<rparr>)" "wrote_to (se_wb st) [c1] w1"
    proof -
      obtain w1 where "Stack_PushUnsafe [c1] ?g = Some w1" "wrote_to ?g [c1] w1"
        by (rule push_room [OF g(1), of "[c1]"]) (use r0 in simp_all)
      then show thesis using wrote_to_trans [OF w0] by (intro that [of w1]) (simp_all add: ser_push_def)
    qed
    have mm: "se_is_obj st \<Longrightarrow> push_bit 1 (se_member_cnt st) + 1 = se_val_cnt st"
    proof -
      assume "se_is_obj st"
      then have v: "unat (se_val_cnt st) = 2 * unat (se_member_cnt st) + 1" "unat (se_val_cnt st) < 2 ^ 31" using v by (simp_all add: value_ready_def)
      have p: "unat (push_bit 1 (se_member_cnt st)) = 2 * unat (se_member_cnt st)" using v by (subst unat_shl) simp_all
      have "unat (push_bit 1 (se_member_cnt st) + 1) = 2 * unat (se_member_cnt st) + 1" using p v by (subst unat_plus_lt) simp_all
      then show ?thesis using v by (simp only: word_unat_eq_iff)
    qed
    define ctx where "ctx = \<lparr>pc_len = ucast (push_bit 1 (se_val_cnt st) OR of_bool (se_is_obj st)), pc_ptr = se_node st\<rparr>"
    define st0 where "st0 = st\<lparr>se_wb := ?g, se_stk := ctx # se_stk st, se_val_cnt := push_bit (of_bool ?ob) (word_of_nat (dn_Size d)),
       se_member_cnt := word_of_nat (dn_Size d), se_is_obj := ?ob\<rparr>"
    define st1 where "st1 = st0\<lparr>se_wb := w1, se_node := first_child d\<rparr>"
    have ctx: "(ucast (drop_bit 1 (pc_len ctx)) :: u32) = se_val_cnt st" "pc_len ctx AND 1 \<noteq> 0 \<longleftrightarrow> se_is_obj st" "pc_ptr ctx = se_node st"
      using v by (simp_all only: ctx_def ParentCtx.simps value_ready_def ctx_roundtrip)
    have e: "ser_container ra d st = Some (Goto ValBegin st1)"
    proof -
      have "ser_container ra d st = do {
          st \<leftarrow> ser_push [c1] st0;
          Some (Goto ValBegin (st\<lparr>se_node := first_child d\<rparr>))
        }"
        using nz mm by (cases "se_is_obj st") (simp_all only: ser_container_def Let_def c1 st0_def ctx_def, simp_all)
      moreover have "ser_push [c1] st0 = Some (st0\<lparr>se_wb := w1\<rparr>)" by (rule w1(1)) (simp add: st0_def)
      ultimately show ?thesis by (simp add: st1_def)
    qed
    have R: "ser_run ra i pg fl sg (Some (Goto ValBegin st)) = ser_run ra i pg fl sg (Some (Goto ValBegin st1))"
      by (simp only: run_value [of _ _ _ _ _ st] vb e)
    have cr: "children_ready d st1" using w1(2) by (simp add: children_ready_def st1_def st0_def wrote_to_def)
    have "0 < dn_Size d" using False by simp
    note W = children_walk [OF ra pg ok c this P cr]
    show ?thesis
    proof (cases "child_items fl d")
      case None
      then show ?thesis using W R by (simp add: ser_walks_def node_text_container [OF c])
    next
      case (Some ts)
      then obtain st2 where s2: "items_done st1 (items ts) st2"
        "ser_run ra i pg fl sg (Some (Goto ValBegin st1)) = ser_run ra i pg fl sg (Some (ser_goto st2))"
        using W by (auto simp: ser_walks_def)
      have "length ts = dn_Size d" using Some c by (cases d) (auto simp: child_items_def dn_kind dest: those_length)
      then have "ts \<noteq> []" using False by auto
      then have it: "items ts = comma_sep ts @ [0x2C]" by (rule items_comma)
      have wt: "wrote_to (se_wb st) (([c1] @ comma_sep ts) @ [0x2C]) (se_wb st2)"
        using wrote_to_trans [OF w1(2), of "items ts" "se_wb st2"] s2(1) by (simp add: items_done_def st1_def st0_def it)
      have ob: "se_is_obj st2 = ?ob" "se_is_obj st2 \<longrightarrow> se_member_cnt st2 = 0" "se_stk st2 = ctx # se_stk st" "se_val_cnt st2 = 0"
        using s2(1) by (simp_all add: items_done_def st1_def st0_def)
      obtain w' where w': "wrote_to (se_wb st) (([c1] @ comma_sep ts) @ bracket 0x5D (se_is_obj st2) @ [0x2C]) w'"
        "ser_scope_end ra sg st2 = (case se_stk st2 of
         [] \<Rightarrow> map_option (Return kErrorNone) (Stack_Pop (1 + of_bool sg) w')
       | parent # stk \<Rightarrow>
           (let val_cnt = (ucast (drop_bit 1 (pc_len parent)) :: u32); is_obj = (pc_len parent AND 1 \<noteq> 0);
                st = st2\<lparr>se_wb := w', se_member_cnt := drop_bit 1 (val_cnt - 1), se_val_cnt := val_cnt - 1, se_is_obj := is_obj,
                  se_node := tl (pc_ptr parent), se_stk := stk\<rparr> in
            Some (if 0 < se_val_cnt st then Goto ValBegin st else Goto ScopeEnd st)))"
        by (rule scope_end_pushes [OF ra wt ob(2)])
      define st3 where "st3 = st2\<lparr>se_wb := w', se_member_cnt := drop_bit 1 (se_val_cnt st - 1), se_val_cnt := se_val_cnt st - 1, se_is_obj := se_is_obj st,
                  se_node := tl (se_node st), se_stk := se_stk st\<rparr>"
      have s3: "ser_scope_end ra sg st2 = Some (ser_goto st3)"
        unfolding w'(2) ob(3) list.case Let_def ctx by (simp add: st3_def ser_goto_def word_gt_0)
      have g2: "ser_goto st2 = Goto ScopeEnd st2" using ob(4) by (simp add: ser_goto_def)
      have R3: "ser_run ra i pg fl sg (Some (Goto ValBegin st)) = ser_run ra i pg fl sg (Some (ser_goto st3))"
        by (simp only: R s2(2) g2 run_scope s3)
      have mc: "se_is_obj st \<Longrightarrow> drop_bit 1 (se_val_cnt st - 1) = se_member_cnt st"
      proof -
        assume "se_is_obj st"
        then have v': "unat (se_val_cnt st) = 2 * unat (se_member_cnt st) + 1" using v by (simp add: value_ready_def)
        have "unat (drop_bit 1 (se_val_cnt st - 1)) = (2 * unat (se_member_cnt st)) div 2 ^ 1"
          by (simp only: unat_shr) (use v' in \<open>simp add: unat_dec\<close>)
        then show ?thesis by (simp add: word_unat_eq_iff)
      qed
      have "value_done st ([c1] @ comma_sep ts @ [c2]) st3"
        using w'(1) mc by (simp add: value_done_def ser_frame_def st3_def ob(1) c2)
      moreover have "node_text fl d = Some ([c1] @ comma_sep ts @ [c2])" by (simp add: node_text_container [OF c] Some c1 c2)
      ultimately show ?thesis using R3 by (auto simp: ser_walks_def)
    qed
  qed
qed

lemma scalar_prints: "realloc_ok ra \<Longrightarrow> page_ok i pg \<Longrightarrow> \<not> dn_IsContainer d \<Longrightarrow> prints ra i pg fl sg d"
  unfolding prints_def using scalar_value by blast

lemma all_print:
  assumes ra: "realloc_ok ra" and pg: "page_ok i pg"
  shows "ser_ok d \<Longrightarrow> prints ra i pg fl sg d"
proof (induction d)
  case (DObject m ms)
  have "\<forall>p \<in> set ms. prints ra i pg fl sg (snd p)" using DObject by (auto simp: snds.simps)
  then show ?case using DObject.prems by (intro container_value [OF ra pg]) (simp_all add: dn_kind)
next
  case (DArray m es)
  then show ?case by (intro container_value [OF ra pg]) (simp_all add: dn_kind)
qed (rule scalar_prints [OF ra pg], simp add: dn_kind)+

text \<open>The whole serializer.\<close>

lemma SerializeImpl_ok:
  assumes ra: "realloc_ok ra" and pg: "page_ok i pg" and d: "ser_ok d" and wb: "stack_ok wb"
  shows "case node_text fl d of
      Some t \<Rightarrow> \<exists>wb'. SerializeImpl ra i pg fl d wb = Some (kErrorNone, wb') \<and> stack_ok wb'
        \<and> stack_contents wb' = (if flags_and fl kSerializeAppendBuffer then stack_contents wb else []) @ t
    | None \<Rightarrow> \<exists>wb'. SerializeImpl ra i pg fl d wb = Some (kSerErrorInfinity, wb')"
proof -
  let ?ob = "dn_IsObject d"
  define est where "est = (if dn_IsContainer d then dn_Size d else 1) * 18 + 64"
  define w0 where "w0 = (if flags_and fl kSerializeAppendBuffer then Stack_Reserve ra (est + Stack_Size wb) wb
                else Stack_Reserve ra est (Stack_Clear wb))"
  define base where "base = (if flags_and fl kSerializeAppendBuffer then stack_contents wb else [])"
  have clr: "stack_ok (Stack_Clear wb)" "stack_contents (Stack_Clear wb) = []" using wb by (simp_all add: Stack_Clear_def stack_ok_def stack_contents_def)
  have w0: "stack_ok w0" "stack_contents w0 = base" "st_top w0 + 64 \<le> st_cap w0"
  proof -
    note A = Stack_Reserve_ok [OF ra wb, of "est + Stack_Size wb"] and B = Stack_Reserve_ok [OF ra clr(1), of est]
    show "stack_ok w0" "stack_contents w0 = base" using A B clr by (simp_all add: w0_def base_def)
    have "64 \<le> est" by (simp add: est_def)
    then show "st_top w0 + 64 \<le> st_cap w0" using A(3,4) B(3,4) by (auto simp: w0_def Stack_Size_def Stack_Clear_def)
  qed
  show ?thesis
  proof (cases "\<not> dn_IsContainer d \<or> dn_Size d = 0")
    case True
    define st where "st = \<lparr>se_wb = w0, se_stk = [], se_node = [d], se_val_cnt = 1, se_member_cnt = 0, se_is_obj = ?ob\<rparr>"
    have S: "SerializeImpl ra i pg fl d wb = ser_run ra i pg fl True (Some (Goto ValBegin st))"
      using True by (simp add: SerializeImpl_def Let_def st_def w0_def est_def)
    have vr: "value_ready st" using w0(1) by (simp add: value_ready_def st_def)
    have P: "ser_walks ra i pg fl True st (node_text fl d) (value_done st)"
      using all_print [OF ra pg d, of fl True] vr by (simp add: prints_def st_def)
    show ?thesis
    proof (cases "node_text fl d")
      case None
      then show ?thesis using P S by (simp add: ser_walks_def)
    next
      case (Some t)
      then obtain st1 where s1: "value_done st t st1" "ser_run ra i pg fl True (Some (Goto ValBegin st)) = ser_run ra i pg fl True (Some (ser_goto st1))"
        using P by (auto simp: ser_walks_def)
      have f1: "wrote_to w0 (t @ [0x2C]) (se_wb st1)" "se_stk st1 = []" "se_is_obj st1 \<longrightarrow> se_member_cnt st1 = 0" "se_val_cnt st1 = 0"
        using s1(1) by (simp_all add: value_done_def ser_frame_def st_def)
      obtain w' where w': "wrote_to w0 (t @ bracket 0x5D (se_is_obj st1) @ [0x2C]) w'"
        "ser_scope_end ra True st1 = map_option (Return kErrorNone) (Stack_Pop (1 + of_bool True) w')"
        using scope_end_pushes [OF ra f1(1,3), of True] unfolding f1(2) list.case by blast
      have ok': "stack_ok w'" and c': "stack_contents w' = base @ t @ bracket 0x5D (se_is_obj st1) @ [0x2C]"
        using w'(1) w0(2) by (simp_all add: wrote_to_def)
      have l': "st_top w' = length base + length t + 2" using stack_top_contents [OF ok'] unfolding c' by simp
      have pop: "Stack_Pop (1 + of_bool True) w' = Some (w'\<lparr>st_top := st_top w' - 2\<rparr>)" using l' by (simp add: Stack_Pop_def)
      have "stack_contents (w'\<lparr>st_top := st_top w' - 2\<rparr>) = take (st_top w' - 2) (stack_contents w')"
        by (simp add: stack_contents_def min_absorb1)
      also have "\<dots> = base @ t" unfolding c' l' by simp
      finally have "stack_contents (w'\<lparr>st_top := st_top w' - 2\<rparr>) = base @ t" .
      moreover have "stack_ok (w'\<lparr>st_top := st_top w' - 2\<rparr>)" using ok' by (auto simp: stack_ok_def intro: le_trans [OF diff_le_self])
      moreover have "SerializeImpl ra i pg fl d wb = Some (kErrorNone, w'\<lparr>st_top := st_top w' - 2\<rparr>)"
      proof -
        have "ser_scope_end ra True st1 = Some (Return kErrorNone (w'\<lparr>st_top := st_top w' - 2\<rparr>))" unfolding w'(2) pop by simp
        then show ?thesis using f1(4) by (simp add: S s1(2) ser_goto_def run_scope run_return)
      qed
      ultimately show ?thesis using Some by (simp add: base_def)
    qed
  next
    case False
    then have c: "dn_IsContainer d" and sz: "0 < dn_Size d" by simp_all
    obtain c1 where c1: "bracket 0x5B ?ob = [c1]" by (simp add: bracket_def)
    obtain w1 where w1: "Stack_PushUnsafe [c1] w0 = Some w1" "wrote_to w0 [c1] w1"
      by (rule push_room [OF w0(1), of "[c1]"]) (use w0(3) in simp_all)
    define st where "st = \<lparr>se_wb = w1, se_stk = [], se_node = first_child d, se_val_cnt = push_bit (of_bool ?ob) (word_of_nat (dn_Size d)),
       se_member_cnt = word_of_nat (dn_Size d), se_is_obj = ?ob\<rparr>"
    have vc: "(word_of_nat (push_bit (of_bool ?ob) (dn_Size d)) :: u32) = push_bit (of_bool ?ob) (word_of_nat (dn_Size d))"
      by (cases ?ob) (simp_all add: push_bit_eq_mult)
    have S: "SerializeImpl ra i pg fl d wb = ser_run ra i pg fl False (Some (Goto ValBegin st))"
    proof -
      have "(\<not> dn_IsContainer d \<or> dn_Size d = 0) = False" using False by blast
      then show ?thesis unfolding SerializeImpl_def Let_def est_def [symmetric] w0_def [symmetric] c1 vc st_def
        by (simp only: if_False ser_push_def serializer.simps w1(1) option.map option.simps) (simp add: bind_eq_Some_conv)
    qed
    have cr: "children_ready d st" using w1(2) by (simp add: children_ready_def st_def wrote_to_def)
    have cp: "child_prints ra i pg fl False d"
    proof (cases d)
      case (DObject m ms)
      then show ?thesis using d all_print [OF ra pg] by auto
    next
      case (DArray m es)
      then show ?thesis using d all_print [OF ra pg] by auto
    qed (use c in \<open>simp_all add: dn_kind\<close>)
    note W = children_walk [OF ra pg d c sz cp cr]
    show ?thesis
    proof (cases "child_items fl d")
      case None
      then show ?thesis using W S by (simp add: ser_walks_def node_text_container [OF c])
    next
      case (Some ts)
      then obtain st1 where s1: "items_done st (items ts) st1" "ser_run ra i pg fl False (Some (Goto ValBegin st)) = ser_run ra i pg fl False (Some (ser_goto st1))"
        using W by (auto simp: ser_walks_def)
      have "length ts = dn_Size d" using Some c by (cases d) (auto simp: child_items_def dn_kind dest: those_length)
      then have "ts \<noteq> []" using sz by auto
      then have it: "items ts = comma_sep ts @ [0x2C]" by (rule items_comma)
      have f1: "wrote_to w0 (([c1] @ comma_sep ts) @ [0x2C]) (se_wb st1)" "se_stk st1 = []" "se_is_obj st1 \<longrightarrow> se_member_cnt st1 = 0" "se_val_cnt st1 = 0"
          "se_is_obj st1 = ?ob"
        using s1(1) wrote_to_trans [OF w1(2), of "items ts" "se_wb st1"] by (simp_all add: items_done_def st_def it)
      obtain w' where w': "wrote_to w0 (([c1] @ comma_sep ts) @ bracket 0x5D (se_is_obj st1) @ [0x2C]) w'"
        "ser_scope_end ra False st1 = map_option (Return kErrorNone) (Stack_Pop (1 + of_bool False) w')"
        using scope_end_pushes [OF ra f1(1,3), of False] unfolding f1(2) list.case by blast
      let ?t = "[c1] @ comma_sep ts @ bracket 0x5D ?ob"
      have ok': "stack_ok w'" and c': "stack_contents w' = base @ ?t @ [0x2C]"
        using w'(1) w0(2) f1(5) by (simp_all add: wrote_to_def)
      have l': "st_top w' = length (base @ ?t) + 1" using stack_top_contents [OF ok'] unfolding c' by simp
      have pop: "Stack_Pop (1 + of_bool False) w' = Some (w'\<lparr>st_top := st_top w' - 1\<rparr>)" using l' by (simp add: Stack_Pop_def)
      have "stack_contents (w'\<lparr>st_top := st_top w' - 1\<rparr>) = take (st_top w' - 1) (stack_contents w')"
        by (simp add: stack_contents_def min_absorb1)
      also have "\<dots> = base @ ?t" unfolding c' l' by simp
      finally have "stack_contents (w'\<lparr>st_top := st_top w' - 1\<rparr>) = base @ ?t" .
      moreover have "stack_ok (w'\<lparr>st_top := st_top w' - 1\<rparr>)" using ok' by (auto simp: stack_ok_def intro: le_trans [OF diff_le_self])
      moreover have "SerializeImpl ra i pg fl d wb = Some (kErrorNone, w'\<lparr>st_top := st_top w' - 1\<rparr>)"
      proof -
        have "ser_scope_end ra False st1 = Some (Return kErrorNone (w'\<lparr>st_top := st_top w' - 1\<rparr>))" unfolding w'(2) pop by simp
        then show ?thesis using f1(4) by (simp add: S s1(2) ser_goto_def run_scope run_return)
      qed
      moreover have "node_text fl d = Some ?t" by (simp add: node_text_container [OF c] Some c1)
      ultimately show ?thesis by (simp add: base_def)
    qed
  qed
qed

definition sample_tree :: dnode where
  "sample_tree = DObject (Some (new_MetaNode 2)) [(DStr SConst (bytes_of ''a''), DArray (Some (new_MetaNode 3))
     [DUint 1, DSint (- 2), DBool True]), (DStr SConst (bytes_of ''b''), DNull)]"

lemma sample_tree_text: "node_text 0 sample_tree = Some (bytes_of ''{\"a\":[1,-2,true],\"b\":null}'')"
  by code_simp

lemma sample_page_ok: "page_ok i (\<lambda>n. (False, []))"
  by (simp add: page_ok_def)



text \<open>\<open>Dump\<close> is the text itself, or empty after an error.\<close>

lemma Dump_text:
  assumes "realloc_ok ra" and "page_ok i pg" and "ser_ok d"
  shows "Dump ra i pg fl d = Some (case node_text fl d of Some t \<Rightarrow> t | None \<Rightarrow> [])"
proof (cases "node_text fl d")
  case None
  then show ?thesis using SerializeImpl_ok [OF assms WriteBuffer_new_ok(1) [OF assms(1)], of fl]
    by (auto simp: Dump_def)
next
  case (Some t)
  then obtain wb where wb: "SerializeImpl ra i pg fl d (WriteBuffer_new ra) = Some (kErrorNone, wb)" "stack_ok wb" "stack_contents wb = t"
    using SerializeImpl_ok [OF assms WriteBuffer_new_ok(1) [OF assms(1)], of fl] by (auto simp: WriteBuffer_new_ok(2) [OF assms(1)])
  obtain wb' where w: "WriteBuffer_ToString ra wb = Some (wb', t @ [0])" "stack_ok wb'" "stack_contents wb' = t"
    using WriteBuffer_ToString_ok [OF assms(1) wb(2)] wb(3) by auto
  have "Stack_Size wb' = length t" using stack_top_contents [OF w(2)] w(3) by (simp add: Stack_Size_def)
  then show ?thesis using wb w Some by (simp add: Dump_def WriteBuffer_ToStringView_def)
qed

end
