(* ===== verification/Sonic_DynamicNode.thy ===== *)
theory Sonic_DynamicNode
  imports Sonic_Node Sonic_OnDemand
begin

text \<open>
  The operations of document nodes (\<open>dom/dynamicnode.h\<close> behind the interface of \<open>dom/genericnode.h\<close>) on the trees of
  \<open>Sonic_Node\<close>: construction, lookup, growth, removal, copying, comparison and destruction, each with the state of the
  allocator it uses. An iterator is a position; the end of a container is its size. Undefined behaviour (an assertion
  of the code that does not hold, a position outside the children, a map node built in a null pointer) is \<^term>\<open>None\<close>.
\<close>

subsection \<open>The allocator\<close>

text \<open>
  The allocator is a parameter: what \<open>Malloc\<close> and \<open>Realloc\<close> answer in a state, whether a null pointer is reallocated,
  and whether its blocks have to be given back. The last two fields are the sizes of a \<open>std::multimap\<close> and of its nodes.
\<close>

record 'a allocator =
  al_Malloc :: "'a malloc"
  al_Realloc :: "bool \<Rightarrow> u64 \<Rightarrow> u64 \<Rightarrow> 'a \<Rightarrow> bool \<times> 'a"
  al_Free :: "'a \<Rightarrow> 'a"
  al_kNeedFree :: bool
  al_sizeof_map :: u64
  al_sizeof_map_node :: u64

text \<open>
  \<open>containerRealloc\<close> keeps the bytes of the block, so the children and the map stay. In a new block the field of the
  map is left as the allocator gave it: \<open>junk\<close>.
\<close>

type_synonym name_map = "(bytes \<times> nat) list"

definition containerRealloc ::
  "'a allocator \<Rightarrow> name_map option \<Rightarrow> u64 \<Rightarrow> MetaNode option \<Rightarrow> nat \<Rightarrow> nat \<Rightarrow> 'a \<Rightarrow> MetaNode option \<times> 'a" where
  "containerRealloc A junk sz old old_cap new_cap al =
     (let old_size = word_of_nat old_cap * sz + sizeof_MetaNode; new_size = word_of_nat new_cap * sz + sizeof_MetaNode in
      case al_Realloc A (old = None) old_size new_size al of
        (True, al) \<Rightarrow> (Some ((case old of None \<Rightarrow> \<lparr>mt_cap = 0, mt_map = junk\<rparr> | Some mt \<Rightarrow> mt)\<lparr>mt_cap := new_cap\<rparr>), al)
      | (False, al) \<Rightarrow> (None, al))"

subsection \<open>The map of an object\<close>

text \<open>
  The \<open>std::multimap\<close> from names to positions, as the list of its entries in the order of their insertion, which is
  also the order of equal names; the order of different names is not observed. \<open>find\<close> gives the first of the equal
  ones. A node of the map is allocated with the node's allocator, which gives a null pointer when it fails.
\<close>

definition mm_emplace :: "'a allocator \<Rightarrow> bytes \<Rightarrow> nat \<Rightarrow> name_map \<Rightarrow> 'a \<Rightarrow> (name_map \<times> 'a) option" where
  "mm_emplace A k i mp al = (case al_Malloc A (al_sizeof_map_node A) al of
      (True, al) \<Rightarrow> Some (mp @ [(k, i)], al)
    | (False, al) \<Rightarrow> None)"

definition mm_find :: "name_map \<Rightarrow> bytes \<Rightarrow> nat option" where
  "mm_find mp k = map_of mp k"

definition mm_erase :: "'a allocator \<Rightarrow> bytes \<Rightarrow> nat \<Rightarrow> name_map \<Rightarrow> 'a \<Rightarrow> name_map \<times> 'a" where
  "mm_erase A k i mp al = (if (k, i) \<in> set mp then (remove1 (k, i) mp, al_Free A al) else (mp, al))"

text \<open>\<open>~map_type()\<close> and the block of the map.\<close>

definition free_map :: "'a allocator \<Rightarrow> name_map option \<Rightarrow> 'a \<Rightarrow> 'a" where
  "free_map A mo al = (case mo of None \<Rightarrow> al | Some mp \<Rightarrow> al_Free A (fold (\<lambda>e. al_Free A) mp al))"

definition free_children :: "'a allocator \<Rightarrow> MetaNode option \<Rightarrow> 'a \<Rightarrow> 'a" where
  "free_children A m al = (case m of None \<Rightarrow> al | Some mt \<Rightarrow> al_Free A al)"

definition getMap :: "MetaNode option \<Rightarrow> name_map option" where
  "getMap m = (case m of None \<Rightarrow> None | Some mt \<Rightarrow> mt_map mt)"

definition capacityImpl :: "MetaNode option \<Rightarrow> nat" where
  "capacityImpl m = (case m of None \<Rightarrow> 0 | Some mt \<Rightarrow> mt_cap mt)"

subsection \<open>Destruction, construction and assignment\<close>

fun dn_destroy :: "'a allocator \<Rightarrow> dnode \<Rightarrow> 'a \<Rightarrow> 'a" where
  "dn_destroy A (DNumStr own s) al = (if al_kNeedFree A \<and> own then al_Free A al else al)"
| "dn_destroy A (DRaw own s) al = (if al_kNeedFree A \<and> own then al_Free A al else al)"
| "dn_destroy A (DStr k s) al = (if al_kNeedFree A \<and> k = SFree then al_Free A al else al)"
| "dn_destroy A (DObject m ms) al =
     (if \<not> al_kNeedFree A then al
      else let al = (case m of None \<Rightarrow> al
                     | Some mt \<Rightarrow> free_map A (mt_map mt) (fold (\<lambda>p al. dn_destroy A (snd p) (dn_destroy A (fst p) al)) ms al)) in
           free_children A m al)"
| "dn_destroy A (DArray m es) al = (if \<not> al_kNeedFree A then al else free_children A m (fold (dn_destroy A) es al))"
| "dn_destroy A d al = al"

text \<open>\<open>rawAssign\<close>: the target and what is left of the source.\<close>

definition dn_rawAssign :: "dnode \<Rightarrow> dnode \<times> dnode" where
  "dn_rawAssign rhs = (rhs, DNull)"

definition dn_move_assign :: "'a allocator \<Rightarrow> dnode \<Rightarrow> dnode \<Rightarrow> 'a \<Rightarrow> dnode \<times> dnode \<times> 'a" where
  "dn_move_assign A self rhs al =
     (let (temp, rhs) = dn_rawAssign rhs; al = dn_destroy A self al; (self, temp) = dn_rawAssign temp in (self, rhs, al))"

definition dn_Swap :: "dnode \<Rightarrow> dnode \<Rightarrow> dnode \<times> dnode" where
  "dn_Swap self rhs = (let (tmp, rhs) = dn_rawAssign rhs; (rhs, self) = dn_rawAssign self; (self, tmp) = dn_rawAssign tmp in (self, rhs))"

definition StringCopy :: "'a allocator \<Rightarrow> bytes \<Rightarrow> 'a \<Rightarrow> dnode \<times> 'a" where
  "StringCopy A s al = (case al_Malloc A (word_of_nat (length s) + 1) al of
      (True, al) \<Rightarrow> (DStr SFree s, al)
    | (False, al) \<Rightarrow> (DStr SConst [], al))"

definition setNullImpl :: "'a allocator \<Rightarrow> dnode \<Rightarrow> 'a \<Rightarrow> dnode \<times> 'a" where
  "setNullImpl A self al = (DNull, dn_destroy A self al)"
definition setBoolImpl :: "'a allocator \<Rightarrow> bool \<Rightarrow> dnode \<Rightarrow> 'a \<Rightarrow> dnode \<times> 'a" where
  "setBoolImpl A b self al = (DBool b, dn_destroy A self al)"
definition setObjectImpl :: "'a allocator \<Rightarrow> dnode \<Rightarrow> 'a \<Rightarrow> dnode \<times> 'a" where
  "setObjectImpl A self al = (DObject None [], dn_destroy A self al)"
definition setArrayImpl :: "'a allocator \<Rightarrow> dnode \<Rightarrow> 'a \<Rightarrow> dnode \<times> 'a" where
  "setArrayImpl A self al = (DArray None [], dn_destroy A self al)"
definition setInt64Impl :: "'a allocator \<Rightarrow> u64 \<Rightarrow> dnode \<Rightarrow> 'a \<Rightarrow> dnode \<times> 'a" where
  "setInt64Impl A i self al = (dnode_int64 i, dn_destroy A self al)"
definition setUint64Impl :: "'a allocator \<Rightarrow> u64 \<Rightarrow> dnode \<Rightarrow> 'a \<Rightarrow> dnode \<times> 'a" where
  "setUint64Impl A i self al = (DUint i, dn_destroy A self al)"
definition setDoubleImpl :: "'a allocator \<Rightarrow> u64 \<Rightarrow> dnode \<Rightarrow> 'a \<Rightarrow> dnode \<times> 'a" where
  "setDoubleImpl A d self al = (DReal d, dn_destroy A self al)"
definition setStringImpl :: "'a allocator \<Rightarrow> bytes \<Rightarrow> dnode \<Rightarrow> 'a \<Rightarrow> dnode \<times> 'a" where
  "setStringImpl A s self al = (DStr SConst s, dn_destroy A self al)"
definition setStringImpl_copy :: "'a allocator \<Rightarrow> bytes \<Rightarrow> dnode \<Rightarrow> 'a \<Rightarrow> dnode \<times> 'a" where
  "setStringImpl_copy A s self al = StringCopy A s (dn_destroy A self al)"

text \<open>\<open>setRawLikeImpl\<close> for both types: the constructor is the type, its flag the ownership bit.\<close>

definition setRawLikeImpl :: "'a allocator \<Rightarrow> bytes \<Rightarrow> (bool \<Rightarrow> bytes \<Rightarrow> dnode) \<Rightarrow> dnode \<Rightarrow> 'a \<Rightarrow> dnode \<times> 'a" where
  "setRawLikeImpl A s typ self al = (typ False s, dn_destroy A self al)"
definition setRawLikeImpl_copy :: "'a allocator \<Rightarrow> bytes \<Rightarrow> (bool \<Rightarrow> bytes \<Rightarrow> dnode) \<Rightarrow> dnode \<Rightarrow> 'a \<Rightarrow> dnode \<times> 'a" where
  "setRawLikeImpl_copy A s typ self al = (case al_Malloc A (word_of_nat (length s) + 1) (dn_destroy A self al) of
      (True, al) \<Rightarrow> (typ True s, al)
    | (False, al) \<Rightarrow> (typ False [], al))"

definition clearImpl :: "'a allocator \<Rightarrow> dnode \<Rightarrow> 'a \<Rightarrow> (dnode \<times> 'a) option" where
  "clearImpl A self al = (case self of
      DObject m ms \<Rightarrow> Some (DObject None [], dn_destroy A self al)
    | DArray m es \<Rightarrow> Some (DArray None [], dn_destroy A self al)
    | _ \<Rightarrow> None)"

subsection \<open>Lookup\<close>

fun find_linear :: "(dnode \<times> dnode) list \<Rightarrow> bytes \<Rightarrow> nat" where
  "find_linear [] key = 0"
| "find_linear (m # ms) key = (if GetStringView (fst m) = Some key then 0 else Suc (find_linear ms key))"

definition findFromMap :: "name_map \<Rightarrow> nat \<Rightarrow> bytes \<Rightarrow> nat" where
  "findFromMap mp sz key = (case mm_find mp key of Some i \<Rightarrow> i | None \<Rightarrow> sz)"

definition findMemberImpl :: "MetaNode option \<Rightarrow> (dnode \<times> dnode) list \<Rightarrow> bytes \<Rightarrow> nat" where
  "findMemberImpl m ms key = (case getMap m of Some mp \<Rightarrow> findFromMap mp (length ms) key | None \<Rightarrow> find_linear ms key)"

definition HasMember :: "dnode \<Rightarrow> bytes \<Rightarrow> bool option" where
  "HasMember self key = (case self of DObject m ms \<Rightarrow> Some (findMemberImpl m ms key \<noteq> length ms) | _ \<Rightarrow> None)"

text \<open>\<open>operator[]\<close> by name and by index.\<close>

definition findValueImpl :: "dnode \<Rightarrow> bytes \<Rightarrow> dnode option" where
  "findValueImpl self key = (case self of
      DObject m ms \<Rightarrow> (let i = findMemberImpl m ms key in Some (if i \<noteq> length ms then snd (ms ! i) else DNull))
    | _ \<Rightarrow> None)"

definition findValueImpl_idx :: "dnode \<Rightarrow> nat \<Rightarrow> dnode option" where
  "findValueImpl_idx self i = (case self of DArray m es \<Rightarrow> (if i < length es then Some (es ! i) else None) | _ \<Rightarrow> None)"

definition backImpl :: "dnode \<Rightarrow> dnode option" where
  "backImpl self = (case self of DArray m es \<Rightarrow> (if es = [] then None else Some (es ! (length es - 1))) | _ \<Rightarrow> None)"

text \<open>\<open>AtPointer\<close>: \<^term>\<open>None\<close> is the null pointer here. Sizes are compared as \<open>int\<close>.\<close>

fun atPointerImpl :: "dnode \<Rightarrow> JsonPointerNode list \<Rightarrow> dnode option" where
  "atPointerImpl re [] = Some re"
| "atPointerImpl re (PStr key # path) = (case re of
      DObject m ms \<Rightarrow> (let i = findMemberImpl m ms key in
        if i \<noteq> length ms then atPointerImpl (snd (ms ! i)) path else None)
    | _ \<Rightarrow> None)"
| "atPointerImpl re (PNum idx # path) = (case re of
      DArray m es \<Rightarrow> (if 0 \<le> idx \<and> idx < sint (word_of_nat (length es) :: u32)
        then atPointerImpl (es ! nat idx) path else None)
    | _ \<Rightarrow> None)"

subsection \<open>Objects\<close>

definition k_default_obj_cap :: nat where "k_default_obj_cap = 16"

text \<open>The growth at the head of \<open>addMemberImpl\<close>: \<^term>\<open>None\<close> is the null pointer of a failed allocation.\<close>

definition member_room :: "'a allocator \<Rightarrow> name_map option \<Rightarrow> MetaNode option \<Rightarrow> nat \<Rightarrow> 'a \<Rightarrow> MetaNode option \<times> 'a" where
  "member_room A junk m count al =
     (if capacityImpl m \<le> count then
        if capacityImpl m = 0 then containerMalloc (al_Malloc A) sizeof_MemberNode k_default_obj_cap al
        else let cap = capacityImpl m; cap = cap + (cap + 1) div 2 in
          containerRealloc A junk sizeof_MemberNode m (capacityImpl m) cap al
      else (m, al))"

text \<open>The iterator, the node, what is left of the value, and the allocator.\<close>

definition addMemberImpl ::
  "'a allocator \<Rightarrow> name_map option \<Rightarrow> bytes \<Rightarrow> bool \<Rightarrow> dnode \<Rightarrow> dnode \<Rightarrow> 'a \<Rightarrow> (nat \<times> dnode \<times> dnode \<times> 'a) option" where
  "addMemberImpl A junk key copyKey self val al = (case self of
      DObject m ms \<Rightarrow> (let count = length ms in case member_room A junk m count al of
          (None, al) \<Rightarrow> Some (count, self, val, al)
        | (Some mt, al) \<Rightarrow>
            (let (name, al) = (if copyKey then setStringImpl_copy A key DNull al else setStringImpl A key DNull al) in
             if copyKey \<and> name = DNull then Some (count, DObject (Some mt) ms, val, al)
             else let (last_name, name) = dn_rawAssign name; (last_value, val) = dn_rawAssign val; ms = ms @ [(last_name, last_value)] in
               (case mt_map mt of
                  None \<Rightarrow> Some (count, DObject (Some mt) ms, val, al)
                | Some mp \<Rightarrow> do {
                    k \<leftarrow> GetStringView last_name;
                    (mp, al) \<leftarrow> mm_emplace A k count mp al;
                    Some (count, DObject (Some (mt\<lparr>mt_map := Some mp\<rparr>)) ms, val, al)
                  })))
    | _ \<Rightarrow> None)"

definition memberReserveImpl :: "'a allocator \<Rightarrow> name_map option \<Rightarrow> nat \<Rightarrow> dnode \<Rightarrow> 'a \<Rightarrow> (dnode \<times> 'a) option" where
  "memberReserveImpl A junk new_cap self al = (case self of
      DObject m ms \<Rightarrow> Some
        (if capacityImpl m < new_cap then
           let old_cap = capacityImpl m in
           (case containerRealloc A junk sizeof_MemberNode m old_cap new_cap al of
              (None, al) \<Rightarrow> (self, al)
            | (Some mt, al) \<Rightarrow> (DObject (Some (if old_cap = 0 then mt\<lparr>mt_map := None\<rparr> else mt)) ms, al))
         else (self, al))
    | _ \<Rightarrow> None)"

fun emplace_all :: "'a allocator \<Rightarrow> (dnode \<times> dnode) list \<Rightarrow> nat \<Rightarrow> name_map \<Rightarrow> 'a \<Rightarrow> (name_map \<times> 'a) option" where
  "emplace_all A [] i mp al = Some (mp, al)"
| "emplace_all A (m # ms) i mp al = do {
     k \<leftarrow> GetStringView (fst m);
     (mp, al) \<leftarrow> mm_emplace A k i mp al;
     emplace_all A ms (i + 1) mp al
   }"

definition CreateMap :: "'a allocator \<Rightarrow> name_map option \<Rightarrow> dnode \<Rightarrow> 'a \<Rightarrow> (bool \<times> dnode \<times> 'a) option" where
  "CreateMap A junk self al = (case self of
      DObject m ms \<Rightarrow> do {
        (self, al) \<leftarrow> (if m = None then memberReserveImpl A junk 16 self al else Some (self, al));
        (case self of
           DObject (Some mt) ms \<Rightarrow>
             (if mt_map mt \<noteq> None then Some (True, self, al)
              else case al_Malloc A (al_sizeof_map A) al of
                (False, al) \<Rightarrow> Some (False, self, al)
              | (True, al) \<Rightarrow> do {
                  (mp, al) \<leftarrow> emplace_all A ms 0 [] al;
                  Some (True, DObject (Some (mt\<lparr>mt_map := Some mp\<rparr>)) ms, al)
                })
         | _ \<Rightarrow> Some (False, self, al))
      }
    | _ \<Rightarrow> None)"

definition DestroyMap :: "'a allocator \<Rightarrow> MetaNode option \<Rightarrow> 'a \<Rightarrow> MetaNode option \<times> 'a" where
  "DestroyMap A m al = (case m of
      None \<Rightarrow> (m, al)
    | Some mt \<Rightarrow> if mt_map mt = None then (m, al) else (Some (mt\<lparr>mt_map := None\<rparr>), free_map A (mt_map mt) al))"

text \<open>The code from the label \<open>find\<close> of \<open>removeMemberImpl\<close> on: the last member takes the place of the removed one.\<close>

definition remove_found ::
  "'a allocator \<Rightarrow> MetaNode \<Rightarrow> (dnode \<times> dnode) list \<Rightarrow> nat \<Rightarrow> 'a \<Rightarrow> (bool \<times> dnode \<times> 'a) option" where
  "remove_found A mt ms pos al =
     (let tl_pos = length ms - 1; tail = ms ! tl_pos; m = ms ! pos in
      if pos \<noteq> tl_pos then
        let (m_name, tail_name, al) = dn_move_assign A (fst m) (fst tail) al;
            (m_value, tail_value, al) = dn_move_assign A (snd m) (snd tail) al;
            ms = take tl_pos (ms[pos := (m_name, m_value), tl_pos := (tail_name, tail_value)]) in
        (case mt_map mt of
           None \<Rightarrow> Some (True, DObject (Some mt) ms, al)
         | Some mp \<Rightarrow> do {
             k \<leftarrow> GetStringView m_name;
             let (mp, al) = mm_erase A k tl_pos mp al;
             (mp, al) \<leftarrow> mm_emplace A k pos mp al;
             Some (True, DObject (Some (mt\<lparr>mt_map := Some mp\<rparr>)) ms, al)
           })
      else
        let al = dn_destroy A (fst m) al; al = dn_destroy A (snd m) al in
        Some (True, DObject (Some mt) (take tl_pos ms), al))"

definition removeMemberImpl :: "'a allocator \<Rightarrow> bytes \<Rightarrow> dnode \<Rightarrow> 'a \<Rightarrow> (bool \<times> dnode \<times> 'a) option" where
  "removeMemberImpl A key self al = (case self of
      DObject None ms \<Rightarrow> Some (False, self, al)
    | DObject (Some mt) ms \<Rightarrow>
        (case mt_map mt of
           Some mp \<Rightarrow>
             (case mm_find mp key of
                Some pos \<Rightarrow> (let (mp, al) = mm_erase A key pos mp al in remove_found A (mt\<lparr>mt_map := Some mp\<rparr>) ms pos al)
              | None \<Rightarrow> Some (False, self, al))
         | None \<Rightarrow> (let pos = find_linear ms key in
             if pos \<noteq> length ms then remove_found A mt ms pos al else Some (False, self, al)))
    | _ \<Rightarrow> None)"

text \<open>\<open>EraseMember\<close> and \<open>Erase\<close> of the positions \<open>first .. lst - 1\<close>.\<close>

definition eraseMemberImpl :: "'a allocator \<Rightarrow> nat \<Rightarrow> nat \<Rightarrow> dnode \<Rightarrow> 'a \<Rightarrow> (nat \<times> dnode \<times> 'a) option" where
  "eraseMemberImpl A first lst self al = (case self of
      DObject m ms \<Rightarrow> (let (m, al) = DestroyMap A m al; sz = length ms in
        if lst < first \<or> sz \<le> lst - first then Some (0, DObject None [], dn_destroy A (DObject m ms) al)
        else if sz < lst then None
        else let al = fold (\<lambda>p al. dn_destroy A (snd p) (dn_destroy A (fst p) al)) (take (lst - first) (drop first ms)) al in
          Some (first, DObject m (take first ms @ drop lst ms), al))
    | _ \<Rightarrow> None)"

subsection \<open>Arrays\<close>

definition k_default_array_cap :: nat where "k_default_array_cap = 16"

definition pushBackImpl :: "'a allocator \<Rightarrow> name_map option \<Rightarrow> dnode \<Rightarrow> dnode \<Rightarrow> 'a \<Rightarrow> (dnode \<times> dnode \<times> 'a) option" where
  "pushBackImpl A junk self val al = (case self of
      DArray m es \<Rightarrow>
        (let cap = capacityImpl m;
             (m', al) = (if cap \<le> length es
                then let new_cap = (if cap \<noteq> 0 then cap + (cap + 1) div 2 else k_default_array_cap) in
                  containerRealloc A junk sizeof_DNode m cap new_cap al
                else (m, al)) in
         case m' of
           None \<Rightarrow> Some (self, val, al)
         | Some mt \<Rightarrow> let (new, val) = dn_rawAssign val in Some (DArray (Some mt) (es @ [new]), val, al))
    | _ \<Rightarrow> None)"

definition popBackImpl :: "'a allocator \<Rightarrow> dnode \<Rightarrow> 'a \<Rightarrow> (dnode \<times> 'a) option" where
  "popBackImpl A self al = (case self of
      DArray m es \<Rightarrow> (if es = [] then None
        else Some (DArray m (take (length es - 1) es), dn_destroy A (es ! (length es - 1)) al))
    | _ \<Rightarrow> None)"

definition reserveImpl :: "'a allocator \<Rightarrow> name_map option \<Rightarrow> nat \<Rightarrow> dnode \<Rightarrow> 'a \<Rightarrow> (dnode \<times> 'a) option" where
  "reserveImpl A junk new_cap self al = (case self of
      DArray m es \<Rightarrow> Some
        (if capacityImpl m < new_cap then
           (case containerRealloc A junk sizeof_DNode m (capacityImpl m) new_cap al of
              (None, al) \<Rightarrow> (self, al)
            | (Some mt, al) \<Rightarrow> (DArray (Some mt) es, al))
         else (self, al))
    | _ \<Rightarrow> None)"

definition eraseImpl :: "'a allocator \<Rightarrow> nat \<Rightarrow> nat \<Rightarrow> dnode \<Rightarrow> 'a \<Rightarrow> (nat \<times> dnode \<times> 'a) option" where
  "eraseImpl A first lst self al = (case self of
      DArray m es \<Rightarrow>
        (if first \<le> lst \<and> lst \<le> length es then
           let al = fold (dn_destroy A) (take (lst - first) (drop first es)) al in
           Some (first, DArray m (take first es @ drop lst es), al)
         else None)
    | _ \<Rightarrow> None)"

subsection \<open>Copying and comparison\<close>

text \<open>
  The copying constructor. The children of an object are copied name by name and value by value; the copy has no map.
\<close>

function (sequential) copy_node :: "'a allocator \<Rightarrow> bool \<Rightarrow> dnode \<Rightarrow> 'a \<Rightarrow> dnode \<times> 'a"
  and copy_members :: "'a allocator \<Rightarrow> bool \<Rightarrow> (dnode \<times> dnode) list \<Rightarrow> 'a \<Rightarrow> (dnode \<times> dnode) list \<times> 'a"
  and copy_elems :: "'a allocator \<Rightarrow> bool \<Rightarrow> dnode list \<Rightarrow> 'a \<Rightarrow> dnode list \<times> 'a" where
  "copy_node A copyString (DObject m ms) al =
     (if length ms > 0 then case containerMalloc (al_Malloc A) sizeof_MemberNode (length ms) al of
          (None, al) \<Rightarrow> (DObject None [], al)
        | (Some mem, al) \<Rightarrow> (let (cs, al) = copy_members A copyString ms al in (DObject (Some mem) cs, al))
      else (DObject None [], al))"
| "copy_node A copyString (DArray m es) al =
     (if length es > 0 then case containerMalloc (al_Malloc A) sizeof_DNode (length es) al of
          (None, al) \<Rightarrow> (DArray None [], al)
        | (Some mem, al) \<Rightarrow> (let (cs, al) = copy_elems A copyString es al in (DArray (Some (mem\<lparr>mt_cap := length es\<rparr>)) cs, al))
      else (DArray None [], al))"
| "copy_node A copyString (DStr k s) al =
     (if k \<noteq> SConst \<or> copyString then StringCopy A s al else (DStr SConst s, al))"
| "copy_node A copyString (DNumStr own s) al = setRawLikeImpl_copy A s DNumStr DNull al"
| "copy_node A copyString (DRaw own s) al = setRawLikeImpl_copy A s DRaw DNull al"
| "copy_node A copyString d al = (d, al)"
| "copy_members A copyString [] al = ([], al)"
| "copy_members A copyString ((k, v) # ms) al =
     (let (k, al) = copy_node A copyString k al; (v, al) = copy_node A copyString v al;
          (ms, al) = copy_members A copyString ms al in ((k, v) # ms, al))"
| "copy_elems A copyString [] al = ([], al)"
| "copy_elems A copyString (e # es) al =
     (let (e, al) = copy_node A copyString e al; (es, al) = copy_elems A copyString es al in (e # es, al))"
  by pat_completeness auto
termination
  by (relation "measure (case_sum (\<lambda>p. size (fst (snd (snd p))))
    (case_sum (\<lambda>p. size_list (size_prod size size) (fst (snd (snd p)))) (\<lambda>p. size_list size (fst (snd (snd p))))))") simp_all

definition CopyFrom :: "'a allocator \<Rightarrow> bool \<Rightarrow> dnode \<Rightarrow> dnode \<Rightarrow> 'a \<Rightarrow> dnode \<times> 'a" where
  "CopyFrom A copyString rhs self al = copy_node A copyString rhs (dn_destroy A self al)"

text \<open>
  \<open>operator==\<close>. Strings are compared as views, numbers by their words; the view of a node that holds no
  string is a failed assertion.
\<close>

definition views_eq :: "dnode \<Rightarrow> dnode \<Rightarrow> bool option" where
  "views_eq d r = do { s \<leftarrow> GetStringView d; t \<leftarrow> GetStringView r; Some (s = t) }"

function (sequential) node_eq :: "dnode \<Rightarrow> dnode \<Rightarrow> bool option"
  and members_eq :: "(dnode \<times> dnode) list \<Rightarrow> MetaNode option \<Rightarrow> (dnode \<times> dnode) list \<Rightarrow> bool option"
  and elems_eq :: "dnode list \<Rightarrow> dnode list \<Rightarrow> bool option" where
  "node_eq (DObject m ms) r = (case r of
      DObject rm rms \<Rightarrow> if length ms \<noteq> length rms then Some False else members_eq ms rm rms
    | _ \<Rightarrow> Some False)"
| "node_eq (DArray m es) r = (case r of
      DArray rm res \<Rightarrow> if length es \<noteq> length res then Some False else elems_eq es res
    | _ \<Rightarrow> Some False)"
| "node_eq (DStr k s) r = (if dn_getBasicType r \<noteq> kString then Some False else views_eq (DStr k s) r)"
| "node_eq (DNumStr own s) r = (if dn_getBasicType r \<noteq> kNumber then Some False else views_eq (DNumStr own s) r)"
| "node_eq (DRaw own s) r = (if dn_getBasicType r \<noteq> kRaw then Some False else views_eq (DRaw own s) r)"
| "node_eq d r = Some (r = d)"
| "members_eq [] rm rms = Some True"
| "members_eq ((k, v) # ms) rm rms = do {
     key \<leftarrow> GetStringView k;
     let i = findMemberImpl rm rms key;
     (if i = length rms then Some False
      else do {
        b \<leftarrow> node_eq v (snd (rms ! i));
        if b then members_eq ms rm rms else Some False
      })
   }"
| "elems_eq (e # es) (r # rs) = do { b \<leftarrow> node_eq e r; if b then elems_eq es rs else Some False }"
| "elems_eq es rs = Some True"
  by pat_completeness auto
termination
  by (relation "measure (case_sum (\<lambda>p. size (fst p)) (case_sum (\<lambda>p. size_list (size_prod size size) (fst p))
    (\<lambda>p. size_list size (fst p))))") auto

end
