(* ===== verification/Sonic_NodeMembers.thy ===== *)
theory Sonic_NodeMembers
  imports Sonic_DynamicNode
begin

text \<open>
  The operations on the members of an object, one by one: a lookup contract that the scan and the map both provide, the
  upkeep of the map under additions and removals, and what each operation makes of the members.
\<close>

subsection \<open>Looking names up\<close>

text \<open>
  What the clients of a lookup rely on: it gives the position of a name, or the end when there is none.
  Both the scan and the map provide it.
\<close>

locale name_lookup =
  fixes find_name :: "'s \<Rightarrow> bytes \<Rightarrow> nat" and names :: "'s \<Rightarrow> bytes list" and valid :: "'s \<Rightarrow> bool"
  assumes find_le: "valid s \<Longrightarrow> find_name s k \<le> length (names s)"
    and find_end: "valid s \<Longrightarrow> find_name s k = length (names s) \<longleftrightarrow> k \<notin> set (names s)"
    and find_hit: "valid s \<Longrightarrow> find_name s k < length (names s) \<Longrightarrow> names s ! find_name s k = k"
begin

lemma find_present: "valid s \<Longrightarrow> k \<in> set (names s) \<Longrightarrow> find_name s k < length (names s)"
  using find_le find_end le_neq_implies_less by blast

lemma find_unique: "valid s \<Longrightarrow> distinct (names s) \<Longrightarrow> i < length (names s) \<Longrightarrow> find_name s (names s ! i) = i"
  using find_present [of s "names s ! i"] find_hit [of s "names s ! i"] by (simp add: nth_eq_iff_index_eq)

end

definition names_of :: "(dnode \<times> dnode) list \<Rightarrow> bytes list" where
  "names_of ms = map member_name ms"

definition named :: "(dnode \<times> dnode) list \<Rightarrow> bool" where
  "named ms \<longleftrightarrow> (\<forall>m \<in> set ms. is_DStr (fst m))"

lemma is_DStr_view: "is_DStr d \<Longrightarrow> \<exists>k s. d = DStr k s"
  by (cases d) simp_all

lemma named_view: "is_DStr (fst m) \<Longrightarrow> GetStringView (fst m) = Some (member_name m)"
  by (auto simp: member_name_def dest: is_DStr_view)

lemma length_names_of [simp]: "length (names_of ms) = length ms"
  by (simp add: names_of_def)

lemma find_linear_scan:
  assumes "named ms"
  shows "find_linear ms k \<le> length ms" "find_linear ms k = length ms \<longleftrightarrow> k \<notin> set (names_of ms)"
    "find_linear ms k < length ms \<Longrightarrow> names_of ms ! find_linear ms k = k"
  using assms by (induction ms) (auto simp: named_def names_of_def named_view)

interpretation scan: name_lookup find_linear names_of named
  by unfold_locales (simp_all add: find_linear_scan)

lemma map_ok_in: "map_ok ns mp \<Longrightarrow> (k, i) \<in> set mp \<longleftrightarrow> i < length ns \<and> ns ! i = k"
  by (auto simp: map_ok_def)

lemma mm_find_sound: "mm_find mp k = Some i \<Longrightarrow> (k, i) \<in> set mp"
  by (simp add: mm_find_def map_of_SomeD)

lemma mm_find_none: "mm_find mp k = None \<longleftrightarrow> (\<forall>i. (k, i) \<notin> set mp)"
  by (force simp: mm_find_def map_of_eq_None_iff)

lemma findFromMap_index:
  assumes "map_ok ns mp"
  shows "findFromMap mp (length ns) k \<le> length ns" "findFromMap mp (length ns) k = length ns \<longleftrightarrow> k \<notin> set ns"
    "findFromMap mp (length ns) k < length ns \<Longrightarrow> ns ! findFromMap mp (length ns) k = k"
proof -
  have "findFromMap mp (length ns) k = length ns \<and> k \<notin> set ns
      \<or> findFromMap mp (length ns) k < length ns \<and> ns ! findFromMap mp (length ns) k = k"
  proof (cases "mm_find mp k")
    case None
    then have "k \<notin> set ns" using map_ok_in [OF assms, of k] by (metis in_set_conv_nth mm_find_none)
    then show ?thesis by (simp add: findFromMap_def None)
  next
    case (Some i)
    then have "i < length ns \<and> ns ! i = k" using mm_find_sound map_ok_in [OF assms] by blast
    then show ?thesis by (simp add: findFromMap_def Some)
  qed
  then show "findFromMap mp (length ns) k \<le> length ns" "findFromMap mp (length ns) k = length ns \<longleftrightarrow> k \<notin> set ns"
    "findFromMap mp (length ns) k < length ns \<Longrightarrow> ns ! findFromMap mp (length ns) k = k"
    using nth_mem by fastforce+
qed

interpretation mapped: name_lookup "\<lambda>(mp, ms). findFromMap mp (length ms)" "\<lambda>(mp, ms). names_of ms"
    "\<lambda>(mp, ms). map_ok (names_of ms) mp"
  by unfold_locales (auto simp: findFromMap_index [of "names_of _", simplified])

definition obj_ok :: "MetaNode option \<times> (dnode \<times> dnode) list \<Rightarrow> bool" where
  "obj_ok = (\<lambda>(m, ms). named ms \<and> (case getMap m of None \<Rightarrow> True | Some mp \<Rightarrow> map_ok (names_of ms) mp))"

interpretation member: name_lookup "\<lambda>(m, ms). findMemberImpl m ms" "\<lambda>(m, ms). names_of ms" obj_ok
proof (unfold_locales, goal_cases)
  case (1 s k)
  then show ?case using scan.find_le mapped.find_le
    by (fastforce simp: findMemberImpl_def obj_ok_def split: prod.splits option.splits)
next
  case (2 s k)
  obtain m ms where s: "s = (m, ms)" by force
  show ?case using 2 scan.find_end [of ms k] mapped.find_end [of "(the (getMap m), ms)" k]
    by (auto simp: s findMemberImpl_def obj_ok_def split: option.splits)
next
  case (3 s k)
  obtain m ms where s: "s = (m, ms)" by force
  show ?case using 3 scan.find_hit [of ms k] mapped.find_hit [of "(the (getMap m), ms)" k]
    by (auto simp: s findMemberImpl_def obj_ok_def split: option.splits)
qed

subsection \<open>The type invariant\<close>

lemma node_ok_object:
  "node_ok (DObject m ms) \<longleftrightarrow> length ms \<le> capacityImpl m \<and> obj_ok (m, ms) \<and> (\<forall>x \<in> set ms. node_ok (snd x))"
  by (auto simp: meta_ok_def obj_ok_def named_def getMap_def names_of_def capacityImpl_def split: option.splits)

lemma node_ok_array: "node_ok (DArray m es) \<longleftrightarrow> length es \<le> capacityImpl m \<and> (\<forall>x \<in> set es. node_ok x)"
  by (auto simp: meta_ok_def capacityImpl_def split: option.splits)

declare node_ok.simps(1,2) [simp del]

lemmas node_ok_container = node_ok_object node_ok_array

lemma containerRealloc_some:
  assumes "containerRealloc A junk sz m oc n al = (Some mt, al')"
  shows "mt_cap mt = n" "m \<noteq> None \<Longrightarrow> mt_map mt = getMap m"
  using assms by (auto simp: containerRealloc_def Let_def getMap_def split: prod.splits bool.splits option.splits)

lemma member_room_some:
  assumes "member_room A junk m n al = (Some mt, al')" and "n \<le> capacityImpl m"
  shows "n < mt_cap mt" "mt_map mt = getMap m \<or> mt_map mt = None"
proof -
  consider "n < capacityImpl m" "m = Some mt"
    | "capacityImpl m = 0" "n = 0" "mt = new_MetaNode 16"
    | "capacityImpl m \<noteq> 0" "n = capacityImpl m" "containerRealloc A junk sizeof_MemberNode m n (n + (n + 1) div 2) al = (Some mt, al')"
  proof (cases "capacityImpl m \<le> n")
    case False
    then show ?thesis using assms(1) that(1) by (simp add: member_room_def)
  next
    case le: True
    show ?thesis
    proof (cases "capacityImpl m = 0")
      case True
      then have "containerMalloc (al_Malloc A) sizeof_MemberNode 16 al = (Some mt, al')"
        using assms(1) le by (simp add: member_room_def k_default_obj_cap_def)
      then have "mt = new_MetaNode 16" by (simp add: containerMalloc_def split: prod.splits bool.splits)
      then show ?thesis using that(2) True assms(2) by simp
    next
      case False
      then show ?thesis using that(3) assms le by (simp add: member_room_def Let_def)
    qed
  qed
  then have "n < mt_cap mt \<and> (mt_map mt = getMap m \<or> mt_map mt = None)"
  proof cases
    case 1
    then show ?thesis by (simp add: capacityImpl_def getMap_def)
  next
    case 2
    then show ?thesis by (simp add: new_MetaNode_def)
  next
    case 3
    then have "m \<noteq> None" by (cases m) (simp_all add: capacityImpl_def)
    then have "mt_map mt = getMap m" by (rule containerRealloc_some(2) [OF 3(3)])
    moreover have "n < mt_cap mt" using containerRealloc_some(1) [OF 3(3)] 3(1,2) by simp
    ultimately show ?thesis by blast
  qed
  then show "n < mt_cap mt" "mt_map mt = getMap m \<or> mt_map mt = None" by (rule conjunct1, rule conjunct2)
qed

subsection \<open>The map follows the members\<close>

lemma map_ok_iff: "map_ok ns mp \<longleftrightarrow> distinct (map snd mp) \<and> (\<forall>k i. (k, i) \<in> set mp \<longleftrightarrow> i < length ns \<and> ns ! i = k)"
  by (auto simp: map_ok_def)

lemma map_ok_append:
  assumes "map_ok ns mp"
  shows "map_ok (ns @ [k]) (mp @ [(k, length ns)])"
proof -
  note m = map_ok_in [OF assms]
  have "distinct (map snd (mp @ [(k, length ns)]))" using assms m by (auto simp: map_ok_iff)
  moreover have "(k', i) \<in> set (mp @ [(k, length ns)]) \<longleftrightarrow> i < length (ns @ [k]) \<and> (ns @ [k]) ! i = k'" for k' i
    using m [of k' i] by (auto simp: nth_append less_Suc_eq)
  ultimately show ?thesis unfolding map_ok_iff by blast
qed

lemma remove1_keyed:
  assumes "distinct (map snd mp)"
  shows "set (remove1 x mp) = set mp - {x}" "distinct (map snd (remove1 x mp))"
proof -
  have "distinct mp" using assms by (simp add: distinct_map)
  then show "set (remove1 x mp) = set mp - {x}" by simp
  show "distinct (map snd (remove1 x mp))"
    using assms by (auto simp: distinct_map intro: inj_on_diff)
qed

lemma map_ok_remove_last:
  assumes "map_ok ns mp" and "ns \<noteq> []"
  shows "map_ok (take (length ns - 1) ns) (remove1 (ns ! (length ns - 1), length ns - 1) mp)"
proof -
  have d: "distinct (map snd mp)" using assms(1) by (simp add: map_ok_iff)
  note r = remove1_keyed [OF d]
  have "(k, i) \<in> set mp - {(ns ! (length ns - 1), length ns - 1)} \<longleftrightarrow> i < length ns - 1 \<and> ns ! i = k" for k i
    using assms(2) map_ok_in [OF assms(1), of k i] by (cases "i = length ns - 1") auto
  then show ?thesis using r by (auto simp: map_ok_iff)
qed

lemma map_ok_remove_swap:
  assumes mp: "map_ok ns mp" and p: "p < t" and t: "t = length ns - 1"
  shows "map_ok (take t (ns[p := ns ! t])) (remove1 (ns ! t, t) (remove1 (ns ! p, p) mp) @ [(ns ! t, p)])"
    "(ns ! t, t) \<in> set (remove1 (ns ! p, p) mp)" "(ns ! p, p) \<in> set mp"
proof -
  note m = map_ok_in [OF mp]
  have d: "distinct (map snd mp)" using mp by (simp add: map_ok_iff)
  note r = remove1_keyed [OF d, of "(ns ! p, p)"] remove1_keyed [OF remove1_keyed(2) [OF d], of "(ns ! t, t)" "(ns ! p, p)"]
  have t': "t < length ns" using p t by simp
  have e: "k = ns ! t \<and> i = p \<or> (k, i) \<in> set mp - {(ns ! p, p)} - {(ns ! t, t)} \<longleftrightarrow> i < t \<and> take t (ns[p := ns ! t]) ! i = k" for k i
    using m [of k i] p t' t by (cases "i = p"; cases "i = t") auto
  have "p \<notin> snd ` (set mp - {(ns ! p, p)} - {(ns ! t, t)})" using m by auto
  then have "distinct (map snd (remove1 (ns ! t, t) (remove1 (ns ! p, p) mp) @ [(ns ! t, p)]))" using r by simp
  moreover have "(k, i) \<in> set (remove1 (ns ! t, t) (remove1 (ns ! p, p) mp) @ [(ns ! t, p)])
      \<longleftrightarrow> i < length (take t (ns[p := ns ! t])) \<and> take t (ns[p := ns ! t]) ! i = k" for k i
    using e [of k i] r t' by simp
  ultimately show "map_ok (take t (ns[p := ns ! t])) (remove1 (ns ! t, t) (remove1 (ns ! p, p) mp) @ [(ns ! t, p)])"
    unfolding map_ok_iff by blast
  show "(ns ! t, t) \<in> set (remove1 (ns ! p, p) mp)" "(ns ! p, p) \<in> set mp"
    using m r(1) p t' by auto
qed

subsection \<open>Each operation\<close>

definition never_fails :: "'a allocator \<Rightarrow> bool" where
  "never_fails A \<longleftrightarrow> (\<forall>sz al. fst (al_Malloc A sz al)) \<and> (\<forall>b k n al. fst (al_Realloc A b k n al))"

lemma never_failsD:
  assumes "never_fails A"
  shows "(False, al') \<noteq> al_Malloc A sz al" "(False, al') \<noteq> al_Realloc A b k n al"
    "al_Malloc A sz al \<noteq> (False, al')" "al_Realloc A b k n al \<noteq> (False, al')"
  using assms by (auto simp: never_fails_def dest: spec [of _ sz] spec [of _ al]) (metis fst_conv)+

definition obj_fits :: "MetaNode option \<Rightarrow> (dnode \<times> dnode) list \<Rightarrow> bool" where
  "obj_fits m ms \<longleftrightarrow> length ms \<le> capacityImpl m \<and> obj_ok (m, ms)"

lemma node_ok_fits: "node_ok (DObject m ms) \<longleftrightarrow> obj_fits m ms \<and> (\<forall>x \<in> set ms. node_ok (snd x))"
  by (auto simp: node_ok_object obj_fits_def)

lemma StringCopy_name: "StringCopy A s al = (nm, al') \<Longrightarrow> nm = DStr SFree s \<or> \<not> never_fails A \<and> nm = DStr SConst []"
  by (auto simp: StringCopy_def never_failsD split: prod.splits bool.splits)

lemma containerMalloc_never: "never_fails A \<Longrightarrow> fst (containerMalloc (al_Malloc A) sz n al) \<noteq> None"
  by (auto simp: containerMalloc_def never_failsD split: prod.splits bool.splits)

lemma containerRealloc_never: "never_fails A \<Longrightarrow> fst (containerRealloc A junk sz m oc n al) \<noteq> None"
  by (auto simp: containerRealloc_def Let_def never_failsD split: prod.splits bool.splits)

lemma member_room_keep:
  assumes "member_room A junk m n al = (None, al')" and "n \<le> capacityImpl m"
  shows "\<not> never_fails A"
proof
  assume "never_fails A"
  note N = containerMalloc_never [OF this, of sizeof_MemberNode 16 al]
    containerRealloc_never [OF this, of junk sizeof_MemberNode m "capacityImpl m" "capacityImpl m + (capacityImpl m + 1) div 2" al]
  show False
  proof (cases "capacityImpl m \<le> n")
    case True
    then show False using assms(1) N by (cases "capacityImpl m = 0") (simp_all add: member_room_def k_default_obj_cap_def Let_def)
  next
    case False
    then have "m = None" using assms(1) by (simp add: member_room_def)
    then show False using False by (simp add: capacityImpl_def)
  qed
qed

lemma mm_emplace_some: "mm_emplace A k i mp al = Some (mp', al') \<Longrightarrow> mp' = mp @ [(k, i)]"
  by (auto simp: mm_emplace_def split: prod.splits bool.splits)

lemma mm_emplace_never:
  "never_fails A \<Longrightarrow> mm_emplace A k i mp al = Some (mp @ [(k, i)], snd (al_Malloc A (al_sizeof_map_node A) al))"
  by (auto simp: mm_emplace_def never_failsD split: prod.splits bool.splits)

text \<open>What \<open>AddMember\<close> does to the members.\<close>

definition added :: "'a allocator \<Rightarrow> bytes \<Rightarrow> bool \<Rightarrow> dnode \<Rightarrow> (dnode \<times> dnode) list \<Rightarrow> (dnode \<times> dnode) list \<Rightarrow> dnode \<Rightarrow> bool" where
  "added A key copyKey v ms ms' v' \<longleftrightarrow>
     \<not> never_fails A \<and> ms' = ms \<and> v' = v
     \<or> v' = DNull \<and> (\<exists>nm. ms' = ms @ [(nm, v)] \<and> is_DStr nm
         \<and> (member_name (nm, v) = key \<or> \<not> never_fails A \<and> copyKey \<and> member_name (nm, v) = []))"

lemma obj_ok_grown: "obj_ok (m, ms) \<Longrightarrow> getMap m' = getMap m \<or> getMap m' = None \<Longrightarrow> obj_ok (m', ms)"
  by (auto simp: obj_ok_def)

lemma addMember_outcome:
  assumes ok: "obj_fits m ms" and r: "addMemberImpl A junk key cp (DObject m ms) v al = Some (i, d', v', al')"
  obtains m' ms' where "d' = DObject m' ms'" "i = length ms" "obj_fits m' ms'" "added A key cp v ms ms' v'"
proof (cases "member_room A junk m (length ms) al")
  case (Pair mo al1)
  show thesis
  proof (cases mo)
    case None
    then have "\<not> never_fails A" using ok by (intro member_room_keep [OF Pair [unfolded None]]) (simp add: obj_fits_def)
    then show thesis using r ok None Pair that [of m ms] by (auto simp: addMemberImpl_def Let_def added_def)
  next
    case (Some mt)
    note f = member_room_some [OF Pair [unfolded Some] conjunct1 [OF ok [unfolded obj_fits_def]]]
    obtain nm al2 where nm: "(if cp then setStringImpl_copy A key DNull al1 else setStringImpl A key DNull al1) = (nm, al2)" by force
    have n: "is_DStr nm" "nm \<noteq> DNull" "member_name (nm, v) = key \<or> \<not> never_fails A \<and> cp \<and> member_name (nm, v) = []"
      using nm by (auto simp: setStringImpl_copy_def setStringImpl_def member_name_def dest!: StringCopy_name split: if_splits)
    let ?ms = "ms @ [(nm, v)]"
    have fits: "obj_fits (Some mt) ?ms" if "mt_map mt = None"
      using that f ok n(1) by (auto simp: obj_fits_def capacityImpl_def obj_ok_def getMap_def named_def)
    have ad: "added A key cp v ms ?ms DNull" using n by (auto simp: added_def)
    show thesis
    proof (cases "mt_map mt")
      case None
      then show thesis using r nm n(2) Pair Some fits ad that [of "Some mt" ?ms]
        by (auto simp: addMemberImpl_def Let_def dn_rawAssign_def)
    next
      case mp: (Some mp)
      obtain k where k: "GetStringView nm = Some k" "k = member_name (nm, v)" using n(1) by (cases nm) (auto simp: member_name_def)
      obtain mp' al3 where e: "mm_emplace A k (length ms) mp al2 = Some (mp', al3)" "d' = DObject (Some (mt\<lparr>mt_map := Some mp'\<rparr>)) ?ms" "i = length ms" "v' = DNull"
        using r nm n(2) Pair Some mp k(1) by (auto simp: addMemberImpl_def Let_def dn_rawAssign_def bind_eq_Some_conv)
      have "map_ok (names_of ms) mp" using f(2) mp ok by (cases "getMap m") (auto simp: obj_fits_def obj_ok_def)
      then have "map_ok (names_of ?ms) mp'" using map_ok_append [of "names_of ms" mp k] mm_emplace_some [OF e(1)] k(2)
        by (simp add: names_of_def)
      then have "obj_fits (Some (mt\<lparr>mt_map := Some mp'\<rparr>)) ?ms" using f(1) ok n(1)
        by (auto simp: obj_fits_def capacityImpl_def obj_ok_def getMap_def named_def)
      then show thesis using e ad that by blast
    qed
  qed
qed

lemma new_name_view:
  assumes "(if cp then setStringImpl_copy A key DNull al1 else setStringImpl A key DNull al1) = (nm, al2)"
  shows "GetStringView nm \<noteq> None"
  using assms by (auto simp: setStringImpl_copy_def setStringImpl_def dest!: StringCopy_name split: if_splits)

lemma addMember_defined:
  assumes "never_fails A"
  shows "addMemberImpl A junk key cp (DObject m ms) v al \<noteq> None"
proof (cases "member_room A junk m (length ms) al")
  case (Pair mo al1)
  obtain nm al2 where nm: "(if cp then setStringImpl_copy A key DNull al1 else setStringImpl A key DNull al1) = (nm, al2)" by force
  then obtain k where "GetStringView nm = Some k" using new_name_view [OF nm] by auto
  then show ?thesis using Pair nm mm_emplace_never [OF assms]
    by (cases mo; cases "mt_map (the mo)"; cases "cp \<and> nm = DNull") (simp_all add: addMemberImpl_def Let_def dn_rawAssign_def bind_eq_None_conv split_paired_all split: prod.splits)
qed

text \<open>\<open>RemoveMember\<close>: the last member takes the place of the removed one.\<close>

definition swap_remove :: "nat \<Rightarrow> 'b list \<Rightarrow> 'b list" where
  "swap_remove i xs = take (length xs - 1) (xs[i := xs ! (length xs - 1)])"

lemma length_swap_remove [simp]: "length (swap_remove i xs) = length xs - 1"
  by (simp add: swap_remove_def)

lemma swap_remove_last: "i = length xs - 1 \<Longrightarrow> swap_remove i xs = take (length xs - 1) xs"
  by (simp add: swap_remove_def)

lemma set_swap_remove: "i < length xs \<Longrightarrow> set (swap_remove i xs) \<subseteq> set xs"
  by (auto simp: swap_remove_def dest!: in_set_takeD subsetD [OF set_update_subset_insert])

lemma map_swap_remove: "i < length xs \<Longrightarrow> map f (swap_remove i xs) = swap_remove i (map f xs)"
  by (simp add: swap_remove_def take_map [symmetric] map_update)

lemma remove_found_outcome:
  assumes nm: "named ms" and c: "length ms \<le> mt_cap mt" and p: "pos < length ms"
    and mp: "\<And>mp. mt_map mt = Some mp \<Longrightarrow> \<exists>mp0. map_ok (names_of ms) mp0 \<and> mp = remove1 (names_of ms ! pos, pos) mp0"
    and r: "remove_found A mt ms pos al = Some (b, d', al')"
  obtains m' where "b" "d' = DObject m' (swap_remove pos ms)" "obj_fits m' (swap_remove pos ms)"
proof -
  let ?t = "length ms - 1"
  have n': "named (swap_remove pos ms)" using nm set_swap_remove [OF p] by (auto simp: named_def)
  have ns: "names_of (swap_remove pos ms) = swap_remove pos (names_of ms)" by (simp add: names_of_def map_swap_remove p)
  have lt: "length ms - 1 \<le> mt_cap mt" using c by simp
  have plain: "obj_fits (Some mt) (swap_remove pos ms)" if "mt_map mt = None"
    using that n' lt by (simp add: obj_fits_def obj_ok_def getMap_def capacityImpl_def)
  show thesis
  proof (cases "pos = ?t")
    case True
    have "obj_fits (Some mt) (swap_remove pos ms)"
    proof (cases "mt_map mt")
      case (Some mp)
      then obtain mp0 where "map_ok (names_of ms) mp0" "mp = remove1 (names_of ms ! pos, pos) mp0" using mp by blast
      moreover have "names_of ms \<noteq> []" using p by (auto simp: names_of_def)
      moreover have "swap_remove pos (names_of ms) = take ?t (names_of ms)" using True by (simp add: swap_remove_last)
      ultimately have "map_ok (names_of (swap_remove pos ms)) mp"
        using map_ok_remove_last [of "names_of ms" mp0] True unfolding ns by simp
      then show ?thesis using n' lt Some by (simp add: obj_fits_def obj_ok_def getMap_def capacityImpl_def)
    qed (rule plain)
    moreover have "b" "d' = DObject (Some mt) (swap_remove pos ms)"
      using r True by (simp_all add: remove_found_def Let_def swap_remove_last)
    ultimately show thesis by (intro that)
  next
    case False
    then have lt': "pos < ?t" using p by simp
    have up: "take ?t (ms[pos := (fst (ms ! ?t), snd (ms ! ?t)), ?t := x]) = swap_remove pos ms" for x
      by (simp add: swap_remove_def take_update_cancel)
    show thesis
    proof (cases "mt_map mt")
      case None
      then have "b" "d' = DObject (Some mt) (swap_remove pos ms)" using r False up
        by (simp_all add: remove_found_def Let_def dn_move_assign_def dn_rawAssign_def split: prod.splits)
      then show thesis using plain [OF None] by (intro that)
    next
      case (Some mp)
      then obtain mp0 where m0: "map_ok (names_of ms) mp0" "mp = remove1 (names_of ms ! pos, pos) mp0" using mp by blast
      have "is_DStr (fst (ms ! ?t))" using nm p by (simp add: named_def)
      then have k: "GetStringView (fst (ms ! ?t)) = Some (names_of ms ! ?t)"
        using named_view p by (simp add: names_of_def)
      note R = map_ok_remove_swap [OF m0(1) lt', simplified, folded m0(2)]
      have er: "mm_erase A (names_of ms ! ?t) ?t mp al1 = (remove1 (names_of ms ! ?t, ?t) mp, al_Free A al1)" for al1
        using R(2) by (simp add: mm_erase_def)
      obtain mp' al3 al4 where e: "mm_emplace A (names_of ms ! ?t) pos (remove1 (names_of ms ! ?t, ?t) mp) al4 = Some (mp', al3)"
        "b" "d' = DObject (Some (mt\<lparr>mt_map := Some mp'\<rparr>)) (swap_remove pos ms)"
        using r False Some k er up
        by (auto simp: remove_found_def Let_def dn_move_assign_def dn_rawAssign_def bind_eq_Some_conv split: prod.splits)
      have "map_ok (names_of (swap_remove pos ms)) mp'"
        using R(1) mm_emplace_some [OF e(1)] unfolding ns by (simp add: swap_remove_def)
      then have "obj_fits (Some (mt\<lparr>mt_map := Some mp'\<rparr>)) (swap_remove pos ms)"
        using n' lt by (simp add: obj_fits_def obj_ok_def getMap_def capacityImpl_def)
      then show thesis using e(2,3) by (intro that)
    qed
  qed
qed

text \<open>What \<open>RemoveMember\<close> does to the members.\<close>

definition removed :: "bytes \<Rightarrow> (dnode \<times> dnode) list \<Rightarrow> (dnode \<times> dnode) list \<Rightarrow> bool \<Rightarrow> bool" where
  "removed key ms ms' b \<longleftrightarrow> (if b then \<exists>i < length ms. names_of ms ! i = key \<and> ms' = swap_remove i ms
     else key \<notin> set (names_of ms) \<and> ms' = ms)"

lemma removeMember_outcome:
  assumes ok: "obj_fits m ms" and r: "removeMemberImpl A key (DObject m ms) al = Some (b, d', al')"
  obtains m' ms' where "d' = DObject m' ms'" "obj_fits m' ms'" "removed key ms ms' b"
proof (cases m)
  case None
  then have "ms = []" using ok by (simp add: obj_fits_def capacityImpl_def)
  then show thesis using None r ok that [of m ms] by (simp add: removeMemberImpl_def removed_def names_of_def)
next
  case (Some mt)
  have nm: "named ms" and c: "length ms \<le> mt_cap mt" using ok by (simp_all add: Some obj_fits_def obj_ok_def capacityImpl_def)
  show thesis
  proof (cases "mt_map mt")
    case None
    then have None': "getMap m = None" by (simp add: Some getMap_def)
    show thesis
    proof (cases "find_linear ms key = length ms")
      case True
      then show thesis using r ok None scan.find_end [OF nm, of key] that [of m ms]
        by (simp add: removeMemberImpl_def removed_def Some)
    next
      case False
      then have p: "find_linear ms key < length ms" "names_of ms ! find_linear ms key = key"
        using find_linear_scan [OF nm, of key] by simp_all
      have "remove_found A mt ms (find_linear ms key) al = Some (b, d', al')"
        using r None False by (simp add: removeMemberImpl_def Some)
      from remove_found_outcome [OF nm c p(1) _ this] None obtain m' where
        "b" "d' = DObject m' (swap_remove (find_linear ms key) ms)" "obj_fits m' (swap_remove (find_linear ms key) ms)"
        by auto
      then show thesis using p by (intro that) (auto simp: removed_def)
    qed
  next
    case mp: (Some mp)
    then have ok': "map_ok (names_of ms) mp" using ok by (simp add: Some obj_fits_def obj_ok_def getMap_def)
    show thesis
    proof (cases "mm_find mp key")
      case None
      then have "key \<notin> set (names_of ms)" using map_ok_in [OF ok', of key] by (metis in_set_conv_nth mm_find_none)
      then show thesis using r ok mp None that [of m ms] by (simp add: removeMemberImpl_def removed_def Some)
    next
      case pos: (Some pos)
      then have i: "(key, pos) \<in> set mp" by (rule mm_find_sound)
      then have p: "pos < length ms" "names_of ms ! pos = key" using map_ok_in [OF ok'] by simp_all
      have "remove_found A (mt\<lparr>mt_map := Some (remove1 (key, pos) mp)\<rparr>) ms pos (al_Free A al) = Some (b, d', al')"
        using r mp pos i by (simp add: removeMemberImpl_def Some mm_erase_def)
      from remove_found_outcome [OF nm _ p(1) _ this] ok' c p(2) obtain m' where
        "b" "d' = DObject m' (swap_remove pos ms)" "obj_fits m' (swap_remove pos ms)" by auto
      then show thesis using p by (intro that) (auto simp: removed_def)
    qed
  qed
qed

lemma remove_found_defined:
  assumes A: "never_fails A" and "named ms" and "pos < length ms"
  shows "remove_found A mt ms pos al \<noteq> None"
proof -
  have "is_DStr (fst (ms ! (length ms - 1)))" using assms by (simp add: named_def)
  then have "GetStringView (fst (ms ! (length ms - 1))) = Some (member_name (ms ! (length ms - 1)))" by (rule named_view)
  then show ?thesis using mm_emplace_never [OF A]
    by (auto simp: remove_found_def Let_def dn_move_assign_def dn_rawAssign_def split: prod.splits option.splits)
qed

lemma removeMember_defined:
  assumes A: "never_fails A" and ok: "obj_fits m ms"
  shows "removeMemberImpl A key (DObject m ms) al \<noteq> None"
proof (cases m)
  case (Some mt)
  have nm: "named ms" using ok by (simp add: obj_fits_def obj_ok_def)
  have f: "pos < length ms" if "mt_map mt = Some mp" "mm_find mp key = Some pos" for mp pos
    using ok that mm_find_sound [OF that(2)] by (auto simp: Some obj_fits_def obj_ok_def getMap_def map_ok_in)
  have l: "find_linear ms key \<noteq> length ms \<Longrightarrow> find_linear ms key < length ms" using find_linear_scan(1) [OF nm, of key] by simp
  show ?thesis using remove_found_defined [OF A nm] f l
    by (auto simp: removeMemberImpl_def Some Let_def split: option.splits prod.splits)
qed (simp add: removeMemberImpl_def)

lemma containerRealloc_fits:
  assumes "containerRealloc A junk sz m (capacityImpl m) n al = (Some mt, al')" and "capacityImpl m < n" and "obj_fits m ms"
  shows "obj_fits (Some (if capacityImpl m = 0 then mt\<lparr>mt_map := None\<rparr> else mt)) ms"
proof (cases "capacityImpl m = 0")
  case True
  then have "ms = []" using assms(3) by (simp add: obj_fits_def)
  then show ?thesis using True by (simp add: obj_fits_def obj_ok_def getMap_def named_def)
next
  case False
  then have "m \<noteq> None" by (cases m) (simp_all add: capacityImpl_def)
  then have "mt_map mt = getMap m" by (rule containerRealloc_some(2) [OF assms(1)])
  then show ?thesis using assms(2,3) False containerRealloc_some(1) [OF assms(1)]
    by (cases "getMap m") (auto simp: obj_fits_def obj_ok_def getMap_def capacityImpl_def)
qed

lemma memberReserve_outcome:
  assumes "obj_fits m ms"
  obtains m' al' where "memberReserveImpl A junk n (DObject m ms) al = Some (DObject m' ms, al')" "obj_fits m' ms"
proof (cases "capacityImpl m < n")
  case True
  obtain mo al1 where e: "containerRealloc A junk sizeof_MemberNode m (capacityImpl m) n al = (mo, al1)" by force
  show thesis
  proof (cases mo)
    case None
    then show thesis using True e assms that by (simp add: memberReserveImpl_def)
  next
    case (Some mt)
    then show thesis using True e containerRealloc_fits [OF e [unfolded Some] True assms] that
      by (simp add: memberReserveImpl_def Let_def)
  qed
next
  case False
  then show thesis using assms that by (simp add: memberReserveImpl_def)
qed

lemma emplace_all_ok:
  assumes "named ms" and "map_ok ns mp" and "emplace_all A ms (length ns) mp al = Some (mp', al')"
  shows "map_ok (ns @ names_of ms) mp'"
  using assms
proof (induction ms arbitrary: ns mp al)
  case (Cons m ms)
  have v: "GetStringView (fst m) = Some (member_name m)" using Cons.prems(1) named_view by (simp add: named_def)
  obtain mp1 al1 where e: "mm_emplace A (member_name m) (length ns) mp al = Some (mp1, al1)"
    "emplace_all A ms (length (ns @ [member_name m])) mp1 al1 = Some (mp', al')"
    using Cons.prems(3) v by (auto simp: bind_eq_Some_conv)
  have "map_ok (ns @ [member_name m]) mp1" using map_ok_append [OF Cons.prems(2)] mm_emplace_some [OF e(1)] by simp
  from Cons.IH [OF _ this e(2)] Cons.prems(1) show ?case by (simp add: named_def names_of_def)
qed (simp add: names_of_def)

lemma emplace_all_defined: "never_fails A \<Longrightarrow> named ms \<Longrightarrow> \<exists>mp' al'. emplace_all A ms i mp al = Some (mp', al')"
  by (induction ms arbitrary: i mp al) (auto simp: named_def named_view mm_emplace_never)

lemma CreateMap_outcome:
  assumes ok: "obj_fits m ms" and r: "CreateMap A junk (DObject m ms) al = Some (b, d', al')"
  obtains m' where "d' = DObject m' ms" "obj_fits m' ms" "b = (getMap m' \<noteq> None)"
proof -
  obtain m1 al1 where m1: "(if m = None then memberReserveImpl A junk 16 (DObject m ms) al else Some (DObject m ms, al)) = Some (DObject m1 ms, al1)"
    "obj_fits m1 ms"
    using memberReserve_outcome [OF ok, of A junk 16 al] ok by (metis (no_types))
  show thesis
  proof (cases m1)
    case None
    then show thesis using r m1 that [of m1] by (simp add: CreateMap_def getMap_def)
  next
    case (Some mt)
    show thesis
    proof (cases "mt_map mt = None")
      case False
      then show thesis using r m1 Some that [of m1] by (auto simp: CreateMap_def getMap_def)
    next
      case True
      obtain b1 al2 where a: "al_Malloc A (al_sizeof_map A) al1 = (b1, al2)" by force
      show thesis
      proof (cases b1)
        case False
        then show thesis using r m1 Some True a that [of m1] by (simp add: CreateMap_def getMap_def)
      next
        case b1: True
        obtain mp al3 where e: "emplace_all A ms 0 [] al2 = Some (mp, al3)"
          "d' = DObject (Some (mt\<lparr>mt_map := Some mp\<rparr>)) ms" "b"
          using r m1 Some True a b1 by (auto simp: CreateMap_def bind_eq_Some_conv)
        have nm: "named ms" using m1(2) by (simp add: obj_fits_def obj_ok_def)
        have "map_ok (names_of ms) mp" using emplace_all_ok [OF nm, of "[]" "[]" A al2 mp al3] e(1) by (simp add: map_ok_def)
        then have "obj_fits (Some (mt\<lparr>mt_map := Some mp\<rparr>)) ms" using m1(2) nm
          by (simp add: Some obj_fits_def obj_ok_def getMap_def capacityImpl_def)
        then show thesis using e by (intro that) (auto simp: getMap_def)
      qed
    qed
  qed
qed

lemma CreateMap_defined:
  assumes A: "never_fails A" and ok: "obj_fits m ms"
  shows "CreateMap A junk (DObject m ms) al \<noteq> None"
proof -
  obtain m1 al1 where m1: "(if m = None then memberReserveImpl A junk 16 (DObject m ms) al else Some (DObject m ms, al)) = Some (DObject m1 ms, al1)"
    using memberReserve_outcome [OF ok, of A junk 16 al] by (metis (no_types))
  have nm: "named ms" using ok by (simp add: obj_fits_def obj_ok_def)
  have "CreateMap A junk (DObject m ms) al \<noteq> None" if "m1 = Some mt" "mt_map mt = None" "al_Malloc A (al_sizeof_map A) al1 = (b, al2)" for mt b al2
  proof -
    obtain mp al3 where "emplace_all A ms 0 [] al2 = Some (mp, al3)" using emplace_all_defined [OF A nm] by blast
    then show ?thesis using that never_failsD(3) [OF A] by (cases b) (simp_all add: CreateMap_def m1)
  qed
  then show ?thesis by (cases m1; cases "mt_map (the m1)"; cases "al_Malloc A (al_sizeof_map A) al1") (auto simp: CreateMap_def m1)
qed

lemma DestroyMap_outcome:
  assumes "obj_fits m ms"
  obtains m' al' where "DestroyMap A m al = (m', al')" "getMap m' = None" "capacityImpl m' = capacityImpl m" "obj_fits m' ms"
proof (cases "getMap m")
  case None
  then show thesis using assms by (intro that [of m al]) (auto simp: DestroyMap_def getMap_def split: option.splits)
next
  case (Some mp)
  then obtain mt where "m = Some mt" "mt_map mt = Some mp" by (auto simp: getMap_def split: option.splits)
  then show thesis using assms
    by (intro that [of "Some (mt\<lparr>mt_map := None\<rparr>)"]) (auto simp: DestroyMap_def getMap_def capacityImpl_def obj_fits_def obj_ok_def)
qed

lemma eraseMember_outcome:
  assumes ok: "obj_fits m ms" and r: "eraseMemberImpl A f l (DObject m ms) al = Some (i, d', al')"
  obtains m' ms' where "d' = DObject m' ms'" "obj_fits m' ms'"
    "if l < f \<or> length ms \<le> l - f then ms' = [] else f \<le> l \<and> l \<le> length ms \<and> ms' = take f ms @ drop l ms"
proof -
  obtain m1 al1 where m1: "DestroyMap A m al = (m1, al1)" "getMap m1 = None" "capacityImpl m1 = capacityImpl m" "obj_fits m1 ms"
    by (rule DestroyMap_outcome [OF ok])
  have e: "obj_fits None []" by (simp add: obj_fits_def obj_ok_def named_def getMap_def)
  show thesis
  proof (cases "l < f \<or> length ms \<le> l - f")
    case True
    then show thesis using r m1 e that [of None "[]"] by (auto simp: eraseMemberImpl_def Let_def)
  next
    case False
    then have r': "d' = DObject m1 (take f ms @ drop l ms)" "l \<le> length ms"
      using r m1 by (auto simp: eraseMemberImpl_def Let_def split: if_splits)
    have "named (take f ms @ drop l ms)" using m1(4) by (auto simp: obj_fits_def obj_ok_def named_def dest: in_set_takeD in_set_dropD)
    then have "obj_fits m1 (take f ms @ drop l ms)" using m1 False by (auto simp: obj_fits_def obj_ok_def)
    then show thesis using r' False by (intro that) auto
  qed
qed

end
