(* ===== verification/Sonic_NodeOps.thy ===== *)
theory Sonic_NodeOps
  imports Sonic_NodeMembers
begin

text \<open>
  Sequences of node operations: an object refines a plain list of names and values, under failing allocations too, and
  lookups agree with that list.
\<close>

subsection \<open>Runs of operations\<close>

text \<open>An operation of the interface with its arguments; the value passed to an operation dies after it.\<close>

datatype node_op =
    AddMember "name_map option" bytes bool dnode
  | RemoveMember bytes
  | EraseMember nat nat
  | MemberReserve "name_map option" nat
  | MakeMap "name_map option"
  | DropMap
  | PushBack "name_map option" dnode
  | PopBack
  | Reserve "name_map option" nat
  | EraseElems nat nat
  | Clear
  | SetNull | SetArray | SetObject | SetStringCopy bytes | SetStringNumberCopy bytes
  | MoveFrom dnode
  | CopyOf bool dnode

fun node_step :: "'a allocator \<Rightarrow> node_op \<Rightarrow> dnode \<times> 'a \<Rightarrow> (dnode \<times> 'a) option" where
  "node_step A (AddMember junk key cp v) (d, al) =
     do { (i, d, v, al) \<leftarrow> addMemberImpl A junk key cp d v al; Some (d, dn_destroy A v al) }"
| "node_step A (RemoveMember key) (d, al) = map_option snd (removeMemberImpl A key d al)"
| "node_step A (EraseMember f l) (d, al) = map_option snd (eraseMemberImpl A f l d al)"
| "node_step A (MemberReserve junk n) (d, al) = memberReserveImpl A junk n d al"
| "node_step A (MakeMap junk) (d, al) = map_option snd (CreateMap A junk d al)"
| "node_step A DropMap (d, al) = (case d of
     DObject m ms \<Rightarrow> (let (m, al) = DestroyMap A m al in Some (DObject m ms, al)) | _ \<Rightarrow> None)"
| "node_step A (PushBack junk v) (d, al) = do { (d, v, al) \<leftarrow> pushBackImpl A junk d v al; Some (d, dn_destroy A v al) }"
| "node_step A PopBack (d, al) = popBackImpl A d al"
| "node_step A (Reserve junk n) (d, al) = reserveImpl A junk n d al"
| "node_step A (EraseElems f l) (d, al) = map_option snd (eraseImpl A f l d al)"
| "node_step A Clear (d, al) = clearImpl A d al"
| "node_step A SetNull (d, al) = Some (setNullImpl A d al)"
| "node_step A SetArray (d, al) = Some (setArrayImpl A d al)"
| "node_step A SetObject (d, al) = Some (setObjectImpl A d al)"
| "node_step A (SetStringCopy s) (d, al) = Some (setStringImpl_copy A s d al)"
| "node_step A (SetStringNumberCopy s) (d, al) = Some (setRawLikeImpl_copy A s DNumStr d al)"
| "node_step A (MoveFrom v) (d, al) = (let (d, v, al) = dn_move_assign A d v al in Some (d, dn_destroy A v al))"
| "node_step A (CopyOf cs r) (d, al) = Some (CopyFrom A cs r d al)"

fun node_run :: "'a allocator \<Rightarrow> node_op list \<Rightarrow> dnode \<times> 'a \<Rightarrow> (dnode \<times> 'a) option" where
  "node_run A [] s = Some s"
| "node_run A (op # ops) s = do { s \<leftarrow> node_step A op s; node_run A ops s }"

fun op_value :: "node_op \<Rightarrow> dnode list" where
  "op_value (AddMember junk key cp v) = [v]"
| "op_value (PushBack junk v) = [v]"
| "op_value (MoveFrom v) = [v]"
| "op_value (CopyOf cs r) = [r]"
| "op_value op = []"

definition op_ok :: "node_op \<Rightarrow> bool" where
  "op_ok op \<longleftrightarrow> (\<forall>v \<in> set (op_value op). node_ok v)"

text \<open>What an operation on an object may do to its list of names and values.\<close>

definition abs_members :: "(dnode \<times> dnode) list \<Rightarrow> (bytes \<times> dnode) list" where
  "abs_members = map (\<lambda>m. (member_name m, snd m))"

inductive member_spec :: "bool \<Rightarrow> (bytes \<times> dnode) list \<Rightarrow> node_op \<Rightarrow> (bytes \<times> dnode) list \<Rightarrow> bool" for may_fail where
  spec_add: "member_spec may_fail xs (AddMember junk k cp v) (xs @ [(k, v)])"
| spec_add_fails: "may_fail \<Longrightarrow> member_spec may_fail xs (AddMember junk k cp v) xs"
| spec_add_unnamed: "may_fail \<Longrightarrow> member_spec may_fail xs (AddMember junk k True v) (xs @ [([], v)])"
| spec_remove: "i < length xs \<Longrightarrow> fst (xs ! i) = k \<Longrightarrow> member_spec may_fail xs (RemoveMember k) (swap_remove i xs)"
| spec_remove_none: "k \<notin> fst ` set xs \<Longrightarrow> member_spec may_fail xs (RemoveMember k) xs"
| spec_erase: "f \<le> l \<Longrightarrow> l \<le> length xs \<Longrightarrow> member_spec may_fail xs (EraseMember f l) (take f xs @ drop l xs)"
| spec_erase_all: "l < f \<or> length xs \<le> l - f \<Longrightarrow> member_spec may_fail xs (EraseMember f l) []"
| spec_reserve: "member_spec may_fail xs (MemberReserve junk n) xs"
| spec_map: "member_spec may_fail xs (MakeMap junk) xs"
| spec_unmap: "member_spec may_fail xs DropMap xs"

inductive member_runs :: "bool \<Rightarrow> (bytes \<times> dnode) list \<Rightarrow> node_op list \<Rightarrow> (bytes \<times> dnode) list \<Rightarrow> bool" for may_fail where
  "member_runs may_fail xs [] xs"
| "member_spec may_fail xs op ys \<Longrightarrow> member_runs may_fail ys ops zs \<Longrightarrow> member_runs may_fail xs (op # ops) zs"

fun member_op :: "node_op \<Rightarrow> bool" where
  "member_op (AddMember junk key cp v) = True"
| "member_op (RemoveMember key) = True"
| "member_op (EraseMember f l) = True"
| "member_op (MemberReserve junk n) = True"
| "member_op (MakeMap junk) = True"
| "member_op DropMap = True"
| "member_op op = False"

lemma abs_members_simps [simp]: "abs_members [] = []" "abs_members (ms @ ns) = abs_members ms @ abs_members ns"
  "abs_members [m] = [(member_name m, snd m)]" "length (abs_members ms) = length ms"
  by (simp_all add: abs_members_def)

lemma names_of_abs: "names_of ms = map fst (abs_members ms)"
  by (simp add: names_of_def abs_members_def)

lemma abs_take_drop: "abs_members (take n ms) = take n (abs_members ms)" "abs_members (drop n ms) = drop n (abs_members ms)"
  by (simp_all add: abs_members_def take_map drop_map)

lemma added_spec: "added A key cp v ms ms' v' \<Longrightarrow> member_spec (\<not> never_fails A) (abs_members ms) (AddMember junk key cp v) (abs_members ms')"
  unfolding added_def by (auto simp: member_name_def intro: member_spec.intros)

lemma removed_spec:
  assumes "removed key ms ms' b"
  shows "member_spec f (abs_members ms) (RemoveMember key) (abs_members ms')"
proof (cases b)
  case True
  then obtain i where i: "i < length ms" "names_of ms ! i = key" "ms' = swap_remove i ms" using assms by (auto simp: removed_def)
  have "abs_members ms' = swap_remove i (abs_members ms)" using i by (simp add: abs_members_def map_swap_remove)
  moreover have "member_spec f (abs_members ms) (RemoveMember key) (swap_remove i (abs_members ms))"
    by (rule spec_remove) (use i in \<open>simp_all add: names_of_abs\<close>)
  ultimately show ?thesis by simp
next
  case False
  then have "key \<notin> fst ` set (abs_members ms)" "ms' = ms" using assms by (simp_all add: removed_def names_of_abs)
  then show ?thesis by (simp add: spec_remove_none)
qed

lemma member_step:
  assumes ok: "obj_fits m ms" and op: "member_op op" and r: "node_step A op (DObject m ms, al) = Some (d', al')"
  obtains m' ms' where "d' = DObject m' ms'" "obj_fits m' ms'" "member_spec (\<not> never_fails A) (abs_members ms) op (abs_members ms')"
    "snd ` set ms' \<subseteq> snd ` set ms \<union> set (op_value op)"
proof (cases op)
  case (AddMember junk key cp v)
  then obtain i v' al1 where "addMemberImpl A junk key cp (DObject m ms) v al = Some (i, d', v', al1)" using r by (auto simp: bind_eq_Some_conv)
  from addMember_outcome [OF ok this] obtain m' ms' where o: "d' = DObject m' ms'" "obj_fits m' ms'" "added A key cp v ms ms' v'" by metis
  then have "snd ` set ms' \<subseteq> snd ` set ms \<union> {v}" by (auto simp: added_def)
  then show thesis using o added_spec [OF o(3), of junk] by (intro that [of m' ms']) (simp_all add: AddMember)
next
  case (RemoveMember key)
  then obtain b where "removeMemberImpl A key (DObject m ms) al = Some (b, d', al')" using r by auto
  from removeMember_outcome [OF ok this] obtain m' ms' where o: "d' = DObject m' ms'" "obj_fits m' ms'" "removed key ms ms' b" by metis
  then have "set ms' \<subseteq> set ms" using set_swap_remove by (fastforce simp: removed_def split: if_splits)
  then have "snd ` set ms' \<subseteq> snd ` set ms \<union> set (op_value op)" by blast
  then show thesis using o(1,2) removed_spec [OF o(3)] by (intro that [of m' ms']) (simp_all add: RemoveMember)
next
  case (EraseMember f l)
  then obtain i where "eraseMemberImpl A f l (DObject m ms) al = Some (i, d', al')" using r by auto
  from eraseMember_outcome [OF ok this] obtain m' ms' where o: "d' = DObject m' ms'" "obj_fits m' ms'"
    "if l < f \<or> length ms \<le> l - f then ms' = [] else f \<le> l \<and> l \<le> length ms \<and> ms' = take f ms @ drop l ms" by metis
  have s: "set ms' \<subseteq> set ms" using o(3) by (auto split: if_splits dest: in_set_takeD in_set_dropD)
  have "member_spec (\<not> never_fails A) (abs_members ms) op (abs_members ms')"
  proof (cases "l < f \<or> length ms \<le> l - f")
    case True
    then have "member_spec (\<not> never_fails A) (abs_members ms) op []" unfolding EraseMember by (intro spec_erase_all) simp
    then show ?thesis using True o(3) by simp
  next
    case False
    then have "member_spec (\<not> never_fails A) (abs_members ms) op (take f (abs_members ms) @ drop l (abs_members ms))"
      unfolding EraseMember using o(3) by (intro spec_erase) simp_all
    then show ?thesis using False o(3) by (simp add: abs_take_drop)
  qed
  then show thesis using o(1,2) s that by blast
next
  case (MemberReserve junk n)
  obtain m' where "d' = DObject m' ms" "obj_fits m' ms" using memberReserve_outcome [OF ok, of A junk n al] r MemberReserve by (metis node_step.simps(4) option.inject prod.inject)
  then show thesis using that [of m' ms] spec_reserve MemberReserve by blast
next
  case (MakeMap junk)
  then obtain b where "CreateMap A junk (DObject m ms) al = Some (b, d', al')" using r by auto
  from CreateMap_outcome [OF ok this] obtain m' where "d' = DObject m' ms" "obj_fits m' ms" by metis
  then show thesis using that [of m' ms] spec_map MakeMap by blast
next
  case DropMap
  obtain m' where "d' = DObject m' ms" "obj_fits m' ms" using DestroyMap_outcome [OF ok, of A al] r DropMap by (auto simp: Let_def split: prod.splits)
  then show thesis using that [of m' ms] spec_unmap DropMap by blast
qed (use op in simp_all)

lemma member_step_defined:
  assumes A: "never_fails A" and ok: "obj_fits m ms" and op: "member_op op" "\<nexists>f l. op = EraseMember f l"
  shows "node_step A op (DObject m ms, al) \<noteq> None"
proof (cases op)
  case (AddMember junk key cp v)
  then show ?thesis using addMember_defined [OF A, of junk key cp m ms v al] by auto
next
  case (RemoveMember key)
  then show ?thesis using removeMember_defined [OF A ok, of key al] by auto
next
  case (MemberReserve junk n)
  then show ?thesis using memberReserve_outcome [OF ok, of A junk n al] by (metis node_step.simps(4) option.distinct(1))
next
  case (MakeMap junk)
  then show ?thesis using CreateMap_defined [OF A ok, of junk al] by auto
qed (use op in \<open>auto split: prod.splits\<close>)

lemma member_run:
  assumes "node_ok (DObject m ms)" and "\<forall>op \<in> set ops. member_op op \<and> op_ok op"
  shows "case node_run A ops (DObject m ms, al) of
      None \<Rightarrow> \<not> never_fails A \<or> (\<exists>f l. EraseMember f l \<in> set ops)
    | Some (d', al') \<Rightarrow> \<exists>m' ms'. d' = DObject m' ms' \<and> node_ok (DObject m' ms')
        \<and> member_runs (\<not> never_fails A) (abs_members ms) ops (abs_members ms')"
  using assms
proof (induction ops arbitrary: m ms al)
  case Nil
  then show ?case by (auto intro: member_runs.intros)
next
  case (Cons op ops)
  have fits: "obj_fits m ms" and vals: "\<forall>x \<in> set ms. node_ok (snd x)" using Cons.prems(1) by (simp_all add: node_ok_fits)
  show ?case
  proof (cases "node_step A op (DObject m ms, al)")
    case None
    then show ?thesis using member_step_defined [OF _ fits, of A op al] Cons.prems(2) by auto
  next
    case (Some s)
    obtain d1 al1 where s: "s = (d1, al1)" by force
    have op: "member_op op" using Cons.prems(2) by simp
    obtain m1 ms1 where o: "d1 = DObject m1 ms1" "obj_fits m1 ms1" "member_spec (\<not> never_fails A) (abs_members ms) op (abs_members ms1)"
      "snd ` set ms1 \<subseteq> snd ` set ms \<union> set (op_value op)"
      by (rule member_step [OF fits op Some [unfolded s]])
    have "\<forall>v \<in> snd ` set ms1. node_ok v" using vals Cons.prems(2) by (auto simp: op_ok_def dest!: subsetD [OF o(4) imageI])
    then have ok1: "node_ok (DObject m1 ms1)" using o(2) by (simp add: node_ok_fits)
    have rest: "\<forall>op \<in> set ops. member_op op \<and> op_ok op" using Cons.prems(2) by simp
    show ?thesis using Cons.IH [OF ok1 rest, of al1] member_runs.intros(2) [OF o(3)]
      by (auto simp: Some s o(1) split: option.splits)
  qed
qed


definition giving_alloc :: "int allocator" where
  "giving_alloc = \<lparr>al_Malloc = (\<lambda>n k. (True, k + 1)), al_Realloc = (\<lambda>b k n l. (True, if b then l + 1 else l)),
     al_Free = (\<lambda>k. k - 1), al_kNeedFree = True, al_sizeof_map = 56, al_sizeof_map_node = 56\<rparr>"

lemma giving_alloc_never_fails: "never_fails giving_alloc"
  by (simp add: never_fails_def giving_alloc_def)

definition sample_ops :: "node_op list" where
  "sample_ops = [AddMember None [97] True (DUint 1), MakeMap None, AddMember None [98] False DNull,
     AddMember None [97] True (DBool True), RemoveMember [98], RemoveMember [97], RemoveMember [99]]"

lemma sample_ops_run: "node_run giving_alloc sample_ops (DObject None [], 0)
    = Some (DObject (Some \<lparr>mt_cap = 16, mt_map = Some [([97], 0)]\<rparr>) [(DStr SFree [97], DBool True)], 4)"
  by code_simp


text \<open>
  C31: Looking a name up, by scanning the members or in the map, gives the position of a member of that name exactly
  when there is one; where no name occurs twice, the lookup in the map and the scan give the same member.
\<close>

theorem member_lookup:
  assumes "node_ok (DObject m ms)"
  shows "findMemberImpl m ms key \<le> length ms \<and> (findMemberImpl m ms key = length ms \<longleftrightarrow> key \<notin> set (names_of ms))
    \<and> (findMemberImpl m ms key < length ms \<longrightarrow> names_of ms ! findMemberImpl m ms key = key)
    \<and> (distinct (names_of ms) \<longrightarrow> findMemberImpl m ms key = find_linear ms key)"
proof -
  have v: "obj_ok (m, ms)" "named ms" using assms by (simp_all add: node_ok_fits obj_fits_def obj_ok_def)
  note F = member.find_le [OF v(1), of key] member.find_end [OF v(1), of key] member.find_hit [OF v(1), of key]
  have "findMemberImpl m ms key = find_linear ms key" if "distinct (names_of ms)"
  proof (cases "key \<in> set (names_of ms)")
    case True
    then have "find_linear ms key < length ms" "names_of ms ! find_linear ms key = key" using find_linear_scan [OF v(2), of key] by auto
    then show ?thesis using member.find_unique [OF v(1), of "find_linear ms key"] that by simp
  next
    case False
    then show ?thesis using F(2) find_linear_scan(2) [OF v(2), of key] by simp
  qed
  then show ?thesis using F by simp
qed

lemma member_lookup_witness:
  "findMemberImpl (Some \<lparr>mt_cap = 2, mt_map = Some [([98], 1), ([97], 0)]\<rparr>) [(DStr SConst [97], DNull), (DStr SConst [98], DNull)] [98]
     = find_linear [(DStr SConst [97], DNull), (DStr SConst [98], DNull)] [98]"
proof -
  let ?ms = "[(DStr SConst [97], DNull), (DStr SConst [98], DNull)] :: (dnode \<times> dnode) list"
  have n: "names_of ?ms = [[97], [98]]" by (simp add: names_of_def member_name_def)
  have "map_ok (names_of ?ms) [([98], 1), ([97], 0)]" unfolding n map_ok_iff by (auto simp: less_Suc_eq nth_Cons')
  then have "node_ok (DObject (Some \<lparr>mt_cap = 2, mt_map = Some [([98], 1), ([97], 0)]\<rparr>) ?ms)"
    by (simp add: node_ok_fits obj_fits_def obj_ok_def named_def getMap_def capacityImpl_def)
  from member_lookup [OF this, of "[98]"] n show ?thesis by simp
qed

end
