(* ===== verification/Sonic_NodeBlocks.thy ===== *)
theory Sonic_NodeBlocks
  imports Sonic_NodeOps
begin

text \<open>
  Ownership of heap blocks: each operation takes from and gives back to the allocator exactly what the tree owns more or
  less after it. Deep copies are equal to their source.
\<close>

subsection \<open>Blocks\<close>

text \<open>The heap blocks a tree owns, and an allocator with a count of the blocks that are out.\<close>

definition map_blocks :: "name_map option \<Rightarrow> int" where
  "map_blocks mo = (case mo of None \<Rightarrow> 0 | Some mp \<Rightarrow> 1 + int (length mp))"

definition meta_blocks :: "MetaNode option \<Rightarrow> int" where
  "meta_blocks m = of_bool (m \<noteq> None) + map_blocks (getMap m)"

fun blocks :: "dnode \<Rightarrow> int" where
  "blocks (DNumStr own s) = of_bool own"
| "blocks (DRaw own s) = of_bool own"
| "blocks (DStr k s) = of_bool (k = SFree)"
| "blocks (DObject m ms) = meta_blocks m + (\<Sum>p\<leftarrow>ms. blocks (fst p) + blocks (snd p))"
| "blocks (DArray m es) = of_bool (m \<noteq> None) + (\<Sum>e\<leftarrow>es. blocks e)"
| "blocks d = 0"

definition member_blocks :: "dnode \<times> dnode \<Rightarrow> int" where
  "member_blocks p = blocks (fst p) + blocks (snd p)"

lemma blocks_object: "blocks (DObject m ms) = meta_blocks m + sum_list (map member_blocks ms)"
  by (simp add: member_blocks_def [abs_def])

definition counts :: "'a allocator \<Rightarrow> ('a \<Rightarrow> int) \<Rightarrow> bool" where
  "counts A live \<longleftrightarrow> al_kNeedFree A
     \<and> (\<forall>n al. live (snd (al_Malloc A n al)) = live al + of_bool (fst (al_Malloc A n al)))
     \<and> (\<forall>b k n al. live (snd (al_Realloc A b k n al)) = live al + of_bool (b \<and> fst (al_Realloc A b k n al)))
     \<and> (\<forall>al. live (al_Free A al) = live al - 1)"

lemma countsD:
  assumes "counts A live"
  shows "al_kNeedFree A" "live (al_Free A al) = live al - 1"
    "al_Malloc A n al = (r, al') \<Longrightarrow> live al' = live al + of_bool r"
    "al_Realloc A b k n al = (r, al') \<Longrightarrow> live al' = live al + of_bool (b \<and> r)"
  using assms unfolding counts_def by (metis fst_conv snd_conv)+

lemma free_map_live: "counts A live \<Longrightarrow> live (free_map A mo al) = live al - map_blocks mo"
proof -
  assume c: "counts A live"
  have "live (fold (\<lambda>e. al_Free A) mp al) = live al - int (length mp)" for mp :: name_map
    by (induction mp arbitrary: al) (simp_all add: countsD(2) [OF c])
  then show ?thesis by (simp add: free_map_def map_blocks_def countsD(2) [OF c] split: option.split)
qed

lemma fold_live:
  assumes "\<And>x al. x \<in> set xs \<Longrightarrow> live (g x al) = live al - (f x :: int)"
  shows "live (fold g xs al) = live al - sum_list (map f xs)"
  using assms by (induction xs arbitrary: al) simp_all

lemma string_destroy_live: "counts A live \<Longrightarrow> is_DStr d \<Longrightarrow> live (dn_destroy A d al) = live al - blocks d"
  by (auto simp: countsD dest!: is_DStr_view)

lemma destroy_live:
  assumes c: "counts A live"
  shows "node_ok d \<Longrightarrow> live (dn_destroy A d al) = live al - blocks d"
proof (induction d arbitrary: al)
  case (DObject m ms)
  have nm: "named ms" and vals: "\<forall>x \<in> set ms. node_ok (snd x)" and len: "length ms \<le> capacityImpl m"
    using DObject.prems by (simp_all add: node_ok_object obj_ok_def)
  have "live (dn_destroy A (snd p) (dn_destroy A (fst p) al)) = live al - member_blocks p" if "p \<in> set ms" for p al
    using DObject.IH(2) [of p "snd p"] vals nm that string_destroy_live [OF c, of "fst p"]
    by (simp add: member_blocks_def named_def snds.simps)
  then have f: "live (fold (\<lambda>p al. dn_destroy A (snd p) (dn_destroy A (fst p) al)) ms al) = live al - sum_list (map member_blocks ms)" for al
    by (rule fold_live)
  show ?case
  proof (cases m)
    case None
    then show ?thesis using len by (simp add: capacityImpl_def free_children_def meta_blocks_def map_blocks_def getMap_def)
  next
    case (Some mt)
    then show ?thesis using countsD(1,2) [OF c] f free_map_live [OF c]
      by (simp only: blocks_object) (simp add: Let_def free_children_def meta_blocks_def getMap_def)
  qed
next
  case (DArray m es)
  have "\<forall>x \<in> set es. node_ok x" and len: "length es \<le> capacityImpl m" using DArray.prems by (simp_all add: node_ok_array)
  then have "live (fold (dn_destroy A) es al) = live al - sum_list (map blocks es)" by (intro fold_live) (simp add: DArray.IH)
  then show ?case using countsD(1,2) [OF c] by (cases m) (simp_all add: free_children_def)
qed (simp_all add: countsD [OF c])

lemma sum_take_drop:
  fixes f :: "'b \<Rightarrow> int"
  assumes "a \<le> b" and "b \<le> length xs"
  shows "sum_list (map f (take a xs @ drop b xs)) = sum_list (map f xs) - sum_list (map f (take (b - a) (drop a xs)))"
proof -
  have "xs = take a xs @ take (b - a) (drop a xs) @ drop b xs"
    using assms by (metis append_take_drop_id drop_drop le_add_diff_inverse2)
  then have "sum_list (map f xs) = sum_list (map f (take a xs @ take (b - a) (drop a xs) @ drop b xs))" by simp
  then show ?thesis by simp
qed

lemma sum_list_put: "i < length xs \<Longrightarrow> sum_list (xs[i := v]) = sum_list xs - xs ! i + (v :: int)"
  by (induction xs arbitrary: i) (auto split: nat.split)

lemma sum_swap_remove:
  fixes f :: "'b \<Rightarrow> int"
  assumes "i < length xs"
  shows "sum_list (map f (swap_remove i xs)) = sum_list (map f xs) - f (xs ! i)"
proof -
  let ?t = "length xs - 1"
  have xs: "xs = take ?t xs @ [xs ! ?t]" using assms by (metis append_butlast_last_id butlast_conv_take last_conv_nth list.size(3) not_less_zero)
  have s: "sum_list (map f xs) = sum_list (map f (take ?t xs)) + f (xs ! ?t)" by (subst xs) simp
  show ?thesis
  proof (cases "i = ?t")
    case True
    then show ?thesis using s by (simp add: swap_remove_last)
  next
    case False
    then have "i < length (take ?t xs)" using assms by simp
    then have "sum_list (map f ((take ?t xs)[i := xs ! ?t])) = sum_list (map f (take ?t xs)) - f (xs ! i) + f (xs ! ?t)"
      by (simp add: map_update sum_list_put)
    then show ?thesis using s by (simp add: swap_remove_def take_update_swap)
  qed
qed

text \<open>A block has room for at least one child.\<close>

definition meta_sized :: "MetaNode option \<Rightarrow> bool" where
  "meta_sized m \<longleftrightarrow> (m \<noteq> None \<longrightarrow> capacityImpl m \<noteq> 0)"

fun sized :: "dnode \<Rightarrow> bool" where
  "sized (DObject m ms) \<longleftrightarrow> meta_sized m"
| "sized (DArray m es) \<longleftrightarrow> meta_sized m"
| "sized d \<longleftrightarrow> True"

lemma meta_blocks_simps [simp]: "meta_blocks None = 0" "meta_blocks (Some mt) = 1 + map_blocks (mt_map mt)"
  "map_blocks None = 0" "map_blocks (Some mp) = 1 + int (length mp)"
  by (simp_all add: meta_blocks_def map_blocks_def getMap_def)

lemma containerMalloc_live:
  "counts A live \<Longrightarrow> containerMalloc (al_Malloc A) sz n al = (mo, al') \<Longrightarrow> live al' = live al + of_bool (mo \<noteq> None)
     \<and> (\<forall>mt. mo = Some mt \<longrightarrow> mt = new_MetaNode n)"
  by (auto simp: containerMalloc_def countsD(3) split: prod.splits bool.splits)

lemma containerRealloc_live:
  "counts A live \<Longrightarrow> containerRealloc A junk sz m oc n al = (mo, al') \<Longrightarrow> live al' = live al + of_bool (m = None \<and> mo \<noteq> None)
     \<and> (\<forall>mt. mo = Some mt \<longrightarrow> mt_cap mt = n)"
  by (auto simp: containerRealloc_def Let_def countsD(4) split: prod.splits bool.splits)

text \<open>The blocks an operation moves between the allocator and the tree: nothing is lost and nothing freed twice.\<close>

lemma member_room_live:
  assumes c: "counts A live" and z: "meta_sized m" and r: "member_room A junk m n al = (mo, al')"
  shows "case mo of None \<Rightarrow> live al' = live al | Some mt \<Rightarrow> mt_cap mt \<noteq> 0 \<and> live al' - meta_blocks mo = live al - meta_blocks m"
proof (cases "capacityImpl m \<le> n")
  case False
  then show ?thesis using r by (auto simp: member_room_def capacityImpl_def split: option.splits)
next
  case le: True
  show ?thesis
  proof (cases "capacityImpl m = 0")
    case True
    then have "m = None" using z by (auto simp: meta_sized_def)
    moreover have "containerMalloc (al_Malloc A) sizeof_MemberNode 16 al = (mo, al')"
      using r le True by (simp add: member_room_def k_default_obj_cap_def)
    ultimately show ?thesis using containerMalloc_live [OF c] by (fastforce simp: new_MetaNode_def split: option.splits)
  next
    case False
    then obtain mt0 where m: "m = Some mt0" by (cases m) (simp_all add: capacityImpl_def)
    let ?c = "capacityImpl m + (capacityImpl m + 1) div 2"
    have re: "containerRealloc A junk sizeof_MemberNode m (capacityImpl m) ?c al = (mo, al')"
      using r le False by (simp add: member_room_def Let_def)
    have l: "live al' = live al" using containerRealloc_live [OF c re] m by simp
    show ?thesis
    proof (cases mo)
      case None
      then show ?thesis using l by simp
    next
      case (Some mt)
      then show ?thesis using l False containerRealloc_some [OF re [unfolded Some]] m by (simp add: getMap_def)
    qed
  qed
qed

lemma mm_emplace_live: "counts A live \<Longrightarrow> mm_emplace A k i mp al = Some (mp', al') \<Longrightarrow> live al' = live al + 1 \<and> length mp' = length mp + 1"
  by (auto simp: mm_emplace_def countsD(3) split: prod.splits bool.splits)

lemma new_name_live:
  assumes "counts A live" and "(if cp then setStringImpl_copy A key DNull al1 else setStringImpl A key DNull al1) = (nm, al2)"
  shows "live al2 = live al1 + blocks nm" "is_DStr nm" "nm \<noteq> DNull"
  using assms by (auto simp: setStringImpl_copy_def setStringImpl_def StringCopy_def countsD(3) split: if_splits prod.splits bool.splits)

lemma addMember_live:
  assumes c: "counts A live" and z: "meta_sized m" and r: "addMemberImpl A junk key cp (DObject m ms) v al = Some (i, d', v', al')"
  shows "live al' - blocks d' - blocks v' = live al - blocks (DObject m ms) - blocks v \<and> sized d'"
proof (cases "member_room A junk m (length ms) al")
  case (Pair mo al1)
  note R = member_room_live [OF c z Pair]
  show ?thesis
  proof (cases mo)
    case None
    then show ?thesis using r Pair R z by (auto simp: addMemberImpl_def Let_def)
  next
    case (Some mt)
    obtain nm al2 where nm: "(if cp then setStringImpl_copy A key DNull al1 else setStringImpl A key DNull al1) = (nm, al2)" by force
    note n = new_name_live [OF c nm]
    show ?thesis
    proof (cases "mt_map mt")
      case None
      then have "d' = DObject (Some mt) (ms @ [(nm, v)])" "v' = DNull" "al' = al2" using r Some Pair nm n(3)
        by (auto simp: addMemberImpl_def Let_def dn_rawAssign_def)
      then show ?thesis using R Some n None by (simp add: meta_sized_def capacityImpl_def)
    next
      case mp: (Some mp)
      obtain k where k: "GetStringView nm = Some k" using n(2) by (cases nm) auto
      obtain mp' where e: "mm_emplace A k (length ms) mp al2 = Some (mp', al')" "d' = DObject (Some (mt\<lparr>mt_map := Some mp'\<rparr>)) (ms @ [(nm, v)])" "v' = DNull"
        using r Some Pair nm n(3) k mp by (auto simp: addMemberImpl_def Let_def dn_rawAssign_def bind_eq_Some_conv)
      show ?thesis using R Some n mp mm_emplace_live [OF c e(1)] by (simp add: e(2,3) meta_sized_def capacityImpl_def)
    qed
  qed
qed

lemma move_assign_live:
  assumes "live (dn_destroy A self al) = live al - blocks self" and "dn_move_assign A self rhs al = (self', rhs', al')"
  shows "self' = rhs \<and> rhs' = DNull \<and> live al' = live al - blocks self"
  using assms by (auto simp: dn_move_assign_def dn_rawAssign_def Let_def)

lemma remove_found_live:
  assumes c: "counts A live" and nm: "named ms" and vals: "\<forall>x \<in> set ms. node_ok (snd x)" and p: "pos < length ms" and z: "mt_cap mt \<noteq> 0"
    and mp: "\<And>mp. mt_map mt = Some mp \<Longrightarrow> pos \<noteq> length ms - 1 \<Longrightarrow> (names_of ms ! (length ms - 1), length ms - 1) \<in> set mp"
    and r: "remove_found A mt ms pos al = Some (b, d', al')"
  shows "live al' - blocks d' = live al - blocks (DObject (Some mt) ms) \<and> sized d'"
proof -
  let ?t = "length ms - 1"
  have dl: "live (dn_destroy A (fst (ms ! pos)) al) = live al - blocks (fst (ms ! pos))" "live (dn_destroy A (snd (ms ! pos)) al) = live al - blocks (snd (ms ! pos))" for al
    using string_destroy_live [OF c] destroy_live [OF c] nm vals p by (simp_all add: named_def)
  note sr = sum_swap_remove [OF p, of member_blocks]
  show ?thesis
  proof (cases "pos = ?t")
    case True
    then have "d' = DObject (Some mt) (swap_remove pos ms)" "al' = dn_destroy A (snd (ms ! pos)) (dn_destroy A (fst (ms ! pos)) al)"
      using r by (auto simp: remove_found_def Let_def swap_remove_last)
    then show ?thesis using dl sr z unfolding blocks_object by (simp add: blocks_object member_blocks_def meta_sized_def capacityImpl_def del: blocks.simps)
  next
    case False
    obtain x1 x2 al1 where a1: "dn_move_assign A (fst (ms ! pos)) (fst (ms ! ?t)) al = (x1, x2, al1)" using prod_cases3 by blast
    obtain y1 y2 al2 where a2: "dn_move_assign A (snd (ms ! pos)) (snd (ms ! ?t)) al1 = (y1, y2, al2)" using prod_cases3 by blast
    note l1 = move_assign_live [where live = live, OF dl(1) a1] and l2 = move_assign_live [where live = live, OF dl(2) a2]
    have l: "live al2 = live al - member_blocks (ms ! pos)" using l1 l2 by (simp add: member_blocks_def)
    have up: "take ?t (ms[pos := (fst (ms ! ?t), snd (ms ! ?t)), ?t := x]) = swap_remove pos ms" for x
      by (simp add: swap_remove_def take_update_cancel)
    show ?thesis
    proof (cases "mt_map mt")
      case None
      then have "d' = DObject (Some mt) (swap_remove pos ms)" "al' = al2"
        using r False a1 a2 up l1 l2 by (auto simp: remove_found_def Let_def)
      then show ?thesis using l sr z by (simp add: blocks_object meta_sized_def capacityImpl_def del: blocks.simps)
    next
      case (Some mp)
      have "is_DStr (fst (ms ! ?t))" using nm p by (simp add: named_def)
      then have k: "GetStringView (fst (ms ! ?t)) = Some (names_of ms ! ?t)" using named_view p by (simp add: names_of_def)
      have i: "(names_of ms ! ?t, ?t) \<in> set mp" using mp [OF Some False] .
      then have er: "mm_erase A (names_of ms ! ?t) ?t mp al2 = (remove1 (names_of ms ! ?t, ?t) mp, al_Free A al2)" by (simp add: mm_erase_def)
      obtain mp' where e: "mm_emplace A (names_of ms ! ?t) pos (remove1 (names_of ms ! ?t, ?t) mp) (al_Free A al2) = Some (mp', al')"
        "d' = DObject (Some (mt\<lparr>mt_map := Some mp'\<rparr>)) (swap_remove pos ms)"
        using r False Some a1 a2 up l1 l2 k er by (auto simp: remove_found_def Let_def bind_eq_Some_conv)
      have "live al' = live al2" "length mp' = length mp"
        using mm_emplace_live [OF c e(1)] countsD(2) [OF c] i length_pos_if_in_set [OF i] by (simp_all add: length_remove1)
      then show ?thesis using l sr z Some by (simp add: e(2) blocks_object meta_sized_def capacityImpl_def del: blocks.simps)
    qed
  qed
qed

lemma removeMember_live:
  assumes c: "counts A live" and ok: "node_ok (DObject m ms)" and z: "meta_sized m"
    and r: "removeMemberImpl A key (DObject m ms) al = Some (b, d', al')"
  shows "live al' - blocks d' = live al - blocks (DObject m ms) \<and> sized d'"
proof (cases m)
  case None
  then show ?thesis using r z by (auto simp: removeMemberImpl_def)
next
  case (Some mt)
  have v: "named ms" "\<forall>x \<in> set ms. node_ok (snd x)" using ok by (simp_all add: node_ok_object obj_ok_def)
  have z': "mt_cap mt \<noteq> 0" using z by (simp add: Some meta_sized_def capacityImpl_def)
  have pos: "find_linear ms key \<noteq> length ms \<Longrightarrow> find_linear ms key < length ms" using find_linear_scan(1) [OF v(1), of key] by simp
  show ?thesis
  proof (cases "mt_map mt")
    case None
    show ?thesis
    proof (cases "find_linear ms key = length ms")
      case True
      then show ?thesis using r z None by (auto simp: removeMemberImpl_def Some)
    next
      case False
      then have "remove_found A mt ms (find_linear ms key) al = Some (b, d', al')" using r None by (simp add: removeMemberImpl_def Some)
      from remove_found_live [OF c v pos [OF False] z' _ this] None show ?thesis by (simp add: Some)
    qed
  next
    case mp: (Some mp)
    have ok': "map_ok (names_of ms) mp" using ok by (simp add: Some mp node_ok_object obj_ok_def getMap_def)
    show ?thesis
    proof (cases "mm_find mp key")
      case None
      then show ?thesis using r z mp by (auto simp: removeMemberImpl_def Some)
    next
      case p: (Some pos)
      then have i: "(key, pos) \<in> set mp" by (rule mm_find_sound)
      then have lt: "pos < length ms" "names_of ms ! pos = key" using map_ok_in [OF ok'] by simp_all
      let ?mt = "mt\<lparr>mt_map := Some (remove1 (key, pos) mp)\<rparr>"
      have rf: "remove_found A ?mt ms pos (al_Free A al) = Some (b, d', al')" using r mp p i by (simp add: removeMemberImpl_def Some mm_erase_def)
      have tl: "(names_of ms ! (length ms - 1), length ms - 1) \<in> set (remove1 (key, pos) mp)" if "pos \<noteq> length ms - 1"
        using map_ok_remove_swap(2) [OF ok', of pos "length ms - 1"] that lt by simp
      have "live al' - blocks d' = live (al_Free A al) - blocks (DObject (Some ?mt) ms) \<and> sized d'"
        by (rule remove_found_live [OF c v lt(1) _ _ rf]) (use z' tl in simp_all)
      then show ?thesis using countsD(2) [OF c] length_pos_if_in_set [OF i] by (simp add: Some mp length_remove1 i)
    qed
  qed
qed

lemma memberReserve_live:
  assumes c: "counts A live" and z: "meta_sized m" and r: "memberReserveImpl A junk n (DObject m ms) al = Some (d', al')"
  shows "live al' - blocks d' = live al - blocks (DObject m ms) \<and> sized d'"
proof (cases "capacityImpl m < n")
  case True
  obtain mo al1 where e: "containerRealloc A junk sizeof_MemberNode m (capacityImpl m) n al = (mo, al1)" by force
  note l = containerRealloc_live [OF c e]
  show ?thesis
  proof (cases mo)
    case None
    then show ?thesis using True e r l z by (auto simp: memberReserveImpl_def Let_def)
  next
    case (Some mt)
    then have r': "d' = DObject (Some (if capacityImpl m = 0 then mt\<lparr>mt_map := None\<rparr> else mt)) ms" "al' = al1"
      using True e r by (auto simp: memberReserveImpl_def Let_def)
    show ?thesis
    proof (cases "capacityImpl m = 0")
      case c0: True
      then have "m = None" using z by (auto simp: meta_sized_def)
      then show ?thesis using l Some r' c0 True by (simp add: meta_sized_def capacityImpl_def)
    next
      case False
      then obtain mt0 where m: "m = Some mt0" by (cases m) (simp_all add: capacityImpl_def)
      then have "mt_map mt = mt_map mt0" using containerRealloc_some(2) [OF e [unfolded Some]] by (simp add: getMap_def)
      then show ?thesis using l Some r' False True m by (simp add: meta_sized_def capacityImpl_def)
    qed
  qed
next
  case False
  then show ?thesis using r z by (auto simp: memberReserveImpl_def)
qed

lemma emplace_all_live:
  "counts A live \<Longrightarrow> emplace_all A ms i mp al = Some (mp', al') \<Longrightarrow> live al' - int (length mp') = live al - int (length mp)"
proof (induction ms arbitrary: i mp al)
  case (Cons m ms)
  then obtain k mp1 al1 where "mm_emplace A k i mp al = Some (mp1, al1)" "emplace_all A ms (i + 1) mp1 al1 = Some (mp', al')"
    by (auto simp: bind_eq_Some_conv)
  then show ?case using Cons.IH [OF Cons.prems(1)] mm_emplace_live [OF Cons.prems(1)] by fastforce
qed simp

lemma CreateMap_live:
  assumes c: "counts A live" and z: "meta_sized m" and r: "CreateMap A junk (DObject m ms) al = Some (b, d', al')"
  shows "live al' - blocks d' = live al - blocks (DObject m ms) \<and> sized d'"
proof -
  obtain d1 al1 where d1: "(if m = None then memberReserveImpl A junk 16 (DObject m ms) al else Some (DObject m ms, al)) = Some (d1, al1)"
    using r by (auto simp: CreateMap_def bind_eq_Some_conv split: if_splits)
  have l1: "live al1 - blocks d1 = live al - blocks (DObject m ms)" "sized d1"
    using d1 memberReserve_live [OF c z, of junk 16 ms al d1 al1] z by (auto split: if_splits)
  have "\<exists>m1. d1 = DObject m1 ms" using d1 by (auto simp: memberReserveImpl_def Let_def split: if_splits prod.splits option.splits)
  then obtain m1 where m1: "d1 = DObject m1 ms" ..
  show ?thesis
  proof (cases "m1 = None \<or> getMap m1 \<noteq> None")
    case True
    then have "d' = d1" "al' = al1" using r d1 m1 by (cases m1; auto simp: CreateMap_def getMap_def)+
    then show ?thesis using l1 by simp
  next
    case False
    then obtain mt where mt: "m1 = Some mt" "mt_map mt = None" by (auto simp: getMap_def)
    obtain b1 al2 where a: "al_Malloc A (al_sizeof_map A) al1 = (b1, al2)" by force
    have la: "live al2 = live al1 + of_bool b1" by (rule countsD(3) [OF c a])
    show ?thesis
    proof (cases b1)
      case False
      then show ?thesis using r d1 m1 mt a l1 la by (auto simp: CreateMap_def)
    next
      case True
      then obtain mp where e: "emplace_all A ms 0 [] al2 = Some (mp, al')" "d' = DObject (Some (mt\<lparr>mt_map := Some mp\<rparr>)) ms"
        using r d1 m1 mt a by (auto simp: CreateMap_def bind_eq_Some_conv)
      then show ?thesis using emplace_all_live [OF c e(1)] l1 la True m1 mt by (simp add: meta_sized_def capacityImpl_def)
    qed
  qed
qed

lemma DestroyMap_live:
  assumes c: "counts A live" and "DestroyMap A m al = (m', al')"
  shows "live al' - meta_blocks m' = live al - meta_blocks m" "capacityImpl m' = capacityImpl m" "m' = None \<longleftrightarrow> m = None" "getMap m' = None"
  using assms by (auto simp: DestroyMap_def free_map_live [OF c] capacityImpl_def getMap_def split: option.splits if_splits)

lemma eraseMember_live:
  assumes c: "counts A live" and ok: "node_ok (DObject m ms)" and z: "meta_sized m"
    and r: "eraseMemberImpl A f l (DObject m ms) al = Some (i, d', al')"
  shows "live al' - blocks d' = live al - blocks (DObject m ms) \<and> sized d'"
proof -
  obtain m1 al1 where m1: "DestroyMap A m al = (m1, al1)" by force
  note D = DestroyMap_live [OF c m1]
  have v: "named ms" "\<forall>x \<in> set ms. node_ok (snd x)" using ok by (simp_all add: node_ok_object obj_ok_def)
  have ok1: "node_ok (DObject m1 ms)" using ok D by (simp add: node_ok_object obj_ok_def)
  have z1: "meta_sized m1" using z D by (simp add: meta_sized_def)
  show ?thesis
  proof (cases "l < f \<or> length ms \<le> l - f")
    case True
    then have "d' = DObject None []" "al' = dn_destroy A (DObject m1 ms) al1" using r m1 by (auto simp: eraseMemberImpl_def Let_def)
    then show ?thesis using destroy_live [OF c ok1] D(1) by (simp add: meta_sized_def del: dn_destroy.simps)
  next
    case False
    let ?mid = "take (l - f) (drop f ms)"
    have r': "d' = DObject m1 (take f ms @ drop l ms)" "l \<le> length ms"
        "al' = fold (\<lambda>p al. dn_destroy A (snd p) (dn_destroy A (fst p) al)) ?mid al1"
      using r m1 False by (auto simp: eraseMemberImpl_def Let_def split: if_splits)
    have "live (dn_destroy A (snd p) (dn_destroy A (fst p) al)) = live al - member_blocks p" if "p \<in> set ?mid" for p al
    proof -
      have "p \<in> set ms" using that in_set_takeD in_set_dropD by fast
      then show ?thesis using string_destroy_live [OF c, of "fst p"] destroy_live [OF c, of "snd p"] v by (simp add: named_def member_blocks_def)
    qed
    then have "live al' = live al1 - sum_list (map member_blocks ?mid)" unfolding r'(3) by (rule fold_live)
    then show ?thesis using sum_take_drop [of f l ms member_blocks] False r'(1,2) D(1) z1 by (simp add: blocks_object del: blocks.simps)
  qed
qed

definition arr_grown :: "MetaNode option \<Rightarrow> nat \<Rightarrow> bool" where
  "arr_grown m n \<longleftrightarrow> n \<le> capacityImpl m"

lemma realloc_array:
  assumes c: "counts A live" and r: "containerRealloc A junk sz m (capacityImpl m) n al = (Some mt, al')"
  shows "live al' + of_bool (m \<noteq> None) = live al + 1" "mt_cap mt = n"
  using containerRealloc_live [OF c r] by auto

lemma containerRealloc_none:
  assumes c: "counts A live" and r: "containerRealloc A junk sz m oc n al = (None, al')"
  shows "live al' = live al"
  using containerRealloc_live [OF c r] by simp

definition push_new_cap :: "nat \<Rightarrow> nat" where
  "push_new_cap cap = (if cap \<noteq> 0 then cap + (cap + 1) div 2 else k_default_array_cap)"

lemma push_new_cap_gt: "cap < push_new_cap cap"
  by (simp add: push_new_cap_def k_default_array_cap_def)

lemma pushBack_ok:
  assumes c: "counts A live" and z: "meta_sized m" and ok: "node_ok (DArray m es)" "node_ok v"
    and r: "pushBackImpl A junk (DArray m es) v al = Some (d', v', al')"
  shows "live al' - blocks d' - blocks v' = live al - blocks (DArray m es) - blocks v \<and> sized d' \<and> node_ok d' \<and> node_ok v'
     \<and> (d' = DArray m es \<and> v' = v \<or> (\<exists>m'. d' = DArray m' (es @ [v]) \<and> v' = DNull))"
proof (cases "capacityImpl m \<le> length es")
  case True
  obtain mo al1 where e: "containerRealloc A junk sizeof_DNode m (capacityImpl m) (push_new_cap (capacityImpl m)) al = (mo, al1)" by force
  show ?thesis
  proof (cases mo)
    case None
    then show ?thesis using r e True ok z containerRealloc_none [OF c e [unfolded None]]
      by (auto simp: pushBackImpl_def Let_def push_new_cap_def)
  next
    case (Some mt)
    then have r': "d' = DArray (Some mt) (es @ [v])" "v' = DNull" "al' = al1"
      using r e True by (auto simp: pushBackImpl_def Let_def push_new_cap_def dn_rawAssign_def)
    have mt: "length es < mt_cap mt" using realloc_array(2) [OF c e [unfolded Some]] push_new_cap_gt [of "capacityImpl m"] ok(1)
      by (simp add: node_ok_array)
    show ?thesis using realloc_array(1) [OF c e [unfolded Some]] mt ok r' by (simp add: node_ok_array capacityImpl_def meta_sized_def)
  qed
next
  case False
  then obtain mt where m: "m = Some mt" by (cases m) (simp_all add: capacityImpl_def)
  then have r': "d' = DArray m (es @ [v])" "v' = DNull" "al' = al" using r False by (auto simp: pushBackImpl_def Let_def dn_rawAssign_def)
  then show ?thesis using False ok z m by (simp add: node_ok_array)
qed

lemma reserve_ok:
  assumes c: "counts A live" and z: "meta_sized m" and ok: "node_ok (DArray m es)" and r: "reserveImpl A junk n (DArray m es) al = Some (d', al')"
  shows "live al' - blocks d' = live al - blocks (DArray m es) \<and> sized d' \<and> node_ok d' \<and> (\<exists>m'. d' = DArray m' es)"
proof (cases "capacityImpl m < n")
  case True
  obtain mo al1 where e: "containerRealloc A junk sizeof_DNode m (capacityImpl m) n al = (mo, al1)" by force
  show ?thesis
  proof (cases mo)
    case None
    then show ?thesis using r e True ok z containerRealloc_none [OF c e [unfolded None]] by (auto simp: reserveImpl_def)
  next
    case (Some mt)
    then have "d' = DArray (Some mt) es" "al' = al1" using r e True by (auto simp: reserveImpl_def)
    then show ?thesis using realloc_array [OF c e [unfolded Some]] True ok by (simp add: node_ok_array capacityImpl_def meta_sized_def)
  qed
qed (use r ok z in \<open>auto simp: reserveImpl_def\<close>)

lemma popBack_ok:
  assumes c: "counts A live" and z: "meta_sized m" and ok: "node_ok (DArray m es)" and r: "popBackImpl A (DArray m es) al = Some (d', al')"
  shows "live al' - blocks d' = live al - blocks (DArray m es) \<and> sized d' \<and> node_ok d'"
proof -
  have ne: "es \<noteq> []" and r': "d' = DArray m (take (length es - 1) es)" "al' = dn_destroy A (es ! (length es - 1)) al"
    using r by (auto simp: popBackImpl_def split: if_splits)
  have "live al' = live al - blocks (es ! (length es - 1))" using destroy_live [OF c] ok ne by (simp add: r' node_ok_array)
  moreover have "sum_list (map blocks (take (length es - 1) es)) = sum_list (map blocks es) - blocks (es ! (length es - 1))"
    using sum_swap_remove [of "length es - 1" es blocks] ne by (simp add: swap_remove_last)
  ultimately show ?thesis using ok z by (auto simp: r' node_ok_array dest: in_set_takeD)
qed

lemma erase_ok:
  assumes c: "counts A live" and z: "meta_sized m" and ok: "node_ok (DArray m es)" and r: "eraseImpl A f l (DArray m es) al = Some (i, d', al')"
  shows "live al' - blocks d' = live al - blocks (DArray m es) \<and> sized d' \<and> node_ok d'"
proof -
  let ?mid = "take (l - f) (drop f es)"
  have fl: "f \<le> l" "l \<le> length es" and r': "d' = DArray m (take f es @ drop l es)" "al' = fold (dn_destroy A) ?mid al"
    using r by (auto simp: eraseImpl_def Let_def split: if_splits)
  have "live (dn_destroy A e al) = live al - blocks e" if "e \<in> set ?mid" for e al
  proof -
    have "e \<in> set es" using that in_set_takeD in_set_dropD by fast
    then show ?thesis using destroy_live [OF c] ok by (simp add: node_ok_array)
  qed
  then have "live al' = live al - sum_list (map blocks ?mid)" unfolding r'(2) by (rule fold_live)
  then show ?thesis using sum_take_drop [OF fl, of blocks] ok z fl by (auto simp: r' node_ok_array dest: in_set_takeD in_set_dropD)
qed

text \<open>A copy owns its blocks, and only those were allocated.\<close>

lemma setRaw_live:
  assumes "counts A live" and "setRawLikeImpl_copy A s typ DNull al = (d', al')" and "typ = DNumStr \<or> typ = DRaw"
  shows "live al' = live al + blocks d' \<and> node_ok d' \<and> sized d' \<and> \<not> is_DStr d'"
  using assms by (auto simp: setRawLikeImpl_copy_def countsD(3) split: prod.splits bool.splits)

lemma StringCopy_live:
  assumes "counts A live" and "StringCopy A s al = (d', al')"
  shows "live al' = live al + blocks d' \<and> node_ok d' \<and> sized d' \<and> is_DStr d'"
  using assms by (auto simp: StringCopy_def countsD(3) split: prod.splits bool.splits)

lemma copy_ok:
  shows "counts A live \<Longrightarrow> node_ok d \<Longrightarrow> copy_node A cs d al = (d', al')
      \<Longrightarrow> live al' = live al + blocks d' \<and> node_ok d' \<and> sized d' \<and> (is_DStr d \<longrightarrow> is_DStr d')"
    and "counts A live \<Longrightarrow> named ms \<Longrightarrow> (\<forall>x \<in> set ms. node_ok (snd x)) \<Longrightarrow> copy_members A cs ms al = (ms', al')
      \<Longrightarrow> live al' = live al + sum_list (map member_blocks ms') \<and> named ms' \<and> (\<forall>x \<in> set ms'. node_ok (snd x)) \<and> length ms' = length ms"
    and "counts A live \<Longrightarrow> (\<forall>x \<in> set es. node_ok x) \<Longrightarrow> copy_elems A cs es al = (es', al')
      \<Longrightarrow> live al' = live al + sum_list (map blocks es') \<and> (\<forall>x \<in> set es'. node_ok x) \<and> length es' = length es"
proof (induction A cs d al and A cs ms al and A cs es al arbitrary: d' al' and ms' al' and es' al' rule: copy_node_copy_members_copy_elems.induct)
  case (1 A copyString m ms al)
  have v: "named ms" "\<forall>x \<in> set ms. node_ok (snd x)" using "1.prems"(2) by (simp_all add: node_ok_object obj_ok_def)
  have e: "node_ok (DObject None [])" "sized (DObject None [])" "blocks (DObject None []) = 0"
    by (simp_all add: node_ok_object obj_ok_def named_def getMap_def meta_sized_def)
  obtain mo al1 where M: "containerMalloc (al_Malloc A) sizeof_MemberNode (length ms) al = (mo, al1)" by force
  note l = containerMalloc_live [OF "1.prems"(1) M]
  show ?case
  proof (cases "ms = [] \<or> mo = None")
    case True
    then have "d' = DObject None []" "live al' = live al" using "1.prems"(3) l True by (cases "ms = []"; simp add: M)+
    then show ?thesis using e by simp
  next
    case False
    then obtain mem where mem: "mo = Some mem" by (cases mo) simp_all
    have mn: "mem = new_MetaNode (length ms)" using l mem by blast
    obtain cms al2 where C: "copy_members A copyString ms al1 = (cms, al2)" by force
    have d': "d' = DObject (Some mem) cms" "al' = al2" using "1.prems"(3) False by (simp_all add: M mem C)
    have "live al2 = live al1 + sum_list (map member_blocks cms) \<and> named cms \<and> (\<forall>x \<in> set cms. node_ok (snd x)) \<and> length cms = length ms"
      using "1.IH" [OF _ M [symmetric] mem "1.prems"(1) v C] False by simp
    then show ?thesis using conjunct1 [OF l] False
      by (simp add: d' blocks_object node_ok_object obj_ok_def getMap_def capacityImpl_def mn new_MetaNode_def meta_sized_def mem del: blocks.simps)
  qed
next
  case (2 A copyString m es al)
  have v: "\<forall>x \<in> set es. node_ok x" using "2.prems"(2) by (simp add: node_ok_array)
  have e: "node_ok (DArray None [])" "sized (DArray None [])" "blocks (DArray None []) = 0"
    by (simp_all add: node_ok_array meta_sized_def)
  obtain mo al1 where M: "containerMalloc (al_Malloc A) sizeof_DNode (length es) al = (mo, al1)" by force
  note l = containerMalloc_live [OF "2.prems"(1) M]
  show ?case
  proof (cases "es = [] \<or> mo = None")
    case True
    then have "d' = DArray None []" "live al' = live al" using "2.prems"(3) l True by (cases "es = []"; simp add: M)+
    then show ?thesis using e by simp
  next
    case False
    then obtain mem where mem: "mo = Some mem" by auto
    obtain ces al2 where C: "copy_elems A copyString es al1 = (ces, al2)" by force
    have d': "d' = DArray (Some (mem\<lparr>mt_cap := length es\<rparr>)) ces" "al' = al2" using "2.prems"(3) False by (simp_all add: M mem C)
    have "live al2 = live al1 + sum_list (map blocks ces) \<and> (\<forall>x \<in> set ces. node_ok x) \<and> length ces = length es"
      using "2.IH" [OF _ M [symmetric] mem "2.prems"(1) v C] False by simp
    then show ?thesis using l False by (simp add: d' node_ok_array capacityImpl_def meta_sized_def mem)
  qed
next
  case (3 A copyString k s al)
  then show ?case using StringCopy_live [OF "3.prems"(1), of s al d' al'] by (auto split: if_splits)
next
  case (4 A copyString own s al)
  then show ?case using setRaw_live [OF "4.prems"(1), of s DNumStr al d' al'] by simp
next
  case (5 A copyString own s al)
  then show ?case using setRaw_live [OF "5.prems"(1), of s DRaw al d' al'] by simp
next
  case (8 A copyString k v ms al)
  obtain k' al1 where K: "copy_node A copyString k al = (k', al1)" by force
  obtain v' al2 where V: "copy_node A copyString v al1 = (v', al2)" by force
  obtain ms1 al3 where M: "copy_members A copyString ms al2 = (ms1, al3)" by force
  have p: "is_DStr k" "node_ok v" "named ms" "\<forall>x \<in> set ms. node_ok (snd x)" using "8.prems"(2,3) by (simp_all add: named_def)
  have "node_ok k" using p(1) by (auto dest: is_DStr_view)
  note k = "8.IH"(1) [OF "8.prems"(1) this K] and v = "8.IH"(2) [OF K [symmetric] refl "8.prems"(1) p(2) V]
    and m = "8.IH"(3) [OF K [symmetric] refl V [symmetric] refl "8.prems"(1) p(3,4) M]
  have "ms' = (k', v') # ms1" "al' = al3" using "8.prems"(4) by (simp_all add: K V M)
  then show ?case using k v m p by (simp add: named_def member_blocks_def)
next
  case (10 A copyString e es al)
  obtain e' al1 where E: "copy_node A copyString e al = (e', al1)" by force
  obtain es1 al2 where S: "copy_elems A copyString es al1 = (es1, al2)" by force
  have p: "node_ok e" "\<forall>x \<in> set es. node_ok x" using "10.prems"(2) by simp_all
  note e = "10.IH"(1) [OF "10.prems"(1) p(1) E] and s = "10.IH"(2) [OF E [symmetric] refl "10.prems"(1) p(2) S]
  have "es' = e' # es1" "al' = al2" using "10.prems"(3) by (simp_all add: E S)
  then show ?case using e s by simp
qed (auto simp: named_def)

fun op_moved :: "node_op \<Rightarrow> dnode list" where
  "op_moved (AddMember junk key cp v) = [v]"
| "op_moved (PushBack junk v) = [v]"
| "op_moved (MoveFrom v) = [v]"
| "op_moved op = []"

definition op_sized :: "node_op \<Rightarrow> bool" where
  "op_sized op \<longleftrightarrow> op_ok op \<and> (\<forall>v \<in> set (op_value op). sized v)"

definition step_fair :: "('a \<Rightarrow> int) \<Rightarrow> dnode list \<Rightarrow> dnode \<Rightarrow> 'a \<Rightarrow> dnode \<Rightarrow> 'a \<Rightarrow> bool" where
  "step_fair live moved d al d' al' \<longleftrightarrow>
     node_ok d' \<and> sized d' \<and> live al' - blocks d' = live al - blocks d - sum_list (map blocks moved)"

lemma leaf_ok [simp]: "node_ok DNull" "sized DNull" "node_ok (DObject None [])" "node_ok (DArray None [])" "meta_sized None"
  by (simp_all add: node_ok_container obj_ok_def named_def getMap_def meta_sized_def)

lemma object_step_fair:
  assumes c: "counts A live" and ok: "node_ok (DObject m ms)" and z: "meta_sized m" and op: "op_sized op" "member_op op"
    and r: "node_step A op (DObject m ms, al) = Some (d', al')"
  shows "step_fair live (op_moved op) (DObject m ms) al d' al'"
proof -
  have fits: "obj_fits m ms" and vals: "\<forall>x \<in> set ms. node_ok (snd x)" using ok by (simp_all add: node_ok_fits)
  obtain m' ms' where o: "d' = DObject m' ms'" "obj_fits m' ms'" "snd ` set ms' \<subseteq> snd ` set ms \<union> set (op_value op)"
    using member_step [OF fits op(2) r] by metis
  have "\<forall>x \<in> set ms'. node_ok (snd x)" using vals op(1) by (auto simp: op_sized_def op_ok_def dest!: subsetD [OF o(3) imageI])
  then have ok': "node_ok d'" using o by (simp add: node_ok_fits)
  have "live al' - blocks d' = live al - blocks (DObject m ms) - sum_list (map blocks (op_moved op)) \<and> sized d'"
  proof (cases op)
    case (AddMember junk key cp v)
    then obtain i v' al1 where a: "addMemberImpl A junk key cp (DObject m ms) v al = Some (i, d', v', al1)" "al' = dn_destroy A v' al1"
      using r by (auto simp: bind_eq_Some_conv)
    obtain m1 ms1 where "added A key cp v ms ms1 v'" using addMember_outcome [OF fits a(1)] by metis
    then have "node_ok v'" using op(1) AddMember by (auto simp: added_def op_sized_def op_ok_def)
    from destroy_live [OF c this] addMember_live [OF c z a(1)] show ?thesis by (simp add: a(2) AddMember del: blocks.simps)
  next
    case (RemoveMember key)
    then obtain b where "removeMemberImpl A key (DObject m ms) al = Some (b, d', al')" using r by auto
    from removeMember_live [OF c ok z this] show ?thesis by (simp add: RemoveMember)
  next
    case (EraseMember f l)
    then obtain i where "eraseMemberImpl A f l (DObject m ms) al = Some (i, d', al')" using r by auto
    from eraseMember_live [OF c ok z this] show ?thesis by (simp add: EraseMember)
  next
    case (MemberReserve junk n)
    then show ?thesis using memberReserve_live [OF c z, of junk n ms al d' al'] r by simp
  next
    case (MakeMap junk)
    then obtain b where "CreateMap A junk (DObject m ms) al = Some (b, d', al')" using r by auto
    from CreateMap_live [OF c z this] show ?thesis by (simp add: MakeMap)
  next
    case DropMap
    obtain m1 al1 where D: "DestroyMap A m al = (m1, al1)" by force
    then show ?thesis using DestroyMap_live [OF c D] r z DropMap by (auto simp: meta_sized_def)
  qed (use op in simp_all)
  then show ?thesis using ok' by (simp add: step_fair_def)
qed

lemma array_step_fair:
  assumes c: "counts A live" and ok: "node_ok (DArray m es)" and z: "meta_sized m" and op: "op_sized op"
    and r: "node_step A op (DArray m es, al) = Some (d', al')" and k: "op = PopBack \<or> (\<exists>junk v. op = PushBack junk v) \<or> (\<exists>junk n. op = Reserve junk n) \<or> (\<exists>f l. op = EraseElems f l)"
  shows "step_fair live (op_moved op) (DArray m es) al d' al'"
  using k
proof (elim disjE exE)
  assume "op = PopBack"
  then show ?thesis using popBack_ok [OF c z ok] r by (simp add: step_fair_def)
next
  fix junk v
  assume o: "op = PushBack junk v"
  then obtain v' al1 where a: "pushBackImpl A junk (DArray m es) v al = Some (d', v', al1)" "al' = dn_destroy A v' al1"
    using r by (auto simp: bind_eq_Some_conv)
  have "node_ok v" using op o by (simp add: op_sized_def op_ok_def)
  note P = pushBack_ok [OF c z ok this a(1)]
  then show ?thesis using destroy_live [OF c, of v' al1] by (simp add: step_fair_def o a(2))
next
  fix junk n
  assume "op = Reserve junk n"
  then show ?thesis using reserve_ok [OF c z ok, of junk n al d' al'] r by (simp add: step_fair_def)
next
  fix f l
  assume o: "op = EraseElems f l"
  then obtain i where "eraseImpl A f l (DArray m es) al = Some (i, d', al')" using r by auto
  from erase_ok [OF c z ok this] show ?thesis by (simp add: step_fair_def o)
qed

lemma node_step_fair:
  assumes c: "counts A live" and ok: "node_ok d" and z: "sized d" and op: "op_sized op" and r: "node_step A op (d, al) = Some (d', al')"
  shows "step_fair live (op_moved op) d al d' al'"
proof (cases "member_op op")
  case True
  then obtain m ms where d: "d = DObject m ms"
    using r by (cases op; cases d) (simp_all add: addMemberImpl_def removeMemberImpl_def eraseMemberImpl_def memberReserveImpl_def CreateMap_def)
  then show ?thesis using object_step_fair [OF c _ _ op True] ok z r by simp
next
  case False
  have dl: "live (dn_destroy A d al) = live al - blocks d" for al by (rule destroy_live [OF c ok])
  consider (arr) "op = PopBack \<or> (\<exists>junk v. op = PushBack junk v) \<or> (\<exists>junk n. op = Reserve junk n) \<or> (\<exists>f l. op = EraseElems f l)"
    | (clr) "op = Clear" | (set) "op = SetNull \<or> op = SetArray \<or> op = SetObject" | (str) s where "op = SetStringCopy s"
    | (num) s where "op = SetStringNumberCopy s" | (move) v where "op = MoveFrom v" | (copy) cs r where "op = CopyOf cs r"
    using False by (cases op) auto
  then show ?thesis
  proof cases
    case arr
    then obtain m es where d: "d = DArray m es" using r
      by (cases d) (auto simp: popBackImpl_def pushBackImpl_def reserveImpl_def eraseImpl_def)
    then show ?thesis using array_step_fair [OF c _ _ op _ arr] ok z r by simp
  next
    case clr
    then show ?thesis using r dl [of al] by (cases d) (auto simp: clearImpl_def step_fair_def simp del: dn_destroy.simps)
  next
    case set
    then show ?thesis using r dl [of al] by (auto simp: setNullImpl_def setArrayImpl_def setObjectImpl_def step_fair_def)
  next
    case str
    then have "StringCopy A s (dn_destroy A d al) = (d', al')" using r by (simp add: setStringImpl_copy_def)
    from StringCopy_live [OF c this] dl [of al] show ?thesis by (simp add: step_fair_def str)
  next
    case num
    then have "setRawLikeImpl_copy A s DNumStr DNull (dn_destroy A d al) = (d', al')" using r by (simp add: setRawLikeImpl_copy_def)
    from setRaw_live [OF c this] dl [of al] show ?thesis by (simp add: step_fair_def num)
  next
    case move
    obtain x1 x2 al1 where a: "dn_move_assign A d v al = (x1, x2, al1)" using prod_cases3 by blast
    note l = move_assign_live [where live = live, OF dl a]
    have "d' = v" "al' = al1" using r l a by (simp_all add: move)
    then show ?thesis using l op by (simp add: step_fair_def move op_sized_def op_ok_def)
  next
    case copy
    then have "copy_node A cs r (dn_destroy A d al) = (d', al')" using assms(5) by (simp add: CopyFrom_def)
    from copy_ok(1) [OF c _ this] dl [of al] op show ?thesis by (simp add: step_fair_def copy op_sized_def op_ok_def)
  qed
qed

lemma node_run_fair:
  assumes c: "counts A live"
  shows "node_ok d \<Longrightarrow> sized d \<Longrightarrow> \<forall>op \<in> set ops. op_sized op \<Longrightarrow> node_run A ops (d, al) = Some (d', al')
    \<Longrightarrow> step_fair live (concat (map op_moved ops)) d al d' al'"
proof (induction ops arbitrary: d al)
  case Nil
  then show ?case by (simp add: step_fair_def)
next
  case (Cons op ops)
  then obtain d1 al1 where s: "node_step A op (d, al) = Some (d1, al1)" "node_run A ops (d1, al1) = Some (d', al')"
    by (auto simp: bind_eq_Some_conv)
  have "step_fair live (op_moved op) d al d1 al1" using node_step_fair [OF c Cons.prems(1,2) _ s(1)] Cons.prems(3) by simp
  then show ?case using Cons.IH [OF _ _ _ s(2)] Cons.prems(3) by (simp add: step_fair_def)
qed

text \<open>
  C29: With an allocator whose blocks have to be given back, no sequence of node operations loses a block or gives one
  back twice: what changes in the number of live blocks is what changes in the number of blocks the tree owns, counting
  the values moved in, and destroying the tree at the end gives back every block, whichever allocations failed; and the
  tree stays well typed.
\<close>

theorem node_ops_balanced:
  assumes "counts A live" and "node_ok d" and "sized d" and "\<forall>op \<in> set ops. op_sized op" and "node_run A ops (d, al) = Some (d', al')"
  shows "node_ok d' \<and> live al' - blocks d' = live al - blocks d - sum_list (map blocks (concat (map op_moved ops)))
    \<and> live (dn_destroy A d' al') = live al - blocks d - sum_list (map blocks (concat (map op_moved ops)))"
proof -
  have f: "step_fair live (concat (map op_moved ops)) d al d' al'" by (rule node_run_fair [OF assms])
  then have "live (dn_destroy A d' al') = live al' - blocks d'" by (intro destroy_live [OF assms(1)]) (simp add: step_fair_def)
  then show ?thesis using f by (simp add: step_fair_def)
qed

lemma giving_alloc_counts: "counts giving_alloc id"
  by (simp add: counts_def giving_alloc_def)

lemma node_ops_balanced_witness:
  "blocks (DObject (Some \<lparr>mt_cap = 16, mt_map = Some [([97], 0)]\<rparr>) [(DStr SFree [97], DBool True)]) = 4
    \<and> dn_destroy giving_alloc (DObject (Some \<lparr>mt_cap = 16, mt_map = Some [([97], 0)]\<rparr>) [(DStr SFree [97], DBool True)]) 4 = 0"
proof -
  have v: "\<forall>op \<in> set sample_ops. op_sized op" by (simp add: sample_ops_def op_sized_def op_ok_def)
  have b: "sum_list (map blocks (concat (map op_moved sample_ops))) = 0" by (simp add: sample_ops_def)
  have z: "sized (DObject None [])" by simp
  from node_ops_balanced [OF giving_alloc_counts leaf_ok(3) z v sample_ops_run] show ?thesis unfolding b by simp
qed

subsection \<open>Copies are equal\<close>

fun unique_names :: "dnode \<Rightarrow> bool" where
  "unique_names (DObject m ms) \<longleftrightarrow> distinct (names_of ms) \<and> (\<forall>x \<in> set ms. unique_names (snd x))"
| "unique_names (DArray m es) \<longleftrightarrow> (\<forall>x \<in> set es. unique_names x)"
| "unique_names d \<longleftrightarrow> True"

lemma basic_types: "dn_getBasicType (DStr k s) = kString" "dn_getBasicType (DNumStr own s) = kNumber" "dn_getBasicType (DRaw own s) = kRaw"
  by (simp_all add: dn_getBasicType_def type_code_defs split: str_kind.split)

lemma copied_string: "never_fails A \<Longrightarrow> StringCopy A s al = (d', al') \<Longrightarrow> d' = DStr SFree s"
  by (auto dest: StringCopy_name)

lemma copied_raw: "never_fails A \<Longrightarrow> setRawLikeImpl_copy A s typ DNull al = (d', al') \<Longrightarrow> d' = typ True s"
  by (auto simp: setRawLikeImpl_copy_def never_failsD split: prod.splits bool.splits)

lemma copy_eq:
  shows "never_fails A \<Longrightarrow> node_ok d \<Longrightarrow> unique_names d \<Longrightarrow> copy_node A cs d al = (d', al') \<Longrightarrow> node_eq d' d = Some True \<and> GetStringView d' = GetStringView d"
    and "never_fails A \<Longrightarrow> copy_members A cs ms al = (ms', al') \<Longrightarrow> node_ok (DObject rm rms) \<Longrightarrow> unique_names (DObject rm rms) \<Longrightarrow> set ms \<subseteq> set rms
      \<Longrightarrow> members_eq ms' rm rms = Some True \<and> length ms' = length ms"
    and "never_fails A \<Longrightarrow> copy_elems A cs es al = (es', al') \<Longrightarrow> \<forall>e \<in> set es. node_ok e \<and> unique_names e \<Longrightarrow> elems_eq es' es = Some True \<and> length es' = length es"
proof (induction A cs d al and A cs ms al and A cs es al arbitrary: d' al' and ms' al' rm rms and es' al' rule: copy_node_copy_members_copy_elems.induct)
  case (1 A copyString m ms al)
  obtain mo al1 where M: "containerMalloc (al_Malloc A) sizeof_MemberNode (length ms) al = (mo, al1)" by force
  obtain mem where mem: "mo = Some mem" using containerMalloc_never [OF "1.prems"(1)] M by (metis fst_conv option.exhaust)
  show ?case
  proof (cases "ms = []")
    case True
    then show ?thesis using "1.prems"(4) by auto
  next
    case False
    obtain cms al2 where C: "copy_members A copyString ms al1 = (cms, al2)" by force
    have d': "d' = DObject (Some mem) cms" using "1.prems"(4) False by (simp add: M mem C)
    have "members_eq cms m ms = Some True \<and> length cms = length ms"
      using "1.IH" [OF _ M [symmetric] mem "1.prems"(1) C "1.prems"(2,3)] False by simp
    then show ?thesis by (simp add: d')
  qed
next
  case (2 A copyString m es al)
  obtain mo al1 where M: "containerMalloc (al_Malloc A) sizeof_DNode (length es) al = (mo, al1)" by force
  obtain mem where mem: "mo = Some mem" using containerMalloc_never [OF "2.prems"(1)] M by (metis fst_conv option.exhaust)
  show ?case
  proof (cases "es = []")
    case True
    then show ?thesis using "2.prems"(4) by auto
  next
    case False
    obtain ces al2 where C: "copy_elems A copyString es al1 = (ces, al2)" by force
    have d': "d' = DArray (Some (mem\<lparr>mt_cap := length es\<rparr>)) ces" using "2.prems"(4) False by (simp add: M mem C)
    have "elems_eq ces es = Some True \<and> length ces = length es"
      using "2.IH" [OF _ M [symmetric] mem "2.prems"(1) C] "2.prems"(2,3) False by (simp add: node_ok_array)
    then show ?thesis by (simp add: d')
  qed
next
  case (3 A copyString k s al)
  have "d' = DStr SFree s \<or> d' = DStr k s"
    using "3.prems"(4) copied_string [OF "3.prems"(1)] by (auto split: if_splits)
  then show ?case by (auto simp: basic_types views_eq_def)
next
  case (4 A copyString own s al)
  then show ?case using copied_raw [OF "4.prems"(1), of s DNumStr al d' al'] by (simp add: basic_types views_eq_def)
next
  case (5 A copyString own s al)
  then show ?case using copied_raw [OF "5.prems"(1), of s DRaw al d' al'] by (simp add: basic_types views_eq_def)
next
  case (8 A copyString k v ms al)
  obtain k' al1 where K: "copy_node A copyString k al = (k', al1)" by force
  obtain v' al2 where V: "copy_node A copyString v al1 = (v', al2)" by force
  obtain ms1 al3 where M: "copy_members A copyString ms al2 = (ms1, al3)" by force
  have obj: "obj_ok (rm, rms)" "named rms" using "8.prems"(3) by (simp_all add: node_ok_object obj_ok_def)
  have kv: "(k, v) \<in> set rms" and sub: "set ms \<subseteq> set rms" using "8.prems"(5) by simp_all
  have ks: "is_DStr k" using obj(2) kv by (auto simp: named_def)
  then have k_ok: "node_ok k" "unique_names k" by (auto dest!: is_DStr_view)
  have v_ok: "node_ok v" "unique_names v" using kv "8.prems"(3,4) by (auto simp: node_ok_object)
  obtain i where i: "i < length rms" "rms ! i = (k, v)" using kv by (auto simp: in_set_conv_nth)
  have nm: "GetStringView k = Some (member_name (k, v))" using named_view [of "(k, v)"] ks by simp
  have "names_of rms ! i = member_name (k, v)" using i by (simp add: names_of_def)
  then have f: "findMemberImpl rm rms (member_name (k, v)) = i"
    using member.find_unique [OF obj(1), of i] "8.prems"(4) i by simp
  have k': "GetStringView k' = Some (member_name (k, v))" using "8.IH"(1) [OF "8.prems"(1) k_ok K] nm by simp
  have v': "node_eq v' v = Some True" using "8.IH"(2) [OF K [symmetric] refl "8.prems"(1) v_ok V] by simp
  have m: "members_eq ms1 rm rms = Some True \<and> length ms1 = length ms"
    by (rule "8.IH"(3) [OF K [symmetric] refl V [symmetric] refl "8.prems"(1) M "8.prems"(3,4) sub])
  have "ms' = (k', v') # ms1" using "8.prems"(2) by (simp add: K V M)
  then show ?case using k' v' m f i by (simp add: Let_def)
next
  case (10 A copyString e es al)
  obtain e' al1 where E: "copy_node A copyString e al = (e', al1)" by force
  obtain es1 al2 where S: "copy_elems A copyString es al1 = (es1, al2)" by force
  have p: "node_ok e" "unique_names e" "\<forall>e \<in> set es. node_ok e \<and> unique_names e" using "10.prems"(3) by simp_all
  note e = "10.IH"(1) [OF "10.prems"(1) p(1,2) E] and s = "10.IH"(2) [OF E [symmetric] refl "10.prems"(1) S p(3)]
  have "es' = e' # es1" using "10.prems"(2) by (simp add: E S)
  then show ?case using e s by simp
qed auto

text \<open>
  C30: A deep copy, made with or without copying constant strings, compares equal to its source whenever no object in
  it has two members of one name and no allocation fails.
\<close>

theorem copy_equal:
  assumes "never_fails A" and "node_ok d" and "unique_names d"
  shows "node_eq (fst (CopyFrom A copyString d self al)) d = Some True"
proof -
  obtain d' al' where "copy_node A copyString d (dn_destroy A self al) = (d', al')" by force
  from copy_eq(1) [OF assms this] show ?thesis by (simp add: CopyFrom_def \<open>copy_node A copyString d (dn_destroy A self al) = (d', al')\<close>)
qed

definition sample_dom :: dnode where
  "sample_dom = DObject (Some (new_MetaNode 2)) [(DStr SCopy [98], DArray (Some (new_MetaNode 2)) [DUint 1, DStr SConst [99]]), (DStr SCopy [97], DRaw False [48])]"

lemma sample_dom_ok: "node_ok sample_dom" "unique_names sample_dom"
  by (simp_all add: sample_dom_def node_ok_object node_ok_array obj_ok_def named_def getMap_def capacityImpl_def new_MetaNode_def names_of_def member_name_def)

lemma copy_equal_witness: "node_eq (fst (CopyFrom giving_alloc True sample_dom DNull 0)) sample_dom = Some True"
  by (rule copy_equal [OF giving_alloc_never_fails sample_dom_ok])

text \<open>An object with two members of one name is not even equal to itself.\<close>

lemma duplicate_not_equal_itself:
  "node_eq (DObject (Some (new_MetaNode 2)) [(DStr SConst [97], DUint 1), (DStr SConst [97], DUint 2)])
     (DObject (Some (new_MetaNode 2)) [(DStr SConst [97], DUint 1), (DStr SConst [97], DUint 2)]) = Some False"
  by code_simp

text \<open>Comparing a number kept as text with an integer reads the integer as a string.\<close>

lemma compare_numstr_integer: "node_eq (DNumStr False [49]) (DUint 1) = None"
  by code_simp

text \<open>A request whose size wraps is granted although it has no room: 2 to the 59 members are asked for as 16 bytes, and the capacity is recorded.\<close>

lemma reserve_wraps:
  "memberReserveImpl (giving_alloc\<lparr>al_Realloc := \<lambda>b k n l. (n < 2 ^ 20, l)\<rparr>) None 576460752303423488 (DObject None []) 0
     = Some (DObject (Some \<lparr>mt_cap = 576460752303423488, mt_map = None\<rparr>) [], 0)"
  by (simp add: memberReserveImpl_def containerRealloc_def capacityImpl_def giving_alloc_def sizeof_MemberNode_def sizeof_MetaNode_def)

text \<open>When the name of a new member cannot be copied, a member without a name is added.\<close>

lemma add_member_unnamed:
  "addMemberImpl (giving_alloc\<lparr>al_Malloc := \<lambda>n l. (200 < n, l)\<rparr>) None [97] True (DObject None []) (DUint 1) 0
     = Some (0, DObject (Some (new_MetaNode 16)) [(DStr SConst [], DUint 1)], DNull, 0)"
  by code_simp

end
