(* ===== verification/Sonic_TextGrammar.thy ===== *)
theory Sonic_TextGrammar
  imports Sonic_SerializeProof Sonic_Document Sonic_QuoteParse
begin

text \<open>
  Texts at a position of the parser's buffer: decimal integers as the number parser reads them, and the grammar of
  \<^theory_text>\<open>Sonic_Grammar\<close> derives at most one value from a position.
\<close>

subsection \<open>A text at a position of the buffer\<close>

lemma drop_nth:
  assumes "drop q buf = t @ rest" and "i < length t"
  shows "buf ! (q + i) = t ! i" "q + i < length buf"
proof -
  have "length (drop q buf) = length t + length rest" using assms(1) by simp
  then show l: "q + i < length buf" using assms(2) by simp
  have "buf ! (q + i) = drop q buf ! i" using l by (simp add: add.commute)
  then show "buf ! (q + i) = t ! i" using assms by (simp add: nth_append)
qed

lemma drop_past: "drop q buf = t @ rest \<Longrightarrow> drop (q + length t) buf = rest"
  by (metis add.commute append_eq_conv_conj drop_drop)

lemma drop_char: "drop q buf = c # rest \<Longrightarrow> buf ! q = c \<and> q < length buf \<and> drop (q + 1) buf = rest"
  using drop_nth [of q buf "[c]" rest 0] drop_past [of q buf "[c]" rest] by simp

lemma ref_space_stay: "drop q buf = c # rest \<Longrightarrow> \<not> IsSpace c \<Longrightarrow> ref_space buf q = q"
  by (simp add: ref_space_def run_end_def)

lemma bytes_at_drop: "drop q buf = t @ rest \<Longrightarrow> t \<noteq> [] \<Longrightarrow> bytes_at buf q t"
  using drop_nth(2) [of q buf t rest "length t - 1"] by (cases t) (auto simp: bytes_at_def)

subsection \<open>Integers\<close>

lemma digit_props: "d < 10 \<Longrightarrow> is_digit (digit d)" "d < 10 \<Longrightarrow> digit_of (digit d) = d" "d < 10 \<Longrightarrow> digit d = 0x30 \<longleftrightarrow> d = 0"
proof -
  assume "d < 10"
  then have "d \<in> {0, 1, 2, 3, 4, 5, 6, 7, 8, 9}" by auto
  then show "is_digit (digit d)" "digit_of (digit d) = d" "digit d = 0x30 \<longleftrightarrow> d = 0"
    by (auto simp: is_digit_def digit_of_def digit_def)
qed

lemma decimal_ne [simp]: "decimal n \<noteq> []"
  by (subst decimal.simps) simp

lemma decimal_digits: "list_all is_digit (decimal n)"
proof (induction n rule: decimal.induct)
  case (1 n)
  then show ?case by (subst decimal.simps) (simp add: digit_props)
qed

lemma decimal_value: "digits_nat (map digit_of (decimal n)) = n"
proof (induction n rule: decimal.induct)
  case (1 n)
  show ?case
  proof (cases "n < 10")
    case True
    then show ?thesis by (subst decimal.simps) (simp add: digit_props digits_nat_def)
  next
    case False
    then show ?thesis using 1 by (subst decimal.simps) (simp add: digit_props)
  qed
qed

lemma decimal_hd_nonzero: "0 < n \<Longrightarrow> hd (decimal n) \<noteq> 0x30"
proof (induction n rule: decimal.induct)
  case (1 n)
  show ?case
  proof (cases "n < 10")
    case True
    then show ?thesis using 1 by (subst decimal.simps) (simp add: digit_props)
  next
    case False
    then show ?thesis using 1 by (subst decimal.simps) (simp add: hd_append)
  qed
qed

definition int_value_event :: "int \<Rightarrow> event" where
  "int_value_event z = (if z < 0 then EInt (word_of_int z) else EUint (word_of_int z))"

definition ends_number :: "u8 \<Rightarrow> bool" where
  "ends_number c \<longleftrightarrow> \<not> is_digit c \<and> c \<noteq> 0x2E \<and> \<not> is_e c"

lemma parse_int_text:
  assumes d: "drop q buf = int_text z @ c # rest" and c: "ends_number c" and z: "- (2 ^ 63) \<le> z" "z < 2 ^ 64"
    and g: "num_guard buf len" "q < len"
  shows "number_start (buf ! q)" "parseNumber 0 buf (Suc q) len = Some (Some (int_value_event z), kErrorNone, q + length (int_text z))"
proof -
  define n where "n = nat \<bar>z\<bar>"
  define i where "i = num_start buf q"
  have hd: "is_digit (hd (decimal n))" using decimal_digits [of n] by (cases "decimal n") (simp_all add: Cons_eq_append_conv)
  obtain h ds where hs: "decimal n = h # ds" by (cases "decimal n") simp_all
  have first: "buf ! q = (if z < 0 then 0x2D else h)" "q < length buf"
    using drop_nth [OF d, of 0] by (simp_all add: int_text_def n_def [symmetric] hs)
  have h_digit: "is_digit h" using hd hs by simp
  then have h_minus: "h \<noteq> 0x2D" by (auto simp: is_digit_def)
  show "number_start (buf ! q)" using first h_digit by (auto simp: number_start_def is_digit_def)
  have i: "i = (if z < 0 then q + 1 else q)" using first h_minus by (auto simp: i_def num_start_def)
  have di: "drop i buf = decimal n @ c # rest"
  proof (cases "z < 0")
    case True
    then have "drop q buf = 0x2D # decimal n @ c # rest" using d by (simp add: int_text_def n_def)
    then show ?thesis using drop_char [of q buf] True i by simp
  next
    case False
    then show ?thesis using d i by (simp add: int_text_def n_def)
  qed
  have bi: "buf ! i = h" using drop_nth [OF di, of 0] hs by simp
  have len: "q + length (int_text z) = i + length (decimal n)" using i by (simp add: int_text_def n_def)
  have tw: "takeWhile is_digit (decimal n @ c # rest) = decimal n"
    using decimal_digits [of n] c by (subst takeWhile_append2) (auto simp: list_all_iff ends_number_def)
  then have r: "run_end is_digit buf i = i + length (decimal n)" by (simp add: run_end_def di)
  have br: "buf ! (i + length (decimal n)) = c" using drop_char [OF drop_past [OF di]] by simp
  show "parseNumber 0 buf (Suc q) len = Some (Some (int_value_event z), kErrorNone, q + length (int_text z))"
  proof (cases "z = 0")
    case True
    then have dz: "decimal n = [0x30]" "i = q" by (simp_all add: n_def decimal_single digit_def i)
    have dq: "drop q buf = 0x30 # c # rest" using di dz by simp
    then have rd0: "rd buf q = Some 0x30" "rd buf (q + 1) = Some c" using drop_char [OF dq] drop_char [of "q + 1" buf c rest] by (simp_all add: rd_def)
    have fl: "flags_and 0 f = False" for f by (simp add: flags_and_def)
    show ?thesis using c rd0 by (simp add: parseNumber_def number_zero_def Let_def fl ends_number_def True int_value_event_def int_text_def decimal_single)
  next
    case False
    then have "0 < n" by (simp add: n_def)
    then have h0: "h \<noteq> 0x30" using decimal_hd_nonzero [of n] hs by simp
    have val: "digits_at buf i (length (decimal n)) = n" by (simp add: digits_at_def di decimal_value)
    have A: "is_digit (buf ! i)" "buf ! i \<noteq> 0x30" using h_digit h0 bi by simp_all
    have B: "buf ! (i + length (decimal n)) \<noteq> 0x2E" "\<not> is_e (buf ! (i + length (decimal n)))" using c br by (simp_all add: ends_number_def)
    have k: "i + length (decimal n) - i = length (decimal n)" by simp
    note P = parse_integer_value [OF g i_def A r [symmetric] B, unfolded k val]
    obtain ev er where e: "parseNumber 0 buf (Suc q) len = Some (Some ev, er, i + length (decimal n))"
      "int_event (buf ! q = 0x2D) n ev" "er = kErrorNone \<or> (\<exists>d. ev = EDouble d)"
      using P by (elim exE conjE) (rule that)
    have neg: "buf ! q = 0x2D \<longleftrightarrow> z < 0" using first h_minus by simp
    have "ev = int_value_event z"
    proof (cases "z < 0")
      case True
      then have zn: "z = - int n" by (simp add: n_def)
      have "int n \<le> int (2 ^ 63)" using z(1) unfolding zn by simp
      then have "n \<le> 2 ^ 63" by (simp only: of_nat_le_iff)
      moreover have "n \<noteq> 0" using False zn by simp
      moreover have "(- word_of_nat n :: u64) = word_of_int z" unfolding zn by simp
      ultimately show ?thesis using e(2) True by (simp add: int_event_def neg int_value_event_def)
    next
      case nn: False
      then have zn: "z = int n" by (simp add: n_def)
      have "int n < int (2 ^ 64)" using z(2) unfolding zn by simp
      then have "n < 2 ^ 64" by (simp only: of_nat_less_iff)
      moreover have "(word_of_nat n :: u64) = word_of_int z" unfolding zn by simp
      ultimately show ?thesis using e(2) nn by (simp add: int_event_def neg int_value_event_def)
    qed
    moreover have "er = kErrorNone" using e(3) \<open>ev = int_value_event z\<close> by (auto simp: int_value_event_def split: if_splits)
    ultimately show ?thesis using e(1) len by simp
  qed
qed

subsection \<open>The grammar is unambiguous\<close>

lemma number_start_byte:
  "number_start c \<Longrightarrow> c \<noteq> 0x6E \<and> c \<noteq> 0x74 \<and> c \<noteq> 0x66 \<and> c \<noteq> 0x22 \<and> c \<noteq> 0x5B \<and> c \<noteq> 0x7B \<and> c \<noteq> 0x5D \<and> c \<noteq> 0x7D"
  by (auto simp: number_start_def)

lemma literal_byte: "bytes_at buf q (x # xs) \<Longrightarrow> buf ! q = x"
  using bytes_at_nth [of buf q "x # xs" 0] by simp

inductive_cases value_atE: "value_at fl buf len q v p"
inductive_cases elems_atE: "elems_at fl buf len q vs p"
inductive_cases members_atE: "members_at fl buf len q ms p"

lemma value_first_char: "value_at fl buf len q v p \<Longrightarrow> buf ! q \<noteq> 0x5D \<and> buf ! q \<noteq> 0x7D"
  by (erule value_atE) (auto dest: literal_byte number_start_byte)

lemma elems_first: "elems_at fl buf len q vs p \<Longrightarrow> buf ! q \<noteq> 0x5D"
  by (erule elems_atE) (auto dest: value_first_char)

lemma members_first: "members_at fl buf len q ms p \<Longrightarrow> buf ! q \<noteq> 0x7D"
  by (erule members_atE) auto

text \<open>The rule is known from the first byte.\<close>

lemma value_at_literal:
  "value_at fl buf len q v p \<Longrightarrow> buf ! q = 0x6E \<Longrightarrow> v = JNull \<and> p = q + 4"
  "value_at fl buf len q v p \<Longrightarrow> buf ! q = 0x74 \<Longrightarrow> v = JBool True \<and> p = q + 4"
  "value_at fl buf len q v p \<Longrightarrow> buf ! q = 0x66 \<Longrightarrow> v = JBool False \<and> p = q + 5"
  by (erule value_atE; force dest: literal_byte number_start_byte)+

lemma value_at_number:
  "value_at fl buf len q v p \<Longrightarrow> number_start (buf ! q) \<Longrightarrow> \<exists>ev. v = JNumber ev \<and> parseNumber fl buf (Suc q) len = Some (Some ev, kErrorNone, p)"
  by (erule value_atE) (auto dest: literal_byte number_start_byte)

lemma value_at_string:
  "value_at fl buf len q v p \<Longrightarrow> buf ! q = 0x22 \<Longrightarrow>
     \<exists>t. v = JString (q + 1) t \<and> str_scan (flags_and fl kParseAllowUnescapedControlChars) buf (q + 1) = Some (Inr (t, p))"
  by (erule value_atE) (auto dest: literal_byte number_start_byte)

lemma value_at_array:
  "value_at fl buf len q v p \<Longrightarrow> buf ! q = 0x5B \<Longrightarrow>
     (if buf ! ref_space buf (q + 1) = 0x5D then v = JArray [] \<and> p = ref_space buf (q + 1) + 1
      else \<exists>vs. v = JArray vs \<and> elems_at fl buf len (ref_space buf (q + 1)) vs p)"
  by (erule value_atE) (auto dest: literal_byte number_start_byte elems_first)

lemma value_at_object:
  "value_at fl buf len q v p \<Longrightarrow> buf ! q = 0x7B \<Longrightarrow>
     (if buf ! ref_space buf (q + 1) = 0x7D then v = JObject [] \<and> p = ref_space buf (q + 1) + 1
      else \<exists>ms. v = JObject ms \<and> members_at fl buf len (ref_space buf (q + 1)) ms p)"
  by (erule value_atE) (auto dest: literal_byte number_start_byte members_first)

lemma value_unique:
  "value_at fl buf len q v p \<Longrightarrow> (\<forall>v' p'. value_at fl buf len q v' p' \<longrightarrow> v' = v \<and> p' = p)"
  "elems_at fl buf len q vs p \<Longrightarrow> (\<forall>vs' p'. elems_at fl buf len q vs' p' \<longrightarrow> vs' = vs \<and> p' = p)"
  "members_at fl buf len q ms p \<Longrightarrow> (\<forall>ms' p'. members_at fl buf len q ms' p' \<longrightarrow> ms' = ms \<and> p' = p)"
proof (induction rule: value_at_elems_at_members_at.inducts)
  case (VNull q)
  then show ?case by (intro allI impI) (rule value_at_literal(1) [OF _ literal_byte])
next
  case (VTrue q)
  then show ?case by (intro allI impI) (rule value_at_literal(2) [OF _ literal_byte])
next
  case (VFalse q)
  then show ?case by (intro allI impI) (rule value_at_literal(3) [OF _ literal_byte])
next
  case (VNumber q ev p)
  then show ?case using value_at_number by fastforce
next
  case (VString q t p)
  then show ?case using value_at_string by fastforce
next
  case (VEmptyArray q)
  then show ?case using value_at_array by fastforce
next
  case (VArray q vs p)
  then show ?case using value_at_array elems_first by (metis (no_types, lifting))
next
  case (VEmptyObject q)
  then show ?case using value_at_object by fastforce
next
  case (VObject q ms p)
  then show ?case using value_at_object members_first by (metis (no_types, lifting))
next
  case (ELast q v p)
  note H = ELast
  have u: "value_at fl buf len q v1 p1 \<Longrightarrow> v1 = v \<and> p1 = p" for v1 p1 using H(2) by blast
  show ?case
  proof (intro allI impI)
    fix vs' p'
    assume "elems_at fl buf len q vs' p'"
    then show "vs' = [v] \<and> p' = ref_space buf p + 1"
    proof cases
      case (ELast v1 p1)
      then show ?thesis using u [of v1 p1] by simp
    next
      case (ECons v1 p1 vs1)
      then show ?thesis using u [of v1 p1] H(3) by simp
    qed
  qed
next
  case (ECons q v p vs p')
  note H = ECons
  have u: "value_at fl buf len q v1 p1 \<Longrightarrow> v1 = v \<and> p1 = p" for v1 p1 using H(2) by blast
  have w: "elems_at fl buf len (ref_space buf (ref_space buf p + 1)) vs1 p1 \<Longrightarrow> vs1 = vs \<and> p1 = p'" for vs1 p1 using H(5) by blast
  show ?case
  proof (intro allI impI)
    fix vs1 p2
    assume "elems_at fl buf len q vs1 p2"
    then show "vs1 = v # vs \<and> p2 = p'"
    proof cases
      case (ELast v1 p1)
      then show ?thesis using u [of v1 p1] H(3) by simp
    next
      case (ECons v1 p1 vs2)
      then show ?thesis using u [of v1 p1] w [of vs2 p2] by simp
    qed
  qed
next
  case (MLast q t k v p)
  note H = MLast
  have u: "value_at fl buf len (ref_space buf (ref_space buf k + 1)) v1 p1 \<Longrightarrow> v1 = v \<and> p1 = p" for v1 p1 using H(5) by blast
  show ?case
  proof (intro allI impI)
    fix ms1 p2
    assume "members_at fl buf len q ms1 p2"
    then show "ms1 = [((q + 1, t), v)] \<and> p2 = ref_space buf p + 1"
    proof cases
      case (MLast t1 k1 v1 p1)
      then show ?thesis using u [of v1 p1] H(2,6) by simp
    next
      case (MCons t1 k1 v1 p1 ms2)
      then show ?thesis using u [of v1 p1] H(2,6) by simp
    qed
  qed
next
  case (MCons q t k v p ms p')
  note H = MCons
  have u: "value_at fl buf len (ref_space buf (ref_space buf k + 1)) v1 p1 \<Longrightarrow> v1 = v \<and> p1 = p" for v1 p1 using H(5) by blast
  have w: "members_at fl buf len (ref_space buf (ref_space buf p + 1)) ms1 p1 \<Longrightarrow> ms1 = ms \<and> p1 = p'" for ms1 p1 using H(8) by blast
  show ?case
  proof (intro allI impI)
    fix ms1 p2
    assume "members_at fl buf len q ms1 p2"
    then show "ms1 = ((q + 1, t), v) # ms \<and> p2 = p'"
    proof cases
      case (MLast t1 k1 v1 p1)
      then show ?thesis using u [of v1 p1] H(2,6) by simp
    next
      case (MCons t1 k1 v1 p1 ms2)
      then show ?thesis using u [of v1 p1] w [of ms2 p2] H(2) by simp
    qed
  qed
qed

end
