(* ===== verification/Sonic_RoundTrip.thy ===== *)
theory Sonic_RoundTrip
  imports Sonic_TextGrammar
begin

text \<open>
  The serializer and the parser together: the text written for a tree is derived by the grammar to a value whose node is
  the tree, so that parsing it gives the tree back.
\<close>

subsection \<open>The text of a tree is derived to the tree\<close>

text \<open>
  Trees without doubles, numbers kept as text and raw values, and what the parser makes of their text: strings in the
  document's buffer, blocks of the exact size, non-negative integers unsigned.
\<close>

fun plain_tree :: "dnode \<Rightarrow> bool" where
  "plain_tree (DReal d) \<longleftrightarrow> False"
| "plain_tree (DNumStr own s) \<longleftrightarrow> False"
| "plain_tree (DRaw own s) \<longleftrightarrow> False"
| "plain_tree (DArray m es) \<longleftrightarrow> (\<forall>e \<in> set es. plain_tree e)"
| "plain_tree (DObject m ms) \<longleftrightarrow> (\<forall>p \<in> set ms. plain_tree (snd p))"
| "plain_tree d \<longleftrightarrow> True"

fun parsed_form :: "dnode \<Rightarrow> dnode" where
  "parsed_form (DSint i) = dnode_int64 i"
| "parsed_form (DStr k s) = DStr SCopy s"
| "parsed_form (DArray m es) = DArray (new_meta (length es)) (map parsed_form es)"
| "parsed_form (DObject m ms) = DObject (new_meta (length ms)) (map (\<lambda>p. (DStr SCopy (member_name p), parsed_form (snd p))) ms)"
| "parsed_form d = d"

definition value_char :: "u8 \<Rightarrow> bool" where
  "value_char c \<longleftrightarrow> \<not> IsSpace c"

definition derives :: "bytes \<Rightarrow> nat \<Rightarrow> bytes \<Rightarrow> dnode \<Rightarrow> bool" where
  "derives buf len t d \<longleftrightarrow> (\<forall>q c rest. drop q buf = t @ c # rest \<longrightarrow> q + length t \<le> len \<longrightarrow> ends_number c
     \<longrightarrow> (\<exists>v. value_at 0 buf len q v (q + length t) \<and> json_node v = parsed_form d))"

lemma rest_room:
  assumes "num_guard buf len" and "drop q buf = t @ rest" and "q + length t \<le> len"
  shows "16 \<le> length rest"
proof -
  have "length (drop q buf) = length t + length rest" using assms(2) by simp
  then have "length buf - q = length t + length rest" by simp
  moreover have "len + 16 \<le> length buf" using assms(1) by (simp add: num_guard_def)
  ultimately show ?thesis using assms(3) by arith
qed

lemma derivesD:
  "derives buf len t d \<Longrightarrow> drop q buf = t @ c # rest \<Longrightarrow> q + length t \<le> len \<Longrightarrow> ends_number c
     \<Longrightarrow> \<exists>v. value_at 0 buf len q v (q + length t) \<and> json_node v = parsed_form d"
  by (auto simp: derives_def)

lemma derive_literal:
  assumes "length t = n" and "0 < n" and "\<And>q. bytes_at buf q t \<Longrightarrow> value_at 0 buf len q v (q + n)" and "json_node v = parsed_form d"
  shows "derives buf len t d"
  unfolding derives_def
proof (intro allI impI)
  fix q c rest
  assume "drop q buf = t @ c # rest"
  then have "bytes_at buf q t" by (rule bytes_at_drop) (use assms(1,2) in auto)
  then show "\<exists>v. value_at 0 buf len q v (q + length t) \<and> json_node v = parsed_form d" using assms(1,3,4) by blast
qed

lemma derive_int:
  assumes g: "num_guard buf len" and z: "- (2 ^ 63) \<le> z" "z < 2 ^ 64" and d: "number_node (int_value_event z) = parsed_form d"
  shows "derives buf len (int_text z) d"
  unfolding derives_def
proof (intro allI impI)
  fix q c rest
  assume a: "drop q buf = int_text z @ c # rest" "q + length (int_text z) \<le> len" "ends_number c"
  have "int_text z \<noteq> []" by (simp add: int_text_def)
  then have "q < len" using a(2) by (cases "int_text z") simp_all
  note p = parse_int_text [OF a(1,3) z g this]
  show "\<exists>v. value_at 0 buf len q v (q + length (int_text z)) \<and> json_node v = parsed_form d"
    using VNumber [OF p] d by (intro exI [of _ "JNumber (int_value_event z)"]) simp
qed

lemma scan_quoted:
  assumes g: "num_guard buf len" and e: "\<not> EscapeEmoji fl" and d: "drop q buf = json_quoted fl s @ rest" and l: "q + length (json_quoted fl s) \<le> len"
  shows "buf ! q = 0x22" "str_scan allow buf (q + 1) = Some (Inr (s, q + length (json_quoted fl s)))"
proof -
  have d': "drop q buf = 0x22 # (quoted fl s @ 0x22 # rest)" using d by (simp add: json_quoted_def)
  show "buf ! q = 0x22" using drop_char [OF d'] by simp
  have "11 \<le> length rest" using rest_room [OF g d l] by simp
  from str_scan_quoted [OF e conjunct2 [OF conjunct2 [OF drop_char [OF d']]] this]
  show "str_scan allow buf (q + 1) = Some (Inr (s, q + length (json_quoted fl s)))" by (simp add: json_quoted_def)
qed

lemma derive_string:
  assumes g: "num_guard buf len" and e: "\<not> EscapeEmoji fl"
  shows "derives buf len (json_quoted fl s) (DStr k s)"
  unfolding derives_def
proof (intro allI impI)
  fix q c rest
  assume a: "drop q buf = json_quoted fl s @ c # rest" "q + length (json_quoted fl s) \<le> len"
  note p = scan_quoted [OF g e a]
  show "\<exists>v. value_at 0 buf len q v (q + length (json_quoted fl s)) \<and> json_node v = parsed_form (DStr k s)"
    using VString [OF p] by (intro exI [of _ "JString (q + 1) s"]) simp
qed

lemma punctuation: "ends_number 0x2C" "ends_number 0x5D" "ends_number 0x7D" "ends_number 0x78"
  "\<not> IsSpace 0x2C" "\<not> IsSpace 0x5D" "\<not> IsSpace 0x7D" "\<not> IsSpace 0x3A" "\<not> IsSpace 0x22"
  by (simp_all add: ends_number_def is_digit_def is_e_def IsSpace_def)

text \<open>No text begins with a space.\<close>

lemma text_first: "plain_tree d \<Longrightarrow> node_text fl d = Some t \<Longrightarrow> \<exists>c t'. t = c # t' \<and> \<not> IsSpace c"
proof -
  have i: "\<exists>c t'. int_text z = c # t' \<and> \<not> IsSpace c" for z
  proof (cases "z < 0")
    case False
    obtain h ds where h: "decimal (nat \<bar>z\<bar>) = h # ds" by (cases "decimal (nat \<bar>z\<bar>)") simp_all
    then have "is_digit h" using decimal_digits [of "nat \<bar>z\<bar>"] by simp
    then show ?thesis using False h by (auto simp: int_text_def is_digit_def IsSpace_def)
  qed (simp add: int_text_def IsSpace_def)
  have "decimal (unat u) = int_text (uint u)" for u :: u64 by (simp add: int_text_def nat_uint_eq)
  then show "plain_tree d \<Longrightarrow> node_text fl d = Some t \<Longrightarrow> \<exists>c t'. t = c # t' \<and> \<not> IsSpace c"
    using i by (cases d) (auto simp: json_quoted_def bytes_of_def IsSpace_def split: if_splits)
qed

lemma elems_derive:
  assumes es: "list_all2 (\<lambda>t e. derives buf len t e \<and> (\<exists>c t'. t = c # t' \<and> \<not> IsSpace c)) ts es" and ne: "ts \<noteq> []"
    and d: "drop q buf = comma_sep ts @ 0x5D # rest" and l: "q + length (comma_sep ts) < len"
  shows "\<exists>vs. elems_at 0 buf len q vs (q + length (comma_sep ts) + 1) \<and> map json_node vs = map parsed_form es"
  using es ne d l
proof (induction ts es arbitrary: q rule: list_all2_induct)
  case Nil
  then show ?case by simp
next
  case (Cons t ts e es)
  show ?case
  proof (cases ts)
    case Nil
    then have es: "es = []" using Cons.hyps(2) by simp
    have d: "drop q buf = t @ 0x5D # rest" using Cons.prems Nil by simp
    obtain v where v: "value_at 0 buf len q v (q + length t)" "json_node v = parsed_form e"
      using derivesD [OF conjunct1 [OF Cons.hyps(1)] d _ punctuation(2)] Cons.prems(3) Nil by auto
    have r: "ref_space buf (q + length t) = q + length t" "buf ! (q + length t) = 0x5D"
      using ref_space_stay [OF drop_past [OF d] punctuation(6)] drop_char [OF drop_past [OF d]] by simp_all
    show ?thesis using ELast [OF v(1)] r v(2) es Nil by (intro exI [of _ "[v]"]) simp
  next
    case (Cons t2 ts2)
    have d: "drop q buf = t @ 0x2C # (comma_sep ts @ 0x5D # rest)" using Cons.prems(2) Cons by simp
    obtain v where v: "value_at 0 buf len q v (q + length t)" "json_node v = parsed_form e"
      using derivesD [OF conjunct1 [OF Cons.hyps(1)] d _ punctuation(1)] Cons.prems(3) Cons by auto
    have r: "ref_space buf (q + length t) = q + length t" "buf ! (q + length t) = 0x2C"
      "drop (q + length t + 1) buf = comma_sep ts @ 0x5D # rest"
      using ref_space_stay [OF drop_past [OF d] punctuation(5)] drop_char [OF drop_past [OF d]] by simp_all
    obtain c t' where c: "comma_sep ts = c # t'" "\<not> IsSpace c" using Cons Cons.hyps(2) by (cases ts2) (auto simp: list_all2_Cons1)
    then have s: "ref_space buf (q + length t + 1) = q + length t + 1" using r(3) ref_space_stay by simp
    obtain vs where vs: "elems_at 0 buf len (q + length t + 1) vs (q + length t + 1 + length (comma_sep ts) + 1)" "map json_node vs = map parsed_form es"
      using Cons.IH [OF _ r(3)] Cons Cons.prems(3) by auto
    have "elems_at 0 buf len q (v # vs) (q + length t + 1 + length (comma_sep ts) + 1)"
      by (rule ECons [OF v(1)]) (use vs(1) in \<open>simp_all add: r s [simplified]\<close>)
    then show ?thesis using Cons v(2) vs(2) by (intro exI [of _ "v # vs"]) (simp add: add.assoc)
  qed
qed

text \<open>The text of a member.\<close>

definition member_derives :: "u32 \<Rightarrow> bytes \<Rightarrow> nat \<Rightarrow> bytes \<Rightarrow> dnode \<times> dnode \<Rightarrow> bool" where
  "member_derives fl buf len t p \<longleftrightarrow> (\<exists>u. t = json_quoted fl (member_name p) @ 0x3A # u \<and> derives buf len u (snd p)
     \<and> (\<exists>c u'. u = c # u' \<and> \<not> IsSpace c))"

lemma member_key:
  assumes g: "num_guard buf len" and e: "\<not> EscapeEmoji fl" and d: "drop q buf = t @ c # rest" "q + length t \<le> len"
    and m: "member_derives fl buf len t p" and c: "ends_number c"
  shows "\<exists>k v. buf ! q = 0x22 \<and> str_scan allow buf (q + 1) = Some (Inr (member_name p, k)) \<and> buf ! ref_space buf k = 0x3A
     \<and> value_at 0 buf len (ref_space buf (ref_space buf k + 1)) v (q + length t) \<and> json_node v = parsed_form (snd p)"
proof -
  let ?n = "json_quoted fl (member_name p)"
  obtain u c0 u' where u: "t = ?n @ 0x3A # u" "derives buf len u (snd p)" "u = c0 # u'" "\<not> IsSpace c0" using m unfolding member_derives_def by blast
  have dn: "drop q buf = ?n @ 0x3A # (u @ c # rest)" using d(1) u(1) by simp
  have l: "q + length ?n \<le> len" using d(2) u(1) by simp
  note sc = scan_quoted [OF g e dn l]
  let ?k = "q + length ?n"
  note dc = drop_past [OF dn]
  have k: "ref_space buf ?k = ?k" "buf ! ?k = 0x3A" "drop (?k + 1) buf = u @ c # rest"
    using ref_space_stay [OF dc punctuation(8)] drop_char [OF dc] by simp_all
  have s: "ref_space buf (?k + 1) = ?k + 1" using ref_space_stay [of "?k + 1" buf c0] k(3) u(3,4) by simp
  have lu: "?k + 1 + length u \<le> len" using d(2) u(1) by simp
  obtain v where v: "value_at 0 buf len (?k + 1) v (?k + 1 + length u)" "json_node v = parsed_form (snd p)"
    using derivesD [OF u(2) k(3) lu c] by blast
  have "q + length t = ?k + 1 + length u" using u(1) by simp
  then show ?thesis using sc k s v by (intro exI [of _ ?k] exI [of _ v]) (simp add: add.assoc)
qed

lemma members_derive:
  assumes g: "num_guard buf len" and e: "\<not> EscapeEmoji fl"
    and ms: "list_all2 (member_derives fl buf len) ts ms" and ne: "ts \<noteq> []"
    and d: "drop q buf = comma_sep ts @ 0x7D # rest" and l: "q + length (comma_sep ts) < len"
  shows "\<exists>vs. members_at 0 buf len q vs (q + length (comma_sep ts) + 1) \<and> length vs = length ms
    \<and> map (\<lambda>m. (DStr SCopy (snd (fst m)), json_node (snd m))) vs = map (\<lambda>p. (DStr SCopy (member_name p), parsed_form (snd p))) ms"
  using ms ne d l
proof (induction ts ms arbitrary: q rule: list_all2_induct)
  case Nil
  then show ?case by simp
next
  case (Cons t ts p ms)
  show ?case
  proof (cases ts)
    case Nil
    then have ms: "ms = []" using Cons.hyps(2) by simp
    have d: "drop q buf = t @ 0x7D # rest" "q + length t \<le> len" using Cons.prems Nil by simp_all
    obtain k v where kv: "buf ! q = 0x22" "str_scan (flags_and 0 kParseAllowUnescapedControlChars) buf (q + 1) = Some (Inr (member_name p, k))"
      "buf ! ref_space buf k = 0x3A" "value_at 0 buf len (ref_space buf (ref_space buf k + 1)) v (q + length t)" "json_node v = parsed_form (snd p)"
      using member_key [OF g e d Cons.hyps(1) punctuation(3)] by blast
    have r: "ref_space buf (q + length t) = q + length t" "buf ! (q + length t) = 0x7D"
      using ref_space_stay [OF drop_past [OF d(1)] punctuation(7)] drop_char [OF drop_past [OF d(1)]] by simp_all
    show ?thesis using MLast [OF kv(1-4)] r kv(5) ms Nil by (intro exI [of _ "[((q + 1, member_name p), v)]"]) simp
  next
    case (Cons t2 ts2)
    have d: "drop q buf = t @ 0x2C # (comma_sep ts @ 0x7D # rest)" "q + length t \<le> len" using Cons.prems(2,3) Cons by simp_all
    obtain k v where kv: "buf ! q = 0x22" "str_scan (flags_and 0 kParseAllowUnescapedControlChars) buf (q + 1) = Some (Inr (member_name p, k))"
      "buf ! ref_space buf k = 0x3A" "value_at 0 buf len (ref_space buf (ref_space buf k + 1)) v (q + length t)" "json_node v = parsed_form (snd p)"
      using member_key [OF g e d Cons.hyps(1) punctuation(1)] by blast
    note dp = drop_past [OF d(1)]
    have r: "ref_space buf (q + length t) = q + length t" "buf ! (q + length t) = 0x2C"
      "drop (q + length t + 1) buf = comma_sep ts @ 0x7D # rest"
      using ref_space_stay [OF dp punctuation(5)] drop_char [OF dp] by simp_all
    obtain p2 ms2 where "member_derives fl buf len t2 p2" using Cons Cons.hyps(2) by (auto simp: list_all2_Cons1)
    then obtain t' where "t2 = 0x22 # t'" by (auto simp: member_derives_def json_quoted_def)
    then obtain t' where c: "comma_sep ts = 0x22 # t'" using Cons by (cases ts2) auto
    then have s: "ref_space buf (q + length t + 1) = q + length t + 1" using r(3) ref_space_stay punctuation(9) by simp
    obtain vs where vs: "members_at 0 buf len (q + length t + 1) vs (q + length t + 1 + length (comma_sep ts) + 1)" "length vs = length ms"
      "map (\<lambda>m. (DStr SCopy (snd (fst m)), json_node (snd m))) vs = map (\<lambda>p. (DStr SCopy (member_name p), parsed_form (snd p))) ms"
      using Cons.IH [OF _ r(3)] Cons Cons.prems(3) by auto
    have "members_at 0 buf len q (((q + 1, member_name p), v) # vs) (q + length t + 1 + length (comma_sep ts) + 1)"
      by (rule MCons [OF kv(1-4)]) (use vs(1) in \<open>simp_all add: r s [simplified]\<close>)
    then show ?thesis using Cons kv(5) vs(2,3) by (intro exI [of _ "((q + 1, member_name p), v) # vs"]) (simp add: add.assoc)
  qed
qed

lemma those_all2: "those (map f xs) = Some ts \<longleftrightarrow> list_all2 (\<lambda>t x. f x = Some t) ts xs"
  by (induction xs arbitrary: ts) (auto simp: list_all2_Cons2 split: option.splits)

lemma derive_container:
  assumes "\<And>q rest. drop (q + 1) buf = mid @ cls # rest \<Longrightarrow> q + length mid + 2 \<le> len \<Longrightarrow>
      buf ! q = opn \<Longrightarrow> ref_space buf (q + 1) = q + 1 \<Longrightarrow> \<exists>v. value_at 0 buf len q v (q + length mid + 2) \<and> json_node v = parsed_form d"
    and "\<exists>c t'. mid @ [cls] = c # t' \<and> \<not> IsSpace c"
  shows "derives buf len (opn # mid @ [cls]) d"
  unfolding derives_def
proof (intro allI impI)
  fix q c rest
  assume a: "drop q buf = (opn # mid @ [cls]) @ c # rest" "q + length (opn # mid @ [cls]) \<le> len"
  have d: "drop q buf = opn # (mid @ cls # c # rest)" using a(1) by simp
  note dc = drop_char [OF d]
  obtain c0 t' where f: "mid @ [cls] = c0 # t'" "\<not> IsSpace c0" using assms(2) by blast
  then have "drop (q + 1) buf = c0 # t' @ c # rest" using dc by (metis append_Cons append_assoc append_Nil)
  then have s: "ref_space buf (q + 1) = q + 1" using f(2) by (rule ref_space_stay)
  show "\<exists>v. value_at 0 buf len q v (q + length (opn # mid @ [cls])) \<and> json_node v = parsed_form d"
    using assms(1) [of q "c # rest"] dc a(2) s by simp
qed

lemma list_all2_mono': "list_all2 P xs ys \<Longrightarrow> (\<And>x y. y \<in> set ys \<Longrightarrow> P x y \<Longrightarrow> Q x y) \<Longrightarrow> list_all2 Q xs ys"
  by (induction rule: list_all2_induct) auto

lemma comma_sep_first: "comma_sep ((c # t) # ts) = c # comma_sep (t # ts)"
  by (cases ts) simp_all

lemma derive_array:
  assumes es: "list_all2 (\<lambda>t e. derives buf len t e \<and> (\<exists>c t'. t = c # t' \<and> \<not> IsSpace c)) ts es"
  shows "derives buf len (0x5B # comma_sep ts @ [0x5D]) (DArray m es)"
proof (rule derive_container)
  show "\<exists>c t'. comma_sep ts @ [0x5D] = c # t' \<and> \<not> IsSpace c"
    using es punctuation(6) by (cases ts) (auto simp: list_all2_Cons1 comma_sep_first)
next
  fix q rest
  assume d: "drop (q + 1) buf = comma_sep ts @ 0x5D # rest" and l: "q + length (comma_sep ts) + 2 \<le> len" and o: "buf ! q = 0x5B"
    and s: "ref_space buf (q + 1) = q + 1"
  show "\<exists>v. value_at 0 buf len q v (q + length (comma_sep ts) + 2) \<and> json_node v = parsed_form (DArray m es)"
  proof (cases "ts = []")
    case True
    then have "buf ! (q + 1) = 0x5D" "es = []" using drop_char [of "q + 1" buf] d es by auto
    then show ?thesis using VEmptyArray [OF o, of 0 len] s True by (intro exI [of _ "JArray []"]) simp
  next
    case False
    obtain vs where vs: "elems_at 0 buf len (q + 1) vs (q + 1 + length (comma_sep ts) + 1)" "map json_node vs = map parsed_form es"
      using elems_derive [OF es False d] l by auto
    have "value_at 0 buf len q (JArray vs) (q + 1 + length (comma_sep ts) + 1)" by (rule VArray [OF o]) (use vs(1) s in simp)
    moreover have "length vs = length es" using arg_cong [OF vs(2), of length] by simp
    ultimately show ?thesis using vs(2) by (intro exI [of _ "JArray vs"]) simp
  qed
qed

lemma derive_object:
  assumes g: "num_guard buf len" and e: "\<not> EscapeEmoji fl" and ms: "list_all2 (member_derives fl buf len) ts ms"
  shows "derives buf len (0x7B # comma_sep ts @ [0x7D]) (DObject m ms)"
proof (rule derive_container)
  show "\<exists>c t'. comma_sep ts @ [0x7D] = c # t' \<and> \<not> IsSpace c"
    using ms punctuation(7,9)
    by (cases ts) (auto simp: list_all2_Cons1 member_derives_def json_quoted_def comma_sep_first)
next
  fix q rest
  assume d: "drop (q + 1) buf = comma_sep ts @ 0x7D # rest" and l: "q + length (comma_sep ts) + 2 \<le> len" and o: "buf ! q = 0x7B"
    and s: "ref_space buf (q + 1) = q + 1"
  show "\<exists>v. value_at 0 buf len q v (q + length (comma_sep ts) + 2) \<and> json_node v = parsed_form (DObject m ms)"
  proof (cases "ts = []")
    case True
    then have "buf ! (q + 1) = 0x7D" "ms = []" using drop_char [of "q + 1" buf] d ms by auto
    then show ?thesis using VEmptyObject [OF o, of 0 len] s True by (intro exI [of _ "JObject []"]) simp
  next
    case False
    obtain vs where vs: "members_at 0 buf len (q + 1) vs (q + 1 + length (comma_sep ts) + 1)" "length vs = length ms"
      "map (\<lambda>m. (DStr SCopy (snd (fst m)), json_node (snd m))) vs = map (\<lambda>p. (DStr SCopy (member_name p), parsed_form (snd p))) ms"
      using members_derive [OF g e ms False d] l by auto
    have "value_at 0 buf len q (JObject vs) (q + 1 + length (comma_sep ts) + 1)" by (rule VObject [OF o]) (use vs(1) s in simp)
    then show ?thesis using vs(2,3) by (intro exI [of _ "JObject vs"]) simp
  qed
qed

lemma tree_derives:
  assumes g: "num_guard buf len" and e: "\<not> EscapeEmoji fl"
  shows "plain_tree d \<Longrightarrow> node_text fl d = Some t \<Longrightarrow> derives buf len t d"
proof (induction d arbitrary: t)
  case DNull
  have "derives buf len (bytes_of ''null'') DNull"
    by (rule derive_literal [where v = JNull and n = 4, OF _ _ VNull]) (simp_all add: bytes_of_def)
  then show ?case using DNull by simp
next
  case (DBool b)
  have "derives buf len (bytes_of ''true'') (DBool True)"
    by (rule derive_literal [where v = "JBool True" and n = 4, OF _ _ VTrue]) (simp_all add: bytes_of_def)
  moreover have "derives buf len (bytes_of ''false'') (DBool False)"
    by (rule derive_literal [where v = "JBool False" and n = 5, OF _ _ VFalse]) (simp_all add: bytes_of_def)
  ultimately show ?case using DBool by (cases b) simp_all
next
  case (DUint u)
  have b: "- (2 ^ 63) \<le> uint u" "uint u < 2 ^ 64" using uint_lt2p [of u] by (auto intro: order_trans [of _ 0])
  have "decimal (unat u) = int_text (uint u)" by (simp add: int_text_def nat_uint_eq)
  moreover have "number_node (int_value_event (uint u)) = parsed_form (DUint u)" by (simp add: int_value_event_def)
  ultimately show ?case using derive_int [OF g b] DUint by simp
next
  case (DSint i)
  have b: "- (2 ^ 63) \<le> sint i" "sint i < 2 ^ 64" using sint_range_size [of i] by (simp_all add: word_size)
  have "number_node (int_value_event (sint i)) = parsed_form (DSint i)" by (simp add: int_value_event_def dnode_int64_def)
  then show ?case using derive_int [OF g b] DSint by simp
next
  case (DStr k s)
  then show ?case using derive_string [OF g e] by auto
next
  case (DObject m ms)
  obtain ts where t: "t = 0x7B # comma_sep ts @ [0x7D]"
    "list_all2 (\<lambda>t p. map_option (\<lambda>t. json_quoted fl (member_name p) @ 0x3A # t) (node_text fl (snd p)) = Some t) ts ms"
    using DObject.prems(2) by (auto simp: those_all2)
  have "member_derives fl buf len t p" if pm: "p \<in> set ms" and tx: "map_option (\<lambda>t. json_quoted fl (member_name p) @ 0x3A # t) (node_text fl (snd p)) = Some t" for t p
  proof -
    obtain u where u: "node_text fl (snd p) = Some u" "t = json_quoted fl (member_name p) @ 0x3A # u" using tx by auto
    have pl: "plain_tree (snd p)" using DObject.prems(1) pm by simp
    have "derives buf len u (snd p)" using DObject.IH(2) [OF pm _ pl u(1)] by (simp add: snds.simps)
    then show ?thesis using u text_first [OF pl u(1)] unfolding member_derives_def by blast
  qed
  then have "list_all2 (member_derives fl buf len) ts ms" using t(2) by (auto simp: list_all2_conv_all_nth)
  then show ?case unfolding t(1) by (rule derive_object [OF g e])
next
  case (DArray m es)
  obtain ts where t: "t = 0x5B # comma_sep ts @ [0x5D]" "list_all2 (\<lambda>t e. node_text fl e = Some t) ts es"
    using DArray.prems(2) by (auto simp: those_all2)
  have "derives buf len t e \<and> (\<exists>c t'. t = c # t' \<and> \<not> IsSpace c)" if "e \<in> set es" "node_text fl e = Some t" for t e
    using DArray.IH [OF that(1) _ that(2)] DArray.prems(1) that text_first by fastforce
  then have "list_all2 (\<lambda>t e. derives buf len t e \<and> (\<exists>c t'. t = c # t' \<and> \<not> IsSpace c)) ts es"
    by (intro list_all2_mono' [OF t(2)]) blast
  then show ?case unfolding t(1) by (rule derive_array)
qed simp_all

lemma plain_text: "plain_tree d \<Longrightarrow> \<exists>t. node_text fl d = Some t"
proof (induction d)
  case (DObject m ms)
  have "\<forall>p \<in> set ms. \<exists>t. map_option (\<lambda>t. json_quoted fl (member_name p) @ 0x3A # t) (node_text fl (snd p)) = Some t"
    using DObject.IH(2) DObject.prems by (fastforce simp: snds.simps)
  then have "\<exists>ts. those (map (\<lambda>p. map_option (\<lambda>t. json_quoted fl (member_name p) @ 0x3A # t) (node_text fl (snd p))) ms) = Some ts"
    by (induction ms) auto
  then show ?case by auto
next
  case (DArray m es)
  then have "\<forall>e \<in> set es. \<exists>t. node_text fl e = Some t" by auto
  then have "\<exists>ts. those (map (node_text fl) es) = Some ts" by (induction es) auto
  then show ?case by auto
qed simp_all

lemma tree_text_parses:
  assumes e: "\<not> EscapeEmoji fl" and d: "plain_tree d" and t: "node_text fl d = Some t" and pad: "length pad = 61"
  shows "\<exists>v. json_text 0 (allocateStringBuffer t pad) (length t) v \<and> json_node v = parsed_form d"
proof -
  let ?b = "allocateStringBuffer t pad"
  have dr: "drop 0 ?b = t @ 0x78 # (0x22 # 0x78 # pad)" by (simp add: allocateStringBuffer_def)
  have g: "num_guard ?b (length t)" using padded_guard padded_buffer [OF pad] by blast
  from tree_derives [OF g e d t] obtain v where v: "value_at 0 ?b (length t) 0 v (length t)" "json_node v = parsed_form d"
    using derivesD [OF _ dr _ punctuation(4)] by auto
  obtain c t' where "t = c # t'" "\<not> IsSpace c" using text_first [OF d t] by blast
  then have "ref_space ?b 0 = 0" using ref_space_stay [of 0 ?b c] dr by simp
  then have "json_text 0 ?b (length t) v" using v(1) unfolding json_text_def by (intro exI [of _ "length t"]) (simp add: run_end_ge)
  then show ?thesis using v(2) by blast
qed

lemma json_text_unique: "json_text fl buf len v \<Longrightarrow> json_text fl buf len v' \<Longrightarrow> v' = v"
  unfolding json_text_def using value_unique(1) by blast



end
