(* ===== verification/Sonic_JsonPath.thy ===== *)
theory Sonic_JsonPath
  imports Sonic_Unicode Sonic_DynamicNode
begin

text \<open>
  JSON paths: the parser of \<open>jsonpath/jsonpath.h\<close> and the selection of nodes (\<open>atJsonPathImplCommon\<close> of
  \<open>dom/dynamicnode.h\<close>, \<open>AtJsonPath\<close> of \<open>dom/genericnode.h\<close>).

  The parser works on a writable copy of the path with eight bytes of padding and unescapes quoted names in place;
  the names of a parsed path are views into that copy, given by offset and length. An access outside the copy is
  \<^term>\<open>None\<close>; an access to the path itself is guarded by its length, which the padding lies behind.
\<close>

subsection \<open>The nodes of a path\<close>

definition NONE :: u8 where "NONE = 0"
definition WILDCARD :: u8 where "WILDCARD = 0x2A"
definition ROOT :: u8 where "ROOT = 0x24"
definition IS_KEY :: u8 where "IS_KEY = 1"
definition IS_INDEX :: u8 where "IS_INDEX = 2"
definition KEY_OR_INDEX :: u8 where "KEY_OR_INDEX = 3"

record JsonPathNode =
  jp_index :: u64
  jp_key :: "nat \<times> nat"
  jp_token :: u8

definition JsonPathNode_none :: JsonPathNode where
  "JsonPathNode_none = \<lparr>jp_index = 0, jp_key = (0, 0), jp_token = NONE\<rparr>"
definition JsonPathNode_index :: "u64 \<Rightarrow> JsonPathNode" where
  "JsonPathNode_index i = JsonPathNode_none\<lparr>jp_index := i, jp_token := IS_INDEX\<rparr>"
definition JsonPathNode_key :: "nat \<times> nat \<Rightarrow> JsonPathNode" where
  "JsonPathNode_key k = JsonPathNode_none\<lparr>jp_key := k, jp_token := IS_KEY\<rparr>"
definition JsonPathNode_token :: "u8 \<Rightarrow> JsonPathNode" where
  "JsonPathNode_token t = JsonPathNode_none\<lparr>jp_token := t\<rparr>"

definition is_wildcard :: "JsonPathNode \<Rightarrow> bool" where "is_wildcard n \<longleftrightarrow> jp_token n = WILDCARD"
definition is_key :: "JsonPathNode \<Rightarrow> bool" where "is_key n \<longleftrightarrow> jp_token n = IS_KEY \<or> jp_token n = KEY_OR_INDEX"
definition is_index :: "JsonPathNode \<Rightarrow> bool" where "is_index n \<longleftrightarrow> jp_token n = IS_INDEX \<or> jp_token n = KEY_OR_INDEX"
definition is_root :: "JsonPathNode \<Rightarrow> bool" where "is_root n \<longleftrightarrow> jp_token n = ROOT"

text \<open>The name of a node: the bytes its view shows.\<close>

definition jp_name :: "bytes \<Rightarrow> JsonPathNode \<Rightarrow> bytes" where
  "jp_name buf n = take (snd (jp_key n)) (drop (fst (jp_key n)) buf)"

definition paddingJsonPath :: "bytes \<Rightarrow> bytes" where
  "paddingJsonPath path = path @ replicate 8 0"

subsection \<open>The parser\<close>

text \<open>
  Each piece gets the copy \<open>buf\<close>, the length \<open>n\<close> of the path in it and the index. \<open>parseNumber\<close> gives
  the success, the index and the sum.
\<close>

definition kInt64Max :: u64 where "kInt64Max = 0x7FFFFFFFFFFFFFFF"

definition path_at :: "bytes \<Rightarrow> nat \<Rightarrow> nat \<Rightarrow> u8 option" where
  "path_at buf n i = (if i < n then rd buf i else None)"

function number_loop :: "bytes \<Rightarrow> nat \<Rightarrow> nat \<Rightarrow> u64 \<Rightarrow> (bool \<times> nat \<times> u64) option" where
  "number_loop buf n index acc = (if index < n then do {
       c \<leftarrow> path_at buf n index;
       (if 0x30 \<le> c \<and> c \<le> 0x39 then
          let digit = (ucast (c - 0x30) :: u64) in
          if acc > (kInt64Max - digit) div 10 then Some (False, index, acc)
          else number_loop buf n (index + 1) (acc * 10 + digit)
        else Some (True, index, acc))
     } else Some (True, index, acc))"
  by auto
termination by (relation "measure (\<lambda>(buf, n, index, acc). n - index)") auto

declare number_loop.simps [simp del]

definition path_parseNumber :: "bytes \<Rightarrow> nat \<Rightarrow> nat \<Rightarrow> u64 \<Rightarrow> (bool \<times> nat \<times> u64) option" where
  "path_parseNumber buf n index acc =
     (let start = index in
      if index < n \<and> path_at buf n index = Some 0x30 then Some (True, index + 1, acc)
      else do {
        (ok, index, acc) \<leftarrow> number_loop buf n index acc;
        Some (if ok then index \<noteq> start else False, index, acc)
      })"

function key_loop :: "bytes \<Rightarrow> nat \<Rightarrow> nat \<Rightarrow> nat option" where
  "key_loop buf n index = (if index < n then do {
       c \<leftarrow> path_at buf n index;
       (if c \<noteq> 0x2E \<and> c \<noteq> 0x5B then key_loop buf n (index + 1) else Some index)
     } else Some index)"
  by auto
termination by (relation "measure (\<lambda>(buf, n, index). n - index)") auto

declare key_loop.simps [simp del]

text \<open>The pieces for one node give its success, the index, the node (the old one after a failure) and the copy.\<close>

type_synonym path_piece = "bool \<times> nat \<times> JsonPathNode \<times> bytes"

definition parseUnquotedKey :: "bytes \<Rightarrow> nat \<Rightarrow> nat \<Rightarrow> JsonPathNode \<Rightarrow> path_piece option" where
  "parseUnquotedKey buf n index node = (let start = index in do {
     index \<leftarrow> key_loop buf n index;
     let len = index - start;
     Some (if len = 0 then (False, index, node, buf) else (True, index, JsonPathNode_key (index - len, len), buf))
   })"

definition parseBracketedIndex :: "bytes \<Rightarrow> nat \<Rightarrow> nat \<Rightarrow> JsonPathNode \<Rightarrow> path_piece option" where
  "parseBracketedIndex buf n index node =
     (let neg = (index < n \<and> path_at buf n index = Some 0x2D);
          index = (if neg then index + 1 else index); sign = (if neg then - 1 else 1 :: u64) in do {
        (ok, index, acc) \<leftarrow> path_parseNumber buf n index 0;
        (if \<not> ok then Some (False, index, node, buf)
         else if index \<ge> n \<or> path_at buf n index \<noteq> Some 0x5D then Some (False, index, node, buf)
         else Some (True, index + 1, JsonPathNode_index (acc * sign), buf))
      })"

text \<open>The loop of \<open>parseQuotedName\<close>: \<open>Some None\<close> is its \<open>return false\<close>, otherwise \<open>src\<close>, \<open>dst\<close> and the copy.\<close>

partial_function (option) quoted_loop :: "u8 \<Rightarrow> nat \<Rightarrow> nat \<Rightarrow> nat \<Rightarrow> bytes \<Rightarrow> (bytes \<times> (nat \<times> nat) option) option" where
  "quoted_loop quote n src dst buf =
     (if src < n then do {
        c \<leftarrow> rd buf src;
        (if c = quote then Some (buf, Some (src, dst))
         else if c = 0x5C then do {
           d \<leftarrow> rd buf (src + 1);
           (if d = 0x27 then do {
              buf \<leftarrow> wr buf dst [0x27];
              quoted_loop quote n (src + 2) (dst + 1) buf
            }
            else do {
              r \<leftarrow> unescape_with_padding buf src;
              (case r of
                 None \<Rightarrow> Some (buf, None)
               | Some (src, out) \<Rightarrow> do {
                   buf \<leftarrow> wr buf dst out;
                   quoted_loop quote n src (dst + length out) buf
                 })
            })
         }
         else do {
           buf \<leftarrow> wr buf dst [c];
           quoted_loop quote n (src + 1) (dst + 1) buf
         })
      } else Some (buf, Some (src, dst)))"

declare quoted_loop.simps [code]

definition parseQuotedName :: "bytes \<Rightarrow> nat \<Rightarrow> nat \<Rightarrow> JsonPathNode \<Rightarrow> path_piece option" where
  "parseQuotedName buf n index node =
     (if index \<ge> n then Some (False, index, node, buf)
      else do {
        quote \<leftarrow> path_at buf n index;
        (if quote \<noteq> 0x27 \<and> quote \<noteq> 0x22 then Some (False, index, node, buf)
         else let index = index + 1; start = index in
           if start \<ge> n then Some (False, index, node, buf)
           else do {
             (buf, r) \<leftarrow> quoted_loop quote n start start buf;
             (case r of
                None \<Rightarrow> Some (False, index, node, buf)
              | Some (src, dst) \<Rightarrow>
                  (if src \<ge> n then Some (False, index, node, buf)
                   else let len = dst - start; quote_pos = src; node = JsonPathNode_key (start, len) in
                     if quote_pos + 1 \<ge> n then Some (False, index, node, buf)
                     else do {
                       c \<leftarrow> rd buf (quote_pos + 1);
                       Some (if c \<noteq> 0x5D then (False, index, node, buf) else (True, quote_pos + 2, node, buf))
                     }))
           })
      })"

text \<open>The state of the main loop: the index, the node under construction, the nodes so far and the copy.\<close>

record path_state =
  ps_i :: nat
  ps_node :: JsonPathNode
  ps_nodes :: "JsonPathNode list"
  ps_buf :: bytes

type_synonym path_result = "bool \<times> JsonPathNode list \<times> bytes"

definition path_fail :: "path_state \<Rightarrow> path_result + path_state" where
  "path_fail st = Inl (False, ps_nodes st, ps_buf st)"

definition path_wildcard :: "nat \<Rightarrow> path_state \<Rightarrow> path_result + path_state" where
  "path_wildcard i st = Inr (st\<lparr>ps_i := i, ps_nodes := ps_nodes st @ [JsonPathNode_token WILDCARD]\<rparr>)"

text \<open>The end of a round: an invalid piece clears the path, a valid one adds its node.\<close>

definition path_piece_done :: "path_state \<Rightarrow> path_piece \<Rightarrow> path_result + path_state" where
  "path_piece_done st r = (case r of (valid, i, node, buf) \<Rightarrow>
     if \<not> valid then Inl (False, [], buf)
     else Inr \<lparr>ps_i = i, ps_node = node, ps_nodes = ps_nodes st @ [node], ps_buf = buf\<rparr>)"

definition path_round :: "nat \<Rightarrow> path_state \<Rightarrow> (path_result + path_state) option" where
  "path_round n st = (let i = ps_i st; buf = ps_buf st; node = ps_node st in do {
     c \<leftarrow> path_at buf n i;
     (if i + 2 < n \<and> c = 0x2E \<and> path_at buf n (i + 1) = Some 0x2E then Some (path_fail st)
      else if c = 0x2E then
        (if i + 1 \<ge> n then Some (path_fail st)
         else do {
           d \<leftarrow> path_at buf n (i + 1);
           (if d = WILDCARD then Some (path_wildcard (i + 2) st)
            else map_option (path_piece_done st) (parseUnquotedKey buf n (i + 1) node))
         })
      else if c = 0x5B then
        (if i + 1 \<ge> n then Some (path_fail st)
         else do {
           d \<leftarrow> path_at buf n (i + 1);
           (if d = WILDCARD then
              Some (if i + 2 < n \<and> path_at buf n (i + 2) = Some 0x5D then path_wildcard (i + 3) st else path_fail st)
            else if d = 0x27 \<or> d = 0x22 then map_option (path_piece_done st) (parseQuotedName buf n (i + 1) node)
            else if (0x30 \<le> d \<and> d \<le> 0x39) \<or> d = 0x2D
            then map_option (path_piece_done st) (parseBracketedIndex buf n (i + 1) node)
            else Some (path_piece_done st (False, i + 1, node, buf)))
         })
      else Some (path_fail st))
   })"

partial_function (option) path_loop :: "nat \<Rightarrow> path_state \<Rightarrow> path_result option" where
  "path_loop n st =
     (if ps_i st < n then do {
        r \<leftarrow> path_round n st;
        (case r of Inl res \<Rightarrow> Some res | Inr st \<Rightarrow> path_loop n st)
      } else Some (True, ps_nodes st, ps_buf st))"

declare path_loop.simps [code]

definition ParsePaddedInternal :: "bytes \<Rightarrow> nat \<Rightarrow> path_result option" where
  "ParsePaddedInternal padded logical_len =
     (if logical_len = 0 \<or> path_at padded logical_len 0 \<noteq> Some ROOT then Some (False, [], padded)
      else path_loop logical_len
        \<lparr>ps_i = 1, ps_node = JsonPathNode_none, ps_nodes = [JsonPathNode_token ROOT], ps_buf = padded\<rparr>)"

text \<open>\<open>Parse\<close>; \<open>ParsePadded\<close> is the same on a copy its caller made.\<close>

definition JsonPath_Parse :: "bytes \<Rightarrow> path_result option" where
  "JsonPath_Parse path = ParsePaddedInternal (paddingJsonPath path) (length path)"

subsection \<open>Selection\<close>

text \<open>
  \<open>atJsonPathImplCommon\<close> from an index of the path on: the rest of the path, the nodes found before, and the answer with
  the nodes found after. A node pointer is the node itself. The values of an object lie at every second child.
\<close>

definition child_values :: "dnode \<Rightarrow> dnode list" where
  "child_values self = (case self of DObject m ms \<Rightarrow> map snd ms | DArray m es \<Rightarrow> es | _ \<Rightarrow> [])"

fun atJsonPathImplCommon :: "bytes \<Rightarrow> JsonPathNode list \<Rightarrow> dnode \<Rightarrow> dnode list \<Rightarrow> bool \<times> dnode list" where
  "atJsonPathImplCommon buf [] self res = (True, res @ [self])"
| "atJsonPathImplCommon buf (p # path) self res =
     (if is_wildcard p then
        (if \<not> dn_IsObject self \<and> \<not> dn_IsArray self then (True, res)
         else (True, fold (\<lambda>cur res. snd (atJsonPathImplCommon buf path cur res)) (child_values self) res))
      else if is_key p then
        (case self of
           DObject m ms \<Rightarrow> (let i = findMemberImpl m ms (jp_name buf p) in
             if i \<noteq> length ms then atJsonPathImplCommon buf path (snd (ms ! i)) res else (False, res))
         | _ \<Rightarrow> (False, res))
      else if is_index p then
        (case self of
           DArray m es \<Rightarrow> (let sz = (word_of_nat (dn_Size self) :: u64); idx = jp_index p;
                idx = (if sint idx < 0 then sz + idx else idx) in
             if sint idx \<ge> sint sz \<or> sint idx < 0 then (False, res)
             else atJsonPathImplCommon buf path (es ! nat (sint idx)) res)
         | _ \<Rightarrow> (False, res))
      else (False, res))"

record JsonPathResult =
  jr_nodes :: "dnode list"
  jr_error :: SonicError

definition AtJsonPath :: "dnode \<Rightarrow> bytes \<Rightarrow> JsonPathResult option" where
  "AtJsonPath self jsonpath = do {
     (ok, path, buf) \<leftarrow> ParsePaddedInternal (paddingJsonPath jsonpath) (length jsonpath);
     (if \<not> ok then Some \<lparr>jr_nodes = [], jr_error = kUnsupportedJsonPath\<rparr>
      else case path of
        [] \<Rightarrow> None
      | p # rest \<Rightarrow>
          (if is_root p \<and> rest = [] then Some \<lparr>jr_nodes = [self], jr_error = kErrorNone\<rparr>
           else case atJsonPathImplCommon buf rest self [] of
             (True, nodes) \<Rightarrow> Some \<lparr>jr_nodes = nodes, jr_error = kErrorNone\<rparr>
           | (False, nodes) \<Rightarrow> Some \<lparr>jr_nodes = [], jr_error = kNotFoundByJsonPath\<rparr>))
   }"

end
