(* ===== verification/Sonic_PathParse.thy ===== *)
theory Sonic_PathParse
  imports Sonic_JsonPath Sonic_TextGrammar
begin

text \<open>
  The path parser of \<^theory_text>\<open>Sonic_JsonPath\<close> against a grammar: a reference that reads the path from the rest of its text, the
  pieces of the parser one by one, the views into the copy under the writes that follow them, and paths printed and parsed back.
\<close>

subsection \<open>The grammar of paths\<close>

text \<open>
  The reference reads the path from the rest of its text, without a copy: a step of each kind and the rest behind it.
\<close>

datatype path_step = PWild | PName bytes | PAt int

function ref_quoted :: "u8 \<Rightarrow> bytes \<Rightarrow> (bytes \<times> bytes) option" where
  "ref_quoted q [] = None"
| "ref_quoted q (c # r) =
     (if c = q then Some ([], r)
      else if c = 0x5C then
        (if take 1 r = [0x27] then map_option (\<lambda>(s, r). (0x27 # s, r)) (ref_quoted q (drop 1 r))
         else case unescape_with_padding (paddingJsonPath (c # r)) 0 of
             Some (Some (k, out)) \<Rightarrow> map_option (\<lambda>(s, r). (out @ s, r)) (ref_quoted q (drop k (c # r)))
           | _ \<Rightarrow> None)
      else map_option (\<lambda>(s, r). (c # s, r)) (ref_quoted q r))"
  by pat_completeness auto
termination
  by (relation "measure (\<lambda>(q, r). length r)") (auto dest!: unescape_advance)

declare ref_quoted.simps [simp del]

lemma ref_quoted_shorter: "ref_quoted q r = Some (s, r') \<Longrightarrow> length r' < length r"
proof (induction q r arbitrary: s r' rule: ref_quoted.induct)
  case (2 q c r)
  show ?case
    using "2.prems" "2.IH"(1,3) "2.IH"(2) unescape_advance [of "paddingJsonPath (c # r)" 0]
    by (simp add: ref_quoted.simps(2) split: if_splits option.splits) fastforce+
qed (simp add: ref_quoted.simps)

definition path_number :: "bytes \<Rightarrow> (nat \<times> bytes) option" where
  "path_number r = (if take 1 r = [0x30] then Some (0, drop 1 r)
     else let n = digits_nat (map digit_of (takeWhile is_digit r)) in
       if takeWhile is_digit r = [] \<or> 2 ^ 63 \<le> n then None else Some (n, dropWhile is_digit r))"

definition closing :: "(path_step \<times> bytes) option \<Rightarrow> (path_step \<times> bytes) option" where
  "closing s = (case s of Some (s, c # r) \<Rightarrow> (if c = 0x5D then Some (s, r) else None) | _ \<Rightarrow> None)"

definition ref_bracket :: "bytes \<Rightarrow> (path_step \<times> bytes) option" where
  "ref_bracket r = (case r of [] \<Rightarrow> None
    | d # r' \<Rightarrow> closing
       (if d = 0x2A then Some (PWild, r')
        else if d = 0x27 \<or> d = 0x22 then map_option (\<lambda>(s, r). (PName s, r)) (ref_quoted d r')
        else if d = 0x2D then map_option (\<lambda>(n, r). (PAt (- int n), r)) (path_number r')
        else if is_digit d then map_option (\<lambda>(n, r). (PAt (int n), r)) (path_number r)
        else None))"

definition name_byte :: "u8 \<Rightarrow> bool" where "name_byte c \<longleftrightarrow> c \<noteq> 0x2E \<and> c \<noteq> 0x5B"

definition ref_dot :: "bytes \<Rightarrow> (path_step \<times> bytes) option" where
  "ref_dot r = (case r of [] \<Rightarrow> None
    | d # r' \<Rightarrow> if d = 0x2A then Some (PWild, r')
      else if takeWhile name_byte r = [] then None else Some (PName (takeWhile name_byte r), dropWhile name_byte r))"

definition ref_step :: "bytes \<Rightarrow> (path_step \<times> bytes) option" where
  "ref_step r = (case r of [] \<Rightarrow> None
    | c # r' \<Rightarrow> if c = 0x2E then ref_dot r' else if c = 0x5B then ref_bracket r' else None)"

lemma path_number_le: "path_number r = Some (n, r') \<Longrightarrow> length r' \<le> length r"
  by (auto simp: path_number_def Let_def length_dropWhile_le split: if_splits)

lemma closing_some: "closing s = Some (t, r) \<longleftrightarrow> s = Some (t, 0x5D # r)"
  by (auto simp: closing_def split: option.splits list.splits if_splits)

lemma ref_step_shorter: "ref_step r = Some (s, r') \<Longrightarrow> length r' < length r"
proof -
  assume a: "ref_step r = Some (s, r')"
  have d: "length r' \<le> length q" if "ref_dot q = Some (s, r')" for q
    using that length_dropWhile_le [of name_byte q] by (auto simp: ref_dot_def split: list.splits if_splits)
  have b: "length r' \<le> length q" if "ref_bracket q = Some (s, r')" for q
    using that by (auto simp: ref_bracket_def closing_some dest!: ref_quoted_shorter path_number_le split: list.splits if_splits)
  show ?thesis using a d b by (auto simp: ref_step_def le_imp_less_Suc split: list.splits if_splits)
qed

function ref_steps :: "bytes \<Rightarrow> path_step list option" where
  "ref_steps r = (if r = [] then Some []
     else case ref_step r of None \<Rightarrow> None | Some (s, r') \<Rightarrow> map_option (Cons s) (ref_steps r'))"
  by auto
termination by (relation "measure length") (auto dest: ref_step_shorter)

declare ref_steps.simps [simp del]

definition ref_path :: "bytes \<Rightarrow> path_step list option" where
  "ref_path path = (if take 1 path = [ROOT] then ref_steps (drop 1 path) else None)"

subsection \<open>The pieces of the parser\<close>

text \<open>The copy of a path of \<open>n\<close> bytes: its padding stays as it is. The rest of the path from a position on.\<close>

definition path_copy :: "nat \<Rightarrow> bytes \<Rightarrow> bool" where
  "path_copy n buf \<longleftrightarrow> drop n buf = replicate 8 0"

definition path_rest :: "nat \<Rightarrow> bytes \<Rightarrow> nat \<Rightarrow> bytes" where
  "path_rest n buf i = drop i (take n buf)"

lemma path_copy_length: "path_copy n buf \<Longrightarrow> length buf = n + 8"
proof -
  assume "path_copy n buf"
  then have "length (drop n buf) = 8" by (simp add: path_copy_def)
  then show ?thesis by simp
qed

lemma padded_copy: "path_copy (length path) (paddingJsonPath path)" "path_rest (length path) (paddingJsonPath path) i = drop i path"
  by (simp_all add: path_copy_def path_rest_def paddingJsonPath_def)

lemma path_rest_step: "path_copy n buf \<Longrightarrow> i < n \<Longrightarrow> path_rest n buf i = buf ! i # path_rest n buf (i + 1)"
  using path_copy_length [of n buf] by (simp add: path_rest_def Cons_nth_drop_Suc [symmetric])

lemma path_rest_end: "n \<le> i \<Longrightarrow> path_rest n buf i = []"
  by (simp add: path_rest_def)

lemma length_path_rest: "path_copy n buf \<Longrightarrow> length (path_rest n buf i) = n - i"
  using path_copy_length [of n buf] by (simp add: path_rest_def)

lemma path_rest_drop: "drop k (path_rest n buf i) = path_rest n buf (i + k)"
  by (simp add: path_rest_def add.commute)

lemma path_at_some: "path_copy n buf \<Longrightarrow> i < n \<Longrightarrow> path_at buf n i = Some (buf ! i)"
  using path_copy_length [of n buf] by (simp add: path_at_def rd_def)

lemma path_rest_pad: "path_copy n buf \<Longrightarrow> i \<le> n \<Longrightarrow> paddingJsonPath (path_rest n buf i) = drop i buf"
proof -
  assume a: "path_copy n buf" "i \<le> n"
  have "drop i (take n buf @ drop n buf) = drop i (take n buf) @ replicate 8 0"
    using a path_copy_length [OF a(1)] by (simp add: path_copy_def del: append_take_drop_id)
  then show ?thesis by (simp add: path_rest_def paddingJsonPath_def)
qed

text \<open>Unescaping only looks at the text from its position on, and stays in the copy.\<close>

lemma rd_at_drop: "rd (drop k b) i = rd b (k + i)"
  by (simp add: rd_def less_diff_conv add.commute)

lemma hex_drop: "hex_to_u32_nocheck (drop k b) i = hex_to_u32_nocheck b (k + i)"
  by (simp add: hex_to_u32_nocheck_def rd_at_drop add.assoc)

definition shift_result :: "nat \<Rightarrow> (nat \<times> bytes) option option \<Rightarrow> (nat \<times> bytes) option option" where
  "shift_result k = map_option (map_option (\<lambda>(p, out). (k + p, out)))"

lemma unescape_shift: "unescape_with_padding b k = shift_result k (unescape_with_padding (drop k b) 0)"
proof -
  have h: "handle_unicode_codepoint b k = shift_result k (handle_unicode_codepoint (drop k b) 0)"
    by (cases "hex_to_u32_nocheck b (Suc (Suc k))"; cases "rd b (k + 6)"; cases "rd b (k + 7)"; cases "hex_to_u32_nocheck b (k + 8)";
        simp add: handle_unicode_codepoint_def hex_drop rd_at_drop shift_result_def Let_def add.commute)
  show ?thesis
    by (cases "rd b (Suc k)"; cases "rd kEscapedMap (unat (the (rd b (Suc k))))";
        simp add: unescape_with_padding_def h rd_at_drop shift_result_def)
qed

lemma unescape_copy_defined:
  assumes "path_copy n buf" and "k < n"
  shows "\<exists>r. unescape_with_padding buf k = Some r"
proof -
  have l: "length buf = n + 8" by (rule path_copy_length [OF assms(1)])
  have pad: "j < n" if "rd buf j = Some c" "c \<noteq> 0" for j c
  proof (rule ccontr)
    assume "\<not> j < n"
    then have "rd buf j = rd (drop n buf) (j - n)" by (simp add: rd_at_drop)
    then show False using that assms(1) l \<open>\<not> j < n\<close> by (auto simp: path_copy_def rd_def split: if_splits)
  qed
  have hex: "\<exists>v. hex_to_u32_nocheck buf j = Some v" if "j + 4 \<le> n + 8" for j
    using hex_to_u32_nocheck_val [of j buf] that l by auto
  have h: "\<exists>r. handle_unicode_codepoint buf k = Some r"
  proof -
    obtain cp where cp: "hex_to_u32_nocheck buf (k + 2) = Some cp" using hex [of "k + 2"] assms(2) by auto
    obtain a where a: "rd buf (k + 6) = Some a" using l assms(2) by (simp add: rd_def)
    obtain b where b: "rd buf (7 + k) = Some b" using l assms(2) by (simp add: rd_def)
    obtain cp2 where "b = 0x75 \<longrightarrow> hex_to_u32_nocheck buf (8 + k) = Some cp2"
      using hex [of "8 + k"] pad [OF b] by (cases "b = 0x75") auto
    then show ?thesis using cp a b by (cases "b = 0x75") (simp_all add: handle_unicode_codepoint_def Let_def)
  qed
  obtain c where c: "rd buf (k + 1) = Some c" using l assms(2) by (simp add: rd_def)
  have "unat c < length kEscapedMap" using unat_u8_lt [of c] by (simp add: length_kEscapedMap)
  then show ?thesis using h c by (simp add: unescape_with_padding_def rd_def)
qed

lemma key_loop_eq:
  "path_copy n buf \<Longrightarrow> i \<le> n \<Longrightarrow> key_loop buf n i = Some (i + length (takeWhile name_byte (path_rest n buf i)))"
proof (induction "n - i" arbitrary: i)
  case 0
  then show ?case by (subst key_loop.simps) (simp add: path_rest_end)
next
  case (Suc k)
  then have i: "i < n" "path_copy n buf" by simp_all
  have "key_loop buf n (i + 1) = Some (i + 1 + length (takeWhile name_byte (path_rest n buf (i + 1))))"
    using Suc.hyps i by (intro Suc.hyps(1)) simp_all
  then show ?case
    using i by (subst key_loop.simps) (simp add: path_at_some [OF i(2,1)] path_rest_step [OF i(2,1)] name_byte_def)
qed

lemma foldl_digits_ge: "a \<le> foldl (\<lambda>a d. a * 10 + d) a (ds :: nat list)"
proof (induction ds arbitrary: a)
  case (Cons d ds)
  show ?case using Cons [of "a * 10 + d"] by simp
qed simp

lemma path_digit_word:
  assumes "is_digit c"
  shows "unat (ucast (c - 0x30) :: u64) = digit_of c" "digit_of c \<le> 9"
proof -
  have c: "48 \<le> unat c" "unat c \<le> 57" using assms by (simp_all add: is_digit_def word_le_nat_alt)
  then show "digit_of c \<le> 9" by (simp add: digit_of_def)
  have "unat (c - 0x30) = unat c - 48" using c by (subst unat_minus_le) (simp_all add: word_le_nat_alt)
  then show "unat (ucast (c - 0x30) :: u64) = digit_of c" by (simp add: digit_of_def)
qed

lemma number_room:
  assumes "unat (d :: u64) \<le> 9" and "unat acc < 2 ^ 63"
  shows "(kInt64Max - d) div 10 < acc \<longleftrightarrow> 2 ^ 63 \<le> unat acc * 10 + unat d"
    and "unat acc * 10 + unat d < 2 ^ 63 \<Longrightarrow> unat (acc * 10 + d) = unat acc * 10 + unat d"
proof -
  have m: "unat kInt64Max = 2 ^ 63 - 1" by (simp add: kInt64Max_def)
  have "unat (kInt64Max - d) = 2 ^ 63 - 1 - unat d"
    using assms(1) m by (subst unat_minus_le) (simp_all add: word_le_nat_alt)
  then have "unat ((kInt64Max - d) div 10) = (2 ^ 63 - 1 - unat d) div 10" by (simp add: unat_div)
  then show "(kInt64Max - d) div 10 < acc \<longleftrightarrow> 2 ^ 63 \<le> unat acc * 10 + unat d"
    using assms by (simp add: word_less_nat_alt) linarith
  assume "unat acc * 10 + unat d < 2 ^ 63"
  then show "unat (acc * 10 + d) = unat acc * 10 + unat d"
    by (simp add: unat_word_ariths)
qed

lemma number_loop_eq:
  fixes acc :: u64
  assumes "path_copy n buf"
  shows "i \<le> n \<Longrightarrow> unat acc < 2 ^ 63 \<Longrightarrow>
    (let ds = takeWhile is_digit (path_rest n buf i); v = foldl (\<lambda>a d. a * 10 + d) (unat acc) (map digit_of ds) in
     if v < 2 ^ 63 then number_loop buf n i acc = Some (True, i + length ds, word_of_nat v)
     else \<exists>j a. number_loop buf n i acc = Some (False, j, a))"
proof (induction "n - i" arbitrary: i acc)
  case 0
  then show ?case by (subst number_loop.simps) (simp add: path_rest_end)
next
  case (Suc k)
  let ?c = "buf ! i"
  have i: "i < n" using Suc.hyps by simp
  note step = path_rest_step [OF assms i] path_at_some [OF assms i]
  show ?case
  proof (cases "is_digit ?c")
    case False
    then show ?thesis using i Suc.prems by (auto simp: number_loop.simps [of buf n i] step is_digit_def Let_def)
  next
    case d: True
    note dw = path_digit_word [OF d]
    let ?d = "ucast (?c - 0x30) :: u64"
    have c: "0x30 \<le> ?c \<and> ?c \<le> 0x39" using d by (simp add: is_digit_def)
    have r: "unat ?d \<le> 9" using dw by simp
    note room = number_room [OF r Suc.prems(2)]
    show ?thesis
    proof (cases "unat acc * 10 + digit_of ?c < 2 ^ 63")
      case True
      then have u: "unat (acc * 10 + ?d) = unat acc * 10 + digit_of ?c" using room(2) dw by simp
      have l: "number_loop buf n i acc = number_loop buf n (i + 1) (acc * 10 + ?d)"
        using i c room(1) dw True by (subst number_loop.simps) (simp add: step Let_def)
      have "k = n - (i + 1)" "i + 1 \<le> n" "unat (acc * 10 + ?d) < 2 ^ 63" using Suc.hyps(2) i True u by simp_all
      from Suc.hyps(1) [OF this] show ?thesis unfolding l u step(1) using d by (simp add: Let_def split: if_splits)
    next
      case False
      then have "\<not> foldl (\<lambda>a d. a * 10 + d) (unat acc * 10 + digit_of ?c) ds < 2 ^ 63" for ds
        using foldl_digits_ge [of "unat acc * 10 + digit_of ?c" ds] by simp
      then show ?thesis using False i c d room(1) dw by (simp add: number_loop.simps [of buf n i acc] step Let_def)
    qed
  qed
qed

lemma take1_rest: "path_copy n buf \<Longrightarrow> take 1 (path_rest n buf i) = [c] \<longleftrightarrow> i < n \<and> path_at buf n i = Some c"
  by (cases "i < n") (simp_all add: path_rest_step path_at_some path_rest_end)

lemma dropWhile_rest: "dropWhile P (path_rest n buf i) = path_rest n buf (i + length (takeWhile P (path_rest n buf i)))"
  by (simp add: dropWhile_eq_drop path_rest_drop)

text \<open>What a piece answers, seen from the reference: the rest behind it, and its node.\<close>

lemma path_parseNumber_eq:
  assumes "path_copy n buf" and "i \<le> n"
  shows "case path_number (path_rest n buf i) of
      Some (v, r) \<Rightarrow> v < 2 ^ 63 \<and> (\<exists>j. path_parseNumber buf n i 0 = Some (True, j, word_of_nat v) \<and> i < j \<and> j \<le> n \<and> r = path_rest n buf j)
    | None \<Rightarrow> \<exists>j a. path_parseNumber buf n i 0 = Some (False, j, a)"
proof (cases "take 1 (path_rest n buf i) = [0x30]")
  case True
  then have "i < n \<and> path_at buf n i = Some 0x30" using take1_rest [OF assms(1)] by blast
  then show ?thesis using True by (simp add: path_number_def path_parseNumber_def path_rest_drop Suc_le_eq)
next
  case False
  let ?ds = "takeWhile is_digit (path_rest n buf i)"
  let ?v = "digits_nat (map digit_of ?ds)"
  have z: "\<not> (i < n \<and> path_at buf n i = Some 0x30)" using False take1_rest [OF assms(1)] by simp
  have le: "i + length ?ds \<le> n"
    using length_takeWhile_le [of is_digit "path_rest n buf i"] assms by (simp add: length_path_rest)
  have nl: "if ?v < 2 ^ 63 then number_loop buf n i 0 = Some (True, i + length ?ds, word_of_nat ?v)
     else \<exists>j a. number_loop buf n i 0 = Some (False, j, a)"
    using number_loop_eq [OF assms(1,2), of 0] by (simp add: Let_def digits_nat_def)
  show ?thesis
  proof (cases "?v < 2 ^ 63")
    case True
    then have "number_loop buf n i 0 = Some (True, i + length ?ds, word_of_nat ?v)" using nl by simp
    then have "path_parseNumber buf n i 0 = Some (?ds \<noteq> [], i + length ?ds, word_of_nat ?v)"
      using z by (auto simp: path_parseNumber_def)
    then show ?thesis using True False le by (simp add: path_number_def Let_def dropWhile_rest)
  next
    case big: False
    then obtain j a where "number_loop buf n i 0 = Some (False, j, a)" using nl by auto
    then have "path_parseNumber buf n i 0 = Some (False, j, a)" using z by (simp add: path_parseNumber_def)
    then show ?thesis using big False by (simp add: path_number_def Let_def)
  qed
qed

definition step_of :: "bytes \<Rightarrow> JsonPathNode \<Rightarrow> path_step" where
  "step_of buf p = (if is_wildcard p then PWild else if is_key p then PName (jp_name buf p) else PAt (sint (jp_index p)))"

definition node_in :: "nat \<Rightarrow> JsonPathNode \<Rightarrow> bool" where
  "node_in i p \<longleftrightarrow> (is_wildcard p \<or> is_key p \<or> is_index p) \<and> (is_key p \<longrightarrow> fst (jp_key p) + snd (jp_key p) \<le> i)"

lemmas path_tokens = NONE_def WILDCARD_def ROOT_def IS_KEY_def IS_INDEX_def KEY_OR_INDEX_def
lemmas path_kinds = is_wildcard_def is_key_def is_index_def is_root_def path_tokens
lemmas path_nodes = JsonPathNode_none_def JsonPathNode_index_def JsonPathNode_key_def JsonPathNode_token_def

lemma step_of_simps [simp]:
  "step_of buf (JsonPathNode_token WILDCARD) = PWild" "step_of buf (JsonPathNode_key (off, l)) = PName (take l (drop off buf))"
  "step_of buf (JsonPathNode_index x) = PAt (sint x)" "node_in i (JsonPathNode_token WILDCARD)"
  "node_in i (JsonPathNode_key (off, l)) \<longleftrightarrow> off + l \<le> i" "node_in i (JsonPathNode_index x)"
  by (simp_all add: step_of_def node_in_def jp_name_def path_kinds path_nodes)

text \<open>A piece that starts at \<open>i\<close>, in front of which the copy stays as it is.\<close>

definition piece_agrees :: "nat \<Rightarrow> bytes \<Rightarrow> nat \<Rightarrow> (path_step \<times> bytes) option \<Rightarrow> path_piece option \<Rightarrow> bool" where
  "piece_agrees n buf i s r \<longleftrightarrow> (case s of
      None \<Rightarrow> \<exists>j node buf'. r = Some (False, j, node, buf')
    | Some (s, rest) \<Rightarrow> \<exists>j node buf'. r = Some (True, j, node, buf') \<and> i < j \<and> j \<le> n \<and> path_copy n buf' \<and> take i buf' = take i buf
        \<and> path_rest n buf' j = rest \<and> step_of buf' node = s \<and> node_in j node)"

lemma parseUnquotedKey_agrees:
  assumes "path_copy n buf" and "i < n" and "buf ! i \<noteq> 0x2A"
  shows "piece_agrees n buf i (ref_dot (path_rest n buf i)) (parseUnquotedKey buf n i node)"
proof -
  let ?k = "takeWhile name_byte (path_rest n buf i)"
  have le: "i + length ?k \<le> n"
    using length_takeWhile_le [of name_byte "path_rest n buf i"] assms by (simp add: length_path_rest)
  have "?k = take (length ?k) (path_rest n buf i)" by (rule takeWhile_eq_take)
  also have "\<dots> = take (length ?k) (drop i buf)"
    using le by (simp add: path_rest_def take_drop min_def)
  finally have k: "take (length ?k) (drop i buf) = ?k" by simp
  have r: "ref_dot (path_rest n buf i) = (if ?k = [] then None else Some (PName ?k, path_rest n buf (i + length ?k)))"
    using assms dropWhile_rest [of name_byte n buf i] by (simp add: ref_dot_def path_rest_step [OF assms(1,2)])
  have p: "parseUnquotedKey buf n i node
      = Some (if ?k = [] then (False, i + length ?k, node, buf) else (True, i + length ?k, JsonPathNode_key (i, length ?k), buf))"
    using assms(2) by (simp add: parseUnquotedKey_def key_loop_eq [OF assms(1)] Let_def)
  show ?thesis
    unfolding piece_agrees_def p r using le assms(1) k by (cases "?k = []") simp_all
qed

lemma sint_of_int: "- (2 ^ 63) \<le> z \<Longrightarrow> z < 2 ^ 63 \<Longrightarrow> sint (word_of_int z :: u64) = z"
  by (simp add: signed_of_int signed_take_bit_int_eq_self)

lemma sint_signed: "v < 2 ^ 63 \<Longrightarrow> sint (word_of_nat v * (if neg then - 1 else 1) :: u64) = (if neg then - int v else int v)"
proof -
  assume v: "v < 2 ^ 63"
  have "(word_of_nat v * (if neg then - 1 else 1) :: u64) = word_of_int (if neg then - int v else int v)" by simp
  also have "sint \<dots> = (if neg then - int v else int v)" using v by (intro sint_of_int) auto
  finally show ?thesis .
qed

lemma parseBracketedIndex_agrees:
  assumes "path_copy n buf" and "i < n" and d: "is_digit (buf ! i) \<or> buf ! i = 0x2D"
  shows "piece_agrees n buf i (ref_bracket (path_rest n buf i)) (parseBracketedIndex buf n i node)"
proof -
  define neg where "neg \<longleftrightarrow> buf ! i = 0x2D"
  define k where "k = (if neg then i + 1 else i)"
  let ?s = "path_number (path_rest n buf k)"
  have k: "k \<le> n" "i \<le> k" using assms(2) by (simp_all add: k_def)
  have num: "\<not> is_digit 0x2D" "\<not> is_digit 0x2A" "\<not> is_digit 0x22" "\<not> is_digit 0x27" by (simp_all add: is_digit_def)
  have ref: "ref_bracket (path_rest n buf i) = closing (map_option (\<lambda>(v, r). (PAt (if neg then - int v else int v), r)) ?s)"
    using d num by (cases neg) (auto simp: ref_bracket_def path_rest_step [OF assms(1,2)] neg_def k_def)
  have par: "parseBracketedIndex buf n i node = do {
        (ok, j, acc) \<leftarrow> path_parseNumber buf n k 0;
        (if \<not> ok then Some (False, j, node, buf)
         else if j \<ge> n \<or> path_at buf n j \<noteq> Some 0x5D then Some (False, j, node, buf)
         else Some (True, j + 1, JsonPathNode_index (acc * (if neg then - 1 else 1)), buf)) }"
    using assms(2) by (simp add: parseBracketedIndex_def path_at_some [OF assms(1,2)] neg_def k_def cong: if_cong)
  note pn = path_parseNumber_eq [OF assms(1) k(1)]
  show ?thesis
  proof (cases ?s)
    case None
    then show ?thesis using pn by (auto simp: piece_agrees_def ref par closing_def)
  next
    case (Some vr)
    obtain v r where vr: "vr = (v, r)" by (cases vr)
    then obtain j where j: "v < 2 ^ 63" "path_parseNumber buf n k 0 = Some (True, j, word_of_nat v)" "k < j" "j \<le> n" "r = path_rest n buf j"
      using pn Some by auto
    show ?thesis
    proof (cases "path_at buf n j = Some 0x5D")
      case True
      then have jn: "j < n" "buf ! j = 0x5D" using path_at_some [OF assms(1), of j] by (auto simp: path_at_def split: if_splits)
      then have "closing (Some (s, path_rest n buf j)) = Some (s, path_rest n buf (j + 1))" for s
        by (simp add: closing_def path_rest_step [OF assms(1)])
      then show ?thesis using j k assms(1) jn True by (simp add: piece_agrees_def ref par Some vr sint_signed)
    next
      case False
      have "closing (Some (s, path_rest n buf j)) = None" for s
        using False j(4) path_rest_step [OF assms(1), of j] path_at_some [OF assms(1), of j] path_rest_end [of n j buf]
        by (cases "j < n") (auto simp: closing_def)
      then show ?thesis using j False by (simp add: piece_agrees_def ref par Some vr)
    qed
  qed
qed

text \<open>
  The loop of a quoted name: what it has written lies in front of what it still reads, so the text it reads
  is the one of the path.
\<close>

definition name_read :: "nat \<Rightarrow> bytes \<Rightarrow> nat \<Rightarrow> nat \<Rightarrow> (bytes \<times> bytes) option \<Rightarrow> (bytes \<times> (nat \<times> nat) option) option \<Rightarrow> bool" where
  "name_read n buf src dst s r \<longleftrightarrow> (case s of
      None \<Rightarrow> \<exists>buf' e. r = Some (buf', e) \<and> (case e of None \<Rightarrow> True | Some (src', dst') \<Rightarrow> n \<le> src')
    | Some (name, rest) \<Rightarrow> \<exists>buf' src'. r = Some (buf', Some (src', dst + length name)) \<and> src \<le> src' \<and> src' < n
        \<and> dst + length name \<le> src' \<and> path_copy n buf' \<and> path_rest n buf' (src' + 1) = rest
        \<and> take (dst + length name) buf' = take dst buf @ name)"

lemma wr_rest:
  assumes "path_copy n buf" and "dst + length out \<le> src" and "src \<le> n"
  shows "\<exists>buf'. wr buf dst out = Some buf' \<and> path_copy n buf' \<and> take (dst + length out) buf' = take dst buf @ out
    \<and> (\<forall>i \<ge> src. path_rest n buf' i = path_rest n buf i)"
proof -
  have l: "length buf = n + 8" by (rule path_copy_length [OF assms(1)])
  then obtain buf' where w: "wr buf dst out = Some buf'" using assms wr_ex [of dst out buf] by auto
  have b: "buf' = take dst buf @ out @ drop (dst + length out) buf" using w by (auto simp: wr_def split: if_splits)
  have d: "drop src buf' = drop src buf" using assms l by (simp add: b add.commute)
  have "drop n buf' = drop (n - src) (drop src buf')" using assms(3) by simp
  also have "\<dots> = drop n buf" using assms(3) unfolding d by simp
  finally have "path_copy n buf'" using assms(1) by (simp add: path_copy_def)
  moreover have "path_rest n buf' i = path_rest n buf i" if "src \<le> i" for i
  proof -
    have "drop i buf' = drop (i - src) (drop src buf')" using that by simp
    also have "\<dots> = drop i buf" using that unfolding d by simp
    finally show ?thesis by (simp add: path_rest_def drop_take)
  qed
  ultimately show ?thesis using w wr_take [OF w] by blast
qed

lemma name_read_step:
  assumes "path_copy n buf" and "dst + length out \<le> src'" and "src \<le> src'"
    and read: "\<And>buf'. path_copy n buf' \<Longrightarrow> path_rest n buf' src' = path_rest n buf src'
      \<Longrightarrow> name_read n buf' src' (dst + length out) s (f buf')"
  shows "src' \<le> n \<Longrightarrow> name_read n buf src dst (map_option (\<lambda>(name, r). (out @ name, r)) s) (wr buf dst out \<bind> f)"
proof -
  assume "src' \<le> n"
  from wr_rest [OF assms(1,2) this] obtain buf' where w: "wr buf dst out = Some buf'" "path_copy n buf'"
    "take (dst + length out) buf' = take dst buf @ out" "\<forall>i \<ge> src'. path_rest n buf' i = path_rest n buf i" by blast
  have "name_read n buf' src' (dst + length out) s (f buf')" using w by (intro read) simp_all
  then show ?thesis using w(1,3) assms(2,3) by (cases s) (auto simp: name_read_def add.assoc)
qed

lemma quoted_loop_agrees:
  "path_copy n buf \<Longrightarrow> dst \<le> src \<Longrightarrow> name_read n buf src dst (ref_quoted q (path_rest n buf src)) (quoted_loop q n src dst buf)"
proof (induction "n - src" arbitrary: src dst buf rule: less_induct)
  case less
  note cp = less.prems(1)
  have l: "length buf = n + 8" by (rule path_copy_length [OF cp])
  show ?case
  proof (cases "src < n")
    case False
    then show ?thesis using cp
      by (subst quoted_loop.simps) (simp add: path_rest_end ref_quoted.simps name_read_def)
  next
    case True
    let ?c = "buf ! src" and ?r = "path_rest n buf (src + 1)"
    note rest = path_rest_step [OF cp True]
    have c: "rd buf src = Some ?c" using l True by (simp add: rd_def)
    obtain d where d: "rd buf (src + 1) = Some d" using l True by (simp add: rd_def)
    have q: "(take 1 ?r = [0x27]) \<longleftrightarrow> d = 0x27"
    proof (cases "src + 1 < n")
      case True
      then show ?thesis using d l path_rest_step [OF cp True] by (simp add: rd_def)
    next
      case False
      then have "src + 1 = n" using \<open>src < n\<close> by simp
      moreover have "drop n buf ! 0 = 0" using cp by (simp add: path_copy_def)
      ultimately have "d = 0" using d l by (simp add: rd_def)
      then show ?thesis using False by (simp add: path_rest_end)
    qed
    have ih: "path_copy n buf' \<Longrightarrow> src < src' \<Longrightarrow> dst' \<le> src' \<Longrightarrow> path_rest n buf' src' = rs
      \<Longrightarrow> name_read n buf' src' dst' (ref_quoted q rs) (quoted_loop q n src' dst' buf')" for buf' src' dst' rs
      using less.hyps [of src' buf' dst'] True by simp
    consider (stop) "?c = q" | (quote) "?c \<noteq> q" "?c = 0x5C" "d = 0x27" | (esc) "?c \<noteq> q" "?c = 0x5C" "d \<noteq> 0x27"
      | (plain) "?c \<noteq> q" "?c \<noteq> 0x5C" by blast
    then show ?thesis
    proof cases
      case stop
      then show ?thesis using True cp c less.prems(2)
        by (subst quoted_loop.simps) (simp add: rest ref_quoted.simps name_read_def)
    next
      case quote
      have n: "src + 2 \<le> n" using q quote(3) True by (cases "src + 1 < n") (simp_all add: path_rest_end)
      have "name_read n buf src dst (map_option (\<lambda>(name, r). ([0x27] @ name, r)) (ref_quoted q (path_rest n buf (src + 2))))
        (wr buf dst [0x27] \<bind> (\<lambda>buf'. quoted_loop q n (src + 2) (dst + length [0x27 :: u8]) buf'))"
        using less.prems n by (intro name_read_step [where src' = "src + 2"] ih) simp_all
      then show ?thesis using quote True c d q
        by (subst quoted_loop.simps) (simp add: rest ref_quoted.simps path_rest_drop)
    next
      case esc
      obtain r where r: "unescape_with_padding buf src = Some r" using unescape_copy_defined [OF cp True] by blast
      let ?u = "unescape_with_padding (paddingJsonPath (?c # ?r)) 0"
      have u: "Some r = shift_result src ?u"
        using unescape_shift [of buf src] path_rest_pad [OF cp, of src] True by (simp add: r rest)
      show ?thesis
      proof (cases r)
        case None
        then have "?u = Some None" using u by (cases ?u) (simp_all add: shift_result_def)
        then show ?thesis using esc True c d q r None
          by (subst quoted_loop.simps) (simp add: rest ref_quoted.simps name_read_def)
      next
        case (Some e)
        obtain src' out where e: "e = (src', out)" by (cases e)
        then have "shift_result src ?u = Some (Some (src', out))" using u Some by simp
        then obtain k where k: "?u = Some (Some (k, out))" "src' = src + k" by (auto simp: shift_result_def)
        have adv: "src + 2 \<le> src'" "length out + 1 \<le> src' - src" using unescape_advance [of buf src src' out] r Some e by simp_all
        have lq: "quoted_loop q n src dst buf = wr buf dst out \<bind> (\<lambda>buf'. quoted_loop q n src' (dst + length out) buf')"
          using esc True c d q r Some e by (subst quoted_loop.simps) simp
        have lr: "ref_quoted q (path_rest n buf src) = map_option (\<lambda>(name, r). (out @ name, r)) (ref_quoted q (path_rest n buf src'))"
          using esc q k True path_rest_drop [of k n buf src] by (simp add: rest ref_quoted.simps)
        show ?thesis
        proof (cases "src' \<le> n")
          case True
          then show ?thesis unfolding lq lr using less.prems adv
            by (intro name_read_step [where src' = src'] ih) simp_all
        next
          case False
          have "dst + length out \<le> length buf" using unescape_room [of buf src src' out] r Some e less.prems(2) by simp
          then obtain buf' where "wr buf dst out = Some buf'" using wr_ex by blast
          moreover have "quoted_loop q n src' (dst + length out) buf' = Some (buf', Some (src', dst + length out))"
            using False by (subst quoted_loop.simps) simp
          ultimately show ?thesis unfolding lq lr using False by (simp add: path_rest_end ref_quoted.simps name_read_def)
        qed
      qed
    next
      case plain
      have "name_read n buf src dst (map_option (\<lambda>(name, r). ([?c] @ name, r)) (ref_quoted q ?r))
        (wr buf dst [?c] \<bind> (\<lambda>buf'. quoted_loop q n (src + 1) (dst + length [?c]) buf'))"
        using less.prems True by (intro name_read_step [where src' = "src + 1"] ih) simp_all
      then show ?thesis using plain True c by (subst quoted_loop.simps) (simp add: rest ref_quoted.simps)
    qed
  qed
qed

lemma parseQuotedName_agrees:
  assumes "path_copy n buf" and "i < n" and q: "buf ! i = 0x27 \<or> buf ! i = 0x22"
  shows "piece_agrees n buf i (ref_bracket (path_rest n buf i)) (parseQuotedName buf n i node)"
proof -
  let ?q = "buf ! i" and ?s = "i + 1"
  let ?n = "ref_quoted ?q (path_rest n buf ?s)"
  have ref: "ref_bracket (path_rest n buf i) = closing (map_option (\<lambda>(s, r). (PName s, r)) ?n)"
    using q by (auto simp: ref_bracket_def path_rest_step [OF assms(1,2)])
  note p = parseQuotedName_def path_at_some [OF assms(1,2)]
  show ?thesis
  proof (cases "?s < n")
    case False
    then show ?thesis using assms(2) q
      by (auto simp: p ref piece_agrees_def path_rest_end ref_quoted.simps closing_def)
  next
    case True
    have nr: "name_read n buf ?s ?s ?n (quoted_loop ?q n ?s ?s buf)" using quoted_loop_agrees [OF assms(1)] by simp
    show ?thesis
    proof (cases ?n)
      case None
      then obtain buf' e where e: "quoted_loop ?q n ?s ?s buf = Some (buf', e)" "case e of None \<Rightarrow> True | Some (s', d') \<Rightarrow> n \<le> s'"
        using nr by (auto simp: name_read_def)
      then show ?thesis using None True assms(2) q by (auto simp: p ref piece_agrees_def closing_def split: option.splits)
    next
      case (Some nr')
      obtain name rest where nm: "nr' = (name, rest)" by (cases nr')
      then obtain buf' src' where l: "quoted_loop ?q n ?s ?s buf = Some (buf', Some (src', ?s + length name))" "?s \<le> src'" "src' < n"
          "?s + length name \<le> src'" "path_copy n buf'" "path_rest n buf' (src' + 1) = rest"
          "take (?s + length name) buf' = take ?s buf @ name"
        using nr Some unfolding name_read_def by auto
      have lb: "length buf = n + 8" by (rule path_copy_length [OF assms(1)])
      have tk: "take i buf' = take i buf" using arg_cong [OF l(7), of "take i"] lb assms(2) by (simp add: min_def)
      have key: "take (length name) (drop ?s buf') = name"
        using arg_cong [OF l(7), of "drop ?s"] lb True by (simp add: drop_take)
      show ?thesis
      proof (cases "src' + 1 < n")
        case False
        then show ?thesis using l True assms(2) q Some nm
          by (auto simp: p ref piece_agrees_def path_rest_end closing_def Let_def)
      next
        case t: True
        have c: "rd buf' (src' + 1) = Some (buf' ! (src' + 1))" using t path_copy_length [OF l(5)] by (simp add: rd_def)
        have rest: "rest = buf' ! (src' + 1) # path_rest n buf' (src' + 2)" using path_rest_step [OF l(5) t] l(6) by simp
        have pq: "parseQuotedName buf n i node = Some (if buf' ! (src' + 1) \<noteq> 0x5D then (False, ?s, JsonPathNode_key (?s, length name), buf')
            else (True, src' + 2, JsonPathNode_key (?s, length name), buf'))"
          using l(1,3) True assms(2) q c t by (simp add: p Let_def)
        show ?thesis unfolding pq ref Some nm rest using t l tk key by (auto simp: piece_agrees_def closing_def)
      qed
    qed
  qed
qed

subsection \<open>The whole path\<close>

definition round_agrees :: "nat \<Rightarrow> path_state \<Rightarrow> (path_step \<times> bytes) option \<Rightarrow> (path_result + path_state) option \<Rightarrow> bool" where
  "round_agrees n st s r \<longleftrightarrow> (case s of
      None \<Rightarrow> \<exists>nodes buf'. r = Some (Inl (False, nodes, buf'))
    | Some (s, rest) \<Rightarrow> \<exists>st' p. r = Some (Inr st') \<and> ps_i st < ps_i st' \<and> ps_i st' \<le> n \<and> path_copy n (ps_buf st')
        \<and> take (ps_i st) (ps_buf st') = take (ps_i st) (ps_buf st) \<and> path_rest n (ps_buf st') (ps_i st') = rest
        \<and> ps_nodes st' = ps_nodes st @ [p] \<and> step_of (ps_buf st') p = s \<and> node_in (ps_i st') p)"

lemma piece_round:
  assumes "piece_agrees n (ps_buf st) (ps_i st + 1) s r"
  shows "round_agrees n st s (map_option (path_piece_done st) r)"
proof (cases s)
  case None
  then obtain j node buf' where "r = Some (False, j, node, buf')" using assms by (auto simp: piece_agrees_def)
  then show ?thesis using None by (simp add: round_agrees_def path_piece_done_def)
next
  case (Some sr)
  then obtain j node buf' where *: "r = Some (True, j, node, buf')" "ps_i st + 1 < j" "j \<le> n" "path_copy n buf'"
      "take (ps_i st + 1) buf' = take (ps_i st + 1) (ps_buf st)" "path_rest n buf' j = snd sr" "step_of buf' node = fst sr" "node_in j node"
    using assms by (auto simp: piece_agrees_def split: prod.splits)
  have "take (ps_i st) buf' = take (ps_i st) (ps_buf st)"
    using arg_cong [OF *(5), of "take (ps_i st)"] by (simp add: min_def)
  then show ?thesis using * Some by (auto simp: round_agrees_def path_piece_done_def split: prod.splits)
qed

lemma path_round_agrees:
  assumes cp: "path_copy n (ps_buf st)" and i: "ps_i st < n"
  shows "round_agrees n st (ref_step (path_rest n (ps_buf st) (ps_i st))) (path_round n st)"
proof -
  let ?b = "ps_buf st" and ?i = "ps_i st"
  let ?r = "path_rest n ?b (?i + 1)"
  have fail: "round_agrees n st None (Some (path_fail st))" by (simp add: round_agrees_def path_fail_def)
  have wild: "round_agrees n st (Some (PWild, path_rest n ?b j)) (Some (path_wildcard j st))" if "?i < j" "j \<le> n" for j
    using that cp by (simp add: round_agrees_def path_wildcard_def)
  note at_i = path_at_some [OF cp i] path_rest_step [OF cp i]
  consider (dot) "?b ! ?i = 0x2E" | (brk) "?b ! ?i = 0x5B" | (other) "?b ! ?i \<noteq> 0x2E" "?b ! ?i \<noteq> 0x5B" by blast
  then show ?thesis
  proof cases
    case other
    then show ?thesis using fail by (simp add: ref_step_def path_round_def at_i Let_def)
  next
    case dot
    then have ref: "ref_step (path_rest n ?b ?i) = ref_dot ?r" by (simp add: ref_step_def at_i)
    show ?thesis
    proof (cases "?i + 1 < n")
      case False
      then show ?thesis using fail dot unfolding ref by (simp add: path_round_def at_i path_rest_end ref_dot_def Let_def)
    next
      case True
      note at_1 = path_at_some [OF cp True] path_rest_step [OF cp True]
      show ?thesis
      proof (cases "?b ! (?i + 1) = 0x2A")
        case w: True
        then have "ref_dot ?r = Some (PWild, path_rest n ?b (?i + 2))" using at_1 by (simp add: ref_dot_def)
        moreover have "path_round n st = Some (path_wildcard (?i + 2) st)"
          using dot w at_1 True by (simp add: path_round_def at_i Let_def WILDCARD_def)
        ultimately show ?thesis using wild [of "?i + 2"] True by (simp add: ref)
      next
        case nw: False
        note key = piece_round [OF parseUnquotedKey_agrees [OF cp True nw]]
        show ?thesis
        proof (cases "?i + 2 < n \<and> ?b ! (?i + 1) = 0x2E")
          case dd: True
          then have "ref_dot ?r = None" using at_1 by (simp add: ref_dot_def name_byte_def)
          moreover have "path_round n st = Some (path_fail st)"
            using dot dd at_1 by (simp add: path_round_def at_i Let_def)
          ultimately show ?thesis using fail by (simp add: ref)
        next
          case False
          then have "path_round n st = map_option (path_piece_done st) (parseUnquotedKey ?b n (?i + 1) (ps_node st))"
            using dot nw at_1 True by (auto simp: path_round_def at_i Let_def WILDCARD_def)
          then show ?thesis using key by (simp add: ref)
        qed
      qed
    qed
  next
    case brk
    then have ref: "ref_step (path_rest n ?b ?i) = ref_bracket ?r" by (simp add: ref_step_def at_i)
    show ?thesis
    proof (cases "?i + 1 < n")
      case False
      then show ?thesis using fail brk unfolding ref by (simp add: path_round_def at_i path_rest_end ref_bracket_def Let_def)
    next
      case True
      let ?d = "?b ! (?i + 1)"
      note at_1 = path_at_some [OF cp True] path_rest_step [OF cp True]
      note rnd = path_round_def at_i brk at_1(1) [unfolded Suc_eq_plus1 [symmetric]] Let_def WILDCARD_def
      consider (w) "?d = 0x2A" | (qt) "?d = 0x27 \<or> ?d = 0x22" | (nm) "is_digit ?d \<or> ?d = 0x2D"
        | (bad) "?d \<noteq> 0x2A" "?d \<noteq> 0x27" "?d \<noteq> 0x22" "\<not> is_digit ?d" "?d \<noteq> 0x2D" by blast
      then show ?thesis
      proof cases
        case w
        have "closing (Some (PWild, path_rest n ?b (?i + 2))) = (if ?i + 2 < n \<and> ?b ! (?i + 2) = 0x5D then Some (PWild, path_rest n ?b (?i + 3)) else None)"
          using path_rest_step [OF cp, of "?i + 2"] path_rest_end [of n "?i + 2" ?b] by (cases "?i + 2 < n") (simp_all add: closing_def numeral_3_eq_3)
        then have "ref_bracket ?r = (if ?i + 2 < n \<and> ?b ! (?i + 2) = 0x5D then Some (PWild, path_rest n ?b (?i + 3)) else None)"
          using w at_1 by (simp add: ref_bracket_def)
        moreover have "path_round n st = Some (if ?i + 2 < n \<and> ?b ! (?i + 2) = 0x5D then path_wildcard (?i + 3) st else path_fail st)"
          using w True path_at_some [OF cp, of "?i + 2"] by (auto simp: rnd)
        ultimately show ?thesis using wild [of "?i + 3"] fail by (simp add: ref)
      next
        case qt
        then have "path_round n st = map_option (path_piece_done st) (parseQuotedName ?b n (?i + 1) (ps_node st))"
          using True by (auto simp: rnd)
        then show ?thesis using piece_round [OF parseQuotedName_agrees [OF cp True qt]] by (simp add: ref)
      next
        case nm
        then have "path_round n st = map_option (path_piece_done st) (parseBracketedIndex ?b n (?i + 1) (ps_node st))"
          using True by (auto simp: rnd is_digit_def)
        then show ?thesis using piece_round [OF parseBracketedIndex_agrees [OF cp True nm]] by (simp add: ref)
      next
        case bad
        have "path_round n st = Some (Inl (False, [], ?b))"
          using True bad by (auto simp: rnd is_digit_def path_piece_done_def)
        moreover have "ref_bracket ?r = None" using bad at_1 by (simp add: ref_bracket_def closing_def)
        ultimately show ?thesis by (simp add: ref round_agrees_def)
      qed
    qed
  qed
qed

lemma step_of_cong: "node_in i p \<Longrightarrow> take i buf' = take i buf \<Longrightarrow> step_of buf' p = step_of buf p"
proof -
  assume a: "node_in i p" "take i buf' = take i buf"
  have "jp_name buf' p = jp_name buf p" if "is_key p"
  proof -
    let ?o = "fst (jp_key p)" and ?l = "snd (jp_key p)"
    have e: "?o + ?l \<le> i" using a(1) that by (simp add: node_in_def)
    have v: "take ?l (drop ?o b) = drop ?o (take (?o + ?l) (take i b))" for b :: bytes
      using e by (simp add: min_def drop_take)
    show ?thesis using v [of buf] v [of buf'] a(2) by (simp add: jp_name_def)
  qed
  then show ?thesis by (simp add: step_of_def)
qed

lemma node_in_mono: "node_in i p \<Longrightarrow> i \<le> j \<Longrightarrow> node_in j p"
  by (auto simp: node_in_def)

definition loop_agrees :: "nat \<Rightarrow> path_state \<Rightarrow> path_step list option \<Rightarrow> path_result option \<Rightarrow> bool" where
  "loop_agrees n st ss r \<longleftrightarrow> (case ss of
      None \<Rightarrow> \<exists>nodes buf'. r = Some (False, nodes, buf')
    | Some ss \<Rightarrow> \<exists>ps buf'. r = Some (True, ps_nodes st @ ps, buf') \<and> map (step_of buf') ps = ss
        \<and> list_all (node_in n) ps \<and> take (ps_i st) buf' = take (ps_i st) (ps_buf st))"

lemma path_loop_agrees:
  "path_copy n (ps_buf st) \<Longrightarrow> ps_i st \<le> n \<Longrightarrow> loop_agrees n st (ref_steps (path_rest n (ps_buf st) (ps_i st))) (path_loop n st)"
proof (induction "n - ps_i st" arbitrary: st rule: less_induct)
  case less
  let ?rest = "path_rest n (ps_buf st) (ps_i st)"
  show ?case
  proof (cases "ps_i st < n")
    case False
    then show ?thesis
      by (subst path_loop.simps) (simp add: path_rest_end ref_steps.simps loop_agrees_def)
  next
    case True
    have ne: "?rest \<noteq> []" using path_rest_step [OF less.prems(1) True] by simp
    note rd = path_round_agrees [OF less.prems(1) True]
    show ?thesis
    proof (cases "ref_step ?rest")
      case None
      then obtain nodes buf' where "path_round n st = Some (Inl (False, nodes, buf'))" using rd by (auto simp: round_agrees_def)
      then show ?thesis using True None ne
        by (subst path_loop.simps, subst ref_steps.simps) (simp add: loop_agrees_def)
    next
      case (Some sr)
      obtain s rest where sr: "sr = (s, rest)" by (cases sr)
      then obtain st' p where r: "path_round n st = Some (Inr st')" "ps_i st < ps_i st'" "ps_i st' \<le> n" "path_copy n (ps_buf st')"
          "take (ps_i st) (ps_buf st') = take (ps_i st) (ps_buf st)" "path_rest n (ps_buf st') (ps_i st') = rest"
          "ps_nodes st' = ps_nodes st @ [p]" "step_of (ps_buf st') p = s" "node_in (ps_i st') p"
        using rd Some unfolding round_agrees_def by auto
      have l: "path_loop n st = path_loop n st'" using True r(1) by (subst path_loop.simps) simp
      have s: "ref_steps ?rest = map_option (Cons s) (ref_steps rest)" using ne Some sr by (subst ref_steps.simps) simp
      have ih: "loop_agrees n st' (ref_steps rest) (path_loop n st')"
        using less.hyps [of st'] r(2-4) True unfolding r(6) by simp
      show ?thesis
      proof (cases "ref_steps rest")
        case None
        then show ?thesis using ih unfolding l s by (simp add: loop_agrees_def)
      next
        case ss: (Some ss)
        then obtain ps buf' where p: "path_loop n st' = Some (True, ps_nodes st' @ ps, buf')" "map (step_of buf') ps = ss"
            "list_all (node_in n) ps" "take (ps_i st') buf' = take (ps_i st') (ps_buf st')"
          using ih by (auto simp: loop_agrees_def)
        have "take (ps_i st) buf' = take (ps_i st) (ps_buf st)"
          using arg_cong [OF p(4), of "take (ps_i st)"] r(2,5) by (simp add: min_def)
        then show ?thesis using p r(3,7-9) step_of_cong [OF r(9) p(4)] node_in_mono [OF r(9,3)]
          unfolding l s ss by (auto simp: loop_agrees_def)
      qed
    qed
  qed
qed

lemma path_parse_cases:
  "case ref_path path of
     None \<Rightarrow> \<exists>nodes buf. JsonPath_Parse path = Some (False, nodes, buf)
   | Some ss \<Rightarrow> \<exists>ps buf. JsonPath_Parse path = Some (True, JsonPathNode_token ROOT # ps, buf) \<and> map (step_of buf) ps = ss
       \<and> list_all (node_in (length path)) ps"
proof (cases "take 1 path = [ROOT]")
  case False
  then have "length path = 0 \<or> path_at (paddingJsonPath path) (length path) 0 \<noteq> Some ROOT"
    by (cases path) (simp_all add: path_at_def rd_def paddingJsonPath_def)
  then show ?thesis using False by (auto simp: ref_path_def JsonPath_Parse_def ParsePaddedInternal_def)
next
  case True
  let ?st = "\<lparr>ps_i = 1, ps_node = JsonPathNode_none, ps_nodes = [JsonPathNode_token ROOT], ps_buf = paddingJsonPath path\<rparr>"
  have "loop_agrees (length path) ?st (ref_steps (drop 1 path)) (path_loop (length path) ?st)"
    using path_loop_agrees [of "length path" ?st] True padded_copy [of path] by (cases path) simp_all
  moreover have "JsonPath_Parse path = path_loop (length path) ?st"
    using True by (cases path) (simp_all add: JsonPath_Parse_def ParsePaddedInternal_def path_at_def rd_def paddingJsonPath_def)
  ultimately show ?thesis using True by (auto simp: ref_path_def loop_agrees_def split: option.splits)
qed

text \<open>
  C38: The path parser, which unescapes names in place in a padded copy and keeps views into it, always returns and reads
  every path as the grammar does: it accepts the same paths, and after all its writing each view shows the name the
  grammar reads, and each index and wildcard is the one of the path.
\<close>

theorem jsonpath_parse_exact:
  "case ref_path path of
     None \<Rightarrow> \<exists>nodes buf. JsonPath_Parse path = Some (False, nodes, buf)
   | Some ss \<Rightarrow> \<exists>ps buf. JsonPath_Parse path = Some (True, JsonPathNode_token ROOT # ps, buf) \<and> map (step_of buf) ps = ss"
  using path_parse_cases [of path] by (auto split: option.splits)

subsection \<open>Printing paths\<close>

definition quoted_name :: "bytes \<Rightarrow> bytes" where
  "quoted_name s = concat (map (\<lambda>c. if c = 0x27 \<or> c = 0x5C then [0x5C, c] else [c]) s)"

fun step_text :: "path_step \<Rightarrow> bytes" where
  "step_text PWild = [0x5B, 0x2A, 0x5D]"
| "step_text (PName s) = [0x5B, 0x27] @ quoted_name s @ [0x27, 0x5D]"
| "step_text (PAt i) = [0x5B] @ int_text i @ [0x5D]"

definition path_text :: "path_step list \<Rightarrow> bytes" where
  "path_text ss = ROOT # concat (map step_text ss)"

fun index_fits :: "path_step \<Rightarrow> bool" where
  "index_fits (PAt i) \<longleftrightarrow> \<bar>i\<bar> < 2 ^ 63"
| "index_fits s \<longleftrightarrow> True"

lemma unescape_backslash: "unescape_with_padding (paddingJsonPath (0x5C # 0x5C # r)) 0 = Some (Some (2, [0x5C]))"
proof -
  have "kEscapedMap ! 92 = 0x5C" by code_simp
  then show ?thesis by (simp add: unescape_with_padding_def paddingJsonPath_def rd_def)
qed

lemma ref_quoted_name: "ref_quoted 0x27 (quoted_name s @ 0x27 # r) = Some (s, r)"
  by (induction s) (simp_all add: quoted_name_def ref_quoted.simps unescape_backslash)

lemma path_number_decimal: "v < 2 ^ 63 \<Longrightarrow> path_number (decimal v @ 0x5D # r) = Some (v, 0x5D # r)"
proof -
  assume v: "v < 2 ^ 63"
  have nd: "\<not> is_digit 0x5D" by (simp add: is_digit_def)
  have ds: "\<forall>x \<in> set (decimal v). is_digit x" using decimal_digits [of v] by (simp add: list_all_iff)
  show ?thesis
  proof (cases "v = 0")
    case True
    then show ?thesis by (simp add: decimal_single digit_def path_number_def)
  next
    case False
    then have "take 1 (decimal v @ 0x5D # r) \<noteq> [0x30]" using decimal_hd_nonzero [of v] by (cases "decimal v") simp_all
    moreover have "takeWhile is_digit (decimal v @ 0x5D # r) = decimal v" "dropWhile is_digit (decimal v @ 0x5D # r) = 0x5D # r"
      using ds nd by (simp_all add: takeWhile_append2 dropWhile_append2)
    ultimately show ?thesis using v by (simp add: path_number_def decimal_value)
  qed
qed

lemma ref_step_text: "index_fits s \<Longrightarrow> ref_step (step_text s @ r) = Some (s, r)"
proof (cases s)
  case (PAt i)
  assume "index_fits s"
  then have v: "nat \<bar>i\<bar> < 2 ^ 63" using PAt by (simp add: nat_less_iff)
  obtain d ds where d: "decimal (nat \<bar>i\<bar>) = d # ds" by (cases "decimal (nat \<bar>i\<bar>)") simp_all
  then have "is_digit d" using decimal_digits [of "nat \<bar>i\<bar>"] by simp
  then have "d \<noteq> 0x2A" "d \<noteq> 0x27" "d \<noteq> 0x22" "d \<noteq> 0x2D" "is_digit d" by (auto simp: is_digit_def)
  moreover have "path_number (d # ds @ 0x5D # r) = Some (nat \<bar>i\<bar>, 0x5D # r)" using path_number_decimal [OF v, of r] d by simp
  moreover have "step_text s = 0x5B # (if i < 0 then [0x2D] else []) @ d # ds @ [0x5D]" using PAt d by (simp add: int_text_def)
  ultimately show ?thesis using PAt by (cases "i < 0") (simp_all add: ref_step_def ref_bracket_def closing_def)
qed (simp_all add: ref_step_def ref_bracket_def closing_def ref_quoted_name)

lemma ref_path_text: "list_all index_fits ss \<Longrightarrow> ref_path (path_text ss) = Some ss"
proof -
  have ne: "step_text s \<noteq> []" for s by (cases s) simp_all
  assume "list_all index_fits ss"
  then have "ref_steps (concat (map step_text ss)) = Some ss"
  proof (induction ss)
    case Nil
    then show ?case by (simp add: ref_steps.simps)
  next
    case (Cons s ss)
    then show ?case by (subst ref_steps.simps) (simp add: ne ref_step_text)
  qed
  then show ?thesis by (simp add: ref_path_def path_text_def)
qed

text \<open>
  C39: A list of steps written as a path, each name in single quotes with its quotes and backslashes escaped and any
  other byte as it is, is parsed back to the same steps, for indices within 64 bits of either sign.
\<close>

theorem jsonpath_roundtrip:
  assumes "list_all index_fits ss"
  shows "\<exists>ps buf. JsonPath_Parse (path_text ss) = Some (True, JsonPathNode_token ROOT # ps, buf) \<and> map (step_of buf) ps = ss"
  using path_parse_cases [of "path_text ss"] ref_path_text [OF assms] by auto

definition sample_path :: "path_step list" where
  "sample_path = [PName [0x61, 0x27, 0x5C], PWild, PAt (- 2)]"

lemma jsonpath_roundtrip_witness:
  "path_text sample_path = bytes_of ''$['' @ [0x27, 0x61, 0x5C, 0x27, 0x5C, 0x5C, 0x27] @ bytes_of ''][*][-2]''
   \<and> (\<exists>ps buf. JsonPath_Parse (path_text sample_path) = Some (True, JsonPathNode_token ROOT # ps, buf) \<and> map (step_of buf) ps = sample_path)"
proof
  show "path_text sample_path = bytes_of ''$['' @ [0x27, 0x61, 0x5C, 0x27, 0x5C, 0x5C, 0x27] @ bytes_of ''][*][-2]''"
    by (simp add: path_text_def sample_path_def quoted_name_def int_text_def decimal_single digit_def ROOT_def)
  show "\<exists>ps buf. JsonPath_Parse (path_text sample_path) = Some (True, JsonPathNode_token ROOT # ps, buf) \<and> map (step_of buf) ps = sample_path"
    by (rule jsonpath_roundtrip) (simp add: sample_path_def)
qed

end
