(* ===== verification/Sonic_PathSelect.thy ===== *)
theory Sonic_PathSelect
  imports Sonic_PathParse Sonic_NodeOps Sonic_RoundTrip
begin

text \<open>
  What a path selects of a tree, and lookups by path (\<open>jsonpath/dom.h\<close>, \<open>jsonpath/dump.h\<close>): the nodes found are the ones a
  reference over lists of nodes selects, and the answer is their text.
\<close>

subsection \<open>What a path selects\<close>

text \<open>
  The reference for the selection: a step takes every node to the nodes it selects of it, a path runs its steps over the
  list of the nodes selected so far. A name selects the first member of the name, a negative index counts from the end.
\<close>

fun selected :: "path_step \<Rightarrow> dnode \<Rightarrow> dnode list" where
  "selected PWild d = child_values d"
| "selected (PName k) (DObject m ms) = (case map_of (abs_members ms) k of None \<Rightarrow> [] | Some v \<Rightarrow> [v])"
| "selected (PAt i) (DArray m es) = (let j = (if i < 0 then i + int (length es) else i) in
     if 0 \<le> j \<and> j < int (length es) then [es ! nat j] else [])"
| "selected s d = []"

definition select :: "path_step list \<Rightarrow> dnode list \<Rightarrow> dnode list" where
  "select ss ds = fold (\<lambda>s ds. concat (map (selected s) ds)) ss ds"

lemma select_simps [simp]: "select [] ds = ds" "select (s # ss) ds = select ss (concat (map (selected s) ds))"
  by (simp_all add: select_def)

lemma select_append: "select ss (ds @ es) = select ss ds @ select ss es"
  by (induction ss arbitrary: ds es) simp_all

lemma select_none [simp]: "select ss [] = []"
  by (induction ss) simp_all

lemma select_each: "select ss ds = concat (map (\<lambda>d. select ss [d]) ds)"
proof (induction ds)
  case (Cons d ds)
  then show ?case using select_append [of ss "[d]" ds] by simp
qed simp

text \<open>The part of a path in front of its first wildcard.\<close>

definition fixed_part :: "path_step list \<Rightarrow> path_step list" where
  "fixed_part ss = takeWhile (\<lambda>s. s \<noteq> PWild) ss"

text \<open>
  Trees whose objects have maps only over distinct names, so that a name found through the map is the first of its members,
  and arrays within the range of an index.
\<close>

fun first_named :: "dnode \<Rightarrow> bool" where
  "first_named (DObject m ms) \<longleftrightarrow> obj_ok (m, ms) \<and> (getMap m = None \<or> distinct (names_of ms)) \<and> (\<forall>p \<in> set ms. first_named (snd p))"
| "first_named (DArray m es) \<longleftrightarrow> length es < 2 ^ 63 \<and> (\<forall>e \<in> set es. first_named e)"
| "first_named d \<longleftrightarrow> True"

lemma find_linear_first: "named ms \<Longrightarrow> find_linear ms k < length ms \<Longrightarrow> map_of (abs_members ms) k = Some (snd (ms ! find_linear ms k))"
  by (induction ms) (auto simp: named_def abs_members_def named_view)

lemma first_member:
  assumes "obj_ok (m, ms)" and "getMap m = None \<or> distinct (names_of ms)"
  shows "map_of (abs_members ms) k
    = (if findMemberImpl m ms k \<noteq> length ms then Some (snd (ms ! findMemberImpl m ms k)) else None)"
proof (cases "findMemberImpl m ms k = length ms")
  case True
  then have "k \<notin> set (names_of ms)" using member.find_end [OF assms(1), of k] by simp
  then show ?thesis using True by (simp add: names_of_abs map_of_eq_None_iff)
next
  case False
  let ?i = "findMemberImpl m ms k"
  have i: "?i < length ms" using False member.find_le [OF assms(1), of k] by simp
  have hit: "names_of ms ! ?i = k" using member.find_hit [OF assms(1), of k] i by simp
  have "map_of (abs_members ms) k = Some (snd (ms ! ?i))"
  proof (cases "distinct (names_of ms)")
    case True
    have "(k, snd (ms ! ?i)) = abs_members ms ! ?i" using hit i by (simp add: abs_members_def names_of_def)
    also have "\<dots> \<in> set (abs_members ms)" using i by (intro nth_mem) simp
    finally show ?thesis using True by (intro map_of_is_SomeI) (simp_all add: names_of_abs)
  next
    case False
    then have "?i = find_linear ms k" "named ms" using assms by (simp_all add: findMemberImpl_def obj_ok_def)
    then show ?thesis using i find_linear_first [of ms k] by simp
  qed
  then show ?thesis using False by simp
qed

lemma array_index:
  assumes "length es < 2 ^ 63"
  shows "(let sz = (word_of_nat (length es) :: u64); idx = (if sint (x :: u64) < 0 then sz + x else x) in
      if sint idx \<ge> sint sz \<or> sint idx < 0 then None else Some (es ! nat (sint idx)))
    = (let j = (if sint x < 0 then sint x + int (length es) else sint x) in
       if 0 \<le> j \<and> j < int (length es) then Some (es ! nat j) else None)"
proof -
  have x: "- (2 ^ 63) \<le> sint x" "sint x < 2 ^ 63" using sint_ge [of x] sint_lt [of x] by simp_all
  have sz: "sint (word_of_nat (length es) :: u64) = int (length es)"
    using sint_of_int [of "int (length es)"] assms by simp
  have "sint (word_of_nat (length es) + x) = sint x + int (length es)" if "sint x < 0"
  proof -
    have "word_of_nat (length es) + x = word_of_int (sint x + int (length es))" by simp
    then show ?thesis using that x assms by (simp only:) (intro sint_of_int; simp)
  qed
  then show ?thesis by (simp add: Let_def sz)
qed

lemma selected_child_value: "e \<in> set (selected s d) \<Longrightarrow> e \<in> set (child_values d)"
proof (induction s d rule: selected.induct)
  case (2 k m ms)
  then have "map_of (abs_members ms) k = Some e" by (auto split: option.splits)
  then have "(k, e) \<in> set (abs_members ms)" by (rule map_of_SomeD)
  then show ?case by (auto simp: abs_members_def child_values_def)
next
  case (3 i m es)
  then show ?case by (auto simp: child_values_def Let_def split: if_splits)
qed simp_all

lemma selected_child: "first_named d \<Longrightarrow> e \<in> set (selected s d) \<Longrightarrow> first_named e"
  using selected_child_value [of e s d] by (cases d) (auto simp: child_values_def)

lemma fold_selects:
  "(\<And>c res. c \<in> set cs \<Longrightarrow> snd (f c res) = res @ select ss [c]) \<Longrightarrow> fold (\<lambda>c res. snd (f c res)) cs res = res @ select ss cs"
proof (induction cs arbitrary: res)
  case (Cons c cs)
  then show ?case using select_append [of ss "[c]" cs] by simp
qed simp

lemma fixed_part_Cons: "fixed_part (s # ss) = (if s = PWild then [] else s # fixed_part ss)"
  by (simp add: fixed_part_def)

lemma at_path_selects:
  "first_named d \<Longrightarrow> list_all (node_in n) path \<Longrightarrow> atJsonPathImplCommon buf path d res
    = (select (fixed_part (map (step_of buf) path)) [d] \<noteq> [], res @ select (map (step_of buf) path) [d])"
proof (induction path arbitrary: d res)
  case Nil
  then show ?case by (simp add: fixed_part_def)
next
  case (Cons p path)
  let ?s = "step_of buf p" and ?ss = "map (step_of buf) path"
  have ih: "atJsonPathImplCommon buf path e res = (select (fixed_part ?ss) [e] \<noteq> [], res @ select ?ss [e])"
    if "e \<in> set (selected ?s d)" for e res
    using Cons selected_child [OF Cons.prems(1) that] by simp
  have p: "is_wildcard p \<or> is_key p \<or> is_index p" using Cons.prems(2) by (simp add: node_in_def)
  consider (w) "is_wildcard p" | (k) "\<not> is_wildcard p" "is_key p" | (i) "\<not> is_wildcard p" "\<not> is_key p" "is_index p"
    using p by blast
  then show ?case
  proof cases
    case w
    then have s: "?s = PWild" by (simp add: step_of_def)
    have none: "child_values d = []" if "\<not> dn_IsObject d" "\<not> dn_IsArray d"
      using that by (cases d) (simp_all add: child_values_def dn_kind)
    have "fold (\<lambda>cur res. snd (atJsonPathImplCommon buf path cur res)) (child_values d) res = res @ select ?ss (child_values d)"
      using ih s by (intro fold_selects) simp
    then show ?thesis using w s none by (simp add: fixed_part_Cons)
  next
    case k
    then have s: "?s = PName (jp_name buf p)" by (simp add: step_of_def)
    show ?thesis
    proof (cases d)
      case (DObject m ms)
      have ok: "obj_ok (m, ms)" "getMap m = None \<or> distinct (names_of ms)" using Cons.prems(1) DObject by simp_all
      note f = first_member [OF ok, of "jp_name buf p"]
      show ?thesis
        using k DObject f ih s by (auto simp: fixed_part_Cons Let_def)
    qed (use k s in \<open>simp_all add: fixed_part_Cons\<close>)
  next
    case i
    then have s: "?s = PAt (sint (jp_index p))" by (simp add: step_of_def)
    show ?thesis
    proof (cases d)
      case (DArray m es)
      have len: "length es < 2 ^ 63" using Cons.prems(1) DArray by simp
      note f = array_index [OF len, of "jp_index p"]
      show ?thesis
      proof (cases "selected ?s d")
        case Nil
        then show ?thesis using i DArray f s by (auto simp: fixed_part_Cons Let_def split: if_splits)
      next
        case c: (Cons e es')
        then show ?thesis using i DArray f ih [of e] s by (auto simp: fixed_part_Cons Let_def split: if_splits)
      qed
    qed (use i s in \<open>simp_all add: fixed_part_Cons\<close>)
  qed
qed

subsection \<open>The code\<close>

definition dn_IsNull :: "dnode \<Rightarrow> bool" where "dn_IsNull d \<longleftrightarrow> dn_getBasicType d = kNull"
definition dn_IsString :: "dnode \<Rightarrow> bool" where "dn_IsString d \<longleftrightarrow> dn_getBasicType d = kString"

text \<open>The loop over several nodes; \<open>Inl\<close> is its return with an error.\<close>

fun serialize_nodes :: "realloc \<Rightarrow> isa \<Rightarrow> page \<Rightarrow> dnode list \<Rightarrow> WriteBuffer \<Rightarrow> (SonicError + WriteBuffer) option" where
  "serialize_nodes ra i pg [] wb = Some (Inr wb)"
| "serialize_nodes ra i pg (node # nodes) wb = do {
     (err, wb) \<leftarrow> SerializeImpl ra i pg (flags_or kSerializeAppendBuffer kSerializeEscapeEmoji) node wb;
     (if err \<noteq> kErrorNone then Some (Inl err)
      else do { wb \<leftarrow> Stack_Push ra [0x2C] wb; serialize_nodes ra i pg nodes wb })
   }"

text \<open>The text of the nodes found, in \<open>Serialize\<close> of \<open>dump.h\<close> and again in \<open>GetByJsonPathInternal\<close>.\<close>

definition Serialize_result :: "realloc \<Rightarrow> isa \<Rightarrow> page \<Rightarrow> dnode list \<Rightarrow> (bytes \<times> SonicError) option" where
  "Serialize_result ra i pg nodes =
     (let nodes = filter (\<lambda>node. \<not> dn_IsNull node) nodes; wb = WriteBuffer_new ra in
      if nodes = [] then Some (bytes_of ''null'', kErrorNone)
      else do {
        r \<leftarrow> (if length nodes = 1 then
               (let root = nodes ! 0 in
                if dn_IsString root then do {
                  s \<leftarrow> GetStringView root;
                  map_option Inr (Stack_PushStr ra s wb)
                }
                else do {
                  (err, wb) \<leftarrow> SerializeImpl ra i pg kSerializeEscapeEmoji root wb;
                  Some (if err \<noteq> kErrorNone then Inl err else Inr wb)
                })
              else do {
                wb \<leftarrow> Stack_Push ra [0x5B] wb;
                r \<leftarrow> serialize_nodes ra i pg nodes wb;
                (case r of
                   Inl err \<Rightarrow> Some (Inl err)
                 | Inr wb \<Rightarrow> do {
                     top \<leftarrow> Stack_Top 1 wb;
                     wb \<leftarrow> (if top = [0x2C] then Stack_Pop 1 wb else Some wb);
                     map_option Inr (Stack_Push ra [0x5D] wb)
                   })
              });
        (case r of
           Inl err \<Rightarrow> Some ([], err)
         | Inr wb \<Rightarrow> do { (wb, sv) \<leftarrow> WriteBuffer_ToStringView ra wb; Some (sv, kErrorNone) })
      })"

definition GetByJsonPathInternal :: "realloc \<Rightarrow> isa \<Rightarrow> page \<Rightarrow> dnode \<Rightarrow> bytes \<Rightarrow> (bytes \<times> SonicError) option" where
  "GetByJsonPathInternal ra i pg doc jsonpath = do {
     result \<leftarrow> AtJsonPath doc jsonpath;
     (if jr_error result \<noteq> kErrorNone then Some ([], jr_error result) else Serialize_result ra i pg (jr_nodes result))
   }"

text \<open>A text parsed into a new document with its own allocator, under the default flags; the parameters are the ones of \<^const>\<open>doc_Parse\<close>.\<close>

definition new_Parse ::
  "isa \<Rightarrow> bool \<Rightarrow> ('a \<Rightarrow> 'a) \<Rightarrow> 'a malloc \<Rightarrow> 'a malloc \<Rightarrow> bytes \<Rightarrow> 'a \<Rightarrow> bytes \<Rightarrow> 'a document option" where
  "new_Parse i nf cl ra ma pad al json = doc_Parse i 0 nf cl ra ma pad json (document_new None al)"

definition GetByJsonPath ::
  "isa \<Rightarrow> bool \<Rightarrow> ('a \<Rightarrow> 'a) \<Rightarrow> 'a malloc \<Rightarrow> 'a malloc \<Rightarrow> bytes \<Rightarrow> 'a \<Rightarrow> realloc \<Rightarrow> page \<Rightarrow> bytes \<Rightarrow> bytes \<Rightarrow> (bytes \<times> SonicError) option" where
  "GetByJsonPath i nf cl sra ma pad al ra pg json jsonpath = do {
     doc \<leftarrow> new_Parse i nf cl sra ma pad al json;
     (if HasParseError doc then Some ([], GetParseError doc) else GetByJsonPathInternal ra i pg (doc_root doc) jsonpath)
   }"

definition GetByJsonPaths ::
  "isa \<Rightarrow> bool \<Rightarrow> ('a \<Rightarrow> 'a) \<Rightarrow> 'a malloc \<Rightarrow> 'a malloc \<Rightarrow> bytes \<Rightarrow> 'a \<Rightarrow> realloc \<Rightarrow> page \<Rightarrow> bytes \<Rightarrow> bytes list
   \<Rightarrow> ((bytes \<times> SonicError) list \<times> SonicError) option" where
  "GetByJsonPaths i nf cl sra ma pad al ra pg json jsonpaths = do {
     doc \<leftarrow> new_Parse i nf cl sra ma pad al json;
     (if HasParseError doc then Some ([], GetParseError doc)
      else do {
        results \<leftarrow> those (map (GetByJsonPathInternal ra i pg (doc_root doc)) jsonpaths);
        Some (results, kErrorNone)
      })
   }"

subsection \<open>What it answers\<close>

text \<open>The reference: the answer for a list of nodes.\<close>

definition text_answer :: "bytes option \<Rightarrow> bytes \<times> SonicError" where
  "text_answer t = (case t of None \<Rightarrow> ([], kSerErrorInfinity) | Some t \<Rightarrow> (t, kErrorNone))"

definition path_answer :: "dnode list \<Rightarrow> bytes \<times> SonicError" where
  "path_answer nodes = (case filter (\<lambda>d. d \<noteq> DNull) nodes of
      [] \<Rightarrow> (bytes_of ''null'', kErrorNone)
    | [d] \<Rightarrow> (case d of DStr k s \<Rightarrow> (s, kErrorNone) | _ \<Rightarrow> text_answer (node_text kSerializeEscapeEmoji d))
    | ds \<Rightarrow> text_answer (map_option (\<lambda>ts. 0x5B # comma_sep ts @ [0x5D])
        (those (map (node_text (flags_or kSerializeAppendBuffer kSerializeEscapeEmoji)) ds))))"

lemma dn_IsNull_iff: "dn_IsNull d \<longleftrightarrow> d = DNull" and dn_IsString_iff: "dn_IsString d \<longleftrightarrow> is_DStr d"
  by (cases d; simp add: dn_IsNull_def dn_IsString_def dn_getBasicType_def type_code_defs split: str_kind.splits)+

lemma append_flag: "flags_and (flags_or kSerializeAppendBuffer kSerializeEscapeEmoji) kSerializeAppendBuffer"
  "\<not> flags_and kSerializeEscapeEmoji kSerializeAppendBuffer"
  by code_simp+

lemma serialize_nodes_ok:
  assumes "realloc_ok ra" and "page_ok i pg"
  shows "stack_ok wb \<Longrightarrow> \<forall>d \<in> set ds. ser_ok d \<Longrightarrow>
    case those (map (node_text (flags_or kSerializeAppendBuffer kSerializeEscapeEmoji)) ds) of
      None \<Rightarrow> serialize_nodes ra i pg ds wb = Some (Inl kSerErrorInfinity)
    | Some ts \<Rightarrow> length ts = length ds \<and> (\<exists>wb'. serialize_nodes ra i pg ds wb = Some (Inr wb') \<and> stack_ok wb'
        \<and> stack_contents wb' = stack_contents wb @ items ts)"
proof (induction ds arbitrary: wb)
  case (Cons d ds)
  let ?fl = "flags_or kSerializeAppendBuffer kSerializeEscapeEmoji"
  have "ser_ok d" using Cons.prems(2) by simp
  note ser = SerializeImpl_ok [OF assms this Cons.prems(1), of ?fl]
  show ?case
  proof (cases "node_text ?fl d")
    case None
    then show ?thesis using ser by auto
  next
    case (Some t)
    then obtain w where w: "SerializeImpl ra i pg ?fl d wb = Some (kErrorNone, w)" "stack_ok w" "stack_contents w = stack_contents wb @ t"
      using ser append_flag(1) by auto
    obtain w' where w': "Stack_Push ra [0x2C] w = Some w'" "stack_ok w'" "stack_contents w' = stack_contents w @ [0x2C]"
      using Stack_Push_ok [OF assms(1) w(2), of "[0x2C]"] by blast
    show ?thesis using Cons.IH [OF w'(2)] Cons.prems(2) Some w w' by (auto split: option.splits)
  qed
qed simp

lemma top_comma:
  assumes "stack_ok wb" and "stack_contents wb = t @ [c]"
  shows "Stack_Top 1 wb = Some [c]" "Stack_Pop 1 wb = Some (wb\<lparr>st_top := st_top wb - 1\<rparr>)"
    "stack_ok (wb\<lparr>st_top := st_top wb - 1\<rparr>)" "stack_contents (wb\<lparr>st_top := st_top wb - 1\<rparr>) = t"
proof -
  have l: "st_top wb = length t + 1" using stack_top_contents [OF assms(1)] assms(2) by simp
  have b: "take (length t + 1) (st_buf wb) = t @ [c]" "length t + 1 \<le> length (st_buf wb)"
    using assms l by (simp_all add: stack_contents_def stack_ok_def)
  have "take 1 (drop (length t) (st_buf wb)) = drop (length t) (take (length t + 1) (st_buf wb))" by (simp add: drop_take)
  then show "Stack_Top 1 wb = Some [c]" using b l by (simp add: Stack_Top_def)
  show "Stack_Pop 1 wb = Some (wb\<lparr>st_top := st_top wb - 1\<rparr>)" using l by (simp add: Stack_Pop_def)
  show "stack_ok (wb\<lparr>st_top := st_top wb - 1\<rparr>)" using assms(1) by (auto simp: stack_ok_def)
  have "stack_contents (wb\<lparr>st_top := st_top wb - 1\<rparr>) = take (length t) (take (length t + 1) (st_buf wb))"
    using l by (simp add: stack_contents_def min_def)
  then show "stack_contents (wb\<lparr>st_top := st_top wb - 1\<rparr>) = t" unfolding b(1) by simp
qed

lemma ToStringView_ok:
  assumes "realloc_ok ra" and "stack_ok wb"
  shows "\<exists>wb'. WriteBuffer_ToStringView ra wb = Some (wb', stack_contents wb)"
proof -
  obtain wb' where w: "WriteBuffer_ToString ra wb = Some (wb', stack_contents wb @ [0])" "stack_ok wb'" "stack_contents wb' = stack_contents wb"
    using WriteBuffer_ToString_ok [OF assms] by auto
  have "Stack_Size wb' = length (stack_contents wb)" using stack_top_contents [OF w(2)] w(3) by (simp add: Stack_Size_def)
  then show ?thesis using w(1) by (simp add: WriteBuffer_ToStringView_def)
qed

lemma Serialize_result_ok:
  assumes "realloc_ok ra" and "page_ok i pg" and "\<forall>d \<in> set nodes. ser_ok d"
  shows "Serialize_result ra i pg nodes = Some (path_answer nodes)"
proof -
  let ?ns = "filter (\<lambda>d. d \<noteq> DNull) nodes" and ?wb = "WriteBuffer_new ra"
  note new = WriteBuffer_new_ok [OF assms(1)]
  have ns: "\<forall>d \<in> set ?ns. ser_ok d" using assms(3) by simp
  have f: "filter (\<lambda>node. \<not> dn_IsNull node) nodes = ?ns" by (simp add: dn_IsNull_iff)
  show ?thesis
  proof (cases ?ns)
    case Nil
    then show ?thesis by (simp add: Serialize_result_def f path_answer_def)
  next
    case one: (Cons d ds)
    show ?thesis
    proof (cases ds)
      case Nil
      show ?thesis
      proof (cases "is_DStr d")
        case True
        then obtain k s where d: "d = DStr k s" using is_DStr_view by blast
        obtain w where w: "Stack_PushStr ra s ?wb = Some w" "stack_ok w" "stack_contents w = s"
          using Stack_PushStr_ok [OF assms(1) new(1), of s] new(2) by auto
        then show ?thesis using ToStringView_ok [OF assms(1) w(2)] one Nil d
          by (auto simp: Serialize_result_def f path_answer_def dn_IsString_iff)
      next
        case False
        have a: "path_answer nodes = text_answer (node_text kSerializeEscapeEmoji d)"
          using one Nil False by (cases d) (simp_all add: path_answer_def)
        have "ser_ok d" using ns one by simp
        note ser = SerializeImpl_ok [OF assms(1,2) this new(1), of kSerializeEscapeEmoji]
        show ?thesis
        proof (cases "node_text kSerializeEscapeEmoji d")
          case None
          then show ?thesis using ser one Nil False
            by (auto simp: Serialize_result_def f a text_answer_def dn_IsString_iff)
        next
          case (Some t)
          then obtain w where w: "SerializeImpl ra i pg kSerializeEscapeEmoji d ?wb = Some (kErrorNone, w)" "stack_ok w" "stack_contents w = t"
            using ser append_flag(2) by auto
          then show ?thesis using ToStringView_ok [OF assms(1) w(2)] one Nil False Some
            by (auto simp: Serialize_result_def f a text_answer_def dn_IsString_iff)
        qed
      qed
    next
      case two: (Cons e es)
      let ?ts = "those (map (node_text (flags_or kSerializeAppendBuffer kSerializeEscapeEmoji)) ?ns)"
      have a: "path_answer nodes = text_answer (map_option (\<lambda>ts. 0x5B # comma_sep ts @ [0x5D]) ?ts)"
        using one two by (simp add: path_answer_def)
      have n: "?ns \<noteq> []" "length ?ns \<noteq> 1" using one two by simp_all
      obtain w where w: "Stack_Push ra [0x5B] ?wb = Some w" "stack_ok w" "stack_contents w = [0x5B]"
        using Stack_Push_ok [OF assms(1) new(1), of "[0x5B]"] new(2) by auto
      note sn = serialize_nodes_ok [OF assms(1,2) w(2) ns]
      show ?thesis
      proof (cases ?ts)
        case None
        then have "serialize_nodes ra i pg ?ns w = Some (Inl kSerErrorInfinity)" using sn by simp
        then show ?thesis using n w(1) None by (simp add: Serialize_result_def f a text_answer_def Let_def)
      next
        case (Some ts)
        then obtain w1 where w1: "serialize_nodes ra i pg ?ns w = Some (Inr w1)" "stack_ok w1" "length ts = length ?ns"
            "stack_contents w1 = 0x5B # items ts"
          using sn w(3) by auto
        have "ts \<noteq> []" using n(1) w1(3) by (metis length_0_conv)
        then have c: "stack_contents w1 = (0x5B # comma_sep ts) @ [0x2C]" using w1(4) by (simp add: items_comma)
        note tc = top_comma [OF w1(2) c]
        obtain w2 where w2: "Stack_Push ra [0x5D] (w1\<lparr>st_top := st_top w1 - 1\<rparr>) = Some w2" "stack_ok w2"
            "stack_contents w2 = 0x5B # comma_sep ts @ [0x5D]"
          using Stack_Push_ok [OF assms(1) tc(3), of "[0x5D]"] tc(4) by auto
        obtain w3 where "WriteBuffer_ToStringView ra w2 = Some (w3, 0x5B # comma_sep ts @ [0x5D])"
          using ToStringView_ok [OF assms(1) w2(2)] w2(3) by auto
        then show ?thesis using n w(1) w1(1) tc(1,2) w2(1) Some
          by (simp add: Serialize_result_def f a text_answer_def Let_def)
      qed
    qed
  qed
qed

text \<open>The selected nodes, and the answer to a path.\<close>

lemma AtJsonPath_selects:
  assumes "first_named d"
  shows "AtJsonPath d path = Some (case ref_path path of
      None \<Rightarrow> \<lparr>jr_nodes = [], jr_error = kUnsupportedJsonPath\<rparr>
    | Some ss \<Rightarrow> if select (fixed_part ss) [d] = [] then \<lparr>jr_nodes = [], jr_error = kNotFoundByJsonPath\<rparr>
        else \<lparr>jr_nodes = select ss [d], jr_error = kErrorNone\<rparr>)"
proof (cases "ref_path path")
  case None
  then show ?thesis using path_parse_cases [of path] by (auto simp: AtJsonPath_def JsonPath_Parse_def)
next
  case (Some ss)
  then obtain ps buf where p: "ParsePaddedInternal (paddingJsonPath path) (length path) = Some (True, JsonPathNode_token ROOT # ps, buf)"
      "map (step_of buf) ps = ss" "list_all (node_in (length path)) ps"
    using path_parse_cases [of path] by (auto simp: JsonPath_Parse_def)
  have root: "is_root (JsonPathNode_token ROOT)" by (simp add: is_root_def JsonPathNode_token_def)
  show ?thesis
  proof (cases ps)
    case Nil
    then show ?thesis using p Some root by (simp add: AtJsonPath_def fixed_part_def)
  next
    case (Cons q qs)
    then show ?thesis using p(1,2) Some at_path_selects [OF assms p(3), of buf "[]"]
      by (simp add: AtJsonPath_def)
  qed
qed

lemma select_ser_ok: "(\<forall>d \<in> set ds. ser_ok d) \<Longrightarrow> e \<in> set (select ss ds) \<Longrightarrow> ser_ok e"
proof (induction ss arbitrary: ds)
  case (Cons s ss)
  have step: "ser_ok e" if "ser_ok d" "e \<in> set (selected s d)" for d e
    using that selected_child_value [of e s d] by (cases d) (auto simp: child_values_def)
  have "\<forall>d \<in> set (concat (map (selected s) ds)). ser_ok d" using Cons.prems(1) step by auto
  then show ?case by (rule Cons.IH) (use Cons.prems(2) in simp)
qed simp

definition path_lookup :: "dnode \<Rightarrow> bytes \<Rightarrow> bytes \<times> SonicError" where
  "path_lookup d path = (case ref_path path of
      None \<Rightarrow> ([], kUnsupportedJsonPath)
    | Some ss \<Rightarrow> if select (fixed_part ss) [d] = [] then ([], kNotFoundByJsonPath) else path_answer (select ss [d]))"

lemma lookup_answer:
  assumes "realloc_ok ra" and "page_ok i pg" and "first_named d" and "ser_ok d"
  shows "GetByJsonPathInternal ra i pg d path = Some (path_lookup d path)"
proof (cases "ref_path path")
  case (Some ss)
  have "\<forall>e \<in> set (select ss [d]). ser_ok e" using select_ser_ok [of "[d]"] assms(4) by auto
  then show ?thesis
    using Serialize_result_ok [OF assms(1,2), of "select ss [d]"] Some
    by (simp add: GetByJsonPathInternal_def path_lookup_def AtJsonPath_selects [OF assms(3)])
qed (simp add: GetByJsonPathInternal_def path_lookup_def AtJsonPath_selects [OF assms(3)])


definition sample_lookup :: "path_step list" where
  "sample_lookup = [PName (bytes_of ''a''), PWild]"


text \<open>From a text: the answer is the one for the tree of its value, or the lack of memory is reported.\<close>

lemma number_node_fits: "first_named (number_node ev)" "ser_ok (number_node ev)"
  by (cases ev; simp add: dnode_int64_def)+

lemma json_node_fits: "json_nodes v < 2 ^ 30 \<Longrightarrow> first_named (json_node v) \<and> ser_ok (json_node v)"
proof (induction v rule: json_nodes.induct)
  case (1 vs)
  have each: "json_nodes v \<le> sum_list (map json_nodes vs)" if "v \<in> set vs" for v
    using that by (intro member_le_sum_list) simp_all
  have pos: "1 \<le> json_nodes v" for v by (cases v) simp_all
  have "length vs \<le> sum_list (map json_nodes vs)"
  proof (induction vs)
    case (Cons v vs)
    then show ?case using pos [of v] by simp
  qed simp
  then have "length vs < 2 ^ 30" using 1(2) by simp
  moreover have "json_nodes v < 2 ^ 30" if "v \<in> set vs" for v using each [OF that] 1(2) by simp
  ultimately show ?case using 1(1) by auto
next
  case (2 ms)
  have each: "1 + json_nodes (snd m) \<le> sum_list (map (\<lambda>m. 1 + json_nodes (snd m)) ms)" if "m \<in> set ms" for m
    using that by (intro member_le_sum_list) (auto intro: image_eqI)
  have "length ms \<le> sum_list (map (\<lambda>m. 1 + json_nodes (snd m)) ms)" by (induction ms) simp_all
  then have l: "length ms < 2 ^ 30" using 2(2) by simp
  have n: "json_nodes (snd m) < 2 ^ 30" if "m \<in> set ms" for m using each [OF that] 2(2) by simp
  have "obj_ok (new_meta (length ms), map (\<lambda>m. (DStr SCopy (snd (fst m)), json_node (snd m))) ms) \<and> getMap (new_meta (length ms)) = None"
    by (auto simp: obj_ok_def named_def getMap_def new_meta_def new_MetaNode_def)
  then show ?case using l n 2(1) by auto
qed (simp_all add: number_node_fits)

lemma get_by_json_path_text:
  assumes "realloc_ok ra" and "page_ok i pg" and "length json + 2 < 2 ^ 31" and "length pad = 61"
    and "json_text 0 (allocateStringBuffer json pad) (length json) v"
  shows "GetByJsonPath i nf cl sra ma pad al ra pg json path \<in> {Some (path_lookup (json_node v) path), Some ([], kErrorNoMem)}"
proof -
  have new: "doc_alloc (document_new None al) \<noteq> None" by (simp add: document_new_def)
  obtain d where d: "doc_Parse i 0 nf cl sra ma pad json (document_new None al) = Some d"
    using json_document_returns [OF assms(3,4) new assms(5)] by blast
  note c = document_parse_cases [OF assms(3,4) d]
  have err: "GetParseError d \<in> {kErrorNone, kErrorNoMem}" using c assms(5) by blast
  have "json_nodes v < 2 ^ 30" using json_text_ok(2) [OF padded_buffer [OF assms(4)] assms(5)] assms(3) by simp
  note fit = json_node_fits [OF this]
  have root: "GetParseError d = kErrorNone \<Longrightarrow> doc_root d = json_node v" using c json_text_unique [OF assms(5)] by blast
  show ?thesis
    using err root lookup_answer [OF assms(1,2), of "json_node v"] fit
    by (auto simp: GetByJsonPath_def new_Parse_def d HasParseError_def GetParseError_def)
qed

end
